(* ===== verification/Prelude.thy ===== *)
theory Prelude
  imports Main "HOL-Library.Word"
begin

unbundle bit_operations_syntax

text \<open>
  Shared ground of the development: the types the C code uses, the byte-addressed memory that
  buffers live in, unsigned arithmetic with its wrap-around written out, and the lemma
  collections the component theories prove with.

  Conventions. An address is a \<^typ>\<open>nat\<close> and 0 is NULL. A \<open>uint32_t\<close> (\<open>uint16_t\<close>,
  \<open>uint64_t\<close>) that is only counted with is a \<^typ>\<open>nat\<close>, with \<open>u32\<close> (\<open>u16\<close>, \<open>u64\<close>) written
  around every operation that can wrap; one that is taken apart bit by bit is a word. An
  out-parameter is passed in with its old value and returned with its new one, so that
  "failures leave every output untouched" is an equation.
\<close>

named_theorems mem_simps \<open>reading back what was written to memory\<close>
named_theorems size_simps \<open>unsigned arithmetic that does not wrap\<close>

subsection \<open>Types\<close>

type_synonym byte = "8 word"
type_synonym addr = nat
type_synonym mem = "nat \<Rightarrow> byte"

subsection \<open>Unsigned arithmetic\<close>

definition UINT16_MAX :: nat where "UINT16_MAX = 65535"
definition UINT32_MAX :: nat where "UINT32_MAX = 4294967295"

definition u8 :: "nat \<Rightarrow> nat" where "u8 n = n mod 256"
definition u16 :: "nat \<Rightarrow> nat" where "u16 n = n mod 65536"
definition u32 :: "nat \<Rightarrow> nat" where "u32 n = n mod 4294967296"
definition u64 :: "nat \<Rightarrow> nat" where "u64 n = n mod 18446744073709551616"

text \<open>\<open>a - b\<close> on \<open>uint32_t\<close> operands: wraps below 0.\<close>

definition sub32 :: "nat \<Rightarrow> nat \<Rightarrow> nat" where
  "sub32 a b = u32 (a + (4294967296 - u32 b))"

lemma u8_id [simp, size_simps]: "n < 256 \<Longrightarrow> u8 n = n"
  by (simp add: u8_def)

lemma u16_id [simp, size_simps]: "n < 65536 \<Longrightarrow> u16 n = n"
  by (simp add: u16_def)

lemma u32_id [simp, size_simps]: "n \<le> UINT32_MAX \<Longrightarrow> u32 n = n"
  by (simp add: u32_def UINT32_MAX_def)

lemma u32_bound [simp]: "u32 n \<le> UINT32_MAX"
  using mod_less_divisor [of 4294967296 n] by (simp add: u32_def UINT32_MAX_def)

lemma u16_bound [simp]: "u16 n < 65536"
  by (simp add: u16_def)

lemma u64_id [simp, size_simps]: "n < 18446744073709551616 \<Longrightarrow> u64 n = n"
  by (simp add: u64_def)

lemma sub32_id [simp, size_simps]: "b \<le> a \<Longrightarrow> a \<le> UINT32_MAX \<Longrightarrow> sub32 a b = a - b"
proof -
  assume "b \<le> a" "a \<le> UINT32_MAX"
  then have "a + (4294967296 - u32 b) = (a - b) + 4294967296" "a - b < 4294967296"
    by (simp_all add: u32_def UINT32_MAX_def)
  then show ?thesis by (simp add: sub32_def u32_def)
qed

lemma sub32_bound [simp]: "sub32 a b \<le> UINT32_MAX"
  by (simp add: sub32_def)

subsection \<open>Memory: runs of bytes\<close>

definition rd :: "mem \<Rightarrow> addr \<Rightarrow> nat \<Rightarrow> byte list" where
  "rd m a n = map m [a..<a + n]"

definition wr :: "mem \<Rightarrow> addr \<Rightarrow> byte list \<Rightarrow> mem" where
  "wr m a bs = (\<lambda>x. if a \<le> x \<and> x < a + length bs then bs ! (x - a) else m x)"

text \<open>\<open>memcpy(dst, src, n)\<close> for runs that do not overlap, and \<open>memset(dst, b, n)\<close>.\<close>

definition memcpy :: "mem \<Rightarrow> addr \<Rightarrow> addr \<Rightarrow> nat \<Rightarrow> mem" where
  "memcpy m dst src n = wr m dst (rd m src n)"

definition memset :: "mem \<Rightarrow> addr \<Rightarrow> byte \<Rightarrow> nat \<Rightarrow> mem" where
  "memset m dst b n = wr m dst (replicate n b)"

text \<open>
  \<open>strlen\<close>: the bytes before the terminator, \<open>None\<close> where no terminator ever comes and the C
  call has no defined result.
\<close>

partial_function (option) strlen :: "mem \<Rightarrow> addr \<Rightarrow> nat option" where
  "strlen m a = (if m a = 0 then Some 0 else Option.bind (strlen m (Suc a)) (\<lambda>n. Some (Suc n)))"

lemma length_rd [simp]: "length (rd m a n) = n"
  by (simp add: rd_def)

lemma rd_0 [simp]: "rd m a 0 = []"
  by (simp add: rd_def)

lemma nth_rd [simp]: "i < n \<Longrightarrow> rd m a n ! i = m (a + i)"
  by (simp add: rd_def)

lemma rd_Suc: "rd m a (Suc n) = m a # rd m (Suc a) n"
  by (simp add: rd_def upt_rec)

lemma rd_1: "rd m a 1 = [m a]"
  by (simp add: rd_def)

lemma rd_2: "rd m a 2 = [m a, m (a + 1)]"
  by (simp add: rd_def upt_rec)

lemma rd_snoc: "rd m a (Suc n) = rd m a n @ [m (a + n)]"
  by (simp add: rd_def)

lemma rd_add: "rd m a (i + j) = rd m a i @ rd m (a + i) j"
proof -
  have "[a..<a + (i + j)] = [a..<a + i] @ [a + i..<a + i + j]"
    using upt_add_eq_append [of a "a + i" j] by (simp add: add.assoc)
  then show ?thesis by (simp add: rd_def)
qed

lemma rd_cong: "(\<And>x. a \<le> x \<Longrightarrow> x < a + n \<Longrightarrow> m x = m' x) \<Longrightarrow> rd m a n = rd m' a n"
  by (simp add: rd_def)

lemma rd_eq_iff: "rd m a n = bs \<longleftrightarrow> length bs = n \<and> (\<forall>i<n. m (a + i) = bs ! i)"
  by (auto simp: list_eq_iff_nth_eq)

lemma wr_in [mem_simps]: "i < length bs \<Longrightarrow> wr m a bs (a + i) = bs ! i"
  by (simp add: wr_def)

lemma wr_below [mem_simps]: "x < a \<Longrightarrow> wr m a bs x = m x"
  by (simp add: wr_def)

lemma wr_above [mem_simps]: "a + length bs \<le> x \<Longrightarrow> wr m a bs x = m x"
  by (simp add: wr_def)

lemma wr_Nil [simp]: "wr m a [] = m"
  by (auto simp: wr_def fun_eq_iff)

lemma rd_wr_same [mem_simps]: "length bs = n \<Longrightarrow> rd (wr m a bs) a n = bs"
  by (simp add: rd_eq_iff mem_simps)

lemma rd_wr_apart [mem_simps]:
  "b + n \<le> a \<or> a + length bs \<le> b \<Longrightarrow> rd (wr m a bs) b n = rd m b n"
  by (auto intro!: rd_cong simp: wr_def)

lemma rd_upd_apart [mem_simps]: "x < a \<or> a + n \<le> x \<Longrightarrow> rd (m(x := v)) a n = rd m a n"
  by (auto intro!: rd_cong)

lemma memcpy_apart [mem_simps]: "x < d \<or> d + n \<le> x \<Longrightarrow> memcpy m d s n x = m x"
  by (auto simp: memcpy_def wr_def)

lemma rd_memcpy [mem_simps]: "rd (memcpy m d s n) d n = rd m s n"
  by (simp add: memcpy_def mem_simps)

lemma memset_apart [mem_simps]: "x < d \<or> d + n \<le> x \<Longrightarrow> memset m d b n x = m x"
  by (auto simp: memset_def wr_def)

lemma rd_memset [mem_simps]: "rd (memset m d b n) d n = replicate n b"
  by (simp add: memset_def mem_simps)

lemma strlen_0: "m a = 0 \<Longrightarrow> strlen m a = Some 0"
  by (simp add: strlen.simps [of m a])

lemma strlen_eq: "m (a + n) = 0 \<Longrightarrow> (\<And>i. i < n \<Longrightarrow> m (a + i) \<noteq> 0) \<Longrightarrow> strlen m a = Some n"
proof (induction n arbitrary: a)
  case 0
  then show ?case by (simp add: strlen_0)
next
  case (Suc n)
  have "strlen m (Suc a) = Some n"
    using Suc.prems(1) Suc.prems(2) [of "Suc _"] by (intro Suc.IH) simp_all
  moreover have "m a \<noteq> 0" using Suc.prems(2) [of 0] by simp
  ultimately show ?case by (simp add: strlen.simps [of m a])
qed

lemma strlen_Some:
  assumes "strlen m a = Some n"
  shows "m (a + n) = 0 \<and> (\<forall>i<n. m (a + i) \<noteq> 0)"
proof (rule strlen.raw_induct [where P = "\<lambda>m a n. m (a + n) = 0 \<and> (\<forall>i<n. m (a + i) \<noteq> 0)", OF _ assms])
  fix f :: "mem \<Rightarrow> addr \<Rightarrow> nat option" and m :: mem and a n
  assume IH: "\<And>m a n. f m a = Some n \<Longrightarrow> m (a + n) = 0 \<and> (\<forall>i<n. m (a + i) \<noteq> 0)"
    and eq: "(if m a = 0 then Some 0 else Option.bind (f m (Suc a)) (\<lambda>n. Some (Suc n))) = Some n"
  show "m (a + n) = 0 \<and> (\<forall>i<n. m (a + i) \<noteq> 0)"
  proof (cases "m a = 0")
    case True
    with eq show ?thesis by simp
  next
    case False
    with eq obtain k where k: "f m (Suc a) = Some k" and n: "n = Suc k"
      by (auto split: bind_splits)
    have "m (a + i) \<noteq> 0" if "i < n" for i
      using IH [OF k] that n False by (cases i) auto
    with IH [OF k] n show ?thesis by simp
  qed
qed

lemma strlen_rd:
  assumes "rd m a (length s) = s" "0 \<notin> set s" "m (a + length s) = 0"
  shows "strlen m a = Some (length s)"
proof (rule strlen_eq)
  show "m (a + length s) = 0" by (rule assms(3))
  fix i assume i: "i < length s"
  then have "m (a + i) = s ! i" using assms(1) nth_rd by metis
  with i assms(2) show "m (a + i) \<noteq> 0" by (metis nth_mem)
qed

subsection \<open>Bytes and characters\<close>

definition ascii :: "string \<Rightarrow> byte list" where
  "ascii s = map of_char s"

text \<open>A statement about every byte is a statement about 256 numbers, which the kernel can check.\<close>

lemma all_bytes: "(\<forall>b::byte. P b) \<longleftrightarrow> list_all (\<lambda>n. P (of_nat n)) [0..<256]"
proof
  assume *: "list_all (\<lambda>n. P (of_nat n)) [0..<256]"
  show "\<forall>b::byte. P b"
  proof
    fix b :: byte
    have "unat b \<in> set [0..<256]" using unsigned_less [of b] by simp
    then have "P (of_nat (unat b))" using * unfolding list_all_iff by blast
    then show "P b" by simp
  qed
qed (simp add: list_all_iff)

lemma length_ascii [simp]: "length (ascii s) = length s"
  by (simp add: ascii_def)

subsection \<open>Regions of the address space\<close>

definition region :: "addr \<Rightarrow> nat \<Rightarrow> addr set" where
  "region a n = {a..<a + n}"

lemma in_region [simp]: "x \<in> region a n \<longleftrightarrow> a \<le> x \<and> x < a + n"
  by (simp add: region_def)

lemma region_0 [simp]: "region a 0 = {}"
  by (simp add: region_def)

lemma region_disjoint_iff:
  "0 < n \<Longrightarrow> 0 < k \<Longrightarrow> region a n \<inter> region b k = {} \<longleftrightarrow> a + n \<le> b \<or> b + k \<le> a"
  by (auto simp: region_def)

lemma region_subset: "b \<le> a \<Longrightarrow> a + n \<le> b + k \<Longrightarrow> region a n \<subseteq> region b k"
  by (auto simp: region_def)

lemma region_split: "region a (n + k) = region a n \<union> region (a + n) k"
  by (auto simp: region_def)

end
