(* ===== verification/Results.thy ===== *)
theory Results
  imports Prelude
begin

text \<open>
  The one result code of the library (\<^verbatim>\<open>include/arnm/result.h\<close>, \<^verbatim>\<open>src/result.c\<close>): the
  enumeration in its order, its numbering, and \<^verbatim>\<open>arnm_result_to_string\<close>.
\<close>

datatype arnm_result =
    ARNM_SUCCESS
  | ARNM_WARNING_ARENA_MEMORY_NOT_RECLAIMED
  | ARNM_WARNING_USED_DYNAMIC_ALLOCATION_FALLBACK
  | ARNM_ERROR_NOT_IMPLEMENTED_YET
  | ARNM_ERROR_NOT_INITIALIZED
  | ARNM_ERROR_INVALID_PARAM
  | ARNM_ERROR_INVALID_ENUM_TYPE
  | ARNM_ERROR_INVALID_STATE
  | ARNM_ERROR_NULL_POINTER
  | ARNM_ERROR_ARITHMETIC_OVERFLOW
  | ARNM_ERROR_OUT_OF_MEMORY
  | ARNM_ERROR_ARRAY_INDEX_OUT_OF_BOUNDS
  | ARNM_ERROR_RESOURCE_EXHAUSTED
  | ARNM_ERROR_RESOURCE_SIZE_EXCEED
  | ARNM_ERROR_RESOURCE_IN_USE
  | ARNM_ERROR_DECODE_FAILED
  | ARNM_ERROR_ENCODE_FAILED
  | ARNM_ERROR_DESTINATION_BUFFER_TO_SMALL
  | ARNM_ERROR_ENUM_UNHANDLED
  | ARNM_ERROR_ENUM_UNKNOWN

definition all_results :: "arnm_result list" where
  "all_results =
    [ARNM_SUCCESS, ARNM_WARNING_ARENA_MEMORY_NOT_RECLAIMED,
     ARNM_WARNING_USED_DYNAMIC_ALLOCATION_FALLBACK, ARNM_ERROR_NOT_IMPLEMENTED_YET,
     ARNM_ERROR_NOT_INITIALIZED, ARNM_ERROR_INVALID_PARAM, ARNM_ERROR_INVALID_ENUM_TYPE,
     ARNM_ERROR_INVALID_STATE, ARNM_ERROR_NULL_POINTER, ARNM_ERROR_ARITHMETIC_OVERFLOW,
     ARNM_ERROR_OUT_OF_MEMORY, ARNM_ERROR_ARRAY_INDEX_OUT_OF_BOUNDS,
     ARNM_ERROR_RESOURCE_EXHAUSTED, ARNM_ERROR_RESOURCE_SIZE_EXCEED,
     ARNM_ERROR_RESOURCE_IN_USE, ARNM_ERROR_DECODE_FAILED, ARNM_ERROR_ENCODE_FAILED,
     ARNM_ERROR_DESTINATION_BUFFER_TO_SMALL, ARNM_ERROR_ENUM_UNHANDLED,
     ARNM_ERROR_ENUM_UNKNOWN]"

text \<open>The value C gives each enumerator: its position, counted from 0.\<close>

fun result_code :: "arnm_result \<Rightarrow> int" where
  "result_code ARNM_SUCCESS = 0"
| "result_code ARNM_WARNING_ARENA_MEMORY_NOT_RECLAIMED = 1"
| "result_code ARNM_WARNING_USED_DYNAMIC_ALLOCATION_FALLBACK = 2"
| "result_code ARNM_ERROR_NOT_IMPLEMENTED_YET = 3"
| "result_code ARNM_ERROR_NOT_INITIALIZED = 4"
| "result_code ARNM_ERROR_INVALID_PARAM = 5"
| "result_code ARNM_ERROR_INVALID_ENUM_TYPE = 6"
| "result_code ARNM_ERROR_INVALID_STATE = 7"
| "result_code ARNM_ERROR_NULL_POINTER = 8"
| "result_code ARNM_ERROR_ARITHMETIC_OVERFLOW = 9"
| "result_code ARNM_ERROR_OUT_OF_MEMORY = 10"
| "result_code ARNM_ERROR_ARRAY_INDEX_OUT_OF_BOUNDS = 11"
| "result_code ARNM_ERROR_RESOURCE_EXHAUSTED = 12"
| "result_code ARNM_ERROR_RESOURCE_SIZE_EXCEED = 13"
| "result_code ARNM_ERROR_RESOURCE_IN_USE = 14"
| "result_code ARNM_ERROR_DECODE_FAILED = 15"
| "result_code ARNM_ERROR_ENCODE_FAILED = 16"
| "result_code ARNM_ERROR_DESTINATION_BUFFER_TO_SMALL = 17"
| "result_code ARNM_ERROR_ENUM_UNHANDLED = 18"
| "result_code ARNM_ERROR_ENUM_UNKNOWN = 19"

definition result_messages :: "string list" where
  "result_messages =
    [''ARNM_SUCCESS'', ''ARNM_WARNING_ARENA_MEMORY_NOT_RECLAIMED'',
     ''ARNM_WARNING_USED_DYNAMIC_ALLOCATION_FALLBACK'', ''ARNM_ERROR_NOT_IMPLEMENTED_YET'',
     ''ARNM_ERROR_NOT_INITIALIZED'', ''ARNM_ERROR_INVALID_PARAM'',
     ''ARNM_ERROR_INVALID_ENUM_TYPE'', ''ARNM_ERROR_INVALID_STATE'',
     ''ARNM_ERROR_NULL_POINTER'', ''ARNM_ERROR_ARITHMETIC_OVERFLOW'',
     ''ARNM_ERROR_OUT_OF_MEMORY'', ''ARNM_ERROR_ARRAY_INDEX_OUT_OF_BOUNDS'',
     ''ARNM_ERROR_RESOURCE_EXHAUSTED'', ''ARNM_ERROR_RESOURCE_SIZE_EXCEED'',
     ''ARNM_ERROR_RESOURCE_IN_USE'', ''ARNM_ERROR_DECODE_FAILED'',
     ''ARNM_ERROR_ENCODE_FAILED'', ''ARNM_ERROR_DESTINATION_BUFFER_TO_SMALL'',
     ''ARNM_ERROR_ENUM_UNHANDLED'', ''ARNM_ERROR_ENUM_UNKNOWN'']"

definition arnm_result_to_string :: "int \<Rightarrow> string" where
  "arnm_result_to_string result =
    (if result < 0 \<or> result \<ge> int (length result_messages) then ''ARNM_ERROR_UNKNOWN''
     else result_messages ! nat result)"

text \<open>
  The contract result.h states for the order of the enumerators: success is 0, the warnings
  come before \<open>ARNM_ERROR_NOT_IMPLEMENTED_YET\<close>, the errors from there on. \<open>carried_out\<close> is
  what callers test when a warning counts as done.
\<close>

definition carried_out :: "arnm_result \<Rightarrow> bool" where
  "carried_out r \<longleftrightarrow> result_code r < result_code ARNM_ERROR_NOT_IMPLEMENTED_YET"

lemma result_code_all: "map result_code all_results = map int [0..<20]"
  by (simp add: all_results_def upt_rec)

lemma result_code_inj: "result_code r = result_code s \<Longrightarrow> r = s"
  by (cases r; cases s) simp_all

lemma in_all_results: "r \<in> set all_results"
  by (cases r) (simp_all add: all_results_def)

lemma distinct_result_messages: "distinct result_messages"
  by (simp add: result_messages_def)

lemma length_result_messages: "length result_messages = 20"
  by (simp add: result_messages_def)

lemma result_code_range: "0 \<le> result_code r \<and> result_code r < 20"
  by (cases r) simp_all

text \<open>\<open>arnm_result_to_string\<close> names each enumerator of the library, by its position in the
  enumeration, and answers \<open>ARNM_ERROR_UNKNOWN\<close> for every other value the C type can hold, negative
  ones and host codes included; no two results share a name.\<close>

theorem result_to_string_names:
  "map (\<lambda>r. arnm_result_to_string (result_code r)) all_results = result_messages \<and>
    (arnm_result_to_string c = ''ARNM_ERROR_UNKNOWN'' \<longleftrightarrow> c \<notin> range result_code) \<and>
    inj (\<lambda>r. arnm_result_to_string (result_code r)) \<and> range result_code = {0..<20}"
proof -
  have range: "range result_code = {0..<20}"
  proof -
    have "set (map result_code all_results) = {0..<20}" by (simp add: result_code_all image_int_atLeastLessThan)
    moreover have "set all_results = UNIV" using in_all_results by blast
    ultimately show ?thesis by simp
  qed
  have unknown: "''ARNM_ERROR_UNKNOWN'' \<notin> set result_messages"
    by (simp add: result_messages_def)
  have named: "arnm_result_to_string c = result_messages ! nat c" if "0 \<le> c" "c < 20" for c
    using that by (simp add: arnm_result_to_string_def length_result_messages)
  have "arnm_result_to_string c = ''ARNM_ERROR_UNKNOWN'' \<longleftrightarrow> c \<notin> range result_code"
  proof (cases "0 \<le> c \<and> c < 20")
    case True
    then have "result_messages ! nat c \<in> set result_messages"
      by (intro nth_mem) (auto simp: length_result_messages)
    with True named [of c] unknown range show ?thesis by auto
  next
    case False
    then show ?thesis unfolding range by (auto simp: arnm_result_to_string_def length_result_messages)
  qed
  moreover have "map (\<lambda>r. arnm_result_to_string (result_code r)) all_results = result_messages"
    by (simp add: all_results_def named) (simp add: result_messages_def)
  moreover have "inj (\<lambda>r. arnm_result_to_string (result_code r))"
  proof (rule injI)
    fix r s
    assume "arnm_result_to_string (result_code r) = arnm_result_to_string (result_code s)"
    then have "nat (result_code r) = nat (result_code s)"
      using named result_code_range [of r] result_code_range [of s] distinct_result_messages
      by (auto simp: length_result_messages intro: nth_eq_iff_index_eq [THEN iffD1])
    then show "r = s" using result_code_range [of r] result_code_range [of s]
      by (intro result_code_inj) auto
  qed
  ultimately show ?thesis using range by blast
qed

end
