(* ===== verification/Decimal.thy ===== *)
theory Decimal
  imports Prelude
begin

text \<open>
  Integers to decimal text (\<^verbatim>\<open>src/converter.c\<close>, the first part): the unrolled digit count, the
  writer that fills a buffer from the back two digits at a time, and the one-call entry points.
  The reference is \<open>decimal\<close>, the digits of a number most significant first.
\<close>

subsection \<open>The code\<close>

definition arnm_uint64_to_string_size :: "nat \<Rightarrow> nat" where
  "arnm_uint64_to_string_size value =
    (if value < 100000000 then
       if value < 10000 then
         if value < 100 then (if value < 10 then 1 else 2)
         else (if value < 1000 then 3 else 4)
       else if value < 1000000 then (if value < 100000 then 5 else 6)
       else (if value < 10000000 then 7 else 8)
     else if value < 1000000000000 then
       if value < 10000000000 then (if value < 1000000000 then 9 else 10)
       else (if value < 100000000000 then 11 else 12)
     else if value < 10000000000000000 then
       if value < 100000000000000 then (if value < 10000000000000 then 13 else 14)
       else (if value < 1000000000000000 then 15 else 16)
     else if value < 100000000000000000 then 17
     else if value < 1000000000000000000 then 18
     else (if value < 10000000000000000000 then 19 else 20))"

text \<open>\<open>(uint64_t)0 - (uint64_t)v\<close> for a negative \<open>v\<close>: both conversions are modulo \<open>2 ^ 64\<close>.\<close>

definition int64_to_abs_u64 :: "int \<Rightarrow> nat" where
  "int64_to_abs_u64 v =
    (if v < 0 then nat ((0 - v mod 18446744073709551616) mod 18446744073709551616)
     else nat (v mod 18446744073709551616))"

definition arnm_int64_to_string_size :: "int \<Rightarrow> nat" where
  "arnm_int64_to_string_size v =
    (let str_size = arnm_uint64_to_string_size (int64_to_abs_u64 v)
     in if v < 0 then u8 (str_size + 1) else str_size)"

definition DIGIT_TABLE :: "byte list" where
  "DIGIT_TABLE = ascii
    (''00010203040506070809'' @
     ''10111213141516171819'' @
     ''20212223242526272829'' @
     ''30313233343536373839'' @
     ''40414243444546474849'' @
     ''50515253545556575859'' @
     ''60616263646566676869'' @
     ''70717273747576777879'' @
     ''80818283848586878889'' @
     ''90919293949596979899'')"

text \<open>
  The loop that writes two digits per turn. \<open>Inl\<close> is the early return: the buffer ran out
  before the digits did.
\<close>

function write_pairs :: "mem \<Rightarrow> addr \<Rightarrow> nat \<Rightarrow> nat \<Rightarrow> mem + mem \<times> nat \<times> nat" where
  "write_pairs m buffer temp cursor =
    (if 100 \<le> temp then
       if cursor < 2 then Inl m
       else
         let q = temp div 100;
             r = temp - q * 100;
             m = m(buffer + (cursor - 1) := DIGIT_TABLE ! (r * 2 + 1));
             m = m(buffer + (cursor - 2) := DIGIT_TABLE ! (r * 2))
         in write_pairs m buffer q (cursor - 2)
     else Inr (m, temp, cursor))"
  by pat_completeness auto
termination
  by (relation "measure (\<lambda>(m, buffer, temp, cursor). temp)") auto

declare write_pairs.simps [simp del]

definition arnm_uint64_to_string_known_string_size ::
  "mem \<Rightarrow> addr \<Rightarrow> nat \<Rightarrow> nat \<Rightarrow> mem \<times> nat" where
  "arnm_uint64_to_string_known_string_size m buffer value stringSize =
    (if value = 0 then
       if stringSize < 1 then (m, 1)
       else (m(buffer := 48, buffer + 1 := 0), 1)
     else
       case write_pairs (m(buffer + stringSize := 0)) buffer value stringSize of
         Inl m \<Rightarrow> (m, arnm_uint64_to_string_size value)
       | Inr (m, temp, cursor) \<Rightarrow>
           if temp < 10 then
             if cursor < 1 then (m, arnm_uint64_to_string_size value)
             else (m(buffer + (cursor - 1) := 48 + of_nat temp), stringSize)
           else if cursor < 2 then (m, arnm_uint64_to_string_size value)
           else (m(buffer + (cursor - 1) := DIGIT_TABLE ! (temp * 2 + 1),
                   buffer + (cursor - 2) := DIGIT_TABLE ! (temp * 2)), stringSize))"

text \<open>\<open>stringSize - 1\<close> is narrowed to the \<open>uint8_t\<close> parameter, and the sum to the result.\<close>

definition arnm_int64_to_string_known_string_size ::
  "mem \<Rightarrow> addr \<Rightarrow> int \<Rightarrow> nat \<Rightarrow> mem \<times> nat" where
  "arnm_int64_to_string_known_string_size m buffer value stringSize =
    (if 0 \<le> value then
       arnm_uint64_to_string_known_string_size m buffer (nat value) stringSize
     else
       case arnm_uint64_to_string_known_string_size (m(buffer := 45)) (buffer + 1)
              (int64_to_abs_u64 value) (u8 (stringSize + 255)) of
         (m, written) \<Rightarrow> (m, u8 (written + 1)))"

definition arnm_uint64_to_string :: "mem \<Rightarrow> addr \<Rightarrow> nat \<Rightarrow> nat \<Rightarrow> mem \<times> nat" where
  "arnm_uint64_to_string m buffer bufferSize value =
    (let requiredSize = arnm_uint64_to_string_size value
     in if bufferSize < requiredSize + 1 then
          (if bufferSize \<noteq> 0 then m(buffer := 0) else m, requiredSize)
        else arnm_uint64_to_string_known_string_size m buffer value requiredSize)"

definition arnm_int64_to_string :: "mem \<Rightarrow> addr \<Rightarrow> nat \<Rightarrow> int \<Rightarrow> mem \<times> nat" where
  "arnm_int64_to_string m buffer bufferSize value =
    (let requiredSize = arnm_int64_to_string_size value
     in if bufferSize < requiredSize + 1 then
          (if bufferSize \<noteq> 0 then m(buffer := 0) else m, requiredSize)
        else arnm_int64_to_string_known_string_size m buffer value requiredSize)"

subsection \<open>The reference: decimal digits\<close>

fun decimal :: "nat \<Rightarrow> byte list" where
  "decimal n = (if n < 10 then [48 + of_nat n] else decimal (n div 10) @ [48 + of_nat (n mod 10)])"

declare decimal.simps [simp del]

definition decimal_int :: "int \<Rightarrow> byte list" where
  "decimal_int v = (if v < 0 then 45 # decimal (nat (- v)) else decimal (nat v))"

text \<open>Reading decimal text back, digit by digit.\<close>

definition parse_decimal :: "byte list \<Rightarrow> nat" where
  "parse_decimal = foldl (\<lambda>n c. 10 * n + unat (c - 48)) 0"

lemma decimal_small: "n < 10 \<Longrightarrow> decimal n = [48 + of_nat n]"
  by (simp add: decimal.simps)

lemma decimal_step: "10 \<le> n \<Longrightarrow> decimal n = decimal (n div 10) @ [48 + of_nat (n mod 10)]"
  by (subst decimal.simps) simp

lemma decimal_pair:
  assumes "100 \<le> n"
  shows "decimal n =
    decimal (n div 100) @ [48 + of_nat (n mod 100 div 10), 48 + of_nat (n mod 100 mod 10)]"
proof -
  have "10 \<le> n" "10 \<le> n div 10" using assms by simp_all
  moreover have "n div 10 div 10 = n div 100" by (simp add: div_mult2_eq [symmetric])
  moreover have "n div 10 mod 10 = n mod 100 div 10" "n mod 10 = n mod 100 mod 10"
    using mod_mult2_eq [of n 10 10] by simp_all
  ultimately show ?thesis by (simp add: decimal_step [of n] decimal_step [of "n div 10"])
qed

lemma decimal_two: "10 \<le> n \<Longrightarrow> n < 100 \<Longrightarrow> decimal n = [48 + of_nat (n div 10), 48 + of_nat (n mod 10)]"
  by (simp add: decimal_step decimal_small)

lemma length_decimal: "n < 10 ^ Suc k \<Longrightarrow> 10 ^ k \<le> n \<or> k = 0 \<Longrightarrow> length (decimal n) = Suc k"
proof (induction k arbitrary: n)
  case 0
  then show ?case by (simp add: decimal_small)
next
  case (Suc k)
  then have lo: "10 * 10 ^ k \<le> n" and hi: "n < 10 ^ Suc k * 10" by simp_all
  have "10 ^ k \<le> n div 10" using div_le_mono [OF lo, of 10] by simp
  moreover have "n div 10 < 10 ^ Suc k" using hi by (rule less_mult_imp_div_less)
  moreover have "10 \<le> n" using lo one_le_power [of "10::nat" k] by linarith
  ultimately show ?case using Suc.IH [of "n div 10"] by (simp add: decimal_step)
qed

lemma parse_decimal_snoc: "parse_decimal (xs @ [c]) = 10 * parse_decimal xs + unat (c - 48)"
  by (simp add: parse_decimal_def)

lemma parse_decimal_decimal [simp]: "parse_decimal (decimal n) = n"
proof (induction n rule: decimal.induct)
  case (1 n)
  have digit: "unat ((48 + of_nat (d :: nat) :: byte) - 48) = d" if "d < 10" for d
    using that by (simp add: unat_of_nat)
  show ?case
  proof (cases "n < 10")
    case True
    with digit [of n] show ?thesis
      by (simp add: decimal_small parse_decimal_def)
  next
    case False
    with "1.IH" digit [of "n mod 10"] show ?thesis
      by (simp add: decimal_step parse_decimal_snoc)
  qed
qed

lemma decimal_nonempty [simp]: "decimal n \<noteq> []"
  by (subst decimal.simps) simp

subsection \<open>The digit count\<close>

lemma uint64_size_bounds:
  "value < 10 ^ 20 \<Longrightarrow>
    value < 10 ^ Suc (arnm_uint64_to_string_size value - 1) \<and>
    (10 ^ (arnm_uint64_to_string_size value - 1) \<le> value \<or> arnm_uint64_to_string_size value - 1 = 0)"
  unfolding arnm_uint64_to_string_size_def by (simp split: if_split)

lemma uint64_size_range: "1 \<le> arnm_uint64_to_string_size v \<and> arnm_uint64_to_string_size v \<le> 20"
  unfolding arnm_uint64_to_string_size_def by (simp split: if_split)

lemma uint64_size_decimal:
  assumes "v < 18446744073709551616"
  shows "arnm_uint64_to_string_size v = length (decimal v)"
proof -
  have "v < 10 ^ 20" using assms by simp
  then have "length (decimal v) = Suc (arnm_uint64_to_string_size v - 1)"
    using uint64_size_bounds by (intro length_decimal) auto
  then show ?thesis using uint64_size_range [of v] by simp
qed

lemma int64_abs:
  assumes "- 9223372036854775808 \<le> v" "v < 9223372036854775808"
  shows "int64_to_abs_u64 v = nat \<bar>v\<bar>"
proof (cases "v < 0")
  case True
  have "v mod 18446744073709551616 = (v + 18446744073709551616) mod 18446744073709551616" by simp
  also have "\<dots> = v + 18446744073709551616" using True assms by (intro mod_pos_pos_trivial) auto
  finally have "v mod 18446744073709551616 = v + 18446744073709551616" .
  with True assms show ?thesis
    by (simp add: int64_to_abs_u64_def minus_mod_int_eq)
next
  case False
  with assms show ?thesis by (simp add: int64_to_abs_u64_def)
qed

lemma int64_size_decimal:
  assumes "- 9223372036854775808 \<le> v" "v < 9223372036854775808"
  shows "arnm_int64_to_string_size v = length (decimal_int v)"
proof -
  have "arnm_uint64_to_string_size (nat \<bar>v\<bar>) = length (decimal (nat \<bar>v\<bar>))"
    using assms by (intro uint64_size_decimal) simp
  moreover have "arnm_uint64_to_string_size (nat \<bar>v\<bar>) \<le> 20"
    using uint64_size_range by blast
  ultimately show ?thesis
    by (auto simp: abs_if arnm_int64_to_string_size_def int64_abs [OF assms] decimal_int_def Let_def)
qed

subsection \<open>The writer\<close>

lemma concat_pairs:
  assumes "r < n"
  shows "concat (map (\<lambda>r. [f r, g r]) [0..<n]) ! (r * 2) = f r"
    and "concat (map (\<lambda>r. [f r, g r]) [0..<n]) ! (r * 2 + 1) = g r"
proof -
  have len: "length (concat (map (\<lambda>r. [f r, g r]) [0..<n])) = n * 2" for n
    by (induction n) auto
  show "concat (map (\<lambda>r. [f r, g r]) [0..<n]) ! (r * 2) = f r"
    using assms by (induction n) (auto simp: nth_append len less_Suc_eq)
  show "concat (map (\<lambda>r. [f r, g r]) [0..<n]) ! (r * 2 + 1) = g r"
    using assms by (induction n) (auto simp: nth_append len less_Suc_eq)
qed

lemma DIGIT_TABLE_pairs:
  "DIGIT_TABLE = concat (map (\<lambda>r. [48 + of_nat (r div 10), 48 + of_nat (r mod 10)]) [0..<100])"
  by (simp add: DIGIT_TABLE_def ascii_def upt_rec)

lemma DIGIT_TABLE_pair:
  assumes "r < 100"
  shows "DIGIT_TABLE ! (r * 2) = 48 + of_nat (r div 10)"
    and "DIGIT_TABLE ! (r * 2 + 1) = 48 + of_nat (r mod 10)"
  unfolding DIGIT_TABLE_pairs using assms by (simp_all only: concat_pairs)

text \<open>
  What the loop leaves: a rest below 100 whose digits still have to go in front, the other
  digits already in place behind the cursor, and not a byte changed elsewhere.
\<close>

lemma write_pairs_correct:
  assumes "length (decimal temp) \<le> cursor"
  shows "\<exists>m' t c sfx. write_pairs m buffer temp cursor = Inr (m', t, c) \<and> t < 100 \<and>
    decimal temp = decimal t @ sfx \<and> c + length sfx = cursor \<and>
    rd m' (buffer + c) (length sfx) = sfx \<and>
    (\<forall>x. x < buffer + c \<or> buffer + cursor \<le> x \<longrightarrow> m' x = m x)"
  using assms
proof (induction m buffer temp cursor rule: write_pairs.induct)
  case (1 m buffer temp cursor)
  show ?case
  proof (cases "100 \<le> temp")
    case False
    then show ?thesis by (auto simp: write_pairs.simps [of m buffer temp cursor])
  next
    case True
    define q r where "q = temp div 100" and "r = temp mod 100"
    define d1 d0 where "d1 = (48 + of_nat (r div 10) :: byte)" and "d0 = (48 + of_nat (r mod 10) :: byte)"
    define m2 where "m2 = m(buffer + (cursor - 1) := d0, buffer + (cursor - 2) := d1)"
    have dec: "decimal temp = decimal q @ [d1, d0]"
      using decimal_pair [OF True] by (simp add: q_def r_def d1_def d0_def)
    then have cur: "2 \<le> cursor" "length (decimal q) \<le> cursor - 2"
      using "1.prems" by simp_all
    have r: "temp - q * 100 = r" "r < 100"
      by (simp_all add: q_def r_def minus_div_mult_eq_mod)
    have m2: "m2 = (m(buffer + (cursor - 1) := DIGIT_TABLE ! (r * 2 + 1)))
        (buffer + (cursor - 2) := DIGIT_TABLE ! (r * 2))"
      unfolding m2_def d1_def d0_def DIGIT_TABLE_pair [OF r(2)] ..
    have step: "write_pairs m buffer temp cursor = write_pairs m2 buffer q (cursor - 2)"
      using True cur r by (simp add: write_pairs.simps [of m buffer temp cursor] m2 Let_def flip: q_def)
    obtain m' t c sfx where IH: "write_pairs m2 buffer q (cursor - 2) = Inr (m', t, c)" "t < 100"
      "decimal q = decimal t @ sfx" "c + length sfx = cursor - 2"
      "rd m' (buffer + c) (length sfx) = sfx"
      "\<forall>x. x < buffer + c \<or> buffer + (cursor - 2) \<le> x \<longrightarrow> m' x = m2 x"
      using "1.IH" [OF True _ q_def r(1) [symmetric] refl m2 cur(2)] cur(1) by auto
    have tail: "m' (buffer + (cursor - 2)) = d1" "m' (buffer + (cursor - 2) + 1) = d0"
      using IH(6) cur(1) by (auto simp: m2_def)
    have "rd m' (buffer + c) (length sfx + 2) = sfx @ [d1, d0]"
    proof -
      have "rd m' (buffer + (cursor - 2)) 2 = [d1, d0]"
        using tail cur(1) by (simp add: rd_2)
      moreover have "buffer + c + length sfx = buffer + (cursor - 2)" using IH(4) by simp
      ultimately show ?thesis using IH(5) by (simp only: rd_add)
    qed
    moreover have "\<forall>x. x < buffer + c \<or> buffer + cursor \<le> x \<longrightarrow> m' x = m x"
      using IH(4,6) cur(1) by (auto simp: m2_def)
    ultimately show ?thesis
      using step IH(1-4) dec cur(1) by (intro exI [of _ m'] exI [of _ t] exI [of _ c] exI [of _ "sfx @ [d1, d0]"]) simp
  qed
qed

lemma known_string_size_correct:
  fixes m :: mem
  assumes "length (decimal v) = n"
  shows "\<exists>m'. arnm_uint64_to_string_known_string_size m buffer v n = (m', n) \<and>
    rd m' buffer n = decimal v \<and> m' (buffer + n) = 0 \<and>
    (\<forall>x. x < buffer \<or> buffer + n < x \<longrightarrow> m' x = m x)"
proof (cases "v = 0")
  case True
  with assms show ?thesis
    by (auto simp: arnm_uint64_to_string_known_string_size_def decimal_small rd_Suc)
next
  case False
  define m1 where "m1 = m(buffer + n := 0)"
  obtain m2 t c sfx where w: "write_pairs m1 buffer v n = Inr (m2, t, c)" "t < 100"
    "decimal v = decimal t @ sfx" "c + length sfx = n" "rd m2 (buffer + c) (length sfx) = sfx"
    "\<forall>x. x < buffer + c \<or> buffer + n \<le> x \<longrightarrow> m2 x = m1 x"
    using write_pairs_correct [of v n m1 buffer] assms by auto
  then have c: "c = length (decimal t)" using assms by simp
  define m3 where "m3 = (if t < 10 then m2(buffer + (c - 1) := 48 + of_nat t)
    else m2(buffer + (c - 1) := DIGIT_TABLE ! (t * 2 + 1), buffer + (c - 2) := DIGIT_TABLE ! (t * 2)))"
  have res: "arnm_uint64_to_string_known_string_size m buffer v n = (m3, n)"
    using False w(1,2) c
    by (auto simp: arnm_uint64_to_string_known_string_size_def m1_def m3_def decimal_small decimal_two)
  have front: "rd m3 buffer c = decimal t"
    using w(2) c DIGIT_TABLE_pair [of t]
    by (auto simp: m3_def decimal_small decimal_two rd_Suc)
  have apart: "m3 x = m2 x" if "x < buffer \<or> buffer + c \<le> x" for x
    using that w(2) c by (auto simp: m3_def decimal_small decimal_two)
  have "rd m3 (buffer + c) (length sfx) = sfx"
    using w(5) by (metis apart le_add1 rd_cong le_refl)
  then have "rd m3 buffer n = decimal v"
    using front w(3,4) rd_add [of m3 buffer c "length sfx"] by simp
  moreover have "m3 (buffer + n) = 0" "\<forall>x. x < buffer \<or> buffer + n < x \<longrightarrow> m3 x = m x"
    using apart w(4,6) by (auto simp: m1_def)
  ultimately show ?thesis using res by blast
qed

lemma int64_known_string_size_correct:
  fixes m :: mem
  assumes "- 9223372036854775808 \<le> v" "v < 9223372036854775808" "length (decimal_int v) = n"
  shows "\<exists>m'. arnm_int64_to_string_known_string_size m buffer v n = (m', n) \<and>
    rd m' buffer n = decimal_int v \<and> m' (buffer + n) = 0 \<and>
    (\<forall>x. x < buffer \<or> buffer + n < x \<longrightarrow> m' x = m x)"
proof (cases "v < 0")
  case False
  with assms known_string_size_correct [of "nat v" n m buffer] show ?thesis
    by (simp add: arnm_int64_to_string_known_string_size_def decimal_int_def)
next
  case True
  define k where "k = length (decimal (nat (- v)))"
  have n: "n = Suc k" using assms(3) True by (simp add: decimal_int_def k_def)
  have "k \<le> 20"
    using uint64_size_decimal [of "nat (- v)"] uint64_size_range [of "nat (- v)"] assms(1) True
    by (simp add: k_def)
  then have narrow: "u8 (n + 255) = k" "u8 (k + 1) = n" by (simp_all add: n u8_def)
  obtain m' where m': "arnm_uint64_to_string_known_string_size (m(buffer := 45)) (buffer + 1)
      (nat (- v)) k = (m', k)" "rd m' (buffer + 1) k = decimal (nat (- v))"
    "m' (buffer + 1 + k) = 0"
    "\<forall>x. x < buffer + 1 \<or> buffer + 1 + k < x \<longrightarrow> m' x = (m(buffer := 45)) x"
    using known_string_size_correct [of "nat (- v)" k "m(buffer := 45)" "buffer + 1"] k_def by auto
  have "arnm_int64_to_string_known_string_size m buffer v n = (m', n)"
    using True m'(1) narrow int64_abs [OF assms(1,2)]
    by (simp add: arnm_int64_to_string_known_string_size_def abs_if)
  moreover have "rd m' buffer n = decimal_int v"
    using m'(2,4) True by (simp add: n rd_Suc decimal_int_def)
  ultimately show ?thesis using m'(3,4) by (auto simp: n)
qed

section \<open>What the writers promise\<close>

text \<open>C38: \<open>arnm_uint64_to_string\<close> answers with the number of digits whatever the buffer holds. With
  room for the digits and the terminator it writes exactly the decimal digits, most significant
  first, and a zero behind them, and they read back as the value; with less it empties the buffer
  (when there is one). Never a byte outside the buffer is touched.\<close>

theorem uint64_to_string_correct:
  fixes m :: mem
  assumes "v < 18446744073709551616"
  shows "case arnm_uint64_to_string m buffer bufferSize v of (m', n) \<Rightarrow>
    n = length (decimal v) \<and>
    (if n < bufferSize
     then rd m' buffer n = decimal v \<and> m' (buffer + n) = 0 \<and> parse_decimal (rd m' buffer n) = v
     else m' = (if bufferSize = 0 then m else m(buffer := 0))) \<and>
    (\<forall>x. x < buffer \<or> buffer + bufferSize \<le> x \<longrightarrow> m' x = m x)"
  using known_string_size_correct [OF uint64_size_decimal [OF assms, symmetric], of m buffer]
  by (auto simp: arnm_uint64_to_string_def Let_def uint64_size_decimal [OF assms] split: if_splits)

lemma uint64_to_string_correct_witness:
  "case arnm_uint64_to_string (\<lambda>_. 0) 16 5 9075 of (m', n) \<Rightarrow>
    n = 4 \<and> rd m' 16 4 = ascii ''9075'' \<and> m' 20 = 0 \<and> parse_decimal (rd m' 16 4) = 9075"
proof -
  have dec: "ascii ''9075'' = decimal 9075" by (simp add: decimal_step decimal_small ascii_def)
  have len: "length (decimal 9075) = 4" by (simp add: decimal_step decimal_small)
  show ?thesis
    using uint64_to_string_correct [where v = 9075 and m = "\<lambda>_. 0" and buffer = 16 and bufferSize = 5] len
    unfolding dec by (auto simp: case_prod_beta)
qed

text \<open>\<open>arnm_int64_to_string\<close> does the same for every signed 64-bit value, the smallest one
  included, with a minus sign in front of the digits of a negative one.\<close>

theorem int64_to_string_correct:
  fixes m :: mem
  assumes "- 9223372036854775808 \<le> v" "v < 9223372036854775808"
  shows "case arnm_int64_to_string m buffer bufferSize v of (m', n) \<Rightarrow>
    n = length (decimal_int v) \<and>
    (if n < bufferSize then rd m' buffer n = decimal_int v \<and> m' (buffer + n) = 0
     else m' = (if bufferSize = 0 then m else m(buffer := 0))) \<and>
    (\<forall>x. x < buffer \<or> buffer + bufferSize \<le> x \<longrightarrow> m' x = m x)"
  using int64_known_string_size_correct [OF assms int64_size_decimal [OF assms, symmetric], of m buffer]
  by (auto simp: arnm_int64_to_string_def Let_def int64_size_decimal [OF assms] split: if_splits)

lemma int64_to_string_correct_witness:
  "case arnm_int64_to_string (\<lambda>_. 0) 16 24 (- 9223372036854775808) of (m', n) \<Rightarrow>
    n = 20 \<and> rd m' 16 20 = ascii ''-9223372036854775808'' \<and> m' 36 = 0"
proof -
  have dec: "ascii ''-9223372036854775808'' = decimal_int (- 9223372036854775808)"
    by (simp add: decimal_int_def decimal_step decimal_small ascii_def)
  have len: "length (decimal_int (- 9223372036854775808)) = 20"
    by (simp add: decimal_int_def decimal_step decimal_small)
  show ?thesis
    using int64_to_string_correct [where v = "- 9223372036854775808" and
        m = "\<lambda>_. 0" and buffer = 16 and bufferSize = 24] len
    unfolding dec by (auto simp: case_prod_beta)
qed

end
