(* ===== verification/Hex.thy ===== *)
theory Hex
  imports Results
begin

unbundle bit_operations_syntax

text \<open>
  Bytes to lowercase hex and back, and the uuid in its 8-4-4-4-12 form on top of both
  (\<^verbatim>\<open>src/converter.c\<close>, \<^verbatim>\<open>include/arnm/converter.h\<close>). Buffers are runs of the byte memory, so a
  write past the end of one would show. Every function returns its result code and the memory.
\<close>

subsection \<open>The code: hex\<close>

definition ARNM_HEX_STRING_LENGTH :: "nat \<Rightarrow> nat" where
  "ARNM_HEX_STRING_LENGTH bin_size = bin_size * 2 + 1"

definition ARNM_HEX_MAX_BINARY_SIZE :: nat where
  "ARNM_HEX_MAX_BINARY_SIZE = (UINT32_MAX - 1) div 2"

definition hex_digit :: "byte \<Rightarrow> byte" where
  "hex_digit n = n + (if n < 10 then 48 else 87)"

text \<open>One turn of the loop at index \<open>i\<close>, and the turns from \<open>i\<close> on.\<close>

definition to_hex_step :: "mem \<Rightarrow> addr \<Rightarrow> addr \<Rightarrow> nat \<Rightarrow> mem" where
  "to_hex_step m result_buffer bytes i =
    (let high = drop_bit 4 (m (bytes + i));
         low = m (bytes + i) AND 0x0F;
         m = m(result_buffer + i * 2 := hex_digit high)
     in m(result_buffer + i * 2 + 1 := hex_digit low))"

primrec to_hex_loop :: "mem \<Rightarrow> addr \<Rightarrow> addr \<Rightarrow> nat \<Rightarrow> nat \<Rightarrow> mem" where
  "to_hex_loop m result_buffer bytes i 0 = m"
| "to_hex_loop m result_buffer bytes i (Suc left) =
    to_hex_loop (to_hex_step m result_buffer bytes i) result_buffer bytes (Suc i) left"

definition arnm_binary_to_hex :: "mem \<Rightarrow> addr \<Rightarrow> addr \<Rightarrow> nat \<Rightarrow> arnm_result \<times> mem" where
  "arnm_binary_to_hex m result_buffer bytes sz =
    (if result_buffer = 0 \<or> bytes = 0 then (ARNM_ERROR_NULL_POINTER, m)
     else if sz > ARNM_HEX_MAX_BINARY_SIZE then (ARNM_ERROR_ARITHMETIC_OVERFLOW, m)
     else
       let m = to_hex_loop m result_buffer bytes 0 sz
       in (ARNM_SUCCESS, m(result_buffer + u32 (sz * 2) := 0)))"

text \<open>
  The decoder's view of one character: its nibble, computed for any byte, and whether it was a
  hex digit at all. Bit 5 is cleared to fold the cases; \<open>9\<close> is added when bit 6 is set.
\<close>

definition nibble_of :: "byte \<Rightarrow> byte" where
  "nibble_of c = (c AND 0x0F) + 9 * drop_bit 6 c"

definition is_hex_char :: "byte \<Rightarrow> bool" where
  "is_hex_char c \<longleftrightarrow> c - 48 \<le> 9 \<or> (c AND 0xDF) - 65 \<le> 5"

definition from_hex_step :: "mem \<Rightarrow> addr \<Rightarrow> addr \<Rightarrow> nat \<Rightarrow> bool \<Rightarrow> mem \<times> bool" where
  "from_hex_step m result_buffer hex i invalid =
    (let high_char = m (hex + i * 2);
         high = nibble_of high_char;
         invalid = (invalid \<or> \<not> is_hex_char high_char);
         low_char = m (hex + i * 2 + 1);
         low = nibble_of low_char;
         invalid = (invalid \<or> \<not> is_hex_char low_char)
     in (m(result_buffer + i := push_bit 4 high OR low), invalid))"

primrec from_hex_loop :: "mem \<Rightarrow> addr \<Rightarrow> addr \<Rightarrow> nat \<Rightarrow> bool \<Rightarrow> nat \<Rightarrow> mem \<times> bool" where
  "from_hex_loop m result_buffer hex i invalid 0 = (m, invalid)"
| "from_hex_loop m result_buffer hex i invalid (Suc left) =
    (case from_hex_step m result_buffer hex i invalid of
       (m, invalid) \<Rightarrow> from_hex_loop m result_buffer hex (Suc i) invalid left)"

definition arnm_binary_from_hex_with_known_hex_size ::
  "mem \<Rightarrow> addr \<Rightarrow> addr \<Rightarrow> nat \<Rightarrow> arnm_result \<times> mem" where
  "arnm_binary_from_hex_with_known_hex_size m result_buffer hex hex_size =
    (if result_buffer = 0 \<or> hex = 0 then (ARNM_ERROR_NULL_POINTER, m)
     else
       let bin_size = hex_size div 2
       in if bin_size * 2 \<noteq> hex_size then (ARNM_ERROR_INVALID_PARAM, m)
          else
            case from_hex_loop m result_buffer hex 0 False bin_size of
              (m, invalid) \<Rightarrow>
                if invalid then (ARNM_ERROR_DECODE_FAILED, memset m result_buffer 0 bin_size)
                else (ARNM_SUCCESS, m))"

definition arnm_binary_from_hex :: "mem \<Rightarrow> addr \<Rightarrow> addr \<Rightarrow> (arnm_result \<times> mem) option" where
  "arnm_binary_from_hex m result_buffer hex =
    (if hex = 0 then Some (ARNM_ERROR_NULL_POINTER, m)
     else map_option (arnm_binary_from_hex_with_known_hex_size m result_buffer hex) (strlen m hex))"

subsection \<open>The reference\<close>

definition hex_value :: "byte \<Rightarrow> byte option" where
  "hex_value c =
    (if 48 \<le> c \<and> c \<le> 57 then Some (c - 48)
     else if 65 \<le> c \<and> c \<le> 70 then Some (c - 55)
     else if 97 \<le> c \<and> c \<le> 102 then Some (c - 87)
     else None)"

definition hex_encode :: "byte list \<Rightarrow> byte list" where
  "hex_encode bs = concat (map (\<lambda>b. [hex_digit (drop_bit 4 b), hex_digit (b AND 15)]) bs)"

fun hex_decode :: "byte list \<Rightarrow> byte list option" where
  "hex_decode [] = Some []"
| "hex_decode [c] = None"
| "hex_decode (h # l # cs) =
    (case (hex_value h, hex_value l, hex_decode cs) of
       (Some a, Some b, Some bs) \<Rightarrow> Some ((push_bit 4 a OR b) # bs)
     | _ \<Rightarrow> None)"

text \<open>The branchless nibble and its validity test agree with the table of hex digits.\<close>

lemma hex_value_nibble: "hex_value c = (if is_hex_char c then Some (nibble_of c) else None)"
proof -
  have "\<forall>c. hex_value c = (if is_hex_char c then Some (nibble_of c) else None)"
    unfolding all_bytes by code_simp
  then show ?thesis by blast
qed

lemma hex_digits_of_byte:
  "hex_value (hex_digit (drop_bit 4 b)) = Some (drop_bit 4 b) \<and>
   hex_value (hex_digit (b AND 15)) = Some (b AND 15) \<and>
   push_bit 4 (drop_bit 4 b) OR (b AND 15) = b \<and>
   hex_digit (drop_bit 4 b) \<noteq> 0 \<and> hex_digit (b AND 15) \<noteq> 0"
proof -
  have "\<forall>b. hex_value (hex_digit (drop_bit 4 b)) = Some (drop_bit 4 b) \<and>
     hex_value (hex_digit (b AND 15)) = Some (b AND 15) \<and>
     push_bit 4 (drop_bit 4 b) OR (b AND 15) = b \<and>
     hex_digit (drop_bit 4 b) \<noteq> 0 \<and> hex_digit (b AND 15) \<noteq> 0"
    unfolding all_bytes by code_simp
  then show ?thesis by blast
qed

lemma hex_decode_encode [simp]: "hex_decode (hex_encode bs) = Some bs"
  by (induction bs) (simp_all add: hex_encode_def hex_digits_of_byte)

lemma length_hex_encode [simp]: "length (hex_encode bs) = 2 * length bs"
  by (induction bs) (simp_all add: hex_encode_def)

lemma hex_encode_nonzero: "0 \<notin> set (hex_encode bs)"
  using hex_digits_of_byte by (fastforce simp: hex_encode_def)

lemma hex_encode_append: "hex_encode (xs @ ys) = hex_encode xs @ hex_encode ys"
  by (simp add: hex_encode_def)

subsection \<open>The loops against the reference\<close>

lemma to_hex_step_frame: "x < d + i * 2 \<or> d + (i * 2 + 2) \<le> x \<Longrightarrow> to_hex_step m d s i x = m x"
  by (auto simp: to_hex_step_def Let_def)

lemma to_hex_loop_correct:
  assumes "s + (i + k) \<le> d \<or> d + 2 * (i + k) \<le> s"
  shows "rd (to_hex_loop m d s i k) (d + i * 2) (2 * k) = hex_encode (rd m (s + i) k) \<and>
    (\<forall>x. x < d + i * 2 \<or> d + (i + k) * 2 \<le> x \<longrightarrow> to_hex_loop m d s i k x = m x)"
  using assms
proof (induction k arbitrary: m i)
  case 0
  then show ?case by (simp add: hex_encode_def)
next
  case (Suc k)
  define m1 where "m1 = to_hex_step m d s i"
  have IH: "rd (to_hex_loop m1 d s (Suc i) k) (d + Suc i * 2) (2 * k) = hex_encode (rd m1 (s + Suc i) k)"
    "\<forall>x. x < d + Suc i * 2 \<or> d + (Suc i + k) * 2 \<le> x \<longrightarrow> to_hex_loop m1 d s (Suc i) k x = m1 x"
    using Suc.IH [of "Suc i" m1] Suc.prems by auto
  have src: "rd m1 (s + Suc i) k = rd m (s + Suc i) k"
    using Suc.prems by (intro rd_cong) (auto simp: m1_def to_hex_step_frame)
  have pair: "m1 (d + i * 2) = hex_digit (drop_bit 4 (m (s + i)))"
    "m1 (d + i * 2 + 1) = hex_digit (m (s + i) AND 15)"
    by (auto simp: m1_def to_hex_step_def Let_def)
  have "rd (to_hex_loop m1 d s (Suc i) k) (d + i * 2) (2 + 2 * k) =
      hex_encode [m (s + i)] @ hex_encode (rd m (s + Suc i) k)"
    using IH src pair by (simp only: rd_add) (simp add: rd_2 hex_encode_def)
  then have "rd (to_hex_loop m1 d s (Suc i) k) (d + i * 2) (2 * Suc k) = hex_encode (rd m (s + i) (Suc k))"
    by (simp add: rd_Suc hex_encode_def)
  moreover have "\<forall>x. x < d + i * 2 \<or> d + (i + Suc k) * 2 \<le> x \<longrightarrow> to_hex_loop m1 d s (Suc i) k x = m x"
    using IH(2) by (auto simp: m1_def to_hex_step_frame)
  ultimately show ?case by (simp add: m1_def)
qed

text \<open>
  Decoding may run in place: a byte lands at \<open>d + i\<close> only after the characters at \<open>h + 2 * i\<close>
  were read, so all that is asked is that the output does not start behind the input.
\<close>

lemma from_hex_loop_correct:
  assumes "d \<le> h \<or> h + 2 * (i + k) \<le> d"
  shows "\<exists>m'. from_hex_loop m d h i bad k =
      (m', bad \<or> hex_decode (rd m (h + i * 2) (2 * k)) = None) \<and>
    (\<forall>bs. hex_decode (rd m (h + i * 2) (2 * k)) = Some bs \<longrightarrow> rd m' (d + i) k = bs) \<and>
    (\<forall>x. x < d + i \<or> d + i + k \<le> x \<longrightarrow> m' x = m x)"
  using assms
proof (induction k arbitrary: m i bad)
  case 0
  then show ?case by simp
next
  case (Suc k)
  define hi lo where "hi = m (h + i * 2)" and "lo = m (h + i * 2 + 1)"
  define m1 where "m1 = m(d + i := push_bit 4 (nibble_of hi) OR nibble_of lo)"
  define bad1 where "bad1 = (bad \<or> \<not> is_hex_char hi \<or> \<not> is_hex_char lo)"
  have step: "from_hex_step m d h i bad = (m1, bad1)"
    by (auto simp: from_hex_step_def Let_def m1_def bad1_def hi_def lo_def)
  obtain m' where m': "from_hex_loop m1 d h (Suc i) bad1 k =
      (m', bad1 \<or> hex_decode (rd m1 (h + Suc i * 2) (2 * k)) = None)"
    "\<forall>bs. hex_decode (rd m1 (h + Suc i * 2) (2 * k)) = Some bs \<longrightarrow> rd m' (d + Suc i) k = bs"
    "\<forall>x. x < d + Suc i \<or> d + Suc i + k \<le> x \<longrightarrow> m' x = m1 x"
    using Suc.IH [of "Suc i" m1 bad1] Suc.prems by auto
  have rest: "rd m1 (h + Suc i * 2) (2 * k) = rd m (h + Suc i * 2) (2 * k)"
    using Suc.prems by (intro rd_cong) (auto simp: m1_def)
  have front: "rd m (h + i * 2) (2 * Suc k) = hi # lo # rd m (h + Suc i * 2) (2 * k)"
    by (simp add: rd_Suc hi_def lo_def)
  have here: "m' (d + i) = push_bit 4 (nibble_of hi) OR nibble_of lo"
    using m'(3) by (simp add: m1_def)
  have "from_hex_loop m d h i bad (Suc k) =
      (m', bad \<or> hex_decode (rd m (h + i * 2) (2 * Suc k)) = None)"
    using m'(1) step unfolding rest front
    by (auto simp: bad1_def hex_value_nibble split: option.splits)
  moreover have "\<forall>bs. hex_decode (rd m (h + i * 2) (2 * Suc k)) = Some bs \<longrightarrow> rd m' (d + i) (Suc k) = bs"
    using m'(2) here unfolding rest front
    by (auto simp: rd_Suc hex_value_nibble split: option.splits if_splits)
  moreover have "\<forall>x. x < d + i \<or> d + i + Suc k \<le> x \<longrightarrow> m' x = m x"
    using m'(3) by (auto simp: m1_def)
  ultimately show ?case by blast
qed

lemma binary_to_hex_correct:
  fixes m :: mem
  assumes "dst \<noteq> 0" "src \<noteq> 0" "n \<le> ARNM_HEX_MAX_BINARY_SIZE"
    and "src + n \<le> dst \<or> dst + ARNM_HEX_STRING_LENGTH n \<le> src"
  shows "\<exists>m'. arnm_binary_to_hex m dst src n = (ARNM_SUCCESS, m') \<and>
    rd m' dst (2 * n) = hex_encode (rd m src n) \<and> m' (dst + 2 * n) = 0 \<and>
    (\<forall>x. x < dst \<or> dst + ARNM_HEX_STRING_LENGTH n \<le> x \<longrightarrow> m' x = m x)"
proof -
  define m1 where "m1 = to_hex_loop m dst src 0 n"
  have loop: "rd m1 dst (2 * n) = hex_encode (rd m src n)"
    "\<forall>x. x < dst \<or> dst + n * 2 \<le> x \<longrightarrow> m1 x = m x"
    using to_hex_loop_correct [of src 0 n dst m] assms(4) by (auto simp: m1_def ARNM_HEX_STRING_LENGTH_def)
  have wrap: "u32 (n * 2) = n * 2"
    using assms(3) by (intro u32_id) (simp add: ARNM_HEX_MAX_BINARY_SIZE_def UINT32_MAX_def)
  have "arnm_binary_to_hex m dst src n = (ARNM_SUCCESS, m1(dst + n * 2 := 0))"
    using assms(1-3) wrap by (simp add: arnm_binary_to_hex_def m1_def Let_def)
  moreover have "rd (m1(dst + n * 2 := 0)) dst (2 * n) = hex_encode (rd m src n)"
    using loop(1) by (simp add: mem_simps)
  ultimately show ?thesis using loop(2) by (auto simp: ARNM_HEX_STRING_LENGTH_def mult.commute)
qed

lemma from_hex_known_size_correct:
  fixes m :: mem
  assumes "dst \<noteq> 0" "hex \<noteq> 0" "dst \<le> hex \<or> hex + n \<le> dst"
  shows "\<exists>m'. arnm_binary_from_hex_with_known_hex_size m dst hex n =
      (if odd n then ARNM_ERROR_INVALID_PARAM
       else if hex_decode (rd m hex n) = None then ARNM_ERROR_DECODE_FAILED else ARNM_SUCCESS, m') \<and>
    (odd n \<longrightarrow> m' = m) \<and>
    (even n \<longrightarrow> rd m' dst (n div 2) =
      (case hex_decode (rd m hex n) of None \<Rightarrow> replicate (n div 2) 0 | Some bs \<Rightarrow> bs)) \<and>
    (\<forall>x. x < dst \<or> dst + n div 2 \<le> x \<longrightarrow> m' x = m x)"
proof (cases "even n")
  case False
  then have "n div 2 * 2 \<noteq> n" by presburger
  with assms False show ?thesis
    by (simp add: arnm_binary_from_hex_with_known_hex_size_def Let_def)
next
  case True
  define k where "k = n div 2"
  have k: "2 * k = n" "k * 2 = n" using True by (simp_all add: k_def)
  obtain m1 where loop: "from_hex_loop m dst hex 0 False k = (m1, hex_decode (rd m hex n) = None)"
    "\<forall>bs. hex_decode (rd m hex n) = Some bs \<longrightarrow> rd m1 dst k = bs"
    "\<forall>x. x < dst \<or> dst + k \<le> x \<longrightarrow> m1 x = m x"
    using from_hex_loop_correct [of dst hex 0 k m False] assms(3) k by auto
  have "arnm_binary_from_hex_with_known_hex_size m dst hex n =
     (if hex_decode (rd m hex n) = None then (ARNM_ERROR_DECODE_FAILED, memset m1 dst 0 k)
      else (ARNM_SUCCESS, m1))"
    using assms(1,2) k(2) loop(1)
    by (simp add: arnm_binary_from_hex_with_known_hex_size_def Let_def flip: k_def)
  with loop True show ?thesis
    by (auto simp: mem_simps simp flip: k_def split: option.splits)
qed

subsection \<open>The code: uuid\<close>

text \<open>
  Both directions work in a local array of 33 characters; \<open>hex\<close> is the address it has on the
  stack.
\<close>

definition ARNM_UUID_BINARY_SIZE :: nat where "ARNM_UUID_BINARY_SIZE = 16"
definition ARNM_UUID_STRING_LENGTH :: nat where "ARNM_UUID_STRING_LENGTH = 36"

definition arnm_uuid_from_string ::
  "addr \<Rightarrow> mem \<Rightarrow> addr \<Rightarrow> addr \<Rightarrow> (arnm_result \<times> mem) option" where
  "arnm_uuid_from_string hex m uuid uuid_string =
    (if uuid = 0 \<or> uuid_string = 0 then Some (ARNM_ERROR_NULL_POINTER, m)
     else
       Option.bind (strlen m uuid_string) (\<lambda>len.
         if len \<noteq> ARNM_UUID_STRING_LENGTH then Some (ARNM_ERROR_INVALID_PARAM, m)
         else if m (uuid_string + 8) \<noteq> 45 \<or> m (uuid_string + 13) \<noteq> 45 \<or>
                 m (uuid_string + 18) \<noteq> 45 \<or> m (uuid_string + 23) \<noteq> 45 then
           Some (ARNM_ERROR_DECODE_FAILED, memset m uuid 0 ARNM_UUID_BINARY_SIZE)
         else
           let m = memcpy m hex uuid_string 8;
               m = memcpy m (hex + 8) (uuid_string + 9) 4;
               m = memcpy m (hex + 12) (uuid_string + 14) 4;
               m = memcpy m (hex + 16) (uuid_string + 19) 4;
               m = memcpy m (hex + 20) (uuid_string + 24) 12;
               m = m(hex + ARNM_UUID_BINARY_SIZE * 2 := 0)
           in arnm_binary_from_hex m uuid hex))"

definition arnm_uuid_to_string :: "addr \<Rightarrow> mem \<Rightarrow> addr \<Rightarrow> addr \<Rightarrow> mem" where
  "arnm_uuid_to_string hex m result_buffer uuid =
    (let m = snd (arnm_binary_to_hex m hex uuid ARNM_UUID_BINARY_SIZE);
         m = memcpy m result_buffer hex 8;
         m = m(result_buffer + 8 := 45);
         m = memcpy m (result_buffer + 9) (hex + 8) 4;
         m = m(result_buffer + 13 := 45);
         m = memcpy m (result_buffer + 14) (hex + 12) 4;
         m = m(result_buffer + 18 := 45);
         m = memcpy m (result_buffer + 19) (hex + 16) 4;
         m = m(result_buffer + 23 := 45);
         m = memcpy m (result_buffer + 24) (hex + 20) 12
     in m(result_buffer + ARNM_UUID_STRING_LENGTH := 0))"

text \<open>The canonical text of sixteen bytes.\<close>

definition uuid_text :: "byte list \<Rightarrow> byte list" where
  "uuid_text bs =
    (let h = hex_encode bs
     in take 8 h @ [45] @ take 4 (drop 8 h) @ [45] @ take 4 (drop 12 h) @ [45] @
        take 4 (drop 16 h) @ [45] @ drop 20 h)"

lemma rd_slice: "i + k \<le> n \<Longrightarrow> rd m (a + i) k = take k (drop i (rd m a n))"
  by (rule nth_equalityI) (simp_all add: add.assoc)

lemma rd_memcpy_apart [mem_simps]:
  "b + k \<le> d \<or> d + n \<le> b \<Longrightarrow> rd (memcpy m d s n) b k = rd m b k"
  by (auto intro!: rd_cong simp: memcpy_apart)

lemma rd_uuid:
  "rd m a 36 = rd m a 8 @ [m (a + 8)] @ rd m (a + 9) 4 @ [m (a + 13)] @ rd m (a + 14) 4 @
    [m (a + 18)] @ rd m (a + 19) 4 @ [m (a + 23)] @ rd m (a + 24) 12"
  by (simp add: numeral_eq_Suc rd_Suc)

lemma uuid_to_string_correct:
  fixes m :: mem
  assumes "uuid \<noteq> 0" "hex \<noteq> 0"
    and "uuid + 16 \<le> hex \<or> hex + 33 \<le> uuid"
    and "hex + 33 \<le> dst \<or> dst + 37 \<le> hex"
  shows "rd (arnm_uuid_to_string hex m dst uuid) dst 36 = uuid_text (rd m uuid 16)"
    and "arnm_uuid_to_string hex m dst uuid (dst + 36) = 0"
    and "x < dst \<or> dst + 37 \<le> x \<Longrightarrow> x < hex \<or> hex + 33 \<le> x \<Longrightarrow>
      arnm_uuid_to_string hex m dst uuid x = m x"
proof -
  obtain m1 where m1: "arnm_binary_to_hex m hex uuid 16 = (ARNM_SUCCESS, m1)"
    "rd m1 hex 32 = hex_encode (rd m uuid 16)"
    "\<forall>x. x < hex \<or> hex + 33 \<le> x \<longrightarrow> m1 x = m x"
    using binary_to_hex_correct [of hex uuid 16 m] assms
    by (auto simp: ARNM_HEX_STRING_LENGTH_def ARNM_HEX_MAX_BINARY_SIZE_def UINT32_MAX_def)
  define h where "h = hex_encode (rd m uuid 16)"
  have slices: "rd m1 hex 8 = take 8 h" "rd m1 (hex + 8) 4 = take 4 (drop 8 h)"
    "rd m1 (hex + 12) 4 = take 4 (drop 12 h)" "rd m1 (hex + 16) 4 = take 4 (drop 16 h)"
    "rd m1 (hex + 20) 12 = drop 20 h"
    using rd_slice [of 0 8 32 m1 hex] rd_slice [of 8 4 32 m1 hex] rd_slice [of 12 4 32 m1 hex]
      rd_slice [of 16 4 32 m1 hex] rd_slice [of 20 12 32 m1 hex] m1(2) by (simp_all add: h_def)
  let ?r = "arnm_uuid_to_string hex m dst uuid"
  note to_string = arnm_uuid_to_string_def m1(1) ARNM_UUID_BINARY_SIZE_def ARNM_UUID_STRING_LENGTH_def
    Let_def snd_conv
  have runs: "rd ?r dst 8 = rd m1 hex 8" "rd ?r (dst + 9) 4 = rd m1 (hex + 8) 4"
    "rd ?r (dst + 14) 4 = rd m1 (hex + 12) 4" "rd ?r (dst + 19) 4 = rd m1 (hex + 16) 4"
    "rd ?r (dst + 24) 12 = rd m1 (hex + 20) 12"
    using assms(4) by (auto simp: to_string mem_simps)
  have dashes: "?r (dst + 8) = 45" "?r (dst + 13) = 45" "?r (dst + 18) = 45" "?r (dst + 23) = 45"
    by (simp_all add: to_string mem_simps)
  show "rd ?r dst 36 = uuid_text (rd m uuid 16)"
    unfolding rd_uuid by (simp only: runs slices dashes uuid_text_def Let_def flip: h_def)
  show "?r (dst + 36) = 0" by (simp add: to_string)
  show "?r x = m x" if "x < dst \<or> dst + 37 \<le> x" "x < hex \<or> hex + 33 \<le> x"
    using that m1(3) by (auto simp: to_string mem_simps)
qed

lemma length_uuid_text: "length bs = 16 \<Longrightarrow> length (uuid_text bs) = 36"
  by (simp add: uuid_text_def Let_def)

lemma uuid_text_parts:
  assumes "length bs = 16"
  shows "uuid_text bs ! 8 = 45" "uuid_text bs ! 13 = 45" "uuid_text bs ! 18 = 45" "uuid_text bs ! 23 = 45"
    and "take 8 (uuid_text bs) @ take 4 (drop 9 (uuid_text bs)) @ take 4 (drop 14 (uuid_text bs)) @
      take 4 (drop 19 (uuid_text bs)) @ take 12 (drop 24 (uuid_text bs)) = hex_encode bs"
proof -
  have len: "length (hex_encode bs) = 32" using assms by simp
  show "uuid_text bs ! 8 = 45" "uuid_text bs ! 13 = 45" "uuid_text bs ! 18 = 45" "uuid_text bs ! 23 = 45"
    using len by (simp_all add: uuid_text_def Let_def nth_append)
  have split: "hex_encode bs = take 8 (hex_encode bs) @ take 4 (drop 8 (hex_encode bs)) @
     take 4 (drop 12 (hex_encode bs)) @ take 4 (drop 16 (hex_encode bs)) @ drop 20 (hex_encode bs)"
    by (rule nth_equalityI) (use len in \<open>auto simp: nth_append\<close>)
  show "take 8 (uuid_text bs) @ take 4 (drop 9 (uuid_text bs)) @ take 4 (drop 14 (uuid_text bs)) @
      take 4 (drop 19 (uuid_text bs)) @ take 12 (drop 24 (uuid_text bs)) = hex_encode bs"
    by (rule trans [OF _ split [symmetric]]) (use len in \<open>simp add: uuid_text_def Let_def\<close>)
qed

lemma uuid_from_string_correct:
  fixes m :: mem
  assumes "uuid \<noteq> 0" "s \<noteq> 0" "hex \<noteq> 0" "strlen m s = Some n"
    and "hex + 33 \<le> s \<or> s + 37 \<le> hex" and "uuid + 16 \<le> hex \<or> hex + 33 \<le> uuid"
    and "n = 36 \<Longrightarrow> rd m s 36 = uuid_text bs" and "length bs = 16"
  shows "n \<noteq> 36 \<Longrightarrow> arnm_uuid_from_string hex m uuid s = Some (ARNM_ERROR_INVALID_PARAM, m)"
    and "n = 36 \<Longrightarrow> \<exists>m'. arnm_uuid_from_string hex m uuid s = Some (ARNM_SUCCESS, m') \<and>
      rd m' uuid 16 = bs \<and>
      (\<forall>x. (x < uuid \<or> uuid + 16 \<le> x) \<and> (x < hex \<or> hex + 33 \<le> x) \<longrightarrow> m' x = m x)"
proof -
  show "n \<noteq> 36 \<Longrightarrow> arnm_uuid_from_string hex m uuid s = Some (ARNM_ERROR_INVALID_PARAM, m)"
    using assms(1,2,4) by (simp add: arnm_uuid_from_string_def ARNM_UUID_STRING_LENGTH_def)
  assume n: "n = 36"
  define t where "t = uuid_text bs"
  have t: "rd m s 36 = t" using assms(7) n by (simp add: t_def)
  have dash: "m (s + 8) = 45" "m (s + 13) = 45" "m (s + 18) = 45" "m (s + 23) = 45"
    using uuid_text_parts(1-4) [OF assms(8)] t nth_rd [of 8 36 m s] nth_rd [of 13 36 m s]
      nth_rd [of 18 36 m s] nth_rd [of 23 36 m s] by (simp_all add: t_def)
  define m1 where "m1 = (memcpy (memcpy (memcpy (memcpy (memcpy m hex s 8) (hex + 8) (s + 9) 4)
     (hex + 12) (s + 14) 4) (hex + 16) (s + 19) 4) (hex + 20) (s + 24) 12)(hex + 32 := 0)"
  have parts: "rd m1 hex 8 = rd m s 8" "rd m1 (hex + 8) 4 = rd m (s + 9) 4"
    "rd m1 (hex + 12) 4 = rd m (s + 14) 4" "rd m1 (hex + 16) 4 = rd m (s + 19) 4"
    "rd m1 (hex + 20) 12 = rd m (s + 24) 12"
    using assms(5) by (auto simp: m1_def mem_simps)
  have "rd m1 hex 32 = rd m s 8 @ rd m (s + 9) 4 @ rd m (s + 14) 4 @ rd m (s + 19) 4 @ rd m (s + 24) 12"
    unfolding parts [symmetric] by (simp add: numeral_eq_Suc rd_Suc)
  also have "\<dots> = hex_encode bs"
    using uuid_text_parts(5) [OF assms(8)] rd_slice [of 0 8 36 m s] rd_slice [of 9 4 36 m s]
      rd_slice [of 14 4 36 m s] rd_slice [of 19 4 36 m s] rd_slice [of 24 12 36 m s] t
    by (simp add: t_def)
  finally have hex32: "rd m1 hex 32 = hex_encode bs" .
  have len: "strlen m1 hex = Some 32"
    using strlen_rd [of m1 hex "hex_encode bs"] hex32 assms(8) hex_encode_nonzero
    by (simp add: m1_def)
  obtain m' where m': "arnm_binary_from_hex_with_known_hex_size m1 uuid hex 32 = (ARNM_SUCCESS, m')"
    "rd m' uuid 16 = bs" "\<forall>x. x < uuid \<or> uuid + 16 \<le> x \<longrightarrow> m' x = m1 x"
    using from_hex_known_size_correct [of uuid hex 32 m1] assms(1,3,6) hex32 by auto
  have "arnm_uuid_from_string hex m uuid s = Some (ARNM_SUCCESS, m')"
    using assms(1-4) n dash len m'(1)
    by (simp add: arnm_uuid_from_string_def ARNM_UUID_STRING_LENGTH_def ARNM_UUID_BINARY_SIZE_def
        arnm_binary_from_hex_def Let_def flip: m1_def)
  moreover have "m1 x = m x" if "x < hex \<or> hex + 33 \<le> x" for x
    using that by (auto simp: m1_def mem_simps)
  ultimately show "\<exists>m'. arnm_uuid_from_string hex m uuid s = Some (ARNM_SUCCESS, m') \<and>
      rd m' uuid 16 = bs \<and>
      (\<forall>x. (x < uuid \<or> uuid + 16 \<le> x) \<and> (x < hex \<or> hex + 33 \<le> x) \<longrightarrow> m' x = m x)"
    using m'(2,3) by auto
qed

section \<open>What the codecs promise\<close>

lemma strlen_hex:
  assumes "rd m a (2 * n) = hex_encode (rd m' b n)" "m (a + 2 * n) = 0"
  shows "strlen m a = Some (2 * n)"
  using strlen_rd [of m a "hex_encode (rd m' b n)"] assms hex_encode_nonzero
  by simp

text \<open>C33: What \<open>arnm_binary_to_hex\<close> writes, \<open>arnm_binary_from_hex\<close> reads back byte for byte,
  finding the end of the text by itself. The text takes \<open>2 * n\<close> characters and a terminator, and
  neither call touches a byte outside its destination.\<close>

theorem hex_round_trip:
  fixes m :: mem
  assumes "src \<noteq> 0" "text_at \<noteq> 0" "dst \<noteq> 0" "n \<le> ARNM_HEX_MAX_BINARY_SIZE"
    and "src + n \<le> text_at \<or> text_at + 2 * n + 1 \<le> src"
    and "dst \<le> text_at \<or> text_at + 2 * n \<le> dst"
  shows "\<exists>m1 m2. arnm_binary_to_hex m text_at src n = (ARNM_SUCCESS, m1) \<and>
    arnm_binary_from_hex m1 dst text_at = Some (ARNM_SUCCESS, m2) \<and>
    rd m2 dst n = rd m src n \<and>
    (\<forall>x. (x < text_at \<or> text_at + 2 * n + 1 \<le> x) \<and> (x < dst \<or> dst + n \<le> x) \<longrightarrow> m2 x = m x)"
proof -
  obtain m1 where m1: "arnm_binary_to_hex m text_at src n = (ARNM_SUCCESS, m1)"
    "rd m1 text_at (2 * n) = hex_encode (rd m src n)" "m1 (text_at + 2 * n) = 0"
    "\<forall>x. x < text_at \<or> text_at + (2 * n + 1) \<le> x \<longrightarrow> m1 x = m x"
    using binary_to_hex_correct [of text_at src n m] assms
    by (auto simp: ARNM_HEX_STRING_LENGTH_def mult.commute add.assoc)
  have decoded: "hex_decode (rd m1 text_at (2 * n)) = Some (rd m src n)"
    by (simp add: m1(2) hex_decode_encode)
  obtain m2 where "arnm_binary_from_hex_with_known_hex_size m1 dst text_at (2 * n) = (ARNM_SUCCESS, m2)"
    "rd m2 dst n = rd m src n" "\<forall>x. x < dst \<or> dst + n \<le> x \<longrightarrow> m2 x = m1 x"
    using from_hex_known_size_correct [of dst text_at "2 * n" m1] assms(2,3,6) by (auto simp: decoded)
  with m1 strlen_hex [OF m1(2,3)] assms(2) show ?thesis
    by (auto simp: arnm_binary_from_hex_def)
qed

lemma hex_round_trip_witness:
  "\<exists>m1 m2. arnm_binary_to_hex (wr (\<lambda>_. 0) 16 [0xDE, 0xAD]) 32 16 2 = (ARNM_SUCCESS, m1) \<and>
    arnm_binary_from_hex m1 64 32 = Some (ARNM_SUCCESS, m2) \<and> rd m2 64 2 = [0xDE, 0xAD]"
proof -
  have "rd (wr (\<lambda>_. 0) 16 [0xDE, 0xAD]) 16 2 = [0xDE, 0xAD]" by (simp add: mem_simps)
  then show ?thesis
    using hex_round_trip [of 16 32 64 2 "wr (\<lambda>_. 0) 16 [0xDE, 0xAD]"]
    by (auto simp: ARNM_HEX_MAX_BINARY_SIZE_def UINT32_MAX_def)
qed

text \<open>Decoding hex of a known length has three outcomes. An odd length is refused and nothing is
  written; any character that is no hex digit makes the call fail and leaves zeros where the bytes
  would have gone, so half a decode is never seen; otherwise the bytes are those the digit pairs
  stand for. The destination may be the text itself. Nothing outside the destination changes.\<close>

theorem hex_decode_outcomes:
  fixes m :: mem
  assumes "dst \<noteq> 0" "hex \<noteq> 0" "dst \<le> hex \<or> hex + n \<le> dst"
  shows "case arnm_binary_from_hex_with_known_hex_size m dst hex n of (result, m') \<Rightarrow>
    (if odd n then result = ARNM_ERROR_INVALID_PARAM \<and> m' = m
     else case hex_decode (rd m hex n) of
       None \<Rightarrow> result = ARNM_ERROR_DECODE_FAILED \<and> rd m' dst (n div 2) = replicate (n div 2) 0
     | Some bs \<Rightarrow> result = ARNM_SUCCESS \<and> rd m' dst (n div 2) = bs) \<and>
    (\<forall>x. x < dst \<or> dst + n div 2 \<le> x \<longrightarrow> m' x = m x)"
  using from_hex_known_size_correct [OF assms, of m] by (auto split: option.splits)

lemma hex_decode_outcomes_witness:
  "\<exists>m'. arnm_binary_from_hex_with_known_hex_size (wr (\<lambda>_. 0) 16 (ascii ''4G'')) 16 16 2 =
      (ARNM_ERROR_DECODE_FAILED, m') \<and> rd m' 16 1 = [0]"
proof -
  have "hex_decode (rd (wr (\<lambda>_. 0) 16 (ascii ''4G'')) 16 2) = None"
    by (simp add: mem_simps ascii_def hex_value_def)
  then show ?thesis
    using hex_decode_outcomes [of 16 16 2 "wr (\<lambda>_. 0) 16 (ascii ''4G'')"]
    by (cases "arnm_binary_from_hex_with_known_hex_size (wr (\<lambda>_. 0) 16 (ascii ''4G'')) 16 16 2") auto
qed

lemma uuid_text_shape: "length bs = 16 \<Longrightarrow> length (uuid_text bs) = 36 \<and> 0 \<notin> set (uuid_text bs)"
  using hex_encode_nonzero [of bs]
  by (auto simp: uuid_text_def Let_def length_hex_encode dest: in_set_takeD in_set_dropD)

text \<open>C34: A UUID written by \<open>arnm_uuid_to_string\<close> has the canonical 8-4-4-4-12 form of 36 characters
  and a terminator, and \<open>arnm_uuid_from_string\<close> reads the same sixteen bytes back from it.\<close>

theorem uuid_round_trip:
  fixes m :: mem
  assumes "uuid \<noteq> 0" "text_at \<noteq> 0" "dst \<noteq> 0" "hex \<noteq> 0"
    and "uuid + 16 \<le> hex \<or> hex + 33 \<le> uuid"
    and "hex + 33 \<le> text_at \<or> text_at + 37 \<le> hex" and "dst + 16 \<le> hex \<or> hex + 33 \<le> dst"
  shows "rd (arnm_uuid_to_string hex m text_at uuid) text_at 36 = uuid_text (rd m uuid 16) \<and>
    arnm_uuid_to_string hex m text_at uuid (text_at + 36) = 0 \<and>
    (\<exists>m'. arnm_uuid_from_string hex (arnm_uuid_to_string hex m text_at uuid) dst text_at =
        Some (ARNM_SUCCESS, m') \<and> rd m' dst 16 = rd m uuid 16)"
proof -
  let ?m1 = "arnm_uuid_to_string hex m text_at uuid"
  have written: "rd ?m1 text_at 36 = uuid_text (rd m uuid 16)" "?m1 (text_at + 36) = 0"
    using uuid_to_string_correct(1,2) [of uuid hex text_at m] assms by blast+
  moreover have "strlen ?m1 text_at = Some 36"
    using strlen_rd [of ?m1 text_at "uuid_text (rd m uuid 16)"] written uuid_text_shape [of "rd m uuid 16"]
    by simp
  ultimately show ?thesis
    using uuid_from_string_correct(2) [of dst text_at hex ?m1 36 "rd m uuid 16"] assms by auto
qed

lemma uuid_round_trip_witness:
  "rd (arnm_uuid_to_string 200 (wr (\<lambda>_. 0) 16 (replicate 16 0xAB)) 64 16) 64 36 =
      ascii ''abababab-abab-abab-abab-abababababab'' \<and>
    (\<exists>m'. arnm_uuid_from_string 200 (arnm_uuid_to_string 200 (wr (\<lambda>_. 0) 16 (replicate 16 0xAB)) 64 16)
        128 64 = Some (ARNM_SUCCESS, m') \<and> rd m' 128 16 = replicate 16 0xAB)"
proof -
  have bytes: "rd (wr (\<lambda>_. 0) 16 (replicate 16 0xAB)) 16 16 = replicate 16 (0xAB :: byte)"
    by (simp add: mem_simps)
  have "uuid_text (replicate 16 0xAB) = ascii ''abababab-abab-abab-abab-abababababab''"
    by code_simp
  then show ?thesis
    using uuid_round_trip [of 16 64 128 200 "wr (\<lambda>_. 0) 16 (replicate 16 0xAB)"] by (simp add: bytes)
qed

end
