(* ===== verification/Base64.thy ===== *)
theory Base64
  imports Results
begin

unbundle bit_operations_syntax

text \<open>
  Bytes to base64 and back (\<^verbatim>\<open>src/converter.c\<close>): the encoder, the one decode loop both
  decoders share, and the decode that runs over its own input. Buffers are runs of the byte
  memory; the three-byte groups are 32 bit words, as in the code.
\<close>

subsection \<open>The tables\<close>

definition BASE64_ALPHABET :: "byte list" where
  "BASE64_ALPHABET = ascii
    ''ABCDEFGHIJKLMNOPQRSTUVWXYZabcdefghijklmnopqrstuvwxyz0123456789+/''"

text \<open>The 256 entries of the way back, run by run: 255 marks a character with no value.\<close>

definition BASE64_VALUE :: "byte list" where
  "BASE64_VALUE =
    replicate 43 255 @ [62] @ replicate 3 255 @ [63] @
    [52, 53, 54, 55, 56, 57, 58, 59, 60, 61] @ replicate 7 255 @
    [0, 1, 2, 3, 4, 5, 6, 7, 8, 9, 10, 11, 12, 13, 14, 15, 16, 17, 18, 19, 20, 21, 22, 23, 24, 25] @
    replicate 6 255 @
    [26, 27, 28, 29, 30, 31, 32, 33, 34, 35, 36, 37, 38, 39, 40, 41, 42, 43, 44, 45, 46, 47, 48,
     49, 50, 51] @
    replicate 133 255"

definition BASE64_NO_VALUE :: byte where "BASE64_NO_VALUE = 255"

definition ARNM_BASE64_MAX_BINARY_SIZE :: nat where
  "ARNM_BASE64_MAX_BINARY_SIZE = ((UINT32_MAX - 1) div 4) * 3"

definition ARNM_BASE64_STRING_LENGTH :: "nat \<Rightarrow> nat" where
  "ARNM_BASE64_STRING_LENGTH sz = ((sz + 2) div 3) * 4"

definition ARNM_BASE64_BINARY_SIZE :: "nat \<Rightarrow> nat" where
  "ARNM_BASE64_BINARY_SIZE len = (len div 4) * 3"

subsection \<open>The encoder\<close>

definition alphabet_at :: "32 word \<Rightarrow> nat \<Rightarrow> byte" where
  "alphabet_at grp shift = BASE64_ALPHABET ! unat (drop_bit shift grp AND 0x3F)"

definition to_base64_step :: "mem \<Rightarrow> addr \<Rightarrow> addr \<Rightarrow> nat \<Rightarrow> mem" where
  "to_base64_step m result_buffer bytes k =
    (let in_at = bytes + k * 3;
         grp = push_bit 16 (ucast (m in_at)) OR push_bit 8 (ucast (m (in_at + 1))) OR
           (ucast (m (in_at + 2)) :: 32 word);
         out = result_buffer + k * 4
     in m(out := alphabet_at grp 18, out + 1 := alphabet_at grp 12,
          out + 2 := alphabet_at grp 6, out + 3 := alphabet_at grp 0))"

primrec to_base64_loop :: "mem \<Rightarrow> addr \<Rightarrow> addr \<Rightarrow> nat \<Rightarrow> nat \<Rightarrow> mem" where
  "to_base64_loop m result_buffer bytes k 0 = m"
| "to_base64_loop m result_buffer bytes k (Suc left) =
    to_base64_loop (to_base64_step m result_buffer bytes k) result_buffer bytes (Suc k) left"

definition arnm_binary_to_base64 :: "mem \<Rightarrow> addr \<Rightarrow> addr \<Rightarrow> nat \<Rightarrow> arnm_result \<times> mem" where
  "arnm_binary_to_base64 m result_buffer bytes sz =
    (if result_buffer = 0 \<or> bytes = 0 then (ARNM_ERROR_NULL_POINTER, m)
     else if sz > ARNM_BASE64_MAX_BINARY_SIZE then (ARNM_ERROR_ARITHMETIC_OVERFLOW, m)
     else
       let groups = sz div 3;
           m = to_base64_loop m result_buffer bytes 0 groups;
           written = u32 (groups * 4);
           rest = sub32 sz (groups * 3)
       in if rest \<noteq> 0 then
            let in_at = bytes + groups * 3;
                grp = push_bit 16 (ucast (m in_at)) OR
                  (if rest > 1 then push_bit 8 (ucast (m (in_at + 1))) else (0 :: 32 word));
                m = m(result_buffer + written := alphabet_at grp 18);
                m = m(result_buffer + (written + 1) := alphabet_at grp 12);
                m = m(result_buffer + (written + 2) := (if rest > 1 then alphabet_at grp 6 else 61));
                m = m(result_buffer + (written + 3) := 61);
                written = u32 (written + 4)
            in (ARNM_SUCCESS, m(result_buffer + written := 0))
          else (ARNM_SUCCESS, m(result_buffer + written := 0)))"

subsection \<open>The decoders\<close>

definition base64_padding :: "mem \<Rightarrow> addr \<Rightarrow> nat \<Rightarrow> nat" where
  "base64_padding m base64 len =
    (if m (base64 + (len - 1)) \<noteq> 61 then 0
     else if m (base64 + (len - 2)) = 61 then 2 else 1)"

text \<open>
  The inner loop over the four places \<open>ks\<close> of the group at \<open>i\<close>: \<open>None\<close> is the refusal, otherwise
  the assembled group. Padding contributes no bits.
\<close>

primrec decode_group :: "mem \<Rightarrow> addr \<Rightarrow> nat \<Rightarrow> nat \<Rightarrow> nat list \<Rightarrow> 32 word \<Rightarrow> 32 word option" where
  "decode_group m base64 len i [] grp = Some grp"
| "decode_group m base64 len i (k # ks) grp =
    (let c = m (base64 + (i + k));
         v = BASE64_VALUE ! unat c
     in if v = BASE64_NO_VALUE then
          let is_pad = c = 61 \<and> i + 4 = len \<and> 2 \<le> k \<and> (k = 3 \<or> m (base64 + (i + 3)) = 61)
          in if \<not> is_pad then None else decode_group m base64 len i ks grp
        else decode_group m base64 len i ks (grp OR push_bit (18 - 6 * k) (ucast v)))"

text \<open>One guarded store of the output, and the loop over the groups.\<close>

definition put_byte :: "addr \<Rightarrow> nat \<Rightarrow> nat \<Rightarrow> 32 word \<Rightarrow> mem \<times> nat \<Rightarrow> mem \<times> nat" where
  "put_byte result_buffer binary_size shift grp st =
    (case st of (m, out) \<Rightarrow>
       if out < binary_size then
         (m(result_buffer + out := ucast (drop_bit shift grp AND 0xFF)), out + 1)
       else (m, out))"

function base64_decode_loop ::
  "mem \<Rightarrow> addr \<Rightarrow> addr \<Rightarrow> nat \<Rightarrow> nat \<Rightarrow> nat \<Rightarrow> nat \<Rightarrow> arnm_result \<times> mem" where
  "base64_decode_loop m result_buffer base64 len binary_size i out =
    (if i < len then
       case decode_group m base64 len i [0, 1, 2, 3] 0 of
         None \<Rightarrow> (ARNM_ERROR_DECODE_FAILED, memset m result_buffer 0 binary_size)
       | Some grp \<Rightarrow>
           let st = put_byte result_buffer binary_size 16 grp (m, out);
               st = put_byte result_buffer binary_size 8 grp st;
               st = put_byte result_buffer binary_size 0 grp st
           in base64_decode_loop (fst st) result_buffer base64 len binary_size (i + 4) (snd st)
     else (ARNM_SUCCESS, m))"
  by pat_completeness auto
termination
  by (relation "measure (\<lambda>(m, result_buffer, base64, len, binary_size, i, out). len - i)") auto

declare base64_decode_loop.simps [simp del]

definition base64_decode_into :: "mem \<Rightarrow> addr \<Rightarrow> addr \<Rightarrow> nat \<Rightarrow> nat \<Rightarrow> arnm_result \<times> mem" where
  "base64_decode_into m result_buffer base64 len binary_size =
    base64_decode_loop m result_buffer base64 len binary_size 0 0"

text \<open>
  \<open>out_size\<close> is the caller's variable: passed in with its old value, \<open>None\<close> for a NULL pointer.
\<close>

definition arnm_binary_from_base64 ::
  "mem \<Rightarrow> addr \<Rightarrow> nat option \<Rightarrow> addr \<Rightarrow> (arnm_result \<times> mem \<times> nat option) option" where
  "arnm_binary_from_base64 m result_buffer out_size base64 =
    (if result_buffer = 0 \<or> out_size = None \<or> base64 = 0 then
       Some (ARNM_ERROR_NULL_POINTER, m, out_size)
     else
       Option.bind (strlen m base64) (\<lambda>len.
         if len = 0 then Some (ARNM_SUCCESS, m, Some 0)
         else if len mod 4 \<noteq> 0 then Some (ARNM_ERROR_INVALID_PARAM, m, out_size)
         else
           let binary_size = (len div 4) * 3 - base64_padding m base64 len
           in case base64_decode_into m result_buffer base64 len binary_size of
                (result, m) \<Rightarrow>
                  if result \<noteq> ARNM_SUCCESS then Some (result, m, out_size)
                  else Some (ARNM_SUCCESS, m, Some (u32 binary_size))))"

definition arnm_binary_from_base64_insitu ::
  "mem \<Rightarrow> addr \<Rightarrow> nat \<Rightarrow> nat option \<Rightarrow> arnm_result \<times> mem \<times> nat option" where
  "arnm_binary_from_base64_insitu m base64 len out_size =
    (if base64 = 0 \<or> out_size = None then (ARNM_ERROR_NULL_POINTER, m, out_size)
     else if len = 0 then (ARNM_SUCCESS, m, Some 0)
     else if len mod 4 \<noteq> 0 then (ARNM_ERROR_INVALID_PARAM, m, out_size)
     else
       let binary_size = (len div 4) * 3 - base64_padding m base64 len
       in case base64_decode_into m base64 base64 len binary_size of
            (result, m) \<Rightarrow>
              if result \<noteq> ARNM_SUCCESS then (result, m, out_size)
              else (ARNM_SUCCESS, m, Some (u32 binary_size)))"

definition arnm_base64_binary_size ::
  "mem \<Rightarrow> addr \<Rightarrow> nat \<Rightarrow> nat option \<Rightarrow> arnm_result \<times> nat option" where
  "arnm_base64_binary_size m base64 len out_size =
    (if base64 = 0 \<or> out_size = None then (ARNM_ERROR_NULL_POINTER, out_size)
     else if len mod 4 \<noteq> 0 then (ARNM_ERROR_DECODE_FAILED, out_size)
     else if len = 0 then (ARNM_SUCCESS, Some 0)
     else
       let padding = (if m (base64 + (len - 1)) = 61
                      then (if m (base64 + (len - 2)) = 61 then 2 else 1) else 0)
       in (ARNM_SUCCESS, Some (sub32 (ARNM_BASE64_BINARY_SIZE len) padding)))"

subsection \<open>The reference\<close>

definition b64_char :: "32 word \<Rightarrow> byte" where
  "b64_char s = BASE64_ALPHABET ! unat (s AND 0x3F)"

definition sextet :: "byte \<Rightarrow> 32 word option" where
  "sextet c = (let v = BASE64_VALUE ! unat c in if v = 255 then None else Some (ucast v))"

definition join3 :: "byte \<Rightarrow> byte \<Rightarrow> byte \<Rightarrow> 32 word" where
  "join3 a b c = push_bit 16 (ucast a) OR push_bit 8 (ucast b) OR ucast c"

definition join4 :: "32 word \<Rightarrow> 32 word \<Rightarrow> 32 word \<Rightarrow> 32 word \<Rightarrow> 32 word" where
  "join4 a b c d = push_bit 18 a OR push_bit 12 b OR push_bit 6 c OR d"

definition byte_at :: "nat \<Rightarrow> 32 word \<Rightarrow> byte" where
  "byte_at shift g = ucast (drop_bit shift g AND 0xFF)"

fun b64_encode :: "byte list \<Rightarrow> byte list" where
  "b64_encode [] = []"
| "b64_encode [a] =
    (let g = join3 a 0 0 in [b64_char (drop_bit 18 g), b64_char (drop_bit 12 g), 61, 61])"
| "b64_encode [a, b] =
    (let g = join3 a b 0
     in [b64_char (drop_bit 18 g), b64_char (drop_bit 12 g), b64_char (drop_bit 6 g), 61])"
| "b64_encode (a # b # c # rest) =
    (let g = join3 a b c
     in b64_char (drop_bit 18 g) # b64_char (drop_bit 12 g) # b64_char (drop_bit 6 g) # b64_char g #
        b64_encode rest)"

fun b64_decode :: "byte list \<Rightarrow> byte list option" where
  "b64_decode [] = Some []"
| "b64_decode (a # b # c # d # rest) =
    (case (sextet a, sextet b) of
       (Some va, Some vb) \<Rightarrow>
         (case (sextet c, sextet d) of
            (Some vc, Some vd) \<Rightarrow>
              (let g = join4 va vb vc vd
               in map_option (\<lambda>bs. byte_at 16 g # byte_at 8 g # byte_at 0 g # bs) (b64_decode rest))
          | (Some vc, None) \<Rightarrow>
              (if d = 61 \<and> rest = []
               then let g = join4 va vb vc 0 in Some [byte_at 16 g, byte_at 8 g] else None)
          | (None, _) \<Rightarrow>
              (if c = 61 \<and> d = 61 \<and> rest = []
               then let g = join4 va vb 0 0 in Some [byte_at 16 g] else None))
     | _ \<Rightarrow> None)"
| "b64_decode _ = None"

subsection \<open>The alphabet and its inverse\<close>

lemma alphabet_table:
  "list_all (\<lambda>n. sextet (BASE64_ALPHABET ! n) = Some (of_nat n) \<and>
     BASE64_ALPHABET ! n \<noteq> 61 \<and> BASE64_ALPHABET ! n \<noteq> 0) [0..<64]"
proof -
  have letters: "BASE64_ALPHABET =
    [65, 66, 67, 68, 69, 70, 71, 72, 73, 74, 75, 76, 77, 78, 79, 80, 81, 82, 83, 84, 85, 86, 87,
     88, 89, 90, 97, 98, 99, 100, 101, 102, 103, 104, 105, 106, 107, 108, 109, 110, 111, 112, 113,
     114, 115, 116, 117, 118, 119, 120, 121, 122, 48, 49, 50, 51, 52, 53, 54, 55, 56, 57, 43, 47]"
    by (simp add: BASE64_ALPHABET_def ascii_def)
  show ?thesis unfolding letters by code_simp
qed

lemma unat_and63: "unat (s AND 0x3F :: 32 word) < 64"
proof -
  have "unat (s AND 0x3F) \<le> unat (0x3F :: 32 word)"
    by (rule word_and_le1 [THEN word_le_nat_alt [THEN iffD1]])
  then show ?thesis by simp
qed

lemma b64_char_props:
  "sextet (b64_char s) = Some (s AND 0x3F)" "b64_char s \<noteq> 61" "b64_char s \<noteq> 0"
proof -
  have "unat (s AND 0x3F) \<in> set [0..<64]" using unat_and63 by simp
  then have "sextet (BASE64_ALPHABET ! unat (s AND 0x3F)) = Some (of_nat (unat (s AND 0x3F))) \<and>
     BASE64_ALPHABET ! unat (s AND 0x3F) \<noteq> 61 \<and> BASE64_ALPHABET ! unat (s AND 0x3F) \<noteq> 0"
    using alphabet_table unfolding list_all_iff by blast
  then show "sextet (b64_char s) = Some (s AND 0x3F)" "b64_char s \<noteq> 61" "b64_char s \<noteq> 0"
    by (simp_all add: b64_char_def)
qed

lemma sextet_pad [simp]: "sextet 61 = None"
  by code_simp

subsection \<open>Bits of a group\<close>

text \<open>The masks of the code are truncations, which the bit lemmas know.\<close>

lemma and_63: "(x :: 32 word) AND 0x3F = take_bit 6 x"
  by (simp add: take_bit_eq_mask mask_eq_exp_minus_1)

lemma and_255: "(x :: 32 word) AND 0xFF = take_bit 8 x"
  by (simp add: take_bit_eq_mask mask_eq_exp_minus_1)

lemma bit_byte: "bit (b :: byte) n \<Longrightarrow> n < 8"
  using bit_imp_le_length [of b n] by simp

lemma bytes_of_join3:
  "byte_at 16 (join3 a b c) = a" "byte_at 8 (join3 a b c) = b" "byte_at 0 (join3 a b c) = c"
  by (rule bit_word_eqI; auto simp: byte_at_def join3_def and_255 bit_simps dest: bit_byte)+

lemma join4_of_sextets:
  "join4 (drop_bit 18 (join3 a b c) AND 0x3F) (drop_bit 12 (join3 a b c) AND 0x3F)
     (drop_bit 6 (join3 a b c) AND 0x3F) (join3 a b c AND 0x3F) = join3 a b c"
proof (rule bit_word_eqI)
  fix n
  assume "n < LENGTH(32)"
  have high: "bit (join3 a b c) n \<Longrightarrow> n < 24"
    by (auto simp: join3_def bit_simps dest: bit_byte)
  show "bit (join4 (drop_bit 18 (join3 a b c) AND 0x3F) (drop_bit 12 (join3 a b c) AND 0x3F)
     (drop_bit 6 (join3 a b c) AND 0x3F) (join3 a b c AND 0x3F)) n = bit (join3 a b c) n"
    using high
    by (cases "n < 6"; cases "n < 12"; cases "n < 18"; auto simp: join4_def and_63 bit_simps)
qed

lemma sextet_of_short_join3:
  "join3 a 0 0 AND 0x3F = 0" "drop_bit 6 (join3 a 0 0) AND 0x3F = 0" "join3 a b 0 AND 0x3F = 0"
  by (rule bit_word_eqI; auto simp: join3_def and_63 bit_simps)+

theorem b64_decode_encode [simp]: "b64_decode (b64_encode bs) = Some bs"
proof (induction bs rule: b64_encode.induct)
  case 1
  then show ?case by simp
next
  case (2 a)
  then show ?case
    using join4_of_sextets [of a 0 0]
    by (simp add: sextet_of_short_join3 b64_char_props Let_def bytes_of_join3)
next
  case (3 a b)
  then show ?case
    using join4_of_sextets [of a b 0]
    by (simp add: sextet_of_short_join3 b64_char_props Let_def bytes_of_join3)
next
  case (4 a b c rest)
  then show ?case
    using join4_of_sextets [of a b c]
    by (simp add: b64_char_props Let_def bytes_of_join3)
qed

lemma length_b64_encode: "length (b64_encode bs) = ((length bs + 2) div 3) * 4"
proof (induction bs rule: b64_encode.induct)
  case (4 a b c rest)
  have "(length (a # b # c # rest) + 2) div 3 = Suc ((length rest + 2) div 3)" by simp
  with 4 show ?case by (simp add: Let_def)
qed (simp_all add: Let_def)

lemma b64_encode_nonzero: "0 \<notin> set (b64_encode bs)"
  by (induction bs rule: b64_encode.induct) (auto simp: Let_def b64_char_props dest: sym)

subsection \<open>The encoder against the reference\<close>

lemma to_base64_step_frame: "x < d + k * 4 \<or> d + (k * 4 + 4) \<le> x \<Longrightarrow> to_base64_step m d s k x = m x"
  by (auto simp: to_base64_step_def Let_def)

lemma alphabet_at_char: "alphabet_at g n = b64_char (drop_bit n g)"
  by (simp add: alphabet_at_def b64_char_def)

lemma rd_3: "rd m a 3 = [m a, m (a + 1), m (a + 2)]"
  by (simp add: numeral_eq_Suc rd_Suc)

lemma rd_4: "rd m a 4 = [m a, m (a + 1), m (a + 2), m (a + 3)]"
  by (simp add: numeral_eq_Suc rd_Suc)

lemma b64_encode_group:
  "b64_encode (rd m a 3 @ rest) =
    rd (to_base64_step m d s k) (d + k * 4) 4 @ b64_encode rest" if "a = s + k * 3"
  using that
  by (simp add: rd_3 rd_4 to_base64_step_def Let_def join3_def alphabet_at_char or.assoc)

lemma to_base64_loop_correct:
  assumes "s + (k + n) * 3 + length rest \<le> d \<or> d + (k + n) * 4 \<le> s"
  shows "b64_encode (rd m (s + k * 3) (n * 3) @ rest) =
      rd (to_base64_loop m d s k n) (d + k * 4) (n * 4) @ b64_encode rest \<and>
    (\<forall>x. x < d + k * 4 \<or> d + (k + n) * 4 \<le> x \<longrightarrow> to_base64_loop m d s k n x = m x)"
  using assms
proof (induction n arbitrary: m k)
  case 0
  then show ?case by simp
next
  case (Suc n)
  define m1 where "m1 = to_base64_step m d s k"
  have IH: "b64_encode (rd m1 (s + Suc k * 3) (n * 3) @ rest) =
      rd (to_base64_loop m1 d s (Suc k) n) (d + Suc k * 4) (n * 4) @ b64_encode rest"
    "\<forall>x. x < d + Suc k * 4 \<or> d + (Suc k + n) * 4 \<le> x \<longrightarrow> to_base64_loop m1 d s (Suc k) n x = m1 x"
    using Suc.IH [of "Suc k" m1] Suc.prems by auto
  have src: "rd m1 (s + Suc k * 3) (n * 3) = rd m (s + Suc k * 3) (n * 3)"
    using Suc.prems by (intro rd_cong) (auto simp: m1_def to_base64_step_frame)
  have here: "rd (to_base64_loop m1 d s (Suc k) n) (d + k * 4) 4 = rd m1 (d + k * 4) 4"
    using IH(2) by (intro rd_cong) auto
  have "rd m (s + k * 3) (Suc n * 3) = rd m (s + k * 3) 3 @ rd m (s + Suc k * 3) (n * 3)"
    using rd_add [of m "s + k * 3" 3 "n * 3"] by (simp add: algebra_simps)
  then have "b64_encode (rd m (s + k * 3) (Suc n * 3) @ rest) =
      rd m1 (d + k * 4) 4 @ b64_encode (rd m1 (s + Suc k * 3) (n * 3) @ rest)"
    using b64_encode_group [OF refl, of m s k "rd m (s + Suc k * 3) (n * 3) @ rest" d] src
    by (simp add: m1_def)
  also have "\<dots> = (rd m1 (d + k * 4) 4 @ rd (to_base64_loop m1 d s (Suc k) n) (d + Suc k * 4) (n * 4)) @
      b64_encode rest"
    by (simp only: IH(1) append_assoc)
  also have "\<dots> = rd (to_base64_loop m1 d s (Suc k) n) (d + k * 4) (Suc n * 4) @ b64_encode rest"
    using rd_add [of "to_base64_loop m1 d s (Suc k) n" "d + k * 4" 4 "n * 4"] here
    by (simp add: algebra_simps)
  finally show ?case
    using IH(2) by (auto simp: to_base64_step_frame m1_def)
qed

lemma binary_to_base64_correct:
  fixes m :: mem
  assumes "dst \<noteq> 0" "src \<noteq> 0" "n \<le> ARNM_BASE64_MAX_BINARY_SIZE"
    and "src + n \<le> dst \<or> dst + ARNM_BASE64_STRING_LENGTH n + 1 \<le> src"
  shows "\<exists>m'. arnm_binary_to_base64 m dst src n = (ARNM_SUCCESS, m') \<and>
    rd m' dst (ARNM_BASE64_STRING_LENGTH n) = b64_encode (rd m src n) \<and>
    m' (dst + ARNM_BASE64_STRING_LENGTH n) = 0 \<and>
    (\<forall>x. x < dst \<or> dst + ARNM_BASE64_STRING_LENGTH n + 1 \<le> x \<longrightarrow> m' x = m x)"
proof -
  define g r where "g = n div 3" and "r = n mod 3"
  define m1 where "m1 = to_base64_loop m dst src 0 g"
  define rest where "rest = rd m (src + g * 3) r"
  have n: "n = g * 3 + r" "r < 3" by (simp_all add: g_def r_def)
  have len: "ARNM_BASE64_STRING_LENGTH n = g * 4 + (if r = 0 then 0 else 4)"
  proof -
    have "(g * 3 + r + 2) div 3 = g + (r + 2) div 3" by simp
    moreover have "r = 0 \<or> r = 1 \<or> r = 2" using n(2) by arith
    then have "(r + 2) div 3 = (if r = 0 then 0 else 1)" by auto
    ultimately show ?thesis by (simp add: ARNM_BASE64_STRING_LENGTH_def n(1))
  qed
  have small: "n \<le> 3221225469" "g \<le> 1073741823"
    using assms(3) by (simp_all add: ARNM_BASE64_MAX_BINARY_SIZE_def UINT32_MAX_def g_def)
  have wrap: "u32 (g * 4) = g * 4" "sub32 n (g * 3) = r"
    "r \<noteq> 0 \<Longrightarrow> u32 (g * 4 + 4) = g * 4 + 4"
    using small n by (simp_all add: u32_def sub32_id UINT32_MAX_def)
  have loop: "b64_encode (rd m src (g * 3) @ rest) = rd m1 dst (g * 4) @ b64_encode rest"
    "\<forall>x. x < dst \<or> dst + g * 4 \<le> x \<longrightarrow> m1 x = m x"
    using to_base64_loop_correct [of src 0 g rest dst m] assms(4) len n
    by (auto simp: m1_def rest_def split: if_splits)
  have src_text: "b64_encode (rd m src n) = rd m1 dst (g * 4) @ b64_encode rest"
    using loop(1) by (simp add: n(1) rd_add rest_def)
  have tail_src: "m1 (src + g * 3 + i) = m (src + g * 3 + i)" if "i < r" for i
    using that loop(2) assms(4) len n by (auto split: if_splits)
  show ?thesis
  proof (cases "r = 0")
    case True
    have "arnm_binary_to_base64 m dst src n = (ARNM_SUCCESS, m1(dst + g * 4 := 0))"
      using assms(1-3) wrap True by (simp add: arnm_binary_to_base64_def Let_def m1_def flip: g_def)
    then show ?thesis
      using loop(2) src_text True len by (auto simp: mem_simps rest_def)
  next
    case False
    define grp where "grp = push_bit 16 (ucast (m (src + g * 3))) OR
       (if r > 1 then push_bit 8 (ucast (m (src + g * 3 + 1))) else (0 :: 32 word))"
    define m2 where "m2 = m1(dst + g * 4 := alphabet_at grp 18, dst + (g * 4 + 1) := alphabet_at grp 12,
       dst + (g * 4 + 2) := (if r > 1 then alphabet_at grp 6 else 61), dst + (g * 4 + 3) := 61,
       dst + (g * 4 + 4) := 0)"
    have res: "arnm_binary_to_base64 m dst src n = (ARNM_SUCCESS, m2)"
      using assms(1-3) wrap False tail_src [of 0] tail_src [of 1]
      by (auto simp: arnm_binary_to_base64_def Let_def m2_def grp_def simp flip: g_def m1_def)
    have r12: "r = 1 \<or> r = 2" using False n(2) by auto
    have "rest = (if r = 1 then [m (src + g * 3)] else [m (src + g * 3), m (src + g * 3 + 1)])"
      using r12 by (auto simp: rest_def rd_1 [simplified] rd_2)
    then have "rd m2 (dst + g * 4) 4 = b64_encode rest"
      using r12 by (auto simp: m2_def rd_4 grp_def join3_def alphabet_at_char Let_def)
    moreover have "rd m2 dst (g * 4) = rd m1 dst (g * 4)"
      by (intro rd_cong) (simp add: m2_def)
    ultimately have "rd m2 dst (ARNM_BASE64_STRING_LENGTH n) = b64_encode (rd m src n)"
      using False src_text by (simp add: len rd_add)
    moreover have "m2 (dst + ARNM_BASE64_STRING_LENGTH n) = 0"
      using False by (simp add: len m2_def)
    moreover have "\<forall>x. x < dst \<or> dst + ARNM_BASE64_STRING_LENGTH n + 1 \<le> x \<longrightarrow> m2 x = m x"
      using False loop(2) by (auto simp: len m2_def)
    ultimately show ?thesis using res by blast
  qed
qed

subsection \<open>The decode loop against the reference\<close>

text \<open>What the padding takes off, read from the text itself.\<close>

definition pad_count :: "byte list \<Rightarrow> nat" where
  "pad_count t = (if t ! (length t - 1) \<noteq> 61 then 0 else if t ! (length t - 2) = 61 then 2 else 1)"

lemma base64_padding_pad_count: "2 \<le> n \<Longrightarrow> base64_padding m a n = pad_count (rd m a n)"
  by (simp add: base64_padding_def pad_count_def)

lemma pad_count_le: "pad_count t \<le> 2"
  by (simp add: pad_count_def)

lemma pad_count_tail: "2 \<le> length t \<Longrightarrow> pad_count (s @ t) = pad_count t"
proof -
  assume "2 \<le> length t"
  then have "length (s @ t) - 1 = length s + (length t - 1)" "length (s @ t) - 2 = length s + (length t - 2)"
    by simp_all
  then show ?thesis by (simp only: pad_count_def nth_append_length_plus)
qed

lemma sextet_None: "sextet c = None \<longleftrightarrow> BASE64_VALUE ! unat c = BASE64_NO_VALUE"
  by (simp add: sextet_def BASE64_NO_VALUE_def Let_def)

lemma sextet_Some: "sextet c = Some v \<longleftrightarrow> BASE64_VALUE ! unat c \<noteq> BASE64_NO_VALUE \<and> v = ucast (BASE64_VALUE ! unat c)"
  by (auto simp: sextet_def BASE64_NO_VALUE_def Let_def)

text \<open>One group: what the inner loop answers for its four characters.\<close>

lemma decode_group_correct:
  assumes abcd: "m (s + i) = a" "m (s + (i + 1)) = b" "m (s + (i + 2)) = c" "m (s + (i + 3)) = d"
  shows "decode_group m s len i [0, 1, 2, 3] 0 =
    (case (sextet a, sextet b) of
       (Some va, Some vb) \<Rightarrow>
         (case (sextet c, sextet d) of
            (Some vc, Some vd) \<Rightarrow> Some (join4 va vb vc vd)
          | (Some vc, None) \<Rightarrow> if d = 61 \<and> i + 4 = len then Some (join4 va vb vc 0) else None
          | (None, Some _) \<Rightarrow> None
          | (None, None) \<Rightarrow> if c = 61 \<and> d = 61 \<and> i + 4 = len then Some (join4 va vb 0 0) else None)
     | _ \<Rightarrow> None)"
proof -
  have pad: "BASE64_VALUE ! unat (61 :: byte) = BASE64_NO_VALUE"
    using sextet_None [of 61] by simp
  show ?thesis
    using abcd pad
    by (auto simp: Let_def join4_def sextet_None sextet_Some or.assoc split: option.splits)
qed

lemma put_byte_fst_frame: "x < d + out \<or> d + bs \<le> x \<Longrightarrow> fst (put_byte d bs sh g (m, out)) x = m x"
  by (auto simp: put_byte_def)

lemma put_bytes_full:
  assumes "out + 3 \<le> bs"
  shows "\<exists>m'. put_byte d bs 0 g (put_byte d bs 8 g (put_byte d bs 16 g (m, out))) = (m', out + 3) \<and>
    rd m' (d + out) 3 = [byte_at 16 g, byte_at 8 g, byte_at 0 g] \<and>
    (\<forall>x. x < d + out \<or> d + out + 3 \<le> x \<longrightarrow> m' x = m x)"
  using assms by (auto simp: put_byte_def byte_at_def rd_3)

lemma put_bytes_last:
  assumes "bs = out + n" "n = 1 \<or> n = 2 \<or> n = 3"
  shows "\<exists>m'. put_byte d bs 0 g (put_byte d bs 8 g (put_byte d bs 16 g (m, out))) = (m', bs) \<and>
    rd m' (d + out) n = take n [byte_at 16 g, byte_at 8 g, byte_at 0 g] \<and>
    (\<forall>x. x < d + out \<or> d + bs \<le> x \<longrightarrow> m' x = m x)"
  using assms by (auto simp: put_byte_def byte_at_def rd_3 rd_2 rd_1 [simplified])

text \<open>
  The loop from group \<open>j\<close> on, for an output that does not start behind the input it is read
  from: at \<open>d = s\<close> this is the decode in place. A group is read whole before its bytes are
  written, and they land at \<open>3 * j\<close> while its characters sat at \<open>4 * j\<close>.
\<close>

lemma base64_decode_loop_correct:
  assumes "d \<le> s \<or> s + 4 * (j + Suc r) \<le> d"
    and "t = rd m (s + 4 * j) (4 * Suc r)" and "n = 3 * Suc r - pad_count t"
  shows "case b64_decode t of
      Some bs \<Rightarrow> length bs = n \<and>
        (\<exists>m'. base64_decode_loop m d s (4 * (j + Suc r)) (3 * j + n) (4 * j) (3 * j) = (ARNM_SUCCESS, m') \<and>
           rd m' (d + 3 * j) n = bs \<and> (\<forall>x. x < d + 3 * j \<or> d + (3 * j + n) \<le> x \<longrightarrow> m' x = m x))
    | None \<Rightarrow>
        (\<exists>m'. base64_decode_loop m d s (4 * (j + Suc r)) (3 * j + n) (4 * j) (3 * j) =
             (ARNM_ERROR_DECODE_FAILED, memset m' d 0 (3 * j + n)) \<and>
           (\<forall>x. x < d \<or> d + (3 * j + n) \<le> x \<longrightarrow> m' x = m x))"
  using assms
proof (induction r arbitrary: j m t n)
  case 0
  define a b c e where "a = m (s + 4 * j)" and "b = m (s + (4 * j + 1))" and
    "c = m (s + (4 * j + 2))" and "e = m (s + (4 * j + 3))"
  have t: "t = [a, b, c, e]" using "0.prems"(2) by (simp add: rd_4 a_def b_def c_def e_def add.assoc)
  have n: "n = (if e \<noteq> 61 then 3 else if c = 61 then 1 else 2)"
    using "0.prems"(3) by (simp add: t pad_count_def)
  let ?len = "4 * (j + Suc 0)" and ?bs = "3 * j + n"
  note grp = decode_group_correct [of m s "4 * j" a b c e ?len, OF a_def [symmetric] b_def [symmetric]
      c_def [symmetric] e_def [symmetric]]
  note step = base64_decode_loop.simps [of m d s ?len ?bs "4 * j" "3 * j"]
  have stop: "base64_decode_loop m' d s ?len ?bs (4 * j + 4) o' = (ARNM_SUCCESS, m')" for m' o'
    by (simp add: base64_decode_loop.simps)
  have n123: "n = 1 \<or> n = 2 \<or> n = 3" using n by auto
  have dec: "b64_decode t = map_option (\<lambda>g. take n [byte_at 16 g, byte_at 8 g, byte_at 0 g])
      (decode_group m s ?len (4 * j) [0, 1, 2, 3] 0)"
    unfolding t grp using n by (auto simp: Let_def split: option.splits)
  show ?case
  proof (cases "decode_group m s ?len (4 * j) [0, 1, 2, 3] 0")
    case None
    then show ?thesis using dec step by (auto simp: exI [of _ m])
  next
    case (Some g)
    obtain m' where m': "put_byte d ?bs 0 g (put_byte d ?bs 8 g (put_byte d ?bs 16 g (m, 3 * j))) = (m', ?bs)"
      "rd m' (d + 3 * j) n = take n [byte_at 16 g, byte_at 8 g, byte_at 0 g]"
      "\<forall>x. x < d + 3 * j \<or> d + ?bs \<le> x \<longrightarrow> m' x = m x"
      using put_bytes_last [OF refl n123, of d "3 * j" g m] by auto
    then have "base64_decode_loop m d s ?len ?bs (4 * j) (3 * j) = (ARNM_SUCCESS, m')"
      using step Some stop by (simp add: Let_def)
    then show ?thesis using dec Some m'(2,3) n123 by auto
  qed
next
  case (Suc r)
  define a b c e where "a = m (s + 4 * j)" and "b = m (s + (4 * j + 1))" and
    "c = m (s + (4 * j + 2))" and "e = m (s + (4 * j + 3))"
  define t' where "t' = rd m (s + 4 * Suc j) (4 * Suc r)"
  have t: "t = a # b # c # e # t'"
    using Suc.prems(2) rd_add [of m "s + 4 * j" 4 "4 * Suc r"]
    by (simp add: t'_def rd_4 a_def b_def c_def e_def algebra_simps)
  have t'_len: "length t' = 4 * Suc r" by (simp add: t'_def)
  then have pad: "pad_count t = pad_count t'"
    using pad_count_tail [of t' "[a, b, c, e]"] by (simp add: t)
  define n' where "n' = 3 * Suc r - pad_count t'"
  have n: "n = 3 + n'" "1 \<le> n'"
    using Suc.prems(3) pad_count_le [of t'] by (simp_all add: pad n'_def)
  let ?len = "4 * (j + Suc (Suc r))" and ?bs = "3 * j + n"
  note grp = decode_group_correct [of m s "4 * j" a b c e ?len, OF a_def [symmetric] b_def [symmetric]
      c_def [symmetric] e_def [symmetric]]
  have not_last: "4 * j + 4 \<noteq> ?len" by simp
  note step = base64_decode_loop.simps [of m d s ?len ?bs "4 * j" "3 * j"]
  have ne: "t' \<noteq> []" using t'_len by auto
  have dec: "b64_decode t = (case decode_group m s ?len (4 * j) [0, 1, 2, 3] 0 of None \<Rightarrow> None
      | Some g \<Rightarrow> map_option (\<lambda>bs. byte_at 16 g # byte_at 8 g # byte_at 0 g # bs) (b64_decode t'))"
    unfolding t grp using not_last ne by (auto simp: Let_def split: option.splits)
  show ?case
  proof (cases "decode_group m s ?len (4 * j) [0, 1, 2, 3] 0")
    case None
    then show ?thesis using dec step by (auto simp: exI [of _ m])
  next
    case (Some g)
    obtain m1 where m1: "put_byte d ?bs 0 g (put_byte d ?bs 8 g (put_byte d ?bs 16 g (m, 3 * j))) = (m1, 3 * j + 3)"
      "rd m1 (d + 3 * j) 3 = [byte_at 16 g, byte_at 8 g, byte_at 0 g]"
      "\<forall>x. x < d + 3 * j \<or> d + 3 * j + 3 \<le> x \<longrightarrow> m1 x = m x"
      using put_bytes_full [of "3 * j" ?bs d g m] n by auto
    have loop: "base64_decode_loop m d s ?len ?bs (4 * j) (3 * j) =
        base64_decode_loop m1 d s (4 * (Suc j + Suc r)) ?bs (4 * Suc j) (3 * Suc j)"
      using step Some m1(1) n(1) by (simp add: Let_def algebra_simps)
    have t'_m1: "t' = rd m1 (s + 4 * Suc j) (4 * Suc r)"
      unfolding t'_def using Suc.prems(1) m1(3) by (intro rd_cong) auto
    have bs: "3 * Suc j + n' = ?bs" using n(1) by simp
    note IH = Suc.IH [of "Suc j" t' m1 n', OF _ t'_m1 n'_def, unfolded bs]
    show ?thesis
    proof (cases "b64_decode t'")
      case None
      with IH Suc.prems(1) obtain m' where m':
        "base64_decode_loop m1 d s (4 * (Suc j + Suc r)) ?bs (4 * Suc j) (3 * Suc j) =
           (ARNM_ERROR_DECODE_FAILED, memset m' d 0 ?bs)" "\<forall>x. x < d \<or> d + ?bs \<le> x \<longrightarrow> m' x = m1 x"
        by auto
      have "\<forall>x. x < d \<or> d + ?bs \<le> x \<longrightarrow> m' x = m x" using m'(2) m1(3) n by auto
      with m'(1) loop None Some dec show ?thesis by auto
    next
      case (Some bs')
      with IH Suc.prems(1) obtain m' where m': "length bs' = n'"
        "base64_decode_loop m1 d s (4 * (Suc j + Suc r)) ?bs (4 * Suc j) (3 * Suc j) = (ARNM_SUCCESS, m')"
        "rd m' (d + 3 * Suc j) n' = bs'" "\<forall>x. x < d + 3 * Suc j \<or> d + ?bs \<le> x \<longrightarrow> m' x = m1 x"
        by auto
      have "rd m' (d + 3 * j) 3 = rd m1 (d + 3 * j) 3" using m'(4) by (intro rd_cong) auto
      then have "rd m' (d + 3 * j) n = byte_at 16 g # byte_at 8 g # byte_at 0 g # bs'"
        using m1(2) m'(3) rd_add [of m' "d + 3 * j" 3 n'] by (simp add: n(1) algebra_simps)
      moreover have "\<forall>x. x < d + 3 * j \<or> d + ?bs \<le> x \<longrightarrow> m' x = m x"
        using m'(4) m1(3) n by auto
      ultimately show ?thesis
        using m'(1,2) loop dec \<open>decode_group m s ?len (4 * j) [0, 1, 2, 3] 0 = Some g\<close> Some n(1)
        by (simp add: bs)
    qed
  qed
qed

subsection \<open>The decoders against the reference\<close>

lemma base64_decode_into_correct:
  fixes m :: mem
  assumes "d \<le> s \<or> s + n \<le> d" "n mod 4 = 0" "n \<noteq> 0" "bs = (n div 4) * 3 - base64_padding m s n"
  shows "case b64_decode (rd m s n) of
      Some ys \<Rightarrow> length ys = bs \<and>
        (\<exists>m'. base64_decode_into m d s n bs = (ARNM_SUCCESS, m') \<and> rd m' d bs = ys \<and>
           (\<forall>x. x < d \<or> d + bs \<le> x \<longrightarrow> m' x = m x))
    | None \<Rightarrow>
        (\<exists>m'. base64_decode_into m d s n bs = (ARNM_ERROR_DECODE_FAILED, m') \<and>
           rd m' d bs = replicate bs 0 \<and> (\<forall>x. x < d \<or> d + bs \<le> x \<longrightarrow> m' x = m x))"
proof -
  obtain r where n: "n = 4 * Suc r"
    using assms(2,3) by (metis mod_0_imp_dvd dvdE mult_0_right not0_implies_Suc)
  have bs: "bs = 3 * Suc r - pad_count (rd m s (4 * Suc r))"
    using assms(4) base64_padding_pad_count [of n m s] by (simp add: n)
  show ?thesis
    using base64_decode_loop_correct [of d s 0 r "rd m s n" m bs] assms(1) bs
    by (fastforce simp: base64_decode_into_def n mem_simps split: option.splits)
qed

text \<open>
  The in-place decoder past its guards: on a refusal the front of the text, as many bytes as its length and its
  padding announce, is zeroed; otherwise it holds the decoded bytes. Nothing else changes.
\<close>

abbreviation announced :: "byte list \<Rightarrow> nat" where
  "announced cs \<equiv> 3 * (length cs div 4) - pad_count cs"

lemma from_base64_insitu_correct:
  fixes m :: mem
  assumes "a \<noteq> 0" "n \<le> UINT32_MAX" "n mod 4 = 0" "n \<noteq> 0"
  shows "\<exists>m'. arnm_binary_from_base64_insitu m a n (Some old) =
      (case b64_decode (rd m a n) of
         Some ys \<Rightarrow> (ARNM_SUCCESS, m', Some (length ys))
       | None \<Rightarrow> (ARNM_ERROR_DECODE_FAILED, m', Some old)) \<and>
    (case b64_decode (rd m a n) of
       Some ys \<Rightarrow> length ys = announced (rd m a n) \<and> rd m' a (length ys) = ys
     | None \<Rightarrow> rd m' a (announced (rd m a n)) = replicate (announced (rd m a n)) 0) \<and>
    (\<forall>x. x < a \<or> a + announced (rd m a n) \<le> x \<longrightarrow> m' x = m x)"
proof -
  define bs where "bs = (n div 4) * 3 - base64_padding m a n"
  have small: "u32 bs = bs" using assms(2) by (auto simp: bs_def u32_id)
  have "base64_padding m a n = pad_count (rd m a n)"
    by (rule base64_padding_pad_count) (use assms(3,4) in presburger)
  then have an: "announced (rd m a n) = bs" by (simp add: bs_def mult.commute)
  show ?thesis unfolding an
    using base64_decode_into_correct [of a a n bs m] assms small
    by (auto simp: arnm_binary_from_base64_insitu_def bs_def [symmetric] Let_def split: option.splits)
qed

lemma from_base64_correct:
  fixes m :: mem
  assumes "d \<noteq> 0" "s \<noteq> 0" "strlen m s = Some n" "n \<le> UINT32_MAX" "n mod 4 = 0"
    and "d \<le> s \<or> s + n \<le> d"
  shows "\<exists>m'. arnm_binary_from_base64 m d (Some old) s =
      Some (case b64_decode (rd m s n) of
         Some ys \<Rightarrow> (ARNM_SUCCESS, m', Some (length ys))
       | None \<Rightarrow> (ARNM_ERROR_DECODE_FAILED, m', Some old)) \<and>
    (\<forall>ys. b64_decode (rd m s n) = Some ys \<longrightarrow> rd m' d (length ys) = ys) \<and>
    (\<forall>x. x < d \<or> d + n \<le> x \<longrightarrow> m' x = m x)"
proof (cases "n = 0")
  case True
  with assms show ?thesis by (simp add: arnm_binary_from_base64_def)
next
  case False
  define bs where "bs = (n div 4) * 3 - base64_padding m s n"
  have small: "bs \<le> n" "u32 bs = bs" using assms(4) by (auto simp: bs_def u32_id)
  show ?thesis
    using base64_decode_into_correct [of d s n bs m] False assms small
    by (auto simp: arnm_binary_from_base64_def bs_def [symmetric] Let_def split: option.splits)
qed

section \<open>What the codecs promise\<close>

text \<open>C35: What \<open>arnm_binary_to_base64\<close> writes, \<open>arnm_binary_from_base64\<close> reads back byte for byte,
  whatever the length modulo 3, and its out parameter says how many bytes there were. The text has
  the announced length and a terminator; neither call touches a byte outside its destination.\<close>

theorem base64_round_trip:
  fixes m :: mem
  assumes "src \<noteq> 0" "text_at \<noteq> 0" "dst \<noteq> 0" "n \<le> ARNM_BASE64_MAX_BINARY_SIZE"
    and "src + n \<le> text_at \<or> text_at + ARNM_BASE64_STRING_LENGTH n + 1 \<le> src"
    and "dst \<le> text_at \<or> text_at + ARNM_BASE64_STRING_LENGTH n \<le> dst"
  shows "\<exists>m1 m2. arnm_binary_to_base64 m text_at src n = (ARNM_SUCCESS, m1) \<and>
    strlen m1 text_at = Some (ARNM_BASE64_STRING_LENGTH n) \<and>
    arnm_binary_from_base64 m1 dst (Some old) text_at = Some (ARNM_SUCCESS, m2, Some n) \<and>
    rd m2 dst n = rd m src n"
proof -
  let ?k = "ARNM_BASE64_STRING_LENGTH n"
  obtain m1 where m1: "arnm_binary_to_base64 m text_at src n = (ARNM_SUCCESS, m1)"
    "rd m1 text_at ?k = b64_encode (rd m src n)" "m1 (text_at + ?k) = 0"
    using binary_to_base64_correct [of text_at src n m] assms by blast
  have strlen: "strlen m1 text_at = Some ?k"
    using strlen_rd [of m1 text_at "b64_encode (rd m src n)"] m1 b64_encode_nonzero
    by (simp add: length_b64_encode ARNM_BASE64_STRING_LENGTH_def)
  have "?k \<le> UINT32_MAX" "?k mod 4 = 0"
    using assms(4) by (auto simp: ARNM_BASE64_STRING_LENGTH_def ARNM_BASE64_MAX_BINARY_SIZE_def UINT32_MAX_def)
  then show ?thesis
    using from_base64_correct [of dst text_at m1 ?k old] assms(2,3,6) m1 strlen by auto
qed

lemma base64_round_trip_witness:
  "\<exists>m1 m2. arnm_binary_to_base64 (wr (\<lambda>_. 0) 16 [1, 2, 3, 4]) 32 16 4 = (ARNM_SUCCESS, m1) \<and>
    strlen m1 32 = Some 8 \<and>
    arnm_binary_from_base64 m1 64 (Some 0) 32 = Some (ARNM_SUCCESS, m2, Some 4) \<and>
    rd m2 64 4 = [1, 2, 3, 4]"
proof -
  have "rd (wr (\<lambda>_. 0) 16 [1, 2, 3, 4]) 16 4 = [1, 2, 3, 4]" by (simp add: mem_simps)
  moreover have "ARNM_BASE64_STRING_LENGTH 4 = 8" by (simp add: ARNM_BASE64_STRING_LENGTH_def)
  ultimately show ?thesis
    using base64_round_trip [of 16 32 64 4 "wr (\<lambda>_. 0) 16 [1, 2, 3, 4]" 0]
    by (simp add: ARNM_BASE64_MAX_BINARY_SIZE_def UINT32_MAX_def)
qed

text \<open>C36: Decoding base64 where it lies, on every branch. A NULL text or out parameter, then a length that is no
  multiple of four, are refused with nothing written; an empty text decodes to nothing; a character outside the
  alphabet, or padding where none belongs, zeroes the front of the text, as many bytes as its length and padding
  announce, and leaves the out parameter alone; any other text puts exactly its decoded bytes there and their
  number into the out parameter (the bits that padding leaves over are not looked at). No other byte changes.\<close>

theorem base64_insitu_outcomes:
  fixes m :: mem
  assumes "n \<le> UINT32_MAX"
  shows "case arnm_binary_from_base64_insitu m a n out of (result, m', out') \<Rightarrow>
    if a = 0 \<or> out = None then result = ARNM_ERROR_NULL_POINTER \<and> m' = m \<and> out' = out
    else if n mod 4 \<noteq> 0 then result = ARNM_ERROR_INVALID_PARAM \<and> m' = m \<and> out' = out
    else (case b64_decode (rd m a n) of
        None \<Rightarrow> result = ARNM_ERROR_DECODE_FAILED \<and> out' = out \<and>
          rd m' a (announced (rd m a n)) = replicate (announced (rd m a n)) 0
      | Some bs \<Rightarrow> result = ARNM_SUCCESS \<and> out' = Some (length bs) \<and>
          length bs = announced (rd m a n) \<and> rd m' a (length bs) = bs) \<and>
      (\<forall>x. x < a \<or> a + announced (rd m a n) \<le> x \<longrightarrow> m' x = m x)"
proof (cases "a = 0 \<or> out = None \<or> n mod 4 \<noteq> 0 \<or> n = 0")
  case True
  then show ?thesis by (auto simp: arnm_binary_from_base64_insitu_def)
next
  case False
  then obtain old where old: "out = Some old" by auto
  have "a \<noteq> 0" "n mod 4 = 0" "n \<noteq> 0" using False by simp_all
  from from_base64_insitu_correct [OF this(1) assms this(2,3), of m old] obtain m' where
    "arnm_binary_from_base64_insitu m a n (Some old) =
      (case b64_decode (rd m a n) of
         Some ys \<Rightarrow> (ARNM_SUCCESS, m', Some (length ys))
       | None \<Rightarrow> (ARNM_ERROR_DECODE_FAILED, m', Some old))"
    "case b64_decode (rd m a n) of
       Some ys \<Rightarrow> length ys = announced (rd m a n) \<and> rd m' a (length ys) = ys
     | None \<Rightarrow> rd m' a (announced (rd m a n)) = replicate (announced (rd m a n)) 0"
    "\<forall>x. x < a \<or> a + announced (rd m a n) \<le> x \<longrightarrow> m' x = m x"
    by (elim exE conjE)
  then show ?thesis using False by (cases "b64_decode (rd m a n)") (auto simp: old)
qed

lemma base64_insitu_outcomes_witness:
  "(case arnm_binary_from_base64_insitu (wr (\<lambda>_. 0) 16 (ascii ''QUI='')) 16 4 (Some 7) of
      (result, m', out) \<Rightarrow> result = ARNM_SUCCESS \<and> out = Some 2 \<and> rd m' 16 2 = [65, 66]) \<and>
   (case arnm_binary_from_base64_insitu (wr (\<lambda>_. 0) 16 (ascii ''QU*='')) 16 4 (Some 7) of
      (result, m', out) \<Rightarrow> result = ARNM_ERROR_DECODE_FAILED \<and> out = Some 7 \<and> rd m' 16 2 = [0, 0])"
proof -
  have r: "rd (wr (\<lambda>_. 0) 16 (ascii t)) 16 4 = ascii t" if "length t = 4" for t
    using that rd_wr_same [of "ascii t" 4 "\<lambda>_. 0" 16] by simp
  have "b64_encode [65, 66] = ascii ''QUI=''" by code_simp
  then have good: "b64_decode (ascii ''QUI='') = Some [65, 66]" by (simp flip: b64_decode_encode)
  have bad: "b64_decode (ascii ''QU*='') = None" "announced (ascii ''QU*='') = 2" by code_simp+
  show ?thesis
    using base64_insitu_outcomes [where a = 16 and n = 4 and out = "Some 7" and m = "wr (\<lambda>_. 0) 16 (ascii ''QUI='')"]
      base64_insitu_outcomes [where a = 16 and n = 4 and out = "Some 7" and m = "wr (\<lambda>_. 0) 16 (ascii ''QU*='')"]
      r [of "''QUI=''"] r [of "''QU*=''"] good bad
    by (auto simp: UINT32_MAX_def numeral_2_eq_2 split: prod.splits)
qed

end
