(* ===== verification/Utf8.thy ===== *)
theory Utf8
  imports Prelude "HOL-Library.Sublist"
begin

unbundle bit_operations_syntax

text \<open>
  Is this run of bytes UTF-8, and where does it stop being it (\<^verbatim>\<open>src/utf8.c\<close>,
  \<^verbatim>\<open>include/arnm/utf8.h\<close>). The code never assembles a code point; the reference does:
  \<open>utf8_encode\<close> writes one Unicode scalar value, and a run is UTF-8 when it is a sequence of such
  writings.
\<close>

subsection \<open>The code\<close>

text \<open>Eight bytes as one machine word; the test on it does not depend on the byte order.\<close>

definition load_word :: "mem \<Rightarrow> addr \<Rightarrow> 64 word" where
  "load_word m a =
    ucast (m a) OR push_bit 8 (ucast (m (a + 1))) OR push_bit 16 (ucast (m (a + 2))) OR
    push_bit 24 (ucast (m (a + 3))) OR push_bit 32 (ucast (m (a + 4))) OR
    push_bit 40 (ucast (m (a + 5))) OR push_bit 48 (ucast (m (a + 6))) OR
    push_bit 56 (ucast (m (a + 7)))"

function skip_ascii_words :: "mem \<Rightarrow> addr \<Rightarrow> nat \<Rightarrow> nat \<Rightarrow> nat" where
  "skip_ascii_words m bytes len index =
    (if 8 \<le> len - index then
       if load_word m (bytes + index) AND 0x8080808080808080 \<noteq> 0 then index
       else skip_ascii_words m bytes len (index + 8)
     else index)"
  by pat_completeness auto
termination
  by (relation "measure (\<lambda>(m, bytes, len, index). len - index)") auto

function skip_ascii_bytes :: "mem \<Rightarrow> addr \<Rightarrow> nat \<Rightarrow> nat \<Rightarrow> nat" where
  "skip_ascii_bytes m bytes len index =
    (if index < len \<and> m (bytes + index) < 0x80 then skip_ascii_bytes m bytes len (index + 1)
     else index)"
  by pat_completeness auto
termination
  by (relation "measure (\<lambda>(m, bytes, len, index). len - index)") auto

declare skip_ascii_words.simps [simp del] skip_ascii_bytes.simps [simp del]

text \<open>
  What a lead byte promises: how many continuation bytes follow, and the range of the first.
  \<open>None\<close> for a byte that leads nothing.
\<close>

definition lead_class :: "byte \<Rightarrow> (nat \<times> byte \<times> byte) option" where
  "lead_class lead =
    (if lead \<ge> 0xC2 \<and> lead \<le> 0xDF then Some (1, 0x80, 0xBF)
     else if lead = 0xE0 then Some (2, 0xA0, 0xBF)
     else if lead = 0xED then Some (2, 0x80, 0x9F)
     else if (lead \<ge> 0xE1 \<and> lead \<le> 0xEC) \<or> lead = 0xEE \<or> lead = 0xEF then Some (2, 0x80, 0xBF)
     else if lead = 0xF0 then Some (3, 0x90, 0xBF)
     else if lead \<ge> 0xF1 \<and> lead \<le> 0xF3 then Some (3, 0x80, 0xBF)
     else if lead = 0xF4 then Some (3, 0x80, 0x8F)
     else None)"

text \<open>The continuation bytes from \<open>step\<close> to \<open>continuations\<close>.\<close>

definition continuations_ok :: "mem \<Rightarrow> addr \<Rightarrow> nat \<Rightarrow> nat \<Rightarrow> bool" where
  "continuations_ok m bytes index continuations =
    list_all (\<lambda>step. m (bytes + index + step) AND 0xC0 = 0x80) [2..<continuations + 1]"

lemma skip_ascii_bytes_ge: "index \<le> skip_ascii_bytes m bytes len index"
proof (induction m bytes len index rule: skip_ascii_bytes.induct)
  case (1 m bytes len index)
  then have "index < len \<and> m (bytes + index) < 0x80 \<Longrightarrow> index \<le> skip_ascii_bytes m bytes len (index + 1)"
    using le_trans le_add1 by blast
  then show ?case by (simp add: skip_ascii_bytes.simps [of m bytes len index])
qed

lemma skip_ascii_words_ge: "index \<le> skip_ascii_words m bytes len index"
proof (induction m bytes len index rule: skip_ascii_words.induct)
  case (1 m bytes len index)
  then have "8 \<le> len - index \<Longrightarrow> load_word m (bytes + index) AND 0x8080808080808080 = 0 \<Longrightarrow>
      index \<le> skip_ascii_words m bytes len (index + 8)"
    using le_trans le_add1 by blast
  then show ?case by (simp add: skip_ascii_words.simps [of m bytes len index])
qed

lemma skip_ascii_progress:
  assumes "index < len" "m (bytes + index) < 0x80"
  shows "index < skip_ascii_bytes m bytes len (skip_ascii_words m bytes len index)"
proof (cases "skip_ascii_words m bytes len index = index")
  case True
  with assms skip_ascii_bytes_ge [of "index + 1" m bytes len] show ?thesis
    by (simp add: skip_ascii_bytes.simps [of m bytes len index])
next
  case False
  then show ?thesis
    using skip_ascii_words_ge [of index m bytes len]
      skip_ascii_bytes_ge [of "skip_ascii_words m bytes len index" m bytes len] by linarith
qed

function utf8_loop :: "mem \<Rightarrow> addr \<Rightarrow> nat \<Rightarrow> nat \<Rightarrow> nat" where
  "utf8_loop m bytes len index =
    (if index < len then
       if m (bytes + index) < 0x80 then
         utf8_loop m bytes len (skip_ascii_bytes m bytes len (skip_ascii_words m bytes len index))
       else
         case lead_class (m (bytes + index)) of
           None \<Rightarrow> index
         | Some (continuations, first_low, first_high) \<Rightarrow>
             if len - index \<le> continuations then index
             else if m (bytes + index + 1) < first_low \<or> m (bytes + index + 1) > first_high then index
             else if \<not> continuations_ok m bytes index continuations then index
             else utf8_loop m bytes len (index + continuations + 1)
     else len)"
  by pat_completeness auto
termination
proof (relation "measure (\<lambda>(m, bytes, len, index). len - index)", goal_cases)
  case (2 m bytes len index)
  then show ?case using skip_ascii_progress [of index len m bytes] by auto
qed auto

declare utf8_loop.simps [simp del]

definition arnm_utf8_valid_length :: "mem \<Rightarrow> addr \<Rightarrow> nat \<Rightarrow> nat" where
  "arnm_utf8_valid_length m text_at len = (if text_at = 0 then 0 else utf8_loop m text_at len 0)"

definition arnm_utf8_is_valid :: "mem \<Rightarrow> addr \<Rightarrow> nat \<Rightarrow> bool" where
  "arnm_utf8_is_valid m text_at len \<longleftrightarrow> arnm_utf8_valid_length m text_at len = len"

subsection \<open>The reference: Unicode scalar values and their encoding\<close>

definition scalar_value :: "nat \<Rightarrow> bool" where
  "scalar_value cp \<longleftrightarrow> cp < 0xD800 \<or> 0xE000 \<le> cp \<and> cp < 0x110000"

definition utf8_encode :: "nat \<Rightarrow> byte list" where
  "utf8_encode cp =
    (if cp < 0x80 then [of_nat cp]
     else if cp < 0x800 then [of_nat (0xC0 + cp div 64), of_nat (0x80 + cp mod 64)]
     else if cp < 0x10000 then
       [of_nat (0xE0 + cp div 4096), of_nat (0x80 + cp div 64 mod 64), of_nat (0x80 + cp mod 64)]
     else
       [of_nat (0xF0 + cp div 262144), of_nat (0x80 + cp div 4096 mod 64),
        of_nat (0x80 + cp div 64 mod 64), of_nat (0x80 + cp mod 64)])"

definition utf8_text :: "byte list \<Rightarrow> bool" where
  "utf8_text bs \<longleftrightarrow> (\<exists>cps. (\<forall>cp\<in>set cps. scalar_value cp) \<and> bs = concat (map utf8_encode cps))"

lemma utf8_text_Nil [simp]: "utf8_text []"
  by (auto simp: utf8_text_def intro: exI [of _ "[]"])

lemma utf8_text_append: "utf8_text xs \<Longrightarrow> utf8_text ys \<Longrightarrow> utf8_text (xs @ ys)"
  unfolding utf8_text_def by (metis (no_types) Un_iff concat_append map_append set_append)

lemma utf8_text_encode: "scalar_value cp \<Longrightarrow> utf8_text (utf8_encode cp)"
  by (auto simp: utf8_text_def intro!: exI [of _ "[cp]"])

lemma utf8_encode_nonempty [simp]: "utf8_encode cp \<noteq> []"
  by (simp add: utf8_encode_def)

subsection \<open>The accepted sequences are the encodings of scalar values\<close>

lemma continuation_range: "(c :: byte) AND 0xC0 = 0x80 \<longleftrightarrow> 0x80 \<le> c \<and> c \<le> 0xBF"
proof -
  have "\<forall>c::byte. c AND 0xC0 = 0x80 \<longleftrightarrow> 0x80 \<le> c \<and> c \<le> 0xBF"
    unfolding all_bytes by code_simp
  then show ?thesis by blast
qed

lemma encode2:
  assumes "194 \<le> b" "b \<le> 223" "128 \<le> c" "c \<le> 191"
  shows "\<exists>cp. scalar_value cp \<and> utf8_encode cp = [of_nat b, of_nat c]"
proof -
  define x y where "x = b - 192" and "y = c - 128"
  have bc: "b = 192 + x" "c = 128 + y" using assms by (simp_all add: x_def y_def)
  have "x * 64 + y < 2048" "128 \<le> x * 64 + y" "y < 64" using assms bc by auto
  then show ?thesis
    by (intro exI [of _ "x * 64 + y"]) (simp add: utf8_encode_def scalar_value_def bc)
qed

lemma encode3:
  assumes "224 \<le> b" "b \<le> 239" "128 \<le> c" "c \<le> 191" "128 \<le> e" "e \<le> 191"
    and "b = 224 \<Longrightarrow> 160 \<le> c" "b = 237 \<Longrightarrow> c \<le> 159"
  shows "\<exists>cp. scalar_value cp \<and> utf8_encode cp = [of_nat b, of_nat c, of_nat e]"
proof -
  define x y z where "x = b - 224" and "y = c - 128" and "z = e - 128"
  have bce: "b = 224 + x" "c = 128 + y" "e = 128 + z" using assms by (simp_all add: x_def y_def z_def)
  define cp where "cp = x * 4096 + y * 64 + z"
  have yz: "y < 64" "z < 64" using assms bce by auto
  have range: "cp < 0x10000" "0x800 \<le> cp" "\<not> (0xD800 \<le> cp \<and> cp < 0xE000)"
  proof -
    have "x = 0 \<or> 1 \<le> x \<and> x \<le> 12 \<or> x = 13 \<or> 14 \<le> x" by arith
    then show "cp < 0x10000" "0x800 \<le> cp" "\<not> (0xD800 \<le> cp \<and> cp < 0xE000)"
      using assms bce yz by (auto simp: cp_def)
  qed
  have parts: "cp div 4096 = x" "cp div 64 mod 64 = y" "cp mod 64 = z"
  proof -
    have "y * 64 + z < 4096" using yz by simp
    then show "cp div 4096 = x" by (simp add: cp_def add.assoc)
    have cp64: "cp = z + (x * 64 + y) * 64" by (simp add: cp_def)
    have "cp div 64 = x * 64 + y" unfolding cp64 using yz by simp
    then show "cp div 64 mod 64 = y" using yz by simp
    show "cp mod 64 = z" unfolding cp64 mod_mult_self1 using yz by simp
  qed
  have "scalar_value cp" using range by (auto simp: scalar_value_def)
  moreover have "utf8_encode cp = [of_nat b, of_nat c, of_nat e]"
    using range parts by (simp add: utf8_encode_def bce)
  ultimately show ?thesis by blast
qed

lemma encode4:
  assumes "240 \<le> b" "b \<le> 244" "128 \<le> c" "c \<le> 191" "128 \<le> e" "e \<le> 191" "128 \<le> f" "f \<le> 191"
    and "b = 240 \<Longrightarrow> 144 \<le> c" "b = 244 \<Longrightarrow> c \<le> 143"
  shows "\<exists>cp. scalar_value cp \<and> utf8_encode cp = [of_nat b, of_nat c, of_nat e, of_nat f]"
proof -
  define x y z w where "x = b - 240" and "y = c - 128" and "z = e - 128" and "w = f - 128"
  have bcef: "b = 240 + x" "c = 128 + y" "e = 128 + z" "f = 128 + w"
    using assms by (simp_all add: x_def y_def z_def w_def)
  define cp where "cp = x * 262144 + y * 4096 + z * 64 + w"
  have yzw: "y < 64" "z < 64" "w < 64" using assms bcef by auto
  have range: "cp < 0x110000" "0x10000 \<le> cp"
  proof -
    have "x = 0 \<or> 1 \<le> x \<and> x \<le> 3 \<or> x = 4 \<or> 5 \<le> x" by arith
    then show "cp < 0x110000" "0x10000 \<le> cp"
      using assms bcef yzw by (auto simp: cp_def)
  qed
  have parts: "cp div 262144 = x" "cp div 4096 mod 64 = y" "cp div 64 mod 64 = z" "cp mod 64 = w"
  proof -
    have "y * 4096 + z * 64 + w < 262144" using yzw by simp
    then show "cp div 262144 = x" by (simp add: cp_def add.assoc)
    have "cp = (x * 64 + y) * 4096 + (z * 64 + w)" "z * 64 + w < 4096" using yzw by (simp_all add: cp_def)
    then have "cp div 4096 = x * 64 + y" by simp
    then show "cp div 4096 mod 64 = y" using yzw by simp
    have cp64: "cp = w + (z + (x * 64 + y) * 64) * 64" by (simp add: cp_def)
    have "cp div 64 = z + (x * 64 + y) * 64" unfolding cp64 using yzw by simp
    then show "cp div 64 mod 64 = z" by (simp only: mod_mult_self1) (use yzw in simp)
    show "cp mod 64 = w" unfolding cp64 mod_mult_self1 using yzw by simp
  qed
  have "scalar_value cp" using range by (auto simp: scalar_value_def)
  moreover have "utf8_encode cp = [of_nat b, of_nat c, of_nat e, of_nat f]"
    using range parts by (simp add: utf8_encode_def bcef)
  ultimately show ?thesis by blast
qed

text \<open>The code's test of one sequence, on the bytes that follow the lead.\<close>

definition sequence_ok :: "byte \<Rightarrow> byte list \<Rightarrow> bool" where
  "sequence_ok lead cs =
    (case lead_class lead of None \<Rightarrow> False
     | Some (k, lo, hi) \<Rightarrow> length cs = k \<and> lo \<le> hd cs \<and> hd cs \<le> hi \<and>
         list_all (\<lambda>c. c AND 0xC0 = 0x80) (tl cs))"

lemma byte_le: "(b :: byte) \<le> c \<longleftrightarrow> unat b \<le> unat c" "b < c \<longleftrightarrow> unat b < unat c"
  by (simp_all add: word_le_nat_alt word_less_nat_alt)

lemma byte_eq: "(b :: byte) = c \<longleftrightarrow> unat b = unat c"
  by (simp add: word_unat_eq_iff)

lemma lead_class_cases:
  assumes "lead_class lead = Some (k, lo, hi)"
  shows "k = 1 \<and> 0xC2 \<le> lead \<and> lead \<le> 0xDF \<and> lo = 0x80 \<and> hi = 0xBF \<or>
    k = 2 \<and> 0xE0 \<le> lead \<and> lead \<le> 0xEF \<and> lo = (if lead = 0xE0 then 0xA0 else 0x80) \<and>
      hi = (if lead = 0xED then 0x9F else 0xBF) \<or>
    k = 3 \<and> 0xF0 \<le> lead \<and> lead \<le> 0xF4 \<and> lo = (if lead = 0xF0 then 0x90 else 0x80) \<and>
      hi = (if lead = 0xF4 then 0x8F else 0xBF)"
  using assms by (auto simp: lead_class_def byte_le byte_eq split: if_splits)

lemma sequence_ok_encoding:
  assumes "sequence_ok lead cs"
  shows "\<exists>cp. scalar_value cp \<and> utf8_encode cp = lead # cs"
proof -
  obtain k lo hi where cls: "lead_class lead = Some (k, lo, hi)"
    and cs: "length cs = k" "lo \<le> hd cs" "hd cs \<le> hi" "list_all (\<lambda>c. c AND 0xC0 = 0x80) (tl cs)"
    using assms by (auto simp: sequence_ok_def split: option.splits)
  consider "k = 1" | "k = 2" | "k = 3" using lead_class_cases [OF cls] by blast
  then show ?thesis
  proof cases
    case 1
    then obtain c where c: "cs = [c]" using cs(1) by (auto simp: length_Suc_conv)
    show ?thesis using encode2 [of "unat lead" "unat c"] lead_class_cases [OF cls] cs 1
      by (simp add: c byte_le)
  next
    case 2
    then obtain c e where c: "cs = [c, e]" using cs(1) by (auto simp: length_Suc_conv numeral_2_eq_2)
    have "0x80 \<le> e \<and> e \<le> 0xBF" using cs(4) by (simp add: c continuation_range)
    then show ?thesis
      using encode3 [of "unat lead" "unat c" "unat e"] lead_class_cases [OF cls] cs(2,3) 2
      by (auto simp: c byte_le byte_eq split: if_splits)
  next
    case 3
    then obtain c e g where c: "cs = [c, e, g]" using cs(1) by (auto simp: length_Suc_conv numeral_3_eq_3)
    have "0x80 \<le> e \<and> e \<le> 0xBF" "0x80 \<le> g \<and> g \<le> 0xBF"
      using cs(4) by (simp_all add: c continuation_range)
    then show ?thesis
      using encode4 [of "unat lead" "unat c" "unat e" "unat g"] lead_class_cases [OF cls] cs(2,3) 3
      by (auto simp: c byte_le byte_eq split: if_splits)
  qed
qed

subsection \<open>Every encoding is accepted, and none is a prefix of another\<close>

lemma word_mask:
  "load_word m a AND 0x8080808080808080 = 0 \<longleftrightarrow> (\<forall>k<8. m (a + k) < 0x80)"
proof -
  have top: "(c :: byte) < 0x80 \<longleftrightarrow> \<not> bit c 7" for c
  proof -
    have "\<forall>c::byte. c < 0x80 \<longleftrightarrow> \<not> bit c 7" unfolding all_bytes by code_simp
    then show ?thesis by blast
  qed
  have mask: "(0x8080808080808080 :: 64 word) =
      2 ^ 7 OR 2 ^ 15 OR 2 ^ 23 OR 2 ^ 31 OR 2 ^ 39 OR 2 ^ 47 OR 2 ^ 55 OR 2 ^ 63"
    by simp
  have part: "bit (push_bit s (ucast (b :: byte)) :: 64 word) n \<longleftrightarrow>
      s \<le> n \<and> n < 64 \<and> n - s < 8 \<and> bit b (n - s)" for s n b
    by (auto simp: bit_simps dest: bit_imp_le_length)
  have part0: "bit (ucast (b :: byte) :: 64 word) n \<longleftrightarrow> n < 8 \<and> bit b n" for n b
    by (auto simp: bit_simps dest: bit_imp_le_length)
  have bits: "bit (load_word m a) (8 * k + 7) = bit (m (a + k)) 7" if "k < 8" for k
  proof -
    from that consider "k = 0" | "k = 1" | "k = 2" | "k = 3" | "k = 4" | "k = 5" | "k = 6" | "k = 7"
      by linarith
    then show ?thesis by cases (simp_all add: load_word_def bit_or_iff part part0)
  qed
  have "load_word m a AND 0x8080808080808080 = 0 \<longleftrightarrow>
      \<not> bit (load_word m a) 7 \<and> \<not> bit (load_word m a) 15 \<and> \<not> bit (load_word m a) 23 \<and>
      \<not> bit (load_word m a) 31 \<and> \<not> bit (load_word m a) 39 \<and> \<not> bit (load_word m a) 47 \<and>
      \<not> bit (load_word m a) 55 \<and> \<not> bit (load_word m a) 63"
    unfolding mask bit.conj_disj_distrib or_eq_0_iff and_exp_eq_0_iff_not_bit by simp
  also have "\<dots> \<longleftrightarrow> (\<forall>k<8. \<not> bit (load_word m a) (8 * k + 7))"
    by (simp add: numeral_eq_Suc All_less_Suc2)
  also have "\<dots> \<longleftrightarrow> (\<forall>k<8. m (a + k) < 0x80)" using bits top by simp
  finally show ?thesis .
qed

lemma unat_byte: "n < 256 \<Longrightarrow> unat (of_nat n :: byte) = n"
  by (simp add: unat_of_nat)

lemma continuation_byte: "(of_nat (0x80 + n mod 64) :: byte) AND 0xC0 = 0x80"
proof -
  have "0x80 + n mod 64 < 256" using mod_less_divisor [of 64 n] by linarith
  then show ?thesis using mod_less_divisor [of 64 n]
    by (simp add: continuation_range byte_le unat_byte del: of_nat_add mod_less_divisor)
qed

lemma encoding_sequence_ok:
  assumes "scalar_value cp" "0x80 \<le> cp"
  shows "\<exists>lead cs. utf8_encode cp = lead # cs \<and> 0x80 \<le> lead \<and> sequence_ok lead cs"
proof -
  have range: "0x80 + n mod 64 < 256" "n mod 64 < 64" for n :: nat
    using mod_less_divisor [of 64 n] by linarith+
  consider "cp < 0x800" | "0x800 \<le> cp" "cp < 0x10000" | "0x10000 \<le> cp" by linarith
  then show ?thesis
  proof cases
    case 1
    define q where "q = cp div 64"
    have "2 \<le> q" "q < 32" using 1 assms(2) by (simp_all add: q_def)
    then have "sequence_ok (of_nat (0xC0 + q)) [of_nat (0x80 + cp mod 64)] \<and>
        0x80 \<le> (of_nat (0xC0 + q) :: byte)"
      using range [of cp]
      by (simp add: sequence_ok_def lead_class_def byte_le byte_eq unat_byte del: of_nat_add)
    then show ?thesis using 1 assms(2) by (auto simp: utf8_encode_def simp flip: q_def)
  next
    case 2
    define q r where "q = cp div 4096" and "r = cp div 64 mod 64"
    have "cp div 64 = q * 64 + r"
      using div_mult_mod_eq [of "cp div 64" 64] by (simp add: q_def r_def flip: div_mult2_eq)
    then have r: "q = 0 \<Longrightarrow> 32 \<le> r" "q = 13 \<Longrightarrow> r < 32" "r < 64" "q < 16"
      using 2 assms(1) by (auto simp: scalar_value_def q_def r_def)
    then have "sequence_ok (of_nat (0xE0 + q)) [of_nat (0x80 + r), of_nat (0x80 + cp mod 64)] \<and>
        0x80 \<le> (of_nat (0xE0 + q) :: byte)"
      using continuation_byte [of cp]
      by (auto simp: sequence_ok_def lead_class_def byte_le byte_eq [of "of_nat (0xE0 + q)"]
          unat_byte simp del: of_nat_add)
    then show ?thesis using 2 assms(2) by (auto simp: utf8_encode_def simp flip: q_def r_def)
  next
    case 3
    define q r where "q = cp div 262144" and "r = cp div 4096 mod 64"
    have "cp div 4096 = q * 64 + r"
      using div_mult_mod_eq [of "cp div 4096" 64] by (simp add: q_def r_def flip: div_mult2_eq)
    then have r: "q = 0 \<Longrightarrow> 16 \<le> r" "q = 4 \<Longrightarrow> r < 16" "r < 64" "q < 5"
      using 3 assms(1) by (auto simp: scalar_value_def q_def r_def)
    then have "sequence_ok (of_nat (0xF0 + q))
          [of_nat (0x80 + r), of_nat (0x80 + cp div 64 mod 64), of_nat (0x80 + cp mod 64)] \<and>
        0x80 \<le> (of_nat (0xF0 + q) :: byte)"
      using continuation_byte [of cp] continuation_byte [of "cp div 64"]
      by (auto simp: sequence_ok_def lead_class_def byte_le byte_eq [of "of_nat (0xF0 + q)"]
          unat_byte simp del: of_nat_add)
    then show ?thesis using 3 assms(2) by (auto simp: utf8_encode_def simp flip: q_def r_def)
  qed
qed

lemma utf8_text_Cons:
  "utf8_text (b # bs) \<longleftrightarrow>
    (if b < 0x80 then utf8_text bs
     else \<exists>cs rest. bs = cs @ rest \<and> sequence_ok b cs \<and> utf8_text rest)" (is "_ \<longleftrightarrow> ?r")
proof
  assume "utf8_text (b # bs)"
  then obtain cp cps where cps: "scalar_value cp" "\<forall>c\<in>set cps. scalar_value c"
    and bs: "b # bs = utf8_encode cp @ concat (map utf8_encode cps)"
    unfolding utf8_text_def by (metis concat.simps(1) list.exhaust list.map(1) list.simps(9) concat.simps(2)
        list.distinct(1) list.set_intros(1) list.set_intros(2))
  show ?r
  proof (cases "cp < 0x80")
    case True
    with bs have "b = of_nat cp" "bs = concat (map utf8_encode cps)" by (simp_all add: utf8_encode_def)
    with True cps show ?thesis by (auto simp: byte_le unat_byte utf8_text_def)
  next
    case False
    then obtain lead cs where "utf8_encode cp = lead # cs" "0x80 \<le> lead" "sequence_ok lead cs"
      using encoding_sequence_ok cps(1) by (meson not_le)
    with bs cps show ?thesis by (auto simp: utf8_text_def not_less)
  qed
next
  assume ?r
  show "utf8_text (b # bs)"
  proof (cases "b < 0x80")
    case True
    then have "utf8_encode (unat b) = [b]" "scalar_value (unat b)"
      by (simp_all add: utf8_encode_def scalar_value_def byte_le)
    with True \<open>?r\<close> show ?thesis using utf8_text_append [OF utf8_text_encode] by (metis append_Cons append_Nil)
  next
    case False
    with \<open>?r\<close> obtain cs rest where cs: "bs = cs @ rest" "sequence_ok b cs" "utf8_text rest" by auto
    then show ?thesis
      using sequence_ok_encoding [OF cs(2)] utf8_text_append [OF utf8_text_encode] by (metis append_Cons)
  qed
qed

lemma sequence_ok_length:
  "sequence_ok b cs \<Longrightarrow> sequence_ok b ds \<Longrightarrow> length cs = length ds"
  by (auto simp: sequence_ok_def split: option.splits)

lemma utf8_text_ascii:
  "\<forall>b\<in>set xs. b < 0x80 \<Longrightarrow> utf8_text (xs @ ys) \<longleftrightarrow> utf8_text ys"
  by (induction xs) (simp_all add: utf8_text_Cons)

lemma utf8_text_sequence:
  "\<not> b < 0x80 \<Longrightarrow> sequence_ok b cs \<Longrightarrow> utf8_text (b # cs @ ys) \<longleftrightarrow> utf8_text ys"
  by (simp add: utf8_text_Cons) (metis append_eq_append_conv sequence_ok_length)

subsection \<open>The code finds the longest valid prefix\<close>

lemma skip_ascii_words_run:
  assumes "index \<le> len"
  shows "skip_ascii_words m bytes len index \<le> len \<and>
    (\<forall>i. index \<le> i \<and> i < skip_ascii_words m bytes len index \<longrightarrow> m (bytes + i) < 0x80)"
  using assms
proof (induction m bytes len index rule: skip_ascii_words.induct)
  case (1 m bytes len index)
  show ?case
  proof (cases "8 \<le> len - index \<and> load_word m (bytes + index) AND 0x8080808080808080 = 0")
    case True
    then have chunk: "\<forall>k<8. m (bytes + index + k) < 0x80" using word_mask by blast
    have next_chunk: "m (bytes + i) < 0x80" if "index \<le> i" "i < index + 8" for i
      using chunk [rule_format, of "i - index"] that by (simp add: add.assoc)
    from True 1 have "skip_ascii_words m bytes len (index + 8) \<le> len \<and>
        (\<forall>i. index + 8 \<le> i \<and> i < skip_ascii_words m bytes len (index + 8) \<longrightarrow> m (bytes + i) < 0x80)"
      by auto
    with next_chunk True show ?thesis
      by (simp add: skip_ascii_words.simps [of m bytes len index]) (metis not_le)
  next
    case False
    with 1(2) show ?thesis by (auto simp: skip_ascii_words.simps [of m bytes len index])
  qed
qed

lemma skip_ascii_bytes_run:
  assumes "index \<le> len"
  shows "skip_ascii_bytes m bytes len index \<le> len \<and>
    (\<forall>i. index \<le> i \<and> i < skip_ascii_bytes m bytes len index \<longrightarrow> m (bytes + i) < 0x80)"
  using assms
proof (induction m bytes len index rule: skip_ascii_bytes.induct)
  case (1 m bytes len index)
  show ?case
  proof (cases "index < len \<and> m (bytes + index) < 0x80")
    case True
    with 1 have "skip_ascii_bytes m bytes len (index + 1) \<le> len \<and>
        (\<forall>i. index + 1 \<le> i \<and> i < skip_ascii_bytes m bytes len (index + 1) \<longrightarrow> m (bytes + i) < 0x80)"
      by auto
    with True show ?thesis
      by (simp add: skip_ascii_bytes.simps [of m bytes len index]) (metis Suc_leI le_neq_implies_less)
  next
    case False
    with 1(2) show ?thesis by (auto simp: skip_ascii_bytes.simps [of m bytes len index])
  qed
qed

lemma skip_ascii_run:
  fixes m :: mem and bytes :: addr
  assumes "index \<le> len"
  defines "nxt \<equiv> skip_ascii_bytes m bytes len (skip_ascii_words m bytes len index)"
  shows "index \<le> nxt \<and> nxt \<le> len \<and> (\<forall>b\<in>set (rd m (bytes + index) (nxt - index)). b < 0x80)"
proof -
  let ?w = "skip_ascii_words m bytes len index"
  have w: "index \<le> ?w" "?w \<le> len" "\<forall>i. index \<le> i \<and> i < ?w \<longrightarrow> m (bytes + i) < 0x80"
    using skip_ascii_words_run [OF assms(1), of m bytes] skip_ascii_words_ge by blast+
  have b: "?w \<le> nxt" "nxt \<le> len" "\<forall>i. ?w \<le> i \<and> i < nxt \<longrightarrow> m (bytes + i) < 0x80"
    using skip_ascii_bytes_run [OF w(2), of m bytes] skip_ascii_bytes_ge [of ?w m bytes len]
    by (auto simp: nxt_def)
  have "m (bytes + i) < 0x80" if "index \<le> i" "i < nxt" for i
    using w(3) b(3) that by (metis not_le)
  then have "\<forall>b\<in>set (rd m (bytes + index) (nxt - index)). b < 0x80"
    by (auto simp: in_set_conv_nth add.assoc)
  then show ?thesis using w b by auto
qed

text \<open>What is asked of the answer for the run from \<open>index\<close> on: it is a prefix that is UTF-8, and no
  longer prefix is.\<close>

definition longest_valid :: "mem \<Rightarrow> addr \<Rightarrow> nat \<Rightarrow> nat \<Rightarrow> nat \<Rightarrow> bool" where
  "longest_valid m bytes len index r \<longleftrightarrow>
    index \<le> r \<and> r \<le> len \<and> utf8_text (rd m (bytes + index) (r - index)) \<and>
    (\<forall>n. index + n \<le> len \<longrightarrow> utf8_text (rd m (bytes + index) n) \<longrightarrow> index + n \<le> r)"

lemma longest_valid_skip:
  assumes "index \<le> j" "j \<le> len"
    and strip: "\<And>ys. utf8_text (rd m (bytes + index) (j - index) @ ys) \<longleftrightarrow> utf8_text ys"
    and rest: "longest_valid m bytes len j r"
  shows "longest_valid m bytes len index r"
proof -
  have split: "rd m (bytes + index) n = rd m (bytes + index) (j - index) @ rd m (bytes + j) (n - (j - index))"
    if "j - index \<le> n" for n
    using that rd_add [of m "bytes + index" "j - index" "n - (j - index)"] assms(1) by simp
  have "j \<le> r" "r \<le> len" using rest by (auto simp: longest_valid_def)
  moreover have "utf8_text (rd m (bytes + index) (r - index))"
    using split [of "r - index"] strip rest \<open>j \<le> r\<close> assms(1) by (simp add: longest_valid_def diff_diff_eq)
  moreover have "index + n \<le> r" if n: "index + n \<le> len" "utf8_text (rd m (bytes + index) n)" for n
  proof (cases "j - index \<le> n")
    case True
    have "utf8_text (rd m (bytes + j) (n - (j - index)))"
      using n(2) unfolding split [OF True] strip .
    moreover have "j + (n - (j - index)) = index + n" using True assms(1) by simp
    moreover have "j + k \<le> len \<Longrightarrow> utf8_text (rd m (bytes + j) k) \<Longrightarrow> j + k \<le> r" for k
      using rest by (simp add: longest_valid_def)
    ultimately show ?thesis using n(1) by metis
  next
    case False
    with \<open>j \<le> r\<close> assms(1) show ?thesis by linarith
  qed
  ultimately show ?thesis using assms(1) by (auto simp: longest_valid_def)
qed

lemma longest_valid_stop:
  assumes "index < len" "\<not> m (bytes + index) < 0x80"
    and bad: "\<And>k. index + k < len \<Longrightarrow> \<not> sequence_ok (m (bytes + index)) (rd m (bytes + index + 1) k)"
  shows "longest_valid m bytes len index index"
proof -
  have "n = 0" if n: "index + n \<le> len" "utf8_text (rd m (bytes + index) n)" for n
  proof (rule ccontr)
    assume "n \<noteq> 0"
    then obtain k where k: "n = Suc k" by (cases n) auto
    with n(2) assms(2) obtain cs rest where cs: "rd m (bytes + index + 1) k = cs @ rest"
      and ok: "sequence_ok (m (bytes + index)) cs"
      by (auto simp: rd_Suc utf8_text_Cons split: if_splits)
    have "length cs \<le> k" using arg_cong [OF cs, of length] by simp
    moreover have "cs = rd m (bytes + index + 1) (length cs)"
      using cs rd_add [of m "bytes + index + 1" "length cs" "k - length cs"] calculation
      by (metis append_eq_append_conv le_add_diff_inverse length_rd)
    ultimately show False using bad [of "length cs"] ok n(1) k by simp
  qed
  then show ?thesis using assms(1) by (force simp: longest_valid_def)
qed

lemma sequence_test:
  assumes "lead_class lead = Some (k, lo, hi)"
  shows "sequence_ok lead (rd m (bytes + index + 1) k) \<longleftrightarrow>
    \<not> (m (bytes + index + 1) < lo \<or> m (bytes + index + 1) > hi) \<and> continuations_ok m bytes index k"
proof -
  obtain j where j: "k = Suc j" using lead_class_cases [OF assms] by auto
  have "list_all (\<lambda>c. c AND 0xC0 = 0x80) (rd m (bytes + index + 2) j) =
      continuations_ok m bytes index k"
  proof -
    have map_eq: "map (\<lambda>step. m (bytes + index + step)) [2..<k + 1] = rd m (bytes + index + 2) j"
      by (simp add: list_eq_iff_nth_eq j add.assoc del: upt_Suc)
    show ?thesis unfolding continuations_ok_def map_eq [symmetric] list.pred_map comp_def ..
  qed
  then show ?thesis
    by (auto simp: sequence_ok_def assms j rd_Suc)
qed

lemma utf8_loop_longest:
  "index \<le> len \<Longrightarrow> longest_valid m bytes len index (utf8_loop m bytes len index)"
proof (induction m bytes len index rule: utf8_loop.induct)
  case (1 m bytes len index)
  let ?lead = "m (bytes + index)"
  note step = utf8_loop.simps [of m bytes len index]
  consider (at_end) "\<not> index < len" | (ascii) "index < len" "?lead < 0x80"
    | (none) "index < len" "\<not> ?lead < 0x80" "lead_class ?lead = None"
    | (some) k lo hi where "index < len" "\<not> ?lead < 0x80" "lead_class ?lead = Some (k, lo, hi)"
    by (metis prod_cases3 option.exhaust)
  then show ?case
  proof cases
    case at_end
    then have "utf8_loop m bytes len index = len" by (simp add: step)
    with 1(3) at_end show ?thesis by (simp add: longest_valid_def)
  next
    case ascii
    then show ?thesis
      using skip_ascii_run [OF 1(3), of m bytes] 1(1) utf8_text_ascii
        longest_valid_skip [of index "skip_ascii_bytes m bytes len (skip_ascii_words m bytes len index)" len m bytes]
      by (simp add: step)
  next
    case none
    then show ?thesis by (simp add: step longest_valid_stop sequence_ok_def)
  next
    case some
    let ?ok = "k < len - index \<and> sequence_ok ?lead (rd m (bytes + index + 1) k)"
    show ?thesis
    proof (cases ?ok)
      case True
      then have "rd m (bytes + index) (index + k + 1 - index) = ?lead # rd m (bytes + index + 1) k"
        by (simp add: rd_Suc)
      with some True have "utf8_text (rd m (bytes + index) (index + k + 1 - index) @ ys) \<longleftrightarrow> utf8_text ys" for ys
        by (simp add: utf8_text_sequence)
      moreover have "longest_valid m bytes len (index + k + 1) (utf8_loop m bytes len (index + k + 1))"
        using 1(2) [OF some(1,2,3) refl refl] True sequence_test [OF some(3), of m bytes index] by auto
      ultimately show ?thesis
        using True some sequence_test [OF some(3), of m bytes index]
          longest_valid_skip [of index "index + k + 1" len m bytes "utf8_loop m bytes len (index + k + 1)"]
        by (auto simp: step)
    next
      case False
      have "\<not> sequence_ok ?lead (rd m (bytes + index + 1) j)" if "index + j < len" for j
        using False that some by (cases "j = k") (auto simp: sequence_ok_def)
      then show ?thesis
        using False some sequence_test [OF some(3), of m bytes index] longest_valid_stop [of index len m bytes]
        by (auto simp: step)
    qed
  qed
qed

section \<open>What the module promises\<close>

text \<open>C37: \<open>arnm_utf8_valid_length\<close> answers with the length of the longest prefix of the run that is a
  sequence of encoded Unicode scalar values: what it accepts is such a sequence, no longer prefix is
  one. Overlong forms, surrogates, values past U+10FFFF and truncated
  sequences therefore all end the prefix at their lead byte.\<close>

theorem utf8_valid_length_is_longest_prefix:
  assumes "text_at \<noteq> 0"
  shows "arnm_utf8_valid_length m text_at len \<le> len \<and>
    utf8_text (rd m text_at (arnm_utf8_valid_length m text_at len)) \<and>
    (\<forall>n\<le>len. utf8_text (rd m text_at n) \<longrightarrow> n \<le> arnm_utf8_valid_length m text_at len)"
  using utf8_loop_longest [of 0 len m text_at] assms(1)
  by (simp add: arnm_utf8_valid_length_def longest_valid_def)

text \<open>The run 61 C3 A9 | ED A0 80: "a", e acute, then half of a surrogate pair.\<close>

definition utf8_sample :: mem where
  "utf8_sample = wr (\<lambda>_. 0) 16 [0x61, 0xC3, 0xA9, 0xED, 0xA0, 0x80]"

lemma utf8_sample_length: "arnm_utf8_valid_length utf8_sample 16 6 = 3"
  by code_simp

lemma utf8_valid_length_is_longest_prefix_witness:
  "utf8_text (rd utf8_sample 16 3) \<and> \<not> utf8_text (rd utf8_sample 16 4) \<and>
    \<not> utf8_text (rd utf8_sample 16 6)"
proof -
  have "utf8_text (rd utf8_sample 16 3)" "\<forall>n\<le>6. utf8_text (rd utf8_sample 16 n) \<longrightarrow> n \<le> 3"
    using utf8_valid_length_is_longest_prefix [of 16 utf8_sample 6] by (simp_all add: utf8_sample_length)
  then show ?thesis by (auto dest: spec [of _ 4] spec [of _ 6])
qed

text \<open>\<open>arnm_utf8_is_valid\<close> accepts a run exactly when it is a sequence of encoded Unicode
  scalar values, the empty run included.\<close>

theorem utf8_is_valid_iff:
  assumes "text_at \<noteq> 0"
  shows "arnm_utf8_is_valid m text_at len \<longleftrightarrow> utf8_text (rd m text_at len)"
  using utf8_loop_longest [of 0 len m text_at] assms
  by (auto simp: arnm_utf8_is_valid_def arnm_utf8_valid_length_def longest_valid_def)

lemma utf8_is_valid_iff_witness:
  "utf8_text (rd utf8_sample 16 3) \<and> \<not> utf8_text (rd utf8_sample 17 5)"
proof -
  have "arnm_utf8_is_valid utf8_sample 16 3" "\<not> arnm_utf8_is_valid utf8_sample 17 5" by code_simp+
  then show ?thesis
    using utf8_is_valid_iff [of 16 utf8_sample 3] utf8_is_valid_iff [of 17 utf8_sample 5] by simp
qed

end
