(* ===== verification/Host.thy ===== *)
theory Host
  imports Prelude
begin

text \<open>
  The C library's heap as the code uses it: \<open>malloc\<close>, \<open>realloc\<close> and \<open>free\<close> with what the standard
  says of them, and the bytes of the address space. Where a block goes, and whether there is one,
  is the business of the library the program is linked with: an oracle answers the n-th request,
  and an answer that is no conforming one (not aligned for every object, outside the address space,
  or on top of a block that is still live) counts as NULL. Every theorem below holds for all
  oracles, so for every conforming allocator, and for one that runs out at any moment.
\<close>

record host =
  bytes :: mem
  blocks :: "(addr \<times> nat) list"
  answers :: "nat \<Rightarrow> addr"
  calls :: nat

abbreviation (input) NULL :: addr where "NULL \<equiv> 0"

abbreviation (input) ADDRESS_END :: nat where "ADDRESS_END \<equiv> 18446744073709551616"

fun block_region :: "addr \<times> nat \<Rightarrow> addr set" where
  "block_region (a, n) = region a n"

definition apart :: "addr \<Rightarrow> nat \<Rightarrow> addr \<Rightarrow> nat \<Rightarrow> bool" where
  "apart a n b k \<longleftrightarrow> a + n \<le> b \<or> b + k \<le> a"

definition fits :: "addr \<Rightarrow> nat \<Rightarrow> (addr \<times> nat) list \<Rightarrow> bool" where
  "fits a n bs \<longleftrightarrow>
    a \<noteq> NULL \<and> a mod 8 = 0 \<and> a + n < ADDRESS_END \<and> list_all (\<lambda>(b, k). apart a n b k) bs"

definition malloc :: "nat \<Rightarrow> host \<Rightarrow> addr \<times> host" where
  "malloc n h =
    (let a = answers h (calls h); h = h\<lparr>calls := calls h + 1\<rparr>
     in if fits a n (blocks h) then (a, h\<lparr>blocks := (a, n) # blocks h\<rparr>) else (NULL, h))"

definition host_free :: "addr \<Rightarrow> host \<Rightarrow> host" where
  "host_free p h = (if p = NULL then h else h\<lparr>blocks := filter (\<lambda>b. fst b \<noteq> p) (blocks h)\<rparr>)"

text \<open>The block moves or stays where it is; what fits in both sizes comes along.\<close>

definition host_realloc :: "addr \<Rightarrow> nat \<Rightarrow> host \<Rightarrow> addr \<times> host" where
  "host_realloc p n h =
    (if p = NULL then malloc n h
     else
       let a = answers h (calls h); h = h\<lparr>calls := calls h + 1\<rparr>;
           others = filter (\<lambda>b. fst b \<noteq> p) (blocks h);
           old = (case map_of (blocks h) p of None \<Rightarrow> 0 | Some k \<Rightarrow> k)
       in if fits a n others
          then (a, h\<lparr>blocks := (a, n) # others, bytes := memcpy (bytes h) a p (min old n)\<rparr>)
          else (NULL, h))"

subsection \<open>The invariant of the heap\<close>

text \<open>Blocks that are proper objects, any two of them apart.\<close>

definition blocks_ok :: "(addr \<times> nat) list \<Rightarrow> bool" where
  "blocks_ok bs \<longleftrightarrow>
    (\<forall>(a, n)\<in>set bs. a \<noteq> NULL \<and> a mod 8 = 0 \<and> 0 < n \<and> a + n < ADDRESS_END) \<and>
    sorted_wrt (\<lambda>(a, n) (b, k). apart a n b k) bs"

definition host_ok :: "host \<Rightarrow> bool" where
  "host_ok h \<longleftrightarrow> blocks_ok (blocks h)"

definition heap_used :: "host \<Rightarrow> addr set" where
  "heap_used h = \<Union> (block_region ` set (blocks h))"

lemma apart_commute: "apart a n b k \<longleftrightarrow> apart b k a n"
  by (auto simp: apart_def)

lemma apart_region: "0 < n \<Longrightarrow> 0 < k \<Longrightarrow> apart a n b k \<longleftrightarrow> region a n \<inter> region b k = {}"
  by (simp add: apart_def region_disjoint_iff)

lemma apart_disjoint: "apart a n b k \<Longrightarrow> region a n \<inter> region b k = {}"
  by (auto simp: apart_def)

lemma blocks_ok_Nil [simp]: "blocks_ok []"
  by (simp add: blocks_ok_def)

lemma blocks_ok_Cons:
  "blocks_ok ((a, n) # bs) \<longleftrightarrow> 0 < n \<and> fits a n bs \<and> blocks_ok bs"
  by (auto simp: blocks_ok_def fits_def list_all_iff)

lemma blocks_ok_filter: "blocks_ok bs \<Longrightarrow> blocks_ok (filter P bs)"
  by (auto simp: blocks_ok_def sorted_wrt_filter)

lemma blocks_ok_apart:
  assumes "blocks_ok bs" "(a, n) \<in> set bs" "(b, k) \<in> set bs" "(a, n) \<noteq> (b, k)"
  shows "apart a n b k"
  using assms
proof (induction bs)
  case (Cons x xs)
  then have "blocks_ok xs" "\<forall>(b, k)\<in>set xs. apart (fst x) (snd x) b k"
    by (cases x; auto simp: blocks_ok_Cons fits_def list_all_iff)+
  with Cons show ?case by (auto simp: apart_commute)
qed simp

lemma blocks_ok_unique:
  assumes "blocks_ok bs" "(a, n) \<in> set bs" "(a, k) \<in> set bs"
  shows "n = k"
proof (rule ccontr)
  assume "n \<noteq> k"
  with assms have "apart a n a k" by (intro blocks_ok_apart [OF assms(1)]) auto
  with assms show False by (auto simp: apart_def blocks_ok_def)
qed

lemma in_heap_used: "x \<in> heap_used h \<longleftrightarrow> (\<exists>a n. (a, n) \<in> set (blocks h) \<and> a \<le> x \<and> x < a + n)"
  by (force simp: heap_used_def)

lemma block_in_heap_used: "(a, n) \<in> set (blocks h) \<Longrightarrow> region a n \<subseteq> heap_used h"
  by (meson in_heap_used in_region subsetI)

lemma fits_fresh: "fits a n (blocks h) \<Longrightarrow> region a n \<inter> heap_used h = {}"
  by (fastforce simp: fits_def list_all_iff in_heap_used apart_def)

lemma heap_used_Cons: "blocks h' = (a, n) # blocks h \<Longrightarrow> heap_used h' = region a n \<union> heap_used h"
  by (simp add: heap_used_def)

lemma malloc_ok:
  assumes "host_ok h" "0 < n" "malloc n h = (a, h')"
  shows "host_ok h' \<and> bytes h' = bytes h \<and>
    (if a = NULL then blocks h' = blocks h
     else a mod 8 = 0 \<and> a + n < ADDRESS_END \<and> blocks h' = (a, n) # blocks h \<and>
       region a n \<inter> heap_used h = {})"
proof (cases "fits (answers h (calls h)) n (blocks h)")
  case True
  then show ?thesis
    using assms fits_fresh [OF True] by (auto simp: malloc_def Let_def host_ok_def blocks_ok_Cons fits_def)
next
  case False
  then show ?thesis using assms by (auto simp: malloc_def Let_def host_ok_def)
qed

lemma blocks_ok_remove:
  assumes "blocks_ok bs" "(p, n) \<in> set bs"
  shows "set (filter (\<lambda>b. fst b \<noteq> p) bs) = set bs - {(p, n)}"
proof -
  have unique: "\<And>k. (p, k) \<in> set bs \<Longrightarrow> k = n"
    using blocks_ok_unique [OF assms] by simp
  show ?thesis
  proof (intro set_eqI)
    fix b :: "addr \<times> nat"
    show "b \<in> set (filter (\<lambda>b. fst b \<noteq> p) bs) \<longleftrightarrow> b \<in> set bs - {(p, n)}"
      by (cases b) (auto dest: unique)
  qed
qed

lemma heap_used_remove:
  assumes "host_ok h" "(p, n) \<in> set (blocks h)" "set (blocks h') = set (blocks h) - {(p, n)}"
  shows "heap_used h' = heap_used h - region p n"
proof -
  have "region a k \<inter> region p n = {}" if "(a, k) \<in> set (blocks h)" "(a, k) \<noteq> (p, n)" for a k
    using assms(1,2) that unfolding host_ok_def by (intro apart_disjoint blocks_ok_apart)
  then have other: "x < a \<or> a + k \<le> x" if "(a, k) \<in> set (blocks h)" "(a, k) \<noteq> (p, n)" "x \<in> region p n" for a k x
    using that by (metis disjoint_iff in_region not_le)
  show ?thesis
  proof (intro set_eqI iffI)
    fix x assume "x \<in> heap_used h'"
    then obtain a k where "(a, k) \<in> set (blocks h)" "(a, k) \<noteq> (p, n)" "a \<le> x" "x < a + k"
      unfolding in_heap_used assms(3) by blast
    with other [of a k x] show "x \<in> heap_used h - region p n" unfolding Diff_iff in_heap_used by fastforce
  next
    fix x assume "x \<in> heap_used h - region p n"
    then show "x \<in> heap_used h'" unfolding Diff_iff in_heap_used assms(3) by (metis Diff_iff in_region prod.inject singletonD)
  qed
qed

lemma host_free_ok:
  assumes "host_ok h" "(p, n) \<in> set (blocks h)"
  shows "host_ok (host_free p h) \<and> bytes (host_free p h) = bytes h \<and>
    set (blocks (host_free p h)) = set (blocks h) - {(p, n)} \<and>
    heap_used (host_free p h) = heap_used h - region p n"
proof -
  have p: "p \<noteq> NULL" using assms by (auto simp: host_ok_def blocks_ok_def)
  have blocks: "set (blocks (host_free p h)) = set (blocks h) - {(p, n)}"
    using p assms blocks_ok_remove by (simp add: host_free_def host_ok_def)
  moreover have "host_ok (host_free p h)"
    using assms(1) by (simp add: host_free_def host_ok_def blocks_ok_filter)
  ultimately show ?thesis
    using heap_used_remove [OF assms blocks] by (simp add: host_free_def)
qed

lemma host_realloc_ok:
  assumes "host_ok h" "(p, k) \<in> set (blocks h)" "0 < n" "host_realloc p n h = (a, h')"
  shows "host_ok h' \<and>
    (if a = NULL then blocks h' = blocks h \<and> bytes h' = bytes h
     else a mod 8 = 0 \<and> a + n < ADDRESS_END \<and>
       set (blocks h') = insert (a, n) (set (blocks h) - {(p, k)}) \<and>
       region a n \<inter> (heap_used h - region p k) = {} \<and>
       rd (bytes h') a (min k n) = rd (bytes h) p (min k n) \<and>
       (\<forall>x. x \<notin> region a n \<longrightarrow> bytes h' x = bytes h x))"
proof -
  define others where "others = filter (\<lambda>b. fst b \<noteq> p) (blocks h)"
  have p: "p \<noteq> NULL" using assms by (auto simp: host_ok_def blocks_ok_def)
  have size: "map_of (blocks h) p = Some k"
  proof -
    have "p \<in> fst ` set (blocks h)" using assms(2) by force
    then obtain j where "map_of (blocks h) p = Some j" by (metis domD dom_map_of_conv_image_fst)
    moreover from this have "(p, j) \<in> set (blocks h)" by (rule map_of_SomeD)
    ultimately show ?thesis using blocks_ok_unique assms(1,2) unfolding host_ok_def by blast
  qed
  have others: "set others = set (blocks h) - {(p, k)}" "blocks_ok others"
    using assms(1,2) blocks_ok_remove blocks_ok_filter by (auto simp: others_def host_ok_def)
  show ?thesis
  proof (cases "fits (answers h (calls h)) n others")
    case True
    then have a: "a = answers h (calls h)" "blocks h' = (a, n) # others"
      "bytes h' = memcpy (bytes h) a p (min k n)"
      using assms(4) p size by (auto simp: host_realloc_def Let_def others_def)
    have "region a n \<inter> heap_used (h\<lparr>blocks := others\<rparr>) = {}"
      using True a(1) fits_fresh [of a n "h\<lparr>blocks := others\<rparr>"] by simp
    moreover have "heap_used (h\<lparr>blocks := others\<rparr>) = heap_used h - region p k"
      using heap_used_remove [OF assms(1,2), of "h\<lparr>blocks := others\<rparr>"] others by simp
    ultimately show ?thesis
      using True a others assms(3)
      by (auto simp: host_ok_def blocks_ok_Cons fits_def rd_memcpy memcpy_apart)
  next
    case False
    then show ?thesis
      using assms p size by (auto simp: host_realloc_def Let_def others_def host_ok_def)
  qed
qed

end
