(* ===== verification/Allocator.thy ===== *)
theory Allocator
  imports Host Results
begin

text \<open>
  The interface every container of the library is written against: an allocator a block can be
  asked of, resized by and given back to (\<^verbatim>\<open>include/arnm/memory.h\<close>). An \<open>arnm\<close> pointer that a
  container holds is a value of \<open>ops\<close> here: the operations on the world \<open>'w\<close> they act on. The locale
  \<open>arnm_allocator\<close> is the contract; it is interpreted for the C heap and the single arena in the theory
  \<open>Arena\<close> and for the chain of arenas in \<open>Multi_Arena\<close>. The client at the end of this theory is any
  program that holds blocks, writes into them, and asks for more: it is the contract that its
  blocks stay its own.
\<close>

subsection \<open>Sizes\<close>

definition ARNM_ALIGN8 :: "nat \<Rightarrow> nat" where "ARNM_ALIGN8 x = ((x + 7) div 8) * 8"
definition ARNM_MAX_ALLOC_SIZE :: nat where "ARNM_MAX_ALLOC_SIZE = UINT32_MAX - 7"

definition arnm_align8_u32 :: "nat \<Rightarrow> nat" where
  "arnm_align8_u32 sz = (if sz > ARNM_MAX_ALLOC_SIZE then 0 else ARNM_ALIGN8 sz)"

lemma align8_bounds: "sz \<le> ARNM_ALIGN8 sz \<and> ARNM_ALIGN8 sz < sz + 8 \<and> ARNM_ALIGN8 sz mod 8 = 0"
  unfolding ARNM_ALIGN8_def by presburger

lemma align8_least: "sz \<le> k \<Longrightarrow> k mod 8 = 0 \<Longrightarrow> ARNM_ALIGN8 sz \<le> k"
  unfolding ARNM_ALIGN8_def by presburger

lemma align8_id [simp]: "k mod 8 = 0 \<Longrightarrow> ARNM_ALIGN8 k = k"
  unfolding ARNM_ALIGN8_def by presburger

lemma align8_mono: "a \<le> b \<Longrightarrow> ARNM_ALIGN8 a \<le> ARNM_ALIGN8 b"
  using align8_bounds [of b] by (intro align8_least) auto

lemma align8_u32_cases:
  "arnm_align8_u32 sz =
    (if sz \<le> ARNM_MAX_ALLOC_SIZE then ARNM_ALIGN8 sz else 0)"
  by (auto simp: arnm_align8_u32_def)

lemma align8_u32_0 [simp]: "arnm_align8_u32 0 = 0"
  by (simp add: arnm_align8_u32_def ARNM_ALIGN8_def)

lemma align8_u32_pos: "0 < sz \<Longrightarrow> arnm_align8_u32 sz \<noteq> 0 \<longleftrightarrow> sz \<le> ARNM_MAX_ALLOC_SIZE"
  using align8_bounds [of sz] by (auto simp: arnm_align8_u32_def)

lemma align8_u32_bound: "arnm_align8_u32 sz \<le> UINT32_MAX - 7"
  using align8_least [of sz "UINT32_MAX - 7"]
  by (simp add: arnm_align8_u32_def ARNM_MAX_ALLOC_SIZE_def UINT32_MAX_def)

lemma align8_u32_mod [simp]: "arnm_align8_u32 sz mod 8 = 0"
  using align8_bounds [of sz] by (simp add: arnm_align8_u32_def)

subsection \<open>The operations of an allocator\<close>

text \<open>
  \<open>op_alloc n\<close> answers with a result and the pointer it stored, \<open>op_realloc p old new\<close> with a result
  and what the caller's pointer is afterwards. The bytes of the address space are part of the
  world: \<open>op_mem\<close> reads them and \<open>op_set_mem\<close> is any sequence of stores.
\<close>

record 'w ops =
  op_alloc :: "nat \<Rightarrow> 'w \<Rightarrow> arnm_result \<times> addr \<times> 'w"
  op_realloc :: "addr \<Rightarrow> nat \<Rightarrow> nat \<Rightarrow> 'w \<Rightarrow> arnm_result \<times> addr \<times> 'w"
  op_free :: "addr \<Rightarrow> nat \<Rightarrow> 'w \<Rightarrow> arnm_result \<times> 'w"
  op_mem :: "'w \<Rightarrow> mem"
  op_set_mem :: "mem \<Rightarrow> 'w \<Rightarrow> 'w"
  op_is_arena :: "'w \<Rightarrow> bool"

text \<open>
  A container is handed to its functions by pointer; here it is a value, passed in and returned.
  \<open>with_object f\<close> is the C function that begins with \<open>if (!v) return ARNM_ERROR_NULL_POINTER\<close> and
  goes on with \<open>f\<close>; \<open>None\<close> is the NULL pointer.
\<close>

definition with_object :: "('v \<Rightarrow> 'w \<Rightarrow> arnm_result \<times> 'v \<times> 'w) \<Rightarrow> 'v option \<Rightarrow> 'w \<Rightarrow>
    arnm_result \<times> 'v option \<times> 'w" where
  "with_object f v w =
    (case v of None \<Rightarrow> (ARNM_ERROR_NULL_POINTER, None, w)
     | Some v \<Rightarrow> (case f v w of (r, v, w) \<Rightarrow> (r, Some v, w)))"

abbreviation done_code :: "arnm_result \<Rightarrow> bool" where
  "done_code r \<equiv> r = ARNM_SUCCESS \<or> r = ARNM_WARNING_ARENA_MEMORY_NOT_RECLAIMED"

text \<open>
  \<open>owns w p n\<close>: the allocator has handed out \<open>n\<close> bytes at \<open>p\<close> and has not taken them back.
\<close>

locale arnm_lender =
  fixes ops :: "'w ops"
    and sound :: "'w \<Rightarrow> bool"
    and owns :: "'w \<Rightarrow> addr \<Rightarrow> nat \<Rightarrow> bool"
  assumes owned: "sound w \<Longrightarrow> owns w p n \<Longrightarrow> p \<noteq> NULL \<and> p mod 8 = 0 \<and> 0 < n \<and> p + n < ADDRESS_END"
    and mem_set: "op_mem ops (op_set_mem ops m w) = m"
    and set_law: "sound w \<Longrightarrow> owns w p n \<Longrightarrow> (\<And>x. x \<notin> region p n \<Longrightarrow> m x = op_mem ops w x) \<Longrightarrow>
      sound (op_set_mem ops m w) \<and> (\<forall>q k. owns (op_set_mem ops m w) q k = owns w q k)"
    and alloc_law: "sound w \<Longrightarrow> 0 < n \<Longrightarrow> op_alloc ops n w = (r, p, w') \<Longrightarrow>
      sound w' \<and> r \<noteq> ARNM_WARNING_ARENA_MEMORY_NOT_RECLAIMED \<and>
      (\<forall>q k. owns w q k \<longrightarrow> owns w' q k \<and> rd (op_mem ops w') q k = rd (op_mem ops w) q k) \<and>
      (r = ARNM_SUCCESS \<longrightarrow> owns w' p n \<and> (\<forall>q k. owns w q k \<longrightarrow> apart p n q k))"
    and free_law: "sound w \<Longrightarrow> owns w p n \<Longrightarrow> op_free ops p n w = (r, w') \<Longrightarrow>
      sound w' \<and> done_code r \<and>
      (\<forall>q k. owns w q k \<and> apart p n q k \<longrightarrow>
        owns w' q k \<and> rd (op_mem ops w') q k = rd (op_mem ops w) q k) \<and>
      (r \<noteq> ARNM_SUCCESS \<longrightarrow> owns w' p n)"
    and realloc_law: "sound w \<Longrightarrow> owns w p old \<Longrightarrow> 0 < new \<Longrightarrow>
      op_realloc ops p old new w = (r, p', w') \<Longrightarrow>
      sound w' \<and>
      (\<forall>q k. owns w q k \<and> apart p old q k \<longrightarrow>
        owns w' q k \<and> rd (op_mem ops w') q k = rd (op_mem ops w) q k) \<and>
      (if done_code r
       then owns w' p' new \<and> (\<forall>q k. owns w q k \<and> apart p old q k \<longrightarrow> apart p' new q k) \<and>
         rd (op_mem ops w') p' (min old new) = rd (op_mem ops w) p (min old new)
       else p' = p \<and> owns w' p old \<and> rd (op_mem ops w') p old = rd (op_mem ops w) p old) \<and>
      (r \<noteq> ARNM_SUCCESS \<and> new \<le> old \<longrightarrow>
        p' = p \<and> owns w' p old \<and> rd (op_mem ops w') p old = rd (op_mem ops w) p old)"

text \<open>
  An allocator that keeps no books in the memory it lends from, so that no store whatever can disturb
  it, and that also grows a block out of nothing.
\<close>

locale arnm_allocator = arnm_lender ops sound owns
  for ops :: "'w ops" and sound :: "'w \<Rightarrow> bool" and owns :: "'w \<Rightarrow> addr \<Rightarrow> nat \<Rightarrow> bool" +
  assumes sound_set: "sound (op_set_mem ops m w) = sound w"
    and owns_set: "owns (op_set_mem ops m w) p n = owns w p n"
    and realloc_null_law: "sound w \<Longrightarrow> 0 < new \<Longrightarrow> op_realloc ops NULL 0 new w = (r, p, w') \<Longrightarrow>
      sound w' \<and>
      (\<forall>q k. owns w q k \<longrightarrow> owns w' q k \<and> rd (op_mem ops w') q k = rd (op_mem ops w) q k) \<and>
      (if done_code r then owns w' p new \<and> (\<forall>q k. owns w q k \<longrightarrow> apart p new q k)
       else p = NULL)"

subsection \<open>Any client\<close>

text \<open>
  A client holds blocks; of each it knows the address, the size and what it last wrote there. It
  allocates, resizes, frees and writes, in any order.
\<close>

type_synonym held = "addr \<times> byte list"

datatype request =
    Req_Alloc nat
  | Req_Realloc nat nat
  | Req_Free nat
  | Req_Write nat nat byte

abbreviation held_block :: "held \<Rightarrow> addr \<times> nat" where
  "held_block b \<equiv> (fst b, length (snd b))"

definition drop_nth :: "nat \<Rightarrow> 'a list \<Rightarrow> 'a list" where
  "drop_nth i xs = take i xs @ drop (Suc i) xs"

fun client_step :: "'w ops \<Rightarrow> request \<Rightarrow> 'w \<times> held list \<Rightarrow> 'w \<times> held list" where
  "client_step ops (Req_Alloc n) (w, held) =
    (if n = 0 then (w, held)
     else case op_alloc ops n w of (r, p, w') \<Rightarrow>
       (w', if r = ARNM_SUCCESS then (p, rd (op_mem ops w') p n) # held else held))"
| "client_step ops (Req_Realloc i n) (w, held) =
    (if n = 0 \<or> length held \<le> i then (w, held)
     else case held ! i of (p, bs) \<Rightarrow>
       (case op_realloc ops p (length bs) n w of (r, p', w') \<Rightarrow>
         (w', if done_code r
              then (p', take n bs @ rd (op_mem ops w') (p' + length bs) (n - length bs)) # drop_nth i held
              else held)))"
| "client_step ops (Req_Free i) (w, held) =
    (if length held \<le> i then (w, held)
     else case held ! i of (p, bs) \<Rightarrow>
       (case op_free ops p (length bs) w of (r, w') \<Rightarrow> (w', drop_nth i held)))"
| "client_step ops (Req_Write i j b) (w, held) =
    (if length held \<le> i then (w, held)
     else case held ! i of (p, bs) \<Rightarrow>
       if length bs \<le> j then (w, held)
       else (op_set_mem ops ((op_mem ops w)(p + j := b)) w, held[i := (p, bs[j := b])]))"

definition client_run :: "'w ops \<Rightarrow> request list \<Rightarrow> 'w \<times> held list \<Rightarrow> 'w \<times> held list" where
  "client_run ops = fold (client_step ops)"

text \<open>What the client is owed: its blocks are owned, apart from each other, and hold what it wrote.\<close>

definition held_apart :: "held list \<Rightarrow> bool" where
  "held_apart = sorted_wrt (\<lambda>(p, bs) (q, cs). apart p (length bs) q (length cs))"

fun client_ok :: "'w ops \<Rightarrow> ('w \<Rightarrow> bool) \<Rightarrow> ('w \<Rightarrow> addr \<Rightarrow> nat \<Rightarrow> bool) \<Rightarrow> 'w \<times> held list \<Rightarrow> bool" where
  "client_ok ops sound owns (w, held) \<longleftrightarrow>
    sound w \<and> held_apart held \<and>
    (\<forall>(p, bs)\<in>set held. owns w p (length bs) \<and> rd (op_mem ops w) p (length bs) = bs)"

lemma set_drop_nth: "set (drop_nth i xs) \<subseteq> set xs"
  by (auto simp: drop_nth_def dest: in_set_takeD in_set_dropD)

lemma held_apart_Cons:
  "held_apart ((p, bs) # held) \<longleftrightarrow>
    (\<forall>(q, cs)\<in>set held. apart p (length bs) q (length cs)) \<and> held_apart held"
  by (auto simp: held_apart_def)

lemma held_apart_split:
  assumes "held_apart held" "i < length held" "held ! i = (p, bs)"
  shows "held_apart (drop_nth i held) \<and>
    (\<forall>(q, cs)\<in>set (drop_nth i held). apart p (length bs) q (length cs))"
proof -
  have split: "held = take i held @ (p, bs) # drop (Suc i) held"
    using id_take_nth_drop [OF assms(2)] assms(3) by simp
  have "held_apart (take i held @ (p, bs) # drop (Suc i) held)" using assms(1) split by simp
  then show ?thesis
    unfolding held_apart_def drop_nth_def sorted_wrt_append sorted_wrt.simps set_append
    by (fastforce simp: apart_commute)
qed

lemma held_apart_update:
  assumes "held_apart held" "i < length held" "held ! i = (p, bs)" "length cs = length bs"
  shows "held_apart (held[i := (p, cs)])"
proof -
  have blocks: "held_apart xs \<longleftrightarrow>
      sorted_wrt (\<lambda>x y. apart (fst x) (snd x) (fst y) (snd y)) (map held_block xs)" for xs
    by (simp add: held_apart_def sorted_wrt_map case_prod_unfold)
  have "map held_block (held[i := (p, cs)]) = map held_block held"
    using assms list_update_id [of "map held_block held" i] by (simp add: map_update)
  then show ?thesis using assms(1) unfolding blocks by simp
qed

lemma set_nth_drop_nth:
  assumes "i < length xs"
  shows "set xs = insert (xs ! i) (set (drop_nth i xs))"
proof -
  have "set xs = set (take i xs @ xs ! i # drop (Suc i) xs)" using id_take_nth_drop [OF assms] by simp
  then show ?thesis by (simp add: drop_nth_def)
qed

lemma rd_apart:
  "apart p n q k \<Longrightarrow> (\<And>x. x \<notin> region p n \<Longrightarrow> m' x = m x) \<Longrightarrow> rd m' q k = rd m q k"
  by (auto simp: apart_def intro!: rd_cong)

context arnm_lender begin

abbreviation safe :: "'w \<times> held list \<Rightarrow> bool" where
  "safe \<equiv> client_ok ops sound owns"

lemma alloc_step:
  assumes "safe (w, held)"
  shows "safe (client_step ops (Req_Alloc n) (w, held))"
proof (cases "n = 0")
  case False
  obtain r p w' where op: "op_alloc ops n w = (r, p, w')" by (metis prod_cases3)
  note law = alloc_law [OF _ _ op]
  show ?thesis using assms False law by (auto simp: op held_apart_Cons)
qed (use assms in simp)

lemma free_step:
  assumes "safe (w, held)"
  shows "safe (client_step ops (Req_Free i) (w, held))"
proof (cases "i < length held")
  case True
  obtain p bs where b: "held ! i = (p, bs)" by fastforce
  obtain r w' where op: "op_free ops p (length bs) w = (r, w')" by fastforce
  have "(p, bs) \<in> set held" using True b by (metis nth_mem)
  then have "sound w'"
    "\<forall>q k. owns w q k \<and> apart p (length bs) q k \<longrightarrow>
      owns w' q k \<and> rd (op_mem ops w') q k = rd (op_mem ops w) q k"
    using assms free_law [OF _ _ op] by auto
  moreover have "held_apart held" using assms by simp
  ultimately show ?thesis
    using assms True held_apart_split [OF _ True b] set_drop_nth [of i held]
    by (fastforce simp: b op)
qed (use assms in simp)

lemma write_step:
  assumes "safe (w, held)"
  shows "safe (client_step ops (Req_Write i j c) (w, held))"
proof (cases "i < length held \<and> j < length (snd (held ! i))")
  case True
  obtain p bs where b: "held ! i = (p, bs)" by fastforce
  let ?m = "(op_mem ops w)(p + j := c)"
  have i: "i < length held" and j: "j < length bs" using True b by auto
  have other: "rd ?m q (length cs) = cs" if "(q, cs) \<in> set (drop_nth i held)" for q cs
  proof -
    have "apart p (length bs) q (length cs)" "rd (op_mem ops w) q (length cs) = cs"
      using that assms held_apart_split [OF _ i b] set_drop_nth [of i held] by auto
    then show ?thesis using j by (auto simp: apart_def mem_simps)
  qed
  have "rd (op_mem ops w) p (length bs) = bs" using assms i b by (auto dest!: nth_mem)
  then have own: "rd ?m p (length bs) = bs[j := c]"
    using j by (auto simp: rd_eq_iff nth_list_update)
  have members: "(q, cs) = (p, bs[j := c]) \<or> (q, cs) \<in> set (drop_nth i held)"
    if "(q, cs) \<in> set (held[i := (p, bs[j := c])])" for q cs
    using that i by (auto simp: upd_conv_take_nth_drop drop_nth_def)
  have "held_apart (held[i := (p, bs[j := c])])"
    using assms i b by (intro held_apart_update) auto
  moreover have "owns w q (length cs) \<and> rd ?m q (length cs) = cs"
    if "(q, cs) \<in> set (held[i := (p, bs[j := c])])" for q cs
    using members [OF that] other own assms i b set_drop_nth [of i held] nth_mem [OF i] by auto
  moreover have "sound (op_set_mem ops ?m w) \<and> (\<forall>q k. owns (op_set_mem ops ?m w) q k = owns w q k)"
    using assms i b by (intro set_law [of w p "length bs"]) (auto dest!: nth_mem simp: j)
  ultimately show ?thesis
    using assms i j by (auto simp: b mem_set)
qed (use assms in \<open>auto split: prod.splits\<close>)

lemma realloc_step:
  assumes "safe (w, held)"
  shows "safe (client_step ops (Req_Realloc i n) (w, held))"
proof (cases "i < length held \<and> 0 < n")
  case True
  obtain p bs where b: "held ! i = (p, bs)" by fastforce
  obtain r p' w' where op: "op_realloc ops p (length bs) n w = (r, p', w')" by (metis prod_cases3)
  have i: "i < length held" using True by simp
  have p: "(p, bs) \<in> set held" using i b by (metis nth_mem)
  then have own: "owns w p (length bs)" "rd (op_mem ops w) p (length bs) = bs" "sound w"
    using assms by auto
  note law = realloc_law [OF own(3,1) _ op]
  have rest: "owns w' q (length cs) \<and> rd (op_mem ops w') q (length cs) = cs"
    "done_code r \<Longrightarrow> apart p' n q (length cs)"
    if q: "(q, cs) \<in> set (drop_nth i held)" for q cs
  proof -
    have *: "apart p (length bs) q (length cs)" "rd (op_mem ops w) q (length cs) = cs" "owns w q (length cs)"
      using q assms held_apart_split [OF _ i b] set_drop_nth [of i held] by auto
    then show "done_code r \<Longrightarrow> apart p' n q (length cs)" using law True by auto
    show "owns w' q (length cs) \<and> rd (op_mem ops w') q (length cs) = cs"
      using * law True by auto
  qed
  show ?thesis
  proof (cases "done_code r")
    case True
    define new where "new = take n bs @ rd (op_mem ops w') (p' + length bs) (n - length bs)"
    have "rd (op_mem ops w') p' (min (length bs) n) = take n bs"
    proof -
      have "rd (op_mem ops w') p' (min (length bs) n) = rd (op_mem ops w) p (min (length bs) n)"
        using law \<open>i < length held \<and> 0 < n\<close> True by auto
      also have "\<dots> = take n (rd (op_mem ops w) p (length bs))"
        by (rule nth_equalityI) (auto simp: min_def split: if_splits)
      finally show ?thesis by (simp add: own(2))
    qed
    then have "rd (op_mem ops w') p' n = new" "length new = n"
      using rd_add [of "op_mem ops w'" p' "min (length bs) n" "n - length bs"]
      by (auto simp: new_def min_def split: if_splits)
    then show ?thesis
      using True \<open>i < length held \<and> 0 < n\<close> law assms rest held_apart_split [OF _ i b]
      by (auto simp: b op held_apart_Cons simp flip: new_def)
  next
    case False
    have "(q, cs) = (p, bs) \<or> (q, cs) \<in> set (drop_nth i held)" if "(q, cs) \<in> set held" for q cs
      using that set_nth_drop_nth [OF i] b by auto
    with False \<open>i < length held \<and> 0 < n\<close> law assms rest own show ?thesis by (auto simp: b op)
  qed
qed (use assms in auto)

lemma client_run_safe: "safe s \<Longrightarrow> safe (client_run ops reqs s)"
proof (induction reqs arbitrary: s)
  case (Cons req reqs)
  obtain w held where s: "s = (w, held)" by fastforce
  have "safe (client_step ops req s)"
    using Cons.prems alloc_step realloc_step free_step write_step unfolding s by (cases req) metis+
  then show ?case using Cons.IH by (simp add: client_run_def)
qed (simp add: client_run_def)

end

subsection \<open>What a container holds\<close>

text \<open>
  The blocks a container has, all of them owned and apart; and what one of its operations may do to
  the rest of the world: a block that is not the container's stays owned, keeps its bytes and stays
  apart from what the container holds afterwards.
\<close>

definition all_apart :: "(addr \<times> nat) list \<Rightarrow> bool" where
  "all_apart = sorted_wrt (\<lambda>(p, n) (q, k). apart p n q k)"

definition held_ok :: "('w \<Rightarrow> addr \<Rightarrow> nat \<Rightarrow> bool) \<Rightarrow> 'w \<Rightarrow> (addr \<times> nat) list \<Rightarrow> bool" where
  "held_ok owns w bs \<longleftrightarrow> (\<forall>(p, n)\<in>set bs. owns w p n) \<and> all_apart bs"

definition apart_from :: "(addr \<times> nat) list \<Rightarrow> addr \<Rightarrow> nat \<Rightarrow> bool" where
  "apart_from bs q k \<longleftrightarrow> (\<forall>(p, n)\<in>set bs. apart p n q k)"

definition foreign_safe :: "'w ops \<Rightarrow> ('w \<Rightarrow> addr \<Rightarrow> nat \<Rightarrow> bool) \<Rightarrow>
    'w \<Rightarrow> (addr \<times> nat) list \<Rightarrow> 'w \<Rightarrow> (addr \<times> nat) list \<Rightarrow> bool" where
  "foreign_safe ops owns w bs w' bs' \<longleftrightarrow>
    (\<forall>q k. owns w q k \<and> apart_from bs q k \<longrightarrow>
      owns w' q k \<and> apart_from bs' q k \<and> rd (op_mem ops w') q k = rd (op_mem ops w) q k)"

lemma all_apart_Nil [simp]: "all_apart []"
  by (simp add: all_apart_def)

lemma all_apart_Cons [simp]: "all_apart ((p, n) # bs) \<longleftrightarrow> apart_from bs p n \<and> all_apart bs"
  by (auto simp: all_apart_def apart_from_def apart_commute)

lemma all_apart_append:
  "all_apart (xs @ ys) \<longleftrightarrow> all_apart xs \<and> all_apart ys \<and> (\<forall>(q, k)\<in>set ys. apart_from xs q k)"
  by (auto simp: all_apart_def apart_from_def sorted_wrt_append)

lemma apart_from_Nil [simp]: "apart_from [] q k"
  by (simp add: apart_from_def)

lemma apart_from_Cons [simp]: "apart_from ((p, n) # bs) q k \<longleftrightarrow> apart p n q k \<and> apart_from bs q k"
  by (simp add: apart_from_def)

lemma apart_from_append [simp]: "apart_from (xs @ ys) q k \<longleftrightarrow> apart_from xs q k \<and> apart_from ys q k"
  by (auto simp: apart_from_def)

lemma held_ok_Nil [simp]: "held_ok owns w []"
  by (simp add: held_ok_def)

lemma held_ok_Cons [simp]:
  "held_ok owns w ((p, n) # bs) \<longleftrightarrow> owns w p n \<and> apart_from bs p n \<and> held_ok owns w bs"
  by (auto simp: held_ok_def)

lemma held_ok_append:
  "held_ok owns w (xs @ ys) \<longleftrightarrow>
    held_ok owns w xs \<and> held_ok owns w ys \<and> (\<forall>(q, k)\<in>set ys. apart_from xs q k)"
  by (auto simp: held_ok_def all_apart_append)

lemma apart_from_iff: "apart_from bs p n \<longleftrightarrow> (\<forall>q k. (q, k) \<in> set bs \<longrightarrow> apart p n q k)"
  unfolding apart_from_def using apart_commute by blast

lemma apart_from_all: "(\<forall>(q, k)\<in>set ys. apart_from xs q k) \<longleftrightarrow> (\<forall>(p, n)\<in>set xs. apart_from ys p n)"
  unfolding apart_from_def using apart_commute by blast

lemma held_ok_member:
  "held_ok owns w ((p, n) # bs) \<Longrightarrow> (q, k) \<in> set bs \<Longrightarrow> owns w q k \<and> apart p n q k"
  by (auto simp: held_ok_def apart_from_iff)

lemma held_ok_keep:
  "held_ok owns w bs \<Longrightarrow> (\<And>q k. (q, k) \<in> set bs \<Longrightarrow> owns w' q k) \<Longrightarrow> held_ok owns w' bs"
  by (auto simp: held_ok_def)

lemma held_ok_swap: "held_ok owns w (xs @ ys) \<longleftrightarrow> held_ok owns w (ys @ xs)"
  using apart_from_all [of ys xs] by (auto simp: held_ok_append)

lemma held_ok_middle: "held_ok owns w (xs @ (p, n) # ys) \<longleftrightarrow> held_ok owns w ((p, n) # xs @ ys)"
  by (auto simp: held_ok_append)

lemma foreign_safe_refl [simp]: "foreign_safe ops owns w bs w bs"
  by (simp add: foreign_safe_def)

lemma foreign_safe_trans [trans]:
  "foreign_safe ops owns w bs w1 bs1 \<Longrightarrow> foreign_safe ops owns w1 bs1 w2 bs2 \<Longrightarrow>
    foreign_safe ops owns w bs w2 bs2"
  unfolding foreign_safe_def by metis

lemma foreign_safe_set:
  "foreign_safe ops owns w bs w' bs' \<Longrightarrow> set cs = set bs \<Longrightarrow> set cs' = set bs' \<Longrightarrow>
    foreign_safe ops owns w cs w' cs'"
  by (simp add: foreign_safe_def apart_from_def)

lemma foreign_safe_more:
  "foreign_safe ops owns w bs w' bs' \<Longrightarrow> foreign_safe ops owns w (bs @ cs) w' (bs' @ cs)"
  by (auto simp: foreign_safe_def)

lemma held_ok_foreign:
  assumes "foreign_safe ops owns w bs w' bs'" "held_ok owns w (bs @ cs)" "held_ok owns w' bs'"
  shows "held_ok owns w' (bs' @ cs)"
proof -
  have "owns w' q k \<and> apart_from bs' q k" if "(q, k) \<in> set cs" for q k
  proof -
    have "held_ok owns w cs" "\<forall>(q, k)\<in>set cs. apart_from bs q k" using assms(2) by (simp_all add: held_ok_append)
    then have "owns w q k" "apart_from bs q k" using that by (auto simp: held_ok_def)
    then show ?thesis using assms(1) by (simp add: foreign_safe_def)
  qed
  then show ?thesis
    using assms(2,3) by (auto simp: held_ok_append intro: held_ok_keep)
qed

context arnm_allocator begin

abbreviation safe_step :: "'w \<Rightarrow> (addr \<times> nat) list \<Rightarrow> 'w \<Rightarrow> (addr \<times> nat) list \<Rightarrow> bool" where
  "safe_step w bs w' bs' \<equiv> sound w' \<and> held_ok owns w' bs' \<and> foreign_safe ops owns w bs w' bs'"

lemma safe_step_trans: "safe_step w bs w1 bs1 \<Longrightarrow> safe_step w1 bs1 w2 bs2 \<Longrightarrow> safe_step w bs w2 bs2"
  by (blast intro: foreign_safe_trans)

lemma hold_alloc:
  assumes "sound w" "held_ok owns w bs" "0 < n" "op_alloc ops n w = (r, p, w')"
  shows "safe_step w bs w' (if r = ARNM_SUCCESS then (p, n) # bs else bs) \<and> r \<noteq> ARNM_WARNING_ARENA_MEMORY_NOT_RECLAIMED"
proof -
  note law = alloc_law [OF assms(1,3,4)]
  have "owns w q k" if "(q, k) \<in> set bs" for q k using assms(2) that by (auto simp: held_ok_def)
  then have "held_ok owns w' (if r = ARNM_SUCCESS then (p, n) # bs else bs)"
    using law assms(2) by (auto simp: apart_from_iff intro: held_ok_keep)
  then show ?thesis using law by (auto simp: foreign_safe_def)
qed

lemma hold_free:
  assumes "sound w" "held_ok owns w ((p, n) # bs)" "op_free ops p n w = (r, w')"
  shows "safe_step w ((p, n) # bs) w' bs \<and> done_code r \<and>
    (r \<noteq> ARNM_SUCCESS \<longrightarrow> safe_step w ((p, n) # bs) w' ((p, n) # bs))"
proof -
  have own: "owns w p n" using assms(2) by simp
  note law = free_law [OF assms(1) own assms(3)]
  have "held_ok owns w' bs"
  proof (rule held_ok_keep)
    show "held_ok owns w bs" using assms(2) by simp
    show "owns w' q k" if "(q, k) \<in> set bs" for q k
      using law held_ok_member [OF assms(2) that] by blast
  qed
  then show ?thesis using law assms(2) by (auto simp: foreign_safe_def)
qed

lemma realloc_safe:
  assumes "sound w" "held_ok owns w ((p, old) # bs)" "0 < new" "op_realloc ops p old new w = (r, p', w')"
  shows "sound w' \<and> (\<not> done_code r \<longrightarrow> p' = p) \<and>
    (let bs' = (if done_code r then (p', new) else (p, old)) # bs
     in held_ok owns w' bs' \<and> foreign_safe ops owns w ((p, old) # bs) w' bs')"
proof -
  have own: "owns w p old" and rest: "apart_from bs p old" "held_ok owns w bs" using assms(2) by simp_all
  note law = realloc_law [OF assms(1) own assms(3,4)]
  show ?thesis
  proof (cases "done_code r")
    case True
    then have law1: "sound w'" "owns w' p' new"
      "\<forall>q k. owns w q k \<and> apart p old q k \<longrightarrow>
        owns w' q k \<and> apart p' new q k \<and> rd (op_mem ops w') q k = rd (op_mem ops w) q k"
      using law by auto
    have bs: "owns w q k \<and> apart p old q k" if "(q, k) \<in> set bs" for q k
      using held_ok_member [OF assms(2) that] .
    have "held_ok owns w' ((p', new) # bs)"
      using law1 bs rest by (auto simp: apart_from_iff intro: held_ok_keep)
    moreover have "foreign_safe ops owns w ((p, old) # bs) w' ((p', new) # bs)"
      using law1 by (auto simp: foreign_safe_def)
    ultimately show ?thesis using True law1(1) by auto
  next
    case False
    then have law1: "sound w'" "p' = p" "owns w' p old"
      "\<forall>q k. owns w q k \<and> apart p old q k \<longrightarrow>
        owns w' q k \<and> rd (op_mem ops w') q k = rd (op_mem ops w) q k"
      using law by auto
    have "held_ok owns w' ((p, old) # bs)"
      using law1 rest held_ok_member [OF assms(2)] by (auto intro: held_ok_keep)
    then show ?thesis using False law1 by (auto simp: foreign_safe_def)
  qed
qed

lemma hold_realloc:
  assumes "sound w" "held_ok owns w ((p, old) # bs)" "0 < new" "op_realloc ops p old new w = (r, p', w')"
  shows "safe_step w ((p, old) # bs) w' (if done_code r then (p', new) # bs else (p, old) # bs) \<and>
    (if done_code r then rd (op_mem ops w') p' (min old new) = rd (op_mem ops w) p (min old new) else p' = p)"
proof -
  have own: "owns w p old" using assms(2) by simp
  show ?thesis
    using realloc_safe [OF assms] realloc_law [OF assms(1) own assms(3,4)]
    by (auto simp: Let_def split: if_splits)
qed

text \<open>A block that was to shrink and could not is what it was.\<close>

lemma hold_realloc_buried:
  assumes "sound w" "held_ok owns w ((p, old) # bs)" "0 < new" "op_realloc ops p old new w = (r, p', w')"
    and "r \<noteq> ARNM_SUCCESS" "new \<le> old"
  shows "p' = p \<and> safe_step w ((p, old) # bs) w' ((p, old) # bs)"
proof -
  have own: "owns w p old" using assms(2) by simp
  have "owns w' p old" "sound w'" "p' = p"
    "\<forall>q k. owns w q k \<and> apart p old q k \<longrightarrow>
      owns w' q k \<and> rd (op_mem ops w') q k = rd (op_mem ops w) q k"
    using realloc_law [OF assms(1) own assms(3,4)] assms(5,6) by auto
  moreover from this have "held_ok owns w' ((p, old) # bs)"
    using assms(2) held_ok_member [OF assms(2)] by (auto intro: held_ok_keep)
  ultimately show ?thesis by (auto simp: foreign_safe_def)
qed

lemma hold_realloc_null:
  assumes "sound w" "held_ok owns w bs" "0 < new" "op_realloc ops NULL 0 new w = (r, p, w')"
  shows "safe_step w bs w' (if done_code r then (p, new) # bs else bs) \<and> (\<not> done_code r \<longrightarrow> p = NULL)"
proof -
  note law = realloc_null_law [OF assms(1,3,4)]
  have "owns w q k" if "(q, k) \<in> set bs" for q k using assms(2) that by (auto simp: held_ok_def)
  then have "held_ok owns w' (if done_code r then (p, new) # bs else bs)"
    using law assms(2) by (auto simp: apart_from_iff intro: held_ok_keep split: if_splits)
  then show ?thesis using law by (auto simp: foreign_safe_def split: if_splits)
qed

end

end
