(* ===== verification/Arena.thy ===== *)
theory Arena
  imports Allocator
begin

text \<open>
  The single arena and the C heap behind one handle (\<^verbatim>\<open>src/memory.c\<close> without the chain,
  \<^verbatim>\<open>src/memory_intern.h\<close>, \<^verbatim>\<open>include/arnm/arena.h\<close>). An \<open>arnm\<close> object is the record \<open>arena\<close>, its fields
  those of \<open>arnm_intern\<close> for the single-arena member of the union; the objects live in a table by
  address, and a NULL handle names none, which is the host mode. The branches of the same
  functions that concern a chain of arenas are in the theory \<open>Multi_Arena\<close>.
\<close>

subsection \<open>The objects\<close>

datatype arnm_alloc_type =
    ARNM_ALLOC_TYPE_DEFAULT
  | ARNM_ALLOC_TYPE_ARENA_OWNED
  | ARNM_ALLOC_TYPE_ARENA_EXTERNAL
  | ARNM_ALLOC_TYPE_MULTI_ARENA_DYNAMIC
  | ARNM_ALLOC_TYPE_MULTI_ARENA_FIXED

record arena =
  data :: addr
  last_index :: nat
  capacity :: nat
  out_of_memory_capacity :: nat
  allocation_type :: arnm_alloc_type

record flat =
  heap :: host
  handles :: "addr \<Rightarrow> arena option"

definition zero_arena :: arena where
  "zero_arena = \<lparr>data = NULL, last_index = 0, capacity = 0, out_of_memory_capacity = 0,
     allocation_type = ARNM_ALLOC_TYPE_DEFAULT\<rparr>"

definition SIZEOF_ARNM :: nat where "SIZEOF_ARNM = 32"

text \<open>What a handle points at; NULL, or an address no handle was made at, is no object.\<close>

definition intern_of :: "addr \<Rightarrow> 'z flat_scheme \<Rightarrow> arena option" where
  "intern_of m w = (if m = NULL then None else handles w m)"

definition is_default_alloc :: "arena option \<Rightarrow> bool" where
  "is_default_alloc memory =
    (case memory of None \<Rightarrow> True | Some a \<Rightarrow> allocation_type a = ARNM_ALLOC_TYPE_DEFAULT)"

definition is_single_arena :: "arena option \<Rightarrow> bool" where
  "is_single_arena memory =
    (case memory of None \<Rightarrow> False
     | Some a \<Rightarrow> allocation_type a = ARNM_ALLOC_TYPE_ARENA_OWNED \<or>
         allocation_type a = ARNM_ALLOC_TYPE_ARENA_EXTERNAL)"

text \<open>The enumerators from \<open>ARENA_OWNED\<close> to \<open>MULTI_ARENA_FIXED\<close>.\<close>

definition is_arena :: "arena option \<Rightarrow> bool" where
  "is_arena memory =
    (case memory of None \<Rightarrow> False | Some a \<Rightarrow> allocation_type a \<noteq> ARNM_ALLOC_TYPE_DEFAULT)"

definition arnm_arena_is_used_up :: "nat \<Rightarrow> nat \<Rightarrow> bool" where
  "arnm_arena_is_used_up remaining full_remaining \<longleftrightarrow> remaining \<le> full_remaining"

definition set_handle :: "addr \<Rightarrow> arena \<Rightarrow> 'z flat_scheme \<Rightarrow> 'z flat_scheme" where
  "set_handle m a w = w\<lparr>handles := (handles w)(m := Some a)\<rparr>"

definition set_bytes :: "mem \<Rightarrow> 'z flat_scheme \<Rightarrow> 'z flat_scheme" where
  "set_bytes m w = w\<lparr>heap := (heap w)\<lparr>bytes := m\<rparr>\<rparr>"

abbreviation bytes_of :: "'z flat_scheme \<Rightarrow> mem" where
  "bytes_of w \<equiv> bytes (heap w)"

subsection \<open>One arena\<close>

definition remaining_bytes :: "arena option \<Rightarrow> nat" where
  "remaining_bytes memory =
    (case memory of None \<Rightarrow> 0
     | Some a \<Rightarrow> if is_single_arena memory then sub32 (capacity a) (last_index a) else 0)"

definition arnm_is_arena :: "addr \<Rightarrow> 'z flat_scheme \<Rightarrow> bool" where
  "arnm_is_arena m w = is_arena (intern_of m w)"

definition arnm_arena_remaining :: "addr \<Rightarrow> 'z flat_scheme \<Rightarrow> nat" where
  "arnm_arena_remaining m w = remaining_bytes (intern_of m w)"

definition arnm_arena_overflow_total :: "addr \<Rightarrow> 'z flat_scheme \<Rightarrow> nat" where
  "arnm_arena_overflow_total m w =
    (if \<not> is_single_arena (intern_of m w) then 0
     else out_of_memory_capacity (the (intern_of m w)))"

text \<open>
  \<open>data + last_index - aligned_size = buffer\<close> in pointers; the sum is written on the other side,
  so no difference is taken below zero.
\<close>

definition is_single_arena_reclaimable :: "addr \<Rightarrow> nat \<Rightarrow> arena option \<Rightarrow> bool" where
  "is_single_arena_reclaimable buffer aligned_size memory =
    (is_single_arena memory \<and> buffer \<noteq> NULL \<and> aligned_size \<noteq> 0 \<and>
     data (the memory) + last_index (the memory) = buffer + aligned_size)"

definition account_capacity_exceeded :: "nat \<Rightarrow> arena \<Rightarrow> bool \<times> arena" where
  "account_capacity_exceeded aligned_size a =
    (if is_single_arena (Some a) then
       if remaining_bytes (Some a) < aligned_size then
         if out_of_memory_capacity a + aligned_size > UINT32_MAX
         then (True, a\<lparr>out_of_memory_capacity := UINT32_MAX\<rparr>)
         else (True, a\<lparr>out_of_memory_capacity := out_of_memory_capacity a + aligned_size\<rparr>)
       else (False, a)
     else (False, a))"

definition arena_alloc_aligned :: "addr \<Rightarrow> nat \<Rightarrow> arena \<Rightarrow> arnm_result \<times> addr \<times> arena" where
  "arena_alloc_aligned buffer aligned_size a =
    (if data a = NULL then (ARNM_ERROR_INVALID_STATE, buffer, a)
     else if is_single_arena (Some a) then
       case account_capacity_exceeded aligned_size a of
         (exceeded, a) \<Rightarrow>
           if exceeded then (ARNM_ERROR_OUT_OF_MEMORY, buffer, a)
           else (ARNM_SUCCESS, data a + last_index a, a\<lparr>last_index := u32 (last_index a + aligned_size)\<rparr>)
     else (ARNM_SUCCESS, buffer, a))"

subsection \<open>Allocate, free, resize\<close>

text \<open>
  \<open>buffer\<close> is the caller's pointer variable with its value before the call, \<open>None\<close> when the
  address of the variable itself is NULL.
\<close>

definition arnm_alloc :: "addr option \<Rightarrow> nat \<Rightarrow> addr \<Rightarrow> 'z flat_scheme \<Rightarrow>
    arnm_result \<times> addr option \<times> 'z flat_scheme" where
  "arnm_alloc buffer sz m w =
    (case buffer of None \<Rightarrow> (ARNM_ERROR_NULL_POINTER, buffer, w)
     | Some old \<Rightarrow>
       if sz = 0 then (ARNM_ERROR_INVALID_PARAM, buffer, w)
       else if is_default_alloc (intern_of m w) then
         case malloc sz (heap w) of (allocated, h) \<Rightarrow>
           if allocated = NULL then (ARNM_ERROR_OUT_OF_MEMORY, buffer, w\<lparr>heap := h\<rparr>)
           else (ARNM_SUCCESS, Some allocated, w\<lparr>heap := h\<rparr>)
       else
         let aligned_size = arnm_align8_u32 sz
         in if aligned_size = 0 then (ARNM_ERROR_ARITHMETIC_OVERFLOW, buffer, w)
            else case arena_alloc_aligned old aligned_size (the (intern_of m w)) of
              (result, p, a) \<Rightarrow> (result, Some p, set_handle m a w))"

definition arnm_free :: "addr \<Rightarrow> nat \<Rightarrow> addr \<Rightarrow> 'z flat_scheme \<Rightarrow> arnm_result \<times> 'z flat_scheme" where
  "arnm_free buffer sz m w =
    (if \<not> is_arena (intern_of m w) then (ARNM_SUCCESS, w\<lparr>heap := host_free buffer (heap w)\<rparr>)
     else
       let aligned_size = arnm_align8_u32 sz; memory = intern_of m w
       in if sz \<noteq> 0 \<and> aligned_size = 0 then (ARNM_ERROR_ARITHMETIC_OVERFLOW, w)
          else if is_single_arena_reclaimable buffer aligned_size memory then
            (ARNM_SUCCESS,
             set_handle m ((the memory)\<lparr>last_index := sub32 (last_index (the memory)) aligned_size\<rparr>) w)
          else (ARNM_WARNING_ARENA_MEMORY_NOT_RECLAIMED, w))"

definition arnm_realloc :: "addr option \<Rightarrow> nat \<Rightarrow> nat \<Rightarrow> addr \<Rightarrow> 'z flat_scheme \<Rightarrow>
    arnm_result \<times> addr option \<times> 'z flat_scheme" where
  "arnm_realloc buffer old_size new_size m w =
    (case buffer of None \<Rightarrow> (ARNM_ERROR_NULL_POINTER, buffer, w)
     | Some p \<Rightarrow>
       let memory = intern_of m w;
           new_size_aligned = arnm_align8_u32 new_size;
           old_size_aligned = arnm_align8_u32 old_size
       in if new_size \<noteq> 0 \<and> new_size_aligned = 0 \<or> old_size \<noteq> 0 \<and> old_size_aligned = 0 then
            (ARNM_ERROR_ARITHMETIC_OVERFLOW, buffer, w)
          else if new_size_aligned = 0 then
            case arnm_free p old_size_aligned m w of
              (result, w) \<Rightarrow> (result, if result = ARNM_SUCCESS then Some NULL else buffer, w)
          else if p \<noteq> NULL \<and> old_size = new_size then (ARNM_SUCCESS, buffer, w)
          else if is_single_arena_reclaimable p old_size_aligned memory then
            let single_arena = the memory
            in if new_size_aligned < old_size_aligned then
                 (ARNM_SUCCESS, buffer,
                  set_handle m (single_arena\<lparr>last_index :=
                    sub32 (last_index single_arena) (old_size_aligned - new_size_aligned)\<rparr>) w)
               else
                 let additional = new_size_aligned - old_size_aligned
                 in if remaining_bytes memory \<ge> additional then
                      (ARNM_SUCCESS, buffer,
                       set_handle m (single_arena\<lparr>last_index :=
                         u32 (last_index single_arena + additional)\<rparr>) w)
                    else
                      (ARNM_ERROR_OUT_OF_MEMORY, buffer,
                       set_handle m (snd (account_capacity_exceeded additional single_arena)) w)
          else if is_default_alloc memory then
            case host_realloc p new_size (heap w) of (resized, h) \<Rightarrow>
              if resized = NULL then (ARNM_ERROR_OUT_OF_MEMORY, buffer, w\<lparr>heap := h\<rparr>)
              else (ARNM_SUCCESS, Some resized, w\<lparr>heap := h\<rparr>)
          else if new_size_aligned > old_size_aligned then
            case arnm_alloc (Some NULL) new_size_aligned m w of
              (result, resized, w) \<Rightarrow>
                if result \<noteq> ARNM_SUCCESS then (result, buffer, w)
                else
                  (ARNM_WARNING_ARENA_MEMORY_NOT_RECLAIMED, resized,
                   if p \<noteq> NULL \<and> old_size \<noteq> 0
                   then set_bytes (memcpy (bytes_of w) (the resized) p old_size) w else w)
          else (ARNM_WARNING_ARENA_MEMORY_NOT_RECLAIMED, buffer, w))"

definition arnm_clone :: "addr option \<Rightarrow> addr \<Rightarrow> nat \<Rightarrow> addr \<Rightarrow> 'z flat_scheme \<Rightarrow>
    arnm_result \<times> addr option \<times> 'z flat_scheme" where
  "arnm_clone dst_buffer src sz memory w =
    (if dst_buffer = None \<or> src = NULL then (ARNM_ERROR_NULL_POINTER, dst_buffer, w)
     else if sz = 0 then (ARNM_ERROR_INVALID_PARAM, dst_buffer, w)
     else case arnm_alloc dst_buffer sz memory w of
       (result, dst, w) \<Rightarrow>
         if result \<noteq> ARNM_SUCCESS then (result, dst, w)
         else (ARNM_SUCCESS, dst, set_bytes (memcpy (bytes_of w) (the dst) src sz) w))"

subsection \<open>The life of a handle\<close>

text \<open>
  \<open>reset_arena\<close>, \<open>release_arena\<close>, \<open>init_arena\<close> and \<open>borrow_arena\<close> are the bodies of the functions below on
  the object itself, which a caller may keep elsewhere than in the table: on its stack, or as an
  element of a vector.
\<close>

definition reset_arena :: "arena \<Rightarrow> arena" where
  "reset_arena a =
    (if is_single_arena (Some a) then a\<lparr>last_index := 0, out_of_memory_capacity := 0\<rparr> else a)"

definition arnm_reset :: "addr \<Rightarrow> 'z flat_scheme \<Rightarrow> 'z flat_scheme" where
  "arnm_reset m w =
    (case intern_of m w of None \<Rightarrow> w | Some a \<Rightarrow> set_handle m (reset_arena a) w)"

definition release_arena :: "arena \<Rightarrow> 'z flat_scheme \<Rightarrow> arena \<times> 'z flat_scheme" where
  "release_arena a w =
    (if is_single_arena (Some a) then
       let freed = (data a \<noteq> NULL \<and> allocation_type a = ARNM_ALLOC_TYPE_ARENA_OWNED);
           w = (if freed then w\<lparr>heap := host_free (data a) (heap w)\<rparr> else w);
           a = (if freed then a\<lparr>data := NULL\<rparr> else a)
       in (reset_arena (a\<lparr>capacity := 0\<rparr>), w)
     else (a, w))"

definition arnm_release :: "addr \<Rightarrow> 'z flat_scheme \<Rightarrow> 'z flat_scheme" where
  "arnm_release m w =
    (case intern_of m w of None \<Rightarrow> w
     | Some a \<Rightarrow> (case release_arena a w of (a, w) \<Rightarrow> set_handle m a w))"

definition arnm_create :: "addr \<Rightarrow> 'z flat_scheme \<Rightarrow> addr \<times> 'z flat_scheme" where
  "arnm_create allocator w =
    (case arnm_alloc (Some NULL) SIZEOF_ARNM allocator w of
       (result, block, w) \<Rightarrow>
         if result \<noteq> ARNM_SUCCESS then (NULL, w)
         else (the block,
           set_handle (the block) zero_arena
             (set_bytes (memset (bytes_of w) (the block) 0 SIZEOF_ARNM) w)))"

definition arnm_destroy :: "addr \<Rightarrow> addr \<Rightarrow> 'z flat_scheme \<Rightarrow> arnm_result \<times> 'z flat_scheme" where
  "arnm_destroy m allocator w =
    (if m = NULL then (ARNM_SUCCESS, w)
     else
       let w = arnm_release m w; w = w\<lparr>handles := (handles w)(m := None)\<rparr>
       in arnm_free m SIZEOF_ARNM allocator w)"

definition init_arena :: "nat \<Rightarrow> arena \<Rightarrow> 'z flat_scheme \<Rightarrow> arnm_result \<times> arena \<times> 'z flat_scheme" where
  "init_arena cap old w =
    (if cap = 0 then (ARNM_ERROR_INVALID_PARAM, old, w)
     else
       let aligned_capacity = arnm_align8_u32 cap
       in if aligned_capacity = 0 then (ARNM_ERROR_ARITHMETIC_OVERFLOW, old, w)
          else case arnm_alloc (Some NULL) aligned_capacity NULL w of
            (result, block, w) \<Rightarrow>
              if result \<noteq> ARNM_SUCCESS then (result, old, w)
              else (ARNM_SUCCESS,
                \<lparr>data = the block, last_index = 0, capacity = aligned_capacity,
                  out_of_memory_capacity = 0, allocation_type = ARNM_ALLOC_TYPE_ARENA_OWNED\<rparr>, w))"

definition object_at :: "addr \<Rightarrow> 'z flat_scheme \<Rightarrow> arena" where
  "object_at m w = (case intern_of m w of None \<Rightarrow> zero_arena | Some a \<Rightarrow> a)"

definition arnm_init_arena :: "addr \<Rightarrow> nat \<Rightarrow> 'z flat_scheme \<Rightarrow> arnm_result \<times> 'z flat_scheme" where
  "arnm_init_arena m cap w =
    (if m = NULL then (ARNM_ERROR_NULL_POINTER, w)
     else case init_arena cap (object_at m w) w of
       (result, a, w) \<Rightarrow> (result, if result = ARNM_SUCCESS then set_handle m a w else w))"

definition borrow_arena :: "addr \<Rightarrow> nat \<Rightarrow> arena \<Rightarrow> arnm_result \<times> arena" where
  "borrow_arena block cap old =
    (if block = NULL then (ARNM_ERROR_NULL_POINTER, old)
     else if cap = 0 then (ARNM_ERROR_INVALID_PARAM, old)
     else
       let aligned_capacity = arnm_align8_u32 cap
       in if aligned_capacity = 0 then (ARNM_ERROR_ARITHMETIC_OVERFLOW, old)
          else if aligned_capacity \<noteq> cap \<or> ARNM_ALIGN8 block \<noteq> block then (ARNM_ERROR_INVALID_PARAM, old)
          else (ARNM_SUCCESS,
            reset_arena (old\<lparr>data := block, capacity := aligned_capacity,
              allocation_type := ARNM_ALLOC_TYPE_ARENA_EXTERNAL\<rparr>)))"

definition arnm_init_arena_borrow :: "addr \<Rightarrow> addr \<Rightarrow> nat \<Rightarrow> 'z flat_scheme \<Rightarrow>
    arnm_result \<times> 'z flat_scheme" where
  "arnm_init_arena_borrow m block cap w =
    (if m = NULL then (ARNM_ERROR_NULL_POINTER, w)
     else case borrow_arena block cap (object_at m w) of
       (result, a) \<Rightarrow> (result, if result = ARNM_SUCCESS then set_handle m a w else w))"

definition arnm_reinit_arena :: "addr \<Rightarrow> nat \<Rightarrow> 'z flat_scheme \<Rightarrow> arnm_result \<times> 'z flat_scheme" where
  "arnm_reinit_arena m cap w = arnm_init_arena m cap (arnm_release m w)"

section \<open>What an arena keeps\<close>

definition arena_ok :: "arena \<Rightarrow> bool" where
  "arena_ok a \<longleftrightarrow>
    data a mod 8 = 0 \<and> capacity a mod 8 = 0 \<and> last_index a mod 8 = 0 \<and>
    last_index a \<le> capacity a \<and> capacity a \<le> UINT32_MAX \<and> out_of_memory_capacity a \<le> UINT32_MAX \<and>
    data a + capacity a < ADDRESS_END \<and> (data a = NULL \<longrightarrow> capacity a = 0)"

definition single_type :: "arnm_alloc_type \<Rightarrow> bool" where
  "single_type t \<longleftrightarrow> t = ARNM_ALLOC_TYPE_ARENA_OWNED \<or> t = ARNM_ALLOC_TYPE_ARENA_EXTERNAL"

definition flat_sound :: "addr \<Rightarrow> 'z flat_scheme \<Rightarrow> bool" where
  "flat_sound m w \<longleftrightarrow> host_ok (heap w) \<and>
    (case intern_of m w of None \<Rightarrow> True
     | Some a \<Rightarrow> (allocation_type a = ARNM_ALLOC_TYPE_DEFAULT \<or> single_type (allocation_type a)) \<and>
         (single_type (allocation_type a) \<longrightarrow> arena_ok a))"

text \<open>The bytes an arena has given out are those below its index.\<close>

definition arena_owns :: "arena \<Rightarrow> addr \<Rightarrow> nat \<Rightarrow> bool" where
  "arena_owns a p n \<longleftrightarrow>
    0 < n \<and> p mod 8 = 0 \<and> data a \<noteq> NULL \<and> data a \<le> p \<and> p + ARNM_ALIGN8 n \<le> data a + last_index a"

definition flat_owns :: "addr \<Rightarrow> 'z flat_scheme \<Rightarrow> addr \<Rightarrow> nat \<Rightarrow> bool" where
  "flat_owns m w p n \<longleftrightarrow>
    (case intern_of m w of None \<Rightarrow> (p, n) \<in> set (blocks (heap w))
     | Some a \<Rightarrow> if single_type (allocation_type a) then arena_owns a p n
                 else (p, n) \<in> set (blocks (heap w)))"

definition flat_ops :: "addr \<Rightarrow> 'z flat_scheme ops" where
  "flat_ops m =
    \<lparr>op_alloc = (\<lambda>n w. case arnm_alloc (Some NULL) n m w of (r, p, w) \<Rightarrow> (r, the p, w)),
     op_realloc = (\<lambda>p old new w. case arnm_realloc (Some p) old new m w of (r, p, w) \<Rightarrow> (r, the p, w)),
     op_free = (\<lambda>p n w. arnm_free p n m w),
     op_mem = bytes_of,
     op_set_mem = set_bytes,
     op_is_arena = arnm_is_arena m\<rparr>"

lemma single_type_simps [simp]:
  "is_single_arena (Some a) = single_type (allocation_type a)" "\<not> is_single_arena None"
  "\<not> single_type ARNM_ALLOC_TYPE_DEFAULT" "single_type ARNM_ALLOC_TYPE_ARENA_OWNED"
  "single_type ARNM_ALLOC_TYPE_ARENA_EXTERNAL" "\<not> single_type ARNM_ALLOC_TYPE_MULTI_ARENA_DYNAMIC"
  "\<not> single_type ARNM_ALLOC_TYPE_MULTI_ARENA_FIXED"
  by (simp_all add: is_single_arena_def single_type_def)

lemma handle_simps [simp]:
  "m \<noteq> NULL \<Longrightarrow> intern_of m (set_handle m a w) = Some a"
  "m \<noteq> k \<Longrightarrow> intern_of m (set_handle k a w) = intern_of m w"
  "heap (set_handle m a w) = heap w" "intern_of m (set_bytes b w) = intern_of m w"
  "intern_of m (w\<lparr>heap := h\<rparr>) = intern_of m w" "bytes_of (set_bytes b w) = b"
  "blocks (heap (set_bytes b w)) = blocks (heap w)" "intern_of NULL w = None"
  "host_ok (heap (set_bytes b w)) = host_ok (heap w)"
  by (simp_all add: intern_of_def set_handle_def set_bytes_def host_ok_def)

lemma remaining_bytes_ok [simp]:
  "single_type (allocation_type a) \<Longrightarrow> arena_ok a \<Longrightarrow> remaining_bytes (Some a) = capacity a - last_index a"
  by (simp add: remaining_bytes_def arena_ok_def)

lemma arena_step_down [simp]:
  "arena_ok a \<Longrightarrow> k \<le> last_index a \<Longrightarrow> sub32 (last_index a) k = last_index a - k"
  by (simp add: arena_ok_def)

lemma arena_ok_last_index:
  "arena_ok a \<Longrightarrow> k \<le> capacity a \<Longrightarrow> k mod 8 = 0 \<Longrightarrow> arena_ok (a\<lparr>last_index := k\<rparr>)"
  by (simp add: arena_ok_def)

lemma mod8_diff: "a mod 8 = 0 \<Longrightarrow> b mod 8 = 0 \<Longrightarrow> (a - b) mod 8 = (0::nat)"
  by (metis dvd_diff_nat dvd_eq_mod_eq_0)

lemma mod8_add: "a mod 8 = 0 \<Longrightarrow> b mod 8 = 0 \<Longrightarrow> (a + b) mod 8 = (0::nat)"
  by (metis dvd_add dvd_eq_mod_eq_0)

lemma account_keeps_ok:
  "arena_ok a \<Longrightarrow> arena_ok (snd (account_capacity_exceeded k a)) \<and>
    last_index (snd (account_capacity_exceeded k a)) = last_index a \<and>
    data (snd (account_capacity_exceeded k a)) = data a \<and>
    capacity (snd (account_capacity_exceeded k a)) = capacity a \<and>
    allocation_type (snd (account_capacity_exceeded k a)) = allocation_type a"
  by (auto simp: account_capacity_exceeded_def arena_ok_def)

text \<open>
  The whole behaviour of the bump: with room the block is what was free at the index, without it
  nothing moves and the shortfall is counted, never past the widest count.
\<close>

lemma arena_alloc_aligned_cases:
  assumes "arena_ok a" "single_type (allocation_type a)" "data a \<noteq> NULL"
  shows "arena_alloc_aligned buffer k a =
    (if k \<le> capacity a - last_index a
     then (ARNM_SUCCESS, data a + last_index a, a\<lparr>last_index := last_index a + k\<rparr>)
     else (ARNM_ERROR_OUT_OF_MEMORY, buffer,
       a\<lparr>out_of_memory_capacity := min UINT32_MAX (out_of_memory_capacity a + k)\<rparr>))"
  using assms
  by (auto simp: arena_alloc_aligned_def account_capacity_exceeded_def arena_ok_def remaining_bytes_def)

lemma arena_alloc_aligned_null:
  "data a = NULL \<Longrightarrow> arena_alloc_aligned buffer k a = (ARNM_ERROR_INVALID_STATE, buffer, a)"
  by (simp add: arena_alloc_aligned_def)

lemma arena_owns_apart:
  assumes "arena_owns a p n" "arena_owns a q k" "apart p n q k"
  shows "apart p (ARNM_ALIGN8 n) q (ARNM_ALIGN8 k)"
proof (cases "p + n \<le> q")
  case True
  then have "n \<le> q - p" "(q - p) mod 8 = 0" using assms mod8_diff by (auto simp: arena_owns_def)
  with align8_least [of n "q - p"] True show ?thesis by (auto simp: apart_def)
next
  case False
  then have le: "q + k \<le> p" using assms(3) by (auto simp: apart_def)
  then have "k \<le> p - q" "(p - q) mod 8 = 0" using assms mod8_diff by (auto simp: arena_owns_def)
  with align8_least [of k "p - q"] le show ?thesis by (auto simp: apart_def)
qed

lemma flat_cases:
  fixes w :: "'z flat_scheme"
  assumes "flat_sound m w"
  obtains (default) "is_default_alloc (intern_of m w)" "\<not> is_arena (intern_of m w)"
      "\<not> is_single_arena (intern_of m w)"
      "\<And>(w' :: 'z flat_scheme) p n. intern_of m w' = intern_of m w \<Longrightarrow> flat_owns m w' p n \<longleftrightarrow> (p, n) \<in> set (blocks (heap w'))"
      "\<And>w' :: 'z flat_scheme. intern_of m w' = intern_of m w \<Longrightarrow> flat_sound m w' \<longleftrightarrow> host_ok (heap w')"
    | (single) a where "intern_of m w = Some a" "single_type (allocation_type a)" "arena_ok a"
      "m \<noteq> NULL" "\<not> is_default_alloc (Some a)" "is_arena (Some a)" "host_ok (heap w)"
proof (cases "intern_of m w")
  case None
  with default show ?thesis by (simp add: is_default_alloc_def is_arena_def flat_owns_def flat_sound_def)
next
  case (Some a)
  show ?thesis
  proof (cases "single_type (allocation_type a)")
    case True
    with Some assms single show ?thesis
      by (cases "m = NULL") (auto simp: flat_sound_def is_default_alloc_def is_arena_def single_type_def)
  next
    case False
    with Some assms default show ?thesis
      by (auto simp: flat_sound_def is_default_alloc_def is_arena_def flat_owns_def)
  qed
qed

lemma flat_single [simp]:
  assumes "m \<noteq> NULL" "single_type (allocation_type a)"
  shows "flat_owns m (set_handle m a w) p n = arena_owns a p n"
    and "flat_sound m (set_handle m a w) \<longleftrightarrow> host_ok (heap w) \<and> arena_ok a"
    and "intern_of m w = Some a \<Longrightarrow> flat_owns m w p n = arena_owns a p n"
  using assms by (auto simp: flat_owns_def flat_sound_def)

lemma intern_of_nonnull: "intern_of m w = Some a \<Longrightarrow> m \<noteq> NULL"
  by (cases "m = NULL") (auto simp: intern_of_def)

lemma flat_set_bytes [simp]:
  "flat_owns m (set_bytes b w) p n = flat_owns m w p n" "flat_sound m (set_bytes b w) = flat_sound m w"
  by (simp_all add: flat_owns_def flat_sound_def split: option.splits)

lemma arena_ok_ooc:
  "arena_ok a \<Longrightarrow> k \<le> UINT32_MAX \<Longrightarrow> arena_ok (a\<lparr>out_of_memory_capacity := k\<rparr>)"
  by (simp add: arena_ok_def)

lemma flat_alloc_law:
  assumes "flat_sound m w" "0 < n" "op_alloc (flat_ops m) n w = (r, p, w')"
  shows "flat_sound m w' \<and> bytes_of w' = bytes_of w \<and>
    (\<forall>q k. flat_owns m w q k \<longrightarrow> flat_owns m w' q k) \<and> r \<noteq> ARNM_WARNING_ARENA_MEMORY_NOT_RECLAIMED \<and>
    (r = ARNM_SUCCESS \<longrightarrow> flat_owns m w' p n \<and> (\<forall>q k. flat_owns m w q k \<longrightarrow> apart p n q k))"
  using assms(1)
proof (cases rule: flat_cases)
  case default
  obtain a h where m: "malloc n (heap w) = (a, h)" by fastforce
  have ok: "host_ok (heap w)" using default(5) [of w] assms(1) by simp
  note law = malloc_ok [OF ok assms(2) m]
  have res: "r = (if a = NULL then ARNM_ERROR_OUT_OF_MEMORY else ARNM_SUCCESS)" "w' = w\<lparr>heap := h\<rparr>"
    "a \<noteq> NULL \<Longrightarrow> p = a"
    using assms(2,3) default(1) m by (auto simp: flat_ops_def arnm_alloc_def split: if_splits)
  have "apart a n q k" if "(q, k) \<in> set (blocks (heap w))" "a \<noteq> NULL" for q k
    using law that block_in_heap_used [OF that(1)] ok assms(2)
    by (subst apart_region) (auto simp: host_ok_def blocks_ok_def)
  then show ?thesis using law by (auto simp: res default(4,5) split: if_splits)
next
  case (single a)
  let ?k = "arnm_align8_u32 n"
  note alloc = arnm_alloc_def [of "Some NULL" n m w] single(1,5) assms(2)
  consider (huge) "?k = 0" | (null) "?k \<noteq> 0" "data a = NULL" | (ok) "?k \<noteq> 0" "data a \<noteq> NULL" by blast
  then show ?thesis
  proof cases
    case huge
    then show ?thesis using assms alloc by (auto simp: flat_ops_def)
  next
    case null
    then show ?thesis using assms alloc single
      by (auto simp: flat_ops_def arena_alloc_aligned_null arena_owns_def)
  next
    case ok
    then have k: "?k = ARNM_ALIGN8 n" "?k mod 8 = 0" using align8_bounds [of n]
      by (auto simp: align8_u32_cases split: if_splits)
    note bump = arena_alloc_aligned_cases [OF single(3,2) ok(2)]
    show ?thesis
    proof (cases "?k \<le> capacity a - last_index a")
      case True
      then have res: "r = ARNM_SUCCESS" "p = data a + last_index a"
        "w' = set_handle m (a\<lparr>last_index := last_index a + ?k\<rparr>) w"
        using assms(3) alloc ok by (auto simp: flat_ops_def bump)
      have "arena_ok (a\<lparr>last_index := last_index a + ?k\<rparr>)"
        using single(3) True k by (intro arena_ok_last_index) (auto simp: arena_ok_def mod8_add)
      moreover have "apart p n q j" if "arena_owns a q j" for q j
        using that align8_bounds [of j] by (auto simp: arena_owns_def apart_def res)
      moreover have "arena_owns (a\<lparr>last_index := last_index a + ?k\<rparr>) p n"
        using single(3) k ok(2) assms(2) mod8_add [of "data a" "last_index a"]
        by (auto simp: arena_owns_def res arena_ok_def)
      ultimately show ?thesis
        using single by (auto simp: res arena_owns_def)
    next
      case False
      then have "r = ARNM_ERROR_OUT_OF_MEMORY"
        "w' = set_handle m (a\<lparr>out_of_memory_capacity := min UINT32_MAX (out_of_memory_capacity a + ?k)\<rparr>) w"
        using assms(3) alloc ok by (auto simp: flat_ops_def bump)
      then show ?thesis using single by (auto simp: arena_owns_def arena_ok_ooc)
    qed
  qed
qed

lemma flat_free_law:
  assumes "flat_sound m w" "flat_owns m w p n" "op_free (flat_ops m) p n w = (r, w')"
  shows "flat_sound m w' \<and> bytes_of w' = bytes_of w \<and> done_code r \<and>
    (\<forall>q k. flat_owns m w q k \<and> apart p n q k \<longrightarrow> flat_owns m w' q k) \<and>
    (r \<noteq> ARNM_SUCCESS \<longrightarrow> flat_owns m w' p n)"
  using assms(1)
proof (cases rule: flat_cases)
  case default
  then have b: "(p, n) \<in> set (blocks (heap w))" "host_ok (heap w)" using assms by auto
  have res: "r = ARNM_SUCCESS" "w' = w\<lparr>heap := host_free p (heap w)\<rparr>"
    using assms(3) default(2) by (auto simp: flat_ops_def arnm_free_def)
  have "0 < n" using b by (auto simp: host_ok_def blocks_ok_def)
  then show ?thesis
    using host_free_ok [OF b(2,1)] by (auto simp: res default(4,5) apart_def)
next
  case (single a)
  let ?k = "ARNM_ALIGN8 n"
  have own: "arena_owns a p n" using assms(2) single by simp
  then have small: "?k \<le> last_index a" "last_index a \<le> capacity a" "capacity a \<le> UINT32_MAX" "0 < ?k"
    using single(3) align8_bounds [of n] by (auto simp: arena_owns_def arena_ok_def)
  have "n \<le> ARNM_MAX_ALLOC_SIZE"
  proof -
    have "capacity a mod 8 = 0" using single(3) by (simp add: arena_ok_def)
    then have "capacity a \<le> UINT32_MAX - 7" using small(3) unfolding UINT32_MAX_def by presburger
    then show ?thesis using small align8_bounds [of n] by (simp add: ARNM_MAX_ALLOC_SIZE_def)
  qed
  then have k: "arnm_align8_u32 n = ?k" by (simp add: arnm_align8_u32_def)
  show ?thesis
  proof (cases "data a + last_index a = p + ?k")
    case True
    then have res: "r = ARNM_SUCCESS" "w' = set_handle m (a\<lparr>last_index := last_index a - ?k\<rparr>) w"
      using assms(3) single small k own
      by (auto simp: flat_ops_def arnm_free_def is_single_arena_reclaimable_def arena_owns_def Let_def)
    have "arena_ok (a\<lparr>last_index := last_index a - ?k\<rparr>)"
      using single(3) small by (intro arena_ok_last_index)
        (auto simp: arena_ok_def intro!: mod8_diff, simp add: align8_bounds)
    moreover have "arena_owns (a\<lparr>last_index := last_index a - ?k\<rparr>) q j"
      if "arena_owns a q j" "apart p n q j" for q j
      using arena_owns_apart [OF own that] that(1) True small align8_bounds [of j]
      by (auto simp: arena_owns_def apart_def)
    ultimately show ?thesis using single by (auto simp: res)
  next
    case False
    then have "r = ARNM_WARNING_ARENA_MEMORY_NOT_RECLAIMED" "w' = w"
      using assms(3) single k small
      by (auto simp: flat_ops_def arnm_free_def is_single_arena_reclaimable_def Let_def)
    with assms(1,2) show ?thesis by simp
  qed
qed

lemma arena_owns_le:
  "arena_owns a p n \<Longrightarrow> 0 < k \<Longrightarrow> ARNM_ALIGN8 k \<le> ARNM_ALIGN8 n \<Longrightarrow> arena_owns a p k"
  by (auto simp: arena_owns_def)

lemma arena_owns_small:
  assumes "arena_ok a" "arena_owns a p n"
  shows "ARNM_ALIGN8 n \<le> last_index a" "arnm_align8_u32 n = ARNM_ALIGN8 n" "0 < ARNM_ALIGN8 n"
proof -
  have "capacity a \<le> UINT32_MAX - 7"
    using assms(1) unfolding arena_ok_def UINT32_MAX_def by presburger
  moreover show "ARNM_ALIGN8 n \<le> last_index a" using assms by (auto simp: arena_owns_def)
  ultimately have "n \<le> ARNM_MAX_ALLOC_SIZE"
    using assms align8_bounds [of n] by (auto simp: ARNM_MAX_ALLOC_SIZE_def arena_ok_def)
  then show "arnm_align8_u32 n = ARNM_ALIGN8 n" by (simp add: arnm_align8_u32_def)
  show "0 < ARNM_ALIGN8 n" using assms(2) align8_bounds [of n] by (auto simp: arena_owns_def)
qed

lemma flat_realloc_default:
  assumes "host_ok (heap w)" "is_default_alloc (intern_of m w)" "\<not> is_single_arena (intern_of m w)"
    and "(p, old) \<in> set (blocks (heap w))" "0 < new" "arnm_realloc (Some p) old new m w = (r, p', w')"
  shows "host_ok (heap w') \<and> intern_of m w' = intern_of m w \<and>
    (\<forall>q k. (q, k) \<in> set (blocks (heap w)) \<and> apart p old q k \<longrightarrow> (q, k) \<in> set (blocks (heap w'))) \<and>
    (if done_code r
     then (the p', new) \<in> set (blocks (heap w')) \<and>
       (\<forall>q k. (q, k) \<in> set (blocks (heap w)) \<and> apart p old q k \<longrightarrow> apart (the p') new q k) \<and>
       rd (bytes_of w') (the p') (min old new) = rd (bytes_of w) p (min old new) \<and>
       (\<forall>x. x \<notin> region (the p') new \<longrightarrow> bytes_of w' x = bytes_of w x)
     else p' = Some p \<and> (p, old) \<in> set (blocks (heap w')) \<and> bytes_of w' = bytes_of w) \<and>
    r \<noteq> ARNM_WARNING_ARENA_MEMORY_NOT_RECLAIMED"
proof -
  have old: "0 < old" "p \<noteq> NULL" using assms(1,4) by (auto simp: host_ok_def blocks_ok_def)
  obtain a h where re: "host_realloc p new (heap w) = (a, h)" by fastforce
  note law = host_realloc_ok [OF assms(1,4,5) re]
  consider (huge) "arnm_align8_u32 new = 0 \<or> arnm_align8_u32 old = 0"
    | (same) "arnm_align8_u32 new \<noteq> 0" "arnm_align8_u32 old \<noteq> 0" "old = new"
    | (move) "arnm_align8_u32 new \<noteq> 0" "arnm_align8_u32 old \<noteq> 0" "old \<noteq> new" by blast
  then show ?thesis
  proof cases
    case huge
    then show ?thesis using assms old by (auto simp: arnm_realloc_def)
  next
    case same
    then have "r = ARNM_SUCCESS" "p' = Some p" "w' = w"
      using assms old by (auto simp: arnm_realloc_def)
    with same assms show ?thesis by auto
  next
    case move
    then have res: "r = (if a = NULL then ARNM_ERROR_OUT_OF_MEMORY else ARNM_SUCCESS)"
      "p' = (if a = NULL then Some p else Some a)" "w' = w\<lparr>heap := h\<rparr>"
      using assms old re
      by (auto simp: arnm_realloc_def is_single_arena_reclaimable_def Let_def split: if_splits)
    have rest: "(q, k) \<in> set (blocks (heap w)) - {(p, old)} \<and> (a \<noteq> NULL \<longrightarrow> apart a new q k)"
      if q: "(q, k) \<in> set (blocks (heap w))" "apart p old q k" for q k
    proof -
      have "0 < k" using q(1) assms(1) by (auto simp: host_ok_def blocks_ok_def)
      moreover have "region q k \<subseteq> heap_used (heap w) - region p old"
        using block_in_heap_used [OF q(1)] apart_disjoint [OF q(2)] by blast
      moreover have "a \<noteq> NULL \<Longrightarrow> region a new \<inter> (heap_used (heap w) - region p old) = {}"
        using law by auto
      ultimately have "a \<noteq> NULL \<Longrightarrow> apart a new q k"
        using apart_region [OF assms(5), of k a q] by blast
      moreover have "(q, k) \<noteq> (p, old)" using q(2) old(1) by (auto simp: apart_def)
      ultimately show ?thesis using q(1) by blast
    qed
    show ?thesis
    proof (cases "a = NULL")
      case True
      then show ?thesis using law assms(4) by (auto simp: res)
    next
      case False
      then show ?thesis using law rest by (auto simp: res min.commute)
    qed
  qed
qed

lemma flat_realloc_single:
  assumes "intern_of m w = Some a" "single_type (allocation_type a)" "arena_ok a" "arena_owns a p old" "0 < new"
  defines "N \<equiv> ARNM_ALIGN8 new" and "K \<equiv> ARNM_ALIGN8 old"
  shows "arnm_realloc (Some p) old new m w =
    (if ARNM_MAX_ALLOC_SIZE < new then (ARNM_ERROR_ARITHMETIC_OVERFLOW, Some p, w)
     else if old = new then (ARNM_SUCCESS, Some p, w)
     else if data a + last_index a = p + K then
       if N < K then (ARNM_SUCCESS, Some p, set_handle m (a\<lparr>last_index := last_index a - (K - N)\<rparr>) w)
       else if N - K \<le> capacity a - last_index a
         then (ARNM_SUCCESS, Some p, set_handle m (a\<lparr>last_index := last_index a + (N - K)\<rparr>) w)
         else (ARNM_ERROR_OUT_OF_MEMORY, Some p, set_handle m (snd (account_capacity_exceeded (N - K) a)) w)
     else if K < N then
       (case arnm_alloc (Some NULL) N m w of (result, resized, w) \<Rightarrow>
          if result \<noteq> ARNM_SUCCESS then (result, Some p, w)
          else (ARNM_WARNING_ARENA_MEMORY_NOT_RECLAIMED, resized,
            set_bytes (memcpy (bytes_of w) (the resized) p old) w))
     else (ARNM_WARNING_ARENA_MEMORY_NOT_RECLAIMED, Some p, w))"
proof -
  note small = arena_owns_small [OF assms(3,4)]
  have old: "0 < old" "p \<noteq> NULL" using assms(4) by (auto simp: arena_owns_def)
  have N: "arnm_align8_u32 new = (if ARNM_MAX_ALLOC_SIZE < new then 0 else N)" "0 < N"
    using assms(5) align8_bounds [of new] by (auto simp: arnm_align8_u32_def N_def)
  have bounds: "K \<le> last_index a" "last_index a \<le> capacity a" "capacity a \<le> UINT32_MAX"
    using small assms(3) by (auto simp: K_def arena_ok_def)
  have "\<not> is_default_alloc (Some a)"
    using assms(2) by (auto simp: is_default_alloc_def single_type_def)
  then show ?thesis
    using assms(1,2,3,5) old small(3) bounds N(2)
    by (auto simp: arnm_realloc_def N(1) small(2) is_single_arena_reclaimable_def Let_def
        simp flip: K_def split: prod.split)
qed

lemma flat_realloc_law:
  assumes "flat_sound m w" "flat_owns m w p old" "0 < new" "op_realloc (flat_ops m) p old new w = (r, p', w')"
  shows "flat_sound m w' \<and>
    (\<forall>q k. flat_owns m w q k \<and> apart p old q k \<longrightarrow> flat_owns m w' q k) \<and>
    (if done_code r
     then flat_owns m w' p' new \<and> (\<forall>q k. flat_owns m w q k \<and> apart p old q k \<longrightarrow> apart p' new q k) \<and>
       rd (bytes_of w') p' (min old new) = rd (bytes_of w) p (min old new) \<and>
       (\<forall>x. x \<notin> region p' new \<longrightarrow> bytes_of w' x = bytes_of w x)
     else p' = p \<and> flat_owns m w' p old \<and> bytes_of w' = bytes_of w) \<and>
    (r \<noteq> ARNM_SUCCESS \<and> new \<le> old \<longrightarrow> p' = p \<and> flat_owns m w' p old \<and> bytes_of w' = bytes_of w)"
  using assms(1)
proof (cases rule: flat_cases)
  case default
  obtain q' where re: "arnm_realloc (Some p) old new m w = (r, q', w')" "p' = the q'"
    using assms(4) by (auto simp: flat_ops_def split: prod.splits)
  show ?thesis
    using flat_realloc_default [OF _ default(1,3) _ assms(3) re(1)] default(4,5) assms(1,2) re(2)
    by (auto split: if_splits)
next
  case (single a)
  have own: "arena_owns a p old" using assms(2) single by simp
  note small = arena_owns_small [OF single(3) own]
  define N K where "N = ARNM_ALIGN8 new" and "K = ARNM_ALIGN8 old"
  note re = flat_realloc_single [OF single(1,2,3) own assms(3), folded N_def K_def]
  have N8: "new \<le> N" "N mod 8 = 0" "K mod 8 = 0" "old \<le> K" "K \<le> last_index a"
    using align8_bounds small by (auto simp: N_def K_def)
  have ok: "last_index a \<le> capacity a" "last_index a mod 8 = 0" "capacity a mod 8 = 0"
    using single(3) by (auto simp: arena_ok_def)
  have apart8: "apart p K q (ARNM_ALIGN8 j)" if "arena_owns a q j" "apart p old q j" for q j
    using arena_owns_apart [OF own that] by (simp add: K_def)
  consider (huge) "ARNM_MAX_ALLOC_SIZE < new" | (same) "new \<le> ARNM_MAX_ALLOC_SIZE" "old = new"
    | (shrink) "new \<le> ARNM_MAX_ALLOC_SIZE" "old \<noteq> new" "data a + last_index a = p + K" "N < K"
    | (grow) "new \<le> ARNM_MAX_ALLOC_SIZE" "old \<noteq> new" "data a + last_index a = p + K" "K \<le> N"
        "N - K \<le> capacity a - last_index a"
    | (full) "new \<le> ARNM_MAX_ALLOC_SIZE" "old \<noteq> new" "data a + last_index a = p + K" "K \<le> N"
        "\<not> N - K \<le> capacity a - last_index a"
    | (buried) "new \<le> ARNM_MAX_ALLOC_SIZE" "old \<noteq> new" "data a + last_index a \<noteq> p + K" "N \<le> K"
    | (move) "new \<le> ARNM_MAX_ALLOC_SIZE" "old \<noteq> new" "data a + last_index a \<noteq> p + K" "K < N"
    using not_le by blast
  then show ?thesis
  proof cases
    case huge
    then show ?thesis using assms by (auto simp: flat_ops_def re)
  next
    case same
    then have "arnm_realloc (Some p) old new m w = (ARNM_SUCCESS, Some p, w)"
      by (subst re) simp
    then have "r = ARNM_SUCCESS" "p' = p" "w' = w" using assms(4) by (simp_all add: flat_ops_def)
    with same assms show ?thesis by simp
  next
    case shrink
    let ?a = "a\<lparr>last_index := last_index a - (K - N)\<rparr>"
    have res: "r = ARNM_SUCCESS" "p' = p" "w' = set_handle m ?a w"
      using assms(4) shrink by (auto simp: flat_ops_def re)
    have "arena_ok ?a" using single(3) N8 ok by (intro arena_ok_last_index mod8_diff) auto
    moreover have "arena_owns ?a q j \<and> apart p new q j" if "arena_owns a q j" "apart p old q j" for q j
      using apart8 [OF that] that align8_bounds [of j] shrink N8
      by (auto simp: arena_owns_def apart_def)
    moreover have "arena_owns ?a p new"
      using own shrink N8 assms(3) by (auto simp: arena_owns_def N_def)
    ultimately show ?thesis using single by (auto simp: res)
  next
    case grow
    let ?a = "a\<lparr>last_index := last_index a + (N - K)\<rparr>"
    have res: "r = ARNM_SUCCESS" "p' = p" "w' = set_handle m ?a w"
      using assms(4) grow by (auto simp: flat_ops_def re)
    have "arena_ok ?a" using single(3) N8 ok grow by (intro arena_ok_last_index mod8_diff mod8_add) auto
    moreover have "arena_owns ?a q j \<and> apart p new q j" if "arena_owns a q j" "apart p old q j" for q j
      using apart8 [OF that] that align8_bounds [of j] grow N8
      by (auto simp: arena_owns_def apart_def)
    moreover have "arena_owns ?a p new"
      using own grow N8 assms(3) by (auto simp: arena_owns_def N_def)
    ultimately show ?thesis using single by (auto simp: res)
  next
    case full
    have "r = ARNM_ERROR_OUT_OF_MEMORY" "p' = p"
      "w' = set_handle m (snd (account_capacity_exceeded (N - K) a)) w"
      using assms(4) full by (auto simp: flat_ops_def re)
    then show ?thesis using single own account_keeps_ok [OF single(3), of "N - K"]
      by (auto simp: arena_owns_def)
  next
    case buried
    then have "r = ARNM_WARNING_ARENA_MEMORY_NOT_RECLAIMED" "p' = p" "w' = w"
      using assms(4) by (auto simp: flat_ops_def re)
    moreover have "arena_owns a p new"
      using arena_owns_le [OF own assms(3)] buried by (simp add: N_def K_def)
    moreover have "apart p new q j" if "arena_owns a q j" "apart p old q j" for q j
      using apart8 [OF that] that align8_bounds [of j] buried N8 by (auto simp: apart_def)
    ultimately show ?thesis using single assms(1) own by auto
  next
    case move
    obtain r1 q1 w1 where al: "arnm_alloc (Some NULL) N m w = (r1, q1, w1)" by (metis prod_cases3)
    have op: "op_alloc (flat_ops m) N w = (r1, the q1, w1)" by (simp add: flat_ops_def al)
    have "0 < N" using N8(1) assms(3) by simp
    note law = flat_alloc_law [OF assms(1) this op]
    show ?thesis
    proof (cases "r1 = ARNM_SUCCESS")
      case True
      have res: "r = ARNM_WARNING_ARENA_MEMORY_NOT_RECLAIMED" "p' = the q1"
        "w' = set_bytes (memcpy (bytes_of w1) p' p old) w1"
        using assms(4) move True by (auto simp: flat_ops_def re al)
      have al1: "flat_sound m w1" "bytes_of w1 = bytes_of w" "flat_owns m w1 p' N"
        "\<forall>q k. flat_owns m w q k \<longrightarrow> flat_owns m w1 q k"
        "\<forall>q k. flat_owns m w q k \<longrightarrow> apart p' N q k"
        using law True res(2) by auto
      have "flat_owns m w1 p' new"
      proof -
        from single obtain a1 where a1: "intern_of m w1 = Some a1" "single_type (allocation_type a1)"
          using al by (auto simp: arnm_alloc_def arena_alloc_aligned_def account_capacity_exceeded_def
              Let_def split: if_splits prod.splits)
        have "ARNM_ALIGN8 N = N" using N8(2) by simp
        then have "arena_owns a1 p' new"
          using al1(3) a1 single(4) assms(3) by (auto simp: arena_owns_def simp flip: N_def)
        with a1 single(4) show ?thesis by simp
      qed
      moreover have "old < new"
      proof (rule ccontr)
        assume "\<not> old < new"
        then have "N \<le> K" unfolding N_def K_def by (intro align8_mono) simp
        with move show False by simp
      qed
      moreover have "apart p' new q k" if "flat_owns m w q k" for q k
        using al1(5) that N8(1) unfolding apart_def by (meson le_trans add_left_mono)
      ultimately show ?thesis
        using al1 by (auto simp: res(1) res(3) mem_simps)
    next
      case False
      then have "r = r1" "p' = p" "w' = w1"
        using assms(4) move by (auto simp: flat_ops_def re al)
      with law False assms(2) show ?thesis by auto
    qed
  qed
qed

lemma flat_realloc_null_law:
  assumes "flat_sound m w" "0 < new" "op_realloc (flat_ops m) NULL 0 new w = (r, p, w')"
  shows "flat_sound m w' \<and> bytes_of w' = bytes_of w \<and>
    (\<forall>q k. flat_owns m w q k \<longrightarrow> flat_owns m w' q k) \<and>
    (if done_code r then flat_owns m w' p new \<and> (\<forall>q k. flat_owns m w q k \<longrightarrow> apart p new q k)
     else p = NULL)"
proof (cases "arnm_align8_u32 new = 0")
  case True
  then have "r = ARNM_ERROR_ARITHMETIC_OVERFLOW" "p = NULL" "w' = w"
    using assms by (auto simp: flat_ops_def arnm_realloc_def)
  with assms show ?thesis by simp
next
  case False
  then have N: "arnm_align8_u32 new = ARNM_ALIGN8 new" "0 < ARNM_ALIGN8 new"
    using align8_bounds [of new] assms(2) by (auto simp: align8_u32_cases split: if_splits)
  show ?thesis
    using assms(1)
  proof (cases rule: flat_cases)
    case default
    obtain a h where m: "malloc new (heap w) = (a, h)" by fastforce
    have res: "r = (if a = NULL then ARNM_ERROR_OUT_OF_MEMORY else ARNM_SUCCESS)" "p = a"
      "w' = w\<lparr>heap := h\<rparr>"
      using assms(2,3) False default(1,3) m
      by (auto simp: flat_ops_def arnm_realloc_def is_single_arena_reclaimable_def host_realloc_def
          Let_def split: if_splits)
    have "op_alloc (flat_ops m) new w = (r, if a = NULL then NULL else a, w')"
      using default(1) m assms(2) by (auto simp: flat_ops_def arnm_alloc_def res)
    from flat_alloc_law [OF assms(1,2) this] show ?thesis by (auto simp: res)
  next
    case (single a)
    obtain r1 q1 w1 where al: "arnm_alloc (Some NULL) (ARNM_ALIGN8 new) m w = (r1, q1, w1)"
      by (metis prod_cases3)
    have op: "op_alloc (flat_ops m) (ARNM_ALIGN8 new) w = (r1, the q1, w1)" by (simp add: flat_ops_def al)
    note law = flat_alloc_law [OF assms(1) N(2) op]
    have res: "r = (if r1 = ARNM_SUCCESS then ARNM_WARNING_ARENA_MEMORY_NOT_RECLAIMED else r1)"
      "p = (if r1 = ARNM_SUCCESS then the q1 else NULL)" "w' = w1"
      using assms(2,3) N single al
      by (auto simp: flat_ops_def arnm_realloc_def is_single_arena_reclaimable_def Let_def split: if_splits)
    have "flat_owns m w1 (the q1) new \<and> (\<forall>q k. flat_owns m w q k \<longrightarrow> apart (the q1) new q k)"
      if "r1 = ARNM_SUCCESS"
    proof -
      from single al obtain a1 where a1: "intern_of m w1 = Some a1" "single_type (allocation_type a1)"
        by (auto simp: arnm_alloc_def arena_alloc_aligned_def account_capacity_exceeded_def
            Let_def split: if_splits prod.splits)
      have "ARNM_ALIGN8 (ARNM_ALIGN8 new) = ARNM_ALIGN8 new" using align8_bounds [of new] by simp
      then have "arena_owns a1 (the q1) new"
        using law that a1 single(4) assms(2) by (auto simp: arena_owns_def)
      moreover have "apart (the q1) new q k" if "flat_owns m w q k" for q k
        using law \<open>r1 = ARNM_SUCCESS\<close> that align8_bounds [of new] unfolding apart_def
        by (meson le_trans add_left_mono)
      ultimately show ?thesis using a1 single(4) by simp
    qed
    then show ?thesis using law by (auto simp: res)
  qed
qed

lemma flat_ops_mem [simp]:
  "op_mem (flat_ops m) = bytes_of" "op_set_mem (flat_ops m) = set_bytes"
  by (simp_all add: flat_ops_def)

lemma flat_owned_law:
  assumes "flat_sound m w" "flat_owns m w p n"
  shows "p \<noteq> NULL \<and> p mod 8 = 0 \<and> 0 < n \<and> p + n < ADDRESS_END"
  using assms(1)
proof (cases rule: flat_cases)
  case default
  with assms show ?thesis by (auto simp: host_ok_def blocks_ok_def)
next
  case (single a)
  with assms(2) align8_bounds [of n] show ?thesis by (auto simp: arena_owns_def arena_ok_def)
qed

text \<open>The C heap and the single arena keep the allocator's contract.\<close>

interpretation flat: arnm_allocator "flat_ops m" "flat_sound m" "flat_owns m" for m
proof (unfold_locales, unfold flat_ops_mem, goal_cases)
  case (1 w p n)
  then show ?case by (rule flat_owned_law)
next
  case (4 w n r p w')
  from flat_alloc_law [OF this] show ?case by simp
next
  case (5 w p n r w')
  from flat_free_law [OF this] show ?case by simp
next
  case (6 w p old new r p' w')
  note law = flat_realloc_law [OF 6]
  have "rd (bytes_of w') q k = rd (bytes_of w) q k" if "flat_owns m w q k" "apart p old q k" for q k
    using law that rd_apart [of p' new q k "bytes_of w'" "bytes_of w"] by (auto split: if_splits)
  with law show ?case by (auto split: if_splits)
next
  case (9 w new r p w')
  from flat_realloc_null_law [OF this] show ?case by simp
qed simp_all

section \<open>What the allocator promises\<close>

text \<open>A handle on an arena of 64 bytes at 4096, with a C heap that answers 4096, 8192, 12288, ...\<close>

definition sample_world :: flat where
  "sample_world =
    \<lparr>heap = \<lparr>bytes = (\<lambda>_. 0), blocks = [], answers = (\<lambda>n. (n + 1) * 4096), calls = 0\<rparr>, handles = (\<lambda>_. None)\<rparr>"

definition sample_arena :: flat where
  "sample_arena = snd (arnm_init_arena 64 60 sample_world)"

lemma sample_world_sound: "flat_sound m sample_world"
  by (simp add: sample_world_def flat_sound_def intern_of_def host_ok_def)

lemma sample_arena_eq:
  "intern_of 64 sample_arena = Some \<lparr>data = 4096, last_index = 0, capacity = 64,
     out_of_memory_capacity = 0, allocation_type = ARNM_ALLOC_TYPE_ARENA_OWNED\<rparr> \<and>
   heap sample_arena = (heap sample_world)\<lparr>blocks := [(4096, 64)], calls := 1\<rparr>"
  by (simp add: sample_arena_def sample_world_def arnm_init_arena_def init_arena_def arnm_alloc_def arnm_align8_u32_def
      ARNM_MAX_ALLOC_SIZE_def UINT32_MAX_def ARNM_ALIGN8_def is_default_alloc_def malloc_def fits_def)

lemma sample_arena_sound: "flat_sound 64 sample_arena"
  by (simp add: flat_sound_def sample_arena_eq arena_ok_def UINT32_MAX_def host_ok_def
      blocks_ok_Cons fits_def sample_world_def)

text \<open>C23: What an allocation from an arena does, exactly. With \<open>ARNM_ALIGN8 sz\<close> bytes left the block
  starts at the index, which moves past it; with fewer, the call fails, the caller's pointer and the
  index stay, and the overflow total grows by the aligned size, stopping at its widest value.\<close>

theorem arena_alloc_outcomes:
  assumes "flat_sound m w" "intern_of m w = Some a" "single_type (allocation_type a)"
    and "data a \<noteq> NULL" "0 < sz" "sz \<le> ARNM_MAX_ALLOC_SIZE"
  shows "arnm_alloc (Some old) sz m w =
    (if ARNM_ALIGN8 sz \<le> arnm_arena_remaining m w
     then (ARNM_SUCCESS, Some (data a + last_index a),
       set_handle m (a\<lparr>last_index := last_index a + ARNM_ALIGN8 sz\<rparr>) w)
     else (ARNM_ERROR_OUT_OF_MEMORY, Some old,
       set_handle m (a\<lparr>out_of_memory_capacity :=
         min UINT32_MAX (arnm_arena_overflow_total m w + ARNM_ALIGN8 sz)\<rparr>) w))"
proof -
  have a: "arena_ok a" using assms(1,2,3) by (simp add: flat_sound_def)
  have "arnm_align8_u32 sz = ARNM_ALIGN8 sz" "ARNM_ALIGN8 sz \<noteq> 0"
    using assms(5,6) align8_bounds [of sz] by (auto simp: arnm_align8_u32_def)
  moreover have "\<not> is_default_alloc (Some a)"
    using assms(3) by (auto simp: is_default_alloc_def single_type_def)
  ultimately show ?thesis
    using assms a arena_alloc_aligned_cases [OF a assms(3,4), of old "ARNM_ALIGN8 sz"]
    by (simp add: arnm_alloc_def arnm_arena_remaining_def arnm_arena_overflow_total_def)
qed

lemma arena_alloc_outcomes_witness:
  "fst (arnm_alloc (Some 0) 10 64 sample_arena) = ARNM_SUCCESS \<and>
    fst (snd (arnm_alloc (Some 0) 10 64 sample_arena)) = Some 4096 \<and>
    arnm_alloc (Some 5) 65 64 sample_arena = (ARNM_ERROR_OUT_OF_MEMORY, Some 5,
      set_handle 64 ((the (intern_of 64 sample_arena))\<lparr>out_of_memory_capacity := 72\<rparr>) sample_arena)"
proof -
  have "arnm_arena_remaining 64 sample_arena = 64" "arnm_arena_overflow_total 64 sample_arena = 0"
    by (simp_all add: arnm_arena_remaining_def arnm_arena_overflow_total_def sample_arena_eq
        remaining_bytes_def UINT32_MAX_def)
  then show ?thesis
    using arena_alloc_outcomes [OF sample_arena_sound sample_arena_eq [THEN conjunct1], of 10 0]
      arena_alloc_outcomes [OF sample_arena_sound sample_arena_eq [THEN conjunct1], of 65 5]
    by (simp add: ARNM_MAX_ALLOC_SIZE_def UINT32_MAX_def ARNM_ALIGN8_def sample_arena_eq)
qed

lemma set_handle_back: "m \<noteq> NULL \<Longrightarrow> intern_of m w = Some a \<Longrightarrow> set_handle m a (set_handle m b w) = w"
  by (cases w) (auto simp: set_handle_def intern_of_def)

text \<open>The block an arena gave last can be handed back at no cost: freeing it with its size, at
  once, succeeds and leaves the whole world, the arena and every byte, as it was before.\<close>

theorem arena_alloc_free_round_trip:
  assumes "flat_sound m w" "intern_of m w = Some a" "single_type (allocation_type a)"
    and "arnm_alloc (Some old) sz m w = (ARNM_SUCCESS, Some p, w')"
  shows "arnm_free p sz m w' = (ARNM_SUCCESS, w)"
proof -
  have a: "arena_ok a" "m \<noteq> NULL"
    using assms(1,2,3) intern_of_nonnull [OF assms(2)] by (auto simp: flat_sound_def)
  let ?k = "arnm_align8_u32 sz"
  have k: "sz \<noteq> 0" "?k \<noteq> 0" "data a \<noteq> NULL" "\<not> is_default_alloc (Some a)"
    "?k \<le> capacity a - last_index a" "p = data a + last_index a"
    "w' = set_handle m (a\<lparr>last_index := last_index a + ?k\<rparr>) w"
  proof -
    show "sz \<noteq> 0" using assms(4) by (auto simp: arnm_alloc_def split: if_splits)
    show d: "\<not> is_default_alloc (Some a)" using assms(3) by (auto simp: is_default_alloc_def single_type_def)
    with assms(2,4) \<open>sz \<noteq> 0\<close> show "?k \<noteq> 0"
      by (auto simp: arnm_alloc_def Let_def split: if_splits)
    with assms(2,4) \<open>sz \<noteq> 0\<close> d show "data a \<noteq> NULL"
      by (cases "data a = NULL") (auto simp: arnm_alloc_def arena_alloc_aligned_null)
    note bump = arena_alloc_aligned_cases [OF a(1) assms(3) this, of old ?k]
    show "?k \<le> capacity a - last_index a" "p = data a + last_index a"
      "w' = set_handle m (a\<lparr>last_index := last_index a + ?k\<rparr>) w"
      using assms(2,4) \<open>sz \<noteq> 0\<close> d \<open>?k \<noteq> 0\<close> by (auto simp: arnm_alloc_def bump Let_def split: if_splits)
  qed
  have "sub32 (last_index a + ?k) ?k = last_index a"
    using a(1) k(5) by (subst sub32_id) (auto simp: arena_ok_def)
  moreover have "a\<lparr>last_index := last_index a\<rparr> = a" by simp
  ultimately show ?thesis
    using k a assms(2,3) set_handle_back [OF a(2) assms(2)]
    by (simp add: arnm_free_def is_arena_def is_single_arena_reclaimable_def Let_def)
      (auto simp: single_type_def)
qed

lemma arena_alloc_free_round_trip_witness:
  "\<exists>w'. arnm_alloc (Some 0) 10 64 sample_arena = (ARNM_SUCCESS, Some 4096, w') \<and>
    arnm_free 4096 10 64 w' = (ARNM_SUCCESS, sample_arena)"
proof -
  obtain w' where "arnm_alloc (Some 0) 10 64 sample_arena = (ARNM_SUCCESS, Some 4096, w')"
    by (simp add: arnm_alloc_def sample_arena_eq is_default_alloc_def arena_alloc_aligned_def
        account_capacity_exceeded_def remaining_bytes_def arnm_align8_u32_def ARNM_MAX_ALLOC_SIZE_def
        UINT32_MAX_def ARNM_ALIGN8_def)
  then show ?thesis
    using arena_alloc_free_round_trip [OF sample_arena_sound sample_arena_eq [THEN conjunct1]] by simp
qed



end
