(* ===== verification/Bits.thy ===== *)
theory Bits
  imports Prelude
begin

unbundle bit_operations_syntax

text \<open>
  Powers of two and bit scans (\<^verbatim>\<open>include/arnm/bit.h\<close>, \<^verbatim>\<open>include/arnm/bitmap.h\<close>). The scans are
  compiler built-ins; what is written here is what the compiler documents of them.
\<close>

definition arnm_pow2_u32 :: "nat \<Rightarrow> nat" where "arnm_pow2_u32 exponent = u32 (2 ^ exponent)"
definition arnm_pow2_u16 :: "nat \<Rightarrow> nat" where "arnm_pow2_u16 exponent = u16 (2 ^ exponent)"

definition arnm_mul_pow2_u32 :: "nat \<Rightarrow> nat \<Rightarrow> nat" where
  "arnm_mul_pow2_u32 value exponent = u32 (value * 2 ^ exponent)"

text \<open>Leading zeros of a 32-bit word, from the top bit down; trailing zeros from the bottom up.\<close>

definition arnm_clz :: "32 word \<Rightarrow> nat" where
  "arnm_clz bitmap = length (takeWhile (\<lambda>i. \<not> bit bitmap (31 - i)) [0..<32])"

definition arnm_ctz :: "32 word \<Rightarrow> nat" where
  "arnm_ctz bitmap = length (takeWhile (\<lambda>i. \<not> bit bitmap i) [0..<32])"

text \<open>The 64-bit scans, and the number of set bits.\<close>

definition arnm_clzll :: "64 word \<Rightarrow> nat" where
  "arnm_clzll bitmap = length (takeWhile (\<lambda>i. \<not> bit bitmap (63 - i)) [0..<64])"

definition arnm_ctzll :: "64 word \<Rightarrow> nat" where
  "arnm_ctzll bitmap = length (takeWhile (\<lambda>i. \<not> bit bitmap i) [0..<64])"

definition arnm_popcount :: "32 word \<Rightarrow> nat" where
  "arnm_popcount bitmap = length (filter (bit bitmap) [0..<32])"

definition arnm_popcountll :: "64 word \<Rightarrow> nat" where
  "arnm_popcountll bitmap = length (filter (bit bitmap) [0..<64])"

definition arnm_ceil_power_of_two :: "32 word \<Rightarrow> 32 word" where
  "arnm_ceil_power_of_two x =
    (let v = x - 1;
         v = v OR drop_bit 1 v;
         v = v OR drop_bit 2 v;
         v = v OR drop_bit 4 v;
         v = v OR drop_bit 8 v;
         v = v OR drop_bit 16 v
     in v + 1)"

definition arnm_log2_power_of_two :: "32 word \<Rightarrow> nat" where
  "arnm_log2_power_of_two x = (if x \<le> 1 then 0 else u8 (32 - arnm_clz (x - 1)))"

definition arnm_is_power_of_two :: "32 word \<Rightarrow> bool" where
  "arnm_is_power_of_two sz \<longleftrightarrow> sz \<noteq> 0 \<and> sz AND (sz - 1) = 0"

lemma pow2_u16 [simp]: "k \<le> 15 \<Longrightarrow> arnm_pow2_u16 k = 2 ^ k"
proof -
  assume "k \<le> 15"
  then have "(2::nat) ^ k \<le> 2 ^ 15" by (intro power_increasing) auto
  then show ?thesis by (simp add: arnm_pow2_u16_def)
qed

lemma mul_pow2_u32 [simp]: "v * 2 ^ k \<le> UINT32_MAX \<Longrightarrow> arnm_mul_pow2_u32 v k = v * 2 ^ k"
  by (simp add: arnm_mul_pow2_u32_def)


subsection \<open>Rounding up to a power of two\<close>

text \<open>The bits of a word up to its highest set one.\<close>

abbreviation width32 :: "32 word \<Rightarrow> nat" where
  "width32 v \<equiv> 32 - arnm_clz v"

lemma clz_le: "arnm_clz v \<le> 32"
  using length_takeWhile_le [of "\<lambda>i. \<not> bit v (31 - i)" "[0..<32]"] by (simp add: arnm_clz_def)

lemma not_bit_above: "width32 v \<le> i \<Longrightarrow> \<not> bit v i"
proof
  assume le: "width32 v \<le> i" and bit: "bit v i"
  have i: "i < 32" using bit_imp_le_length [OF bit] by simp
  define P where "P = (\<lambda>i. \<not> bit v (31 - i))"
  have "31 - i < length (takeWhile P [0..<32])" using le i by (simp add: arnm_clz_def P_def)
  then have "P (takeWhile P [0..<32] ! (31 - i))" by (meson nth_mem set_takeWhileD)
  then have "P (31 - i)" using \<open>31 - i < length (takeWhile P [0..<32])\<close> by (simp add: takeWhile_nth)
  then show False using bit i by (simp add: P_def)
qed

lemma bit_top: "0 < width32 v \<Longrightarrow> bit v (width32 v - 1)"
proof -
  assume pos: "0 < width32 v"
  define P where "P = (\<lambda>i. \<not> bit v (31 - i))"
  have "length (takeWhile P [0..<32]) < length [0..<32]" using pos by (simp add: arnm_clz_def P_def)
  then have "\<not> P ([0..<32] ! length (takeWhile P [0..<32]))" by (rule nth_length_takeWhile)
  then show ?thesis using pos by (simp add: arnm_clz_def P_def)
qed

lemma word_less_width: "unat v < 2 ^ width32 v"
proof -
  have "take_bit (width32 v) v = v"
    by (rule bit_word_eqI) (metis bit_take_bit_iff not_bit_above not_le)
  then have "unat v = take_bit (width32 v) (unat v)" by (metis unsigned_take_bit_eq)
  then show ?thesis by (metis take_bit_nat_less_exp)
qed

lemma width_le_word: "0 < width32 v \<Longrightarrow> 2 ^ (width32 v - 1) \<le> unat v"
proof -
  assume "0 < width32 v"
  then have "bit (unat v) (width32 v - 1)" using bit_top [of v] by (simp add: bit_simps)
  then show ?thesis by (metis bit_iff_odd div_less even_zero not_le)
qed

text \<open>After the shifts by 1, 2, .., \<open>2 ^ (k - 1)\<close> a bit is set when one of the \<open>2 ^ k\<close> at and above it was.\<close>

definition smear :: "nat \<Rightarrow> 32 word \<Rightarrow> 32 word" where
  "smear n v = v OR drop_bit n v"

lemma bit_smear:
  assumes "\<And>i. bit v i \<longleftrightarrow> (\<exists>j<n. bit u (i + j))" "0 < n"
  shows "bit (smear n v) i \<longleftrightarrow> (\<exists>j<n + n. bit u (i + j))"
proof -
  have "bit (smear n v) i \<longleftrightarrow> (\<exists>j<n. bit u (i + j)) \<or> (\<exists>j<n. bit u (i + n + j))"
    by (simp add: smear_def bit_or_iff bit_drop_bit_eq assms(1) add_ac)
  also have "\<dots> \<longleftrightarrow> (\<exists>j<n + n. bit u (i + j))"
  proof
    assume "\<exists>j<n + n. bit u (i + j)"
    then obtain j where j: "j < n + n" "bit u (i + j)" by blast
    show "(\<exists>j<n. bit u (i + j)) \<or> (\<exists>j<n. bit u (i + n + j))"
    proof (cases "j < n")
      case False
      then have "j - n < n" "bit u (i + n + (j - n))" using j by simp_all
      then show ?thesis by blast
    qed (use j in blast)
  qed (metis add.assoc add_less_cancel_left trans_less_add1)
  finally show ?thesis .
qed

lemma smeared_mask: "smear 16 (smear 8 (smear 4 (smear 2 (smear 1 v)))) = mask (width32 v)"
proof (rule bit_word_eqI)
  fix i assume i: "i < LENGTH(32)"
  have s1: "bit (smear 1 v) i \<longleftrightarrow> (\<exists>j<2. bit v (i + j))" for i
    using bit_smear [of v 1 v] by (simp add: numeral_2_eq_2)
  have s2: "bit (smear 2 (smear 1 v)) i \<longleftrightarrow> (\<exists>j<4. bit v (i + j))" for i
    using bit_smear [OF s1] by simp
  have s3: "bit (smear 4 (smear 2 (smear 1 v))) i \<longleftrightarrow> (\<exists>j<8. bit v (i + j))" for i
    using bit_smear [OF s2] by simp
  have s4: "bit (smear 8 (smear 4 (smear 2 (smear 1 v)))) i \<longleftrightarrow> (\<exists>j<16. bit v (i + j))" for i
    using bit_smear [OF s3] by simp
  have s: "bit (smear 16 (smear 8 (smear 4 (smear 2 (smear 1 v))))) i \<longleftrightarrow> (\<exists>j<32. bit v (i + j))"
    using bit_smear [OF s4] by simp
  have "(\<exists>j<32. bit v (i + j)) \<longleftrightarrow> i < width32 v"
  proof
    assume "i < width32 v"
    then show "\<exists>j<32. bit v (i + j)"
      using bit_top [of v] by (intro exI [of _ "width32 v - 1 - i"]) auto
  qed (use not_bit_above in \<open>meson leI le_add1 order_trans\<close>)
  then show "bit (smear 16 (smear 8 (smear 4 (smear 2 (smear 1 v))))) i = bit (mask (width32 v) :: 32 word) i"
    using s i by (simp add: bit_mask_iff)
qed

lemma ceil_power_of_two_width: "arnm_ceil_power_of_two x = 2 ^ width32 (x - 1)"
proof -
  have "arnm_ceil_power_of_two x = mask (width32 (x - 1)) + 1"
    by (simp add: arnm_ceil_power_of_two_def Let_def flip: smear_def smeared_mask)
  then show ?thesis by (simp add: mask_eq_exp_minus_1)
qed

lemma log2_width: "arnm_log2_power_of_two x = (if x = 0 then 0 else width32 (x - 1))"
proof (cases "x \<le> 1")
  case True
  then have "x = 0 \<or> x = 1" by (metis le_less unsigned_0 word_less_1 word_le_less_eq)
  moreover have "width32 0 = 0" using width_le_word [of 0] by (metis gr_zeroI not_one_le_zero power_eq_0_iff unsigned_0 le_zero_eq zero_neq_numeral)
  ultimately show ?thesis by (auto simp: arnm_log2_power_of_two_def)
next
  case False
  then show ?thesis by (auto simp: arnm_log2_power_of_two_def)
qed

lemma ceil_power_least:
  assumes "0 < x" "unat x \<le> 2 ^ 31"
  shows "unat (arnm_ceil_power_of_two x) = 2 ^ arnm_log2_power_of_two x \<and>
    unat x \<le> unat (arnm_ceil_power_of_two x) \<and>
    (\<forall>k. unat x \<le> 2 ^ k \<longrightarrow> arnm_log2_power_of_two x \<le> k)"
proof -
  let ?w = "width32 (x - 1)"
  have pred: "unat (x - 1) = unat x - 1" using assms(1) by (simp add: unat_minus_one word_neq_0_conv)
  have pos: "0 < unat x" using assms(1) by (simp add: unat_gt_0 word_neq_0_conv)
  have "?w \<le> 31"
  proof (rule ccontr)
    assume "\<not> ?w \<le> 31"
    then have "(2::nat) ^ 31 \<le> 2 ^ (?w - 1)" "0 < ?w" by (auto intro!: power_increasing simp del: power_numeral)
    then show False using width_le_word [of "x - 1"] pred pos assms(2) by linarith
  qed
  then have "(2::nat) ^ ?w \<le> 2 ^ 31" by (intro power_increasing) auto
  then have "unat (of_nat (2 ^ ?w) :: 32 word) = 2 ^ ?w" by (simp add: unat_of_nat take_bit_nat_eq_self del: of_nat_power)
  then have ceil: "unat (arnm_ceil_power_of_two x) = 2 ^ ?w"
    by (simp add: ceil_power_of_two_width)
  moreover have "unat x \<le> 2 ^ ?w" using word_less_width [of "x - 1"] pred pos by linarith
  moreover have "?w \<le> k" if "unat x \<le> 2 ^ k" for k
  proof (rule ccontr)
    assume "\<not> ?w \<le> k"
    then have "(2::nat) ^ k \<le> 2 ^ (?w - 1)" "0 < ?w" by (auto intro: power_increasing)
    then show False using width_le_word [of "x - 1"] pred pos that by linarith
  qed
  moreover have "x \<noteq> 0" using assms(1) by auto
  ultimately show ?thesis by (simp add: log2_width)
qed

lemma ceil_power_exponent:
  assumes "0 < x" "unat x \<le> 2 ^ 31"
  obtains k where "k \<le> 31" "arnm_ceil_power_of_two x = 2 ^ k" "unat x \<le> 2 ^ k" "\<And>j. unat x \<le> 2 ^ j \<Longrightarrow> k \<le> j"
proof (rule that)
  show "arnm_ceil_power_of_two x = 2 ^ width32 (x - 1)" by (rule ceil_power_of_two_width)
  have "x \<noteq> 0" using assms(1) by auto
  then have w: "arnm_log2_power_of_two x = width32 (x - 1)" by (simp add: log2_width)
  show "width32 (x - 1) \<le> j" if "unat x \<le> 2 ^ j" for j using ceil_power_least [OF assms] w that by simp
  then show "width32 (x - 1) \<le> 31" using assms(2) by blast
  show "unat x \<le> 2 ^ width32 (x - 1)" using ceil_power_least [OF assms] w by simp
qed

subsection \<open>Powers of two and counts of bits\<close>

lemma unat_exp32: "k \<le> 31 \<Longrightarrow> unat (2 ^ k :: 32 word) = 2 ^ k"
proof -
  assume "k \<le> 31"
  then have "(2::nat) ^ k \<le> 2 ^ 31" by (intro power_increasing) auto
  then have "unat (of_nat (2 ^ k) :: 32 word) = 2 ^ k" by (simp add: unat_of_nat take_bit_nat_eq_self del: of_nat_power)
  then show ?thesis by simp
qed

lemma is_power_of_two_iff: "arnm_is_power_of_two x \<longleftrightarrow> (\<exists>k\<le>31. x = 2 ^ k)"
proof
  assume x: "arnm_is_power_of_two x"
  let ?t = "width32 x - 1"
  have "0 < width32 x"
    using x word_less_width [of x] unsigned_eq_0_iff [of x] by (cases "width32 x = 0") (auto simp: arnm_is_power_of_two_def)
  then have t: "bit x ?t" "2 ^ ?t \<le> unat x" "width32 x = Suc ?t" using bit_top [of x] width_le_word [of x] by simp_all
  have "unat x = 2 ^ ?t"
  proof (rule ccontr)
    assume "unat x \<noteq> 2 ^ ?t"
    have pred: "unat (x - 1) = unat x - 1" using x by (simp add: arnm_is_power_of_two_def unat_minus_one)
    have "unat x < 2 ^ Suc ?t" using word_less_width [of x] t(3) by metis
    then have "unat (x - 1) < 2 * 2 ^ ?t" "2 ^ ?t \<le> unat (x - 1)" using pred t(2) \<open>unat x \<noteq> 2 ^ ?t\<close> by simp_all
    then have "unat (x - 1) div 2 ^ ?t = 1" by (simp add: div_nat_eqI)
    then have "bit (unat (x - 1)) ?t" by (simp add: bit_iff_odd)
    then have "bit (x - 1) ?t" by (simp add: bit_simps)
    then have "bit (x AND (x - 1)) ?t" using t(1) by (simp add: bit_and_iff)
    then show False using x by (simp add: arnm_is_power_of_two_def)
  qed
  then have "x = 2 ^ ?t" using unat_exp32 [of ?t] clz_le by (intro word_unat_eq_iff [THEN iffD2]) simp
  moreover have "?t \<le> 31" by simp
  ultimately show "\<exists>k\<le>31. x = 2 ^ k" by blast
next
  assume "\<exists>k\<le>31. x = 2 ^ k"
  then obtain k where k: "k \<le> 31" "x = 2 ^ k" by blast
  have "x AND (x - 1) = 0"
  proof (rule bit_word_eqI)
    fix i assume "i < LENGTH(32)"
    show "bit (x AND (x - 1)) i = bit (0 :: 32 word) i"
      unfolding k(2) mask_eq_exp_minus_1 [symmetric] by (simp add: bit_and_iff bit_mask_iff bit_exp_iff)
  qed
  then show "arnm_is_power_of_two x" using k by (simp add: arnm_is_power_of_two_def)
qed

lemma ctz_exp: "k \<le> 31 \<Longrightarrow> arnm_ctz (2 ^ k) = k"
proof -
  assume k: "k \<le> 31"
  have "takeWhile (\<lambda>i. \<not> bit (2 ^ k :: 32 word) i) ([0..<k] @ k # [Suc k..<32]) = [0..<k]"
    using k by (subst takeWhile_append2) (auto simp: bit_exp_iff)
  moreover have "[0..<32] = [0..<k] @ k # [Suc k..<32]"
    using k upt_add_eq_append [of 0 k "32 - k"] by (simp add: upt_conv_Cons)
  ultimately show ?thesis by (simp add: arnm_ctz_def)
qed

lemma popcount_card: "arnm_popcount x = card {i. bit x i}"
proof -
  have "set (filter (bit x) [0..<32]) = {i. bit x i}" using bit_imp_le_length [of x] by fastforce
  then show ?thesis using distinct_card [of "filter (bit x) [0..<32]"] by (simp add: arnm_popcount_def)
qed

text \<open>C32: Rounding up gives the smallest power of two at or above the value, and its exponent is
  what \<^verbatim>\<open>arnm_log2_power_of_two\<close> answers.\<close>

theorem ceil_power_of_two_least:
  assumes "0 < x" "unat x \<le> 2 ^ 31"
  shows "unat (arnm_ceil_power_of_two x) = 2 ^ arnm_log2_power_of_two x \<and>
    unat x \<le> unat (arnm_ceil_power_of_two x) \<and>
    (\<forall>k. unat x \<le> 2 ^ k \<longrightarrow> arnm_log2_power_of_two x \<le> k)"
  by (rule ceil_power_least [OF assms])

lemma ceil_power_of_two_least_witness: "unat (arnm_ceil_power_of_two 13) = 2 ^ arnm_log2_power_of_two 13"
  using ceil_power_of_two_least [of 13] by simp

end
