(* ===== verification/Bucket_Vector.thy ===== *)
theory Bucket_Vector
  imports Arena Bits
begin

text \<open>
  The growing vector whose elements never move (\<^verbatim>\<open>src/bucket_vector.c\<close>,
  \<^verbatim>\<open>include/arnm/bucket_vector.h\<close>): an index of bucket pointers, each bucket a block of
  \<open>2 ^ bucket_capacity_max_log2\<close> elements. The record has the fields of \<open>arnm_bvec\<close>; what the pointers
  lead to comes with it: \<open>slots\<close> is the index array at \<open>buckets\<close>, and a slot that is not NULL is a
  bucket, its address and its cells, \<open>None\<close> for a cell no element was written to yet. A pointer to
  an element is an address; \<open>bvec_read\<close> and \<open>bvec_write\<close> go through it the way C does.
\<close>

subsection \<open>The state\<close>

type_synonym 'a bucket = "addr \<times> 'a option list"

record 'a bvec =
  buckets :: addr
  slots :: "'a bucket option list"
  element_size :: nat
  bucket_capacity :: nat
  tail_index :: nat
  tail_used :: nat
  tail :: addr
  bv_size :: nat
  bucket_capacity_max_log2 :: nat
  index_grow_step_size :: nat
  allocated_count :: nat

definition ARNM_BVEC_MAX_INDEX_CAPACITY :: nat where "ARNM_BVEC_MAX_INDEX_CAPACITY = 8191"
definition ARNM_BVEC_DEFAULT_INDEX_GROW_STEP_SIZE :: nat where
  "ARNM_BVEC_DEFAULT_INDEX_GROW_STEP_SIZE = 8"

definition bucket_bytes :: "nat \<Rightarrow> nat \<Rightarrow> nat" where
  "bucket_bytes type_size bucket_capacity_log2 = arnm_mul_pow2_u32 type_size bucket_capacity_log2"

text \<open>The static function \<open>bucket_capacity\<close>, which shares its name with a field.\<close>

definition bucket_elements :: "nat \<Rightarrow> nat" where
  "bucket_elements bucket_capacity_log2 = arnm_pow2_u16 bucket_capacity_log2"

definition bucket_mask :: "nat \<Rightarrow> nat" where
  "bucket_mask bucket_capacity_log2 = sub32 (bucket_elements bucket_capacity_log2) 1"

definition releases_newest_first :: "'w ops \<Rightarrow> 'w \<Rightarrow> bool" where
  "releases_newest_first ops w = op_is_arena ops w"

definition bucket_count_allocated :: "'a bvec \<Rightarrow> nat" where
  "bucket_count_allocated v = (if buckets v \<noteq> NULL then allocated_count v else 0)"

definition index_bytes :: "nat \<Rightarrow> nat" where "index_bytes cap = u32 (cap * 8)"

definition is_state_valid :: "'a bvec \<Rightarrow> bool" where
  "is_state_valid v =
    (if element_size v = 0 \<or> bucket_capacity_max_log2 v = 0 then False
     else
       let bucket_count = bucket_count_allocated v
       in if buckets v = NULL then
            \<not> (bucket_count \<noteq> 0 \<or> bucket_capacity v \<noteq> 0 \<or> tail_index v \<noteq> 0 \<or> tail v \<noteq> NULL \<or> bv_size v \<noteq> 0)
          else if bucket_capacity v = 0 then False
          else if bucket_count > bucket_capacity v then False
          else if (if tail v \<noteq> NULL then tail_index v \<ge> bucket_count else tail_index v \<noteq> 0) then False
          else if bv_size v > u32 (bucket_count * bucket_elements (bucket_capacity_max_log2 v)) then False
          else True)"

text \<open>The pointer in a slot of the index; NULL, or a slot past the array, leads nowhere.\<close>

definition slot_ptr :: "'a bvec \<Rightarrow> nat \<Rightarrow> addr" where
  "slot_ptr v k =
    (if k < length (slots v) then (case slots v ! k of None \<Rightarrow> NULL | Some (p, _) \<Rightarrow> p) else NULL)"

definition fresh_bucket :: "'a bvec \<Rightarrow> addr \<Rightarrow> 'a bucket" where
  "fresh_bucket v p = (p, replicate (bucket_elements (bucket_capacity_max_log2 v)) None)"

text \<open>Loads and stores of one element through a pointer.\<close>

definition cell_of :: "nat \<Rightarrow> addr \<Rightarrow> 'a bucket \<Rightarrow> nat option" where
  "cell_of elem a b =
    (if fst b \<le> a \<and> (a - fst b) mod elem = 0 \<and> (a - fst b) div elem < length (snd b)
     then Some ((a - fst b) div elem) else None)"

definition bvec_write :: "addr \<Rightarrow> 'a \<Rightarrow> 'a bvec \<Rightarrow> 'a bvec" where
  "bvec_write a x v = v\<lparr>slots := map (map_option (\<lambda>b.
     case cell_of (element_size v) a b of None \<Rightarrow> b | Some i \<Rightarrow> (fst b, (snd b)[i := Some x]))) (slots v)\<rparr>"

definition bvec_read :: "addr \<Rightarrow> 'a bvec \<Rightarrow> 'a option" where
  "bvec_read a v =
    fold (\<lambda>s found. case s of None \<Rightarrow> found | Some b \<Rightarrow>
      (case cell_of (element_size v) a b of None \<Rightarrow> found | Some i \<Rightarrow> snd b ! i)) (slots v) None"

subsection \<open>Reading\<close>

definition arnm_bvec_size :: "'a bvec \<Rightarrow> nat" where "arnm_bvec_size v = bv_size v"

definition arnm_bvec_get :: "'a bvec \<Rightarrow> nat \<Rightarrow> addr" where
  "arnm_bvec_get v index =
    (let log2_bucket_capacity = bucket_capacity_max_log2 v;
         bucket_index = u16 (index div 2 ^ log2_bucket_capacity);
         index_in_bucket = index mod 2 ^ log2_bucket_capacity
     in slot_ptr v bucket_index + index_in_bucket * element_size v)"

definition arnm_bvec_at :: "'a bvec \<Rightarrow> nat \<Rightarrow> addr" where
  "arnm_bvec_at v index = (if index \<ge> bv_size v then NULL else arnm_bvec_get v index)"

definition arnm_bvec_front :: "'a bvec \<Rightarrow> addr" where
  "arnm_bvec_front v = (if bv_size v \<noteq> 0 then slot_ptr v 0 else NULL)"

definition arnm_bvec_back :: "'a bvec \<Rightarrow> addr" where
  "arnm_bvec_back v = (if tail v \<noteq> NULL then tail v + (tail_used v - 1) * element_size v else NULL)"

definition arnm_bvec_bucket_count :: "'a bvec \<Rightarrow> nat" where
  "arnm_bvec_bucket_count v = (if tail v \<noteq> NULL then u16 (tail_index v + 1) else 0)"

definition arnm_bvec_bucket_data :: "'a bvec \<Rightarrow> nat \<Rightarrow> addr" where
  "arnm_bvec_bucket_data v bucket = slot_ptr v bucket"

definition arnm_bvec_bucket_size :: "'a bvec \<Rightarrow> nat \<Rightarrow> nat" where
  "arnm_bvec_bucket_size v bucket =
    (if bucket = tail_index v then tail_used v else 2 ^ bucket_capacity_max_log2 v)"

subsection \<open>Life cycle\<close>

definition bvec_descriptor :: "nat \<Rightarrow> nat \<Rightarrow> nat \<Rightarrow> 'a bvec" where
  "bvec_descriptor log2 step elem =
    \<lparr>buckets = NULL, slots = [], element_size = u16 elem, bucket_capacity = 0, tail_index = 0,
     tail_used = bucket_elements log2, tail = NULL, bv_size = 0, bucket_capacity_max_log2 = log2,
     index_grow_step_size = (if step \<noteq> 0 then step else ARNM_BVEC_DEFAULT_INDEX_GROW_STEP_SIZE),
     allocated_count = 0\<rparr>"

definition arnm_bvec_init :: "nat \<Rightarrow> nat \<Rightarrow> nat \<Rightarrow> 'a bvec \<Rightarrow> arnm_result \<times> 'a bvec" where
  "arnm_bvec_init log2 step elem v =
    (if elem = 0 \<or> log2 = 0 \<or> log2 > 15 \<or> elem > UINT32_MAX div 2 ^ log2 \<or> elem > UINT16_MAX
     then (ARNM_ERROR_INVALID_PARAM, v)
     else (ARNM_SUCCESS, bvec_descriptor log2 step elem))"

text \<open>
  Growing the index array: the pointers it holds come along, and the new slots are zeroed.
\<close>

definition resize_slots :: "nat \<Rightarrow> 'a bucket option list \<Rightarrow> 'a bucket option list" where
  "resize_slots n s = take n s @ replicate (n - length s) None"

fun reserve_buckets :: "'w ops \<Rightarrow> nat \<Rightarrow> nat \<Rightarrow> nat \<Rightarrow> 'a bvec \<Rightarrow> 'w \<Rightarrow> arnm_result \<times> 'a bvec \<times> 'w" where
  "reserve_buckets ops bucket_size bucket_count 0 v w = (ARNM_SUCCESS, v, w)"
| "reserve_buckets ops bucket_size bucket_count (Suc left) v w =
    (case op_alloc ops bucket_size w of (result, bucket, w) \<Rightarrow>
       if result \<noteq> ARNM_SUCCESS then (result, v, w)
       else
         let v = v\<lparr>slots := (slots v)[bucket_count := Some (fresh_bucket v bucket)],
                   allocated_count := u16 (bucket_count + 1)\<rparr>
         in reserve_buckets ops bucket_size (u16 (bucket_count + 1)) left v w)"

definition arnm_bvec_reserve :: "'w ops \<Rightarrow> nat \<Rightarrow> 'a bvec \<Rightarrow> 'w \<Rightarrow> arnm_result \<times> 'a bvec \<times> 'w" where
  "arnm_bvec_reserve ops element_count v w =
    (if element_count = 0 then (ARNM_ERROR_INVALID_PARAM, v, w)
     else if \<not> is_state_valid v then (ARNM_ERROR_INVALID_STATE, v, w)
     else if element_count > (UINT32_MAX - bucket_mask (bucket_capacity_max_log2 v)) div element_size v then
       (ARNM_ERROR_ARITHMETIC_OVERFLOW, v, w)
     else
       let needed = (element_count + bucket_mask (bucket_capacity_max_log2 v)) div 2 ^ bucket_capacity_max_log2 v
       in if needed > ARNM_BVEC_MAX_INDEX_CAPACITY then (ARNM_ERROR_ARITHMETIC_OVERFLOW, v, w)
          else
            let previous_bucket_count = bucket_count_allocated v
            in if needed \<le> previous_bucket_count then (ARNM_SUCCESS, v, w)
               else
                 let bucket_size = bucket_bytes (element_size v) (bucket_capacity_max_log2 v)
                 in if needed > bucket_capacity v then
                      case op_realloc ops (buckets v) (index_bytes (bucket_capacity v)) (index_bytes needed) w of
                        (result, index, w) \<Rightarrow>
                          if \<not> done_code result then (result, v\<lparr>buckets := index\<rparr>, w)
                          else reserve_buckets ops bucket_size previous_bucket_count (needed - previous_bucket_count)
                            (v\<lparr>buckets := index, slots := resize_slots needed (slots v),
                               bucket_capacity := needed\<rparr>) w
                    else reserve_buckets ops bucket_size previous_bucket_count
                           (needed - previous_bucket_count) v w)"

text \<open>The two release orders of \<open>arnm_bvec_shrink\<close>: newest first stops at the first refusal.\<close>

fun shrink_newest :: "'w ops \<Rightarrow> nat \<Rightarrow> nat \<Rightarrow> nat \<Rightarrow> 'a bvec \<Rightarrow> 'w \<Rightarrow> nat \<times> 'a bvec \<times> 'w" where
  "shrink_newest ops bucket_size used_before 0 v w = (0, v, w)"
| "shrink_newest ops bucket_size used_before (Suc i) v w =
    (if Suc i \<le> used_before then (Suc i, v, w)
     else if slot_ptr v i = NULL then shrink_newest ops bucket_size used_before i v w
     else case op_free ops (slot_ptr v i) bucket_size w of
       (result, w) \<Rightarrow>
         if result \<noteq> ARNM_SUCCESS then (Suc i, v, w)
         else shrink_newest ops bucket_size used_before i (v\<lparr>slots := (slots v)[i := None]\<rparr>) w)"

fun shrink_oldest :: "'w ops \<Rightarrow> nat \<Rightarrow> nat \<Rightarrow> nat \<Rightarrow> 'a bvec \<Rightarrow> 'w \<Rightarrow> 'a bvec \<times> 'w" where
  "shrink_oldest ops bucket_size k 0 v w = (v, w)"
| "shrink_oldest ops bucket_size k (Suc left) v w =
    (if slot_ptr v k = NULL then shrink_oldest ops bucket_size (Suc k) left v w
     else case op_free ops (slot_ptr v k) bucket_size w of
       (_, w) \<Rightarrow> shrink_oldest ops bucket_size (Suc k) left (v\<lparr>slots := (slots v)[k := None]\<rparr>) w)"

definition arnm_bvec_shrink :: "'w ops \<Rightarrow> 'a bvec \<Rightarrow> 'w \<Rightarrow> arnm_result \<times> 'a bvec \<times> 'w" where
  "arnm_bvec_shrink ops v w =
    (if buckets v = NULL then (ARNM_SUCCESS, v, w)
     else if \<not> is_state_valid v then (ARNM_ERROR_INVALID_STATE, v, w)
     else
       let bucket_size = bucket_bytes (element_size v) (bucket_capacity_max_log2 v);
           used_before = arnm_bvec_bucket_count v;
           i = bucket_count_allocated v
       in case (if releases_newest_first ops w then shrink_newest ops bucket_size used_before i v w
                else case shrink_oldest ops bucket_size used_before (i - used_before) v w of
                  (v, w) \<Rightarrow> (used_before, v, w)) of
         (i, v, w) \<Rightarrow>
           let v = v\<lparr>allocated_count := i\<rparr>
           in if i = 0 then
                case op_free ops (buckets v) (index_bytes (bucket_capacity v)) w of
                  (result, w) \<Rightarrow>
                    (ARNM_SUCCESS,
                     if result = ARNM_SUCCESS then v\<lparr>buckets := NULL, slots := [], bucket_capacity := 0\<rparr> else v, w)
              else if i = bucket_capacity v then (ARNM_SUCCESS, v, w)
              else case op_realloc ops (buckets v) (index_bytes (bucket_capacity v)) (index_bytes i) w of
                (result, index, w) \<Rightarrow>
                  let v = v\<lparr>buckets := index\<rparr>
                  in if result = ARNM_SUCCESS then
                       (ARNM_SUCCESS, v\<lparr>bucket_capacity := i, slots := resize_slots i (slots v)\<rparr>, w)
                     else if result \<noteq> ARNM_WARNING_ARENA_MEMORY_NOT_RECLAIMED then (result, v, w)
                     else (ARNM_SUCCESS, v, w))"

definition arnm_bvec_clear :: "'a bvec \<Rightarrow> 'a bvec" where
  "arnm_bvec_clear v =
    v\<lparr>tail := NULL, tail_index := 0, tail_used := bucket_elements (bucket_capacity_max_log2 v), bv_size := 0\<rparr>"

fun free_buckets :: "'w ops \<Rightarrow> nat \<Rightarrow> addr list \<Rightarrow> 'w \<Rightarrow> 'w" where
  "free_buckets ops bucket_size [] w = w"
| "free_buckets ops bucket_size (p # ps) w =
    free_buckets ops bucket_size ps (if p = NULL then w else snd (op_free ops p bucket_size w))"

definition arnm_bvec_free :: "'w ops \<Rightarrow> 'a bvec \<Rightarrow> 'w \<Rightarrow> 'a bvec \<times> 'w" where
  "arnm_bvec_free ops v w =
    (if buckets v = NULL \<or> element_size v = 0 then (v, w)
     else
       let bucket_size = bucket_bytes (element_size v) (bucket_capacity_max_log2 v);
           count = bucket_count_allocated v;
           order = (if releases_newest_first ops w then rev [0..<count] else [0..<count]);
           w = free_buckets ops bucket_size (map (slot_ptr v) order) w;
           w = snd (op_free ops (buckets v) (index_bytes (bucket_capacity v)) w)
       in (snd (arnm_bvec_init (bucket_capacity_max_log2 v) (index_grow_step_size v) (element_size v) v), w))"

subsection \<open>Appending and removing\<close>

text \<open>The two last steps of \<open>arnm_bvec_grow\<close>: a bucket for the slot, and the tail moved to it.\<close>

definition open_bucket :: "nat \<Rightarrow> 'a bvec \<Rightarrow> 'w \<Rightarrow> arnm_result \<times> addr option \<times> 'a bvec \<times> 'w" where
  "open_bucket nxt v w =
    (let v = v\<lparr>tail := slot_ptr v nxt, tail_index := nxt, tail_used := 1, bv_size := u32 (bv_size v + 1)\<rparr>
     in (ARNM_SUCCESS, Some (tail v), v, w))"

definition grow_bucket :: "'w ops \<Rightarrow> nat \<Rightarrow> nat \<Rightarrow> 'a bvec \<Rightarrow> 'w \<Rightarrow>
    arnm_result \<times> addr option \<times> 'a bvec \<times> 'w" where
  "grow_bucket ops nxt bucket_count v w =
    (case op_alloc ops (bucket_bytes (element_size v) (bucket_capacity_max_log2 v)) w of
       (result, bucket, w) \<Rightarrow>
         if result \<noteq> ARNM_SUCCESS then (result, None, v, w)
         else open_bucket nxt (v\<lparr>slots := (slots v)[bucket_count := Some (fresh_bucket v bucket)],
                allocated_count := u16 (bucket_count + 1)\<rparr>) w)"

definition arnm_bvec_grow :: "'w ops \<Rightarrow> 'a bvec \<Rightarrow> 'w \<Rightarrow> arnm_result \<times> addr option \<times> 'a bvec \<times> 'w" where
  "arnm_bvec_grow ops v w =
    (if \<not> is_state_valid v then (ARNM_ERROR_INVALID_STATE, None, v, w)
     else
       let nxt = arnm_bvec_bucket_count v;
           previous_bucket_count = bucket_count_allocated v
       in if nxt \<ge> previous_bucket_count then
            if previous_bucket_count = bucket_capacity v then
              let new_capacity = bucket_capacity v + index_grow_step_size v
              in if new_capacity > ARNM_BVEC_MAX_INDEX_CAPACITY then (ARNM_ERROR_ARITHMETIC_OVERFLOW, None, v, w)
                 else case op_realloc ops (buckets v) (index_bytes (bucket_capacity v)) (index_bytes new_capacity) w of
                   (result, index, w) \<Rightarrow>
                     if \<not> done_code result then (result, None, v\<lparr>buckets := index\<rparr>, w)
                     else grow_bucket ops nxt previous_bucket_count
                       (v\<lparr>buckets := index, slots := resize_slots new_capacity (slots v),
                          bucket_capacity := new_capacity\<rparr>) w
            else grow_bucket ops nxt previous_bucket_count v w
          else open_bucket nxt v w)"

definition arnm_bvec_emplace :: "'w ops \<Rightarrow> 'a bvec \<Rightarrow> 'w \<Rightarrow> arnm_result \<times> addr option \<times> 'a bvec \<times> 'w" where
  "arnm_bvec_emplace ops v w =
    (if tail v \<noteq> NULL \<and> tail_used v < bucket_elements (bucket_capacity_max_log2 v) then
       (ARNM_SUCCESS, Some (tail v + tail_used v * element_size v),
        v\<lparr>tail_used := u16 (tail_used v + 1), bv_size := u32 (bv_size v + 1)\<rparr>, w)
     else arnm_bvec_grow ops v w)"

definition arnm_bvec_push_ptr :: "'w ops \<Rightarrow> 'a option \<Rightarrow> 'a bvec \<Rightarrow> 'w \<Rightarrow> arnm_result \<times> 'a bvec \<times> 'w" where
  "arnm_bvec_push_ptr ops val v w =
    (case val of None \<Rightarrow> (ARNM_ERROR_NULL_POINTER, v, w)
     | Some x \<Rightarrow>
       (case arnm_bvec_emplace ops v w of (result, slot, v, w) \<Rightarrow>
          if result \<noteq> ARNM_SUCCESS then (result, v, w)
          else (ARNM_SUCCESS, bvec_write (the slot) x v, w)))"

definition arnm_bvec_pop :: "'a bvec \<Rightarrow> arnm_result \<times> 'a bvec" where
  "arnm_bvec_pop v =
    (if bv_size v = 0 then (ARNM_ERROR_ARRAY_INDEX_OUT_OF_BOUNDS, v)
     else
       let v = v\<lparr>bv_size := bv_size v - 1\<rparr>; v = v\<lparr>tail_used := u16 (tail_used v + 65535)\<rparr>
       in if tail_used v = 0 then
            let v = (if bv_size v \<noteq> 0
                     then let v = v\<lparr>tail_index := u16 (tail_index v + 65535)\<rparr> in v\<lparr>tail := slot_ptr v (tail_index v)\<rparr>
                     else v\<lparr>tail := NULL, tail_index := 0\<rparr>)
            in (ARNM_SUCCESS, v\<lparr>tail_used := bucket_elements (bucket_capacity_max_log2 v)\<rparr>)
          else (ARNM_SUCCESS, v))"

text \<open>\<open>dst\<close> is the caller's array: what it holds before, \<open>None\<close> for a NULL pointer.\<close>

fun copy_buckets :: "'a bvec \<Rightarrow> nat \<Rightarrow> nat \<Rightarrow> nat \<Rightarrow> 'a option list \<Rightarrow> 'a option list" where
  "copy_buckets v bucket written 0 dst = dst"
| "copy_buckets v bucket written (Suc left) dst =
    (let count = arnm_bvec_bucket_size v bucket;
         cells = (case slots v ! bucket of None \<Rightarrow> [] | Some (_, cs) \<Rightarrow> take count cs);
         dst = take written dst @ cells @ drop (written + count) dst
     in copy_buckets v (Suc bucket) (written + count) left dst)"

definition arnm_bvec_copy_to :: "'a bvec \<Rightarrow> 'a option list option \<Rightarrow> nat \<Rightarrow> arnm_result \<times> 'a option list option" where
  "arnm_bvec_copy_to v dst dst_capacity =
    (case dst of None \<Rightarrow> (ARNM_ERROR_NULL_POINTER, dst)
     | Some d \<Rightarrow>
       if dst_capacity < bv_size v then (ARNM_ERROR_DESTINATION_BUFFER_TO_SMALL, dst)
       else (ARNM_SUCCESS, Some (copy_buckets v 0 0 (arnm_bvec_bucket_count v) d)))"

section \<open>The invariant\<close>

abbreviation bucket_n :: "'a bvec \<Rightarrow> nat" where "bucket_n v \<equiv> 2 ^ bucket_capacity_max_log2 v"
abbreviation bucket_b :: "'a bvec \<Rightarrow> nat" where "bucket_b v \<equiv> element_size v * bucket_n v"

text \<open>Where the tail stands: nowhere in an empty vector, and otherwise at the bucket the last element
  is in, with the elements counted by the buckets in front of it and its own.\<close>

definition bvec_position :: "'a bvec \<Rightarrow> bool" where
  "bvec_position v \<longleftrightarrow>
    (if bv_size v = 0 then tail v = NULL \<and> tail_index v = 0 \<and> tail_used v = bucket_n v
     else tail_index v < allocated_count v \<and> tail v = slot_ptr v (tail_index v) \<and>
       1 \<le> tail_used v \<and> tail_used v \<le> bucket_n v \<and>
       bv_size v = tail_index v * bucket_n v + tail_used v)"

definition bvec_limits :: "'a bvec \<Rightarrow> bool" where
  "bvec_limits v \<longleftrightarrow>
    0 < element_size v \<and> element_size v \<le> UINT16_MAX \<and> 1 \<le> bucket_capacity_max_log2 v \<and>
    bucket_capacity_max_log2 v \<le> 15 \<and> bucket_b v \<le> UINT32_MAX \<and>
    1 \<le> index_grow_step_size v \<and> index_grow_step_size v < 256"

definition bvec_slots :: "'a bvec \<Rightarrow> bool" where
  "bvec_slots v \<longleftrightarrow>
    length (slots v) = bucket_capacity v \<and> bucket_capacity v \<le> ARNM_BVEC_MAX_INDEX_CAPACITY \<and>
    allocated_count v \<le> bucket_capacity v \<and> (buckets v = NULL \<longleftrightarrow> bucket_capacity v = 0) \<and>
    (\<forall>k<allocated_count v. \<exists>p cs. slots v ! k = Some (p, cs) \<and> p \<noteq> NULL \<and> length cs = bucket_n v) \<and>
    (\<forall>k. allocated_count v \<le> k \<and> k < bucket_capacity v \<longrightarrow> slots v ! k = None)"

definition bvec_shape :: "'a bvec \<Rightarrow> bool" where
  "bvec_shape v \<longleftrightarrow> bvec_limits v \<and> bvec_slots v \<and> bvec_position v"

definition index_block :: "'a bvec \<Rightarrow> (addr \<times> nat) list" where
  "index_block v = (if buckets v = NULL then [] else [(buckets v, 8 * bucket_capacity v)])"

definition bucket_blocks :: "'a bvec \<Rightarrow> (addr \<times> nat) list" where
  "bucket_blocks v = map (\<lambda>k. (slot_ptr v k, bucket_b v)) [0..<allocated_count v]"

definition bvec_blocks :: "'a bvec \<Rightarrow> (addr \<times> nat) list" where
  "bvec_blocks v = index_block v @ bucket_blocks v"

definition bvec_ok :: "('w \<Rightarrow> addr \<Rightarrow> nat \<Rightarrow> bool) \<Rightarrow> 'w \<Rightarrow> 'a bvec \<Rightarrow> bool" where
  "bvec_ok owns w v \<longleftrightarrow> bvec_shape v \<and> held_ok owns w (bvec_blocks v)"

text \<open>The abstract vector: the elements in order, and where each of them is.\<close>

definition cell :: "'a bvec \<Rightarrow> nat \<Rightarrow> 'a option" where
  "cell v i = snd (the (slots v ! (i div bucket_n v))) ! (i mod bucket_n v)"

definition elem_addr :: "'a bvec \<Rightarrow> nat \<Rightarrow> addr" where
  "elem_addr v i = slot_ptr v (i div bucket_n v) + (i mod bucket_n v) * element_size v"

definition bvec_list :: "'a bvec \<Rightarrow> 'a option list" where
  "bvec_list v = map (cell v) [0..<bv_size v]"

lemma length_bvec_list [simp]: "length (bvec_list v) = bv_size v"
  by (simp add: bvec_list_def)

lemma bucket_n_pos [simp]: "0 < bucket_n v"
  by simp

lemma bvec_limits_consts:
  assumes "bvec_limits v"
  shows "bucket_elements (bucket_capacity_max_log2 v) = bucket_n v"
    and "bucket_bytes (element_size v) (bucket_capacity_max_log2 v) = bucket_b v"
    and "bucket_mask (bucket_capacity_max_log2 v) = bucket_n v - 1"
    and "bucket_n v \<le> 32768" and "0 < bucket_b v"
proof -
  have le: "bucket_n v \<le> 2 ^ 15" using assms by (intro power_increasing) (auto simp: bvec_limits_def)
  then show "bucket_n v \<le> 32768" by simp
  show cap: "bucket_elements (bucket_capacity_max_log2 v) = bucket_n v"
    using assms by (simp add: bucket_elements_def bvec_limits_def)
  show "bucket_bytes (element_size v) (bucket_capacity_max_log2 v) = bucket_b v"
    using assms by (simp add: bucket_bytes_def bvec_limits_def)
  show "bucket_mask (bucket_capacity_max_log2 v) = bucket_n v - 1"
    using le by (simp add: bucket_mask_def cap UINT32_MAX_def)
  show "0 < bucket_b v" using assms by (simp add: bvec_limits_def)
qed

lemma index_bytes_eq: "cap \<le> ARNM_BVEC_MAX_INDEX_CAPACITY \<Longrightarrow> index_bytes cap = 8 * cap"
  by (simp add: index_bytes_def ARNM_BVEC_MAX_INDEX_CAPACITY_def UINT32_MAX_def)

lemma bvec_size_bound:
  assumes "bvec_shape v"
  shows "bv_size v \<le> allocated_count v * bucket_n v" "allocated_count v * bucket_n v \<le> 268402688"
proof -
  show "bv_size v \<le> allocated_count v * bucket_n v"
  proof (cases "bv_size v = 0")
    case False
    then have "bv_size v \<le> (tail_index v + 1) * bucket_n v" "tail_index v + 1 \<le> allocated_count v"
      using assms by (auto simp: bvec_shape_def bvec_position_def)
    then show ?thesis by (meson le_trans mult_le_mono1)
  qed simp
  have "allocated_count v \<le> 8191"
    using assms by (simp add: bvec_shape_def bvec_slots_def ARNM_BVEC_MAX_INDEX_CAPACITY_def)
  then have "allocated_count v * bucket_n v \<le> 8191 * 32768"
    using bvec_limits_consts(4) assms by (intro mult_le_mono) (auto simp: bvec_shape_def)
  then show "allocated_count v * bucket_n v \<le> 268402688" by simp
qed

lemma bucket_count_shape [simp]: "bvec_slots v \<Longrightarrow> bucket_count_allocated v = allocated_count v"
  by (auto simp: bucket_count_allocated_def bvec_slots_def)

lemma slot_some:
  assumes "bvec_slots v" "k < allocated_count v"
  obtains p cs where "slots v ! k = Some (p, cs)" "slot_ptr v k = p" "p \<noteq> NULL"
    "length cs = bucket_n v" "k < length (slots v)"
  using assms by (auto simp: bvec_slots_def slot_ptr_def)

lemma state_valid:
  assumes "bvec_shape v"
  shows "is_state_valid v"
proof -
  have lim: "bvec_limits v" and sl: "bvec_slots v" and pos: "bvec_position v"
    using assms by (auto simp: bvec_shape_def)
  have "u32 (allocated_count v * bucket_n v) = allocated_count v * bucket_n v"
    using bvec_size_bound(2) [OF assms] by (simp add: UINT32_MAX_def)
  moreover have "tail v \<noteq> NULL \<longleftrightarrow> bv_size v \<noteq> 0"
    using pos sl by (auto simp: bvec_position_def elim!: slot_some split: if_splits)
  ultimately show ?thesis
    using lim sl pos bvec_size_bound(1) [OF assms] bvec_limits_consts(1) [OF lim]
    by (auto simp: is_state_valid_def bvec_limits_def bvec_position_def bvec_slots_def
        bucket_count_allocated_def Let_def split: if_splits)
qed

lemma tail_facts:
  assumes "bvec_shape v"
  shows "tail v = NULL \<longleftrightarrow> bv_size v = 0"
    and "arnm_bvec_bucket_count v = (if bv_size v = 0 then 0 else tail_index v + 1)"
    and "arnm_bvec_bucket_count v \<le> allocated_count v"
proof -
  have lim: "bvec_limits v" and sl: "bvec_slots v" and pos: "bvec_position v"
    using assms by (auto simp: bvec_shape_def)
  show tail: "tail v = NULL \<longleftrightarrow> bv_size v = 0"
    using pos sl by (auto simp: bvec_position_def elim!: slot_some split: if_splits)
  have "bv_size v \<noteq> 0 \<Longrightarrow> tail_index v < 8191"
    using pos sl by (auto simp: bvec_position_def bvec_slots_def ARNM_BVEC_MAX_INDEX_CAPACITY_def)
  then show "arnm_bvec_bucket_count v = (if bv_size v = 0 then 0 else tail_index v + 1)"
    using tail by (auto simp: arnm_bvec_bucket_count_def)
  then show "arnm_bvec_bucket_count v \<le> allocated_count v"
    using pos by (auto simp: bvec_position_def)
qed

lemma bucket_blocks_nth:
  "k < allocated_count v \<Longrightarrow> bucket_blocks v ! k = (slot_ptr v k, bucket_b v)"
  "length (bucket_blocks v) = allocated_count v"
  by (simp_all add: bucket_blocks_def)

lemma buckets_apart:
  assumes "held_ok owns w (bvec_blocks v)" "j < allocated_count v" "k < allocated_count v" "j \<noteq> k"
  shows "apart (slot_ptr v j) (bucket_b v) (slot_ptr v k) (bucket_b v)"
proof -
  have "all_apart (bucket_blocks v)"
    using assms(1) by (auto simp: held_ok_def bvec_blocks_def all_apart_append)
  then have nth: "apart (slot_ptr v i) (bucket_b v) (slot_ptr v l) (bucket_b v)" if "i < l" "l < allocated_count v" for i l
    using that by (simp add: all_apart_def sorted_wrt_iff_nth_less bucket_blocks_nth)
  then show ?thesis using assms(2-4) apart_commute by (metis nat_neq_iff)
qed

text \<open>An element's address leads to its own cell, and to no cell of another bucket.\<close>

lemma cell_of_elem:
  assumes "bvec_ok owns w v" "i < allocated_count v * bucket_n v" "k < allocated_count v"
    and slot: "slots v ! k = Some b"
  shows "cell_of (element_size v) (elem_addr v i) b = (if k = i div bucket_n v then Some (i mod bucket_n v) else None)"
proof -
  have lim: "bvec_limits v" and sl: "bvec_slots v" using assms(1) by (auto simp: bvec_ok_def bvec_shape_def)
  let ?q = "i div bucket_n v" and ?r = "i mod bucket_n v" and ?e = "element_size v"
  have q: "?q < allocated_count v" using assms(2) by (simp add: less_mult_imp_div_less)
  have e: "0 < ?e" using lim by (simp add: bvec_limits_def)
  have r: "?r < bucket_n v" by simp
  have len: "length (snd b) = bucket_n v" and b: "fst b = slot_ptr v k"
    using slot_some [OF sl assms(3)] slot by (metis option.inject snd_conv, metis option.inject fst_conv)
  have inside: "?r * ?e + ?e \<le> bucket_b v"
    using mult_le_mono1 [of "?r + 1" "bucket_n v" ?e] r by (simp add: algebra_simps)
  show ?thesis
  proof (cases "k = ?q")
    case True
    then show ?thesis using e len b r by (simp add: cell_of_def elem_addr_def)
  next
    case False
    then have "apart (slot_ptr v k) (bucket_b v) (slot_ptr v ?q) (bucket_b v)"
      using buckets_apart assms(1,3) q by (auto simp: bvec_ok_def)
    then consider "slot_ptr v k + bucket_b v \<le> slot_ptr v ?q" | "slot_ptr v ?q + bucket_b v \<le> slot_ptr v k"
      by (auto simp: apart_def)
    then have "cell_of ?e (elem_addr v i) b = None"
    proof cases
      case 1
      then have "bucket_b v \<le> elem_addr v i - slot_ptr v k" by (simp add: elem_addr_def)
      then have "bucket_n v \<le> (elem_addr v i - slot_ptr v k) div ?e"
        using e by (simp add: less_eq_div_iff_mult_less_eq mult.commute)
      then show ?thesis using len b by (simp add: cell_of_def)
    next
      case 2
      then have "elem_addr v i < slot_ptr v k" using inside e by (simp add: elem_addr_def)
      then show ?thesis using b by (simp add: cell_of_def)
    qed
    with False show ?thesis by simp
  qed
qed

lemma slot_ptr_cong:
  "length (slots v') = length (slots v) \<Longrightarrow>
    (\<And>k. k < length (slots v) \<Longrightarrow> map_option fst (slots v' ! k) = map_option fst (slots v ! k)) \<Longrightarrow>
    slot_ptr v' k = slot_ptr v k"
  by (cases "slots v ! k"; cases "slots v' ! k") (fastforce simp: slot_ptr_def)+

lemma bvec_write_slots:
  assumes "bvec_ok owns w v" "i < allocated_count v * bucket_n v" "k < allocated_count v"
  shows "slots (bvec_write (elem_addr v i) x v) ! k =
    (case slots v ! k of None \<Rightarrow> None
     | Some (p, cs) \<Rightarrow> Some (p, if k = i div bucket_n v then cs[i mod bucket_n v := Some x] else cs))"
proof -
  have sl: "bvec_slots v" using assms(1) by (auto simp: bvec_ok_def bvec_shape_def)
  obtain p cs where s: "slots v ! k = Some (p, cs)" "k < length (slots v)"
    using slot_some [OF sl assms(3)] by metis
  show ?thesis
    using cell_of_elem [OF assms s(1)] s by (simp add: bvec_write_def split: option.splits)
qed

lemma bvec_write_other:
  assumes "bvec_slots v" "allocated_count v \<le> k" "k < bucket_capacity v"
  shows "slots (bvec_write a x v) ! k = None"
  using assms by (simp add: bvec_write_def bvec_slots_def)

lemma bvec_write_fields [simp]:
  "buckets (bvec_write a x v) = buckets v" "element_size (bvec_write a x v) = element_size v"
  "bucket_capacity (bvec_write a x v) = bucket_capacity v" "tail_index (bvec_write a x v) = tail_index v"
  "tail_used (bvec_write a x v) = tail_used v" "tail (bvec_write a x v) = tail v"
  "bv_size (bvec_write a x v) = bv_size v" "length (slots (bvec_write a x v)) = length (slots v)"
  "bucket_capacity_max_log2 (bvec_write a x v) = bucket_capacity_max_log2 v"
  "index_grow_step_size (bvec_write a x v) = index_grow_step_size v"
  "allocated_count (bvec_write a x v) = allocated_count v"
  by (simp_all add: bvec_write_def)

lemma bvec_write_ptr [simp]: "slot_ptr (bvec_write a x v) k = slot_ptr v k"
  by (rule slot_ptr_cong)
    (auto simp: bvec_write_def option.map_comp comp_def split: option.splits intro!: option.map_cong0)

lemma bvec_write_blocks [simp]: "bvec_blocks (bvec_write a x v) = bvec_blocks v"
  by (simp add: bvec_blocks_def index_block_def bucket_blocks_def)

lemma bvec_write_elem_addr [simp]: "elem_addr (bvec_write a x v) i = elem_addr v i"
  by (simp add: elem_addr_def)

lemma bvec_write_ok:
  assumes "bvec_ok owns w v" "i < allocated_count v * bucket_n v"
  shows "bvec_ok owns w (bvec_write (elem_addr v i) x v)"
proof -
  have lim: "bvec_limits v" and sl: "bvec_slots v" and pos: "bvec_position v"
    using assms(1) by (auto simp: bvec_ok_def bvec_shape_def)
  have "\<exists>p cs. slots (bvec_write (elem_addr v i) x v) ! k = Some (p, cs) \<and> p \<noteq> NULL \<and> length cs = bucket_n v"
    if k: "k < allocated_count v" for k
  proof -
    obtain p cs where "slots v ! k = Some (p, cs)" "p \<noteq> NULL" "length cs = bucket_n v"
      using slot_some [OF sl k] by metis
    then show ?thesis using bvec_write_slots [OF assms k, of x] by simp
  qed
  then have "bvec_slots (bvec_write (elem_addr v i) x v)"
    using sl bvec_write_other [OF sl, of _ "elem_addr v i" x] by (auto simp: bvec_slots_def)
  moreover have "bvec_limits (bvec_write (elem_addr v i) x v)" using lim by (simp add: bvec_limits_def)
  moreover have "bvec_position (bvec_write (elem_addr v i) x v)" using pos by (auto simp: bvec_position_def)
  ultimately show ?thesis using assms(1) by (simp add: bvec_ok_def bvec_shape_def)
qed

lemma bvec_write_cell:
  assumes "bvec_ok owns w v" "i < allocated_count v * bucket_n v" "j < allocated_count v * bucket_n v"
  shows "cell (bvec_write (elem_addr v i) x v) j = (if j = i then Some x else cell v j)"
proof -
  have sl: "bvec_slots v" using assms(1) by (auto simp: bvec_ok_def bvec_shape_def)
  have k: "j div bucket_n v < allocated_count v" using assms(3) by (simp add: less_mult_imp_div_less)
  obtain p cs where s: "slots v ! (j div bucket_n v) = Some (p, cs)" "length cs = bucket_n v"
    using slot_some [OF sl k] by metis
  have "j = i \<longleftrightarrow> j div bucket_n v = i div bucket_n v \<and> j mod bucket_n v = i mod bucket_n v"
    by (metis div_mult_mod_eq)
  then show ?thesis
    using bvec_write_slots [OF assms(1,2) k] s by (auto simp: cell_def nth_list_update)
qed

lemma bvec_write_list:
  assumes "bvec_ok owns w v" "i < bv_size v"
  shows "bvec_list (bvec_write (elem_addr v i) x v) = (bvec_list v)[i := Some x]"
proof -
  have sh: "bvec_shape v" using assms(1) by (simp add: bvec_ok_def)
  have "j < allocated_count v * bucket_n v" if "j < bv_size v" for j
    using that bvec_size_bound(1) [OF sh] by simp
  then show ?thesis
    using bvec_write_cell [OF assms(1)] assms(2)
    by (intro nth_equalityI) (auto simp: bvec_list_def nth_list_update)
qed

lemma fold_single:
  assumes "k < length xs" "\<And>j acc. j < length xs \<Longrightarrow> j \<noteq> k \<Longrightarrow> f (xs ! j) acc = acc"
    and "\<And>acc. f (xs ! k) acc = c"
  shows "fold f xs acc0 = c"
proof -
  have skip: "fold f ys acc = acc" if "\<And>y acc. y \<in> set ys \<Longrightarrow> f y acc = acc" for ys acc
    using that by (induction ys arbitrary: acc) auto
  have split: "xs = take k xs @ xs ! k # drop (Suc k) xs" by (rule id_take_nth_drop [OF assms(1)])
  have "fold f (drop (Suc k) xs) acc = acc" for acc
    by (rule skip) (use assms(2) in \<open>auto simp: in_set_conv_nth\<close>)
  then show ?thesis by (subst split) (simp add: assms(3))
qed

lemma bvec_read_elem:
  assumes "bvec_ok owns w v" "i < allocated_count v * bucket_n v"
  shows "bvec_read (elem_addr v i) v = cell v i"
proof -
  have sl: "bvec_slots v" using assms(1) by (auto simp: bvec_ok_def bvec_shape_def)
  let ?k = "i div bucket_n v"
  have k: "?k < allocated_count v" using assms(2) by (simp add: less_mult_imp_div_less)
  obtain p cs where s: "slots v ! ?k = Some (p, cs)" "?k < length (slots v)"
    using slot_some [OF sl k] by metis
  show ?thesis
    unfolding bvec_read_def
  proof (rule fold_single [OF s(2)])
    fix j acc
    assume j: "j < length (slots v)" "j \<noteq> ?k"
    show "(case slots v ! j of None \<Rightarrow> acc | Some b \<Rightarrow>
        (case cell_of (element_size v) (elem_addr v i) b of None \<Rightarrow> acc | Some l \<Rightarrow> snd b ! l)) = acc"
    proof (cases "j < allocated_count v")
      case True
      then show ?thesis using cell_of_elem [OF assms True] j by (auto split: option.splits)
    next
      case False
      then show ?thesis using sl j by (auto simp: bvec_slots_def)
    qed
  next
    show "(case slots v ! ?k of None \<Rightarrow> acc | Some b \<Rightarrow>
        (case cell_of (element_size v) (elem_addr v i) b of None \<Rightarrow> acc | Some l \<Rightarrow> snd b ! l)) = cell v i" for acc
      using cell_of_elem [OF assms k s(1)] s(1) by (simp add: cell_def)
  qed
qed

text \<open>\<open>arnm_bvec_get\<close> and its kin name the address of the element.\<close>

lemma bvec_get_elem:
  assumes "bvec_shape v" "i < allocated_count v * bucket_n v"
  shows "arnm_bvec_get v i = elem_addr v i"
proof -
  have "i div bucket_n v < allocated_count v" using assms(2) by (simp add: less_mult_imp_div_less)
  then have "i div bucket_n v < 65536"
    using assms(1) by (simp add: bvec_shape_def bvec_slots_def ARNM_BVEC_MAX_INDEX_CAPACITY_def)
  then show ?thesis by (simp add: arnm_bvec_get_def elem_addr_def Let_def)
qed

lemma bvec_at_elem:
  assumes "bvec_shape v"
  shows "arnm_bvec_at v i = (if i < bv_size v then elem_addr v i else NULL)"
  using bvec_get_elem [OF assms] bvec_size_bound(1) [OF assms] by (simp add: arnm_bvec_at_def)

lemma bvec_front_elem: "bvec_shape v \<Longrightarrow> arnm_bvec_front v = (if bv_size v = 0 then NULL else elem_addr v 0)"
  by (simp add: arnm_bvec_front_def elem_addr_def)

lemma bvec_back_elem:
  assumes "bvec_shape v"
  shows "arnm_bvec_back v = (if bv_size v = 0 then NULL else elem_addr v (bv_size v - 1))"
proof (cases "bv_size v = 0")
  case False
  then have pos: "tail v = slot_ptr v (tail_index v)" "1 \<le> tail_used v" "tail_used v \<le> bucket_n v"
    "bv_size v = tail_index v * bucket_n v + tail_used v"
    using assms by (auto simp: bvec_shape_def bvec_position_def)
  have "bv_size v - 1 = tail_index v * bucket_n v + (tail_used v - 1)" "tail_used v - 1 < bucket_n v"
    using pos by auto
  then have "(bv_size v - 1) div bucket_n v = tail_index v" "(bv_size v - 1) mod bucket_n v = tail_used v - 1"
    by simp_all
  then show ?thesis using False pos tail_facts(1) [OF assms] by (simp add: arnm_bvec_back_def elem_addr_def)
qed (use tail_facts(1) [OF assms] in \<open>simp add: arnm_bvec_back_def\<close>)

section \<open>Growing\<close>

text \<open>\<open>v'\<close> holds the elements of \<open>v\<close>, at their places.\<close>

definition same_elements :: "'a bvec \<Rightarrow> 'a bvec \<Rightarrow> bool" where
  "same_elements v v' \<longleftrightarrow>
    element_size v' = element_size v \<and> bucket_capacity_max_log2 v' = bucket_capacity_max_log2 v \<and>
    index_grow_step_size v' = index_grow_step_size v \<and>
    tail v' = tail v \<and> tail_index v' = tail_index v \<and> tail_used v' = tail_used v \<and>
    bv_size v' = bv_size v \<and> allocated_count v \<le> allocated_count v' \<and>
    (\<forall>k<allocated_count v. slots v' ! k = slots v ! k \<and> slot_ptr v' k = slot_ptr v k)"

lemma same_elements_refl [simp]: "same_elements v v"
  by (simp add: same_elements_def)

lemma same_elements_trans: "same_elements u v \<Longrightarrow> same_elements v w \<Longrightarrow> same_elements u w"
  by (auto simp: same_elements_def)

lemma same_elements_cell:
  assumes "same_elements v v'" "i < allocated_count v * bucket_n v"
  shows "cell v' i = cell v i" "elem_addr v' i = elem_addr v i"
proof -
  have "i div bucket_n v < allocated_count v" using assms(2) by (simp add: less_mult_imp_div_less)
  then show "cell v' i = cell v i" "elem_addr v' i = elem_addr v i"
    using assms(1) by (simp_all add: same_elements_def cell_def elem_addr_def)
qed

lemma same_elements_list:
  assumes "same_elements v v'" "bvec_shape v"
  shows "bvec_list v' = bvec_list v"
proof -
  have "cell v' i = cell v i" if "i < bv_size v" for i
    using same_elements_cell(1) [OF assms(1)] bvec_size_bound(1) [OF assms(2)] that by simp
  then show ?thesis using assms(1) by (simp add: bvec_list_def same_elements_def)
qed

definition set_index :: "addr \<Rightarrow> nat \<Rightarrow> 'a bvec \<Rightarrow> 'a bvec" where
  "set_index ix n v = v\<lparr>buckets := ix, slots := resize_slots n (slots v), bucket_capacity := n\<rparr>"

definition add_bucket :: "addr \<Rightarrow> 'a bvec \<Rightarrow> 'a bvec" where
  "add_bucket p v = v\<lparr>slots := (slots v)[allocated_count v := Some (fresh_bucket v p)],
     allocated_count := allocated_count v + 1\<rparr>"

lemma set_index_larger:
  assumes "bvec_shape v" "bucket_capacity v < n" "n \<le> ARNM_BVEC_MAX_INDEX_CAPACITY" "ix \<noteq> NULL"
  shows "bvec_shape (set_index ix n v)" "same_elements v (set_index ix n v)"
    "bvec_blocks (set_index ix n v) = (ix, 8 * n) # bucket_blocks v"
proof -
  have sl: "bvec_slots v" and len: "length (slots v) = bucket_capacity v" "allocated_count v \<le> bucket_capacity v"
    using assms(1) by (auto simp: bvec_shape_def bvec_slots_def)
  have nth: "slots (set_index ix n v) ! k = (if k < bucket_capacity v then slots v ! k else None)" if "k < n" for k
    using that assms(2) len by (auto simp: set_index_def resize_slots_def nth_append)
  have len': "length (slots (set_index ix n v)) = n"
    using assms(2) len by (simp add: set_index_def resize_slots_def)
  have ptr: "slot_ptr (set_index ix n v) k = slot_ptr v k" if "k < allocated_count v" for k
    using that nth [of k] len len' assms(2) by (simp add: slot_ptr_def)
  have "bvec_slots (set_index ix n v)"
    unfolding bvec_slots_def
  proof (intro conjI allI impI)
    show "\<exists>p cs. slots (set_index ix n v) ! k = Some (p, cs) \<and> p \<noteq> NULL \<and> length cs = bucket_n (set_index ix n v)"
      if "k < allocated_count (set_index ix n v)" for k
      using that nth [of k] len assms(2) sl by (auto simp: set_index_def bvec_slots_def)
    show "slots (set_index ix n v) ! k = None"
      if "allocated_count (set_index ix n v) \<le> k \<and> k < bucket_capacity (set_index ix n v)" for k
      using that nth [of k] sl by (auto simp: set_index_def bvec_slots_def)
  qed (use assms len len' in \<open>auto simp: set_index_def\<close>)
  moreover have "bvec_position (set_index ix n v)"
    using assms(1) ptr by (auto simp: bvec_shape_def bvec_position_def set_index_def)
  ultimately show "bvec_shape (set_index ix n v)"
    using assms(1) by (simp add: bvec_shape_def) (simp add: bvec_limits_def set_index_def)
  show "same_elements v (set_index ix n v)"
    using nth ptr len assms(2) by (auto simp: same_elements_def) (simp_all add: set_index_def)
  show "bvec_blocks (set_index ix n v) = (ix, 8 * n) # bucket_blocks v"
    using assms(4) ptr by (simp add: bvec_blocks_def index_block_def bucket_blocks_def) (simp add: set_index_def)
qed

lemma add_bucket_shape:
  assumes "bvec_shape v" "allocated_count v < bucket_capacity v" "p \<noteq> NULL"
  shows "bvec_shape (add_bucket p v)" "same_elements v (add_bucket p v)"
    "bvec_blocks (add_bucket p v) = bvec_blocks v @ [(p, bucket_b v)]"
    "slot_ptr (add_bucket p v) (allocated_count v) = p"
proof -
  have lim: "bvec_limits v" and sl: "bvec_slots v" and len: "length (slots v) = bucket_capacity v"
    using assms(1) by (auto simp: bvec_shape_def bvec_slots_def)
  have nth: "slots (add_bucket p v) ! k = (if k = allocated_count v then Some (fresh_bucket v p) else slots v ! k)"
    if "k < bucket_capacity v" for k
    using that len by (simp add: add_bucket_def)
  have ptr: "slot_ptr (add_bucket p v) k = (if k = allocated_count v then p else slot_ptr v k)"
    if "k < bucket_capacity v" for k
    using that len by (auto simp: slot_ptr_def fresh_bucket_def add_bucket_def)
  have cells: "length (snd (fresh_bucket v p)) = bucket_n v"
    using bvec_limits_consts(1) [OF lim] by (simp add: fresh_bucket_def)
  have "bvec_slots (add_bucket p v)"
    unfolding bvec_slots_def
  proof (intro conjI allI impI)
    show "\<exists>q cs. slots (add_bucket p v) ! k = Some (q, cs) \<and> q \<noteq> NULL \<and> length cs = bucket_n (add_bucket p v)"
      if "k < allocated_count (add_bucket p v)" for k
    proof (cases "k = allocated_count v")
      case True
      then show ?thesis using nth [of k] assms(2,3) cells by (simp add: fresh_bucket_def) (simp add: add_bucket_def)
    next
      case False
      then have k: "k < allocated_count v" using that by (simp add: add_bucket_def)
      show ?thesis using nth [of k] False k assms(2) sl by (auto simp: add_bucket_def bvec_slots_def)
    qed
    show "slots (add_bucket p v) ! k = None"
      if "allocated_count (add_bucket p v) \<le> k \<and> k < bucket_capacity (add_bucket p v)" for k
      using that nth [of k] sl by (auto simp: add_bucket_def bvec_slots_def)
  qed (use assms sl in \<open>auto simp: add_bucket_def bvec_slots_def\<close>)
  moreover have "bvec_position (add_bucket p v)"
    using assms(1,2) ptr by (auto simp: bvec_shape_def bvec_position_def add_bucket_def)
  ultimately show "bvec_shape (add_bucket p v)"
    using assms(1) by (simp add: bvec_shape_def) (simp add: bvec_limits_def add_bucket_def)
  show "same_elements v (add_bucket p v)"
    using nth ptr assms(2) by (auto simp: same_elements_def) (simp_all add: add_bucket_def)
  show "slot_ptr (add_bucket p v) (allocated_count v) = p" using ptr assms(2) by simp
  have "map (\<lambda>k. (slot_ptr (add_bucket p v) k, bucket_b v)) [0..<allocated_count v] = bucket_blocks v"
    using ptr assms(2) by (simp add: bucket_blocks_def)
  moreover have "bucket_blocks (add_bucket p v) =
      map (\<lambda>k. (slot_ptr (add_bucket p v) k, bucket_b v)) [0..<allocated_count v] @ [(p, bucket_b v)]"
    using ptr assms(2) by (simp add: bucket_blocks_def) (simp add: add_bucket_def)
  ultimately show "bvec_blocks (add_bucket p v) = bvec_blocks v @ [(p, bucket_b v)]"
    by (simp add: bvec_blocks_def index_block_def) (simp add: add_bucket_def)
qed

context arnm_allocator begin

abbreviation bv_safe :: "'w \<Rightarrow> 'a bvec \<Rightarrow> 'w \<Rightarrow> 'a bvec \<Rightarrow> bool" where
  "bv_safe w v w' v' \<equiv> sound w' \<and> bvec_ok owns w' v' \<and>
    foreign_safe ops owns w (bvec_blocks v) w' (bvec_blocks v')"

lemma bv_safe_trans: "bv_safe w v w1 v1 \<Longrightarrow> bv_safe w1 v1 w2 v2 \<Longrightarrow> bv_safe w v w2 v2"
  by (blast intro: foreign_safe_trans)

lemma grow_index_step:
  assumes "sound w" "bvec_ok owns w v" "bucket_capacity v < n" "n \<le> ARNM_BVEC_MAX_INDEX_CAPACITY"
    and "op_realloc ops (buckets v) (index_bytes (bucket_capacity v)) (index_bytes n) w = (r, ix, w')"
  shows "if done_code r
    then bv_safe w v w' (set_index ix n v) \<and> same_elements v (set_index ix n v)
    else ix = buckets v \<and> bv_safe w v w' v"
proof -
  have sh: "bvec_shape v" and held: "held_ok owns w (bvec_blocks v)" using assms(2) by (auto simp: bvec_ok_def)
  have bytes: "index_bytes n = 8 * n" "index_bytes (bucket_capacity v) = 8 * bucket_capacity v"
    using assms(3,4) by (simp_all add: index_bytes_eq)
  have n: "0 < 8 * n" using assms(3) by simp
  have blocks: "bvec_blocks v = (if buckets v = NULL then bucket_blocks v
      else (buckets v, 8 * bucket_capacity v) # bucket_blocks v)"
    by (simp add: bvec_blocks_def index_block_def)
  have step: "safe_step w (bvec_blocks v) w' (if done_code r then (ix, 8 * n) # bucket_blocks v else bvec_blocks v) \<and>
      (\<not> done_code r \<longrightarrow> ix = buckets v)"
  proof (cases "buckets v = NULL")
    case True
    then have "bucket_capacity v = 0" using sh by (auto simp: bvec_shape_def bvec_slots_def)
    then show ?thesis
      using hold_realloc_null [OF assms(1) held n] assms(5) True blocks bytes by (auto split: if_splits)
  next
    case False
    then show ?thesis
      using hold_realloc [OF assms(1) _ n, of "buckets v" "8 * bucket_capacity v" "bucket_blocks v"] held
        assms(5) blocks bytes by (auto split: if_splits)
  qed
  show ?thesis
  proof (cases "done_code r")
    case True
    then have "ix \<noteq> NULL" using step owned [of w' ix "8 * n"] by auto
    then show ?thesis
      using step True set_index_larger [OF sh assms(3,4)] by (auto simp: bvec_ok_def)
  next
    case False
    then show ?thesis using step sh by (auto simp: bvec_ok_def)
  qed
qed

lemma new_bucket_step:
  assumes "sound w" "bvec_ok owns w v" "allocated_count v < bucket_capacity v"
    and "op_alloc ops (bucket_b v) w = (r, p, w')"
  shows "if r = ARNM_SUCCESS
    then bv_safe w v w' (add_bucket p v) \<and> same_elements v (add_bucket p v)
    else bv_safe w v w' v"
proof -
  have sh: "bvec_shape v" and held: "held_ok owns w (bvec_blocks v)" using assms(2) by (auto simp: bvec_ok_def)
  have b: "0 < bucket_b v" using bvec_limits_consts(5) [of v] sh by (simp add: bvec_shape_def)
  note step = hold_alloc [OF assms(1) held b assms(4)]
  show ?thesis
  proof (cases "r = ARNM_SUCCESS")
    case True
    then have "p \<noteq> NULL" using step owned [of w' p "bucket_b v"] by auto
    note add = add_bucket_shape [OF sh assms(3) this]
    have "foreign_safe ops owns w (bvec_blocks v) w' (bvec_blocks v @ [(p, bucket_b v)])"
      using step True by (auto intro: foreign_safe_set)
    moreover have "held_ok owns w' (bvec_blocks v @ [(p, bucket_b v)])"
      using step True held_ok_swap [of owns w' "bvec_blocks v" "[(p, bucket_b v)]"] by simp
    ultimately show ?thesis using step True add by (simp add: bvec_ok_def)
  next
    case False
    then show ?thesis using step sh by (auto simp: bvec_ok_def)
  qed
qed

end

lemma open_bucket_shape:
  assumes "bvec_shape v" "nxt < allocated_count v" "bv_size v = nxt * bucket_n v"
    and "open_bucket nxt v w = (r, slot, v', w')"
  shows "r = ARNM_SUCCESS" "w' = w" "bvec_shape v'" "bvec_blocks v' = bvec_blocks v"
    "bv_size v' = bv_size v + 1" "slot = Some (elem_addr v' (bv_size v))"
    "\<And>i. cell v' i = cell v i" "\<And>i. elem_addr v' i = elem_addr v i"
    "element_size v' = element_size v" "bucket_capacity_max_log2 v' = bucket_capacity_max_log2 v"
proof -
  have lim: "bvec_limits v" and sl: "bvec_slots v" using assms(1) by (auto simp: bvec_shape_def)
  have "bv_size v + 1 \<le> UINT32_MAX"
    using bvec_size_bound [OF assms(1)] by (simp add: UINT32_MAX_def)
  then have v': "v' = v\<lparr>tail := slot_ptr v nxt, tail_index := nxt, tail_used := 1, bv_size := bv_size v + 1\<rparr>"
    and rest: "r = ARNM_SUCCESS" "w' = w" "slot = Some (tail v')"
    using assms(4) by (auto simp: open_bucket_def Let_def)
  show "r = ARNM_SUCCESS" "w' = w" by (rule rest)+
  have ptr: "slot_ptr v' k = slot_ptr v k" for k by (simp add: v' slot_ptr_def)
  have "bvec_limits v'" "bvec_slots v'"
    using lim sl by (simp_all add: v' bvec_limits_def bvec_slots_def)
  moreover have "bvec_position v'"
    using assms(2,3) ptr [of nxt] by (simp add: bvec_position_def v')
  ultimately show "bvec_shape v'" by (simp add: bvec_shape_def)
  show "bvec_blocks v' = bvec_blocks v"
    by (simp add: bvec_blocks_def index_block_def bucket_blocks_def ptr) (simp add: v')
  show "bv_size v' = bv_size v + 1" by (simp add: v')
  show cell: "cell v' i = cell v i" for i by (simp add: cell_def v')
  show addr: "elem_addr v' i = elem_addr v i" for i
    unfolding elem_addr_def ptr by (simp add: v')
  show "slot = Some (elem_addr v' (bv_size v))"
    unfolding addr rest(3) by (simp add: elem_addr_def assms(3) v')
  show "element_size v' = element_size v" "bucket_capacity_max_log2 v' = bucket_capacity_max_log2 v"
    by (simp_all add: v')
qed

text \<open>\<open>v'\<close> is \<open>v\<close> with one element more, at \<open>slot\<close>; every other element is where it was.\<close>

definition appended :: "'a bvec \<Rightarrow> 'a bvec \<Rightarrow> addr \<Rightarrow> bool" where
  "appended v v' slot \<longleftrightarrow>
    bv_size v' = bv_size v + 1 \<and> slot = elem_addr v' (bv_size v) \<and>
    (\<forall>i<bv_size v. cell v' i = cell v i \<and> elem_addr v' i = elem_addr v i)"

lemma appended_list:
  "appended v v' slot \<Longrightarrow> butlast (bvec_list v') = bvec_list v"
  by (rule nth_equalityI) (auto simp: appended_def bvec_list_def nth_butlast)

context arnm_allocator begin

lemma open_bucket_spec:
  assumes "bv_safe w0 v0 w v" "same_elements v0 v" "bvec_shape v0" "nxt < allocated_count v"
    and "bv_size v0 = nxt * bucket_n v0" "open_bucket nxt v w = (r, slot, v', w')"
  shows "r = ARNM_SUCCESS \<and> bv_safe w0 v0 w' v' \<and> (\<exists>a. slot = Some a \<and> appended v0 v' a)"
proof -
  have same: "bv_size v = bv_size v0" "bucket_n v = bucket_n v0" using assms(2) by (simp_all add: same_elements_def)
  have sh: "bvec_shape v" using assms(1) by (simp add: bvec_ok_def)
  note opened = open_bucket_shape [OF sh assms(4) _ assms(6)]
  have "cell v' i = cell v0 i \<and> elem_addr v' i = elem_addr v0 i" if "i < bv_size v0" for i
    using same_elements_cell [OF assms(2), of i] bvec_size_bound(1) [OF assms(3)] that opened(7,8) assms(5) same
    by simp
  then show ?thesis
    using opened assms(1,5) same by (auto simp: appended_def bvec_ok_def)
qed

lemma grow_bucket_spec:
  assumes "bv_safe w0 v0 w v" "same_elements v0 v" "bvec_shape v0"
    and "allocated_count v0 = allocated_count v" "allocated_count v < bucket_capacity v"
    and "bv_size v0 = allocated_count v * bucket_n v0"
    and "grow_bucket ops (allocated_count v) (allocated_count v) v w = (r, slot, v', w')"
  shows "bv_safe w0 v0 w' v' \<and>
    (if r = ARNM_SUCCESS then \<exists>a. slot = Some a \<and> appended v0 v' a else slot = None \<and> same_elements v0 v')"
proof -
  have sh: "bvec_shape v" using assms(1) by (simp add: bvec_ok_def)
  have lim: "bvec_limits v" and cap: "bucket_capacity v \<le> 8191"
    using sh by (auto simp: bvec_shape_def bvec_slots_def ARNM_BVEC_MAX_INDEX_CAPACITY_def)
  obtain r1 p w1 where al: "op_alloc ops (bucket_b v) w = (r1, p, w1)" by (metis prod_cases3)
  have ok: "bvec_ok owns w v" "sound w" using assms(1) by auto
  note step = new_bucket_step [OF ok(2,1) assms(5) al]
  have add: "v\<lparr>slots := (slots v)[allocated_count v := Some (fresh_bucket v p)],
      allocated_count := u16 (allocated_count v + 1)\<rparr> = add_bucket p v"
    using assms(5) cap by (simp add: add_bucket_def)
  show ?thesis
  proof (cases "r1 = ARNM_SUCCESS")
    case True
    then have opn: "open_bucket (allocated_count v) (add_bucket p v) w1 = (r, slot, v', w')"
      using assms(7) al bvec_limits_consts(2) [OF lim] add by (simp add: grow_bucket_def)
    have safe: "bv_safe w0 v0 w1 (add_bucket p v)"
      using step True assms(1) foreign_safe_trans [of ops owns w0 "bvec_blocks v0" w "bvec_blocks v"] by simp
    have same: "same_elements v0 (add_bucket p v)"
      using step True same_elements_trans [OF assms(2)] by simp
    have "allocated_count v < allocated_count (add_bucket p v)" by (simp add: add_bucket_def)
    from open_bucket_spec [OF safe same assms(3) this _ opn] assms(6) show ?thesis by auto
  next
    case False
    then have "r = r1" "slot = None" "v' = v" "w' = w1"
      using assms(7) al bvec_limits_consts(2) [OF lim] by (auto simp: grow_bucket_def)
    then show ?thesis
      using step False assms(1,2) foreign_safe_trans [of ops owns w0 "bvec_blocks v0" w "bvec_blocks v"] by simp
  qed
qed

lemma grow_spec:
  assumes "sound w" "bvec_ok owns w v" "bv_size v = arnm_bvec_bucket_count v * bucket_n v"
    and "arnm_bvec_grow ops v w = (r, slot, v', w')"
  shows "bv_safe w v w' v' \<and>
    (if r = ARNM_SUCCESS then \<exists>a. slot = Some a \<and> appended v v' a else slot = None \<and> same_elements v v')"
proof -
  have sh: "bvec_shape v" and sl: "bvec_slots v" using assms(2) by (auto simp: bvec_ok_def bvec_shape_def)
  let ?n = "arnm_bvec_bucket_count v" and ?c = "bucket_capacity v + index_grow_step_size v"
  have le: "?n \<le> allocated_count v" by (rule tail_facts(3) [OF sh])
  note grow = assms(4) [unfolded arnm_bvec_grow_def Let_def bucket_count_shape [OF sl]]
  have self: "bv_safe w v w v" using assms(1,2) by simp
  consider (reuse) "?n < allocated_count v"
    | (bucket) "?n = allocated_count v" "allocated_count v \<noteq> bucket_capacity v"
    | (full) "?n = allocated_count v" "allocated_count v = bucket_capacity v" "ARNM_BVEC_MAX_INDEX_CAPACITY < ?c"
    | (index) "?n = allocated_count v" "allocated_count v = bucket_capacity v" "?c \<le> ARNM_BVEC_MAX_INDEX_CAPACITY"
    using le by linarith
  then show ?thesis
  proof cases
    case reuse
    then have "open_bucket ?n v w = (r, slot, v', w')" using grow state_valid [OF sh] by simp
    from open_bucket_spec [OF self same_elements_refl sh reuse assms(3) this] show ?thesis by auto
  next
    case bucket
    then have "grow_bucket ops (allocated_count v) (allocated_count v) v w = (r, slot, v', w')"
      using grow state_valid [OF sh] by simp
    moreover have "allocated_count v < bucket_capacity v" using bucket sl by (auto simp: bvec_slots_def)
    ultimately show ?thesis
      using grow_bucket_spec [OF self same_elements_refl sh refl] assms(3) bucket by simp
  next
    case full
    then have "r = ARNM_ERROR_ARITHMETIC_OVERFLOW" "slot = None" "v' = v" "w' = w"
      using grow state_valid [OF sh] by auto
    then show ?thesis using assms(1,2) by simp
  next
    case index
    obtain r1 ix w1 where re: "op_realloc ops (buckets v) (index_bytes (bucket_capacity v)) (index_bytes ?c) w = (r1, ix, w1)"
      by (metis prod_cases3)
    have more: "bucket_capacity v < ?c" using sh by (simp add: bvec_shape_def bvec_limits_def)
    note step = grow_index_step [OF assms(1,2) more index(3) re]
    show ?thesis
    proof (cases "done_code r1")
      case True
      let ?v = "set_index ix ?c v"
      have fields: "allocated_count ?v = allocated_count v" "bucket_capacity ?v = ?c"
        by (simp_all add: set_index_def)
      have gb: "grow_bucket ops (allocated_count ?v) (allocated_count ?v) ?v w1 = (r, slot, v', w')"
        using True grow state_valid [OF sh] index re unfolding fields by (auto simp: set_index_def)
      have safe: "bv_safe w v w1 ?v" "same_elements v ?v" using step True by auto
      show ?thesis
        by (rule grow_bucket_spec [OF safe sh _ _ _ gb]) (use assms(3) index more in \<open>simp_all add: fields\<close>)
    next
      case False
      then have "r = r1" "slot = None" "v' = v" "w' = w1"
        using grow state_valid [OF sh] index re step by auto
      then show ?thesis using step False by auto
    qed
  qed
qed

lemma emplace_spec:
  assumes "sound w" "bvec_ok owns w v" "arnm_bvec_emplace ops v w = (r, slot, v', w')"
  shows "bv_safe w v w' v' \<and>
    (if r = ARNM_SUCCESS then \<exists>a. slot = Some a \<and> appended v v' a else slot = None \<and> same_elements v v')"
proof -
  have sh: "bvec_shape v" using assms(2) by (simp add: bvec_ok_def)
  have lim: "bvec_limits v" and sl: "bvec_slots v" and pos: "bvec_position v"
    using sh by (auto simp: bvec_shape_def)
  show ?thesis
  proof (cases "tail v \<noteq> NULL \<and> tail_used v < bucket_n v")
    case True
    then have size: "tail_index v < allocated_count v" "tail v = slot_ptr v (tail_index v)" "1 \<le> tail_used v"
      "bv_size v = tail_index v * bucket_n v + tail_used v"
      using pos tail_facts(1) [OF sh] by (auto simp: bvec_position_def)
    have "bv_size v + 1 \<le> UINT32_MAX" "tail_used v + 1 < 65536"
      using bvec_size_bound [OF sh] bvec_limits_consts(4) [OF lim] True by (auto simp: UINT32_MAX_def)
    then have res: "r = ARNM_SUCCESS" "slot = Some (tail v + tail_used v * element_size v)" "w' = w"
      "v' = v\<lparr>tail_used := tail_used v + 1, bv_size := bv_size v + 1\<rparr>"
      using assms(3) True bvec_limits_consts(1) [OF lim] by (auto simp: arnm_bvec_emplace_def)
    have ptr: "slot_ptr v' k = slot_ptr v k" for k by (simp add: res slot_ptr_def)
    have "bvec_limits v'" "bvec_slots v'" using lim sl by (simp_all add: res bvec_limits_def bvec_slots_def)
    moreover have "bvec_position v'"
      using size True ptr [of "tail_index v"] by (simp add: bvec_position_def res)
    moreover have blocks: "bvec_blocks v' = bvec_blocks v"
      by (simp add: bvec_blocks_def index_block_def bucket_blocks_def ptr) (simp add: res)
    moreover have "cell v' i = cell v i" "elem_addr v' i = elem_addr v i" for i
      unfolding cell_def elem_addr_def ptr by (simp_all add: res)
    moreover have "elem_addr v (bv_size v) = tail v + tail_used v * element_size v"
      using size True by (simp add: elem_addr_def)
    ultimately show ?thesis
      using assms(1,2) by (auto simp: appended_def bvec_ok_def bvec_shape_def res)
  next
    case False
    then have "bv_size v = arnm_bvec_bucket_count v * bucket_n v"
      using pos tail_facts(1,2) [OF sh] by (auto simp: bvec_position_def split: if_splits)
    moreover have "arnm_bvec_grow ops v w = (r, slot, v', w')"
      using assms(3) False bvec_limits_consts(1) [OF lim] by (auto simp: arnm_bvec_emplace_def)
    ultimately show ?thesis using grow_spec [OF assms(1,2)] by blast
  qed
qed

lemma push_spec:
  assumes "sound w" "bvec_ok owns w v" "arnm_bvec_push_ptr ops (Some x) v w = (r, v', w')"
  shows "bv_safe w v w' v' \<and>
    (if r = ARNM_SUCCESS then bvec_list v' = bvec_list v @ [Some x] else bvec_list v' = bvec_list v) \<and>
    (\<forall>i<bv_size v. elem_addr v' i = elem_addr v i)"
proof -
  have sh: "bvec_shape v" using assms(2) by (simp add: bvec_ok_def)
  obtain r1 slot v1 w1 where em: "arnm_bvec_emplace ops v w = (r1, slot, v1, w1)" by (metis prod_cases4)
  note step = emplace_spec [OF assms(1,2) em]
  show ?thesis
  proof (cases "r1 = ARNM_SUCCESS")
    case True
    then have ap: "appended v v1 (the slot)" using step by auto
    have res: "r = ARNM_SUCCESS" "v' = bvec_write (the slot) x v1" "w' = w1"
      using assms(3) em True by (auto simp: arnm_bvec_push_ptr_def)
    have size: "bv_size v < bv_size v1" and slot: "the slot = elem_addr v1 (bv_size v)"
      using ap by (auto simp: appended_def)
    have ok: "bvec_ok owns w1 v1" using step by blast
    then have cap: "bv_size v < allocated_count v1 * bucket_n v1"
      using bvec_size_bound(1) [of v1] size by (simp add: bvec_ok_def)
    have "bvec_list v' = (bvec_list v1)[bv_size v := Some x]"
      using bvec_write_list [OF ok size] by (simp add: res slot)
    moreover have "bvec_list v1 = bvec_list v @ [last (bvec_list v1)]"
      using appended_list [OF ap] size by (metis append_butlast_last_id length_bvec_list length_0_conv not_less_zero)
    then have "(bvec_list v1)[bv_size v := Some x] = bvec_list v @ [Some x]"
      by (metis length_bvec_list list_update_length)
    ultimately have "bvec_list v' = bvec_list v @ [Some x]" by simp
    moreover have "bv_safe w v w' v'" using step bvec_write_ok [OF ok cap, of x] by (simp add: res slot)
    moreover have "\<forall>i<bv_size v. elem_addr v' i = elem_addr v i" using ap by (simp add: res appended_def)
    ultimately show ?thesis using res(1) by simp
  next
    case False
    then have res: "r = r1" "v' = v1" "w' = w1" using assms(3) em by (auto simp: arnm_bvec_push_ptr_def)
    have "elem_addr v1 i = elem_addr v i" if "i < bv_size v" for i
      using same_elements_cell(2) [of v v1 i] step False bvec_size_bound(1) [OF sh] that by auto
    then show ?thesis using step False same_elements_list [of v v1] sh by (simp add: res)
  qed
qed

end

section \<open>Taking away\<close>

text \<open>Slots \<open>j\<close> up to \<open>i\<close> emptied, and a vector that keeps only its first \<open>j\<close> buckets.\<close>

definition blank :: "nat \<Rightarrow> nat \<Rightarrow> 'a bucket option list \<Rightarrow> 'a bucket option list" where
  "blank j i s = map (\<lambda>k. if j \<le> k \<and> k < i then None else s ! k) [0..<length s]"

definition keep_buckets :: "nat \<Rightarrow> 'a bvec \<Rightarrow> 'a bvec" where
  "keep_buckets j v = v\<lparr>slots := blank j (allocated_count v) (slots v), allocated_count := j\<rparr>"

abbreviation blocks_between :: "'a bvec \<Rightarrow> nat \<Rightarrow> nat \<Rightarrow> (addr \<times> nat) list" where
  "blocks_between v i j \<equiv> map (\<lambda>k. (slot_ptr v k, bucket_b v)) [i..<j]"

lemma blank_nth [simp]:
  "k < length s \<Longrightarrow> blank j i s ! k = (if j \<le> k \<and> k < i then None else s ! k)" "length (blank j i s) = length s"
  by (simp_all add: blank_def)

lemma blank_empty [simp]: "i \<le> j \<Longrightarrow> blank j i s = s"
  by (rule nth_equalityI) auto

lemma keep_buckets_shape:
  assumes "bvec_shape v" "arnm_bvec_bucket_count v \<le> j" "j \<le> allocated_count v"
  shows "bvec_shape (keep_buckets j v)" "bvec_blocks (keep_buckets j v) = index_block v @ blocks_between v 0 j"
    "bv_size (keep_buckets j v) = bv_size v" "bvec_list (keep_buckets j v) = bvec_list v"
    "\<And>i. i < bv_size v \<Longrightarrow> elem_addr (keep_buckets j v) i = elem_addr v i"
    "allocated_count (keep_buckets j v) = j" "bucket_capacity (keep_buckets j v) = bucket_capacity v"
proof -
  have lim: "bvec_limits v" and sl: "bvec_slots v" and pos: "bvec_position v"
    using assms(1) by (auto simp: bvec_shape_def)
  have len: "length (slots v) = bucket_capacity v" "allocated_count v \<le> bucket_capacity v"
    using sl by (auto simp: bvec_slots_def)
  have nth: "slots (keep_buckets j v) ! k = slots v ! k" "slot_ptr (keep_buckets j v) k = slot_ptr v k" if "k < j" for k
    using that assms(3) len by (auto simp: keep_buckets_def slot_ptr_def)
  have "bvec_slots (keep_buckets j v)"
    unfolding bvec_slots_def
  proof (intro conjI allI impI)
    show "\<exists>p cs. slots (keep_buckets j v) ! k = Some (p, cs) \<and> p \<noteq> NULL \<and> length cs = bucket_n (keep_buckets j v)"
      if "k < allocated_count (keep_buckets j v)" for k
      using that nth [of k] sl assms(3) by (auto simp: bvec_slots_def keep_buckets_def)
    show "slots (keep_buckets j v) ! k = None"
      if "allocated_count (keep_buckets j v) \<le> k \<and> k < bucket_capacity (keep_buckets j v)" for k
      using that sl len by (auto simp: keep_buckets_def bvec_slots_def)
  qed (use sl assms(3) in \<open>auto simp: keep_buckets_def bvec_slots_def\<close>)
  moreover have count: "bv_size v \<noteq> 0 \<Longrightarrow> tail_index v < j"
    using tail_facts(2) [OF assms(1)] assms(2) by auto
  then have "bvec_position (keep_buckets j v)"
    using pos nth(2) [of "tail_index v"] by (auto simp: bvec_position_def keep_buckets_def)
  ultimately show "bvec_shape (keep_buckets j v)"
    using lim by (simp add: bvec_shape_def) (simp add: bvec_limits_def keep_buckets_def)
  show "bvec_blocks (keep_buckets j v) = index_block v @ blocks_between v 0 j"
    using nth(2) by (simp add: bvec_blocks_def index_block_def bucket_blocks_def) (simp add: keep_buckets_def)
  show "bv_size (keep_buckets j v) = bv_size v" "allocated_count (keep_buckets j v) = j"
    "bucket_capacity (keep_buckets j v) = bucket_capacity v" by (simp_all add: keep_buckets_def)
  have in_front: "i div bucket_n v < j" if "i < bv_size v" for i
  proof -
    have "bv_size v \<le> (tail_index v + 1) * bucket_n v" "tail_index v + 1 \<le> j"
      using pos count that by (auto simp: bvec_position_def)
    then have "i < j * bucket_n v" using that by (meson less_le_trans mult_le_mono1)
    then show ?thesis by (simp add: less_mult_imp_div_less)
  qed
  have n: "bucket_n (keep_buckets j v) = bucket_n v" "element_size (keep_buckets j v) = element_size v"
    by (simp_all add: keep_buckets_def)
  show "elem_addr (keep_buckets j v) i = elem_addr v i" if "i < bv_size v" for i
    using nth(2) [OF in_front [OF that]] n by (simp add: elem_addr_def)
  show "bvec_list (keep_buckets j v) = bvec_list v"
  proof -
    have "cell (keep_buckets j v) i = cell v i" if "i < bv_size v" for i
      using nth(1) [OF in_front [OF that]] by (simp add: cell_def n)
    then show ?thesis by (simp add: bvec_list_def \<open>bv_size (keep_buckets j v) = bv_size v\<close>)
  qed
qed

lemma slot_ptr_update:
  "i < length (slots v) \<Longrightarrow> k \<noteq> i \<Longrightarrow> slot_ptr (v\<lparr>slots := (slots v)[i := s]\<rparr>) k = slot_ptr v k"
  by (simp add: slot_ptr_def)

lemma blank_Suc: "i < length s \<Longrightarrow> j \<le> i \<Longrightarrow> blank j i (s[i := None]) = blank j (Suc i) s"
  by (rule nth_equalityI) (auto simp: nth_list_update)

lemma blank_first: "k < length s \<Longrightarrow> blank (Suc k) i (s[k := None]) = blank k (max i (Suc k)) s"
  by (rule nth_equalityI) (auto simp: nth_list_update)

context arnm_allocator begin

lemma shrink_newest_spec:
  assumes "sound w" "held_ok owns w (rest @ blocks_between v 0 i)" "i \<le> length (slots v)" "used \<le> i"
    and "\<forall>k<i. slot_ptr v k \<noteq> NULL" "shrink_newest ops (bucket_b v) used i v w = (j, v', w')"
  shows "used \<le> j \<and> j \<le> i \<and> v' = v\<lparr>slots := blank j i (slots v)\<rparr> \<and>
    safe_step w (rest @ blocks_between v 0 i) w' (rest @ blocks_between v 0 j)"
  using assms
proof (induction i arbitrary: v w)
  case 0
  then show ?case by simp
next
  case (Suc i)
  show ?case
  proof (cases "Suc i \<le> used")
    case True
    with Suc.prems show ?thesis by auto
  next
    case False
    let ?b = "(slot_ptr v i, bucket_b v)" and ?front = "rest @ blocks_between v 0 i"
    obtain r w1 where fr: "op_free ops (slot_ptr v i) (bucket_b v) w = (r, w1)" by fastforce
    have split: "rest @ blocks_between v 0 (Suc i) = ?front @ [?b]" by simp
    have held: "held_ok owns w (?b # ?front)"
      using Suc.prems(2) held_ok_swap [of owns w ?front "[?b]"] unfolding split by simp
    note step = hold_free [OF Suc.prems(1) held fr]
    have same: "set (rest @ blocks_between v 0 (Suc i)) = set (?b # ?front)" by simp
    show ?thesis
    proof (cases "r = ARNM_SUCCESS")
      case True
      let ?v = "v\<lparr>slots := (slots v)[i := None]\<rparr>"
      have ptr: "slot_ptr ?v k = slot_ptr v k" if "k < i" for k
        using that Suc.prems(3) by (simp add: slot_ptr_update)
      then have btw: "blocks_between ?v 0 k = blocks_between v 0 k" if "k \<le> i" for k
        using that by simp
      have rec: "shrink_newest ops (bucket_b ?v) used i ?v w1 = (j, v', w')"
        using Suc.prems(5) [rule_format, of i] Suc.prems(6) False True fr by simp
      have held1: "held_ok owns w1 (rest @ blocks_between ?v 0 i)" using step unfolding btw [OF order_refl] by blast
      have ptr1: "\<forall>k<i. slot_ptr ?v k \<noteq> NULL" using Suc.prems(5) ptr by simp
      have "used \<le> j \<and> j \<le> i \<and> v' = ?v\<lparr>slots := blank j i (slots ?v)\<rparr> \<and>
          safe_step w1 (rest @ blocks_between ?v 0 i) w' (rest @ blocks_between ?v 0 j)"
        by (rule Suc.IH [OF _ held1 _ _ ptr1 rec]) (use step Suc.prems(3) False in simp_all)
      then have ih: "used \<le> j" "j \<le> i" "v' = ?v\<lparr>slots := blank j i (slots ?v)\<rparr>"
        and ihs: "safe_step w1 (rest @ blocks_between ?v 0 i) w' (rest @ blocks_between ?v 0 j)"
        by blast+
      have ih4: "safe_step w1 (rest @ blocks_between v 0 i) w' (rest @ blocks_between v 0 j)"
        using ihs unfolding btw [OF order_refl] btw [OF ih(2)] .
      have fs: "foreign_safe ops owns w (rest @ blocks_between v 0 (Suc i)) w1 ?front"
        by (rule foreign_safe_set [OF _ same refl]) (use step in \<open>elim conjE\<close>)
      have "safe_step w (rest @ blocks_between v 0 (Suc i)) w' (rest @ blocks_between v 0 j)"
        using ih4 by (elim conjE) (intro conjI foreign_safe_trans [OF fs])
      moreover have "v' = v\<lparr>slots := blank j (Suc i) (slots v)\<rparr>"
        using ih(2,3) Suc.prems(3) by (simp add: blank_Suc)
      ultimately show ?thesis using ih(1,2) by simp
    next
      case False
      then have res: "j = Suc i" "v' = v" "w' = w1" using Suc.prems(5,6) \<open>\<not> Suc i \<le> used\<close> fr by auto
      have "held_ok owns w1 (?front @ [?b])"
        using step False held_ok_swap [of owns w1 ?front "[?b]"] by simp
      moreover have "foreign_safe ops owns w (rest @ blocks_between v 0 (Suc i)) w1 (rest @ blocks_between v 0 (Suc i))"
        by (rule foreign_safe_set [OF _ same same]) (use step False in blast)
      ultimately show ?thesis using step Suc.prems(4) split by (simp add: res)
    qed
  qed
qed

lemma shrink_oldest_spec:
  assumes "sound w" "held_ok owns w (rest @ blocks_between v k (k + left))" "k + left \<le> length (slots v)"
    and "\<forall>i. k \<le> i \<and> i < k + left \<longrightarrow> slot_ptr v i \<noteq> NULL"
    and "shrink_oldest ops (bucket_b v) k left v w = (v', w')"
  shows "v' = v\<lparr>slots := blank k (k + left) (slots v)\<rparr> \<and>
    safe_step w (rest @ blocks_between v k (k + left)) w' rest"
  using assms
proof (induction left arbitrary: k v w)
  case 0
  then show ?case by simp
next
  case (Suc left)
  let ?b = "(slot_ptr v k, bucket_b v)" and ?after = "rest @ blocks_between v (Suc k) (k + Suc left)"
  obtain r w1 where fr: "op_free ops (slot_ptr v k) (bucket_b v) w = (r, w1)" by fastforce
  have split: "blocks_between v k (k + Suc left) = ?b # blocks_between v (Suc k) (k + Suc left)"
    by (simp add: upt_rec del: upt_Suc)
  have same: "set (rest @ blocks_between v k (k + Suc left)) = set (?b # ?after)" unfolding split by auto
  have held: "held_ok owns w (?b # ?after)"
    using Suc.prems(2) unfolding split by (auto simp: held_ok_append apart_from_def apart_commute)
  note step = hold_free [OF Suc.prems(1) held fr]
  let ?v = "v\<lparr>slots := (slots v)[k := None]\<rparr>"
  have ptr: "slot_ptr ?v i = slot_ptr v i" if "k < i" for i
    using that Suc.prems(3) by (simp add: slot_ptr_update)
  then have btw: "blocks_between ?v (Suc k) (Suc k + left) = blocks_between v (Suc k) (k + Suc left)"
    by (auto simp del: upt_Suc)
  have rec: "shrink_oldest ops (bucket_b ?v) (Suc k) left ?v w1 = (v', w')"
    using Suc.prems(4,5) fr by auto
  have held1: "held_ok owns w1 (rest @ blocks_between ?v (Suc k) (Suc k + left))" using step unfolding btw by blast
  have ptr1: "\<forall>i. Suc k \<le> i \<and> i < Suc k + left \<longrightarrow> slot_ptr ?v i \<noteq> NULL" using Suc.prems(4) ptr by simp
  have "v' = ?v\<lparr>slots := blank (Suc k) (Suc k + left) (slots ?v)\<rparr> \<and>
      safe_step w1 (rest @ blocks_between ?v (Suc k) (Suc k + left)) w' rest"
    by (rule Suc.IH [OF _ held1 _ ptr1 rec]) (use step Suc.prems(3) in simp_all)
  moreover have "foreign_safe ops owns w (rest @ blocks_between v k (k + Suc left)) w1 ?after"
    by (rule foreign_safe_set [OF _ same refl]) (use step in \<open>elim conjE\<close>)
  moreover have "blank (Suc k) (Suc k + left) ((slots v)[k := None]) = blank k (k + Suc left) (slots v)"
    using Suc.prems(3) by (simp add: blank_first)
  ultimately show ?case unfolding btw using foreign_safe_trans by auto
qed

end

lemma shrink_index_shape:
  assumes "bvec_shape v" "0 < n" "allocated_count v \<le> n" "n \<le> bucket_capacity v" "ix \<noteq> NULL"
  shows "bvec_shape (set_index ix n v)" "bvec_blocks (set_index ix n v) = (ix, 8 * n) # bucket_blocks v"
    "same_elements v (set_index ix n v)"
proof -
  have sl: "bvec_slots v" and len: "length (slots v) = bucket_capacity v" "allocated_count v \<le> bucket_capacity v"
    using assms(1) by (auto simp: bvec_shape_def bvec_slots_def)
  have nth: "slots (set_index ix n v) ! k = slots v ! k" if "k < n" for k
    using that assms(4) len by (simp add: set_index_def resize_slots_def)
  have len': "length (slots (set_index ix n v)) = n"
    using assms(4) len by (simp add: set_index_def resize_slots_def)
  have ptr: "slot_ptr (set_index ix n v) k = slot_ptr v k" if "k < allocated_count v" for k
    using that nth [of k] len len' assms(3) by (simp add: slot_ptr_def)
  have "bvec_slots (set_index ix n v)"
    unfolding bvec_slots_def
  proof (intro conjI allI impI)
    show "\<exists>p cs. slots (set_index ix n v) ! k = Some (p, cs) \<and> p \<noteq> NULL \<and> length cs = bucket_n (set_index ix n v)"
      if "k < allocated_count (set_index ix n v)" for k
      using that nth [of k] assms(3) sl by (auto simp: set_index_def bvec_slots_def)
    show "slots (set_index ix n v) ! k = None"
      if "allocated_count (set_index ix n v) \<le> k \<and> k < bucket_capacity (set_index ix n v)" for k
      using that nth [of k] sl assms(4) by (auto simp: set_index_def bvec_slots_def)
  qed (use assms sl len' in \<open>auto simp: set_index_def bvec_slots_def\<close>)
  moreover have "bvec_position (set_index ix n v)"
    using assms(1) ptr by (auto simp: bvec_shape_def bvec_position_def set_index_def)
  ultimately show "bvec_shape (set_index ix n v)"
    using assms(1) by (simp add: bvec_shape_def) (simp add: bvec_limits_def set_index_def)
  show "bvec_blocks (set_index ix n v) = (ix, 8 * n) # bucket_blocks v"
    using assms(5) ptr by (simp add: bvec_blocks_def index_block_def bucket_blocks_def) (simp add: set_index_def)
  show "same_elements v (set_index ix n v)"
    using nth ptr assms(3) by (auto simp: same_elements_def) (simp_all add: set_index_def)
qed

context arnm_allocator begin

lemma shrink_buckets:
  assumes "sound w" "bvec_ok owns w v"
    and "(if releases_newest_first ops w
          then shrink_newest ops (bucket_b v) (arnm_bvec_bucket_count v) (allocated_count v) v w
          else case shrink_oldest ops (bucket_b v) (arnm_bvec_bucket_count v)
              (allocated_count v - arnm_bvec_bucket_count v) v w of
            (u, w) \<Rightarrow> (arnm_bvec_bucket_count v, u, w)) = (j, v1, w1)"
  shows "arnm_bvec_bucket_count v \<le> j \<and> j \<le> allocated_count v \<and>
    v1\<lparr>allocated_count := j\<rparr> = keep_buckets j v \<and> bv_safe w v w1 (keep_buckets j v)"
proof -
  have sh: "bvec_shape v" and held: "held_ok owns w (bvec_blocks v)" using assms(2) by (auto simp: bvec_ok_def)
  have sl: "bvec_slots v" using sh by (simp add: bvec_shape_def)
  let ?n = "arnm_bvec_bucket_count v" and ?a = "allocated_count v" and ?rest = "index_block v"
  have n: "?n \<le> ?a" by (rule tail_facts(3) [OF sh])
  have a: "?a \<le> length (slots v)" using sl by (simp add: bvec_slots_def)
  have ptr: "\<forall>k<?a. slot_ptr v k \<noteq> NULL" using slot_some [OF sl] by metis
  have blocks: "bvec_blocks v = ?rest @ blocks_between v 0 ?a" by (simp add: bvec_blocks_def bucket_blocks_def)
  have step: "?n \<le> j \<and> j \<le> ?a \<and> v1 = v\<lparr>slots := blank j ?a (slots v)\<rparr> \<and>
      safe_step w (bvec_blocks v) w1 (?rest @ blocks_between v 0 j)"
  proof (cases "releases_newest_first ops w")
    case True
    then show ?thesis
      using shrink_newest_spec [OF assms(1) held [unfolded blocks] a n ptr] assms(3) by (simp add: blocks)
  next
    case False
    obtain v2 w2 where so: "shrink_oldest ops (bucket_b v) ?n (?a - ?n) v w = (v2, w2)" by fastforce
    have split: "?rest @ blocks_between v 0 ?a = (?rest @ blocks_between v 0 ?n) @ blocks_between v ?n (?n + (?a - ?n))"
    proof -
      have "[0..<?a] = [0..<?n] @ [?n..<?a]" using upt_add_eq_append [of 0 ?n "?a - ?n"] n by simp
      then show ?thesis using n by simp
    qed
    have "v2 = v\<lparr>slots := blank ?n (?n + (?a - ?n)) (slots v)\<rparr> \<and>
        safe_step w ((?rest @ blocks_between v 0 ?n) @ blocks_between v ?n (?n + (?a - ?n))) w2
          (?rest @ blocks_between v 0 ?n)"
      by (rule shrink_oldest_spec [OF assms(1) _ _ _ so])
        (use held ptr a n split in \<open>simp_all add: blocks\<close>)
    then have spec: "v2 = v\<lparr>slots := blank ?n ?a (slots v)\<rparr>"
      "safe_step w (bvec_blocks v) w2 (?rest @ blocks_between v 0 ?n)"
      using n by (simp_all add: split blocks)
    moreover have "j = ?n" "v1 = v2" "w1 = w2" using assms(3) False so by auto
    ultimately show ?thesis using n by simp
  qed
  moreover from step have "v1\<lparr>allocated_count := j\<rparr> = keep_buckets j v" by (simp add: keep_buckets_def)
  ultimately show ?thesis
    using keep_buckets_shape(1,2) [OF sh, of j] by (simp add: bvec_ok_def)
qed

text \<open>The end of \<open>arnm_bvec_shrink\<close>: the index goes with the last bucket, or is cut to what is left.\<close>

lemma shrink_index:
  assumes "sound w" "bvec_ok owns w v" "buckets v \<noteq> NULL" "bv_size v = 0 \<or> 0 < allocated_count v"
    and "(if allocated_count v = 0 then
            case op_free ops (buckets v) (index_bytes (bucket_capacity v)) w of
              (result, w) \<Rightarrow>
                (ARNM_SUCCESS,
                 if result = ARNM_SUCCESS then v\<lparr>buckets := NULL, slots := [], bucket_capacity := 0\<rparr> else v, w)
          else if allocated_count v = bucket_capacity v then (ARNM_SUCCESS, v, w)
          else case op_realloc ops (buckets v) (index_bytes (bucket_capacity v)) (index_bytes (allocated_count v)) w of
            (result, index, w) \<Rightarrow>
              let u = v\<lparr>buckets := index\<rparr>
              in if result = ARNM_SUCCESS then
                   (ARNM_SUCCESS, u\<lparr>bucket_capacity := allocated_count v,
                      slots := resize_slots (allocated_count v) (slots u)\<rparr>, w)
                 else if result \<noteq> ARNM_WARNING_ARENA_MEMORY_NOT_RECLAIMED then (result, u, w)
                 else (ARNM_SUCCESS, u, w)) = (r, v', w')"
  shows "bv_safe w v w' v' \<and> same_elements v v'"
proof -
  have sh: "bvec_shape v" and held: "held_ok owns w (bvec_blocks v)" using assms(2) by (auto simp: bvec_ok_def)
  have sl: "bvec_slots v" using sh by (simp add: bvec_shape_def)
  let ?a = "allocated_count v" and ?c = "bucket_capacity v"
  have c: "?a \<le> ?c" "?c \<le> ARNM_BVEC_MAX_INDEX_CAPACITY" "0 < ?c"
    using sl assms(3) by (auto simp: bvec_slots_def)
  then have bytes: "index_bytes ?c = 8 * ?c" "index_bytes ?a = 8 * ?a" by (simp_all add: index_bytes_eq)
  have blocks: "bvec_blocks v = (buckets v, 8 * ?c) # bucket_blocks v"
    using assms(3) by (simp add: bvec_blocks_def index_block_def)
  note held = held [unfolded blocks]
  show ?thesis
  proof (cases "?a = 0")
    case True
    obtain r1 w1 where fr: "op_free ops (buckets v) (8 * ?c) w = (r1, w1)" by fastforce
    note step = hold_free [OF assms(1) held fr]
    show ?thesis
    proof (cases "r1 = ARNM_SUCCESS")
      case True
      have res: "v' = v\<lparr>buckets := NULL, slots := [], bucket_capacity := 0\<rparr>" "w' = w1"
        using assms(5) \<open>?a = 0\<close> True fr by (auto simp: bytes)
      have "bv_size v = 0" using assms(4) \<open>?a = 0\<close> by simp
      then have "bvec_shape v'"
        using sh \<open>?a = 0\<close> by (simp add: bvec_shape_def bvec_limits_def bvec_slots_def bvec_position_def res)
      moreover have "bvec_blocks v' = []" "bucket_blocks v = []"
        using \<open>?a = 0\<close> by (simp_all add: bvec_blocks_def index_block_def bucket_blocks_def res)
      moreover have "same_elements v v'" using \<open>?a = 0\<close> by (simp add: same_elements_def res)
      ultimately show ?thesis using step by (auto simp: bvec_ok_def blocks res)
    next
      case False
      have res: "v' = v" "w' = w1" using assms(5) \<open>?a = 0\<close> False fr by (auto simp: bytes)
      show ?thesis using step False sh by (auto simp: bvec_ok_def blocks res)
    qed
  next
    case False
    show ?thesis
    proof (cases "?a = ?c")
      case True
      then show ?thesis using assms False by auto
    next
      case less: False
      obtain r1 ix w1 where re: "op_realloc ops (buckets v) (8 * ?c) (8 * ?a) w = (r1, ix, w1)" by (metis prod_cases3)
      have pos: "0 < 8 * ?a" using False by simp
      show ?thesis
      proof (cases "r1 = ARNM_SUCCESS")
        case True
        have res: "v' = set_index ix ?a v" "w' = w1"
          using assms(5) False less True re by (auto simp: bytes set_index_def)
        note step = hold_realloc [OF assms(1) held pos re]
        then have "ix \<noteq> NULL" using True owned [of w1 ix "8 * ?a"] by auto
        from shrink_index_shape [OF sh _ order_refl c(1) this] False step True show ?thesis
          by (auto simp: bvec_ok_def blocks res)
      next
        case False
        note step = hold_realloc_buried [OF assms(1) held pos re False]
        have "v' = v" "w' = w1"
          using assms(5) \<open>?a \<noteq> 0\<close> less False re step c(1) by (auto simp: bytes Let_def split: if_splits)
        then show ?thesis using step c(1) sh by (auto simp: bvec_ok_def blocks)
      qed
    qed
  qed
qed

lemma shrink_spec:
  assumes "sound w" "bvec_ok owns w v" "arnm_bvec_shrink ops v w = (r, v', w')"
  shows "bv_safe w v w' v' \<and> bvec_list v' = bvec_list v \<and> (\<forall>i<bv_size v. elem_addr v' i = elem_addr v i)"
proof (cases "buckets v = NULL")
  case True
  with assms show ?thesis by (auto simp: arnm_bvec_shrink_def)
next
  case False
  have sh: "bvec_shape v" using assms(2) by (simp add: bvec_ok_def)
  have lim: "bvec_limits v" and sl: "bvec_slots v" using sh by (auto simp: bvec_shape_def)
  obtain j v1 w1 where first: "(if releases_newest_first ops w
          then shrink_newest ops (bucket_b v) (arnm_bvec_bucket_count v) (allocated_count v) v w
          else case shrink_oldest ops (bucket_b v) (arnm_bvec_bucket_count v)
              (allocated_count v - arnm_bvec_bucket_count v) v w of
            (u, w) \<Rightarrow> (arnm_bvec_bucket_count v, u, w)) = (j, v1, w1)"
    by (metis prod_cases3)
  let ?k = "keep_buckets j v"
  note step1 = shrink_buckets [OF assms(1,2) first]
  have j: "arnm_bvec_bucket_count v \<le> j" "j \<le> allocated_count v" and safe1: "bv_safe w v w1 ?k"
    and k: "v1\<lparr>allocated_count := j\<rparr> = ?k" using step1 by auto
  note keep = keep_buckets_shape [OF sh j]
  have size: "bv_size ?k = 0 \<or> 0 < allocated_count ?k"
    using j(1) tail_facts(2) [OF sh] keep(3,6) by (cases "bv_size v = 0") auto
  have nonnull: "buckets ?k \<noteq> NULL" using False by (simp add: keep_buckets_def)
  have "bv_safe w1 ?k w' v' \<and> same_elements ?k v'"
  proof (rule shrink_index [OF _ _ nonnull size])
    show "sound w1" "bvec_ok owns w1 ?k" using safe1 by auto
    have fields: "allocated_count ?k = j" by (rule keep(6))
    note run = assms(3) [unfolded arnm_bvec_shrink_def Let_def bvec_limits_consts(2) [OF lim]
        bucket_count_shape [OF sl] first]
    show "(if allocated_count ?k = 0 then
            case op_free ops (buckets ?k) (index_bytes (bucket_capacity ?k)) w1 of
              (result, w) \<Rightarrow>
                (ARNM_SUCCESS,
                 if result = ARNM_SUCCESS then ?k\<lparr>buckets := NULL, slots := [], bucket_capacity := 0\<rparr> else ?k, w)
          else if allocated_count ?k = bucket_capacity ?k then (ARNM_SUCCESS, ?k, w1)
          else case op_realloc ops (buckets ?k) (index_bytes (bucket_capacity ?k)) (index_bytes (allocated_count ?k)) w1 of
            (result, index, w) \<Rightarrow>
              let u = ?k\<lparr>buckets := index\<rparr>
              in if result = ARNM_SUCCESS then
                   (ARNM_SUCCESS, u\<lparr>bucket_capacity := allocated_count ?k,
                      slots := resize_slots (allocated_count ?k) (slots u)\<rparr>, w)
                 else if result \<noteq> ARNM_WARNING_ARENA_MEMORY_NOT_RECLAIMED then (result, u, w)
                 else (ARNM_SUCCESS, u, w)) = (r, v', w')"
      using run False state_valid [OF sh] unfolding fields Let_def by (simp only: k prod.case if_False simp_thms)
  qed
  then have second: "bv_safe w1 ?k w' v'" "same_elements ?k v'" by auto
  have "bv_safe w v w' v'" by (rule bv_safe_trans [OF safe1 second(1)])
  moreover have "bvec_list v' = bvec_list v"
    using same_elements_list [OF second(2) keep(1)] keep(4) by simp
  moreover have "elem_addr v' i = elem_addr v i" if "i < bv_size v" for i
    using same_elements_cell(2) [OF second(2)] keep(3,5) that bvec_size_bound(1) [OF keep(1)]
    by (metis (no_types, lifting) less_le_trans)
  ultimately show ?thesis by blast
qed

end

lemma all_apart_rev: "all_apart (rev bs) = all_apart bs"
proof -
  have "(\<lambda>x y. (case y of (p, n) \<Rightarrow> \<lambda>(q, k). apart p n q k) x) =
      (\<lambda>(p, n) (q, k). apart p n q k)"
    by (auto simp: fun_eq_iff apart_commute)
  then show ?thesis by (simp add: all_apart_def sorted_wrt_rev)
qed

context arnm_allocator begin

lemma free_buckets_spec:
  assumes "sound w" "held_ok owns w (map (\<lambda>p. (p, n)) ps @ rest)" "NULL \<notin> set ps"
  shows "safe_step w (map (\<lambda>p. (p, n)) ps @ rest) (free_buckets ops n ps w) rest"
  using assms
proof (induction ps arbitrary: w)
  case (Cons p ps)
  obtain r w1 where fr: "op_free ops p n w = (r, w1)" by fastforce
  have held: "held_ok owns w ((p, n) # (map (\<lambda>p. (p, n)) ps @ rest))" using Cons.prems(2) by simp
  note step = hold_free [OF Cons.prems(1) held fr]
  have "safe_step w1 (map (\<lambda>p. (p, n)) ps @ rest) (free_buckets ops n ps w1) rest"
    by (rule Cons.IH) (use step Cons.prems(3) in auto)
  moreover have "free_buckets ops n (p # ps) w = free_buckets ops n ps w1"
    using fr Cons.prems(3) by auto
  moreover have "safe_step w ((p, n) # (map (\<lambda>p. (p, n)) ps @ rest)) w1 (map (\<lambda>p. (p, n)) ps @ rest)"
    using step by blast
  ultimately show ?case using safe_step_trans by simp
qed simp

lemma free_spec:
  assumes "sound w" "bvec_ok owns w v" "arnm_bvec_free ops v w = (v', w')"
  shows "safe_step w (bvec_blocks v) w' [] \<and> bvec_ok owns w' v' \<and> bvec_blocks v' = [] \<and> bvec_list v' = [] \<and>
    element_size v' = element_size v \<and> bucket_capacity_max_log2 v' = bucket_capacity_max_log2 v"
proof -
  have sh: "bvec_shape v" and held: "held_ok owns w (bvec_blocks v)" using assms(2) by (auto simp: bvec_ok_def)
  have lim: "bvec_limits v" and sl: "bvec_slots v" and pos: "bvec_position v" using sh by (auto simp: bvec_shape_def)
  show ?thesis
  proof (cases "buckets v = NULL")
    case True
    then have none: "bucket_capacity v = 0" "allocated_count v = 0" using sl by (auto simp: bvec_slots_def)
    then have "bvec_blocks v = []" "bv_size v = 0"
      using True pos by (auto simp: bvec_blocks_def index_block_def bucket_blocks_def bvec_position_def split: if_splits)
    then show ?thesis using assms True by (auto simp: arnm_bvec_free_def bvec_list_def)
  next
    case False
    let ?n = "bucket_b v" and ?a = "allocated_count v" and ?ix = "(buckets v, 8 * bucket_capacity v)"
    let ?order = "if releases_newest_first ops w then rev [0..<?a] else [0..<?a]"
    let ?ps = "map (slot_ptr v) ?order" and ?w1 = "free_buckets ops ?n (map (slot_ptr v) (if releases_newest_first ops w then rev [0..<?a] else [0..<?a])) w"
    have bytes: "index_bytes (bucket_capacity v) = 8 * bucket_capacity v"
      using sl by (simp add: bvec_slots_def index_bytes_eq)
    have blocks: "bvec_blocks v = ?ix # bucket_blocks v" using False by (simp add: bvec_blocks_def index_block_def)
    have map_ps: "map (\<lambda>p. (p, ?n)) ?ps = (if releases_newest_first ops w then rev (bucket_blocks v) else bucket_blocks v)"
      by (simp add: bucket_blocks_def rev_map)
    have "held_ok owns w (bucket_blocks v)" "apart_from (bucket_blocks v) (fst ?ix) (snd ?ix)" "owns w (fst ?ix) (snd ?ix)"
      using held unfolding blocks by auto
    then have held1: "held_ok owns w (map (\<lambda>p. (p, ?n)) ?ps @ [?ix])"
      unfolding map_ps by (auto simp: held_ok_def all_apart_append all_apart_rev apart_from_def)
    have "NULL \<notin> set ?ps" using slot_some [OF sl] by (auto; metis)
    note step1 = free_buckets_spec [OF assms(1) held1 this]
    obtain r w2 where fr: "op_free ops (buckets v) (8 * bucket_capacity v) ?w1 = (r, w2)" by fastforce
    note step2 = hold_free [OF _ _ fr, of "[]"]
    have set_eq: "set (bvec_blocks v) = set (map (\<lambda>p. (p, ?n)) ?ps @ [?ix])"
      unfolding map_ps blocks by auto
    have safe: "safe_step w (map (\<lambda>p. (p, ?n)) ?ps @ [?ix]) w2 []"
    proof (rule safe_step_trans [OF step1])
      show "safe_step ?w1 [?ix] w2 []" using step1 step2 by blast
    qed
    have "foreign_safe ops owns w (bvec_blocks v) w2 []"
      by (rule foreign_safe_set [OF _ set_eq refl]) (use safe in \<open>elim conjE\<close>)
    moreover have res: "w' = w2" "v' = bvec_descriptor (bucket_capacity_max_log2 v) (index_grow_step_size v) (element_size v)"
    proof -
      have "element_size v \<le> UINT32_MAX div bucket_n v"
        using lim by (simp add: bvec_limits_def less_eq_div_iff_mult_less_eq)
      then show "w' = w2" "v' = bvec_descriptor (bucket_capacity_max_log2 v) (index_grow_step_size v) (element_size v)"
        using assms(3) False lim bvec_limits_consts(2) [OF lim] sl bytes fr
        by (auto simp: arnm_bvec_free_def arnm_bvec_init_def bvec_limits_def Let_def)
    qed
    moreover have "bvec_shape v'"
      using lim by (simp add: res bvec_shape_def bvec_limits_def bvec_slots_def bvec_position_def
          bvec_descriptor_def bucket_elements_def ARNM_BVEC_DEFAULT_INDEX_GROW_STEP_SIZE_def UINT16_MAX_def)
    moreover have "bvec_blocks v' = []" "bvec_list v' = []" "element_size v' = element_size v"
      "bucket_capacity_max_log2 v' = bucket_capacity_max_log2 v"
      using lim by (simp_all add: res bvec_blocks_def index_block_def bucket_blocks_def bvec_descriptor_def bvec_list_def
          bvec_limits_def UINT16_MAX_def)
    ultimately show ?thesis using safe by (simp add: bvec_ok_def)
  qed
qed

lemma reserve_buckets_spec:
  assumes "sound w" "bvec_ok owns w v" "allocated_count v + left \<le> bucket_capacity v"
    and "reserve_buckets ops (bucket_b v) (allocated_count v) left v w = (r, v', w')"
  shows "bv_safe w v w' v' \<and> same_elements v v' \<and>
    (r = ARNM_SUCCESS \<longrightarrow> allocated_count v' = allocated_count v + left)"
  using assms
proof (induction left arbitrary: v w)
  case 0
  then show ?case by auto
next
  case (Suc left)
  have cap: "bucket_capacity v \<le> 8191"
    using Suc.prems(2) by (auto simp: bvec_ok_def bvec_shape_def bvec_slots_def ARNM_BVEC_MAX_INDEX_CAPACITY_def)
  obtain r1 p w1 where al: "op_alloc ops (bucket_b v) w = (r1, p, w1)" by (metis prod_cases3)
  have room: "allocated_count v < bucket_capacity v" using Suc.prems(3) by simp
  note step = new_bucket_step [OF Suc.prems(1,2) room al]
  show ?case
  proof (cases "r1 = ARNM_SUCCESS")
    case True
    let ?v = "add_bucket p v"
    have fields: "allocated_count ?v = allocated_count v + 1" "bucket_capacity ?v = bucket_capacity v"
      "bucket_b ?v = bucket_b v" by (simp_all add: add_bucket_def)
    have safe1: "bv_safe w v w1 ?v" "same_elements v ?v" using step True by auto
    have rec: "reserve_buckets ops (bucket_b ?v) (allocated_count ?v) left ?v w1 = (r, v', w')"
      using Suc.prems(4) al True cap room by (simp add: add_bucket_def)
    have "bv_safe w1 ?v w' v' \<and> same_elements ?v v' \<and>
        (r = ARNM_SUCCESS \<longrightarrow> allocated_count v' = allocated_count ?v + left)"
      by (rule Suc.IH [OF _ _ _ rec]) (use safe1 Suc.prems(3) fields in auto)
    then have ih: "bv_safe w1 ?v w' v'" "same_elements ?v v'"
      "r = ARNM_SUCCESS \<Longrightarrow> allocated_count v' = allocated_count ?v + left" by auto
    show ?thesis
      using bv_safe_trans [OF safe1(1) ih(1)] same_elements_trans [OF safe1(2) ih(2)] ih(3) fields(1) by auto
  next
    case False
    then have "r = r1" "v' = v" "w' = w1" using Suc.prems(4) al by auto
    then show ?thesis using step False by auto
  qed
qed

lemma reserve_spec:
  assumes "sound w" "bvec_ok owns w v" "arnm_bvec_reserve ops n v w = (r, v', w')"
  shows "bv_safe w v w' v' \<and> same_elements v v' \<and>
    (r = ARNM_SUCCESS \<longrightarrow> n \<le> allocated_count v' * bucket_n v')"
proof -
  have sh: "bvec_shape v" using assms(2) by (simp add: bvec_ok_def)
  have lim: "bvec_limits v" and sl: "bvec_slots v" using sh by (auto simp: bvec_shape_def)
  let ?need = "(n + (bucket_n v - 1)) div bucket_n v" and ?a = "allocated_count v"
  have enough: "n \<le> ?need * bucket_n v"
  proof -
    have "n + (bucket_n v - 1) = ?need * bucket_n v + (n + (bucket_n v - 1)) mod bucket_n v"
      by (simp only: div_mult_mod_eq)
    moreover have "(n + (bucket_n v - 1)) mod bucket_n v \<le> bucket_n v - 1"
      using mod_less_divisor [OF bucket_n_pos [of v], of "n + (bucket_n v - 1)"] by linarith
    ultimately show ?thesis by linarith
  qed
  note run = assms(3) [unfolded arnm_bvec_reserve_def Let_def bvec_limits_consts(2,3) [OF lim] bucket_count_shape [OF sl]]
  show ?thesis
  proof (cases "n = 0 \<or> n > (UINT32_MAX - (bucket_n v - 1)) div element_size v \<or>
      ?need > ARNM_BVEC_MAX_INDEX_CAPACITY \<or> ?need \<le> ?a")
    case True
    then have "v' = v" "w' = w" "r = ARNM_SUCCESS \<Longrightarrow> ?need \<le> ?a"
      using run state_valid [OF sh] by (auto split: if_splits)
    moreover have "?need \<le> ?a \<Longrightarrow> n \<le> ?a * bucket_n v"
      using enough by (meson le_trans mult_le_mono1)
    ultimately show ?thesis using assms(1,2) by auto
  next
    case False
    show ?thesis
    proof (cases "?need > bucket_capacity v")
      case True
      obtain r1 ix w1 where re: "op_realloc ops (buckets v) (index_bytes (bucket_capacity v)) (index_bytes ?need) w = (r1, ix, w1)"
        by (metis prod_cases3)
      note step = grow_index_step [OF assms(1,2) True _ re]
      show ?thesis
      proof (cases "done_code r1")
        case ok: True
        let ?v = "set_index ix ?need v"
        have safe1: "bv_safe w v w1 ?v" "same_elements v ?v" using step ok False by auto
        have fields: "allocated_count ?v = ?a" "bucket_capacity ?v = ?need" "bucket_b ?v = bucket_b v" "bucket_n ?v = bucket_n v"
          by (simp_all add: set_index_def)
        have rec: "reserve_buckets ops (bucket_b ?v) (allocated_count ?v) (?need - ?a) ?v w1 = (r, v', w')"
          using run state_valid [OF sh] False True re ok unfolding fields by (auto simp: set_index_def)
        have "bv_safe w1 ?v w' v' \<and> same_elements ?v v' \<and>
            (r = ARNM_SUCCESS \<longrightarrow> allocated_count v' = allocated_count ?v + (?need - ?a))"
          by (rule reserve_buckets_spec [OF _ _ _ rec]) (use safe1 fields False in auto)
        then have ih: "bv_safe w1 ?v w' v'" "same_elements ?v v'"
          "r = ARNM_SUCCESS \<Longrightarrow> allocated_count v' = ?need" using fields False by auto
        have "bucket_n v' = bucket_n v" using ih(2) fields by (simp add: same_elements_def)
        then show ?thesis
          using bv_safe_trans [OF safe1(1) ih(1)] same_elements_trans [OF safe1(2) ih(2)] ih(3) enough by auto
      next
        case bad: False
        then have "r = r1" "v' = v" "w' = w1"
          using run state_valid [OF sh] False True re step by auto
        then show ?thesis using step bad False by auto
      qed
    next
      case fits: False
      have rec: "reserve_buckets ops (bucket_b v) ?a (?need - ?a) v w = (r, v', w')"
        using run state_valid [OF sh] False fits by auto
      have "bv_safe w v w' v' \<and> same_elements v v' \<and>
          (r = ARNM_SUCCESS \<longrightarrow> allocated_count v' = ?a + (?need - ?a))"
        by (rule reserve_buckets_spec [OF assms(1,2) _ rec]) (use False fits in auto)
      moreover from this have "bucket_n v' = bucket_n v" by (simp add: same_elements_def)
      ultimately show ?thesis using enough False by auto
    qed
  qed
qed

end

lemma init_spec:
  assumes "arnm_bvec_init log2 step elem v = (r, v')" "step < 256"
  shows "if r = ARNM_SUCCESS
    then bvec_shape v' \<and> bvec_blocks v' = [] \<and> bvec_list v' = [] \<and> element_size v' = elem \<and>
      bucket_capacity_max_log2 v' = log2
    else r = ARNM_ERROR_INVALID_PARAM \<and> v' = v"
proof (cases "elem = 0 \<or> log2 = 0 \<or> log2 > 15 \<or> elem > UINT32_MAX div 2 ^ log2 \<or> elem > UINT16_MAX")
  case True
  then show ?thesis using assms by (auto simp: arnm_bvec_init_def)
next
  case False
  then have "elem \<le> UINT32_MAX div 2 ^ log2" by (simp only: de_Morgan_disj not_less not_le)
  then have le: "elem * 2 ^ log2 \<le> UINT32_MAX" by (subst (asm) less_eq_div_iff_mult_less_eq) simp_all
  have "r = ARNM_SUCCESS" "v' = bvec_descriptor log2 step elem"
    using assms False by (auto simp: arnm_bvec_init_def)
  then show ?thesis
    using False le assms(2)
    by (simp add: bvec_shape_def bvec_limits_def bvec_slots_def bvec_position_def bvec_descriptor_def
        bucket_elements_def ARNM_BVEC_DEFAULT_INDEX_GROW_STEP_SIZE_def UINT16_MAX_def bvec_blocks_def
        index_block_def bucket_blocks_def bvec_list_def)
qed

lemma clear_spec:
  assumes "bvec_shape v"
  shows "bvec_shape (arnm_bvec_clear v)" "bvec_blocks (arnm_bvec_clear v) = bvec_blocks v"
    "bvec_list (arnm_bvec_clear v) = []"
proof -
  have lim: "bvec_limits v" and sl: "bvec_slots v" using assms by (auto simp: bvec_shape_def)
  have ptr: "slot_ptr (arnm_bvec_clear v) k = slot_ptr v k" for k by (simp add: arnm_bvec_clear_def slot_ptr_def)
  show "bvec_shape (arnm_bvec_clear v)"
    using lim sl bvec_limits_consts(1) [OF lim]
    by (simp add: bvec_shape_def bvec_limits_def bvec_slots_def bvec_position_def arnm_bvec_clear_def)
  show "bvec_blocks (arnm_bvec_clear v) = bvec_blocks v"
    by (simp add: bvec_blocks_def index_block_def bucket_blocks_def ptr) (simp add: arnm_bvec_clear_def)
  show "bvec_list (arnm_bvec_clear v) = []" by (simp add: bvec_list_def arnm_bvec_clear_def)
qed

lemma pop_spec:
  assumes "bvec_shape v" "arnm_bvec_pop v = (r, v')"
  shows "if bv_size v = 0 then r = ARNM_ERROR_ARRAY_INDEX_OUT_OF_BOUNDS \<and> v' = v
    else r = ARNM_SUCCESS \<and> bvec_shape v' \<and> bvec_blocks v' = bvec_blocks v \<and>
      bvec_list v' = butlast (bvec_list v) \<and> (\<forall>i. elem_addr v' i = elem_addr v i)"
proof (cases "bv_size v = 0")
  case True
  then show ?thesis using assms by (simp add: arnm_bvec_pop_def)
next
  case False
  have lim: "bvec_limits v" and sl: "bvec_slots v" and pos: "bvec_position v" using assms(1) by (auto simp: bvec_shape_def)
  have p: "tail_index v < allocated_count v" "tail v = slot_ptr v (tail_index v)" "1 \<le> tail_used v"
    "tail_used v \<le> bucket_n v" "bv_size v = tail_index v * bucket_n v + tail_used v"
    using pos False by (auto simp: bvec_position_def)
  have small: "tail_used v \<le> 32768" "tail_index v < 8191"
    using p(1,4) bvec_limits_consts(4) [OF lim] sl by (auto simp: bvec_slots_def ARNM_BVEC_MAX_INDEX_CAPACITY_def)
  have dec: "u16 (n + 65535) = n - 1" if "1 \<le> n" "n \<le> 32768" for n :: nat
  proof -
    have e: "n + 65535 = (n - 1) + 65536" using that by simp
    have "n - 1 < 65536" using that by simp
    then show ?thesis unfolding u16_def e by simp
  qed
  have v': "r = ARNM_SUCCESS"
    "\<exists>t ti tu. v' = v\<lparr>bv_size := bv_size v - 1, tail_used := tu, tail := t, tail_index := ti\<rparr> \<and>
      (if tail_used v \<noteq> 1 then tu = tail_used v - 1 \<and> t = tail v \<and> ti = tail_index v
       else tu = bucket_n v \<and>
         (if bv_size v = 1 then t = NULL \<and> ti = 0 else ti = tail_index v - 1 \<and> t = slot_ptr v ti))"
  proof -
    have ti: "bv_size v \<noteq> 1 \<Longrightarrow> tail_used v = 1 \<Longrightarrow> 1 \<le> tail_index v" using p by (cases "tail_index v") auto
    have sp: "slot_ptr (v\<lparr>bv_size := a, tail_used := b, tail_index := c\<rparr>) k = slot_ptr v k" for a b c k
      by (simp add: slot_ptr_def)
    show "r = ARNM_SUCCESS" using assms(2) False by (auto simp: arnm_bvec_pop_def Let_def split: if_splits)
    show "\<exists>t ti tu. v' = v\<lparr>bv_size := bv_size v - 1, tail_used := tu, tail := t, tail_index := ti\<rparr> \<and>
      (if tail_used v \<noteq> 1 then tu = tail_used v - 1 \<and> t = tail v \<and> ti = tail_index v
       else tu = bucket_n v \<and>
         (if bv_size v = 1 then t = NULL \<and> ti = 0 else ti = tail_index v - 1 \<and> t = slot_ptr v ti))"
    proof (cases "tail_used v = 1")
      case True
      show ?thesis
      proof (cases "bv_size v = 1")
        case one: True
        have "v' = v\<lparr>bv_size := 0, tail_used := bucket_n v, tail := NULL, tail_index := 0\<rparr>"
          using assms(2) True one bvec_limits_consts(1) [OF lim] dec [of 1]
          by (auto simp: arnm_bvec_pop_def Let_def)
        with True one show ?thesis by (auto intro!: exI [of _ "bucket_n v"] exI [of _ NULL] exI [of _ "0::nat"])
      next
        case more: False
        have "v' = v\<lparr>bv_size := bv_size v - 1, tail_used := bucket_n v,
            tail := slot_ptr v (tail_index v - 1), tail_index := tail_index v - 1\<rparr>"
          using assms(2) True False more bvec_limits_consts(1) [OF lim] dec [of 1] dec [of "tail_index v"] ti small
          by (auto simp: arnm_bvec_pop_def Let_def sp)
        with True more show ?thesis by auto
      qed
    next
      case False
      have "v' = v\<lparr>bv_size := bv_size v - 1, tail_used := tail_used v - 1\<rparr>"
        using assms(2) False \<open>bv_size v \<noteq> 0\<close> dec [OF p(3) small(1)] p(3)
        by (auto simp: arnm_bvec_pop_def Let_def)
      with False show ?thesis by (auto intro!: exI [of _ "tail v"] exI [of _ "tail_index v"])
    qed
  qed
  obtain t ti tu where f: "v' = v\<lparr>bv_size := bv_size v - 1, tail_used := tu, tail := t, tail_index := ti\<rparr>"
    and c: "if tail_used v \<noteq> 1 then tu = tail_used v - 1 \<and> t = tail v \<and> ti = tail_index v
       else tu = bucket_n v \<and>
         (if bv_size v = 1 then t = NULL \<and> ti = 0 else ti = tail_index v - 1 \<and> t = slot_ptr v ti)"
    using v'(2) by blast
  have ptr: "slot_ptr v' k = slot_ptr v k" for k by (simp add: f slot_ptr_def)
  have "bvec_limits v'" "bvec_slots v'" using lim sl by (simp_all add: f bvec_limits_def bvec_slots_def)
  moreover have "bvec_position v'"
  proof (cases "tail_used v = 1")
    case False
    then show ?thesis using c p ptr [of "tail_index v"] by (auto simp: bvec_position_def f)
  next
    case True
    show ?thesis
    proof (cases "bv_size v = 1")
      case one: True
      then show ?thesis using True c by (simp add: bvec_position_def f)
    next
      case more: False
      then obtain k where k: "tail_index v = Suc k" using p(5) True by (cases "tail_index v") auto
      then show ?thesis
        using True more c p ptr [of k] by (simp add: bvec_position_def f)
    qed
  qed
  moreover have "bvec_blocks v' = bvec_blocks v"
    by (simp add: bvec_blocks_def index_block_def bucket_blocks_def ptr) (simp add: f)
  moreover have "cell v' i = cell v i" "elem_addr v' i = elem_addr v i" for i
    unfolding cell_def elem_addr_def ptr by (simp_all add: f)
  moreover from this have "bvec_list v' = butlast (bvec_list v)"
    by (simp add: bvec_list_def butlast_conv_take take_map) (simp add: f)
  ultimately show ?thesis using False v'(1) by (simp add: bvec_shape_def)
qed

text \<open>Copying bucket by bucket lays the elements out in order.\<close>

lemma copy_buckets_spec:
  assumes "bvec_shape v" "b + left = arnm_bvec_bucket_count v" "bv_size v \<le> length dst"
    and "take (min (b * bucket_n v) (bv_size v)) dst = take (b * bucket_n v) (bvec_list v)"
  shows "copy_buckets v b (min (b * bucket_n v) (bv_size v)) left dst = bvec_list v @ drop (bv_size v) dst"
  using assms
proof (induction left arbitrary: b dst)
  case 0
  have "bv_size v \<le> b * bucket_n v"
    using 0(1,2) tail_facts(2) [OF 0(1)] by (auto simp: bvec_shape_def bvec_position_def split: if_splits)
  then have "take (bv_size v) dst = bvec_list v" using 0(4) by (simp add: min_def split: if_splits)
  then show ?case by (metis append_take_drop_id copy_buckets.simps(1))
next
  case (Suc left)
  have sl: "bvec_slots v" and pos: "bvec_position v" using Suc.prems(1) by (auto simp: bvec_shape_def)
  have ne: "bv_size v \<noteq> 0" and b: "b \<le> tail_index v"
    using Suc.prems(1,2) tail_facts(2) [OF Suc.prems(1)] by (auto split: if_splits)
  have p: "tail_index v < allocated_count v" "1 \<le> tail_used v" "tail_used v \<le> bucket_n v"
    "bv_size v = tail_index v * bucket_n v + tail_used v"
    using pos ne by (auto simp: bvec_position_def)
  let ?n = "bucket_n v" and ?c = "arnm_bvec_bucket_size v b"
  have start: "b * ?n \<le> tail_index v * ?n" "b * ?n \<le> bv_size v" using b p(4) by (simp_all add: trans_le_add1)
  have next_start: "b * ?n + ?c = min (Suc b * ?n) (bv_size v)" and c: "?c \<le> ?n"
  proof -
    show "?c \<le> ?n" using p(3) by (simp add: arnm_bvec_bucket_size_def)
    show "b * ?n + ?c = min (Suc b * ?n) (bv_size v)"
    proof (cases "b = tail_index v")
      case True
      then show ?thesis using p by (simp add: arnm_bvec_bucket_size_def)
    next
      case False
      then have "Suc b * ?n \<le> tail_index v * ?n" using b by (intro mult_le_mono1) simp
      then show ?thesis using False p by (simp add: arnm_bvec_bucket_size_def)
    qed
  qed
  obtain q cs where s: "slots v ! b = Some (q, cs)" "length cs = ?n"
    using slot_some [OF sl, of b] b p(1) by (metis le_less_trans)
  let ?dst = "take (b * ?n) dst @ take ?c cs @ drop (b * ?n + ?c) dst"
  have le: "b * ?n + ?c \<le> bv_size v" using next_start by simp
  have "take (b * ?n + ?c) ?dst = take (b * ?n + ?c) (bvec_list v)"
  proof (rule nth_equalityI)
    show "length (take (b * ?n + ?c) ?dst) = length (take (b * ?n + ?c) (bvec_list v))"
      using Suc.prems(3) le c s(2) by simp
    fix i assume "i < length (take (b * ?n + ?c) ?dst)"
    then have i: "i < b * ?n + ?c" by simp
    show "take (b * ?n + ?c) ?dst ! i = take (b * ?n + ?c) (bvec_list v) ! i"
    proof (cases "i < b * ?n")
      case True
      then have "take (b * ?n) dst ! i = take (b * ?n) (bvec_list v) ! i"
        using Suc.prems(4) start by (simp add: min_def)
      then show ?thesis using True Suc.prems(3) le by (simp add: nth_append)
    next
      case False
      then obtain k where k: "i = b * ?n + k" "k < ?n"
        using i c by (metis add_less_cancel_left le_Suc_ex not_less order.strict_trans2)
      then have "i div ?n = b" "i mod ?n = i - b * ?n" by simp_all
      then have "bvec_list v ! i = cs ! (i - b * ?n)" using i le s by (simp add: bvec_list_def cell_def)
      then show ?thesis using False i Suc.prems(3) le c s(2) by (simp add: nth_append)
    qed
  qed
  moreover have "take (min (Suc b * ?n) (bv_size v)) (bvec_list v) = take (Suc b * ?n) (bvec_list v)"
    by (simp add: bvec_list_def take_map min_def)
  ultimately have filled: "take (min (Suc b * ?n) (bv_size v)) ?dst = take (Suc b * ?n) (bvec_list v)"
    by (simp only: next_start)
  have "copy_buckets v (Suc b) (min (Suc b * ?n) (bv_size v)) left ?dst = bvec_list v @ drop (bv_size v) ?dst"
    by (rule Suc.IH [OF Suc.prems(1) _ _ filled]) (use Suc.prems(2,3) le c s(2) in auto)
  moreover have "drop (bv_size v) ?dst = drop (bv_size v) dst"
    using Suc.prems(3) le c s(2) by (simp add: drop_append)
  ultimately show ?case
    using s start next_start by (simp add: Let_def min_absorb1)
qed

lemma copy_to_spec:
  assumes "bvec_shape v" "length d = dst_capacity"
  shows "arnm_bvec_copy_to v (Some d) dst_capacity =
    (if dst_capacity < bv_size v then (ARNM_ERROR_DESTINATION_BUFFER_TO_SMALL, Some d)
     else (ARNM_SUCCESS, Some (bvec_list v @ drop (bv_size v) d)))"
  using copy_buckets_spec [OF assms(1), of 0 "arnm_bvec_bucket_count v" d] assms(2)
  by (simp add: arnm_bvec_copy_to_def)

section \<open>Programs over a vector\<close>

text \<open>A program calls the vector's operations in any order; each call leaves a result.\<close>

datatype 'a bvec_request = BV_Push 'a | BV_Pop | BV_Clear | BV_Reserve nat | BV_Shrink | BV_Free

fun bvec_call :: "'w ops \<Rightarrow> 'a bvec_request \<Rightarrow> 'a bvec \<Rightarrow> 'w \<Rightarrow> arnm_result \<times> 'a bvec \<times> 'w" where
  "bvec_call ops (BV_Push x) v w = arnm_bvec_push_ptr ops (Some x) v w"
| "bvec_call ops BV_Pop v w = (case arnm_bvec_pop v of (r, v) \<Rightarrow> (r, v, w))"
| "bvec_call ops BV_Clear v w = (ARNM_SUCCESS, arnm_bvec_clear v, w)"
| "bvec_call ops (BV_Reserve n) v w = arnm_bvec_reserve ops n v w"
| "bvec_call ops BV_Shrink v w = arnm_bvec_shrink ops v w"
| "bvec_call ops BV_Free v w = (case arnm_bvec_free ops v w of (v, w) \<Rightarrow> (ARNM_SUCCESS, v, w))"

fun bvec_run :: "'w ops \<Rightarrow> 'a bvec_request list \<Rightarrow> 'a bvec \<Rightarrow> 'w \<Rightarrow> arnm_result list \<times> 'a bvec \<times> 'w" where
  "bvec_run ops [] v w = ([], v, w)"
| "bvec_run ops (c # cs) v w =
    (case bvec_call ops c v w of (r, v, w) \<Rightarrow>
       (case bvec_run ops cs v w of (rs, v, w) \<Rightarrow> (r # rs, v, w)))"

text \<open>The same program over a list, told the results.\<close>

fun list_call :: "'a bvec_request \<Rightarrow> arnm_result \<Rightarrow> 'a option list \<Rightarrow> 'a option list" where
  "list_call (BV_Push x) r xs = (if r = ARNM_SUCCESS then xs @ [Some x] else xs)"
| "list_call BV_Pop r xs = butlast xs"
| "list_call BV_Clear r xs = []"
| "list_call (BV_Reserve n) r xs = xs"
| "list_call BV_Shrink r xs = xs"
| "list_call BV_Free r xs = []"

fun list_run :: "'a bvec_request list \<Rightarrow> arnm_result list \<Rightarrow> 'a option list \<Rightarrow> 'a option list" where
  "list_run (c # cs) (r # rs) xs = list_run cs rs (list_call c r xs)"
| "list_run _ _ xs = xs"

lemma emplace_room:
  assumes "bvec_shape v" "bv_size v < allocated_count v * bucket_n v"
    and "arnm_bvec_emplace ops v w = (r, slot, v', w')"
  shows "r = ARNM_SUCCESS \<and> w' = w \<and> allocated_count v' = allocated_count v"
proof (cases "tail v \<noteq> NULL \<and> tail_used v < bucket_n v")
  case True
  then show ?thesis
    using assms(1,3) bvec_limits_consts(1) [of v] by (auto simp: arnm_bvec_emplace_def bvec_shape_def)
next
  case False
  have "bvec_limits v" "bvec_slots v" "bvec_position v" using assms(1) by (auto simp: bvec_shape_def)
  then have "bv_size v = arnm_bvec_bucket_count v * bucket_n v"
    using False tail_facts(1,2) [OF assms(1)] by (auto simp: bvec_position_def split: if_splits)
  then have "arnm_bvec_bucket_count v < allocated_count v" using assms(2) by simp
  then show ?thesis
    using assms(1,3) False bvec_limits_consts(1) [of v] state_valid [OF assms(1)]
    by (auto simp: arnm_bvec_emplace_def arnm_bvec_grow_def open_bucket_def Let_def bvec_shape_def)
qed

lemma push_room:
  assumes "bvec_shape v" "bv_size v < allocated_count v * bucket_n v"
    and "arnm_bvec_push_ptr ops (Some x) v w = (r, v', w')"
  shows "r = ARNM_SUCCESS \<and> w' = w \<and> allocated_count v' = allocated_count v"
proof -
  obtain r1 slot v1 w1 where em: "arnm_bvec_emplace ops v w = (r1, slot, v1, w1)" by (metis prod_cases4)
  show ?thesis
    using emplace_room [OF assms(1,2) em] assms(3) em by (auto simp: arnm_bvec_push_ptr_def)
qed

text \<open>The size of a bucket is set once, by \<open>arnm_bvec_init\<close>.\<close>

lemma push_log2:
  assumes "arnm_bvec_push_ptr ops x v w = (r, v', w')"
  shows "bucket_capacity_max_log2 v' = bucket_capacity_max_log2 v"
  using assms
  by (auto simp: arnm_bvec_push_ptr_def arnm_bvec_emplace_def arnm_bvec_grow_def grow_bucket_def
      open_bucket_def Let_def split: option.splits prod.splits if_splits)

context arnm_allocator begin

lemma call_spec:
  assumes "sound w" "bvec_ok owns w v" "bvec_call ops c v w = (r, v', w')"
  shows "bv_safe w v w' v' \<and> bvec_list v' = list_call c r (bvec_list v)"
proof (cases c)
  case (BV_Push x)
  then show ?thesis using push_spec [OF assms(1,2)] assms(3) by (simp split: if_splits)
next
  case BV_Pop
  have sh: "bvec_shape v" using assms(2) by (simp add: bvec_ok_def)
  obtain r1 v1 where pop: "arnm_bvec_pop v = (r1, v1)" by fastforce
  show ?thesis
    using pop_spec [OF sh pop] assms BV_Pop pop
    by (cases "bv_size v = 0") (auto simp: bvec_ok_def bvec_list_def)
next
  case BV_Clear
  then show ?thesis using clear_spec [of v] assms by (auto simp: bvec_ok_def)
next
  case (BV_Reserve n)
  then show ?thesis
    using reserve_spec [OF assms(1,2)] assms same_elements_list [of v v'] by (auto simp: bvec_ok_def)
next
  case BV_Shrink
  then show ?thesis using shrink_spec [OF assms(1,2)] assms by auto
next
  case BV_Free
  obtain v1 w1 where free: "arnm_bvec_free ops v w = (v1, w1)" by fastforce
  show ?thesis using free_spec [OF assms(1,2) free] assms BV_Free free by auto
qed

lemma run_spec:
  "sound w \<Longrightarrow> bvec_ok owns w v \<Longrightarrow> bvec_run ops cs v w = (rs, v', w') \<Longrightarrow>
    bv_safe w v w' v' \<and> bvec_list v' = list_run cs rs (bvec_list v)"
proof (induction cs arbitrary: v w rs)
  case (Cons c cs)
  obtain r v1 w1 where c: "bvec_call ops c v w = (r, v1, w1)" by (metis prod_cases3)
  obtain rs1 v2 w2 where cs: "bvec_run ops cs v1 w1 = (rs1, v2, w2)" by (metis prod_cases3)
  have res: "rs = r # rs1" "v' = v2" "w' = w2" using Cons.prems(3) c cs by auto
  have s1: "bv_safe w v w1 v1" "bvec_list v1 = list_call c r (bvec_list v)"
    using call_spec [OF Cons.prems(1,2) c] by auto
  then have "bv_safe w1 v1 w2 v2 \<and> bvec_list v2 = list_run cs rs1 (bvec_list v1)"
    using Cons.IH [OF _ _ cs [folded res]] res by blast
  then show ?case using bv_safe_trans [OF s1(1)] s1(2) by (simp add: res)
qed simp

lemma run_room:
  "sound w \<Longrightarrow> bvec_ok owns w v \<Longrightarrow> bv_size v + length xs \<le> allocated_count v * bucket_n v \<Longrightarrow>
    bvec_run ops (map BV_Push xs) v w = (rs, v', w') \<Longrightarrow>
    set rs \<subseteq> {ARNM_SUCCESS} \<and> w' = w \<and> bvec_list v' = bvec_list v @ map Some xs"
proof (induction xs arbitrary: v w rs)
  case (Cons x xs)
  have sh: "bvec_shape v" using Cons.prems(2) by (simp add: bvec_ok_def)
  obtain r v1 w1 where c: "arnm_bvec_push_ptr ops (Some x) v w = (r, v1, w1)" by (metis prod_cases3)
  obtain rs1 v2 w2 where cs: "bvec_run ops (map BV_Push xs) v1 w1 = (rs1, v2, w2)" by (metis prod_cases3)
  have res: "rs = r # rs1" "v' = v2" "w' = w2" using Cons.prems(4) c cs by auto
  have room: "r = ARNM_SUCCESS" "w1 = w" "allocated_count v1 = allocated_count v"
    using push_room [OF sh _ c] Cons.prems(3) by auto
  have s1: "bv_safe w v w1 v1" "bvec_list v1 = bvec_list v @ [Some x]"
    using push_spec [OF Cons.prems(1,2) c] room by auto
  have size: "bv_size v1 = Suc (bv_size v)" using arg_cong [OF s1(2), of length] by simp
  have log: "bucket_capacity_max_log2 v1 = bucket_capacity_max_log2 v"
    using push_log2 [OF c] .
  have "set rs1 \<subseteq> {ARNM_SUCCESS} \<and> w2 = w1 \<and> bvec_list v2 = bvec_list v1 @ map Some xs"
    unfolding res(2,3) [symmetric]
    by (rule Cons.IH [OF _ _ _ cs [folded res(2,3)]]) (use s1(1) Cons.prems(3) size room(3) log in auto)
  then show ?case using room s1(2) by (simp add: res)
qed simp

end

section \<open>What the vector promises\<close>

text \<open>An empty vector of 8-byte elements in buckets of two, its index growing by four.\<close>

definition sample_bvec :: "nat bvec" where
  "sample_bvec = snd (arnm_bvec_init 1 4 8 undefined)"

lemma sample_bvec_init: "arnm_bvec_init 1 4 8 v = (ARNM_SUCCESS, sample_bvec)"
  by (simp add: sample_bvec_def arnm_bvec_init_def UINT32_MAX_def UINT16_MAX_def)

lemma init_ok:
  assumes "arnm_bvec_init log2 step elem v0 = (ARNM_SUCCESS, v)" "step < 256"
  shows "bvec_ok owns w v" "bvec_list v = []" "bvec_blocks v = []"
  using init_spec [OF assms] by (simp_all add: bvec_ok_def)

lemmas sample_bvec_ok = init_ok [OF sample_bvec_init]

text \<open>C5: The vector is a list. Whatever program of pushes, pops, clears, reserves, shrinks and frees
  runs over a fresh vector, with the C heap or an arena behind it and whatever that answers, the
  vector holds the elements a list would hold after the same calls, a failed push having done
  nothing; and any block of the program that is not the vector's own stays owned and keeps its
  bytes.\<close>

theorem bvec_runs_as_list:
  assumes "flat_sound m w" "arnm_bvec_init log2 step elem v0 = (ARNM_SUCCESS, v)" "step < 256"
    and "bvec_run (flat_ops m) cs v w = (rs, v', w')"
  shows "bvec_list v' = list_run cs rs [] \<and>
    (\<forall>q k. flat_owns m w q k \<longrightarrow>
      flat_owns m w' q k \<and> apart_from (bvec_blocks v') q k \<and> rd (bytes_of w') q k = rd (bytes_of w) q k)"
proof -
  note fresh = init_ok [OF assms(2,3)]
  have "flat.bv_safe m w v w' v' \<and> bvec_list v' = list_run cs rs (bvec_list v)"
    by (rule flat.run_spec [OF assms(1) fresh(1) assms(4)])
  then show ?thesis by (auto simp: fresh(2,3) foreign_safe_def)
qed

lemma bvec_runs_as_list_witness:
  "\<exists>rs v' w'. bvec_run (flat_ops NULL) [BV_Push 3, BV_Push 4, BV_Push 5, BV_Pop, BV_Shrink] sample_bvec sample_world
      = (rs, v', w') \<and>
    bvec_list v' = list_run [BV_Push 3, BV_Push 4, BV_Push 5, BV_Pop, BV_Shrink] rs []"
proof -
  obtain rs v' w' where "bvec_run (flat_ops NULL) [BV_Push 3, BV_Push 4, BV_Push 5, BV_Pop, BV_Shrink]
      sample_bvec sample_world = (rs, v', w')"
    by (metis prod_cases3)
  with bvec_runs_as_list [OF sample_world_sound sample_bvec_init _ this] show ?thesis by auto
qed

text \<open>C6: An element never moves. A push that succeeds leaves every element readable at the address
  it had before and the new one at the end; a push that fails leaves all of them as they were.\<close>

theorem bvec_push_keeps_addresses:
  assumes "flat_sound m w" "bvec_ok (flat_owns m) w v"
    and "arnm_bvec_push_ptr (flat_ops m) (Some x) v w = (r, v', w')"
  shows "(\<forall>i<bv_size v. arnm_bvec_at v' i = arnm_bvec_at v i \<and>
      bvec_read (arnm_bvec_at v' i) v' = bvec_read (arnm_bvec_at v i) v) \<and>
    (if r = ARNM_SUCCESS
     then bv_size v' = bv_size v + 1 \<and> arnm_bvec_at v' (bv_size v) = arnm_bvec_back v' \<and>
       bvec_read (arnm_bvec_back v') v' = Some x
     else bv_size v' = bv_size v)"
proof -
  have sh: "bvec_shape v" using assms(2) by (simp add: bvec_ok_def)
  note push = flat.push_spec [OF assms]
  then have ok: "bvec_ok (flat_owns m) w' v'" and sh': "bvec_shape v'" by (auto simp: bvec_ok_def)
  have size: "bv_size v' = (if r = ARNM_SUCCESS then bv_size v + 1 else bv_size v)"
    using push by (metis length_append_singleton length_bvec_list Suc_eq_plus1)
  have elem: "cell v' i = cell v i" if "i < bv_size v" for i
  proof -
    have "bvec_list v' ! i = bvec_list v ! i" using push that by (auto simp: nth_append split: if_splits)
    then show ?thesis using that size by (simp add: bvec_list_def split: if_splits)
  qed
  have new: "cell v' (bv_size v) = Some x" if "r = ARNM_SUCCESS"
  proof -
    have "bvec_list v' ! bv_size v = Some x" using push that by (simp add: nth_append)
    moreover have "bvec_list v' ! bv_size v = cell v' (bv_size v)"
      using that size unfolding bvec_list_def by (subst nth_map) (simp_all del: upt_Suc)
    ultimately show ?thesis by simp
  qed
  have rd: "bvec_read (elem_addr v i) v = cell v i" if "i < bv_size v" for i
    using bvec_read_elem [OF assms(2), of i] bvec_size_bound(1) [OF sh] that by simp
  have rd': "bvec_read (elem_addr v' i) v' = cell v' i" if "i < bv_size v'" for i
    using bvec_read_elem [OF ok, of i] bvec_size_bound(1) [OF sh'] that by simp
  have same: "elem_addr v' i = elem_addr v i" if "i < bv_size v" for i using push that by simp
  have "bv_size v \<le> bv_size v'" using size by simp
  then have "arnm_bvec_at v' i = arnm_bvec_at v i \<and>
      bvec_read (arnm_bvec_at v' i) v' = bvec_read (arnm_bvec_at v i) v" if "i < bv_size v" for i
    using that bvec_at_elem [OF sh, of i] bvec_at_elem [OF sh', of i] rd [OF that] rd' [of i] same [OF that]
      elem [OF that] by simp
  moreover have "arnm_bvec_at v' (bv_size v) = arnm_bvec_back v' \<and> bvec_read (arnm_bvec_back v') v' = Some x"
    if "r = ARNM_SUCCESS"
    using that bvec_at_elem [OF sh', of "bv_size v"] bvec_back_elem [OF sh'] rd' [of "bv_size v"] new size by simp
  moreover have "if r = ARNM_SUCCESS then bv_size v' = bv_size v + 1 else bv_size v' = bv_size v"
    using size by (simp split: if_splits)
  ultimately show ?thesis unfolding if_bool_eq_conj by blast
qed

lemma bvec_push_keeps_addresses_witness:
  "\<exists>r v' w'. arnm_bvec_push_ptr (flat_ops NULL) (Some 7) sample_bvec sample_world = (r, v', w') \<and>
    bv_size v' = (if r = ARNM_SUCCESS then bv_size sample_bvec + 1 else bv_size sample_bvec)"
proof -
  obtain r v' w' where "arnm_bvec_push_ptr (flat_ops NULL) (Some 7) sample_bvec sample_world = (r, v', w')"
    by (metis prod_cases3)
  with bvec_push_keeps_addresses [OF sample_world_sound sample_bvec_ok(1) this] show ?thesis by simp
qed

text \<open>A reserve that succeeds pays for the pushes to come: until the reserved count is reached
  every push succeeds and the allocator, the heap and the handle are not touched.\<close>

theorem bvec_reserve_pays:
  assumes "flat_sound m w" "bvec_ok (flat_owns m) w v"
    and "arnm_bvec_reserve (flat_ops m) n v w = (ARNM_SUCCESS, v1, w1)" "bv_size v + length xs \<le> n"
    and "bvec_run (flat_ops m) (map BV_Push xs) v1 w1 = (rs, v2, w2)"
  shows "set rs \<subseteq> {ARNM_SUCCESS} \<and> w2 = w1 \<and> bvec_list v2 = bvec_list v @ map Some xs"
proof -
  have res: "flat.bv_safe m w v w1 v1" "same_elements v v1" "n \<le> allocated_count v1 * bucket_n v1"
    using flat.reserve_spec [OF assms(1-3)] by auto
  then have "flat_sound m w1" "bvec_ok (flat_owns m) w1 v1" "bvec_list v1 = bvec_list v" "bv_size v1 = bv_size v"
    using same_elements_list [of v v1] assms(2) by (auto simp: bvec_ok_def same_elements_def)
  then show ?thesis using flat.run_room [OF _ _ _ assms(5)] res(3) assms(4) by simp
qed

lemma reserve_buckets_numeral:
  "reserve_buckets ops sz c (numeral k) v w = reserve_buckets ops sz c (Suc (pred_numeral k)) v w"
  by (simp add: numeral_eq_Suc)

lemma sample_reserve:
  "\<exists>v w. arnm_bvec_reserve (flat_ops NULL) 3 sample_bvec sample_world = (ARNM_SUCCESS, v, w)"
  by (simp add: sample_bvec_def arnm_bvec_init_def bvec_descriptor_def sample_world_def arnm_bvec_reserve_def
      is_state_valid_def bucket_count_allocated_def bucket_mask_def bucket_elements_def bucket_bytes_def
      index_bytes_def flat_ops_def arnm_realloc_def arnm_alloc_def arnm_align8_u32_def ARNM_ALIGN8_def
      intern_of_def is_default_alloc_def is_single_arena_reclaimable_def is_single_arena_def host_realloc_def
      malloc_def fits_def UINT32_MAX_def UINT16_MAX_def ARNM_MAX_ALLOC_SIZE_def
      ARNM_BVEC_MAX_INDEX_CAPACITY_def Let_def reserve_buckets_numeral apart_def)

lemma bvec_reserve_pays_witness:
  "\<exists>v1 w1 rs v2. arnm_bvec_reserve (flat_ops NULL) 3 sample_bvec sample_world = (ARNM_SUCCESS, v1, w1) \<and>
    bvec_run (flat_ops NULL) [BV_Push 5, BV_Push 6] v1 w1 = (rs, v2, w1) \<and> bvec_list v2 = [Some 5, Some 6]"
proof -
  obtain v1 w1 where r: "arnm_bvec_reserve (flat_ops NULL) 3 sample_bvec sample_world = (ARNM_SUCCESS, v1, w1)"
    using sample_reserve by blast
  obtain rs v2 w2 where p: "bvec_run (flat_ops NULL) (map BV_Push [5, 6]) v1 w1 = (rs, v2, w2)"
    by (metis prod_cases3)
  have "bv_size sample_bvec + length [5::nat, 6] \<le> 3"
    using arg_cong [OF sample_bvec_ok(2), of length] by simp
  with bvec_reserve_pays [OF sample_world_sound sample_bvec_ok(1) r _ p] r p show ?thesis
    by (auto simp: sample_bvec_ok(2))
qed

text \<open>Copying out lays the elements down in order in an array that is large enough, touches
  nothing behind them, and refuses an array that is too small without writing to it.\<close>

theorem bvec_copy_in_order:
  assumes "bvec_ok owns w v" "length d = dst_capacity"
  shows "arnm_bvec_copy_to v (Some d) dst_capacity =
    (if dst_capacity < bv_size v then (ARNM_ERROR_DESTINATION_BUFFER_TO_SMALL, Some d)
     else (ARNM_SUCCESS, Some (bvec_list v @ drop (bv_size v) d)))"
  using copy_to_spec [OF _ assms(2)] assms(1) by (simp add: bvec_ok_def)

lemma bvec_copy_in_order_witness:
  "\<exists>rs v w. bvec_run (flat_ops NULL) [BV_Push 5, BV_Push 6] sample_bvec sample_world = (rs, v, w) \<and>
    arnm_bvec_copy_to v (Some (replicate 9 None)) 9 =
      (if 9 < bv_size v then (ARNM_ERROR_DESTINATION_BUFFER_TO_SMALL, Some (replicate 9 None))
       else (ARNM_SUCCESS, Some (bvec_list v @ drop (bv_size v) (replicate 9 None))))"
proof -
  obtain rs v w where run: "bvec_run (flat_ops NULL) [BV_Push 5, BV_Push 6] sample_bvec sample_world = (rs, v, w)"
    by (metis prod_cases3)
  have "bvec_ok (flat_owns NULL) w v"
    using flat.run_spec [OF sample_world_sound sample_bvec_ok(1) run] by simp
  from bvec_copy_in_order [OF this, of "replicate 9 None" 9] run show ?thesis by auto
qed

end
