(* ===== verification/Multi_Arena.thy ===== *)
theory Multi_Arena
  imports Bucket_Vector
begin

text \<open>
  The chain of arenas (\<^verbatim>\<open>src/memory.c\<close>, \<^verbatim>\<open>include/arnm/multi_arena.h\<close>): a handle that opens one
  arena after another from the C heap and keeps their descriptors in a bucket vector. The record
  \<open>chain\<close> is \<open>arnm_multi_arena\<close> with the type byte of the handle that points at it, and
  \<open>bookkeeping\<close>, the allocator the vector was given; the chains live in a table by handle.
  \<open>memory_alloc\<close>, \<open>memory_free\<close> and their kin are \<open>arnm_alloc\<close>, \<open>arnm_free\<close> and so on with the
  branches for a chain; on any other handle they are the functions of the theory \<open>Arena\<close>.
\<close>

subsection \<open>The state\<close>

record chain =
  arenas :: "arena bvec"
  arena_capacity :: nat
  arena_max_count :: nat
  full_remaining :: nat
  first_open :: nat
  bookkeeping :: addr
  chain_type :: arnm_alloc_type

record world = flat +
  chains :: "addr \<Rightarrow> chain option"

record arnm_multi_arena_options =
  opt_arena_capacity :: nat
  opt_arena_max_count :: nat
  opt_full_remaining :: nat
  opt_bucket_size_log2 :: nat
  opt_index_grow_step_size :: nat

record arnm_multi_arena_stats =
  reserved :: nat
  used :: nat
  arena_count :: nat
  open_count :: nat

definition ARNM_MULTI_ARENA_DEFAULT_CAPACITY :: nat where "ARNM_MULTI_ARENA_DEFAULT_CAPACITY = 1024"
definition ARNM_MULTI_ARENA_DEFAULT_FULL_REMAINING :: nat where
  "ARNM_MULTI_ARENA_DEFAULT_FULL_REMAINING = 64"
definition ARNM_MULTI_ARENA_DEFAULT_BUCKET_LOG2 :: nat where "ARNM_MULTI_ARENA_DEFAULT_BUCKET_LOG2 = 6"
definition SIZEOF_MULTI_ARENA :: nat where "SIZEOF_MULTI_ARENA = 56"

text \<open>\<open>is_multi_arena\<close> of the object behind a handle: its chain, when it has one.\<close>

definition chain_at :: "addr \<Rightarrow> world \<Rightarrow> chain option" where
  "chain_at m w = (if m = NULL then None else chains w m)"

definition arnm_is_multi_arena :: "addr \<Rightarrow> world \<Rightarrow> bool" where
  "arnm_is_multi_arena m w \<longleftrightarrow> chain_at m w \<noteq> None"

definition set_chain :: "addr \<Rightarrow> chain \<Rightarrow> world \<Rightarrow> world" where
  "set_chain m c w = w\<lparr>chains := (chains w)(m := Some c)\<rparr>"

text \<open>The descriptor of an arena, read and written through the pointer the vector gives.\<close>

definition arena_count_of :: "chain \<Rightarrow> nat" where "arena_count_of c = arnm_bvec_size (arenas c)"

definition load_arena :: "addr \<Rightarrow> chain \<Rightarrow> arena" where
  "load_arena p c = (case bvec_read p (arenas c) of None \<Rightarrow> zero_arena | Some a \<Rightarrow> a)"

definition store_arena :: "addr \<Rightarrow> arena \<Rightarrow> chain \<Rightarrow> chain" where
  "store_arena p a c = c\<lparr>arenas := bvec_write p a (arenas c)\<rparr>"

subsection \<open>Bookkeeping\<close>

definition multi_arena_push :: "arena \<Rightarrow> chain \<Rightarrow> world \<Rightarrow> arnm_result \<times> chain \<times> world" where
  "multi_arena_push arena c w =
    (case arnm_bvec_push_ptr (flat_ops (bookkeeping c)) (Some arena) (arenas c) w of
       (result, v, w) \<Rightarrow>
         let c = c\<lparr>arenas := v\<rparr>
         in if result \<noteq> ARNM_SUCCESS then (result, c, snd (release_arena arena w))
            else (ARNM_SUCCESS, c, w))"

definition multi_arena_is_borrowed :: "arena \<Rightarrow> bool" where
  "multi_arena_is_borrowed a \<longleftrightarrow> allocation_type a = ARNM_ALLOC_TYPE_ARENA_EXTERNAL"

text \<open>The arena a pointer belongs to: its index, which stands for the pointer to it as well.\<close>

fun find_owner_loop :: "chain \<Rightarrow> addr \<Rightarrow> nat \<Rightarrow> nat \<Rightarrow> nat \<Rightarrow> nat \<Rightarrow> nat option" where
  "find_owner_loop c buffer count start seen 0 = None"
| "find_owner_loop c buffer count start seen (Suc left) =
    (let index = u32 (start + seen);
         index = (if index \<ge> count then index - count else index);
         arena = load_arena (arnm_bvec_get (arenas c) index) c
     in if \<not> is_single_arena (Some arena) \<or> data arena = NULL then
          find_owner_loop c buffer count start (Suc seen) left
        else if buffer \<ge> data arena \<and> buffer - data arena < capacity arena then Some index
        else find_owner_loop c buffer count start (Suc seen) left)"

definition multi_arena_find_owner :: "chain \<Rightarrow> addr \<Rightarrow> nat option" where
  "multi_arena_find_owner c buffer =
    (if buffer = NULL then None
     else
       let count = arena_count_of c
       in if count = 0 then None
          else
            let start = (if first_open c < count then first_open c else 0)
            in find_owner_loop c buffer count start 0 count)"

definition multi_arena_reopen :: "arena \<Rightarrow> nat \<Rightarrow> chain \<Rightarrow> chain" where
  "multi_arena_reopen arena index c =
    (if index < first_open c \<and> \<not> arnm_arena_is_used_up (remaining_bytes (Some arena)) (full_remaining c)
     then c\<lparr>first_open := index\<rparr> else c)"

definition multi_arena_options_fill_in_defaults :: "arnm_multi_arena_options \<Rightarrow> arnm_multi_arena_options" where
  "multi_arena_options_fill_in_defaults opt =
    opt\<lparr>opt_arena_capacity := (if opt_arena_capacity opt = 0 then ARNM_MULTI_ARENA_DEFAULT_CAPACITY
          else opt_arena_capacity opt),
        opt_full_remaining := (if opt_full_remaining opt = 0 then ARNM_MULTI_ARENA_DEFAULT_FULL_REMAINING
          else opt_full_remaining opt),
        opt_bucket_size_log2 := (if opt_bucket_size_log2 opt = 0 then ARNM_MULTI_ARENA_DEFAULT_BUCKET_LOG2
          else opt_bucket_size_log2 opt),
        opt_index_grow_step_size := (if opt_index_grow_step_size opt = 0
          then ARNM_BVEC_DEFAULT_INDEX_GROW_STEP_SIZE else opt_index_grow_step_size opt)\<rparr>"

definition arnm_multi_arena_options_validate :: "arnm_multi_arena_options option \<Rightarrow>
    arnm_result \<times> arnm_multi_arena_options option" where
  "arnm_multi_arena_options_validate options =
    (case options of None \<Rightarrow> (ARNM_ERROR_NULL_POINTER, None)
     | Some opt \<Rightarrow>
       let opt = multi_arena_options_fill_in_defaults opt;
           opt = opt\<lparr>opt_arena_capacity := arnm_align8_u32 (opt_arena_capacity opt)\<rparr>
       in if opt_arena_capacity opt = 0 then (ARNM_ERROR_ARITHMETIC_OVERFLOW, Some opt)
          else if arnm_arena_is_used_up (opt_arena_capacity opt) (opt_full_remaining opt) then
            (ARNM_ERROR_INVALID_STATE, Some opt)
          else if opt_bucket_size_log2 opt > 15 then (ARNM_ERROR_ARITHMETIC_OVERFLOW, Some opt)
          else (ARNM_SUCCESS, Some opt))"

definition arnm_create_multi_arena :: "arnm_multi_arena_options option \<Rightarrow> addr \<Rightarrow> world \<Rightarrow>
    addr \<times> arnm_multi_arena_options option \<times> world" where
  "arnm_create_multi_arena options allocator w =
    (let allocation_size = SIZEOF_ARNM + SIZEOF_MULTI_ARENA
     in case arnm_alloc (Some NULL) allocation_size allocator w of
       (result, buffer, w) \<Rightarrow>
         if result \<noteq> ARNM_SUCCESS then (NULL, options, w)
         else case arnm_multi_arena_options_validate options of
           (result, options) \<Rightarrow>
             if result \<noteq> ARNM_SUCCESS then
               (NULL, options, snd (arnm_free (the buffer) allocation_size allocator w))
             else
               let opt = the options in
               case arnm_bvec_init (opt_bucket_size_log2 opt) (opt_index_grow_step_size opt) SIZEOF_ARNM
                      (bvec_descriptor 0 0 0) of
                 (result, v) \<Rightarrow>
                   if result \<noteq> ARNM_SUCCESS then
                     (NULL, options, snd (arnm_free (the buffer) allocation_size allocator w))
                   else
                     (the buffer, options,
                      set_chain (the buffer)
                        \<lparr>arenas = v, arena_capacity = opt_arena_capacity opt,
                         arena_max_count = opt_arena_max_count opt, full_remaining = opt_full_remaining opt,
                         first_open = 0, bookkeeping = allocator,
                         chain_type = (if opt_arena_max_count opt \<noteq> 0
                           then ARNM_ALLOC_TYPE_MULTI_ARENA_FIXED else ARNM_ALLOC_TYPE_MULTI_ARENA_DYNAMIC)\<rparr> w))"

definition arnm_multi_arena_reserve :: "addr \<Rightarrow> nat \<Rightarrow> world \<Rightarrow> arnm_result \<times> world" where
  "arnm_multi_arena_reserve m n w =
    (if m = NULL then (ARNM_ERROR_NULL_POINTER, w)
     else case chain_at m w of None \<Rightarrow> (ARNM_ERROR_INVALID_STATE, w)
     | Some c \<Rightarrow>
       if arena_max_count c \<noteq> 0 \<and> n > arena_max_count c then (ARNM_ERROR_RESOURCE_EXHAUSTED, w)
       else case arnm_bvec_reserve (flat_ops (bookkeeping c)) n (arenas c) w of
         (result, v, w) \<Rightarrow> (result, set_chain m (c\<lparr>arenas := v\<rparr>) w))"

definition arnm_multi_arena_borrow :: "addr \<Rightarrow> addr \<Rightarrow> nat \<Rightarrow> world \<Rightarrow> arnm_result \<times> world" where
  "arnm_multi_arena_borrow m block cap w =
    (if m = NULL \<or> block = NULL then (ARNM_ERROR_NULL_POINTER, w)
     else case chain_at m w of None \<Rightarrow> (ARNM_ERROR_INVALID_STATE, w)
     | Some c \<Rightarrow>
       if arena_max_count c \<noteq> 0 \<and> arena_max_count c < u32 (arena_count_of c + 1) then
         (ARNM_ERROR_RESOURCE_EXHAUSTED, w)
       else case borrow_arena block cap zero_arena of
         (result, arena) \<Rightarrow>
           if result \<noteq> ARNM_SUCCESS then (result, w)
           else case multi_arena_push arena c w of
             (result, c, w) \<Rightarrow> (result, set_chain m c w))"

text \<open>The walk of \<open>arnm_multi_arena_shrink\<close>: every turn takes the last arena away or stops.\<close>

fun shrink_arenas :: "nat \<Rightarrow> chain \<Rightarrow> world \<Rightarrow> chain \<times> world" where
  "shrink_arenas 0 c w = (c, w)"
| "shrink_arenas (Suc left) c w =
    (let last_arena = arnm_bvec_back (arenas c)
     in if last_arena = NULL then (c, w)
        else
          let a = load_arena last_arena c
          in if last_index a \<noteq> 0 \<or> multi_arena_is_borrowed a then (c, w)
             else case release_arena a w of
               (a, w) \<Rightarrow>
                 let c = store_arena last_arena a c; c = c\<lparr>arenas := snd (arnm_bvec_pop (arenas c))\<rparr>
                 in shrink_arenas left c w)"

definition arnm_multi_arena_shrink :: "addr \<Rightarrow> world \<Rightarrow> arnm_result \<times> world" where
  "arnm_multi_arena_shrink m w =
    (if m = NULL then (ARNM_ERROR_NULL_POINTER, w)
     else case chain_at m w of None \<Rightarrow> (ARNM_ERROR_INVALID_STATE, w)
     | Some c \<Rightarrow>
       case shrink_arenas (arena_count_of c) c w of
         (c, w) \<Rightarrow>
           let count = arena_count_of c;
               c = (if first_open c > count then c\<lparr>first_open := count\<rparr> else c)
           in case arnm_bvec_shrink (flat_ops (bookkeeping c)) (arenas c) w of
             (result, v, w) \<Rightarrow> (result, set_chain m (c\<lparr>arenas := v\<rparr>) w))"

definition arnm_multi_arena_arena_count :: "addr \<Rightarrow> world \<Rightarrow> nat" where
  "arnm_multi_arena_arena_count m w = (case chain_at m w of None \<Rightarrow> 0 | Some c \<Rightarrow> arena_count_of c)"

fun measure_arenas :: "chain \<Rightarrow> nat \<Rightarrow> nat \<Rightarrow> arnm_multi_arena_stats \<Rightarrow> arnm_multi_arena_stats option" where
  "measure_arenas c i 0 stats = Some stats"
| "measure_arenas c i (Suc left) stats =
    (let arena = load_arena (arnm_bvec_at (arenas c) i) c
     in if is_single_arena (Some arena) then
          measure_arenas c (Suc i) left
            (stats\<lparr>reserved := u64 (reserved stats + capacity arena), used := u64 (used stats + last_index arena),
              open_count := (if \<not> arnm_arena_is_used_up (remaining_bytes (Some arena)) (full_remaining c)
                then u32 (open_count stats + 1) else open_count stats)\<rparr>)
        else None)"

definition arnm_multi_arena_measure :: "addr \<Rightarrow> arnm_multi_arena_stats option \<Rightarrow> world \<Rightarrow>
    arnm_result \<times> arnm_multi_arena_stats option" where
  "arnm_multi_arena_measure m out w =
    (if m = NULL \<or> out = None then (ARNM_ERROR_NULL_POINTER, out)
     else case chain_at m w of None \<Rightarrow> (ARNM_ERROR_INVALID_STATE, out)
     | Some c \<Rightarrow>
       let count = arena_count_of c
       in case measure_arenas c 0 count \<lparr>reserved = 0, used = 0, arena_count = count, open_count = 0\<rparr> of
            None \<Rightarrow> (ARNM_ERROR_INVALID_STATE, out)
          | Some stats \<Rightarrow> (ARNM_SUCCESS, Some stats))"

subsection \<open>Allocate\<close>

text \<open>
  The scan: it starts at \<open>first_open\<close>, pushes that mark over arenas that are used up, and stops at
  the first arena with room.
\<close>

fun chain_scan :: "nat \<Rightarrow> nat \<Rightarrow> nat \<Rightarrow> chain \<Rightarrow> chain \<times> addr option" where
  "chain_scan aligned_size i 0 c = (c, None)"
| "chain_scan aligned_size i (Suc left) c =
    (let arena = arnm_bvec_get (arenas c) i
     in if arena = NULL then (c, None)
        else
          let remaining = remaining_bytes (Some (load_arena arena c))
          in if arnm_arena_is_used_up remaining (full_remaining c) then
               chain_scan aligned_size (Suc i) left
                 (if i = first_open c then c\<lparr>first_open := u32 (first_open c + 1)\<rparr> else c)
             else if remaining \<ge> aligned_size then (c, Some arena)
             else chain_scan aligned_size (Suc i) left c)"

text \<open>\<open>arena_alloc_aligned\<close> on a descriptor inside the vector.\<close>

definition alloc_from :: "addr \<Rightarrow> nat \<Rightarrow> addr \<Rightarrow> chain \<Rightarrow> world \<Rightarrow> arnm_result \<times> addr \<times> chain \<times> world" where
  "alloc_from buffer aligned_size arena c w =
    (case arena_alloc_aligned buffer aligned_size (load_arena arena c) of
       (result, p, a) \<Rightarrow> (result, p, store_arena arena a c, w))"

definition multi_arena_alloc :: "addr \<Rightarrow> nat \<Rightarrow> chain \<Rightarrow> world \<Rightarrow> arnm_result \<times> addr \<times> chain \<times> world" where
  "multi_arena_alloc buffer aligned_size c w =
    (if aligned_size = 0 then (ARNM_ERROR_INVALID_PARAM, buffer, c, w)
     else
       let count = arena_count_of c
       in case chain_scan aligned_size (first_open c) (count - first_open c) c of
         (c, Some arena) \<Rightarrow> alloc_from buffer aligned_size arena c w
       | (c, None) \<Rightarrow>
           if arena_max_count c \<noteq> 0 \<and> count \<ge> arena_max_count c then
             (ARNM_ERROR_RESOURCE_EXHAUSTED, buffer, c, w)
           else
             let cap = (if arena_capacity c < aligned_size then aligned_size else arena_capacity c)
             in case init_arena cap zero_arena w of
               (result, arena, w) \<Rightarrow>
                 if result \<noteq> ARNM_SUCCESS then (result, buffer, c, w)
                 else case multi_arena_push arena c w of
                   (result, c, w) \<Rightarrow>
                     if result \<noteq> ARNM_SUCCESS then (result, buffer, c, w)
                     else alloc_from buffer aligned_size (arnm_bvec_back (arenas c)) c w)"

definition memory_alloc :: "addr option \<Rightarrow> nat \<Rightarrow> addr \<Rightarrow> world \<Rightarrow> arnm_result \<times> addr option \<times> world" where
  "memory_alloc buffer sz m w =
    (case chain_at m w of None \<Rightarrow> arnm_alloc buffer sz m w
     | Some c \<Rightarrow>
       (case buffer of None \<Rightarrow> (ARNM_ERROR_NULL_POINTER, buffer, w)
        | Some old \<Rightarrow>
          if sz = 0 then (ARNM_ERROR_INVALID_PARAM, buffer, w)
          else
            let aligned_size = arnm_align8_u32 sz
            in if aligned_size = 0 then (ARNM_ERROR_ARITHMETIC_OVERFLOW, buffer, w)
               else case multi_arena_alloc old aligned_size c w of
                 (result, p, c, w) \<Rightarrow> (result, Some p, set_chain m c w)))"

subsection \<open>Free, resize\<close>

definition memory_free :: "addr \<Rightarrow> nat \<Rightarrow> addr \<Rightarrow> world \<Rightarrow> arnm_result \<times> world" where
  "memory_free buffer sz m w =
    (case chain_at m w of None \<Rightarrow> arnm_free buffer sz m w
     | Some c \<Rightarrow>
       let aligned_size = arnm_align8_u32 sz
       in if sz \<noteq> 0 \<and> aligned_size = 0 then (ARNM_ERROR_ARITHMETIC_OVERFLOW, w)
          else case multi_arena_find_owner c buffer of
            None \<Rightarrow> (if buffer \<noteq> NULL then ARNM_ERROR_INVALID_PARAM
                     else ARNM_WARNING_ARENA_MEMORY_NOT_RECLAIMED, w)
          | Some owner_index \<Rightarrow>
              let slot = arnm_bvec_get (arenas c) owner_index; arena = load_arena slot c
              in if is_single_arena_reclaimable buffer aligned_size (Some arena) then
                   let arena = arena\<lparr>last_index := sub32 (last_index arena) aligned_size\<rparr>
                   in (ARNM_SUCCESS,
                       set_chain m (multi_arena_reopen arena owner_index (store_arena slot arena c)) w)
                 else (ARNM_WARNING_ARENA_MEMORY_NOT_RECLAIMED, w))"

text \<open>The branch of \<open>arnm_realloc\<close> for the last block of one of the chain's arenas.\<close>

definition chain_realloc_last :: "addr \<Rightarrow> nat \<Rightarrow> nat \<Rightarrow> nat \<Rightarrow> nat \<Rightarrow> addr \<Rightarrow> chain \<Rightarrow> world \<Rightarrow>
    arnm_result \<times> addr option \<times> world" where
  "chain_realloc_last p old_size old_size_aligned new_size_aligned owner_index m c w =
    (let slot = arnm_bvec_get (arenas c) owner_index; arena = load_arena slot c
     in if new_size_aligned < old_size_aligned then
          let arena = arena\<lparr>last_index := sub32 (last_index arena) (old_size_aligned - new_size_aligned)\<rparr>
          in (ARNM_SUCCESS, Some p,
              set_chain m (multi_arena_reopen arena owner_index (store_arena slot arena c)) w)
        else
          let additional = new_size_aligned - old_size_aligned
          in if remaining_bytes (Some arena) \<ge> additional then
               (ARNM_SUCCESS, Some p,
                set_chain m (store_arena slot (arena\<lparr>last_index := u32 (last_index arena + additional)\<rparr>) c) w)
             else case memory_alloc (Some NULL) new_size_aligned m w of
               (result, moved, w) \<Rightarrow>
                 if result \<noteq> ARNM_SUCCESS then (result, Some p, w)
                 else
                   let w = set_bytes (memcpy (bytes_of w) (the moved) p old_size) w;
                       c = the (chain_at m w); arena = load_arena slot c;
                       arena = arena\<lparr>last_index := sub32 (last_index arena) old_size_aligned\<rparr>
                   in (ARNM_SUCCESS, moved,
                       set_chain m (multi_arena_reopen arena owner_index (store_arena slot arena c)) w))"

definition memory_realloc :: "addr option \<Rightarrow> nat \<Rightarrow> nat \<Rightarrow> addr \<Rightarrow> world \<Rightarrow>
    arnm_result \<times> addr option \<times> world" where
  "memory_realloc buffer old_size new_size m w =
    (case chain_at m w of None \<Rightarrow> arnm_realloc buffer old_size new_size m w
     | Some c \<Rightarrow>
       (case buffer of None \<Rightarrow> (ARNM_ERROR_NULL_POINTER, buffer, w)
        | Some p \<Rightarrow>
          let new_size_aligned = arnm_align8_u32 new_size;
              old_size_aligned = arnm_align8_u32 old_size
          in if new_size \<noteq> 0 \<and> new_size_aligned = 0 \<or> old_size \<noteq> 0 \<and> old_size_aligned = 0 then
               (ARNM_ERROR_ARITHMETIC_OVERFLOW, buffer, w)
             else if new_size_aligned = 0 then
               case memory_free p old_size_aligned m w of
                 (result, w) \<Rightarrow> (result, if result = ARNM_SUCCESS then Some NULL else buffer, w)
             else if p \<noteq> NULL \<and> old_size = new_size then (ARNM_SUCCESS, buffer, w)
             else
               let owner = multi_arena_find_owner c p
               in if p \<noteq> NULL \<and> owner = None then (ARNM_ERROR_INVALID_PARAM, buffer, w)
                  else if owner \<noteq> None \<and> is_single_arena_reclaimable p old_size_aligned
                       (Some (load_arena (arnm_bvec_get (arenas c) (the owner)) c)) then
                    chain_realloc_last p old_size old_size_aligned new_size_aligned (the owner) m c w
                  else if new_size_aligned > old_size_aligned then
                    case memory_alloc (Some NULL) new_size_aligned m w of
                      (result, resized, w) \<Rightarrow>
                        if result \<noteq> ARNM_SUCCESS then (result, buffer, w)
                        else
                          (ARNM_WARNING_ARENA_MEMORY_NOT_RECLAIMED, resized,
                           if p \<noteq> NULL \<and> old_size \<noteq> 0
                           then set_bytes (memcpy (bytes_of w) (the resized) p old_size) w else w)
                  else (ARNM_WARNING_ARENA_MEMORY_NOT_RECLAIMED, buffer, w)))"

definition memory_clone :: "addr option \<Rightarrow> addr \<Rightarrow> nat \<Rightarrow> addr \<Rightarrow> world \<Rightarrow>
    arnm_result \<times> addr option \<times> world" where
  "memory_clone dst_buffer src sz memory w =
    (if dst_buffer = None \<or> src = NULL then (ARNM_ERROR_NULL_POINTER, dst_buffer, w)
     else if sz = 0 then (ARNM_ERROR_INVALID_PARAM, dst_buffer, w)
     else case memory_alloc dst_buffer sz memory w of
       (result, dst, w) \<Rightarrow>
         if result \<noteq> ARNM_SUCCESS then (result, dst, w)
         else (ARNM_SUCCESS, dst, set_bytes (memcpy (bytes_of w) (the dst) src sz) w))"

subsection \<open>Reset, release, destroy\<close>

fun reset_arenas :: "nat \<Rightarrow> nat \<Rightarrow> chain \<Rightarrow> chain" where
  "reset_arenas i 0 c = c"
| "reset_arenas i (Suc left) c =
    (let slot = arnm_bvec_at (arenas c) i
     in reset_arenas (Suc i) left (store_arena slot (reset_arena (load_arena slot c)) c))"

definition memory_reset :: "addr \<Rightarrow> world \<Rightarrow> world" where
  "memory_reset m w =
    (case chain_at m w of None \<Rightarrow> arnm_reset m w
     | Some c \<Rightarrow> set_chain m ((reset_arenas 0 (arena_count_of c) c)\<lparr>first_open := 0\<rparr>) w)"

fun release_arenas :: "nat \<Rightarrow> nat \<Rightarrow> chain \<Rightarrow> world \<Rightarrow> chain \<times> world" where
  "release_arenas i 0 c w = (c, w)"
| "release_arenas i (Suc left) c w =
    (let slot = arnm_bvec_at (arenas c) i
     in case release_arena (load_arena slot c) w of
       (a, w) \<Rightarrow> release_arenas (Suc i) left (store_arena slot a c) w)"

definition memory_release :: "addr \<Rightarrow> world \<Rightarrow> world" where
  "memory_release m w =
    (case chain_at m w of None \<Rightarrow> arnm_release m w
     | Some c \<Rightarrow>
       case release_arenas 0 (arena_count_of c) c w of
         (c, w) \<Rightarrow>
           (case arnm_bvec_free (flat_ops (bookkeeping c)) (arenas c) w of
              (v, w) \<Rightarrow> set_chain m (c\<lparr>arenas := v, first_open := 0\<rparr>) w))"

definition memory_destroy :: "addr \<Rightarrow> addr \<Rightarrow> world \<Rightarrow> arnm_result \<times> world" where
  "memory_destroy m allocator w =
    (if m = NULL then (ARNM_SUCCESS, w)
     else
       let w = memory_release m w;
           allocation_size = (if arnm_is_multi_arena m w then SIZEOF_ARNM + SIZEOF_MULTI_ARENA else SIZEOF_ARNM);
           w = w\<lparr>handles := (handles w)(m := None), chains := (chains w)(m := None)\<rparr>
       in arnm_free m allocation_size allocator w)"

section \<open>The invariant\<close>

text \<open>
  The chains covered keep their books on the C heap, so that everything a chain holds, the blocks of
  its vector and the blocks of its arenas, is a block of that heap. Every arena before \<open>first_open\<close>
  is used up: the scan may start there.
\<close>

definition chain_list :: "chain \<Rightarrow> arena list" where
  "chain_list c = map the (bvec_list (arenas c))"

abbreviation arena_block :: "arena \<Rightarrow> addr \<times> nat" where
  "arena_block a \<equiv> (data a, capacity a)"

definition chain_holds :: "chain \<Rightarrow> (addr \<times> nat) list" where
  "chain_holds c = bvec_blocks (arenas c) @ map arena_block (chain_list c)"

definition descriptor_ok :: "arena \<Rightarrow> bool" where
  "descriptor_ok a \<longleftrightarrow> arena_ok a \<and> single_type (allocation_type a) \<and> data a \<noteq> NULL"

abbreviation free_bytes :: "arena \<Rightarrow> nat" where
  "free_bytes a \<equiv> capacity a - last_index a"

definition chain_marks :: "chain \<Rightarrow> bool" where
  "chain_marks c \<longleftrightarrow>
    first_open c \<le> length (chain_list c) \<and>
    (\<forall>i<first_open c. arnm_arena_is_used_up (free_bytes (chain_list c ! i)) (full_remaining c))"

definition chain_ok :: "world \<Rightarrow> chain \<Rightarrow> bool" where
  "chain_ok w c \<longleftrightarrow>
    bookkeeping c = NULL \<and> flat_sound NULL w \<and> bvec_shape (arenas c) \<and> None \<notin> set (bvec_list (arenas c)) \<and>
    (\<forall>a\<in>set (chain_list c). descriptor_ok a) \<and> held_ok (flat_owns NULL) w (chain_holds c) \<and>
    chain_marks c \<and> 0 < arena_capacity c \<and> arena_capacity c \<le> ARNM_MAX_ALLOC_SIZE"

definition chain_owns :: "chain \<Rightarrow> addr \<Rightarrow> nat \<Rightarrow> bool" where
  "chain_owns c p n \<longleftrightarrow> (\<exists>a\<in>set (chain_list c). arena_owns a p n)"

abbreviation slot_of :: "chain \<Rightarrow> nat \<Rightarrow> addr" where
  "slot_of c i \<equiv> elem_addr (arenas c) i"

lemma length_chain_list [simp]: "length (chain_list c) = bv_size (arenas c)"
  by (simp add: chain_list_def)

lemma arena_count_of_eq [simp]: "arena_count_of c = bv_size (arenas c)"
  by (simp add: arena_count_of_def arnm_bvec_size_def)

lemma chain_list_cong [simp]:
  "chain_list (c\<lparr>first_open := f\<rparr>) = chain_list c" "chain_holds (c\<lparr>first_open := f\<rparr>) = chain_holds c"
  by (simp_all add: chain_list_def chain_holds_def)

lemma host_flat [simp]:
  "flat_sound NULL w \<longleftrightarrow> host_ok (heap w)" "flat_owns NULL w p n \<longleftrightarrow> (p, n) \<in> set (blocks (heap w))"
  by (simp_all add: flat_sound_def flat_owns_def)

lemma chain_ok_heap: "blocks (heap w') = blocks (heap w) \<Longrightarrow> chain_ok w' c = chain_ok w c"
  by (simp add: chain_ok_def held_ok_def host_ok_def)

lemma chain_bvec: "chain_ok w c \<Longrightarrow> bvec_ok (flat_owns NULL) w (arenas c)"
  by (simp add: chain_ok_def bvec_ok_def chain_holds_def held_ok_append)

lemma chain_arena_ok: "chain_ok w c \<Longrightarrow> i < bv_size (arenas c) \<Longrightarrow> descriptor_ok (chain_list c ! i)"
  using nth_mem [of i "chain_list c"] by (simp add: chain_ok_def)

lemma chain_room: "chain_ok w c \<Longrightarrow> i < bv_size (arenas c) \<Longrightarrow>
    i < allocated_count (arenas c) * bucket_n (arenas c)"
  using bvec_size_bound(1) [of "arenas c"] by (simp add: chain_ok_def)

lemma chain_get [simp]:
  assumes "chain_ok w c" "i < bv_size (arenas c)"
  shows "arnm_bvec_get (arenas c) i = slot_of c i" "arnm_bvec_at (arenas c) i = slot_of c i"
  using bvec_get_elem [OF _ chain_room [OF assms]] bvec_at_elem [of "arenas c" i] assms
  by (simp_all add: chain_ok_def)

lemma chain_load [simp]:
  assumes "chain_ok w c" "i < bv_size (arenas c)"
  shows "load_arena (slot_of c i) c = chain_list c ! i"
proof -
  have "bvec_read (slot_of c i) (arenas c) = cell (arenas c) i"
    by (rule bvec_read_elem [OF chain_bvec [OF assms(1)] chain_room [OF assms]])
  moreover have "cell (arenas c) i = bvec_list (arenas c) ! i" using assms(2) by (simp add: bvec_list_def)
  moreover have "bvec_list (arenas c) ! i \<noteq> None"
    using assms nth_mem [of i "bvec_list (arenas c)"] by (metis chain_ok_def length_bvec_list)
  ultimately show ?thesis using assms(2) by (auto simp: load_arena_def chain_list_def)
qed

lemma store_fields [simp]:
  "first_open (store_arena p a c) = first_open c" "full_remaining (store_arena p a c) = full_remaining c"
  "arena_capacity (store_arena p a c) = arena_capacity c" "bookkeeping (store_arena p a c) = bookkeeping c"
  "arena_max_count (store_arena p a c) = arena_max_count c" "chain_type (store_arena p a c) = chain_type c"
  "bv_size (arenas (store_arena p a c)) = bv_size (arenas c)"
  "slot_of (store_arena p a c) i = slot_of c i"
  "bvec_blocks (arenas (store_arena p a c)) = bvec_blocks (arenas c)"
  by (simp_all add: store_arena_def)

lemma chain_store [simp]:
  assumes "chain_ok w c" "i < bv_size (arenas c)"
  shows "chain_list (store_arena (slot_of c i) a c) = (chain_list c)[i := a]"
    and "bvec_list (arenas (store_arena (slot_of c i) a c)) = (bvec_list (arenas c))[i := Some a]"
  using bvec_write_list [OF chain_bvec [OF assms(1)] assms(2)]
  by (simp_all add: store_arena_def chain_list_def map_update)

lemma chain_store_holds:
  assumes "chain_ok w c" "i < bv_size (arenas c)" "arena_block a = arena_block (chain_list c ! i)"
  shows "chain_holds (store_arena (slot_of c i) a c) = chain_holds c"
proof -
  have "map arena_block ((chain_list c)[i := a]) = map arena_block (chain_list c)"
    using assms(2,3) by (simp add: map_update list_update_same_conv)
  then show ?thesis using assms(1,2) by (simp add: chain_holds_def)
qed

text \<open>Storing a descriptor of the same block, with a mark that still says the truth, keeps a chain.\<close>

lemma chain_store_ok:
  assumes "chain_ok w c" "i < bv_size (arenas c)"
    and "descriptor_ok a" "arena_block a = arena_block (chain_list c ! i)"
    and "chain_marks ((store_arena (slot_of c i) a c)\<lparr>first_open := k\<rparr>)"
  shows "chain_ok w ((store_arena (slot_of c i) a c)\<lparr>first_open := k\<rparr>)"
proof -
  have "bvec_shape (arenas (store_arena (slot_of c i) a c))"
    using bvec_write_ok [OF chain_bvec [OF assms(1)] chain_room [OF assms(1,2)], of a]
    by (simp add: store_arena_def bvec_ok_def)
  moreover have "None \<notin> set ((bvec_list (arenas c))[i := Some a])"
    using assms(1) set_update_subset_insert [of "bvec_list (arenas c)" i "Some a"] by (auto simp: chain_ok_def)
  moreover have "\<forall>b\<in>set ((chain_list c)[i := a]). descriptor_ok b"
    using assms(1,3) set_update_subset_insert [of "chain_list c" i a] by (auto simp: chain_ok_def)
  ultimately show ?thesis
    using assms chain_store_holds [OF assms(1,2,4)] chain_store [OF assms(1,2), of a] by (simp add: chain_ok_def)
qed

lemma chain_first_open_ok:
  "chain_ok w c \<Longrightarrow> chain_marks (c\<lparr>first_open := k\<rparr>) \<Longrightarrow> chain_ok w (c\<lparr>first_open := k\<rparr>)"
  by (simp add: chain_ok_def)

text \<open>Two arenas of a chain share no byte.\<close>

lemma arenas_apart:
  assumes "chain_ok w c" "i < bv_size (arenas c)" "j < bv_size (arenas c)" "i \<noteq> j"
  shows "apart (data (chain_list c ! i)) (capacity (chain_list c ! i))
    (data (chain_list c ! j)) (capacity (chain_list c ! j))"
proof -
  have "all_apart (map arena_block (chain_list c))"
    using assms(1) by (simp add: chain_ok_def chain_holds_def held_ok_def all_apart_append)
  then have nth: "apart (data (chain_list c ! k)) (capacity (chain_list c ! k))
      (data (chain_list c ! l)) (capacity (chain_list c ! l))" if "k < l" "l < bv_size (arenas c)" for k l
    using that by (simp add: all_apart_def sorted_wrt_iff_nth_less)
  then show ?thesis using assms(2-4) apart_commute by (metis nat_neq_iff)
qed

lemma chain_owns_nth: "chain_owns c p n \<longleftrightarrow> (\<exists>i<bv_size (arenas c). arena_owns (chain_list c ! i) p n)"
  by (fastforce simp: chain_owns_def in_set_conv_nth)

lemma arena_owns_inside:
  assumes "descriptor_ok a" "arena_owns a p n"
  shows "data a \<le> p" "p + n \<le> data a + capacity a" "p + ARNM_ALIGN8 n \<le> data a + last_index a" "0 < n"
    "p < data a + capacity a"
  using assms align8_bounds [of n] by (auto simp: arena_owns_def descriptor_ok_def arena_ok_def)

section \<open>Finding an arena\<close>

lemma slot_not_null:
  assumes "chain_ok w c" "i < bv_size (arenas c)"
  shows "slot_of c i \<noteq> NULL"
proof -
  have sl: "bvec_slots (arenas c)" using assms(1) by (simp add: chain_ok_def bvec_shape_def)
  have "i div bucket_n (arenas c) < allocated_count (arenas c)"
    using chain_room [OF assms] by (simp add: less_mult_imp_div_less)
  then obtain p cs where "slots (arenas c) ! (i div bucket_n (arenas c)) = Some (p, cs)" "p \<noteq> NULL"
    "slot_ptr (arenas c) (i div bucket_n (arenas c)) = p"
    using slot_some [OF sl] by metis
  then show ?thesis by (simp add: elem_addr_def)
qed

lemma remaining_descriptor: "descriptor_ok a \<Longrightarrow> remaining_bytes (Some a) = free_bytes a"
  by (simp add: descriptor_ok_def)

abbreviation used_up :: "chain \<Rightarrow> nat \<Rightarrow> bool" where
  "used_up c i \<equiv> arnm_arena_is_used_up (free_bytes (chain_list c ! i)) (full_remaining c)"

text \<open>The arenas a scan for \<open>k\<close> bytes passes over.\<close>

definition passed :: "chain \<Rightarrow> nat \<Rightarrow> nat \<Rightarrow> bool" where
  "passed c k i \<longleftrightarrow> used_up c i \<or> free_bytes (chain_list c ! i) < k"

lemma chain_scan_spec:
  assumes "chain_ok w c" "i + left = bv_size (arenas c)" "first_open c \<le> i"
    and "\<forall>j. first_open c \<le> j \<and> j < i \<longrightarrow> passed c k j"
    and "chain_scan k i left c = (c', found)"
  shows "(\<exists>f. c' = c\<lparr>first_open := f\<rparr> \<and> first_open c \<le> f \<and> chain_ok w c') \<and>
    (case found of
       None \<Rightarrow> \<forall>j. first_open c \<le> j \<and> j < bv_size (arenas c) \<longrightarrow> passed c k j
     | Some p \<Rightarrow> \<exists>j<bv_size (arenas c). p = slot_of c j \<and> first_open c' \<le> j \<and> \<not> passed c k j \<and>
         (\<forall>l. first_open c \<le> l \<and> l < j \<longrightarrow> passed c k l))"
  using assms
proof (induction left arbitrary: i c)
  case 0
  have "c\<lparr>first_open := first_open c\<rparr> = c" by simp
  with 0 show ?case by (auto intro!: exI [of _ "first_open c"])
next
  case (Suc left)
  note ok = Suc.prems(1)
  have i: "i < bv_size (arenas c)" using Suc.prems(2) by simp
  note d = remaining_descriptor [OF chain_arena_ok [OF ok i]]
  note run = Suc.prems(5) [simplified, unfolded chain_get(1) [OF ok i] Let_def chain_load [OF ok i] d,
      simplified slot_not_null [OF ok i] if_False]
  show ?case
  proof (cases "used_up c i")
    case True
    let ?c = "if i = first_open c then c\<lparr>first_open := u32 (first_open c + 1)\<rparr> else c"
    have "bv_size (arenas c) \<le> UINT32_MAX"
      using bvec_size_bound [of "arenas c"] ok by (auto simp: chain_ok_def UINT32_MAX_def)
    then have f: "u32 (first_open c + 1) = first_open c + 1" if "i = first_open c" using that i by simp
    have marks: "chain_marks ?c"
      using ok True i f by (auto simp: chain_ok_def chain_marks_def less_Suc_eq chain_list_def)
    have okc: "chain_ok w ?c"
      using ok marks chain_first_open_ok [OF ok, of "u32 (first_open c + 1)"] by (auto split: if_splits)
    have same: "chain_list ?c = chain_list c" "full_remaining ?c = full_remaining c" "arenas ?c = arenas c"
      by (auto simp: chain_list_def)
    have passed: "passed ?c k j = passed c k j" for j by (simp add: passed_def same)
    have fo: "first_open c \<le> first_open ?c" "first_open ?c \<le> Suc i" using f Suc.prems(3) by auto
    have pi: "passed c k i" using True by (simp add: passed_def)
    have "chain_scan k (Suc i) left ?c = (c', found)" using run True by simp
    moreover have "\<forall>j. first_open ?c \<le> j \<and> j < Suc i \<longrightarrow> passed ?c k j"
      using Suc.prems(4) pi fo(1) unfolding passed less_Suc_eq by (meson le_trans)
    moreover have "Suc i + left = bv_size (arenas ?c)" unfolding same using Suc.prems(2) by simp
    ultimately have ih: "(\<exists>f. c' = ?c\<lparr>first_open := f\<rparr> \<and> first_open ?c \<le> f \<and> chain_ok w c') \<and>
      (case found of
         None \<Rightarrow> \<forall>j. first_open ?c \<le> j \<and> j < bv_size (arenas c) \<longrightarrow> passed c k j
       | Some p \<Rightarrow> \<exists>j<bv_size (arenas c). p = slot_of c j \<and> first_open c' \<le> j \<and> \<not> passed c k j \<and>
           (\<forall>l. first_open ?c \<le> l \<and> l < j \<longrightarrow> passed c k l))"
      using Suc.IH [OF okc _ fo(2)] unfolding same passed by blast
    have step: "first_open c \<le> j \<longleftrightarrow> first_open ?c \<le> j \<or> (j = i \<and> i = first_open c)" for j
      using f by auto
    have c': "\<exists>f. c' = c\<lparr>first_open := f\<rparr> \<and> first_open c \<le> f \<and> chain_ok w c'"
      using ih fo(1) by (auto split: if_splits intro: le_trans)
    moreover have "case found of
       None \<Rightarrow> \<forall>j. first_open c \<le> j \<and> j < bv_size (arenas c) \<longrightarrow> passed c k j
     | Some p \<Rightarrow> \<exists>j<bv_size (arenas c). p = slot_of c j \<and> first_open c' \<le> j \<and> \<not> passed c k j \<and>
         (\<forall>l. first_open c \<le> l \<and> l < j \<longrightarrow> passed c k l)"
    proof (cases found)
      case None
      then show ?thesis using ih pi unfolding step by auto
    next
      case (Some p)
      then show ?thesis using ih pi unfolding step by (simp only: option.case) blast
    qed
    ultimately show ?thesis by blast
  next
    case False
    show ?thesis
    proof (cases "k \<le> free_bytes (chain_list c ! i)")
      case True
      then have "c' = c" "found = Some (slot_of c i)" using run False by auto
      moreover have "\<exists>f. c = c\<lparr>first_open := f\<rparr> \<and> first_open c \<le> f"
        by (rule exI [of _ "first_open c"]) simp
      moreover have "\<not> passed c k i" using True False by (simp add: passed_def)
      ultimately show ?thesis using i ok Suc.prems(3,4) by auto
    next
      case small: False
      then have p: "passed c k i" by (simp add: passed_def)
      have "chain_scan k (Suc i) left c = (c', found)" using run False small by simp
      from Suc.IH [OF ok _ _ _ this] show ?thesis
        using Suc.prems(2,3,4) p by (auto simp: less_Suc_eq)
    qed
  qed
qed

text \<open>The owner of a byte of an arena is that arena, wherever the walk begins.\<close>

abbreviation inside :: "arena \<Rightarrow> addr \<Rightarrow> bool" where
  "inside a p \<equiv> data a \<le> p \<and> p < data a + capacity a"

lemma inside_unique:
  assumes "chain_ok w c" "i < bv_size (arenas c)" "j < bv_size (arenas c)"
    and "inside (chain_list c ! i) p" "inside (chain_list c ! j) p"
  shows "i = j"
  using arenas_apart [OF assms(1-3)] assms(4,5) by (auto simp: apart_def)

lemma find_owner_loop_spec:
  assumes "chain_ok w c" "start < bv_size (arenas c)" "seen + left = bv_size (arenas c)"
    and "find_owner_loop c p (bv_size (arenas c)) start seen left = found"
  shows "(\<forall>i. found = Some i \<longrightarrow> i < bv_size (arenas c) \<and> inside (chain_list c ! i) p) \<and>
    (\<forall>s i. found = None \<and> seen \<le> s \<and> s < bv_size (arenas c) \<and> i = (start + s) mod bv_size (arenas c) \<longrightarrow>
      \<not> inside (chain_list c ! i) p)"
  using assms
proof (induction left arbitrary: seen)
  case (Suc left)
  note ok = Suc.prems(1)
  let ?n = "bv_size (arenas c)" and ?i = "(start + seen) mod bv_size (arenas c)"
  have "?n \<le> 268402688" using bvec_size_bound [of "arenas c"] ok by (auto simp: chain_ok_def)
  then have small: "start + seen \<le> UINT32_MAX" using Suc.prems(2,3) by (simp add: UINT32_MAX_def)
  have index: "(if ?n \<le> start + seen then start + seen - ?n else start + seen) = ?i"
    using Suc.prems(2,3) by (simp add: mod_if)
  have i: "?i < ?n" using Suc.prems(2) by simp
  have d: "descriptor_ok (chain_list c ! ?i)" by (rule chain_arena_ok [OF ok i])
  note run = Suc.prems(4) [simplified, unfolded Let_def u32_id [OF small] index chain_get(1) [OF ok i] chain_load [OF ok i]]
  show ?case
  proof (cases "inside (chain_list c ! ?i) p")
    case True
    then have "found = Some ?i" using run d by (auto simp: descriptor_ok_def split: if_splits)
    then show ?thesis using True i by simp
  next
    case False
    then have next_run: "find_owner_loop c p ?n start (Suc seen) left = found"
      using run d by (auto simp: descriptor_ok_def split: if_splits)
    have "seen \<le> s \<longleftrightarrow> s = seen \<or> Suc seen \<le> s" for s by auto
    then show ?thesis using Suc.IH [OF ok Suc.prems(2) _ next_run] Suc.prems(3) False by auto
  qed
qed simp

lemma find_owner_spec:
  assumes "chain_ok w c" "p \<noteq> NULL"
  shows "multi_arena_find_owner c p = Some i \<longleftrightarrow> i < bv_size (arenas c) \<and> inside (chain_list c ! i) p"
proof (cases "bv_size (arenas c) = 0")
  case False
  let ?n = "bv_size (arenas c)"
  define s where "s = (if first_open c < ?n then first_open c else 0)"
  define found where "found = find_owner_loop c p ?n s 0 ?n"
  have run: "multi_arena_find_owner c p = found"
    using False assms(2) by (simp add: multi_arena_find_owner_def Let_def found_def s_def)
  have s: "s < ?n" using False by (simp add: s_def)
  have spec: "found = Some i \<Longrightarrow> i < ?n \<and> inside (chain_list c ! i) p"
    "found = None \<Longrightarrow> t < ?n \<Longrightarrow> \<not> inside (chain_list c ! ((s + t) mod ?n)) p" for i t
    using find_owner_loop_spec [OF assms(1) s add_0 found_def [symmetric]] by blast+
  show ?thesis
  proof
    assume "multi_arena_find_owner c p = Some i"
    then show "i < ?n \<and> inside (chain_list c ! i) p" using spec(1) run by simp
  next
    assume i: "i < ?n \<and> inside (chain_list c ! i) p"
    define t where "t = (if s \<le> i then i - s else ?n + i - s)"
    have "i < ?n" using i by blast
    then have t: "(s + t) mod ?n = i" "t < ?n" using s by (auto simp: t_def mod_if)
    have "found \<noteq> None" using spec(2) [OF _ t(2)] i unfolding t(1) by blast
    then obtain j where j: "found = Some j" by blast
    then have "j = i" using spec(1) i inside_unique [OF assms(1)] by blast
    then show "multi_arena_find_owner c p = Some i" using run j by simp
  qed
qed (simp add: multi_arena_find_owner_def)

lemma find_owner_of_owned:
  assumes "chain_ok w c" "i < bv_size (arenas c)" "arena_owns (chain_list c ! i) p n"
  shows "multi_arena_find_owner c p = Some i" "p \<noteq> NULL"
proof -
  note d = chain_arena_ok [OF assms(1,2)]
  show "p \<noteq> NULL" using d assms(3) by (auto simp: arena_owns_def descriptor_ok_def)
  then show "multi_arena_find_owner c p = Some i"
    using find_owner_spec [OF assms(1), of p i] arena_owns_inside [OF d assms(3)] assms(2) by simp
qed

section \<open>Opening an arena\<close>

text \<open>A step of the C heap, seen by one that holds the blocks \<open>bs\<close> before and \<open>bs'\<close> after.\<close>

abbreviation host_step :: "world \<Rightarrow> (addr \<times> nat) list \<Rightarrow> world \<Rightarrow> (addr \<times> nat) list \<Rightarrow> bool" where
  "host_step \<equiv> flat.safe_step NULL"

lemma init_arena_spec:
  assumes "host_ok (heap w)" "held_ok (flat_owns NULL) w bs" "0 < cap" "cap \<le> ARNM_MAX_ALLOC_SIZE"
    and "init_arena cap old w = (r, a, w')"
  shows "if r = ARNM_SUCCESS
    then descriptor_ok a \<and> last_index a = 0 \<and> capacity a = ARNM_ALIGN8 cap \<and>
      allocation_type a = ARNM_ALLOC_TYPE_ARENA_OWNED \<and> host_step w bs w' (arena_block a # bs)
    else r \<noteq> ARNM_WARNING_ARENA_MEMORY_NOT_RECLAIMED \<and> host_step w bs w' bs"
proof -
  have k: "arnm_align8_u32 cap = ARNM_ALIGN8 cap" "0 < ARNM_ALIGN8 cap" "ARNM_ALIGN8 cap \<le> UINT32_MAX"
    using assms(3,4) align8_bounds [of cap] align8_u32_bound [of cap] by (auto simp: arnm_align8_u32_def)
  obtain r1 p w1 where al: "arnm_alloc (Some NULL) (ARNM_ALIGN8 cap) NULL w = (r1, p, w1)" by (metis prod_cases3)
  then have op: "op_alloc (flat_ops NULL) (ARNM_ALIGN8 cap) w = (r1, the p, w1)" by (simp add: flat_ops_def)
  have step: "host_step w bs w1 (if r1 = ARNM_SUCCESS then (the p, ARNM_ALIGN8 cap) # bs else bs) \<and>
      r1 \<noteq> ARNM_WARNING_ARENA_MEMORY_NOT_RECLAIMED"
    by (rule flat.hold_alloc [OF _ assms(2) k(2) op]) (simp add: assms(1))
  have run: "r = r1" "w' = w1" "r1 = ARNM_SUCCESS \<Longrightarrow> a = \<lparr>data = the p, last_index = 0, capacity = ARNM_ALIGN8 cap,
      out_of_memory_capacity = 0, allocation_type = ARNM_ALLOC_TYPE_ARENA_OWNED\<rparr>"
    using assms(3,5) al k by (auto simp: init_arena_def split: if_splits)
  show ?thesis
  proof (cases "r1 = ARNM_SUCCESS")
    case True
    then have "flat_owns NULL w1 (the p) (ARNM_ALIGN8 cap)" "flat_sound NULL w1" using step by auto
    from flat_owned_law [OF this(2,1)] have "descriptor_ok a"
      using run(3) [OF True] k align8_bounds [of cap] by (simp add: descriptor_ok_def arena_ok_def)
    with step True run(1,2) run(3) [OF True] show ?thesis by simp
  qed (use step run(1,2) in auto)
qed

lemma release_owned_spec:
  assumes "host_step w0 bs0 w (arena_block a # bs)" "descriptor_ok a"
    and "allocation_type a = ARNM_ALLOC_TYPE_ARENA_OWNED" "release_arena a w = (a', w')"
  shows "host_step w0 bs0 w' bs"
proof -
  have op: "op_free (flat_ops NULL) (data a) (capacity a) w = (ARNM_SUCCESS, w')"
    using assms(2-4)
    by (auto simp: flat_ops_def arnm_free_def release_arena_def is_arena_def descriptor_ok_def Let_def)
  have "flat_sound NULL w" "held_ok (flat_owns NULL) w (arena_block a # bs)" using assms(1) by auto
  from flat.hold_free [OF this op] have "host_step w (arena_block a # bs) w' bs" by blast
  with assms(1) show ?thesis by (rule flat.safe_step_trans)
qed

lemma chain_blocks_foreign:
  assumes "chain_ok w c" "foreign_safe (flat_ops NULL) (flat_owns NULL) w (bvec_blocks (arenas c)) w' bs'"
    and "a \<in> set (chain_list c)"
  shows "rd (bytes_of w') (data a) (capacity a) = rd (bytes_of w) (data a) (capacity a)"
proof -
  have h: "held_ok (flat_owns NULL) w (bvec_blocks (arenas c) @ map arena_block (chain_list c))"
    using assms(1) by (simp add: chain_ok_def chain_holds_def)
  then have "flat_owns NULL w (data a) (capacity a)"
    using assms(3) by (auto simp: held_ok_append held_ok_def)
  moreover have "apart_from (bvec_blocks (arenas c)) (data a) (capacity a)"
    using h assms(3) by (auto simp: held_ok_append)
  ultimately show ?thesis using assms(2) by (simp add: foreign_safe_def)
qed

lemma release_bytes: "release_arena a w = (a', w') \<Longrightarrow> bytes_of w' = bytes_of w"
  by (auto simp: release_arena_def host_free_def Let_def split: if_splits)

lemma host_alloc_result:
  "op_alloc (flat_ops NULL) n w = (r, p, w') \<Longrightarrow> r \<noteq> ARNM_WARNING_ARENA_MEMORY_NOT_RECLAIMED"
  by (auto simp: flat_ops_def arnm_alloc_def is_default_alloc_def split: if_splits prod.splits)

lemma host_push_result:
  assumes "arnm_bvec_push_ptr (flat_ops NULL) (Some x) v w = (r, v', w')"
  shows "r \<noteq> ARNM_WARNING_ARENA_MEMORY_NOT_RECLAIMED"
  using assms
  by (auto simp: arnm_bvec_push_ptr_def arnm_bvec_emplace_def arnm_bvec_grow_def grow_bucket_def
      open_bucket_def Let_def dest: host_alloc_result split: prod.splits if_splits)

lemma chain_push_spec:
  assumes "chain_ok w c" "descriptor_ok a" "held_ok (flat_owns NULL) w (arena_block a # chain_holds c)"
    and "multi_arena_push a c w = (r, c', w')"
  shows "(\<exists>v. c' = c\<lparr>arenas := v\<rparr>) \<and> chain_ok w' c' \<and>
    (\<forall>i<bv_size (arenas c). slot_of c' i = slot_of c i) \<and> r \<noteq> ARNM_WARNING_ARENA_MEMORY_NOT_RECLAIMED \<and>
    (\<forall>b\<in>set (chain_list c). rd (bytes_of w') (data b) (capacity b) = rd (bytes_of w) (data b) (capacity b)) \<and>
    (if r = ARNM_SUCCESS
     then chain_list c' = chain_list c @ [a] \<and> host_step w (arena_block a # chain_holds c) w' (chain_holds c')
     else chain_list c' = chain_list c \<and>
       host_step w (arena_block a # chain_holds c) w'
         (if allocation_type a = ARNM_ALLOC_TYPE_ARENA_OWNED then chain_holds c' else arena_block a # chain_holds c'))"
proof -
  have bk: "bookkeeping c = NULL" "flat_sound NULL w" using assms(1) by (auto simp: chain_ok_def)
  obtain r1 v w1 where push: "arnm_bvec_push_ptr (flat_ops NULL) (Some a) (arenas c) w = (r1, v, w1)"
    by (metis prod_cases3)
  note step = flat.push_spec [OF bk(2) chain_bvec [OF assms(1)] push]
  let ?c = "c\<lparr>arenas := v\<rparr>"
  let ?bs = "bvec_blocks (arenas c)" and ?as = "map arena_block (chain_list c)"
  have list: "bvec_list v = (if r1 = ARNM_SUCCESS then bvec_list (arenas c) @ [Some a] else bvec_list (arenas c))"
    using step by (simp split: if_splits)
  then have clist: "chain_list ?c = (if r1 = ARNM_SUCCESS then chain_list c @ [a] else chain_list c)"
    by (simp add: chain_list_def)
  have bv: "host_step w ?bs w1 (bvec_blocks v)" "bvec_shape v"
    using step by (auto simp: bvec_ok_def)
  have hold: "held_ok (flat_owns NULL) w (?bs @ arena_block a # ?as)"
    using assms(3) by (simp only: held_ok_middle chain_holds_def)
  have held1: "held_ok (flat_owns NULL) w1 (bvec_blocks v @ arena_block a # ?as)"
    by (rule held_ok_foreign [OF _ hold]) (use bv(1) in auto)
  have "foreign_safe (flat_ops NULL) (flat_owns NULL) w (?bs @ arena_block a # ?as)
      w1 (bvec_blocks v @ arena_block a # ?as)"
    using bv(1) by (intro foreign_safe_more) auto
  then have fs: "foreign_safe (flat_ops NULL) (flat_owns NULL) w (arena_block a # chain_holds c)
      w1 (arena_block a # bvec_blocks v @ ?as)"
    by (rule foreign_safe_set) (auto simp: chain_holds_def)
  have held2: "held_ok (flat_owns NULL) w1 (arena_block a # bvec_blocks v @ ?as)"
    using held1 by (simp only: held_ok_middle)
  have all: "host_step w (arena_block a # chain_holds c) w1 (arena_block a # bvec_blocks v @ ?as)"
    using fs held2 bv(1) by blast
  have marks: "chain_marks ?c"
    using assms(1) clist by (auto simp: chain_ok_def chain_marks_def nth_append list)
  have ok_if: "chain_ok w2 ?c" if "host_step w (arena_block a # chain_holds c) w2 (chain_holds ?c)" for w2
    using assms(1,2) that bv(2) marks list clist by (auto simp: chain_ok_def)
  have slots: "\<forall>i<bv_size (arenas c). slot_of ?c i = slot_of c i" using step by simp
  have bytes: "rd (bytes_of w1) (data b) (capacity b) = rd (bytes_of w) (data b) (capacity b)"
    if "b \<in> set (chain_list c)" for b
    using chain_blocks_foreign [OF assms(1) _ that] bv(1) by blast
  note result = host_push_result [OF push]
  show ?thesis
  proof (cases "r1 = ARNM_SUCCESS")
    case True
    then have res: "r = ARNM_SUCCESS" "c' = ?c" "w' = w1"
      using assms(4) push bk(1) by (auto simp: multi_arena_push_def)
    have "set (arena_block a # bvec_blocks v @ ?as) = set (chain_holds ?c)"
      using clist True by (auto simp: chain_holds_def)
    moreover have "held_ok (flat_owns NULL) w1 (chain_holds ?c)"
    proof -
      have "held_ok (flat_owns NULL) w1 ((bvec_blocks v @ ?as) @ [arena_block a])"
        using held2 held_ok_swap [of "flat_owns NULL" w1 "[arena_block a]" "bvec_blocks v @ ?as"]
        by (simp only: append_Cons append_Nil)
      then show ?thesis using clist True by (simp add: chain_holds_def)
    qed
    ultimately have "host_step w (arena_block a # chain_holds c) w1 (chain_holds ?c)"
      using fs bv(1) foreign_safe_set [OF fs] by blast
    then show ?thesis using res ok_if slots clist True bytes by auto
  next
    case False
    obtain a' w2 where rel: "release_arena a w1 = (a', w2)" by fastforce
    have res: "r = r1" "c' = ?c" "w' = w2"
      using assms(4) push bk(1) rel False by (auto simp: multi_arena_push_def)
    have holds: "chain_holds ?c = bvec_blocks v @ ?as" using clist False by (simp add: chain_holds_def)
    show ?thesis
    proof (cases "allocation_type a = ARNM_ALLOC_TYPE_ARENA_OWNED")
      case True
      from release_owned_spec [OF all assms(2) True rel] show ?thesis
        using res ok_if slots clist False True holds bytes release_bytes [OF rel] result by auto
    next
      case ext: False
      then have "w2 = w1" using rel assms(2) by (auto simp: release_arena_def descriptor_ok_def Let_def)
      then show ?thesis using all held2 res slots clist False ext holds assms(1) bv(2) marks list bytes result
        by (auto simp: chain_ok_def)
    qed
  qed
qed

section \<open>Allocating from a chain\<close>

abbreviation bump :: "nat \<Rightarrow> arena \<Rightarrow> arena" where
  "bump k a \<equiv> a\<lparr>last_index := last_index a + k\<rparr>"

text \<open>
  A request of \<open>k\<close> bytes that was served: from the arena at \<open>i\<close>, one of the arenas there were or a new
  one behind them, at that arena's index.
\<close>

definition served :: "chain \<Rightarrow> nat \<Rightarrow> addr \<Rightarrow> chain \<Rightarrow> nat \<Rightarrow> bool" where
  "served c k p c' i \<longleftrightarrow>
    (\<exists>as. (as = chain_list c \<and> \<not> passed c k i \<and> (\<forall>l<i. first_open c \<le> l \<longrightarrow> passed c k l) \<or>
        (\<exists>a. as = chain_list c @ [a] \<and> last_index a = 0 \<and> i = length (chain_list c) \<and>
          capacity a = ARNM_ALIGN8 (max (arena_capacity c) k) \<and>
          (\<forall>j<bv_size (arenas c). first_open c \<le> j \<longrightarrow> passed c k j))) \<and>
      i < length as \<and> k \<le> free_bytes (as ! i) \<and> p = data (as ! i) + last_index (as ! i) \<and>
      chain_list c' = as[i := bump k (as ! i)] \<and> descriptor_ok (as ! i))"

definition same_shape :: "chain \<Rightarrow> chain \<Rightarrow> bool" where
  "same_shape c c' \<longleftrightarrow>
    full_remaining c' = full_remaining c \<and> arena_capacity c' = arena_capacity c \<and>
    arena_max_count c' = arena_max_count c \<and> bookkeeping c' = bookkeeping c \<and> chain_type c' = chain_type c \<and>
    (\<forall>i<bv_size (arenas c). slot_of c' i = slot_of c i)"

lemma alloc_from_spec:
  assumes "chain_ok w c" "i < bv_size (arenas c)" "k mod 8 = 0" "k \<le> free_bytes (chain_list c ! i)"
    and "first_open c \<le> i" "alloc_from buffer k (slot_of c i) c w = (r, p, c', w')"
  shows "r = ARNM_SUCCESS \<and> p = data (chain_list c ! i) + last_index (chain_list c ! i) \<and> w' = w \<and>
    chain_ok w c' \<and> chain_list c' = (chain_list c)[i := bump k (chain_list c ! i)] \<and>
    chain_holds c' = chain_holds c \<and> first_open c' = first_open c \<and> same_shape c c' \<and>
    bv_size (arenas c') = bv_size (arenas c) \<and> bvec_blocks (arenas c') = bvec_blocks (arenas c)"
proof -
  let ?a = "chain_list c ! i"
  have d: "descriptor_ok ?a" by (rule chain_arena_ok [OF assms(1,2)])
  then have "arena_ok (bump k ?a)"
    using assms(3,4) by (auto simp: descriptor_ok_def arena_ok_def mod8_add)
  then have d': "descriptor_ok (bump k ?a)" using d by (simp add: descriptor_ok_def)
  have res: "r = ARNM_SUCCESS" "p = data ?a + last_index ?a" "w' = w" "c' = store_arena (slot_of c i) (bump k ?a) c"
    using assms d arena_alloc_aligned_cases [of ?a buffer k]
    by (auto simp: alloc_from_def descriptor_ok_def)
  have "chain_marks c'" using assms(1,2,5) by (auto simp: res chain_ok_def chain_marks_def)
  moreover have same: "c'\<lparr>first_open := first_open c\<rparr> = c'" by (simp add: res store_arena_def)
  ultimately have "chain_ok w (c'\<lparr>first_open := first_open c\<rparr>)"
    unfolding res(4) by (intro chain_store_ok [OF assms(1,2) d']) (simp_all del: store_fields)
  then have "chain_ok w c'" unfolding same .
  then show ?thesis
    using assms(1,2) chain_store_holds [OF assms(1,2), of "bump k ?a"] by (simp add: res same_shape_def)
qed

lemma multi_arena_alloc_spec:
  assumes "chain_ok w c" "0 < k" "k mod 8 = 0" "k \<le> ARNM_MAX_ALLOC_SIZE"
    and "multi_arena_alloc buffer k c w = (r, p, c', w')"
  shows "chain_ok w' c' \<and> host_step w (chain_holds c) w' (chain_holds c') \<and> same_shape c c' \<and>
    (\<forall>a\<in>set (chain_list c). rd (bytes_of w') (data a) (capacity a) = rd (bytes_of w) (data a) (capacity a)) \<and>
    r \<noteq> ARNM_WARNING_ARENA_MEMORY_NOT_RECLAIMED \<and>
    (if r = ARNM_SUCCESS then \<exists>i. served c k p c' i else chain_list c' = chain_list c \<and> p = buffer)"
proof -
  let ?n = "bv_size (arenas c)"
  obtain c1 found where scan: "chain_scan k (first_open c) (?n - first_open c) c = (c1, found)" by fastforce
  have "first_open c \<le> ?n" using assms(1) by (simp add: chain_ok_def chain_marks_def)
  then have s: "(\<exists>f. c1 = c\<lparr>first_open := f\<rparr> \<and> first_open c \<le> f \<and> chain_ok w c1) \<and>
    (case found of
       None \<Rightarrow> \<forall>j. first_open c \<le> j \<and> j < ?n \<longrightarrow> passed c k j
     | Some p \<Rightarrow> \<exists>j<?n. p = slot_of c j \<and> first_open c1 \<le> j \<and> \<not> passed c k j \<and>
         (\<forall>l. first_open c \<le> l \<and> l < j \<longrightarrow> passed c k l))"
    by (intro chain_scan_spec [OF assms(1) _ _ _ scan]) auto
  then obtain f where c1: "c1 = c\<lparr>first_open := f\<rparr>" and ok1: "chain_ok w c1" by blast
  have l1: "chain_list c1 = chain_list c" "arenas c1 = arenas c" "chain_holds c1 = chain_holds c" by (simp_all add: c1)
  have shape1: "same_shape c1 x = same_shape c x" for x by (simp add: same_shape_def c1)
  have refl: "host_step w (chain_holds c) w (chain_holds c)" using assms(1) by (simp add: chain_ok_def)
  have self: "same_shape c c1" by (simp add: same_shape_def c1)
  note run = assms(5) [unfolded multi_arena_alloc_def arena_count_of_eq Let_def scan, simplified]
  show ?thesis
  proof (cases found)
    case (Some q)
    then obtain j where j: "j < ?n" "q = slot_of c1 j" "first_open c1 \<le> j" "\<not> passed c k j"
      "\<forall>l<j. first_open c \<le> l \<longrightarrow> passed c k l" using s l1 by auto
    then have al: "alloc_from buffer k (slot_of c1 j) c1 w = (r, p, c', w')" and room: "k \<le> free_bytes (chain_list c1 ! j)"
      using run Some assms(2) by (auto simp: passed_def l1)
    note step = alloc_from_spec [OF ok1 _ assms(3) room j(3) al, unfolded l1, OF j(1)]
    have "served c k p c' j"
      unfolding served_def using step j room chain_arena_ok [OF assms(1) j(1)] by (intro exI [of _ "chain_list c"]) (simp add: l1)
    then show ?thesis using step refl unfolding shape1 by auto
  next
    case None
    then have all: "\<forall>j<?n. first_open c \<le> j \<longrightarrow> passed c k j" using s by auto
    let ?cap = "if arena_capacity c < k then k else arena_capacity c"
    have cap: "?cap = max (arena_capacity c) k" "0 < ?cap" "?cap \<le> ARNM_MAX_ALLOC_SIZE"
      using assms(1,2,4) by (auto simp: chain_ok_def)
    show ?thesis
    proof (cases "arena_max_count c1 \<noteq> 0 \<and> ?n \<ge> arena_max_count c1")
      case True
      then have "r = ARNM_ERROR_RESOURCE_EXHAUSTED" "p = buffer" "c' = c1" "w' = w"
        using run None assms(2) by auto
      then show ?thesis using ok1 refl self l1 by simp
    next
      case False
      obtain r1 a w1 where init: "init_arena ?cap zero_arena w = (r1, a, w1)" by (metis prod_cases3)
      have h: "host_ok (heap w)" "held_ok (flat_owns NULL) w (chain_holds c)" using assms(1) by (auto simp: chain_ok_def)
      note i1 = init_arena_spec [OF h cap(2,3) init]
      have bytes1: "bytes_of w1 = bytes_of w"
        using init by (auto simp: init_arena_def arnm_alloc_def malloc_def Let_def split: if_splits prod.splits)
      show ?thesis
      proof (cases "r1 = ARNM_SUCCESS")
        case bad: False
        then have "r = r1" "p = buffer" "c' = c1" "w' = w1"
          using run None assms(2) False init by (auto simp: c1 split: if_splits)
        moreover have "chain_ok w1 c1" using i1 bad ok1 l1 by (auto simp: chain_ok_def)
        ultimately show ?thesis using i1 bad self l1 bytes1 by auto
      next
        case True
        obtain r2 c2 w2 where push: "multi_arena_push a c1 w1 = (r2, c2, w2)" by (metis prod_cases3)
        have d: "descriptor_ok a" "last_index a = 0" "capacity a = ARNM_ALIGN8 (max (arena_capacity c) k)"
          "allocation_type a = ARNM_ALLOC_TYPE_ARENA_OWNED"
          "host_step w (chain_holds c) w1 (arena_block a # chain_holds c)"
          using i1 True cap(1) by auto
        have okc: "chain_ok w1 c1" using d(5) ok1 l1 by (auto simp: chain_ok_def)
        have held1: "held_ok (flat_owns NULL) w1 (arena_block a # chain_holds c1)" using d(5) l1 by simp
        note i2 = chain_push_spec [OF okc d(1) held1 push]
        have host2: "host_step w (chain_holds c) w2 (chain_holds c2)"
          using flat.safe_step_trans [OF d(5)] i2 d(4) l1 by (auto split: if_splits)
        have bytes2: "rd (bytes_of w2) (data b) (capacity b) = rd (bytes_of w) (data b) (capacity b)"
          if "b \<in> set (chain_list c)" for b
          using i2 that l1 bytes1 by simp
        have shape2: "same_shape c c2"
          using i2 self by (auto simp: same_shape_def l1)
        show ?thesis
        proof (cases "r2 = ARNM_SUCCESS")
          case bad: False
          then have res: "r = r2" "p = buffer" "c' = c2" "w' = w2"
            using run None assms(2) False init True push by (auto simp: c1 split: if_splits)
          then show ?thesis using i2 host2 bytes2 shape2 bad l1 by (simp add: res)
        next
          case ok: True
          have list: "chain_list c2 = chain_list c @ [a]" using i2 ok l1 by simp
          then have n2: "bv_size (arenas c2) = Suc ?n" by (metis length_chain_list length_append_singleton)
          have shape: "bvec_shape (arenas c2)" using i2 by (simp add: chain_ok_def)
          then have last: "arnm_bvec_back (arenas c2) = slot_of c2 ?n"
            using n2 bvec_back_elem [OF shape] by simp
          then have al: "alloc_from buffer k (slot_of c2 ?n) c2 w2 = (r, p, c', w')"
            using run None assms(2) False init True push ok by (auto simp: c1 split: if_splits)
          have room: "k \<le> free_bytes (chain_list c2 ! ?n)"
            using d(2,3) align8_bounds [of "max (arena_capacity c) k"] by (simp add: list nth_append)
          have fo: "first_open c2 \<le> ?n" using i2 ok1 l1 by (auto simp: chain_ok_def chain_marks_def)
          have ok2: "chain_ok w2 c2" using i2 by simp
          note step = alloc_from_spec [OF ok2 _ assms(3) room fo al, unfolded n2, OF lessI]
          have "served c k p c' ?n"
            unfolding served_def using step d list all room
            by (intro exI [of _ "chain_list c @ [a]"]) (simp add: nth_append)
          moreover have "same_shape c c'" using step shape2 n2 by (auto simp: same_shape_def)
          ultimately show ?thesis using step host2 bytes2 by auto
        qed
      qed
    qed
  qed
qed

subsection \<open>What a request that was served means for the blocks there are\<close>

lemma served_arenas:
  assumes "served c k p c' i" "chain_ok w' c'"
  shows "i < bv_size (arenas c')" "bv_size (arenas c) \<le> bv_size (arenas c')"
    and "\<exists>a. descriptor_ok a \<and> chain_list c' ! i = bump k a \<and> p = data a + last_index a \<and> k \<le> free_bytes a \<and>
      (i < bv_size (arenas c) \<longrightarrow> a = chain_list c ! i)"
    and "l < bv_size (arenas c) \<Longrightarrow> l \<noteq> i \<Longrightarrow> chain_list c' ! l = chain_list c ! l"
proof -
  obtain as where as: "as = chain_list c \<or> (\<exists>a. as = chain_list c @ [a])"
    "i < length as" "k \<le> free_bytes (as ! i)" "p = data (as ! i) + last_index (as ! i)"
    "chain_list c' = as[i := bump k (as ! i)]" "descriptor_ok (as ! i)"
    using assms(1) unfolding served_def by blast
  have n: "bv_size (arenas c') = length as" using as(5) by (metis length_chain_list length_list_update)
  have old: "as ! l = chain_list c ! l" if "l < bv_size (arenas c)" for l using as(1) that by (auto simp: nth_append)
  show "i < bv_size (arenas c')" "bv_size (arenas c) \<le> bv_size (arenas c')" using as(1,2) n by auto
  show "l < bv_size (arenas c) \<Longrightarrow> l \<noteq> i \<Longrightarrow> chain_list c' ! l = chain_list c ! l" using as(5) old by simp
  show "\<exists>a. descriptor_ok a \<and> chain_list c' ! i = bump k a \<and> p = data a + last_index a \<and> k \<le> free_bytes a \<and>
      (i < bv_size (arenas c) \<longrightarrow> a = chain_list c ! i)"
    using as old by (intro exI [of _ "as ! i"]) simp
qed

lemma arena_owns_bump: "arena_owns a q j \<Longrightarrow> arena_owns (bump k a) q j"
  by (auto simp: arena_owns_def)

lemma served_owns:
  assumes "served c k p c' i" "chain_ok w c" "chain_ok w' c'" "k = ARNM_ALIGN8 n" "0 < n"
  shows "chain_owns c q j \<Longrightarrow> chain_owns c' q j" "chain_owns c' p n"
    and "chain_owns c q j \<Longrightarrow> apart p n q j"
proof -
  note sv = served_arenas [OF assms(1,3)]
  obtain a where a: "descriptor_ok a" "chain_list c' ! i = bump k a" "p = data a + last_index a"
    "k \<le> free_bytes a" "i < bv_size (arenas c) \<longrightarrow> a = chain_list c ! i"
    using sv(3) by blast
  show "chain_owns c q j \<Longrightarrow> chain_owns c' q j"
  proof -
    assume "chain_owns c q j"
    then obtain l where l: "l < bv_size (arenas c)" "arena_owns (chain_list c ! l) q j"
      by (auto simp: chain_owns_nth)
    then have "arena_owns (chain_list c' ! l) q j"
      using sv(4) [of l] a(2,5) arena_owns_bump [of "chain_list c ! l" q j k] by (cases "l = i") auto
    moreover have "l < bv_size (arenas c')" using l(1) sv(2) by simp
    ultimately show ?thesis unfolding chain_owns_nth by blast
  qed
  have own: "arena_owns (bump k a) p n"
    using a(1,3) assms(4,5) by (auto simp: arena_owns_def descriptor_ok_def arena_ok_def mod8_add)
  then show "chain_owns c' p n" using a(2) sv(1) by (auto simp: chain_owns_nth)
  show "chain_owns c q j \<Longrightarrow> apart p n q j"
  proof -
    assume "chain_owns c q j"
    then obtain l where l: "l < bv_size (arenas c)" "arena_owns (chain_list c ! l) q j"
      by (auto simp: chain_owns_nth)
    note q = arena_owns_inside [OF chain_arena_ok [OF assms(2) l(1)] l(2)]
    show ?thesis
    proof (cases "l = i")
      case True
      then show ?thesis using q(3) a(3,5) l(1) align8_bounds [of j] by (auto simp: apart_def)
    next
      case False
      then have "apart (data (chain_list c ! l)) (capacity (chain_list c ! l)) (data a) (capacity a)"
        using arenas_apart [OF assms(3), of l i] sv(1,2) sv(4) [OF l(1)] l(1) a(2) by simp
      moreover have "data a \<le> p" "p + n \<le> data a + capacity a"
        using a assms(4) align8_bounds [of n] by (auto simp: descriptor_ok_def arena_ok_def)
      ultimately show ?thesis using q(1,2) by (auto simp: apart_def)
    qed
  qed
qed

lemma rd_part:
  assumes "rd m' a n = rd m a n" "a \<le> p" "p + k \<le> a + n"
  shows "rd m' p k = rd m p k"
proof (rule rd_cong)
  fix x assume "p \<le> x" "x < p + k"
  then have x: "x = a + (x - a)" "x - a < n" using assms(2,3) by auto
  have "rd m' a n ! (x - a) = rd m a n ! (x - a)" using assms(1) by simp
  then show "m' x = m x" using x by simp
qed

lemma chain_owns_bytes:
  assumes "chain_ok w c" "chain_owns c q j"
    and "\<forall>a\<in>set (chain_list c). rd m' (data a) (capacity a) = rd m (data a) (capacity a)"
  shows "rd m' q j = rd m q j"
proof -
  obtain a where a: "a \<in> set (chain_list c)" "arena_owns a q j" using assms(2) by (auto simp: chain_owns_def)
  then have "descriptor_ok a" using assms(1) by (simp add: chain_ok_def)
  then show ?thesis using rd_part [of m' "data a" "capacity a" m q j] arena_owns_inside [OF _ a(2)] assms(3) a(1) by blast
qed

section \<open>Giving back to a chain\<close>

lemma reopen_ok:
  assumes "chain_ok w c" "i < bv_size (arenas c)" "descriptor_ok a" "arena_block a = arena_block (chain_list c ! i)"
  defines "c' \<equiv> multi_arena_reopen a i (store_arena (slot_of c i) a c)"
  shows "chain_ok w c' \<and> chain_list c' = (chain_list c)[i := a] \<and> chain_holds c' = chain_holds c \<and> same_shape c c'"
proof -
  let ?c = "store_arena (slot_of c i) a c"
  have list: "chain_list ?c = (chain_list c)[i := a]" by (rule chain_store(1) [OF assms(1,2)])
  have rem: "remaining_bytes (Some a) = free_bytes a" by (rule remaining_descriptor [OF assms(3)])
  define f where "f = (if i < first_open c \<and> \<not> arnm_arena_is_used_up (free_bytes a) (full_remaining c)
    then i else first_open c)"
  have c': "c' = ?c\<lparr>first_open := f\<rparr>"
    by (auto simp: c'_def multi_arena_reopen_def f_def rem store_arena_def)
  have "chain_marks c'"
    using assms(1,2) by (auto simp: c' chain_marks_def list f_def chain_ok_def nth_list_update)
  then have "chain_ok w c'" using chain_store_ok [OF assms(1-4)] unfolding c' by blast
  then show ?thesis
    using list chain_store_holds [OF assms(1,2,4)] by (simp add: c' same_shape_def)
qed

text \<open>Lowering the index to the start of the block at the end, or into it, frees no other block.\<close>

lemma arena_owns_drop:
  assumes "arena_owns a p n" "data a + last_index a = p + ARNM_ALIGN8 n"
    and "arena_owns a q j" "apart p n q j" "p \<le> data a + l"
  shows "arena_owns (a\<lparr>last_index := l\<rparr>) q j"
proof -
  have "0 < ARNM_ALIGN8 j" using assms(3) align8_bounds [of j] by (auto simp: arena_owns_def)
  then have "q + ARNM_ALIGN8 j \<le> p"
    using arena_owns_apart [OF assms(1,3,4)] assms(2,3) by (auto simp: arena_owns_def apart_def)
  then show ?thesis using assms(3,5) by (auto simp: arena_owns_def)
qed

lemma chain_owns_update:
  assumes "i < bv_size (arenas c)" "chain_list c' = (chain_list c)[i := a]"
    and "\<And>q j. arena_owns (chain_list c ! i) q j \<Longrightarrow> P q j \<Longrightarrow> arena_owns a q j"
    and "chain_owns c q j" "P q j"
  shows "chain_owns c' q j"
proof -
  have n: "bv_size (arenas c') = bv_size (arenas c)"
    using assms(2) by (metis length_chain_list length_list_update)
  obtain l where l: "l < bv_size (arenas c)" "arena_owns (chain_list c ! l) q j"
    using assms(4) by (auto simp: chain_owns_nth)
  then have "arena_owns (chain_list c' ! l) q j" using assms(1,2,3,5) by (auto simp: nth_list_update)
  then show ?thesis using l(1) n by (auto simp: chain_owns_nth)
qed

lemma lower_index_ok:
  assumes "descriptor_ok a" "l \<le> last_index a" "l mod 8 = 0"
  shows "descriptor_ok (a\<lparr>last_index := l\<rparr>)"
  using assms by (auto simp: descriptor_ok_def intro!: arena_ok_last_index) (auto simp: arena_ok_def)

section \<open>Every handle keeps the allocator's contract\<close>

definition memory_is_arena :: "addr \<Rightarrow> world \<Rightarrow> bool" where
  "memory_is_arena m w \<longleftrightarrow> arnm_is_multi_arena m w \<or> arnm_is_arena m w"

definition memory_ops :: "addr \<Rightarrow> world ops" where
  "memory_ops m =
    \<lparr>op_alloc = (\<lambda>n w. case memory_alloc (Some NULL) n m w of (r, p, w) \<Rightarrow> (r, the p, w)),
     op_realloc = (\<lambda>p old new w. case memory_realloc (Some p) old new m w of (r, p, w) \<Rightarrow> (r, the p, w)),
     op_free = (\<lambda>p n w. memory_free p n m w),
     op_mem = bytes_of,
     op_set_mem = set_bytes,
     op_is_arena = memory_is_arena m\<rparr>"

definition memory_sound :: "addr \<Rightarrow> world \<Rightarrow> bool" where
  "memory_sound m w = (case chain_at m w of None \<Rightarrow> flat_sound m w | Some c \<Rightarrow> chain_ok w c)"

definition memory_owns :: "addr \<Rightarrow> world \<Rightarrow> addr \<Rightarrow> nat \<Rightarrow> bool" where
  "memory_owns m w p n = (case chain_at m w of None \<Rightarrow> flat_owns m w p n | Some c \<Rightarrow> chain_owns c p n)"

lemma chain_at_nonnull: "chain_at m w = Some c \<Longrightarrow> m \<noteq> NULL"
  by (cases "m = NULL") (auto simp: chain_at_def)

lemma set_chain_simps [simp]:
  "m \<noteq> NULL \<Longrightarrow> chain_at m (set_chain m c w) = Some c" "heap (set_chain m c w) = heap w"
  "chain_at m (set_bytes b w) = chain_at m w" "set_bytes b (set_chain m c w) = set_chain m c (set_bytes b w)"
  "chain_ok (set_chain m c w) d = chain_ok w d" "chain_ok (set_bytes b w) d = chain_ok w d"
  by (auto simp: chain_at_def set_chain_def set_bytes_def intro!: chain_ok_heap)

lemma memory_alloc_chain:
  assumes "chain_at m w = Some c" "chain_ok w c" "0 < n" "memory_alloc (Some old) n m w = (r, p, w')"
  obtains (huge) "ARNM_MAX_ALLOC_SIZE < n" "r = ARNM_ERROR_ARITHMETIC_OVERFLOW" "p = Some old" "w' = w"
  | (run) q c' w1 where "n \<le> ARNM_MAX_ALLOC_SIZE" "p = Some q" "w' = set_chain m c' w1"
    "multi_arena_alloc old (ARNM_ALIGN8 n) c w = (r, q, c', w1)" "0 < ARNM_ALIGN8 n" "ARNM_ALIGN8 n mod 8 = 0"
    "ARNM_ALIGN8 n \<le> ARNM_MAX_ALLOC_SIZE"
proof (cases "n \<le> ARNM_MAX_ALLOC_SIZE")
  case True
  then have k: "arnm_align8_u32 n = ARNM_ALIGN8 n" "0 < ARNM_ALIGN8 n" "ARNM_ALIGN8 n mod 8 = 0"
    "ARNM_ALIGN8 n \<le> ARNM_MAX_ALLOC_SIZE"
    using assms(3) align8_bounds [of n] align8_u32_bound [of n] by (auto simp: arnm_align8_u32_def ARNM_MAX_ALLOC_SIZE_def)
  obtain r1 q c' w1 where al: "multi_arena_alloc old (ARNM_ALIGN8 n) c w = (r1, q, c', w1)" by (metis prod_cases4)
  then show ?thesis using assms(1,3,4) k True run by (auto simp: memory_alloc_def)
next
  case False
  then show ?thesis using assms(1,3,4) huge by (auto simp: memory_alloc_def arnm_align8_u32_def)
qed

lemma chain_alloc_law:
  assumes "chain_at m w = Some c" "chain_ok w c" "0 < n" "memory_alloc (Some old) n m w = (r, p, w')"
  shows "\<exists>c'. chain_at m w' = Some c' \<and> chain_ok w' c' \<and> same_shape c c' \<and>
    r \<noteq> ARNM_WARNING_ARENA_MEMORY_NOT_RECLAIMED \<and>
    (\<forall>a\<in>set (chain_list c). rd (bytes_of w') (data a) (capacity a) = rd (bytes_of w) (data a) (capacity a)) \<and>
    (if r = ARNM_SUCCESS then \<exists>i. served c (ARNM_ALIGN8 n) (the p) c' i
     else chain_list c' = chain_list c \<and> p = Some old)"
  using assms
proof (cases rule: memory_alloc_chain)
  case huge
  then show ?thesis using assms(1,2) by (auto simp: same_shape_def)
next
  case (run q c' w1)
  note m = chain_at_nonnull [OF assms(1)]
  from multi_arena_alloc_spec [OF assms(2) run(5,6,7,4)] show ?thesis
    using m run(2,3) by (intro exI [of _ c']) (auto split: if_splits)
qed

lemma chain_free_law:
  assumes "chain_at m w = Some c" "chain_ok w c" "chain_owns c p n" "memory_free p n m w = (r, w')"
  shows "\<exists>c'. chain_at m w' = Some c' \<and> chain_ok w' c' \<and> bytes_of w' = bytes_of w \<and> done_code r \<and>
    (\<forall>q k. chain_owns c q k \<and> apart p n q k \<longrightarrow> chain_owns c' q k) \<and>
    (r \<noteq> ARNM_SUCCESS \<longrightarrow> c' = c \<and> w' = w)"
proof -
  obtain i where i: "i < bv_size (arenas c)" "arena_owns (chain_list c ! i) p n"
    using assms(3) by (auto simp: chain_owns_nth)
  let ?a = "chain_list c ! i" and ?k = "ARNM_ALIGN8 n"
  note d = chain_arena_ok [OF assms(2) i(1)]
  note owner = find_owner_of_owned [OF assms(2) i]
  have small: "?k \<le> last_index ?a" "arnm_align8_u32 n = ?k" "0 < ?k"
    using arena_owns_small [OF _ i(2)] d by (auto simp: descriptor_ok_def)
  have m: "m \<noteq> NULL" by (rule chain_at_nonnull [OF assms(1)])
  have single: "single_type (allocation_type ?a)" "arena_ok ?a" using d by (auto simp: descriptor_ok_def)
  note run = assms(4) [unfolded memory_free_def Let_def assms(1) option.case owner(1) chain_get(1) [OF assms(2) i(1)]
      chain_load [OF assms(2) i(1)] small(2)]
  show ?thesis
  proof (cases "data ?a + last_index ?a = p + ?k")
    case True
    let ?b = "?a\<lparr>last_index := last_index ?a - ?k\<rparr>"
    have b: "descriptor_ok ?b"
      using d small(1) by (intro lower_index_ok) (auto simp: descriptor_ok_def arena_ok_def align8_bounds intro!: mod8_diff)
    let ?c = "multi_arena_reopen ?b i (store_arena (slot_of c i) ?b c)"
    have res: "r = ARNM_SUCCESS" "w' = set_chain m ?c w"
      using run True owner(2) small single by (auto simp: is_single_arena_reclaimable_def)
    have re: "chain_ok w ?c \<and> chain_list ?c = (chain_list c)[i := ?b]"
      using reopen_ok [OF assms(2) i(1) b] by simp
    then have "chain_owns ?c q j" if "chain_owns c q j" "apart p n q j" for q j
      using chain_owns_update [OF i(1), of ?c ?b "\<lambda>q j. apart p n q j"] that True small(1)
        arena_owns_drop [OF i(2) True, of _ _ "last_index ?a - ?k"] by auto
    then show ?thesis using re m by (intro exI [of _ ?c]) (simp add: res)
  next
    case False
    then have "r = ARNM_WARNING_ARENA_MEMORY_NOT_RECLAIMED" "w' = w"
      using run owner(2) small by (auto simp: is_single_arena_reclaimable_def)
    then show ?thesis using assms(1,2) by auto
  qed
qed

text \<open>A block moved to fresh ground: the chain after it, and what every block holds there.\<close>

lemma chain_move:
  assumes "chain_at m w = Some c" "chain_ok w c" "arena_owns (chain_list c ! i) p old" "i < bv_size (arenas c)"
    and "0 < new" "new \<le> ARNM_MAX_ALLOC_SIZE" "old \<le> new"
    and "memory_alloc (Some NULL) (ARNM_ALIGN8 new) m w = (ARNM_SUCCESS, q, w1)"
    and "w2 = set_bytes (memcpy (bytes_of w1) (the q) p old) w1"
  shows "\<exists>c' j. chain_at m w2 = Some c' \<and> chain_ok w2 c' \<and> same_shape c c' \<and>
    served c (ARNM_ALIGN8 new) (the q) c' j \<and>
    chain_owns c' (the q) new \<and> rd (bytes_of w2) (the q) old = rd (bytes_of w) p old \<and>
    (\<forall>x k. chain_owns c x k \<longrightarrow>
      chain_owns c' x k \<and> apart (the q) new x k \<and> rd (bytes_of w2) x k = rd (bytes_of w) x k)"
proof -
  let ?N = "ARNM_ALIGN8 new"
  have N: "ARNM_ALIGN8 ?N = ?N" "0 < ?N" "new \<le> ?N" using align8_bounds [of new] assms(5) by auto
  obtain c' j where c': "chain_at m w1 = Some c'" "chain_ok w1 c'" "same_shape c c'"
    "\<forall>a\<in>set (chain_list c). rd (bytes_of w1) (data a) (capacity a) = rd (bytes_of w) (data a) (capacity a)"
    "served c ?N (the q) c' j"
    using chain_alloc_law [OF assms(1,2) N(2) assms(8)] N(1) by auto
  note sv = served_owns [OF c'(5) assms(2) c'(2)]
  have own: "chain_owns c p old" using assms(3,4) by (auto simp: chain_owns_nth)
  have same: "rd (bytes_of w1) x k = rd (bytes_of w) x k" if "chain_owns c x k" for x k
    by (rule chain_owns_bytes [OF assms(2) that c'(4)])
  have copy: "rd (bytes_of w2) x k = rd (bytes_of w) x k" if "chain_owns c x k" for x k
  proof -
    have "apart (the q) new x k" using sv(3) [OF refl assms(5) that] .
    then have "rd (memcpy (bytes_of w1) (the q) p old) x k = rd (bytes_of w1) x k"
      using assms(7) by (intro rd_cong memcpy_apart) (auto simp: apart_def)
    then show ?thesis using same [OF that] by (simp add: assms(9))
  qed
  have "rd (bytes_of w2) (the q) old = rd (bytes_of w) p old"
    using same [OF own] by (simp add: assms(9) mem_simps)
  moreover have "chain_at m w2 = Some c'" "chain_ok w2 c'" using c'(1,2) by (simp_all add: assms(9))
  ultimately show ?thesis
    using c'(3,5) copy sv(1) [OF refl assms(5)] sv(2) [OF refl assms(5)] sv(3) [OF refl assms(5)] by blast
qed

text \<open>What a resize owes: the block at its new place, or as it was, and every other block.\<close>

definition resized :: "addr \<Rightarrow> world \<Rightarrow> chain \<Rightarrow> addr \<Rightarrow> nat \<Rightarrow> nat \<Rightarrow>
    arnm_result \<times> addr option \<times> world \<Rightarrow> bool" where
  "resized m w c p old new res = (case res of (r, q, w') \<Rightarrow>
    \<exists>c'. chain_at m w' = Some c' \<and> chain_ok w' c' \<and>
    (\<forall>x k. chain_owns c x k \<and> apart p old x k \<longrightarrow>
      chain_owns c' x k \<and> rd (bytes_of w') x k = rd (bytes_of w) x k) \<and>
    (if done_code r
     then chain_owns c' (the q) new \<and> (\<forall>x k. chain_owns c x k \<and> apart p old x k \<longrightarrow> apart (the q) new x k) \<and>
       rd (bytes_of w') (the q) (min old new) = rd (bytes_of w) p (min old new)
     else q = Some p \<and> chain_owns c' p old \<and> rd (bytes_of w') p old = rd (bytes_of w) p old) \<and>
    (r \<noteq> ARNM_SUCCESS \<and> new \<le> old \<longrightarrow>
      q = Some p \<and> chain_owns c' p old \<and> rd (bytes_of w') p old = rd (bytes_of w) p old))"

lemma resized_failed:
  "chain_at m w = Some c \<Longrightarrow> chain_ok w c \<Longrightarrow> chain_owns c p old \<Longrightarrow> \<not> done_code r \<Longrightarrow>
    resized m w c p old new (r, Some p, w)"
  by (auto simp: resized_def)

lemma apart_ordered: "apart p K x k \<Longrightarrow> n \<le> K \<Longrightarrow> apart p n x k"
  by (auto simp: apart_def)

text \<open>In place: the descriptor changes, the bytes do not.\<close>

lemma resized_in_place:
  assumes "chain_ok w c" "i < bv_size (arenas c)" "m \<noteq> NULL"
    and "chain_ok w c'" "chain_list c' = (chain_list c)[i := a]" "arena_owns a p new"
    and "\<And>x k. arena_owns (chain_list c ! i) x k \<Longrightarrow> apart p old x k \<Longrightarrow> arena_owns a x k \<and> apart p new x k"
  shows "resized m w c p old new (ARNM_SUCCESS, Some p, set_chain m c' w)"
proof -
  have upd: "chain_owns c' x k" if "chain_owns c x k" "apart p old x k" for x k
    using chain_owns_update [OF assms(2,5), of "\<lambda>x k. apart p old x k"] assms(7) that by blast
  have n: "bv_size (arenas c') = bv_size (arenas c)"
    using assms(5) by (metis length_chain_list length_list_update)
  have i: "chain_list c' ! i = a" "i < bv_size (arenas c')" using assms(2,5) n by simp_all
  have own: "chain_owns c' p new" using i assms(6) by (auto simp: chain_owns_nth)
  have "apart p new x k" if x: "chain_owns c x k" "apart p old x k" for x k
  proof -
    obtain l where l: "l < bv_size (arenas c)" "arena_owns (chain_list c ! l) x k"
      using x(1) unfolding chain_owns_nth by blast
    show ?thesis
    proof (cases "l = i")
      case True
      then show ?thesis using assms(7) l(2) x(2) by simp
    next
      case False
      then have "apart (data (chain_list c ! l)) (capacity (chain_list c ! l)) (data a) (capacity a)"
        using arenas_apart [OF assms(4), of l i] l(1) n i assms(5) by simp
      then show ?thesis
        using arena_owns_inside(1,2) [OF chain_arena_ok [OF assms(1) l(1)] l(2)]
          arena_owns_inside(1,2) [OF chain_arena_ok [OF assms(4) i(2)], unfolded i(1), OF assms(6)]
        by (auto simp: apart_def)
    qed
  qed
  then show ?thesis using assms(3,4) upd own by (auto simp: resized_def)
qed

text \<open>To fresh ground: the old block stays behind, or is the end of its arena and is given back.\<close>

lemma resized_moved:
  assumes "chain_at m w = Some c" "chain_ok w c" "arena_owns (chain_list c ! i) p old" "i < bv_size (arenas c)"
    and "0 < new" "new \<le> ARNM_MAX_ALLOC_SIZE" "old < new"
    and "memory_alloc (Some NULL) (ARNM_ALIGN8 new) m w = (r, q, w1)"
  shows "resized m w c p old new
    (if r \<noteq> ARNM_SUCCESS then (r, Some p, w1)
     else (ARNM_WARNING_ARENA_MEMORY_NOT_RECLAIMED, q, set_bytes (memcpy (bytes_of w1) (the q) p old) w1))"
proof (cases "r = ARNM_SUCCESS")
  case True
  have "old \<le> new" using assms(7) by simp
  from chain_move [OF assms(1-6) this _ refl] assms(8) True assms(7) show ?thesis
    by (fastforce simp: resized_def)
next
  case False
  have own: "chain_owns c p old" using assms(3,4) by (auto simp: chain_owns_nth)
  have N: "0 < ARNM_ALIGN8 new" using align8_bounds [of new] assms(5) by linarith
  obtain c' where c': "chain_at m w1 = Some c'" "chain_ok w1 c'" "chain_list c' = chain_list c"
    "r \<noteq> ARNM_WARNING_ARENA_MEMORY_NOT_RECLAIMED"
    "\<forall>a\<in>set (chain_list c). rd (bytes_of w1) (data a) (capacity a) = rd (bytes_of w) (data a) (capacity a)"
    using chain_alloc_law [OF assms(1,2) N assms(8)] False by auto
  have "chain_owns c' x k = chain_owns c x k" for x k by (simp add: chain_owns_def c'(3))
  then show ?thesis
    using False c' own chain_owns_bytes [OF assms(2) _ c'(5)] by (auto simp: resized_def)
qed

lemma resized_moved_last:
  assumes "chain_at m w = Some c" "chain_ok w c" "arena_owns (chain_list c ! i) p old" "i < bv_size (arenas c)"
    and "0 < new" "new \<le> ARNM_MAX_ALLOC_SIZE" "old < new"
    and "memory_alloc (Some NULL) (ARNM_ALIGN8 new) m w = (ARNM_SUCCESS, q, w1)"
    and "data (chain_list c ! i) + last_index (chain_list c ! i) = p + ARNM_ALIGN8 old"
    and "free_bytes (chain_list c ! i) < ARNM_ALIGN8 new"
  defines "w2 \<equiv> set_bytes (memcpy (bytes_of w1) (the q) p old) w1"
  defines "c2 \<equiv> the (chain_at m w2)" and "slot \<equiv> slot_of c i"
  defines "a \<equiv> load_arena slot c2"
  defines "b \<equiv> a\<lparr>last_index := sub32 (last_index a) (ARNM_ALIGN8 old)\<rparr>"
  shows "resized m w c p old new
    (ARNM_SUCCESS, q, set_chain m (multi_arena_reopen b i (store_arena slot b c2)) w2)"
proof -
  have "old \<le> new" using assms(7) by simp
  then obtain c' j where c': "chain_at m w2 = Some c'" "chain_ok w2 c'" "same_shape c c'"
    "served c (ARNM_ALIGN8 new) (the q) c' j" "chain_owns c' (the q) new"
    "rd (bytes_of w2) (the q) old = rd (bytes_of w) p old"
    "\<forall>x k. chain_owns c x k \<longrightarrow>
      chain_owns c' x k \<and> apart (the q) new x k \<and> rd (bytes_of w2) x k = rd (bytes_of w) x k"
    using chain_move [OF assms(1-6) _ assms(8), of w2] unfolding w2_def by blast
  note sv = served_arenas [OF c'(4,2)]
  have own: "chain_owns c p old" using assms(3,4) by (auto simp: chain_owns_nth)
  have ji: "j \<noteq> i" using sv(3) assms(4,10) by auto
  have i2: "i < bv_size (arenas c')" using sv(2) assms(4) by simp
  have slot: "slot = slot_of c' i" using c'(3) assms(4) by (simp add: same_shape_def slot_def)
  have a: "c2 = c'" "a = chain_list c ! i"
    using c'(1) sv(4) [OF assms(4) ji [symmetric]] chain_load [OF c'(2) i2] by (simp_all add: c2_def a_def slot)
  have d: "descriptor_ok a" using chain_arena_ok [OF assms(2,4)] a by simp
  then have small: "ARNM_ALIGN8 old \<le> last_index a"
    using arena_owns_small(1) assms(3) a by (auto simp: descriptor_ok_def)
  then have b: "b = a\<lparr>last_index := last_index a - ARNM_ALIGN8 old\<rparr>" using d by (simp add: b_def descriptor_ok_def)
  have db: "descriptor_ok b"
    unfolding b using d small by (intro lower_index_ok) (auto simp: descriptor_ok_def arena_ok_def align8_bounds intro!: mod8_diff)
  have same: "chain_list c' ! i = a" using a sv(4) [OF assms(4) ji [symmetric]] by simp
  let ?c = "multi_arena_reopen b i (store_arena slot b c')"
  have re: "chain_ok w2 ?c" "chain_list ?c = (chain_list c')[i := b]"
    using reopen_ok [OF c'(2) i2 db] same by (simp_all add: slot b)
  have keep: "arena_owns b x k" if "arena_owns (chain_list c' ! i) x k" "apart p old x k" for x k
    using arena_owns_drop [OF assms(3,9)] that same a small assms(9) unfolding b by auto
  have keeps: "chain_owns ?c x k" if "chain_owns c' x k" "apart p old x k" for x k
    using chain_owns_update [OF i2 re(2), of "\<lambda>x k. apart p old x k"] keep that by blast
  have "apart p old (the q) new" using c'(7) own apart_commute by blast
  then have "chain_owns ?c (the q) new" using keeps c'(5) by blast
  then show ?thesis
    using re(1) c' keeps chain_at_nonnull [OF assms(1)] assms(7) unfolding a(1) by (simp add: resized_def)
qed

lemma chain_owns_apart:
  assumes "chain_ok w c" "i < bv_size (arenas c)" "arena_owns (chain_list c ! i) p n"
    and "chain_owns c x k" "apart p n x k"
  shows "apart p (ARNM_ALIGN8 n) x k"
proof -
  obtain l where l: "l < bv_size (arenas c)" "arena_owns (chain_list c ! l) x k"
    using assms(4) unfolding chain_owns_nth by blast
  show ?thesis
  proof (cases "l = i")
    case True
    then show ?thesis
      using arena_owns_apart [OF assms(3) _ assms(5)] l(2) align8_bounds [of k] by (auto simp: apart_def)
  next
    case False
    note d = chain_arena_ok [OF assms(1,2)]
    then have "p + ARNM_ALIGN8 n \<le> data (chain_list c ! i) + capacity (chain_list c ! i)"
      using arena_owns_inside(3) [OF d assms(3)] by (auto simp: descriptor_ok_def arena_ok_def)
    then show ?thesis
      using False arenas_apart [OF assms(1) l(1) assms(2)] arena_owns_inside(1) [OF d assms(3)]
        arena_owns_inside(1,2) [OF chain_arena_ok [OF assms(1) l(1)] l(2)]
      by (auto simp: apart_def)
  qed
qed

lemma realloc_last_spec:
  assumes "chain_at m w = Some c" "chain_ok w c" "i < bv_size (arenas c)" "arena_owns (chain_list c ! i) p old"
    and "0 < new" "new \<le> ARNM_MAX_ALLOC_SIZE" "old \<noteq> new"
    and "data (chain_list c ! i) + last_index (chain_list c ! i) = p + ARNM_ALIGN8 old"
  shows "resized m w c p old new
    (chain_realloc_last p old (ARNM_ALIGN8 old) (ARNM_ALIGN8 new) i m c w)"
proof -
  define a N K where "a = chain_list c ! i" and "N = ARNM_ALIGN8 new" and "K = ARNM_ALIGN8 old"
  have d: "descriptor_ok a" unfolding a_def by (rule chain_arena_ok [OF assms(2,3)])
  have ok: "arena_ok a" using d by (simp add: descriptor_ok_def)
  have own: "arena_owns a p old" using assms(4) by (simp add: a_def)
  have m: "m \<noteq> NULL" by (rule chain_at_nonnull [OF assms(1)])
  have top: "data a + last_index a = p + K" using assms(8) by (simp add: a_def K_def)
  have K: "K \<le> last_index a" "K mod 8 = 0" "N mod 8 = 0" "0 < N" "p mod 8 = 0"
    using arena_owns_small(1) [OF ok own] own align8_bounds [of old] align8_bounds [of new] assms(5)
    by (auto simp: K_def N_def arena_owns_def)
  have a8: "last_index a \<le> capacity a" "last_index a mod 8 = 0" "capacity a \<le> UINT32_MAX" "p \<le> data a + last_index a"
    using ok own by (auto simp: arena_ok_def arena_owns_def)
  have slot: "arnm_bvec_get (arenas c) i = slot_of c i" "load_arena (slot_of c i) c = a"
    using chain_get(1) [OF assms(2,3)] chain_load [OF assms(2,3)] by (simp_all add: a_def)
  have below: "arena_owns (a\<lparr>last_index := l\<rparr>) x k \<and> apart p new x k"
    if "arena_owns a x k" "apart p old x k" "p \<le> data a + l" for x k l
  proof
    show "arena_owns (a\<lparr>last_index := l\<rparr>) x k"
      using arena_owns_drop [OF own _ that] top by (simp add: K_def)
    have "0 < ARNM_ALIGN8 k" using that(1) align8_bounds [of k] by (auto simp: arena_owns_def)
    then have "x + ARNM_ALIGN8 k \<le> p"
      using arena_owns_apart [OF own that(1,2)] that(1) top by (auto simp: arena_owns_def apart_def K_def)
    then show "apart p new x k" using align8_bounds [of k] by (auto simp: apart_def)
  qed
  have owns: "arena_owns (a\<lparr>last_index := l\<rparr>) p new" if "p + N \<le> data a + l" for l
    using that own assms(5) by (simp add: arena_owns_def N_def)
  note unf = chain_realloc_last_def Let_def slot
  consider (down) "N < K" | (up) "K \<le> N" "N - K \<le> free_bytes a" | (out) "K \<le> N" "free_bytes a < N - K" by linarith
  then show ?thesis
  proof cases
    case down
    let ?b = "a\<lparr>last_index := last_index a - (K - N)\<rparr>"
    let ?c = "multi_arena_reopen ?b i (store_arena (slot_of c i) ?b c)"
    have b: "descriptor_ok ?b" using d K a8 by (intro lower_index_ok) (auto intro!: mod8_diff)
    have "chain_realloc_last p old K N i m c w = (ARNM_SUCCESS, Some p, set_chain m ?c w)"
      using down ok K by (simp add: unf)
    moreover have "chain_ok w ?c" "chain_list ?c = (chain_list c)[i := ?b]"
      using reopen_ok [OF assms(2,3) b] by (simp_all add: a_def)
    moreover have le: "p + N \<le> data a + (last_index a - (K - N))" using top K down by linarith
    moreover have "resized m w c p old new (ARNM_SUCCESS, Some p, set_chain m ?c w)"
      by (rule resized_in_place [OF assms(2,3) m calculation(2,3) owns [OF le]], fold a_def, rule below) (use le in auto)
    ultimately show ?thesis by (simp flip: N_def K_def)
  next
    case up
    let ?b = "a\<lparr>last_index := last_index a + (N - K)\<rparr>" let ?c = "store_arena (slot_of c i) ?b c"
    have b: "descriptor_ok ?b"
      using d K a8 up by (auto simp: descriptor_ok_def intro!: arena_ok_last_index mod8_add mod8_diff)
    have "u32 (last_index a + (N - K)) = last_index a + (N - K)" using up a8 by simp
    then have "chain_realloc_last p old K N i m c w = (ARNM_SUCCESS, Some p, set_chain m ?c w)"
      using up remaining_descriptor [OF d] by (simp add: unf)
    moreover have list: "chain_list ?c = (chain_list c)[i := ?b]" by (rule chain_store(1) [OF assms(2,3)])
    moreover have "chain_ok w ?c"
    proof -
      have "chain_marks (?c\<lparr>first_open := first_open c\<rparr>)"
        using assms(2,3) list
        by (auto simp: chain_ok_def chain_marks_def nth_list_update arnm_arena_is_used_up_def simp flip: a_def)
      from chain_store_ok [OF assms(2,3) b _ this] show ?thesis by (simp add: a_def store_arena_def)
    qed
    moreover have le: "p + N \<le> data a + (last_index a + (N - K))" using top K up by linarith
    moreover have "resized m w c p old new (ARNM_SUCCESS, Some p, set_chain m ?c w)"
      by (rule resized_in_place [OF assms(2,3) m calculation(3,2) owns [OF le]], fold a_def, rule below) (use le in auto)
    ultimately show ?thesis by (simp flip: N_def K_def)
  next
    case out
    have lt: "old < new"
    proof (rule ccontr)
      assume "\<not> old < new"
      then have "N \<le> K" using align8_mono [of new old] by (simp add: N_def K_def)
      then show False using out by simp
    qed
    obtain r1 q1 w1 where al: "memory_alloc (Some NULL) N m w = (r1, q1, w1)" by (metis prod_cases3)
    have run: "chain_realloc_last p old K N i m c w =
      (if r1 \<noteq> ARNM_SUCCESS then (r1, Some p, w1) else chain_realloc_last p old K N i m c w)"
      using out al remaining_descriptor [OF d] by (simp add: unf)
    show ?thesis
    proof (cases "r1 = ARNM_SUCCESS")
      case False
      then show ?thesis
        using resized_moved [OF assms(1,2,4,3,5,6) lt al [unfolded N_def]] run by (simp add: N_def K_def)
    next
      case True
      from resized_moved_last [OF assms(1,2,4,3,5,6) lt al [unfolded N_def True] assms(8)] show ?thesis
        using out al True remaining_descriptor [OF d] by (simp add: unf flip: a_def N_def K_def)
    qed
  qed
qed

lemma chain_realloc_law:
  assumes "chain_at m w = Some c" "chain_ok w c" "chain_owns c p old" "0 < new"
    and "memory_realloc (Some p) old new m w = (r, q, w')"
  shows "resized m w c p old new (r, q, w')"
proof -
  obtain i where i: "i < bv_size (arenas c)" "arena_owns (chain_list c ! i) p old"
    using assms(3) by (auto simp: chain_owns_nth)
  define a N K where "a = chain_list c ! i" and "N = ARNM_ALIGN8 new" and "K = ARNM_ALIGN8 old"
  have d: "descriptor_ok a" unfolding a_def by (rule chain_arena_ok [OF assms(2) i(1)])
  then have single: "single_type (allocation_type a)" "arena_ok a" by (auto simp: descriptor_ok_def)
  note owner = find_owner_of_owned [OF assms(2) i]
  have own: "arena_owns a p old" using i(2) by (simp add: a_def)
  have m: "m \<noteq> NULL" by (rule chain_at_nonnull [OF assms(1)])
  have old: "K \<le> last_index a" "arnm_align8_u32 old = K" "0 < K" "0 < old" "old \<le> K" "K mod 8 = 0"
    using arena_owns_small [OF single(2) own] own align8_bounds [of old] by (auto simp: K_def arena_owns_def)
  have slot: "arnm_bvec_get (arenas c) i = slot_of c i" "load_arena (slot_of c i) c = a"
    using chain_get(1) [OF assms(2) i(1)] chain_load [OF assms(2) i(1)] by (simp_all add: a_def)
  have reclaim: "is_single_arena_reclaimable p K (Some a) \<longleftrightarrow> data a + last_index a = p + K"
    using owner(2) old(3) single(1) by (simp add: is_single_arena_reclaimable_def)
  consider (huge) "ARNM_MAX_ALLOC_SIZE < new" | (same) "new \<le> ARNM_MAX_ALLOC_SIZE" "old = new"
    | (go) "new \<le> ARNM_MAX_ALLOC_SIZE" "old \<noteq> new" by linarith
  then show ?thesis
  proof cases
    case huge
    then have "r = ARNM_ERROR_ARITHMETIC_OVERFLOW" "q = Some p" "w' = w"
      using assms(1,4,5) by (auto simp: memory_realloc_def arnm_align8_u32_def)
    then show ?thesis using resized_failed [OF assms(1-3)] by simp
  next
    case same
    then have "r = ARNM_SUCCESS" "q = Some p" "w' = w"
      using assms(1,4,5) owner(2) old(2,3) by (auto simp: memory_realloc_def Let_def)
    then show ?thesis using assms(1-3) same by (auto simp: resized_def)
  next
    case go
    have N: "arnm_align8_u32 new = N" "0 < N" "new \<le> N" "N mod 8 = 0"
      using go(1) assms(4) align8_bounds [of new] by (auto simp: arnm_align8_u32_def N_def)
    obtain r1 q1 w1 where al: "memory_alloc (Some NULL) N m w = (r1, q1, w1)" by (metis prod_cases3)
    have run: "(r, q, w') = (if data a + last_index a = p + K then chain_realloc_last p old K N i m c w
       else if K < N then
         (if r1 \<noteq> ARNM_SUCCESS then (r1, Some p, w1)
          else (ARNM_WARNING_ARENA_MEMORY_NOT_RECLAIMED, q1,
            set_bytes (memcpy (bytes_of w1) (the q1) p old) w1))
       else (ARNM_WARNING_ARENA_MEMORY_NOT_RECLAIMED, Some p, w))"
      using assms(1,5) go owner old(2-4) N(1,2) reclaim slot al
      by (auto simp: memory_realloc_def Let_def split: if_splits)
    have up: "old < new" if "K < N" using that align8_mono [of new old] unfolding N_def K_def by linarith
    note moved = resized_moved [OF assms(1,2) i(2,1) assms(4) go(1) up al [unfolded N_def]]
    show ?thesis
    proof (cases "data a + last_index a = p + K")
      case True
      then have "(r, q, w') = chain_realloc_last p old K N i m c w" using run by simp
      with realloc_last_spec [OF assms(1,2) i assms(4) go] True show ?thesis
        by (simp add: N_def K_def a_def)
    next
      case False
      show ?thesis
      proof (cases "K < N")
        case True
        then show ?thesis using run False moved by simp
      next
        case le: False
        then have "chain_owns c p new"
          using i own assms(4) arena_owns_le [of a p old new] by (auto simp: chain_owns_nth a_def N_def K_def)
        moreover have "apart p new x k" if "apart p old x k" "chain_owns c x k" for x k
          using chain_owns_apart [OF assms(2) i that(2,1)] le N(3) apart_ordered [of p K x k new]
          by (simp add: K_def)
        ultimately show ?thesis using run False le assms(1-3) by (auto simp: resized_def)
      qed
    qed
  qed
qed

lemma flat_keeps_chains:
  fixes w w' :: world
  shows "arnm_alloc b n m w = (r, q, w') \<Longrightarrow> chains w' = chains w"
    and "arnm_free p n m w = (r, w') \<Longrightarrow> chains w' = chains w"
    and "arnm_realloc b old n m w = (r, q, w') \<Longrightarrow> chains w' = chains w"
proof -
  show alloc: "arnm_alloc b n m w = (r, q, w') \<Longrightarrow> chains w' = chains w" for b n r q w and w' :: world
    by (auto simp: arnm_alloc_def Let_def set_handle_def split: option.splits if_splits prod.splits)
  show free: "arnm_free p n m w = (r, w') \<Longrightarrow> chains w' = chains w" for p n r w and w' :: world
    by (auto simp: arnm_free_def Let_def set_handle_def split: if_splits)
  obtain r1 q1 w1 where a: "arnm_alloc (Some NULL) (arnm_align8_u32 n) m w = (r1, q1, w1)" by (metis prod_cases3)
  obtain r2 w2 where f: "arnm_free (the b) (arnm_align8_u32 old) m w = (r2, w2)" by fastforce
  note same = alloc [OF a] free [OF f]
  have "chains (snd (snd (arnm_realloc b old n m w))) = chains w"
    by (cases b) (use a f in \<open>auto simp: arnm_realloc_def Let_def same set_handle_def set_bytes_def split: prod.split\<close>)
  then show "arnm_realloc b old n m w = (r, q, w') \<Longrightarrow> chains w' = chains w" by simp
qed

lemma chain_at_cong: "chains w' = chains w \<Longrightarrow> chain_at m w' = chain_at m w"
  by (simp add: chain_at_def)

text \<open>A handle that is no chain is the handle of the theory \<open>Arena\<close>.\<close>

lemma memory_ops_flat:
  assumes "chain_at m w = None"
  shows "op_alloc (memory_ops m) n w = (r, p, w') \<Longrightarrow> op_alloc (flat_ops m) n w = (r, p, w') \<and> chain_at m w' = None"
    and "op_free (memory_ops m) p n w = (r, w') \<Longrightarrow> op_free (flat_ops m) p n w = (r, w') \<and> chain_at m w' = None"
    and "op_realloc (memory_ops m) p old n w = (r, q, w') \<Longrightarrow>
      op_realloc (flat_ops m) p old n w = (r, q, w') \<and> chain_at m w' = None"
proof -
  have same: "op_alloc (memory_ops m) n w = op_alloc (flat_ops m) n w"
    "op_free (memory_ops m) p n w = op_free (flat_ops m) p n w"
    "op_realloc (memory_ops m) p old n w = op_realloc (flat_ops m) p old n w"
    using assms by (simp_all add: memory_ops_def flat_ops_def memory_alloc_def memory_free_def memory_realloc_def)
  have keep: "chains w' = chains w \<Longrightarrow> chain_at m w' = None" using assms chain_at_cong [of w' w m] by simp
  show "op_alloc (memory_ops m) n w = (r, p, w') \<Longrightarrow> op_alloc (flat_ops m) n w = (r, p, w') \<and> chain_at m w' = None"
    unfolding same by (auto simp: flat_ops_def intro!: keep dest!: flat_keeps_chains(1) split: prod.splits)
  show "op_free (memory_ops m) p n w = (r, w') \<Longrightarrow> op_free (flat_ops m) p n w = (r, w') \<and> chain_at m w' = None"
    unfolding same by (auto simp: flat_ops_def intro!: keep dest!: flat_keeps_chains(2))
  show "op_realloc (memory_ops m) p old n w = (r, q, w') \<Longrightarrow>
      op_realloc (flat_ops m) p old n w = (r, q, w') \<and> chain_at m w' = None"
    unfolding same by (auto simp: flat_ops_def intro!: keep dest!: flat_keeps_chains(3) split: prod.splits)
qed

lemma chain_realloc_null_law:
  assumes "chain_at m w = Some c" "chain_ok w c" "0 < new" "memory_realloc (Some NULL) 0 new m w = (r, q, w')"
  shows "\<exists>c'. chain_at m w' = Some c' \<and> chain_ok w' c' \<and>
    (\<forall>x k. chain_owns c x k \<longrightarrow> chain_owns c' x k \<and> rd (bytes_of w') x k = rd (bytes_of w) x k) \<and>
    (if done_code r then chain_owns c' (the q) new \<and> (\<forall>x k. chain_owns c x k \<longrightarrow> apart (the q) new x k)
     else q = Some NULL)"
proof (cases "new \<le> ARNM_MAX_ALLOC_SIZE")
  case False
  then have "r = ARNM_ERROR_ARITHMETIC_OVERFLOW" "q = Some NULL" "w' = w"
    using assms(1,3,4) by (auto simp: memory_realloc_def arnm_align8_u32_def)
  then show ?thesis using assms(1,2) by auto
next
  case True
  define N where "N = ARNM_ALIGN8 new"
  have N: "arnm_align8_u32 new = N" "0 < N" "ARNM_ALIGN8 N = N"
    using True assms(3) align8_bounds [of new] by (auto simp: arnm_align8_u32_def N_def)
  obtain r1 q1 w1 where al: "memory_alloc (Some NULL) N m w = (r1, q1, w1)" by (metis prod_cases3)
  obtain c' where c': "chain_at m w1 = Some c'" "chain_ok w1 c'"
    "\<forall>a\<in>set (chain_list c). rd (bytes_of w1) (data a) (capacity a) = rd (bytes_of w) (data a) (capacity a)"
    "r1 \<noteq> ARNM_WARNING_ARENA_MEMORY_NOT_RECLAIMED"
    "if r1 = ARNM_SUCCESS then \<exists>i. served c N (the q1) c' i else chain_list c' = chain_list c \<and> q1 = Some NULL"
    using chain_alloc_law [OF assms(1,2) N(2) al, unfolded N(3)] by blast
  have res: "w' = w1" "if r1 = ARNM_SUCCESS then r = ARNM_WARNING_ARENA_MEMORY_NOT_RECLAIMED \<and> q = q1
      else r = r1 \<and> q = Some NULL"
    using assms(1,4) N(1,2) al
    by (auto simp: memory_realloc_def Let_def multi_arena_find_owner_def split: if_splits)
  note bytes = chain_owns_bytes [OF assms(2) _ c'(3)]
  show ?thesis
  proof (cases "r1 = ARNM_SUCCESS")
    case True
    then obtain i where "served c N (the q1) c' i" using c'(5) by auto
    note sv = served_owns [OF this assms(2) c'(2) N_def assms(3)]
    show ?thesis using c' sv bytes res True by (intro exI [of _ c']) auto
  next
    case False
    then have "chain_owns c' x k = chain_owns c x k" for x k using c'(5) by (simp add: chain_owns_def)
    then show ?thesis using False c' bytes res by (intro exI [of _ c']) auto
  qed
qed

lemma memory_ops_mem [simp]:
  "op_mem (memory_ops m) = bytes_of" "op_set_mem (memory_ops m) = set_bytes"
  by (simp_all add: memory_ops_def)

interpretation memory: arnm_allocator "memory_ops m" "memory_sound m" "memory_owns m" for m
proof (unfold_locales, unfold memory_ops_mem, goal_cases)
  case (1 w p n)
  show ?case
  proof (cases "chain_at m w")
    case None
    then show ?thesis using 1 flat_owned_law [of m w p n] by (simp add: memory_sound_def memory_owns_def)
  next
    case (Some c)
    then obtain a where a: "a \<in> set (chain_list c)" "arena_owns a p n" "chain_ok w c"
      using 1 by (auto simp: memory_sound_def memory_owns_def chain_owns_def)
    then have "descriptor_ok a" by (simp add: chain_ok_def)
    then show ?thesis using a(2) arena_owns_inside [OF _ a(2)] by (auto simp: descriptor_ok_def arena_ok_def arena_owns_def)
  qed
next
  case (3 w p n m')
  then show ?case by (cases "chain_at m w") (simp_all add: memory_sound_def memory_owns_def)
next
  case (7 m w)
  then show ?case by (simp add: memory_sound_def split: option.split)
next
  case (8 m w p n)
  then show ?case by (simp add: memory_owns_def split: option.split)
next
  case (4 w n r p w')
  show ?case
  proof (cases "chain_at m w")
    case None
    note fl = memory_ops_flat(1) [OF None 4(3)]
    then show ?thesis
      using flat_alloc_law [of m w n r p w'] 4 None by (simp add: memory_sound_def memory_owns_def)
  next
    case (Some c)
    then have ok: "chain_ok w c" using 4(1) by (simp add: memory_sound_def)
    obtain q where al: "memory_alloc (Some NULL) n m w = (r, q, w')" "p = the q"
      using 4(3) by (auto simp: memory_ops_def split: prod.splits)
    obtain c' where c': "chain_at m w' = Some c'" "chain_ok w' c'" "r \<noteq> ARNM_WARNING_ARENA_MEMORY_NOT_RECLAIMED"
      "\<forall>a\<in>set (chain_list c). rd (bytes_of w') (data a) (capacity a) = rd (bytes_of w) (data a) (capacity a)"
      "if r = ARNM_SUCCESS then \<exists>i. served c (ARNM_ALIGN8 n) p c' i
       else chain_list c' = chain_list c \<and> q = Some NULL"
      using chain_alloc_law [OF Some ok 4(2) al(1), folded al(2)] by blast
    note bytes = chain_owns_bytes [OF ok _ c'(4)]
    show ?thesis
    proof (cases "r = ARNM_SUCCESS")
      case True
      then obtain i where "served c (ARNM_ALIGN8 n) p c' i" using c'(5) by auto
      note sv = served_owns [OF this ok c'(2) refl 4(2)]
      show ?thesis using c' sv bytes Some True by (simp add: memory_sound_def memory_owns_def)
    next
      case False
      then have "chain_owns c' x k = chain_owns c x k" for x k using c'(5) by (simp add: chain_owns_def)
      then show ?thesis using False c' bytes Some by (simp add: memory_sound_def memory_owns_def)
    qed
  qed
next
  case (5 w p n r w')
  show ?case
  proof (cases "chain_at m w")
    case None
    note fl = memory_ops_flat(2) [OF None 5(3)]
    then show ?thesis
      using flat_free_law [of m w p n r w'] 5 None by (simp add: memory_sound_def memory_owns_def)
  next
    case (Some c)
    have "memory_free p n m w = (r, w')" using 5(3) by (simp add: memory_ops_def)
    with chain_free_law [OF Some _ _ this] 5 Some show ?thesis
      by (auto simp: memory_sound_def memory_owns_def)
  qed
next
  case (6 w p old new r p' w')
  show ?case
  proof (cases "chain_at m w")
    case None
    note fl = memory_ops_flat(3) [OF None 6(4)]
    then show ?thesis
      using flat.realloc_law [of m w p old new r p' w', unfolded flat_ops_mem] 6 None by (simp add: memory_sound_def memory_owns_def)
  next
    case (Some c)
    obtain q where re: "memory_realloc (Some p) old new m w = (r, q, w')" "p' = the q"
      using 6(4) by (auto simp: memory_ops_def split: prod.splits)
    have "chain_ok w c" "chain_owns c p old" using 6 Some by (auto simp: memory_sound_def memory_owns_def)
    from chain_realloc_law [OF Some this 6(3) re(1)] show ?thesis
      using Some re(2) by (auto simp: resized_def memory_sound_def memory_owns_def split: if_splits)
  qed
next
  case (9 w new r p w')
  show ?case
  proof (cases "chain_at m w")
    case None
    note fl = memory_ops_flat(3) [OF None 9(3)]
    then show ?thesis
      using flat.realloc_null_law [of m w new r p w', unfolded flat_ops_mem] 9 None by (simp add: memory_sound_def memory_owns_def)
  next
    case (Some c)
    obtain q where re: "memory_realloc (Some NULL) 0 new m w = (r, q, w')" "p = the q"
      using 9(3) by (auto simp: memory_ops_def split: prod.splits)
    have "chain_ok w c" using 9 Some by (auto simp: memory_sound_def)
    from chain_realloc_null_law [OF Some this 9(2) re(1)] show ?thesis
      using Some re(2) by (auto simp: memory_sound_def memory_owns_def split: if_splits)
  qed
qed simp_all

section \<open>What a chain promises\<close>

text \<open>A chain with the default options, its handle the first block of the sample heap, and the
  handle itself.\<close>

definition sample_options :: arnm_multi_arena_options where
  "sample_options = \<lparr>opt_arena_capacity = 0, opt_arena_max_count = 0, opt_full_remaining = 0,
     opt_bucket_size_log2 = 0, opt_index_grow_step_size = 0\<rparr>"

definition sample_host :: world where
  "sample_host =
    \<lparr>heap = \<lparr>bytes = (\<lambda>_. 0), blocks = [], answers = (\<lambda>n. (n + 1) * 4096), calls = 0\<rparr>, handles = (\<lambda>_. None),
     chains = (\<lambda>_. None)\<rparr>"

definition sample_chain :: world where
  "sample_chain = snd (snd (arnm_create_multi_arena (Some sample_options) NULL sample_host))"

lemma sample_host_sound: "memory_sound NULL sample_host"
  by (simp add: memory_sound_def chain_at_def sample_host_def flat_sound_def intern_of_def host_ok_def)

lemma foreign_safe_chain [simp]:
  "foreign_safe (flat_ops NULL) (flat_owns NULL) w bs (set_chain m c w') bs' =
    foreign_safe (flat_ops NULL) (flat_owns NULL) w bs w' bs'"
  by (simp add: foreign_safe_def)

lemma create_chain_ok:
  assumes "host_ok (heap w)" "opt_index_grow_step_size opt < 256"
    and "arnm_create_multi_arena (Some opt) NULL w = (m, opt', w')" "m \<noteq> NULL"
  shows "\<exists>c. chain_at m w' = Some c \<and> chain_ok w' c \<and> chain_list c = [] \<and> chain_holds c = [] \<and>
    host_step w [] w' [(m, SIZEOF_ARNM + SIZEOF_MULTI_ARENA)]"
proof -
  let ?n = "SIZEOF_ARNM + SIZEOF_MULTI_ARENA"
  obtain r p w1 where al: "arnm_alloc (Some NULL) ?n NULL w = (r, p, w1)" by (metis prod_cases3)
  obtain rv o1 where val: "arnm_multi_arena_options_validate (Some opt) = (rv, o1)" by fastforce
  obtain rb v where init: "arnm_bvec_init (opt_bucket_size_log2 (the o1)) (opt_index_grow_step_size (the o1))
      SIZEOF_ARNM (bvec_descriptor 0 0 0) = (rb, v :: arena bvec)" by fastforce
  have succ: "r = ARNM_SUCCESS" "rv = ARNM_SUCCESS" "rb = ARNM_SUCCESS" "m = the p" "opt' = o1"
    "w' = set_chain m \<lparr>arenas = v, arena_capacity = opt_arena_capacity (the o1),
       arena_max_count = opt_arena_max_count (the o1), full_remaining = opt_full_remaining (the o1),
       first_open = 0, bookkeeping = NULL,
       chain_type = (if opt_arena_max_count (the o1) \<noteq> 0
         then ARNM_ALLOC_TYPE_MULTI_ARENA_FIXED else ARNM_ALLOC_TYPE_MULTI_ARENA_DYNAMIC)\<rparr> w1"
    using assms(3,4) al val init by (auto simp: arnm_create_multi_arena_def Let_def split: if_splits)
  have fl: "flat_sound NULL w" "held_ok (flat_owns NULL) w []" using assms(1) by simp_all
  have op: "op_alloc (flat_ops NULL) ?n w = (ARNM_SUCCESS, m, w1)" using al succ by (simp add: flat_ops_def)
  have step: "host_step w [] w1 [(m, ?n)]"
    using flat.hold_alloc [OF fl _ op] by (simp add: SIZEOF_ARNM_def SIZEOF_MULTI_ARENA_def)
  have o1: "0 < opt_arena_capacity (the o1)" "opt_arena_capacity (the o1) \<le> ARNM_MAX_ALLOC_SIZE"
    "opt_index_grow_step_size (the o1) < 256"
    using val succ(2) assms(2) align8_u32_bound
    by (auto simp: arnm_multi_arena_options_validate_def multi_arena_options_fill_in_defaults_def Let_def
        ARNM_BVEC_DEFAULT_INDEX_GROW_STEP_SIZE_def ARNM_MAX_ALLOC_SIZE_def split: if_splits)
  have v: "bvec_shape v" "bvec_blocks v = []" "bvec_list v = []"
    using init_spec [OF init o1(3)] succ(3) by simp_all
  have "bv_size v = 0" using v(3) by (metis length_bvec_list length_0_conv)
  then show ?thesis
    using step o1 v assms(4) succ(6)
    by (auto simp: chain_ok_def chain_list_def chain_holds_def chain_marks_def)
qed

lemma sample_chain_create:
  "arnm_create_multi_arena (Some sample_options) NULL sample_host =
    (4096, fst (snd (arnm_create_multi_arena (Some sample_options) NULL sample_host)), sample_chain)"
  by (simp add: sample_chain_def arnm_create_multi_arena_def sample_options_def sample_host_def arnm_alloc_def
      SIZEOF_ARNM_def SIZEOF_MULTI_ARENA_def is_default_alloc_def malloc_def fits_def intern_of_def
      arnm_multi_arena_options_validate_def multi_arena_options_fill_in_defaults_def arnm_align8_u32_def
      ARNM_MULTI_ARENA_DEFAULT_CAPACITY_def ARNM_MULTI_ARENA_DEFAULT_FULL_REMAINING_def
      ARNM_MULTI_ARENA_DEFAULT_BUCKET_LOG2_def ARNM_BVEC_DEFAULT_INDEX_GROW_STEP_SIZE_def
      ARNM_MAX_ALLOC_SIZE_def UINT32_MAX_def UINT16_MAX_def ARNM_ALIGN8_def arnm_arena_is_used_up_def
      arnm_bvec_init_def Let_def)

lemma sample_chain_ok:
  obtains c where "chain_at 4096 sample_chain = Some c" "chain_ok sample_chain c" "chain_list c = []"
  using create_chain_ok [OF _ _ sample_chain_create]
  by (auto simp: sample_host_def sample_options_def host_ok_def)

lemma sample_chain_sound: "memory_sound 4096 sample_chain"
  by (rule sample_chain_ok) (simp add: memory_sound_def)

text \<open>C1: Whatever handle a program uses, the C heap, one arena or a chain of arenas, and however it
  allocates, resizes, frees and writes through it, it always holds blocks that are aligned to 8
  bytes, no two of which share a byte, and each of which still reads back exactly what was written
  to it.\<close>

theorem memory_blocks_apart:
  assumes "memory_sound m w"
  shows "case client_run (memory_ops m) reqs (w, []) of (w', held) \<Rightarrow>
    held_apart held \<and>
    list_all (\<lambda>(p, bs). p \<noteq> NULL \<and> p mod 8 = 0 \<and> rd (bytes_of w') p (length bs) = bs) held"
proof -
  obtain w' held where run: "client_run (memory_ops m) reqs (w, []) = (w', held)" by fastforce
  have "client_ok (memory_ops m) (memory_sound m) (memory_owns m) (client_run (memory_ops m) reqs (w, []))"
    by (rule memory.client_run_safe) (simp add: assms held_apart_def)
  then have ok: "memory_sound m w'" "held_apart held"
    "\<forall>(p, bs)\<in>set held. memory_owns m w' p (length bs) \<and> rd (bytes_of w') p (length bs) = bs"
    by (simp_all add: run)
  moreover have "p \<noteq> NULL \<and> p mod 8 = 0" if "(p, bs) \<in> set held" for p bs
    using memory.owned [OF ok(1), of p "length bs"] ok(3) that by auto
  ultimately show ?thesis by (auto simp: run list_all_iff)
qed

lemma memory_blocks_apart_witness:
  "case client_run (memory_ops 4096) [Req_Alloc 10, Req_Alloc 2000, Req_Write 0 2 7, Req_Realloc 1 20, Req_Free 0]
     (sample_chain, []) of (w', held) \<Rightarrow>
    held_apart held \<and>
    list_all (\<lambda>(p, bs). p \<noteq> NULL \<and> p mod 8 = 0 \<and> rd (bytes_of w') p (length bs) = bs) held"
  by (rule memory_blocks_apart [OF sample_chain_sound])

text \<open>C2: A chain serves a request from the first arena, from its mark on, that is not used up and has
  room for it, and opens a new arena, large enough for the request, only when there is none; a
  refused request leaves every arena as it was. Either way the mark stays true: every arena before it
  is used up.\<close>

theorem chain_first_fit:
  assumes "chain_at m w = Some c" "chain_ok w c" "0 < n" "memory_alloc (Some old) n m w = (r, q, w')"
  shows "\<exists>c'. chain_at m w' = Some c' \<and> chain_marks c' \<and>
    (if r = ARNM_SUCCESS then \<exists>i. served c (ARNM_ALIGN8 n) (the q) c' i
     else chain_list c' = chain_list c \<and> q = Some old)"
proof -
  obtain c' where "chain_at m w' = Some c'" "chain_ok w' c'" "if r = ARNM_SUCCESS
      then \<exists>i. served c (ARNM_ALIGN8 n) (the q) c' i else chain_list c' = chain_list c \<and> q = Some old"
    using chain_alloc_law [OF assms] by blast
  then show ?thesis by (auto simp: chain_ok_def)
qed

lemma chain_first_fit_witness:
  "\<exists>r q w' c'. memory_alloc (Some 0) 10 4096 sample_chain = (r, q, w') \<and> chain_at 4096 w' = Some c' \<and> chain_marks c'"
proof -
  obtain c where c: "chain_at 4096 sample_chain = Some c" "chain_ok sample_chain c" by (rule sample_chain_ok)
  obtain r q w' where al: "memory_alloc (Some 0) 10 4096 sample_chain = (r, q, w')" by (metis prod_cases3)
  from chain_first_fit [OF c _ al] al show ?thesis by auto
qed

text \<open>C3: The last block a chain gave out goes back at no cost: freed with its size it is reclaimed,
  and the chain's arenas are as they were before, at most followed by one empty arena.\<close>

theorem chain_alloc_free_round_trip:
  assumes "chain_at m w = Some c" "chain_ok w c" "0 < n"
    and "memory_alloc (Some old) n m w = (ARNM_SUCCESS, Some p, w1)" "memory_free p n m w1 = (r, w2)"
  shows "r = ARNM_SUCCESS \<and> (\<exists>c2. chain_at m w2 = Some c2 \<and> chain_ok w2 c2 \<and>
    (chain_list c2 = chain_list c \<or> (\<exists>a. last_index a = 0 \<and> chain_list c2 = chain_list c @ [a])))"
proof -
  let ?k = "ARNM_ALIGN8 n"
  obtain c1 i where c1: "chain_at m w1 = Some c1" "chain_ok w1 c1" "served c ?k p c1 i"
    using chain_alloc_law [OF assms(1-4)] by auto
  note sv = served_arenas [OF c1(3,2)]
  obtain a where a: "descriptor_ok a" "chain_list c1 ! i = bump ?k a" "p = data a + last_index a" "?k \<le> free_bytes a"
    using sv(3) by blast
  obtain as where as: "chain_list c1 = as[i := bump ?k (as ! i)]" "i < length as"
    "as = chain_list c \<or> (\<exists>b. last_index b = 0 \<and> as = chain_list c @ [b])"
    using c1(3) unfolding served_def by blast
  have ai: "as ! i = a"
  proof -
    have "bump ?k (as ! i) = bump ?k a" using as(1,2) a(2) by simp
    then show ?thesis by (cases "as ! i"; cases a) simp
  qed
  have ok: "arena_ok a" "single_type (allocation_type a)" using a(1) by (auto simp: descriptor_ok_def)
  have own: "arena_owns (chain_list c1 ! i) p n"
    unfolding a(2) using a(1,3) assms(3) ok(1) by (auto simp: arena_owns_def descriptor_ok_def arena_ok_def mod8_add)
  note d1 = chain_arena_ok [OF c1(2) sv(1)]
  have ok1: "arena_ok (bump ?k a)" using d1 a(2) by (simp add: descriptor_ok_def)
  have small: "?k \<le> last_index (bump ?k a)" "arnm_align8_u32 n = ?k" "0 < ?k"
    using arena_owns_small [OF ok1] own a(2) by auto
  note owner = find_owner_of_owned [OF c1(2) sv(1) own]
  let ?c = "multi_arena_reopen a i (store_arena (slot_of c1 i) a c1)"
  have restored: "(bump ?k a)\<lparr>last_index := sub32 (last_index (bump ?k a)) ?k\<rparr> = a"
    using arena_step_down [OF ok1 small(1)] by simp
  have res: "r = ARNM_SUCCESS" "w2 = set_chain m ?c w1"
    using assms(5) c1(1) owner small chain_get(1) [OF c1(2) sv(1)] chain_load [OF c1(2) sv(1)] a(2,3) ok(2) restored
    by (auto simp: memory_free_def is_single_arena_reclaimable_def Let_def)
  have re: "chain_ok w1 ?c \<and> chain_list ?c = (chain_list c1)[i := a]"
    using reopen_ok [OF c1(2) sv(1) a(1)] a(2) by simp
  have "(chain_list c1)[i := a] = as" using as(1) ai by (metis list_update_id list_update_overwrite)
  then show ?thesis
    using re res as(3) chain_at_nonnull [OF assms(1)] by (intro conjI exI [of _ ?c]) auto
qed

text \<open>The first allocation from the sample chain, step by step: the arena, the vector's index and
  first bucket, the descriptor stored there, and the block.\<close>

definition sample_books :: chain where
  "sample_books = \<lparr>arenas = bvec_descriptor 6 8 32, arena_capacity = 1024, arena_max_count = 0,
     full_remaining = 64, first_open = 0, bookkeeping = NULL, chain_type = ARNM_ALLOC_TYPE_MULTI_ARENA_DYNAMIC\<rparr>"

definition sample_heap :: "nat \<Rightarrow> (addr \<times> nat) list \<Rightarrow> host" where
  "sample_heap n bs = \<lparr>bytes = (\<lambda>_. 0), blocks = bs, answers = (\<lambda>n. (n + 1) * 4096), calls = n\<rparr>"

definition sample_first :: arena where
  "sample_first = \<lparr>data = 8192, last_index = 0, capacity = 1024, out_of_memory_capacity = 0,
     allocation_type = ARNM_ALLOC_TYPE_ARENA_OWNED\<rparr>"

definition sample_vector :: "arena bvec" where
  "sample_vector = (bvec_descriptor 6 8 32)\<lparr>buckets := 12288,
     slots := (replicate 8 None)[0 := Some (16384, replicate 64 None)], bucket_capacity := 8,
     allocated_count := 1, tail := 16384, tail_used := 1, bv_size := 1\<rparr>"

lemmas size_constants = SIZEOF_ARNM_def SIZEOF_MULTI_ARENA_def ARNM_MULTI_ARENA_DEFAULT_CAPACITY_def
  ARNM_MULTI_ARENA_DEFAULT_FULL_REMAINING_def ARNM_MULTI_ARENA_DEFAULT_BUCKET_LOG2_def
  ARNM_BVEC_DEFAULT_INDEX_GROW_STEP_SIZE_def ARNM_BVEC_MAX_INDEX_CAPACITY_def ARNM_MAX_ALLOC_SIZE_def
  UINT32_MAX_def UINT16_MAX_def ARNM_ALIGN8_def arnm_align8_u32_def

lemma sample_chain_eq: "sample_chain = \<lparr>heap = sample_heap 1 [(4096, 88)], handles = (\<lambda>_. None),
    chains = (\<lambda>_. None)(4096 \<mapsto> sample_books)\<rparr>"
  by (simp add: sample_chain_def arnm_create_multi_arena_def sample_options_def sample_host_def arnm_alloc_def
      is_default_alloc_def malloc_def fits_def intern_of_def size_constants sample_heap_def sample_books_def
      arnm_multi_arena_options_validate_def multi_arena_options_fill_in_defaults_def arnm_arena_is_used_up_def
      arnm_bvec_init_def Let_def set_chain_def)

lemma sample_chain_arena: "init_arena 1024 zero_arena sample_chain =
    (ARNM_SUCCESS, sample_first, sample_chain\<lparr>heap := sample_heap 2 [(8192, 1024), (4096, 88)]\<rparr>)"
  by (simp add: sample_chain_eq init_arena_def arnm_alloc_def malloc_def fits_def apart_def intern_of_def
      is_default_alloc_def size_constants sample_heap_def sample_first_def)

lemma sample_chain_grow:
  "arnm_bvec_grow (flat_ops NULL) (bvec_descriptor 6 8 32)
      (sample_chain\<lparr>heap := sample_heap 2 [(8192, 1024), (4096, 88)]\<rparr>) =
    (ARNM_SUCCESS, Some 16384, sample_vector,
      sample_chain\<lparr>heap := sample_heap 4 [(16384, 2048), (12288, 64), (8192, 1024), (4096, 88)]\<rparr>)"
  by (simp add: arnm_bvec_grow_def sample_vector_def bvec_descriptor_def is_state_valid_def
      bucket_count_allocated_def bucket_elements_def arnm_bvec_bucket_count_def size_constants Let_def
      index_bytes_def flat_ops_def arnm_realloc_def is_single_arena_reclaimable_def is_single_arena_def
      is_default_alloc_def intern_of_def host_realloc_def malloc_def sample_heap_def grow_bucket_def
      bucket_bytes_def arnm_alloc_def open_bucket_def slot_ptr_def fresh_bucket_def resize_slots_def
      fits_def apart_def)

lemma sample_chain_alloc: "\<exists>w. memory_alloc (Some 0) 10 4096 sample_chain = (ARNM_SUCCESS, Some 8192, w)"
proof -
  have c: "chain_at 4096 sample_chain = Some sample_books" by (simp add: sample_chain_eq chain_at_def)
  have books: "first_open sample_books = 0" "arena_max_count sample_books = 0"
    "arena_capacity sample_books = 1024" "bookkeeping sample_books = NULL"
    "arenas sample_books = bvec_descriptor 6 8 32" "tail (bvec_descriptor 6 8 32) = NULL"
    "bv_size (bvec_descriptor 6 8 32) = 0"
    by (simp_all add: sample_books_def bvec_descriptor_def)
  have wr: "bvec_write 16384 sample_first sample_vector =
      sample_vector\<lparr>slots := (replicate 8 None)[0 := Some (16384, (replicate 64 None)[0 := Some sample_first])]\<rparr>"
    by (simp add: bvec_write_def sample_vector_def cell_of_def bvec_descriptor_def map_update)
  have last: "arnm_bvec_back (sample_vector\<lparr>slots := x\<rparr>) = 16384" for x
    by (simp add: arnm_bvec_back_def sample_vector_def)
  have rd: "bvec_read 16384 (sample_vector\<lparr>slots :=
      (replicate 8 None)[0 := Some (16384, (replicate 64 None)[0 := Some sample_first])]\<rparr>) = Some sample_first"
    unfolding bvec_read_def by (rule fold_single [of 0]) (auto simp: sample_vector_def cell_of_def bvec_descriptor_def)
  have ld: "load_arena 16384 (sample_books\<lparr>arenas := bvec_write 16384 sample_first sample_vector\<rparr>) = sample_first"
    by (simp add: wr load_arena_def rd)
  have al: "arena_alloc_aligned 0 16 sample_first = (ARNM_SUCCESS, 8192, sample_first\<lparr>last_index := 16\<rparr>)"
    by (simp add: arena_alloc_aligned_def account_capacity_exceeded_def remaining_bytes_def sample_first_def UINT32_MAX_def)
  show ?thesis
    by (simp add: memory_alloc_def c multi_arena_alloc_def books sample_chain_arena size_constants
        multi_arena_push_def arnm_bvec_push_ptr_def arnm_bvec_emplace_def sample_chain_grow alloc_from_def
        Let_def last wr ld [unfolded wr] al)
qed

lemma chain_alloc_free_round_trip_witness:
  "\<exists>w1 w2. memory_alloc (Some 0) 10 4096 sample_chain = (ARNM_SUCCESS, Some 8192, w1) \<and>
    memory_free 8192 10 4096 w1 = (ARNM_SUCCESS, w2)"
proof -
  obtain c where c: "chain_at 4096 sample_chain = Some c" "chain_ok sample_chain c" by (rule sample_chain_ok)
  obtain w1 where al: "memory_alloc (Some 0) 10 4096 sample_chain = (ARNM_SUCCESS, Some 8192, w1)"
    using sample_chain_alloc by blast
  obtain r w2 where fr: "memory_free 8192 10 4096 w1 = (r, w2)" by fastforce
  from chain_alloc_free_round_trip [OF c _ al fr] al fr show ?thesis by auto
qed

subsection \<open>The whole chain at once\<close>

lemma measure_arenas_spec:
  assumes "chain_ok w c" "i + left = bv_size (arenas c)"
    and "reserved st = sum_list (map capacity (take i (chain_list c)))"
    and "used st = sum_list (map last_index (take i (chain_list c)))"
    and "open_count st = length (filter (\<lambda>a. \<not> arnm_arena_is_used_up (free_bytes a) (full_remaining c))
      (take i (chain_list c)))"
    and "arena_count st = bv_size (arenas c)"
  shows "\<exists>st'. measure_arenas c i left st = Some st' \<and>
    st' = \<lparr>reserved = sum_list (map capacity (chain_list c)), used = sum_list (map last_index (chain_list c)),
      arena_count = bv_size (arenas c),
      open_count = length (filter (\<lambda>a. \<not> arnm_arena_is_used_up (free_bytes a) (full_remaining c)) (chain_list c))\<rparr>"
  using assms
proof (induction left arbitrary: i st)
  case 0
  then show ?case by (cases st) simp
next
  case (Suc left)
  have i: "i < bv_size (arenas c)" using Suc.prems(2) by simp
  let ?a = "chain_list c ! i"
  have d: "descriptor_ok ?a" by (rule chain_arena_ok [OF Suc.prems(1) i])
  have tk: "take (Suc i) (chain_list c) = take i (chain_list c) @ [?a]" using i by (simp add: take_Suc_conv_app_nth)
  have bound: "sum_list (map f (take n (chain_list c))) \<le> n * UINT32_MAX"
    if "\<And>a. a \<in> set (chain_list c) \<Longrightarrow> f a \<le> UINT32_MAX" for n and f :: "arena \<Rightarrow> nat"
  proof -
    have "sum_list (map f (take n (chain_list c))) \<le> sum_list (map (\<lambda>_. UINT32_MAX) (take n (chain_list c)))"
      using that by (intro sum_list_mono) (auto dest: in_set_takeD)
    also have "\<dots> \<le> n * UINT32_MAX" by (simp add: sum_list_triv)
    finally show ?thesis .
  qed
  have small: "a \<in> set (chain_list c) \<Longrightarrow> capacity a \<le> UINT32_MAX \<and> last_index a \<le> UINT32_MAX" for a
    using Suc.prems(1) by (auto simp: chain_ok_def descriptor_ok_def arena_ok_def)
  have n: "Suc i \<le> 268402688" using bvec_size_bound [of "arenas c"] Suc.prems(1) i by (auto simp: chain_ok_def)
  then have "Suc i * UINT32_MAX \<le> 268402688 * UINT32_MAX" by (rule mult_le_mono1)
  then have cap: "Suc i * UINT32_MAX < 2 ^ 64" by (simp add: UINT32_MAX_def)
  have nowrap: "u64 (reserved st + capacity ?a) = reserved st + capacity ?a"
    "u64 (used st + last_index ?a) = used st + last_index ?a" "u32 (open_count st + 1) = open_count st + 1"
  proof -
    show "u64 (reserved st + capacity ?a) = reserved st + capacity ?a"
      using bound [of capacity "Suc i"] small cap Suc.prems(3) tk by (simp add: u64_def)
    show "u64 (used st + last_index ?a) = used st + last_index ?a"
      using bound [of last_index "Suc i"] small cap Suc.prems(4) tk by (simp add: u64_def)
    have "open_count st \<le> i" using Suc.prems(5) by (auto intro: order.trans [OF length_filter_le])
    then show "u32 (open_count st + 1) = open_count st + 1" using n by (simp add: UINT32_MAX_def)
  qed
  let ?st = "st\<lparr>reserved := reserved st + capacity ?a, used := used st + last_index ?a,
    open_count := (if used_up c i then open_count st else open_count st + 1)\<rparr>"
  have turn: "measure_arenas c i (Suc left) st = measure_arenas c (Suc i) left ?st"
    using chain_get(2) [OF Suc.prems(1) i] chain_load [OF Suc.prems(1) i] d remaining_descriptor [OF d] nowrap
    by (simp add: descriptor_ok_def Let_def)
  have len: "Suc i + left = bv_size (arenas c)" using Suc.prems(2) by simp
  have sums: "reserved ?st = sum_list (map capacity (take (Suc i) (chain_list c)))"
    "used ?st = sum_list (map last_index (take (Suc i) (chain_list c)))"
    "open_count ?st = length (filter (\<lambda>a. \<not> arnm_arena_is_used_up (free_bytes a) (full_remaining c))
      (take (Suc i) (chain_list c)))"
    "arena_count ?st = bv_size (arenas c)"
    using Suc.prems(3-6) by (simp_all add: tk)
  show ?case unfolding turn by (rule Suc.IH [OF Suc.prems(1) len sums])
qed

text \<open>Measuring a chain is exact: the bytes reserved and used are the sums over its arenas, with no
  wrap, and the open ones are counted by the rule the scan goes by.\<close>

theorem chain_measure_exact:
  assumes "chain_at m w = Some c" "chain_ok w c"
  shows "arnm_multi_arena_measure m (Some old) w = (ARNM_SUCCESS,
    Some \<lparr>reserved = sum_list (map capacity (chain_list c)), used = sum_list (map last_index (chain_list c)),
      arena_count = bv_size (arenas c),
      open_count = length (filter (\<lambda>a. \<not> arnm_arena_is_used_up (free_bytes a) (full_remaining c)) (chain_list c))\<rparr>)"
  using measure_arenas_spec [OF assms(2), of 0 "bv_size (arenas c)"
      "\<lparr>reserved = 0, used = 0, arena_count = bv_size (arenas c), open_count = 0\<rparr>"]
    assms(1) chain_at_nonnull [OF assms(1)]
  by (auto simp: arnm_multi_arena_measure_def Let_def)

lemma chain_measure_exact_witness:
  "fst (arnm_multi_arena_measure 4096 (Some \<lparr>reserved = 9, used = 9, arena_count = 9, open_count = 9\<rparr>) sample_chain)
    = ARNM_SUCCESS"
proof -
  obtain c where c: "chain_at 4096 sample_chain = Some c" "chain_ok sample_chain c" by (rule sample_chain_ok)
  show ?thesis by (simp add: chain_measure_exact [OF c])
qed

end
