(* ===== verification/Hash.thy ===== *)
theory Hash
  imports Prelude
begin

unbundle bit_operations_syntax

text \<open>
  The two hashes of \<^verbatim>\<open>include/arnm/hash.h\<close> over a run of bytes: the fast one, a fold over
  little-endian words and a finalizer, and SipHash under a key. \<open>data\<close> is the run, as long as
  \<open>length\<close> says. The state of a SipHash is the four words \<open>v[0]\<close> to \<open>v[3]\<close>.
\<close>

type_synonym u64w = "64 word"

definition arnm_hash_load_le64 :: "byte list \<Rightarrow> u64w" where
  "arnm_hash_load_le64 bs =
    ucast (bs ! 0) OR push_bit 8 (ucast (bs ! 1)) OR push_bit 16 (ucast (bs ! 2)) OR
    push_bit 24 (ucast (bs ! 3)) OR push_bit 32 (ucast (bs ! 4)) OR push_bit 40 (ucast (bs ! 5)) OR
    push_bit 48 (ucast (bs ! 6)) OR push_bit 56 (ucast (bs ! 7))"

definition arnm_hash_rotl64 :: "u64w \<Rightarrow> nat \<Rightarrow> u64w" where
  "arnm_hash_rotl64 x bits = push_bit bits x OR drop_bit (64 - bits) x"

text \<open>The bytes behind the last whole word, as the low bytes of one more.\<close>

fun tail_word :: "nat \<Rightarrow> byte list \<Rightarrow> u64w \<Rightarrow> u64w" where
  "tail_word i [] t = t"
| "tail_word i (b # bs) t = tail_word (i + 1) bs (t OR push_bit (8 * i) (ucast b))"

definition whole_length :: "byte list \<Rightarrow> nat" where
  "whole_length data = length data - length data mod 8"

subsection \<open>The fast hash\<close>

definition arnm_hash_fast_fold :: "u64w \<Rightarrow> u64w \<Rightarrow> u64w" where
  "arnm_hash_fast_fold state word = arnm_hash_rotl64 ((state XOR word) * 0x9e3779b97f4a7c15) 31"

fun fast_words :: "nat \<Rightarrow> byte list \<Rightarrow> u64w \<Rightarrow> u64w" where
  "fast_words 0 data state = state"
| "fast_words (Suc n) data state =
    fast_words n (drop 8 data) (arnm_hash_fast_fold state (arnm_hash_load_le64 data))"

definition fast_finish :: "u64w \<Rightarrow> u64w" where
  "fast_finish state =
    (let state = state XOR drop_bit 30 state;
         state = state * 0xbf58476d1ce4e5b9;
         state = state XOR drop_bit 27 state;
         state = state * 0x94d049bb133111eb;
         state = state XOR drop_bit 31 state
     in state)"

definition arnm_hash_fast :: "byte list \<Rightarrow> u64w" where
  "arnm_hash_fast data =
    (let whole = whole_length data;
         state = fast_words (whole div 8) data 0x243f6a8885a308d3;
         state = (if length data \<noteq> whole
                  then arnm_hash_fast_fold state (tail_word 0 (drop whole data) 0) else state)
     in fast_finish state)"

subsection \<open>SipHash\<close>

type_synonym sipstate = "u64w \<times> u64w \<times> u64w \<times> u64w"

fun arnm_hash_sipround :: "sipstate \<Rightarrow> sipstate" where
  "arnm_hash_sipround (v0, v1, v2, v3) =
    (let v0 = v0 + v1;
         v1 = arnm_hash_rotl64 v1 13;
         v1 = v1 XOR v0;
         v0 = arnm_hash_rotl64 v0 32;
         v2 = v2 + v3;
         v3 = arnm_hash_rotl64 v3 16;
         v3 = v3 XOR v2;
         v0 = v0 + v3;
         v3 = arnm_hash_rotl64 v3 21;
         v3 = v3 XOR v0;
         v2 = v2 + v1;
         v1 = arnm_hash_rotl64 v1 17;
         v1 = v1 XOR v2;
         v2 = arnm_hash_rotl64 v2 32
     in (v0, v1, v2, v3))"

fun sip_rounds :: "nat \<Rightarrow> sipstate \<Rightarrow> sipstate" where
  "sip_rounds 0 v = v"
| "sip_rounds (Suc r) v = sip_rounds r (arnm_hash_sipround v)"

fun sip_absorb :: "nat \<Rightarrow> u64w \<Rightarrow> sipstate \<Rightarrow> sipstate" where
  "sip_absorb c_rounds m (v0, v1, v2, v3) =
    (case sip_rounds c_rounds (v0, v1, v2, v3 XOR m) of
       (v0, v1, v2, v3) \<Rightarrow> (v0 XOR m, v1, v2, v3))"

fun sip_words :: "nat \<Rightarrow> nat \<Rightarrow> byte list \<Rightarrow> sipstate \<Rightarrow> sipstate" where
  "sip_words c_rounds 0 data v = v"
| "sip_words c_rounds (Suc n) data v =
    sip_words c_rounds n (drop 8 data) (sip_absorb c_rounds (arnm_hash_load_le64 data) v)"

definition arnm_hash_siphash :: "byte list \<Rightarrow> u64w \<Rightarrow> u64w \<Rightarrow> nat \<Rightarrow> nat \<Rightarrow> u64w" where
  "arnm_hash_siphash data k0 k1 c_rounds d_rounds =
    (let v = (0x736f6d6570736575 XOR k0, 0x646f72616e646f6d XOR k1,
              0x6c7967656e657261 XOR k0, 0x7465646279746573 XOR k1);
         whole = whole_length data;
         v = sip_words c_rounds (whole div 8) data v;
         final = tail_word 0 (drop whole data) (push_bit 56 (of_nat (length data mod 256)))
     in case sip_absorb c_rounds final v of
       (v0, v1, v2, v3) \<Rightarrow>
         (case sip_rounds d_rounds (v0, v1, v2 XOR 0xff, v3) of
            (v0, v1, v2, v3) \<Rightarrow> v0 XOR v1 XOR v2 XOR v3))"

definition arnm_hash_siphash13 :: "byte list \<Rightarrow> u64w \<Rightarrow> u64w \<Rightarrow> u64w" where
  "arnm_hash_siphash13 data k0 k1 = arnm_hash_siphash data k0 k1 1 3"


subsection \<open>The fast hash loses nothing of a word\<close>

lemma inj_mult_unit: "a * c = (1 :: u64w) \<Longrightarrow> inj (\<lambda>x. x * a)"
  by (rule inj_on_inverseI [where g = "\<lambda>x. x * c"]) (simp add: mult.assoc)

lemma xor_word_cancel: "s XOR u = s XOR v \<longleftrightarrow> u = v" for s :: u64w
proof
  assume "s XOR u = s XOR v"
  then have "(s XOR s) XOR u = (s XOR s) XOR v" unfolding xor.assoc by simp
  then show "u = v" by simp
qed simp

lemma inj_xorshift:
  assumes "0 < n"
  shows "inj (\<lambda>x :: u64w. x XOR drop_bit n x)"
proof (rule injI)
  fix x y :: u64w
  assume eq: "x XOR drop_bit n x = y XOR drop_bit n y"
  define z where "z = x XOR y"
  have fixed: "z = drop_bit n z"
  proof (rule bit_word_eqI)
    fix i assume "i < LENGTH(64)"
    show "bit z i = bit (drop_bit n z) i"
      using arg_cong [where f = "\<lambda>w. bit w i", OF eq]
      by (auto simp: z_def bit_xor_iff bit_drop_bit_eq)
  qed
  have "z = drop_bit (k * n) z" for k
    by (induction k) (simp_all add: add.commute [of n] flip: drop_bit_drop_bit fixed)
  from this [of 64] have "z = drop_bit (64 * n) z" .
  moreover have "drop_bit (64 * n) z = 0"
    by (rule bit_word_eqI) (use assms in \<open>auto simp: bit_drop_bit_eq dest: bit_imp_le_length\<close>)
  ultimately have "z = 0" by simp
  then show "x = y" using xor_word_cancel [of y x y] by (simp add: z_def xor.commute)
qed

lemma inj_rotl: "b < 64 \<Longrightarrow> inj (\<lambda>x. arnm_hash_rotl64 x b)"
proof (rule injI)
  fix x y :: u64w
  assume b: "b < 64" and eq: "arnm_hash_rotl64 x b = arnm_hash_rotl64 y b"
  have low: "bit (arnm_hash_rotl64 w b) i = bit w (i + 64 - b)" if "i < b" for w i
    using that b by (auto simp: arnm_hash_rotl64_def bit_or_iff bit_push_bit_iff bit_drop_bit_eq add.commute)
  have high: "bit (arnm_hash_rotl64 w b) i = bit w (i - b)" if "b \<le> i" "i < 64" for w i
    using that b by (auto simp: arnm_hash_rotl64_def bit_or_iff bit_push_bit_iff bit_drop_bit_eq dest: bit_imp_le_length)
  show "x = y"
  proof (rule bit_word_eqI)
    fix i assume i: "i < LENGTH(64)"
    show "bit x i = bit y i"
    proof (cases "i + b < 64")
      case True
      then show ?thesis using high [of "i + b"] eq by (metis add_diff_cancel_right' le_add2)
    next
      case False
      then have "i + b - 64 < b" "i + b - 64 + 64 - b = i" using i by auto
      then show ?thesis using low [of "i + b - 64"] eq by metis
    qed
  qed
qed

lemma fold_inj: "(arnm_hash_fast_fold s w = arnm_hash_fast_fold s' w') \<longleftrightarrow> s XOR w = s' XOR w'"
proof -
  have "inj (\<lambda>x :: u64w. x * 0x9e3779b97f4a7c15)"
    by (rule inj_mult_unit [of _ "0xf1de83e19937733d"]) simp
  then show ?thesis
    unfolding arnm_hash_fast_fold_def using inj_rotl [of 31] by (auto dest: injD)
qed

lemma fast_finish_inj: "inj fast_finish"
proof -
  have "inj (\<lambda>x :: u64w. x * 0xbf58476d1ce4e5b9)"
    by (rule inj_mult_unit [of _ "0x96de1b173f119089"]) simp
  moreover have "inj (\<lambda>x :: u64w. x * 0x94d049bb133111eb)"
    by (rule inj_mult_unit [of _ "0x319642b2d24d8ec3"]) simp
  ultimately show ?thesis
    using inj_xorshift [of 30] inj_xorshift [of 27] inj_xorshift [of 31]
    unfolding inj_def fast_finish_def Let_def by (metis zero_less_numeral)
qed


text \<open>The words a run is folded as: its little-endian words and, when bytes are left, one more.\<close>

function data_words :: "byte list \<Rightarrow> u64w list" where
  "data_words bs =
    (if length bs < 8 then (if bs = [] then [] else [tail_word 0 bs 0])
     else arnm_hash_load_le64 bs # data_words (drop 8 bs))"
  by pat_completeness auto
termination by (relation "measure length") auto

declare data_words.simps [simp del]

lemma fast_words_foldl:
  "8 * n \<le> length bs \<Longrightarrow>
    foldl arnm_hash_fast_fold s (data_words bs) =
    foldl arnm_hash_fast_fold (fast_words n bs s) (data_words (drop (8 * n) bs))"
proof (induction n arbitrary: bs s)
  case (Suc n)
  then have len: "\<not> length bs < 8" "8 * n \<le> length (drop 8 bs)" by auto
  have "foldl arnm_hash_fast_fold s (data_words bs) =
      foldl arnm_hash_fast_fold (arnm_hash_fast_fold s (arnm_hash_load_le64 bs)) (data_words (drop 8 bs))"
    using len(1) by (simp add: data_words.simps [of bs])
  also have "\<dots> = foldl arnm_hash_fast_fold (fast_words (Suc n) bs s) (data_words (drop (8 * n) (drop 8 bs)))"
    using Suc.IH [OF len(2)] by simp
  finally show ?case by (simp add: add.commute)
qed simp

lemma arnm_hash_fast_foldl:
  "arnm_hash_fast bs = fast_finish (foldl arnm_hash_fast_fold 0x243f6a8885a308d3 (data_words bs))"
proof -
  let ?n = "length bs div 8"
  have w: "whole_length bs = 8 * ?n"
    by (simp add: whole_length_def minus_mod_eq_mult_div)
  have "foldl arnm_hash_fast_fold s (data_words (drop (8 * ?n) bs)) =
      (if length bs \<noteq> 8 * ?n then arnm_hash_fast_fold s (tail_word 0 (drop (8 * ?n) bs) 0) else s)" for s
  proof -
    have "length (drop (8 * ?n) bs) < 8" by (simp add: minus_mult_div_eq_mod)
    then show ?thesis by (subst data_words.simps) auto
  qed
  then show ?thesis
    using fast_words_foldl [of ?n bs "0x243f6a8885a308d3"]
    by (simp add: arnm_hash_fast_def w Let_def)
qed

lemma bit_tail_word:
  "bit (tail_word i bs t) (8 * (i + k) + j) \<longleftrightarrow>
    bit t (8 * (i + k) + j) \<or> k < length bs \<and> bit (bs ! k) j"
  if "j < 8" "i + k < 8" "i + length bs \<le> 8"
  using that
proof (induction bs arbitrary: i t k)
  case (Cons b bs)
  have one: "bit (t OR push_bit (8 * i) (ucast b)) (8 * (i + k) + j) \<longleftrightarrow>
      bit t (8 * (i + k) + j) \<or> k = 0 \<and> bit b j"
    using Cons.prems by (cases k) (auto simp: bit_or_iff bit_push_bit_iff bit_ucast_iff dest: bit_imp_le_length)
  show ?case
  proof (cases k)
    case 0
    have "bit (tail_word n bs u) m = bit u m" if "m < 8 * n" for n u m
      using that
    proof (induction bs arbitrary: n u)
      case (Cons c cs)
      then have "bit (tail_word (n + 1) cs (u OR push_bit (8 * n) (ucast c))) m =
          bit (u OR push_bit (8 * n) (ucast c)) m" by (intro Cons.IH) auto
      then show ?case using Cons.prems by (simp add: bit_or_iff bit_push_bit_iff)
    qed simp
    then show ?thesis using one Cons.prems 0 by simp
  next
    case (Suc k')
    then show ?thesis using Cons.IH [of "i + 1" k'] Cons.prems one by simp
  qed
qed simp

lemma byte_eqI: "(\<And>j. j < 8 \<Longrightarrow> bit a j = bit b j) \<Longrightarrow> a = b" for a b :: byte
  by (rule bit_word_eqI) auto

lemma tail_word_inj:
  assumes "length a = length b" "length a \<le> 8" "tail_word 0 a 0 = tail_word 0 b 0"
  shows "a = b"
proof (rule nth_equalityI [OF assms(1)])
  fix k assume "k < length a"
  then show "a ! k = b ! k"
    using bit_tail_word [of _ 0 k a 0] bit_tail_word [of _ 0 k b 0] assms by (intro byte_eqI) auto
qed

lemma load_is_tail_word: "length bs \<ge> 8 \<Longrightarrow> arnm_hash_load_le64 bs = tail_word 0 (take 8 bs) 0"
  by (cases bs; cases "tl bs"; cases "tl (tl bs)"; cases "tl (tl (tl bs))"; cases "tl (tl (tl (tl bs)))";
      cases "tl (tl (tl (tl (tl bs))))"; cases "tl (tl (tl (tl (tl (tl bs)))))";
      cases "tl (tl (tl (tl (tl (tl (tl bs))))))")
    (simp_all add: arnm_hash_load_le64_def or.assoc)

lemma data_words_apart:
  assumes "length a = length b" "a \<noteq> b"
    and "take (8 * k) a = take (8 * k) b" "drop (8 * k + 8) a = drop (8 * k + 8) b"
  shows "\<exists>xs u v ys. data_words a = xs @ u # ys \<and> data_words b = xs @ v # ys \<and> u \<noteq> v"
  using assms
proof (induction k arbitrary: a b)
  case 0
  show ?case
  proof (cases "length a < 8")
    case True
    then have "data_words a = [] @ tail_word 0 a 0 # []" "data_words b = [] @ tail_word 0 b 0 # []"
      using 0(1,2) by (auto simp: data_words.simps)
    moreover have "tail_word 0 a 0 \<noteq> tail_word 0 b 0" using tail_word_inj [of a b] 0 True by auto
    ultimately show ?thesis by blast
  next
    case False
    have "take 8 a \<noteq> take 8 b" using 0 by (metis add_0 append_take_drop_id mult_0_right)
    then have "arnm_hash_load_le64 a \<noteq> arnm_hash_load_le64 b"
      using tail_word_inj [of "take 8 a" "take 8 b"] 0(1) False by (auto simp: load_is_tail_word)
    moreover have "data_words a = [] @ arnm_hash_load_le64 a # data_words (drop 8 a)"
      "data_words b = [] @ arnm_hash_load_le64 b # data_words (drop 8 a)"
      using False 0 by (simp_all add: data_words.simps [of a] data_words.simps [of b])
    ultimately show ?thesis by blast
  qed
next
  case (Suc k)
  have long: "8 \<le> length a" using Suc.prems by (cases "8 \<le> length a") auto
  have heads: "take 8 a = take 8 b"
    using arg_cong [where f = "take 8", OF Suc.prems(3)] by (simp add: min_def)
  have "drop 8 a \<noteq> drop 8 b" using Suc.prems(2) heads by (metis append_take_drop_id)
  moreover have "take (8 * k) (drop 8 a) = take (8 * k) (drop 8 b)"
    using Suc.prems(3) by (simp add: take_drop add.commute)
  moreover have "drop (8 * k + 8) (drop 8 a) = drop (8 * k + 8) (drop 8 b)"
    using Suc.prems(4) by (simp add: add_ac)
  ultimately obtain xs u v ys where ih: "data_words (drop 8 a) = xs @ u # ys"
      "data_words (drop 8 b) = xs @ v # ys" "u \<noteq> v"
    using Suc.IH [of "drop 8 a" "drop 8 b"] Suc.prems(1) by auto
  have "arnm_hash_load_le64 a = arnm_hash_load_le64 b"
    using long Suc.prems(1) heads by (simp add: load_is_tail_word)
  then have "data_words a = (arnm_hash_load_le64 a # xs) @ u # ys"
    "data_words b = (arnm_hash_load_le64 a # xs) @ v # ys"
    using long Suc.prems(1) ih by (simp_all add: data_words.simps [of a] data_words.simps [of b])
  then show ?case using ih(3) by blast
qed

lemma foldl_fold_inj:
  "foldl arnm_hash_fast_fold s ys = foldl arnm_hash_fast_fold s' ys \<longleftrightarrow> s = s'"
proof (induction ys arbitrary: s s')
  case (Cons y ys)
  show ?case by (simp add: Cons.IH fold_inj xor_word_cancel xor.commute [of _ y])
qed simp

text \<open>The fast hash tells apart any two runs of one length that differ only inside one of their
  8-byte words, the incomplete last one included.\<close>

theorem hash_fast_separates_words:
  assumes "length a = length b" "a \<noteq> b"
    and "take (8 * k) a = take (8 * k) b" "drop (8 * k + 8) a = drop (8 * k + 8) b"
  shows "arnm_hash_fast a \<noteq> arnm_hash_fast b"
proof -
  obtain xs u v ys where ws: "data_words a = xs @ u # ys" "data_words b = xs @ v # ys" "u \<noteq> v"
    using data_words_apart [OF assms] by blast
  then show ?thesis
    by (simp add: inj_eq [OF fast_finish_inj] arnm_hash_fast_foldl foldl_fold_inj fold_inj xor_word_cancel)
qed

lemma hash_fast_separates_words_witness:
  "arnm_hash_fast [1, 2, 3, 4, 5, 6, 7, 8, 9, 10] \<noteq> arnm_hash_fast [1, 2, 3, 4, 5, 6, 7, 8, 9, 11]"
  by (rule hash_fast_separates_words [of _ _ 1]) simp_all

subsection \<open>SipHash as its authors define it\<close>

text \<open>
  The specification (Aumasson and Bernstein, \<^emph>\<open>SipHash: a fast short-input PRF\<close>), written apart from the code. The
  message is padded with zero bytes up to one byte short of a multiple of eight; the byte that completes it is
  the message's length modulo 256. It is then read as little-endian words, and each word goes through
  one compression. The round is two columns of additions, rotations and xors, then the same on the other diagonal.
\<close>

fun le_word :: "byte list \<Rightarrow> u64w" where
  "le_word [] = 0"
| "le_word (b # bs) = ucast b + 256 * le_word bs"

definition sip_padded :: "byte list \<Rightarrow> byte list" where
  "sip_padded message = message @ replicate (7 - length message mod 8) 0 @ [of_nat (length message)]"

definition sip_message_words :: "byte list \<Rightarrow> u64w list" where
  "sip_message_words message =
    map (\<lambda>i. le_word (take 8 (drop (8 * i) (sip_padded message)))) [0..<length (sip_padded message) div 8]"

fun half_round :: "nat \<Rightarrow> nat \<Rightarrow> sipstate \<Rightarrow> sipstate" where
  "half_round r s (a, b, c, d) =
    (word_rotl 32 (a + b), word_rotl r b XOR (a + b), c + d, word_rotl s d XOR (c + d))"

text \<open>The second half works on \<open>(v2, v1, v0, v3)\<close>.\<close>

definition spec_round :: "sipstate \<Rightarrow> sipstate" where
  "spec_round v = (case half_round 13 16 v of (v0, v1, v2, v3) \<Rightarrow>
    (case half_round 17 21 (v2, v1, v0, v3) of (v2, v1, v0, v3) \<Rightarrow> (v0, v1, v2, v3)))"

definition spec_compress :: "nat \<Rightarrow> u64w \<Rightarrow> sipstate \<Rightarrow> sipstate" where
  "spec_compress c m v = (case v of (v0, v1, v2, v3) \<Rightarrow>
    (case (spec_round ^^ c) (v0, v1, v2, v3 XOR m) of (v0, v1, v2, v3) \<Rightarrow> (v0 XOR m, v1, v2, v3)))"

definition spec_siphash :: "nat \<Rightarrow> nat \<Rightarrow> u64w \<Rightarrow> u64w \<Rightarrow> byte list \<Rightarrow> u64w" where
  "spec_siphash c d k0 k1 message =
    (case fold (spec_compress c) (sip_message_words message)
        (k0 XOR 0x736f6d6570736575, k1 XOR 0x646f72616e646f6d, k0 XOR 0x6c7967656e657261, k1 XOR 0x7465646279746573) of
      (v0, v1, v2, v3) \<Rightarrow>
        (case (spec_round ^^ d) (v0, v1, v2 XOR 0xff, v3) of (v0, v1, v2, v3) \<Rightarrow> v0 XOR v1 XOR v2 XOR v3))"

text \<open>Words by their bits.\<close>

lemma bit_le_word:
  "k < 8 \<Longrightarrow> j < 8 \<Longrightarrow> bit (le_word bs) (8 * k + j) \<longleftrightarrow> k < length bs \<and> bit (bs ! k) j"
proof (induction bs arbitrary: k)
  case (Cons b bs)
  have "256 * le_word bs = push_bit 8 (le_word bs)" by (simp add: push_bit_eq_mult)
  moreover have "(ucast b :: u64w) AND push_bit 8 (le_word bs) = 0"
    by (rule bit_word_eqI) (auto simp: bit_and_iff bit_push_bit_iff bit_ucast_iff dest: bit_imp_le_length)
  ultimately have "le_word (b # bs) = ucast b OR push_bit 8 (le_word bs)" by (simp add: disjunctive_add_eq_or)
  then show ?case
    using Cons.IH [of "k - 1"] Cons.prems
    by (cases k) (auto simp: bit_or_iff bit_push_bit_iff bit_ucast_iff dest: bit_imp_le_length)
qed simp

lemma word_by_bytes: "(\<And>k j. k < 8 \<Longrightarrow> j < 8 \<Longrightarrow> bit u (8 * k + j) = bit v (8 * k + j)) \<Longrightarrow> u = v" for u v :: u64w
proof (rule bit_word_eqI)
  fix i assume *: "\<And>k j. k < 8 \<Longrightarrow> j < 8 \<Longrightarrow> bit u (8 * k + j) = bit v (8 * k + j)" and "i < LENGTH(64)"
  then have "i div 8 < 8" "i mod 8 < 8" by auto
  from * [OF this] show "bit u i = bit v i" by simp
qed

lemma tail_word_le: "length bs \<le> 8 \<Longrightarrow> tail_word 0 bs 0 = le_word bs"
  by (rule word_by_bytes) (use bit_tail_word [of _ 0 _ bs 0] bit_le_word [of _ _ bs] in auto)

lemma load_le_word: "8 \<le> length bs \<Longrightarrow> arnm_hash_load_le64 bs = le_word (take 8 bs)"
  by (simp add: load_is_tail_word tail_word_le)

lemma bit_of_nat_word: "bit (of_nat n :: 'a::len word) i \<longleftrightarrow> i < LENGTH('a) \<and> bit n i"
proof -
  have "(of_nat n :: 'a word) = word_of_int (int n)" by (rule of_int_of_nat_eq [symmetric])
  then show ?thesis by (simp only: bit_word_of_int_iff bit_of_nat_iff_bit)
qed

lemma last_word_le:
  assumes "length bs < 8"
  shows "tail_word 0 bs (push_bit 56 (of_nat (n mod 256))) = le_word (bs @ replicate (7 - length bs) 0 @ [of_nat n])"
proof (rule word_by_bytes)
  fix k j :: nat assume kj: "k < 8" "j < 8"
  have n: "bit (of_nat (n mod 256) :: u64w) j = bit (of_nat n :: byte) j"
  proof -
    have "n mod 256 = take_bit 8 n" by (simp add: take_bit_eq_mod)
    then show ?thesis using kj(2) by (simp add: bit_of_nat_word bit_take_bit_iff)
  qed
  have t: "bit (push_bit 56 (of_nat (n mod 256)) :: u64w) (8 * k + j) \<longleftrightarrow> k = 7 \<and> bit (of_nat n :: byte) j"
  proof (cases "k = 7")
    case True
    then show ?thesis using kj(2) n by (simp add: bit_push_bit_iff)
  next
    case False
    then have "8 * k + j < 56" using kj by presburger
    then show ?thesis using False by (simp add: bit_push_bit_iff)
  qed
  show "bit (tail_word 0 bs (push_bit 56 (of_nat (n mod 256)))) (8 * k + j) =
      bit (le_word (bs @ replicate (7 - length bs) 0 @ [of_nat n])) (8 * k + j)"
    using bit_tail_word [of j 0 k bs] bit_le_word [OF kj] kj assms t by (auto simp: nth_append)
qed

text \<open>Rounds and compressions.\<close>

lemma rotl_eq: "0 < b \<Longrightarrow> b < 64 \<Longrightarrow> arnm_hash_rotl64 x b = word_rotl b x"
proof (rule bit_word_eqI)
  fix i assume b: "0 < b" "b < 64" and i: "i < LENGTH(64)"
  show "bit (arnm_hash_rotl64 x b) i = bit (word_rotl b x) i"
  proof (cases "i < b")
    case True
    then have "(i + (64 - b)) mod 64 = 64 - b + i" using b by simp
    then show ?thesis using True b i
      by (simp add: arnm_hash_rotl64_def bit_or_iff bit_push_bit_iff bit_drop_bit_eq bit_word_rotl_iff)
  next
    case False
    then have "(i + (64 - b)) mod 64 = i - b" using b i by (simp add: mod_if)
    then show ?thesis using False b i
      by (auto simp: arnm_hash_rotl64_def bit_or_iff bit_push_bit_iff bit_drop_bit_eq bit_word_rotl_iff dest: bit_imp_le_length)
  qed
qed

lemma sipround_eq: "arnm_hash_sipround v = spec_round v"
  by (cases v) (simp add: spec_round_def Let_def rotl_eq xor.commute add.commute)

lemma sip_rounds_eq: "sip_rounds r v = (spec_round ^^ r) v"
  by (induction r arbitrary: v) (simp_all add: sipround_eq funpow_swap1)

lemma sip_absorb_eq: "sip_absorb c m v = spec_compress c m v"
  by (cases v) (simp add: spec_compress_def sip_rounds_eq)

lemma sip_words_fold:
  "8 * n \<le> length bs \<Longrightarrow> sip_words c n bs v = fold (spec_compress c) (map (\<lambda>i. le_word (take 8 (drop (8 * i) bs))) [0..<n]) v"
proof (induction n arbitrary: bs v)
  case (Suc n)
  have up: "[0..<Suc n] = 0 # map Suc [0..<n]" by (simp add: upt_conv_Cons map_Suc_upt del: upt_Suc)
  have "8 * n \<le> length (drop 8 bs)" "8 \<le> length bs" using Suc.prems by auto
  then show ?case using Suc.IH [of "drop 8 bs" "sip_absorb c (arnm_hash_load_le64 bs) v"]
    by (simp add: up load_le_word sip_absorb_eq add.commute comp_def del: upt_Suc)
qed simp

lemma padded_words:
  assumes "n = length message div 8"
  shows "sip_message_words message =
    map (\<lambda>i. le_word (take 8 (drop (8 * i) message))) [0..<n] @ [tail_word 0 (drop (8 * n) message) (push_bit 56 (of_nat (length message mod 256)))]"
proof -
  let ?p = "sip_padded message" and ?r = "drop (8 * n) message"
  have len: "length ?p = 8 * Suc n" using assms by (simp add: sip_padded_def) presburger
  have r: "length ?r = length message mod 8" using assms by (simp add: minus_mult_div_eq_mod)
  have n: "8 * n \<le> length message" using assms by simp
  have "drop (8 * n) ?p = ?r @ replicate (7 - length ?r) 0 @ [of_nat (length message)]"
    using n unfolding sip_padded_def r by simp
  moreover have "length (drop (8 * n) ?p) = 8" using len by simp
  ultimately have last: "le_word (take 8 (drop (8 * n) ?p)) = tail_word 0 ?r (push_bit 56 (of_nat (length message mod 256)))"
    using last_word_le [of ?r "length message"] r by simp
  have early: "take 8 (drop (8 * i) ?p) = take 8 (drop (8 * i) message)" if "i < n" for i
    using that n by (simp add: sip_padded_def)
  have "[0..<Suc n] = [0..<n] @ [n]" by simp
  then have "sip_message_words message = map (\<lambda>i. le_word (take 8 (drop (8 * i) ?p))) ([0..<n] @ [n])"
    by (simp add: sip_message_words_def len)
  then show ?thesis using last early by simp
qed

text \<open>C32: \<open>arnm_hash_siphash\<close> is SipHash as its authors define it, for every message of any length, every key
  and any numbers of rounds, and \<open>arnm_hash_siphash13\<close> is its variant with one and three: the loop over whole
  words and the gathering of the rest under the length byte are the padding, split into words.\<close>

theorem siphash_as_specified:
  "arnm_hash_siphash message k0 k1 c d = spec_siphash c d k0 k1 message \<and>
   arnm_hash_siphash13 message k0 k1 = spec_siphash 1 3 k0 k1 message"
proof -
  let ?n = "length message div 8"
  have w: "whole_length message = 8 * ?n" by (simp add: whole_length_def minus_mod_eq_mult_div)
  have "8 * ?n \<le> length message" by simp
  note words = sip_words_fold [OF this]
  have "arnm_hash_siphash message k0 k1 c d = spec_siphash c d k0 k1 message" for c d
    by (simp add: arnm_hash_siphash_def spec_siphash_def padded_words [OF refl] w words sip_absorb_eq sip_rounds_eq Let_def xor.commute)
  then show ?thesis by (simp add: arnm_hash_siphash13_def)
qed

subsection \<open>SipHash against its reference vectors\<close>

lemma sip_rounds_numeral: "sip_rounds (numeral k) v = sip_rounds (pred_numeral k) (arnm_hash_sipround v)"
  by (simp add: numeral_eq_Suc)


lemma sip_words_numeral:
  "sip_words r (numeral k) bs v =
    sip_words r (pred_numeral k) (drop 8 bs) (sip_absorb r (arnm_hash_load_le64 bs) v)"
  by (simp add: numeral_eq_Suc)

lemmas sip_eval = Let_numeral Let_0 Let_1 arnm_hash_rotl64_def sip_rounds_numeral sip_words_numeral whole_length_def



text \<open>The messages of the reference vectors: \<open>00 01 02\<close> and so on.\<close>

definition counting :: "nat \<Rightarrow> byte list" where
  "counting n = map of_nat [0..<n]"

lemmas sip_message = counting_def upt_rec arnm_hash_load_le64_def arnm_hash_siphash13_def arnm_hash_siphash_def

text \<open>The specification above was typed from the paper; the published vectors tell that it is the paper's. SipHash answers the reference vectors of its specification, under the key \<open>00 01 .. 0f\<close>:
  with two and four rounds for the messages of 0, 1 and 15 bytes, and through
  \<^verbatim>\<open>arnm_hash_siphash13\<close> for those of 0, 7, 8 and 17 bytes.\<close>

theorem siphash_reference_vectors:
  "arnm_hash_siphash (counting 0) 0x0706050403020100 0x0f0e0d0c0b0a0908 2 4 = 0x726fdb47dd0e0e31 \<and>
   arnm_hash_siphash (counting 1) 0x0706050403020100 0x0f0e0d0c0b0a0908 2 4 = 0x74f839c593dc67fd \<and>
   arnm_hash_siphash (counting 15) 0x0706050403020100 0x0f0e0d0c0b0a0908 2 4 = 0xa129ca6149be45e5 \<and>
   arnm_hash_siphash13 (counting 0) 0x0706050403020100 0x0f0e0d0c0b0a0908 = 0xabac0158050fc4dc \<and>
   arnm_hash_siphash13 (counting 7) 0x0706050403020100 0x0f0e0d0c0b0a0908 = 0xd3927d989bb11140 \<and>
   arnm_hash_siphash13 (counting 8) 0x0706050403020100 0x0f0e0d0c0b0a0908 = 0x369095118d299a8e \<and>
   arnm_hash_siphash13 (counting 17) 0x0706050403020100 0x0f0e0d0c0b0a0908 = 0x9cf2689063dbd80c"
  by (intro conjI; simp add: sip_message sip_eval cong: let_weak_cong)

end
