(* ===== verification/Key_Map.thy ===== *)
theory Key_Map
  imports Multi_Arena Hash
begin

unbundle bit_operations_syntax

text \<open>
  The map from fixed-size keys to dense ids (\<^verbatim>\<open>include/arnm/key_map.h\<close>, \<^verbatim>\<open>src/key_map.c\<close>): an open
  table with linear probing beside the vector of the keys. \<open>table_ptr\<close> is the pointer \<open>slots\<close> and
  \<open>table\<close> what the block behind it holds; a key is the run of bytes the caller's pointer names. The
  allocator is the one the key vector keeps, here the argument \<open>ops\<close>. A probe walks until it meets
  its stop, so it is a partial function: \<open>None\<close> is a walk that never ends. NULL maps are the
  business of \<open>with_object\<close>, as for the vector.

  The first section is the code. The second is the invariant of the table and the walk, the third
  the map as what it promises to be: a list of distinct keys, in which the id of a key is its
  position.
\<close>

section \<open>The code\<close>

definition ARNM_KEY_MAP_MAX_CAPACITY :: nat where "ARNM_KEY_MAP_MAX_CAPACITY = 2 ^ 28"

definition ARNM_KEY_MAP_MAX_KEYS :: nat where
  "ARNM_KEY_MAP_MAX_KEYS = ARNM_KEY_MAP_MAX_CAPACITY - ARNM_KEY_MAP_MAX_CAPACITY div 4"

definition ARNM_KEY_MAP_EMPTY_ID :: nat where "ARNM_KEY_MAP_EMPTY_ID = UINT32_MAX"
definition MIN_CAPACITY :: nat where "MIN_CAPACITY = 8"

datatype arnm_key_map_hash = ARNM_KEY_MAP_HASH_FAST | ARNM_KEY_MAP_HASH_SIPHASH13

record arnm_key_map_slot =
  slot_hash :: nat
  slot_id :: nat

record arnm_key_map =
  table_ptr :: addr
  table :: "arnm_key_map_slot list"
  keys :: "byte list bvec"
  hash_k0 :: u64w
  hash_k1 :: u64w
  table_capacity :: nat
  hash_kind :: arnm_key_map_hash

abbreviation is_free :: "arnm_key_map_slot \<Rightarrow> bool" where
  "is_free s \<equiv> slot_id s = ARNM_KEY_MAP_EMPTY_ID"

text \<open>What \<open>memset(.., 0xff, ..)\<close> leaves in a slot.\<close>

definition wiped_slot :: arnm_key_map_slot where
  "wiped_slot = \<lparr>slot_hash = UINT32_MAX, slot_id = UINT32_MAX\<rparr>"

definition load_limit :: "nat \<Rightarrow> nat" where "load_limit cap = cap - cap div 4"

definition table_bytes :: "nat \<Rightarrow> nat" where "table_bytes cap = u32 (cap * 8)"

text \<open>The walk every probe is: from a slot on, wrapping at the end, until one it stops at.\<close>

partial_function (option) walk :: "(nat \<Rightarrow> bool) \<Rightarrow> nat \<Rightarrow> nat \<Rightarrow> nat option" where
  "walk stop msk index = (if stop index then Some index else walk stop msk (u32 (index + 1) AND msk))"

definition free_slot :: "arnm_key_map_slot list \<Rightarrow> nat \<Rightarrow> nat \<Rightarrow> nat option" where
  "free_slot sl cap hash =
    (let msk = cap - 1 in walk (\<lambda>i. is_free (sl ! i)) msk (hash AND msk))"

definition arnm_key_map_slot_hash :: "arnm_key_map \<Rightarrow> byte list \<Rightarrow> nat \<Rightarrow> nat" where
  "arnm_key_map_slot_hash m key key_size =
    (let hash = (case hash_kind m of
        ARNM_KEY_MAP_HASH_SIPHASH13 \<Rightarrow> arnm_hash_siphash13 (take key_size key) (hash_k0 m) (hash_k1 m)
      | ARNM_KEY_MAP_HASH_FAST \<Rightarrow> arnm_hash_fast (take key_size key))
     in unat (ucast (hash XOR drop_bit 32 hash) :: 32 word))"

text \<open>\<open>memcmp(arnm_bvec_get(..), key, key_size) == 0\<close>\<close>

definition key_at_is :: "arnm_key_map \<Rightarrow> nat \<Rightarrow> byte list \<Rightarrow> nat \<Rightarrow> bool" where
  "key_at_is m i key key_size =
    (case bvec_read (arnm_bvec_get (keys m) i) (keys m) of
       None \<Rightarrow> False | Some k \<Rightarrow> take key_size k = take key_size key)"

definition arnm_key_map_probe :: "arnm_key_map \<Rightarrow> byte list \<Rightarrow> nat \<Rightarrow> nat \<Rightarrow> nat option" where
  "arnm_key_map_probe m key hash key_size =
    (let msk = table_capacity m - 1
     in walk (\<lambda>i. is_free (table m ! i) \<or>
            slot_hash (table m ! i) = hash \<and> key_at_is m (slot_id (table m ! i)) key key_size)
          msk (hash AND msk))"

fun move_slots :: "nat \<Rightarrow> arnm_key_map_slot list \<Rightarrow> arnm_key_map_slot list \<Rightarrow> arnm_key_map_slot list option" where
  "move_slots cap [] new_slots = Some new_slots"
| "move_slots cap (s # old_slots) new_slots =
    (if is_free s then move_slots cap old_slots new_slots
     else case free_slot new_slots cap (slot_hash s) of
       None \<Rightarrow> None
     | Some index \<Rightarrow> move_slots cap old_slots (new_slots[index := s]))"

definition rebuild :: "'w ops \<Rightarrow> nat \<Rightarrow> arnm_key_map \<Rightarrow> 'w \<Rightarrow> (arnm_result \<times> arnm_key_map \<times> 'w) option" where
  "rebuild ops cap m w =
    (case op_alloc ops (table_bytes cap) w of
       (result, block, w) \<Rightarrow>
         if result \<noteq> ARNM_SUCCESS then Some (result, m, w)
         else case move_slots cap (take (table_capacity m) (table m)) (replicate cap wiped_slot) of
           None \<Rightarrow> None
         | Some new_slots \<Rightarrow>
             let w = (if table_ptr m \<noteq> NULL
                      then snd (op_free ops (table_ptr m) (table_bytes (table_capacity m)) w) else w)
             in Some (ARNM_SUCCESS, m\<lparr>table_ptr := block, table := new_slots, table_capacity := cap\<rparr>, w))"

partial_function (option) capacity_loop :: "nat \<Rightarrow> nat \<Rightarrow> nat option" where
  "capacity_loop key_count cap =
    (if load_limit cap < key_count then capacity_loop key_count (u32 (cap * 2)) else Some cap)"

definition capacity_for :: "nat \<Rightarrow> nat option" where
  "capacity_for key_count = capacity_loop key_count MIN_CAPACITY"

definition init_map :: "nat \<Rightarrow> nat \<Rightarrow> arnm_key_map_hash \<Rightarrow> u64w \<Rightarrow> u64w \<Rightarrow> arnm_key_map \<Rightarrow>
    arnm_result \<times> arnm_key_map" where
  "init_map key_size keys_bucket_log2 hash k0 k1 m =
    (case arnm_bvec_init keys_bucket_log2 0 key_size (keys m) of
       (result, ks) \<Rightarrow>
         if result \<noteq> ARNM_SUCCESS then (result, m)
         else (ARNM_SUCCESS, \<lparr>table_ptr = NULL, table = [], keys = ks, hash_k0 = k0, hash_k1 = k1,
                table_capacity = 0, hash_kind = hash\<rparr>))"

definition arnm_key_map_init :: "nat \<Rightarrow> nat \<Rightarrow> arnm_key_map \<Rightarrow> arnm_result \<times> arnm_key_map" where
  "arnm_key_map_init key_size keys_bucket_log2 m =
    init_map key_size keys_bucket_log2 ARNM_KEY_MAP_HASH_FAST 0 0 m"

definition arnm_key_map_init_keyed :: "nat \<Rightarrow> nat \<Rightarrow> u64w \<Rightarrow> u64w \<Rightarrow> arnm_key_map \<Rightarrow>
    arnm_result \<times> arnm_key_map" where
  "arnm_key_map_init_keyed key_size keys_bucket_log2 k0 k1 m =
    init_map key_size keys_bucket_log2 ARNM_KEY_MAP_HASH_SIPHASH13 k0 k1 m"

definition arnm_key_map_reserve :: "'w ops \<Rightarrow> nat \<Rightarrow> arnm_key_map \<Rightarrow> 'w \<Rightarrow>
    (arnm_result \<times> arnm_key_map \<times> 'w) option" where
  "arnm_key_map_reserve ops key_count m w =
    (if key_count = 0 then Some (ARNM_ERROR_INVALID_PARAM, m, w)
     else if element_size (keys m) = 0 then Some (ARNM_ERROR_INVALID_STATE, m, w)
     else if key_count > ARNM_KEY_MAP_MAX_KEYS then Some (ARNM_ERROR_ARITHMETIC_OVERFLOW, m, w)
     else case arnm_bvec_reserve ops key_count (keys m) w of
       (result, ks, w) \<Rightarrow>
         let m = m\<lparr>keys := ks\<rparr>
         in if result \<noteq> ARNM_SUCCESS then Some (result, m, w)
            else case capacity_for key_count of
              None \<Rightarrow> None
            | Some cap \<Rightarrow>
                if cap \<le> table_capacity m then Some (ARNM_SUCCESS, m, w) else rebuild ops cap m w)"

definition arnm_key_map_clear :: "arnm_key_map \<Rightarrow> arnm_key_map" where
  "arnm_key_map_clear m =
    (let m = (if table_ptr m \<noteq> NULL then m\<lparr>table := replicate (table_capacity m) wiped_slot\<rparr> else m)
     in m\<lparr>keys := arnm_bvec_clear (keys m)\<rparr>)"

definition arnm_key_map_free :: "'w ops \<Rightarrow> arnm_key_map \<Rightarrow> 'w \<Rightarrow> arnm_key_map \<times> 'w" where
  "arnm_key_map_free ops m w =
    (let w = (if table_ptr m \<noteq> NULL
              then snd (op_free ops (table_ptr m) (table_bytes (table_capacity m)) w) else w);
         m = m\<lparr>table_ptr := NULL, table := [], table_capacity := 0\<rparr>
     in case arnm_bvec_free ops (keys m) w of (ks, w) \<Rightarrow> (m\<lparr>keys := ks\<rparr>, w))"

text \<open>The second half of an insert: the key, and then the slot that names it.\<close>

definition store_key :: "'w ops \<Rightarrow> byte list \<Rightarrow> nat \<Rightarrow> nat \<Rightarrow> nat \<Rightarrow> arnm_key_map \<Rightarrow> 'w \<Rightarrow>
    arnm_result \<times> nat \<times> arnm_key_map \<times> 'w" where
  "store_key ops key hash index out_id m w =
    (let count = arnm_bvec_size (keys m)
     in case arnm_bvec_emplace ops (keys m) w of
          (result, stored, ks, w) \<Rightarrow>
            if result \<noteq> ARNM_SUCCESS then (result, out_id, m\<lparr>keys := ks\<rparr>, w)
            else (ARNM_SUCCESS, count,
                  m\<lparr>keys := bvec_write (the stored) (take (element_size (keys m)) key) ks,
                    table := (table m)[index := \<lparr>slot_hash = hash, slot_id = count\<rparr>]\<rparr>, w))"

definition insert_absent :: "'w ops \<Rightarrow> byte list \<Rightarrow> nat \<Rightarrow> nat \<Rightarrow> nat \<Rightarrow> arnm_key_map \<Rightarrow> 'w \<Rightarrow>
    (arnm_result \<times> nat \<times> arnm_key_map \<times> 'w) option" where
  "insert_absent ops key hash index out_id m w =
    (if arnm_bvec_size (keys m) \<ge> load_limit (table_capacity m) then
       if table_capacity m \<ge> ARNM_KEY_MAP_MAX_CAPACITY then Some (ARNM_ERROR_ARITHMETIC_OVERFLOW, out_id, m, w)
       else case rebuild ops (if table_capacity m \<noteq> 0 then u32 (table_capacity m * 2) else MIN_CAPACITY) m w of
         None \<Rightarrow> None
       | Some (result, m, w) \<Rightarrow>
           if result \<noteq> ARNM_SUCCESS then Some (result, out_id, m, w)
           else case free_slot (table m) (table_capacity m) hash of
             None \<Rightarrow> None
           | Some index \<Rightarrow> Some (store_key ops key hash index out_id m w)
     else Some (store_key ops key hash index out_id m w))"

text \<open>The public insert. A pointer argument is \<open>None\<close> when NULL; \<open>out_id\<close> holds what it points at.\<close>

definition arnm_key_map_insert_absent :: "'w ops \<Rightarrow> byte list option \<Rightarrow> nat \<Rightarrow> nat \<Rightarrow> nat option \<Rightarrow>
    arnm_key_map \<Rightarrow> 'w \<Rightarrow> (arnm_result \<times> nat option \<times> arnm_key_map \<times> 'w) option" where
  "arnm_key_map_insert_absent ops key hash slot_index out_id m w =
    (case (key, out_id) of
       (Some key, Some old) \<Rightarrow>
         if element_size (keys m) = 0 then Some (ARNM_ERROR_INVALID_STATE, out_id, m, w)
         else if table_capacity m \<noteq> 0 \<and> arnm_bvec_size (keys m) < load_limit (table_capacity m) \<and>
           (slot_index \<ge> table_capacity m \<or> \<not> is_free (table m ! slot_index))
         then Some (ARNM_ERROR_INVALID_PARAM, out_id, m, w)
         else map_option (\<lambda>(r, i, m, w). (r, Some i, m, w)) (insert_absent ops key hash slot_index old m w)
     | _ \<Rightarrow> Some (ARNM_ERROR_NULL_POINTER, out_id, m, w))"

text \<open>\<open>lookup_or_insert\<close> is the body of \<open>arnm_key_map_get_or_insert\<close> behind its checks, with the key
  size as an argument, as in the inline copies \<open>ARNM_KEY_MAP_DEFINE\<close> generates.\<close>

definition probed_slot :: "arnm_key_map \<Rightarrow> byte list \<Rightarrow> nat \<Rightarrow> nat \<Rightarrow> nat option" where
  "probed_slot m key hash key_size =
    (if table_capacity m \<noteq> 0 then arnm_key_map_probe m key hash key_size else Some 0)"

definition lookup_or_insert :: "'w ops \<Rightarrow> byte list \<Rightarrow> nat \<Rightarrow> nat \<Rightarrow> bool option \<Rightarrow> arnm_key_map \<Rightarrow> 'w \<Rightarrow>
    (arnm_result \<times> nat \<times> bool option \<times> arnm_key_map \<times> 'w) option" where
  "lookup_or_insert ops key key_size old out_inserted m w =
    (let hash = arnm_key_map_slot_hash m key key_size
     in case probed_slot m key hash key_size of
          None \<Rightarrow> None
        | Some index \<Rightarrow>
            if table_capacity m \<noteq> 0 \<and> \<not> is_free (table m ! index) then
              Some (ARNM_SUCCESS, slot_id (table m ! index), map_option (\<lambda>_. False) out_inserted, m, w)
            else case insert_absent ops key hash index old m w of
              None \<Rightarrow> None
            | Some (result, i, m, w) \<Rightarrow>
                Some (result, i, if result = ARNM_SUCCESS then map_option (\<lambda>_. True) out_inserted
                  else out_inserted, m, w))"

definition arnm_key_map_get_or_insert :: "'w ops \<Rightarrow> byte list option \<Rightarrow> nat option \<Rightarrow> bool option \<Rightarrow>
    arnm_key_map \<Rightarrow> 'w \<Rightarrow> (arnm_result \<times> nat option \<times> bool option \<times> arnm_key_map \<times> 'w) option" where
  "arnm_key_map_get_or_insert ops key out_id out_inserted m w =
    (case (key, out_id) of
       (Some key, Some old) \<Rightarrow>
         let key_size = element_size (keys m)
         in if key_size = 0 then Some (ARNM_ERROR_INVALID_STATE, out_id, out_inserted, m, w)
            else map_option (\<lambda>(r, i, ins, m, w). (r, Some i, ins, m, w))
              (lookup_or_insert ops key key_size old out_inserted m w)
     | _ \<Rightarrow> Some (ARNM_ERROR_NULL_POINTER, out_id, out_inserted, m, w))"

definition lookup :: "byte list \<Rightarrow> nat \<Rightarrow> nat option \<Rightarrow> arnm_key_map \<Rightarrow> (bool \<times> nat option) option" where
  "lookup key key_size out_id m =
    (case arnm_key_map_probe m key (arnm_key_map_slot_hash m key key_size) key_size of
       None \<Rightarrow> None
     | Some index \<Rightarrow>
         if is_free (table m ! index) then Some (False, out_id)
         else Some (True, map_option (\<lambda>_. slot_id (table m ! index)) out_id))"

definition arnm_key_map_find :: "byte list option \<Rightarrow> nat option \<Rightarrow> arnm_key_map \<Rightarrow> (bool \<times> nat option) option" where
  "arnm_key_map_find key out_id m =
    (case key of
       None \<Rightarrow> Some (False, out_id)
     | Some key \<Rightarrow>
         if table_capacity m = 0 then Some (False, out_id) else lookup key (element_size (keys m)) out_id m)"

definition arnm_key_map_size :: "arnm_key_map \<Rightarrow> nat" where "arnm_key_map_size m = arnm_bvec_size (keys m)"
definition arnm_key_map_key :: "arnm_key_map \<Rightarrow> nat \<Rightarrow> addr" where "arnm_key_map_key m i = arnm_bvec_get (keys m) i"

text \<open>The two inline copies of \<open>ARNM_KEY_MAP_DEFINE(name, key_size)\<close>.\<close>

definition typed_get_or_insert :: "nat \<Rightarrow> 'w ops \<Rightarrow> byte list option \<Rightarrow> nat option \<Rightarrow> bool option \<Rightarrow>
    arnm_key_map \<Rightarrow> 'w \<Rightarrow> (arnm_result \<times> nat option \<times> bool option \<times> arnm_key_map \<times> 'w) option" where
  "typed_get_or_insert key_size ops key out_id out_inserted m w =
    (case (key, out_id) of
       (Some k, Some old) \<Rightarrow>
         if key_size \<noteq> element_size (keys m) then Some (ARNM_ERROR_INVALID_STATE, out_id, out_inserted, m, w)
         else
           let hash = arnm_key_map_slot_hash m k key_size
           in case probed_slot m k hash key_size of
                None \<Rightarrow> None
              | Some index \<Rightarrow>
                  if table_capacity m \<noteq> 0 \<and> \<not> is_free (table m ! index) then
                    Some (ARNM_SUCCESS, Some (slot_id (table m ! index)), map_option (\<lambda>_. False) out_inserted, m, w)
                  else case arnm_key_map_insert_absent ops key hash index out_id m w of
                    None \<Rightarrow> None
                  | Some (result, i, m, w) \<Rightarrow>
                      Some (result, i, if result = ARNM_SUCCESS then map_option (\<lambda>_. True) out_inserted
                        else out_inserted, m, w)
     | _ \<Rightarrow> Some (ARNM_ERROR_NULL_POINTER, out_id, out_inserted, m, w))"

definition typed_find :: "nat \<Rightarrow> byte list option \<Rightarrow> nat option \<Rightarrow> arnm_key_map \<Rightarrow> (bool \<times> nat option) option" where
  "typed_find key_size key out_id m =
    (case key of
       None \<Rightarrow> Some (False, out_id)
     | Some key \<Rightarrow>
         if table_capacity m = 0 \<or> key_size \<noteq> element_size (keys m) then Some (False, out_id)
         else lookup key key_size out_id m)"

section \<open>The table\<close>

subsection \<open>Walks\<close>

abbreviation ring_at :: "nat \<Rightarrow> nat \<Rightarrow> nat \<Rightarrow> nat" where
  "ring_at n h d \<equiv> (h + d) mod n"

definition power_capacity :: "nat \<Rightarrow> bool" where
  "power_capacity n \<longleftrightarrow> (\<exists>k. 3 \<le> k \<and> k \<le> 28 \<and> n = 2 ^ k)"

lemma power_capacity_bounds: "power_capacity n \<Longrightarrow> 8 \<le> n \<and> n \<le> ARNM_KEY_MAP_MAX_CAPACITY"
proof -
  assume "power_capacity n"
  then obtain k where "3 \<le> k" "k \<le> 28" "n = 2 ^ k" by (auto simp: power_capacity_def)
  then show ?thesis
    using power_increasing [of 3 k "2::nat"] power_increasing [of k 28 "2::nat"]
    by (simp add: ARNM_KEY_MAP_MAX_CAPACITY_def)
qed

lemma and_capacity: "power_capacity n \<Longrightarrow> i AND (n - 1) = i mod n"
proof -
  assume "power_capacity n"
  then obtain k where "n = 2 ^ k" by (auto simp: power_capacity_def)
  then show ?thesis by (metis mask_eq_exp_minus_1 take_bit_eq_mask take_bit_eq_mod)
qed

lemma walk_reaches:
  assumes "power_capacity n" "stop (ring_at n h D)" "\<And>d. d < D \<Longrightarrow> \<not> stop (ring_at n h d)"
  shows "walk stop (n - 1) (h AND (n - 1)) = Some (ring_at n h D)"
proof -
  have n: "0 < n" "n \<le> 2 ^ 28"
    using power_capacity_bounds [OF assms(1)] by (simp_all add: ARNM_KEY_MAP_MAX_CAPACITY_def)
  have turn: "u32 (ring_at n h d + 1) AND (n - 1) = ring_at n h (Suc d)" for d
  proof -
    have "ring_at n h d < n" using n by simp
    then have "ring_at n h d + 1 \<le> UINT32_MAX" using n(2) by (simp add: UINT32_MAX_def)
    then have "u32 (ring_at n h d + 1) = ring_at n h d + 1" by simp
    then show ?thesis by (simp only: and_capacity [OF assms(1)] mod_add_left_eq) simp
  qed
  have "walk stop (n - 1) (ring_at n h (D - k)) = Some (ring_at n h D)" if "k \<le> D" for k
    using that
  proof (induction k)
    case 0
    then show ?case using assms(2) by (simp add: walk.simps)
  next
    case (Suc k)
    then have "D - Suc k < D" by simp
    then have "\<not> stop (ring_at n h (D - Suc k))" by (rule assms(3))
    then have "walk stop (n - 1) (ring_at n h (D - Suc k)) = walk stop (n - 1) (ring_at n h (Suc (D - Suc k)))"
      by (subst walk.simps) (simp only: turn if_False)
    moreover have "Suc (D - Suc k) = D - k" using Suc.prems by simp
    ultimately show ?case using Suc.IH Suc.prems by simp
  qed
  from this [of D] show ?thesis unfolding and_capacity [OF assms(1)] by simp
qed

lemma walk_ends:
  assumes "power_capacity n" "i < n" "stop i"
  shows "\<exists>D<n. walk stop (n - 1) (h AND (n - 1)) = Some (ring_at n h D) \<and> stop (ring_at n h D) \<and>
    (\<forall>d<D. \<not> stop (ring_at n h d))"
proof -
  have hit: "stop (ring_at n h ((i + n - h mod n) mod n))"
  proof -
    have "h mod n < n" using assms(2) by simp
    then have "h mod n + (i + n - h mod n) = i + n" by simp
    then have "(h mod n + (i + n - h mod n)) mod n = i" using assms(2) by (simp only: mod_add_self2 mod_less)
    then have "ring_at n h ((i + n - h mod n) mod n) = i" by (simp only: mod_add_left_eq mod_add_right_eq)
    then show ?thesis using assms(3) by (simp only:)
  qed
  define D where "D = (LEAST d. stop (ring_at n h d))"
  have "stop (ring_at n h D)" unfolding D_def by (rule LeastI [where P = "\<lambda>d. stop (ring_at n h d)", OF hit])
  moreover have "D \<le> (i + n - h mod n) mod n"
    unfolding D_def by (rule Least_le [where P = "\<lambda>d. stop (ring_at n h d)", OF hit])
  moreover have "(i + n - h mod n) mod n < n" using assms(2) by simp
  moreover have "\<not> stop (ring_at n h d)" if "d < D" for d
    using not_less_Least [where P = "\<lambda>d. stop (ring_at n h d)"] that unfolding D_def by blast
  moreover have "walk stop (n - 1) (h AND (n - 1)) = Some (ring_at n h D)"
    using walk_reaches [OF assms(1)] calculation(1,4) .
  ultimately show ?thesis by (meson le_less_trans)
qed

subsection \<open>Placed entries\<close>

text \<open>The table holds exactly the entries \<open>S\<close>, each once, and each where a walk from its home slot
  meets it before any free slot.\<close>

definition placed :: "nat \<Rightarrow> arnm_key_map_slot list \<Rightarrow> arnm_key_map_slot set \<Rightarrow> bool" where
  "placed n t S \<longleftrightarrow> length t = n \<and> finite S \<and>
    (\<forall>i<n. \<not> is_free (t ! i) \<longrightarrow> t ! i \<in> S) \<and>
    (\<forall>i<n. \<forall>j<n. \<not> is_free (t ! i) \<and> t ! i = t ! j \<longrightarrow> i = j) \<and>
    (\<forall>s\<in>S. \<not> is_free s \<and> (\<exists>d<n. t ! ring_at n (slot_hash s) d = s \<and>
      (\<forall>e<d. \<not> is_free (t ! ring_at n (slot_hash s) e))))"

lemma wiped_free [simp]: "is_free wiped_slot"
  by (simp add: wiped_slot_def ARNM_KEY_MAP_EMPTY_ID_def)

lemma placed_wiped: "placed n (replicate n wiped_slot) {}"
  by (simp add: placed_def)

lemma placed_insert:
  assumes "placed n t S" "s \<notin> S" "\<not> is_free s" "D < n" "is_free (t ! ring_at n (slot_hash s) D)"
    and "\<And>d. d < D \<Longrightarrow> \<not> is_free (t ! ring_at n (slot_hash s) d)"
  shows "placed n (t[ring_at n (slot_hash s) D := s]) (insert s S)"
proof -
  let ?i = "ring_at n (slot_hash s) D" and ?t = "t[ring_at n (slot_hash s) D := s]"
  note p = assms(1) [unfolded placed_def]
  have i: "?i < n" using assms(4) by (intro mod_less_divisor) auto
  have len: "length t = n" using p by simp
  have look: "?t ! j = (if j = ?i then s else t ! j)" if "j < n" for j using that i len by simp
  have ring: "ring_at n h d < n" for h d using assms(4) by (intro mod_less_divisor) auto
  have keep: "\<not> is_free (?t ! j)" if "j < n" "\<not> is_free (t ! j)" for j
    using look [OF that(1)] that(2) assms(3) by (simp split: if_splits)
  have members: "?t ! j \<in> insert s S" if "j < n" "\<not> is_free (?t ! j)" for j
  proof (cases "j = ?i")
    case False
    then show ?thesis using that p unfolding look [OF that(1)] by simp
  qed (simp add: look [OF i])
  have other: "t ! j \<noteq> s" if "j < n" for j using that p assms(2,3) by blast
  have once: "j = k" if "j < n" "k < n" "\<not> is_free (?t ! j)" "?t ! j = ?t ! k" for j k
  proof (cases "j = ?i \<or> k = ?i")
    case True
    then show ?thesis
      using that(4) other [OF that(1)] other [OF that(2)] look [OF that(1)] look [OF that(2)]
      by (metis (no_types, lifting))
  next
    case False
    then have "\<not> is_free (t ! j)" "t ! j = t ! k" using that(3,4) look [OF that(1)] look [OF that(2)] by auto
    then show ?thesis using that(1,2) p by blast
  qed
  have found: "\<exists>d<n. ?t ! ring_at n (slot_hash x) d = x \<and> (\<forall>e<d. \<not> is_free (?t ! ring_at n (slot_hash x) e))"
    if "x \<in> insert s S" for x
  proof (cases "x = s")
    case True
    have "?t ! ?i = s" using look [OF i] by simp
    moreover have "\<not> is_free (?t ! ring_at n (slot_hash s) e)" if "e < D" for e
      using keep [OF ring] assms(6) [OF that] by blast
    ultimately show ?thesis using True assms(4) by blast
  next
    case False
    then have "x \<in> S" using that by blast
    then obtain d where d: "d < n" "t ! ring_at n (slot_hash x) d = x"
        "\<forall>e<d. \<not> is_free (t ! ring_at n (slot_hash x) e)" and nf: "\<not> is_free x"
      using p by meson
    have "ring_at n (slot_hash x) d \<noteq> ?i"
    proof
      assume "ring_at n (slot_hash x) d = ?i"
      then show False using d(2) assms(5) nf by simp
    qed
    then have "?t ! ring_at n (slot_hash x) d = x" using look [OF ring] d(2) by simp
    moreover have "\<forall>e<d. \<not> is_free (?t ! ring_at n (slot_hash x) e)" using d(3) keep [OF ring] by blast
    ultimately show ?thesis using d(1) by blast
  qed
  have nf: "\<not> is_free x" if "x \<in> insert s S" for x using that assms(3) p by auto
  show ?thesis unfolding placed_def
  proof (intro conjI)
    show "length ?t = n" "finite (insert s S)" using len p by simp_all
    show "\<forall>j<n. \<not> is_free (?t ! j) \<longrightarrow> ?t ! j \<in> insert s S" by (intro allI impI) (rule members)
    show "\<forall>j<n. \<forall>k<n. \<not> is_free (?t ! j) \<and> ?t ! j = ?t ! k \<longrightarrow> j = k"
    proof (intro allI impI)
      fix j k assume jk: "j < n" "k < n" "\<not> is_free (?t ! j) \<and> ?t ! j = ?t ! k"
      show "j = k" by (rule once [OF jk(1,2)]) (use jk(3) in \<open>rule conjunct1 conjunct2\<close>)+
    qed
    show "\<forall>x\<in>insert s S. \<not> is_free x \<and> (\<exists>d<n. ?t ! ring_at n (slot_hash x) d = x \<and>
      (\<forall>e<d. \<not> is_free (?t ! ring_at n (slot_hash x) e)))" by (intro ballI conjI) (rule nf found; assumption)+
  qed
qed

lemma placed_free:
  assumes "placed n t S" "card S < n"
  obtains i where "i < n" "is_free (t ! i)"
proof (rule ccontr)
  assume "\<not> thesis"
  then have full: "\<not> is_free (t ! i)" if "i < n" for i using \<open>\<And>i. i < n \<Longrightarrow> is_free (t ! i) \<Longrightarrow> thesis\<close> that by blast
  have "inj_on ((!) t) {..<n}" using assms(1) full by (auto simp: inj_on_def placed_def)
  moreover have "(!) t ` {..<n} \<subseteq> S" "finite S" using assms(1) full by (auto simp: placed_def)
  ultimately have "card {..<n} \<le> card S" by (metis card_image card_mono)
  then show False using assms(2) by simp
qed

lemma free_slot_spec:
  assumes "placed n t S" "card S < n" "power_capacity n"
  shows "\<exists>i. free_slot t n h = Some i \<and> i < n \<and> is_free (t ! i) \<and>
    (\<forall>s. slot_hash s = h \<and> \<not> is_free s \<and> s \<notin> S \<longrightarrow> placed n (t[i := s]) (insert s S))"
proof -
  obtain i where i: "i < n" "is_free (t ! i)" using placed_free [OF assms(1,2)] .
  obtain D where D: "D < n" "free_slot t n h = Some (ring_at n h D)" "is_free (t ! ring_at n h D)"
      "\<forall>d<D. \<not> is_free (t ! ring_at n h d)"
    using walk_ends [where stop = "\<lambda>i. is_free (t ! i)", OF assms(3) i] by (auto simp: free_slot_def Let_def)
  have "ring_at n h D < n" using D(1) by (intro mod_less_divisor) auto
  then show ?thesis using D placed_insert [OF assms(1) _ _ D(1)] by blast
qed

lemma placed_entries:
  assumes "placed n t S"
  shows "set (filter (\<lambda>s. \<not> is_free s) t) = S" "distinct (filter (\<lambda>s. \<not> is_free s) t)"
proof -
  have len: "length t = n" using assms by (simp add: placed_def)
  show "set (filter (\<lambda>s. \<not> is_free s) t) = S"
  proof
    show "set (filter (\<lambda>s. \<not> is_free s) t) \<subseteq> S"
      using assms by (auto simp: placed_def in_set_conv_nth)
    show "S \<subseteq> set (filter (\<lambda>s. \<not> is_free s) t)"
    proof
      fix s assume "s \<in> S"
      then obtain d where "d < n" "t ! ring_at n (slot_hash s) d = s" "\<not> is_free s"
        using assms unfolding placed_def by blast
      moreover have "ring_at n (slot_hash s) d < length t" using \<open>d < n\<close> len by simp
      ultimately show "s \<in> set (filter (\<lambda>s. \<not> is_free s) t)" using nth_mem [of "ring_at n (slot_hash s) d" t] by simp
    qed
  qed
  have "\<forall>i<length t. \<forall>j<length t. \<not> is_free (t ! i) \<and> t ! i = t ! j \<longrightarrow> i = j"
    using assms len unfolding placed_def by blast
  then show "distinct (filter (\<lambda>s. \<not> is_free s) t)"
  proof (induction t)
    case (Cons a t)
    have "distinct (filter (\<lambda>s. \<not> is_free s) t)"
    proof (rule Cons.IH, intro allI impI)
      fix i j assume "i < length t" "j < length t" "\<not> is_free (t ! i) \<and> t ! i = t ! j"
      then show "i = j" using Cons.prems [rule_format, of "Suc i" "Suc j"] by auto
    qed
    moreover have "a \<notin> set t" if "\<not> is_free a"
    proof
      assume "a \<in> set t"
      then obtain j where "j < length t" "t ! j = a" by (auto simp: in_set_conv_nth)
      then show False using Cons.prems [rule_format, of 0 "Suc j"] that by simp
    qed
    ultimately show ?case by auto
  qed simp
qed

lemma move_slots_spec:
  assumes "placed n new S" "power_capacity n" "distinct (filter (\<lambda>s. \<not> is_free s) olds)"
    and "S \<inter> set (filter (\<lambda>s. \<not> is_free s) olds) = {}"
    and "card S + length (filter (\<lambda>s. \<not> is_free s) olds) < n"
  shows "\<exists>t. move_slots n olds new = Some t \<and> placed n t (S \<union> set (filter (\<lambda>s. \<not> is_free s) olds))"
  using assms
proof (induction olds arbitrary: new S)
  case (Cons s olds)
  show ?case
  proof (cases "is_free s")
    case True
    then show ?thesis using Cons.IH [OF Cons.prems(1,2)] Cons.prems(3-5) by simp
  next
    case False
    then have room: "card S < n" and s: "s \<notin> S" using Cons.prems(4,5) by auto
    obtain i where i: "free_slot new n (slot_hash s) = Some i" "placed n (new[i := s]) (insert s S)"
      using free_slot_spec [OF Cons.prems(1) room Cons.prems(2), of "slot_hash s"] False s by blast
    have "finite S" using Cons.prems(1) by (simp add: placed_def)
    then obtain t where "move_slots n olds (new[i := s]) = Some t"
        "placed n t (insert s S \<union> set (filter (\<lambda>s. \<not> is_free s) olds))"
      using Cons.IH [OF i(2) Cons.prems(2)] Cons.prems(3-5) False s by auto
    then show ?thesis using False i(1) by simp
  qed
qed simp

section \<open>The map\<close>

subsection \<open>Its invariant\<close>

definition key_list :: "arnm_key_map \<Rightarrow> byte list list" where
  "key_list m = map the (bvec_list (keys m))"

abbreviation key_size_of :: "arnm_key_map \<Rightarrow> nat" where
  "key_size_of m \<equiv> element_size (keys m)"

definition entry :: "arnm_key_map \<Rightarrow> nat \<Rightarrow> arnm_key_map_slot" where
  "entry m i = \<lparr>slot_hash = arnm_key_map_slot_hash m (key_list m ! i) (key_size_of m), slot_id = i\<rparr>"

definition entries :: "arnm_key_map \<Rightarrow> arnm_key_map_slot set" where
  "entries m = entry m ` {..<bv_size (keys m)}"

definition table_block :: "arnm_key_map \<Rightarrow> (addr \<times> nat) list" where
  "table_block m = (if table_ptr m = NULL then [] else [(table_ptr m, 8 * table_capacity m)])"

definition km_blocks :: "arnm_key_map \<Rightarrow> (addr \<times> nat) list" where
  "km_blocks m = table_block m @ bvec_blocks (keys m)"

definition keys_ok :: "arnm_key_map \<Rightarrow> bool" where
  "keys_ok m \<longleftrightarrow> None \<notin> set (bvec_list (keys m)) \<and> distinct (key_list m) \<and>
    (\<forall>k\<in>set (key_list m). length k = key_size_of m)"

definition table_ok :: "arnm_key_map \<Rightarrow> bool" where
  "table_ok m \<longleftrightarrow>
    (if table_capacity m = 0 then table_ptr m = NULL \<and> table m = [] \<and> bv_size (keys m) = 0
     else table_ptr m \<noteq> NULL \<and> power_capacity (table_capacity m) \<and>
       bv_size (keys m) \<le> load_limit (table_capacity m) \<and> placed (table_capacity m) (table m) (entries m))"

definition km_ok :: "('w \<Rightarrow> addr \<Rightarrow> nat \<Rightarrow> bool) \<Rightarrow> 'w \<Rightarrow> arnm_key_map \<Rightarrow> bool" where
  "km_ok owns w m \<longleftrightarrow> bvec_shape (keys m) \<and> keys_ok m \<and> table_ok m \<and> held_ok owns w (km_blocks m)"

text \<open>What no operation on a map changes.\<close>

definition same_setup :: "arnm_key_map \<Rightarrow> arnm_key_map \<Rightarrow> bool" where
  "same_setup m m' \<longleftrightarrow> key_size_of m' = key_size_of m \<and> hash_kind m' = hash_kind m \<and>
    hash_k0 m' = hash_k0 m \<and> hash_k1 m' = hash_k1 m"

lemma same_setup_refl [simp]: "same_setup m m"
  by (simp add: same_setup_def)

lemma same_setup_trans: "same_setup l m \<Longrightarrow> same_setup m n \<Longrightarrow> same_setup l n"
  by (simp add: same_setup_def)

lemma same_setup_hash: "same_setup m m' \<Longrightarrow> arnm_key_map_slot_hash m' k n = arnm_key_map_slot_hash m k n"
  by (simp add: same_setup_def arnm_key_map_slot_hash_def split: arnm_key_map_hash.split)

lemma length_key_list [simp]: "length (key_list m) = bv_size (keys m)"
  by (simp add: key_list_def)

lemma entries_cong:
  "same_setup m m' \<Longrightarrow> key_list m' = key_list m \<Longrightarrow> entries m' = entries m"
proof -
  assume "same_setup m m'" "key_list m' = key_list m"
  then have "entry m' = entry m" by (simp add: fun_eq_iff entry_def same_setup_hash) (simp add: same_setup_def)
  moreover have "bv_size (keys m') = bv_size (keys m)"
    using \<open>key_list m' = key_list m\<close> by (metis length_key_list)
  ultimately show ?thesis by (simp add: entries_def)
qed

lemma entry_free: "i < UINT32_MAX \<Longrightarrow> \<not> is_free (entry m i)"
  by (simp add: entry_def ARNM_KEY_MAP_EMPTY_ID_def)

lemma finite_entries [simp]: "finite (entries m)"
  by (simp add: entries_def)

lemma card_entries [simp]: "card (entries m) = bv_size (keys m)"
proof -
  have "inj_on (entry m) {..<bv_size (keys m)}" by (auto simp: inj_on_def entry_def)
  then show ?thesis by (simp add: entries_def card_image)
qed

lemma load_limit_less: "power_capacity n \<Longrightarrow> load_limit n < n"
  using power_capacity_bounds [of n] div_le_mono [of 8 n 4] by (auto simp: load_limit_def)

lemma load_limit_eq: "load_limit n = 3 * (n div 4) + n mod 4"
  using div_mult_mod_eq [of n 4] unfolding load_limit_def by linarith

lemma load_limit_mono: "m \<le> n \<Longrightarrow> load_limit m \<le> load_limit n"
proof -
  assume "m \<le> n"
  then have "m div 4 < n div 4 \<or> m div 4 = n div 4 \<and> m mod 4 \<le> n mod 4"
    using div_le_mono [of m n 4] div_mult_mod_eq [of m 4] div_mult_mod_eq [of n 4] by linarith
  moreover have "m mod 4 < 4" by simp
  ultimately show ?thesis unfolding load_limit_eq by linarith
qed

lemma load_limit_max: "power_capacity n \<Longrightarrow> load_limit n \<le> ARNM_KEY_MAP_MAX_KEYS"
  using load_limit_mono [of n ARNM_KEY_MAP_MAX_CAPACITY] power_capacity_bounds [of n]
  by (simp add: ARNM_KEY_MAP_MAX_KEYS_def load_limit_def)

lemma table_bytes_power: "power_capacity n \<Longrightarrow> table_bytes n = 8 * n"
  using power_capacity_bounds [of n]
  by (simp add: table_bytes_def ARNM_KEY_MAP_MAX_CAPACITY_def UINT32_MAX_def)

lemma km_ok_parts:
  assumes "km_ok owns w m"
  shows "bvec_shape (keys m)" "keys_ok m" "table_ok m" "held_ok owns w (km_blocks m)" "bvec_ok owns w (keys m)"
  using assms by (auto simp: km_ok_def bvec_ok_def km_blocks_def held_ok_append)

lemma table_facts:
  assumes "table_ok m" "table_capacity m \<noteq> 0"
  shows "table_ptr m \<noteq> NULL" "power_capacity (table_capacity m)" "bv_size (keys m) \<le> load_limit (table_capacity m)"
    "placed (table_capacity m) (table m) (entries m)" "length (table m) = table_capacity m"
    "card (entries m) < table_capacity m" "table_bytes (table_capacity m) = 8 * table_capacity m"
proof -
  show *: "table_ptr m \<noteq> NULL" "power_capacity (table_capacity m)" "bv_size (keys m) \<le> load_limit (table_capacity m)"
    "placed (table_capacity m) (table m) (entries m)"
    using assms by (auto simp: table_ok_def)
  show "length (table m) = table_capacity m" using *(4) by (simp add: placed_def)
  show "card (entries m) < table_capacity m" using load_limit_less [OF *(2)] *(3) by simp
  show "table_bytes (table_capacity m) = 8 * table_capacity m" by (rule table_bytes_power [OF *(2)])
qed

lemma table_entries:
  assumes "table_ok m"
  shows "set (filter (\<lambda>s. \<not> is_free s) (take (table_capacity m) (table m))) = entries m \<and>
    distinct (filter (\<lambda>s. \<not> is_free s) (take (table_capacity m) (table m)))"
proof (cases "table_capacity m = 0")
  case False
  note t = table_facts [OF assms False]
  then show ?thesis using placed_entries [OF t(4)] t(5) by simp
qed (use assms in \<open>simp add: table_ok_def entries_def\<close>)

subsection \<open>Looking a key up\<close>

text \<open>The id of a key in a list of keys: where it stands.\<close>

definition key_position :: "'k list \<Rightarrow> 'k \<Rightarrow> nat" where
  "key_position ks k = length (takeWhile (\<lambda>x. x \<noteq> k) ks)"

lemma key_position_nth: "distinct ks \<Longrightarrow> i < length ks \<Longrightarrow> key_position ks (ks ! i) = i"
proof (induction ks arbitrary: i)
  case (Cons a ks)
  then show ?case by (cases i) (auto simp: key_position_def)
qed simp

lemma key_at_is_key:
  assumes "km_ok owns w m" "i < bv_size (keys m)" "length key = key_size_of m"
  shows "key_at_is m i key (key_size_of m) \<longleftrightarrow> key_list m ! i = key"
proof -
  note ok = km_ok_parts [OF assms(1)]
  have i: "i < allocated_count (keys m) * bucket_n (keys m)"
    using bvec_size_bound(1) [OF ok(1)] assms(2) by simp
  have "cell (keys m) i \<in> set (bvec_list (keys m))" using assms(2) by (simp add: bvec_list_def)
  then obtain k where k: "cell (keys m) i = Some k" using ok(2) by (metis keys_ok_def option.exhaust)
  have "key_list m ! i = k" using assms(2) k by (simp add: key_list_def bvec_list_def)
  moreover have "key_list m ! i \<in> set (key_list m)" using assms(2) by simp
  ultimately show ?thesis
    using ok(2) assms(3) bvec_get_elem [OF ok(1) i] bvec_read_elem [OF ok(5) i] k
    by (auto simp: key_at_is_def keys_ok_def)
qed

lemma entries_member:
  "s \<in> entries m \<longleftrightarrow> slot_id s < bv_size (keys m) \<and>
    slot_hash s = arnm_key_map_slot_hash m (key_list m ! slot_id s) (key_size_of m)"
proof -
  have "s \<in> entries m \<longleftrightarrow> slot_id s < bv_size (keys m) \<and> s = entry m (slot_id s)"
    by (auto simp: entries_def entry_def)
  then show ?thesis by (simp add: entry_def) (cases s; simp)
qed

lemma probe_spec:
  assumes "km_ok owns w m" "table_capacity m \<noteq> 0" "length key = key_size_of m"
  defines "h \<equiv> arnm_key_map_slot_hash m key (key_size_of m)"
  shows "\<exists>i. arnm_key_map_probe m key h (key_size_of m) = Some i \<and> i < table_capacity m \<and>
    (if key \<in> set (key_list m)
     then \<not> is_free (table m ! i) \<and> slot_id (table m ! i) = key_position (key_list m) key
     else is_free (table m ! i) \<and> (\<forall>s. slot_hash s = h \<and> \<not> is_free s \<and> s \<notin> entries m \<longrightarrow>
       placed (table_capacity m) ((table m)[i := s]) (insert s (entries m))))"
proof -
  let ?n = "table_capacity m" and ?t = "table m"
  let ?stop = "\<lambda>i. is_free (?t ! i) \<or> slot_hash (?t ! i) = h \<and> key_at_is m (slot_id (?t ! i)) key (key_size_of m)"
  note ok = km_ok_parts [OF assms(1)]
  note t = table_facts [OF ok(3) assms(2)]
  obtain f where f: "f < ?n" "is_free (?t ! f)" using placed_free [OF t(4,6)] .
  obtain D where D: "D < ?n" "arnm_key_map_probe m key h (key_size_of m) = Some (ring_at ?n h D)"
      "?stop (ring_at ?n h D)" "\<forall>d<D. \<not> ?stop (ring_at ?n h d)"
    using walk_ends [where stop = ?stop, OF t(2) f(1)] f(2) by (auto simp: arnm_key_map_probe_def Let_def)
  let ?i = "ring_at ?n h D"
  have i: "?i < ?n" using D(1) by (intro mod_less_divisor) auto
  have used: "?t ! j \<in> entries m" if "j < ?n" "\<not> is_free (?t ! j)" for j
    using that t(4) unfolding placed_def by blast
  have hit: "key_list m ! slot_id (?t ! j) = key \<and> slot_id (?t ! j) < bv_size (keys m)"
    if "j < ?n" "\<not> is_free (?t ! j)" "?stop j" for j
    using used [OF that(1,2)] that(2,3) key_at_is_key [OF assms(1) _ assms(3)] by (auto simp: entries_member)
  show ?thesis
  proof (cases "key \<in> set (key_list m)")
    case True
    then obtain id where id: "id < bv_size (keys m)" "key_list m ! id = key"
      by (metis in_set_conv_nth length_key_list)
    have e: "entry m id \<in> entries m" "slot_hash (entry m id) = h" "slot_id (entry m id) = id"
      using id by (simp_all add: entries_member entry_def h_def)
    then obtain d where d: "d < ?n" "?t ! ring_at ?n h d = entry m id" "\<forall>e<d. \<not> is_free (?t ! ring_at ?n h e)"
      using t(4) unfolding placed_def by metis
    have "?stop (ring_at ?n h d)"
      unfolding d(2) e(2,3) using key_at_is_key [OF assms(1) id(1) assms(3)] id(2) by simp
    then have "D \<le> d" using D(4) by (meson not_le)
    moreover have "\<not> is_free (?t ! ring_at ?n h d)" using t(4) e(1) unfolding d(2) placed_def by blast
    ultimately have nf: "\<not> is_free (?t ! ?i)" using d(3) by (cases "D = d") auto
    have "slot_id (?t ! ?i) = key_position (key_list m) key"
      using hit [OF i nf D(3)] key_position_nth [of "key_list m" "slot_id (?t ! ?i)"] ok(2) by (auto simp: keys_ok_def)
    then show ?thesis using True D(2) i nf by simp
  next
    case False
    have absent: "is_free (?t ! j)" if "j < ?n" "?stop j" for j
    proof (rule ccontr)
      assume "\<not> is_free (?t ! j)"
      then have "key_list m ! slot_id (?t ! j) = key" "slot_id (?t ! j) < length (key_list m)"
        using hit [OF that(1) _ that(2)] by simp_all
      then show False using False by (metis nth_mem)
    qed
    have "placed ?n (?t[?i := s]) (insert s (entries m))" if "slot_hash s = h" "\<not> is_free s" "s \<notin> entries m" for s
      using placed_insert [OF t(4) that(3,2) D(1)] absent [OF i D(3)] D(4) that(1) by blast
    then show ?thesis using False D(2) i absent [OF i D(3)] by simp
  qed
qed

subsection \<open>Growing the table\<close>

lemma power_capacity_double:
  "power_capacity n \<Longrightarrow> n < ARNM_KEY_MAP_MAX_CAPACITY \<Longrightarrow> power_capacity (n * 2) \<and> u32 (n * 2) = n * 2"
proof -
  assume "power_capacity n" and less: "n < ARNM_KEY_MAP_MAX_CAPACITY"
  then obtain k where k: "3 \<le> k" "n = 2 ^ k" by (auto simp: power_capacity_def)
  have "(2::nat) ^ k < 2 ^ 28" using less k(2) by (simp only: ARNM_KEY_MAP_MAX_CAPACITY_def)
  then have "k < 28" by (rule power_less_imp_less_exp [rotated]) simp
  then have "3 \<le> Suc k \<and> Suc k \<le> 28 \<and> n * 2 = 2 ^ Suc k" using k by simp
  moreover have "n * 2 \<le> UINT32_MAX" using less by (simp add: ARNM_KEY_MAP_MAX_CAPACITY_def UINT32_MAX_def)
  ultimately show ?thesis unfolding power_capacity_def using u32_id by blast
qed

lemma load_limit_double: "power_capacity n \<Longrightarrow> load_limit n < load_limit (n * 2)"
  using load_limit_less [of n] by (auto simp: load_limit_def)

lemma power_capacity_min: "power_capacity MIN_CAPACITY"
  by (auto simp: power_capacity_def MIN_CAPACITY_def intro: exI [of _ 3])

lemma capacity_loop_spec:
  assumes "3 \<le> k" "k \<le> 28" "key_count \<le> ARNM_KEY_MAP_MAX_KEYS"
    and "\<forall>n. power_capacity n \<and> key_count \<le> load_limit n \<longrightarrow> 2 ^ k \<le> n"
  shows "\<exists>n. capacity_loop key_count (2 ^ k) = Some n \<and> power_capacity n \<and> key_count \<le> load_limit n \<and>
    (\<forall>n'. power_capacity n' \<and> key_count \<le> load_limit n' \<longrightarrow> n \<le> n')"
  using assms
proof (induction "28 - k" arbitrary: k)
  case 0
  then have "key_count \<le> load_limit (2 ^ k)"
    by (simp add: ARNM_KEY_MAP_MAX_KEYS_def ARNM_KEY_MAP_MAX_CAPACITY_def load_limit_def)
  moreover have "power_capacity (2 ^ k)" unfolding power_capacity_def using 0(2,3) by blast
  ultimately show ?case using 0(5) by (subst capacity_loop.simps) auto
next
  case (Suc x)
  have pow: "power_capacity (2 ^ k)" using Suc.prems by (auto simp: power_capacity_def)
  show ?case
  proof (cases "load_limit (2 ^ k) < key_count")
    case True
    have "k < 28" using Suc.hyps(2) by simp
    then have "(2::nat) ^ k < 2 ^ 28" by (intro power_strict_increasing) auto
    then have dbl: "u32 (2 ^ k * 2) = 2 ^ Suc k"
      using power_capacity_double [OF pow] by (simp add: ARNM_KEY_MAP_MAX_CAPACITY_def)
    have least: "2 ^ Suc k \<le> n" if fits: "power_capacity n \<and> key_count \<le> load_limit n" for n
    proof -
      obtain j where j: "n = 2 ^ j" using fits by (auto simp: power_capacity_def)
      have "2 ^ k \<le> n" "n \<noteq> 2 ^ k" using fits Suc.prems(4) True by auto
      then have "Suc k \<le> j" unfolding j by (metis Suc_leI le_neq_implies_less one_less_numeral_iff power_le_imp_le_exp semiring_norm(76))
      then show ?thesis unfolding j by (intro power_increasing) auto
    qed
    have "x = 28 - Suc k" using Suc.hyps(2) by simp
    from Suc.hyps(1) [OF this _ _ Suc.prems(3)] least \<open>k < 28\<close> Suc.prems(1)
    show ?thesis using True dbl by (subst capacity_loop.simps) simp
  next
    case False
    then show ?thesis using Suc.prems(4) pow by (subst capacity_loop.simps) auto
  qed
qed

lemma capacity_for_spec:
  assumes "key_count \<le> ARNM_KEY_MAP_MAX_KEYS"
  shows "\<exists>n. capacity_for key_count = Some n \<and> power_capacity n \<and> key_count \<le> load_limit n \<and>
    (\<forall>n'. power_capacity n' \<and> key_count \<le> load_limit n' \<longrightarrow> n \<le> n')"
proof -
  have "2 ^ 3 \<le> n" if "power_capacity n" for n using power_capacity_bounds [OF that] by simp
  then show ?thesis
    using capacity_loop_spec [of 3 key_count] assms by (simp add: capacity_for_def MIN_CAPACITY_def)
qed

text \<open>A table exchanged for another that holds the same entries.\<close>

definition retabled :: "arnm_key_map \<Rightarrow> nat \<Rightarrow> arnm_key_map \<Rightarrow> bool" where
  "retabled m n m' \<longleftrightarrow> (\<exists>p t. m' = m\<lparr>table_ptr := p, table := t, table_capacity := n\<rparr>)"

lemma retabled_facts:
  "retabled m n m' \<Longrightarrow> keys m' = keys m \<and> table_capacity m' = n \<and> same_setup m m' \<and> key_list m' = key_list m \<and>
    entries m' = entries m"
  by (auto simp: retabled_def same_setup_def key_list_def intro!: entries_cong)

context arnm_allocator begin

abbreviation km_safe :: "'w \<Rightarrow> arnm_key_map \<Rightarrow> 'w \<Rightarrow> arnm_key_map \<Rightarrow> bool" where
  "km_safe w m w' m' \<equiv> sound w' \<and> km_ok owns w' m' \<and> foreign_safe ops owns w (km_blocks m) w' (km_blocks m')"

lemma km_safe_trans: "km_safe w m w1 m1 \<Longrightarrow> km_safe w1 m1 w2 m2 \<Longrightarrow> km_safe w m w2 m2"
  by (blast intro: foreign_safe_trans)

lemma rebuild_blocks:
  assumes "sound w" "km_ok owns w m" "0 < n" "op_alloc ops n w = (ARNM_SUCCESS, p, w1)"
    and "w2 = (if table_ptr m \<noteq> NULL then snd (op_free ops (table_ptr m) (table_bytes (table_capacity m)) w1) else w1)"
  shows "p \<noteq> NULL" "safe_step w (km_blocks m) w2 ((p, n) # bvec_blocks (keys m))"
proof -
  note ok = km_ok_parts [OF assms(2)]
  have al: "safe_step w (km_blocks m) w1 ((p, n) # km_blocks m)"
    using hold_alloc [OF assms(1) ok(4) assms(3,4)] by simp
  then have "owns w1 p n" by simp
  then show "p \<noteq> NULL" using owned al by blast
  show "safe_step w (km_blocks m) w2 ((p, n) # bvec_blocks (keys m))"
  proof (cases "table_ptr m = NULL")
    case True
    then show ?thesis using al assms(5) by (simp add: km_blocks_def table_block_def)
  next
    case False
    let ?old = "(table_ptr m, 8 * table_capacity m)"
    have cap: "table_capacity m \<noteq> 0" using False ok(3) by (cases "table_capacity m = 0") (simp_all add: table_ok_def)
    have kb: "km_blocks m = ?old # bvec_blocks (keys m)" using False by (simp add: km_blocks_def table_block_def)
    have held: "held_ok owns w1 (?old # (p, n) # bvec_blocks (keys m))"
      using al held_ok_middle [of owns w1 "[(p, n)]" "table_ptr m" "8 * table_capacity m" "bvec_blocks (keys m)"]
      by (simp add: kb)
    obtain r where fr: "op_free ops (table_ptr m) (8 * table_capacity m) w1 = (r, w2)"
      using assms(5) False table_facts(7) [OF ok(3) cap] by (metis prod.collapse snd_conv)
    have "safe_step w1 (?old # (p, n) # bvec_blocks (keys m)) w2 ((p, n) # bvec_blocks (keys m))"
      using hold_free [OF _ held fr] al by blast
    moreover have "foreign_safe ops owns w (km_blocks m) w1 (?old # (p, n) # bvec_blocks (keys m))"
      using al by (auto intro: foreign_safe_set simp: kb)
    ultimately show ?thesis using al held by (blast intro: foreign_safe_trans)
  qed
qed

lemma rebuild_spec:
  assumes "sound w" "km_ok owns w m" "power_capacity n" "bv_size (keys m) \<le> load_limit n"
  shows "\<exists>r m' w'. rebuild ops n m w = Some (r, m', w') \<and> km_safe w m w' m' \<and>
    (if r = ARNM_SUCCESS then retabled m n m' else m' = m)"
proof -
  note ok = km_ok_parts [OF assms(2)]
  obtain r p w1 where al: "op_alloc ops (8 * n) w = (r, p, w1)" by (metis prod_cases3)
  have n: "0 < 8 * n" using power_capacity_bounds [OF assms(3)] by simp
  show ?thesis
  proof (cases "r = ARNM_SUCCESS")
    case False
    then have "safe_step w (km_blocks m) w1 (km_blocks m)"
      using hold_alloc [OF assms(1) ok(4) n al] by simp
    then show ?thesis
      using False ok assms(3) by (simp add: rebuild_def al table_bytes_power km_ok_def)
  next
    case True
    let ?olds = "take (table_capacity m) (table m)"
    note te = table_entries [OF ok(3)]
    have "length (filter (\<lambda>s. \<not> is_free s) ?olds) = card (entries m)"
      using te by (metis distinct_card)
    then have "card {} + length (filter (\<lambda>s. \<not> is_free s) ?olds) < n"
      using assms(4) load_limit_less [OF assms(3)] by simp
    from move_slots_spec [OF placed_wiped assms(3) conjunct2 [OF te] _ this]
    obtain t where t: "move_slots n ?olds (replicate n wiped_slot) = Some t" "placed n t (entries m)"
      using te by auto
    let ?w = "if table_ptr m \<noteq> NULL then snd (op_free ops (table_ptr m) (table_bytes (table_capacity m)) w1) else w1"
    let ?m = "m\<lparr>table_ptr := p, table := t, table_capacity := n\<rparr>"
    have run: "rebuild ops n m w = Some (ARNM_SUCCESS, ?m, ?w)"
      using True t(1) by (simp add: rebuild_def al table_bytes_power [OF assms(3)] Let_def)
    have rt: "retabled m n ?m" by (auto simp: retabled_def)
    note facts = retabled_facts [OF rt]
    note bl = rebuild_blocks [OF assms(1,2) n al [unfolded True] refl]
    have blocks: "km_blocks ?m = (p, 8 * n) # bvec_blocks (keys m)"
      using bl(1) by (simp add: km_blocks_def table_block_def)
    have "table_ok ?m" using bl(1) assms(3,4) t(2) facts n by (simp add: table_ok_def)
    moreover have "keys_ok ?m" using ok(2) facts by (simp add: keys_ok_def)
    ultimately have "km_ok owns ?w ?m" using ok(1) bl(2) by (simp add: km_ok_def blocks)
    then show ?thesis using run rt bl(2) by (simp add: blocks)
  qed
qed

end

subsection \<open>Adding a key\<close>

lemma emplace_setup:
  assumes "arnm_bvec_emplace ops v w = (r, a, v', w')"
  shows "element_size v' = element_size v"
  using assms
  by (auto simp: arnm_bvec_emplace_def arnm_bvec_grow_def grow_bucket_def open_bucket_def Let_def
      split: prod.splits if_splits)

text \<open>A key vector exchanged for another that holds the same keys.\<close>

lemma rekeyed:
  assumes "km_ok owns w m" "bvec_list ks = bvec_list (keys m)" "element_size ks = key_size_of m"
  shows "same_setup m (m\<lparr>keys := ks\<rparr>)" "key_list (m\<lparr>keys := ks\<rparr>) = key_list m"
    "keys_ok (m\<lparr>keys := ks\<rparr>)" "table_ok (m\<lparr>keys := ks\<rparr>)"
proof -
  note ok = km_ok_parts [OF assms(1)]
  show su: "same_setup m (m\<lparr>keys := ks\<rparr>)" and list: "key_list (m\<lparr>keys := ks\<rparr>) = key_list m"
    using assms by (simp_all add: same_setup_def key_list_def)
  have size: "bv_size ks = bv_size (keys m)" using assms(2) by (metis length_bvec_list)
  show "keys_ok (m\<lparr>keys := ks\<rparr>)" using ok(2) assms(2,3) list by (simp add: keys_ok_def)
  show "table_ok (m\<lparr>keys := ks\<rparr>)" using ok(3) size entries_cong [OF su list] by (simp add: table_ok_def)
qed

lemma added_key:
  assumes "km_ok owns w m" "table_capacity m \<noteq> 0" "bv_size (keys m) < load_limit (table_capacity m)"
    and "key \<notin> set (key_list m)" "length key = key_size_of m"
    and "bvec_list ks = bvec_list (keys m) @ [Some key]" "element_size ks = key_size_of m"
    and "\<forall>s. slot_hash s = arnm_key_map_slot_hash m key (key_size_of m) \<and> \<not> is_free s \<and> s \<notin> entries m \<longrightarrow>
      placed (table_capacity m) ((table m)[i := s]) (insert s (entries m))"
  defines "m' \<equiv> m\<lparr>keys := ks, table := (table m)[i := \<lparr>slot_hash =
      arnm_key_map_slot_hash m key (key_size_of m), slot_id = bv_size (keys m)\<rparr>]\<rparr>"
  shows "same_setup m m'" "key_list m' = key_list m @ [key]" "keys_ok m'" "table_ok m'"
proof -
  note ok = km_ok_parts [OF assms(1)]
  note t = table_facts [OF ok(3) assms(2)]
  show su: "same_setup m m'" and list: "key_list m' = key_list m @ [key]"
    using assms(6,7) by (simp_all add: m'_def same_setup_def key_list_def)
  have size: "bv_size ks = bv_size (keys m) + 1"
    using assms(6) by (metis length_append_singleton length_bvec_list Suc_eq_plus1)
  show "keys_ok m'" using ok(2) list assms(4-7) by (auto simp: keys_ok_def m'_def)
  define s where "s = \<lparr>slot_hash = arnm_key_map_slot_hash m key (key_size_of m), slot_id = bv_size (keys m)\<rparr>"
  have "entry m' (bv_size (keys m)) = s"
    using su by (simp add: entry_def s_def list nth_append same_setup_hash) (simp add: same_setup_def)
  moreover have "entry m' j = entry m j" if "j < bv_size (keys m)" for j
    using su that by (simp add: entry_def list nth_append same_setup_hash) (simp add: same_setup_def)
  ultimately have "entries m' = insert s (entries m)"
    by (auto simp: entries_def m'_def size less_Suc_eq lessThan_Suc)
  moreover have "bv_size (keys m) < UINT32_MAX"
    using assms(3) load_limit_max [OF t(2)]
    by (simp add: ARNM_KEY_MAP_MAX_KEYS_def ARNM_KEY_MAP_MAX_CAPACITY_def UINT32_MAX_def)
  then have "\<not> is_free s" "s \<notin> entries m" by (auto simp: s_def ARNM_KEY_MAP_EMPTY_ID_def entries_member)
  then have "placed (table_capacity m) ((table m)[i := s]) (insert s (entries m))"
    using assms(8) by (simp add: s_def)
  ultimately show "table_ok m'" using assms(2,3) t(1,2) size by (simp add: table_ok_def m'_def s_def)
qed

context arnm_allocator begin

lemma km_keys_step:
  assumes "km_ok owns w m" "sound w'" "held_ok owns w' (bvec_blocks ks)"
    and "foreign_safe ops owns w (bvec_blocks (keys m)) w' (bvec_blocks ks)"
  shows "held_ok owns w' (table_block m @ bvec_blocks ks)"
    "foreign_safe ops owns w (km_blocks m) w' (table_block m @ bvec_blocks ks)"
proof -
  have "held_ok owns w (bvec_blocks (keys m) @ table_block m)"
    using assms(1) unfolding km_ok_def km_blocks_def by (blast intro: held_ok_swap [THEN iffD1])
  then have "held_ok owns w' (bvec_blocks ks @ table_block m)"
    using held_ok_foreign [OF assms(4) _ assms(3)] by blast
  then show "held_ok owns w' (table_block m @ bvec_blocks ks)" by (rule held_ok_swap [THEN iffD1])
  show "foreign_safe ops owns w (km_blocks m) w' (table_block m @ bvec_blocks ks)"
    using foreign_safe_more [OF assms(4), of "table_block m"]
    by (rule foreign_safe_set) (auto simp: km_blocks_def)
qed

text \<open>A key added under an allocator that may refuse it: \<open>r\<close> and \<open>i\<close> are what the insert answers.\<close>

abbreviation km_added :: "byte list \<Rightarrow> nat \<Rightarrow> 'w \<Rightarrow> arnm_key_map \<Rightarrow> arnm_result \<Rightarrow> nat \<Rightarrow> 'w \<Rightarrow> arnm_key_map \<Rightarrow> bool" where
  "km_added key old w m r i w' m' \<equiv> km_safe w m w' m' \<and> same_setup m m' \<and>
    (if r = ARNM_SUCCESS then i = bv_size (keys m) \<and> key_list m' = key_list m @ [key]
     else i = old \<and> key_list m' = key_list m)"

lemma store_key_spec:
  assumes "sound w" "km_ok owns w m" "table_capacity m \<noteq> 0" "bv_size (keys m) < load_limit (table_capacity m)"
    and "key \<notin> set (key_list m)" "length key = key_size_of m"
    and "\<forall>s. slot_hash s = h \<and> \<not> is_free s \<and> s \<notin> entries m \<longrightarrow>
      placed (table_capacity m) ((table m)[i := s]) (insert s (entries m))"
    and "h = arnm_key_map_slot_hash m key (key_size_of m)"
    and "store_key ops key h i old m w = (r, j, m', w')"
  shows "km_added key old w m r j w' m'"
proof -
  note ok = km_ok_parts [OF assms(2)]
  obtain r1 a ks w1 where em: "arnm_bvec_emplace ops (keys m) w = (r1, a, ks, w1)" by (metis prod_cases4)
  note step = emplace_spec [OF assms(1) ok(5) em] and size = emplace_setup [OF em]
  have shape: "bvec_shape ks" using step by (simp add: bvec_ok_def)
  show ?thesis
  proof (cases "r1 = ARNM_SUCCESS")
    case False
    then have out: "r = r1" "j = old" "m' = m\<lparr>keys := ks\<rparr>" "w' = w1" using assms(9) em by (auto simp: store_key_def)
    have "same_elements (keys m) ks" using step False by simp
    then have "bvec_list ks = bvec_list (keys m)" using same_elements_list ok(1) by blast
    note re = rekeyed [OF assms(2) this size]
    have tb: "km_blocks m' = table_block m @ bvec_blocks ks" by (simp add: out km_blocks_def table_block_def)
    note bl = km_keys_step [OF assms(2), of w1 ks, folded tb]
    have "km_ok owns w1 m'" using step shape re bl by (simp add: out km_ok_def bvec_ok_def)
    then show ?thesis using step False re bl by (simp add: out bvec_ok_def)
  next
    case True
    then obtain s where s: "a = Some s" "appended (keys m) ks s" using step by auto
    define v where "v = bvec_write s (take (key_size_of m) key) ks"
    have at: "s = elem_addr ks (bv_size (keys m))" "bv_size (keys m) < bv_size ks"
      using s(2) by (auto simp: appended_def)
    have room: "bv_size (keys m) < allocated_count ks * bucket_n ks"
      using bvec_size_bound(1) [OF shape] at(2) by simp
    have okks: "bvec_ok owns w1 ks" using step by blast
    have okv: "bvec_ok owns w1 v" "bvec_list v = (bvec_list ks)[bv_size (keys m) := Some key]"
      using bvec_write_ok [OF okks room] bvec_write_list [OF okks at(2)] assms(6) by (simp_all add: v_def at(1))
    have "bvec_list ks = bvec_list (keys m) @ [last (bvec_list ks)]"
      using appended_list [OF s(2)] at(2) append_butlast_last_id [of "bvec_list ks"] by (metis length_bvec_list length_greater_0_conv not_less_zero gr_implies_not0 not_gr_zero)
    then have "bvec_list v = bvec_list (keys m) @ [Some key]"
      unfolding okv(2) by (metis length_bvec_list list_update_length)
    moreover have "element_size v = key_size_of m" using size by (simp add: v_def)
    moreover have out: "r = ARNM_SUCCESS" "j = bv_size (keys m)" "w' = w1"
      "m' = m\<lparr>keys := v, table := (table m)[i := \<lparr>slot_hash =
        arnm_key_map_slot_hash m key (key_size_of m), slot_id = bv_size (keys m)\<rparr>]\<rparr>"
      using assms(8,9) em True s(1) by (auto simp: store_key_def v_def arnm_bvec_size_def Let_def)
    ultimately have add: "same_setup m m'" "key_list m' = key_list m @ [key]" "keys_ok m'" "table_ok m'"
      using added_key [OF assms(2-6) _ _ assms(7) [unfolded assms(8)], of v] by simp_all
    have tb: "km_blocks m' = table_block m @ bvec_blocks v" by (simp add: out km_blocks_def table_block_def)
    have "bvec_blocks v = bvec_blocks ks" by (simp add: v_def)
    then have bl: "held_ok owns w1 (km_blocks m')" "foreign_safe ops owns w (km_blocks m) w1 (km_blocks m')"
      using km_keys_step [OF assms(2), of w1 v] step okv(1) by (simp_all add: tb bvec_ok_def)
    then have "km_ok owns w1 m'" using okv(1) add by (simp add: km_ok_def bvec_ok_def out)
    then show ?thesis using step add bl by (simp add: out)
  qed
qed

lemma insert_absent_spec:
  assumes "sound w" "km_ok owns w m" "key \<notin> set (key_list m)" "length key = key_size_of m"
    and "h = arnm_key_map_slot_hash m key (key_size_of m)"
    and "table_capacity m \<noteq> 0 \<Longrightarrow> \<forall>s. slot_hash s = h \<and> \<not> is_free s \<and> s \<notin> entries m \<longrightarrow>
      placed (table_capacity m) ((table m)[i := s]) (insert s (entries m))"
  shows "\<exists>r j m' w'. insert_absent ops key h i old m w = Some (r, j, m', w') \<and> km_added key old w m r j w' m'"
proof -
  note ok = km_ok_parts [OF assms(2)]
  show ?thesis
  proof (cases "load_limit (table_capacity m) \<le> bv_size (keys m)")
    case False
    then have cap: "table_capacity m \<noteq> 0" by (cases "table_capacity m = 0") (simp_all add: load_limit_def)
    obtain r j m' w' where st: "store_key ops key h i old m w = (r, j, m', w')" by (metis prod_cases4)
    have "km_added key old w m r j w' m'"
      by (rule store_key_spec [OF assms(1,2) cap _ assms(3,4) assms(6) [OF cap] assms(5) st]) (use False in simp)
    then show ?thesis using False st by (simp add: insert_absent_def arnm_bvec_size_def)
  next
    case full: True
    show ?thesis
    proof (cases "ARNM_KEY_MAP_MAX_CAPACITY \<le> table_capacity m")
      case True
      then show ?thesis using full assms(1,2) by (simp add: insert_absent_def arnm_bvec_size_def)
    next
      case False
      let ?n = "if table_capacity m \<noteq> 0 then u32 (table_capacity m * 2) else MIN_CAPACITY"
      have n: "power_capacity ?n \<and> bv_size (keys m) < load_limit ?n"
      proof (cases "table_capacity m = 0")
        case True
        then show ?thesis using ok(3) power_capacity_min by (simp add: table_ok_def MIN_CAPACITY_def load_limit_def)
      next
        case cap: False
        note t = table_facts [OF ok(3) cap]
        then show ?thesis
          using power_capacity_double [OF t(2)] load_limit_double [OF t(2)] t(3) cap False by auto
      qed
      obtain r m1 w1 where rb: "rebuild ops ?n m w = Some (r, m1, w1)" "km_safe w m w1 m1"
          "if r = ARNM_SUCCESS then retabled m ?n m1 else m1 = m"
        using rebuild_spec [OF assms(1,2), of ?n] n by auto
      show ?thesis
      proof (cases "r = ARNM_SUCCESS")
        case False
        then show ?thesis using rb full \<open>\<not> ARNM_KEY_MAP_MAX_CAPACITY \<le> table_capacity m\<close>
          by (simp add: insert_absent_def arnm_bvec_size_def)
      next
        case True
        then have rt: "retabled m ?n m1" using rb(3) by simp
        note facts = retabled_facts [OF rt]
        have cap1: "table_capacity m1 \<noteq> 0" using facts power_capacity_bounds [of ?n] n by auto
        have ok1: "km_ok owns w1 m1" "sound w1" using rb(2) by blast+
        note t1 = table_facts [OF km_ok_parts(3) [OF ok1(1)] cap1]
        have h1: "h = arnm_key_map_slot_hash m1 key (key_size_of m1)"
          using facts assms(5) same_setup_hash [of m m1] by simp
        obtain k where k: "free_slot (table m1) (table_capacity m1) h = Some k"
            "\<forall>s. slot_hash s = h \<and> \<not> is_free s \<and> s \<notin> entries m1 \<longrightarrow>
              placed (table_capacity m1) ((table m1)[k := s]) (insert s (entries m1))"
          using free_slot_spec [OF t1(4,6,2), of h] by blast
        obtain r2 j m2 w2 where st: "store_key ops key h k old m1 w1 = (r2, j, m2, w2)" by (metis prod_cases4)
        have "km_added key old w1 m1 r2 j w2 m2"
          by (rule store_key_spec [OF ok1(2,1) cap1 _ _ _ k(2) h1 st]) (use facts n assms(3,4) in auto)
        then have "km_added key old w m r2 j w2 m2"
          using rb(2) facts km_safe_trans [OF rb(2)] same_setup_trans [of m m1 m2] by auto
        moreover have "insert_absent ops key h i old m w = Some (r2, j, m2, w2)"
          using True rb(1) k(1) st full False by (simp add: insert_absent_def arnm_bvec_size_def)
        ultimately show ?thesis by blast
      qed
    qed
  qed
qed

lemma lookup_or_insert_spec:
  assumes "sound w" "km_ok owns w m" "length key = key_size_of m"
  shows "\<exists>r j ins' m' w'. lookup_or_insert ops key (key_size_of m) old ins m w = Some (r, j, ins', m', w') \<and>
    (if key \<in> set (key_list m)
     then r = ARNM_SUCCESS \<and> j = key_position (key_list m) key \<and> ins' = map_option (\<lambda>_. False) ins \<and> m' = m \<and> w' = w
     else km_added key old w m r j w' m' \<and> ins' = (if r = ARNM_SUCCESS then map_option (\<lambda>_. True) ins else ins))"
proof -
  note ok = km_ok_parts [OF assms(2)]
  let ?h = "arnm_key_map_slot_hash m key (key_size_of m)"
  obtain i where i: "probed_slot m key ?h (key_size_of m) = Some i"
      "table_capacity m \<noteq> 0 \<and> \<not> is_free (table m ! i) \<longleftrightarrow> key \<in> set (key_list m)"
      "key \<in> set (key_list m) \<longrightarrow> slot_id (table m ! i) = key_position (key_list m) key"
      "table_capacity m \<noteq> 0 \<Longrightarrow> key \<notin> set (key_list m) \<Longrightarrow>
        \<forall>s. slot_hash s = ?h \<and> \<not> is_free s \<and> s \<notin> entries m \<longrightarrow>
          placed (table_capacity m) ((table m)[i := s]) (insert s (entries m))"
  proof (cases "table_capacity m = 0")
    case True
    then have "length (key_list m) = 0" using ok(3) by (simp add: table_ok_def)
    then have "key_list m = []" by (simp only: length_0_conv)
    then show ?thesis using that [of 0] True by (simp add: probed_slot_def)
  next
    case False
    then show ?thesis
      using probe_spec [OF assms(2) False assms(3)] that by (fastforce simp: probed_slot_def split: if_splits)
  qed
  show ?thesis
  proof (cases "key \<in> set (key_list m)")
    case True
    then show ?thesis using i by (simp add: lookup_or_insert_def)
  next
    case False
    obtain r j m' w' where run: "insert_absent ops key ?h i old m w = Some (r, j, m', w')" "km_added key old w m r j w' m'"
      using insert_absent_spec [OF assms(1,2) False assms(3) refl i(4)] False by blast
    have "lookup_or_insert ops key (key_size_of m) old ins m w =
        Some (r, j, if r = ARNM_SUCCESS then map_option (\<lambda>_. True) ins else ins, m', w')"
      using i(1,2) False run(1) by (auto simp: lookup_or_insert_def)
    then show ?thesis using False run(2) by auto
  qed
qed

end

subsection \<open>Every operation\<close>

lemma reserve_element_size:
  assumes "same_elements v v'" shows "element_size v' = element_size v"
  using assms by (simp add: same_elements_def)

lemma cleared_map:
  assumes "km_ok owns w m"
  shows "km_ok owns w (arnm_key_map_clear m)" "km_blocks (arnm_key_map_clear m) = km_blocks m"
    "key_list (arnm_key_map_clear m) = []" "same_setup m (arnm_key_map_clear m)"
proof -
  let ?c = "arnm_key_map_clear m"
  note ok = km_ok_parts [OF assms]
  note cl = clear_spec [OF ok(1)]
  have fields: "keys ?c = arnm_bvec_clear (keys m)" "table_ptr ?c = table_ptr m" "table_capacity ?c = table_capacity m"
    "table ?c = (if table_ptr m \<noteq> NULL then replicate (table_capacity m) wiped_slot else table m)"
    by (simp_all add: arnm_key_map_clear_def Let_def)
  have size: "bv_size (keys ?c) = 0" "element_size (keys ?c) = key_size_of m"
    by (simp_all add: fields arnm_bvec_clear_def)
  show "same_setup m ?c" using size by (simp add: same_setup_def) (simp add: arnm_key_map_clear_def)
  show empty: "key_list ?c = []" by (simp add: key_list_def fields cl)
  show blocks: "km_blocks ?c = km_blocks m" by (simp add: km_blocks_def table_block_def fields cl)
  have "entries ?c = {}" using size by (simp add: entries_def)
  then have "table_ok ?c" using ok(3) size placed_wiped by (auto simp: table_ok_def fields)
  moreover have "keys_ok ?c" using empty by (simp add: keys_ok_def) (simp add: fields cl)
  ultimately show "km_ok owns w ?c" using ok(4) cl(1) by (simp add: km_ok_def blocks) (simp add: fields)
qed

context arnm_allocator begin

lemma free_map_spec:
  assumes "sound w" "km_ok owns w m" "arnm_key_map_free ops m w = (m', w')"
  shows "km_safe w m w' m' \<and> km_blocks m' = [] \<and> key_list m' = [] \<and> same_setup m m'"
proof -
  note ok = km_ok_parts [OF assms(2)]
  define w1 where "w1 = (if table_ptr m \<noteq> NULL
    then snd (op_free ops (table_ptr m) (table_bytes (table_capacity m)) w) else w)"
  have one: "safe_step w (km_blocks m) w1 (bvec_blocks (keys m))"
  proof (cases "table_ptr m = NULL")
    case True
    then show ?thesis using ok(4) assms(1) by (simp add: w1_def km_blocks_def table_block_def)
  next
    case False
    then have cap: "table_capacity m \<noteq> 0" using ok(3) by (cases "table_capacity m = 0") (simp_all add: table_ok_def)
    have kb: "km_blocks m = (table_ptr m, 8 * table_capacity m) # bvec_blocks (keys m)"
      using False by (simp add: km_blocks_def table_block_def)
    obtain r where "op_free ops (table_ptr m) (8 * table_capacity m) w = (r, w1)"
      using False table_facts(7) [OF ok(3) cap] by (metis prod.collapse w1_def)
    then show ?thesis using hold_free [OF assms(1) ok(4) [unfolded kb]] by (metis kb)
  qed
  obtain ks w2 where fr: "arnm_bvec_free ops (keys m) w1 = (ks, w2)" by fastforce
  have "bvec_ok owns w1 (keys m)" "sound w1" using one ok(1) by (simp_all add: bvec_ok_def)
  note two = free_spec [OF this(2,1) fr]
  have out: "m' = m\<lparr>table_ptr := NULL, table := [], table_capacity := 0, keys := ks\<rparr>" "w' = w2"
    using assms(3) fr by (auto simp: arnm_key_map_free_def Let_def w1_def)
  have empty: "key_list m' = []" "bv_size ks = 0" "km_blocks m' = []"
    using two length_bvec_list [of ks] by (simp_all add: out key_list_def km_blocks_def table_block_def)
  have "keys_ok m'" using empty(1) two by (simp add: keys_ok_def) (simp add: out)
  moreover have "table_ok m'" using empty by (simp add: table_ok_def out)
  moreover have "same_setup m m'" using two by (simp add: out same_setup_def)
  moreover have "bvec_shape ks" using two by (simp add: bvec_ok_def)
  moreover have "foreign_safe ops owns w (km_blocks m) w2 []" using one two by (blast intro: foreign_safe_trans)
  ultimately show ?thesis using two empty by (simp add: km_ok_def) (simp add: out)
qed

lemma reserve_map_spec:
  assumes "sound w" "km_ok owns w m"
  shows "\<exists>r m' w'. arnm_key_map_reserve ops n m w = Some (r, m', w') \<and> km_safe w m w' m' \<and> same_setup m m' \<and>
    key_list m' = key_list m \<and>
    (r = ARNM_SUCCESS \<longrightarrow> n \<le> load_limit (table_capacity m') \<and>
      n \<le> allocated_count (keys m') * bucket_n (keys m'))"
proof -
  note ok = km_ok_parts [OF assms(2)]
  show ?thesis
  proof (cases "n = 0 \<or> key_size_of m = 0 \<or> ARNM_KEY_MAP_MAX_KEYS < n")
    case True
    then show ?thesis using assms by (auto simp: arnm_key_map_reserve_def)
  next
    case False
    obtain r ks w1 where rs: "arnm_bvec_reserve ops n (keys m) w = (r, ks, w1)" by (metis prod_cases3)
    note sp = reserve_spec [OF assms(1) ok(5) rs]
    let ?m = "m\<lparr>keys := ks\<rparr>"
    have "bvec_list ks = bvec_list (keys m)" using same_elements_list ok(1) sp by blast
    note re = rekeyed [OF assms(2) this reserve_element_size]
    have same: "same_elements (keys m) ks" using sp by blast
    have tb: "km_blocks ?m = table_block m @ bvec_blocks ks" by (simp add: km_blocks_def table_block_def)
    note bl = km_keys_step [OF assms(2), of w1 ks, folded tb]
    have safe: "km_safe w m w1 ?m"
      using sp re(3,4) [OF same] bl by (simp add: km_ok_def bvec_ok_def)
    show ?thesis
    proof (cases "r = ARNM_SUCCESS")
      case True
      obtain c where c: "capacity_for n = Some c" "power_capacity c" "n \<le> load_limit c"
        using capacity_for_spec [of n] False by auto
      show ?thesis
      proof (cases "c \<le> table_capacity m")
        case True
        then show ?thesis
          using False rs c safe re(1,2) [OF same] sp \<open>r = ARNM_SUCCESS\<close> load_limit_mono [of c "table_capacity m"]
          by (simp add: arnm_key_map_reserve_def)
      next
        case big: False
        have "bv_size ks \<le> load_limit c"
        proof (cases "table_capacity m = 0")
          case True
          then have "bv_size (keys m) = 0" using ok(3) by (simp add: table_ok_def)
          then show ?thesis using same by (simp add: same_elements_def)
        next
          case False
          then show ?thesis
            using table_facts(3) [OF ok(3)] load_limit_mono [of "table_capacity m" c] big same
            by (simp add: same_elements_def)
        qed
        then obtain r2 m2 w2 where rb: "rebuild ops c ?m w1 = Some (r2, m2, w2)" "km_safe w1 ?m w2 m2"
            "if r2 = ARNM_SUCCESS then retabled ?m c m2 else m2 = ?m"
          using rebuild_spec [of w1 ?m c] safe c(2) by auto
        have m2: "same_setup ?m m2" "key_list m2 = key_list ?m" "keys m2 = ks" "r2 = ARNM_SUCCESS \<Longrightarrow> table_capacity m2 = c"
          using rb(3) retabled_facts [of ?m c m2] by (auto split: if_splits)
        have run: "arnm_key_map_reserve ops n m w = Some (r2, m2, w2)"
          using False rs c(1) big rb(1) \<open>r = ARNM_SUCCESS\<close> by (simp add: arnm_key_map_reserve_def)
        show ?thesis
          unfolding run using km_safe_trans [OF safe rb(2)] same_setup_trans [OF re(1) [OF same] m2(1)] m2 re(2) [OF same]
            c(3) sp \<open>r = ARNM_SUCCESS\<close> by simp
      qed
    next
      case failed: False
      then show ?thesis using False rs safe re(1,2) [OF same] by (simp add: arnm_key_map_reserve_def)
    qed
  qed
qed

end

lemma find_spec:
  assumes "km_ok owns w m" "length key = key_size_of m"
  shows "arnm_key_map_find (Some key) out_id m =
    Some (key \<in> set (key_list m),
      if key \<in> set (key_list m) then map_option (\<lambda>_. key_position (key_list m) key) out_id else out_id)"
proof (cases "table_capacity m = 0")
  case True
  then have "length (key_list m) = 0" using km_ok_parts(3) [OF assms(1)] by (simp add: table_ok_def)
  then have "key_list m = []" by (simp only: length_0_conv)
  then show ?thesis using True by (simp add: arnm_key_map_find_def)
next
  case False
  then show ?thesis
    using probe_spec [OF assms(1) False assms(2)] by (auto simp: arnm_key_map_find_def lookup_def)
qed

text \<open>What a reserve leaves behind: room for \<open>n\<close> keys, in the table and in the key vector.\<close>

definition has_room :: "nat \<Rightarrow> arnm_key_map \<Rightarrow> bool" where
  "has_room n m \<longleftrightarrow> n \<le> load_limit (table_capacity m) \<and> n \<le> allocated_count (keys m) * bucket_n (keys m)"

lemma emplace_log2:
  assumes "arnm_bvec_emplace ops v w = (r, a, v', w')"
  shows "bucket_capacity_max_log2 v' = bucket_capacity_max_log2 v"
  using assms
  by (auto simp: arnm_bvec_emplace_def arnm_bvec_grow_def grow_bucket_def open_bucket_def Let_def
      split: prod.splits if_splits)

lemma insert_absent_room:
  assumes "bvec_shape (keys m)" "has_room n m" "bv_size (keys m) < n"
    and "insert_absent ops key h i old m w = Some (r, j, m', w')"
  shows "r = ARNM_SUCCESS \<and> w' = w \<and> has_room n m'"
proof -
  have "\<not> load_limit (table_capacity m) \<le> bv_size (keys m)" using assms(2,3) by (simp add: has_room_def)
  then have st: "store_key ops key h i old m w = (r, j, m', w')"
    using assms(4) by (simp add: insert_absent_def arnm_bvec_size_def)
  obtain r1 a ks w1 where em: "arnm_bvec_emplace ops (keys m) w = (r1, a, ks, w1)" by (metis prod_cases4)
  have "bv_size (keys m) < allocated_count (keys m) * bucket_n (keys m)" using assms(2,3) by (simp add: has_room_def)
  from emplace_room [OF assms(1) this em]
  have ok: "r1 = ARNM_SUCCESS" "w1 = w" "allocated_count ks = allocated_count (keys m)" by simp_all
  have "bucket_n ks = bucket_n (keys m)" using emplace_log2 [OF em] by simp
  moreover have "allocated_count (bvec_write s x ks) = allocated_count ks" for s x by simp
  ultimately show ?thesis
    using st ok assms(2) by (auto simp: store_key_def em Let_def has_room_def)
qed

section \<open>The map as a numbering\<close>

text \<open>A program of calls, and what a numbering of keys makes of it given what was answered: the keys in
  the order of their ids, and whether every id handed out is the id of its key.\<close>

datatype km_request = KM_Insert "byte list" | KM_Reserve nat | KM_Clear | KM_Free

fun km_call :: "'w ops \<Rightarrow> km_request \<Rightarrow> arnm_key_map \<Rightarrow> 'w \<Rightarrow> (arnm_result \<times> nat option \<times> arnm_key_map \<times> 'w) option" where
  "km_call ops (KM_Insert k) m w =
    (case arnm_key_map_get_or_insert ops (Some k) (Some 0) None m w of
       None \<Rightarrow> None | Some (r, i, ins, m, w) \<Rightarrow> Some (r, i, m, w))"
| "km_call ops (KM_Reserve n) m w =
    (case arnm_key_map_reserve ops n m w of None \<Rightarrow> None | Some (r, m, w) \<Rightarrow> Some (r, None, m, w))"
| "km_call ops KM_Clear m w = Some (ARNM_SUCCESS, None, arnm_key_map_clear m, w)"
| "km_call ops KM_Free m w = (case arnm_key_map_free ops m w of (m, w) \<Rightarrow> Some (ARNM_SUCCESS, None, m, w))"

fun km_run :: "'w ops \<Rightarrow> km_request list \<Rightarrow> arnm_key_map \<Rightarrow> 'w \<Rightarrow>
    ((arnm_result \<times> nat option) list \<times> arnm_key_map \<times> 'w) option" where
  "km_run ops [] m w = Some ([], m, w)"
| "km_run ops (c # cs) m w =
    (case km_call ops c m w of
       None \<Rightarrow> None
     | Some (r, i, m, w) \<Rightarrow>
         (case km_run ops cs m w of None \<Rightarrow> None | Some (rs, m, w) \<Rightarrow> Some ((r, i) # rs, m, w)))"

fun numbered_call :: "km_request \<Rightarrow> arnm_result \<Rightarrow> byte list list \<Rightarrow> byte list list" where
  "numbered_call (KM_Insert k) r ks = (if r = ARNM_SUCCESS \<and> k \<notin> set ks then ks @ [k] else ks)"
| "numbered_call (KM_Reserve n) r ks = ks"
| "numbered_call KM_Clear r ks = []"
| "numbered_call KM_Free r ks = []"

fun id_right :: "km_request \<Rightarrow> arnm_result \<times> nat option \<Rightarrow> byte list list \<Rightarrow> bool" where
  "id_right (KM_Insert k) (r, i) ks \<longleftrightarrow> (k \<in> set ks \<longrightarrow> r = ARNM_SUCCESS) \<and>
    (r = ARNM_SUCCESS \<longrightarrow> i = Some (key_position (numbered_call (KM_Insert k) r ks) k))"
| "id_right c a ks \<longleftrightarrow> True"

fun numbered_run :: "km_request list \<Rightarrow> (arnm_result \<times> nat option) list \<Rightarrow> byte list list \<Rightarrow> byte list list" where
  "numbered_run (c # cs) (a # as) ks = numbered_run cs as (numbered_call c (fst a) ks)"
| "numbered_run cs as ks = ks"

fun ids_right :: "km_request list \<Rightarrow> (arnm_result \<times> nat option) list \<Rightarrow> byte list list \<Rightarrow> bool" where
  "ids_right (c # cs) (a # as) ks \<longleftrightarrow> id_right c a ks \<and> ids_right cs as (numbered_call c (fst a) ks)"
| "ids_right cs as ks \<longleftrightarrow> True"

fun keys_sized :: "nat \<Rightarrow> km_request \<Rightarrow> bool" where
  "keys_sized n (KM_Insert k) \<longleftrightarrow> length k = n"
| "keys_sized n c \<longleftrightarrow> True"

lemma key_position_append [simp]: "k \<notin> set ks \<Longrightarrow> key_position (ks @ [k]) k = length ks"
  unfolding key_position_def by (subst takeWhile_append2) auto

context arnm_allocator begin

lemma get_or_insert_spec:
  assumes "sound w" "km_ok owns w m" "length key = key_size_of m"
  shows "\<exists>r j ins' m' w'.
    arnm_key_map_get_or_insert ops (Some key) (Some old) ins m w = Some (r, Some j, ins', m', w') \<and>
    (if key \<in> set (key_list m)
     then r = ARNM_SUCCESS \<and> j = key_position (key_list m) key \<and> ins' = map_option (\<lambda>_. False) ins \<and> m' = m \<and> w' = w
     else km_added key old w m r j w' m' \<and> ins' = (if r = ARNM_SUCCESS then map_option (\<lambda>_. True) ins else ins))"
proof -
  have "key_size_of m \<noteq> 0"
    using km_ok_parts(1) [OF assms(2)] by (auto simp: bvec_shape_def bvec_limits_def)
  then show ?thesis
    using lookup_or_insert_spec [OF assms, of old ins]
    by (auto simp: arnm_key_map_get_or_insert_def Let_def)
qed

lemma km_call_spec:
  assumes "sound w" "km_ok owns w m" "keys_sized (key_size_of m) c"
  shows "\<exists>r i m' w'. km_call ops c m w = Some (r, i, m', w') \<and> km_safe w m w' m' \<and> same_setup m m' \<and>
    key_list m' = numbered_call c r (key_list m) \<and> id_right c (r, i) (key_list m)"
proof (cases c)
  case (KM_Insert k)
  then have len: "length k = key_size_of m" using assms(3) by simp
  obtain r j ins' m' w' where run: "arnm_key_map_get_or_insert ops (Some k) (Some 0) None m w = Some (r, Some j, ins', m', w')"
    and sp: "if k \<in> set (key_list m)
     then r = ARNM_SUCCESS \<and> j = key_position (key_list m) k \<and> m' = m \<and> w' = w
     else km_added k 0 w m r j w' m'"
    using get_or_insert_spec [OF assms(1,2) len, of 0 None] by (auto split: if_splits)
  have "km_safe w m w' m' \<and> same_setup m m' \<and> key_list m' = numbered_call c r (key_list m) \<and>
      id_right c (r, Some j) (key_list m)"
  proof (cases "k \<in> set (key_list m)")
    case True
    then show ?thesis using sp assms(1,2) KM_Insert by simp
  next
    case False
    then have added: "km_added k 0 w m r j w' m'" using sp by simp
    then show ?thesis using False KM_Insert by (cases "r = ARNM_SUCCESS") simp_all
  qed
  then show ?thesis using KM_Insert run by simp
next
  case (KM_Reserve n)
  then show ?thesis using reserve_map_spec [OF assms(1,2), of n] by fastforce
next
  case KM_Clear
  then show ?thesis using cleared_map [OF assms(2)] assms(1) by simp
next
  case KM_Free
  obtain m' w' where "arnm_key_map_free ops m w = (m', w')" by fastforce
  with free_map_spec [OF assms(1,2) this] show ?thesis using KM_Free by auto
qed

lemma insert_room:
  assumes "sound w" "km_ok owns w m" "length key = key_size_of m" "has_room n m" "bv_size (keys m) < n"
  shows "\<exists>i m'. km_call ops (KM_Insert key) m w = Some (ARNM_SUCCESS, i, m', w) \<and> has_room n m' \<and>
    bv_size (keys m') \<le> bv_size (keys m) + 1"
proof -
  note ok = km_ok_parts [OF assms(2)]
  obtain r i m' w' where run: "km_call ops (KM_Insert key) m w = Some (r, i, m', w')"
      "key_list m' = numbered_call (KM_Insert key) r (key_list m)"
    using km_call_spec [OF assms(1,2), of "KM_Insert key"] assms(3) by auto
  obtain j ins' where gi: "arnm_key_map_get_or_insert ops (Some key) (Some 0) None m w = Some (r, Some j, ins', m', w')"
      "key \<in> set (key_list m) \<Longrightarrow> r = ARNM_SUCCESS \<and> m' = m \<and> w' = w"
    using get_or_insert_spec [OF assms(1-3), of 0 None] run(1) by (auto split: if_splits)
  have "r = ARNM_SUCCESS \<and> w' = w \<and> has_room n m'"
  proof (cases "key \<in> set (key_list m)")
    case False
    let ?h = "arnm_key_map_slot_hash m key (key_size_of m)"
    have "lookup_or_insert ops key (key_size_of m) 0 None m w = Some (r, j, ins', m', w')"
      using gi(1) ok(1) by (auto simp: arnm_key_map_get_or_insert_def Let_def bvec_shape_def bvec_limits_def split: if_splits)
    moreover have "\<not> (table_capacity m \<noteq> 0 \<and> \<not> is_free (table m ! x))"
      if "probed_slot m key ?h (key_size_of m) = Some x" for x
      using probe_spec [OF assms(2) _ assms(3)] False that by (fastforce simp: probed_slot_def split: if_splits)
    ultimately obtain x where "insert_absent ops key ?h x 0 m w = Some (r, j, m', w')"
      by (auto simp: lookup_or_insert_def Let_def split: option.splits if_splits)
    then show ?thesis by (rule insert_absent_room [OF ok(1) assms(4,5)])
  qed (use gi(2) assms(4) in simp)
  moreover have "bv_size (keys m') \<le> bv_size (keys m) + 1"
    using arg_cong [OF run(2), of length] by (auto split: if_splits)
  ultimately show ?thesis using run(1) by simp
qed

lemma run_room_spec:
  assumes "sound w" "km_ok owns w m" "\<forall>k\<in>set ks. length k = key_size_of m" "has_room n m"
    and "bv_size (keys m) + length ks \<le> n"
  shows "\<exists>as m'. km_run ops (map KM_Insert ks) m w = Some (as, m', w) \<and> list_all (\<lambda>a. fst a = ARNM_SUCCESS) as"
  using assms
proof (induction ks arbitrary: m)
  case (Cons k ks)
  obtain i m1 where one: "km_call ops (KM_Insert k) m w = Some (ARNM_SUCCESS, i, m1, w)" "has_room n m1"
      "bv_size (keys m1) \<le> bv_size (keys m) + 1"
    using insert_room [OF Cons.prems(1,2) _ Cons.prems(4)] Cons.prems(3,5) by fastforce
  have next_ok: "km_ok owns w m1" "same_setup m m1"
    using km_call_spec [OF Cons.prems(1,2), of "KM_Insert k"] Cons.prems(3) one(1) by auto
  obtain as m2 where "km_run ops (map KM_Insert ks) m1 w = Some (as, m2, w)" "list_all (\<lambda>a. fst a = ARNM_SUCCESS) as"
    using Cons.IH [OF Cons.prems(1) next_ok(1) _ one(2)] Cons.prems(3,5) next_ok(2) one(3)
    by (auto simp: same_setup_def)
  then show ?case using one(1) by simp
qed simp

lemma km_run_spec:
  assumes "sound w" "km_ok owns w m" "list_all (keys_sized (key_size_of m)) cs"
  shows "\<exists>as m' w'. km_run ops cs m w = Some (as, m', w') \<and> km_safe w m w' m' \<and> same_setup m m' \<and>
    key_list m' = numbered_run cs as (key_list m) \<and> ids_right cs as (key_list m)"
  using assms
proof (induction cs arbitrary: m w)
  case (Cons c cs)
  then have sized: "keys_sized (key_size_of m) c" by simp
  obtain r i m1 w1 where one: "km_call ops c m w = Some (r, i, m1, w1)" "km_safe w m w1 m1" "same_setup m m1"
      "key_list m1 = numbered_call c r (key_list m)" "id_right c (r, i) (key_list m)"
    using km_call_spec [OF Cons.prems(1,2) sized] by blast
  have "list_all (keys_sized (key_size_of m1)) cs" using Cons.prems(3) one(3) by (simp add: same_setup_def)
  then obtain as m2 w2 where rest: "km_run ops cs m1 w1 = Some (as, m2, w2)" "km_safe w1 m1 w2 m2" "same_setup m1 m2"
      "key_list m2 = numbered_run cs as (key_list m1)" "ids_right cs as (key_list m1)"
    using Cons.IH [of w1 m1] one(2) by blast
  have "km_run ops (c # cs) m w = Some ((r, i) # as, m2, w2)" using one(1) rest(1) by simp
  moreover have "key_list m2 = numbered_run (c # cs) ((r, i) # as) (key_list m)" using one(4) rest(4) by simp
  moreover have "ids_right (c # cs) ((r, i) # as) (key_list m)" using one(4,5) rest(5) by simp
  ultimately show ?case
    using km_safe_trans [OF one(2) rest(2)] same_setup_trans [OF one(3) rest(3)] by blast
qed simp

end

subsection \<open>A fresh map\<close>

lemma init_map_ok:
  assumes "init_map n log2 kind k0 k1 m0 = (ARNM_SUCCESS, m)"
  shows "km_ok owns w m" "key_list m = []" "km_blocks m = []" "key_size_of m = n"
proof -
  obtain r ks where b: "arnm_bvec_init log2 0 n (keys m0) = (r, ks)" by fastforce
  then have r: "r = ARNM_SUCCESS" using assms by (auto simp: init_map_def split: if_splits)
  have m: "m = \<lparr>table_ptr = NULL, table = [], keys = ks, hash_k0 = k0, hash_k1 = k1, table_capacity = 0, hash_kind = kind\<rparr>"
    using assms b r by (auto simp: init_map_def)
  note ok = init_spec [OF b, simplified r]
  have size: "bv_size ks = 0" using ok by (metis length_bvec_list list.size(3) zero_less_numeral)
  show "key_list m = []" "key_size_of m = n" "km_blocks m = []"
    using ok by (simp_all add: m key_list_def km_blocks_def table_block_def)
  then show "km_ok owns w m"
    using ok size by (simp add: km_ok_def keys_ok_def table_ok_def) (simp add: m)
qed

definition sample_map :: arnm_key_map where
  "sample_map = snd (arnm_key_map_init 4 1 undefined)"

lemma sample_map_init: "init_map 4 1 ARNM_KEY_MAP_HASH_FAST 0 0 m0 = (ARNM_SUCCESS, sample_map)"
  by (simp add: sample_map_def arnm_key_map_init_def init_map_def arnm_bvec_init_def UINT32_MAX_def UINT16_MAX_def)

subsection \<open>Properties\<close>

text \<open>C4: A key map numbers keys. Whatever program of inserts, reserves, clears and frees runs over a fresh
  map, with either hash and with the C heap, an arena or a chain behind it, every call returns; the
  map then holds exactly the keys whose inserts succeeded, numbered 0, 1, 2 in the order they first
  came; every insert that succeeded answered the number of its key, an insert of a known key always
  succeeds, and a refused one changed nothing. A find then answers the number of every key that is
  there and no for every other. No block of the program outside the map is touched.\<close>

theorem key_map_numbers_keys:
  assumes "memory_sound h w" "init_map n log2 kind k0 k1 m0 = (ARNM_SUCCESS, m)" "list_all (keys_sized n) cs"
  shows "\<exists>as m' w'. km_run (memory_ops h) cs m w = Some (as, m', w') \<and>
    key_list m' = numbered_run cs as [] \<and> distinct (key_list m') \<and> ids_right cs as [] \<and>
    (\<forall>key. length key = n \<longrightarrow> arnm_key_map_find (Some key) (Some old) m' =
      Some (key \<in> set (key_list m'), Some (if key \<in> set (key_list m') then key_position (key_list m') key else old))) \<and>
    (\<forall>q k. memory_owns h w q k \<longrightarrow>
      memory_owns h w' q k \<and> apart_from (km_blocks m') q k \<and> rd (bytes_of w') q k = rd (bytes_of w) q k)"
proof -
  note fresh = init_map_ok [OF assms(2)]
  have sized: "list_all (keys_sized (key_size_of m)) cs" using assms(3) fresh(4) by simp
  obtain as m' w' where run: "km_run (memory_ops h) cs m w = Some (as, m', w')" "memory.km_safe h w m w' m'"
      "same_setup m m'" "key_list m' = numbered_run cs as []" "ids_right cs as []"
    using memory.km_run_spec [OF assms(1) fresh(1) sized] fresh(2) by auto
  have "key_size_of m' = n" using run(3) fresh(4) by (simp add: same_setup_def)
  then have find: "length key = n \<longrightarrow> arnm_key_map_find (Some key) (Some old) m' =
      Some (key \<in> set (key_list m'), Some (if key \<in> set (key_list m') then key_position (key_list m') key else old))" for key
    using find_spec [of "memory_owns h" w' m' key] run(2) by auto
  moreover have "distinct (key_list m')" using run(2) by (simp add: km_ok_def keys_ok_def)
  moreover have "\<forall>q k. memory_owns h w q k \<longrightarrow>
      memory_owns h w' q k \<and> apart_from (km_blocks m') q k \<and> rd (bytes_of w') q k = rd (bytes_of w) q k"
    using run(2) fresh(3) by (auto simp: foreign_safe_def)
  ultimately show ?thesis using run(1,4,5) by blast
qed

lemma key_map_numbers_keys_witness:
  "\<exists>as m' w'. km_run (memory_ops 4096) [KM_Reserve 3, KM_Insert [1, 2, 3, 4], KM_Insert [5, 6, 7, 8], KM_Insert [1, 2, 3, 4]]
      sample_map sample_chain = Some (as, m', w') \<and>
    key_list m' = numbered_run [KM_Reserve 3, KM_Insert [1, 2, 3, 4], KM_Insert [5, 6, 7, 8], KM_Insert [1, 2, 3, 4]] as []"
  using key_map_numbers_keys [OF sample_chain_sound sample_map_init, of
      "[KM_Reserve 3, KM_Insert [1, 2, 3, 4], KM_Insert [5, 6, 7, 8], KM_Insert [1, 2, 3, 4]]" 0] by auto

text \<open>C25: A probe of a map in order always ends, inside the table: on the slot of the key when the map holds
  it, and on a free slot when it does not.\<close>

theorem key_map_probe_ends:
  assumes "km_ok owns w m" "table_capacity m \<noteq> 0" "length key = key_size_of m"
  shows "\<exists>i<table_capacity m. arnm_key_map_probe m key (arnm_key_map_slot_hash m key (key_size_of m)) (key_size_of m) = Some i \<and>
    (if key \<in> set (key_list m) then slot_id (table m ! i) = key_position (key_list m) key
     else slot_id (table m ! i) = ARNM_KEY_MAP_EMPTY_ID)"
  using probe_spec [OF assms] by (auto split: if_splits)

definition sample_table :: arnm_key_map where
  "sample_table = sample_map\<lparr>table_ptr := 4096, table := replicate 8 wiped_slot, table_capacity := 8\<rparr>"

lemma key_map_probe_ends_witness:
  "\<exists>i<8. arnm_key_map_probe sample_table [1, 2, 3, 4] (arnm_key_map_slot_hash sample_table [1, 2, 3, 4] 4) 4 = Some i"
proof -
  have fresh: "km_ok (\<lambda>_ _ _. True) () sample_map" "key_list sample_map = []" "km_blocks sample_map = []"
    "key_size_of sample_map = 4"
    using init_map_ok [OF sample_map_init] by simp_all
  have keys: "keys sample_table = keys sample_map" "table_ptr sample_table = 4096" "table_capacity sample_table = 8"
    "table sample_table = replicate 8 wiped_slot"
    by (simp_all add: sample_table_def)
  have "bv_size (keys sample_map) = 0" using fresh(2) length_key_list [of sample_map] by simp
  moreover have "power_capacity 8" using power_capacity_min by (simp add: MIN_CAPACITY_def)
  moreover have "bvec_blocks (keys sample_map) = []" using fresh(3) by (simp add: km_blocks_def)
  ultimately have "km_ok (\<lambda>_ _ _. True) () sample_table"
    using fresh(1) placed_wiped [of 8]
    by (simp add: km_ok_def keys_ok_def table_ok_def key_list_def entries_def km_blocks_def table_block_def keys)
  from key_map_probe_ends [OF this, of "[1, 2, 3, 4]"] show ?thesis by (auto simp: keys fresh(4))
qed

text \<open>C26: The capacity a reserve asks for is the least power of two, from 8 up, whose load limit takes
  the keys, and the loop that finds it ends for every count the map admits.\<close>

theorem capacity_for_least:
  assumes "key_count \<le> ARNM_KEY_MAP_MAX_KEYS"
  shows "\<exists>n. capacity_for key_count = Some n \<and> power_capacity n \<and> key_count \<le> load_limit n \<and>
    (\<forall>n'. power_capacity n' \<and> key_count \<le> load_limit n' \<longrightarrow> n \<le> n')"
  using assms by (rule capacity_for_spec)

lemma capacity_for_least_witness:
  "\<exists>n. capacity_for 100 = Some n \<and> power_capacity n \<and> 100 \<le> load_limit n"
  using capacity_for_least [of 100] by (auto simp: ARNM_KEY_MAP_MAX_KEYS_def ARNM_KEY_MAP_MAX_CAPACITY_def)

text \<open>C27: A reserve that succeeds pays for the inserts to come: until the reserved count is reached every
  insert succeeds, and neither the heap nor the handle behind the allocator changes.\<close>

theorem key_map_reserve_pays:
  assumes "memory_sound h w" "km_ok (memory_owns h) w m"
    and "arnm_key_map_reserve (memory_ops h) n m w = Some (ARNM_SUCCESS, m1, w1)"
    and "\<forall>k\<in>set ks. length k = key_size_of m" "bv_size (keys m) + length ks \<le> n"
  shows "\<exists>as m2. km_run (memory_ops h) (map KM_Insert ks) m1 w1 = Some (as, m2, w1) \<and>
    list_all (\<lambda>a. fst a = ARNM_SUCCESS) as"
proof -
  have res: "memory.km_safe h w m w1 m1" "same_setup m m1" "key_list m1 = key_list m" "has_room n m1"
    using memory.reserve_map_spec [OF assms(1,2), of n] assms(3) by (auto simp: has_room_def)
  have "bv_size (keys m1) = bv_size (keys m)" using res(3) by (metis length_key_list)
  then show ?thesis
    using memory.run_room_spec [of h w1 m1 ks n] res assms(4,5) by (simp add: same_setup_def)
qed

lemma sample_map_reserve:
  "\<exists>m w. arnm_key_map_reserve (memory_ops NULL) 2 sample_map sample_host = Some (ARNM_SUCCESS, m, w)"
  by (simp add: sample_map_def arnm_key_map_init_def init_map_def bvec_descriptor_def sample_host_def
      arnm_key_map_reserve_def arnm_bvec_init_def arnm_bvec_reserve_def memory_ops_def memory_realloc_def
      memory_alloc_def chain_at_def
      is_state_valid_def bucket_count_allocated_def bucket_mask_def bucket_elements_def bucket_bytes_def
      index_bytes_def arnm_realloc_def arnm_alloc_def arnm_align8_u32_def ARNM_ALIGN8_def
      intern_of_def is_default_alloc_def is_single_arena_reclaimable_def is_single_arena_def host_realloc_def
      malloc_def fits_def UINT32_MAX_def UINT16_MAX_def ARNM_MAX_ALLOC_SIZE_def ARNM_KEY_MAP_MAX_KEYS_def
      ARNM_KEY_MAP_MAX_CAPACITY_def ARNM_BVEC_MAX_INDEX_CAPACITY_def Let_def reserve_buckets_numeral apart_def
      capacity_for_def capacity_loop.simps load_limit_def MIN_CAPACITY_def rebuild_def table_bytes_def)

lemma key_map_reserve_pays_witness:
  "\<exists>m1 w1 as m2. arnm_key_map_reserve (memory_ops NULL) 2 sample_map sample_host = Some (ARNM_SUCCESS, m1, w1) \<and>
    km_run (memory_ops NULL) [KM_Insert [1, 2, 3, 4], KM_Insert [5, 6, 7, 8]] m1 w1 = Some (as, m2, w1)"
proof -
  obtain m1 w1 where r: "arnm_key_map_reserve (memory_ops NULL) 2 sample_map sample_host = Some (ARNM_SUCCESS, m1, w1)"
    using sample_map_reserve by blast
  note fresh = init_map_ok [OF sample_map_init]
  have "bv_size (keys sample_map) = 0" using fresh(2) length_key_list [of sample_map] by simp
  then show ?thesis
    using key_map_reserve_pays [OF sample_host_sound fresh(1) r, of "[[1, 2, 3, 4], [5, 6, 7, 8]]"] r fresh(4) by auto
qed

text \<open>The inline copies for one key size answer what the library's calls answer on a map of that size,
  and refuse a map of another.\<close>

theorem typed_calls_agree:
  assumes "km_ok owns w m" "case key of None \<Rightarrow> True | Some k \<Rightarrow> length k = key_size_of m"
  shows "typed_find n key out_id m =
      (if n = key_size_of m then arnm_key_map_find key out_id m else Some (False, out_id)) \<and>
    typed_get_or_insert n ops key out_id out_inserted m w =
      (if n = key_size_of m \<or> key = None \<or> out_id = None
       then arnm_key_map_get_or_insert ops key out_id out_inserted m w
       else Some (ARNM_ERROR_INVALID_STATE, out_id, out_inserted, m, w))"
proof (cases key)
  case None
  then show ?thesis
    by (simp add: typed_find_def arnm_key_map_find_def typed_get_or_insert_def arnm_key_map_get_or_insert_def)
next
  case (Some k)
  note ok = km_ok_parts [OF assms(1)]
  have len: "length k = key_size_of m" using assms(2) Some by simp
  have size: "key_size_of m \<noteq> 0" using ok(1) by (auto simp: bvec_shape_def bvec_limits_def)
  let ?h = "arnm_key_map_slot_hash m k (key_size_of m)"
  have slot: "table_capacity m \<noteq> 0 \<Longrightarrow> x < table_capacity m"
    if "probed_slot m k ?h (key_size_of m) = Some x" for x
    using probe_spec [OF assms(1) _ len] that by (auto simp: probed_slot_def split: if_splits)
  show ?thesis
  proof (intro conjI)
    show "typed_find n key out_id m =
        (if n = key_size_of m then arnm_key_map_find key out_id m else Some (False, out_id))"
      by (simp add: Some typed_find_def arnm_key_map_find_def)
    show "typed_get_or_insert n ops key out_id out_inserted m w =
      (if n = key_size_of m \<or> key = None \<or> out_id = None
       then arnm_key_map_get_or_insert ops key out_id out_inserted m w
       else Some (ARNM_ERROR_INVALID_STATE, out_id, out_inserted, m, w))"
    proof (cases out_id)
      case None
      then show ?thesis by (simp add: Some typed_get_or_insert_def arnm_key_map_get_or_insert_def)
    next
      case old: (Some old)
      show ?thesis
      proof (cases "n = key_size_of m")
        case False
        then show ?thesis by (simp add: Some old typed_get_or_insert_def)
      next
        case True
        have pub: "arnm_key_map_insert_absent ops (Some k) ?h x (Some old) m w =
            map_option (\<lambda>(r, i, m, w). (r, Some i, m, w)) (insert_absent ops k ?h x old m w)"
          if x: "probed_slot m k ?h (key_size_of m) = Some x"
            "\<not> (table_capacity m \<noteq> 0 \<and> \<not> is_free (table m ! x))" for x
          using slot [OF x(1)] x(2) size by (auto simp: arnm_key_map_insert_absent_def)
        show ?thesis
        proof (cases "probed_slot m k ?h (key_size_of m)")
          case None
          then show ?thesis
            using True size by (simp add: Some old typed_get_or_insert_def arnm_key_map_get_or_insert_def
                lookup_or_insert_def Let_def)
        next
          case x: (Some x)
          show ?thesis
          proof (cases "table_capacity m \<noteq> 0 \<and> \<not> is_free (table m ! x)")
            case hit: True
            then show ?thesis
              using True size x by (simp add: Some old typed_get_or_insert_def arnm_key_map_get_or_insert_def
                  lookup_or_insert_def Let_def)
          next
            case miss: False
            show ?thesis
              using True size x miss pub [OF x miss]
              by (cases "insert_absent ops k ?h x old m w")
                (auto simp: Some old typed_get_or_insert_def arnm_key_map_get_or_insert_def
                  lookup_or_insert_def Let_def)
          qed
        qed
      qed
    qed
  qed
qed

lemma typed_calls_agree_witness:
  "typed_find 4 (Some [1, 2, 3, 4]) None sample_map = arnm_key_map_find (Some [1, 2, 3, 4]) None sample_map"
  using conjunct1 [OF typed_calls_agree [OF init_map_ok(1) [OF sample_map_init], of "Some [1, 2, 3, 4]" 4 None]]
    init_map_ok(4) [OF sample_map_init] by simp

end
