(* ===== verification/Fixed_Ring.thy ===== *)
theory Fixed_Ring
  imports Multi_Arena
begin

text \<open>
  The ring of a fixed number of slots (\<^verbatim>\<open>include/arnm/fixed_ring.h\<close>, \<^verbatim>\<open>src/fixed_ring.c\<close>). As in the
  vector, elements are values of a type \<open>'a\<close>: \<open>ring_slots\<close> is the pointer \<open>slots\<close> and \<open>ring_cells\<close> what the
  slots of the block behind it hold, \<open>None\<close> for one never written. Slots are named by their address;
  \<open>ring_write\<close> and \<open>ring_read\<close> are the copies to and from one. NULL rings are the business of
  \<open>with_object\<close>; the functions \<open>ARNM_FIXED_RING_DEFINE\<close> generates forward to these with the size of
  their type.
\<close>

section \<open>The code\<close>

record 'a ring =
  ring_slots :: addr
  ring_cells :: "'a option list"
  ring_capacity :: nat
  ring_head :: nat
  ring_size :: nat
  ring_element_size :: nat

definition ring_slot_of :: "'a ring \<Rightarrow> addr \<Rightarrow> nat" where
  "ring_slot_of r a = (a - ring_slots r) div ring_element_size r"

definition ring_write :: "addr \<Rightarrow> 'a \<Rightarrow> 'a ring \<Rightarrow> 'a ring" where
  "ring_write a x r = r\<lparr>ring_cells := (ring_cells r)[ring_slot_of r a := Some x]\<rparr>"

definition ring_read :: "addr \<Rightarrow> 'a ring \<Rightarrow> 'a option" where
  "ring_read a r = ring_cells r ! ring_slot_of r a"

definition arnm_fixed_ring_size :: "'a ring \<Rightarrow> nat" where "arnm_fixed_ring_size r = ring_size r"
definition arnm_fixed_ring_capacity :: "'a ring \<Rightarrow> nat" where "arnm_fixed_ring_capacity r = ring_capacity r"

definition arnm_fixed_ring_available :: "'a ring \<Rightarrow> nat" where
  "arnm_fixed_ring_available r = sub32 (ring_capacity r) (ring_size r)"

definition arnm_fixed_ring_is_empty :: "'a ring \<Rightarrow> bool" where "arnm_fixed_ring_is_empty r \<longleftrightarrow> 0 = ring_size r"

definition arnm_fixed_ring_is_full :: "'a ring \<Rightarrow> bool" where
  "arnm_fixed_ring_is_full r \<longleftrightarrow> ring_size r = ring_capacity r"

definition arnm_fixed_ring_get :: "'a ring \<Rightarrow> nat \<Rightarrow> addr" where
  "arnm_fixed_ring_get r index =
    (let slot = u32 (ring_head r + index);
         slot = (if slot \<ge> ring_capacity r then slot - ring_capacity r else slot)
     in ring_slots r + slot * ring_element_size r)"

definition arnm_fixed_ring_at :: "'a ring \<Rightarrow> nat \<Rightarrow> addr" where
  "arnm_fixed_ring_at r index = (if index \<ge> ring_size r then NULL else arnm_fixed_ring_get r index)"

definition arnm_fixed_ring_front :: "'a ring \<Rightarrow> addr" where
  "arnm_fixed_ring_front r = (if ring_size r \<noteq> 0 then arnm_fixed_ring_get r 0 else NULL)"

definition arnm_fixed_ring_back :: "'a ring \<Rightarrow> addr" where
  "arnm_fixed_ring_back r = (if ring_size r \<noteq> 0 then arnm_fixed_ring_get r (ring_size r - 1) else NULL)"

definition block_bytes :: "'a ring \<Rightarrow> nat" where
  "block_bytes r = u32 (ring_capacity r * ring_element_size r)"

definition forget_everything :: "'a ring \<Rightarrow> 'a ring" where
  "forget_everything r = r\<lparr>ring_slots := NULL, ring_cells := [], ring_capacity := 0, ring_head := 0,
     ring_size := 0, ring_element_size := 0\<rparr>"

definition arnm_fixed_ring_init :: "'w ops \<Rightarrow> nat \<Rightarrow> nat \<Rightarrow> 'a ring \<Rightarrow> 'w \<Rightarrow> arnm_result \<times> 'a ring \<times> 'w" where
  "arnm_fixed_ring_init ops cap elem r w =
    (if cap = 0 \<or> elem = 0 \<or> elem > UINT16_MAX then (ARNM_ERROR_INVALID_PARAM, r, w)
     else if cap > ARNM_MAX_ALLOC_SIZE div elem then (ARNM_ERROR_ARITHMETIC_OVERFLOW, r, w)
     else case op_alloc ops (u32 (cap * elem)) w of
       (result, block, w) \<Rightarrow>
         if result \<noteq> ARNM_SUCCESS then (result, r, w)
         else (ARNM_SUCCESS, \<lparr>ring_slots = block, ring_cells = replicate cap None, ring_capacity = cap,
                ring_head = 0, ring_size = 0, ring_element_size = u16 elem\<rparr>, w))"

definition arnm_fixed_ring_free :: "'w ops \<Rightarrow> 'a ring \<Rightarrow> 'w \<Rightarrow> arnm_result \<times> 'a ring \<times> 'w" where
  "arnm_fixed_ring_free ops r w =
    (if ring_slots r = NULL then (ARNM_SUCCESS, forget_everything r, w)
     else case op_free ops (ring_slots r) (block_bytes r) w of (result, w) \<Rightarrow> (result, forget_everything r, w))"

definition arnm_fixed_ring_clear :: "'a ring \<Rightarrow> 'a ring" where
  "arnm_fixed_ring_clear r = r\<lparr>ring_head := 0, ring_size := 0\<rparr>"

definition arnm_fixed_ring_reserved :: "'a ring option \<Rightarrow> nat" where
  "arnm_fixed_ring_reserved r =
    (case r of None \<Rightarrow> 0 | Some r \<Rightarrow> if ring_slots r = NULL then 0 else block_bytes r)"

definition arnm_fixed_ring_emplace :: "'a ring \<Rightarrow> arnm_result \<times> addr option \<times> 'a ring" where
  "arnm_fixed_ring_emplace r =
    (if ring_slots r = NULL then (ARNM_ERROR_NOT_INITIALIZED, None, r)
     else if ring_size r = ring_capacity r then (ARNM_ERROR_RESOURCE_EXHAUSTED, None, r)
     else (ARNM_SUCCESS, Some (arnm_fixed_ring_get r (ring_size r)), r\<lparr>ring_size := u32 (ring_size r + 1)\<rparr>))"

definition arnm_fixed_ring_push_ptr :: "'a option \<Rightarrow> 'a ring \<Rightarrow> arnm_result \<times> 'a ring" where
  "arnm_fixed_ring_push_ptr val r =
    (case val of None \<Rightarrow> (ARNM_ERROR_NULL_POINTER, r)
     | Some x \<Rightarrow>
       (case arnm_fixed_ring_emplace r of (result, slot, r) \<Rightarrow>
          if result \<noteq> ARNM_SUCCESS then (result, r) else (ARNM_SUCCESS, ring_write (the slot) x r)))"

definition arnm_fixed_ring_pop :: "'a ring \<Rightarrow> arnm_result \<times> 'a ring" where
  "arnm_fixed_ring_pop r =
    (if ring_size r = 0 then (ARNM_ERROR_ARRAY_INDEX_OUT_OF_BOUNDS, r)
     else
       let r = r\<lparr>ring_head := u32 (ring_head r + 1)\<rparr>;
           r = (if ring_head r = ring_capacity r then r\<lparr>ring_head := 0\<rparr> else r)
       in (ARNM_SUCCESS, r\<lparr>ring_size := ring_size r - 1\<rparr>))"

text \<open>\<open>dst\<close> is what the caller's element holds, \<open>None\<close> for a NULL pointer.\<close>

definition arnm_fixed_ring_pop_copy :: "'a option option \<Rightarrow> 'a ring \<Rightarrow> arnm_result \<times> 'a option option \<times> 'a ring" where
  "arnm_fixed_ring_pop_copy dst r =
    (case dst of None \<Rightarrow> (ARNM_ERROR_NULL_POINTER, None, r)
     | Some old \<Rightarrow>
       if ring_size r = 0 then (ARNM_ERROR_ARRAY_INDEX_OUT_OF_BOUNDS, dst, r)
       else
         let dst = Some (ring_read (arnm_fixed_ring_get r 0) r)
         in case arnm_fixed_ring_pop r of (result, r) \<Rightarrow> (result, dst, r))"

definition arnm_fixed_ring_copy_to :: "'a ring \<Rightarrow> 'a option list option \<Rightarrow> nat \<Rightarrow> arnm_result \<times> 'a option list option" where
  "arnm_fixed_ring_copy_to r dst dst_capacity =
    (case dst of None \<Rightarrow> (ARNM_ERROR_NULL_POINTER, None)
     | Some d \<Rightarrow>
       if dst_capacity < ring_size r then (ARNM_ERROR_DESTINATION_BUFFER_TO_SMALL, dst)
       else if ring_size r = 0 then (ARNM_SUCCESS, dst)
       else
         let to_end = sub32 (ring_capacity r) (ring_head r);
             first_run = (if ring_size r < to_end then ring_size r else to_end);
             d = take first_run (drop (ring_head r) (ring_cells r)) @ drop first_run d;
             d = (if first_run < ring_size r
                  then take first_run d @ take (ring_size r - first_run) (ring_cells r) @ drop (ring_size r) d
                  else d)
         in (ARNM_SUCCESS, Some d))"

section \<open>The invariant, and the queue it stands for\<close>

definition ring_shape :: "'a ring \<Rightarrow> bool" where
  "ring_shape r \<longleftrightarrow>
    (if ring_slots r = NULL then ring_cells r = [] \<and> ring_capacity r = 0 \<and> ring_head r = 0 \<and> ring_size r = 0
     else 0 < ring_element_size r \<and> 0 < ring_capacity r \<and> ring_head r < ring_capacity r \<and>
       ring_size r \<le> ring_capacity r \<and> length (ring_cells r) = ring_capacity r \<and>
       ring_capacity r * ring_element_size r \<le> ARNM_MAX_ALLOC_SIZE)"

definition ring_blocks :: "'a ring \<Rightarrow> (addr \<times> nat) list" where
  "ring_blocks r =
    (if ring_slots r = NULL then [] else [(ring_slots r, ring_capacity r * ring_element_size r)])"

definition ring_index :: "'a ring \<Rightarrow> nat \<Rightarrow> nat" where
  "ring_index r i = (ring_head r + i) mod ring_capacity r"

definition ring_list :: "'a ring \<Rightarrow> 'a option list" where
  "ring_list r = map (\<lambda>i. ring_cells r ! ring_index r i) [0..<ring_size r]"

lemma length_ring_list [simp]: "length (ring_list r) = ring_size r"
  by (simp add: ring_list_def)

text \<open>The one addition of a slot number is 32 bits wide; a ring of at most \<open>2 ^ 31\<close> slots never wraps it.\<close>

definition ring_ready :: "'a ring \<Rightarrow> bool" where
  "ring_ready r \<longleftrightarrow> ring_shape r \<and> ring_slots r \<noteq> NULL \<and> ring_capacity r \<le> 2 ^ 31"

lemma ring_ready_facts:
  assumes "ring_ready r"
  shows "0 < ring_element_size r" "0 < ring_capacity r" "ring_head r < ring_capacity r" "ring_size r \<le> ring_capacity r"
    "length (ring_cells r) = ring_capacity r" "ring_slots r \<noteq> NULL" "ring_capacity r \<le> 2 ^ 31"
  using assms by (simp_all add: ring_ready_def ring_shape_def)

lemma ring_index_less [simp]: "0 < ring_capacity r \<Longrightarrow> ring_index r i < ring_capacity r"
  by (simp add: ring_index_def)

lemma ring_index_cases:
  assumes "ring_head r < ring_capacity r" "i \<le> ring_capacity r"
  shows "ring_index r i = (if ring_head r + i < ring_capacity r then ring_head r + i
    else ring_head r + i - ring_capacity r)"
  using assms by (cases "ring_head r + i < ring_capacity r") (simp_all add: ring_index_def mod_if)

lemma ring_index_inj:
  assumes "ring_head r < ring_capacity r" "i < ring_capacity r" "j < ring_capacity r"
  shows "ring_index r i = ring_index r j \<longleftrightarrow> i = j"
  using assms by (auto simp: ring_index_cases split: if_splits)

lemma ring_get_index:
  assumes "ring_ready r" "i \<le> ring_capacity r"
  shows "arnm_fixed_ring_get r i = ring_slots r + ring_index r i * ring_element_size r"
proof -
  note f = ring_ready_facts [OF assms(1)]
  have "ring_head r + i < 2 ^ 32" using f(3,7) assms(2) by simp
  then have "u32 (ring_head r + i) = ring_head r + i" by (simp add: UINT32_MAX_def)
  then show ?thesis using f(3) assms(2) by (simp add: arnm_fixed_ring_get_def Let_def ring_index_cases)
qed

lemma ring_slot_of_index:
  "0 < ring_element_size r \<Longrightarrow> ring_slot_of r (ring_slots r + k * ring_element_size r) = k"
  by (simp add: ring_slot_of_def)

lemma ring_list_update:
  assumes "ring_ready r" "ring_size r < ring_capacity r"
  shows "ring_list (ring_write (arnm_fixed_ring_get r (ring_size r)) x (r\<lparr>ring_size := ring_size r + 1\<rparr>)) =
    ring_list r @ [Some x]"
proof -
  note f = ring_ready_facts [OF assms(1)]
  let ?k = "ring_index r (ring_size r)"
  have at: "ring_slot_of (r\<lparr>ring_size := n\<rparr>) (arnm_fixed_ring_get r (ring_size r)) = ?k" for n
    using ring_get_index [OF assms(1), of "ring_size r"] assms(2) ring_slot_of_index [OF f(1), of ?k]
    by (simp add: ring_slot_of_def)
  have idx: "ring_index (r\<lparr>ring_size := n, ring_cells := c\<rparr>) i = ring_index r i" for n c i
    by (simp add: ring_index_def)
  have old: "(ring_cells r)[?k := Some x] ! ring_index r i = ring_cells r ! ring_index r i" if "i < ring_size r" for i
    using ring_index_inj [OF f(3), of i "ring_size r"] that assms(2) by (simp add: nth_list_update_neq)
  have new: "(ring_cells r)[?k := Some x] ! ?k = Some x" using f(2,5) by simp
  show ?thesis by (simp add: ring_write_def ring_list_def at idx old new cong: map_cong)
qed

lemma push_queue:
  assumes "ring_ready r" "arnm_fixed_ring_push_ptr (Some x) r = (res, r')"
  shows "ring_ready r' \<and> ring_capacity r' = ring_capacity r \<and> ring_blocks r' = ring_blocks r \<and>
    (if ring_size r = ring_capacity r then res = ARNM_ERROR_RESOURCE_EXHAUSTED \<and> r' = r
     else res = ARNM_SUCCESS \<and> ring_list r' = ring_list r @ [Some x])"
proof -
  note f = ring_ready_facts [OF assms(1)]
  show ?thesis
  proof (cases "ring_size r = ring_capacity r")
    case True
    then show ?thesis using assms f(6) by (auto simp: arnm_fixed_ring_push_ptr_def arnm_fixed_ring_emplace_def)
  next
    case False
    then have less: "ring_size r < ring_capacity r" using f(4) by simp
    have "u32 (ring_size r + 1) = ring_size r + 1" using less f(7) by (simp add: UINT32_MAX_def)
    then have out: "res = ARNM_SUCCESS"
      "r' = ring_write (arnm_fixed_ring_get r (ring_size r)) x (r\<lparr>ring_size := ring_size r + 1\<rparr>)"
      using assms(2) False f(6) by (auto simp: arnm_fixed_ring_push_ptr_def arnm_fixed_ring_emplace_def)
    have "ring_ready r'" using assms(1) less by (simp add: out(2) ring_ready_def ring_shape_def ring_write_def)
    then show ?thesis
      using False out ring_list_update [OF assms(1) less] by (simp add: ring_write_def ring_blocks_def)
  qed
qed

lemma pop_queue:
  assumes "ring_ready r" "arnm_fixed_ring_pop r = (res, r')"
  shows "ring_ready r' \<and> ring_capacity r' = ring_capacity r \<and> ring_blocks r' = ring_blocks r \<and>
    (if ring_size r = 0 then res = ARNM_ERROR_ARRAY_INDEX_OUT_OF_BOUNDS \<and> r' = r
     else res = ARNM_SUCCESS \<and> ring_list r' = tl (ring_list r))"
proof -
  note f = ring_ready_facts [OF assms(1)]
  show ?thesis
  proof (cases "ring_size r = 0")
    case True
    then show ?thesis using assms by (simp add: arnm_fixed_ring_pop_def)
  next
    case False
    have "u32 (ring_head r + 1) = ring_head r + 1" using f(3,7) by (simp add: UINT32_MAX_def)
    then have out: "res = ARNM_SUCCESS" "r' = r\<lparr>ring_head := (ring_head r + 1) mod ring_capacity r, ring_size := ring_size r - 1\<rparr>"
      using assms(2) False f(3) by (auto simp: arnm_fixed_ring_pop_def Let_def mod_if split: if_splits)
    have idx: "ring_index r' i = ring_index r (Suc i)" for i
      by (simp add: ring_index_def out(2) mod_add_left_eq)
    obtain k where k: "ring_size r = Suc k" using False by (cases "ring_size r") simp_all
    have "[0..<Suc k] = 0 # map Suc [0..<k]" by (simp add: map_Suc_upt upt_conv_Cons del: upt_Suc)
    moreover have "ring_cells r' = ring_cells r" "ring_size r' = k" by (simp_all add: out(2) k)
    ultimately have "ring_list r' = tl (ring_list r)" by (simp add: ring_list_def k idx del: upt_Suc)
    moreover have "ring_ready r'" using assms(1) f by (simp add: out(2) ring_ready_def ring_shape_def)
    ultimately show ?thesis using False out by (simp add: ring_blocks_def)
  qed
qed

lemma ring_read_front:
  assumes "ring_ready r" "ring_size r \<noteq> 0"
  shows "ring_read (arnm_fixed_ring_get r 0) r = hd (ring_list r)"
proof -
  note f = ring_ready_facts [OF assms(1)]
  have "hd (ring_list r) = ring_cells r ! ring_index r 0"
    using assms(2) by (simp add: ring_list_def hd_map)
  then show ?thesis using ring_get_index [OF assms(1), of 0] f(1) by (simp add: ring_read_def ring_slot_of_index)
qed

lemma ring_list_runs:
  assumes "ring_ready r" "first = min (ring_size r) (ring_capacity r - ring_head r)"
  shows "ring_list r = take first (drop (ring_head r) (ring_cells r)) @ take (ring_size r - first) (ring_cells r)"
proof (rule nth_equalityI)
  note f = ring_ready_facts [OF assms(1)]
  show "length (ring_list r) = length (take first (drop (ring_head r) (ring_cells r)) @ take (ring_size r - first) (ring_cells r))"
    using assms(2) f by auto
  fix i assume "i < length (ring_list r)"
  then have i: "i < ring_size r" by simp
  then show "ring_list r ! i = (take first (drop (ring_head r) (ring_cells r)) @ take (ring_size r - first) (ring_cells r)) ! i"
    using f assms(2) by (auto simp: ring_list_def nth_append ring_index_cases add.commute)
qed

lemma copy_to_queue:
  assumes "ring_ready r" "length d = n"
  shows "arnm_fixed_ring_copy_to r (Some d) n =
    (if n < ring_size r then (ARNM_ERROR_DESTINATION_BUFFER_TO_SMALL, Some d)
     else (ARNM_SUCCESS, Some (ring_list r @ drop (ring_size r) d)))"
proof (cases "n < ring_size r \<or> ring_size r = 0")
  case True
  then show ?thesis by (auto simp: arnm_fixed_ring_copy_to_def ring_list_def)
next
  case False
  note f = ring_ready_facts [OF assms(1)]
  define first where "first = min (ring_size r) (ring_capacity r - ring_head r)"
  have "sub32 (ring_capacity r) (ring_head r) = ring_capacity r - ring_head r"
    using f(3,7) by (simp add: UINT32_MAX_def)
  then have first: "(if ring_size r < sub32 (ring_capacity r) (ring_head r) then ring_size r
      else sub32 (ring_capacity r) (ring_head r)) = first" by (simp add: first_def min_def)
  have len: "length (take first (drop (ring_head r) (ring_cells r))) = first" using f by (simp add: first_def)
  show ?thesis
  proof (cases "first < ring_size r")
    case True
    then show ?thesis
      using False assms(2) len ring_list_runs [OF assms(1) first_def]
      by (simp add: arnm_fixed_ring_copy_to_def Let_def first)
  next
    case whole: False
    then have "first = ring_size r" by (simp add: first_def)
    then show ?thesis
      using False assms(2) ring_list_runs [OF assms(1) first_def]
      by (simp add: arnm_fixed_ring_copy_to_def Let_def first)
  qed
qed

subsection \<open>A ring as a bounded queue\<close>

datatype 'a ring_request = FR_Push 'a | FR_Pop | FR_Pop_Copy | FR_Clear | FR_Copy_To nat

fun ring_call :: "'a ring_request \<Rightarrow> 'a ring \<Rightarrow> (arnm_result \<times> 'a option list) \<times> 'a ring" where
  "ring_call (FR_Push x) r = (case arnm_fixed_ring_push_ptr (Some x) r of (res, r) \<Rightarrow> ((res, []), r))"
| "ring_call FR_Pop r = (case arnm_fixed_ring_pop r of (res, r) \<Rightarrow> ((res, []), r))"
| "ring_call FR_Pop_Copy r = (case arnm_fixed_ring_pop_copy (Some None) r of (res, dst, r) \<Rightarrow> ((res, [the dst]), r))"
| "ring_call FR_Clear r = ((ARNM_SUCCESS, []), arnm_fixed_ring_clear r)"
| "ring_call (FR_Copy_To n) r =
    (case arnm_fixed_ring_copy_to r (Some (replicate n None)) n of (res, dst) \<Rightarrow> ((res, the dst), r))"

fun queue_call :: "nat \<Rightarrow> 'a ring_request \<Rightarrow> 'a option list \<Rightarrow> (arnm_result \<times> 'a option list) \<times> 'a option list" where
  "queue_call cap (FR_Push x) q =
    (if length q = cap then ((ARNM_ERROR_RESOURCE_EXHAUSTED, []), q) else ((ARNM_SUCCESS, []), q @ [Some x]))"
| "queue_call cap FR_Pop q =
    (if q = [] then ((ARNM_ERROR_ARRAY_INDEX_OUT_OF_BOUNDS, []), q) else ((ARNM_SUCCESS, []), tl q))"
| "queue_call cap FR_Pop_Copy q =
    (if q = [] then ((ARNM_ERROR_ARRAY_INDEX_OUT_OF_BOUNDS, [None]), q) else ((ARNM_SUCCESS, [hd q]), tl q))"
| "queue_call cap FR_Clear q = ((ARNM_SUCCESS, []), [])"
| "queue_call cap (FR_Copy_To n) q =
    (if n < length q then ((ARNM_ERROR_DESTINATION_BUFFER_TO_SMALL, replicate n None), q)
     else ((ARNM_SUCCESS, q @ replicate (n - length q) None), q))"

fun run_calls :: "('c \<Rightarrow> 's \<Rightarrow> 'a \<times> 's) \<Rightarrow> 'c list \<Rightarrow> 's \<Rightarrow> 'a list \<times> 's" where
  "run_calls f [] s = ([], s)"
| "run_calls f (c # cs) s = (case f c s of (a, s) \<Rightarrow> (case run_calls f cs s of (as, s) \<Rightarrow> (a # as, s)))"

lemma ring_call_queue:
  assumes "ring_ready r" "ring_call c r = (a, r')"
  shows "ring_ready r' \<and> ring_capacity r' = ring_capacity r \<and> ring_blocks r' = ring_blocks r \<and>
    queue_call (ring_capacity r) c (ring_list r) = (a, ring_list r')"
proof (cases c)
  case (FR_Push x)
  obtain res r1 where p: "arnm_fixed_ring_push_ptr (Some x) r = (res, r1)" by fastforce
  show ?thesis using push_queue [OF assms(1) p] assms(2) FR_Push p by (auto split: if_splits)
next
  case FR_Pop
  obtain res r1 where p: "arnm_fixed_ring_pop r = (res, r1)" by fastforce
  have "ring_list r = [] \<longleftrightarrow> ring_size r = 0" by (simp add: ring_list_def)
  then show ?thesis using pop_queue [OF assms(1) p] assms(2) FR_Pop p by (auto split: if_splits)
next
  case FR_Pop_Copy
  obtain res r1 where p: "arnm_fixed_ring_pop r = (res, r1)" by fastforce
  have "ring_list r = [] \<longleftrightarrow> ring_size r = 0" by (simp add: ring_list_def)
  then show ?thesis
    using pop_queue [OF assms(1) p] assms FR_Pop_Copy p ring_read_front [OF assms(1)]
    by (auto simp: arnm_fixed_ring_pop_copy_def split: if_splits)
next
  case FR_Clear
  then show ?thesis
    using assms ring_ready_facts [OF assms(1)]
    by (auto simp: arnm_fixed_ring_clear_def ring_ready_def ring_shape_def ring_blocks_def ring_list_def)
next
  case (FR_Copy_To n)
  then show ?thesis using assms copy_to_queue [OF assms(1), of "replicate n None" n] by (auto split: if_splits)
qed

lemma ring_run_queue:
  assumes "ring_ready r" "run_calls ring_call cs r = (as, r')"
  shows "ring_ready r' \<and> ring_blocks r' = ring_blocks r \<and>
    run_calls (queue_call (ring_capacity r)) cs (ring_list r) = (as, ring_list r')"
  using assms
proof (induction cs arbitrary: r as)
  case (Cons c cs)
  obtain a r1 where one: "ring_call c r = (a, r1)" by fastforce
  obtain bs r2 where rest: "run_calls ring_call cs r1 = (bs, r2)" by fastforce
  note step = ring_call_queue [OF Cons.prems(1) one]
  have "as = a # bs" "r' = r2" using Cons.prems(2) one rest by auto
  then show ?case using Cons.IH [of r1 bs] step rest by simp
qed simp

context arnm_allocator begin

lemma ring_init_spec:
  assumes "sound w" "arnm_fixed_ring_init ops cap elem r0 w = (res, r, w')"
  shows "safe_step w [] w' (if res = ARNM_SUCCESS then ring_blocks r else []) \<and>
    (if res = ARNM_SUCCESS then ring_shape r \<and> ring_slots r \<noteq> NULL \<and> ring_capacity r = cap \<and> ring_list r = [] else r = r0)"
proof (cases "cap = 0 \<or> elem = 0 \<or> elem > UINT16_MAX \<or> cap > ARNM_MAX_ALLOC_SIZE div elem")
  case True
  then have "res \<noteq> ARNM_SUCCESS \<and> r = r0 \<and> w' = w"
    using assms(2) unfolding arnm_fixed_ring_init_def
    by (cases "cap = 0 \<or> elem = 0 \<or> elem > UINT16_MAX") auto
  then show ?thesis using assms(1) by simp
next
  case False
  then have "cap \<le> ARNM_MAX_ALLOC_SIZE div elem" "0 < elem" by auto
  then have le: "cap * elem \<le> ARNM_MAX_ALLOC_SIZE" by (simp add: less_eq_div_iff_mult_less_eq)
  then have sz: "u32 (cap * elem) = cap * elem" by (simp add: ARNM_MAX_ALLOC_SIZE_def)
  have e16: "u16 elem = elem" using False by (simp add: UINT16_MAX_def)
  obtain r1 p w1 where al: "op_alloc ops (cap * elem) w = (r1, p, w1)" by (metis prod_cases3)
  have pos: "0 < cap * elem" using False by simp
  have "held_ok owns w []" by simp
  note law = hold_alloc [OF assms(1) this pos al]
  show ?thesis
  proof (cases "r1 = ARNM_SUCCESS")
    case True
    then have "owns w1 p (cap * elem)" "sound w1" using law by auto
    then have p: "p \<noteq> NULL" using owned by blast
    have out: "res = ARNM_SUCCESS" "w' = w1" "r = \<lparr>ring_slots = p, ring_cells = replicate cap None, ring_capacity = cap,
                ring_head = 0, ring_size = 0, ring_element_size = elem\<rparr>"
      using assms(2) False True by (auto simp: arnm_fixed_ring_init_def sz e16 al)
    show ?thesis using law True p False le by (simp add: out ring_blocks_def ring_shape_def ring_list_def)
  next
    case no: False
    then have "res = r1" "r = r0" "w' = w1" using assms(2) False by (auto simp: arnm_fixed_ring_init_def sz al)
    then show ?thesis using law no by simp
  qed
qed

lemma ring_free_spec:
  assumes "sound w" "ring_shape r" "held_ok owns w (ring_blocks r)" "arnm_fixed_ring_free ops r w = (res, r', w')"
  shows "safe_step w (ring_blocks r) w' [] \<and> done_code res \<and> ring_blocks r' = [] \<and> ring_shape r'"
proof (cases "ring_slots r = NULL")
  case True
  then show ?thesis
    using assms by (auto simp: arnm_fixed_ring_free_def ring_blocks_def ring_shape_def forget_everything_def)
next
  case False
  have "ring_capacity r * ring_element_size r \<le> UINT32_MAX"
    using assms(2) False by (auto simp: ring_shape_def ARNM_MAX_ALLOC_SIZE_def)
  then have "block_bytes r = ring_capacity r * ring_element_size r" by (simp add: block_bytes_def)
  then obtain fr where "op_free ops (ring_slots r) (ring_capacity r * ring_element_size r) w = (fr, w')"
      "res = fr" "r' = forget_everything r"
    using assms(4) False by (auto simp: arnm_fixed_ring_free_def split: prod.splits)
  then show ?thesis
    using hold_free [OF assms(1), of "ring_slots r" "ring_capacity r * ring_element_size r" "[]"] assms(3) False
    by (auto simp: ring_blocks_def ring_shape_def forget_everything_def)
qed

end

section \<open>Properties\<close>

text \<open>C21: A ring of at most \<open>2 ^ 31\<close> slots is a bounded queue: whatever program of pushes, pops, clears and
  copies runs over a fresh one, with any allocator behind it, every call answers what the queue
  would answer, the result codes and the elements handed out alike, and the ring holds the queue's
  elements in order. Creating it touches no block of the program.\<close>

theorem ring_runs_as_queue:
  assumes "memory_sound h w" "arnm_fixed_ring_init (memory_ops h) cap elem r0 w = (ARNM_SUCCESS, r, w1)" "cap \<le> 2 ^ 31"
    and "run_calls ring_call cs r = (as, r')"
  shows "run_calls (queue_call cap) cs [] = (as, ring_list r') \<and> ring_blocks r' = ring_blocks r \<and>
    held_ok (memory_owns h) w1 (ring_blocks r') \<and>
    (\<forall>q k. memory_owns h w q k \<longrightarrow>
      memory_owns h w1 q k \<and> apart_from (ring_blocks r') q k \<and> rd (bytes_of w1) q k = rd (bytes_of w) q k)"
proof -
  note init = memory.ring_init_spec [OF assms(1,2)]
  have ready: "ring_ready r" "ring_capacity r = cap" "ring_list r = []" using init assms(3) by (auto simp: ring_ready_def)
  note run = ring_run_queue [OF ready(1) assms(4), unfolded ready(2,3)]
  have "memory.safe_step h w [] w1 (ring_blocks r)" using init by simp
  then show ?thesis using run by (auto simp: foreign_safe_def)
qed

lemma ring_runs_as_queue_witness:
  "\<exists>r w1 as r'. arnm_fixed_ring_init (memory_ops NULL) 2 8 undefined sample_host = (ARNM_SUCCESS, r, w1) \<and>
    run_calls ring_call [FR_Push 1, FR_Push 2, FR_Pop, FR_Push (3 :: nat), FR_Push 4, FR_Copy_To 4] r = (as, r') \<and>
    run_calls (queue_call 2) [FR_Push 1, FR_Push 2, FR_Pop, FR_Push 3, FR_Push 4, FR_Copy_To 4] [] = (as, ring_list r')"
proof -
  obtain r w1 where i: "arnm_fixed_ring_init (memory_ops NULL) 2 8 undefined sample_host = (ARNM_SUCCESS, r :: nat ring, w1)"
    by (simp add: arnm_fixed_ring_init_def memory_ops_def memory_alloc_def chain_at_def sample_host_def arnm_alloc_def
        is_default_alloc_def malloc_def fits_def intern_of_def ARNM_MAX_ALLOC_SIZE_def UINT32_MAX_def UINT16_MAX_def)
  obtain as r' where run: "run_calls ring_call [FR_Push 1, FR_Push 2, FR_Pop, FR_Push (3 :: nat), FR_Push 4, FR_Copy_To 4] r
      = (as, r')" by fastforce
  have "(2::nat) \<le> 2 ^ 31" by simp
  from conjunct1 [OF ring_runs_as_queue [OF sample_host_sound i this run]] i run show ?thesis by blast
qed

text \<open>C22: Where the ring's slot arithmetic is right: the address \<open>arnm_fixed_ring_get\<close> gives for the element at
  an index is that element's slot exactly when head and index together stay below \<open>2 ^ 32\<close>. A ring of
  more than \<open>2 ^ 31\<close> one-byte slots can pass that, and is then answered with the slot of another element.\<close>

theorem ring_get_exact:
  assumes "ring_shape r" "i < ring_size r"
  shows "arnm_fixed_ring_get r i = ring_slots r + ring_index r i * ring_element_size r \<longleftrightarrow> ring_head r + i < 2 ^ 32"
proof -
  have f: "0 < ring_element_size r" "ring_head r < ring_capacity r" "ring_size r \<le> ring_capacity r"
      "ring_capacity r * ring_element_size r \<le> ARNM_MAX_ALLOC_SIZE"
    using assms by (auto simp: ring_shape_def split: if_splits)
  have "ring_capacity r \<le> ring_capacity r * ring_element_size r" using f(1) by simp
  then have "ring_capacity r \<le> ARNM_MAX_ALLOC_SIZE" using f(4) by (rule order_trans)
  then have cap: "ring_capacity r < 2 ^ 32" by (simp add: ARNM_MAX_ALLOC_SIZE_def UINT32_MAX_def)
  have i: "i < ring_capacity r" using assms(2) f(3) by simp
  show ?thesis
  proof (cases "ring_head r + i < 2 ^ 32")
    case True
    then have "u32 (ring_head r + i) = ring_head r + i" by (simp add: UINT32_MAX_def)
    then show ?thesis using True f(2) i by (simp add: arnm_fixed_ring_get_def Let_def ring_index_cases)
  next
    case False
    then have u: "u32 (ring_head r + i) = ring_head r + i - 2 ^ 32"
      using f(2) i cap by (simp add: u32_def mod_if)
    have "ring_head r + i - 2 ^ 32 < ring_capacity r" using f(2) i cap by simp
    moreover have "ring_index r i = ring_head r + i - ring_capacity r" using False f(2) i cap by (simp add: ring_index_cases)
    moreover have "ring_head r + i - 2 ^ 32 \<noteq> ring_head r + i - ring_capacity r" using False cap by simp
    ultimately show ?thesis using False f(1) by (simp add: arnm_fixed_ring_get_def Let_def u)
  qed
qed

definition huge_ring :: "nat ring" where
  "huge_ring = \<lparr>ring_slots = 4096, ring_cells = replicate 3000000000 None, ring_capacity = 3000000000,
     ring_head = 2900000000, ring_size = 1500000000, ring_element_size = 1\<rparr>"

lemma ring_get_exact_witness:
  "arnm_fixed_ring_get huge_ring 1400000000 \<noteq> 4096 + 1300000000"
proof -
  have "ring_shape huge_ring"
    by (simp add: huge_ring_def ring_shape_def ARNM_MAX_ALLOC_SIZE_def UINT32_MAX_def)
  from ring_get_exact [OF this, of 1400000000] show ?thesis by (simp add: huge_ring_def ring_index_def)
qed

end
