(* ===== verification/Buffers.thy ===== *)
theory Buffers
  imports Multi_Arena
begin

text \<open>
  The two plain containers of bytes: the block that remembers its size (\<^verbatim>\<open>include/arnm/memory_block.h\<close>)
  and the buffer that is appended to (\<^verbatim>\<open>include/arnm/byte_buffer.h\<close>). Their bytes are bytes of the
  world, read by \<open>op_mem\<close> and stored by \<open>op_set_mem\<close>. NULL containers are the business of \<open>with_object\<close>;
  a source is \<open>None\<close> when its pointer is NULL, and otherwise the bytes it points at.
\<close>

section \<open>A block and its size\<close>

record memory_block =
  mb_data :: addr
  mb_size :: nat

definition arnm_memory_block_alloc :: "'w ops \<Rightarrow> nat \<Rightarrow> memory_block \<Rightarrow> 'w \<Rightarrow> arnm_result \<times> memory_block \<times> 'w" where
  "arnm_memory_block_alloc ops sz b w =
    (case op_alloc ops sz w of (result, p, w) \<Rightarrow>
       if result = ARNM_SUCCESS then (result, b\<lparr>mb_data := p, mb_size := sz\<rparr>, w) else (result, b, w))"

definition arnm_memory_block_free :: "'w ops \<Rightarrow> memory_block \<Rightarrow> 'w \<Rightarrow> arnm_result \<times> memory_block \<times> 'w" where
  "arnm_memory_block_free ops b w =
    (case op_free ops (mb_data b) (mb_size b) w of (result, w) \<Rightarrow>
       (result, if result = ARNM_SUCCESS then b\<lparr>mb_data := NULL, mb_size := 0\<rparr> else b, w))"

definition arnm_memory_block_realloc :: "'w ops \<Rightarrow> nat \<Rightarrow> memory_block \<Rightarrow> 'w \<Rightarrow> arnm_result \<times> memory_block \<times> 'w" where
  "arnm_memory_block_realloc ops new_size b w =
    (let before = mb_data b
     in case op_realloc ops (mb_data b) (mb_size b) new_size w of (result, p, w) \<Rightarrow>
          let b = b\<lparr>mb_data := p\<rparr>
          in (result, if result = ARNM_SUCCESS \<or> before \<noteq> mb_data b then b\<lparr>mb_size := new_size\<rparr> else b, w))"

text \<open>\<open>arnm_clone\<close>: a block of its own, with the bytes of the source. The checks and the copy are the
  handle's, whatever the allocator.\<close>

definition clone_bytes :: "'w ops \<Rightarrow> addr \<Rightarrow> addr \<Rightarrow> nat \<Rightarrow> 'w \<Rightarrow> arnm_result \<times> addr \<times> 'w" where
  "clone_bytes ops dst src sz w =
    (if src = NULL then (ARNM_ERROR_NULL_POINTER, dst, w)
     else if sz = 0 then (ARNM_ERROR_INVALID_PARAM, dst, w)
     else case op_alloc ops sz w of (result, p, w) \<Rightarrow>
       if result \<noteq> ARNM_SUCCESS then (result, dst, w)
       else (ARNM_SUCCESS, p, op_set_mem ops (memcpy (op_mem ops w) p src sz) w))"

definition arnm_memory_block_clone :: "'w ops \<Rightarrow> memory_block \<Rightarrow> memory_block option \<Rightarrow> 'w \<Rightarrow>
    arnm_result \<times> memory_block \<times> 'w" where
  "arnm_memory_block_clone ops dst src w =
    (case src of None \<Rightarrow> (ARNM_ERROR_NULL_POINTER, dst, w)
     | Some src \<Rightarrow>
       (case clone_bytes ops (mb_data dst) (mb_data src) (mb_size src) w of (result, p, w) \<Rightarrow>
          (result, if result = ARNM_SUCCESS then dst\<lparr>mb_data := p, mb_size := mb_size src\<rparr> else dst, w)))"

section \<open>The buffer\<close>

record byte_buffer =
  bb_data :: addr
  bb_size :: nat
  bb_last_index :: nat

definition arnm_byte_buffer_init :: "'w ops \<Rightarrow> nat \<Rightarrow> byte_buffer \<Rightarrow> 'w \<Rightarrow> arnm_result \<times> byte_buffer \<times> 'w" where
  "arnm_byte_buffer_init ops sz b w =
    (case op_alloc ops sz w of (result, p, w) \<Rightarrow>
       if result \<noteq> ARNM_SUCCESS then (result, b, w)
       else (result, \<lparr>bb_data = p, bb_size = sz, bb_last_index = 0\<rparr>, w))"

definition arnm_byte_buffer_free :: "'w ops \<Rightarrow> byte_buffer \<Rightarrow> 'w \<Rightarrow> arnm_result \<times> byte_buffer \<times> 'w" where
  "arnm_byte_buffer_free ops b w =
    (case op_free ops (bb_data b) (bb_size b) w of (result, w) \<Rightarrow>
       (result, if result = ARNM_SUCCESS then \<lparr>bb_data = NULL, bb_size = 0, bb_last_index = 0\<rparr> else b, w))"

definition arnm_byte_buffer_clear :: "byte_buffer \<Rightarrow> byte_buffer" where
  "arnm_byte_buffer_clear b = b\<lparr>bb_last_index := 0\<rparr>"

definition arnm_byte_buffer_available :: "byte_buffer option \<Rightarrow> nat" where
  "arnm_byte_buffer_available b = (case b of None \<Rightarrow> 0 | Some b \<Rightarrow> sub32 (bb_size b) (bb_last_index b))"

definition unsafe_arnm_byte_buffer_copy :: "'w ops \<Rightarrow> byte list \<Rightarrow> nat \<Rightarrow> byte_buffer \<Rightarrow> 'w \<Rightarrow> byte_buffer \<times> 'w" where
  "unsafe_arnm_byte_buffer_copy ops src sz b w =
    (b\<lparr>bb_last_index := u32 (bb_last_index b + sz)\<rparr>,
     op_set_mem ops (wr (op_mem ops w) (bb_data b + bb_last_index b) (take sz src)) w)"

definition arnm_byte_buffer_copy :: "'w ops \<Rightarrow> byte list option \<Rightarrow> nat \<Rightarrow> byte_buffer \<Rightarrow> 'w \<Rightarrow>
    arnm_result \<times> byte_buffer \<times> 'w" where
  "arnm_byte_buffer_copy ops src sz b w =
    (case src of None \<Rightarrow> (ARNM_ERROR_NULL_POINTER, b, w)
     | Some bs \<Rightarrow>
       if bb_data b = NULL then (ARNM_ERROR_NOT_INITIALIZED, b, w)
       else if sz > sub32 (bb_size b) (bb_last_index b) then (ARNM_ERROR_RESOURCE_EXHAUSTED, b, w)
       else (ARNM_SUCCESS, b\<lparr>bb_last_index := u32 (bb_last_index b + sz)\<rparr>,
             op_set_mem ops (wr (op_mem ops w) (bb_data b + bb_last_index b) (take sz bs)) w))"

definition unsafe_arnm_byte_buffer_push :: "'w ops \<Rightarrow> byte \<Rightarrow> byte_buffer \<Rightarrow> 'w \<Rightarrow> byte_buffer \<times> 'w" where
  "unsafe_arnm_byte_buffer_push ops val b w =
    (b\<lparr>bb_last_index := u32 (bb_last_index b + 1)\<rparr>,
     op_set_mem ops ((op_mem ops w)(bb_data b + bb_last_index b := val)) w)"

definition arnm_byte_buffer_push :: "'w ops \<Rightarrow> byte \<Rightarrow> byte_buffer \<Rightarrow> 'w \<Rightarrow> arnm_result \<times> byte_buffer \<times> 'w" where
  "arnm_byte_buffer_push ops val b w =
    (if bb_data b = NULL then (ARNM_ERROR_NOT_INITIALIZED, b, w)
     else if bb_size b = bb_last_index b then (ARNM_ERROR_RESOURCE_EXHAUSTED, b, w)
     else (ARNM_SUCCESS, b\<lparr>bb_last_index := u32 (bb_last_index b + 1)\<rparr>,
           op_set_mem ops ((op_mem ops w)(bb_data b + bb_last_index b := val)) w))"

text \<open>\<open>out\<close> is what the caller's two out parameters hold, \<open>None\<close> when one of them is NULL.\<close>

definition arnm_byte_buffer_access :: "byte_buffer \<Rightarrow> (addr \<times> nat) option \<Rightarrow> arnm_result \<times> (addr \<times> nat) option" where
  "arnm_byte_buffer_access b out =
    (if out = None then (ARNM_ERROR_NULL_POINTER, None)
     else if bb_data b = NULL then (ARNM_ERROR_NOT_INITIALIZED, out)
     else (ARNM_SUCCESS, Some (bb_data b, bb_last_index b)))"

section \<open>Appending\<close>

text \<open>A program of appends, and the bytes it leaves in a buffer of \<open>n\<close> bytes that held \<open>acc\<close>.\<close>

datatype buffer_request = BB_Copy "byte list" | BB_Push byte | BB_Clear

fun buffer_call :: "'w ops \<Rightarrow> buffer_request \<Rightarrow> byte_buffer \<Rightarrow> 'w \<Rightarrow> arnm_result \<times> byte_buffer \<times> 'w" where
  "buffer_call ops (BB_Copy bs) b w = arnm_byte_buffer_copy ops (Some bs) (length bs) b w"
| "buffer_call ops (BB_Push x) b w = arnm_byte_buffer_push ops x b w"
| "buffer_call ops BB_Clear b w = (ARNM_SUCCESS, arnm_byte_buffer_clear b, w)"

fun buffer_run :: "'w ops \<Rightarrow> buffer_request list \<Rightarrow> byte_buffer \<Rightarrow> 'w \<Rightarrow> arnm_result list \<times> byte_buffer \<times> 'w" where
  "buffer_run ops [] b w = ([], b, w)"
| "buffer_run ops (c # cs) b w =
    (case buffer_call ops c b w of (r, b, w) \<Rightarrow>
      (case buffer_run ops cs b w of (rs, b, w) \<Rightarrow> (r # rs, b, w)))"

fun appended_bytes :: "nat \<Rightarrow> buffer_request \<Rightarrow> byte list \<Rightarrow> arnm_result \<times> byte list" where
  "appended_bytes n (BB_Copy bs) acc =
    (if length acc + length bs \<le> n then (ARNM_SUCCESS, acc @ bs) else (ARNM_ERROR_RESOURCE_EXHAUSTED, acc))"
| "appended_bytes n (BB_Push x) acc =
    (if length acc < n then (ARNM_SUCCESS, acc @ [x]) else (ARNM_ERROR_RESOURCE_EXHAUSTED, acc))"
| "appended_bytes n BB_Clear acc = (ARNM_SUCCESS, [])"

fun appended_run :: "nat \<Rightarrow> buffer_request list \<Rightarrow> byte list \<Rightarrow> arnm_result list \<times> byte list" where
  "appended_run n [] acc = ([], acc)"
| "appended_run n (c # cs) acc =
    (case appended_bytes n c acc of (r, acc) \<Rightarrow> (case appended_run n cs acc of (rs, acc) \<Rightarrow> (r # rs, acc)))"

definition buffer_ok :: "byte_buffer \<Rightarrow> bool" where
  "buffer_ok b \<longleftrightarrow> bb_data b \<noteq> NULL \<and> bb_last_index b \<le> bb_size b \<and> bb_size b \<le> UINT32_MAX"

abbreviation buffer_bytes :: "'w ops \<Rightarrow> byte_buffer \<Rightarrow> 'w \<Rightarrow> byte list" where
  "buffer_bytes ops b w \<equiv> rd (op_mem ops w) (bb_data b) (bb_last_index b)"

lemma rd_wr_append: "rd (wr m (a + k) bs) a (k + length bs) = rd m a k @ bs"
  by (simp add: rd_add mem_simps)

lemma rd_upd_append: "rd (m(a + k := x)) a (k + 1) = rd m a k @ [x]"
  using rd_snoc [of "m(a + k := x)" a k] by (simp add: mem_simps)

context arnm_allocator begin

lemma buffer_call_spec:
  assumes "sound w" "buffer_ok b" "buffer_call ops c b w = (r, b', w')"
  shows "sound w' \<and> (\<forall>p n. owns w' p n = owns w p n) \<and> buffer_ok b' \<and> bb_data b' = bb_data b \<and> bb_size b' = bb_size b \<and>
    (\<forall>x. x \<notin> region (bb_data b) (bb_size b) \<longrightarrow> op_mem ops w' x = op_mem ops w x) \<and>
    appended_bytes (bb_size b) c (buffer_bytes ops b w) = (r, buffer_bytes ops b' w')"
proof (cases c)
  case (BB_Copy bs)
  have left: "sub32 (bb_size b) (bb_last_index b) = bb_size b - bb_last_index b"
    using assms(2) by (simp add: buffer_ok_def)
  show ?thesis
  proof (cases "bb_last_index b + length bs \<le> bb_size b")
    case True
    then have "\<not> bb_size b - bb_last_index b < length bs" by simp
    have "u32 (bb_last_index b + length bs) = bb_last_index b + length bs" using assms(2) True by (simp add: buffer_ok_def)
    then have out: "r = ARNM_SUCCESS" "b' = b\<lparr>bb_last_index := bb_last_index b + length bs\<rparr>"
      "w' = op_set_mem ops (wr (op_mem ops w) (bb_data b + bb_last_index b) bs) w"
      using assms(2,3) \<open>\<not> bb_size b - bb_last_index b < length bs\<close> left BB_Copy
      by (auto simp: arnm_byte_buffer_copy_def buffer_ok_def)
    show ?thesis
      using assms(1,2) True
      by (auto simp: out BB_Copy mem_set sound_set owns_set buffer_ok_def rd_wr_append wr_below wr_above)
  next
    case False
    then have "bb_size b - bb_last_index b < length bs" using assms(2) unfolding buffer_ok_def by linarith
    then have "r = ARNM_ERROR_RESOURCE_EXHAUSTED" "b' = b" "w' = w"
      using assms(2,3) left BB_Copy by (auto simp: arnm_byte_buffer_copy_def buffer_ok_def)
    then show ?thesis using False assms(1,2) BB_Copy by simp
  qed
next
  case (BB_Push x)
  show ?thesis
  proof (cases "bb_size b = bb_last_index b")
    case True
    then show ?thesis using assms BB_Push by (auto simp: arnm_byte_buffer_push_def buffer_ok_def)
  next
    case False
    then have "u32 (bb_last_index b + 1) = bb_last_index b + 1" using assms(2) by (simp add: buffer_ok_def)
    then have out: "r = ARNM_SUCCESS" "b' = b\<lparr>bb_last_index := bb_last_index b + 1\<rparr>"
      "w' = op_set_mem ops ((op_mem ops w)(bb_data b + bb_last_index b := x)) w"
      using assms(2,3) False BB_Push by (auto simp: arnm_byte_buffer_push_def buffer_ok_def)
    show ?thesis
      using assms(1,2) False rd_upd_append [of "op_mem ops w" "bb_data b" "bb_last_index b" x]
      by (auto simp: out BB_Push mem_set sound_set owns_set buffer_ok_def)
  qed
next
  case BB_Clear
  then show ?thesis using assms by (auto simp: arnm_byte_buffer_clear_def buffer_ok_def)
qed

lemma buffer_run_spec:
  assumes "sound w" "buffer_ok b" "buffer_run ops cs b w = (rs, b', w')"
  shows "sound w' \<and> (\<forall>p n. owns w' p n = owns w p n) \<and> buffer_ok b' \<and> bb_data b' = bb_data b \<and> bb_size b' = bb_size b \<and>
    (\<forall>x. x \<notin> region (bb_data b) (bb_size b) \<longrightarrow> op_mem ops w' x = op_mem ops w x) \<and>
    appended_run (bb_size b) cs (buffer_bytes ops b w) = (rs, buffer_bytes ops b' w')"
  using assms
proof (induction cs arbitrary: b w rs)
  case (Cons c cs)
  obtain r b1 w1 where one: "buffer_call ops c b w = (r, b1, w1)" by (metis prod_cases3)
  obtain rs1 b2 w2 where rest: "buffer_run ops cs b1 w1 = (rs1, b2, w2)" by (metis prod_cases3)
  note step = buffer_call_spec [OF Cons.prems(1,2) one]
  have "rs = r # rs1" "b' = b2" "w' = w2" using Cons.prems(3) one rest by auto
  then show ?case using Cons.IH [of w1 b1 rs1] step rest by simp
qed simp

lemma buffer_init_spec:
  assumes "sound w" "0 < n" "n \<le> UINT32_MAX" "arnm_byte_buffer_init ops n b0 w = (ARNM_SUCCESS, b, w')"
  shows "sound w' \<and> buffer_ok b \<and> bb_size b = n \<and> bb_last_index b = 0 \<and> owns w' (bb_data b) n \<and>
    (\<forall>q k. owns w q k \<longrightarrow> owns w' q k \<and> apart (bb_data b) n q k \<and> rd (op_mem ops w') q k = rd (op_mem ops w) q k)"
proof -
  obtain r p w1 where al: "op_alloc ops n w = (r, p, w1)" by (metis prod_cases3)
  then have out: "r = ARNM_SUCCESS" "b = \<lparr>bb_data = p, bb_size = n, bb_last_index = 0\<rparr>" "w' = w1"
    using assms(4) by (auto simp: arnm_byte_buffer_init_def split: if_splits)
  note law = alloc_law [OF assms(1,2) al]
  then have "p \<noteq> NULL" using out(1) owned by blast
  then show ?thesis using law assms(3) by (simp add: out buffer_ok_def)
qed

end

text \<open>C28: A byte buffer is the bytes appended to it: whatever program of copies, pushes and clears runs over a
  fresh one, each call succeeds exactly when its bytes still fit, a refused one changes nothing, the
  buffer holds the accepted bytes in order, and no other block of the program changes.\<close>

theorem buffer_holds_appended:
  assumes "memory_sound h w" "0 < n" "n \<le> UINT32_MAX"
    and "arnm_byte_buffer_init (memory_ops h) n b0 w = (ARNM_SUCCESS, b, w1)" "buffer_run (memory_ops h) cs b w1 = (rs, b', w2)"
  shows "appended_run n cs [] = (rs, rd (bytes_of w2) (bb_data b') (bb_last_index b')) \<and>
    arnm_byte_buffer_access b' (Some old) = (ARNM_SUCCESS, Some (bb_data b, bb_last_index b')) \<and>
    (\<forall>q k. memory_owns h w q k \<longrightarrow> memory_owns h w2 q k \<and> rd (bytes_of w2) q k = rd (bytes_of w) q k)"
proof -
  note init = memory.buffer_init_spec [OF assms(1-4)]
  have "memory_sound h w1" "buffer_ok b" using init by simp_all
  note run = memory.buffer_run_spec [OF this assms(5)]
  have outside: "bytes_of w2 x = bytes_of w1 x" if "x \<notin> region (bb_data b) n" for x
    using run init that by (simp add: memory_ops_def)
  have "rd (bytes_of w2) q k = rd (bytes_of w1) q k" if "apart (bb_data b) n q k" for q k
    by (rule rd_apart [OF that outside])
  then show ?thesis using run init by (simp add: arnm_byte_buffer_access_def buffer_ok_def)
qed

lemma buffer_holds_appended_witness:
  "\<exists>b w1 rs b' w2. arnm_byte_buffer_init (memory_ops NULL) 3 undefined sample_host = (ARNM_SUCCESS, b, w1) \<and>
    buffer_run (memory_ops NULL) [BB_Copy [1, 2], BB_Copy [3, 4], BB_Push 5] b w1 = (rs, b', w2) \<and>
    appended_run 3 [BB_Copy [1, 2], BB_Copy [3, 4], BB_Push 5] [] = (rs, rd (bytes_of w2) (bb_data b') (bb_last_index b'))"
proof -
  obtain b w1 where i: "arnm_byte_buffer_init (memory_ops NULL) 3 undefined sample_host = (ARNM_SUCCESS, b, w1)"
    by (simp add: arnm_byte_buffer_init_def memory_ops_def memory_alloc_def chain_at_def sample_host_def arnm_alloc_def
        is_default_alloc_def malloc_def fits_def intern_of_def)
  obtain rs b' w2 where run: "buffer_run (memory_ops NULL) [BB_Copy [1, 2], BB_Copy [3, 4], BB_Push 5] b w1 = (rs, b', w2)"
    by (metis prod_cases3)
  have "(0::nat) < 3" "3 \<le> UINT32_MAX" by (simp_all add: UINT32_MAX_def)
  from conjunct1 [OF buffer_holds_appended [OF sample_host_sound this i run]] i run show ?thesis by blast
qed

end
