(* ===== verification/Pool_Client.thy ===== *)
theory Pool_Client
  imports Multi_Arena
begin

text \<open>
  What the pools of arenas share. First the free list of \<^verbatim>\<open>src/arena_free_list.h\<close>: the link to the next
  free arena is stored in the first eight bytes of a free arena's own buffer, as the little-endian
  bytes of the pointer. Then the contract of a pool, the locale \<open>arena_pool\<close>: arenas are taken from it
  and given back, and a taken arena's buffer is the taker's alone. It is interpreted by the pools
  of the theories \<open>Fixed_Arena_Pool\<close> and \<open>Dynamic_Arena_Pool\<close>.
\<close>

section \<open>Pointers in memory\<close>

definition pointer_bytes :: "addr \<Rightarrow> byte list" where
  "pointer_bytes p = map (\<lambda>i. of_nat (p div 256 ^ i mod 256)) [0..<8]"

definition arnm_load_ptr :: "mem \<Rightarrow> addr \<Rightarrow> addr" where
  "arnm_load_ptr m a = (\<Sum>i<8. unat (m (a + i)) * 256 ^ i)"

definition store_ptr :: "mem \<Rightarrow> addr \<Rightarrow> addr \<Rightarrow> mem" where
  "store_ptr m a p = wr m a (pointer_bytes p)"

lemma length_pointer_bytes [simp]: "length (pointer_bytes p) = 8"
  by (simp add: pointer_bytes_def)

lemma base256: "(\<Sum>i<n. p div 256 ^ i mod 256 * 256 ^ i) = p mod 256 ^ n" for p :: nat
proof (induction n)
  case (Suc n)
  have "p mod (256 ^ n * 256) = 256 ^ n * (p div 256 ^ n mod 256) + p mod 256 ^ n" by (rule mod_mult2_eq)
  then show ?case using Suc by (simp add: mult.commute)
qed simp

lemma load_store: "p < ADDRESS_END \<Longrightarrow> arnm_load_ptr (store_ptr m a p) a = p"
proof -
  assume p: "p < ADDRESS_END"
  have "arnm_load_ptr (store_ptr m a p) a = (\<Sum>i<8. p div 256 ^ i mod 256 * 256 ^ i)"
    unfolding arnm_load_ptr_def store_ptr_def
    by (rule sum.cong) (auto simp: mem_simps pointer_bytes_def unat_of_nat take_bit_eq_mod)
  also have "\<dots> = p" using p by (simp add: base256)
  finally show ?thesis .
qed

lemma load_cong: "(\<And>x. x \<in> region a 8 \<Longrightarrow> m' x = m x) \<Longrightarrow> arnm_load_ptr m' a = arnm_load_ptr m a"
  by (simp add: arnm_load_ptr_def)

lemma store_outside: "x \<notin> region a 8 \<Longrightarrow> store_ptr m a p x = m x"
  by (auto simp: store_ptr_def wr_def)

text \<open>The list the links spell out, from a head on; \<open>slot\<close> is where a member keeps its link.\<close>

fun linked :: "(addr \<Rightarrow> addr) \<Rightarrow> mem \<Rightarrow> addr \<Rightarrow> addr list \<Rightarrow> bool" where
  "linked slot m head [] \<longleftrightarrow> head = NULL"
| "linked slot m head (x # xs) \<longleftrightarrow> head = x \<and> x \<noteq> NULL \<and> linked slot m (arnm_load_ptr m (slot x)) xs"

lemma linked_cong:
  "(\<And>x a. x \<in> set xs \<Longrightarrow> a \<in> region (slot' x) 8 \<Longrightarrow> m' a = m a) \<Longrightarrow> (\<And>x. x \<in> set xs \<Longrightarrow> slot' x = slot x) \<Longrightarrow>
    linked slot' m' head xs = linked slot m head xs"
proof (induction xs arbitrary: head)
  case (Cons x xs)
  then have "arnm_load_ptr m' (slot' x) = arnm_load_ptr m (slot x)" by (metis list.set_intros(1) load_cong)
  moreover have "linked slot' m' h xs = linked slot m h xs" for h by (rule Cons.IH) (use Cons.prems in auto)
  ultimately show ?case by simp
qed simp

lemma linked_null: "linked slot m NULL xs \<longleftrightarrow> xs = []"
  by (cases xs) auto

lemma linked_push:
  assumes "linked slot m head xs" "x \<noteq> NULL" "head < ADDRESS_END"
    and "\<And>y. y \<in> set xs \<Longrightarrow> apart (slot x) 8 (slot y) 8"
  shows "linked slot (store_ptr m (slot x) head) x (x # xs)"
proof -
  have "store_ptr m (slot x) head a = m a" if "y \<in> set xs" "a \<in> region (slot y) 8" for y a
    using assms(4) [OF that(1)] that(2) by (intro store_outside) (auto simp: apart_def)
  then have "linked slot (store_ptr m (slot x) head) head xs"     using assms(1) linked_cong [of xs slot "store_ptr m (slot x) head" m slot head] by blast
  then show ?thesis using assms(2,3) by (simp add: load_store)
qed

section \<open>The free list\<close>

definition arnm_arena_link_slot :: "addr \<Rightarrow> world \<Rightarrow> addr" where
  "arnm_arena_link_slot d w = data (object_at d w)"

definition arnm_arena_next_free :: "addr \<Rightarrow> world \<Rightarrow> addr" where
  "arnm_arena_next_free d w = arnm_load_ptr (bytes_of w) (arnm_arena_link_slot d w)"

definition arnm_arena_set_next_free :: "addr \<Rightarrow> addr \<Rightarrow> world \<Rightarrow> world" where
  "arnm_arena_set_next_free d link w = set_bytes (store_ptr (bytes_of w) (arnm_arena_link_slot d w) link) w"

text \<open>
  A descriptor written at an address is from then on the object there: what the table of chains
  held for that address is over.
\<close>

definition borrow_at :: "addr \<Rightarrow> addr \<Rightarrow> nat \<Rightarrow> world \<Rightarrow> arnm_result \<times> world" where
  "borrow_at d block cap w =
    (case arnm_init_arena_borrow d block cap w of
       (result, w) \<Rightarrow> (result, if result = ARNM_SUCCESS then w\<lparr>chains := (chains w)(d := None)\<rparr> else w))"

text \<open>A descriptor of a pool: at \<open>d\<close> stands a single arena over the \<open>n\<close> bytes at \<open>b\<close>.\<close>

definition stands :: "world \<Rightarrow> addr \<Rightarrow> addr \<Rightarrow> nat \<Rightarrow> bool" where
  "stands w d b n \<longleftrightarrow> d \<noteq> NULL \<and> chains w d = None \<and> handles w d \<noteq> None \<and>
    data (object_at d w) = b \<and> capacity (object_at d w) = n \<and> descriptor_ok (object_at d w) \<and>
    allocation_type (object_at d w) = ARNM_ALLOC_TYPE_ARENA_EXTERNAL"

definition unused :: "world \<Rightarrow> addr \<Rightarrow> bool" where
  "unused w d \<longleftrightarrow> last_index (object_at d w) = 0 \<and> out_of_memory_capacity (object_at d w) = 0"

lemma SIZEOF_ARNM_pos [simp]: "0 < SIZEOF_ARNM" "SIZEOF_ARNM \<noteq> 0" "SIZEOF_ARNM mod 8 = 0"
  by (simp_all add: SIZEOF_ARNM_def)

lemma object_at_simps [simp]:
  "d \<noteq> NULL \<Longrightarrow> object_at d (set_handle d a w) = a"
  "e \<noteq> d \<Longrightarrow> object_at e (set_handle d a w) = object_at e w"
  "object_at e (set_bytes m w) = object_at e w"
  "object_at e (w'\<lparr>chains := c\<rparr>) = object_at e w'"
  by (auto simp: object_at_def intern_of_def set_handle_def set_bytes_def)

lemma object_at_cong: "handles w' = handles w \<Longrightarrow> object_at d w' = object_at d w"
  by (simp add: object_at_def intern_of_def)

lemma stands_cong: "handles w' d = handles w d \<Longrightarrow> chains w' d = chains w d \<Longrightarrow> stands w' d b n = stands w d b n"
  by (simp add: stands_def object_at_def intern_of_def)

lemma stands_set_bytes [simp]: "stands (set_bytes m w) d b n = stands w d b n"
  by (rule stands_cong) (simp_all add: set_bytes_def)

lemma borrow_at_ok:
  assumes "d \<noteq> NULL" "b \<noteq> NULL" "b mod 8 = 0" "0 < n" "n mod 8 = 0" "n \<le> ARNM_MAX_ALLOC_SIZE" "b + n < ADDRESS_END"
  obtains w' where "borrow_at d b n w = (ARNM_SUCCESS, w')" "stands w' d b n" "unused w' d"
    "heap w' = heap w" "\<And>e. e \<noteq> d \<Longrightarrow> handles w' e = handles w e" "\<And>e. e \<noteq> d \<Longrightarrow> chains w' e = chains w e"
proof -
  have n: "arnm_align8_u32 n = n" using assms(4,5,6) by (auto simp: arnm_align8_u32_def)
  let ?a = "reset_arena (object_at d w\<lparr>data := b, capacity := n, allocation_type := ARNM_ALLOC_TYPE_ARENA_EXTERNAL\<rparr>)"
  have b: "borrow_arena b n (object_at d w) = (ARNM_SUCCESS, ?a)"
    using assms n by (simp add: borrow_arena_def Let_def)
  let ?w = "(set_handle d ?a w)\<lparr>chains := (chains w)(d := None)\<rparr>"
  have "borrow_at d b n w = (ARNM_SUCCESS, ?w)"
    using assms(1) b by (simp add: borrow_at_def arnm_init_arena_borrow_def set_handle_def)
  moreover have "stands ?w d b n" "unused ?w d"
    using assms by (auto simp: stands_def unused_def descriptor_ok_def arena_ok_def reset_arena_def set_handle_def
        ARNM_MAX_ALLOC_SIZE_def object_at_def intern_of_def)
  ultimately show thesis by (intro that [of ?w]) (auto simp: set_handle_def)
qed

lemma set_next_simps [simp]:
  "handles (arnm_arena_set_next_free d link w) = handles w" "chains (arnm_arena_set_next_free d link w) = chains w"
  "blocks (heap (arnm_arena_set_next_free d link w)) = blocks (heap w)"
  "bytes_of (arnm_arena_set_next_free d link w) = store_ptr (bytes_of w) (data (object_at d w)) link"
  "object_at e (arnm_arena_set_next_free d link w) = object_at e w"
  by (simp_all add: arnm_arena_set_next_free_def arnm_arena_link_slot_def set_bytes_def object_at_def intern_of_def)

lemma memory_reset_stands:
  assumes "stands w d b n"
  obtains w' where "memory_reset d w = w'" "stands w' d b n" "unused w' d" "heap w' = heap w"
    "\<And>e. e \<noteq> d \<Longrightarrow> handles w' e = handles w e" "chains w' = chains w"
proof -
  have d: "d \<noteq> NULL" "chain_at d w = None" "intern_of d w = Some (object_at d w)"
    using assms by (auto simp: stands_def chain_at_def intern_of_def object_at_def split: option.splits)
  have r: "memory_reset d w = set_handle d (reset_arena (object_at d w)) w"
    using d by (simp add: memory_reset_def arnm_reset_def)
  have o: "object_at d (set_handle d a w) = a" for a using d(1) by simp
  have "stands (set_handle d (reset_arena (object_at d w)) w) d b n"
    "unused (set_handle d (reset_arena (object_at d w)) w) d"
    using assms unfolding stands_def unused_def o
    by (auto simp: reset_arena_def descriptor_ok_def arena_ok_def set_handle_def)
  then show thesis using r by (intro that [of "set_handle d (reset_arena (object_at d w)) w"]) (auto simp: set_handle_def)
qed

section \<open>A pool and its takers\<close>

record 's pool_ops =
  po_take :: "nat \<Rightarrow> 's \<Rightarrow> arnm_result \<times> addr \<times> 's"
  po_give :: "addr \<Rightarrow> 's \<Rightarrow> arnm_result \<times> 's"
  po_mem :: "'s \<Rightarrow> mem"
  po_set_mem :: "mem \<Rightarrow> 's \<Rightarrow> 's"
  po_arena :: "addr \<Rightarrow> 's \<Rightarrow> arena"
  po_set_arena :: "addr \<Rightarrow> arena \<Rightarrow> 's \<Rightarrow> 's"

abbreviation po_base :: "'s pool_ops \<Rightarrow> addr \<Rightarrow> 's \<Rightarrow> addr" where "po_base po d s \<equiv> data (po_arena po d s)"
abbreviation po_size :: "'s pool_ops \<Rightarrow> addr \<Rightarrow> 's \<Rightarrow> nat" where "po_size po d s \<equiv> capacity (po_arena po d s)"

text \<open>What a taken arena is: single, empty, and with its buffer to itself.\<close>

definition empty_arena :: "arena \<Rightarrow> bool" where
  "empty_arena a \<longleftrightarrow> single_type (allocation_type a) \<and> arena_ok a \<and> data a \<noteq> NULL \<and> last_index a = 0 \<and>
    out_of_memory_capacity a = 0"

lemma arena_bump_ok:
  assumes "descriptor_ok a"
  shows "arena_ok (snd (snd (arena_alloc_aligned buffer (ARNM_ALIGN8 n) a))) \<and>
    (snd (snd (arena_alloc_aligned buffer (ARNM_ALIGN8 n) a)))\<lparr>last_index := last_index a,
      out_of_memory_capacity := out_of_memory_capacity a\<rparr> = a"
proof -
  have a: "arena_ok a" "single_type (allocation_type a)" "data a \<noteq> NULL"
    using assms by (simp_all add: descriptor_ok_def)
  have "ARNM_ALIGN8 n mod 8 = 0" using align8_bounds by blast
  then have "(last_index a + ARNM_ALIGN8 n) mod 8 = 0" using a(1) by (intro mod8_add) (simp_all add: arena_ok_def)
  then show ?thesis using a by (auto simp: arena_alloc_aligned_cases arena_ok_def)
qed

text \<open>\<open>ok s out\<close>: the pool is in order while the arenas \<open>out\<close> are taken.\<close>

locale arena_pool =
  fixes po :: "'s pool_ops"
    and ok :: "'s \<Rightarrow> addr set \<Rightarrow> bool"
  assumes taken_apart: "ok s out \<Longrightarrow> d \<in> out \<Longrightarrow> e \<in> out \<Longrightarrow> d \<noteq> e \<Longrightarrow>
      apart (po_base po d s) (po_size po d s) (po_base po e s) (po_size po e s)"
    and take_law: "ok s out \<Longrightarrow> po_take po n s = (r, d, s') \<Longrightarrow>
      (if r = ARNM_SUCCESS then ok s' (insert d out) \<and> d \<notin> out \<and> empty_arena (po_arena po d s')
       else ok s' out) \<and>
      (\<forall>e\<in>out. po_arena po e s' = po_arena po e s \<and>
        rd (po_mem po s') (po_base po e s) (po_size po e s) = rd (po_mem po s) (po_base po e s) (po_size po e s))"
    and give_law: "ok s out \<Longrightarrow> d \<in> out \<Longrightarrow> po_give po d s = (r, s') \<Longrightarrow>
      r = ARNM_SUCCESS \<and> ok s' (out - {d}) \<and>
      (\<forall>e\<in>out - {d}. po_arena po e s' = po_arena po e s \<and>
        rd (po_mem po s') (po_base po e s) (po_size po e s) = rd (po_mem po s) (po_base po e s) (po_size po e s))"
    and set_law: "ok s out \<Longrightarrow> d \<in> out \<Longrightarrow>
      (\<And>x. x \<notin> region (po_base po d s) (po_size po d s) \<Longrightarrow> m x = po_mem po s x) \<Longrightarrow> ok (po_set_mem po m s) out"
    and use_law: "ok s out \<Longrightarrow> d \<in> out \<Longrightarrow> arena_ok a \<Longrightarrow> a\<lparr>last_index := l, out_of_memory_capacity := k\<rparr> = po_arena po d s \<Longrightarrow>
      ok (po_set_arena po d a s) out \<and> po_arena po d (po_set_arena po d a s) = a"
    and use_other: "d \<noteq> e \<Longrightarrow> po_arena po e (po_set_arena po d a s) = po_arena po e s"
    and use_mem: "po_mem po (po_set_arena po d a s) = po_mem po s"
    and held_arena: "ok s out \<Longrightarrow> d \<in> out \<Longrightarrow> descriptor_ok (po_arena po d s)"
    and set_mem: "po_mem po (po_set_mem po m s) = m"
    and set_arena: "po_arena po e (po_set_mem po m s) = po_arena po e s"

text \<open>
  A program that takes arenas, allocates from them, writes into their buffers and gives them back;
  of each it holds it knows the bytes it should find in the buffer.
\<close>

datatype pool_request = PR_Take nat | PR_Give nat | PR_Write nat nat byte | PR_Alloc nat nat

fun pool_step :: "'s pool_ops \<Rightarrow> pool_request \<Rightarrow> 's \<times> held list \<Rightarrow> 's \<times> held list" where
  "pool_step po (PR_Take n) (s, held) =
    (case po_take po n s of (r, d, s') \<Rightarrow>
      (s', if r = ARNM_SUCCESS then (d, rd (po_mem po s') (po_base po d s') (po_size po d s')) # held else held))"
| "pool_step po (PR_Give i) (s, held) =
    (if length held \<le> i then (s, held) else (snd (po_give po (fst (held ! i)) s), drop_nth i held))"
| "pool_step po (PR_Write i j b) (s, held) =
    (if length held \<le> i then (s, held)
     else case held ! i of (d, bs) \<Rightarrow>
       if length bs \<le> j then (s, held)
       else (po_set_mem po ((po_mem po s)(po_base po d s + j := b)) s, held[i := (d, bs[j := b])]))"
| "pool_step po (PR_Alloc i n) (s, held) =
    (if length held \<le> i then (s, held)
     else case held ! i of (d, bs) \<Rightarrow>
       (po_set_arena po d (snd (snd (arena_alloc_aligned NULL (ARNM_ALIGN8 n) (po_arena po d s)))) s, held))"

definition pool_run :: "'s pool_ops \<Rightarrow> pool_request list \<Rightarrow> 's \<times> held list \<Rightarrow> 's \<times> held list" where
  "pool_run po = fold (pool_step po)"

definition holds :: "'s pool_ops \<Rightarrow> 's \<Rightarrow> held list \<Rightarrow> bool" where
  "holds po s held \<longleftrightarrow> distinct (map fst held) \<and>
    (\<forall>(d, bs)\<in>set held. length bs = po_size po d s \<and> rd (po_mem po s) (po_base po d s) (po_size po d s) = bs)"

lemma holds_drop:
  assumes "distinct (map fst held)" "i < length held"
  shows "distinct (map fst (drop_nth i held))" "fst ` set (drop_nth i held) = fst ` set held - {fst (held ! i)}"
proof -
  have split: "held = take i held @ held ! i # drop (Suc i) held" by (rule id_take_nth_drop [OF assms(2)])
  have d: "distinct (map fst (take i held @ held ! i # drop (Suc i) held))" using assms(1) split by simp
  then show "distinct (map fst (drop_nth i held))" by (simp add: drop_nth_def)
  have all: "fst ` set held = insert (fst (held ! i)) (fst ` set (take i held) \<union> fst ` set (drop (Suc i) held))"
    by (subst split) auto
  show "fst ` set (drop_nth i held) = fst ` set held - {fst (held ! i)}"
    unfolding all using d by (auto simp: drop_nth_def)
qed

context arena_pool begin

definition client :: "'s \<times> held list \<Rightarrow> bool" where
  "client = (\<lambda>(s, held). ok s (fst ` set held) \<and> holds po s held)"

lemma client_take:
  assumes "client (s, held)"
  shows "client (pool_step po (PR_Take n) (s, held))"
proof -
  obtain r d s' where t: "po_take po n s = (r, d, s')" by (metis prod_cases3)
  have "ok s (fst ` set held)" using assms by (simp add: client_def)
  note law = take_law [OF this t]
  have "length bs = po_size po e s' \<and> rd (po_mem po s') (po_base po e s') (po_size po e s') = bs"
    if "(e, bs) \<in> set held" for e bs
  proof -
    have "e \<in> fst ` set held" using that by force
    then have "po_arena po e s' = po_arena po e s"
      "rd (po_mem po s') (po_base po e s) (po_size po e s) = rd (po_mem po s) (po_base po e s) (po_size po e s)"
      using law by blast+
    moreover have "length bs = po_size po e s \<and> rd (po_mem po s) (po_base po e s) (po_size po e s) = bs"
      using assms that by (auto simp: client_def holds_def)
    ultimately show ?thesis by simp
  qed
  then have "holds po s' held" using assms by (auto simp: client_def holds_def)
  then show ?thesis using law t by (auto simp: client_def holds_def)
qed

lemma client_give:
  assumes "client (s, held)"
  shows "client (pool_step po (PR_Give i) (s, held))"
proof (cases "i < length held")
  case True
  obtain r s' where g: "po_give po (fst (held ! i)) s = (r, s')" by fastforce
  have c: "ok s (fst ` set held)" "distinct (map fst held)" using assms by (simp_all add: client_def holds_def)
  have "fst (held ! i) \<in> fst ` set held" using True by simp
  note law = give_law [OF c(1) this g] and drop = holds_drop [OF c(2) True]
  have "holds po s' (drop_nth i held)"
    unfolding holds_def
  proof (intro conjI ballI)
    show "distinct (map fst (drop_nth i held))" by (rule drop(1))
    fix x assume x: "x \<in> set (drop_nth i held)"
    obtain d bs where db: "x = (d, bs)" by fastforce
    have "d \<in> fst ` set (drop_nth i held)" using imageI [OF x, of fst] db by simp
    then have "d \<in> fst ` set held - {fst (held ! i)}" by (simp only: drop(2))
    then have same: "po_arena po d s' = po_arena po d s"
      "rd (po_mem po s') (po_base po d s) (po_size po d s) = rd (po_mem po s) (po_base po d s) (po_size po d s)"
      using law by simp_all
    have "(d, bs) \<in> set held" using subsetD [OF set_drop_nth x] db by simp
    then have "length bs = po_size po d s \<and> rd (po_mem po s) (po_base po d s) (po_size po d s) = bs"
      using assms by (auto simp: client_def holds_def)
    then show "case x of (d, bs) \<Rightarrow> length bs = po_size po d s' \<and>
        rd (po_mem po s') (po_base po d s') (po_size po d s') = bs"
      using same db by simp
  qed
  moreover have "ok s' (fst ` set (drop_nth i held))" unfolding drop(2) using law by blast
  ultimately have "client (s', drop_nth i held)" by (simp add: client_def)
  then show ?thesis using True g by simp
qed (use assms in simp)

lemma client_write:
  assumes "client (s, held)"
  shows "client (pool_step po (PR_Write i j b) (s, held))"
proof (cases "i < length held \<and> j < length (snd (held ! i))")
  case True
  obtain d bs where h: "held ! i = (d, bs)" by fastforce
  let ?m = "(po_mem po s)(po_base po d s + j := b)"
  have i: "i < length held" "(d, bs) \<in> set held" using True h by (auto simp: in_set_conv_nth)
  have c: "ok s (fst ` set held)" "distinct (map fst held)" using assms by (simp_all add: client_def holds_def)
  have bs: "length bs = po_size po d s" "rd (po_mem po s) (po_base po d s) (po_size po d s) = bs"
    using assms i(2) by (auto simp: client_def holds_def)
  have j: "j < po_size po d s" using True h bs(1) by simp
  have d: "d \<in> fst ` set held" using i(2) by force
  have keep: "ok (po_set_mem po ?m s) (fst ` set held)"
    by (rule set_law [OF c(1) d]) (use j in auto)
  have own: "rd ?m (po_base po d s) (po_size po d s) = bs[j := b]"
    using bs j by (auto simp: rd_eq_iff nth_list_update)
  have names: "map fst (held[i := (d, bs[j := b])]) = map fst held"
    using h i(1) by (simp add: map_update list_update_same_conv)
  then have set_names: "fst ` set (held[i := (d, bs[j := b])]) = fst ` set held" by (metis list.set_map)
  have "length cs = po_size po e s \<and> rd ?m (po_base po e s) (po_size po e s) = cs"
    if e: "(e, cs) \<in> set (held[i := (d, bs[j := b])])" for e cs
  proof (cases "e = d")
    case True
    have "(d, bs[j := b]) \<in> set (held[i := (d, bs[j := b])])" using i(1) by (rule set_update_memI)
    then have "cs = bs[j := b]"
      using e True names c(2) eq_key_imp_eq_value [of "held[i := (d, bs[j := b])]" d] by simp
    then show ?thesis using True own bs(1) by simp
  next
    case False
    then have in_held: "(e, cs) \<in> set held" using e set_update_subset_insert by fastforce
    then have "e \<in> fst ` set held" by force
    then have "apart (po_base po d s) (po_size po d s) (po_base po e s) (po_size po e s)"
      using taken_apart [OF c(1) d] False by blast
    then have "rd ?m (po_base po e s) (po_size po e s) = rd (po_mem po s) (po_base po e s) (po_size po e s)"
      using j by (auto simp: apart_def mem_simps)
    then show ?thesis using assms in_held by (auto simp: client_def holds_def)
  qed
  then have "holds po (po_set_mem po ?m s) (held[i := (d, bs[j := b])])"
    using c(2) names by (auto simp: holds_def set_mem set_arena)
  then show ?thesis using True h keep set_names by (simp add: client_def)
qed (use assms in \<open>auto split: prod.splits\<close>)

lemma client_alloc:
  assumes "client (s, held)"
  shows "client (pool_step po (PR_Alloc i n) (s, held))"
proof (cases "i < length held")
  case True
  obtain d bs where h: "held ! i = (d, bs)" by fastforce
  let ?a = "snd (snd (arena_alloc_aligned NULL (ARNM_ALIGN8 n) (po_arena po d s)))"
  let ?s = "po_set_arena po d ?a s"
  have c: "ok s (fst ` set held)" "holds po s held" using assms by (simp_all add: client_def)
  have "(d, bs) \<in> set held" using True h by (metis nth_mem)
  then have d: "d \<in> fst ` set held" by force
  have a: "arena_ok ?a" "?a\<lparr>last_index := last_index (po_arena po d s),
      out_of_memory_capacity := out_of_memory_capacity (po_arena po d s)\<rparr> = po_arena po d s"
    using arena_bump_ok [OF held_arena [OF c(1) d]] by simp_all
  note use = use_law [OF c(1) d a]
  have "data ?a = data (po_arena po d s)" "capacity ?a = capacity (po_arena po d s)"
    using a(2) by (metis arena.select_convs(1) arena.surjective arena.update_convs(2,4), metis arena.select_convs(3) arena.surjective arena.update_convs(2,4))
  then have same: "po_base po e ?s = po_base po e s \<and> po_size po e ?s = po_size po e s" for e
    using use use_other [of d e ?a s] by (cases "e = d") auto
  have "holds po ?s held" using c(2) by (simp add: holds_def same use_mem)
  then show ?thesis using True h use by (simp add: client_def)
qed (use assms in simp)

lemma client_run:
  assumes "client x" shows "client (pool_run po reqs x)"
proof -
  have "client (pool_step po c y)" if "client y" for c y
    using that client_take client_give client_write client_alloc by (cases y; cases c) blast+
  then show ?thesis using assms unfolding pool_run_def by (induction reqs arbitrary: x) auto
qed

text \<open>What the program is owed at any moment.\<close>

lemma client_owed:
  assumes "ok s {}" "pool_run po reqs (s, []) = (s', held)"
  shows "ok s' (fst ` set held) \<and> holds po s' held \<and>
    sorted_wrt (\<lambda>(d, bs) (e, cs). apart (po_base po d s') (length bs) (po_base po e s') (length cs)) held"
proof -
  have "client (s, [])" using assms(1) by (simp add: client_def holds_def)
  from client_run [OF this, of reqs] have c: "client (s', held)" using assms(2) by simp
  then have okh: "ok s' (fst ` set held)" and h: "holds po s' held" by (simp_all add: client_def)
  have "sorted_wrt (\<lambda>(d, bs) (e, cs). apart (po_base po d s') (length bs) (po_base po e s') (length cs)) xs"
    if "set xs \<subseteq> set held" "distinct (map fst xs)" for xs
    using that
  proof (induction xs)
    case (Cons x xs)
    have "apart (po_base po (fst x) s') (length (snd x)) (po_base po (fst y) s') (length (snd y))" if y: "y \<in> set xs" for y
    proof -
      have in_held: "x \<in> set held" "y \<in> set held" "fst x \<noteq> fst y" using Cons.prems y by auto
      have sizes: "length (snd x) = po_size po (fst x) s'" "length (snd y) = po_size po (fst y) s'"
        using h in_held by (auto simp: holds_def case_prod_beta)
      show ?thesis unfolding sizes by (rule taken_apart [OF okh]) (use in_held in auto)
    qed
    then show ?case using Cons by (auto simp: case_prod_beta)
  qed simp
  then show ?thesis using okh h by (simp add: holds_def)
qed

end

lemma sample_host_alloc:
  assumes "0 < n" "n < 4096"
  shows "memory_alloc (Some NULL) n NULL sample_host =
    (ARNM_SUCCESS, Some 4096, sample_host\<lparr>heap := (heap sample_host)\<lparr>blocks := [(4096, n)], calls := 1\<rparr>\<rparr>)"
  using assms by (simp add: memory_alloc_def chain_at_def arnm_alloc_def sample_host_def malloc_def fits_def Let_def intern_of_def
      is_default_alloc_def)

end
