(* ===== verification/Fixed_Arena_Pool.thy ===== *)
theory Fixed_Arena_Pool
  imports Pool_Client
begin

text \<open>
  The pool with a fixed number of arenas (\<^verbatim>\<open>src/fixed_arena_pool.c\<close>): one block of memory from \<open>source\<close>
  holds all descriptors and, behind them, all buffers. A pool object is a value here, \<open>None\<close> the
  NULL pointer; its descriptors are objects of the world at their addresses. \<open>fixed_pool_ok\<close> is the
  invariant, and the pool is an instance of \<open>arena_pool\<close>.
\<close>

record fixed_arena_pool =
  fp_arenas :: addr
  fp_free_head :: addr
  fp_capacity :: nat
  fp_count :: nat
  fp_acquired :: nat

definition SIZEOF_FIXED_ARENA_POOL :: nat where "SIZEOF_FIXED_ARENA_POOL = 24"

definition buffers_offset :: "nat \<Rightarrow> nat" where "buffers_offset n = n * SIZEOF_ARNM"

definition fixed_block_bytes :: "fixed_arena_pool option \<Rightarrow> nat" where
  "fixed_block_bytes pool =
    (case pool of None \<Rightarrow> 0
     | Some p \<Rightarrow> u64 (buffers_offset (fp_count p) + fp_count p * fp_capacity p))"

text \<open>The descriptor numbered \<open>i\<close>: \<open>&arenas[i]\<close>.\<close>

definition descriptor_at :: "addr \<Rightarrow> nat \<Rightarrow> addr" where "descriptor_at base i = base + i * SIZEOF_ARNM"

definition belongs_to :: "fixed_arena_pool \<Rightarrow> addr \<Rightarrow> bool" where
  "belongs_to p arena =
    (if arena < fp_arenas p \<or> descriptor_at (fp_arenas p) (fp_count p) \<le> arena then False
     else (arena - fp_arenas p) mod SIZEOF_ARNM = 0)"

definition fixed_forget_everything :: "fixed_arena_pool \<Rightarrow> fixed_arena_pool" where
  "fixed_forget_everything p =
    p\<lparr>fp_arenas := NULL, fp_free_head := NULL, fp_capacity := 0, fp_count := 0, fp_acquired := 0\<rparr>"

definition calculate_total_reserved_memory_size :: "nat \<Rightarrow> nat \<Rightarrow> nat \<Rightarrow> arnm_result \<times> nat" where
  "calculate_total_reserved_memory_size out_size n cap =
    (let descriptors_size = u32 (SIZEOF_ARNM * n)
     in if sub32 ARNM_MAX_ALLOC_SIZE descriptors_size div n < cap then (ARNM_ERROR_ARITHMETIC_OVERFLOW, out_size)
        else (ARNM_SUCCESS, u32 (u32 (SIZEOF_ARNM + cap) * n)))"

text \<open>The loop that makes the descriptors, from the last to the first.\<close>

fun fixed_init_loop :: "addr \<Rightarrow> addr \<Rightarrow> nat \<Rightarrow> nat \<Rightarrow> addr \<Rightarrow> world \<Rightarrow> arnm_result \<times> addr \<times> world" where
  "fixed_init_loop descriptors buffers cap 0 head w = (ARNM_SUCCESS, head, w)"
| "fixed_init_loop descriptors buffers cap (Suc i) head w =
    (let arena = descriptor_at descriptors i; buffer = buffers + i * cap
     in case borrow_at arena buffer cap w of
          (result, w) \<Rightarrow>
            if result \<noteq> ARNM_SUCCESS then (result, head, w)
            else fixed_init_loop descriptors buffers cap i arena (arnm_arena_set_next_free arena head w))"

definition arnm_fixed_arena_pool_init :: "fixed_arena_pool option \<Rightarrow> nat \<Rightarrow> nat \<Rightarrow> addr \<Rightarrow> world \<Rightarrow>
    arnm_result \<times> fixed_arena_pool option \<times> world" where
  "arnm_fixed_arena_pool_init pool cap n source w =
    (if pool = None then (ARNM_ERROR_NULL_POINTER, pool, w)
     else if cap = 0 \<or> n = 0 then (ARNM_ERROR_INVALID_PARAM, pool, w)
     else
       let aligned = arnm_align8_u32 cap
       in if aligned = 0 then (ARNM_ERROR_ARITHMETIC_OVERFLOW, pool, w)
          else case calculate_total_reserved_memory_size 0 n aligned of
            (result, all_bytes) \<Rightarrow>
              if result \<noteq> ARNM_SUCCESS then (result, pool, w)
              else case memory_alloc (Some NULL) all_bytes source w of
                (result, block, w) \<Rightarrow>
                  if result \<noteq> ARNM_SUCCESS then (result, pool, w)
                  else case fixed_init_loop (the block) (the block + buffers_offset n) aligned n NULL w of
                    (result, head, w) \<Rightarrow>
                      if result \<noteq> ARNM_SUCCESS then (result, pool, snd (memory_free (the block) all_bytes source w))
                      else (ARNM_SUCCESS,
                        Some (the pool\<lparr>fp_arenas := the block, fp_free_head := head, fp_capacity := aligned,
                          fp_count := n, fp_acquired := 0\<rparr>), w))"

definition fresh_fixed_pool :: fixed_arena_pool where
  "fresh_fixed_pool = \<lparr>fp_arenas = NULL, fp_free_head = NULL, fp_capacity = 0, fp_count = 0, fp_acquired = 0\<rparr>"

text \<open>\<open>create\<close> returns the address of the object and the object.\<close>

definition arnm_fixed_arena_pool_create :: "nat \<Rightarrow> nat \<Rightarrow> addr \<Rightarrow> addr \<Rightarrow> world \<Rightarrow>
    (addr \<times> fixed_arena_pool) option \<times> world" where
  "arnm_fixed_arena_pool_create cap n source allocator w =
    (case memory_alloc (Some NULL) SIZEOF_FIXED_ARENA_POOL allocator w of
       (result, block, w) \<Rightarrow>
         if result \<noteq> ARNM_SUCCESS then (None, w)
         else case arnm_fixed_arena_pool_init (Some fresh_fixed_pool) cap n source w of
           (result, pool, w) \<Rightarrow>
             if result \<noteq> ARNM_SUCCESS then
               (None, snd (memory_free (the block) SIZEOF_FIXED_ARENA_POOL allocator w))
             else (Some (the block, the pool), w))"

definition arnm_fixed_arena_pool_release :: "fixed_arena_pool option \<Rightarrow> addr \<Rightarrow> world \<Rightarrow>
    arnm_result \<times> fixed_arena_pool option \<times> world" where
  "arnm_fixed_arena_pool_release pool source w =
    (case pool of None \<Rightarrow> (ARNM_ERROR_NULL_POINTER, pool, w)
     | Some p \<Rightarrow>
       if fp_acquired p \<noteq> 0 then (ARNM_ERROR_RESOURCE_IN_USE, pool, w)
       else if fp_arenas p = NULL then (ARNM_SUCCESS, Some (fixed_forget_everything p), w)
       else case calculate_total_reserved_memory_size 0 (fp_count p) (fp_capacity p) of
         (result, all_bytes) \<Rightarrow>
           if result \<noteq> ARNM_SUCCESS then (ARNM_ERROR_INVALID_STATE, pool, w)
           else case memory_free (fp_arenas p) all_bytes source w of
             (result, w) \<Rightarrow> (result, Some (fixed_forget_everything p), w))"

definition arnm_fixed_arena_pool_destroy :: "(addr \<times> fixed_arena_pool) option \<Rightarrow> addr \<Rightarrow> addr \<Rightarrow> world \<Rightarrow>
    arnm_result \<times> (addr \<times> fixed_arena_pool) option \<times> world" where
  "arnm_fixed_arena_pool_destroy pool source allocator w =
    (case pool of None \<Rightarrow> (ARNM_SUCCESS, None, w)
     | Some (a, p) \<Rightarrow>
       (case arnm_fixed_arena_pool_release (Some p) source w of
          (released, p', w) \<Rightarrow>
            if released = ARNM_ERROR_RESOURCE_IN_USE then (released, Some (a, the p'), w)
            else case memory_free a SIZEOF_FIXED_ARENA_POOL allocator w of
              (freed, w) \<Rightarrow> (if released \<noteq> ARNM_SUCCESS then released else freed, None, w)))"

definition arnm_fixed_arena_pool_reserved :: "fixed_arena_pool option \<Rightarrow> nat" where
  "arnm_fixed_arena_pool_reserved pool =
    (case pool of None \<Rightarrow> 0 | Some p \<Rightarrow> if fp_arenas p = NULL then 0 else u32 (fixed_block_bytes pool))"

definition arnm_fixed_arena_pool_available :: "fixed_arena_pool option \<Rightarrow> nat" where
  "arnm_fixed_arena_pool_available pool =
    (case pool of None \<Rightarrow> 0 | Some p \<Rightarrow> u16 (sub32 (fp_count p) (fp_acquired p)))"

text \<open>\<open>out\<close> is the caller's pointer variable, \<open>None\<close> when its address is NULL.\<close>

definition arnm_fixed_arena_pool_alloc :: "fixed_arena_pool option \<Rightarrow> addr option \<Rightarrow> world \<Rightarrow>
    arnm_result \<times> fixed_arena_pool option \<times> addr option" where
  "arnm_fixed_arena_pool_alloc pool out w =
    (case (pool, out) of
       (Some p, Some _) \<Rightarrow>
         if fp_arenas p = NULL then (ARNM_ERROR_NOT_INITIALIZED, pool, out)
         else if fp_free_head p = NULL then (ARNM_ERROR_RESOURCE_EXHAUSTED, pool, out)
         else
           let arena = fp_free_head p
           in (ARNM_SUCCESS,
               Some (p\<lparr>fp_free_head := arnm_arena_next_free arena w, fp_acquired := u16 (fp_acquired p + 1)\<rparr>),
               Some arena)
     | _ \<Rightarrow> (ARNM_ERROR_NULL_POINTER, pool, out))"

definition arnm_fixed_arena_pool_free :: "fixed_arena_pool option \<Rightarrow> addr \<Rightarrow> world \<Rightarrow>
    arnm_result \<times> fixed_arena_pool option \<times> world" where
  "arnm_fixed_arena_pool_free pool arena w =
    (case pool of None \<Rightarrow> (ARNM_ERROR_NULL_POINTER, pool, w)
     | Some p \<Rightarrow>
       if arena = NULL then (ARNM_ERROR_NULL_POINTER, pool, w)
       else if fp_arenas p = NULL then (ARNM_ERROR_NOT_INITIALIZED, pool, w)
       else if \<not> belongs_to p arena then (ARNM_ERROR_INVALID_PARAM, pool, w)
       else if fp_acquired p = 0 then (ARNM_ERROR_INVALID_STATE, pool, w)
       else
         let w = memory_reset arena w;
             w = arnm_arena_set_next_free arena (fp_free_head p) w
         in (ARNM_SUCCESS, Some (p\<lparr>fp_free_head := arena, fp_acquired := fp_acquired p - 1\<rparr>), w))"

section \<open>The invariant\<close>

definition fixed_buffer :: "fixed_arena_pool \<Rightarrow> nat \<Rightarrow> addr" where
  "fixed_buffer p i = fp_arenas p + fp_count p * SIZEOF_ARNM + i * fp_capacity p"

abbreviation fixed_descriptor :: "fixed_arena_pool \<Rightarrow> nat \<Rightarrow> addr" where
  "fixed_descriptor p i \<equiv> descriptor_at (fp_arenas p) i"

definition fixed_shape :: "fixed_arena_pool \<Rightarrow> world \<Rightarrow> bool" where
  "fixed_shape p w \<longleftrightarrow>
    fp_arenas p \<noteq> NULL \<and> fp_arenas p mod 8 = 0 \<and> 0 < fp_capacity p \<and> fp_capacity p mod 8 = 0 \<and> 0 < fp_count p \<and>
    fp_count p \<le> UINT16_MAX \<and> fp_count p * (SIZEOF_ARNM + fp_capacity p) \<le> ARNM_MAX_ALLOC_SIZE \<and>
    fp_arenas p + fp_count p * (SIZEOF_ARNM + fp_capacity p) < ADDRESS_END \<and>
    (\<forall>i<fp_count p. stands w (fixed_descriptor p i) (fixed_buffer p i) (fp_capacity p))"

definition fixed_free_list :: "fixed_arena_pool \<Rightarrow> world \<Rightarrow> addr set \<Rightarrow> addr list \<Rightarrow> bool" where
  "fixed_free_list p w out free \<longleftrightarrow>
    linked (\<lambda>d. data (object_at d w)) (bytes_of w) (fp_free_head p) free \<and> distinct free \<and>
    set free \<inter> out = {} \<and> set free \<union> out = fixed_descriptor p ` {..<fp_count p} \<and> (\<forall>d\<in>set free. unused w d)"

definition fixed_pool_ok :: "fixed_arena_pool \<times> world \<Rightarrow> addr set \<Rightarrow> bool" where
  "fixed_pool_ok = (\<lambda>(p, w) out. fixed_shape p w \<and> (\<exists>free. fixed_free_list p w out free) \<and> fp_acquired p = card out)"


lemma descriptor_at_eq [simp]: "descriptor_at base i = descriptor_at base j \<longleftrightarrow> i = j"
  by (simp add: descriptor_at_def SIZEOF_ARNM_def)

lemma belongs_to_iff: "belongs_to p d \<longleftrightarrow> d \<in> fixed_descriptor p ` {..<fp_count p}"
proof
  assume "belongs_to p d"
  then have d: "fp_arenas p \<le> d" "d < fp_arenas p + fp_count p * SIZEOF_ARNM" "(d - fp_arenas p) mod SIZEOF_ARNM = 0"
    by (auto simp: belongs_to_def descriptor_at_def split: if_splits)
  then obtain k where "d - fp_arenas p = SIZEOF_ARNM * k" by blast
  then have k: "d = descriptor_at (fp_arenas p) k" using d(1) by (simp add: descriptor_at_def mult.commute)
  then have "k < fp_count p" using d(2) by (simp add: descriptor_at_def)
  then show "d \<in> fixed_descriptor p ` {..<fp_count p}" using k by blast
next
  assume "d \<in> fixed_descriptor p ` {..<fp_count p}"
  then show "belongs_to p d" by (auto simp: belongs_to_def descriptor_at_def SIZEOF_ARNM_def)
qed

lemma buffers_apart:
  fixes n :: nat
  assumes "i \<noteq> j" shows "apart (b + i * n) n (b + j * n) n"
proof -
  have "b + k * n + n \<le> b + l * n" if "k < l" for k l
    using mult_le_mono1 [of "Suc k" l n] that by simp
  then show ?thesis using assms by (cases i j rule: linorder_cases) (auto simp: apart_def)
qed

lemma fixed_buffers_apart: "i \<noteq> j \<Longrightarrow> apart (fixed_buffer p i) (fp_capacity p) (fixed_buffer p j) (fp_capacity p)"
  unfolding fixed_buffer_def by (rule buffers_apart)

text \<open>Making the descriptors: the free list is then all of them, in order.\<close>

lemma fixed_init_loop_spec:
  assumes "base \<noteq> NULL" "base mod 8 = 0" "0 < cap" "cap mod 8 = 0" "cap \<le> ARNM_MAX_ALLOC_SIZE"
    and "base + n * (SIZEOF_ARNM + cap) < ADDRESS_END" "k \<le> n"
    and "linked (\<lambda>d. data (object_at d w)) (bytes_of w) head (map (descriptor_at base) [k..<n])"
    and "\<And>i. k \<le> i \<Longrightarrow> i < n \<Longrightarrow> stands w (descriptor_at base i) (base + n * SIZEOF_ARNM + i * cap) cap \<and> unused w (descriptor_at base i)"
  shows "\<exists>head' w'. fixed_init_loop base (base + n * SIZEOF_ARNM) cap k head w = (ARNM_SUCCESS, head', w') \<and>
    linked (\<lambda>d. data (object_at d w')) (bytes_of w') head' (map (descriptor_at base) [0..<n]) \<and>
    (\<forall>i<n. stands w' (descriptor_at base i) (base + n * SIZEOF_ARNM + i * cap) cap \<and> unused w' (descriptor_at base i))"
  using assms(7-)
proof (induction k arbitrary: head w)
  case 0
  then show ?case by auto
next
  case (Suc k)
  let ?d = "descriptor_at base k" and ?b = "\<lambda>i. base + n * SIZEOF_ARNM + i * cap"
  have d: "?d \<noteq> NULL" using assms(1) by (simp add: descriptor_at_def)
  have b: "?b k \<noteq> NULL" "?b k mod 8 = 0" using assms(1,2,4) by (auto simp: mod_add_eq [symmetric] mod_mult_right_eq [symmetric] SIZEOF_ARNM_def)
  have "Suc k * cap \<le> n * cap" using Suc.prems(1) by (rule mult_le_mono1)
  then have e: "?b k + cap < ADDRESS_END" using assms(6) by (simp add: add_mult_distrib2)
  obtain w1 where w1: "borrow_at ?d (?b k) cap w = (ARNM_SUCCESS, w1)" "stands w1 ?d (?b k) cap" "unused w1 ?d"
    "heap w1 = heap w" "\<And>e. e \<noteq> ?d \<Longrightarrow> handles w1 e = handles w e" "\<And>e. e \<noteq> ?d \<Longrightarrow> chains w1 e = chains w e"
    using borrow_at_ok [OF d b(1,2) assms(3,4,5) e] by metis
  let ?w = "arnm_arena_set_next_free ?d head w1"
  have o: "object_at (descriptor_at base i) w1 = object_at (descriptor_at base i) w" if "i \<noteq> k" for i
    using w1(5) that by (simp add: object_at_def intern_of_def)
  have st: "stands ?w (descriptor_at base i) (?b i) cap \<and> unused ?w (descriptor_at base i)" if "k \<le> i" "i < n" for i
  proof (cases "i = k")
    case True
    then show ?thesis using w1(2,3) by (simp add: stands_def unused_def)
  next
    case False
    then have "stands w (descriptor_at base i) (?b i) cap" "unused w (descriptor_at base i)"
      using Suc.prems(3) that by simp_all
    then show ?thesis using False w1(5,6) o by (simp add: stands_def unused_def)
  qed
  have slot: "data (object_at (descriptor_at base i) w1) = ?b i" if "k \<le> i" "i < n" for i
    using st [OF that] by (simp add: stands_def)
  have head: "head < ADDRESS_END"
  proof (cases "Suc k < n")
    case True
    then have "head = descriptor_at base (Suc k)" using Suc.prems(2) by (simp add: upt_rec)
    moreover have "Suc k * SIZEOF_ARNM \<le> n * (SIZEOF_ARNM + cap)" using True by (intro mult_le_mono) simp_all
    ultimately show ?thesis using assms(6) by (simp add: descriptor_at_def)
  next
    case False
    then show ?thesis using Suc.prems(1,2) by simp
  qed
  have "linked (\<lambda>d. data (object_at d w1)) (bytes_of w1) head (map (descriptor_at base) [Suc k..<n])"
  proof (subst linked_cong [of _ _ _ "bytes_of w" "\<lambda>d. data (object_at d w)"])
    show "data (object_at x w1) = data (object_at x w)" if "x \<in> set (map (descriptor_at base) [Suc k..<n])" for x
      using that o by auto
  qed (use w1(4) Suc.prems(2) in simp_all)
  then have "linked (\<lambda>d. data (object_at d w1)) (store_ptr (bytes_of w1) (data (object_at ?d w1)) head) ?d
      (?d # map (descriptor_at base) [Suc k..<n])"
  proof (rule linked_push [OF _ d head])
    fix y assume "y \<in> set (map (descriptor_at base) [Suc k..<n])"
    then obtain i where i: "y = descriptor_at base i" "Suc k \<le> i" "i < n" by auto
    have "8 \<le> cap" using assms(3,4) by (cases "cap < 8") auto
    then show "apart (data (object_at ?d w1)) 8 (data (object_at y w1)) 8"
      using buffers_apart [of k i "base + n * SIZEOF_ARNM" cap] i Suc.prems(1) slot [of k] slot [of i]
      by (auto simp: apart_def)
  qed
  moreover have "[k..<n] = k # [Suc k..<n]" using Suc.prems(1) by (simp add: upt_rec)
  ultimately have "linked (\<lambda>d. data (object_at d ?w)) (bytes_of ?w) ?d (map (descriptor_at base) [k..<n])" by simp
  from Suc.IH [OF _ this st] show ?case using Suc.prems(1) w1(1) by (simp add: Let_def)
qed

text \<open>The sizes add up without wrapping, or the pool is refused.\<close>

lemma total_size:
  assumes "0 < n" "n \<le> UINT16_MAX"
  shows "calculate_total_reserved_memory_size out n cap =
    (if n * (SIZEOF_ARNM + cap) \<le> ARNM_MAX_ALLOC_SIZE then (ARNM_SUCCESS, n * (SIZEOF_ARNM + cap))
     else (ARNM_ERROR_ARITHMETIC_OVERFLOW, out))"
proof -
  have n: "SIZEOF_ARNM * n \<le> ARNM_MAX_ALLOC_SIZE" "u32 (SIZEOF_ARNM * n) = SIZEOF_ARNM * n"
    using assms(2) by (simp_all add: SIZEOF_ARNM_def UINT16_MAX_def ARNM_MAX_ALLOC_SIZE_def UINT32_MAX_def u32_def)
  have "sub32 ARNM_MAX_ALLOC_SIZE (SIZEOF_ARNM * n) = ARNM_MAX_ALLOC_SIZE - SIZEOF_ARNM * n"
    using n(1) by (intro sub32_id) (simp_all add: ARNM_MAX_ALLOC_SIZE_def)
  moreover have "(ARNM_MAX_ALLOC_SIZE - SIZEOF_ARNM * n) div n < cap \<longleftrightarrow> \<not> n * (SIZEOF_ARNM + cap) \<le> ARNM_MAX_ALLOC_SIZE"
    using assms(1) n(1) by (simp add: div_less_iff_less_mult add_mult_distrib2 mult.commute) linarith
  moreover have "u32 (u32 (SIZEOF_ARNM + cap) * n) = n * (SIZEOF_ARNM + cap)" if "n * (SIZEOF_ARNM + cap) \<le> ARNM_MAX_ALLOC_SIZE"
  proof -
    have "SIZEOF_ARNM + cap \<le> n * (SIZEOF_ARNM + cap)" using mult_le_mono1 [of 1 n "SIZEOF_ARNM + cap"] assms(1) by simp
    moreover have b: "n * (SIZEOF_ARNM + cap) \<le> UINT32_MAX"
      using that unfolding ARNM_MAX_ALLOC_SIZE_def by (rule order_trans) simp
    ultimately have "SIZEOF_ARNM + cap \<le> UINT32_MAX" by (rule order_trans)
    then have "u32 (SIZEOF_ARNM + cap) = SIZEOF_ARNM + cap" by (rule u32_id)
    moreover have "u32 (n * (SIZEOF_ARNM + cap)) = n * (SIZEOF_ARNM + cap)" using b by (rule u32_id)
    ultimately show ?thesis by (simp add: mult.commute)
  qed
  ultimately show ?thesis using n(2) by (simp add: calculate_total_reserved_memory_size_def Let_def)
qed

text \<open>What \<open>init\<close> makes: a pool in order, all of it free.\<close>

lemma fixed_init_makes:
  assumes "memory_sound source w" "0 < cap" "0 < n" "n \<le> UINT16_MAX" "cap \<le> ARNM_MAX_ALLOC_SIZE"
    and "n * (SIZEOF_ARNM + ARNM_ALIGN8 cap) \<le> ARNM_MAX_ALLOC_SIZE"
    and "memory_alloc (Some NULL) (n * (SIZEOF_ARNM + ARNM_ALIGN8 cap)) source w = (ARNM_SUCCESS, block, w1)"
  shows "\<exists>q w'. arnm_fixed_arena_pool_init (Some p) cap n source w = (ARNM_SUCCESS, Some q, w') \<and>
    fixed_pool_ok (q, w') {} \<and> fp_count q = n \<and> fp_capacity q = ARNM_ALIGN8 cap"
proof -
  define c where "c = ARNM_ALIGN8 cap"
  define T where "T = n * (SIZEOF_ARNM + c)"
  have u: "arnm_align8_u32 cap = c" using assms(5) by (simp add: arnm_align8_u32_def c_def)
  have c: "0 < c" "c mod 8 = 0" "c \<le> ARNM_MAX_ALLOC_SIZE"
    using align8_bounds [of cap] assms(2) align8_u32_bound [of cap] u by (simp_all add: c_def ARNM_MAX_ALLOC_SIZE_def)
  have T: "0 < T" "T \<le> ARNM_MAX_ALLOC_SIZE" using assms(3,6) by (simp_all add: T_def c_def)
  have a: "memory_alloc (Some NULL) T source w = (ARNM_SUCCESS, block, w1)" using assms(7) by (simp add: T_def c_def)
  then have "op_alloc (memory_ops source) T w = (ARNM_SUCCESS, the block, w1)" by (simp add: memory_ops_def)
  from memory.alloc_law [OF assms(1) T(1) this]
  have "memory_sound source w1" "memory_owns source w1 (the block) T" by simp_all
  from memory.owned [OF this] have b: "the block \<noteq> NULL" "the block mod 8 = 0" "the block + T < ADDRESS_END" by simp_all
  obtain head w2 where l: "fixed_init_loop (the block) (the block + n * SIZEOF_ARNM) c n NULL w1 = (ARNM_SUCCESS, head, w2)"
    "linked (\<lambda>d. data (object_at d w2)) (bytes_of w2) head (map (descriptor_at (the block)) [0..<n])"
    "\<forall>i<n. stands w2 (descriptor_at (the block) i) (the block + n * SIZEOF_ARNM + i * c) c \<and>
      unused w2 (descriptor_at (the block) i)"
    using fixed_init_loop_spec [OF b(1,2) c b(3) [unfolded T_def] order_refl, of w1 NULL] by auto
  let ?q = "p\<lparr>fp_arenas := the block, fp_free_head := head, fp_capacity := c, fp_count := n, fp_acquired := 0\<rparr>"
  have "arnm_fixed_arena_pool_init (Some p) cap n source w = (ARNM_SUCCESS, Some ?q, w2)"
    using assms(2,3) u c(1) T(2) total_size [OF assms(3,4), of 0 c] a l(1)
    by (simp add: arnm_fixed_arena_pool_init_def Let_def T_def [symmetric] buffers_offset_def)
  moreover have "fixed_shape ?q w2"
    using b c assms(3,4) T l(3) by (simp add: fixed_shape_def T_def fixed_buffer_def)
  moreover have "fixed_free_list ?q w2 {} (map (descriptor_at (the block)) [0..<n])"
    using l(2,3) by (auto simp: fixed_free_list_def distinct_map inj_on_def)
  ultimately show ?thesis by (auto simp: fixed_pool_ok_def c_def)
qed

lemma fixed_init_ok:
  assumes "memory_sound source w" "n \<le> UINT16_MAX"
    and "arnm_fixed_arena_pool_init (Some p) cap n source w = (ARNM_SUCCESS, pool, w')"
  shows "\<exists>q. pool = Some q \<and> fixed_pool_ok (q, w') {} \<and> fp_count q = n \<and> fp_capacity q = ARNM_ALIGN8 cap"
proof -
  have cn: "0 < cap" "0 < n" using assms(3) by (auto simp: arnm_fixed_arena_pool_init_def split: if_splits)
  have c: "cap \<le> ARNM_MAX_ALLOC_SIZE"
    using assms(3) cn by (auto simp: arnm_fixed_arena_pool_init_def Let_def arnm_align8_u32_def split: if_splits)
  then have u: "arnm_align8_u32 cap = ARNM_ALIGN8 cap" "ARNM_ALIGN8 cap \<noteq> 0"
    using align8_bounds [of cap] cn by (auto simp: arnm_align8_u32_def)
  have fits: "n * (SIZEOF_ARNM + ARNM_ALIGN8 cap) \<le> ARNM_MAX_ALLOC_SIZE"
    using assms(3) cn u total_size [OF cn(2) assms(2)]
    by (auto simp: arnm_fixed_arena_pool_init_def Let_def split: if_splits)
  obtain r1 block w1 where a: "memory_alloc (Some NULL) (n * (SIZEOF_ARNM + ARNM_ALIGN8 cap)) source w = (r1, block, w1)"
    by (metis prod_cases3)
  have r1: "r1 = ARNM_SUCCESS"
    using assms(3) cn u fits total_size [OF cn(2) assms(2), of 0 "ARNM_ALIGN8 cap"] a
    by (auto simp: arnm_fixed_arena_pool_init_def Let_def split: if_splits)
  show ?thesis
    using fixed_init_makes [OF assms(1) cn assms(2) c fits a [unfolded r1], of p] assms(3) by auto
qed

lemma fixed_shape_cong:
  assumes "\<And>i. i < fp_count p \<Longrightarrow> stands w' (fixed_descriptor p i) (fixed_buffer p i) (fp_capacity p)"
  shows "fixed_shape p w \<Longrightarrow> fixed_shape p w'"
  using assms by (simp add: fixed_shape_def)

lemma fixed_descriptor_bound:
  assumes "fixed_shape p w" "i < fp_count p"
  shows "fixed_descriptor p i < ADDRESS_END" "fixed_descriptor p i \<noteq> NULL"
proof -
  have "i * SIZEOF_ARNM \<le> fp_count p * (SIZEOF_ARNM + fp_capacity p)" using assms(2) by (intro mult_le_mono) simp_all
  then show "fixed_descriptor p i < ADDRESS_END" using assms(1) by (simp add: fixed_shape_def descriptor_at_def)
  show "fixed_descriptor p i \<noteq> NULL" using assms(1) by (simp add: fixed_shape_def descriptor_at_def)
qed

lemma fixed_card:
  assumes "fixed_free_list p w out free"
  shows "finite out" "card out + length free = fp_count p"
proof -
  have u: "set free \<union> out = fixed_descriptor p ` {..<fp_count p}" and d: "distinct free" "set free \<inter> out = {}"
    using assms by (simp_all add: fixed_free_list_def)
  have "finite (set free \<union> out)" unfolding u by simp
  then show "finite out" by simp
  then have "card (set free \<union> out) = length free + card out"
    using d by (simp add: card_Un_disjoint distinct_card)
  moreover have "card (fixed_descriptor p ` {..<fp_count p}) = fp_count p"
    by (simp add: card_image inj_on_def)
  ultimately show "card out + length free = fp_count p" using u by simp
qed

text \<open>Taking an arena: the head of the free list, or an error when there is none.\<close>

lemma fixed_alloc_spec:
  assumes "fixed_shape p w" "fixed_free_list p w out free" "fp_acquired p = card out"
  shows "arnm_fixed_arena_pool_alloc (Some p) (Some old) w =
    (case free of [] \<Rightarrow> (ARNM_ERROR_RESOURCE_EXHAUSTED, Some p, Some old)
     | d # rest \<Rightarrow> (ARNM_SUCCESS,
         Some (p\<lparr>fp_free_head := arnm_arena_next_free d w, fp_acquired := card out + 1\<rparr>), Some d))"
proof (cases free)
  case Nil
  then show ?thesis
    using assms by (auto simp: arnm_fixed_arena_pool_alloc_def fixed_shape_def fixed_free_list_def)
next
  case (Cons d rest)
  have "card out + 1 < 65536" using fixed_card [OF assms(2)] assms(1) Cons by (simp add: fixed_shape_def UINT16_MAX_def)
  then show ?thesis
    using assms Cons by (auto simp: arnm_fixed_arena_pool_alloc_def fixed_shape_def fixed_free_list_def Let_def)
qed

lemma fixed_alloc_ok:
  assumes "fixed_shape p w" "fixed_free_list p w out (d # rest)" "fp_acquired p = card out"
  shows "fixed_pool_ok (p\<lparr>fp_free_head := arnm_arena_next_free d w, fp_acquired := card out + 1\<rparr>, w) (insert d out) \<and>
    d \<notin> out \<and> empty_arena (object_at d w)"
proof -
  let ?q = "p\<lparr>fp_free_head := arnm_arena_next_free d w, fp_acquired := card out + 1\<rparr>"
  have f: "d \<notin> out" "d \<notin> set rest" "distinct rest" "insert d (set rest) \<union> out = fixed_descriptor p ` {..<fp_count p}"
    "unused w d" "\<forall>e\<in>set rest. unused w e" "set rest \<inter> out = {}"
    "linked (\<lambda>d. data (object_at d w)) (bytes_of w) (arnm_arena_next_free d w) rest"
    using assms(2) by (auto simp: fixed_free_list_def arnm_arena_next_free_def arnm_arena_link_slot_def)
  have "fixed_free_list ?q w (insert d out) rest" using f by (auto simp: fixed_free_list_def)
  moreover have "fixed_shape ?q w" using assms(1) by (simp add: fixed_shape_def fixed_buffer_def)
  moreover have "card (insert d out) = card out + 1" using f(1) fixed_card(1) [OF assms(2)] by simp
  moreover obtain i where "i < fp_count p" "d = fixed_descriptor p i" using f(4) by blast
  then have "empty_arena (object_at d w)"
    using assms(1) f(5) by (auto simp: fixed_shape_def empty_arena_def stands_def unused_def descriptor_ok_def)
  ultimately show ?thesis using f(1) by (auto simp: fixed_pool_ok_def)
qed

lemma fixed_member:
  assumes "fixed_pool_ok (p, w) out" "d \<in> out"
  obtains i where "i < fp_count p" "d = fixed_descriptor p i" "stands w d (fixed_buffer p i) (fp_capacity p)"
proof -
  have "d \<in> fixed_descriptor p ` {..<fp_count p}" using assms unfolding fixed_pool_ok_def fixed_free_list_def by blast
  then obtain i where "i < fp_count p" "d = fixed_descriptor p i" by blast
  then show thesis using assms(1) by (intro that [of i]) (auto simp: fixed_pool_ok_def fixed_shape_def)
qed

lemma fixed_slots_apart:
  assumes "fixed_shape p w" "i < fp_count p" "j < fp_count p" "i \<noteq> j"
  shows "apart (fixed_buffer p i) 8 (fixed_buffer p j) (fp_capacity p)" "apart (fixed_buffer p i) 8 (fixed_buffer p j) 8"
proof -
  have "8 \<le> fp_capacity p" using assms(1) by (cases "fp_capacity p < 8") (auto simp: fixed_shape_def)
  then show "apart (fixed_buffer p i) 8 (fixed_buffer p j) (fp_capacity p)" "apart (fixed_buffer p i) 8 (fixed_buffer p j) 8"
    using fixed_buffers_apart [OF assms(4), of p] by (auto simp: apart_def)
qed

lemma fixed_free_ok:
  assumes "fixed_pool_ok (p, w) out" "d \<in> out"
  shows "\<exists>q w'. arnm_fixed_arena_pool_free (Some p) d w = (ARNM_SUCCESS, Some q, w') \<and> fixed_pool_ok (q, w') (out - {d}) \<and>
    (\<forall>e\<in>out - {d}. object_at e w' = object_at e w \<and>
      rd (bytes_of w') (data (object_at e w)) (capacity (object_at e w)) =
      rd (bytes_of w) (data (object_at e w)) (capacity (object_at e w)))"
proof -
  obtain free where sh: "fixed_shape p w" and fl: "fixed_free_list p w out free" and ac: "fp_acquired p = card out"
    using assms(1) by (auto simp: fixed_pool_ok_def)
  obtain i where i: "i < fp_count p" "d = fixed_descriptor p i" "stands w d (fixed_buffer p i) (fp_capacity p)"
    using fixed_member [OF assms] by metis
  note card = fixed_card [OF fl]
  have pos: "card out \<noteq> 0" using card(1) assms(2) by auto
  have d0: "d \<noteq> NULL" using fixed_descriptor_bound [OF sh i(1)] i(2) by simp
  obtain w1 where w1: "memory_reset d w = w1" "stands w1 d (fixed_buffer p i) (fp_capacity p)" "unused w1 d"
    "heap w1 = heap w" "\<And>e. e \<noteq> d \<Longrightarrow> handles w1 e = handles w e" "chains w1 = chains w"
    using memory_reset_stands [OF i(3)] by metis
  let ?w = "arnm_arena_set_next_free d (fp_free_head p) w1"
  let ?q = "p\<lparr>fp_free_head := d, fp_acquired := card out - 1\<rparr>"
  have o: "object_at e w1 = object_at e w" if "e \<noteq> d" for e using w1(5) that by (simp add: object_at_def intern_of_def)
  have slot: "data (object_at d w1) = fixed_buffer p i" using w1(2) by (simp add: stands_def)
  have res: "arnm_fixed_arena_pool_free (Some p) d w = (ARNM_SUCCESS, Some ?q, ?w)"
    using sh d0 i(1,2) ac pos w1(1) belongs_to_iff [of p d]
    by (auto simp: arnm_fixed_arena_pool_free_def Let_def fixed_shape_def)
  have shape: "fixed_shape ?q ?w"
  proof -
    have "stands ?w (fixed_descriptor p j) (fixed_buffer p j) (fp_capacity p)" if j: "j < fp_count p" for j
    proof (cases "j = i")
      case True
      then show ?thesis using w1(2) i(2) by (simp add: stands_def)
    next
      case False
      then have "fixed_descriptor p j \<noteq> d" using i(2) by simp
      then show ?thesis using sh j o w1(5,6) by (simp add: fixed_shape_def stands_def)
    qed
    then show ?thesis using fixed_shape_cong [OF _ sh, of ?w] by (simp add: fixed_shape_def fixed_buffer_def)
  qed
  have free: "d \<notin> set free" "set free \<union> out = fixed_descriptor p ` {..<fp_count p}" "set free \<inter> out = {}"
    "distinct free" "\<forall>e\<in>set free. unused w e" "linked (\<lambda>d. data (object_at d w)) (bytes_of w) (fp_free_head p) free"
    using fl assms(2) by (auto simp: fixed_free_list_def)
  have list: "fixed_free_list ?q ?w (out - {d}) (d # free)"
  proof -
    have "linked (\<lambda>d. data (object_at d w1)) (bytes_of w1) (fp_free_head p) free"
    proof (subst linked_cong [of _ _ _ "bytes_of w" "\<lambda>d. data (object_at d w)"])
      show "data (object_at x w1) = data (object_at x w)" if "x \<in> set free" for x using that o free(1) by metis
    qed (use w1(4) free(6) in simp_all)
    then have "linked (\<lambda>d. data (object_at d w1)) (store_ptr (bytes_of w1) (data (object_at d w1)) (fp_free_head p)) d (d # free)"
    proof (rule linked_push [OF _ d0])
      show "fp_free_head p < ADDRESS_END"
      proof (cases free)
        case (Cons x xs)
        then have "x \<in> fixed_descriptor p ` {..<fp_count p}" using free(2) by auto
        then show ?thesis using fixed_descriptor_bound(1) [OF sh] Cons free(6) by auto
      qed (use free(6) in simp)
      fix y assume y: "y \<in> set free"
      then obtain j where j: "j < fp_count p" "y = fixed_descriptor p j" using free(2) by blast
      have yd: "y \<noteq> d" using y free(1) by blast
      then have "j \<noteq> i" using j i(2) by auto
      moreover have "data (object_at y w1) = fixed_buffer p j"
        using o [of y] yd sh j by (simp add: fixed_shape_def stands_def)
      ultimately show "apart (data (object_at d w1)) 8 (data (object_at y w1)) 8"
        using fixed_slots_apart(2) [OF sh i(1) j(1)] slot by simp
    qed
    moreover have "unused ?w e" if e: "e \<in> set free" for e
    proof -
      have "e \<noteq> d" using e free(1) by blast
      then show ?thesis using e free(5) o [of e] by (simp add: unused_def)
    qed
    ultimately show ?thesis
      using free w1(3) assms(2) by (auto simp: fixed_free_list_def unused_def)
  qed
  have keep: "object_at e ?w = object_at e w \<and> rd (bytes_of ?w) (data (object_at e w)) (capacity (object_at e w)) =
      rd (bytes_of w) (data (object_at e w)) (capacity (object_at e w))" if e: "e \<in> out - {d}" for e
  proof -
    have "e \<in> out" using e by blast
    from fixed_member [OF assms(1) this]
    obtain j where j: "j < fp_count p" "e = fixed_descriptor p j" "stands w e (fixed_buffer p j) (fp_capacity p)" .
    then have "i \<noteq> j" using e i(2) by auto
    from fixed_slots_apart(1) [OF sh i(1) j(1) this]
    have "rd (bytes_of ?w) (fixed_buffer p j) (fp_capacity p) = rd (bytes_of w) (fixed_buffer p j) (fp_capacity p)"
      using w1(4) slot by (simp add: store_ptr_def rd_wr_apart apart_def disj_commute)
    then show ?thesis using j(3) o e by (simp add: stands_def)
  qed
  have "card (out - {d}) = card out - 1" using card(1) assms(2) by simp
  then have "fixed_pool_ok (?q, ?w) (out - {d})" using shape list by (auto simp: fixed_pool_ok_def)
  then show ?thesis using res keep by blast
qed

section \<open>The pool keeps the contract\<close>

definition fixed_pool_ops :: "(fixed_arena_pool \<times> world) pool_ops" where
  "fixed_pool_ops =
    \<lparr>po_take = (\<lambda>n (p, w). case arnm_fixed_arena_pool_alloc (Some p) (Some NULL) w of
        (r, q, out) \<Rightarrow> (r, the out, (the q, w))),
     po_give = (\<lambda>d (p, w). case arnm_fixed_arena_pool_free (Some p) d w of (r, q, w) \<Rightarrow> (r, (the q, w))),
     po_mem = (\<lambda>(p, w). bytes_of w),
     po_set_mem = (\<lambda>m (p, w). (p, set_bytes m w)),
     po_arena = (\<lambda>d (p, w). object_at d w),
     po_set_arena = (\<lambda>d a (p, w). (p, set_handle d a w))\<rparr>"

lemma fixed_pool_ops_simps [simp]:
  "po_mem fixed_pool_ops (p, w) = bytes_of w" "po_set_mem fixed_pool_ops m (p, w) = (p, set_bytes m w)"
  "po_arena fixed_pool_ops d (p, w) = object_at d w" "po_set_arena fixed_pool_ops d a (p, w) = (p, set_handle d a w)"
  by (simp_all add: fixed_pool_ops_def)

lemma fixed_set_ok:
  assumes "fixed_pool_ok (p, w) out" "d \<in> out"
    and "\<And>x. x \<notin> region (data (object_at d w)) (capacity (object_at d w)) \<Longrightarrow> m x = bytes_of w x"
  shows "fixed_pool_ok (p, set_bytes m w) out"
proof -
  obtain free where sh: "fixed_shape p w" and fl: "fixed_free_list p w out free" and ac: "fp_acquired p = card out"
    using assms(1) by (auto simp: fixed_pool_ok_def)
  obtain i where i: "i < fp_count p" "d = fixed_descriptor p i" "stands w d (fixed_buffer p i) (fp_capacity p)"
    using fixed_member [OF assms(1,2)] by metis
  have "linked (\<lambda>d. data (object_at d w)) m (fp_free_head p) free"
  proof (subst linked_cong [of _ _ _ "bytes_of w" "\<lambda>d. data (object_at d w)"])
    fix x a assume x: "x \<in> set free" "a \<in> region (data (object_at x w)) 8"
    then have "x \<in> fixed_descriptor p ` {..<fp_count p}" "x \<noteq> d" using fl assms(2) by (auto simp: fixed_free_list_def)
    then obtain j where j: "j < fp_count p" "x = fixed_descriptor p j" "j \<noteq> i" using i(2) by auto
    then have "a \<in> region (fixed_buffer p j) 8" using x(2) sh by (simp add: fixed_shape_def stands_def)
    then show "m a = bytes_of w a"
      using assms(3) [of a] i(3) fixed_slots_apart(1) [OF sh j(1) i(1) j(3)] by (auto simp: stands_def apart_def)
  qed (use fl in \<open>simp_all add: fixed_free_list_def\<close>)
  then have "fixed_free_list p (set_bytes m w) out free" using fl by (simp add: fixed_free_list_def unused_def)
  moreover have "fixed_shape p (set_bytes m w)" using sh by (simp add: fixed_shape_def)
  ultimately show ?thesis using ac by (auto simp: fixed_pool_ok_def)
qed

lemma fixed_use_ok:
  assumes "fixed_pool_ok (p, w) out" "d \<in> out" "arena_ok a"
    and "a\<lparr>last_index := l, out_of_memory_capacity := k\<rparr> = object_at d w"
  shows "fixed_pool_ok (p, set_handle d a w) out"
proof -
  obtain free where sh: "fixed_shape p w" and fl: "fixed_free_list p w out free" and ac: "fp_acquired p = card out"
    using assms(1) by (auto simp: fixed_pool_ok_def)
  obtain i where i: "i < fp_count p" "d = fixed_descriptor p i" "stands w d (fixed_buffer p i) (fp_capacity p)"
    using fixed_member [OF assms(1,2)] by metis
  have d: "d \<noteq> NULL" "d \<notin> set free" using i(3) fl assms(2) by (auto simp: stands_def fixed_free_list_def)
  have same: "data a = data (object_at d w)" "capacity a = capacity (object_at d w)"
    "allocation_type a = allocation_type (object_at d w)"
    unfolding assms(4) [symmetric] by simp_all
  have slot: "data (object_at e (set_handle d a w)) = data (object_at e w)" for e
    using d(1) same(1) by (cases "e = d") simp_all
  have "stands (set_handle d a w) d (fixed_buffer p i) (fp_capacity p)"
    using i(3) d(1) same assms(3) by (simp add: stands_def descriptor_ok_def) (simp add: set_handle_def)
  moreover have "stands (set_handle d a w) e b n = stands w e b n" if "e \<noteq> d" for e b n
    by (rule stands_cong) (use that in \<open>simp_all add: set_handle_def\<close>)
  ultimately have "fixed_shape p (set_handle d a w)"
    using i(1,2) by (intro fixed_shape_cong [OF _ sh]) (metis sh fixed_shape_def descriptor_at_eq)
  moreover have "unused (set_handle d a w) e" if "e \<in> set free" for e
  proof -
    have "e \<noteq> d" using that d(2) by blast
    then show ?thesis using that fl by (simp add: unused_def fixed_free_list_def)
  qed
  then have "fixed_free_list p (set_handle d a w) out free"
    using fl by (simp add: fixed_free_list_def slot)
  ultimately show ?thesis using ac by (auto simp: fixed_pool_ok_def)
qed

interpretation fixed_pool: arena_pool fixed_pool_ops fixed_pool_ok
proof (unfold_locales, goal_cases)
  case (1 s out d e)
  obtain p w where s: "s = (p, w)" by fastforce
  obtain i j where "d = fixed_descriptor p i" "stands w d (fixed_buffer p i) (fp_capacity p)"
    "e = fixed_descriptor p j" "stands w e (fixed_buffer p j) (fp_capacity p)"
    using fixed_member 1 s by metis
  then show ?case using 1(4) fixed_buffers_apart [of i j p] s by (auto simp: stands_def)
next
  case (2 s out n r d s')
  obtain p w where s: "s = (p, w)" by fastforce
  obtain free where f: "fixed_shape p w" "fixed_free_list p w out free" "fp_acquired p = card out"
    using 2(1) s by (auto simp: fixed_pool_ok_def)
  note spec = fixed_alloc_spec [OF f, of NULL]
  show ?case
  proof (cases free)
    case Nil
    then show ?thesis using 2 spec s by (auto simp: fixed_pool_ops_def)
  next
    case (Cons a rest)
    then show ?thesis using 2 spec s fixed_alloc_ok [OF f(1) f(2) [unfolded Cons] f(3)] by (auto simp: fixed_pool_ops_def)
  qed
next
  case (3 s out d r s')
  obtain p w where s: "s = (p, w)" by fastforce
  show ?case using fixed_free_ok [of p w out d] 3 s by (auto simp: fixed_pool_ops_def)
next
  case (4 s out d m)
  obtain p w where s: "s = (p, w)" by fastforce
  show ?case using 4 unfolding s fixed_pool_ops_simps by (rule fixed_set_ok)
next
  case (5 s out d a l k)
  obtain p w where s: "s = (p, w)" by fastforce
  then have "d \<noteq> NULL" using fixed_member [of p w out d] 5(1,2) by (metis stands_def)
  then show ?case using 5 s fixed_use_ok [of p w out d a l k] by simp
next
  case (6 d e a s)
  then show ?case by (cases s) simp
next
  case (7 d a s)
  then show ?case by (cases s) simp
next
  case (8 s out d)
  obtain p w where s: "s = (p, w)" by fastforce
  then show ?case using fixed_member [of p w out d] 8 by (metis stands_def fixed_pool_ops_simps(3))
next
  case (9 m s)
  then show ?case by (cases s) simp
next
  case (10 e m s)
  then show ?case by (cases s) simp
qed

lemma fixed_step_count: "fp_count (fst (fst (pool_step fixed_pool_ops c x))) = fp_count (fst (fst x))"
proof -
  obtain p w held where x: "x = ((p, w), held)" by (metis prod.exhaust)
  have alloc: "fp_count (the q) = fp_count p" if "arnm_fixed_arena_pool_alloc (Some p) (Some old) w = (r, q, out)" for r q out old
    using that by (auto simp: arnm_fixed_arena_pool_alloc_def Let_def split: if_splits)
  have free: "fp_count (the q) = fp_count p" if "arnm_fixed_arena_pool_free (Some p) d w = (r, q, w')" for r q d w'
    using that by (auto simp: arnm_fixed_arena_pool_free_def Let_def split: if_splits)
  show ?thesis
    by (cases c) (auto simp: x fixed_pool_ops_def alloc free split: prod.split)
qed

lemma fixed_run_count:
  "pool_run fixed_pool_ops reqs ((p, w), held) = ((q, w'), held') \<Longrightarrow> fp_count q = fp_count p"
proof (induction reqs arbitrary: p w held)
  case (Cons c reqs)
  obtain p1 w1 held1 where s: "pool_step fixed_pool_ops c ((p, w), held) = ((p1, w1), held1)" by (metis prod.exhaust)
  then have "fp_count p1 = fp_count p" using fixed_step_count [of c "((p, w), held)"] by simp
  then show ?case using Cons.IH [of p1 w1 held1] Cons.prems s by (simp add: pool_run_def)
qed (simp add: pool_run_def)

text \<open>C20: A program that takes arenas from a fresh pool of \<open>n\<close>, allocates from them, writes into their
  buffers and gives them back in any order finds in every buffer it holds what it wrote there, no two
  of those buffers overlap, the pool counts the arenas that are left, and a take fails exactly when
  all of them are taken.
\<close>

theorem fixed_pool_serves:
  assumes "memory_sound source w" "n \<le> UINT16_MAX"
    and "arnm_fixed_arena_pool_init (Some p) cap n source w = (ARNM_SUCCESS, Some q, w1)"
    and "pool_run fixed_pool_ops reqs ((q, w1), []) = ((q', w'), held)"
  shows "holds fixed_pool_ops (q', w') held \<and>
    sorted_wrt (\<lambda>(d, bs) (e, cs). apart (data (object_at d w')) (length bs) (data (object_at e w')) (length cs)) held \<and>
    length held \<le> n \<and> arnm_fixed_arena_pool_available (Some q') = n - length held \<and>
    arnm_fixed_arena_pool_alloc (Some q') (Some NULL) w' =
      (if length held = n then (ARNM_ERROR_RESOURCE_EXHAUSTED, Some q', Some NULL)
       else (ARNM_SUCCESS, Some (q'\<lparr>fp_free_head := arnm_arena_next_free (fp_free_head q') w',
         fp_acquired := length held + 1\<rparr>), Some (fp_free_head q')))"
proof -
  have q: "fixed_pool_ok (q, w1) {}" "fp_count q = n" using fixed_init_ok [OF assms(1-3)] by auto
  note owed = fixed_pool.client_owed [OF q(1) assms(4)]
  then have ok: "fixed_pool_ok (q', w') (fst ` set held)" and h: "holds fixed_pool_ops (q', w') held" by simp_all
  then obtain free where f: "fixed_shape q' w'" "fixed_free_list q' w' (fst ` set held) free"
    "fp_acquired q' = card (fst ` set held)" by (auto simp: fixed_pool_ok_def)
  have n: "fp_count q' = n" using fixed_run_count [OF assms(4)] q(2) by simp
  have c: "card (fst ` set held) = length held"
    using h distinct_card [of "map fst held"] by (simp add: holds_def)
  have len: "length held + length free = n" using fixed_card(2) [OF f(2)] c n by simp
  have "fp_free_head q' = hd free" if "free \<noteq> []" using f(2) that by (cases free) (auto simp: fixed_free_list_def)
  then have "arnm_fixed_arena_pool_alloc (Some q') (Some NULL) w' =
      (if length held = n then (ARNM_ERROR_RESOURCE_EXHAUSTED, Some q', Some NULL)
       else (ARNM_SUCCESS, Some (q'\<lparr>fp_free_head := arnm_arena_next_free (fp_free_head q') w',
         fp_acquired := length held + 1\<rparr>), Some (fp_free_head q')))"
    using fixed_alloc_spec [OF f, of NULL] len c by (cases free) auto
  moreover have "arnm_fixed_arena_pool_available (Some q') = n - length held"
    using n f(3) c len assms(2) by (simp add: arnm_fixed_arena_pool_available_def UINT16_MAX_def UINT32_MAX_def)
  ultimately show ?thesis using owed len by simp
qed

lemma fixed_pool_serves_witness:
  "\<exists>q w1 q' w' held. arnm_fixed_arena_pool_init (Some fresh_fixed_pool) 10 3 NULL sample_host = (ARNM_SUCCESS, Some q, w1) \<and>
    pool_run fixed_pool_ops [PR_Take 0, PR_Take 0, PR_Write 0 9 7, PR_Alloc 1 10, PR_Give 0] ((q, w1), []) = ((q', w'), held) \<and>
    holds fixed_pool_ops (q', w') held \<and> arnm_fixed_arena_pool_available (Some q') = 3 - length held"
proof -
  have fits: "3 * (SIZEOF_ARNM + ARNM_ALIGN8 10) = 144" "144 \<le> ARNM_MAX_ALLOC_SIZE"
    by (simp_all add: SIZEOF_ARNM_def ARNM_ALIGN8_def ARNM_MAX_ALLOC_SIZE_def UINT32_MAX_def)
  obtain q w1 where init: "arnm_fixed_arena_pool_init (Some fresh_fixed_pool) 10 3 NULL sample_host = (ARNM_SUCCESS, Some q, w1)"
    using fixed_init_makes [OF sample_host_sound, of 10 3 "Some 4096"] fits sample_host_alloc [of 144]
    by (fastforce simp: UINT16_MAX_def)
  obtain q' w' held where run: "pool_run fixed_pool_ops [PR_Take 0, PR_Take 0, PR_Write 0 9 7, PR_Alloc 1 10, PR_Give 0]
      ((q, w1), []) = ((q', w'), held)" by (metis prod.exhaust)
  show ?thesis
    using fixed_pool_serves [OF sample_host_sound _ init run] init run by (auto simp: UINT16_MAX_def)
qed

end
