(* ===== verification/Dynamic_Arena_Pool.thy ===== *)
theory Dynamic_Arena_Pool
  imports Pool_Client
begin

text \<open>
  The pool that makes its arenas one by one on the C heap and keeps up to \<open>spare_limit\<close> of the
  returned ones (\<^verbatim>\<open>src/dynamic_arena_pool.c\<close>). Every arena is one heap block, its descriptor first and
  its buffer behind it. \<open>dynamic_state\<close> is the invariant, and the pool is an instance of
  \<open>arena_pool\<close>.
\<close>

record dynamic_arena_pool =
  dp_free_head :: addr
  dp_capacity :: nat
  dp_acquired :: nat
  dp_spare :: nat
  dp_spare_limit :: nat

definition SIZEOF_DYNAMIC_ARENA_POOL :: nat where "SIZEOF_DYNAMIC_ARENA_POOL = 24"

definition arena_block_bytes :: "nat \<Rightarrow> nat" where
  "arena_block_bytes cap = u32 (SIZEOF_ARNM + cap)"

definition make_arena :: "nat \<Rightarrow> world \<Rightarrow> addr \<times> world" where
  "make_arena cap w =
    (case arnm_alloc (Some NULL) (arena_block_bytes cap) NULL w of
       (result, block, w) \<Rightarrow>
         if result \<noteq> ARNM_SUCCESS then (NULL, w)
         else let arena = the block
              in case borrow_at arena (arena + SIZEOF_ARNM) cap w of
                   (result, w) \<Rightarrow>
                     if result \<noteq> ARNM_SUCCESS then (NULL, snd (arnm_free arena (arena_block_bytes cap) NULL w))
                     else (arena, w))"

definition destroy_arena :: "addr \<Rightarrow> nat \<Rightarrow> world \<Rightarrow> world" where
  "destroy_arena arena cap w = snd (arnm_free arena (arena_block_bytes cap) NULL w)"

text \<open>\<open>None\<close>: a list that never ends is destroyed for ever.\<close>

partial_function (option) destroy_free_list :: "addr \<Rightarrow> nat \<Rightarrow> world \<Rightarrow> world option" where
  "destroy_free_list head cap w =
    (if head = NULL then Some w
     else let link = arnm_arena_next_free head w in destroy_free_list link cap (destroy_arena head cap w))"

definition dynamic_forget_everything :: "dynamic_arena_pool \<Rightarrow> dynamic_arena_pool" where
  "dynamic_forget_everything p =
    p\<lparr>dp_free_head := NULL, dp_capacity := 0, dp_acquired := 0, dp_spare := 0, dp_spare_limit := 0\<rparr>"

definition arnm_dynamic_arena_pool_init :: "dynamic_arena_pool option \<Rightarrow> nat \<Rightarrow> nat \<Rightarrow>
    arnm_result \<times> dynamic_arena_pool option" where
  "arnm_dynamic_arena_pool_init pool cap spare_limit =
    (case pool of None \<Rightarrow> (ARNM_ERROR_NULL_POINTER, pool)
     | Some p \<Rightarrow>
       if cap = 0 then (ARNM_ERROR_INVALID_PARAM, pool)
       else
         let aligned = arnm_align8_u32 cap
         in if aligned = 0 then (ARNM_ERROR_ARITHMETIC_OVERFLOW, pool)
            else if aligned > ARNM_MAX_ALLOC_SIZE - SIZEOF_ARNM then (ARNM_ERROR_ARITHMETIC_OVERFLOW, pool)
            else (ARNM_SUCCESS,
              Some (p\<lparr>dp_free_head := NULL, dp_capacity := aligned, dp_acquired := 0, dp_spare := 0,
                dp_spare_limit := spare_limit\<rparr>)))"

definition fresh_dynamic_pool :: dynamic_arena_pool where
  "fresh_dynamic_pool =
    \<lparr>dp_free_head = NULL, dp_capacity = 0, dp_acquired = 0, dp_spare = 0, dp_spare_limit = 0\<rparr>"

definition arnm_dynamic_arena_pool_create :: "nat \<Rightarrow> nat \<Rightarrow> addr \<Rightarrow> world \<Rightarrow>
    (addr \<times> dynamic_arena_pool) option \<times> world" where
  "arnm_dynamic_arena_pool_create cap spare_limit allocator w =
    (case memory_alloc (Some NULL) SIZEOF_DYNAMIC_ARENA_POOL allocator w of
       (result, block, w) \<Rightarrow>
         if result \<noteq> ARNM_SUCCESS then (None, w)
         else case arnm_dynamic_arena_pool_init (Some fresh_dynamic_pool) cap spare_limit of
           (result, pool) \<Rightarrow>
             if result \<noteq> ARNM_SUCCESS then
               (None, snd (memory_free (the block) SIZEOF_DYNAMIC_ARENA_POOL allocator w))
             else (Some (the block, the pool), w))"

text \<open>
  The loop of \<open>reserve\<close>: \<open>head\<close> and \<open>final\<close> (\<open>tail\<close> in C) are the list made so far. \<open>spare_count + made\<close> stays below
  the \<open>uint32_t\<close> \<open>count\<close> while the loop runs, so it never wraps.
\<close>

function reserve_loop :: "nat \<Rightarrow> nat \<Rightarrow> nat \<Rightarrow> nat \<Rightarrow> addr \<Rightarrow> addr \<Rightarrow> world \<Rightarrow>
    (arnm_result \<times> nat \<times> addr \<times> addr \<times> world) option" where
  "reserve_loop cap spare count made head final w =
    (if spare + made < count then
       case make_arena cap w of
         (arena, w) \<Rightarrow>
           if arena = NULL then
             Option.bind (destroy_free_list head cap w) (\<lambda>w. Some (ARNM_ERROR_OUT_OF_MEMORY, made, head, final, w))
           else reserve_loop cap spare count (made + 1) arena (if final = NULL then arena else final)
                  (arnm_arena_set_next_free arena head w)
     else Some (ARNM_SUCCESS, made, head, final, w))"
  by pat_completeness auto

termination by (relation "measure (\<lambda>(cap, spare, count, made, _). count - (spare + made))") auto

definition arnm_dynamic_arena_pool_reserve :: "dynamic_arena_pool option \<Rightarrow> nat \<Rightarrow> world \<Rightarrow>
    (arnm_result \<times> dynamic_arena_pool option \<times> world) option" where
  "arnm_dynamic_arena_pool_reserve pool count w =
    (case pool of None \<Rightarrow> Some (ARNM_ERROR_NULL_POINTER, pool, w)
     | Some p \<Rightarrow>
       if dp_capacity p = 0 then Some (ARNM_ERROR_NOT_INITIALIZED, pool, w)
       else if count > dp_spare_limit p then Some (ARNM_ERROR_INVALID_PARAM, pool, w)
       else if dp_spare p \<ge> count then Some (ARNM_SUCCESS, pool, w)
       else Option.bind (reserve_loop (dp_capacity p) (dp_spare p) count 0 NULL NULL w)
         (\<lambda>(result, made, head, final, w).
           if result \<noteq> ARNM_SUCCESS then Some (result, pool, w)
           else Some (ARNM_SUCCESS,
             Some (p\<lparr>dp_free_head := head, dp_spare := u32 (dp_spare p + made)\<rparr>),
             arnm_arena_set_next_free final (dp_free_head p) w)))"

definition arnm_dynamic_arena_pool_release :: "dynamic_arena_pool option \<Rightarrow> world \<Rightarrow>
    (arnm_result \<times> dynamic_arena_pool option \<times> world) option" where
  "arnm_dynamic_arena_pool_release pool w =
    (case pool of None \<Rightarrow> Some (ARNM_ERROR_NULL_POINTER, pool, w)
     | Some p \<Rightarrow>
       if dp_acquired p \<noteq> 0 then Some (ARNM_ERROR_RESOURCE_IN_USE, pool, w)
       else Option.bind (destroy_free_list (dp_free_head p) (dp_capacity p) w)
         (\<lambda>w. Some (ARNM_SUCCESS, Some (dynamic_forget_everything p), w)))"

definition arnm_dynamic_arena_pool_destroy :: "(addr \<times> dynamic_arena_pool) option \<Rightarrow> addr \<Rightarrow> world \<Rightarrow>
    (arnm_result \<times> (addr \<times> dynamic_arena_pool) option \<times> world) option" where
  "arnm_dynamic_arena_pool_destroy pool allocator w =
    (case pool of None \<Rightarrow> Some (ARNM_SUCCESS, None, w)
     | Some (a, p) \<Rightarrow>
       Option.bind (arnm_dynamic_arena_pool_release (Some p) w)
         (\<lambda>(released, p', w).
           if released = ARNM_ERROR_RESOURCE_IN_USE then Some (released, Some (a, the p'), w)
           else case memory_free a SIZEOF_DYNAMIC_ARENA_POOL allocator w of
             (freed, w) \<Rightarrow> Some (if released \<noteq> ARNM_SUCCESS then released else freed, None, w)))"

definition arnm_dynamic_arena_pool_reserved :: "dynamic_arena_pool option \<Rightarrow> nat" where
  "arnm_dynamic_arena_pool_reserved pool =
    (case pool of None \<Rightarrow> 0
     | Some p \<Rightarrow>
       if dp_capacity p = 0 then 0
       else u64 (u64 (dp_spare p + dp_acquired p) * arena_block_bytes (dp_capacity p)))"

definition arnm_dynamic_arena_pool_available :: "dynamic_arena_pool option \<Rightarrow> nat" where
  "arnm_dynamic_arena_pool_available pool = (case pool of None \<Rightarrow> 0 | Some p \<Rightarrow> dp_spare p)"

definition arnm_dynamic_arena_pool_alloc :: "dynamic_arena_pool option \<Rightarrow> addr option \<Rightarrow> world \<Rightarrow>
    arnm_result \<times> dynamic_arena_pool option \<times> addr option \<times> world" where
  "arnm_dynamic_arena_pool_alloc pool out w =
    (case (pool, out) of
       (Some p, Some _) \<Rightarrow>
         if dp_capacity p = 0 then (ARNM_ERROR_NOT_INITIALIZED, pool, out, w)
         else if dp_acquired p = UINT32_MAX then (ARNM_ERROR_RESOURCE_EXHAUSTED, pool, out, w)
         else
           let arena = dp_free_head p
           in if arena \<noteq> NULL then
                (ARNM_SUCCESS,
                 Some (p\<lparr>dp_free_head := arnm_arena_next_free arena w, dp_spare := sub32 (dp_spare p) 1,
                   dp_acquired := u32 (dp_acquired p + 1)\<rparr>), Some arena, w)
              else case make_arena (dp_capacity p) w of
                (arena, w) \<Rightarrow>
                  if arena = NULL then (ARNM_ERROR_OUT_OF_MEMORY, pool, out, w)
                  else (ARNM_SUCCESS, Some (p\<lparr>dp_acquired := u32 (dp_acquired p + 1)\<rparr>), Some arena, w)
     | _ \<Rightarrow> (ARNM_ERROR_NULL_POINTER, pool, out, w))"

definition arnm_dynamic_arena_pool_free :: "dynamic_arena_pool option \<Rightarrow> addr \<Rightarrow> world \<Rightarrow>
    arnm_result \<times> dynamic_arena_pool option \<times> world" where
  "arnm_dynamic_arena_pool_free pool arena w =
    (case pool of None \<Rightarrow> (ARNM_ERROR_NULL_POINTER, pool, w)
     | Some p \<Rightarrow>
       if arena = NULL then (ARNM_ERROR_NULL_POINTER, pool, w)
       else if dp_capacity p = 0 then (ARNM_ERROR_NOT_INITIALIZED, pool, w)
       else if dp_acquired p = 0 then (ARNM_ERROR_INVALID_STATE, pool, w)
       else
         let p = p\<lparr>dp_acquired := dp_acquired p - 1\<rparr>; w = memory_reset arena w
         in if dp_spare p < dp_spare_limit p then
              (ARNM_SUCCESS, Some (p\<lparr>dp_free_head := arena, dp_spare := dp_spare p + 1\<rparr>),
               arnm_arena_set_next_free arena (dp_free_head p) w)
            else (ARNM_SUCCESS, Some p, destroy_arena arena (dp_capacity p) w))"

section \<open>The invariant\<close>

abbreviation slot_at :: "world \<Rightarrow> addr \<Rightarrow> addr" where
  "slot_at w d \<equiv> data (object_at d w)"

definition pool_arena :: "world \<Rightarrow> nat \<Rightarrow> addr \<Rightarrow> bool" where
  "pool_arena w cap d \<longleftrightarrow> (d, SIZEOF_ARNM + cap) \<in> set (blocks (heap w)) \<and> stands w d (d + SIZEOF_ARNM) cap"

definition dynamic_state :: "dynamic_arena_pool \<Rightarrow> world \<Rightarrow> addr set \<Rightarrow> addr list \<Rightarrow> bool" where
  "dynamic_state p w out free \<longleftrightarrow>
    host_ok (heap w) \<and> 0 < dp_capacity p \<and> dp_capacity p mod 8 = 0 \<and>
    dp_capacity p \<le> ARNM_MAX_ALLOC_SIZE - SIZEOF_ARNM \<and>
    (\<forall>d\<in>set free \<union> out. pool_arena w (dp_capacity p) d) \<and>
    linked (slot_at w) (bytes_of w) (dp_free_head p) free \<and> distinct free \<and> (\<forall>d\<in>set free. unused w d) \<and>
    set free \<inter> out = {} \<and> finite out \<and> dp_acquired p = card out \<and> card out \<le> UINT32_MAX \<and>
    dp_spare p = length free \<and> length free \<le> dp_spare_limit p \<and> dp_spare_limit p \<le> UINT32_MAX"

text \<open>What an operation leaves alone: the heap blocks that are not in \<open>ds\<close>, the objects at their
  addresses and their bytes.\<close>

definition undisturbed :: "addr set \<Rightarrow> world \<Rightarrow> world \<Rightarrow> bool" where
  "undisturbed ds w w' \<longleftrightarrow>
    (\<forall>e n. (e, n) \<in> set (blocks (heap w)) \<and> e \<notin> ds \<longrightarrow>
      (e, n) \<in> set (blocks (heap w')) \<and> handles w' e = handles w e \<and> chains w' e = chains w e \<and>
      rd (bytes_of w') e n = rd (bytes_of w) e n)"

lemma undisturbed_refl [simp]: "undisturbed ds w w"
  by (simp add: undisturbed_def)

lemma undisturbed_trans:
  assumes "undisturbed ds w w1" "undisturbed ds' w1 w2" shows "undisturbed (ds \<union> ds') w w2"
  unfolding undisturbed_def
proof (intro allI impI)
  fix e n assume e: "(e, n) \<in> set (blocks (heap w)) \<and> e \<notin> ds \<union> ds'"
  then have "(e, n) \<in> set (blocks (heap w1)) \<and> handles w1 e = handles w e \<and> chains w1 e = chains w e \<and>
      rd (bytes_of w1) e n = rd (bytes_of w) e n" using assms(1) unfolding undisturbed_def by blast
  then show "(e, n) \<in> set (blocks (heap w2)) \<and> handles w2 e = handles w e \<and> chains w2 e = chains w e \<and>
      rd (bytes_of w2) e n = rd (bytes_of w) e n" using assms(2) e unfolding undisturbed_def by auto
qed

lemma undisturbed_mono: "undisturbed ds w w1 \<Longrightarrow> ds \<subseteq> ds' \<Longrightarrow> undisturbed ds' w w1"
  unfolding undisturbed_def by blast

text \<open>A block address that is not taken is none an operation may disturb.\<close>

lemma undisturbed_fresh:
  assumes "undisturbed ds w w1" "ds \<inter> fst ` set (blocks (heap w)) \<subseteq> ds'" shows "undisturbed ds' w w1"
  using assms unfolding undisturbed_def by (force intro: rev_image_eqI)

section \<open>Making and destroying arenas\<close>

lemma block_bytes_eq:
  "cap \<le> ARNM_MAX_ALLOC_SIZE - SIZEOF_ARNM \<Longrightarrow> arena_block_bytes cap = SIZEOF_ARNM + cap"
  by (simp add: arena_block_bytes_def ARNM_MAX_ALLOC_SIZE_def SIZEOF_ARNM_def UINT32_MAX_def u32_def)

lemma make_arena_ok:
  assumes "host_ok (heap w)" "0 < cap" "cap mod 8 = 0" "cap \<le> ARNM_MAX_ALLOC_SIZE - SIZEOF_ARNM"
    and "make_arena cap w = (d, w')"
  shows "host_ok (heap w') \<and> bytes_of w' = bytes_of w \<and>
    (if d = NULL then blocks (heap w') = blocks (heap w) \<and> handles w' = handles w \<and> chains w' = chains w
     else d < ADDRESS_END \<and> d \<notin> fst ` set (blocks (heap w)) \<and>
       blocks (heap w') = (d, SIZEOF_ARNM + cap) # blocks (heap w) \<and> pool_arena w' cap d \<and> unused w' d \<and>
       (\<forall>e. e \<noteq> d \<longrightarrow> handles w' e = handles w e \<and> chains w' e = chains w e))"
proof -
  obtain a h where m: "malloc (SIZEOF_ARNM + cap) (heap w) = (a, h)" by fastforce
  note mo = malloc_ok [OF assms(1) _ m]
  have al: "arnm_alloc (Some NULL) (arena_block_bytes cap) NULL w =
      (if a = NULL then (ARNM_ERROR_OUT_OF_MEMORY, Some NULL, w\<lparr>heap := h\<rparr>) else (ARNM_SUCCESS, Some a, w\<lparr>heap := h\<rparr>))"
    using block_bytes_eq [OF assms(4)] m by (simp add: arnm_alloc_def is_default_alloc_def)
  show ?thesis
  proof (cases "a = NULL")
    case True
    then have "d = NULL" "w' = w\<lparr>heap := h\<rparr>" using al assms(5) by (auto simp: make_arena_def)
    then show ?thesis using mo True by simp
  next
    case False
    then have a: "a mod 8 = 0" "a + (SIZEOF_ARNM + cap) < ADDRESS_END" "blocks h = (a, SIZEOF_ARNM + cap) # blocks (heap w)"
      "region a (SIZEOF_ARNM + cap) \<inter> heap_used (heap w) = {}" "host_ok h" "bytes h = bytes_of w"
      using mo by simp_all
    have "(a + SIZEOF_ARNM) mod 8 = 0" using a(1) unfolding SIZEOF_ARNM_def by presburger
    moreover have "cap \<le> ARNM_MAX_ALLOC_SIZE" using assms(4) by simp
    moreover have "a + SIZEOF_ARNM + cap < ADDRESS_END" using a(2) by simp
    ultimately obtain w1 where w1: "borrow_at a (a + SIZEOF_ARNM) cap (w\<lparr>heap := h\<rparr>) = (ARNM_SUCCESS, w1)"
      "stands w1 a (a + SIZEOF_ARNM) cap" "unused w1 a" "heap w1 = h"
      "\<And>e. e \<noteq> a \<Longrightarrow> handles w1 e = handles w e" "\<And>e. e \<noteq> a \<Longrightarrow> chains w1 e = chains w e"
      using borrow_at_ok [of a "a + SIZEOF_ARNM" cap "w\<lparr>heap := h\<rparr>"] False assms(2,3) by auto
    have res: "d = a" "w' = w1" using al False assms(5) w1(1) by (simp_all add: make_arena_def Let_def)
    have "a \<notin> fst ` set (blocks (heap w))"
    proof
      assume "a \<in> fst ` set (blocks (heap w))"
      then obtain k where k: "(a, k) \<in> set (blocks (heap w))" by auto
      then have "0 < k" using assms(1) by (auto simp: host_ok_def blocks_ok_def)
      then have "a \<in> heap_used (heap w)" using k unfolding in_heap_used by (intro exI [of _ a] exI [of _ k]) simp
      moreover have "a \<in> region a (SIZEOF_ARNM + cap)" using assms(2) by simp
      ultimately show False using a(4) by blast
    qed
    then show ?thesis using res False a w1 by (simp add: pool_arena_def)
  qed
qed

lemma make_arena_undisturbed:
  assumes "host_ok (heap w)" "0 < cap" "cap mod 8 = 0" "cap \<le> ARNM_MAX_ALLOC_SIZE - SIZEOF_ARNM"
    and "make_arena cap w = (d, w')"
  shows "undisturbed {} w w'"
  unfolding undisturbed_def
proof (intro allI impI)
  fix e n assume e: "(e, n) \<in> set (blocks (heap w)) \<and> e \<notin> {}"
  then have "e \<in> fst ` set (blocks (heap w))" by force
  then show "(e, n) \<in> set (blocks (heap w')) \<and> handles w' e = handles w e \<and> chains w' e = chains w e \<and>
      rd (bytes_of w') e n = rd (bytes_of w) e n"
    using make_arena_ok [OF assms] e by (auto split: if_splits)
qed

lemma destroy_arena_ok:
  assumes "host_ok (heap w)" "(d, SIZEOF_ARNM + cap) \<in> set (blocks (heap w))"
  shows "host_ok (heap (destroy_arena d cap w))" "bytes_of (destroy_arena d cap w) = bytes_of w"
    "set (blocks (heap (destroy_arena d cap w))) = set (blocks (heap w)) - {(d, SIZEOF_ARNM + cap)}"
    "handles (destroy_arena d cap w) = handles w" "chains (destroy_arena d cap w) = chains w"
proof -
  have "destroy_arena d cap w = w\<lparr>heap := host_free d (heap w)\<rparr>" by (simp add: destroy_arena_def arnm_free_def is_arena_def)
  then show "host_ok (heap (destroy_arena d cap w))" "bytes_of (destroy_arena d cap w) = bytes_of w"
    "set (blocks (heap (destroy_arena d cap w))) = set (blocks (heap w)) - {(d, SIZEOF_ARNM + cap)}"
    "handles (destroy_arena d cap w) = handles w" "chains (destroy_arena d cap w) = chains w"
    using host_free_ok [OF assms] by simp_all
qed

lemma destroy_free_list_ok:
  assumes "host_ok (heap w)" "linked (slot_at w) (bytes_of w) head free" "distinct free"
    and "\<And>d. d \<in> set free \<Longrightarrow> (d, SIZEOF_ARNM + cap) \<in> set (blocks (heap w))"
  obtains w' where "destroy_free_list head cap w = Some w'" "host_ok (heap w')" "bytes_of w' = bytes_of w"
    "set (blocks (heap w')) = set (blocks (heap w)) - (\<lambda>d. (d, SIZEOF_ARNM + cap)) ` set free"
    "handles w' = handles w" "chains w' = chains w"
  using assms
proof (induction free arbitrary: head w thesis)
  case Nil
  then show ?case by (intro Nil(1) [of w]) (simp_all add: destroy_free_list.simps)
next
  case (Cons x xs)
  let ?w = "destroy_arena x cap w"
  have x: "head = x" "x \<noteq> NULL" "linked (slot_at w) (bytes_of w) (arnm_arena_next_free x w) xs"
    using Cons.prems(3) by (simp_all add: arnm_arena_next_free_def arnm_arena_link_slot_def)
  note d = destroy_arena_ok [OF Cons.prems(2) Cons.prems(5) [of x], simplified]
  have slot: "slot_at ?w = slot_at w" by (intro ext arg_cong [of _ _ data] object_at_cong) (simp add: d)
  obtain w' where w': "destroy_free_list (arnm_arena_next_free x w) cap ?w = Some w'" "host_ok (heap w')"
    "bytes_of w' = bytes_of ?w" "set (blocks (heap w')) = set (blocks (heap ?w)) - (\<lambda>d. (d, SIZEOF_ARNM + cap)) ` set xs"
    "handles w' = handles ?w" "chains w' = chains ?w"
  proof (rule Cons.IH)
    show "(e, SIZEOF_ARNM + cap) \<in> set (blocks (heap ?w))" if "e \<in> set xs" for e
      using Cons.prems(4,5) that d(3) by auto
  qed (use d x(3) slot Cons.prems(4) in simp_all)
  have "destroy_free_list head cap w = Some w'" using x w'(1) by (subst destroy_free_list.simps) (simp add: Let_def)
  then show ?case using w' d by (intro Cons.prems(1) [of w']) auto
qed

section \<open>One operation at a time\<close>

lemma pool_arena_block:
  assumes "host_ok (heap w)" "pool_arena w cap d"
  shows "d \<noteq> NULL" "d + (SIZEOF_ARNM + cap) < ADDRESS_END" "slot_at w d = d + SIZEOF_ARNM" "capacity (object_at d w) = cap"
  using assms by (auto simp: pool_arena_def stands_def host_ok_def blocks_ok_def)

lemma pool_arenas_apart:
  assumes "host_ok (heap w)" "pool_arena w cap d" "(e, n) \<in> set (blocks (heap w))" "d \<noteq> e"
  shows "apart d (SIZEOF_ARNM + cap) e n"
  using assms blocks_ok_apart [of "blocks (heap w)" d _ e n] by (auto simp: pool_arena_def host_ok_def)

lemma pool_buffers_apart:
  assumes "host_ok (heap w)" "pool_arena w cap d" "pool_arena w cap' e" "d \<noteq> e"
  shows "apart (d + SIZEOF_ARNM) cap (e + SIZEOF_ARNM) cap'"
proof -
  have "apart d (SIZEOF_ARNM + cap) e (SIZEOF_ARNM + cap')"
    using assms(3) by (intro pool_arenas_apart [OF assms(1,2) _ assms(4)]) (simp add: pool_arena_def)
  then show ?thesis by (auto simp: apart_def)
qed

lemma pool_arena_undisturbed:
  assumes "undisturbed ds w w'" "pool_arena w cap d" "d \<notin> ds"
  shows "pool_arena w' cap d" "object_at d w' = object_at d w"
    "rd (bytes_of w') (d + SIZEOF_ARNM) cap = rd (bytes_of w) (d + SIZEOF_ARNM) cap"
proof -
  have u: "(d, SIZEOF_ARNM + cap) \<in> set (blocks (heap w'))" "handles w' d = handles w d" "chains w' d = chains w d"
    "rd (bytes_of w') d (SIZEOF_ARNM + cap) = rd (bytes_of w) d (SIZEOF_ARNM + cap)"
    using assms(1) [unfolded undisturbed_def, rule_format, of d "SIZEOF_ARNM + cap"] assms(2,3)
    by (simp_all add: pool_arena_def)
  then show "pool_arena w' cap d" using assms(2) stands_cong [OF u(2,3)] by (simp add: pool_arena_def)
  show "object_at d w' = object_at d w" using u(2) by (simp add: object_at_def intern_of_def)
  show "rd (bytes_of w') (d + SIZEOF_ARNM) cap = rd (bytes_of w) (d + SIZEOF_ARNM) cap"
    using u(4) by (simp add: rd_add)
qed

lemma linked_undisturbed:
  assumes "undisturbed ds w w'" "\<And>d. d \<in> set xs \<Longrightarrow> pool_arena w cap d \<and> d \<notin> ds" "0 < cap" "cap mod 8 = 0" "host_ok (heap w)"
  shows "linked (slot_at w') (bytes_of w') head xs = linked (slot_at w) (bytes_of w) head xs"
proof (rule linked_cong)
  fix d assume d: "d \<in> set xs"
  have pd: "pool_arena w cap d" "d \<notin> ds" using assms(2) [OF d] by simp_all
  note same = pool_arena_undisturbed [OF assms(1) pd]
  show "slot_at w' d = slot_at w d" by (simp add: same(2))
  fix a assume "a \<in> region (slot_at w' d) 8"
  moreover have "8 \<le> cap" using assms(3,4) by (cases "cap < 8") auto
  moreover have "slot_at w' d = d + SIZEOF_ARNM" by (simp add: same(2) pool_arena_block(3) [OF assms(5) pd(1)])
  ultimately obtain i where "i < cap" "a = d + SIZEOF_ARNM + i"
    by (metis in_region le_add_diff_inverse less_le_trans nat_add_left_cancel_less)
  then show "bytes_of w' a = bytes_of w a" using same(3) by (metis nth_rd)
qed

text \<open>What one pool does leaves every other pool in order.\<close>

lemma dynamic_frame:
  assumes "dynamic_state p w out free" "undisturbed ds w w'" "(set free \<union> out) \<inter> ds = {}" "host_ok (heap w')"
  shows "dynamic_state p w' out free"
proof -
  have arenas: "pool_arena w (dp_capacity p) d" "d \<notin> ds" if "d \<in> set free \<union> out" for d
    using assms(1,3) that by (auto simp: dynamic_state_def)
  have "linked (slot_at w') (bytes_of w') (dp_free_head p) free = linked (slot_at w) (bytes_of w) (dp_free_head p) free"
    using assms(1) arenas by (intro linked_undisturbed [OF assms(2), of _ "dp_capacity p"]) (auto simp: dynamic_state_def)
  moreover have "unused w' d = unused w d" if "d \<in> set free" for d
    using pool_arena_undisturbed(2) [OF assms(2) arenas] that by (simp add: unused_def)
  ultimately show ?thesis
    using assms(1,4) arenas pool_arena_undisturbed(1) [OF assms(2)] by (simp add: dynamic_state_def)
qed

definition block_set :: "world \<Rightarrow> (addr \<times> nat) set" where
  "block_set w = set (blocks (heap w))"

abbreviation arena_blocks :: "dynamic_arena_pool \<Rightarrow> addr set \<Rightarrow> (addr \<times> nat) set" where
  "arena_blocks p ds \<equiv> (\<lambda>d. (d, SIZEOF_ARNM + dp_capacity p)) ` ds"

lemma pool_arena_in: "pool_arena w cap d \<Longrightarrow> (d, SIZEOF_ARNM + cap) \<in> block_set w"
  by (simp add: pool_arena_def block_set_def)

lemma dynamic_addresses:
  assumes "dynamic_state p w out free" "d \<in> set free \<union> out" shows "d \<in> fst ` block_set w"
proof -
  have "pool_arena w (dp_capacity p) d" using assms by (simp add: dynamic_state_def)
  from imageI [OF pool_arena_in [OF this], of fst] show ?thesis by simp
qed

lemma dynamic_alloc_ok:
  assumes "dynamic_state p w out free" "arnm_dynamic_arena_pool_alloc (Some p) (Some old) w = (r, q, res, w')"
  shows "undisturbed {} w w' \<and>
    (if r = ARNM_SUCCESS then
       \<exists>p' d free'. q = Some p' \<and> res = Some d \<and> dynamic_state p' w' (insert d out) free' \<and> dp_capacity p' = dp_capacity p \<and>
         d \<notin> out \<and> empty_arena (object_at d w') \<and> insert d (set free') = insert d (set free) \<and>
         (d \<in> set free \<or> d \<notin> fst ` block_set w) \<and> block_set w' = insert (d, SIZEOF_ARNM + dp_capacity p) (block_set w)
     else (r = ARNM_ERROR_OUT_OF_MEMORY \<or> r = ARNM_ERROR_RESOURCE_EXHAUSTED \<and> card out = UINT32_MAX) \<and>
       q = Some p \<and> res = Some old \<and> dynamic_state p w' out free \<and> block_set w' = block_set w)"
proof -
  have st: "host_ok (heap w)" "0 < dp_capacity p" "dp_capacity p mod 8 = 0" "dp_capacity p \<le> ARNM_MAX_ALLOC_SIZE - SIZEOF_ARNM"
    "dp_acquired p = card out" "finite out"
    using assms(1) by (simp_all add: dynamic_state_def)
  consider (full) "card out = UINT32_MAX" | (spare) d rest where "card out < UINT32_MAX" "free = d # rest"
    | (make) "card out < UINT32_MAX" "free = []"
    using assms(1) by (cases free) (fastforce simp: dynamic_state_def)+
  then show ?thesis
  proof cases
    case full
    then show ?thesis using assms st by (simp add: arnm_dynamic_arena_pool_alloc_def)
  next
    case spare
    let ?p = "p\<lparr>dp_free_head := arnm_arena_next_free d w, dp_spare := length rest, dp_acquired := card out + 1\<rparr>"
    have f: "dp_free_head p = d" "d \<noteq> NULL" "dp_spare p = length rest + 1" "length rest + 1 \<le> UINT32_MAX"
      using assms(1) spare(2) by (simp_all add: dynamic_state_def)
    then have res: "r = ARNM_SUCCESS" "q = Some ?p" "res = Some d" "w' = w"
      using assms(2) st(2,5) spare(1) by (auto simp: arnm_dynamic_arena_pool_alloc_def Let_def)
    have "d \<notin> out" using assms(1) spare(2) by (simp add: dynamic_state_def)
    then have "dynamic_state ?p w (insert d out) rest"
      using assms(1) spare by (simp add: dynamic_state_def arnm_arena_next_free_def arnm_arena_link_slot_def)
    moreover have "pool_arena w (dp_capacity p) d" "unused w d" using assms(1) spare(2) by (simp_all add: dynamic_state_def)
    then have "empty_arena (object_at d w)" "(d, SIZEOF_ARNM + dp_capacity p) \<in> block_set w"
      by (simp_all add: pool_arena_def stands_def unused_def empty_arena_def descriptor_ok_def block_set_def)
    ultimately show ?thesis using res \<open>d \<notin> out\<close> spare(2) by (auto simp: insert_absorb)
  next
    case make
    have head: "dp_free_head p = NULL" using assms(1) make(2) by (simp add: dynamic_state_def)
    obtain d w1 where m: "make_arena (dp_capacity p) w = (d, w1)" by fastforce
    note made = make_arena_ok [OF st(1-4) m] and u = make_arena_undisturbed [OF st(1-4) m]
    show ?thesis
    proof (cases "d = NULL")
      case True
      then have "r = ARNM_ERROR_OUT_OF_MEMORY" "q = Some p" "res = Some old" "w' = w1"
        using assms(2) st(2,5) make(1) head m by (simp_all add: arnm_dynamic_arena_pool_alloc_def Let_def)
      moreover have "dynamic_state p w1 out free"
        using dynamic_frame [OF assms(1) u] made by simp
      ultimately show ?thesis using u made True by (simp add: block_set_def)
    next
      case False
      let ?p = "p\<lparr>dp_acquired := card out + 1\<rparr>"
      have res: "r = ARNM_SUCCESS" "q = Some ?p" "res = Some d" "w' = w1"
        using assms(2) st(2,5) make(1) head m False by (simp_all add: arnm_dynamic_arena_pool_alloc_def Let_def)
      have d: "d \<notin> fst ` block_set w" "pool_arena w1 (dp_capacity p) d" "unused w1 d" "host_ok (heap w1)"
        "block_set w1 = insert (d, SIZEOF_ARNM + dp_capacity p) (block_set w)"
        using made False by (simp_all add: block_set_def)
      have "d \<notin> out"
      proof
        assume "d \<in> out"
        then have "(d, SIZEOF_ARNM + dp_capacity p) \<in> block_set w"
          using assms(1) by (simp add: dynamic_state_def pool_arena_def block_set_def)
        then show False using d(1) by force
      qed
      moreover have "dynamic_state p w1 out free" using dynamic_frame [OF assms(1) u] d(4) by simp
      then have "dynamic_state ?p w1 (insert d out) free"
        using d(2) make \<open>d \<notin> out\<close> by (simp add: dynamic_state_def)
      moreover have "empty_arena (object_at d w1)"
        using d(2,3) by (simp add: pool_arena_def stands_def unused_def empty_arena_def descriptor_ok_def)
      ultimately show ?thesis using res u d(1,5) by auto
    qed
  qed
qed

lemma cap_slot: "0 < cap \<Longrightarrow> cap mod 8 = 0 \<Longrightarrow> 8 \<le> cap" for cap :: nat
  by (cases "cap < 8") auto

text \<open>Writing a link into an arena disturbs nothing but that arena.\<close>

lemma link_undisturbed:
  assumes "host_ok (heap w)" "pool_arena w cap d" "0 < cap" "cap mod 8 = 0"
  shows "undisturbed {d} w (arnm_arena_set_next_free d link w)"
  unfolding undisturbed_def
proof (intro allI impI)
  fix e n assume e: "(e, n) \<in> set (blocks (heap w)) \<and> e \<notin> {d}"
  then have "apart d (SIZEOF_ARNM + cap) e n" using pool_arenas_apart [OF assms(1,2)] by auto
  then have "rd (store_ptr (bytes_of w) (d + SIZEOF_ARNM) link) e n = rd (bytes_of w) e n"
    using cap_slot [OF assms(3,4)] by (auto simp: store_ptr_def apart_def intro!: rd_wr_apart)
  then show "(e, n) \<in> set (blocks (heap (arnm_arena_set_next_free d link w))) \<and>
      handles (arnm_arena_set_next_free d link w) e = handles w e \<and> chains (arnm_arena_set_next_free d link w) e = chains w e \<and>
      rd (bytes_of (arnm_arena_set_next_free d link w)) e n = rd (bytes_of w) e n"
    using e pool_arena_block(3) [OF assms(1,2)] by simp
qed

lemma host_ok_link [simp]: "host_ok (heap (arnm_arena_set_next_free d link w)) = host_ok (heap w)"
  by (simp add: host_ok_def)

lemma pool_arena_link [simp]: "pool_arena (arnm_arena_set_next_free d link w) cap e = pool_arena w cap e"
  by (simp add: pool_arena_def stands_def)

lemma unused_link [simp]: "unused (arnm_arena_set_next_free d link w) e = unused w e"
  by (simp add: unused_def)

lemma block_set_link [simp]: "block_set (arnm_arena_set_next_free d link w) = block_set w"
  by (simp add: block_set_def)

text \<open>An unused arena of the right size becomes the head of the free list.\<close>

lemma dynamic_push:
  assumes "dynamic_state p w out free" "pool_arena w (dp_capacity p) d" "unused w d" "d \<notin> set free \<union> out"
    and "length free < dp_spare_limit p"
  shows "dynamic_state (p\<lparr>dp_free_head := d, dp_spare := dp_spare p + 1\<rparr>)
    (arnm_arena_set_next_free d (dp_free_head p) w) out (d # free)"
proof -
  let ?w = "arnm_arena_set_next_free d (dp_free_head p) w"
  have st: "host_ok (heap w)" "0 < dp_capacity p" "dp_capacity p mod 8 = 0" using assms(1) by (simp_all add: dynamic_state_def)
  have "dynamic_state p ?w out free"
    by (rule dynamic_frame [OF assms(1) link_undisturbed [OF st(1) assms(2) st(2,3)]]) (use assms(4) st(1) in simp_all)
  moreover have "dp_free_head p < ADDRESS_END"
  proof (cases free)
    case (Cons x xs)
    then have "pool_arena w (dp_capacity p) x" "dp_free_head p = x" using assms(1) by (simp_all add: dynamic_state_def)
    then show ?thesis using pool_arena_block(2) [OF st(1)] by fastforce
  qed (use assms(1) in \<open>simp add: dynamic_state_def\<close>)
  ultimately show ?thesis
    using assms pool_arena_block(1) [OF st(1) assms(2)] by (simp add: dynamic_state_def load_store)
qed

lemma dynamic_free_ok:
  assumes "dynamic_state p w out free" "d \<in> out"
  shows "\<exists>q w' free'. arnm_dynamic_arena_pool_free (Some p) d w = (ARNM_SUCCESS, Some q, w') \<and>
    dynamic_state q w' (out - {d}) free' \<and> dp_capacity q = dp_capacity p \<and> undisturbed {d} w w' \<and>
    (if length free < dp_spare_limit p then set free' = insert d (set free) \<and> block_set w' = block_set w
     else set free' = set free \<and> block_set w' = block_set w - {(d, SIZEOF_ARNM + dp_capacity p)})"
proof -
  have st: "host_ok (heap w)" "0 < dp_capacity p" "dp_capacity p mod 8 = 0" "dp_acquired p = card out" "finite out"
    "pool_arena w (dp_capacity p) d" "d \<notin> set free" "dp_spare p = length free"
    using assms by (auto simp: dynamic_state_def)
  have pos: "card out \<noteq> 0" using assms(2) st(5) by auto
  let ?p = "p\<lparr>dp_acquired := card out - 1\<rparr>"
  have out: "dynamic_state ?p w (out - {d}) free" using assms by (auto simp: dynamic_state_def)
  have "stands w d (d + SIZEOF_ARNM) (dp_capacity p)" using st(6) by (simp add: pool_arena_def)
  then obtain w1 where w1: "memory_reset d w = w1" "stands w1 d (d + SIZEOF_ARNM) (dp_capacity p)" "unused w1 d"
    "heap w1 = heap w" "\<And>e. e \<noteq> d \<Longrightarrow> handles w1 e = handles w e" "chains w1 = chains w"
    using memory_reset_stands by metis
  have u1: "undisturbed {d} w w1" using w1(4-6) by (simp add: undisturbed_def)
  have s1: "dynamic_state ?p w1 (out - {d}) free"
    by (rule dynamic_frame [OF out u1]) (use st(1,7) w1(4) in simp_all)
  have d1: "pool_arena w1 (dp_capacity p) d" using w1(2,4) st(6) by (simp add: pool_arena_def)
  have step: "arnm_dynamic_arena_pool_free (Some p) d w =
      (if dp_spare p < dp_spare_limit p
       then (ARNM_SUCCESS, Some (?p\<lparr>dp_free_head := d, dp_spare := dp_spare ?p + 1\<rparr>),
         arnm_arena_set_next_free d (dp_free_head ?p) w1)
       else (ARNM_SUCCESS, Some ?p, destroy_arena d (dp_capacity p) w1))"
    using st(2,4) pos w1(1) pool_arena_block(1) [OF st(1,6)] by (simp add: arnm_dynamic_arena_pool_free_def Let_def)
  show ?thesis
  proof (cases "length free < dp_spare_limit p")
    case True
    have "undisturbed {d} w (arnm_arena_set_next_free d (dp_free_head ?p) w1)"
      using undisturbed_trans [OF u1 link_undisturbed [OF _ d1 st(2,3)]] st(1) w1(4) by simp
    moreover have "dynamic_state (?p\<lparr>dp_free_head := d, dp_spare := dp_spare ?p + 1\<rparr>)
        (arnm_arena_set_next_free d (dp_free_head ?p) w1) (out - {d}) (d # free)"
      by (rule dynamic_push [OF s1]) (use d1 w1(3) st(7) True in simp_all)
    moreover have "block_set w1 = block_set w" using w1(4) by (simp add: block_set_def)
    ultimately show ?thesis using step True st(8)
      by (intro exI [of _ "?p\<lparr>dp_free_head := d, dp_spare := dp_spare ?p + 1\<rparr>"]
          exI [of _ "arnm_arena_set_next_free d (dp_free_head ?p) w1"] exI [of _ "d # free"]) simp
  next
    case False
    let ?w = "destroy_arena d (dp_capacity p) w1"
    have "host_ok (heap w1)" "(d, SIZEOF_ARNM + dp_capacity p) \<in> set (blocks (heap w1))"
      using d1 st(1) w1(4) by (simp_all add: pool_arena_def)
    note des = destroy_arena_ok [OF this]
    have "undisturbed {d} w1 ?w" using des by (simp add: undisturbed_def)
    then have "dynamic_state ?p ?w (out - {d}) free"
      using st(7) des(1) by (intro dynamic_frame [OF s1]) auto
    moreover have "undisturbed {d} w ?w" using undisturbed_trans [OF u1 \<open>undisturbed {d} w1 ?w\<close>] by simp
    moreover have "block_set ?w = block_set w - {(d, SIZEOF_ARNM + dp_capacity p)}"
      using des(3) w1(4) by (simp add: block_set_def)
    ultimately show ?thesis using step False st(8)
      by (intro exI [of _ ?p] exI [of _ ?w] exI [of _ free]) simp
  qed
qed

text \<open>Release destroys every spare arena and no other block.\<close>

lemma dynamic_release_ok:
  assumes "dynamic_state p w out free"
  shows "\<exists>w'. arnm_dynamic_arena_pool_release (Some p) w =
      (if out = {} then Some (ARNM_SUCCESS, Some (dynamic_forget_everything p), w')
       else Some (ARNM_ERROR_RESOURCE_IN_USE, Some p, w)) \<and>
    host_ok (heap w') \<and> block_set w' = block_set w - arena_blocks p (set free) \<and> undisturbed (set free) w w'"
proof -
  have st: "host_ok (heap w)" "linked (slot_at w) (bytes_of w) (dp_free_head p) free" "distinct free"
    "dp_acquired p = card out" "finite out" using assms by (simp_all add: dynamic_state_def)
  have "(d, SIZEOF_ARNM + dp_capacity p) \<in> set (blocks (heap w))" if "d \<in> set free" for d
    using assms that by (simp add: dynamic_state_def pool_arena_def)
  from destroy_free_list_ok [OF st(1-3) this]
  obtain w' where w': "destroy_free_list (dp_free_head p) (dp_capacity p) w = Some w'" "host_ok (heap w')"
    "bytes_of w' = bytes_of w" "set (blocks (heap w')) = set (blocks (heap w)) - arena_blocks p (set free)"
    "handles w' = handles w" "chains w' = chains w" by blast
  then have "undisturbed (set free) w w'" by (auto simp: undisturbed_def)
  then show ?thesis using w' st(4,5) by (auto simp: arnm_dynamic_arena_pool_release_def block_set_def)
qed

section \<open>Reserve\<close>

text \<open>The list the loop of \<open>reserve\<close> has made, seen as a pool of its own.\<close>

definition made_pool :: "nat \<Rightarrow> addr \<Rightarrow> nat \<Rightarrow> dynamic_arena_pool" where
  "made_pool cap head made =
    \<lparr>dp_free_head = head, dp_capacity = cap, dp_acquired = 0, dp_spare = made, dp_spare_limit = UINT32_MAX\<rparr>"

lemma linked_append:
  assumes "linked slot m head xs" "xs \<noteq> []" "distinct xs" "linked slot m h ys" "h < ADDRESS_END"
    and "\<And>x. x \<in> set xs \<union> set ys \<Longrightarrow> x \<noteq> last xs \<Longrightarrow> apart (slot (last xs)) 8 (slot x) 8" "last xs \<notin> set ys"
  shows "linked slot (store_ptr m (slot (last xs)) h) head (xs @ ys)"
proof -
  let ?m = "store_ptr m (slot (last xs)) h"
  have same: "?m a = m a" if "x \<in> set xs \<union> set ys" "x \<noteq> last xs" "a \<in> region (slot x) 8" for x a
    using assms(6) [OF that(1,2)] that(3) by (intro store_outside) (auto simp: apart_def)
  have ys: "linked slot ?m h ys"
  proof (subst linked_cong)
    show "?m a = m a" if "x \<in> set ys" "a \<in> region (slot x) 8" for x a
      using same [of x a] that assms(7) by blast
  qed (use assms(4) in simp_all)
  have "linked slot ?m k (zs @ ys)" if "linked slot m k zs" "zs \<noteq> []" "set zs \<subseteq> set xs" "last zs = last xs" "distinct zs" for k zs
    using that
  proof (induction zs arbitrary: k)
    case (Cons z zs)
    show ?case
    proof (cases zs)
      case Nil
      then show ?thesis using Cons.prems ys assms(5) by (simp add: load_store)
    next
      case (Cons y rest)
      then have "z \<noteq> last xs" using Cons.prems(4,5) last_in_set [of zs] by auto
      then have "arnm_load_ptr ?m (slot z) = arnm_load_ptr m (slot z)"
        using same [of z] Cons.prems(3) by (intro load_cong) simp
      then show ?thesis using Cons.IH [of "arnm_load_ptr m (slot z)"] Cons.prems \<open>zs = y # rest\<close> by simp
    qed
  qed simp
  then show ?thesis using assms(1-3) by simp
qed

definition reserve_post :: "nat \<Rightarrow> nat \<Rightarrow> nat \<Rightarrow> addr list \<Rightarrow> world \<Rightarrow>
    arnm_result \<times> nat \<times> addr \<times> addr \<times> world \<Rightarrow> bool" where
  "reserve_post cap spare count ms w = (\<lambda>(r, made, head, final, w').
    undisturbed (set ms) w w' \<and>
    (if r = ARNM_SUCCESS then \<exists>new. dynamic_state (made_pool cap head made) w' {} (new @ ms) \<and> spare + made = count \<and>
       final = (if new @ ms = [] then NULL else last (new @ ms)) \<and> set new \<inter> fst ` block_set w = {} \<and>
       block_set w' = block_set w \<union> (\<lambda>d. (d, SIZEOF_ARNM + cap)) ` set new
     else r = ARNM_ERROR_OUT_OF_MEMORY \<and> host_ok (heap w') \<and>
       block_set w' = block_set w - (\<lambda>d. (d, SIZEOF_ARNM + cap)) ` set ms))"

lemma reserve_loop_ok:
  assumes "dynamic_state (made_pool cap head made) w {} ms" "spare + made \<le> count" "count \<le> UINT32_MAX"
    and "final = (if ms = [] then NULL else last ms)"
  shows "\<exists>res. reserve_loop cap spare count made head final w = Some res \<and> reserve_post cap spare count ms w res"
  using assms
proof (induction cap spare count made head final w arbitrary: ms rule: reserve_loop.induct)
  case (1 cap spare count made head final w)
  let ?q = "made_pool cap head made"
  have st: "host_ok (heap w)" "0 < cap" "cap mod 8 = 0" "cap \<le> ARNM_MAX_ALLOC_SIZE - SIZEOF_ARNM" "length ms = made"
    using "1.prems"(1) by (simp_all add: dynamic_state_def made_pool_def)
  show ?case
  proof (cases "spare + made < count")
    case False
    then show ?thesis using "1.prems" by (subst reserve_loop.simps) (auto simp: reserve_post_def intro!: exI [of _ "[]"])
  next
    case True
    obtain d w1 where m: "make_arena cap w = (d, w1)" by fastforce
    note made = make_arena_ok [OF st(1-4) m] and u = make_arena_undisturbed [OF st(1-4) m]
    have s1: "dynamic_state ?q w1 {} ms" by (rule dynamic_frame [OF "1.prems"(1) u]) (use made in simp_all)
    show ?thesis
    proof (cases "d = NULL")
      case True
      have "linked (slot_at w1) (bytes_of w1) head ms" "distinct ms" "host_ok (heap w1)"
        "\<And>d. d \<in> set ms \<Longrightarrow> (d, SIZEOF_ARNM + cap) \<in> set (blocks (heap w1))"
        using s1 by (simp_all add: dynamic_state_def made_pool_def pool_arena_def)
      from destroy_free_list_ok [OF this(3,1,2,4)]
      obtain w2 where w2: "destroy_free_list head cap w1 = Some w2" "host_ok (heap w2)" "bytes_of w2 = bytes_of w1"
        "set (blocks (heap w2)) = set (blocks (heap w1)) - (\<lambda>d. (d, SIZEOF_ARNM + cap)) ` set ms"
        "handles w2 = handles w1" "chains w2 = chains w1" by blast
      then have "undisturbed (set ms) w1 w2" by (auto simp: undisturbed_def)
      from undisturbed_trans [OF u this] have "undisturbed (set ms) w w2" by simp
      moreover have "block_set w1 = block_set w" using made True by (simp add: block_set_def)
      ultimately show ?thesis
        using w2 m True \<open>spare + made < count\<close> by (subst reserve_loop.simps) (simp add: reserve_post_def block_set_def)
    next
      case False
      let ?w = "arnm_arena_set_next_free d head w1"
      let ?f = "if final = NULL then d else final"
      have d: "d \<notin> fst ` block_set w" "pool_arena w1 cap d" "unused w1 d" "host_ok (heap w1)"
        "block_set w1 = insert (d, SIZEOF_ARNM + cap) (block_set w)"
        using made False by (simp_all add: block_set_def)
      have in_blocks: "e \<in> fst ` block_set w" if "e \<in> set ms" for e
        using dynamic_addresses [OF "1.prems"(1)] that by simp
      then have fresh: "d \<notin> set ms" using d(1) by blast
      have "dynamic_state (made_pool cap d (made + 1)) ?w {} (d # ms)"
      proof -
        have "dynamic_state (?q\<lparr>dp_free_head := d, dp_spare := dp_spare ?q + 1\<rparr>)
            (arnm_arena_set_next_free d (dp_free_head ?q) w1) {} (d # ms)"
          by (rule dynamic_push [OF s1]) (use d fresh st(5) True "1.prems"(3) in \<open>simp_all add: made_pool_def\<close>)
        then show ?thesis by (simp add: made_pool_def)
      qed
      moreover have "last ms \<noteq> NULL" if "ms \<noteq> []"
        using "1.prems"(1) last_in_set [OF that] pool_arena_block(1) [OF st(1), of cap "last ms"]
        by (simp add: dynamic_state_def made_pool_def)
      then have "?f = (if d # ms = [] then NULL else last (d # ms))" using "1.prems"(4) by auto
      ultimately have "\<exists>res. reserve_loop cap spare count (made + 1) d ?f ?w = Some res \<and>
          reserve_post cap spare count (d # ms) ?w res"
        using True "1.prems"(3) by (intro "1.IH" [OF True m [symmetric] False]) simp_all
      then obtain res where rec: "reserve_loop cap spare count (made + 1) d ?f ?w = Some res"
        and post: "reserve_post cap spare count (d # ms) ?w res" by blast
      obtain r made' head' final' w' where res: "res = (r, made', head', final', w')" by (metis prod_cases5)
      have run: "reserve_loop cap spare count made head final w = Some res"
        using rec m False True by (subst reserve_loop.simps) simp
      have und: "undisturbed (set ms) w w'"
      proof -
        have "undisturbed {d} w ?w" using undisturbed_trans [OF u link_undisturbed [OF d(4,2) st(2,3)]] by simp
        moreover have "undisturbed (set (d # ms)) ?w w'" using post by (simp add: reserve_post_def res)
        ultimately have "undisturbed ({d} \<union> set (d # ms)) w w'" by (rule undisturbed_trans)
        then show ?thesis by (rule undisturbed_fresh) (use d(1) in \<open>auto simp: block_set_def\<close>)
      qed
      have minus: "insert (d, SIZEOF_ARNM + cap) (block_set w) - (\<lambda>d. (d, SIZEOF_ARNM + cap)) ` set (d # ms) =
          block_set w - (\<lambda>d. (d, SIZEOF_ARNM + cap)) ` set ms" using d(1) by force
      have "reserve_post cap spare count ms w res"
      proof (cases "r = ARNM_SUCCESS")
        case True
        then obtain new where new: "dynamic_state (made_pool cap head' made') w' {} (new @ d # ms)"
          "spare + made' = count" "final' = last (new @ d # ms)" "set new \<inter> fst ` block_set w1 = {}"
          "block_set w' = block_set w1 \<union> (\<lambda>d. (d, SIZEOF_ARNM + cap)) ` set new"
          using post by (auto simp: reserve_post_def res)
        have "set (new @ [d]) \<inter> fst ` block_set w = {}" using new(4) d(1,5) by auto
        then show ?thesis
          unfolding reserve_post_def res prod.case
          using True und d(5) new(1-3,5) by (simp add: exI [of _ "new @ [d]"])
      next
        case False
        then show ?thesis using post und d(5) minus by (simp add: reserve_post_def res)
      qed
      then show ?thesis using run by blast
    qed
  qed
qed

text \<open>
  Reserve either fills the free list up to \<open>count\<close> or, when the heap runs out on the way, gives back
  all it made and leaves the pool as it was.
\<close>

lemma dynamic_reserve_ok:
  assumes "dynamic_state p w out free" "count \<le> dp_spare_limit p"
  shows "\<exists>r q w' new. arnm_dynamic_arena_pool_reserve (Some p) count w = Some (r, Some q, w') \<and>
    undisturbed {} w w' \<and> dp_capacity q = dp_capacity p \<and> dynamic_state q w' out (new @ free) \<and>
    (r = ARNM_SUCCESS \<and> dp_spare q = max count (dp_spare p) \<or> r = ARNM_ERROR_OUT_OF_MEMORY \<and> q = p \<and> new = []) \<and>
    set new \<inter> fst ` block_set w = {} \<and> block_set w' = block_set w \<union> arena_blocks p (set new)"
proof (cases "dp_spare p \<ge> count")
  case True
  then show ?thesis
    using assms by (auto simp: arnm_dynamic_arena_pool_reserve_def dynamic_state_def intro!: exI [of _ "[]"])
next
  case False
  let ?cap = "dp_capacity p"
  have st: "host_ok (heap w)" "0 < ?cap" "?cap mod 8 = 0" "?cap \<le> ARNM_MAX_ALLOC_SIZE - SIZEOF_ARNM"
    "dp_spare_limit p \<le> UINT32_MAX" "dp_spare p = length free"
    using assms(1) by (simp_all add: dynamic_state_def)
  have "dynamic_state (made_pool ?cap NULL 0) w {} []" using st by (simp add: dynamic_state_def made_pool_def)
  then obtain res where loop: "reserve_loop ?cap (dp_spare p) count 0 NULL NULL w = Some res"
    and post: "reserve_post ?cap (dp_spare p) count [] w res"
    using reserve_loop_ok [of ?cap NULL 0 w "[]" "dp_spare p" count NULL] False assms(2) st(5) by auto
  obtain r made head final w1 where res: "res = (r, made, head, final, w1)" by (metis prod_cases5)
  have u: "undisturbed {} w w1" using post by (simp add: reserve_post_def res)
  show ?thesis
  proof (cases "r = ARNM_SUCCESS")
    case err: False
    then have "r = ARNM_ERROR_OUT_OF_MEMORY" "host_ok (heap w1)" "block_set w1 = block_set w"
      using post by (simp_all add: reserve_post_def res)
    then show ?thesis
      using u loop res False assms(2) st(2) dynamic_frame [OF assms(1) u]
      by (auto simp: arnm_dynamic_arena_pool_reserve_def intro!: exI [of _ "[]"])
  next
    case True
    then obtain new where new: "dynamic_state (made_pool ?cap head made) w1 {} new" "dp_spare p + made = count"
      "final = (if new = [] then NULL else last new)" "set new \<inter> fst ` block_set w = {}"
      "block_set w1 = block_set w \<union> (\<lambda>d. (d, SIZEOF_ARNM + ?cap)) ` set new"
      using post by (auto simp: reserve_post_def res)
    let ?w = "arnm_arena_set_next_free final (dp_free_head p) w1"
    let ?q = "p\<lparr>dp_free_head := head, dp_spare := dp_spare p + made\<rparr>"
    have ns: "length new = made" "linked (slot_at w1) (bytes_of w1) head new" "distinct new" "host_ok (heap w1)"
      "\<forall>d\<in>set new. pool_arena w1 ?cap d" "\<forall>d\<in>set new. unused w1 d"
      using new(1) by (simp_all add: dynamic_state_def made_pool_def)
    have ne: "new \<noteq> []" using ns(1) new(2) False by auto
    then have final: "final = last new" "final \<in> set new" "pool_arena w1 ?cap final" using new(3) ns(5) by auto
    note old = dynamic_addresses [OF assms(1)]
    then have disj: "set new \<inter> (set free \<union> out) = {}" using new(4) by blast
    have s1: "dynamic_state p w1 out free" by (rule dynamic_frame [OF assms(1) u]) (use ns(4) in simp_all)
    then have free: "linked (slot_at w1) (bytes_of w1) (dp_free_head p) free" "\<forall>d\<in>set free. pool_arena w1 ?cap d"
      by (simp_all add: dynamic_state_def)
    have "dp_free_head p < ADDRESS_END"
    proof (cases free)
      case (Cons x xs)
      then have "dp_free_head p = x" "pool_arena w1 ?cap x" using free by simp_all
      then show ?thesis using pool_arena_block(2) [OF ns(4)] by fastforce
    qed (use free(1) in simp)
    moreover have "apart (slot_at w1 (last new)) 8 (slot_at w1 x) 8" if "x \<in> set new \<union> set free" "x \<noteq> last new" for x
    proof -
      have "pool_arena w1 ?cap x" using that ns(5) free(2) by auto
      then show ?thesis
        using pool_buffers_apart [OF ns(4) final(3), of ?cap x] that(2) final(1) pool_arena_block(3) [OF ns(4)] final(3)
          cap_slot [OF st(2,3)] by (auto simp: apart_def)
    qed
    ultimately have "linked (slot_at w1) (store_ptr (bytes_of w1) (slot_at w1 (last new)) (dp_free_head p)) head (new @ free)"
      using linked_append [OF ns(2) ne ns(3) free(1)] disj final(1,2) by blast
    then have list: "linked (slot_at ?w) (bytes_of ?w) head (new @ free)" using final(1) by simp
    have "dynamic_state ?q ?w out (new @ free)"
      using list s1 disj ns new(2) assms(2) by (simp add: dynamic_state_def Int_Un_distrib2 Int_Un_distrib ball_Un)
    moreover have "undisturbed {} w ?w"
    proof -
      have uf: "undisturbed {final} w ?w" using undisturbed_trans [OF u link_undisturbed [OF ns(4) final(3) st(2,3)]] by simp
      have nf: "final \<notin> fst ` set (blocks (heap w))" using final(2) new(4) unfolding block_set_def by blast
      show ?thesis by (rule undisturbed_fresh [OF uf]) (simp add: nf)
    qed
    moreover have "arnm_dynamic_arena_pool_reserve (Some p) count w = Some (ARNM_SUCCESS, Some ?q, ?w)"
      using loop res True False assms(2) st(2,5) new(2) by (auto simp: arnm_dynamic_arena_pool_reserve_def)
    ultimately show ?thesis using new(2,4,5) False by (intro exI [of _ ARNM_SUCCESS] exI [of _ ?q] exI [of _ ?w] exI [of _ new]) auto
  qed
qed

section \<open>The pool keeps the contract\<close>

text \<open>The holder of an arena may do with it what it likes.\<close>

lemma dynamic_touch:
  assumes "dynamic_state p w out free" "d \<in> out" "undisturbed {d} w w'" "host_ok (heap w')"
    and "pool_arena w' (dp_capacity p) d"
  shows "dynamic_state p w' out free"
proof -
  let ?p = "p\<lparr>dp_acquired := card out - 1\<rparr>"
  have "dynamic_state ?p w (out - {d}) free" using assms(1,2) by (auto simp: dynamic_state_def)
  then have "dynamic_state ?p w' (out - {d}) free"
    by (rule dynamic_frame [OF _ assms(3)]) (use assms(1,2,4) in \<open>auto simp: dynamic_state_def\<close>)
  then show ?thesis using assms(1,2,5) by (auto simp: dynamic_state_def)
qed

text \<open>\<open>base\<close>: the heap blocks that are not the pool's. All others are its arenas.\<close>

definition dynamic_pool_ok :: "(addr \<times> nat) set \<Rightarrow> dynamic_arena_pool \<times> world \<Rightarrow> addr set \<Rightarrow> bool" where
  "dynamic_pool_ok base = (\<lambda>(p, w) out. \<exists>free. dynamic_state p w out free \<and>
    block_set w = base \<union> arena_blocks p (set free \<union> out) \<and> fst ` base \<inter> (set free \<union> out) = {})"

definition dynamic_pool_ops :: "(dynamic_arena_pool \<times> world) pool_ops" where
  "dynamic_pool_ops =
    \<lparr>po_take = (\<lambda>n (p, w). case arnm_dynamic_arena_pool_alloc (Some p) (Some NULL) w of
        (r, q, out, w) \<Rightarrow> (r, the out, (the q, w))),
     po_give = (\<lambda>d (p, w). case arnm_dynamic_arena_pool_free (Some p) d w of (r, q, w) \<Rightarrow> (r, (the q, w))),
     po_mem = (\<lambda>(p, w). bytes_of w),
     po_set_mem = (\<lambda>m (p, w). (p, set_bytes m w)),
     po_arena = (\<lambda>d (p, w). object_at d w),
     po_set_arena = (\<lambda>d a (p, w). (p, set_handle d a w))\<rparr>"

lemma dynamic_pool_ops_simps [simp]:
  "po_mem dynamic_pool_ops (p, w) = bytes_of w" "po_set_mem dynamic_pool_ops m (p, w) = (p, set_bytes m w)"
  "po_arena dynamic_pool_ops d (p, w) = object_at d w"
  "po_set_arena dynamic_pool_ops d a (p, w) = (p, set_handle d a w)"
  by (simp_all add: dynamic_pool_ops_def)

lemma dynamic_member:
  assumes "dynamic_state p w out free" "d \<in> out"
  shows "host_ok (heap w)" "pool_arena w (dp_capacity p) d" "descriptor_ok (object_at d w)"
    "slot_at w d = d + SIZEOF_ARNM" "capacity (object_at d w) = dp_capacity p" "d \<noteq> NULL"
  using assms pool_arena_block [of w "dp_capacity p" d] by (auto simp: dynamic_state_def pool_arena_def stands_def)

lemma dynamic_take_law:
  assumes "dynamic_pool_ok base (p, w) out" "po_take dynamic_pool_ops n (p, w) = (r, d, q, w')"
  shows "(if r = ARNM_SUCCESS then dynamic_pool_ok base (q, w') (insert d out) \<and> d \<notin> out \<and> empty_arena (object_at d w')
       else dynamic_pool_ok base (q, w') out) \<and>
    (\<forall>e\<in>out. object_at e w' = object_at e w \<and>
      rd (bytes_of w') (slot_at w e) (capacity (object_at e w)) = rd (bytes_of w) (slot_at w e) (capacity (object_at e w)))"
proof -
  obtain free where st: "dynamic_state p w out free" and bs: "block_set w = base \<union> arena_blocks p (set free \<union> out)"
    and ap: "fst ` base \<inter> (set free \<union> out) = {}" using assms(1) by (auto simp: dynamic_pool_ok_def)
  obtain q1 res where a: "arnm_dynamic_arena_pool_alloc (Some p) (Some NULL) w = (r, q1, res, w')" "d = the res" "q = the q1"
    using assms(2) by (auto simp: dynamic_pool_ops_def split: prod.splits)
  note post = dynamic_alloc_ok [OF st a(1)]
  have "object_at e w' = object_at e w \<and>
      rd (bytes_of w') (slot_at w e) (capacity (object_at e w)) = rd (bytes_of w) (slot_at w e) (capacity (object_at e w))"
    if "e \<in> out" for e
    using pool_arena_undisturbed(2,3) [OF conjunct1 [OF post] dynamic_member(2) [OF st that]] dynamic_member [OF st that] by simp
  moreover have "if r = ARNM_SUCCESS then dynamic_pool_ok base (q, w') (insert d out) \<and> d \<notin> out \<and> empty_arena (object_at d w')
       else dynamic_pool_ok base (q, w') out"
  proof (cases "r = ARNM_SUCCESS")
    case True
    then obtain free' where p': "dynamic_state q w' (insert d out) free'" "dp_capacity q = dp_capacity p" "d \<notin> out"
      "empty_arena (object_at d w')" "insert d (set free') = insert d (set free)" "d \<in> set free \<or> d \<notin> fst ` block_set w"
      "block_set w' = insert (d, SIZEOF_ARNM + dp_capacity p) (block_set w)"
      using post a(2,3) by auto
    have eq: "set free' \<union> insert d out = insert d (set free \<union> out)" using p'(5) by blast
    have "block_set w' = base \<union> arena_blocks q (set free' \<union> insert d out)" unfolding eq p'(2,7) bs by auto
    moreover have "fst ` base \<inter> (set free' \<union> insert d out) = {}"
      unfolding eq using p'(6) ap bs by auto
    ultimately have "dynamic_pool_ok base (q, w') (insert d out)" using p'(1) by (auto simp: dynamic_pool_ok_def)
    then show ?thesis using p'(3,4) True by simp
  next
    case False
    then show ?thesis using post a(3) bs ap by (auto simp: dynamic_pool_ok_def)
  qed
  ultimately show ?thesis by blast
qed

lemma dynamic_give_law:
  assumes "dynamic_pool_ok base (p, w) out" "d \<in> out" "po_give dynamic_pool_ops d (p, w) = (r, q, w')"
  shows "r = ARNM_SUCCESS \<and> dynamic_pool_ok base (q, w') (out - {d}) \<and>
    (\<forall>e\<in>out - {d}. object_at e w' = object_at e w \<and>
      rd (bytes_of w') (slot_at w e) (capacity (object_at e w)) = rd (bytes_of w) (slot_at w e) (capacity (object_at e w)))"
proof -
  obtain free where st: "dynamic_state p w out free" and bs: "block_set w = base \<union> arena_blocks p (set free \<union> out)"
    and ap: "fst ` base \<inter> (set free \<union> out) = {}" using assms(1) by (auto simp: dynamic_pool_ok_def)
  obtain q1 w1 free' where g: "arnm_dynamic_arena_pool_free (Some p) d w = (ARNM_SUCCESS, Some q1, w1)"
    "dynamic_state q1 w1 (out - {d}) free'" "dp_capacity q1 = dp_capacity p" "undisturbed {d} w w1"
    "if length free < dp_spare_limit p then set free' = insert d (set free) \<and> block_set w1 = block_set w
     else set free' = set free \<and> block_set w1 = block_set w - {(d, SIZEOF_ARNM + dp_capacity p)}"
    using dynamic_free_ok [OF st assms(2)] by blast
  then have res: "r = ARNM_SUCCESS" "q = q1" "w' = w1" using assms(3) by (simp_all add: dynamic_pool_ops_def)
  have "d \<notin> set free" "d \<notin> fst ` base" using st ap assms(2) by (auto simp: dynamic_state_def)
  then have "block_set w1 = base \<union> arena_blocks q1 (set free' \<union> (out - {d}))" "fst ` base \<inter> (set free' \<union> (out - {d})) = {}"
    using g(3,5) bs ap assms(2) by (force split: if_splits)+
  then have "dynamic_pool_ok base (q1, w1) (out - {d})" using g(2) by (auto simp: dynamic_pool_ok_def)
  moreover have "object_at e w1 = object_at e w \<and>
      rd (bytes_of w1) (slot_at w e) (capacity (object_at e w)) = rd (bytes_of w) (slot_at w e) (capacity (object_at e w))"
    if "e \<in> out - {d}" for e
  proof -
    have e: "e \<in> out" "e \<notin> {d}" using that by auto
    show ?thesis
      using pool_arena_undisturbed(2,3) [OF g(4) dynamic_member(2) [OF st e(1)] e(2)] dynamic_member [OF st e(1)] by simp
  qed
  ultimately show ?thesis using res by blast
qed

text \<open>Stores into an arena's buffer, and allocations from it, disturb nothing but that arena.\<close>

lemma write_undisturbed:
  assumes "host_ok (heap w)" "pool_arena w cap d"
    and "\<And>x. x \<notin> region (slot_at w d) n \<Longrightarrow> m x = bytes_of w x" "n \<le> cap"
  shows "undisturbed {d} w (set_bytes m w)"
  unfolding undisturbed_def
proof (intro allI impI)
  fix e k assume e: "(e, k) \<in> set (blocks (heap w)) \<and> e \<notin> {d}"
  then have "apart d (SIZEOF_ARNM + cap) e k" using pool_arenas_apart [OF assms(1,2)] by auto
  then have "rd m e k = rd (bytes_of w) e k"
    using assms(3,4) pool_arena_block(3) [OF assms(1,2)] by (intro rd_cong) (auto simp: apart_def)
  then show "(e, k) \<in> set (blocks (heap (set_bytes m w))) \<and> handles (set_bytes m w) e = handles w e \<and>
      chains (set_bytes m w) e = chains w e \<and> rd (bytes_of (set_bytes m w)) e k = rd (bytes_of w) e k"
    using e by (simp add: set_bytes_def)
qed

lemma use_undisturbed:
  assumes "pool_arena w cap d" "arena_ok a" "a\<lparr>last_index := l, out_of_memory_capacity := k\<rparr> = object_at d w"
  shows "undisturbed {d} w (set_handle d a w)" "pool_arena (set_handle d a w) cap d"
proof -
  have same: "data a = data (object_at d w)" "capacity a = capacity (object_at d w)"
    "allocation_type a = allocation_type (object_at d w)"
    unfolding assms(3) [symmetric] by simp_all
  show "undisturbed {d} w (set_handle d a w)" by (simp add: undisturbed_def set_handle_def)
  show "pool_arena (set_handle d a w) cap d"
    using assms(1,2) same by (simp add: pool_arena_def stands_def descriptor_ok_def) (simp add: set_handle_def)
qed

lemma dynamic_set_law:
  assumes "dynamic_pool_ok base (p, w) out" "d \<in> out"
    and "\<And>x. x \<notin> region (slot_at w d) (capacity (object_at d w)) \<Longrightarrow> m x = bytes_of w x"
  shows "dynamic_pool_ok base (p, set_bytes m w) out"
proof -
  obtain free where st: "dynamic_state p w out free" and bs: "block_set w = base \<union> arena_blocks p (set free \<union> out)"
    and ap: "fst ` base \<inter> (set free \<union> out) = {}" using assms(1) by (auto simp: dynamic_pool_ok_def)
  note d = dynamic_member [OF st assms(2)]
  have "undisturbed {d} w (set_bytes m w)" by (rule write_undisturbed [OF d(1,2) assms(3) eq_refl [OF d(5)]])
  then have "dynamic_state p (set_bytes m w) out free"
    using d by (intro dynamic_touch [OF st assms(2)]) (simp_all add: pool_arena_def)
  then show ?thesis using bs ap by (auto simp: dynamic_pool_ok_def block_set_def)
qed

lemma dynamic_use_law:
  assumes "dynamic_pool_ok base (p, w) out" "d \<in> out" "arena_ok a"
    and "a\<lparr>last_index := l, out_of_memory_capacity := k\<rparr> = object_at d w"
  shows "dynamic_pool_ok base (p, set_handle d a w) out"
proof -
  obtain free where st: "dynamic_state p w out free" and bs: "block_set w = base \<union> arena_blocks p (set free \<union> out)"
    and ap: "fst ` base \<inter> (set free \<union> out) = {}" using assms(1) by (auto simp: dynamic_pool_ok_def)
  note d = dynamic_member [OF st assms(2)]
  have "dynamic_state p (set_handle d a w) out free"
    using use_undisturbed [OF d(2) assms(3,4)] d(1) by (intro dynamic_touch [OF st assms(2)]) simp_all
  then show ?thesis using bs ap by (auto simp: dynamic_pool_ok_def block_set_def)
qed

interpretation dynamic_pool: arena_pool dynamic_pool_ops "dynamic_pool_ok base" for base
proof (unfold_locales, goal_cases)
  case (1 s out d e)
  obtain p w where s: "s = (p, w)" by fastforce
  then obtain free where st: "dynamic_state p w out free" using 1(1) by (auto simp: dynamic_pool_ok_def)
  show ?case
    using pool_buffers_apart [OF dynamic_member(1,2) [OF st 1(2)] dynamic_member(2) [OF st 1(3)] 1(4)]
      dynamic_member(4,5) [OF st 1(2)] dynamic_member(4,5) [OF st 1(3)] s by simp
next
  case (2 s out n r d s')
  obtain p w q w' where s: "s = (p, w)" "s' = (q, w')" by (metis prod.exhaust)
  show ?case using dynamic_take_law [of base p w out n r d q w'] 2 unfolding s by simp
next
  case (3 s out d r s')
  obtain p w q w' where s: "s = (p, w)" "s' = (q, w')" by (metis prod.exhaust)
  show ?case using dynamic_give_law [of base p w out d r q w'] 3 unfolding s by simp
next
  case (4 s out d m)
  obtain p w where s: "s = (p, w)" by fastforce
  show ?case using 4 unfolding s dynamic_pool_ops_simps by (rule dynamic_set_law)
next
  case (5 s out d a l k)
  obtain p w where s: "s = (p, w)" by fastforce
  then have "d \<noteq> NULL" using dynamic_member(6) 5(1,2) by (auto simp: dynamic_pool_ok_def)
  then show ?case using 5 s dynamic_use_law [of base p w out d a l k] by simp
next
  case (6 d e a s)
  then show ?case by (cases s) simp
next
  case (7 d a s)
  then show ?case by (cases s) simp
next
  case (8 s out d)
  then show ?case using dynamic_member(3) by (cases s) (auto simp: dynamic_pool_ok_def)
next
  case (9 m s)
  then show ?case by (cases s) simp
next
  case (10 e m s)
  then show ?case by (cases s) simp
qed

section \<open>What the pool promises\<close>

lemma dynamic_init_ok:
  assumes "host_ok (heap w)" "spare_limit \<le> UINT32_MAX"
    and "arnm_dynamic_arena_pool_init (Some p) cap spare_limit = (ARNM_SUCCESS, pool)"
  shows "\<exists>q. pool = Some q \<and> dynamic_pool_ok (block_set w) (q, w) {} \<and> dynamic_state q w {} [] \<and>
    dp_capacity q = ARNM_ALIGN8 cap \<and> dp_spare_limit q = spare_limit"
proof -
  have c: "cap \<noteq> 0" "arnm_align8_u32 cap \<noteq> 0" "\<not> arnm_align8_u32 cap > ARNM_MAX_ALLOC_SIZE - SIZEOF_ARNM"
    using assms(3) by (auto simp: arnm_dynamic_arena_pool_init_def Let_def split: if_splits)
  then have u: "arnm_align8_u32 cap = ARNM_ALIGN8 cap" "ARNM_ALIGN8 cap mod 8 = 0" "0 < ARNM_ALIGN8 cap"
    using align8_bounds [of cap] by (auto simp: arnm_align8_u32_def split: if_splits)
  let ?q = "p\<lparr>dp_free_head := NULL, dp_capacity := ARNM_ALIGN8 cap, dp_acquired := 0, dp_spare := 0,
    dp_spare_limit := spare_limit\<rparr>"
  have "pool = Some ?q" using assms(3) c u(1) by (simp add: arnm_dynamic_arena_pool_init_def Let_def)
  moreover have "dynamic_state ?q w {} []" using assms(1,2) c(3) u by (simp add: dynamic_state_def)
  ultimately show ?thesis by (auto simp: dynamic_pool_ok_def)
qed

text \<open>C19: Whatever a program does with the arenas of a pool made by \<open>init\<close>, taking them, allocating from
  them, writing into them and giving them back in any order, it finds in every buffer it holds what
  it wrote there, no two of those buffers overlap, and no memory is lost: the heap holds the blocks it
  held before, plus one per arena that is out or spare. Release then refuses as long as an arena is
  out, and otherwise gives all of it back, so that the heap holds the blocks it held before.
\<close>

theorem dynamic_pool_loses_nothing:
  assumes "host_ok (heap w)" "spare_limit \<le> UINT32_MAX"
    and "arnm_dynamic_arena_pool_init (Some p) cap spare_limit = (ARNM_SUCCESS, Some q)"
    and "pool_run dynamic_pool_ops reqs ((q, w), []) = ((q', w'), held)"
  shows "holds dynamic_pool_ops (q', w') held \<and>
    sorted_wrt (\<lambda>(d, bs) (e, cs). apart (slot_at w' d) (length bs) (slot_at w' e) (length cs)) held \<and>
    card (set (blocks (heap w')) - set (blocks (heap w))) =
      length held + arnm_dynamic_arena_pool_available (Some q') \<and>
    set (blocks (heap w)) \<subseteq> set (blocks (heap w')) \<and>
    (if held \<noteq> [] then arnm_dynamic_arena_pool_release (Some q') w' = Some (ARNM_ERROR_RESOURCE_IN_USE, Some q', w')
     else \<exists>w''. arnm_dynamic_arena_pool_release (Some q') w' =
         Some (ARNM_SUCCESS, Some (dynamic_forget_everything q'), w'') \<and>
       set (blocks (heap w'')) = set (blocks (heap w)))"
proof -
  have q: "dynamic_pool_ok (block_set w) (q, w) {}" using dynamic_init_ok [OF assms(1-3)] by auto
  note owed = dynamic_pool.client_owed [OF q assms(4)]
  let ?out = "fst ` set held"
  obtain free where st: "dynamic_state q' w' ?out free"
    and bs: "block_set w' = block_set w \<union> arena_blocks q' (set free \<union> ?out)"
    and ap: "fst ` block_set w \<inter> (set free \<union> ?out) = {}" using owed by (auto simp: dynamic_pool_ok_def)
  have c: "card ?out = length held"
    using owed distinct_card [of "map fst held"] by (simp add: holds_def)
  have dis: "arena_blocks q' (set free \<union> ?out) \<inter> block_set w = {}" using ap by force
  have "card (block_set w' - block_set w) = card (arena_blocks q' (set free \<union> ?out))"
    unfolding bs using dis by (simp add: Un_Diff Diff_triv)
  also have "\<dots> = card (set free \<union> ?out)" by (rule card_image) (simp add: inj_on_def)
  also have "\<dots> = length free + length held"
    using st c by (simp add: card_Un_disjoint distinct_card dynamic_state_def)
  finally have n: "card (block_set w' - block_set w) = length held + arnm_dynamic_arena_pool_available (Some q')"
    using st by (simp add: arnm_dynamic_arena_pool_available_def dynamic_state_def)
  obtain w2 where rel: "arnm_dynamic_arena_pool_release (Some q') w' =
      (if ?out = {} then Some (ARNM_SUCCESS, Some (dynamic_forget_everything q'), w2)
       else Some (ARNM_ERROR_RESOURCE_IN_USE, Some q', w'))"
    "block_set w2 = block_set w' - arena_blocks q' (set free)"
    using dynamic_release_ok [OF st] by blast
  have gone: "block_set w2 = block_set w" if "held = []"
    unfolding rel(2) bs using that dis by auto
  have "block_set w \<subseteq> block_set w'" unfolding bs by blast
  then show ?thesis using owed n rel(1) gone by (auto simp: block_set_def)
qed

lemma dynamic_pool_loses_nothing_witness:
  "\<exists>q q' w' held. arnm_dynamic_arena_pool_init (Some fresh_dynamic_pool) 100 1 = (ARNM_SUCCESS, Some q) \<and>
    pool_run dynamic_pool_ops [PR_Take 0, PR_Take 0, PR_Write 0 5 9, PR_Alloc 1 24, PR_Give 0, PR_Give 0]
      ((q, sample_host), []) = ((q', w'), held) \<and>
    card (set (blocks (heap w')) - set (blocks (heap sample_host))) =
      length held + arnm_dynamic_arena_pool_available (Some q')"
proof -
  obtain q where init: "arnm_dynamic_arena_pool_init (Some fresh_dynamic_pool) 100 1 = (ARNM_SUCCESS, Some q)"
    by (auto simp: arnm_dynamic_arena_pool_init_def arnm_align8_u32_def ARNM_ALIGN8_def ARNM_MAX_ALLOC_SIZE_def
        UINT32_MAX_def SIZEOF_ARNM_def)
  obtain q' w' held where run: "pool_run dynamic_pool_ops
      [PR_Take 0, PR_Take 0, PR_Write 0 5 9, PR_Alloc 1 24, PR_Give 0, PR_Give 0] ((q, sample_host), []) = ((q', w'), held)"
    by (metis prod.exhaust)
  have "host_ok (heap sample_host)" by (simp add: sample_host_def host_ok_def)
  from dynamic_pool_loses_nothing [OF this _ init run] show ?thesis using init run by (auto simp: UINT32_MAX_def)
qed

end
