(* ===== verification/Graded_Arena_Pool.thy ===== *)
theory Graded_Arena_Pool
  imports Dynamic_Arena_Pool Bits
begin

unbundle bit_operations_syntax

text \<open>
  The ladder of dynamic pools (\<^verbatim>\<open>src/graded_arena_pool.c\<close>): one pool per capacity, the capacities powers of
  two in ascending order, the set of them a bitmap, so that the grade for a size is a count of bits.
  The array of pools on the C heap is the list \<open>gp_grades\<close>; \<open>gp_ladder\<close> is its address.
\<close>

record graded_arena_pool =
  gp_ladder :: addr
  gp_grades :: "dynamic_arena_pool list"
  gp_count :: nat
  gp_bits :: "32 word"

definition ARNM_GRADED_MIN_SIZE :: nat where "ARNM_GRADED_MIN_SIZE = 8"
definition ARNM_GRADED_MAX_SIZE :: nat where "ARNM_GRADED_MAX_SIZE = 2147483648"
definition ARNM_GRADED_MAX_GRADE_COUNT :: nat where "ARNM_GRADED_MAX_GRADE_COUNT = 29"
definition SIZEOF_GRADED_ARENA_POOL :: nat where "SIZEOF_GRADED_ARENA_POOL = 16"

definition grades_bytes :: "nat \<Rightarrow> nat" where
  "grades_bytes n = u32 (SIZEOF_DYNAMIC_ARENA_POOL * n)"

definition graded_forget_everything :: "graded_arena_pool \<Rightarrow> graded_arena_pool" where
  "graded_forget_everything p = p\<lparr>gp_ladder := NULL, gp_grades := [], gp_count := 0, gp_bits := 0\<rparr>"

definition grade_for_size :: "graded_arena_pool \<Rightarrow> nat \<Rightarrow> nat" where
  "grade_for_size p sz =
    (if sz > ARNM_GRADED_MAX_SIZE then gp_count p
     else
       let at_or_above = gp_bits p AND NOT (arnm_ceil_power_of_two (of_nat sz) - 1)
       in if at_or_above = 0 then gp_count p
          else u16 (arnm_popcount (gp_bits p AND NOT at_or_above)))"

definition grade_for_capacity :: "graded_arena_pool \<Rightarrow> nat \<Rightarrow> nat" where
  "grade_for_capacity p cap =
    (if \<not> arnm_is_power_of_two (of_nat cap) then gp_count p
     else
       let slot = u16 (arnm_popcount (gp_bits p AND (of_nat cap - 1)))
       in if slot \<ge> gp_count p \<or> dp_capacity (gp_grades p ! slot) \<noteq> cap then gp_count p else slot)"

text \<open>The loop of \<open>init\<close> that checks the sizes and collects their bits; \<open>None\<close> is the refusal.\<close>

fun check_sizes :: "nat list \<Rightarrow> nat \<Rightarrow> 32 word \<Rightarrow> 32 word option" where
  "check_sizes [] previous grade_bits = Some grade_bits"
| "check_sizes (cap # rest) previous grade_bits =
    (if \<not> arnm_is_power_of_two (of_nat cap) then None
     else if cap < ARNM_GRADED_MIN_SIZE \<or> cap > ARNM_GRADED_MAX_SIZE then None
     else if cap \<le> previous then None
     else check_sizes rest cap (grade_bits OR push_bit (arnm_ctz (of_nat cap)) 1))"

definition make_grade :: "nat \<Rightarrow> nat \<Rightarrow> dynamic_arena_pool" where
  "make_grade spare_per_grade cap =
    the (snd (arnm_dynamic_arena_pool_init (Some fresh_dynamic_pool) cap spare_per_grade))"

definition arnm_graded_arena_pool_init :: "graded_arena_pool option \<Rightarrow> nat list option \<Rightarrow> nat \<Rightarrow> nat \<Rightarrow> world \<Rightarrow>
    arnm_result \<times> graded_arena_pool option \<times> world" where
  "arnm_graded_arena_pool_init pool sizes n spare_per_grade w =
    (case (pool, sizes) of
       (Some p, Some sizes) \<Rightarrow>
         if n = 0 then (ARNM_ERROR_INVALID_PARAM, pool, w)
         else if n > ARNM_GRADED_MAX_GRADE_COUNT then (ARNM_ERROR_INVALID_PARAM, pool, w)
         else case check_sizes (take n sizes) 0 0 of
           None \<Rightarrow> (ARNM_ERROR_INVALID_PARAM, pool, w)
         | Some grade_bits \<Rightarrow>
             (case arnm_alloc (Some NULL) (grades_bytes n) NULL w of
                (allocated, ladder, w) \<Rightarrow>
                  if allocated \<noteq> ARNM_SUCCESS then (allocated, pool, w)
                  else (ARNM_SUCCESS,
                    Some (p\<lparr>gp_ladder := the ladder, gp_grades := map (make_grade spare_per_grade) (take n sizes),
                      gp_count := n, gp_bits := grade_bits\<rparr>), w))
     | _ \<Rightarrow> (ARNM_ERROR_NULL_POINTER, pool, w))"

definition fresh_graded_pool :: graded_arena_pool where
  "fresh_graded_pool = \<lparr>gp_ladder = NULL, gp_grades = [], gp_count = 0, gp_bits = 0\<rparr>"

definition arnm_graded_arena_pool_create :: "nat list option \<Rightarrow> nat \<Rightarrow> nat \<Rightarrow> addr \<Rightarrow> world \<Rightarrow>
    (addr \<times> graded_arena_pool) option \<times> world" where
  "arnm_graded_arena_pool_create sizes n spare_per_grade allocator w =
    (case memory_alloc (Some NULL) SIZEOF_GRADED_ARENA_POOL allocator w of
       (result, block, w) \<Rightarrow>
         if result \<noteq> ARNM_SUCCESS then (None, w)
         else case arnm_graded_arena_pool_init (Some fresh_graded_pool) sizes n spare_per_grade w of
           (result, pool, w) \<Rightarrow>
             if result \<noteq> ARNM_SUCCESS then
               (None, snd (memory_free (the block) SIZEOF_GRADED_ARENA_POOL allocator w))
             else (Some (the block, the pool), w))"

text \<open>Releasing the grades one after the other; \<open>None\<close> when one of them never returns.\<close>

fun release_grades :: "dynamic_arena_pool list \<Rightarrow> world \<Rightarrow> world option" where
  "release_grades [] w = Some w"
| "release_grades (g # gs) w =
    Option.bind (arnm_dynamic_arena_pool_release (Some g) w) (\<lambda>(_, _, w). release_grades gs w)"

definition arnm_graded_arena_pool_release :: "graded_arena_pool option \<Rightarrow> world \<Rightarrow>
    (arnm_result \<times> graded_arena_pool option \<times> world) option" where
  "arnm_graded_arena_pool_release pool w =
    (case pool of None \<Rightarrow> Some (ARNM_ERROR_NULL_POINTER, pool, w)
     | Some p \<Rightarrow>
       if gp_ladder p = NULL then Some (ARNM_SUCCESS, Some (graded_forget_everything p), w)
       else if \<exists>g\<in>set (gp_grades p). dp_acquired g \<noteq> 0 then Some (ARNM_ERROR_RESOURCE_IN_USE, pool, w)
       else Option.bind (release_grades (gp_grades p) w)
         (\<lambda>w. case arnm_free (gp_ladder p) (grades_bytes (gp_count p)) NULL w of
            (r, w) \<Rightarrow> Some (r, Some (graded_forget_everything p), w)))"

definition arnm_graded_arena_pool_destroy :: "(addr \<times> graded_arena_pool) option \<Rightarrow> addr \<Rightarrow> world \<Rightarrow>
    (arnm_result \<times> (addr \<times> graded_arena_pool) option \<times> world) option" where
  "arnm_graded_arena_pool_destroy pool allocator w =
    (case pool of None \<Rightarrow> Some (ARNM_SUCCESS, None, w)
     | Some (a, p) \<Rightarrow>
       Option.bind (arnm_graded_arena_pool_release (Some p) w)
         (\<lambda>(released, p', w).
           if released = ARNM_ERROR_RESOURCE_IN_USE then Some (released, Some (a, the p'), w)
           else case memory_free a SIZEOF_GRADED_ARENA_POOL allocator w of
             (freed, w) \<Rightarrow> Some (if released \<noteq> ARNM_SUCCESS then released else freed, None, w)))"

definition arnm_graded_arena_pool_capacity_for :: "graded_arena_pool option \<Rightarrow> nat \<Rightarrow> nat" where
  "arnm_graded_arena_pool_capacity_for pool sz =
    (case pool of None \<Rightarrow> 0
     | Some p \<Rightarrow>
       if gp_ladder p = NULL \<or> sz = 0 then 0
       else let index = grade_for_size p sz
            in if index < gp_count p then dp_capacity (gp_grades p ! index) else 0)"

definition arnm_graded_arena_pool_grade_at :: "graded_arena_pool option \<Rightarrow> nat \<Rightarrow> dynamic_arena_pool option" where
  "arnm_graded_arena_pool_grade_at pool index =
    (case pool of None \<Rightarrow> None
     | Some p \<Rightarrow> if gp_ladder p = NULL \<or> index \<ge> gp_count p then None else Some (gp_grades p ! index))"

definition arnm_graded_arena_pool_grade_count :: "graded_arena_pool option \<Rightarrow> nat" where
  "arnm_graded_arena_pool_grade_count pool =
    (case pool of None \<Rightarrow> 0 | Some p \<Rightarrow> if gp_ladder p = NULL then 0 else gp_count p)"

definition arnm_graded_arena_pool_reserved :: "graded_arena_pool option \<Rightarrow> nat" where
  "arnm_graded_arena_pool_reserved pool =
    (case pool of None \<Rightarrow> 0
     | Some p \<Rightarrow>
       if gp_ladder p = NULL then 0
       else fold (\<lambda>g sum. u64 (sum + arnm_dynamic_arena_pool_reserved (Some g))) (gp_grades p)
              (grades_bytes (gp_count p)))"

definition set_grade :: "nat \<Rightarrow> dynamic_arena_pool \<Rightarrow> graded_arena_pool \<Rightarrow> graded_arena_pool" where
  "set_grade i g p = p\<lparr>gp_grades := (gp_grades p)[i := g]\<rparr>"

definition arnm_graded_arena_pool_alloc :: "graded_arena_pool option \<Rightarrow> nat \<Rightarrow> addr option \<Rightarrow> world \<Rightarrow>
    arnm_result \<times> graded_arena_pool option \<times> addr option \<times> world" where
  "arnm_graded_arena_pool_alloc pool sz out w =
    (case (pool, out) of
       (Some p, Some _) \<Rightarrow>
         if gp_ladder p = NULL then (ARNM_ERROR_NOT_INITIALIZED, pool, out, w)
         else if sz = 0 then (ARNM_ERROR_INVALID_PARAM, pool, out, w)
         else
           let index = grade_for_size p sz
           in if index \<ge> gp_count p then (ARNM_ERROR_RESOURCE_SIZE_EXCEED, pool, out, w)
              else case arnm_dynamic_arena_pool_alloc (Some (gp_grades p ! index)) out w of
                (r, g, out, w) \<Rightarrow> (r, Some (set_grade index (the g) p), out, w)
     | _ \<Rightarrow> (ARNM_ERROR_NULL_POINTER, pool, out, w))"

definition arnm_graded_arena_pool_free :: "graded_arena_pool option \<Rightarrow> addr \<Rightarrow> world \<Rightarrow>
    arnm_result \<times> graded_arena_pool option \<times> world" where
  "arnm_graded_arena_pool_free pool arena w =
    (case pool of None \<Rightarrow> (ARNM_ERROR_NULL_POINTER, pool, w)
     | Some p \<Rightarrow>
       if arena = NULL then (ARNM_ERROR_NULL_POINTER, pool, w)
       else if gp_ladder p = NULL then (ARNM_ERROR_NOT_INITIALIZED, pool, w)
       else if \<not> is_single_arena (intern_of arena w) then (ARNM_ERROR_INVALID_PARAM, pool, w)
       else
         let index = grade_for_capacity p (capacity (the (intern_of arena w)))
         in if index \<ge> gp_count p then (ARNM_ERROR_INVALID_PARAM, pool, w)
            else case arnm_dynamic_arena_pool_free (Some (gp_grades p ! index)) arena w of
              (r, g, w) \<Rightarrow> (r, Some (set_grade index (the g) p), w))"

section \<open>Which grade\<close>

definition capacities :: "graded_arena_pool \<Rightarrow> nat list" where
  "capacities p = map dp_capacity (gp_grades p)"

definition ladder_shape :: "graded_arena_pool \<Rightarrow> nat list \<Rightarrow> bool" where
  "ladder_shape p es \<longleftrightarrow> sorted_wrt (<) es \<and> (\<forall>e\<in>set es. 3 \<le> e \<and> e \<le> 31) \<and> capacities p = map (\<lambda>e. 2 ^ e) es \<and>
    gp_count p = length es \<and> {i. bit (gp_bits p) i} = set es"

lemma ladder_length:
  assumes "ladder_shape p es" shows "length (gp_grades p) = gp_count p" "gp_count p \<le> 29"
proof -
  have "length (capacities p) = length es" using assms by (simp add: ladder_shape_def)
  then show "length (gp_grades p) = gp_count p" using assms by (simp add: ladder_shape_def capacities_def)
  have "distinct es" using assms by (simp add: ladder_shape_def strict_sorted_iff)
  moreover have "set es \<subseteq> {3..31}" using assms by (auto simp: ladder_shape_def)
  ultimately have "length es \<le> card {3..31::nat}" by (metis card_mono distinct_card finite_atLeastAtMost)
  then show "gp_count p \<le> 29" using assms by (simp add: ladder_shape_def)
qed

lemma count_below:
  assumes "sorted_wrt (<) (es :: nat list)"
  shows "card (set es \<inter> {..<k}) = length (takeWhile (\<lambda>e. e < k) es)"
proof -
  have "takeWhile (\<lambda>e. e < k) es = filter (\<lambda>e. e < k) es"
    using assms by (induction es) (auto intro!: sym [OF filter_False])
  moreover have "distinct (filter (\<lambda>e. e < k) es)" using assms by (simp add: strict_sorted_iff)
  moreover have "set (filter (\<lambda>e. e < k) es) = set es \<inter> {..<k}" by auto
  ultimately show ?thesis by (metis distinct_card)
qed

lemma check_sizes_spec:
  assumes "check_sizes caps previous grade_bits = Some gb"
  shows "\<exists>es. caps = map (\<lambda>e. 2 ^ e) es \<and> sorted_wrt (<) es \<and> (\<forall>e\<in>set es. 3 \<le> e \<and> e \<le> 31 \<and> previous < 2 ^ e) \<and>
    {i. bit gb i} = {i. bit grade_bits i} \<union> set es"
  using assms
proof (induction caps previous grade_bits rule: check_sizes.induct)
  case (2 cap rest previous grade_bits)
  have c: "arnm_is_power_of_two (of_nat cap)" "8 \<le> cap" "cap \<le> 2 ^ 31" "previous < cap"
    and rec: "check_sizes rest cap (grade_bits OR push_bit (arnm_ctz (of_nat cap)) 1) = Some gb"
    using "2.prems" by (simp_all add: ARNM_GRADED_MIN_SIZE_def ARNM_GRADED_MAX_SIZE_def not_less split: if_splits)
  obtain k where k: "k \<le> 31" "(of_nat cap :: 32 word) = 2 ^ k" using c(1) is_power_of_two_iff by blast
  have "unat (of_nat cap :: 32 word) = cap" using c(3) by (simp add: unat_of_nat take_bit_nat_eq_self)
  then have cap: "cap = 2 ^ k" using unat_exp32 [OF k(1)] k(2) by simp
  have "3 \<le> k"
  proof (rule ccontr)
    assume "\<not> 3 \<le> k"
    then have "(2::nat) ^ k < 2 ^ 3" by (intro power_strict_increasing) simp_all
    then show False using c(2) cap by simp
  qed
  obtain es where es: "rest = map (\<lambda>e. 2 ^ e) es" "sorted_wrt (<) es" "\<forall>e\<in>set es. 3 \<le> e \<and> e \<le> 31 \<and> cap < 2 ^ e"
    "{i. bit gb i} = {i. bit (grade_bits OR push_bit (arnm_ctz (of_nat cap)) 1) i} \<union> set es"
    using "2.IH" [OF _ _ _ rec] c by (auto simp: ARNM_GRADED_MIN_SIZE_def ARNM_GRADED_MAX_SIZE_def)
  have "{i. bit (grade_bits OR push_bit (arnm_ctz (of_nat cap)) 1 :: 32 word) i} = {i. bit grade_bits i} \<union> {k}"
    using k ctz_exp [OF k(1)] by (auto simp: bit_or_iff bit_exp_iff)
  then have "{i. bit gb i} = {i. bit grade_bits i} \<union> set (k # es)" using es(4) by auto
  moreover have "sorted_wrt (<) (k # es)" using es(2,3) cap by (simp add: power_strict_increasing_iff)
  moreover have "previous < 2 ^ e" if "e \<in> set es" for e using less_trans [OF c(4)] es(3) that by blast
  then have "\<forall>e\<in>set (k # es). 3 \<le> e \<and> e \<le> 31 \<and> previous < 2 ^ e"
    using es(3) k(1) \<open>3 \<le> k\<close> c(4) cap by simp
  ultimately show ?case using es(1) cap by (intro exI [of _ "k # es"]) simp
qed auto

lemma grade_for_size_spec:
  assumes "ladder_shape p es" "0 < sz" "sz \<le> UINT32_MAX"
  shows "grade_for_size p sz = length (takeWhile (\<lambda>c. c < sz) (capacities p))"
proof (cases "sz > ARNM_GRADED_MAX_SIZE")
  case True
  have "c < sz" if "c \<in> set (capacities p)" for c
  proof -
    have caps: "capacities p = map (\<lambda>e. 2 ^ e) es" "\<forall>e\<in>set es. e \<le> 31" using assms(1) by (auto simp: ladder_shape_def)
    then obtain e where "c = 2 ^ e" "e \<le> 31" using \<open>c \<in> set (capacities p)\<close> by auto
    then have "c \<le> 2 ^ 31" by (simp only: power_increasing one_le_numeral)
    then show ?thesis using True by (simp add: ARNM_GRADED_MAX_SIZE_def)
  qed
  then have all: "takeWhile (\<lambda>c. c < sz) (capacities p) = capacities p" by (subst takeWhile_eq_all_conv) blast
  show ?thesis unfolding all using True ladder_length(1) [OF assms(1)] by (simp add: grade_for_size_def capacities_def)
next
  case False
  let ?x = "of_nat sz :: 32 word"
  have x: "unat ?x = sz" using assms(3) by (simp add: UINT32_MAX_def unat_of_nat take_bit_nat_eq_self)
  have "0 < ?x" using x assms(2) by (simp add: word_less_nat_alt)
  moreover have "unat ?x \<le> 2 ^ 31" using False x by (simp add: ARNM_GRADED_MAX_SIZE_def)
  ultimately obtain k where k: "k \<le> 31" "arnm_ceil_power_of_two ?x = 2 ^ k" "sz \<le> 2 ^ k" "\<And>j. sz \<le> 2 ^ j \<Longrightarrow> k \<le> j"
    using ceil_power_exponent [of ?x] x by metis
  have caps: "capacities p = map (\<lambda>e. 2 ^ e) es" "sorted_wrt (<) es" "gp_count p = length es" "{i. bit (gp_bits p) i} = set es"
    using assms(1) by (auto simp: ladder_shape_def)
  have below: "(2::nat) ^ e < sz \<longleftrightarrow> e < k" for e
  proof
    assume "e < k" then show "(2::nat) ^ e < sz" using k(4) [of e] by linarith
  next
    assume e: "(2::nat) ^ e < sz"
    show "e < k"
    proof (rule ccontr)
      assume "\<not> e < k"
      then have "(2::nat) ^ k \<le> 2 ^ e" by (intro power_increasing) simp_all
      then show False using e k(3) by linarith
    qed
  qed
  define above where "above = gp_bits p AND NOT (arnm_ceil_power_of_two ?x - 1)"
  have bits: "bit above i \<longleftrightarrow> bit (gp_bits p) i \<and> k \<le> i" for i
    unfolding above_def k(2) mask_eq_exp_minus_1 [symmetric] using bit_imp_le_length [of "gp_bits p" i]
    by (auto simp: bit_and_iff bit_not_iff bit_mask_iff)
  have "takeWhile (\<lambda>c. c < sz) (capacities p) = map (\<lambda>e. 2 ^ e) (takeWhile (\<lambda>e. e < k) es)"
    by (simp add: caps(1) takeWhile_map comp_def below)
  then have len: "length (takeWhile (\<lambda>c. c < sz) (capacities p)) = card (set es \<inter> {..<k})"
    using count_below [OF caps(2)] by simp
  show ?thesis
  proof (cases "above = 0")
    case True
    then have "\<not> (bit (gp_bits p) i \<and> k \<le> i)" for i using bits [of i] by simp
    then have "set es \<inter> {..<k} = set es" using caps(4) by force
    moreover have "card (set es) = length es" using caps(2) by (simp add: strict_sorted_iff distinct_card)
    ultimately show ?thesis using len False True caps(3) by (simp add: grade_for_size_def above_def)
  next
    case nz: False
    have "{i. bit (gp_bits p AND NOT above) i} = set es \<inter> {..<k}"
      using caps(4) bits bit_imp_le_length [of "gp_bits p"] by (auto simp: bit_and_iff bit_not_iff)
    then have "arnm_popcount (gp_bits p AND NOT above) = card (set es \<inter> {..<k})" by (simp add: popcount_card)
    moreover have "card (set es \<inter> {..<k}) < 65536"
      using len ladder_length [OF assms(1)] length_takeWhile_le [of "\<lambda>c. c < sz" "capacities p"] by (simp add: capacities_def)
    ultimately show ?thesis using len False nz by (simp add: grade_for_size_def Let_def above_def)
  qed
qed

lemma grade_for_capacity_spec:
  assumes "ladder_shape p es" "i < gp_count p"
  shows "grade_for_capacity p (dp_capacity (gp_grades p ! i)) = i"
proof -
  have caps: "capacities p = map (\<lambda>e. 2 ^ e) es" "sorted_wrt (<) es" "gp_count p = length es" "{i. bit (gp_bits p) i} = set es"
    "\<forall>e\<in>set es. e \<le> 31"
    using assms(1) by (auto simp: ladder_shape_def)
  have i: "i < length es" using assms(2) caps(3) by simp
  define e where "e = es ! i"
  have e: "e \<le> 31" using caps(5) i by (simp add: e_def)
  have "capacities p ! i = 2 ^ e" using caps(1) i by (simp add: e_def)
  then have cap: "dp_capacity (gp_grades p ! i) = 2 ^ e"
    using assms(2) ladder_length(1) [OF assms(1)] by (simp add: capacities_def)
  have pow: "(of_nat (2 ^ e) :: 32 word) = 2 ^ e" by simp
  have "{j. bit (gp_bits p AND (2 ^ e - 1)) j} = set es \<inter> {..<e}"
    unfolding mask_eq_exp_minus_1 [symmetric] using caps(4) bit_imp_le_length [of "gp_bits p"]
    by (auto simp: bit_and_iff bit_mask_iff)
  then have "arnm_popcount (gp_bits p AND (2 ^ e - 1)) = card (set es \<inter> {..<e})" by (simp add: popcount_card)
  also have "\<dots> = i"
  proof -
    have "es ! j < e" if "j < i" for j using sorted_wrt_nth_less [OF caps(2) that i] by (simp add: e_def)
    then have "takeWhile (\<lambda>x. x < e) es = take i es" using i by (intro takeWhile_eq_take_P_nth) (auto simp: e_def)
    then show ?thesis using count_below [OF caps(2), of e] i by simp
  qed
  finally have "u16 (arnm_popcount (gp_bits p AND (2 ^ e - 1))) = i"
    using assms(2) ladder_length(2) [OF assms(1)] by simp
  moreover have "arnm_is_power_of_two (2 ^ e)" using e is_power_of_two_iff by blast
  ultimately show ?thesis using assms(2) cap by (simp add: grade_for_capacity_def Let_def)
qed

section \<open>The invariant\<close>

text \<open>The arenas that are out of a grade are those of its capacity.\<close>

definition of_grade :: "world \<Rightarrow> addr set \<Rightarrow> nat \<Rightarrow> addr set" where
  "of_grade w out cap = {d\<in>out. capacity (object_at d w) = cap}"

abbreviation grade :: "graded_arena_pool \<Rightarrow> nat \<Rightarrow> dynamic_arena_pool" where
  "grade p i \<equiv> gp_grades p ! i"

definition graded_state :: "graded_arena_pool \<Rightarrow> world \<Rightarrow> addr set \<Rightarrow> addr list list \<Rightarrow> bool" where
  "graded_state p w out frees \<longleftrightarrow> gp_ladder p \<noteq> NULL \<and> (\<exists>es. ladder_shape p es) \<and> length frees = gp_count p \<and>
    (\<forall>i<gp_count p. dynamic_state (grade p i) w (of_grade w out (dp_capacity (grade p i))) (frees ! i)) \<and>
    (\<forall>d\<in>out. capacity (object_at d w) \<in> set (capacities p))"

definition graded_pool_ok :: "graded_arena_pool \<times> world \<Rightarrow> addr set \<Rightarrow> bool" where
  "graded_pool_ok = (\<lambda>(p, w) out. \<exists>frees. graded_state p w out frees)"

lemma grade_capacity_eq:
  assumes "ladder_shape p es" "i < gp_count p" "j < gp_count p" "dp_capacity (grade p i) = dp_capacity (grade p j)"
  shows "i = j"
  by (metis assms grade_for_capacity_spec)

lemma grade_of:
  assumes "graded_state p w out frees" "d \<in> out"
  obtains i where "i < gp_count p" "d \<in> of_grade w out (dp_capacity (grade p i))"
    "dynamic_state (grade p i) w (of_grade w out (dp_capacity (grade p i))) (frees ! i)"
proof -
  have "capacity (object_at d w) \<in> set (capacities p)" using assms by (simp add: graded_state_def)
  then obtain i where "i < length (gp_grades p)" "capacity (object_at d w) = dp_capacity (grade p i)"
    by (auto simp: capacities_def in_set_conv_nth)
  then show thesis
    using assms ladder_length(1) by (intro that [of i]) (auto simp: graded_state_def of_grade_def)
qed

lemma grade_arena_capacity:
  assumes "dynamic_state g w out free" "d \<in> set free \<union> out" shows "capacity (object_at d w) = dp_capacity g"
  using assms pool_arena_block(4) [of w "dp_capacity g" d] by (simp add: dynamic_state_def)

text \<open>An operation on grade \<open>i\<close> that disturbs nothing outside it keeps the whole ladder in order.\<close>

lemma graded_step:
  assumes "graded_state p w out frees" "i < gp_count p" "undisturbed ds w w'"
    and "ds \<subseteq> of_grade w out (dp_capacity (grade p i)) \<union> set (frees ! i)"
    and "dynamic_state g w' out' free'" "dp_capacity g = dp_capacity (grade p i)"
    and "\<And>d. d \<in> out - of_grade w out (dp_capacity (grade p i)) \<Longrightarrow> d \<notin> out'"
  shows "graded_state (set_grade i g p) w' (out - of_grade w out (dp_capacity (grade p i)) \<union> out') (frees[i := free'])"
proof -
  let ?cap = "\<lambda>j. dp_capacity (grade p j)"
  let ?new = "out - of_grade w out (?cap i) \<union> out'"
  obtain es where es: "ladder_shape p es" using assms(1) by (auto simp: graded_state_def)
  have len: "length (gp_grades p) = gp_count p" "length frees = gp_count p"
    using ladder_length(1) [OF es] assms(1) by (simp_all add: graded_state_def)
  have st: "dynamic_state (grade p j) w (of_grade w out (?cap j)) (frees ! j)" if "j < gp_count p" for j
    using assms(1) that by (simp add: graded_state_def)
  have caps: "?cap j \<noteq> ?cap i" if "j < gp_count p" "j \<noteq> i" for j
    using grade_capacity_eq [OF es that(1) assms(2)] that(2) by blast
  have host: "host_ok (heap w')" using assms(5) by (simp add: dynamic_state_def)
  have same: "object_at d w' = object_at d w" if "d \<in> out - of_grade w out (?cap i)" for d
  proof -
    from that have "d \<in> out" by simp
    then obtain j where j: "j < gp_count p" "d \<in> of_grade w out (?cap j)"
      "dynamic_state (grade p j) w (of_grade w out (?cap j)) (frees ! j)" by (rule grade_of [OF assms(1)])
    have "capacity (object_at d w) \<noteq> ?cap i" using that by (simp add: of_grade_def)
    then have "d \<notin> of_grade w out (?cap i) \<union> set (frees ! i)"
      using grade_arena_capacity [OF st [OF assms(2)], of d] by blast
    then have "d \<notin> ds" using assms(4) by blast
    then show ?thesis using pool_arena_undisturbed(2) [OF assms(3) dynamic_member(2) [OF j(3,2)]] by simp
  qed
  have out': "capacity (object_at d w') = ?cap i" if "d \<in> out'" for d
    using grade_arena_capacity [OF assms(5), of d] that assms(6) by simp
  have other: "of_grade w' ?new (?cap j) = of_grade w out (?cap j)" if "j < gp_count p" "j \<noteq> i" for j
    using caps [OF that] same out' by (auto simp: of_grade_def)
  have this_one: "of_grade w' ?new (?cap i) = out'" using same out' by (auto simp: of_grade_def)
  have "dynamic_state (grade (set_grade i g p) j) w' (of_grade w' ?new (dp_capacity (grade (set_grade i g p) j))) (frees[i := free'] ! j)"
    if j: "j < gp_count p" for j
  proof (cases "j = i")
    case True
    then show ?thesis using assms(5,6) this_one j len by (simp add: set_grade_def)
  next
    case False
    have "capacity (object_at d w) = ?cap i" if "d \<in> ds" for d
      using grade_arena_capacity [OF st [OF assms(2)], of d] assms(4) that by blast
    moreover have "capacity (object_at d w) = ?cap j" if "d \<in> set (frees ! j) \<union> of_grade w out (?cap j)" for d
      using grade_arena_capacity [OF st [OF j] that] .
    ultimately have "(set (frees ! j) \<union> of_grade w out (?cap j)) \<inter> ds = {}" using caps [OF j False] by force
    from dynamic_frame [OF st [OF j] assms(3) this host] show ?thesis
      using False other [OF j False] j len by (simp add: set_grade_def)
  qed
  moreover have "capacities (set_grade i g p) = capacities p"
    using assms(6) assms(2) len by (simp add: capacities_def set_grade_def map_update list_update_same_conv)
  moreover have "capacity (object_at d w') \<in> set (capacities p)" if "d \<in> ?new" for d
  proof (cases "d \<in> out'")
    case True
    then show ?thesis using out' assms(2) len by (simp add: capacities_def)
  next
    case False
    then show ?thesis using that same assms(1) by (simp add: graded_state_def)
  qed
  ultimately show ?thesis
    using assms(1) len es by (auto simp: graded_state_def ladder_shape_def set_grade_def)
qed

section \<open>One operation at a time\<close>

lemma graded_addresses:
  assumes "graded_state p w out frees" "d \<in> out" shows "d \<in> fst ` block_set w"
proof -
  obtain i where i: "i < gp_count p" "d \<in> of_grade w out (dp_capacity (grade p i))"
    "dynamic_state (grade p i) w (of_grade w out (dp_capacity (grade p i))) (frees ! i)" by (rule grade_of [OF assms])
  show ?thesis by (rule dynamic_addresses [OF i(3)]) (use i(2) in blast)
qed

lemma graded_alloc_ok:
  assumes "graded_state p w out frees" "arnm_graded_arena_pool_alloc (Some p) sz (Some old) w = (r, q, res, w')"
  shows "undisturbed {} w w' \<and>
    (if r = ARNM_SUCCESS then \<exists>p' d frees'. q = Some p' \<and> res = Some d \<and> graded_state p' w' (insert d out) frees' \<and> d \<notin> out \<and>
         empty_arena (object_at d w') \<and> grade_for_size p sz < gp_count p \<and>
         capacity (object_at d w') = dp_capacity (grade p (grade_for_size p sz))
     else (\<exists>p' frees'. q = Some p' \<and> graded_state p' w' out frees') \<and>
       (0 < sz \<longrightarrow> (if grade_for_size p sz < gp_count p
         then r = ARNM_ERROR_OUT_OF_MEMORY \<or> r = ARNM_ERROR_RESOURCE_EXHAUSTED else r = ARNM_ERROR_RESOURCE_SIZE_EXCEED)))"
proof (cases "sz = 0 \<or> gp_count p \<le> grade_for_size p sz")
  case True
  have "gp_ladder p \<noteq> NULL" using assms(1) by (simp add: graded_state_def)
  then have "r = (if sz = 0 then ARNM_ERROR_INVALID_PARAM else ARNM_ERROR_RESOURCE_SIZE_EXCEED)" "q = Some p" "w' = w"
    using assms(2) True by (auto simp: arnm_graded_arena_pool_alloc_def Let_def split: if_splits)
  then show ?thesis using assms(1) True by auto
next
  case False
  let ?i = "grade_for_size p sz"
  let ?G = "of_grade w out (dp_capacity (grade p ?i))"
  have i: "?i < gp_count p" using False by simp
  have st: "dynamic_state (grade p ?i) w ?G (frees ! ?i)" using assms(1) i by (simp add: graded_state_def)
  obtain g where a: "arnm_dynamic_arena_pool_alloc (Some (grade p ?i)) (Some old) w = (r, g, res, w')"
    and q: "q = Some (set_grade ?i (the g) p)"
    using assms False by (auto simp: arnm_graded_arena_pool_alloc_def graded_state_def Let_def split: prod.splits)
  note post = dynamic_alloc_ok [OF st a]
  have u: "undisturbed {} w w'" using post by simp
  have G: "out - ?G \<union> ?G = out" by (auto simp: of_grade_def)
  show ?thesis
  proof (cases "r = ARNM_SUCCESS")
    case True
    then obtain g' d free' where d: "g = Some g'" "res = Some d" "dynamic_state g' w' (insert d ?G) free'"
      "dp_capacity g' = dp_capacity (grade p ?i)" "d \<notin> ?G" "empty_arena (object_at d w')"
      "d \<in> set (frees ! ?i) \<or> d \<notin> fst ` block_set w"
      using post by auto
    have "d \<notin> out"
      using d(5,7) graded_addresses [OF assms(1), of d] grade_arena_capacity [OF st, of d] by (auto simp: of_grade_def)
    then have "graded_state (set_grade ?i g' p) w' (out - ?G \<union> insert d ?G) (frees[?i := free'])"
      by (intro graded_step [OF assms(1) i u _ d(3,4)]) auto
    moreover have "out - ?G \<union> insert d ?G = insert d out" using G by blast
    moreover have "capacity (object_at d w') = dp_capacity (grade p ?i)"
      using grade_arena_capacity [OF d(3), of d] d(4) by simp
    ultimately show ?thesis using True u q d(1,2,6) i \<open>d \<notin> out\<close> by auto
  next
    case err: False
    then have g: "g = Some (grade p ?i)" "dynamic_state (grade p ?i) w' ?G (frees ! ?i)"
      "r = ARNM_ERROR_OUT_OF_MEMORY \<or> r = ARNM_ERROR_RESOURCE_EXHAUSTED" using post by auto
    have "graded_state (set_grade ?i (grade p ?i) p) w' (out - ?G \<union> ?G) (frees[?i := frees ! ?i])"
      by (rule graded_step [OF assms(1) i u _ g(2) refl]) auto
    then show ?thesis using err u q g(1,3) G i by auto
  qed
qed

lemma graded_free_ok:
  assumes "graded_state p w out frees" "d \<in> out"
  shows "\<exists>q w' frees'. arnm_graded_arena_pool_free (Some p) d w = (ARNM_SUCCESS, Some q, w') \<and>
    graded_state q w' (out - {d}) frees' \<and> undisturbed {d} w w'"
proof -
  obtain i where i: "i < gp_count p" "d \<in> of_grade w out (dp_capacity (grade p i))"
    "dynamic_state (grade p i) w (of_grade w out (dp_capacity (grade p i))) (frees ! i)" by (rule grade_of [OF assms])
  let ?G = "of_grade w out (dp_capacity (grade p i))"
  obtain es where es: "ladder_shape p es" using assms(1) by (auto simp: graded_state_def)
  note m = dynamic_member [OF i(3,2)]
  have obj: "intern_of d w = Some (object_at d w)" "single_type (allocation_type (object_at d w))"
    using m(2,3,6) by (auto simp: pool_arena_def stands_def descriptor_ok_def object_at_def intern_of_def split: option.splits)
  have idx: "grade_for_capacity p (capacity (object_at d w)) = i"
    using grade_for_capacity_spec [OF es i(1)] m(5) by simp
  obtain g w' free' where f: "arnm_dynamic_arena_pool_free (Some (grade p i)) d w = (ARNM_SUCCESS, Some g, w')"
    "dynamic_state g w' (?G - {d}) free'" "dp_capacity g = dp_capacity (grade p i)" "undisturbed {d} w w'"
    using dynamic_free_ok [OF i(3,2)] by blast
  have "graded_state (set_grade i g p) w' (out - ?G \<union> (?G - {d})) (frees[i := free'])"
    by (rule graded_step [OF assms(1) i(1) f(4) _ f(2,3)]) (use i(2) in auto)
  moreover have "out - ?G \<union> (?G - {d}) = out - {d}" using i(2) by (auto simp: of_grade_def)
  moreover have "arnm_graded_arena_pool_free (Some p) d w = (ARNM_SUCCESS, Some (set_grade i g p), w')"
    using assms(1) m(6) obj idx i(1) f(1) by (simp add: arnm_graded_arena_pool_free_def graded_state_def Let_def)
  ultimately show ?thesis using f(4) by auto
qed

text \<open>The holder of an arena may do with it what it likes.\<close>

lemma graded_touch:
  assumes "graded_state p w out frees" "d \<in> out" "undisturbed {d} w w'" "host_ok (heap w')"
    and "pool_arena w' (capacity (object_at d w)) d"
  shows "graded_state p w' out frees"
proof -
  obtain i where i: "i < gp_count p" "d \<in> of_grade w out (dp_capacity (grade p i))"
    "dynamic_state (grade p i) w (of_grade w out (dp_capacity (grade p i))) (frees ! i)" by (rule grade_of [OF assms(1,2)])
  let ?G = "of_grade w out (dp_capacity (grade p i))"
  have "dynamic_state (grade p i) w' ?G (frees ! i)"
    using assms(5) dynamic_member(5) [OF i(3,2)] by (intro dynamic_touch [OF i(3,2) assms(3,4)]) simp
  then have "graded_state (set_grade i (grade p i) p) w' (out - ?G \<union> ?G) (frees[i := frees ! i])"
    by (intro graded_step [OF assms(1) i(1) assms(3)]) (use i(2) in auto)
  moreover have "out - ?G \<union> ?G = out" by (auto simp: of_grade_def)
  ultimately show ?thesis by (simp add: set_grade_def)
qed

section \<open>The pool keeps the contract\<close>

definition graded_pool_ops :: "(graded_arena_pool \<times> world) pool_ops" where
  "graded_pool_ops =
    \<lparr>po_take = (\<lambda>n (p, w). case arnm_graded_arena_pool_alloc (Some p) n (Some NULL) w of
        (r, q, out, w) \<Rightarrow> (r, the out, (the q, w))),
     po_give = (\<lambda>d (p, w). case arnm_graded_arena_pool_free (Some p) d w of (r, q, w) \<Rightarrow> (r, (the q, w))),
     po_mem = (\<lambda>(p, w). bytes_of w),
     po_set_mem = (\<lambda>m (p, w). (p, set_bytes m w)),
     po_arena = (\<lambda>d (p, w). object_at d w),
     po_set_arena = (\<lambda>d a (p, w). (p, set_handle d a w))\<rparr>"

lemma graded_pool_ops_simps [simp]:
  "po_mem graded_pool_ops (p, w) = bytes_of w" "po_set_mem graded_pool_ops m (p, w) = (p, set_bytes m w)"
  "po_arena graded_pool_ops d (p, w) = object_at d w"
  "po_set_arena graded_pool_ops d a (p, w) = (p, set_handle d a w)"
  by (simp_all add: graded_pool_ops_def)

lemma graded_member:
  assumes "graded_state p w out frees" "d \<in> out"
  shows "host_ok (heap w)" "pool_arena w (capacity (object_at d w)) d" "descriptor_ok (object_at d w)"
    "slot_at w d = d + SIZEOF_ARNM" "d \<noteq> NULL"
proof -
  obtain i where i: "i < gp_count p" "d \<in> of_grade w out (dp_capacity (grade p i))"
    "dynamic_state (grade p i) w (of_grade w out (dp_capacity (grade p i))) (frees ! i)" by (rule grade_of [OF assms])
  show "host_ok (heap w)" "pool_arena w (capacity (object_at d w)) d" "descriptor_ok (object_at d w)"
    "slot_at w d = d + SIZEOF_ARNM" "d \<noteq> NULL"
    using dynamic_member [OF i(3,2)] by simp_all
qed

lemma graded_kept:
  assumes "graded_state p w out frees" "undisturbed ds w w'" "e \<in> out" "e \<notin> ds"
  shows "object_at e w' = object_at e w \<and>
    rd (bytes_of w') (slot_at w e) (capacity (object_at e w)) = rd (bytes_of w) (slot_at w e) (capacity (object_at e w))"
  using pool_arena_undisturbed(2,3) [OF assms(2) graded_member(2) [OF assms(1,3)] assms(4)]
    graded_member(4) [OF assms(1,3)] by simp

lemma graded_set_law:
  assumes "graded_pool_ok (p, w) out" "d \<in> out"
    and "\<And>x. x \<notin> region (slot_at w d) (capacity (object_at d w)) \<Longrightarrow> m x = bytes_of w x"
  shows "graded_pool_ok (p, set_bytes m w) out"
proof -
  obtain frees where st: "graded_state p w out frees" using assms(1) by (auto simp: graded_pool_ok_def)
  note d = graded_member [OF st assms(2)]
  have "undisturbed {d} w (set_bytes m w)" by (rule write_undisturbed [OF d(1,2) assms(3) order_refl])
  then have "graded_state p (set_bytes m w) out frees"
    using d by (intro graded_touch [OF st assms(2)]) (simp_all add: pool_arena_def)
  then show ?thesis by (auto simp: graded_pool_ok_def)
qed

lemma graded_use_law:
  assumes "graded_pool_ok (p, w) out" "d \<in> out" "arena_ok a"
    and "a\<lparr>last_index := l, out_of_memory_capacity := k\<rparr> = object_at d w"
  shows "graded_pool_ok (p, set_handle d a w) out"
proof -
  obtain frees where st: "graded_state p w out frees" using assms(1) by (auto simp: graded_pool_ok_def)
  note d = graded_member [OF st assms(2)]
  have "graded_state p (set_handle d a w) out frees"
    using use_undisturbed [OF d(2) assms(3,4)] d(1) by (intro graded_touch [OF st assms(2)]) simp_all
  then show ?thesis by (auto simp: graded_pool_ok_def)
qed

interpretation graded_pool: arena_pool graded_pool_ops graded_pool_ok
proof (unfold_locales, goal_cases)
  case (1 s out d e)
  obtain p w where s: "s = (p, w)" by fastforce
  then obtain frees where st: "graded_state p w out frees" using 1(1) by (auto simp: graded_pool_ok_def)
  note d = graded_member [OF st 1(2)] and e = graded_member [OF st 1(3)]
  show ?case using pool_buffers_apart [OF d(1,2) e(2) 1(4)] d(4) e(4) s by simp
next
  case (2 s out n r d s')
  obtain p w q w' where s: "s = (p, w)" "s' = (q, w')" by (metis prod.exhaust)
  then obtain frees where st: "graded_state p w out frees" using 2(1) by (auto simp: graded_pool_ok_def)
  obtain q1 res where a: "arnm_graded_arena_pool_alloc (Some p) n (Some NULL) w = (r, q1, res, w')" "d = the res" "q = the q1"
    using 2(2) s by (auto simp: graded_pool_ops_def split: prod.splits)
  note post = graded_alloc_ok [OF st a(1)]
  show ?case using post graded_kept [OF st conjunct1 [OF post]] a(2,3) s
    by (cases "r = ARNM_SUCCESS") (auto simp: graded_pool_ok_def)
next
  case (3 s out d r s')
  obtain p w q w' where s: "s = (p, w)" "s' = (q, w')" by (metis prod.exhaust)
  then obtain frees where st: "graded_state p w out frees" using 3(1) by (auto simp: graded_pool_ok_def)
  obtain q1 w1 frees' where f: "arnm_graded_arena_pool_free (Some p) d w = (ARNM_SUCCESS, Some q1, w1)"
    "graded_state q1 w1 (out - {d}) frees'" "undisturbed {d} w w1" using graded_free_ok [OF st 3(2)] by blast
  then have "r = ARNM_SUCCESS" "q = q1" "w' = w1" using 3(3) s by (auto simp: graded_pool_ops_def)
  then show ?case using f(2) graded_kept [OF st f(3)] s by (auto simp: graded_pool_ok_def)
next
  case (4 s out d m)
  obtain p w where s: "s = (p, w)" by fastforce
  show ?case using 4 unfolding s graded_pool_ops_simps by (rule graded_set_law)
next
  case (5 s out d a l k)
  obtain p w where s: "s = (p, w)" by fastforce
  then have "d \<noteq> NULL" using graded_member(5) 5(1,2) by (auto simp: graded_pool_ok_def)
  then show ?case using 5 s graded_use_law [of p w out d a l k] by simp
next
  case (6 d e a s)
  then show ?case by (cases s) simp
next
  case (7 d a s)
  then show ?case by (cases s) simp
next
  case (8 s out d)
  then show ?case using graded_member(3) by (cases s) (auto simp: graded_pool_ok_def)
next
  case (9 m s)
  then show ?case by (cases s) simp
next
  case (10 e m s)
  then show ?case by (cases s) simp
qed

section \<open>What the pool promises\<close>

lemma graded_init_ok:
  assumes "host_ok (heap w)" "spare \<le> UINT32_MAX" "length sizes = n"
    and "arnm_graded_arena_pool_init (Some p) (Some sizes) n spare w = (ARNM_SUCCESS, Some q, w')"
  shows "graded_state q w' {} (replicate n [])" "capacities q = sizes"
proof -
  obtain gb where gb: "check_sizes sizes 0 0 = Some gb" "n \<noteq> 0" "n \<le> ARNM_GRADED_MAX_GRADE_COUNT"
    using assms(3,4) by (auto simp: arnm_graded_arena_pool_init_def split: if_splits option.splits)
  obtain r ladder w1 where a: "arnm_alloc (Some NULL) (grades_bytes n) NULL w = (r, ladder, w1)" by (metis prod_cases3)
  have res: "r = ARNM_SUCCESS" "w' = w1"
    "q = p\<lparr>gp_ladder := the ladder, gp_grades := map (make_grade spare) sizes, gp_count := n, gp_bits := gb\<rparr>"
    using assms(3,4) gb a by (auto simp: arnm_graded_arena_pool_init_def split: if_splits)
  have n: "0 < grades_bytes n"
    using gb(2,3) by (simp add: grades_bytes_def SIZEOF_DYNAMIC_ARENA_POOL_def ARNM_GRADED_MAX_GRADE_COUNT_def UINT32_MAX_def)
  have "op_alloc (flat_ops NULL) (grades_bytes n) w = (r, the ladder, w1)" using a by (simp add: flat_ops_def)
  from flat.alloc_law [OF _ n this]
  have l: "host_ok (heap w1)" "the ladder \<noteq> NULL"
    using assms(1) res(1) flat_owned_law [of NULL w1 "the ladder"] by (auto simp: flat_sound_def)
  obtain es where es: "sizes = map (\<lambda>e. 2 ^ e) es" "sorted_wrt (<) es" "\<forall>e\<in>set es. 3 \<le> e \<and> e \<le> 31" "{i. bit gb i} = set es"
    using check_sizes_spec [OF gb(1)] by auto
  have grade: "dynamic_state (make_grade spare (2 ^ e)) w1 {} []" "dp_capacity (make_grade spare (2 ^ e)) = 2 ^ e"
    if e: "e \<in> set es" for e
  proof -
    have b: "3 \<le> e" "e \<le> 31" using es(3) e by auto
    have mod: "(2::nat) ^ e mod 8 = 0" using le_imp_power_dvd [OF b(1), of "2::nat"] by (simp add: dvd_eq_mod_eq_0)
    have "(2::nat) ^ e \<le> 2 ^ 31" using b(2) by (intro power_increasing) simp_all
    then have cap: "(2::nat) ^ e \<le> ARNM_MAX_ALLOC_SIZE - SIZEOF_ARNM"
      by (simp add: ARNM_MAX_ALLOC_SIZE_def UINT32_MAX_def SIZEOF_ARNM_def)
    have u: "arnm_align8_u32 (2 ^ e) = 2 ^ e" using cap mod by (simp add: arnm_align8_u32_def ARNM_MAX_ALLOC_SIZE_def)
    have mk: "make_grade spare (2 ^ e) = fresh_dynamic_pool\<lparr>dp_free_head := NULL, dp_capacity := 2 ^ e, dp_acquired := 0,
        dp_spare := 0, dp_spare_limit := spare\<rparr>"
      using cap u by (simp add: make_grade_def arnm_dynamic_arena_pool_init_def Let_def)
    show "dp_capacity (make_grade spare (2 ^ e)) = 2 ^ e" unfolding mk by simp
    show "dynamic_state (make_grade spare (2 ^ e)) w1 {} []"
      unfolding mk using cap mod l(1) assms(2) by (simp add: dynamic_state_def)
  qed
  show caps: "capacities q = sizes"
    using grade(2) by (simp add: capacities_def res(3) es(1))
  have "ladder_shape q es" using es caps assms(3) by (auto simp: ladder_shape_def res(3))
  moreover have "dynamic_state (gp_grades q ! i) w1 {} []" if "i < n" for i
    using that grade(1) assms(3) es(1) by (simp add: res(3))
  ultimately show "graded_state q w' {} (replicate n [])"
    using l(2) res(2) by (auto simp: graded_state_def res(3) of_grade_def)
qed

lemma graded_step_capacities:
  "capacities (fst (fst (pool_step graded_pool_ops c x))) = capacities (fst (fst x))"
proof -
  obtain p w held where x: "x = ((p, w), held)" by (metis prod.exhaust)
  have set_same: "capacities (set_grade i g p) = capacities p" if "dp_capacity g = dp_capacity (grade p i)" for i g
    using that by (cases "i < length (gp_grades p)") (auto simp: capacities_def set_grade_def map_update list_update_same_conv list_update_beyond)
  have dyn: "dp_capacity (the g') = dp_capacity g" if "arnm_dynamic_arena_pool_alloc (Some g) (Some old) w = (r, g', out, w')"
    for g r g' old out w'
    using that by (auto simp: arnm_dynamic_arena_pool_alloc_def Let_def split: if_splits prod.splits)
  have alloc: "capacities (the q) = capacities p" if "arnm_graded_arena_pool_alloc (Some p) n (Some old) w = (r, q, out, w')"
    for n r q out old w'
    using that by (auto simp: arnm_graded_arena_pool_alloc_def Let_def split: if_splits prod.splits
        intro!: set_same dest: dyn)
  have dyn2: "dp_capacity (the g') = dp_capacity g" if "arnm_dynamic_arena_pool_free (Some g) d w = (r, g', w')" for g d r g' w'
    using that by (auto simp: arnm_dynamic_arena_pool_free_def Let_def split: if_splits)
  have free: "capacities (the q) = capacities p" if "arnm_graded_arena_pool_free (Some p) d w = (r, q, w')" for d r q w'
    using that by (auto simp: arnm_graded_arena_pool_free_def Let_def split: if_splits prod.splits
        intro!: set_same dest: dyn2)
  show ?thesis
    by (cases c) (auto simp: x graded_pool_ops_def alloc free split: prod.split)
qed

lemma graded_run_capacities:
  "pool_run graded_pool_ops reqs ((p, w), held) = ((q, w'), held') \<Longrightarrow> capacities q = capacities p"
proof (induction reqs arbitrary: p w held)
  case (Cons c reqs)
  obtain p1 w1 held1 where s: "pool_step graded_pool_ops c ((p, w), held) = ((p1, w1), held1)" by (metis prod.exhaust)
  then have "capacities p1 = capacities p" using graded_step_capacities [of c "((p, w), held)"] by simp
  then show ?case using Cons.IH [of p1 w1 held1] Cons.prems s by (simp add: pool_run_def)
qed (simp add: pool_run_def)

lemma find_takeWhile:
  "find (\<lambda>c. sz \<le> c) caps =
    (if length (takeWhile (\<lambda>c. c < sz) caps) < length caps then Some (caps ! length (takeWhile (\<lambda>c. c < sz) caps)) else None)"
  for sz :: nat
  by (induction caps) auto

text \<open>C7: A request to a graded pool is served from the smallest grade that is large enough, whatever was
  taken from the pool, used and given back before: the arena handed out is empty, new to the program
  and has exactly that grade's capacity. It fails only when no grade is that large, or when the heap
  has nothing left. What the program holds keeps its contents and never overlaps.\<close>

theorem graded_pool_best_fit:
  assumes "host_ok (heap w)" "spare \<le> UINT32_MAX"
    and "arnm_graded_arena_pool_init (Some p) (Some sizes) (length sizes) spare w = (ARNM_SUCCESS, Some q, w1)"
    and "pool_run graded_pool_ops reqs ((q, w1), []) = ((q', w'), held)" "0 < sz" "sz \<le> UINT32_MAX"
    and "arnm_graded_arena_pool_alloc (Some q') sz (Some NULL) w' = (r, q2, res, w2)"
  shows "holds graded_pool_ops (q', w') held \<and>
    sorted_wrt (\<lambda>(d, bs) (e, cs). apart (slot_at w' d) (length bs) (slot_at w' e) (length cs)) held \<and>
    (case find (\<lambda>c. sz \<le> c) sizes of
       None \<Rightarrow> r = ARNM_ERROR_RESOURCE_SIZE_EXCEED
     | Some c \<Rightarrow>
         if r = ARNM_SUCCESS then capacity (object_at (the res) w2) = c \<and> empty_arena (object_at (the res) w2) \<and>
           the res \<notin> fst ` set held
         else r = ARNM_ERROR_OUT_OF_MEMORY \<or> r = ARNM_ERROR_RESOURCE_EXHAUSTED)"
proof -
  note init = graded_init_ok [OF assms(1,2) refl assms(3)]
  then have "graded_pool_ok (q, w1) {}" by (auto simp: graded_pool_ok_def)
  note owed = graded_pool.client_owed [OF this assms(4)]
  then obtain frees where st: "graded_state q' w' (fst ` set held) frees" by (auto simp: graded_pool_ok_def)
  obtain es where es: "ladder_shape q' es" using st by (auto simp: graded_state_def)
  have caps: "capacities q' = sizes" using graded_run_capacities [OF assms(4)] init(2) by simp
  note idx = grade_for_size_spec [OF es assms(5,6), unfolded caps]
  have len: "length sizes = gp_count q'" "length (gp_grades q') = gp_count q'"
    using ladder_length(1) [OF es] caps by (auto simp: capacities_def)
  have nth: "dp_capacity (grade q' i) = sizes ! i" if "i < gp_count q'" for i
    using that len by (simp add: caps [symmetric] capacities_def)
  have "case find (\<lambda>c. sz \<le> c) sizes of
       None \<Rightarrow> r = ARNM_ERROR_RESOURCE_SIZE_EXCEED
     | Some c \<Rightarrow>
         if r = ARNM_SUCCESS then capacity (object_at (the res) w2) = c \<and> empty_arena (object_at (the res) w2) \<and>
           the res \<notin> fst ` set held
         else r = ARNM_ERROR_OUT_OF_MEMORY \<or> r = ARNM_ERROR_RESOURCE_EXHAUSTED"
  proof (cases "r = ARNM_SUCCESS")
    case True
    with graded_alloc_ok [OF st assms(7)] obtain d where "res = Some d" "d \<notin> fst ` set held" "empty_arena (object_at d w2)"
      "grade_for_size q' sz < gp_count q'" "capacity (object_at d w2) = dp_capacity (grade q' (grade_for_size q' sz))" by auto
    then show ?thesis using nth True unfolding find_takeWhile len(1) idx [symmetric] by simp
  next
    case False
    then show ?thesis
      using graded_alloc_ok [OF st assms(7)] assms(5) unfolding find_takeWhile len(1) idx [symmetric] by auto
  qed
  then show ?thesis using owed by simp
qed

lemma graded_pool_best_fit_witness:
  "\<exists>q w1 q' w' held r q2 res w2.
    arnm_graded_arena_pool_init (Some fresh_graded_pool) (Some [16, 64, 4096]) 3 2 sample_host = (ARNM_SUCCESS, Some q, w1) \<and>
    pool_run graded_pool_ops [PR_Take 10, PR_Take 65, PR_Write 0 3 1, PR_Give 1] ((q, w1), []) = ((q', w'), held) \<and>
    arnm_graded_arena_pool_alloc (Some q') 20 (Some NULL) w' = (r, q2, res, w2) \<and>
    holds graded_pool_ops (q', w') held \<and> (r = ARNM_SUCCESS \<longrightarrow> capacity (object_at (the res) w2) = 64)"
proof -
  have bits: "\<exists>gb. check_sizes [16, 64, 4096] 0 0 = Some gb"
    by (simp add: arnm_is_power_of_two_def ARNM_GRADED_MIN_SIZE_def ARNM_GRADED_MAX_SIZE_def)
  have "grades_bytes 3 = 72" by (simp add: grades_bytes_def SIZEOF_DYNAMIC_ARENA_POOL_def UINT32_MAX_def)
  moreover have "\<exists>w1. arnm_alloc (Some NULL) 72 NULL sample_host = (ARNM_SUCCESS, Some 4096, w1)"
    using sample_host_alloc [of 72] by (simp add: memory_alloc_def chain_at_def)
  ultimately obtain q w1 where init:
    "arnm_graded_arena_pool_init (Some fresh_graded_pool) (Some [16, 64, 4096]) 3 2 sample_host = (ARNM_SUCCESS, Some q, w1)"
    using bits by (auto simp: arnm_graded_arena_pool_init_def ARNM_GRADED_MAX_GRADE_COUNT_def)
  obtain q' w' held where run: "pool_run graded_pool_ops [PR_Take 10, PR_Take 65, PR_Write 0 3 1, PR_Give 1] ((q, w1), []) =
      ((q', w'), held)" by (metis prod.exhaust)
  obtain r q2 res w2 where al: "arnm_graded_arena_pool_alloc (Some q') 20 (Some NULL) w' = (r, q2, res, w2)"
    by (metis prod_cases4)
  have "host_ok (heap sample_host)" by (simp add: sample_host_def host_ok_def)
  moreover have "arnm_graded_arena_pool_init (Some fresh_graded_pool) (Some [16, 64, 4096]) (length [16, 64, 4096 :: nat]) 2
      sample_host = (ARNM_SUCCESS, Some q, w1)" using init by (simp add: numeral_3_eq_3)
  ultimately have "holds graded_pool_ops (q', w') held \<and> (r = ARNM_SUCCESS \<longrightarrow> capacity (object_at (the res) w2) = 64)"
    using graded_pool_best_fit [OF _ _ _ run _ _ al, of sample_host 2 fresh_graded_pool "[16, 64, 4096]"]
    by (simp add: UINT32_MAX_def split: if_splits)
  then show ?thesis using init run al by blast
qed

end
