(* ===== verification/Graded_Block_Pool.thy ===== *)
theory Graded_Block_Pool
  imports Pool_Client Bits "HOL-Library.Multiset"
begin

unbundle bit_operations_syntax

text \<open>
  The pool of blocks of power-of-two sizes (\<^verbatim>\<open>src/graded_block_pool.c\<close>,
  \<^verbatim>\<open>include/arnm/graded_block_pool.h\<close>). Blocks are cut from a current arena, whose memory comes from
  a chain of arenas; a block given back waits in the free list of its size, the link stored in the
  block itself. \<open>block_state\<close> is the invariant, over the blocks lent, the blocks free and the arenas
  taken, and the pool is an instance of \<open>arnm_lender\<close>.
\<close>

record arnm_graded_block_pool =
  bp_source :: addr
  bp_lent :: nat
  bp_cached :: nat
  bp_min :: nat
  bp_max :: nat
  bp_arena_capacity :: nat
  bp_heads :: "addr list"
  bp_current :: arena

record arnm_graded_block_pool_options =
  bo_min :: nat
  bo_max :: nat
  bo_alloc_arena_capacity :: nat

definition ARNM_GRADED_BLOCK_POOL_MIN_LOG2 :: nat where "ARNM_GRADED_BLOCK_POOL_MIN_LOG2 = 3"
definition ARNM_GRADED_BLOCK_POOL_MAX_LOG2 :: nat where "ARNM_GRADED_BLOCK_POOL_MAX_LOG2 = 31"
definition ARNM_GRADED_BLOCK_POOL_MAX_GRADES :: nat where
  "ARNM_GRADED_BLOCK_POOL_MAX_GRADES = ARNM_GRADED_BLOCK_POOL_MAX_LOG2 - ARNM_GRADED_BLOCK_POOL_MIN_LOG2 + 1"
definition ARNM_GRADED_BLOCK_POOL_DEFAULT_MIN_LOG2 :: nat where "ARNM_GRADED_BLOCK_POOL_DEFAULT_MIN_LOG2 = 4"
definition ARNM_GRADED_BLOCK_POOL_DEFAULT_MAX_LOG2 :: nat where "ARNM_GRADED_BLOCK_POOL_DEFAULT_MAX_LOG2 = 20"
definition ARNM_GRADED_BLOCK_POOL_DEFAULT_ALLOC_ARENA_CAPACITY :: nat where
  "ARNM_GRADED_BLOCK_POOL_DEFAULT_ALLOC_ARENA_CAPACITY = 4"
definition SIZEOF_GRADED_BLOCK_POOL :: nat where "SIZEOF_GRADED_BLOCK_POOL = 296"

definition size_to_log2 :: "arnm_graded_block_pool \<Rightarrow> nat \<Rightarrow> nat \<Rightarrow> arnm_result \<times> nat" where
  "size_to_log2 p sz log2 =
    (if sz = 0 then (ARNM_ERROR_INVALID_PARAM, log2)
     else
       let aligned_bytes = arnm_align8_u32 sz
       in if aligned_bytes = 0 then (ARNM_ERROR_ARITHMETIC_OVERFLOW, log2)
          else
            let exponent = arnm_log2_power_of_two (of_nat aligned_bytes)
            in if exponent > bp_max p then (ARNM_ERROR_RESOURCE_SIZE_EXCEED, log2)
               else (ARNM_SUCCESS, if exponent < bp_min p then bp_min p else exponent))"

definition push_free :: "arnm_graded_block_pool \<Rightarrow> addr \<Rightarrow> nat \<Rightarrow> world \<Rightarrow> arnm_graded_block_pool \<times> world" where
  "push_free p block log2 w =
    (p\<lparr>bp_heads := (bp_heads p)[log2 - bp_min p := block], bp_cached := u64 (bp_cached p + 2 ^ log2)\<rparr>,
     set_bytes (store_ptr (bytes_of w) block (bp_heads p ! (log2 - bp_min p))) w)"

definition arnm_graded_block_pool_options_validate :: "arnm_graded_block_pool_options option \<Rightarrow>
    arnm_result \<times> arnm_graded_block_pool_options option" where
  "arnm_graded_block_pool_options_validate options =
    (case options of None \<Rightarrow> (ARNM_ERROR_NULL_POINTER, options)
     | Some o1 \<Rightarrow>
       let o2 = (if bo_min o1 = 0 then o1\<lparr>bo_min := ARNM_GRADED_BLOCK_POOL_DEFAULT_MIN_LOG2\<rparr> else o1);
           o3 = (if bo_max o2 = 0 then o2\<lparr>bo_max := ARNM_GRADED_BLOCK_POOL_DEFAULT_MAX_LOG2\<rparr> else o2)
       in if bo_min o3 < ARNM_GRADED_BLOCK_POOL_MIN_LOG2 \<or> bo_max o3 > ARNM_GRADED_BLOCK_POOL_MAX_LOG2 \<or>
             bo_min o3 > bo_max o3
          then (ARNM_ERROR_INVALID_PARAM, Some o3)
          else (ARNM_SUCCESS,
            Some (if bo_alloc_arena_capacity o3 = 0
              then o3\<lparr>bo_alloc_arena_capacity := ARNM_GRADED_BLOCK_POOL_DEFAULT_ALLOC_ARENA_CAPACITY\<rparr> else o3)))"

definition arnm_graded_block_pool_init :: "arnm_graded_block_pool option \<Rightarrow>
    arnm_graded_block_pool_options option \<Rightarrow> addr \<Rightarrow> world \<Rightarrow>
    arnm_result \<times> arnm_graded_block_pool option \<times> arnm_graded_block_pool_options option \<times> world" where
  "arnm_graded_block_pool_init pool options source w =
    (if pool = None then (ARNM_ERROR_NULL_POINTER, pool, options, w)
     else case arnm_graded_block_pool_options_validate options of
       (result, options) \<Rightarrow>
         if result \<noteq> ARNM_SUCCESS then (result, pool, options, w)
         else
           let opt = the options;
               max_grade_size = arnm_pow2_u32 (bo_max opt);
               full_capacity = max_grade_size * bo_alloc_arena_capacity opt;
               cap = (if full_capacity > ARNM_MAX_ALLOC_SIZE then ARNM_MAX_ALLOC_SIZE else full_capacity)
           in case arnm_create_multi_arena
                (Some \<lparr>opt_arena_capacity = cap, opt_arena_max_count = 0,
                  opt_full_remaining = sub32 (arnm_pow2_u32 (bo_min opt)) 1,
                  opt_bucket_size_log2 = 0, opt_index_grow_step_size = 0\<rparr>) source w of
                (multi_arena, multi_arena_options, w) \<Rightarrow>
                  if multi_arena = NULL then (ARNM_ERROR_OUT_OF_MEMORY, pool, options, w)
                  else (ARNM_SUCCESS,
                    Some \<lparr>bp_source = multi_arena, bp_lent = 0, bp_cached = 0, bp_min = bo_min opt, bp_max = bo_max opt,
                      bp_arena_capacity = opt_arena_capacity (the multi_arena_options),
                      bp_heads = replicate ARNM_GRADED_BLOCK_POOL_MAX_GRADES NULL, bp_current = zero_arena\<rparr>,
                    options, w))"

definition zero_block_pool :: arnm_graded_block_pool where
  "zero_block_pool = \<lparr>bp_source = NULL, bp_lent = 0, bp_cached = 0, bp_min = 0, bp_max = 0, bp_arena_capacity = 0,
     bp_heads = replicate ARNM_GRADED_BLOCK_POOL_MAX_GRADES NULL, bp_current = zero_arena\<rparr>"

definition arnm_graded_block_pool_create :: "arnm_graded_block_pool_options option \<Rightarrow> addr \<Rightarrow> world \<Rightarrow>
    (addr \<times> arnm_graded_block_pool) option \<times> arnm_graded_block_pool_options option \<times> world" where
  "arnm_graded_block_pool_create options source w =
    (case arnm_graded_block_pool_options_validate options of
       (result, options) \<Rightarrow>
         if result \<noteq> ARNM_SUCCESS then (None, options, w)
         else case memory_alloc (Some NULL) SIZEOF_GRADED_BLOCK_POOL source w of
           (result, block, w) \<Rightarrow>
             if result \<noteq> ARNM_SUCCESS then (None, options, w)
             else case arnm_graded_block_pool_init (Some zero_block_pool) options source w of
               (result, pool, options, w) \<Rightarrow>
                 if result \<noteq> ARNM_SUCCESS then
                   (None, options, snd (memory_free (the block) SIZEOF_GRADED_BLOCK_POOL source w))
                 else (Some (the block, the pool), options, w))"

text \<open>\<open>arnm_alloc\<close> on the arena object inside the pool, which no handle table holds.\<close>

definition object_alloc :: "nat \<Rightarrow> arena \<Rightarrow> world \<Rightarrow> arnm_result \<times> addr \<times> arena \<times> world" where
  "object_alloc sz a w =
    (if sz = 0 then (ARNM_ERROR_INVALID_PARAM, NULL, a, w)
     else if is_default_alloc (Some a) then
       case malloc sz (heap w) of (allocated, h) \<Rightarrow>
         if allocated = NULL then (ARNM_ERROR_OUT_OF_MEMORY, NULL, a, w\<lparr>heap := h\<rparr>)
         else (ARNM_SUCCESS, allocated, a, w\<lparr>heap := h\<rparr>)
     else
       let aligned_size = arnm_align8_u32 sz
       in if aligned_size = 0 then (ARNM_ERROR_ARITHMETIC_OVERFLOW, NULL, a, w)
          else case arena_alloc_aligned NULL aligned_size a of (result, p, a) \<Rightarrow> (result, p, a, w))"

text \<open>
  The two loops of \<open>split_current\<close>, the inner one first. \<open>log2\<close> is a \<open>uint8_t\<close> counted down;
  \<open>None\<close> is a loop that never ends.
\<close>

partial_function (option) split_pieces :: "nat \<Rightarrow> nat \<Rightarrow> arnm_graded_block_pool \<Rightarrow> world \<Rightarrow>
    (nat \<times> arnm_graded_block_pool \<times> world) option" where
  "split_pieces log2 left p w =
    (let nbytes = u32 (2 ^ log2)
     in if left \<ge> nbytes then
          case object_alloc nbytes (bp_current p) w of
            (_, piece, a, w) \<Rightarrow>
              (case push_free (p\<lparr>bp_current := a\<rparr>) piece log2 w of
                 (p, w) \<Rightarrow> split_pieces log2 (sub32 left nbytes) p w)
        else Some (left, p, w))"

partial_function (option) split_grades :: "nat \<Rightarrow> nat \<Rightarrow> arnm_graded_block_pool \<Rightarrow> world \<Rightarrow>
    (arnm_graded_block_pool \<times> world) option" where
  "split_grades log2 left p w =
    (if left \<ge> u32 (2 ^ bp_min p) then
       Option.bind (split_pieces log2 left p w) (\<lambda>(left, p, w). split_grades (u8 (log2 + 255)) left p w)
     else Some (p, w))"

definition split_current :: "arnm_graded_block_pool \<Rightarrow> world \<Rightarrow> (arnm_graded_block_pool \<times> world) option" where
  "split_current p w = split_grades (bp_max p) (remaining_bytes (Some (bp_current p))) p w"

definition next_arena :: "arnm_graded_block_pool \<Rightarrow> world \<Rightarrow>
    (arnm_result \<times> arnm_graded_block_pool \<times> world) option" where
  "next_arena p w =
    (case memory_alloc (Some NULL) (bp_arena_capacity p) (bp_source p) w of
       (result, block, w) \<Rightarrow>
         if result \<noteq> ARNM_SUCCESS then Some (result, p, w)
         else Option.bind (split_current p w)
           (\<lambda>(p, w). Some (ARNM_SUCCESS,
              p\<lparr>bp_current := snd (borrow_arena (the block) (bp_arena_capacity p) (bp_current p))\<rparr>, w)))"

text \<open>The head of a free list is taken: \<open>alloc_log2\<close> from its \<open>*head = ..\<close> on.\<close>

definition pop_block :: "arnm_graded_block_pool \<Rightarrow> nat \<Rightarrow> world \<Rightarrow> arnm_graded_block_pool \<times> addr" where
  "pop_block p log2 w =
    (let i = log2 - bp_min p; block = bp_heads p ! i; nbytes = 2 ^ log2
     in (p\<lparr>bp_heads := (bp_heads p)[i := arnm_load_ptr (bytes_of w) block],
           bp_cached := u64 (bp_cached p + (18446744073709551616 - nbytes)),
           bp_lent := u64 (bp_lent p + nbytes)\<rparr>, block))"

definition arnm_graded_block_pool_alloc_fresh :: "arnm_graded_block_pool \<Rightarrow> addr \<Rightarrow> nat \<Rightarrow> world \<Rightarrow>
    (arnm_result \<times> arnm_graded_block_pool \<times> addr \<times> world) option" where
  "arnm_graded_block_pool_alloc_fresh p buffer log2 w =
    (if bp_source p = NULL then Some (ARNM_ERROR_NOT_INITIALIZED, p, buffer, w)
     else
       let nbytes = u32 (2 ^ log2);
           from_current = (\<lambda>p w. case object_alloc nbytes (bp_current p) w of
             (_, block, a, w) \<Rightarrow>
               Some (ARNM_SUCCESS, p\<lparr>bp_current := a, bp_lent := u64 (bp_lent p + nbytes)\<rparr>, block, w))
       in if remaining_bytes (Some (bp_current p)) < nbytes then
            Option.bind (next_arena p w)
              (\<lambda>(result, p, w).
                if result \<noteq> ARNM_SUCCESS then Some (result, p, buffer, w)
                else if bp_heads p ! (log2 - bp_min p) \<noteq> NULL then
                  (if log2 > bp_max p then Some (ARNM_ERROR_RESOURCE_SIZE_EXCEED, p, buffer, w)
                   else case pop_block p (if log2 < bp_min p then bp_min p else log2) w of
                     (p, block) \<Rightarrow> Some (ARNM_SUCCESS, p, block, w))
                else from_current p w)
          else from_current p w)"

definition arnm_graded_block_pool_alloc_log2 :: "arnm_graded_block_pool \<Rightarrow> addr \<Rightarrow> nat \<Rightarrow> world \<Rightarrow>
    (arnm_result \<times> arnm_graded_block_pool \<times> addr \<times> world) option" where
  "arnm_graded_block_pool_alloc_log2 p buffer log2 w =
    (if log2 > bp_max p then Some (ARNM_ERROR_RESOURCE_SIZE_EXCEED, p, buffer, w)
     else
       let log2 = (if log2 < bp_min p then bp_min p else log2)
       in if bp_heads p ! (log2 - bp_min p) = NULL then arnm_graded_block_pool_alloc_fresh p buffer log2 w
          else case pop_block p log2 w of (p, block) \<Rightarrow> Some (ARNM_SUCCESS, p, block, w))"

definition arnm_graded_block_pool_alloc :: "arnm_graded_block_pool option \<Rightarrow> addr option \<Rightarrow> nat \<Rightarrow> world \<Rightarrow>
    (arnm_result \<times> arnm_graded_block_pool option \<times> addr option \<times> world) option" where
  "arnm_graded_block_pool_alloc pool buffer sz w =
    (case (pool, buffer) of
       (Some p, Some old) \<Rightarrow>
         if bp_source p = NULL then Some (ARNM_ERROR_NOT_INITIALIZED, pool, buffer, w)
         else case size_to_log2 p sz 0 of
           (result, log2) \<Rightarrow>
             if result \<noteq> ARNM_SUCCESS then Some (result, pool, buffer, w)
             else map_option (\<lambda>(r, p, b, w). (r, Some p, Some b, w)) (arnm_graded_block_pool_alloc_log2 p old log2 w)
     | _ \<Rightarrow> Some (ARNM_ERROR_NULL_POINTER, pool, buffer, w))"

definition arnm_graded_block_pool_free_log2 :: "arnm_graded_block_pool \<Rightarrow> addr \<Rightarrow> nat \<Rightarrow> world \<Rightarrow>
    arnm_result \<times> arnm_graded_block_pool \<times> world" where
  "arnm_graded_block_pool_free_log2 p buffer log2 w =
    (if buffer = NULL then (ARNM_SUCCESS, p, w)
     else if log2 > bp_max p then (ARNM_ERROR_RESOURCE_SIZE_EXCEED, p, w)
     else
       let log2 = (if log2 < bp_min p then bp_min p else log2); nbytes = 2 ^ log2
       in if bp_lent p < nbytes then (ARNM_ERROR_INVALID_STATE, p, w)
          else
            let i = log2 - bp_min p
            in (ARNM_SUCCESS,
                p\<lparr>bp_heads := (bp_heads p)[i := buffer], bp_lent := bp_lent p - nbytes,
                  bp_cached := u64 (bp_cached p + nbytes)\<rparr>,
                set_bytes (store_ptr (bytes_of w) buffer (bp_heads p ! i)) w))"

definition arnm_graded_block_pool_free :: "arnm_graded_block_pool option \<Rightarrow> addr \<Rightarrow> nat \<Rightarrow> world \<Rightarrow>
    arnm_result \<times> arnm_graded_block_pool option \<times> world" where
  "arnm_graded_block_pool_free pool buffer sz w =
    (if buffer = NULL then (ARNM_SUCCESS, pool, w)
     else case pool of None \<Rightarrow> (ARNM_ERROR_NULL_POINTER, pool, w)
     | Some p \<Rightarrow>
       if bp_source p = NULL then (ARNM_ERROR_NOT_INITIALIZED, pool, w)
       else case size_to_log2 p sz 0 of
         (result, log2) \<Rightarrow>
           if result \<noteq> ARNM_SUCCESS then (result, pool, w)
           else case arnm_graded_block_pool_free_log2 p buffer log2 w of (r, p, w) \<Rightarrow> (r, Some p, w))"

definition arnm_graded_block_pool_realloc :: "arnm_graded_block_pool option \<Rightarrow> addr option \<Rightarrow> nat \<Rightarrow> nat \<Rightarrow> world \<Rightarrow>
    (arnm_result \<times> arnm_graded_block_pool option \<times> addr option \<times> world) option" where
  "arnm_graded_block_pool_realloc pool buffer old_size new_size w =
    (case buffer of None \<Rightarrow> Some (ARNM_ERROR_NULL_POINTER, pool, buffer, w)
     | Some old \<Rightarrow>
       Option.bind (arnm_graded_block_pool_alloc pool (Some NULL) new_size w)
         (\<lambda>(result, pool, moved, w).
           if result \<noteq> ARNM_SUCCESS then Some (result, pool, buffer, w)
           else if old \<noteq> NULL \<and> old_size \<noteq> 0 then
             let w = set_bytes (memcpy (bytes_of w) (the moved) old (if old_size < new_size then old_size else new_size)) w
             in case arnm_graded_block_pool_free pool old old_size w of
                  (result, pool, w) \<Rightarrow>
                    if result \<noteq> ARNM_SUCCESS then Some (ARNM_WARNING_ARENA_MEMORY_NOT_RECLAIMED, pool, moved, w)
                    else Some (ARNM_SUCCESS, pool, moved, w)
           else Some (ARNM_SUCCESS, pool, moved, w)))"

definition arnm_graded_block_pool_reset :: "arnm_graded_block_pool option \<Rightarrow> world \<Rightarrow>
    arnm_graded_block_pool option \<times> world" where
  "arnm_graded_block_pool_reset pool w =
    (case pool of None \<Rightarrow> (pool, w)
     | Some p \<Rightarrow>
       (Some (p\<lparr>bp_heads := replicate ARNM_GRADED_BLOCK_POOL_MAX_GRADES NULL, bp_current := zero_arena,
          bp_lent := 0, bp_cached := 0\<rparr>), memory_reset (bp_source p) w))"

definition arnm_graded_block_pool_release :: "arnm_graded_block_pool option \<Rightarrow> addr \<Rightarrow> world \<Rightarrow>
    arnm_graded_block_pool option \<times> world" where
  "arnm_graded_block_pool_release pool source w =
    (case pool of None \<Rightarrow> (pool, w)
     | Some _ \<Rightarrow>
       (case arnm_graded_block_pool_reset pool w of
          (pool, w) \<Rightarrow> (Some ((the pool)\<lparr>bp_source := NULL\<rparr>), snd (memory_destroy (bp_source (the pool)) source w))))"

definition arnm_graded_block_pool_destroy :: "(addr \<times> arnm_graded_block_pool) option \<Rightarrow> addr \<Rightarrow> world \<Rightarrow>
    arnm_result \<times> world" where
  "arnm_graded_block_pool_destroy pool source w =
    (case pool of None \<Rightarrow> (ARNM_SUCCESS, w)
     | Some (a, p) \<Rightarrow>
       (case memory_destroy (bp_source p) source w of
          (result, w) \<Rightarrow>
            if result \<noteq> ARNM_SUCCESS then (result, w)
            else memory_free a SIZEOF_GRADED_BLOCK_POOL source w))"

section \<open>The invariant\<close>

type_synonym piece = "addr \<times> nat"

abbreviation extent :: "piece \<Rightarrow> addr \<times> nat" where
  "extent b \<equiv> (fst b, 2 ^ snd b)"

definition rest :: "arnm_graded_block_pool \<Rightarrow> (addr \<times> nat) list" where
  "rest p = (let a = bp_current p in if is_default_alloc (Some a) then []
     else [(data a + last_index a, capacity a - last_index a)])"

abbreviation lent_free_rest :: "arnm_graded_block_pool \<Rightarrow> piece list \<Rightarrow> piece list \<Rightarrow> (addr \<times> nat) list" where
  "lent_free_rest p lent fs \<equiv> map extent (lent @ fs) @ rest p"

definition bytes_in :: "piece list \<Rightarrow> nat" where
  "bytes_in bs = (\<Sum>b\<leftarrow>bs. 2 ^ snd b)"

definition inside_arena :: "addr list \<Rightarrow> nat \<Rightarrow> addr \<times> nat \<Rightarrow> bool" where
  "inside_arena qs cap = (\<lambda>(a, n). a mod 8 = 0 \<and> (\<exists>q\<in>set qs. q \<le> a \<and> a + n \<le> q + cap))"

definition pool_shape :: "arnm_graded_block_pool \<Rightarrow> bool" where
  "pool_shape p \<longleftrightarrow> bp_source p \<noteq> NULL \<and> 3 \<le> bp_min p \<and> bp_min p \<le> bp_max p \<and> bp_max p \<le> 31 \<and>
    length (bp_heads p) = 29 \<and> bp_arena_capacity p mod 8 = 0 \<and> 2 ^ bp_max p \<le> bp_arena_capacity p \<and>
    bp_arena_capacity p \<le> ARNM_MAX_ALLOC_SIZE"

definition current_ok :: "arnm_graded_block_pool \<Rightarrow> addr list \<Rightarrow> bool" where
  "current_ok p qs \<longleftrightarrow> (let a = bp_current p in a = zero_arena \<or>
    descriptor_ok a \<and> data a \<in> set qs \<and> capacity a = bp_arena_capacity p)"

text \<open>The free blocks of one size, in the order of their list.\<close>

definition of_size :: "nat \<Rightarrow> piece list \<Rightarrow> addr list" where
  "of_size l fs = map fst (filter (\<lambda>b. snd b = l) fs)"

definition block_state :: "arnm_graded_block_pool \<Rightarrow> world \<Rightarrow> piece list \<Rightarrow> piece list \<Rightarrow> addr list \<Rightarrow> bool" where
  "block_state p w lent fs qs \<longleftrightarrow> pool_shape p \<and> current_ok p qs \<and>
    memory_sound (bp_source p) w \<and> held_ok (memory_owns (bp_source p)) w (map (\<lambda>q. (q, bp_arena_capacity p)) qs) \<and>
    all_apart (lent_free_rest p lent fs) \<and>
    (\<forall>x\<in>set (lent_free_rest p lent fs). inside_arena qs (bp_arena_capacity p) x) \<and>
    (\<forall>b\<in>set (lent @ fs). bp_min p \<le> snd b \<and> snd b \<le> bp_max p) \<and>
    (\<forall>l. bp_min p \<le> l \<and> l \<le> bp_max p \<longrightarrow> linked id (bytes_of w) (bp_heads p ! (l - bp_min p)) (of_size l fs)) \<and>
    bp_lent p = bytes_in lent \<and> bp_cached p = bytes_in fs"

section \<open>Blocks that are apart\<close>

lemma all_apart_perm: "mset xs = mset ys \<Longrightarrow> all_apart xs \<Longrightarrow> all_apart ys"
proof (induction ys arbitrary: xs)
  case (Cons y ys)
  have "y \<in> set xs" using Cons.prems(1) by (metis list.set_intros(1) set_mset_mset)
  then obtain as bs where xs: "xs = as @ y # bs" by (metis split_list)
  then have perm: "mset (as @ bs) = mset ys" using Cons.prems(1) by simp
  have "all_apart (as @ bs)" "apart_from (as @ bs) (fst y) (snd y)"
    using Cons.prems(2) unfolding xs by (cases y; force simp: all_apart_append apart_from_def apart_commute)+
  then have "all_apart ys" "apart_from ys (fst y) (snd y)"
    using Cons.IH [OF perm] mset_eq_setD [OF perm] by (auto simp: apart_from_def)
  then show ?case by (cases y) simp
qed simp

lemma card_region: "card (region a n) = n" "finite (region a n)"
  by (simp_all add: region_def)

lemma sum_apart:
  assumes "all_apart ps"
  shows "sum_list (map snd ps) = card (\<Union> (block_region ` set ps)) \<and> finite (\<Union> (block_region ` set ps))"
  using assms
proof (induction ps)
  case (Cons x xs)
  obtain a n where x: "x = (a, n)" by fastforce
  have xs: "all_apart xs" "apart_from xs a n" using Cons.prems x by simp_all
  have "region a n \<inter> block_region y = {}" if "y \<in> set xs" for y
    using apart_disjoint [of "fst y" "snd y" a n] xs(2) that by (cases y) (auto simp: apart_from_def)
  then have "region a n \<inter> \<Union> (block_region ` set xs) = {}" by blast
  then show ?case using Cons.IH [OF xs(1)] x by (simp add: card_Un_disjoint card_region)
qed simp

lemma sum_apart_bound:
  assumes "all_apart ps" "\<And>a n. (a, n) \<in> set ps \<Longrightarrow> a \<noteq> NULL \<and> a + n < ADDRESS_END"
  shows "sum_list (map snd ps) < ADDRESS_END"
proof -
  have "\<Union> (block_region ` set ps) \<subseteq> {1..<ADDRESS_END}" using assms(2) by fastforce
  then have "card (\<Union> (block_region ` set ps)) \<le> card {1..<ADDRESS_END}" by (intro card_mono) simp_all
  then show ?thesis using sum_apart [OF assms(1)] by simp
qed

lemma bytes_in_extents: "bytes_in bs = sum_list (map snd (map extent bs))"
  by (simp add: bytes_in_def comp_def)

lemma bytes_in_simps [simp]: "bytes_in [] = 0" "bytes_in (b # bs) = 2 ^ snd b + bytes_in bs" "bytes_in (as @ bs) = bytes_in as + bytes_in bs"
  by (simp_all add: bytes_in_def)

lemma bytes_in_remove1: "b \<in> set bs \<Longrightarrow> bytes_in bs = 2 ^ snd b + bytes_in (remove1 b bs)"
  by (induction bs) auto

lemma extent_apart:
  assumes "all_apart (map extent bs @ xs)" "b \<in> set bs" "c \<in> set bs" "b \<noteq> c"
  shows "apart (fst b) (2 ^ snd b) (fst c) (2 ^ snd c)"
  using assms
proof (induction bs)
  case (Cons a bs)
  then have "apart_from (map extent bs @ xs) (fst a) (2 ^ snd a)" "all_apart (map extent bs @ xs)" by simp_all
  moreover have "apart (fst a) (2 ^ snd a) (fst d) (2 ^ snd d)" if "d \<in> set bs" for d
    using calculation(1) that unfolding apart_from_def by (subst apart_commute) auto
  moreover have "apart (fst b) (2 ^ snd b) (fst c) (2 ^ snd c)" if "b \<in> set bs" "c \<in> set bs"
    using Cons.IH [OF calculation(2) that Cons.prems(4)] .
  ultimately show ?case using Cons.prems(2-4) by (metis apart_commute set_ConsD)
qed simp

lemma extents_distinct: "all_apart (map extent bs @ xs) \<Longrightarrow> distinct bs"
proof (induction bs)
  case (Cons a bs)
  have "a \<notin> set bs"
  proof
    assume "a \<in> set bs"
    then have "apart (fst a) (2 ^ snd a) (fst a) (2 ^ snd a)"
      using Cons.prems by (fastforce simp: apart_from_def)
    then show False by (simp add: apart_def)
  qed
  then show ?case using Cons by simp
qed simp

section \<open>What the invariant gives\<close>

lemma block_stateD:
  assumes "block_state p w lent fs qs"
  shows "pool_shape p" "current_ok p qs" "memory_sound (bp_source p) w"
    "held_ok (memory_owns (bp_source p)) w (map (\<lambda>q. (q, bp_arena_capacity p)) qs)"
    "all_apart (lent_free_rest p lent fs)"
    "x \<in> set (lent_free_rest p lent fs) \<Longrightarrow> inside_arena qs (bp_arena_capacity p) x"
    "bp_min p \<le> l \<Longrightarrow> l \<le> bp_max p \<Longrightarrow> linked id (bytes_of w) (bp_heads p ! (l - bp_min p)) (of_size l fs)"
    "bp_lent p = bytes_in lent" "bp_cached p = bytes_in fs"
  using assms unfolding block_state_def by blast+

lemma head_index:
  "pool_shape p \<Longrightarrow> l \<le> bp_max p \<Longrightarrow> l - bp_min p < length (bp_heads p)"
  by (auto simp: pool_shape_def)

lemma block_state_pieces:
  assumes "block_state p w lent fs qs" "(a, n) \<in> set (lent_free_rest p lent fs)"
  shows "a \<noteq> NULL" "a mod 8 = 0" "a + n < ADDRESS_END"
    "\<exists>q\<in>set qs. memory_owns (bp_source p) w q (bp_arena_capacity p) \<and> q \<le> a \<and> a + n \<le> q + bp_arena_capacity p"
proof -
  have "inside_arena qs (bp_arena_capacity p) (a, n)" using assms by (simp add: block_state_def)
  then obtain q where q: "q \<in> set qs" "q \<le> a" "a + n \<le> q + bp_arena_capacity p" "a mod 8 = 0"
    by (auto simp: inside_arena_def)
  moreover have own: "memory_owns (bp_source p) w q (bp_arena_capacity p)" "memory_sound (bp_source p) w"
    using assms(1) q(1) by (auto simp: block_state_def held_ok_def)
  ultimately show "a \<noteq> NULL" "a mod 8 = 0" "a + n < ADDRESS_END"
    "\<exists>q\<in>set qs. memory_owns (bp_source p) w q (bp_arena_capacity p) \<and> q \<le> a \<and> a + n \<le> q + bp_arena_capacity p"
    using memory.owned [OF own(2,1)] by auto
qed

lemma block_state_sum:
  assumes "block_state p w lent fs qs"
  shows "bytes_in lent + bytes_in fs + (\<Sum>x\<leftarrow>rest p. snd x) < ADDRESS_END"
proof -
  have "sum_list (map snd (lent_free_rest p lent fs)) < ADDRESS_END"
    using block_state_pieces [OF assms] assms by (intro sum_apart_bound) (auto simp: block_state_def)
  then show ?thesis by (simp add: bytes_in_extents comp_def)
qed

lemma block_state_grade:
  assumes "block_state p w lent fs qs" "b \<in> set (lent @ fs)"
  shows "8 \<le> (2::nat) ^ snd b" "bp_min p \<le> snd b" "snd b \<le> bp_max p" "snd b \<le> 31" "fst b < ADDRESS_END" "fst b \<noteq> NULL"
proof -
  have "bp_min p \<le> snd b \<and> snd b \<le> bp_max p" "pool_shape p" using assms by (auto simp: block_state_def)
  then show l: "bp_min p \<le> snd b" "snd b \<le> bp_max p" "snd b \<le> 31" by (simp_all add: pool_shape_def)
  have "(2::nat) ^ 3 \<le> 2 ^ snd b" using l \<open>pool_shape p\<close> by (intro power_increasing) (simp_all add: pool_shape_def)
  then show "8 \<le> (2::nat) ^ snd b" by simp
  have "(fst b, 2 ^ snd b) \<in> set (lent_free_rest p lent fs)" using assms(2) by (auto simp: rev_image_eqI)
  from block_state_pieces [OF assms(1) this] show "fst b < ADDRESS_END" "fst b \<noteq> NULL" by simp_all
qed

section \<open>One step at a time\<close>

text \<open>The free lists after a write that leaves all free blocks but their own alone.\<close>

lemma linked_keep:
  assumes "linked id m head xs" "\<And>x a. x \<in> set xs \<Longrightarrow> a \<in> region x 8 \<Longrightarrow> m' a = m a"
  shows "linked id m' head xs"
  using assms linked_cong [of xs id m' m id head] by simp

lemma of_size_member: "x \<in> set (of_size l fs) \<longleftrightarrow> (x, l) \<in> set fs"
  by (force simp: of_size_def)

text \<open>A free block of the right size is taken from its list.\<close>

lemma of_size_head:
  assumes "of_size l fs = x # xs" "distinct fs"
  shows "of_size l (remove1 (x, l) fs) = xs" "k \<noteq> l \<Longrightarrow> of_size k (remove1 (x, l) fs) = of_size k fs"
proof -
  show "of_size l (remove1 (x, l) fs) = xs"
    using assms by (induction fs) (auto simp: of_size_def split: if_splits)
  show "of_size k (remove1 (x, l) fs) = of_size k fs" if "k \<noteq> l"
    using that by (induction fs) (auto simp: of_size_def)
qed

lemma mset_move:
  assumes "x \<in> set bs" shows "mset (map f ((x # as) @ remove1 x bs)) = mset (map f (as @ bs))"
proof -
  have e: "mset bs = add_mset x (mset (remove1 x bs))" using assms by simp
  have "mset (map f (as @ bs)) = image_mset f (mset as + mset bs)" by simp
  also have "\<dots> = mset (map f ((x # as) @ remove1 x bs))" unfolding e by simp
  finally show ?thesis by simp
qed

lemma pop_block_ok:
  assumes "block_state p w lent fs qs" "bp_min p \<le> l" "l \<le> bp_max p" "bp_heads p ! (l - bp_min p) \<noteq> NULL"
    and "pop_block p l w = (q, block)"
  shows "(block, l) \<in> set fs" "block_state q w ((block, l) # lent) (remove1 (block, l) fs) qs" "rest q = rest p"
    "bp_source q = bp_source p" "bp_min q = bp_min p" "bp_max q = bp_max p"
proof -
  let ?i = "l - bp_min p"
  have list: "linked id (bytes_of w) (bp_heads p ! ?i) (of_size l fs)" using assms(1-3) by (simp add: block_state_def)
  then obtain x xs where fs: "of_size l fs = x # xs" using assms(4) by (cases "of_size l fs") auto
  then have x: "bp_heads p ! ?i = x" "(x, l) \<in> set fs" "linked id (bytes_of w) (arnm_load_ptr (bytes_of w) x) xs"
    using list of_size_member [of x l fs] by auto
  have sum: "bytes_in lent + bytes_in fs < ADDRESS_END" using block_state_sum [OF assms(1)] by simp
  have out: "bytes_in fs = 2 ^ l + bytes_in (remove1 (x, l) fs)" using bytes_in_remove1 [OF x(2)] by simp
  have books: "bp_lent p = bytes_in lent" "bp_cached p = bytes_in fs" using assms(1) by (simp_all add: block_state_def)
  have "u64 (bytes_in fs + (18446744073709551616 - 2 ^ l)) = bytes_in (remove1 (x, l) fs)"
    using sum out by (simp add: u64_def)
  moreover have "u64 (bytes_in lent + 2 ^ l) = bytes_in lent + 2 ^ l" using sum out by simp
  ultimately have q: "block = x" "q = p\<lparr>bp_heads := (bp_heads p)[?i := arnm_load_ptr (bytes_of w) x],
      bp_cached := bytes_in (remove1 (x, l) fs), bp_lent := bytes_in lent + 2 ^ l\<rparr>"
    using assms(5) x(1) books by (auto simp: pop_block_def Let_def)
  have dis: "distinct fs"
    using assms(1) extents_distinct [of "lent @ fs" "rest p"] by (simp add: block_state_def)
  have same: "rest q = rest p" by (simp add: q(2) rest_def)
  have shape: "pool_shape q" "current_ok q qs" using assms(1) by (simp_all add: block_state_def pool_shape_def current_ok_def q(2))
  have "mset (lent_free_rest p lent fs) = mset (map extent (lent @ fs)) + mset (rest p)" by (simp only: mset_append)
  also have "\<dots> = mset (map extent (((x, l) # lent) @ remove1 (x, l) fs)) + mset (rest q)"
    by (simp only: mset_move [OF x(2)] same(1))
  finally have "mset (lent_free_rest p lent fs) = mset (lent_free_rest q ((x, l) # lent) (remove1 (x, l) fs))"
    by (simp only: mset_append)
  then have perm: "mset (lent_free_rest q ((x, l) # lent) (remove1 (x, l) fs)) = mset (lent_free_rest p lent fs)" by (rule sym)
  have "all_apart (lent_free_rest p lent fs)" using assms(1) by (simp only: block_state_def)
  then have apart: "all_apart (lent_free_rest q ((x, l) # lent) (remove1 (x, l) fs))"
    by (rule all_apart_perm [OF perm [symmetric]])
  note set_same = mset_eq_setD [OF perm]
  have grades: "\<forall>b\<in>set (((x, l) # lent) @ remove1 (x, l) fs). bp_min p \<le> snd b \<and> snd b \<le> bp_max p"
  proof
    fix b assume "b \<in> set (((x, l) # lent) @ remove1 (x, l) fs)"
    then have "b \<in> set (lent @ fs)" using x(2) subsetD [OF set_remove1_subset [of "(x, l)" fs], of b] by auto
    then show "bp_min p \<le> snd b \<and> snd b \<le> bp_max p" using block_state_grade(2,3) [OF assms(1)] by simp
  qed
  have lists: "linked id (bytes_of w) (bp_heads q ! (k - bp_min p)) (of_size k (remove1 (x, l) fs))"
    if k: "bp_min p \<le> k" "k \<le> bp_max p" for k
  proof (cases "k = l")
    case True
    moreover have "?i < length (bp_heads p)" by (rule head_index [OF block_stateD(1) [OF assms(1)] assms(3)])
    ultimately show ?thesis using of_size_head(1) [OF fs dis] x(3) by (simp add: q(2))
  next
    case False
    then have "k - bp_min p \<noteq> ?i" using k assms(2) by simp
    then show ?thesis using of_size_head(2) [OF fs dis False] assms(1) k by (simp add: q(2) block_state_def)
  qed
  show "block_state q w ((block, l) # lent) (remove1 (block, l) fs) qs"
    unfolding block_state_def q(1) set_same
  proof (intro conjI)
    show "\<forall>k. bp_min q \<le> k \<and> k \<le> bp_max q \<longrightarrow>
        linked id (bytes_of w) (bp_heads q ! (k - bp_min q)) (of_size k (remove1 (x, l) fs))"
      using lists by (simp add: q(2))
    show "bp_lent q = bytes_in ((x, l) # lent)" "bp_cached q = bytes_in (remove1 (x, l) fs)" by (simp_all add: q(2))
    show "\<forall>b\<in>set (((x, l) # lent) @ remove1 (x, l) fs). bp_min q \<le> snd b \<and> snd b \<le> bp_max q"
      using grades by (simp add: q(2))
    show "\<forall>y\<in>set (lent_free_rest p lent fs). inside_arena qs (bp_arena_capacity q) y"
      "memory_sound (bp_source q) w" "held_ok (memory_owns (bp_source q)) w (map (\<lambda>q'. (q', bp_arena_capacity q)) qs)"
      using assms(1) by (simp_all add: q(2) block_state_def)
  qed (use shape apart in simp_all)
  show "(block, l) \<in> set fs" "rest q = rest p" "bp_source q = bp_source p" "bp_min q = bp_min p" "bp_max q = bp_max p"
    using x(2) q same by simp_all
qed


text \<open>A block is cut from the front of the current arena.\<close>

abbreviation left_in :: "arnm_graded_block_pool \<Rightarrow> nat" where
  "left_in p \<equiv> remaining_bytes (Some (bp_current p))"

lemma left_in_current:
  assumes "current_ok p qs" "0 < left_in p"
  shows "descriptor_ok (bp_current p)" "left_in p = free_bytes (bp_current p)" "\<not> is_default_alloc (Some (bp_current p))"
    "rest p = [(data (bp_current p) + last_index (bp_current p), free_bytes (bp_current p))]"
proof -
  have "bp_current p \<noteq> zero_arena" using assms(2) by (auto simp: remaining_bytes_def is_single_arena_def zero_arena_def)
  then show d: "descriptor_ok (bp_current p)" using assms(1) by (simp add: current_ok_def Let_def)
  then show "left_in p = free_bytes (bp_current p)"
    by (auto simp: remaining_bytes_def descriptor_ok_def single_type_def is_single_arena_def arena_ok_def)
  show "\<not> is_default_alloc (Some (bp_current p))"
    using d by (auto simp: descriptor_ok_def single_type_def is_default_alloc_def)
  then show "rest p = [(data (bp_current p) + last_index (bp_current p), free_bytes (bp_current p))]"
    by (simp add: rest_def Let_def)
qed

lemma power_align:
  assumes "3 \<le> l" "l \<le> 31"
  shows "(2::nat) ^ l mod 8 = 0" "arnm_align8_u32 (2 ^ l) = 2 ^ l" "(2::nat) ^ l \<le> 2147483648" "u32 (2 ^ l) = 2 ^ l"
proof -
  have "(2::nat) ^ l = 2 ^ (l - 3) * 8" using assms(1) power_add [of "2::nat" "l - 3" 3] by simp
  then show m: "(2::nat) ^ l mod 8 = 0" by simp
  have "(2::nat) ^ l \<le> 2 ^ 31" using assms(2) by (intro power_increasing) simp_all
  then show b: "(2::nat) ^ l \<le> 2147483648" by simp
  then show "arnm_align8_u32 (2 ^ l) = 2 ^ l"
    using m by (simp add: arnm_align8_u32_def ARNM_MAX_ALLOC_SIZE_def UINT32_MAX_def)
  show "u32 (2 ^ l) = 2 ^ l" by (rule u32_id) (use b in \<open>simp add: UINT32_MAX_def\<close>)
qed

lemma apart_from_sub:
  assumes "apart_from xs b n" "b \<le> c" "c + m \<le> b + n" shows "apart_from xs c m"
proof -
  have "apart q k c m" if "apart q k b n" for q k using that assms(2,3) by (auto simp: apart_def)
  then show ?thesis using assms(1) by (auto simp: apart_from_def)
qed

lemma inside_arena_sub:
  assumes "inside_arena qs k (b, n)" "c mod 8 = 0 \<or> (c - b) mod 8 = 0" "b \<le> c" "c + m \<le> b + n" shows "inside_arena qs k (c, m)"
proof -
  obtain q where q: "q \<in> set qs" "q \<le> b" "b + n \<le> q + k" "b mod 8 = 0" using assms(1) by (auto simp: inside_arena_def)
  have "(b + (c - b)) mod 8 = 0 \<or> c mod 8 = 0" using assms(2) q(4) by (auto intro: mod8_add)
  then have "c mod 8 = 0" using assms(3) by auto
  moreover have "q \<le> c" "c + m \<le> q + k" using q assms(3,4) by simp_all
  ultimately show ?thesis using q(1) by (auto simp: inside_arena_def)
qed

lemma cut_ok:
  assumes "block_state p w lent fs qs" "bp_min p \<le> l" "l \<le> bp_max p" "2 ^ l \<le> left_in p"
    and "object_alloc (2 ^ l) (bp_current p) w = (r, block, a, w')"
  defines "q \<equiv> p\<lparr>bp_current := a, bp_lent := bp_lent p + 2 ^ l\<rparr>"
  shows "block_state q w ((block, l) # lent) fs qs" "left_in q = left_in p - 2 ^ l" "w' = w"
    "bp_lent p + 2 ^ l < ADDRESS_END"
proof -
  let ?c = "bp_current p"
  have sh: "3 \<le> l" "l \<le> 31" using block_stateD(1) [OF assms(1)] assms(2,3) by (simp_all add: pool_shape_def)
  have "0 < left_in p" using assms(4) by (rule less_le_trans [rotated]) simp
  note cur = left_in_current [OF block_stateD(2) [OF assms(1)] this]
  have d: "arena_ok ?c" "single_type (allocation_type ?c)" "data ?c \<noteq> NULL" using cur(1) by (simp_all add: descriptor_ok_def)
  have fits: "2 ^ l \<le> free_bytes ?c" using assms(4) cur(2) by simp
  have "object_alloc (2 ^ l) ?c w = (ARNM_SUCCESS, data ?c + last_index ?c, ?c\<lparr>last_index := last_index ?c + 2 ^ l\<rparr>, w)"
    using cur(3) power_align [OF sh] fits by (simp add: object_alloc_def arena_alloc_aligned_cases [OF d])
  then have b: "block = data ?c + last_index ?c" "a = ?c\<lparr>last_index := last_index ?c + 2 ^ l\<rparr>" "w' = w"
    using assms(5) by simp_all
  have a: "descriptor_ok a" "\<not> is_default_alloc (Some a)"
    using cur(1) fits power_align(1) [OF sh]
    by (auto simp: b(2) descriptor_ok_def arena_ok_def is_default_alloc_def single_type_def intro: mod8_add)
  have restq: "rest q = [(block + 2 ^ l, free_bytes ?c - 2 ^ l)]"
    using a(2) by (simp add: rest_def q_def Let_def b add_ac)
  let ?old = "map extent (lent @ fs)"
  have sum: "bytes_in lent + (free_bytes ?c) < ADDRESS_END" using block_state_sum [OF assms(1)] cur(4) by simp
  have "all_apart (?old @ [(block, free_bytes ?c)])"
    using block_stateD(5) [OF assms(1)] cur(4) by (simp add: b(1))
  then have ap: "all_apart ?old" "apart_from ?old block (free_bytes ?c)" by (simp_all add: all_apart_append)
  have ap2: "apart_from ?old block (2 ^ l)" "apart_from ?old (block + 2 ^ l) (free_bytes ?c - 2 ^ l)"
    using ap(2) fits by (auto elim: apart_from_sub)
  have "all_apart ((block, 2 ^ l) # (?old @ rest q))"
    using ap(1) ap2 by (simp add: all_apart_append restq apart_def)
  then have all: "all_apart (lent_free_rest q ((block, l) # lent) fs)" by simp
  have "inside_arena qs (bp_arena_capacity p) (block, free_bytes ?c)"
    using block_stateD(6) [OF assms(1), of "(block, free_bytes ?c)"] cur(4) by (simp add: b(1))
  then have "inside_arena qs (bp_arena_capacity p) (block, 2 ^ l)"
    "inside_arena qs (bp_arena_capacity p) (block + 2 ^ l, free_bytes ?c - 2 ^ l)"
    using fits power_align(1) [OF sh] by (auto elim!: inside_arena_sub)
  then have inside: "inside_arena qs (bp_arena_capacity p) x" if "x \<in> set (lent_free_rest q ((block, l) # lent) fs)" for x
    using that block_stateD(6) [OF assms(1), of x] restq by auto
  show "block_state q w ((block, l) # lent) fs qs"
    unfolding block_state_def
  proof (intro conjI)
    show "pool_shape q" "memory_sound (bp_source q) w"
      "held_ok (memory_owns (bp_source q)) w (map (\<lambda>q'. (q', bp_arena_capacity q)) qs)"
      using block_stateD(1,3,4) [OF assms(1)] by (simp_all add: q_def pool_shape_def)
    show "current_ok q qs"
      using a(1) block_stateD(2) [OF assms(1)] cur(1) by (auto simp: current_ok_def q_def Let_def b(2) zero_arena_def descriptor_ok_def)
    show "all_apart (lent_free_rest q ((block, l) # lent) fs)" by (rule all)
    show "\<forall>x\<in>set (lent_free_rest q ((block, l) # lent) fs). inside_arena qs (bp_arena_capacity q) x"
      using inside by (simp add: q_def)
    show "\<forall>b\<in>set (((block, l) # lent) @ fs). bp_min q \<le> snd b \<and> snd b \<le> bp_max q"
      using block_state_grade(2,3) [OF assms(1)] assms(2,3) by (simp add: q_def)
    show "\<forall>k. bp_min q \<le> k \<and> k \<le> bp_max q \<longrightarrow> linked id (bytes_of w) (bp_heads q ! (k - bp_min q)) (of_size k fs)"
      using block_stateD(7) [OF assms(1)] by (simp add: q_def)
    show "bp_lent q = bytes_in ((block, l) # lent)" "bp_cached q = bytes_in fs"
      using block_stateD(8,9) [OF assms(1)] by (simp_all add: q_def)
  qed
  show "left_in q = left_in p - 2 ^ l" "w' = w"
    using a(1) fits d cur(2) by (auto simp: q_def b remaining_bytes_def descriptor_ok_def single_type_def is_single_arena_def arena_ok_def)
  show "bp_lent p + 2 ^ l < ADDRESS_END" using sum fits block_stateD(8) [OF assms(1)] by simp
qed


text \<open>A lent block is put in front of the free list of its size, and its first bytes hold the link.\<close>

definition put_back :: "piece \<Rightarrow> arnm_graded_block_pool \<Rightarrow> arnm_graded_block_pool" where
  "put_back b p = p\<lparr>bp_heads := (bp_heads p)[snd b - bp_min p := fst b], bp_lent := bp_lent p - 2 ^ snd b,
     bp_cached := u64 (bp_cached p + 2 ^ snd b)\<rparr>"

definition link_back :: "piece \<Rightarrow> arnm_graded_block_pool \<Rightarrow> world \<Rightarrow> world" where
  "link_back b p w = set_bytes (store_ptr (bytes_of w) (fst b) (bp_heads p ! (snd b - bp_min p))) w"

lemma of_size_Cons: "of_size k (b # fs) = (if snd b = k then fst b # of_size k fs else of_size k fs)"
  by (simp add: of_size_def)

lemma linked_head: "linked slot m head xs \<Longrightarrow> head = (case xs of [] \<Rightarrow> NULL | x # _ \<Rightarrow> x)"
  by (cases xs) auto

lemma link_back_bytes: "a \<notin> region (fst b) 8 \<Longrightarrow> bytes_of (link_back b p w) a = bytes_of w a"
  by (simp add: link_back_def store_outside)

lemma put_back_ok:
  assumes "block_state p w lent fs qs" "b \<in> set lent"
  shows "block_state (put_back b p) (link_back b p w) (remove1 b lent) (b # fs) qs"
    "rest (put_back b p) = rest p"
    "c \<in> set lent \<Longrightarrow> c \<noteq> b \<Longrightarrow> rd (bytes_of (link_back b p w)) (fst c) (2 ^ snd c) = rd (bytes_of w) (fst c) (2 ^ snd c)"
proof -
  obtain x l where b: "b = (x, l)" by fastforce
  let ?i = "l - bp_min p" and ?q = "put_back b p" and ?w = "link_back b p w"
  have bm: "b \<in> set (lent @ fs)" using assms(2) by simp
  note grade = block_state_grade [OF assms(1)]
  have l: "bp_min p \<le> l" "l \<le> bp_max p" "8 \<le> (2::nat) ^ l" "x \<noteq> NULL" using grade [OF bm] b by simp_all
  have head: "bp_heads p ! ?i < ADDRESS_END"
  proof (cases "of_size l fs")
    case (Cons y ys)
    then have "(y, l) \<in> set fs" using of_size_member [of y l fs] by simp
    then show ?thesis
      using grade(5) [of "(y, l)"] linked_head [OF block_stateD(7) [OF assms(1) l(1,2)]] Cons by simp
  qed (use linked_head [OF block_stateD(7) [OF assms(1) l(1,2)]] in simp)
  have dis: "distinct (lent @ fs)" using extents_distinct [OF block_stateD(5) [OF assms(1)]] .
  have far: "apart x 8 (fst c) 8" "apart x 8 (fst c) (2 ^ snd c)" if c: "c \<in> set (lent @ fs)" "c \<noteq> b" for c
  proof -
    have "apart (fst b) (2 ^ snd b) (fst c) (2 ^ snd c)"
      using extent_apart [OF block_stateD(5) [OF assms(1)] bm c(1)] c(2) by simp
    then show "apart x 8 (fst c) 8" "apart x 8 (fst c) (2 ^ snd c)"
      using grade(1) [OF c(1)] grade(1) [OF bm] b by (auto simp: apart_def)
  qed
  have free_b: "b \<notin> set fs" using dis assms(2) by auto
  show same: "rest ?q = rest p" by (simp add: put_back_def rest_def)
  have out: "bytes_in lent = 2 ^ l + bytes_in (remove1 b lent)" using bytes_in_remove1 [OF assms(2)] b by simp
  have books: "bp_lent ?q = bytes_in (remove1 b lent)" "bp_cached ?q = bytes_in (b # fs)"
    using block_stateD(8,9) [OF assms(1)] out block_state_sum [OF assms(1)] b by (simp_all add: put_back_def)
  have "mset (map extent ((b # fs) @ remove1 b lent)) = mset (map extent (fs @ lent))" by (rule mset_move [OF assms(2)])
  then have perm: "mset (lent_free_rest ?q (remove1 b lent) (b # fs)) = mset (lent_free_rest p lent fs)"
    by (simp only: mset_append map_append same) (simp only: add_ac)
  have all: "all_apart (lent_free_rest ?q (remove1 b lent) (b # fs))"
    by (rule all_apart_perm [OF perm [symmetric] block_stateD(5) [OF assms(1)]])
  have lists: "linked id (bytes_of ?w) (bp_heads ?q ! (k - bp_min p)) (of_size k (b # fs))"
    if k: "bp_min p \<le> k" "k \<le> bp_max p" for k
  proof (cases "k = l")
    case True
    have far1: "apart (id x) 8 (id y) 8" if "y \<in> set (of_size l fs)" for y
      using far(1) [of "(y, l)"] that free_b b by (auto simp: of_size_member)
    have "linked id (store_ptr (bytes_of w) (id x) (bp_heads p ! ?i)) x (x # of_size l fs)"
      by (rule linked_push [OF block_stateD(7) [OF assms(1) l(1,2)] l(4) head far1])
    then show ?thesis
      using True b head_index [OF block_stateD(1) [OF assms(1)] l(2)]
      by (simp add: of_size_Cons put_back_def link_back_def)
  next
    case False
    have "k - bp_min p \<noteq> ?i" using False k l(1) by simp
    then have "bp_heads ?q ! (k - bp_min p) = bp_heads p ! (k - bp_min p)" "of_size k (b # fs) = of_size k fs"
      using False b by (simp_all add: put_back_def of_size_Cons)
    moreover have "linked id (bytes_of ?w) (bp_heads p ! (k - bp_min p)) (of_size k fs)"
    proof (rule linked_keep [OF block_stateD(7) [OF assms(1) k]])
      fix y a assume y: "y \<in> set (of_size k fs)" and a: "a \<in> region y 8"
      have "apart x 8 y 8" using far(1) [of "(y, k)"] y False b by (simp add: of_size_member)
      then have "a \<notin> region (fst b) 8" using a b by (auto simp: apart_def)
      then show "bytes_of ?w a = bytes_of w a" by (rule link_back_bytes)
    qed
    ultimately show ?thesis by simp
  qed
  show "block_state ?q ?w (remove1 b lent) (b # fs) qs"
    unfolding block_state_def mset_eq_setD [OF perm]
  proof (intro conjI)
    show "pool_shape ?q" "current_ok ?q qs" using block_stateD(1,2) [OF assms(1)]
      by (simp_all add: put_back_def pool_shape_def current_ok_def)
    have src: "bp_source ?q = bp_source p" "bp_arena_capacity ?q = bp_arena_capacity p" by (simp_all add: put_back_def)
    show "memory_sound (bp_source ?q) ?w" unfolding src
      using block_stateD(3) [OF assms(1)] memory.sound_set [of "bp_source p"] by (simp add: link_back_def)
    show "held_ok (memory_owns (bp_source ?q)) ?w (map (\<lambda>q'. (q', bp_arena_capacity ?q)) qs)" unfolding src
      using block_stateD(4) [OF assms(1)] memory.owns_set [of "bp_source p"] by (simp add: link_back_def held_ok_def)
    show "all_apart (lent_free_rest ?q (remove1 b lent) (b # fs))" by (rule all)
    show "\<forall>x\<in>set (lent_free_rest p lent fs). inside_arena qs (bp_arena_capacity ?q) x"
      using block_stateD(6) [OF assms(1)] unfolding src by blast
    show "\<forall>c\<in>set (remove1 b lent @ b # fs). bp_min ?q \<le> snd c \<and> snd c \<le> bp_max ?q"
    proof
      fix c assume "c \<in> set (remove1 b lent @ b # fs)"
      then have "c \<in> set (lent @ fs)" using assms(2) subsetD [OF set_remove1_subset [of b lent], of c] by auto
      then show "bp_min ?q \<le> snd c \<and> snd c \<le> bp_max ?q" using grade(2,3) by (simp add: put_back_def)
    qed
    show "\<forall>k. bp_min ?q \<le> k \<and> k \<le> bp_max ?q \<longrightarrow> linked id (bytes_of ?w) (bp_heads ?q ! (k - bp_min ?q)) (of_size k (b # fs))"
      using lists by (simp add: put_back_def)
  qed (rule books)+
  show "rd (bytes_of ?w) (fst c) (2 ^ snd c) = rd (bytes_of w) (fst c) (2 ^ snd c)" if "c \<in> set lent" "c \<noteq> b"
    using far(2) [of c] that b by (intro rd_cong link_back_bytes) (auto simp: apart_def)
qed


section \<open>Splitting what is left of an arena\<close>

text \<open>What a step leaves alone: how the pool is set up, and the bytes of the blocks lent.\<close>

definition pool_setup_kept :: "arnm_graded_block_pool \<Rightarrow> arnm_graded_block_pool \<Rightarrow> bool" where
  "pool_setup_kept p q \<longleftrightarrow> bp_source q = bp_source p \<and> bp_min q = bp_min p \<and> bp_max q = bp_max p \<and>
    bp_arena_capacity q = bp_arena_capacity p"

definition lent_kept :: "world \<Rightarrow> world \<Rightarrow> piece list \<Rightarrow> bool" where
  "lent_kept w w' lent \<longleftrightarrow> (\<forall>c\<in>set lent. rd (bytes_of w') (fst c) (2 ^ snd c) = rd (bytes_of w) (fst c) (2 ^ snd c))"

definition only_bytes :: "world \<Rightarrow> world \<Rightarrow> bool" where
  "only_bytes w w' \<longleftrightarrow> (\<exists>m. w' = set_bytes m w)"

definition split_ok :: "arnm_graded_block_pool \<Rightarrow> world \<Rightarrow> piece list \<Rightarrow> addr list \<Rightarrow> arnm_graded_block_pool \<Rightarrow> world \<Rightarrow> bool" where
  "split_ok p w lent qs q w' \<longleftrightarrow> (\<exists>fs. block_state q w' lent fs qs) \<and> pool_setup_kept p q \<and> lent_kept w w' lent \<and> only_bytes w w'"

lemma pool_setup_kept_refl [simp]: "pool_setup_kept p p" by (simp add: pool_setup_kept_def)
lemma lent_kept_refl [simp]: "lent_kept w w lent" by (simp add: lent_kept_def)
lemma only_bytes_refl [simp]: "only_bytes w w"
  unfolding only_bytes_def by (rule exI [of _ "bytes_of w"]) (simp add: set_bytes_def)

lemma pool_setup_kept_trans: "pool_setup_kept p q \<Longrightarrow> pool_setup_kept q s \<Longrightarrow> pool_setup_kept p s" by (simp add: pool_setup_kept_def)
lemma lent_kept_trans: "lent_kept w w1 lent \<Longrightarrow> lent_kept w1 w2 lent \<Longrightarrow> lent_kept w w2 lent" by (simp add: lent_kept_def)
lemma only_bytes_trans: "only_bytes w w1 \<Longrightarrow> only_bytes w1 w2 \<Longrightarrow> only_bytes w w2"
  by (auto simp: only_bytes_def set_bytes_def)

lemma split_ok_refl: "block_state p w lent fs qs \<Longrightarrow> split_ok p w lent qs p w"
  by (auto simp: split_ok_def)

lemma split_ok_trans: "split_ok p w lent qs q w1 \<Longrightarrow> split_ok q w1 lent qs s w2 \<Longrightarrow> split_ok p w lent qs s w2"
  unfolding split_ok_def by (meson pool_setup_kept_trans lent_kept_trans only_bytes_trans)

lemma split_step:
  assumes "block_state p w lent fs qs" "bp_min p \<le> l" "l \<le> bp_max p" "2 ^ l \<le> left_in p"
  obtains piece a q w' where "object_alloc (2 ^ l) (bp_current p) w = (ARNM_SUCCESS, piece, a, w)"
    "push_free (p\<lparr>bp_current := a\<rparr>) piece l w = (q, w')" "split_ok p w lent qs q w'" "left_in q = left_in p - 2 ^ l"
proof -
  obtain r piece a w1 where al: "object_alloc (2 ^ l) (bp_current p) w = (r, piece, a, w1)" by (metis prod_cases4)
  let ?p = "p\<lparr>bp_current := a, bp_lent := bp_lent p + 2 ^ l\<rparr>"
  note cut = cut_ok [OF assms al]
  have r: "r = ARNM_SUCCESS"
  proof (rule ccontr)
    assume "r \<noteq> ARNM_SUCCESS"
    moreover have "0 < left_in p" using assms(4) by (rule less_le_trans [rotated]) simp
    note cur = left_in_current [OF block_stateD(2) [OF assms(1)] this]
    have "3 \<le> l" "l \<le> 31" using block_stateD(1) [OF assms(1)] assms(2,3) by (simp_all add: pool_shape_def)
    ultimately show False
      using al cur assms(4) power_align [of l] arena_alloc_aligned_cases [of "bp_current p" NULL "2 ^ l"]
      by (simp add: object_alloc_def descriptor_ok_def)
  qed
  have stored: "block_state (put_back (piece, l) ?p) (link_back (piece, l) ?p w) lent ((piece, l) # fs) qs"
    using put_back_ok(1) [OF cut(1), of "(piece, l)"] by simp
  moreover have "push_free (p\<lparr>bp_current := a\<rparr>) piece l w = (put_back (piece, l) ?p, link_back (piece, l) ?p w)"
    by (simp add: push_free_def put_back_def link_back_def)
  moreover have "lent_kept w (link_back (piece, l) ?p w) lent"
  proof -
    have "(piece, l) \<notin> set lent" using extents_distinct [OF block_stateD(5) [OF cut(1)]] by auto
    then show ?thesis unfolding lent_kept_def using put_back_ok(3) [OF cut(1)] by auto
  qed
  moreover have "only_bytes w (link_back (piece, l) ?p w)" by (auto simp: only_bytes_def link_back_def)
  moreover have "pool_setup_kept p (put_back (piece, l) ?p)" by (simp add: pool_setup_kept_def put_back_def)
  moreover have "left_in (put_back (piece, l) ?p) = left_in p - 2 ^ l" using cut(2) by (simp add: put_back_def)
  ultimately show thesis using al r cut(3) by (intro that) (auto simp: split_ok_def)
qed

lemma split_pieces_ok:
  assumes "block_state p w lent fs qs" "bp_min p \<le> l" "l \<le> bp_max p"
  shows "\<exists>q w'. split_pieces l (left_in p) p w = Some (left_in q, q, w') \<and> split_ok p w lent qs q w' \<and> left_in q < 2 ^ l"
  using assms
proof (induction "left_in p" arbitrary: p w fs rule: less_induct)
  case less
  have l: "3 \<le> l" "l \<le> 31" using block_stateD(1) [OF less.prems(1)] less.prems(2,3) by (simp_all add: pool_shape_def)
  note u = power_align(4) [OF l]
  show ?case
  proof (cases "2 ^ l \<le> left_in p")
    case True
    then obtain piece a q w' where step: "object_alloc (2 ^ l) (bp_current p) w = (ARNM_SUCCESS, piece, a, w)"
      "push_free (p\<lparr>bp_current := a\<rparr>) piece l w = (q, w')" "split_ok p w lent qs q w'" "left_in q = left_in p - 2 ^ l"
      using split_step [OF less.prems] by metis
    obtain fs' where st: "block_state q w' lent fs' qs" and conf: "pool_setup_kept p q" using step(3) by (auto simp: split_ok_def)
    have "left_in p \<le> UINT32_MAX" by (simp add: remaining_bytes_def sub32_def split: option.split)
    then have left: "sub32 (left_in p) (2 ^ l) = left_in q" using True step(4) by simp
    have "0 < (2::nat) ^ l" by simp
    then have "left_in q < left_in p" using step(4) True by linarith
    then obtain q2 w2 where "split_pieces l (left_in q) q w' = Some (left_in q2, q2, w2)" "split_ok q w' lent qs q2 w2"
      "left_in q2 < 2 ^ l"
      using less.hyps [of q w' fs'] st conf less.prems(2,3) by (auto simp: pool_setup_kept_def)
    moreover from this have "split_ok p w lent qs q2 w2" using step(3) split_ok_trans by blast
    ultimately show ?thesis using True step left u by (subst split_pieces.simps) auto
  next
    case False
    then show ?thesis using split_ok_refl [OF less.prems(1)] u by (subst split_pieces.simps) auto
  qed
qed

lemma split_grades_ok:
  assumes "block_state p w lent fs qs" "l = bp_min p + k" "l \<le> bp_max p"
  shows "\<exists>q w'. split_grades l (left_in p) p w = Some (q, w') \<and> split_ok p w lent qs q w' \<and> left_in q < 2 ^ bp_min p"
  using assms
proof (induction k arbitrary: l p w fs)
  case 0
  have m: "3 \<le> bp_min p" "bp_min p \<le> 31" using block_stateD(1) [OF 0(1)] by (simp_all add: pool_shape_def)
  note u = power_align(4) [OF m]
  obtain q w' where run: "split_pieces l (left_in p) p w = Some (left_in q, q, w')" "split_ok p w lent qs q w'" "left_in q < 2 ^ l"
    using split_pieces_ok [OF 0(1), of l] 0 by auto
  have q: "bp_min q = bp_min p" using run(2) by (simp add: split_ok_def pool_setup_kept_def)
  have "split_grades l' (left_in q) q w' = Some (q, w')" for l'
    using run(3) u 0(2) q by (subst split_grades.simps) simp
  then show ?case
    using run u 0 split_ok_refl [OF 0(1)] by (subst split_grades.simps) auto
next
  case (Suc k)
  have m: "3 \<le> bp_min p" "bp_min p \<le> 31" "l \<le> 31" using block_stateD(1) [OF Suc.prems(1)] Suc.prems(2,3) by (simp_all add: pool_shape_def)
  note u = power_align(4) [OF m(1,2)]
  obtain q w' where run: "split_pieces l (left_in p) p w = Some (left_in q, q, w')" "split_ok p w lent qs q w'"
    using split_pieces_ok [OF Suc.prems(1), of l] Suc.prems by auto
  obtain fs' where st: "block_state q w' lent fs' qs" and conf: "pool_setup_kept p q" using run(2) by (auto simp: split_ok_def)
  have l': "u8 (l + 255) = bp_min q + k" using Suc.prems(2) m(3) conf by (simp add: u8_def pool_setup_kept_def)
  obtain q2 w2 where rec: "split_grades (u8 (l + 255)) (left_in q) q w' = Some (q2, w2)" "split_ok q w' lent qs q2 w2"
    "left_in q2 < 2 ^ bp_min q"
    using Suc.IH [OF st l'] Suc.prems(2,3) conf l' by (auto simp: pool_setup_kept_def)
  have "split_ok p w lent qs q2 w2" using run(2) rec(2) split_ok_trans by blast
  then show ?case
    using run rec u conf split_ok_refl [OF Suc.prems(1)] by (subst split_grades.simps) (auto simp: pool_setup_kept_def)
qed

lemma split_current_ok:
  assumes "block_state p w lent fs qs"
  obtains q w' where "split_current p w = Some (q, w')" "split_ok p w lent qs q w'" "left_in q < 2 ^ bp_min p"
proof -
  have "bp_max p = bp_min p + (bp_max p - bp_min p)" using block_stateD(1) [OF assms] by (simp add: pool_shape_def)
  from split_grades_ok [OF assms this order_refl] show thesis using that by (auto simp: split_current_def)
qed


section \<open>A new arena\<close>

lemma inside_more: "inside_arena qs k x \<Longrightarrow> inside_arena (q # qs) k x"
  by (auto simp: inside_arena_def)

lemma source_alloc_ok:
  assumes "block_state p w lent fs qs" "memory_alloc (Some NULL) (bp_arena_capacity p) (bp_source p) w = (r, block, w')"
  shows "block_state p w' lent fs qs" "lent_kept w w' lent"
    "r = ARNM_SUCCESS \<Longrightarrow> memory_owns (bp_source p) w' (the block) (bp_arena_capacity p) \<and>
      (\<forall>q\<in>set qs. apart (the block) (bp_arena_capacity p) q (bp_arena_capacity p))"
    "r \<noteq> ARNM_WARNING_ARENA_MEMORY_NOT_RECLAIMED"
proof -
  let ?k = "bp_arena_capacity p" and ?s = "bp_source p"
  have "0 < ?k" using block_stateD(1) [OF assms(1)] less_le_trans [of 0 "(2::nat) ^ bp_max p" ?k] by (simp add: pool_shape_def)
  moreover have "op_alloc (memory_ops ?s) ?k w = (r, the block, w')" using assms(2) by (simp add: memory_ops_def)
  ultimately have law: "memory_sound ?s w'" "\<And>q n. memory_owns ?s w q n \<Longrightarrow> memory_owns ?s w' q n"
    "\<And>q n. memory_owns ?s w q n \<Longrightarrow> rd (bytes_of w') q n = rd (bytes_of w) q n"
    "r = ARNM_SUCCESS \<Longrightarrow> memory_owns ?s w' (the block) ?k"
    "\<And>q n. r = ARNM_SUCCESS \<Longrightarrow> memory_owns ?s w q n \<Longrightarrow> apart (the block) ?k q n"
    "r \<noteq> ARNM_WARNING_ARENA_MEMORY_NOT_RECLAIMED"
    using memory.alloc_law [OF block_stateD(3) [OF assms(1)]] by auto
  show "r \<noteq> ARNM_WARNING_ARENA_MEMORY_NOT_RECLAIMED" by (rule law(6))
  have own: "memory_owns ?s w q ?k" if "q \<in> set qs" for q
    using block_stateD(4) [OF assms(1)] that by (auto simp: held_ok_def)
  have bytes: "bytes_of w' x = bytes_of w x" if m: "(a, n) \<in> set (lent_free_rest p lent fs)" and x: "x \<in> region a n" for a n x
  proof -
    obtain q where q: "memory_owns ?s w q ?k" "q \<le> a" "a + n \<le> q + ?k" using block_state_pieces(4) [OF assms(1) m] by blast
    then have "x \<in> region q ?k" using x by simp
    then show ?thesis using law(3) [OF q(1)] by (simp add: rd_eq_iff region_def) (metis add_diff_inverse_nat add_less_cancel_left not_le)
  qed
  have lists: "linked id (bytes_of w') (bp_heads p ! (l - bp_min p)) (of_size l fs)" if l: "bp_min p \<le> l" "l \<le> bp_max p" for l
  proof (rule linked_keep [OF block_stateD(7) [OF assms(1) l]])
    fix y a assume y: "y \<in> set (of_size l fs)" "a \<in> region y 8"
    have m: "(y, l) \<in> set (lent @ fs)" using y(1) by (simp add: of_size_member)
    then have "(y, 2 ^ l) \<in> set (lent_free_rest p lent fs)" by (auto intro: rev_image_eqI)
    moreover have "a \<in> region y (2 ^ l)" using y(2) block_state_grade(1) [OF assms(1) m] by simp
    ultimately show "bytes_of w' a = bytes_of w a" by (rule bytes)
  qed
  have "held_ok (memory_owns ?s) w' (map (\<lambda>q. (q, ?k)) qs)"
    by (rule held_ok_keep [OF block_stateD(4) [OF assms(1)]]) (use own law(2) in auto)
  then show "block_state p w' lent fs qs"
    using assms(1) lists law(1) unfolding block_state_def by blast
  show "lent_kept w w' lent"
    unfolding lent_kept_def
  proof
    fix c assume "c \<in> set lent"
    then have "(fst c, 2 ^ snd c) \<in> set (lent_free_rest p lent fs)" by (auto intro: rev_image_eqI)
    from bytes [OF this] show "rd (bytes_of w') (fst c) (2 ^ snd c) = rd (bytes_of w) (fst c) (2 ^ snd c)"
      by (intro rd_cong) auto
  qed
  show "memory_owns ?s w' (the block) ?k \<and> (\<forall>q\<in>set qs. apart (the block) ?k q ?k)" if "r = ARNM_SUCCESS"
    using law(4,5) own that by blast
qed

lemma borrow_ok:
  assumes "block_state p w lent fs qs" "memory_owns (bp_source p) w b (bp_arena_capacity p)"
    and "\<forall>q\<in>set qs. apart b (bp_arena_capacity p) q (bp_arena_capacity p)"
  defines "a \<equiv> snd (borrow_arena b (bp_arena_capacity p) (bp_current p))"
  shows "block_state (p\<lparr>bp_current := a\<rparr>) w lent fs (b # qs)" "left_in (p\<lparr>bp_current := a\<rparr>) = bp_arena_capacity p"
proof -
  let ?k = "bp_arena_capacity p" and ?q = "p\<lparr>bp_current := a\<rparr>"
  have shape: "?k mod 8 = 0" "?k \<le> ARNM_MAX_ALLOC_SIZE" "0 < ?k"
    using block_stateD(1) [OF assms(1)] less_le_trans [of 0 "(2::nat) ^ bp_max p" ?k] by (simp_all add: pool_shape_def)
  have b: "b \<noteq> NULL" "b mod 8 = 0" "b + ?k < ADDRESS_END"
    using memory.owned [OF block_stateD(3) [OF assms(1)] assms(2)] by simp_all
  have a: "a = bp_current p\<lparr>data := b, capacity := ?k, allocation_type := ARNM_ALLOC_TYPE_ARENA_EXTERNAL,
      last_index := 0, out_of_memory_capacity := 0\<rparr>"
    using b shape by (simp add: a_def borrow_arena_def arnm_align8_u32_def reset_arena_def is_single_arena_def Let_def)
  have d: "descriptor_ok a" "\<not> is_default_alloc (Some a)"
    using b shape by (simp_all add: a descriptor_ok_def arena_ok_def single_type_def is_default_alloc_def
        ARNM_MAX_ALLOC_SIZE_def)
  show "left_in ?q = ?k" using shape by (simp add: a remaining_bytes_def is_single_arena_def ARNM_MAX_ALLOC_SIZE_def)
  have rest: "rest ?q = [(b, ?k)]" using d(2) by (simp add: rest_def Let_def) (simp add: a)
  let ?old = "map extent (lent @ fs)"
  have old: "x \<in> set ?old \<Longrightarrow> inside_arena qs ?k x" for x using block_stateD(6) [OF assms(1), of x] by auto
  have "apart x n b ?k" if "(x, n) \<in> set ?old" for x n
    using old [OF that] assms(3) by (auto simp: inside_arena_def apart_def)
  then have "apart_from ?old b ?k" by (auto simp: apart_from_def)
  moreover have "all_apart ?old" using block_stateD(5) [OF assms(1)] by (simp add: all_apart_append)
  ultimately have all: "all_apart (lent_free_rest ?q lent fs)" by (simp add: rest all_apart_append)
  have inside: "\<forall>x\<in>set (lent_free_rest ?q lent fs). inside_arena (b # qs) ?k x"
  proof
    fix x assume "x \<in> set (lent_free_rest ?q lent fs)"
    then have "x \<in> set ?old \<or> x = (b, ?k)" by (auto simp: rest)
    then show "inside_arena (b # qs) ?k x" using inside_more [OF old, of x b] b by (auto simp: inside_arena_def)
  qed
  have held: "held_ok (memory_owns (bp_source p)) w (map (\<lambda>q. (q, ?k)) (b # qs))"
    using block_stateD(4) [OF assms(1)] assms(2,3) by (auto simp: apart_from_iff)
  show "block_state ?q w lent fs (b # qs)"
    unfolding block_state_def
  proof (intro conjI)
    show "pool_shape ?q" "memory_sound (bp_source ?q) w" "bp_lent ?q = bytes_in lent" "bp_cached ?q = bytes_in fs"
      using block_stateD(1,3,8,9) [OF assms(1)] by (simp_all add: pool_shape_def)
    show "current_ok ?q (b # qs)" using d(1) by (simp add: current_ok_def Let_def) (simp add: a)
    show "held_ok (memory_owns (bp_source ?q)) w (map (\<lambda>q. (q, bp_arena_capacity ?q)) (b # qs))" using held by simp
    show "\<forall>x\<in>set (lent_free_rest ?q lent fs). inside_arena (b # qs) (bp_arena_capacity ?q) x" using inside by simp
    show "\<forall>c\<in>set (lent @ fs). bp_min ?q \<le> snd c \<and> snd c \<le> bp_max ?q"
      using block_state_grade(2,3) [OF assms(1)] by simp
    show "\<forall>l. bp_min ?q \<le> l \<and> l \<le> bp_max ?q \<longrightarrow> linked id (bytes_of w) (bp_heads ?q ! (l - bp_min ?q)) (of_size l fs)"
      using block_stateD(7) [OF assms(1)] by simp
  qed (rule all)
qed

lemma next_arena_ok:
  assumes "block_state p w lent fs qs"
  obtains r q w' where "next_arena p w = Some (r, q, w')" "\<exists>fs' qs'. block_state q w' lent fs' qs'" "pool_setup_kept p q"
    "lent_kept w w' lent" "r = ARNM_SUCCESS \<Longrightarrow> left_in q = bp_arena_capacity p"
    "r \<noteq> ARNM_WARNING_ARENA_MEMORY_NOT_RECLAIMED"
proof -
  obtain r block w1 where al: "memory_alloc (Some NULL) (bp_arena_capacity p) (bp_source p) w = (r, block, w1)" by (metis prod_cases3)
  note src = source_alloc_ok [OF assms al]
  show thesis
  proof (cases "r = ARNM_SUCCESS")
    case True
    obtain q w2 where sp: "split_current p w1 = Some (q, w2)" "split_ok p w1 lent qs q w2" using split_current_ok [OF src(1)] by metis
    obtain fs' m where st: "block_state q w2 lent fs' qs" and m: "w2 = set_bytes m w1" and conf: "pool_setup_kept p q"
      using sp(2) by (auto simp: split_ok_def only_bytes_def)
    have own: "memory_owns (bp_source q) w2 (the block) (bp_arena_capacity q)"
      using src(3) [OF True] memory.owns_set [of "bp_source p" m w1] conf m by (simp add: pool_setup_kept_def)
    have ap: "\<forall>q'\<in>set qs. apart (the block) (bp_arena_capacity q) q' (bp_arena_capacity q)"
      using src(3) [OF True] conf by (simp add: pool_setup_kept_def)
    note fin = borrow_ok [OF st own ap]
    have cap: "bp_arena_capacity q = bp_arena_capacity p" using conf by (simp add: pool_setup_kept_def)
    let ?q = "q\<lparr>bp_current := snd (borrow_arena (the block) (bp_arena_capacity q) (bp_current q))\<rparr>"
    show thesis
    proof (rule that [of ARNM_SUCCESS ?q w2])
      show "next_arena p w = Some (ARNM_SUCCESS, ?q, w2)" using al True sp(1) by (simp add: next_arena_def)
      show "\<exists>fs' qs'. block_state ?q w2 lent fs' qs'" using fin(1) by blast
      show "pool_setup_kept p ?q" using conf by (simp add: pool_setup_kept_def)
      show "lent_kept w w2 lent" using src(2) sp(2) lent_kept_trans by (auto simp: split_ok_def)
      show "left_in ?q = bp_arena_capacity p" using fin(2) cap by simp
      show "ARNM_SUCCESS \<noteq> ARNM_WARNING_ARENA_MEMORY_NOT_RECLAIMED" by simp
    qed
  next
    case False
    then show thesis using that [of r p w1] al src by (auto simp: next_arena_def)
  qed
qed

section \<open>Lending and taking back\<close>

definition lends :: "arnm_graded_block_pool \<Rightarrow> world \<Rightarrow> piece list \<Rightarrow> nat \<Rightarrow>
    arnm_result \<Rightarrow> arnm_graded_block_pool \<Rightarrow> addr \<Rightarrow> world \<Rightarrow> bool" where
  "lends p w lent l r q block w' \<longleftrightarrow> r \<noteq> ARNM_WARNING_ARENA_MEMORY_NOT_RECLAIMED \<and> pool_setup_kept p q \<and> lent_kept w w' lent \<and>
    (\<exists>fs qs. block_state q w' (if r = ARNM_SUCCESS then (block, l) # lent else lent) fs qs)"

lemma lends_later:
  "pool_setup_kept p q \<Longrightarrow> lent_kept w w1 lent \<Longrightarrow> lends q w1 lent l r s block w' \<Longrightarrow> lends p w lent l r s block w'"
  unfolding lends_def by (meson pool_setup_kept_trans lent_kept_trans)

lemma pop_lends:
  assumes "block_state p w lent fs qs" "bp_min p \<le> l" "l \<le> bp_max p" "bp_heads p ! (l - bp_min p) \<noteq> NULL"
    and "pop_block p l w = (q, block)"
  shows "lends p w lent l ARNM_SUCCESS q block w"
proof -
  have "pool_setup_kept p q" using assms(5) by (auto simp: pop_block_def pool_setup_kept_def Let_def)
  then show ?thesis using pop_block_ok(2) [OF assms] by (auto simp: lends_def)
qed

lemma cut_lends:
  assumes "block_state p w lent fs qs" "bp_min p \<le> l" "l \<le> bp_max p" "2 ^ l \<le> left_in p"
    and "object_alloc (2 ^ l) (bp_current p) w = (r, block, a, w')"
  shows "lends p w lent l ARNM_SUCCESS (p\<lparr>bp_current := a, bp_lent := u64 (bp_lent p + 2 ^ l)\<rparr>) block w'"
proof -
  note cut = cut_ok [OF assms]
  have "u64 (bp_lent p + 2 ^ l) = bp_lent p + 2 ^ l" using cut(4) by simp
  then show ?thesis using cut(1,3) by (auto simp: lends_def pool_setup_kept_def)
qed

lemma alloc_fresh_ok:
  assumes "block_state p w lent fs qs" "bp_min p \<le> l" "l \<le> bp_max p"
  obtains r q block w' where "arnm_graded_block_pool_alloc_fresh p buffer l w = Some (r, q, block, w')"
    "lends p w lent l r q block w'"
proof -
  note shape = block_stateD(1) [OF assms(1)]
  have l: "3 \<le> l" "l \<le> 31" using shape assms(2,3) by (simp_all add: pool_shape_def)
  note u = power_align(4) [OF l]
  have src: "bp_source p \<noteq> NULL" using shape by (simp add: pool_shape_def)
  show thesis
  proof (cases "2 ^ l \<le> left_in p")
    case True
    obtain r block a w' where "object_alloc (2 ^ l) (bp_current p) w = (r, block, a, w')" by (metis prod_cases4)
    then show thesis
      using that cut_lends [OF assms True] src True u by (auto simp: arnm_graded_block_pool_alloc_fresh_def Let_def)
  next
    case False
    obtain r q w1 where nx: "next_arena p w = Some (r, q, w1)" "\<exists>fs' qs'. block_state q w1 lent fs' qs'" "pool_setup_kept p q"
      "lent_kept w w1 lent" "r = ARNM_SUCCESS \<Longrightarrow> left_in q = bp_arena_capacity p"
      "r \<noteq> ARNM_WARNING_ARENA_MEMORY_NOT_RECLAIMED"
      using next_arena_ok [OF assms(1)] by metis
    obtain fs' qs' where st: "block_state q w1 lent fs' qs'" using nx(2) by blast
    have lq: "bp_min q \<le> l" "l \<le> bp_max q" using nx(3) assms(2,3) by (simp_all add: pool_setup_kept_def)
    show thesis
    proof (cases "r = ARNM_SUCCESS")
      case ok: True
      show thesis
      proof (cases "bp_heads q ! (l - bp_min q) = NULL")
        case True
        have "(2::nat) ^ l \<le> 2 ^ bp_max p" using assms(3) by (intro power_increasing) simp_all
        also have "\<dots> \<le> left_in q" using nx(5) [OF ok] shape by (simp add: pool_shape_def)
        finally have room: "2 ^ l \<le> left_in q" .
        obtain r2 block a w2 where cut: "object_alloc (2 ^ l) (bp_current q) w1 = (r2, block, a, w2)" by (metis prod_cases4)
        show thesis
          using that [OF _ lends_later [OF nx(3,4) cut_lends [OF st lq room cut]]] src False u nx(1) ok cut True
          by (simp add: arnm_graded_block_pool_alloc_fresh_def Let_def)
      next
        case full: False
        obtain s block where pop: "pop_block q l w1 = (s, block)" by fastforce
        show thesis
          using that [OF _ lends_later [OF nx(3,4) pop_lends [OF st lq full pop]]] src False u nx(1) ok full lq pop
          by (simp add: arnm_graded_block_pool_alloc_fresh_def Let_def)
      qed
    next
      case bad: False
      have "lends p w lent l r q buffer w1" using nx(3,4,6) st bad by (auto simp: lends_def)
      then show thesis
        using that src False u nx(1) bad by (simp add: arnm_graded_block_pool_alloc_fresh_def Let_def)
    qed
  qed
qed

lemma alloc_log2_ok:
  assumes "block_state p w lent fs qs" "l \<le> bp_max p"
  obtains r q block w' where "arnm_graded_block_pool_alloc_log2 p buffer l w = Some (r, q, block, w')"
    "lends p w lent (max l (bp_min p)) r q block w'"
proof -
  let ?l = "max l (bp_min p)"
  have e: "(if l < bp_min p then bp_min p else l) = ?l" by simp
  have l: "bp_min p \<le> ?l" "?l \<le> bp_max p" using assms(2) block_stateD(1) [OF assms(1)] by (simp_all add: pool_shape_def)
  show thesis
  proof (cases "bp_heads p ! (?l - bp_min p) = NULL")
    case True
    with alloc_fresh_ok [OF assms(1) l, of buffer] show thesis
      using that assms(2) unfolding arnm_graded_block_pool_alloc_log2_def e Let_def by (metis not_le)
  next
    case False
    obtain q block where pop: "pop_block p ?l w = (q, block)" by fastforce
    show thesis
      using that [OF _ pop_lends [OF assms(1) l False pop]] assms(2) False pop
      unfolding arnm_graded_block_pool_alloc_log2_def e Let_def by simp
  qed
qed


section \<open>Sizes\<close>

text \<open>The grade of a size, once it is known to have one.\<close>

definition block_grade :: "arnm_graded_block_pool \<Rightarrow> nat \<Rightarrow> nat" where
  "block_grade p n = snd (size_to_log2 p n 0)"

lemma log2_at_most: "arnm_log2_power_of_two x \<le> k \<longleftrightarrow> x = 0 \<or> unat x \<le> 2 ^ k"
proof (cases "x = 0")
  case False
  let ?w = "width32 (x - 1)"
  have pred: "unat (x - 1) + 1 = unat x" using False unat_gt_0 [of x] by (simp add: unat_minus_one)
  have "unat x \<le> 2 ^ k" if "?w \<le> k"
  proof -
    have "unat x \<le> 2 ^ ?w" using word_less_width [of "x - 1"] pred by linarith
    also have "(2::nat) ^ ?w \<le> 2 ^ k" using that by (intro power_increasing) simp_all
    finally show ?thesis .
  qed
  moreover have "?w \<le> k" if le: "unat x \<le> 2 ^ k"
  proof (rule ccontr)
    assume "\<not> ?w \<le> k"
    then have "(2::nat) ^ k \<le> 2 ^ (?w - 1)" "0 < ?w" by (auto intro: power_increasing)
    then show False using width_le_word [of "x - 1"] pred le by linarith
  qed
  ultimately show ?thesis using False by (auto simp: log2_width)
qed (simp add: log2_width)

lemma size_to_log2_spec:
  assumes "pool_shape p" "0 < n"
  shows "if n \<le> 2 ^ bp_max p
    then size_to_log2 p n l0 = (ARNM_SUCCESS, block_grade p n) \<and> bp_min p \<le> block_grade p n \<and> block_grade p n \<le> bp_max p \<and>
      n \<le> 2 ^ block_grade p n \<and> (\<forall>k\<ge>bp_min p. n \<le> 2 ^ k \<longrightarrow> block_grade p n \<le> k)
    else size_to_log2 p n l0 = (if n \<le> ARNM_MAX_ALLOC_SIZE then ARNM_ERROR_RESOURCE_SIZE_EXCEED
      else ARNM_ERROR_ARITHMETIC_OVERFLOW, l0)"
proof (cases "n \<le> ARNM_MAX_ALLOC_SIZE")
  case True
  let ?a = "ARNM_ALIGN8 n" and ?x = "of_nat (ARNM_ALIGN8 n) :: 32 word"
  have min: "3 \<le> bp_min p" "bp_min p \<le> bp_max p" "bp_max p \<le> 31" using assms(1) by (simp_all add: pool_shape_def)
  have a: "arnm_align8_u32 n = ?a" "0 < ?a" using True assms(2) align8_bounds [of n] by (auto simp: arnm_align8_u32_def)
  have "?a < 2 ^ 32" using align8_u32_bound [of n] a(1) by (simp add: UINT32_MAX_def)
  then have x: "unat ?x = ?a" by (simp add: unat_of_nat take_bit_nat_eq_self)
  then have "?x \<noteq> 0" using a(2) by (metis less_numeral_extra(3) unat_0)
  then have log: "arnm_log2_power_of_two ?x \<le> k \<longleftrightarrow> ?a \<le> 2 ^ k" for k by (simp add: log2_at_most x)
  have up: "?a \<le> 2 ^ k \<longleftrightarrow> n \<le> 2 ^ k" if "3 \<le> k" for k
  proof -
    have "(2::nat) ^ k mod 8 = 0" using that power_add [of "2::nat" "k - 3" 3] by simp
    then show ?thesis using align8_bounds [of n] align8_least [of n "2 ^ k"] by auto
  qed
  have big: "arnm_log2_power_of_two ?x \<le> bp_max p \<longleftrightarrow> n \<le> 2 ^ bp_max p" using log up min by simp
  have grade: "block_grade p n = max (bp_min p) (arnm_log2_power_of_two ?x)" if "n \<le> 2 ^ bp_max p"
    using that big a assms(2) by (simp add: block_grade_def size_to_log2_def Let_def max_def)
  have "n \<le> 2 ^ k" if "3 \<le> k" "arnm_log2_power_of_two ?x \<le> k" for k using that log up by blast
  then have fits: "n \<le> 2 ^ max (bp_min p) (arnm_log2_power_of_two ?x)" using min(1) by simp
  have least: "max (bp_min p) (arnm_log2_power_of_two ?x) \<le> k" if "bp_min p \<le> k" "n \<le> 2 ^ k" for k
    using that log up [of k] min(1) by simp
  show ?thesis
  proof (cases "n \<le> 2 ^ bp_max p")
    case small: True
    have "size_to_log2 p n l0 = (ARNM_SUCCESS, block_grade p n)"
      using small big a assms(2) grade by (simp add: size_to_log2_def Let_def max_def)
    then show ?thesis using small fits least big min(2) unfolding grade [OF small] by simp
  next
    case large: False
    then have "\<not> arnm_log2_power_of_two ?x \<le> bp_max p" using big by blast
    then show ?thesis using large True a assms(2) by (simp add: size_to_log2_def Let_def)
  qed
next
  case False
  have "(2::nat) ^ bp_max p \<le> 2147483648" using assms(1) power_align(3) [of "bp_max p"] by (simp add: pool_shape_def)
  then have "\<not> n \<le> 2 ^ bp_max p" using False by (simp add: ARNM_MAX_ALLOC_SIZE_def UINT32_MAX_def)
  then show ?thesis using False assms(2) by (simp add: size_to_log2_def arnm_align8_u32_def)
qed

section \<open>The operations of the pool\<close>

lemma same_grade: "pool_setup_kept p q \<Longrightarrow> block_grade q n = block_grade p n"
  by (auto simp: pool_setup_kept_def block_grade_def size_to_log2_def Let_def)

lemma block_alloc_ok:
  assumes "block_state p w lent fs qs" "0 < n"
  obtains r q b w' where "arnm_graded_block_pool_alloc (Some p) (Some old) n w = Some (r, Some q, Some b, w')"
    "lends p w lent (block_grade p n) r q b w'" "r = ARNM_SUCCESS \<Longrightarrow> n \<le> 2 ^ bp_max p"
proof -
  note shape = block_stateD(1) [OF assms(1)]
  have src: "bp_source p \<noteq> NULL" using shape by (simp add: pool_shape_def)
  note size = size_to_log2_spec [OF shape assms(2), of 0]
  show thesis
  proof (cases "n \<le> 2 ^ bp_max p")
    case True
    let ?l = "block_grade p n"
    have l: "bp_min p \<le> ?l" "?l \<le> bp_max p" "size_to_log2 p n 0 = (ARNM_SUCCESS, ?l)" using size True by simp_all
    then obtain r q b w' where al: "arnm_graded_block_pool_alloc_log2 p old ?l w = Some (r, q, b, w')"
      "lends p w lent (max ?l (bp_min p)) r q b w'" using alloc_log2_ok [OF assms(1) l(2)] by metis
    have "max ?l (bp_min p) = ?l" using l(1) by simp
    then show thesis using that al l(3) src True by (auto simp: arnm_graded_block_pool_alloc_def)
  next
    case False
    then obtain e where e: "size_to_log2 p n 0 = (e, 0)" "e \<noteq> ARNM_SUCCESS" "e \<noteq> ARNM_WARNING_ARENA_MEMORY_NOT_RECLAIMED"
      using size by (auto split: if_splits)
    have "lends p w lent (block_grade p n) e p old w" using e assms(1) by (auto simp: lends_def)
    then show thesis using that src e by (auto simp: arnm_graded_block_pool_alloc_def)
  qed
qed

lemma block_free_is:
  assumes "block_state p w lent fs qs" "0 < n" "n \<le> 2 ^ bp_max p" "(a, block_grade p n) \<in> set lent"
  shows "arnm_graded_block_pool_free (Some p) a n w =
    (ARNM_SUCCESS, Some (put_back (a, block_grade p n) p), link_back (a, block_grade p n) p w)"
proof -
  let ?l = "block_grade p n"
  note shape = block_stateD(1) [OF assms(1)]
  have src: "bp_source p \<noteq> NULL" using shape by (simp add: pool_shape_def)
  have l: "bp_min p \<le> ?l" "?l \<le> bp_max p" "size_to_log2 p n 0 = (ARNM_SUCCESS, ?l)"
    using size_to_log2_spec [OF shape assms(2), of 0] assms(3) by simp_all
  have "(2::nat) ^ ?l \<le> bytes_in lent" using bytes_in_remove1 [OF assms(4)] by simp
  then have "\<not> bp_lent p < 2 ^ ?l" using block_stateD(8) [OF assms(1)] by simp
  moreover have "a \<noteq> NULL" using block_state_grade(6) [OF assms(1), of "(a, ?l)"] assms(4) by simp
  ultimately show ?thesis
    using src l by (simp add: arnm_graded_block_pool_free_def arnm_graded_block_pool_free_log2_def put_back_def link_back_def Let_def)
qed

lemma block_write:
  assumes "block_state p w lent fs qs" "b \<in> set lent"
    and "\<And>x. x \<notin> region (fst b) (2 ^ snd b) \<Longrightarrow> m x = bytes_of w x"
  shows "block_state p (set_bytes m w) lent fs qs"
proof -
  have bm: "b \<in> set (lent @ fs)" using assms(2) by simp
  have dis: "distinct (lent @ fs)" using extents_distinct [OF block_stateD(5) [OF assms(1)]] .
  have lists: "linked id m (bp_heads p ! (l - bp_min p)) (of_size l fs)" if l: "bp_min p \<le> l" "l \<le> bp_max p" for l
  proof (rule linked_keep [OF block_stateD(7) [OF assms(1) l]])
    fix y a assume y: "y \<in> set (of_size l fs)" "a \<in> region y 8"
    then have c: "(y, l) \<in> set (lent @ fs)" "(y, l) \<noteq> b" using dis assms(2) by (auto simp: of_size_member)
    have "apart (fst b) (2 ^ snd b) y (2 ^ l)"
      using extent_apart [OF block_stateD(5) [OF assms(1)] bm c(1)] c(2) by simp
    then have "a \<notin> region (fst b) (2 ^ snd b)" using y(2) block_state_grade(1) [OF assms(1) c(1)] by (auto simp: apart_def)
    then show "m a = bytes_of w a" by (rule assms(3))
  qed
  have src: "memory_sound (bp_source p) (set_bytes m w)"
    "held_ok (memory_owns (bp_source p)) (set_bytes m w) (map (\<lambda>q. (q, bp_arena_capacity p)) qs)"
    using block_stateD(3,4) [OF assms(1)] memory.sound_set [of "bp_source p"] memory.owns_set [of "bp_source p"]
    by (simp_all add: held_ok_def)
  have mem: "bytes_of (set_bytes m w) = m" by simp
  show ?thesis using assms(1) lists src unfolding block_state_def mem by blast
qed


lemma rd_prefix: "rd m a k = rd m' a k \<Longrightarrow> n \<le> k \<Longrightarrow> rd m a n = rd m' a n"
  by (auto simp: rd_eq_iff)

lemma lent_distinct: "block_state p w lent fs qs \<Longrightarrow> distinct lent"
  using extents_distinct [OF block_stateD(5)] by fastforce

lemma lent_apart: "block_state p w lent fs qs \<Longrightarrow> b \<in> set lent \<Longrightarrow> c \<in> set lent \<Longrightarrow> b \<noteq> c \<Longrightarrow>
    apart (fst b) (2 ^ snd b) (fst c) (2 ^ snd c)"
  using extent_apart [OF block_stateD(5), of p w lent fs qs b c] by simp

text \<open>A resized block: taken new, filled from the old one, which then goes back.\<close>

lemma block_realloc_ok:
  assumes "block_state p w lent fs qs" "0 < old" "old \<le> 2 ^ bp_max p" "(a, block_grade p old) \<in> set lent" "0 < new"
  obtains (moved) q b w' where
      "arnm_graded_block_pool_realloc (Some p) (Some a) old new w = Some (ARNM_SUCCESS, Some q, Some b, w')"
      "\<exists>fs qs. block_state q w' ((b, block_grade p new) # remove1 (a, block_grade p old) lent) fs qs" "pool_setup_kept p q"
      "new \<le> 2 ^ bp_max p" "lent_kept w w' (remove1 (a, block_grade p old) lent)"
      "rd (bytes_of w') b (min old new) = rd (bytes_of w) a (min old new)"
  | (refused) r q w' where "arnm_graded_block_pool_realloc (Some p) (Some a) old new w = Some (r, Some q, Some a, w')"
      "\<not> done_code r" "\<exists>fs qs. block_state q w' lent fs qs" "pool_setup_kept p q" "lent_kept w w' lent"
proof -
  let ?g = "block_grade p old" and ?h = "block_grade p new"
  obtain r q b w1 where al: "arnm_graded_block_pool_alloc (Some p) (Some NULL) new w = Some (r, Some q, Some b, w1)"
    "lends p w lent ?h r q b w1" "r = ARNM_SUCCESS \<Longrightarrow> new \<le> 2 ^ bp_max p"
    using block_alloc_ok [OF assms(1,5), of NULL] by metis
  have conf: "pool_setup_kept p q" "lent_kept w w1 lent" using al(2) by (simp_all add: lends_def)
  have own: "(a, ?g) \<in> set (lent @ fs)" using assms(4) by simp
  have a: "a \<noteq> NULL" using block_state_grade(6) [OF assms(1) own] by simp
  show thesis
  proof (cases "r = ARNM_SUCCESS")
    case True
    obtain fs' qs' where st: "block_state q w1 ((b, ?h) # lent) fs' qs'" using al(2) True by (auto simp: lends_def)
    note shape = block_stateD(1) [OF assms(1)]
    have fit: "new \<le> 2 ^ ?h" using size_to_log2_spec [OF shape assms(5), of 0] al(3) [OF True] by simp
    have fit_old: "old \<le> 2 ^ ?g" using size_to_log2_spec [OF shape assms(2), of 0] assms(3) by simp
    let ?n = "if old < new then old else new"
    define w2 where "w2 = set_bytes (memcpy (bytes_of w1) b a ?n) w1"
    have n: "?n = min old new" by (simp add: min_def)
    have only: "memcpy (bytes_of w1) b a ?n x = bytes_of w1 x" if "x \<notin> region b (2 ^ ?h)" for x
      using that fit by (intro memcpy_apart) auto
    have st2: "block_state q w2 ((b, ?h) # lent) fs' qs'"
      unfolding w2_def by (rule block_write [OF st, of "(b, ?h)"]) (use only in simp_all)
    have ga: "(a, block_grade q old) \<in> set ((b, ?h) # lent)" using assms(4) same_grade [OF conf(1)] by simp
    have "old \<le> 2 ^ bp_max q" using assms(3) conf(1) by (simp add: pool_setup_kept_def)
    note free = block_free_is [OF st2 assms(2) this ga, unfolded same_grade [OF conf(1)]]
    have member: "(a, ?g) \<in> set ((b, ?h) # lent)" using assms(4) by simp
    note after = put_back_ok [OF st2 member]
    have ne: "(b, ?h) \<notin> set lent" using lent_distinct [OF st] by simp
    then have ne': "(b, ?h) \<noteq> (a, ?g)" using assms(4) by auto
    let ?q = "put_back (a, ?g) q" and ?w = "link_back (a, ?g) q w2"
    show thesis
    proof (rule moved [of ?q b ?w])
      show "arnm_graded_block_pool_realloc (Some p) (Some a) old new w = Some (ARNM_SUCCESS, Some ?q, Some b, ?w)"
        using al(1) True a assms(2) free by (simp add: arnm_graded_block_pool_realloc_def w2_def Let_def)
      show "\<exists>fs qs. block_state ?q ?w ((b, ?h) # remove1 (a, ?g) lent) fs qs"
        using after(1) ne' by (intro exI [of _ "(a, ?g) # fs'"] exI [of _ qs']) auto
      show "pool_setup_kept p ?q" using conf(1) by (simp add: pool_setup_kept_def put_back_def)
      show "new \<le> 2 ^ bp_max p" by (rule al(3) [OF True])
      show "lent_kept w ?w (remove1 (a, ?g) lent)"
        unfolding lent_kept_def
      proof
        fix c assume c: "c \<in> set (remove1 (a, ?g) lent)"
        have cl: "c \<in> set lent" "c \<noteq> (a, ?g)" using c lent_distinct [OF assms(1)] by auto
        then have "rd (bytes_of ?w) (fst c) (2 ^ snd c) = rd (bytes_of w2) (fst c) (2 ^ snd c)" using after(3) by simp
        also have "apart b (2 ^ ?h) (fst c) (2 ^ snd c)" using lent_apart [OF st, of "(b, ?h)" c] cl ne by auto
        then have "rd (bytes_of w2) (fst c) (2 ^ snd c) = rd (bytes_of w1) (fst c) (2 ^ snd c)"
          unfolding w2_def by (intro rd_cong) (use only in \<open>auto simp: apart_def\<close>)
        also have "\<dots> = rd (bytes_of w) (fst c) (2 ^ snd c)" using conf(2) cl by (simp add: lent_kept_def)
        finally show "rd (bytes_of ?w) (fst c) (2 ^ snd c) = rd (bytes_of w) (fst c) (2 ^ snd c)" .
      qed
      have "rd (bytes_of ?w) b (2 ^ ?h) = rd (bytes_of w2) b (2 ^ ?h)" using after(3) [of "(b, ?h)"] ne' by simp
      then have "rd (bytes_of ?w) b ?n = rd (bytes_of w2) b ?n" by (rule rd_prefix) (use fit in simp)
      also have "\<dots> = rd (bytes_of w1) a ?n" by (simp add: w2_def rd_memcpy)
      also have "\<dots> = rd (bytes_of w) a ?n"
      proof (rule rd_prefix)
        show "rd (bytes_of w1) a (2 ^ ?g) = rd (bytes_of w) a (2 ^ ?g)" using conf(2) assms(4) by (force simp: lent_kept_def)
      qed (use fit_old in simp)
      finally show "rd (bytes_of ?w) b (min old new) = rd (bytes_of w) a (min old new)" unfolding n .
    qed
  next
    case False
    then have "\<not> done_code r" "\<exists>fs qs. block_state q w1 lent fs qs" using al(2) by (auto simp: lends_def)
    moreover have "arnm_graded_block_pool_realloc (Some p) (Some a) old new w = Some (r, Some q, Some a, w1)"
      using al(1) False by (simp add: arnm_graded_block_pool_realloc_def)
    ultimately show thesis using refused conf by blast
  qed
qed

section \<open>The pool as an allocator\<close>

text \<open>
  The state a program sees: the pool, the world and, as a ghost, the blocks lent, from which the
  operations add and remove what they hand out and take back. A pool is no handle of \<^verbatim>\<open>memory.h\<close>,
  so the question whether it is an arena does not arise.
\<close>

type_synonym block_pool_state = "arnm_graded_block_pool \<times> world \<times> piece list"

definition block_pool_ops :: "block_pool_state ops" where
  "block_pool_ops =
    \<lparr>op_alloc = (\<lambda>n (p, w, lent). case the (arnm_graded_block_pool_alloc (Some p) (Some NULL) n w) of
       (r, q, b, w') \<Rightarrow> (r, the b, (the q, w', if r = ARNM_SUCCESS then (the b, block_grade p n) # lent else lent))),
     op_realloc = (\<lambda>a old new (p, w, lent). case the (arnm_graded_block_pool_realloc (Some p) (Some a) old new w) of
       (r, q, b, w') \<Rightarrow> (r, the b, (the q, w', if done_code r
          then (the b, block_grade p new) # remove1 (a, block_grade p old) lent else lent))),
     op_free = (\<lambda>a n (p, w, lent). case arnm_graded_block_pool_free (Some p) a n w of
       (r, q, w') \<Rightarrow> (r, (the q, w', if r = ARNM_SUCCESS then remove1 (a, block_grade p n) lent else lent))),
     op_mem = (\<lambda>(p, w, lent). bytes_of w),
     op_set_mem = (\<lambda>m (p, w, lent). (p, set_bytes m w, lent)),
     op_is_arena = (\<lambda>_. False)\<rparr>"

fun block_pool_sound :: "block_pool_state \<Rightarrow> bool" where
  "block_pool_sound (p, w, lent) = (\<exists>fs qs. block_state p w lent fs qs)"

fun block_pool_owns :: "block_pool_state \<Rightarrow> addr \<Rightarrow> nat \<Rightarrow> bool" where
  "block_pool_owns (p, w, lent) a n \<longleftrightarrow> 0 < n \<and> n \<le> 2 ^ bp_max p \<and> (a, block_grade p n) \<in> set lent"

lemma owned_fits:
  assumes "block_state p w lent fs qs" "block_pool_owns (p, w, lent) a n"
  shows "n \<le> 2 ^ block_grade p n"
  using size_to_log2_spec [OF block_stateD(1) [OF assms(1)], of n 0] assms(2) by simp

lemma owns_later:
  assumes "block_pool_owns (p, w, lent) a n" "pool_setup_kept p q" "(a, block_grade p n) \<in> set lent'"
  shows "block_pool_owns (q, w', lent') a n"
  using assms same_grade [OF assms(2)] by (simp add: pool_setup_kept_def)

lemma kept_owned:
  assumes "block_state p w lent fs qs" "block_pool_owns (p, w, lent) a n" "lent_kept w w' lent'" "(a, block_grade p n) \<in> set lent'"
  shows "rd (bytes_of w') a n = rd (bytes_of w) a n"
proof (rule rd_prefix)
  show "rd (bytes_of w') a (2 ^ block_grade p n) = rd (bytes_of w) a (2 ^ block_grade p n)"
    using assms(3,4) by (force simp: lent_kept_def)
qed (rule owned_fits [OF assms(1,2)])

text \<open>A block apart from a block given back is another one.\<close>

lemma apart_other:
  assumes "block_pool_owns (p, w, lent) a n" "block_pool_owns (p, w, lent) b k" "apart a n b k"
  shows "(b, block_grade p k) \<in> set (remove1 (a, block_grade p n) lent)"
proof -
  have "a \<noteq> b" using assms by (auto simp: apart_def)
  then show ?thesis using assms(2) by simp
qed


lemma block_alloc_law:
  assumes "block_pool_sound (p, w, lent)" "0 < n" "op_alloc block_pool_ops n (p, w, lent) = (r, b, q, w', lent')"
  shows "block_pool_sound (q, w', lent') \<and> r \<noteq> ARNM_WARNING_ARENA_MEMORY_NOT_RECLAIMED \<and>
    (\<forall>a k. block_pool_owns (p, w, lent) a k \<longrightarrow>
      block_pool_owns (q, w', lent') a k \<and> rd (bytes_of w') a k = rd (bytes_of w) a k) \<and>
    (r = ARNM_SUCCESS \<longrightarrow> block_pool_owns (q, w', lent') b n \<and>
      (\<forall>a k. block_pool_owns (p, w, lent) a k \<longrightarrow> apart b n a k))"
proof -
  obtain fs qs where st: "block_state p w lent fs qs" using assms(1) by auto
  obtain r1 q1 b1 w1 where al: "arnm_graded_block_pool_alloc (Some p) (Some NULL) n w = Some (r1, Some q1, Some b1, w1)"
    "lends p w lent (block_grade p n) r1 q1 b1 w1" "r1 = ARNM_SUCCESS \<Longrightarrow> n \<le> 2 ^ bp_max p"
    using block_alloc_ok [OF st assms(2), of NULL] by metis
  have out: "r1 = r" "q1 = q" "b1 = b" "w1 = w'" "lent' = (if r = ARNM_SUCCESS then (b, block_grade p n) # lent else lent)"
    using assms(3) al(1) by (auto simp: block_pool_ops_def)
  note lends = al(2) [unfolded lends_def out]
  have conf: "pool_setup_kept p q" "lent_kept w w' lent" using lends by simp_all
  have sub: "set lent \<subseteq> set lent'" by (auto simp: out(5))
  have keep: "block_pool_owns (q, w', lent') a k" "rd (bytes_of w') a k = rd (bytes_of w) a k"
    if own: "block_pool_owns (p, w, lent) a k" for a k
  proof -
    have m: "(a, block_grade p k) \<in> set lent" using own by simp
    show "block_pool_owns (q, w', lent') a k" by (rule owns_later [OF own conf(1)]) (use m sub in blast)
    show "rd (bytes_of w') a k = rd (bytes_of w) a k" by (rule kept_owned [OF st own conf(2) m])
  qed
  have fresh: "block_pool_owns (q, w', lent') b n" "block_pool_owns (p, w, lent) a k \<Longrightarrow> apart b n a k"
    if ok: "r = ARNM_SUCCESS" for a k
  proof -
    let ?g = "block_grade p n"
    obtain fs' qs' where st': "block_state q w' ((b, ?g) # lent) fs' qs'" using lends ok by auto
    have fit: "n \<le> 2 ^ bp_max p" using al(3) out ok by simp
    then have n: "n \<le> 2 ^ ?g" using size_to_log2_spec [OF block_stateD(1) [OF st] assms(2), of 0] by simp
    show "block_pool_owns (q, w', lent') b n"
      using assms(2) fit conf(1) same_grade [OF conf(1), of n] by (simp add: out(5) ok pool_setup_kept_def)
    assume own: "block_pool_owns (p, w, lent) a k"
    have "(b, ?g) \<notin> set lent" using lent_distinct [OF st'] by simp
    then have "(b, ?g) \<noteq> (a, block_grade p k)" using own by auto
    then have "apart b (2 ^ ?g) a (2 ^ block_grade p k)"
      using lent_apart [OF st', of "(b, ?g)" "(a, block_grade p k)"] own by simp
    then show "apart b n a k" using n owned_fits [OF st own] by (auto simp: apart_def)
  qed
  have "block_pool_sound (q, w', lent')" using lends by (simp add: out(5))
  then show ?thesis using lends keep fresh by blast
qed

lemma block_free_law:
  assumes "block_pool_sound (p, w, lent)" "block_pool_owns (p, w, lent) a n"
    and "op_free block_pool_ops a n (p, w, lent) = (r, q, w', lent')"
  shows "block_pool_sound (q, w', lent') \<and> r = ARNM_SUCCESS \<and>
    (\<forall>b k. block_pool_owns (p, w, lent) b k \<and> apart a n b k \<longrightarrow>
      block_pool_owns (q, w', lent') b k \<and> rd (bytes_of w') b k = rd (bytes_of w) b k)"
proof -
  obtain fs qs where st: "block_state p w lent fs qs" using assms(1) by auto
  let ?g = "block_grade p n"
  have m: "0 < n" "n \<le> 2 ^ bp_max p" "(a, ?g) \<in> set lent" using assms(2) by simp_all
  have out: "r = ARNM_SUCCESS" "q = put_back (a, ?g) p" "w' = link_back (a, ?g) p w" "lent' = remove1 (a, ?g) lent"
    using assms(3) block_free_is [OF st m] by (simp_all add: block_pool_ops_def)
  note after = put_back_ok [OF st m(3)]
  have conf: "pool_setup_kept p q" by (simp add: out(2) pool_setup_kept_def put_back_def)
  have kept: "lent_kept w w' lent'"
    unfolding lent_kept_def out using after(3) lent_distinct [OF st] by (metis set_remove1_eq DiffD1 DiffD2 singletonI)
  have "block_pool_owns (q, w', lent') b k \<and> rd (bytes_of w') b k = rd (bytes_of w) b k"
    if "block_pool_owns (p, w, lent) b k" "apart a n b k" for b k
  proof -
    have in': "(b, block_grade p k) \<in> set lent'" unfolding out(4) by (rule apart_other [OF assms(2) that])
    show ?thesis using owns_later [OF that(1) conf in'] kept_owned [OF st that(1) kept in'] by blast
  qed
  moreover have "block_pool_sound (q, w', lent')" using after(1) by (auto simp: out)
  ultimately show ?thesis using out(1) by blast
qed

lemma block_realloc_law:
  assumes "block_pool_sound (p, w, lent)" "block_pool_owns (p, w, lent) a old" "0 < new"
    and "op_realloc block_pool_ops a old new (p, w, lent) = (r, b, q, w', lent')"
  shows "block_pool_sound (q, w', lent') \<and>
    (\<forall>c k. block_pool_owns (p, w, lent) c k \<and> apart a old c k \<longrightarrow>
      block_pool_owns (q, w', lent') c k \<and> rd (bytes_of w') c k = rd (bytes_of w) c k) \<and>
    (if done_code r
     then block_pool_owns (q, w', lent') b new \<and>
       (\<forall>c k. block_pool_owns (p, w, lent) c k \<and> apart a old c k \<longrightarrow> apart b new c k) \<and>
       rd (bytes_of w') b (min old new) = rd (bytes_of w) a (min old new)
     else b = a \<and> block_pool_owns (q, w', lent') a old \<and> rd (bytes_of w') a old = rd (bytes_of w) a old) \<and>
    (r = ARNM_SUCCESS \<or> \<not> done_code r)"
proof -
  obtain fs qs where st: "block_state p w lent fs qs" using assms(1) by auto
  let ?g = "block_grade p old" and ?h = "block_grade p new"
  have m: "0 < old" "old \<le> 2 ^ bp_max p" "(a, ?g) \<in> set lent" using assms(2) by simp_all
  from block_realloc_ok [OF st m assms(3)] show ?thesis
  proof cases
    case moved: (1 q1 b1 w1)
    have out: "r = ARNM_SUCCESS" "q1 = q" "b1 = b" "w1 = w'" "lent' = (b, ?h) # remove1 (a, ?g) lent"
      using assms(4) moved(1) by (auto simp: block_pool_ops_def)
    note moved = moved [unfolded out]
    obtain fs' qs' where st': "block_state q w' ((b, ?h) # remove1 (a, ?g) lent) fs' qs'" using moved(2) by blast
    have fit: "new \<le> 2 ^ ?h" using size_to_log2_spec [OF block_stateD(1) [OF st] assms(3), of 0] moved(4) by simp
    have own_new: "block_pool_owns (q, w', lent') b new"
      using assms(3) moved(3,4) same_grade [OF moved(3), of new] by (simp add: out(5) pool_setup_kept_def)
    have others: "block_pool_owns (q, w', lent') c k" "rd (bytes_of w') c k = rd (bytes_of w) c k" "apart b new c k"
      if own: "block_pool_owns (p, w, lent) c k" "apart a old c k" for c k
    proof -
      have rest: "(c, block_grade p k) \<in> set (remove1 (a, ?g) lent)" by (rule apart_other [OF assms(2) own])
      show "block_pool_owns (q, w', lent') c k" by (rule owns_later [OF own(1) moved(3)]) (use rest in \<open>simp add: out(5)\<close>)
      show "rd (bytes_of w') c k = rd (bytes_of w) c k" by (rule kept_owned [OF st own(1) moved(5) rest])
      have "(b, ?h) \<noteq> (c, block_grade p k)" using lent_distinct [OF st'] rest by auto
      then have "apart b (2 ^ ?h) c (2 ^ block_grade p k)"
        using lent_apart [OF st', of "(b, ?h)" "(c, block_grade p k)"] rest by simp
      then show "apart b new c k" using fit owned_fits [OF st own(1)] by (auto simp: apart_def)
    qed
    have sound: "block_pool_sound (q, w', lent')" using st' by (auto simp: out(5))
    show ?thesis unfolding out(1) using sound own_new others moved(6)
      by (simp del: block_pool_owns.simps block_pool_sound.simps)
  next
    case refused: (2 r1 q1 w1)
    have out: "r1 = r" "q1 = q" "b = a" "w1 = w'" "lent' = lent"
      using assms(4) refused(1,2) by (auto simp: block_pool_ops_def)
    note refused = refused [unfolded out]
    have others: "block_pool_owns (q, w', lent) c k" "rd (bytes_of w') c k = rd (bytes_of w) c k"
      if own: "block_pool_owns (p, w, lent) c k" for c k
      using owns_later [OF own refused(4), of lent w'] kept_owned [OF st own refused(5)] own by simp_all
    have "block_pool_sound (q, w', lent)" using refused(3) by simp
    then show ?thesis unfolding out(5) using refused(2) others assms(2) out(3)
      by (simp del: block_pool_owns.simps block_pool_sound.simps)
  qed
qed

lemma block_set_law:
  assumes "block_pool_sound (p, w, lent)" "block_pool_owns (p, w, lent) a n" "\<And>x. x \<notin> region a n \<Longrightarrow> m x = bytes_of w x"
  shows "block_pool_sound (p, set_bytes m w, lent)"
proof -
  obtain fs qs where st: "block_state p w lent fs qs" using assms(1) by auto
  have "(a, block_grade p n) \<in> set lent" "n \<le> 2 ^ block_grade p n" using assms(2) owned_fits [OF st assms(2)] by simp_all
  then have "block_state p (set_bytes m w) lent fs qs"
    by (intro block_write [OF st, of "(a, block_grade p n)"]) (use assms(3) in auto)
  then show ?thesis by auto
qed

interpretation block_pool: arnm_lender block_pool_ops block_pool_sound block_pool_owns
proof (unfold_locales, goal_cases)
  case (1 s a n)
  then obtain p w lent fs qs where s: "s = (p, w, lent)" "block_state p w lent fs qs" by (cases s) auto
  have "(a, 2 ^ block_grade p n) \<in> set (lent_free_rest p lent fs)" using 1(2) by (force simp: s(1) image_iff)
  from block_state_pieces [OF s(2) this] show ?case
    using owned_fits [OF s(2), of a n] 1(2) by (simp add: s(1))
next
  case (2 m s)
  then show ?case by (cases s) (simp add: block_pool_ops_def)
next
  case (3 s a n m)
  obtain p w lent where s: "s = (p, w, lent)" by (cases s)
  then have "op_set_mem block_pool_ops m s = (p, set_bytes m w, lent)" "op_mem block_pool_ops s = bytes_of w"
    by (simp_all add: block_pool_ops_def)
  then show ?case using 3 block_set_law [of p w lent a n m] by (simp add: s)
next
  case (4 s n r b s')
  obtain p w lent q w' lent' where s: "s = (p, w, lent)" "s' = (q, w', lent')" by (cases s; cases s')
  have mem: "op_mem block_pool_ops (p, w, lent) = bytes_of w" "op_mem block_pool_ops (q, w', lent') = bytes_of w'"
    by (simp_all add: block_pool_ops_def)
  from block_alloc_law [OF 4(1) [unfolded s(1)] 4(2) 4(3) [unfolded s]] show ?case unfolding s mem by blast
next
  case (5 s a n r s')
  obtain p w lent q w' lent' where s: "s = (p, w, lent)" "s' = (q, w', lent')" by (cases s; cases s')
  have mem: "op_mem block_pool_ops (p, w, lent) = bytes_of w" "op_mem block_pool_ops (q, w', lent') = bytes_of w'"
    by (simp_all add: block_pool_ops_def)
  from block_free_law [OF 5(1) [unfolded s(1)] 5(2) [unfolded s(1)] 5(3) [unfolded s]] show ?case unfolding s mem by blast
next
  case (6 s a old new r b s')
  obtain p w lent q w' lent' where s: "s = (p, w, lent)" "s' = (q, w', lent')" by (cases s; cases s')
  have mem: "op_mem block_pool_ops (p, w, lent) = bytes_of w" "op_mem block_pool_ops (q, w', lent') = bytes_of w'"
    by (simp_all add: block_pool_ops_def)
  from block_realloc_law [OF 6(1) [unfolded s(1)] 6(2) [unfolded s(1)] 6(3) 6(4) [unfolded s]]
  show ?case unfolding s mem by presburger
qed


section \<open>A new pool, and its program\<close>

lemma create_chain_options:
  "arnm_create_multi_arena (Some opt) source w = (m, opt', w') \<Longrightarrow> m \<noteq> NULL \<Longrightarrow>
    arnm_multi_arena_options_validate (Some opt) = (ARNM_SUCCESS, opt')"
  by (auto simp: arnm_create_multi_arena_def Let_def split: prod.splits if_splits)

lemma block_options_ok:
  assumes "arnm_graded_block_pool_options_validate (Some opt) = (ARNM_SUCCESS, opt')"
  obtains o1 where "opt' = Some o1" "3 \<le> bo_min o1" "bo_min o1 \<le> bo_max o1" "bo_max o1 \<le> 31" "0 < bo_alloc_arena_capacity o1"
  using assms
  by (auto simp: arnm_graded_block_pool_options_validate_def ARNM_GRADED_BLOCK_POOL_MIN_LOG2_def
      ARNM_GRADED_BLOCK_POOL_MAX_LOG2_def ARNM_GRADED_BLOCK_POOL_DEFAULT_ALLOC_ARENA_CAPACITY_def Let_def split: if_splits)

lemma block_init_ok:
  assumes "host_ok (heap w)"
    and "arnm_graded_block_pool_init (Some p0) (Some opt) NULL w = (ARNM_SUCCESS, Some p, opt', w')"
  shows "block_state p w' [] [] []" "opt' = snd (arnm_graded_block_pool_options_validate (Some opt))"
    "bp_min p = bo_min (the opt')" "bp_max p = bo_max (the opt')"
proof -
  obtain e ov where val: "arnm_graded_block_pool_options_validate (Some opt) = (e, ov)" by fastforce
  then have "e = ARNM_SUCCESS" using assms(2) by (auto simp: arnm_graded_block_pool_init_def split: if_splits)
  then obtain o1 where o1: "ov = Some o1" "3 \<le> bo_min o1" "bo_min o1 \<le> bo_max o1" "bo_max o1 \<le> 31" "0 < bo_alloc_arena_capacity o1"
    using block_options_ok val by metis
  let ?full = "2 ^ bo_max o1 * bo_alloc_arena_capacity o1"
  define cap where "cap = (if ?full > ARNM_MAX_ALLOC_SIZE then ARNM_MAX_ALLOC_SIZE else ?full)"
  define mo where "mo = \<lparr>opt_arena_capacity = cap, opt_arena_max_count = 0,
      opt_full_remaining = sub32 (arnm_pow2_u32 (bo_min o1)) 1, opt_bucket_size_log2 = 0, opt_index_grow_step_size = 0\<rparr>"
  obtain m mo' w1 where create: "arnm_create_multi_arena (Some mo) NULL w = (m, mo', w1)" by (metis prod_cases3)
  have pow: "arnm_pow2_u32 (bo_max o1) = 2 ^ bo_max o1" using o1 power_align(4) [of "bo_max o1"] by (simp add: arnm_pow2_u32_def)
  have m: "m \<noteq> NULL" and p: "p = \<lparr>bp_source = m, bp_lent = 0, bp_cached = 0, bp_min = bo_min o1, bp_max = bo_max o1,
      bp_arena_capacity = opt_arena_capacity (the mo'), bp_heads = replicate ARNM_GRADED_BLOCK_POOL_MAX_GRADES NULL,
      bp_current = zero_arena\<rparr>" "w' = w1" "opt' = Some o1"
    using assms(2) val \<open>e = ARNM_SUCCESS\<close> o1(1) create pow
    by (auto simp: arnm_graded_block_pool_init_def Let_def mo_def cap_def split: if_splits)
  show "opt' = snd (arnm_graded_block_pool_options_validate (Some opt))" "bp_min p = bo_min (the opt')" "bp_max p = bo_max (the opt')"
    using val o1(1) p by simp_all
  have power: "(2::nat) ^ bo_max o1 mod 8 = 0" "(2::nat) ^ bo_max o1 \<le> 2147483648"
    using power_align(1,3) [of "bo_max o1"] o1 by simp_all
  have max: "ARNM_MAX_ALLOC_SIZE mod 8 = 0" "ARNM_MAX_ALLOC_SIZE = 4294967288" by (simp_all add: ARNM_MAX_ALLOC_SIZE_def UINT32_MAX_def)
  have "(2::nat) ^ bo_max o1 * 1 \<le> ?full" using o1(5) by (intro mult_le_mono2) simp
  then have cap: "cap mod 8 = 0" "cap \<le> ARNM_MAX_ALLOC_SIZE" "2 ^ bo_max o1 \<le> cap"
    using power max by (auto simp: cap_def mod_mult_left_eq [symmetric])
  have pos: "0 < cap" using less_le_trans [OF _ cap(3)] by simp
  have "opt_arena_capacity (the mo') = cap"
    using create_chain_options [OF create m] cap pos
    by (auto simp: arnm_multi_arena_options_validate_def multi_arena_options_fill_in_defaults_def mo_def
        arnm_align8_u32_def Let_def split: if_splits)
  moreover have "memory_sound m w1"
    using create_chain_ok [OF assms(1) _ create m] by (auto simp: mo_def memory_sound_def)
  ultimately show "block_state p w' [] [] []"
    using o1 m cap by (simp add: p block_state_def pool_shape_def current_ok_def rest_def is_default_alloc_def zero_arena_def
        of_size_def ARNM_GRADED_BLOCK_POOL_MAX_GRADES_def ARNM_GRADED_BLOCK_POOL_MAX_LOG2_def ARNM_GRADED_BLOCK_POOL_MIN_LOG2_def)
      (intro allI impI nth_replicate, linarith)
qed

text \<open>C8: A program that allocates, resizes, frees and writes blocks of any sizes through a pool of blocks that
  was just set up holds, at any moment, blocks that are aligned to 8 bytes, no two of which share a
  byte, and each of which still reads back what was written to it, the links the pool stores in its
  free blocks notwithstanding. The pool counts the bytes it has lent exactly, and the next request
  for a block always returns.\<close>

theorem block_pool_lends_apart:
  assumes "host_ok (heap w)"
    and "arnm_graded_block_pool_init (Some p0) (Some opt) NULL w = (ARNM_SUCCESS, Some p, opt', w1)"
    and "client_run block_pool_ops reqs ((p, w1, []), []) = ((q, w', lent), held)"
  shows "held_apart held \<and>
    list_all (\<lambda>(a, bs). a \<noteq> NULL \<and> a mod 8 = 0 \<and> rd (bytes_of w') a (length bs) = bs) held \<and>
    bp_lent q = (\<Sum>b\<leftarrow>lent. 2 ^ snd b) \<and>
    list_all (\<lambda>(a, bs). (a, block_grade q (length bs)) \<in> set lent) held \<and>
    (\<forall>n. arnm_graded_block_pool_alloc (Some q) (Some NULL) n w' \<noteq> None)"
proof -
  have "block_pool.safe (client_run block_pool_ops reqs ((p, w1, []), []))"
    by (rule block_pool.client_run_safe) (use block_init_ok(1) [OF assms(1,2)] in \<open>auto simp: held_apart_def\<close>)
  then have ok: "block_pool_sound (q, w', lent)" "held_apart held"
    "\<forall>(a, bs)\<in>set held. block_pool_owns (q, w', lent) a (length bs) \<and> rd (op_mem block_pool_ops (q, w', lent)) a (length bs) = bs"
    by (simp_all add: assms(3))
  obtain fs qs where st: "block_state q w' lent fs qs" using ok(1) by auto
  have "a \<noteq> NULL \<and> a mod 8 = 0 \<and> rd (bytes_of w') a (length bs) = bs \<and> (a, block_grade q (length bs)) \<in> set lent"
    if "(a, bs) \<in> set held" for a bs
    using block_pool.owned [OF ok(1), of a "length bs"] ok(3) that by (auto simp: block_pool_ops_def)
  then have "list_all (\<lambda>(a, bs). a \<noteq> NULL \<and> a mod 8 = 0 \<and> rd (bytes_of w') a (length bs) = bs) held"
    "list_all (\<lambda>(a, bs). (a, block_grade q (length bs)) \<in> set lent) held"
    by (auto simp: list_all_iff)
  moreover have "arnm_graded_block_pool_alloc (Some q) (Some NULL) n w' \<noteq> None" for n
  proof (cases "n = 0")
    case True
    then show ?thesis using block_stateD(1) [OF st] by (simp add: arnm_graded_block_pool_alloc_def size_to_log2_def pool_shape_def)
  next
    case False
    then show ?thesis using block_alloc_ok [OF st, of n NULL] by (metis gr0I option.distinct(1))
  qed
  ultimately show ?thesis using ok(2) block_stateD(8) [OF st] by (simp add: bytes_in_def)
qed

definition sample_block_options :: arnm_graded_block_pool_options where
  "sample_block_options = \<lparr>bo_min = 0, bo_max = 10, bo_alloc_arena_capacity = 0\<rparr>"

lemma sample_block_init:
  obtains p opt' w where
    "arnm_graded_block_pool_init (Some zero_block_pool) (Some sample_block_options) NULL sample_host = (ARNM_SUCCESS, Some p, opt', w)"
    "bp_min p = 4" "bp_max p = 10"
proof -
  have val: "arnm_graded_block_pool_options_validate (Some sample_block_options) =
      (ARNM_SUCCESS, Some \<lparr>bo_min = 4, bo_max = 10, bo_alloc_arena_capacity = 4\<rparr>)"
    by (simp add: arnm_graded_block_pool_options_validate_def sample_block_options_def Let_def
        ARNM_GRADED_BLOCK_POOL_DEFAULT_MIN_LOG2_def ARNM_GRADED_BLOCK_POOL_MIN_LOG2_def
        ARNM_GRADED_BLOCK_POOL_MAX_LOG2_def ARNM_GRADED_BLOCK_POOL_DEFAULT_ALLOC_ARENA_CAPACITY_def)
  have p4: "arnm_pow2_u32 4 = 16" "arnm_pow2_u32 10 = 1024" by (simp_all add: arnm_pow2_u32_def u32_def)
  have "fst (arnm_create_multi_arena (Some \<lparr>opt_arena_capacity = 4096, opt_arena_max_count = 0, opt_full_remaining = 15,
      opt_bucket_size_log2 = 0, opt_index_grow_step_size = 0\<rparr>) NULL sample_host) = 4096"
    by (simp add: arnm_create_multi_arena_def sample_host_def arnm_alloc_def
        SIZEOF_ARNM_def SIZEOF_MULTI_ARENA_def is_default_alloc_def malloc_def fits_def intern_of_def
        arnm_multi_arena_options_validate_def multi_arena_options_fill_in_defaults_def arnm_align8_u32_def
        ARNM_MULTI_ARENA_DEFAULT_BUCKET_LOG2_def ARNM_BVEC_DEFAULT_INDEX_GROW_STEP_SIZE_def
        ARNM_MAX_ALLOC_SIZE_def UINT32_MAX_def UINT16_MAX_def ARNM_ALIGN8_def arnm_arena_is_used_up_def
        arnm_bvec_init_def Let_def)
  then obtain mo w where "arnm_create_multi_arena (Some \<lparr>opt_arena_capacity = 4096, opt_arena_max_count = 0,
      opt_full_remaining = 15, opt_bucket_size_log2 = 0, opt_index_grow_step_size = 0\<rparr>) NULL sample_host = (4096, mo, w)"
    by (metis fst_conv surj_pair)
  then show thesis
    using that by (simp add: arnm_graded_block_pool_init_def val p4 ARNM_MAX_ALLOC_SIZE_def UINT32_MAX_def sub32_def u32_def)
qed

lemma block_pool_lends_apart_witness:
  "\<exists>p opt' w1 q w' lent held.
    arnm_graded_block_pool_init (Some zero_block_pool) (Some sample_block_options) NULL sample_host = (ARNM_SUCCESS, Some p, opt', w1) \<and>
    client_run block_pool_ops [Req_Alloc 100, Req_Alloc 1000, Req_Write 0 7 5, Req_Realloc 0 20, Req_Free 1, Req_Alloc 9]
      ((p, w1, []), []) = ((q, w', lent), held) \<and> held_apart held \<and> bp_lent q = (\<Sum>b\<leftarrow>lent. 2 ^ snd b)"
proof -
  obtain p opt' w1 where init: "arnm_graded_block_pool_init (Some zero_block_pool) (Some sample_block_options) NULL sample_host =
      (ARNM_SUCCESS, Some p, opt', w1)" by (rule sample_block_init)
  obtain q w' lent held where run: "client_run block_pool_ops [Req_Alloc 100, Req_Alloc 1000, Req_Write 0 7 5, Req_Realloc 0 20,
      Req_Free 1, Req_Alloc 9] ((p, w1, []), []) = ((q, w', lent), held)" by (metis prod.exhaust)
  have "host_ok (heap sample_host)" by (simp add: sample_host_def host_ok_def)
  from block_pool_lends_apart [OF this init run] show ?thesis using init run by blast
qed

text \<open>C9: A size a pool of blocks takes is served from the least grade that holds it, and no other; what is too
  large for the largest grade, or cannot be rounded up to 8 bytes in 32 bits, is refused with the
  error that says which.\<close>

theorem block_size_least_grade:
  assumes "pool_shape p" "0 < n"
  shows "size_to_log2 p n l0 =
    (if \<exists>k\<in>{bp_min p..bp_max p}. n \<le> 2 ^ k
     then (ARNM_SUCCESS, LEAST k. bp_min p \<le> k \<and> n \<le> 2 ^ k)
     else if n \<le> ARNM_MAX_ALLOC_SIZE then (ARNM_ERROR_RESOURCE_SIZE_EXCEED, l0)
     else (ARNM_ERROR_ARITHMETIC_OVERFLOW, l0))"
proof (cases "n \<le> 2 ^ bp_max p")
  case True
  note size = size_to_log2_spec [OF assms, of l0]
  have "(LEAST k. bp_min p \<le> k \<and> n \<le> 2 ^ k) = block_grade p n"
    by (rule Least_equality) (use size True in simp_all)
  moreover have "bp_max p \<in> {bp_min p..bp_max p}" using assms(1) by (simp add: pool_shape_def)
  ultimately show ?thesis using size True by auto
next
  case False
  have "(2::nat) ^ k \<le> 2 ^ bp_max p" if "k \<in> {bp_min p..bp_max p}" for k using that by (intro power_increasing) simp_all
  then have "\<not> (\<exists>k\<in>{bp_min p..bp_max p}. n \<le> 2 ^ k)" using False le_trans by blast
  then show ?thesis using size_to_log2_spec [OF assms, of l0] False by simp
qed

lemma block_size_least_grade_witness:
  "\<exists>p. size_to_log2 p 100 0 = (ARNM_SUCCESS, LEAST k. 4 \<le> k \<and> (100::nat) \<le> 2 ^ k)"
proof -
  obtain p opt' w where init: "arnm_graded_block_pool_init (Some zero_block_pool) (Some sample_block_options) NULL sample_host =
      (ARNM_SUCCESS, Some p, opt', w)" and p: "bp_min p = 4" "bp_max p = 10" by (rule sample_block_init)
  have "host_ok (heap sample_host)" by (simp add: sample_host_def host_ok_def)
  from block_size_least_grade [OF block_stateD(1) [OF block_init_ok(1) [OF this init]], of 100 0]
  have "size_to_log2 p 100 0 = (ARNM_SUCCESS, LEAST k. 4 \<le> k \<and> (100::nat) \<le> 2 ^ k)"
    using p bexI [of "\<lambda>k. (100::nat) \<le> 2 ^ k" 10 "{4..10}"] by simp
  then show ?thesis by blast
qed

end
