(* ===== verification/Block_Lending.thy ===== *)
theory Block_Lending
  imports Graded_Block_Pool
begin

text \<open>
  Blocks by exponent, the way the roaring sets take them (\<^verbatim>\<open>src/roaring_intern.h\<close>, section "blocks"):
  the locale \<open>block_lending\<close> is what they rely on, and the pool of blocks provides it. The books are a
  multiset of the blocks lent, each with the exponent it was asked for, so that a module that takes
  and gives back in the right balance leaves it as it found it.
\<close>

record 'w block_source =
  bs_alloc :: "nat \<Rightarrow> 'w \<Rightarrow> arnm_result \<times> addr \<times> 'w"
  bs_free :: "addr \<Rightarrow> nat \<Rightarrow> 'w \<Rightarrow> 'w"

locale block_lending =
  fixes src :: "'w block_source" and sound :: "'w \<Rightarrow> bool" and lent :: "'w \<Rightarrow> (addr \<times> nat) multiset"
  assumes alloc_law: "sound w \<Longrightarrow> bs_alloc src l w = (r, a, w') \<Longrightarrow>
      sound w' \<and> (if r = ARNM_SUCCESS then lent w' = add_mset (a, l) (lent w) \<and> a \<noteq> NULL else lent w' = lent w)"
    and free_law: "sound w \<Longrightarrow> (a, l) \<in># lent w \<Longrightarrow> sound (bs_free src a l w) \<and>
      lent (bs_free src a l w) = lent w - {#(a, l)#}"
begin

lemma free_back: "sound w \<Longrightarrow> lent w = add_mset (a, l) R \<Longrightarrow> sound (bs_free src a l w) \<and> lent (bs_free src a l w) = R"
  using free_law [of w a l] by simp

end

text \<open>
  The state of the pool with the world and, as a ghost, the blocks lent by the exponents they were
  asked for; the pool itself raises an exponent below its least one.
\<close>

type_synonym block_state_ghost = "arnm_graded_block_pool \<times> world \<times> piece list"

definition arnm_roaring_block_alloc :: "nat \<Rightarrow> block_state_ghost \<Rightarrow> arnm_result \<times> addr \<times> block_state_ghost" where
  "arnm_roaring_block_alloc log2 = (\<lambda>(p, w, taken).
    case the (arnm_graded_block_pool_alloc_log2 p NULL log2 w) of
      (r, p, block, w) \<Rightarrow> (r, block, (p, w, if r = ARNM_SUCCESS then (block, log2) # taken else taken)))"

definition arnm_roaring_block_free :: "addr \<Rightarrow> nat \<Rightarrow> block_state_ghost \<Rightarrow> block_state_ghost" where
  "arnm_roaring_block_free block log2 = (\<lambda>(p, w, taken).
    case arnm_graded_block_pool_free_log2 p block log2 w of
      (_, p, w) \<Rightarrow> (p, w, remove1 (block, log2) taken))"

definition pool_blocks :: "block_state_ghost block_source" where
  "pool_blocks = \<lparr>bs_alloc = arnm_roaring_block_alloc, bs_free = arnm_roaring_block_free\<rparr>"

abbreviation raised :: "arnm_graded_block_pool \<Rightarrow> piece \<Rightarrow> piece" where
  "raised p \<equiv> \<lambda>(a, l). (a, max l (bp_min p))"

fun pool_blocks_sound :: "block_state_ghost \<Rightarrow> bool" where
  "pool_blocks_sound (p, w, taken) = (\<exists>fs qs. block_state p w (map (raised p) taken) fs qs)"

fun pool_blocks_lent :: "block_state_ghost \<Rightarrow> (addr \<times> nat) multiset" where
  "pool_blocks_lent (p, w, taken) = mset taken"

lemma map_remove1: "inj_on f (set xs) \<Longrightarrow> x \<in> set xs \<Longrightarrow> map f (remove1 x xs) = remove1 (f x) (map f xs)"
  by (induction xs) (auto simp: inj_on_def)

lemma raised_kept: "pool_setup_kept p q \<Longrightarrow> raised q = raised p"
  by (auto simp: pool_setup_kept_def)

lemma alloc_log2_too_large:
  "\<not> l \<le> bp_max p \<Longrightarrow> arnm_graded_block_pool_alloc_log2 p NULL l w = Some (ARNM_ERROR_RESOURCE_SIZE_EXCEED, p, NULL, w)"
  by (simp add: arnm_graded_block_pool_alloc_log2_def)

lemma pool_blocks_alloc:
  assumes "pool_blocks_sound (p, w, taken)" "bs_alloc pool_blocks l (p, w, taken) = (r, a, q, w', taken')"
  shows "pool_blocks_sound (q, w', taken') \<and>
    (if r = ARNM_SUCCESS then mset taken' = add_mset (a, l) (mset taken) \<and> a \<noteq> NULL else mset taken' = mset taken)"
proof -
  obtain fs qs where st: "block_state p w (map (raised p) taken) fs qs" using assms(1) by auto
  show ?thesis
  proof (cases "l \<le> bp_max p")
    case True
    obtain r1 q1 b w1 where al: "arnm_graded_block_pool_alloc_log2 p NULL l w = Some (r1, q1, b, w1)"
      "lends p w (map (raised p) taken) (max l (bp_min p)) r1 q1 b w1"
      using alloc_log2_ok [OF st True] by metis
    have out: "r1 = r" "q1 = q" "b = a" "w1 = w'" "taken' = (if r = ARNM_SUCCESS then (a, l) # taken else taken)"
      using assms(2) al(1) by (auto simp: pool_blocks_def arnm_roaring_block_alloc_def)
    note lends = al(2) [unfolded lends_def out]
    have conf: "pool_setup_kept p q" using lends by simp
    obtain fs' qs' where st': "block_state q w' (map (raised q) taken') fs' qs'"
      using lends unfolding raised_kept [OF conf] out(5) by (auto split: if_splits)
    have "a \<noteq> NULL" if "r = ARNM_SUCCESS"
      using block_state_grade(6) [OF st', of "raised q (a, l)"] that by (simp add: out(5))
    moreover have "pool_blocks_sound (q, w', taken')" unfolding pool_blocks_sound.simps using st' by blast
    ultimately show ?thesis using out(5) by simp
  next
    case False
    then have "(r, a, q, w', taken') = (ARNM_ERROR_RESOURCE_SIZE_EXCEED, NULL, p, w, taken)"
      using assms(2) alloc_log2_too_large [OF False] by (simp add: pool_blocks_def arnm_roaring_block_alloc_def)
    then show ?thesis using assms(1) by simp
  qed
qed

lemma pool_blocks_free:
  assumes "pool_blocks_sound (p, w, taken)" "(a, l) \<in> set taken"
  shows "pool_blocks_sound (bs_free pool_blocks a l (p, w, taken)) \<and>
    pool_blocks_lent (bs_free pool_blocks a l (p, w, taken)) = mset taken - {#(a, l)#}"
proof -
  obtain fs qs where st: "block_state p w (map (raised p) taken) fs qs" using assms(1) by auto
  let ?b = "raised p (a, l)"
  have b: "?b \<in> set (map (raised p) taken)" using assms(2) by force
  then have bl: "?b \<in> set (map (raised p) taken @ fs)" by simp
  note grade = block_state_grade [OF st bl]
  have "(2::nat) ^ snd ?b \<le> bytes_in (map (raised p) taken)" using bytes_in_remove1 [OF b] by simp
  then have "\<not> bp_lent p < 2 ^ max l (bp_min p)" using block_stateD(8) [OF st] by simp
  moreover have "a \<noteq> NULL" "l \<le> bp_max p" using grade(3,6) by simp_all
  moreover have "(if l < bp_min p then bp_min p else l) = max l (bp_min p)" by simp
  ultimately have free: "arnm_graded_block_pool_free_log2 p a l w = (ARNM_SUCCESS, put_back ?b p, link_back ?b p w)"
    unfolding arnm_graded_block_pool_free_log2_def Let_def put_back_def link_back_def by simp
  have "inj_on (raised p) (set taken)" using lent_distinct [OF st] by (simp add: distinct_map)
  then have "map (raised p) (remove1 (a, l) taken) = remove1 ?b (map (raised p) taken)" by (rule map_remove1 [OF _ assms(2)])
  moreover have "raised (put_back ?b p) = raised p" by (auto simp: put_back_def)
  ultimately have "pool_blocks_sound (put_back ?b p, link_back ?b p w, remove1 (a, l) taken)"
    unfolding pool_blocks_sound.simps using put_back_ok(1) [OF st b] by metis
  then show ?thesis using free by (simp add: pool_blocks_def arnm_roaring_block_free_def)
qed

interpretation pool: block_lending pool_blocks pool_blocks_sound pool_blocks_lent
proof (unfold_locales, goal_cases)
  case (1 s l r a s')
  obtain p w taken q w' taken' where s: "s = (p, w, taken)" "s' = (q, w', taken')" by (cases s; cases s')
  from pool_blocks_alloc [OF 1(1) [unfolded s(1)] 1(2) [unfolded s]] show ?case unfolding s by simp
next
  case (2 s a l)
  obtain p w taken where s: "s = (p, w, taken)" by (cases s)
  have "(a, l) \<in> set taken" using 2(2) by (simp add: s)
  from pool_blocks_free [OF 2(1) [unfolded s] this] show ?case unfolding s by simp
qed

end
