(* ===== verification/Roaring_Words.thy ===== *)
theory Roaring_Words
  imports Bits
begin

unbundle bit_operations_syntax

text \<open>
  The reads the roaring modules share (\<^verbatim>\<open>src/roaring_intern.h\<close>): a 32-bit value split into the key of
  its container and the part kept there, binary searches in ascending arrays, and runs of 64-bit
  words read as sets. A run of words that starts at word \<open>f\<close> stands for the ascending list \<open>bits_from f\<close>.
  Counts in these modules stay below \<open>2 ^ 17\<close>, so the sum of two of them does not wrap.
\<close>

section \<open>Keys and low parts\<close>

definition ARNM_ROARING_ARRAY_MAX :: nat where "ARNM_ROARING_ARRAY_MAX = 4096"
definition ARNM_ROARING_SPARSE_MAX :: nat where "ARNM_ROARING_SPARSE_MAX = 1024"
definition ARNM_ROARING_BITMAP_WORDS :: nat where "ARNM_ROARING_BITMAP_WORDS = 1024"

definition arnm_roaring_key_of :: "nat \<Rightarrow> nat" where "arnm_roaring_key_of v = drop_bit 16 v"
definition arnm_roaring_low_of :: "nat \<Rightarrow> nat" where "arnm_roaring_low_of v = v AND 65535"
definition arnm_roaring_value_of :: "nat \<Rightarrow> nat \<Rightarrow> nat" where "arnm_roaring_value_of key low = push_bit 16 key OR low"

lemma key_of_div: "arnm_roaring_key_of v = v div 65536"
  by (simp add: arnm_roaring_key_of_def drop_bit_eq_div)

lemma low_of_mod: "arnm_roaring_low_of v = v mod 65536"
proof -
  have "(65535 :: nat) = mask 16" by (simp add: mask_eq_exp_minus_1)
  then have "arnm_roaring_low_of v = take_bit 16 v" by (simp only: arnm_roaring_low_of_def take_bit_eq_mask)
  then show ?thesis by (simp add: take_bit_eq_mod)
qed

lemma value_of_sum: "low < 65536 \<Longrightarrow> arnm_roaring_value_of key low = key * 65536 + low"
proof -
  assume "low < 65536"
  then have "take_bit 16 low = low" by (simp add: take_bit_nat_eq_self)
  then have "push_bit 16 key AND low = 0"
    by (intro bit_eqI) (metis bit_and_iff bit_push_bit_iff bit_take_bit_iff bit_0_eq bot_apply bot_bool_def not_less)
  then have "push_bit 16 key OR low = push_bit 16 key + low" by (simp add: disjunctive_add_eq_or)
  then show ?thesis by (simp add: arnm_roaring_value_of_def push_bit_eq_mult)
qed

lemma low_of_less [simp]: "arnm_roaring_low_of v < 65536"
  by (simp add: low_of_mod)

lemma value_of_key_low [simp]: "arnm_roaring_value_of (arnm_roaring_key_of v) (arnm_roaring_low_of v) = v"
  by (simp add: value_of_sum key_of_div low_of_mod)

lemma key_low_of_value [simp]:
  "low < 65536 \<Longrightarrow> arnm_roaring_key_of (arnm_roaring_value_of key low) = key"
  "low < 65536 \<Longrightarrow> arnm_roaring_low_of (arnm_roaring_value_of key low) = low"
  by (simp_all add: value_of_sum key_of_div low_of_mod)

definition arnm_roaring_container_bounds :: "nat \<Rightarrow> nat \<Rightarrow> nat \<Rightarrow> nat \<times> nat" where
  "arnm_roaring_container_bounds key mn mx =
    (if key = arnm_roaring_key_of mn then arnm_roaring_low_of mn else 0,
     if key = arnm_roaring_key_of mx then arnm_roaring_low_of mx else 65535)"

text \<open>Within a key that the range reaches, the two bounds are exactly the range.\<close>

lemma container_bounds:
  assumes "arnm_roaring_key_of mn \<le> key" "key \<le> arnm_roaring_key_of mx" "low < 65536"
    and "arnm_roaring_container_bounds key mn mx = (lo, hi)"
  shows "lo \<le> low \<and> low \<le> hi \<longleftrightarrow> mn \<le> arnm_roaring_value_of key low \<and> arnm_roaring_value_of key low \<le> mx"
    "lo < 65536" "hi < 65536"
proof -
  have "lo = (if key = mn div 65536 then mn mod 65536 else 0)" "hi = (if key = mx div 65536 then mx mod 65536 else 65535)"
    using assms(4) by (auto simp: arnm_roaring_container_bounds_def key_of_div low_of_mod)
  then show "lo < 65536" "hi < 65536" by simp_all
  have "mn \<le> key * 65536 + low \<longleftrightarrow> (if key = mn div 65536 then mn mod 65536 else 0) \<le> low"
  proof (cases "key = mn div 65536")
    case True
    obtain m where m: "m = mn mod 65536" "mn = key * 65536 + m" unfolding True using div_mult_mod_eq by metis
    show ?thesis unfolding m(1) [symmetric] using True m(2) by simp
  next
    case False
    then have "mn < key * 65536" using assms(1) by (simp add: key_of_div div_less_iff_less_mult flip: nat_less_le)
    then show ?thesis using False by simp
  qed
  moreover have "key * 65536 + low \<le> mx \<longleftrightarrow> low \<le> (if key = mx div 65536 then mx mod 65536 else 65535)"
  proof (cases "key = mx div 65536")
    case True
    obtain m where m: "m = mx mod 65536" "mx = key * 65536 + m" unfolding True using div_mult_mod_eq by metis
    show ?thesis unfolding m(1) [symmetric] using True m(2) by simp
  next
    case False
    then have "Suc key \<le> mx div 65536" using assms(2) by (simp add: key_of_div)
    then have "Suc key * 65536 \<le> mx" by (simp only: less_eq_div_iff_mult_less_eq zero_less_numeral)
    then show ?thesis using False assms(3) by simp
  qed
  ultimately show "lo \<le> low \<and> low \<le> hi \<longleftrightarrow> mn \<le> arnm_roaring_value_of key low \<and> arnm_roaring_value_of key low \<le> mx"
    using assms(3) \<open>lo = _\<close> \<open>hi = _\<close> by (simp add: value_of_sum)
qed

section \<open>Binary search\<close>

abbreviation ascending :: "nat list \<Rightarrow> bool" where
  "ascending \<equiv> sorted_wrt (<)"

text \<open>The loop of all the searches: \<open>low\<close> moves up where \<open>below\<close> holds, \<open>high\<close> down where it does not.\<close>

function bound_search :: "(nat \<Rightarrow> bool) \<Rightarrow> nat \<Rightarrow> nat \<Rightarrow> nat" where
  "bound_search below low high =
    (if low < high then
       let middle = drop_bit 1 (low + high)
       in if below middle then bound_search below (middle + 1) high else bound_search below low middle
     else low)"
  by auto
termination
  by (relation "measure (\<lambda>(below, low, high). high - low)") (auto simp: drop_bit_eq_div)

declare bound_search.simps [simp del]

definition arnm_roaring_lower_bound16 :: "nat list \<Rightarrow> nat \<Rightarrow> nat \<Rightarrow> nat" where
  "arnm_roaring_lower_bound16 array count v =
    (if count = 0 \<or> v \<le> array ! 0 then 0 else bound_search (\<lambda>m. array ! m < v) 0 count)"

definition arnm_roaring_upper_bound16 :: "nat list \<Rightarrow> nat \<Rightarrow> nat \<Rightarrow> nat" where
  "arnm_roaring_upper_bound16 array count v =
    (if count = 0 \<or> v \<ge> array ! (count - 1) then count else bound_search (\<lambda>m. array ! m \<le> v) 0 count)"

definition arnm_roaring_lower_bound32 :: "nat list \<Rightarrow> nat \<Rightarrow> nat \<Rightarrow> nat" where
  "arnm_roaring_lower_bound32 vs count v =
    (if count = 0 \<or> v \<le> vs ! 0 then 0 else bound_search (\<lambda>m. vs ! m < v) 0 count)"

definition arnm_roaring_upper_bound32 :: "nat list \<Rightarrow> nat \<Rightarrow> nat \<Rightarrow> nat" where
  "arnm_roaring_upper_bound32 vs count v =
    (if count = 0 \<or> v \<ge> vs ! (count - 1) then count else bound_search (\<lambda>m. vs ! m \<le> v) 0 count)"

lemma bounds_32_16:
  "arnm_roaring_lower_bound32 = arnm_roaring_lower_bound16" "arnm_roaring_upper_bound32 = arnm_roaring_upper_bound16"
  by (simp_all add: fun_eq_iff arnm_roaring_lower_bound32_def arnm_roaring_lower_bound16_def
      arnm_roaring_upper_bound32_def arnm_roaring_upper_bound16_def)

lemma bound_search_split:
  assumes "low \<le> high" "\<And>i. i < low \<Longrightarrow> below i" "\<And>i j. i \<le> j \<Longrightarrow> j < n \<Longrightarrow> below j \<Longrightarrow> below i"
    and "\<And>i. high \<le> i \<Longrightarrow> i < n \<Longrightarrow> \<not> below i" "high \<le> n"
  shows "low \<le> bound_search below low high \<and> bound_search below low high \<le> high \<and>
    (\<forall>i<n. below i \<longleftrightarrow> i < bound_search below low high)"
  using assms
proof (induction below low high rule: bound_search.induct)
  case (1 below low high)
  show ?case
  proof (cases "low < high")
    case True
    define mid where "mid = drop_bit 1 (low + high)"
    have mid: "low \<le> mid" "mid < high" using True by (auto simp: mid_def drop_bit_eq_div)
    show ?thesis
    proof (cases "below mid")
      case b: True
      have "below i" if "i < mid + 1" for i using "1.prems"(3) [of i mid] that b mid "1.prems"(5) by simp
      with "1.IH"(1) [OF True mid_def b] "1.prems" mid have
        "mid + 1 \<le> bound_search below (mid + 1) high \<and> bound_search below (mid + 1) high \<le> high \<and>
          (\<forall>i<n. below i \<longleftrightarrow> i < bound_search below (mid + 1) high)" by simp
      moreover have "bound_search below low high = bound_search below (mid + 1) high"
        using True b by (subst bound_search.simps) (simp add: mid_def)
      ultimately show ?thesis using mid by simp
    next
      case b: False
      have "\<not> below i" if "mid \<le> i" "i < n" for i using "1.prems"(3) [of mid i] that b by blast
      with "1.IH"(2) [OF True mid_def b] "1.prems" mid have
        "low \<le> bound_search below low mid \<and> bound_search below low mid \<le> mid \<and>
          (\<forall>i<n. below i \<longleftrightarrow> i < bound_search below low mid)" by simp
      moreover have "bound_search below low high = bound_search below low mid"
        using True b by (subst bound_search.simps) (simp add: mid_def)
      ultimately show ?thesis using mid by simp
    qed
  next
    case False
    then have "low = high" using "1.prems"(1) by simp
    moreover have "below i \<longleftrightarrow> i < high" if "i < n" for i
      using that "1.prems"(2,4) \<open>low = high\<close> by (meson not_le)
    moreover have "bound_search below low high = low" using False by (subst bound_search.simps) simp
    ultimately show ?thesis by simp
  qed
qed

text \<open>What a search answers, in the terms the callers use: it splits the array at a value.\<close>

lemma split_at_filter:
  assumes "ascending xs" "k \<le> length xs" "\<And>i. i < length xs \<Longrightarrow> P (xs ! i) \<longleftrightarrow> i < k"
  shows "take k xs = filter P xs" "drop k xs = filter (\<lambda>x. \<not> P x) xs"
proof -
  have a: "filter P (take k xs) = take k xs" "filter P (drop k xs) = []"
    using assms(2,3) by (auto simp: filter_id_conv filter_empty_conv in_set_conv_nth)
  have b: "filter (\<lambda>x. \<not> P x) (take k xs) = []" "filter (\<lambda>x. \<not> P x) (drop k xs) = drop k xs"
    using assms(2,3) by (auto simp: filter_id_conv filter_empty_conv in_set_conv_nth)
  have "filter Q xs = filter Q (take k xs) @ filter Q (drop k xs)" for Q
    by (metis append_take_drop_id filter_append)
  then show "take k xs = filter P xs" "drop k xs = filter (\<lambda>x. \<not> P x) xs" using a b by simp_all
qed

lemma ascending_nth_less: "ascending xs \<Longrightarrow> i < j \<Longrightarrow> j < length xs \<Longrightarrow> xs ! i < xs ! j"
  by (simp add: sorted_wrt_iff_nth_less)

lemma ascending_nth_le: "ascending xs \<Longrightarrow> i \<le> j \<Longrightarrow> j < length xs \<Longrightarrow> xs ! i \<le> xs ! j"
  using ascending_nth_less [of xs i j] by (cases "i = j") auto

lemma lower_bound_index:
  assumes "ascending xs"
  shows "arnm_roaring_lower_bound16 xs (length xs) v \<le> length xs \<and>
    (\<forall>i<length xs. xs ! i < v \<longleftrightarrow> i < arnm_roaring_lower_bound16 xs (length xs) v)"
proof (cases "length xs = 0 \<or> v \<le> xs ! 0")
  case True
  then have "\<not> xs ! i < v" if "i < length xs" for i
    using that ascending_nth_le [OF assms, of 0 i] by auto
  then show ?thesis using True by (simp add: arnm_roaring_lower_bound16_def)
next
  case False
  have "xs ! i < v" if "i \<le> j" "j < length xs" "xs ! j < v" for i j
    using ascending_nth_le [OF assms that(1,2)] that(3) by simp
  from bound_search_split [of 0 "length xs" "\<lambda>m. xs ! m < v" "length xs", OF _ _ this]
  show ?thesis using False by (simp add: arnm_roaring_lower_bound16_def)
qed

lemma upper_bound_index:
  assumes "ascending xs"
  shows "arnm_roaring_upper_bound16 xs (length xs) v \<le> length xs \<and>
    (\<forall>i<length xs. xs ! i \<le> v \<longleftrightarrow> i < arnm_roaring_upper_bound16 xs (length xs) v)"
proof (cases "length xs = 0 \<or> v \<ge> xs ! (length xs - 1)")
  case True
  then have "xs ! i \<le> v" if i: "i < length xs" for i
    using i le_trans [OF ascending_nth_le [OF assms, of i "length xs - 1"], of v] by (cases "length xs = 0") simp_all
  then show ?thesis using True by (auto simp: arnm_roaring_upper_bound16_def)
next
  case False
  have "xs ! i \<le> v" if "i \<le> j" "j < length xs" "xs ! j \<le> v" for i j
    using ascending_nth_le [OF assms that(1,2)] that(3) by simp
  from bound_search_split [of 0 "length xs" "\<lambda>m. xs ! m \<le> v" "length xs", OF _ _ this]
  show ?thesis using False by (simp add: arnm_roaring_upper_bound16_def)
qed

lemma lower_bound_split:
  fixes v :: nat
  assumes "ascending xs"
  defines "k \<equiv> arnm_roaring_lower_bound16 xs (length xs) v"
  shows "k \<le> length xs" "take k xs = filter (\<lambda>x. x < v) xs" "drop k xs = filter (\<lambda>x. v \<le> x) xs"
  using split_at_filter [OF assms(1), of k "\<lambda>x. x < v"] lower_bound_index [OF assms(1), of v]
  by (simp_all add: k_def not_less)

lemma upper_bound_split:
  fixes v :: nat
  assumes "ascending xs"
  defines "k \<equiv> arnm_roaring_upper_bound16 xs (length xs) v"
  shows "k \<le> length xs" "take k xs = filter (\<lambda>x. x \<le> v) xs" "drop k xs = filter (\<lambda>x. v < x) xs"
  using split_at_filter [OF assms(1), of k "\<lambda>x. x \<le> v"] upper_bound_index [OF assms(1), of v]
  by (simp_all add: k_def not_le)

definition span :: "nat \<Rightarrow> nat \<Rightarrow> 'a list \<Rightarrow> 'a list" where
  "span i j xs = take (j - i) (drop i xs)"

lemma span_bounds:
  fixes lo hi :: nat
  assumes "ascending xs"
  defines "i \<equiv> arnm_roaring_lower_bound16 xs (length xs) lo" and "j \<equiv> arnm_roaring_upper_bound16 xs (length xs) hi"
  shows "span i j xs = filter (\<lambda>x. lo \<le> x \<and> x \<le> hi) xs" "lo \<le> hi \<Longrightarrow> i \<le> j"
proof -
  have "span i j xs = drop i (take j xs)" by (simp add: span_def drop_take)
  also have "\<dots> = filter (\<lambda>x. lo \<le> x) (take j xs)"
  proof (cases "i \<le> j")
    case True
    have "take i (take j xs) = take i xs" using True by (simp add: min_def)
    have idx: "xs ! m < lo \<longleftrightarrow> m < i" if "m < length xs" for m using lower_bound_index [OF assms(1), of lo] that by (simp add: i_def)
    have "drop i (take j xs) = filter (\<lambda>x. \<not> x < lo) (take j xs)"
    proof (rule split_at_filter(2))
      show "ascending (take j xs)" by (rule sorted_wrt_take [OF assms(1)])
      show "i \<le> length (take j xs)" using True lower_bound_split(1) [OF assms(1), of lo] by (simp add: i_def)
    qed (use idx in simp)
    then show ?thesis by (simp add: not_less)
  next
    case False
    have "xs ! m < lo" if "m < j" "m < length xs" for m
      using lower_bound_index [OF assms(1), of lo] that False by (simp add: i_def)
    then have "filter (\<lambda>x. lo \<le> x) (take j xs) = []" by (auto simp: filter_empty_conv in_set_conv_nth) (meson not_le)
    then show ?thesis using False by simp
  qed
  also have "take j xs = filter (\<lambda>x. x \<le> hi) xs" using upper_bound_split(2) [OF assms(1)] by (simp add: j_def)
  finally show "span i j xs = filter (\<lambda>x. lo \<le> x \<and> x \<le> hi) xs" by (simp add: conj_commute)
  show "i \<le> j" if "lo \<le> hi"
  proof (rule ccontr)
    assume n: "\<not> i \<le> j"
    then have "j < length xs" using lower_bound_split(1) [OF assms(1), of lo] by (simp add: i_def)
    then have "xs ! j < lo" "\<not> xs ! j \<le> hi"
      using n lower_bound_index [OF assms(1), of lo] upper_bound_index [OF assms(1), of hi] by (simp_all add: i_def j_def)
    then show False using that by simp
  qed
qed


section \<open>Words as sets\<close>

definition word_bits :: "64 word \<Rightarrow> nat list" where
  "word_bits x = filter (bit x) [0..<64]"

fun bits_from :: "nat \<Rightarrow> 64 word list \<Rightarrow> nat list" where
  "bits_from f [] = []"
| "bits_from f (x # xs) = map (\<lambda>b. 64 * f + b) (word_bits x) @ bits_from (Suc f) xs"

definition arnm_roaring_first_word_mask :: "nat \<Rightarrow> 64 word" where
  "arnm_roaring_first_word_mask low = push_bit (low AND 63) (NOT 0)"

definition arnm_roaring_last_word_mask :: "nat \<Rightarrow> 64 word" where
  "arnm_roaring_last_word_mask high = drop_bit (63 - (high AND 63)) (NOT 0)"

lemma and_63_mod: "n AND 63 = n mod 64" for n :: nat
proof -
  have "(63 :: nat) = mask 6" by (simp add: mask_eq_exp_minus_1)
  then have "n AND 63 = take_bit 6 n" by (simp only: take_bit_eq_mask)
  then show ?thesis by (simp add: take_bit_eq_mod)
qed

lemma bit_first_mask: "bit (arnm_roaring_first_word_mask low) i \<longleftrightarrow> low mod 64 \<le> i \<and> i < 64"
  by (auto simp: arnm_roaring_first_word_mask_def and_63_mod bit_push_bit_iff bit_not_iff bit_mask_iff)

lemma bit_last_mask: "bit (arnm_roaring_last_word_mask high) i \<longleftrightarrow> i \<le> high mod 64"
proof -
  have "63 - high mod 64 + i < 64 \<longleftrightarrow> i \<le> high mod 64" using mod_less_divisor [of 64 high] by auto
  then show ?thesis by (auto simp: arnm_roaring_last_word_mask_def and_63_mod bit_drop_bit_eq bit_not_iff bit_mask_iff)
qed

lemma word_bits_0 [simp]: "word_bits 0 = []"
  by (simp add: word_bits_def)

lemma in_word_bits [simp]: "b \<in> set (word_bits x) \<longleftrightarrow> bit x b"
  using bit_imp_le_length [of x b] by (auto simp: word_bits_def)

lemma word_bits_empty: "word_bits x = [] \<longleftrightarrow> x = 0"
proof
  assume "word_bits x = []"
  then have "\<not> bit x b" for b using in_word_bits [of b x] by simp
  then show "x = 0" by (intro bit_eqI) simp
qed simp

lemma length_word_bits: "length (word_bits x) = arnm_popcountll x"
  by (simp add: word_bits_def arnm_popcountll_def)

lemma word_bits_ascending [simp]: "ascending (word_bits x)"
  by (simp add: word_bits_def sorted_wrt_filter)

lemma bit_less_64: "bit (x :: 64 word) b \<Longrightarrow> b < 64"
  using bit_imp_le_length [of x b] by simp

lemma in_bits_from:
  "v \<in> set (bits_from f xs) \<longleftrightarrow> f \<le> v div 64 \<and> v div 64 < f + length xs \<and> bit (xs ! (v div 64 - f)) (v mod 64)"
proof (induction xs arbitrary: f)
  case (Cons x xs)
  have "(\<exists>b. bit x b \<and> v = 64 * f + b) \<longleftrightarrow> v div 64 = f \<and> bit x (v mod 64)"
  proof
    assume "\<exists>b. bit x b \<and> v = 64 * f + b"
    then obtain b where "bit x b" "v = 64 * f + b" by blast
    then show "v div 64 = f \<and> bit x (v mod 64)" using bit_less_64 [of x b] by simp
  next
    assume "v div 64 = f \<and> bit x (v mod 64)"
    then show "\<exists>b. bit x b \<and> v = 64 * f + b" by (intro exI [of _ "v mod 64"]) auto
  qed
  then have "v \<in> set (bits_from f (x # xs)) \<longleftrightarrow> v div 64 = f \<and> bit x (v mod 64) \<or> v \<in> set (bits_from (Suc f) xs)"
    by auto
  then show ?case unfolding Cons.IH
    by (cases "f < v div 64") (auto simp: nth_Cons' Suc_diff_Suc)
qed simp

lemma bits_from_bounds: "v \<in> set (bits_from f xs) \<Longrightarrow> 64 * f \<le> v \<and> v < 64 * (f + length xs)"
  unfolding in_bits_from using div_mult_mod_eq [of v 64] mod_less_divisor [of 64 v] by auto

lemma bits_from_ascending [simp]: "ascending (bits_from f xs)"
proof (induction xs arbitrary: f)
  case (Cons x xs)
  have "ascending (map (\<lambda>b. 64 * f + b) (word_bits x))" by (simp add: sorted_wrt_map)
  moreover have "a < b" if "a \<in> set (map (\<lambda>b. 64 * f + b) (word_bits x))" "b \<in> set (bits_from (Suc f) xs)" for a b
    using that bits_from_bounds [OF that(2)] bit_less_64 [of x] by fastforce
  ultimately show ?case using Cons.IH [of "Suc f"] by (simp add: sorted_wrt_append del: set_map)
qed simp

lemma ascending_eq: "ascending xs \<Longrightarrow> ascending ys \<Longrightarrow> set xs = set ys \<Longrightarrow> xs = ys"
  by (rule strict_sorted_equal) auto

lemma ascending_length:
  assumes "ascending xs" "\<And>x. x \<in> set xs \<Longrightarrow> x < n" shows "length xs \<le> n"
proof -
  have "distinct xs" using assms(1) by (simp add: strict_sorted_iff)
  then have "length xs = card (set xs)" by (simp add: distinct_card)
  also have "\<dots> \<le> card {..<n}" using assms(2) by (intro card_mono) auto
  finally show ?thesis by simp
qed

lemma length_bits_from: "length (bits_from f xs) = (\<Sum>x\<leftarrow>xs. arnm_popcountll x)"
  by (induction xs arbitrary: f) (simp_all add: length_word_bits)

lemma bits_from_append: "bits_from f (xs @ ys) = bits_from f xs @ bits_from (f + length xs) ys"
  by (induction xs arbitrary: f) simp_all

lemma bits_from_zeros: "bits_from f (replicate n 0) = []"
  by (induction n arbitrary: f) simp_all

text \<open>Setting and clearing one bit, with the word and the bit taken from the value.\<close>

definition set_bit_at :: "64 word list \<Rightarrow> nat \<Rightarrow> 64 word list" where
  "set_bit_at words v = words[drop_bit 6 v := words ! drop_bit 6 v OR push_bit (v AND 63) 1]"

definition clear_bit_at :: "64 word list \<Rightarrow> nat \<Rightarrow> 64 word list" where
  "clear_bit_at words v = words[drop_bit 6 v := words ! drop_bit 6 v AND NOT (push_bit (v AND 63) 1)]"

definition get_bit :: "64 word list \<Rightarrow> nat \<Rightarrow> bool" where
  "get_bit words v = odd (drop_bit (v AND 63) (words ! drop_bit 6 v))"

lemma drop_6: "drop_bit 6 n = n div 64" for n :: nat
  by (simp add: drop_bit_eq_div)

lemma get_bit_iff: "v div 64 < length words \<Longrightarrow> get_bit words v \<longleftrightarrow> v \<in> set (bits_from 0 words)"
  by (simp add: get_bit_def in_bits_from and_63_mod drop_6 bit_iff_odd_drop_bit)

lemma length_set_clear [simp]: "length (set_bit_at words v) = length words" "length (clear_bit_at words v) = length words"
  by (simp_all add: set_bit_at_def clear_bit_at_def)

lemma same_spot: "u div 64 = v div 64 \<and> u mod 64 = v mod 64 \<longleftrightarrow> u = v" for u v :: nat
  by (metis div_mult_mod_eq)

lemma bit_one_shifted: "n < 64 \<Longrightarrow> bit (push_bit n 1 :: 64 word) i \<longleftrightarrow> i = n"
  by (auto simp: bit_push_bit_iff bit_1_iff bit_exp_iff)

lemma bits_set_bit:
  assumes "v div 64 < length words"
  shows "set (bits_from 0 (set_bit_at words v)) = insert v (set (bits_from 0 words))"
    "set (bits_from 0 (clear_bit_at words v)) = set (bits_from 0 words) - {v}"
proof -
  have "u \<in> set (bits_from 0 (set_bit_at words v)) \<longleftrightarrow> u = v \<or> u \<in> set (bits_from 0 words)"
    "u \<in> set (bits_from 0 (clear_bit_at words v)) \<longleftrightarrow> u \<noteq> v \<and> u \<in> set (bits_from 0 words)" for u
    using assms same_spot [of u v]
    by (cases "u div 64 = v div 64"; auto simp: in_bits_from set_bit_at_def clear_bit_at_def and_63_mod drop_6
        bit_or_iff bit_and_iff bit_not_iff bit_one_shifted simp del: push_bit_of_1)+
  then show "set (bits_from 0 (set_bit_at words v)) = insert v (set (bits_from 0 words))"
    "set (bits_from 0 (clear_bit_at words v)) = set (bits_from 0 words) - {v}" by blast+
qed

text \<open>The lowest bit of a word, found and taken out.\<close>

lemma ctzll_lowest:
  assumes "x \<noteq> 0"
  shows "word_bits x = arnm_ctzll x # word_bits (x AND (x - 1))"
proof -
  let ?k = "arnm_ctzll x"
  have "\<exists>i\<in>set [0..<64]. bit x i"
  proof (rule ccontr)
    assume "\<not> ?thesis"
    then have "\<not> bit x i" for i using bit_less_64 [of x i] by auto
    then show False using assms by (metis bit_eqI bit_0_eq bot_apply bot_bool_def)
  qed
  then have less: "?k < 64" unfolding arnm_ctzll_def
    by (metis (no_types, lifting) length_takeWhile_le length_upt diff_zero le_neq_implies_less takeWhile_eq_all_conv takeWhile_eq_take take_all_iff)
  have at: "bit x ?k"
    using less nth_length_takeWhile [of "\<lambda>i. \<not> bit x i" "[0..<64]"] by (simp add: arnm_ctzll_def)
  have below: "\<not> bit x i" if "i < ?k" for i
  proof -
    have "i = takeWhile (\<lambda>i. \<not> bit x i) [0..<64] ! i" using that less by (simp add: takeWhile_nth arnm_ctzll_def)
    moreover have "takeWhile (\<lambda>i. \<not> bit x i) [0..<64] ! i \<in> set (takeWhile (\<lambda>i. \<not> bit x i) [0..<64])"
      using that by (simp add: arnm_ctzll_def)
    ultimately show ?thesis by (metis set_takeWhileD)
  qed
  define u where "u = drop_bit (Suc ?k) x"
  have xu: "x = push_bit (Suc ?k) u + 2 ^ ?k"
  proof -
    have "push_bit (Suc ?k) u AND 2 ^ ?k = 0"
      by (rule bit_word_eqI) (auto simp: bit_and_iff bit_push_bit_iff bit_exp_iff simp del: push_bit_Suc)
    then have "push_bit (Suc ?k) u + 2 ^ ?k = push_bit (Suc ?k) u OR 2 ^ ?k" by (rule disjunctive_add_eq_or)
    also have "\<dots> = x"
    proof (rule bit_word_eqI)
      fix i
      consider "i < ?k" | "i = ?k" | "?k < i" by linarith
      then show "bit (push_bit (Suc ?k) u OR 2 ^ ?k) i = bit x i"
        by cases (use below at less bit_less_64 [of x i] in
          \<open>simp_all add: u_def bit_or_iff bit_push_bit_iff bit_drop_bit_eq bit_exp_iff Suc_le_eq del: push_bit_Suc, blast\<close>)
    qed
    finally show ?thesis by simp
  qed
  have "push_bit (Suc ?k) u AND mask ?k = 0"
    by (rule bit_word_eqI) (auto simp: bit_and_iff bit_push_bit_iff bit_mask_iff simp del: push_bit_Suc)
  then have "push_bit (Suc ?k) u + mask ?k = push_bit (Suc ?k) u OR mask ?k" by (rule disjunctive_add_eq_or)
  moreover have "x - 1 = push_bit (Suc ?k) u + mask ?k" unfolding mask_eq_exp_minus_1 using xu by simp
  ultimately have pred: "x - 1 = push_bit (Suc ?k) u OR mask ?k" by simp
  have cut: "bit (x AND (x - 1)) i \<longleftrightarrow> bit x i \<and> i \<noteq> ?k" for i
  proof (cases "i < ?k")
    case False
    then show ?thesis
      using bit_less_64 [of x i] unfolding pred
      by (auto simp: bit_and_iff bit_or_iff bit_push_bit_iff bit_mask_iff u_def bit_drop_bit_eq Suc_le_eq simp del: push_bit_Suc)
  qed (simp add: below bit_and_iff)
  have "?k < i" if "bit (x AND (x - 1)) i" for i using that cut [of i] below [of i] by (metis nat_neq_iff)
  then have asc: "ascending (?k # word_bits (x AND (x - 1)))" by simp
  have "set (word_bits x) = set (?k # word_bits (x AND (x - 1)))"
    unfolding set_eq_iff list.set insert_iff in_word_bits cut using at by blast
  then show ?thesis by (rule ascending_eq [OF word_bits_ascending asc])
qed

text \<open>The loop that reads a word out bit by bit.\<close>

function word_emit :: "nat \<Rightarrow> 64 word \<Rightarrow> nat list" where
  "word_emit w word = (if word = 0 then [] else (push_bit 6 w + arnm_ctzll word) # word_emit w (word AND (word - 1)))"
  by auto
termination
proof (relation "measure (\<lambda>(w, word). length (word_bits word))")
  fix w :: nat and word :: "64 word" assume "word \<noteq> 0"
  then show "((w, word AND (word - 1)), w, word) \<in> measure (\<lambda>(w, word). length (word_bits word))"
    using ctzll_lowest by simp
qed simp

declare word_emit.simps [simp del]

lemma word_emit_bits: "word_emit w x = map (\<lambda>b. 64 * w + b) (word_bits x)"
proof (induction w x rule: word_emit.induct)
  case (1 w x)
  then show ?case
    using ctzll_lowest [of x] by (subst word_emit.simps) (simp add: push_bit_eq_mult)
qed


section \<open>Ranges of a run of words\<close>

text \<open>
  \<open>words\<close> here is the part of the buffer that was filled, the words \<open>low >> 6\<close> to \<open>high >> 6\<close>.
\<close>

definition arnm_roaring_clip_and_count :: "64 word list \<Rightarrow> nat \<Rightarrow> nat \<Rightarrow> nat \<times> 64 word list" where
  "arnm_roaring_clip_and_count words low high =
    (let first = drop_bit 6 low;
         last = drop_bit 6 high;
         words = words[0 := words ! 0 AND arnm_roaring_first_word_mask low];
         words = words[last - first := words ! (last - first) AND arnm_roaring_last_word_mask high]
     in (u32 (\<Sum>x\<leftarrow>words. arnm_popcountll x), words))"

definition arnm_roaring_words_cardinality :: "64 word list \<Rightarrow> nat \<Rightarrow> nat \<Rightarrow> nat" where
  "arnm_roaring_words_cardinality words low high =
    (let first = drop_bit 6 low; last = drop_bit 6 high
     in if first = last then
          arnm_popcountll (words ! first AND arnm_roaring_first_word_mask low AND arnm_roaring_last_word_mask high)
        else
          u32 (arnm_popcountll (words ! first AND arnm_roaring_first_word_mask low) +
            (\<Sum>w\<leftarrow>[first + 1..<last]. arnm_popcountll (words ! w)) +
            arnm_popcountll (words ! last AND arnm_roaring_last_word_mask high)))"

lemma in_clipped:
  fixes low high v :: nat
  assumes "drop_bit 6 low \<le> v div 64" "v div 64 \<le> drop_bit 6 high"
  shows "low \<le> v \<and> v \<le> high \<longleftrightarrow>
    (v div 64 = low div 64 \<longrightarrow> low mod 64 \<le> v mod 64) \<and> (v div 64 = high div 64 \<longrightarrow> v mod 64 \<le> high mod 64)"
proof -
  define a b c d e g where d: "a = low div 64" "b = low mod 64" "c = v div 64" "d = v mod 64" "e = high div 64" "g = high mod 64"
  have "low = a * 64 + b" "v = c * 64 + d" "high = e * 64 + g" "b < 64" "d < 64" "g < 64" "a \<le> c" "c \<le> e"
    using assms by (simp_all add: d drop_6)
  then show ?thesis unfolding d [symmetric] by (cases "c = a"; cases "c = e"; simp; linarith)
qed

lemma clip_and_count:
  assumes "low \<le> high" "high < 65536" "length words = Suc (drop_bit 6 high - drop_bit 6 low)"
    and "arnm_roaring_clip_and_count words low high = (n, clipped)"
  shows "bits_from (drop_bit 6 low) clipped = filter (\<lambda>v. low \<le> v \<and> v \<le> high) (bits_from (drop_bit 6 low) words)"
    "n = length (bits_from (drop_bit 6 low) clipped)" "length clipped = length words"
proof -
  let ?f = "drop_bit 6 low" and ?l = "drop_bit 6 high"
  have fl: "?f \<le> ?l" using assms(1) by (simp add: drop_6 div_le_mono)
  let ?w1 = "words[0 := words ! 0 AND arnm_roaring_first_word_mask low]"
  have clipped: "clipped = ?w1[?l - ?f := ?w1 ! (?l - ?f) AND arnm_roaring_last_word_mask high]"
    and n: "n = u32 (\<Sum>x\<leftarrow>clipped. arnm_popcountll x)"
    using assms(4) by (auto simp: arnm_roaring_clip_and_count_def Let_def)
  show len: "length clipped = length words" by (simp add: clipped)
  have bit: "bit (clipped ! i) j \<longleftrightarrow> bit (words ! i) j \<and> (i = 0 \<longrightarrow> low mod 64 \<le> j) \<and> (i = ?l - ?f \<longrightarrow> j \<le> high mod 64)"
    if "i < length words" for i j
    using that assms(3) bit_less_64 [of "words ! i" j] by (auto simp: clipped nth_list_update bit_and_iff bit_first_mask bit_last_mask)
  have "v \<in> set (bits_from ?f clipped) \<longleftrightarrow> v \<in> set (bits_from ?f words) \<and> low \<le> v \<and> v \<le> high" for v
  proof (cases "?f \<le> v div 64 \<and> v div 64 \<le> ?l")
    case True
    then have i: "v div 64 - ?f < length words" unfolding assms(3) by linarith
    have "(v div 64 - ?f = 0) = (v div 64 = low div 64)" "(v div 64 - ?f = ?l - ?f) = (v div 64 = high div 64)"
      using True unfolding drop_6 by linarith+
    then show ?thesis
      using True bit [OF i, of "v mod 64"] in_clipped [of low v high] assms(3) len by (auto simp: in_bits_from)
  qed (use assms(3) len fl in \<open>auto simp: in_bits_from\<close>)
  then show "bits_from ?f clipped = filter (\<lambda>v. low \<le> v \<and> v \<le> high) (bits_from ?f words)"
    by (intro ascending_eq) (auto simp: sorted_wrt_filter)
  then have "length (bits_from ?f clipped) \<le> 65536" using assms(2) by (intro ascending_length) (auto simp: sorted_wrt_filter)
  then show "n = length (bits_from ?f clipped)" by (simp add: n length_bits_from UINT32_MAX_def)
qed

lemma sum_words: "i \<le> length xs \<Longrightarrow> (\<Sum>w\<leftarrow>[i..<length xs]. arnm_popcountll (xs ! w)) = (\<Sum>x\<leftarrow>drop i xs. arnm_popcountll x)"
proof (induction "length xs - i" arbitrary: i)
  case (Suc n)
  then have "i < length xs" by simp
  then show ?case using Suc.hyps(1) [of "Suc i"] Suc.hyps(2)
    by (simp add: upt_conv_Cons Cons_nth_drop_Suc [symmetric])
qed simp

lemma words_cardinality:
  assumes "length words = 1024" "low \<le> high" "high < 65536"
  shows "arnm_roaring_words_cardinality words low high = length (filter (\<lambda>v. low \<le> v \<and> v \<le> high) (bits_from 0 words))"
proof -
  let ?f = "drop_bit 6 low" and ?l = "drop_bit 6 high"
  have fl: "?f \<le> ?l" "?l < 1024" using assms(2,3) by (simp_all add: drop_6 div_le_mono less_mult_imp_div_less)
  define run where "run = take (Suc (?l - ?f)) (drop ?f words)"
  have len: "length run = Suc (?l - ?f)" using fl assms(1) by (simp add: run_def)
  have nth: "run ! i = words ! (?f + i)" if "i \<le> ?l - ?f" for i using that fl assms(1) by (simp add: run_def)
  obtain n clipped where c: "arnm_roaring_clip_and_count run low high = (n, clipped)" by fastforce
  note clip = clip_and_count [OF assms(2,3) len c]
  have "n = arnm_roaring_words_cardinality words low high"
  proof (cases "?f = ?l")
    case True
    then obtain x where "run = [x]" using len by (metis diff_self_eq_0 length_0_conv length_Suc_conv)
    moreover have "x = words ! ?f" using nth [of 0] \<open>run = [x]\<close> True by simp
    moreover have "arnm_popcountll y < 4294967296" for y
      using le_less_trans [OF length_filter_le [of "bit y" "[0..<64]"], of 4294967296] by (simp add: arnm_popcountll_def)
    ultimately show ?thesis
      using c True by (simp add: arnm_roaring_clip_and_count_def arnm_roaring_words_cardinality_def Let_def u32_def and.assoc)
  next
    case False
    obtain k where k: "?l - ?f = Suc k" using False fl by (metis Suc_pred diff_is_0_eq le_antisym not_gr_zero)
    obtain x zs where xz: "run = x # zs" "length zs = Suc k" using len k by (cases run) simp_all
    then obtain ys y where "zs = ys @ [y]" by (metis Zero_not_Suc list.size(3) rev_exhaust)
    then have run: "run = x # ys @ [y]" "length ys = k" using xz by simp_all
    have l: "?l = Suc (?f + k)" using k fl by linarith
    have x: "x = words ! ?f" "y = words ! ?l"
      using nth [of 0] nth [of "Suc k"] run k by (simp_all add: nth_append l)
    have "ys ! i = words ! (?f + 1 + i)" if "i < k" for i using nth [of "Suc i"] run that k by (simp add: nth_append)
    then have ys: "ys = map (\<lambda>w. words ! w) [?f + 1..<?l]" using run(2) k by (intro nth_equalityI) simp_all
    show ?thesis
      using c False k run unfolding x ys
      by (auto simp: arnm_roaring_clip_and_count_def arnm_roaring_words_cardinality_def Let_def list_update_append comp_def nth_append add_ac)
  qed
  moreover have "filter (\<lambda>v. low \<le> v \<and> v \<le> high) (bits_from ?f run) = filter (\<lambda>v. low \<le> v \<and> v \<le> high) (bits_from 0 words)"
  proof (rule ascending_eq)
    have "v \<in> set (bits_from ?f run) \<longleftrightarrow> v \<in> set (bits_from 0 words)" if "low \<le> v" "v \<le> high" for v
    proof -
      have "?f \<le> v div 64" "v div 64 \<le> ?l" using that by (simp_all add: drop_6 div_le_mono)
      then show ?thesis using nth [of "v div 64 - ?f"] fl len assms(1) by (simp add: in_bits_from Suc_diff_le less_Suc_eq_le)
    qed
    then show "set (filter (\<lambda>v. low \<le> v \<and> v \<le> high) (bits_from ?f run)) =
        set (filter (\<lambda>v. low \<le> v \<and> v \<le> high) (bits_from 0 words))" by auto
  qed (simp_all add: sorted_wrt_filter)
  ultimately show ?thesis using clip by simp
qed

text \<open>The word and the bit of the value of a rank; \<open>None\<close> where the loop would run out of the words.\<close>

fun drop_lowest :: "nat \<Rightarrow> 64 word \<Rightarrow> 64 word" where
  "drop_lowest 0 word = word"
| "drop_lowest (Suc rank) word = drop_lowest rank (word AND (word - 1))"

function arnm_roaring_words_select :: "64 word list \<Rightarrow> nat \<Rightarrow> nat \<Rightarrow> (nat \<times> nat) option" where
  "arnm_roaring_words_select words w rank =
    (if length words \<le> w then None
     else
       let count = arnm_popcountll (words ! w)
       in if rank < count then Some (w, arnm_ctzll (drop_lowest rank (words ! w)))
          else arnm_roaring_words_select words (Suc w) (rank - count))"
  by auto
termination
  by (relation "measure (\<lambda>(words, w, rank). length words - w)") auto

declare arnm_roaring_words_select.simps [simp del]

lemma drop_lowest_bits: "rank < length (word_bits x) \<Longrightarrow> word_bits (drop_lowest rank x) = drop rank (word_bits x)"
proof (induction rank x rule: drop_lowest.induct)
  case (2 rank x)
  have "x \<noteq> 0" using 2(2) by auto
  then show ?case using 2 ctzll_lowest [of x] by simp
qed simp

lemma drop_lowest_ctz: "rank < length (word_bits x) \<Longrightarrow> arnm_ctzll (drop_lowest rank x) = word_bits x ! rank"
proof -
  assume r: "rank < length (word_bits x)"
  have "drop_lowest rank x \<noteq> 0" using drop_lowest_bits [OF r] r word_bits_empty [of "drop_lowest rank x"] by simp
  then show ?thesis using drop_lowest_bits [OF r] ctzll_lowest [of "drop_lowest rank x"] r
    by (metis Cons_nth_drop_Suc list.inject)
qed

lemma words_select:
  assumes "rank < length (bits_from w (drop w words))"
  shows "\<exists>u b. arnm_roaring_words_select words w rank = Some (u, b) \<and> w \<le> u \<and> u < length words \<and> bit (words ! u) b \<and>
    64 * u + b = bits_from w (drop w words) ! rank \<and>
    drop rank (bits_from w (drop w words)) =
      map (\<lambda>i. 64 * u + i) (filter (\<lambda>i. b \<le> i) (word_bits (words ! u))) @ bits_from (Suc u) (drop (Suc u) words)"
  using assms
proof (induction words w rank rule: arnm_roaring_words_select.induct)
  case (1 words w rank)
  have w: "w < length words" using "1.prems" by (rule_tac ccontr) simp
  then have d: "drop w words = words ! w # drop (Suc w) words" by (simp add: Cons_nth_drop_Suc)
  let ?n = "arnm_popcountll (words ! w)"
  have n: "?n = length (word_bits (words ! w))" by (simp add: length_word_bits)
  show ?case
  proof (cases "rank < ?n")
    case True
    let ?b = "word_bits (words ! w) ! rank"
    have r: "rank < length (word_bits (words ! w))" using True n by simp
    have "drop rank (word_bits (words ! w)) = filter (\<lambda>i. \<not> i < ?b) (word_bits (words ! w))"
    proof (rule split_at_filter(2))
      show "word_bits (words ! w) ! i < ?b \<longleftrightarrow> i < rank" if "i < length (word_bits (words ! w))" for i
        using ascending_nth_less [OF word_bits_ascending, of i rank] ascending_nth_le [OF word_bits_ascending, of rank i] that r
        by (metis not_le)
    qed (use r in simp_all)
    moreover have "bit (words ! w) ?b" using r in_word_bits nth_mem by blast
    ultimately show ?thesis
      using w True r drop_lowest_ctz [OF r] unfolding n
      by (subst arnm_roaring_words_select.simps) (simp add: d nth_append not_less length_word_bits drop_map)
  next
    case False
    have "rank - ?n < length (bits_from (Suc w) (drop (Suc w) words))" using "1.prems" False by (simp add: d n)
    with "1.IH" w False show ?thesis
      by (subst arnm_roaring_words_select.simps) (auto simp: d nth_append n)
  qed
qed

end
