(* ===== verification/Roaring_Bitmap.thy ===== *)
theory Roaring_Bitmap
  imports Block_Lending Roaring_Words
begin

unbundle bit_operations_syntax

text \<open>
  The sets of 32-bit values (\<^verbatim>\<open>src/roaring_bitmap.c\<close>, \<^verbatim>\<open>include/arnm/roaring_bitmap.h\<close>). Up to 1024
  values a set is one ascending array; beyond that, an array of containers in the order of their keys,
  each an ascending array of 16-bit parts or a bitmap of 1024 words.

  A block of the pool is held by its address and exponent; what the set keeps in it, 32-bit values,
  16-bit parts, words or containers, stands beside the address as a list of just the entries in use,
  since a block lent is the set's alone (theory \<open>Graded_Block_Pool\<close>). \<open>elems\<close> is the set as the
  ascending list of its values, and \<open>set_blocks\<close> the blocks it holds: every operation is shown to do
  to \<open>elems\<close> what it promises, and to leave the pool's books balanced, also where it fails half way.
\<close>

datatype arnm_roaring_kind = ARNM_ROARING_ARRAY | ARNM_ROARING_BITMAP | ROARING_KIND_WIDE

record roaring_container =
  rc_data :: addr
  rc_array :: "nat list"
  rc_words :: "64 word list"
  rc_cardinality :: nat
  rc_key :: nat
  rc_block_log2 :: nat
  rc_kind :: arnm_roaring_kind

record roaring_bitmap =
  rb_block :: addr
  rb_values :: "nat list"
  rb_containers :: "roaring_container list"
  rb_cardinality :: nat
  rb_maximum :: nat
  rb_count :: nat
  rb_directory_log2 :: nat

definition zero_container :: roaring_container where
  "zero_container = \<lparr>rc_data = NULL, rc_array = [], rc_words = [], rc_cardinality = 0, rc_key = 0, rc_block_log2 = 0,
     rc_kind = ARNM_ROARING_ARRAY\<rparr>"

definition zero_roaring :: roaring_bitmap where
  "zero_roaring = \<lparr>rb_block = NULL, rb_values = [], rb_containers = [], rb_cardinality = 0, rb_maximum = 0, rb_count = 0,
     rb_directory_log2 = 0\<rparr>"

definition ROARING_BITMAP_LOG2 :: nat where "ROARING_BITMAP_LOG2 = 13"
definition ROARING_ARRAY_LOG2_FIRST :: nat where "ROARING_ARRAY_LOG2_FIRST = 4"
definition ROARING_DIRECTORY_LOG2_FIRST :: nat where "ROARING_DIRECTORY_LOG2_FIRST = 4"
definition ROARING_SPARSE_LOG2_FIRST :: nat where "ROARING_SPARSE_LOG2_FIRST = 4"
definition SIZEOF_ROARING_CONTAINER :: nat where "SIZEOF_ROARING_CONTAINER = 16"

section \<open>Building a set\<close>

definition arnm_roaring_is_sparse :: "roaring_bitmap \<Rightarrow> bool" where
  "arnm_roaring_is_sparse s \<longleftrightarrow> rb_count s = 0"

definition arnm_roaring_init :: "roaring_bitmap option \<Rightarrow> roaring_bitmap option" where
  "arnm_roaring_init s = (case s of None \<Rightarrow> None | Some _ \<Rightarrow> Some zero_roaring)"

definition free_set :: "'w block_source \<Rightarrow> roaring_bitmap \<Rightarrow> 'w \<Rightarrow> roaring_bitmap \<times> 'w" where
  "free_set src s w =
    (zero_roaring,
     if arnm_roaring_is_sparse s then
       (if rb_block s \<noteq> NULL then bs_free src (rb_block s) (rb_directory_log2 s) w else w)
     else
       bs_free src (rb_block s) (rb_directory_log2 s)
         (fold (\<lambda>c. bs_free src (rc_data c) (rc_block_log2 c)) (rb_containers s) w))"

text \<open>The pool is \<open>None\<close> where the caller passes NULL: then the blocks stay with it.\<close>

definition arnm_roaring_free :: "'w block_source \<Rightarrow> roaring_bitmap option \<Rightarrow> 'w option \<Rightarrow> roaring_bitmap option \<times> 'w option" where
  "arnm_roaring_free src s pool =
    (case s of None \<Rightarrow> (s, pool)
     | Some set1 \<Rightarrow>
       (case pool of None \<Rightarrow> (Some zero_roaring, pool)
        | Some w \<Rightarrow> (case free_set src set1 w of (set1, w) \<Rightarrow> (Some set1, Some w))))"

function arnm_roaring_log2_from :: "nat \<Rightarrow> nat \<Rightarrow> nat" where
  "arnm_roaring_log2_from log2 nbytes = (if 2 ^ log2 < nbytes then arnm_roaring_log2_from (log2 + 1) nbytes else log2)"
  by auto
termination
proof (relation "measure (\<lambda>(log2, nbytes). nbytes - log2)")
  fix log2 nbytes :: nat assume "2 ^ log2 < nbytes"
  then have "log2 < nbytes" using less_exp [of log2] by linarith
  then show "((log2 + 1, nbytes), log2, nbytes) \<in> measure (\<lambda>(log2, nbytes). nbytes - log2)" by simp
qed simp

declare arnm_roaring_log2_from.simps [simp del]

definition arnm_roaring_log2_for_bytes :: "nat \<Rightarrow> nat" where
  "arnm_roaring_log2_for_bytes nbytes = arnm_roaring_log2_from ROARING_ARRAY_LOG2_FIRST nbytes"

definition arnm_roaring_push_container :: "'w block_source \<Rightarrow> roaring_bitmap \<Rightarrow> roaring_container \<Rightarrow> 'w \<Rightarrow>
    arnm_result \<times> roaring_bitmap \<times> 'w" where
  "arnm_roaring_push_container src s c w =
    (let cap = (if rb_block s \<noteq> NULL then u32 (2 ^ rb_directory_log2 s) div SIZEOF_ROARING_CONTAINER else 0);
         push = (\<lambda>s. s\<lparr>rb_containers := rb_containers s @ [c], rb_count := u32 (rb_count s + 1)\<rparr>)
     in if rb_count s = cap then
          let log2 = (if rb_block s \<noteq> NULL then u8 (rb_directory_log2 s + 1) else ROARING_DIRECTORY_LOG2_FIRST)
          in case bs_alloc src log2 w of
               (result, block, w) \<Rightarrow>
                 if result \<noteq> ARNM_SUCCESS then (result, s, w)
                 else
                   (ARNM_SUCCESS, push (s\<lparr>rb_block := block, rb_directory_log2 := log2\<rparr>),
                    if rb_block s \<noteq> NULL then bs_free src (rb_block s) (rb_directory_log2 s) w else w)
        else (ARNM_SUCCESS, push s, w))"

definition array_to_bitmap :: "'w block_source \<Rightarrow> roaring_container \<Rightarrow> nat \<Rightarrow> 'w \<Rightarrow>
    arnm_result \<times> roaring_container \<times> 'w" where
  "array_to_bitmap src c low w =
    (case bs_alloc src ROARING_BITMAP_LOG2 w of
       (result, block, w) \<Rightarrow>
         if result \<noteq> ARNM_SUCCESS then (result, c, w)
         else
           let words = fold (\<lambda>v words. set_bit_at words v) (rc_array c) (replicate ARNM_ROARING_BITMAP_WORDS 0)
           in (ARNM_SUCCESS,
               c\<lparr>rc_array := [], rc_words := set_bit_at words low, rc_data := block, rc_block_log2 := ROARING_BITMAP_LOG2,
                 rc_kind := ARNM_ROARING_BITMAP\<rparr>,
               bs_free src (rc_data c) (rc_block_log2 c) w))"

definition array_grow :: "'w block_source \<Rightarrow> roaring_container \<Rightarrow> 'w \<Rightarrow> arnm_result \<times> roaring_container \<times> 'w" where
  "array_grow src c w =
    (let log2 = u8 (rc_block_log2 c + 1)
     in case bs_alloc src log2 w of
          (result, block, w) \<Rightarrow>
            if result \<noteq> ARNM_SUCCESS then (result, c, w)
            else (ARNM_SUCCESS, c\<lparr>rc_data := block, rc_block_log2 := log2\<rparr>, bs_free src (rc_data c) (rc_block_log2 c) w))"

definition sparse_add :: "'w block_source \<Rightarrow> roaring_bitmap \<Rightarrow> nat \<Rightarrow> 'w \<Rightarrow> arnm_result \<times> roaring_bitmap \<times> 'w" where
  "sparse_add src s v w =
    (let cap = (if rb_block s \<noteq> NULL then u32 (2 ^ rb_directory_log2 s) div 4 else 0);
         push = (\<lambda>s. s\<lparr>rb_values := rb_values s @ [v], rb_cardinality := u32 (rb_cardinality s + 1), rb_maximum := v\<rparr>)
     in if rb_cardinality s = cap then
          let log2 = (if rb_block s \<noteq> NULL then u8 (rb_directory_log2 s + 1) else ROARING_SPARSE_LOG2_FIRST)
          in case bs_alloc src log2 w of
               (result, block, w) \<Rightarrow>
                 if result \<noteq> ARNM_SUCCESS then (result, s, w)
                 else
                   (ARNM_SUCCESS, push (s\<lparr>rb_block := block, rb_directory_log2 := log2\<rparr>),
                    if rb_block s \<noteq> NULL then bs_free src (rb_block s) (rb_directory_log2 s) w else w)
        else (ARNM_SUCCESS, push s, w))"

definition arnm_roaring_emit_array :: "'w block_source \<Rightarrow> roaring_bitmap \<Rightarrow> nat \<Rightarrow> nat list \<Rightarrow> 'w \<Rightarrow>
    arnm_result \<times> roaring_bitmap \<times> 'w" where
  "arnm_roaring_emit_array src out key vs w =
    (let count = length vs in
     if count = 0 then (ARNM_SUCCESS, out, w)
     else if rb_cardinality out > UINT32_MAX - count then (ARNM_ERROR_RESOURCE_EXHAUSTED, out, w)
     else
       let log2 = arnm_roaring_log2_for_bytes (u32 (count * 2))
       in case bs_alloc src log2 w of
            (result, block, w) \<Rightarrow>
              if result \<noteq> ARNM_SUCCESS then (result, out, w)
              else
                let c = zero_container\<lparr>rc_data := block, rc_array := vs, rc_key := key, rc_kind := ARNM_ROARING_ARRAY,
                          rc_block_log2 := log2, rc_cardinality := count\<rparr>
                in case arnm_roaring_push_container src out c w of
                     (result, out, w) \<Rightarrow>
                       if result \<noteq> ARNM_SUCCESS then (result, out, bs_free src block log2 w)
                       else (ARNM_SUCCESS, out\<lparr>rb_cardinality := u32 (rb_cardinality out + count),
                              rb_maximum := arnm_roaring_value_of key (vs ! (count - 1))\<rparr>, w))"

text \<open>
  The words passed on are those filled, from word \<open>first\<close> on. The scan for the highest one stops at
  the first of them, where the code, which knows that one is not zero, has no bound.
\<close>

fun top_word :: "64 word list \<Rightarrow> nat \<Rightarrow> nat" where
  "top_word words 0 = 0"
| "top_word words (Suc i) = (if words ! Suc i = 0 then top_word words i else Suc i)"

definition arnm_roaring_emit_words :: "'w block_source \<Rightarrow> roaring_bitmap \<Rightarrow> nat \<Rightarrow> 64 word list \<Rightarrow> nat \<Rightarrow> nat \<Rightarrow> nat \<Rightarrow> 'w \<Rightarrow>
    arnm_result \<times> roaring_bitmap \<times> 'w" where
  "arnm_roaring_emit_words src out key words first final cardinality w =
    (if cardinality = 0 then (ARNM_SUCCESS, out, w)
     else if cardinality \<le> ARNM_ROARING_ARRAY_MAX then
       arnm_roaring_emit_array src out key (concat (map (\<lambda>i. word_emit i (words ! (i - first))) [first..<Suc final])) w
     else if rb_cardinality out > UINT32_MAX - cardinality then (ARNM_ERROR_RESOURCE_EXHAUSTED, out, w)
     else case bs_alloc src ROARING_BITMAP_LOG2 w of
       (result, block, w) \<Rightarrow>
         if result \<noteq> ARNM_SUCCESS then (result, out, w)
         else
           let c = zero_container\<lparr>rc_data := block,
                     rc_words := replicate first 0 @ words @ replicate (ARNM_ROARING_BITMAP_WORDS - Suc final) 0,
                     rc_key := key, rc_kind := ARNM_ROARING_BITMAP, rc_block_log2 := ROARING_BITMAP_LOG2,
                     rc_cardinality := cardinality\<rparr>
           in case arnm_roaring_push_container src out c w of
                (result, out, w) \<Rightarrow>
                  if result \<noteq> ARNM_SUCCESS then (result, out, bs_free src block ROARING_BITMAP_LOG2 w)
                  else
                    let i = top_word words (final - first)
                    in (ARNM_SUCCESS, out\<lparr>rb_cardinality := u32 (rb_cardinality out + cardinality),
                          rb_maximum := arnm_roaring_value_of key
                            (push_bit 6 (first + i) OR (63 - arnm_clzll (words ! i)))\<rparr>, w))"

function arnm_roaring_values_to_containers :: "'w block_source \<Rightarrow> roaring_bitmap \<Rightarrow> nat list \<Rightarrow> 'w \<Rightarrow>
    arnm_result \<times> roaring_bitmap \<times> 'w" where
  "arnm_roaring_values_to_containers src out vs w =
    (if vs = [] then (ARNM_SUCCESS, out, w)
     else
       let key = arnm_roaring_key_of (hd vs);
           lows = map arnm_roaring_low_of (takeWhile (\<lambda>v. arnm_roaring_key_of v = key) vs)
       in case arnm_roaring_emit_array src out key lows w of
            (result, out, w) \<Rightarrow>
              if result \<noteq> ARNM_SUCCESS then (result, out, w)
              else arnm_roaring_values_to_containers src out (dropWhile (\<lambda>v. arnm_roaring_key_of v = key) vs) w)"
  by auto
termination
proof (relation "measure (\<lambda>(src, out, vs, w). length vs)")
  fix src :: "'w block_source" and out w vs key x result s p w' out'
  assume "vs \<noteq> []" "key = arnm_roaring_key_of (hd vs)"
  then show "((src, out', dropWhile (\<lambda>v. arnm_roaring_key_of v = key) vs, w'), src, out, vs, w)
    \<in> measure (\<lambda>(src, out, vs, w). length vs)"
    using length_dropWhile_le [of "\<lambda>v. arnm_roaring_key_of v = key" "tl vs"] by (cases vs) (auto simp: less_Suc_eq_le)
qed simp

declare arnm_roaring_values_to_containers.simps [simp del]


definition sparse_to_containers :: "'w block_source \<Rightarrow> roaring_bitmap \<Rightarrow> 'w \<Rightarrow> arnm_result \<times> roaring_bitmap \<times> 'w" where
  "sparse_to_containers src s w =
    (case arnm_roaring_values_to_containers src zero_roaring (rb_values s) w of
       (result, built, w) \<Rightarrow>
         if result \<noteq> ARNM_SUCCESS then (result, s, snd (free_set src built w))
         else (ARNM_SUCCESS, built, bs_free src (rb_block s) (rb_directory_log2 s) w))"

definition arnm_roaring_values_result :: "'w block_source \<Rightarrow> roaring_bitmap \<Rightarrow> nat list \<Rightarrow> 'w \<Rightarrow>
    arnm_result \<times> roaring_bitmap \<times> 'w" where
  "arnm_roaring_values_result src out vs w =
    (let count = length vs in
     if count = 0 then (ARNM_SUCCESS, out, w)
     else if count > ARNM_ROARING_SPARSE_MAX then arnm_roaring_values_to_containers src out vs w
     else
       let log2 = arnm_roaring_log2_for_bytes (u32 (count * 4))
       in case bs_alloc src log2 w of
            (result, block, w) \<Rightarrow>
              if result \<noteq> ARNM_SUCCESS then (result, out, w)
              else (ARNM_SUCCESS, out\<lparr>rb_block := block, rb_values := vs, rb_directory_log2 := log2, rb_cardinality := count,
                     rb_maximum := vs ! (count - 1)\<rparr>, w))"

text \<open>\<open>arnm_roaring_add\<close> on a set of containers: into the last one, or into a new one.\<close>

definition add_to_last :: "'w block_source \<Rightarrow> roaring_container \<Rightarrow> nat \<Rightarrow> 'w \<Rightarrow> arnm_result \<times> roaring_container \<times> 'w" where
  "add_to_last src c low w =
    (if rc_kind c = ARNM_ROARING_BITMAP then (ARNM_SUCCESS, c\<lparr>rc_words := set_bit_at (rc_words c) low\<rparr>, w)
     else
       let cap = u32 (2 ^ rc_block_log2 c) div 2 in
       if rc_cardinality c = ARNM_ROARING_ARRAY_MAX then array_to_bitmap src c low w
       else case (if rc_cardinality c = cap then array_grow src c w else (ARNM_SUCCESS, c, w)) of
         (result, c, w) \<Rightarrow>
           if result \<noteq> ARNM_SUCCESS then (result, c, w)
           else (ARNM_SUCCESS, c\<lparr>rc_array := rc_array c @ [low]\<rparr>, w))"

definition add_to_containers :: "'w block_source \<Rightarrow> roaring_bitmap \<Rightarrow> nat \<Rightarrow> 'w \<Rightarrow> arnm_result \<times> roaring_bitmap \<times> 'w" where
  "add_to_containers src s v w =
    (let key = arnm_roaring_key_of v; low = arnm_roaring_low_of v;
         finish = (\<lambda>s. s\<lparr>rb_cardinality := u32 (rb_cardinality s + 1), rb_maximum := v\<rparr>)
     in if rb_count s \<noteq> 0 \<and> rc_key (rb_containers s ! (rb_count s - 1)) = key then
          case add_to_last src (rb_containers s ! (rb_count s - 1)) low w of
            (result, c, w) \<Rightarrow>
              if result \<noteq> ARNM_SUCCESS then (result, s, w)
              else (ARNM_SUCCESS, finish (s\<lparr>rb_containers :=
                (rb_containers s)[rb_count s - 1 := c\<lparr>rc_cardinality := u32 (rc_cardinality c + 1)\<rparr>]\<rparr>), w)
        else case bs_alloc src ROARING_ARRAY_LOG2_FIRST w of
          (result, block, w) \<Rightarrow>
            if result \<noteq> ARNM_SUCCESS then (result, s, w)
            else
              let c = zero_container\<lparr>rc_data := block, rc_key := key, rc_kind := ARNM_ROARING_ARRAY,
                        rc_block_log2 := ROARING_ARRAY_LOG2_FIRST, rc_cardinality := 1, rc_array := [low]\<rparr>
              in case arnm_roaring_push_container src s c w of
                   (result, s, w) \<Rightarrow>
                     if result \<noteq> ARNM_SUCCESS then (result, s, bs_free src block ROARING_ARRAY_LOG2_FIRST w)
                     else (ARNM_SUCCESS, finish s, w))"

definition add_value :: "'w block_source \<Rightarrow> roaring_bitmap \<Rightarrow> nat \<Rightarrow> 'w \<Rightarrow> arnm_result \<times> roaring_bitmap \<times> 'w" where
  "add_value src s v w =
    (if rb_cardinality s \<noteq> 0 \<and> v < rb_maximum s then (ARNM_ERROR_INVALID_PARAM, s, w)
     else if rb_cardinality s \<noteq> 0 \<and> v = rb_maximum s then (ARNM_SUCCESS, s, w)
     else if rb_cardinality s \<noteq> 0 \<and> rb_cardinality s = UINT32_MAX then (ARNM_ERROR_RESOURCE_EXHAUSTED, s, w)
     else if arnm_roaring_is_sparse s then
       (if rb_cardinality s < ARNM_ROARING_SPARSE_MAX then sparse_add src s v w
        else case sparse_to_containers src s w of
          (result, s, w) \<Rightarrow> if result \<noteq> ARNM_SUCCESS then (result, s, w) else add_to_containers src s v w)
     else add_to_containers src s v w)"

definition arnm_roaring_add :: "'w block_source \<Rightarrow> roaring_bitmap option \<Rightarrow> nat \<Rightarrow> 'w option \<Rightarrow>
    arnm_result \<times> roaring_bitmap option \<times> 'w option" where
  "arnm_roaring_add src s v pool =
    (case (s, pool) of
       (Some s1, Some w) \<Rightarrow> (case add_value src s1 v w of (r, s1, w) \<Rightarrow> (r, Some s1, Some w))
     | _ \<Rightarrow> (ARNM_ERROR_NULL_POINTER, s, pool))"

section \<open>What a set is\<close>

definition lows :: "roaring_container \<Rightarrow> nat list" where
  "lows c = (case rc_kind c of
     ARNM_ROARING_ARRAY \<Rightarrow> rc_array c
   | ARNM_ROARING_BITMAP \<Rightarrow> bits_from 0 (rc_words c)
   | ROARING_KIND_WIDE \<Rightarrow> map arnm_roaring_low_of (rc_array c))"

lemma lows_cardinality [simp]: "lows (c\<lparr>rc_cardinality := n\<rparr>) = lows c"
  by (cases "rc_kind c") (simp_all add: lows_def)

definition container_elems :: "roaring_container \<Rightarrow> nat list" where
  "container_elems c = map (arnm_roaring_value_of (rc_key c)) (lows c)"

definition elems :: "roaring_bitmap \<Rightarrow> nat list" where
  "elems s = (if rb_count s = 0 then rb_values s else concat (map container_elems (rb_containers s)))"

definition container_ok :: "roaring_container \<Rightarrow> bool" where
  "container_ok c \<longleftrightarrow> rc_key c < 65536 \<and> rc_cardinality c = length (lows c) \<and> lows c \<noteq> [] \<and>
    (case rc_kind c of
       ARNM_ROARING_ARRAY \<Rightarrow> ascending (rc_array c) \<and> (\<forall>x\<in>set (rc_array c). x < 65536) \<and>
         length (rc_array c) \<le> ARNM_ROARING_ARRAY_MAX \<and> 2 * length (rc_array c) \<le> 2 ^ rc_block_log2 c \<and>
         4 \<le> rc_block_log2 c \<and> rc_block_log2 c \<le> 13
     | ARNM_ROARING_BITMAP \<Rightarrow> length (rc_words c) = ARNM_ROARING_BITMAP_WORDS \<and> rc_block_log2 c = 13
     | ROARING_KIND_WIDE \<Rightarrow> False)"

text \<open>A set of containers, also one that has none yet.\<close>

definition directory_ok :: "roaring_bitmap \<Rightarrow> bool" where
  "directory_ok s \<longleftrightarrow> rb_count s = length (rb_containers s) \<and> rb_values s = [] \<and>
    (\<forall>c\<in>set (rb_containers s). container_ok c) \<and> ascending (map rc_key (rb_containers s)) \<and>
    (if rb_block s = NULL then rb_containers s = []
     else rb_containers s \<noteq> [] \<and> 16 * rb_count s \<le> 2 ^ rb_directory_log2 s \<and> 4 \<le> rb_directory_log2 s \<and> rb_directory_log2 s \<le> 20) \<and>
    rb_cardinality s = length (concat (map container_elems (rb_containers s))) \<and> rb_cardinality s \<le> UINT32_MAX"

definition values_ok :: "roaring_bitmap \<Rightarrow> bool" where
  "values_ok s \<longleftrightarrow> rb_containers s = [] \<and> ascending (rb_values s) \<and> (\<forall>v\<in>set (rb_values s). v \<le> UINT32_MAX) \<and>
    rb_cardinality s = length (rb_values s) \<and> length (rb_values s) \<le> ARNM_ROARING_SPARSE_MAX \<and>
    (if rb_block s = NULL then rb_values s = []
     else 4 * length (rb_values s) \<le> 2 ^ rb_directory_log2 s \<and> 4 \<le> rb_directory_log2 s \<and> rb_directory_log2 s \<le> 12)"

definition roaring_ok :: "roaring_bitmap \<Rightarrow> bool" where
  "roaring_ok s \<longleftrightarrow> (if rb_count s = 0 then values_ok s else directory_ok s) \<and>
    (elems s \<noteq> [] \<longrightarrow> rb_maximum s = last (elems s))"

definition container_block :: "roaring_container \<Rightarrow> addr \<times> nat" where
  "container_block c = (rc_data c, rc_block_log2 c)"

definition set_blocks :: "roaring_bitmap \<Rightarrow> (addr \<times> nat) multiset" where
  "set_blocks s = (if rb_block s = NULL then {#} else {#(rb_block s, rb_directory_log2 s)#}) +
    image_mset container_block (mset (rb_containers s))"

lemma lows_ascending:
  assumes "container_ok c" shows "ascending (lows c)" "x \<in> set (lows c) \<Longrightarrow> x < 65536"
proof -
  show "ascending (lows c)"
    using assms by (cases "rc_kind c") (simp_all add: container_ok_def lows_def)
  show "x < 65536" if "x \<in> set (lows c)"
    using assms that bits_from_bounds [of x 0 "rc_words c"]
    by (cases "rc_kind c") (auto simp: container_ok_def lows_def ARNM_ROARING_BITMAP_WORDS_def)
qed

lemma container_elems_ascending:
  assumes "container_ok c"
  shows "ascending (container_elems c)" "v \<in> set (container_elems c) \<Longrightarrow> arnm_roaring_key_of v = rc_key c \<and> v \<le> UINT32_MAX"
proof -
  have low: "x < 65536" if "x \<in> set (lows c)" for x using lows_ascending(2) [OF assms that] .
  have "container_elems c = map (\<lambda>x. rc_key c * 65536 + x) (lows c)"
    unfolding container_elems_def by (rule map_cong) (use low in \<open>simp_all add: value_of_sum\<close>)
  then show "ascending (container_elems c)" using lows_ascending(1) [OF assms] by (simp add: sorted_wrt_map)
  show "arnm_roaring_key_of v = rc_key c \<and> v \<le> UINT32_MAX" if v: "v \<in> set (container_elems c)"
  proof -
    obtain x where x: "x < 65536" "v = arnm_roaring_value_of (rc_key c) x" using v low by (auto simp: container_elems_def)
    moreover have "rc_key c < 65536" using assms by (simp add: container_ok_def)
    ultimately show ?thesis by (simp add: value_of_sum UINT32_MAX_def key_of_div)
  qed
qed

lemma key_le: "u \<le> v \<Longrightarrow> arnm_roaring_key_of u \<le> arnm_roaring_key_of v"
  by (simp add: key_of_div div_le_mono)

lemma key_less: "arnm_roaring_key_of u < arnm_roaring_key_of v \<Longrightarrow> u < v"
  using key_le [of v u] by (meson not_le)

lemma concat_ascending:
  assumes "\<forall>c\<in>set cs. container_ok c" "ascending (map rc_key cs)"
  shows "ascending (concat (map container_elems cs))"
  using assms
proof (induction cs)
  case (Cons c cs)
  have "u < v" if u: "u \<in> set (container_elems c)" and v: "v \<in> set (concat (map container_elems cs))" for u v
  proof -
    obtain d where d: "d \<in> set cs" "v \<in> set (container_elems d)" using v by auto
    have ok: "container_ok c" "container_ok d" "rc_key c < rc_key d" using Cons.prems d(1) by simp_all
    have "arnm_roaring_key_of u = rc_key c" "arnm_roaring_key_of v = rc_key d"
      using container_elems_ascending(2) [OF ok(1) u] container_elems_ascending(2) [OF ok(2) d(2)] by simp_all
    then have "arnm_roaring_key_of u < arnm_roaring_key_of v" using ok(3) by simp
    then show ?thesis by (rule key_less)
  qed
  moreover have "ascending (concat (map container_elems cs))" by (rule Cons.IH) (use Cons.prems in simp_all)
  moreover have "ascending (container_elems c)" using Cons.prems(1) container_elems_ascending(1) by simp
  ultimately show ?case by (simp add: sorted_wrt_append del: set_concat)
qed simp

lemma elems_ascending: "roaring_ok s \<Longrightarrow> ascending (elems s)"
  using concat_ascending [of "rb_containers s"] by (auto simp: roaring_ok_def elems_def directory_ok_def values_ok_def split: if_splits)

lemma length_concat_elems: "length (concat (map container_elems cs)) = (\<Sum>c\<leftarrow>cs. length (lows c))"
  by (induction cs) (simp_all add: container_elems_def)

lemma roaring_cardinality: "roaring_ok s \<Longrightarrow> rb_cardinality s = length (elems s)"
  by (auto simp: roaring_ok_def elems_def directory_ok_def values_ok_def split: if_splits)

lemma zero_roaring_ok [simp]: "directory_ok zero_roaring" "values_ok zero_roaring" "roaring_ok zero_roaring" "elems zero_roaring = []"
    "set_blocks zero_roaring = {#}"
  by (simp_all add: zero_roaring_def directory_ok_def values_ok_def roaring_ok_def elems_def set_blocks_def)


section \<open>Building keeps the books\<close>

lemma pow_split: "k \<le> d \<Longrightarrow> (2::nat) ^ d = 2 ^ k * 2 ^ (d - k)"
  by (simp flip: power_add)

lemma u32_pow: "d \<le> 20 \<Longrightarrow> u32 (2 ^ d) = 2 ^ d"
proof -
  assume "d \<le> 20"
  then have "(2::nat) ^ d \<le> 2 ^ 20" by (intro power_increasing) simp_all
  then show ?thesis by (intro u32_id) (simp add: UINT32_MAX_def)
qed

lemma keys_length:
  assumes "ascending (map rc_key cs)" "\<forall>c\<in>set cs. container_ok c"
  shows "length cs \<le> 65536"
proof -
  have "length (map rc_key cs) \<le> 65536"
    by (rule ascending_length [OF assms(1)]) (use assms(2) in \<open>auto simp: container_ok_def\<close>)
  then show ?thesis by simp
qed

text \<open>When a block of \<open>n\<close> entries of \<open>2 ^ k\<close> bytes is full or not, and that there is room after it grew.\<close>

lemma block_room:
  assumes "2 ^ k * n \<le> 2 ^ d" "k \<le> d" "d \<le> 20" "n < 2 ^ m"
  shows "n = u32 (2 ^ d) div 2 ^ k \<Longrightarrow> d < k + m \<and> 2 ^ k * Suc n \<le> 2 ^ Suc d" "n \<noteq> u32 (2 ^ d) div 2 ^ k \<Longrightarrow> 2 ^ k * Suc n \<le> 2 ^ d"
proof -
  have p: "(2::nat) ^ d = 2 ^ k * 2 ^ (d - k)" by (rule pow_split [OF assms(2)])
  have c: "u32 (2 ^ d) div 2 ^ k = 2 ^ (d - k)" using u32_pow [OF assms(3)] p by simp
  have "n \<le> 2 ^ (d - k)" using assms(1) p by simp
  then have "Suc n \<le> 2 ^ (d - k)" if "n \<noteq> 2 ^ (d - k)" using that by simp
  then have "2 ^ k * Suc n \<le> 2 ^ k * 2 ^ (d - k)" if "n \<noteq> 2 ^ (d - k)" using that by (intro mult_le_mono2) simp
  then show "n \<noteq> u32 (2 ^ d) div 2 ^ k \<Longrightarrow> 2 ^ k * Suc n \<le> 2 ^ d" unfolding c p [symmetric] by blast
  assume "n = u32 (2 ^ d) div 2 ^ k"
  then have n: "n = 2 ^ (d - k)" using c by simp
  then have "d - k < m" using assms(4) power_less_imp_less_exp [of 2 "d - k" m] by simp
  moreover have "2 ^ k * Suc n \<le> 2 ^ k * (2 * 2 ^ (d - k))" unfolding n by (intro mult_le_mono2) simp
  ultimately show "d < k + m \<and> 2 ^ k * Suc n \<le> 2 ^ Suc d" using assms(2) p by simp
qed

lemma directory_room:
  assumes "16 * n \<le> 2 ^ d" "4 \<le> d" "d \<le> 20" "n < 65536"
  shows "n = u32 (2 ^ d) div 16 \<Longrightarrow> d \<le> 19 \<and> 16 * Suc n \<le> 2 ^ Suc d" "n \<noteq> u32 (2 ^ d) div 16 \<Longrightarrow> 16 * Suc n \<le> 2 ^ d"
  using block_room [of 4 n d 16] assms by (simp_all add: less_Suc_eq_le [symmetric])

lemma values_room:
  assumes "4 * n \<le> 2 ^ d" "4 \<le> d" "d \<le> 12" "n < 1024"
  shows "n = u32 (2 ^ d) div 4 \<Longrightarrow> d \<le> 11 \<and> 4 * Suc n \<le> 2 ^ Suc d" "n \<noteq> u32 (2 ^ d) div 4 \<Longrightarrow> 4 * Suc n \<le> 2 ^ d"
  using block_room [of 2 n d 10] assms by (simp_all add: less_Suc_eq_le [symmetric])

lemma array_room:
  assumes "2 * n \<le> 2 ^ d" "4 \<le> d" "d \<le> 13" "n < 4096"
  shows "n = u32 (2 ^ d) div 2 \<Longrightarrow> d \<le> 12 \<and> 2 * Suc n \<le> 2 ^ Suc d" "n \<noteq> u32 (2 ^ d) div 2 \<Longrightarrow> 2 * Suc n \<le> 2 ^ d"
  using block_room [of 1 n d 12] assms by (simp_all add: less_Suc_eq_le [symmetric])

context block_lending begin

lemma push_container_ok:
  assumes "sound w" "lent w = add_mset (container_block c) (set_blocks s + R)" "directory_ok s" "container_ok c"
    and "\<forall>d\<in>set (rb_containers s). rc_key d < rc_key c" "arnm_roaring_push_container src s c w = (r, s', w')"
    and "rb_cardinality s + rc_cardinality c \<le> UINT32_MAX"
  shows "sound w'"
    "r \<noteq> ARNM_SUCCESS \<Longrightarrow> s' = s \<and> lent w' = lent w"
    "r = ARNM_SUCCESS \<Longrightarrow> lent w' = set_blocks s' + R \<and> rb_containers s' = rb_containers s @ [c] \<and> rb_count s' \<noteq> 0 \<and>
      rb_cardinality s' = rb_cardinality s \<and>
      directory_ok (s'\<lparr>rb_cardinality := rb_cardinality s + rc_cardinality c, rb_maximum := m\<rparr>)"
proof -
  note dir = assms(3) [unfolded directory_ok_def]
  have asc: "ascending (map rc_key (rb_containers s @ [c]))" using dir assms(5) by (simp add: sorted_wrt_append)
  have all: "\<forall>d\<in>set (rb_containers s @ [c]). container_ok d" using dir assms(4) by auto
  have count: "rb_count s < 65536" using keys_length [OF asc all] dir by simp
  then have inc: "u32 (rb_count s + 1) = Suc (rb_count s)" by (simp add: UINT32_MAX_def)
  have card: "length (concat (map container_elems (rb_containers s @ [c]))) = rb_cardinality s + rc_cardinality c"
    using dir assms(4) by (simp add: container_elems_def container_ok_def)
  define push where "push = (\<lambda>s :: roaring_bitmap. s\<lparr>rb_containers := rb_containers s @ [c], rb_count := u32 (rb_count s + 1)\<rparr>)"
  have pushed: "directory_ok (push (s\<lparr>rb_block := b, rb_directory_log2 := d\<rparr>)\<lparr>rb_cardinality := rb_cardinality s + rc_cardinality c, rb_maximum := m\<rparr>)"
    if "b \<noteq> NULL" "16 * Suc (rb_count s) \<le> 2 ^ d" "4 \<le> d" "d \<le> 20" for b d
    using that dir asc all card inc assms(7) by (simp add: directory_ok_def push_def)
  define full where "full \<longleftrightarrow> rb_count s = (if rb_block s \<noteq> NULL then u32 (2 ^ rb_directory_log2 s) div 16 else 0)"
  have run: "arnm_roaring_push_container src s c w =
     (if full then
        case bs_alloc src (if rb_block s \<noteq> NULL then u8 (rb_directory_log2 s + 1) else 4) w of
          (result, block, w) \<Rightarrow>
            if result \<noteq> ARNM_SUCCESS then (result, s, w)
            else (ARNM_SUCCESS, push (s\<lparr>rb_block := block,
                rb_directory_log2 := (if rb_block s \<noteq> NULL then u8 (rb_directory_log2 s + 1) else 4)\<rparr>),
              if rb_block s \<noteq> NULL then bs_free src (rb_block s) (rb_directory_log2 s) w else w)
      else (ARNM_SUCCESS, push s, w))"
    unfolding arnm_roaring_push_container_def push_def full_def Let_def SIZEOF_ROARING_CONTAINER_def
      ROARING_DIRECTORY_LOG2_FIRST_def by (rule refl)
  have "sound w' \<and> (r \<noteq> ARNM_SUCCESS \<longrightarrow> s' = s \<and> lent w' = lent w) \<and>
    (r = ARNM_SUCCESS \<longrightarrow> lent w' = set_blocks s' + R \<and> rb_containers s' = rb_containers s @ [c] \<and> rb_count s' \<noteq> 0 \<and>
      rb_cardinality s' = rb_cardinality s \<and>
      directory_ok (s'\<lparr>rb_cardinality := rb_cardinality s + rc_cardinality c, rb_maximum := m\<rparr>))"
  proof (cases full)
    case True
    let ?l = "if rb_block s \<noteq> NULL then u8 (rb_directory_log2 s + 1) else 4"
    obtain r1 b w1 where al: "bs_alloc src ?l w = (r1, b, w1)" by (metis prod_cases3)
    note law = alloc_law [OF assms(1) al]
    show ?thesis
    proof (cases "r1 = ARNM_SUCCESS")
      case ok: True
      have l: "16 * Suc (rb_count s) \<le> 2 ^ ?l \<and> 4 \<le> ?l \<and> ?l \<le> 20"
        using directory_room(1) [of "rb_count s" "rb_directory_log2 s"] dir count True
        by (cases "rb_block s = NULL") (auto simp: full_def)
      have b: "b \<noteq> NULL" "sound w1" "lent w1 = add_mset (b, ?l) (lent w)" using law ok by simp_all
      let ?s = "push (s\<lparr>rb_block := b, rb_directory_log2 := ?l\<rparr>)"
      let ?w = "if rb_block s \<noteq> NULL then bs_free src (rb_block s) (rb_directory_log2 s) w1 else w1"
      have out: "r = ARNM_SUCCESS" "s' = ?s" "w' = ?w" using assms(6) run True al ok by simp_all
      have blocks: "set_blocks ?s = add_mset (b, ?l) (add_mset (container_block c) (image_mset container_block (mset (rb_containers s))))"
        using b(1) by (simp add: set_blocks_def push_def)
      have "sound ?w \<and> lent ?w = set_blocks ?s + R"
      proof (cases "rb_block s = NULL")
        case True
        then show ?thesis using b assms(2) blocks by (simp add: set_blocks_def)
      next
        case False
        then have "lent w1 = add_mset (rb_block s, rb_directory_log2 s) (set_blocks ?s + R)"
          unfolding b(3) assms(2) blocks by (simp add: set_blocks_def)
        from free_back [OF b(2) this] show ?thesis using False by simp
      qed
      moreover have "rb_containers ?s = rb_containers s @ [c]" "rb_count ?s \<noteq> 0" "rb_cardinality ?s = rb_cardinality s"
        using inc by (simp_all add: push_def)
      moreover have "directory_ok (?s\<lparr>rb_cardinality := rb_cardinality s + rc_cardinality c, rb_maximum := m\<rparr>)"
        by (rule pushed) (use b(1) l in simp_all)
      ultimately show ?thesis unfolding out by blast
    next
      case False
      then show ?thesis using assms(6) run True al law by simp
    qed
  next
    case False
    then have room: "rb_block s \<noteq> NULL" "16 * Suc (rb_count s) \<le> 2 ^ rb_directory_log2 s"
      "4 \<le> rb_directory_log2 s" "rb_directory_log2 s \<le> 20"
      using directory_room(2) [of "rb_count s" "rb_directory_log2 s"] dir count by (auto simp: full_def split: if_splits)
    have out: "r = ARNM_SUCCESS" "s' = push s" "w' = w" using assms(6) run False by simp_all
    have "s = s\<lparr>rb_block := rb_block s, rb_directory_log2 := rb_directory_log2 s\<rparr>" by simp
    then have "directory_ok (push s\<lparr>rb_cardinality := rb_cardinality s + rc_cardinality c, rb_maximum := m\<rparr>)"
      using pushed [OF room] by simp
    then show ?thesis using assms(1,2) inc by (simp add: out) (simp add: push_def set_blocks_def)
  qed
  then show "sound w'" "r \<noteq> ARNM_SUCCESS \<Longrightarrow> s' = s \<and> lent w' = lent w"
    "r = ARNM_SUCCESS \<Longrightarrow> lent w' = set_blocks s' + R \<and> rb_containers s' = rb_containers s @ [c] \<and> rb_count s' \<noteq> 0 \<and>
      rb_cardinality s' = rb_cardinality s \<and>
      directory_ok (s'\<lparr>rb_cardinality := rb_cardinality s + rc_cardinality c, rb_maximum := m\<rparr>)" by simp_all
qed

end

lemma log2_from_bounds:
  "l \<le> k \<Longrightarrow> nbytes \<le> 2 ^ k \<Longrightarrow>
    nbytes \<le> 2 ^ arnm_roaring_log2_from l nbytes \<and> l \<le> arnm_roaring_log2_from l nbytes \<and> arnm_roaring_log2_from l nbytes \<le> k"
proof (induction l nbytes rule: arnm_roaring_log2_from.induct)
  case (1 l nbytes)
  show ?case
  proof (cases "2 ^ l < nbytes")
    case True
    then have "(2::nat) ^ l < 2 ^ k" using 1(3) by (rule less_le_trans)
    then have "l + 1 \<le> k" using power_less_imp_less_exp [of 2 l k] by simp
    from 1(1) [OF True this 1(3)] True show ?thesis by (subst (1 2 3) arnm_roaring_log2_from.simps) simp
  qed (use 1(2) in \<open>simp add: arnm_roaring_log2_from.simps [of l nbytes]\<close>)
qed

lemma log2_for_bytes:
  assumes "nbytes \<le> 2 ^ k" "4 \<le> k"
  shows "nbytes \<le> 2 ^ arnm_roaring_log2_for_bytes nbytes" "4 \<le> arnm_roaring_log2_for_bytes nbytes"
    "arnm_roaring_log2_for_bytes nbytes \<le> k"
  using log2_from_bounds [OF assms(2,1)] by (simp_all add: arnm_roaring_log2_for_bytes_def ROARING_ARRAY_LOG2_FIRST_def)

text \<open>A set of containers that is being built in the order of the keys: all its keys are below \<open>bound\<close>.\<close>

definition building :: "nat \<Rightarrow> roaring_bitmap \<Rightarrow> bool" where
  "building bound s \<longleftrightarrow> directory_ok s \<and> (elems s \<noteq> [] \<longrightarrow> rb_maximum s = last (elems s)) \<and>
    (\<forall>c\<in>set (rb_containers s). rc_key c < bound)"

lemma directory_elems: "directory_ok s \<Longrightarrow> elems s = concat (map container_elems (rb_containers s))"
  by (auto simp: directory_ok_def elems_def)

lemma building_mono: "building b s \<Longrightarrow> b \<le> c \<Longrightarrow> building c s"
  by (fastforce simp: building_def)

lemma building_zero [simp]: "building b zero_roaring"
  by (simp add: building_def zero_roaring_def directory_ok_def elems_def)

lemma building_roaring_ok: "building b s \<Longrightarrow> roaring_ok s"
proof -
  assume b: "building b s"
  show ?thesis
  proof (cases "rb_count s = 0")
    case True
    then have "rb_containers s = []" "rb_values s = []" "rb_block s = NULL" "rb_cardinality s = 0"
      using b by (auto simp: building_def directory_ok_def split: if_splits)
    then show ?thesis using b True by (simp add: roaring_ok_def values_ok_def building_def)
  next
    case False
    then show ?thesis using b by (simp add: building_def roaring_ok_def)
  qed
qed


text \<open>A container pushed at the end of what is being built.\<close>

lemma clz_top:
  assumes "x \<noteq> 0"
  shows "bit x (63 - arnm_clzll x)" "bit x b \<Longrightarrow> b \<le> 63 - arnm_clzll x" "arnm_clzll x \<le> 63"
proof -
  let ?P = "\<lambda>i. \<not> bit x (63 - i)"
  have "\<exists>b. bit x b" using assms by (metis bit_eqI bit_0_eq bot_apply bot_bool_def)
  then obtain b where b: "bit x b" "b < 64" using bit_less_64 by blast
  have ex: "63 - b \<in> set [0..<64] \<and> \<not> ?P (63 - b)" using b by simp
  then have less: "length (takeWhile ?P [0..<64]) < 64"
    by (metis (no_types, lifting) length_takeWhile_le length_upt diff_zero le_neq_implies_less takeWhile_eq_all_conv takeWhile_eq_take take_all_iff)
  then show "arnm_clzll x \<le> 63" by (simp add: arnm_clzll_def)
  show "bit x (63 - arnm_clzll x)"
    using less nth_length_takeWhile [of ?P "[0..<64]"] by (simp add: arnm_clzll_def)
  show "b \<le> 63 - arnm_clzll x" if "bit x b" for b
  proof (rule ccontr)
    assume n: "\<not> b \<le> 63 - arnm_clzll x"
    have b: "b < 64" using bit_less_64 [OF that] .
    then have lt: "63 - b < length (takeWhile ?P [0..<64])" using n by (simp add: arnm_clzll_def)
    then have "takeWhile ?P [0..<64] ! (63 - b) = 63 - b" using less by (simp add: takeWhile_nth)
    then have "?P (63 - b)" using lt by (metis nth_mem set_takeWhileD)
    then show False using that b by simp
  qed
qed

lemma top_word_spec:
  "\<exists>i\<le>n. words ! i \<noteq> 0 \<Longrightarrow> top_word words n \<le> n \<and> words ! top_word words n \<noteq> 0 \<and> (\<forall>j. top_word words n < j \<and> j \<le> n \<longrightarrow> words ! j = 0)"
  by (induction n) (auto simp: le_Suc_eq)

lemma last_ascending: "ascending xs \<Longrightarrow> x \<in> set xs \<Longrightarrow> (\<And>y. y \<in> set xs \<Longrightarrow> y \<le> x) \<Longrightarrow> last xs = x"
proof -
  assume a: "ascending xs" "x \<in> set xs" "\<And>y. y \<in> set xs \<Longrightarrow> y \<le> x"
  then have "last xs \<in> set xs" by (intro last_in_set) auto
  moreover obtain i where "i < length xs" "xs ! i = x" using a(2) by (auto simp: in_set_conv_nth)
  then have "x \<le> last xs" using ascending_nth_le [OF a(1), of i "length xs - 1"] by (cases xs rule: rev_cases) (auto simp: last_conv_nth)
  ultimately show ?thesis using a(3) by (meson le_antisym)
qed

lemma or_sum: "b < 64 \<Longrightarrow> push_bit 6 u OR b = 64 * u + b" for u b :: nat
proof -
  assume "b < 64"
  then have "take_bit 6 b = b" by (simp add: take_bit_nat_eq_self)
  then have "push_bit 6 u AND b = 0"
    by (intro bit_eqI) (metis bit_and_iff bit_push_bit_iff bit_take_bit_iff bit_0_eq bot_apply bot_bool_def not_less)
  then have "push_bit 6 u OR b = push_bit 6 u + b" by (simp add: disjunctive_add_eq_or)
  then show ?thesis by (simp add: push_bit_eq_mult)
qed

lemma in_bits_at:
  "b < 64 \<Longrightarrow> 64 * u + b \<in> set (bits_from f xs) \<longleftrightarrow> f \<le> u \<and> u < f + length xs \<and> bit (xs ! (u - f)) b"
  unfolding in_bits_from by simp

text \<open>The highest value of a run of words, the way \<open>emit_words\<close> finds it.\<close>

lemma top_value:
  assumes "bits_from first words \<noteq> []"
  defines "i \<equiv> top_word words (length words - 1)"
  shows "push_bit 6 (first + i) OR (63 - arnm_clzll (words ! i)) = last (bits_from first words)"
proof -
  have ne: "words \<noteq> []" using assms(1) by auto
  have "\<exists>j\<le>length words - 1. words ! j \<noteq> 0"
  proof -
    obtain v where v: "v \<in> set (bits_from first words)" using assms(1) by (cases "bits_from first words") auto
    then show ?thesis by (intro exI [of _ "v div 64 - first"]) (auto simp: in_bits_from)
  qed
  from top_word_spec [OF this] have i: "i < length words" "words ! i \<noteq> 0" "\<And>j. i < j \<Longrightarrow> j < length words \<Longrightarrow> words ! j = 0"
    using ne by (auto simp: i_def less_eq_iff_succ_less Suc_le_eq intro: le_less_trans)
  let ?b = "63 - arnm_clzll (words ! i)"
  have b: "bit (words ! i) ?b" "?b < 64" using clz_top(1) [OF i(2)] by simp_all
  have "64 * (first + i) + ?b \<in> set (bits_from first words)" unfolding in_bits_at [OF b(2)] using i(1) b by simp
  moreover have "v \<le> 64 * (first + i) + ?b" if v: "v \<in> set (bits_from first words)" for v
  proof -
    have "v div 64 - first < length words" "first \<le> v div 64" "bit (words ! (v div 64 - first)) (v mod 64)"
      using v by (auto simp: in_bits_from)
    then have "v div 64 - first \<le> i" using i(3) [of "v div 64 - first"] by (cases "v div 64 - first \<le> i") auto
    then consider "v div 64 < first + i" | "v div 64 = first + i" using \<open>first \<le> v div 64\<close> by linarith
    then show ?thesis
    proof cases
      case 1
      then have "v < 64 * (first + i)" by (simp add: div_less_iff_less_mult mult.commute)
      then show ?thesis by simp
    next
      case 2
      then have "v mod 64 \<le> ?b" using v clz_top(2) [OF i(2)] by (auto simp: in_bits_from)
      moreover have "v = 64 * (first + i) + v mod 64" using mult_div_mod_eq [of 64 v] 2 by simp
      ultimately show ?thesis by linarith
    qed
  qed
  ultimately have "last (bits_from first words) = 64 * (first + i) + ?b"
    by (intro last_ascending [OF bits_from_ascending]) 
  then show ?thesis using or_sum [OF b(2)] by simp
qed

context block_lending begin

lemma push_built:
  assumes "sound w" "lent w = add_mset (container_block c) (set_blocks s + R)" "building (rc_key c) s" "container_ok c"
    and "arnm_roaring_push_container src s c w = (r, s', w')" "rb_cardinality s \<le> UINT32_MAX - rc_cardinality c"
    "rc_cardinality c \<le> UINT32_MAX" "m = last (container_elems c)"
  defines "t \<equiv> s'\<lparr>rb_cardinality := u32 (rb_cardinality s' + rc_cardinality c), rb_maximum := m\<rparr>"
  shows "sound w'" "r \<noteq> ARNM_SUCCESS \<Longrightarrow> s' = s \<and> lent w' = lent w"
    "r = ARNM_SUCCESS \<Longrightarrow> lent w' = set_blocks t + R \<and> building (Suc (rc_key c)) t \<and> elems t = elems s @ container_elems c"
proof -
  have d: "directory_ok s" "\<forall>d\<in>set (rb_containers s). rc_key d < rc_key c" using assms(3) by (simp_all add: building_def)
  have "rb_cardinality s + rc_cardinality c \<le> UINT32_MAX" using assms(6,7) by simp
  note push = push_container_ok [OF assms(1,2) d(1) assms(4) d(2) assms(5) this]
  show "sound w'" "r \<noteq> ARNM_SUCCESS \<Longrightarrow> s' = s \<and> lent w' = lent w" using push by simp_all
  assume ok: "r = ARNM_SUCCESS"
  note p = push(3) [OF ok, of m]
  have "u32 (rb_cardinality s' + rc_cardinality c) = rb_cardinality s + rc_cardinality c"
    using p assms(6,7) by (simp add: size_simps) 
  then have t: "t = s'\<lparr>rb_cardinality := rb_cardinality s + rc_cardinality c, rb_maximum := m\<rparr>" by (simp add: t_def)
  have "directory_ok t" using p by (simp add: t)
  moreover have e: "elems t = elems s @ container_elems c"
    using directory_elems [OF \<open>directory_ok t\<close>] directory_elems [OF d(1)] p by (simp add: t)
  moreover have "container_elems c \<noteq> []" using assms(4) by (simp add: container_ok_def container_elems_def)
  then have "rb_maximum t = last (elems t)" using e assms(8) by (simp add: t)
  moreover have "\<forall>d\<in>set (rb_containers t). rc_key d < Suc (rc_key c)" using d(2) p by (auto simp: t)
  ultimately show "lent w' = set_blocks t + R \<and> building (Suc (rc_key c)) t \<and> elems t = elems s @ container_elems c"
    using p by (simp add: building_def t set_blocks_def)
qed

text \<open>What every routine that adds to a set under construction does.\<close>

abbreviation emits :: "nat \<Rightarrow> (addr \<times> nat) multiset \<Rightarrow> nat list \<Rightarrow> roaring_bitmap \<Rightarrow> arnm_result \<Rightarrow> roaring_bitmap \<Rightarrow> 'w \<Rightarrow> bool" where
  "emits bound R vs s r s' w' \<equiv> sound w' \<and> lent w' = set_blocks s' + R \<and> building bound s' \<and>
    (if r = ARNM_SUCCESS then elems s' = elems s @ vs else s' = s)"

lemma emit_array_ok:
  assumes "sound w" "lent w = set_blocks out + R" "building key out" "key < 65536"
    and "ascending vs" "\<forall>x\<in>set vs. x < 65536" "length vs \<le> ARNM_ROARING_ARRAY_MAX"
    and "arnm_roaring_emit_array src out key vs w = (r, out', w')"
  shows "emits (Suc key) R (map (arnm_roaring_value_of key) vs) out r out' w'"
proof -
  have grown: "building (Suc key) out" using building_mono [OF assms(3)] by simp
  show ?thesis
  proof (cases "vs = [] \<or> rb_cardinality out > UINT32_MAX - length vs")
    case True
    then show ?thesis using assms(1,2,8) grown by (cases "vs = []") (simp_all add: arnm_roaring_emit_array_def Let_def)
  next
    case False
    have len: "length vs \<le> 4096" using assms(7) by (simp add: ARNM_ROARING_ARRAY_MAX_def)
    let ?l = "arnm_roaring_log2_for_bytes (u32 (length vs * 2))"
    have u: "u32 (length vs * 2) = length vs * 2" using len by (simp add: UINT32_MAX_def)
    have l: "length vs * 2 \<le> 2 ^ ?l" "4 \<le> ?l" "?l \<le> 13" unfolding u using log2_for_bytes [of "length vs * 2" 13] len by simp_all
    obtain r1 b w1 where al: "bs_alloc src ?l w = (r1, b, w1)" by (metis prod_cases3)
    note law = alloc_law [OF assms(1) al]
    show ?thesis
    proof (cases "r1 = ARNM_SUCCESS")
      case ok: True
      let ?c = "zero_container\<lparr>rc_data := b, rc_array := vs, rc_key := key, rc_kind := ARNM_ROARING_ARRAY,
          rc_block_log2 := ?l, rc_cardinality := length vs\<rparr>"
      obtain r2 s2 w2 where push: "arnm_roaring_push_container src out ?c w1 = (r2, s2, w2)" by (metis prod_cases3)
      have cok: "container_ok ?c" using False assms(4-7) l by (simp add: container_ok_def lows_def zero_container_def)
      have el: "container_elems ?c = map (arnm_roaring_value_of key) vs" by (simp add: container_elems_def lows_def zero_container_def)
      have held: "sound w1" "lent w1 = add_mset (container_block ?c) (set_blocks out + R)"
        using law ok assms(2) by (simp_all add: container_block_def)
      have m: "arnm_roaring_value_of key (vs ! (length vs - 1)) = last (container_elems ?c)"
        using False by (simp add: el last_conv_nth last_map)
      note built = push_built [OF held _ cok push, where m = "arnm_roaring_value_of key (vs ! (length vs - 1))"]
      have c0: "building (rc_key ?c) out" "rb_cardinality out \<le> UINT32_MAX - rc_cardinality ?c" "rc_cardinality ?c \<le> UINT32_MAX"
        using assms(3) False len by (simp_all add: UINT32_MAX_def)
      note built = built [OF c0 m]
      show ?thesis
      proof (cases "r2 = ARNM_SUCCESS")
        case True
        then show ?thesis
          using built assms(8) False al ok push by (simp add: arnm_roaring_emit_array_def Let_def el)
      next
        case bad: False
        have "lent w2 = add_mset (b, ?l) (set_blocks out + R)" using built(2) [OF bad] held(2) by (simp add: container_block_def)
        from free_back [OF built(1) this] show ?thesis
          using built(2) [OF bad] assms(8) False al ok push bad grown by (simp add: arnm_roaring_emit_array_def Let_def)
      qed
    next
      case bad: False
      then show ?thesis using law assms(2,8) False al grown by (simp add: arnm_roaring_emit_array_def Let_def)
    qed
  qed
qed

end

lemma emit_bits: "concat (map (\<lambda>i. word_emit i (xs ! (i - f))) [f..<f + length xs]) = bits_from f xs"
proof (induction xs arbitrary: f)
  case (Cons x xs)
  have "map (\<lambda>i. word_emit i ((x # xs) ! (i - f))) [Suc f..<Suc f + length xs] =
      map (\<lambda>i. word_emit i (xs ! (i - Suc f))) [Suc f..<Suc f + length xs]"
    by (intro map_cong) (auto simp: nth_Cons' Suc_diff_Suc)
  then have rest: "concat (map (\<lambda>i. word_emit i ((x # xs) ! (i - f))) [Suc f..<Suc f + length xs]) = bits_from (Suc f) xs"
    using Cons.IH [of "Suc f"] by (simp only:)
  have "[f..<f + length (x # xs)] = f # [Suc f..<Suc f + length xs]" by (simp add: upt_conv_Cons del: upt_Suc)
  then have "concat (map (\<lambda>i. word_emit i ((x # xs) ! (i - f))) [f..<f + length (x # xs)]) =
      word_emit f x @ concat (map (\<lambda>i. word_emit i ((x # xs) ! (i - f))) [Suc f..<Suc f + length xs])"
    by (simp del: upt_Suc)
  then show ?case unfolding rest by (simp add: word_emit_bits)
qed simp

lemma bits_padded: "bits_from 0 (replicate f 0 @ words @ replicate n 0) = bits_from f words"
  by (simp add: bits_from_append bits_from_zeros)

context block_lending begin

lemma emit_words_ok:
  assumes "sound w" "lent w = set_blocks out + R" "building key out" "key < 65536"
    and "length words = Suc (fin - first)" "first \<le> fin" "fin < ARNM_ROARING_BITMAP_WORDS"
    and "cardinality = length (bits_from first words)"
    and "arnm_roaring_emit_words src out key words first fin cardinality w = (r, out', w')"
  shows "emits (Suc key) R (map (arnm_roaring_value_of key) (bits_from first words)) out r out' w'"
proof -
  have grown: "building (Suc key) out" using building_mono [OF assms(3)] by simp
  have low: "x < 65536" if "x \<in> set (bits_from first words)" for x
    using bits_from_bounds [OF that] assms(5-7) by (simp add: ARNM_ROARING_BITMAP_WORDS_def)
  have run: "concat (map (\<lambda>i. word_emit i (words ! (i - first))) [first..<Suc fin]) = bits_from first words"
    using emit_bits [of words first] assms(5,6) by simp
  show ?thesis
  proof (cases "cardinality \<le> ARNM_ROARING_ARRAY_MAX")
    case True
    show ?thesis
    proof (cases "cardinality = 0")
      case True
      then show ?thesis using assms(1,2,8,9) grown by (simp add: arnm_roaring_emit_words_def)
    next
      case False
      then have "arnm_roaring_emit_array src out key (bits_from first words) w = (r, out', w')"
        using assms(9) True by (simp only: arnm_roaring_emit_words_def run if_False if_True)
      from emit_array_ok [OF assms(1-4) bits_from_ascending _ _ this] show ?thesis
        using True assms(8) low by simp
    qed
  next
    case large: False
    then have ne: "cardinality \<noteq> 0" "bits_from first words \<noteq> []" using assms(8) by (auto simp: ARNM_ROARING_ARRAY_MAX_def)
    have card: "cardinality \<le> 65536" unfolding assms(8) by (rule ascending_length) (use low in auto)
    show ?thesis
    proof (cases "rb_cardinality out > UINT32_MAX - cardinality")
      case True
      then show ?thesis using assms(1,2,9) large ne(1) grown by (simp add: arnm_roaring_emit_words_def)
    next
      case few: False
      obtain r1 b w1 where al: "bs_alloc src ROARING_BITMAP_LOG2 w = (r1, b, w1)" by (metis prod_cases3)
      note law = alloc_law [OF assms(1) al]
      show ?thesis
      proof (cases "r1 = ARNM_SUCCESS")
        case ok: True
        let ?c = "zero_container\<lparr>rc_data := b,
            rc_words := replicate first 0 @ words @ replicate (ARNM_ROARING_BITMAP_WORDS - Suc fin) 0,
            rc_key := key, rc_kind := ARNM_ROARING_BITMAP, rc_block_log2 := ROARING_BITMAP_LOG2, rc_cardinality := cardinality\<rparr>"
        have lo: "lows ?c = bits_from first words" by (simp add: lows_def zero_container_def bits_padded)
        have el: "container_elems ?c = map (arnm_roaring_value_of key) (bits_from first words)"
          unfolding container_elems_def lo by simp
        obtain r2 s2 w2 where push: "arnm_roaring_push_container src out ?c w1 = (r2, s2, w2)" by (metis prod_cases3)
        have cok: "container_ok ?c"
          using assms(4-8) ne unfolding container_ok_def lo by (simp add: zero_container_def ROARING_BITMAP_LOG2_def)
        have held: "sound w1" "lent w1 = add_mset (container_block ?c) (set_blocks out + R)"
          using law ok assms(2) by (simp_all add: container_block_def)
        let ?i = "top_word words (fin - first)"
        have "push_bit 6 (first + ?i) OR (63 - arnm_clzll (words ! ?i)) = last (bits_from first words)"
          using top_value [OF ne(2)] assms(5) by simp
        then have m: "arnm_roaring_value_of key (push_bit 6 (first + ?i) OR (63 - arnm_clzll (words ! ?i))) = last (container_elems ?c)"
          using ne(2) by (simp add: el last_map)
        have c0: "building (rc_key ?c) out" "rb_cardinality out \<le> UINT32_MAX - rc_cardinality ?c" "rc_cardinality ?c \<le> UINT32_MAX"
          using assms(3) few card by (simp_all add: UINT32_MAX_def)
        note built = push_built [OF held c0(1) cok push c0(2,3) m]
        show ?thesis
        proof (cases "r2 = ARNM_SUCCESS")
          case True
          then show ?thesis
            using built assms(9) large few ne al ok push by (simp add: arnm_roaring_emit_words_def Let_def el)
        next
          case bad: False
          have "lent w2 = add_mset (b, ROARING_BITMAP_LOG2) (set_blocks out + R)"
            using built(2) [OF bad] held(2) by (simp add: container_block_def)
          from free_back [OF built(1) this] show ?thesis
            using built(2) [OF bad] assms(9) large few ne al ok push bad grown by (simp add: arnm_roaring_emit_words_def Let_def)
        qed
      next
        case False
        then show ?thesis using law assms(2,9) large few ne al grown by (simp add: arnm_roaring_emit_words_def)
      qed
    qed
  qed
qed

lemma free_containers:
  assumes "sound w" "lent w = image_mset container_block (mset cs) + R"
  shows "sound (fold (\<lambda>c. bs_free src (rc_data c) (rc_block_log2 c)) cs w) \<and>
    lent (fold (\<lambda>c. bs_free src (rc_data c) (rc_block_log2 c)) cs w) = R"
  using assms
proof (induction cs arbitrary: w)
  case (Cons c cs)
  have "lent w = add_mset (rc_data c, rc_block_log2 c) (image_mset container_block (mset cs) + R)"
    using Cons.prems(2) by (simp add: container_block_def [of c])
  from free_back [OF Cons.prems(1) this] Cons.IH show ?case by simp
qed simp

lemma free_set_ok:
  assumes "sound w" "lent w = set_blocks s + R" "if rb_count s = 0 then rb_containers s = [] else rb_block s \<noteq> NULL"
  shows "fst (free_set src s w) = zero_roaring" "sound (snd (free_set src s w))" "lent (snd (free_set src s w)) = R"
proof -
  show "fst (free_set src s w) = zero_roaring" by (simp add: free_set_def)
  have "sound (snd (free_set src s w)) \<and> lent (snd (free_set src s w)) = R"
  proof (cases "rb_count s = 0")
    case True
    show ?thesis
    proof (cases "rb_block s = NULL")
      case True
      then show ?thesis using assms \<open>rb_count s = 0\<close> by (simp add: free_set_def arnm_roaring_is_sparse_def set_blocks_def)
    next
      case False
      then have "lent w = add_mset (rb_block s, rb_directory_log2 s) R" using assms True by (simp add: set_blocks_def)
      from free_back [OF assms(1) this] show ?thesis using True False by (simp add: free_set_def arnm_roaring_is_sparse_def)
    qed
  next
    case False
    then have "lent w = image_mset container_block (mset (rb_containers s)) + add_mset (rb_block s, rb_directory_log2 s) R"
      using assms by (simp add: set_blocks_def)
    from free_containers [OF assms(1) this] show ?thesis
      using False free_back by (simp add: free_set_def arnm_roaring_is_sparse_def)
  qed
  then show "sound (snd (free_set src s w))" "lent (snd (free_set src s w)) = R" by simp_all
qed

end

lemma building_freeable: "building b s \<Longrightarrow> if rb_count s = 0 then rb_containers s = [] else rb_block s \<noteq> NULL"
  by (auto simp: building_def directory_ok_def split: if_splits)

lemma roaring_freeable: "roaring_ok s \<Longrightarrow> if rb_count s = 0 then rb_containers s = [] else rb_block s \<noteq> NULL"
  by (auto simp: roaring_ok_def values_ok_def directory_ok_def split: if_splits)

lemma takeWhile_key:
  assumes "ascending vs" "vs \<noteq> []"
  defines "key \<equiv> arnm_roaring_key_of (hd vs)"
  shows "map (arnm_roaring_value_of key) (map arnm_roaring_low_of (takeWhile (\<lambda>v. arnm_roaring_key_of v = key) vs)) =
      takeWhile (\<lambda>v. arnm_roaring_key_of v = key) vs"
    "ascending (map arnm_roaring_low_of (takeWhile (\<lambda>v. arnm_roaring_key_of v = key) vs))"
    "dropWhile (\<lambda>v. arnm_roaring_key_of v = key) vs \<noteq> [] \<Longrightarrow>
      key < arnm_roaring_key_of (hd (dropWhile (\<lambda>v. arnm_roaring_key_of v = key) vs))"
proof -
  let ?t = "takeWhile (\<lambda>v. arnm_roaring_key_of v = key) vs"
  have mem: "arnm_roaring_value_of key (arnm_roaring_low_of v) = v" if "v \<in> set ?t" for v
    using set_takeWhileD [OF that] value_of_key_low [of v] by simp
  then show "map (arnm_roaring_value_of key) (map arnm_roaring_low_of ?t) = ?t"
    by (simp add: comp_def map_idI)
  have "ascending ?t" using assms(1) by (metis sorted_wrt_append takeWhile_dropWhile_id)
  then show "ascending (map arnm_roaring_low_of ?t)"
    unfolding sorted_wrt_map
  proof (rule sorted_wrt_mono_rel [rotated])
    fix u v assume "u \<in> set ?t" "v \<in> set ?t" "u < v"
    then show "arnm_roaring_low_of u < arnm_roaring_low_of v"
      using mem [of u] mem [of v] by (metis value_of_sum low_of_less nat_add_left_cancel_less)
  qed
  assume ne: "dropWhile (\<lambda>v. arnm_roaring_key_of v = key) vs \<noteq> []"
  then have neq: "arnm_roaring_key_of (hd (dropWhile (\<lambda>v. arnm_roaring_key_of v = key) vs)) \<noteq> key" by (rule hd_dropWhile)
  have "hd (dropWhile (\<lambda>v. arnm_roaring_key_of v = key) vs) \<in> set vs" using ne by (meson hd_in_set set_dropWhileD)
  moreover have "hd vs \<le> v" if "v \<in> set vs" for v using that assms(1,2) by (cases vs) auto
  ultimately show "key < arnm_roaring_key_of (hd (dropWhile (\<lambda>v. arnm_roaring_key_of v = key) vs))"
    using neq key_le unfolding key_def by (metis le_neq_implies_less)
qed


context block_lending begin

lemma values_to_containers_ok:
  assumes "sound w" "lent w = set_blocks out + R" "building (case vs of [] \<Rightarrow> 65536 | v # _ \<Rightarrow> arnm_roaring_key_of v) out"
    and "ascending vs" "\<forall>v\<in>set vs. v \<le> UINT32_MAX" "length vs \<le> ARNM_ROARING_ARRAY_MAX"
    and "arnm_roaring_values_to_containers src out vs w = (r, out', w')"
  shows "sound w' \<and> lent w' = set_blocks out' + R \<and> building 65536 out' \<and> (r = ARNM_SUCCESS \<longrightarrow> elems out' = elems out @ vs)"
  using assms
proof (induction "length vs" arbitrary: vs out w rule: less_induct)
  case less
  show ?case
  proof (cases "vs = []")
    case True
    then show ?thesis using less.prems by (simp add: arnm_roaring_values_to_containers.simps)
  next
    case False
    define key where "key = arnm_roaring_key_of (hd vs)"
    let ?P = "\<lambda>v. arnm_roaring_key_of v = key"
    let ?t = "takeWhile ?P vs" and ?d = "dropWhile ?P vs"
    have b: "building key out" using less.prems(3) False by (cases vs) (simp_all add: key_def)
    have "hd vs \<le> UINT32_MAX" using less.prems(5) False by simp
    then have key: "key < 65536" by (simp add: key_def key_of_div UINT32_MAX_def)
    note tk = takeWhile_key [OF less.prems(4) False, folded key_def]
    obtain r1 o1 w1 where emit: "arnm_roaring_emit_array src out key (map arnm_roaring_low_of ?t) w = (r1, o1, w1)"
      by (metis prod_cases3)
    have "length ?t \<le> ARNM_ROARING_ARRAY_MAX" using less.prems(6) length_takeWhile_le [of ?P vs] by simp
    then have e: "emits (Suc key) R ?t out r1 o1 w1"
      using emit_array_ok [OF less.prems(1,2) b key tk(2) _ _ emit, unfolded tk(1)] by simp
    have run: "arnm_roaring_values_to_containers src out vs w =
        (if r1 \<noteq> ARNM_SUCCESS then (r1, o1, w1) else arnm_roaring_values_to_containers src o1 ?d w1)"
      using False emit by (subst arnm_roaring_values_to_containers.simps) (simp add: key_def Let_def)
    have up: "building 65536 o1" using e building_mono key by (metis Suc_leI)
    show ?thesis
    proof (cases "r1 = ARNM_SUCCESS")
      case True
      have len: "length ?d < length vs"
        using False length_dropWhile_le [of ?P "tl vs"] by (cases vs) (auto simp: key_def less_Suc_eq_le)
      have "building (case ?d of [] \<Rightarrow> 65536 | v # _ \<Rightarrow> arnm_roaring_key_of v) o1"
      proof (cases ?d)
        case (Cons v vs')
        then show ?thesis using tk(3) e building_mono by (auto simp: Suc_le_eq)
      next
        case Nil
        show ?thesis unfolding Nil using up by simp
      qed
      moreover have "ascending ?d" using less.prems(4) by (metis sorted_wrt_append takeWhile_dropWhile_id)
      moreover have "\<forall>v\<in>set ?d. v \<le> UINT32_MAX" using less.prems(5) set_dropWhileD by fast
      moreover have "length ?d \<le> ARNM_ROARING_ARRAY_MAX" using len less.prems(6) by simp
      moreover have "arnm_roaring_values_to_containers src o1 ?d w1 = (r, out', w')" using run True less.prems(7) by simp
      ultimately have "sound w' \<and> lent w' = set_blocks out' + R \<and> building 65536 out' \<and>
          (r = ARNM_SUCCESS \<longrightarrow> elems out' = elems o1 @ ?d)"
        using less.hyps [OF len, of w1 o1] e by simp
      then show ?thesis using e True by simp
    next
      case False
      then show ?thesis using run e up less.prems(7) by simp
    qed
  qed
qed

lemma sparse_to_containers_ok:
  assumes "sound w" "lent w = set_blocks s + R" "values_ok s" "rb_count s = 0" "rb_block s \<noteq> NULL"
    and "sparse_to_containers src s w = (r, s', w')"
  shows "sound w' \<and> lent w' = set_blocks s' + R \<and> (if r = ARNM_SUCCESS then building 65536 s' \<and> elems s' = elems s else s' = s)"
proof -
  note v = assms(3) [unfolded values_ok_def]
  obtain r1 built w1 where run: "arnm_roaring_values_to_containers src zero_roaring (rb_values s) w = (r1, built, w1)"
    by (metis prod_cases3)
  have b: "sound w1 \<and> lent w1 = set_blocks built + lent w \<and> building 65536 built \<and>
      (r1 = ARNM_SUCCESS \<longrightarrow> elems built = elems zero_roaring @ rb_values s)"
    by (rule values_to_containers_ok [OF assms(1) _ _ _ _ _ run])
      (use v in \<open>simp_all add: ARNM_ROARING_SPARSE_MAX_def ARNM_ROARING_ARRAY_MAX_def\<close>)
  have held: "lent w = add_mset (rb_block s, rb_directory_log2 s) R" using assms(2,5) v by (simp add: set_blocks_def)
  show ?thesis
  proof (cases "r1 = ARNM_SUCCESS")
    case True
    have "lent w1 = add_mset (rb_block s, rb_directory_log2 s) (set_blocks built + R)" using b held by simp
    from free_back [OF _ this] show ?thesis
      using assms(4,6) run True b by (simp add: sparse_to_containers_def elems_def [of s])
  next
    case False
    note free = free_set_ok [OF _ _ building_freeable, of w1 built "lent w" 65536]
    have "sound (snd (free_set src built w1))" "lent (snd (free_set src built w1)) = lent w" using free(2,3) b by simp_all
    then show ?thesis using assms(2,6) run False by (simp add: sparse_to_containers_def)
  qed
qed

lemma values_result_ok:
  assumes "sound w" "lent w = R" "ascending vs" "\<forall>v\<in>set vs. v \<le> UINT32_MAX" "length vs \<le> ARNM_ROARING_ARRAY_MAX"
    and "arnm_roaring_values_result src zero_roaring vs w = (r, out, w')"
  shows "sound w' \<and> lent w' = set_blocks out + R \<and> roaring_ok out \<and> (r = ARNM_SUCCESS \<longrightarrow> elems out = vs)"
proof -
  consider "vs = []" | "length vs > ARNM_ROARING_SPARSE_MAX" | "vs \<noteq> []" "length vs \<le> ARNM_ROARING_SPARSE_MAX" by linarith
  then show ?thesis
  proof cases
    case 1
    then show ?thesis using assms by (simp add: arnm_roaring_values_result_def)
  next
    case 2
    moreover from 2 have "vs \<noteq> []" by auto
    ultimately have run: "arnm_roaring_values_to_containers src zero_roaring vs w = (r, out, w')"
      using assms(6) by (simp add: arnm_roaring_values_result_def Let_def)
    have "sound w' \<and> lent w' = set_blocks out + R \<and> building 65536 out \<and> (r = ARNM_SUCCESS \<longrightarrow> elems out = elems zero_roaring @ vs)"
      by (rule values_to_containers_ok [OF assms(1) _ _ assms(3-5) run]) (simp_all add: assms(2))
    then show ?thesis using building_roaring_ok by auto
  next
    case 3
    have len: "length vs \<le> 1024" using 3 by (simp add: ARNM_ROARING_SPARSE_MAX_def)
    let ?l = "arnm_roaring_log2_for_bytes (u32 (length vs * 4))"
    have u: "u32 (length vs * 4) = length vs * 4" using len by (simp add: UINT32_MAX_def)
    have l: "length vs * 4 \<le> 2 ^ ?l" "4 \<le> ?l" "?l \<le> 12" unfolding u using log2_for_bytes [of "length vs * 4" 12] len by simp_all
    obtain r1 b w1 where al: "bs_alloc src ?l w = (r1, b, w1)" by (metis prod_cases3)
    note law = alloc_law [OF assms(1) al]
    show ?thesis
    proof (cases "r1 = ARNM_SUCCESS")
      case True
      let ?s = "zero_roaring\<lparr>rb_block := b, rb_values := vs, rb_directory_log2 := ?l, rb_cardinality := length vs,
          rb_maximum := vs ! (length vs - 1)\<rparr>"
      have out: "r = ARNM_SUCCESS" "out = ?s" "w' = w1"
        using assms(6) 3 True al by (simp_all add: arnm_roaring_values_result_def Let_def)
      have "roaring_ok ?s"
        using assms(3,4) 3 l law True by (simp add: roaring_ok_def values_ok_def elems_def last_conv_nth) (simp add: zero_roaring_def)
      moreover have "elems ?s = vs" "set_blocks ?s = {#(b, ?l)#}"
        using law True by (simp_all add: elems_def set_blocks_def zero_roaring_def)
      ultimately show ?thesis using out law True assms(2) by simp
    next
      case False
      then show ?thesis
        using assms(2,6) 3 al law by (simp add: arnm_roaring_values_result_def Let_def)
    qed
  qed
qed

end

section \<open>Adding a value\<close>

lemma fold_set_bits:
  "(\<forall>x\<in>set xs. x div 64 < length words) \<Longrightarrow>
    set (bits_from 0 (fold (\<lambda>v words. set_bit_at words v) xs words)) = set xs \<union> set (bits_from 0 words) \<and>
    length (fold (\<lambda>v words. set_bit_at words v) xs words) = length words"
proof (induction xs arbitrary: words)
  case (Cons x xs)
  then show ?case using bits_set_bit(1) [of x words] Cons.IH [of "set_bit_at words x"] by auto
qed simp

lemma in_words: "x < 65536 \<Longrightarrow> x div 64 < 1024" for x :: nat
  by (simp add: less_mult_imp_div_less)

text \<open>A value above all the others: the array and the bitmap with it.\<close>

lemma ascending_snoc: "ascending xs \<Longrightarrow> \<forall>x\<in>set xs. x < v \<Longrightarrow> ascending (xs @ [v])"
  by (simp add: sorted_wrt_append)

lemma bits_with:
  assumes "length words = 1024" "ascending xs" "\<forall>x\<in>set xs. x < low" "low < 65536" "set xs = set (bits_from 0 words)"
  shows "bits_from 0 (set_bit_at words low) = xs @ [low]"
  by (rule ascending_eq [OF bits_from_ascending ascending_snoc [OF assms(2,3)]])
    (use bits_set_bit(1) [of low words] in_words [OF assms(4)] assms(1,5) in simp)

context block_lending begin

lemma add_to_last_ok:
  assumes "sound w" "lent w = add_mset (container_block c) R" "container_ok c" "\<forall>x\<in>set (lows c). x < low" "low < 65536"
    and "add_to_last src c low w = (r, c', w')"
  shows "sound w' \<and> (if r = ARNM_SUCCESS then lent w' = add_mset (container_block c') R \<and>
      container_ok (c'\<lparr>rc_cardinality := u32 (rc_cardinality c' + 1)\<rparr>) \<and> rc_key c' = rc_key c \<and> lows c' = lows c @ [low]
    else lent w' = lent w)"
proof -
  note ok = assms(3) [unfolded container_ok_def]
  have "length (lows c) \<le> 65536"
    by (rule ascending_length [OF lows_ascending(1) [OF assms(3)]]) (use lows_ascending(2) [OF assms(3)] in auto)
  then have inc: "u32 (rc_cardinality c + 1) = Suc (rc_cardinality c)" using ok by (simp add: UINT32_MAX_def)
  have held: "lent w = add_mset (rc_data c, rc_block_log2 c) R" using assms(2) by (simp add: container_block_def)
  show ?thesis
  proof (cases "rc_kind c")
    case ROARING_KIND_WIDE
    then show ?thesis using ok by simp
  next
    case ARNM_ROARING_BITMAP
    then have k: "lows c = bits_from 0 (rc_words c)" "length (rc_words c) = 1024"
      using ok by (simp_all add: lows_def ARNM_ROARING_BITMAP_WORDS_def)
    let ?c = "c\<lparr>rc_words := set_bit_at (rc_words c) low\<rparr>"
    have out: "r = ARNM_SUCCESS" "c' = ?c" "w' = w" using assms(6) ARNM_ROARING_BITMAP by (simp_all add: add_to_last_def)
    have lo: "lows ?c = lows c @ [low]"
      using bits_with [OF k(2) lows_ascending(1) [OF assms(3)] assms(4,5)] k ARNM_ROARING_BITMAP by (simp add: lows_def)
    have "container_ok (?c\<lparr>rc_cardinality := u32 (rc_cardinality ?c + 1)\<rparr>)"
      using ok ARNM_ROARING_BITMAP inc lo by (simp add: container_ok_def)
    then show ?thesis using out assms(1,2) lo by (simp add: container_block_def)
  next
    case ARNM_ROARING_ARRAY
    then have lc: "lows c = rc_array c" by (simp add: lows_def)
    have arr: "ascending (rc_array c)" "\<forall>x\<in>set (rc_array c). x < 65536" "length (rc_array c) \<le> 4096"
      "2 * length (rc_array c) \<le> 2 ^ rc_block_log2 c" "4 \<le> rc_block_log2 c" "rc_block_log2 c \<le> 13"
      "rc_cardinality c = length (rc_array c)" "rc_key c < 65536"
      using ok ARNM_ROARING_ARRAY lc by (simp_all add: ARNM_ROARING_ARRAY_MAX_def)
    have snoc: "ascending (rc_array c @ [low])" using ascending_snoc [OF arr(1)] assms(4) lc by simp
    show ?thesis
    proof (cases "rc_cardinality c = ARNM_ROARING_ARRAY_MAX")
      case full: True
      then have run: "array_to_bitmap src c low w = (r, c', w')" using assms(6) ARNM_ROARING_ARRAY by (simp add: add_to_last_def Let_def)
      obtain r1 b w1 where al: "bs_alloc src ROARING_BITMAP_LOG2 w = (r1, b, w1)" by (metis prod_cases3)
      note law = alloc_law [OF assms(1) al]
      show ?thesis
      proof (cases "r1 = ARNM_SUCCESS")
        case True
        let ?words = "fold (\<lambda>v words. set_bit_at words v) (rc_array c) (replicate ARNM_ROARING_BITMAP_WORDS 0)"
        let ?c = "c\<lparr>rc_array := [], rc_words := set_bit_at ?words low, rc_data := b, rc_block_log2 := ROARING_BITMAP_LOG2,
            rc_kind := ARNM_ROARING_BITMAP\<rparr>"
        have out: "r = ARNM_SUCCESS" "c' = ?c" "w' = bs_free src (rc_data c) (rc_block_log2 c) w1"
          using run al True by (simp_all add: array_to_bitmap_def Let_def)
        have words: "set (bits_from 0 ?words) = set (rc_array c)" "length ?words = 1024"
          using fold_set_bits [of "rc_array c" "replicate ARNM_ROARING_BITMAP_WORDS 0"] arr(2) in_words
          by (auto simp: bits_from_zeros ARNM_ROARING_BITMAP_WORDS_def)
        have lo: "lows ?c = lows c @ [low]"
          using bits_with [OF words(2) arr(1) _ assms(5) words(1) [symmetric]] assms(4) lc by (simp add: lows_def)
        have "container_ok (?c\<lparr>rc_cardinality := u32 (rc_cardinality ?c + 1)\<rparr>)"
          using ok inc lo words(2) by (simp add: container_ok_def ROARING_BITMAP_LOG2_def ARNM_ROARING_BITMAP_WORDS_def)
        moreover have "lent w1 = add_mset (rc_data c, rc_block_log2 c) (add_mset (b, ROARING_BITMAP_LOG2) R)"
          using law True held by simp
        from free_back [OF _ this] have "sound w' \<and> lent w' = add_mset (b, ROARING_BITMAP_LOG2) R" using law out by simp
        ultimately show ?thesis using out(1,2) lo by (simp add: container_block_def)
      next
        case False
        then show ?thesis using run al law by (simp add: array_to_bitmap_def)
      qed
    next
      case room: False
      then have n: "length (rc_array c) < 4096" using arr(3,7) by (simp add: ARNM_ROARING_ARRAY_MAX_def)
      note space = array_room [OF arr(4-6) n]
      have fine: "container_ok (d\<lparr>rc_cardinality := u32 (rc_cardinality d + 1)\<rparr>) \<and> lows d = lows c @ [low]"
        if "d = c\<lparr>rc_data := b, rc_block_log2 := l, rc_array := rc_array c @ [low]\<rparr>" "2 * Suc (length (rc_array c)) \<le> 2 ^ l" "4 \<le> l" "l \<le> 13"
        for d b l
      proof -
        have e: "lows (d\<lparr>rc_cardinality := k\<rparr>) = rc_array c @ [low]" "lows d = rc_array c @ [low]" for k
          using that(1) ARNM_ROARING_ARRAY by (simp_all add: lows_def)
        show ?thesis
          unfolding container_ok_def e
          using that arr snoc n inc assms(5) ARNM_ROARING_ARRAY by (simp add: lc ARNM_ROARING_ARRAY_MAX_def)
      qed
      show ?thesis
      proof (cases "rc_cardinality c = u32 (2 ^ rc_block_log2 c) div 2")
        case True
        let ?l = "u8 (rc_block_log2 c + 1)"
        have l: "?l = Suc (rc_block_log2 c)" using arr(6) by simp
        obtain r1 b w1 where al: "bs_alloc src ?l w = (r1, b, w1)" by (metis prod_cases3)
        note law = alloc_law [OF assms(1) al]
        show ?thesis
        proof (cases "r1 = ARNM_SUCCESS")
          case ok: True
          let ?c = "c\<lparr>rc_data := b, rc_block_log2 := ?l, rc_array := rc_array c @ [low]\<rparr>"
          have out: "r = ARNM_SUCCESS" "c' = ?c" "w' = bs_free src (rc_data c) (rc_block_log2 c) w1"
            using assms(6) room True al ok ARNM_ROARING_ARRAY by (simp_all add: add_to_last_def array_grow_def Let_def)
          have d: "container_ok (?c\<lparr>rc_cardinality := u32 (rc_cardinality ?c + 1)\<rparr>) \<and> lows ?c = lows c @ [low]"
            by (rule fine [OF refl]) (use space(1) True arr(5,7) l in simp_all)
          have "lent w1 = add_mset (rc_data c, rc_block_log2 c) (add_mset (b, ?l) R)" using law ok held by simp
          from free_back [OF _ this] have "sound w' \<and> lent w' = add_mset (b, ?l) R" using law ok out by simp
          then show ?thesis unfolding out(1,2) using d by (simp add: container_block_def)
        next
          case False
          then show ?thesis
            using assms(6) room True al law ARNM_ROARING_ARRAY by (simp add: add_to_last_def array_grow_def Let_def)
        qed
      next
        case False
        let ?c = "c\<lparr>rc_data := rc_data c, rc_block_log2 := rc_block_log2 c, rc_array := rc_array c @ [low]\<rparr>"
        have same: "?c = c\<lparr>rc_array := rc_array c @ [low]\<rparr>" by simp
        have d: "container_ok (?c\<lparr>rc_cardinality := u32 (rc_cardinality ?c + 1)\<rparr>) \<and> lows ?c = lows c @ [low]"
          by (rule fine [OF refl]) (use space(2) False arr(5-7) in simp_all)
        have out: "r = ARNM_SUCCESS" "c' = ?c" "w' = w"
          using assms(6) room False ARNM_ROARING_ARRAY unfolding same by (simp_all add: add_to_last_def Let_def)
        show ?thesis unfolding out using assms(1,2) d by (simp add: container_block_def)
      qed
    qed
  qed
qed

lemma sparse_add_ok:
  assumes "sound w" "lent w = set_blocks s + R" "roaring_ok s" "rb_count s = 0" "rb_cardinality s < ARNM_ROARING_SPARSE_MAX"
    and "\<forall>u\<in>set (elems s). u < v" "v \<le> UINT32_MAX" "sparse_add src s v w = (r, s', w')"
  shows "sound w' \<and> lent w' = set_blocks s' + R \<and> (if r = ARNM_SUCCESS then roaring_ok s' \<and> elems s' = elems s @ [v] else s' = s)"
proof -
  have ok: "values_ok s" "elems s = rb_values s" using assms(3,4) by (simp_all add: roaring_ok_def elems_def)
  note vals = ok(1) [unfolded values_ok_def]
  have n: "rb_cardinality s = length (rb_values s)" "length (rb_values s) < 1024"
    using vals assms(5) by (simp_all add: ARNM_ROARING_SPARSE_MAX_def)
  have inc: "u32 (rb_cardinality s + 1) = Suc (length (rb_values s))" using n by (simp add: UINT32_MAX_def)
  define push where "push = (\<lambda>s :: roaring_bitmap. s\<lparr>rb_values := rb_values s @ [v], rb_cardinality := u32 (rb_cardinality s + 1), rb_maximum := v\<rparr>)"
  have pushed: "roaring_ok (push (s\<lparr>rb_block := b, rb_directory_log2 := d\<rparr>)) \<and> elems (push (s\<lparr>rb_block := b, rb_directory_log2 := d\<rparr>)) = elems s @ [v]"
    if "b \<noteq> NULL" "4 * Suc (length (rb_values s)) \<le> 2 ^ d" "4 \<le> d" "d \<le> 12" for b d
    using that vals n assms(4,6,7) inc ok(2) ascending_snoc [of "rb_values s" v]
    by (simp add: roaring_ok_def values_ok_def elems_def push_def ARNM_ROARING_SPARSE_MAX_def)
  define full where "full \<longleftrightarrow> rb_cardinality s = (if rb_block s \<noteq> NULL then u32 (2 ^ rb_directory_log2 s) div 4 else 0)"
  have run: "sparse_add src s v w =
     (if full then
        case bs_alloc src (if rb_block s \<noteq> NULL then u8 (rb_directory_log2 s + 1) else 4) w of
          (result, block, w) \<Rightarrow>
            if result \<noteq> ARNM_SUCCESS then (result, s, w)
            else (ARNM_SUCCESS, push (s\<lparr>rb_block := block,
                rb_directory_log2 := (if rb_block s \<noteq> NULL then u8 (rb_directory_log2 s + 1) else 4)\<rparr>),
              if rb_block s \<noteq> NULL then bs_free src (rb_block s) (rb_directory_log2 s) w else w)
      else (ARNM_SUCCESS, push s, w))"
    unfolding sparse_add_def push_def full_def Let_def ROARING_SPARSE_LOG2_FIRST_def by (rule refl)
  show ?thesis
  proof (cases full)
    case True
    let ?l = "if rb_block s \<noteq> NULL then u8 (rb_directory_log2 s + 1) else 4"
    obtain r1 b w1 where al: "bs_alloc src ?l w = (r1, b, w1)" by (metis prod_cases3)
    note law = alloc_law [OF assms(1) al]
    show ?thesis
    proof (cases "r1 = ARNM_SUCCESS")
      case ok1: True
      have l: "4 * Suc (length (rb_values s)) \<le> 2 ^ ?l \<and> 4 \<le> ?l \<and> ?l \<le> 12"
        using values_room(1) [of "length (rb_values s)" "rb_directory_log2 s"] vals n True
        by (cases "rb_block s = NULL") (auto simp: full_def)
      have b: "b \<noteq> NULL" "sound w1" "lent w1 = add_mset (b, ?l) (lent w)" using law ok1 by simp_all
      let ?s = "push (s\<lparr>rb_block := b, rb_directory_log2 := ?l\<rparr>)"
      let ?w = "if rb_block s \<noteq> NULL then bs_free src (rb_block s) (rb_directory_log2 s) w1 else w1"
      have out: "r = ARNM_SUCCESS" "s' = ?s" "w' = ?w" using assms(8) run True al ok1 by simp_all
      have blocks: "set_blocks ?s = {#(b, ?l)#}" using b(1) vals by (simp add: set_blocks_def push_def)
      have "sound ?w \<and> lent ?w = set_blocks ?s + R"
      proof (cases "rb_block s = NULL")
        case True
        then show ?thesis using b assms(2) blocks vals by (simp add: set_blocks_def)
      next
        case False
        then have "lent w1 = add_mset (rb_block s, rb_directory_log2 s) (set_blocks ?s + R)"
          unfolding b(3) assms(2) blocks using vals by (simp add: set_blocks_def)
        from free_back [OF b(2) this] show ?thesis using False by simp
      qed
      moreover have "roaring_ok ?s \<and> elems ?s = elems s @ [v]" by (rule pushed) (use b(1) l in simp_all)
      ultimately show ?thesis unfolding out by simp
    next
      case False
      then show ?thesis using assms(2,8) run True al law by simp
    qed
  next
    case False
    then have room: "rb_block s \<noteq> NULL" "4 * Suc (length (rb_values s)) \<le> 2 ^ rb_directory_log2 s"
      "4 \<le> rb_directory_log2 s" "rb_directory_log2 s \<le> 12"
      using values_room(2) [of "length (rb_values s)" "rb_directory_log2 s"] vals n by (auto simp: full_def split: if_splits)
    have out: "r = ARNM_SUCCESS" "s' = push s" "w' = w" using assms(8) run False by simp_all
    have "roaring_ok (push s) \<and> elems (push s) = elems s @ [v]" using pushed [OF room] by simp
    moreover have "set_blocks (push s) = set_blocks s" by (simp add: set_blocks_def push_def)
    ultimately show ?thesis using assms(1,2) out by simp
  qed
qed

text \<open>A value above all those of a set of containers lies in the last one's key or in a new one.\<close>

lemma last_container:
  assumes "directory_ok s" "\<forall>u\<in>set (elems s). u < v" "rb_containers s = cs @ [c]"
  shows "rc_key c \<le> arnm_roaring_key_of v" "\<forall>d\<in>set cs. rc_key d < rc_key c"
    "rc_key c = arnm_roaring_key_of v \<Longrightarrow> \<forall>x\<in>set (lows c). x < arnm_roaring_low_of v"
proof -
  note d = assms(1) [unfolded directory_ok_def]
  have c: "container_ok c" using d assms(3) by simp
  have el: "elems s = concat (map container_elems cs) @ container_elems c" using directory_elems [OF assms(1)] assms(3) by simp
  have below: "u < v" if "u \<in> set (container_elems c)" for u using that assms(2) unfolding el by simp
  have "container_elems c \<noteq> []" using c by (simp add: container_ok_def container_elems_def)
  then have u: "hd (container_elems c) \<in> set (container_elems c)" by simp
  from container_elems_ascending(2) [OF c this] below [OF u] key_le [of "hd (container_elems c)" v]
  show "rc_key c \<le> arnm_roaring_key_of v" by simp
  show "\<forall>d\<in>set cs. rc_key d < rc_key c" using d assms(3) by (simp add: sorted_wrt_append)
  show "\<forall>x\<in>set (lows c). x < arnm_roaring_low_of v" if k: "rc_key c = arnm_roaring_key_of v"
  proof
    fix x assume x: "x \<in> set (lows c)"
    then have "arnm_roaring_value_of (rc_key c) x < v" by (intro below) (simp add: container_elems_def)
    moreover have "v = rc_key c * 65536 + arnm_roaring_low_of v" unfolding k by (metis value_of_key_low value_of_sum low_of_less)
    ultimately show "x < arnm_roaring_low_of v" using value_of_sum [OF lows_ascending(2) [OF c x]] by simp
  qed
qed

lemma add_to_containers_ok:
  assumes "sound w" "lent w = set_blocks s + R" "building 65536 s" "\<forall>u\<in>set (elems s). u < v" "v \<le> UINT32_MAX"
    and "rb_cardinality s < UINT32_MAX" "add_to_containers src s v w = (r, s', w')"
  shows "sound w' \<and> lent w' = set_blocks s' + R \<and> (if r = ARNM_SUCCESS then roaring_ok s' \<and> elems s' = elems s @ [v] else s' = s)"
proof -
  let ?key = "arnm_roaring_key_of v" and ?low = "arnm_roaring_low_of v"
  have dir: "directory_ok s" using assms(3) by (simp add: building_def)
  note d = dir [unfolded directory_ok_def]
  have inc: "u32 (rb_cardinality s + 1) = Suc (rb_cardinality s)" using assms(6) by (simp add: UINT32_MAX_def)
  have key: "?key < 65536" using assms(5) by (simp add: key_of_div UINT32_MAX_def)
  define same where "same \<longleftrightarrow> rb_count s \<noteq> 0 \<and> rc_key (rb_containers s ! (rb_count s - 1)) = ?key"
  show ?thesis
  proof (cases same)
    case True
    then have "rb_containers s \<noteq> []" using d by (auto simp: same_def)
    then obtain cs c where cs: "rb_containers s = cs @ [c]" by (metis rev_exhaust)
    have n: "rb_count s - 1 = length cs" "rb_count s = Suc (length cs)" using d cs by simp_all
    have c: "rb_containers s ! (rb_count s - 1) = c" "rc_key c = ?key" "container_ok c"
      using True cs n d by (simp_all add: same_def)
    note lst = last_container [OF dir assms(4) cs]
    obtain r1 c1 w1 where add: "add_to_last src c ?low w = (r1, c1, w1)" by (metis prod_cases3)
    define X where "X = (if rb_block s = NULL then {#} else {#(rb_block s, rb_directory_log2 s)#}) + image_mset container_block (mset cs) + R"
    have "lent w = add_mset (container_block c) X" using assms(2) cs by (simp add: set_blocks_def X_def)
    note added = add_to_last_ok [OF assms(1) this c(3) lst(3) [OF c(2)] low_of_less add]
    have run: "add_to_containers src s v w = (if r1 \<noteq> ARNM_SUCCESS then (r1, s, w1)
        else (ARNM_SUCCESS, s\<lparr>rb_containers := cs @ [c1\<lparr>rc_cardinality := u32 (rc_cardinality c1 + 1)\<rparr>],
          rb_cardinality := u32 (rb_cardinality s + 1), rb_maximum := v\<rparr>, w1))"
      using True add c(1) n cs by (simp add: add_to_containers_def same_def Let_def)
    show ?thesis
    proof (cases "r1 = ARNM_SUCCESS")
      case True
      let ?c = "c1\<lparr>rc_cardinality := u32 (rc_cardinality c1 + 1)\<rparr>"
      let ?s = "s\<lparr>rb_containers := cs @ [?c], rb_cardinality := u32 (rb_cardinality s + 1), rb_maximum := v\<rparr>"
      have out: "r = ARNM_SUCCESS" "s' = ?s" "w' = w1" using assms(7) run True by simp_all
      have e: "container_elems ?c = container_elems c @ [v]"
        using added True c(2) value_of_key_low [of v] by (simp add: container_elems_def)
      have blk: "rb_block s \<noteq> NULL" "16 * rb_count s \<le> 2 ^ rb_directory_log2 s" "4 \<le> rb_directory_log2 s" "rb_directory_log2 s \<le> 20"
        using d cs by (cases "rb_block s = NULL"; simp)+
      have ok: "directory_ok ?s"
        using d cs n added True inc e blk u32_bound [of "rb_cardinality s + 1"] by (simp add: directory_ok_def del: u32_bound)
      have el: "elems ?s = elems s @ [v]" using directory_elems [OF ok] directory_elems [OF dir] cs e by simp
      have "roaring_ok ?s" using ok el n by (simp add: roaring_ok_def)
      moreover have "lent w1 = set_blocks ?s + R" using added True by (simp add: set_blocks_def X_def container_block_def)
      ultimately show ?thesis using out added True el by simp
    next
      case False
      then show ?thesis using assms(2,7) run added by simp
    qed
  next
    case False
    have above: "\<forall>c\<in>set (rb_containers s). rc_key c < ?key"
    proof (cases "rb_containers s = []")
      case False
      then obtain cs c where cs: "rb_containers s = cs @ [c]" by (metis rev_exhaust)
      then have "rc_key c \<noteq> ?key" using \<open>\<not> same\<close> d by (simp add: same_def)
      then show ?thesis using last_container(1,2) [OF dir assms(4) cs] cs by fastforce
    qed simp
    obtain r1 b w1 where al: "bs_alloc src ROARING_ARRAY_LOG2_FIRST w = (r1, b, w1)" by (metis prod_cases3)
    note law = alloc_law [OF assms(1) al]
    let ?c = "zero_container\<lparr>rc_data := b, rc_key := ?key, rc_kind := ARNM_ROARING_ARRAY,
        rc_block_log2 := ROARING_ARRAY_LOG2_FIRST, rc_cardinality := 1, rc_array := [?low]\<rparr>"
    obtain r2 s2 w2 where push: "arnm_roaring_push_container src s ?c w1 = (r2, s2, w2)" by (metis prod_cases3)
    have "add_to_containers src s v w = (if r1 \<noteq> ARNM_SUCCESS then (r1, s, w1)
        else if r2 \<noteq> ARNM_SUCCESS then (r2, s2, bs_free src b ROARING_ARRAY_LOG2_FIRST w2)
        else (ARNM_SUCCESS, s2\<lparr>rb_cardinality := u32 (rb_cardinality s2 + 1), rb_maximum := v\<rparr>, w2))"
      unfolding add_to_containers_def Let_def same_def [symmetric] if_not_P [OF False] al prod.case push by (rule refl)
    note run = this [unfolded assms(7)]
    show ?thesis
    proof (cases "r1 = ARNM_SUCCESS")
      case ok: True
      have cok: "container_ok ?c"
        using key by (simp add: container_ok_def lows_def zero_container_def ROARING_ARRAY_LOG2_FIRST_def ARNM_ROARING_ARRAY_MAX_def)
      have el: "container_elems ?c = [v]" by (simp add: container_elems_def lows_def zero_container_def)
      have held: "sound w1" "lent w1 = add_mset (container_block ?c) (set_blocks s + R)"
        using law ok assms(2) by (simp_all add: container_block_def)
      have c0: "building (rc_key ?c) s" "rb_cardinality s \<le> UINT32_MAX - rc_cardinality ?c" "rc_cardinality ?c \<le> UINT32_MAX"
        using assms(3,6) above by (simp_all add: building_def UINT32_MAX_def)
      have c1: "v = last (container_elems ?c)" unfolding el by simp
      note built = push_built [OF held c0(1) cok push c0(2,3) c1]
      have blk: "container_block ?c = (b, ROARING_ARRAY_LOG2_FIRST)" by (simp add: container_block_def)
      show ?thesis
      proof (cases "r2 = ARNM_SUCCESS")
        case True
        let ?s = "s2\<lparr>rb_cardinality := u32 (rb_cardinality s2 + 1), rb_maximum := v\<rparr>"
        have out: "r = ARNM_SUCCESS" "s' = ?s" "w' = w2" using run ok True by simp_all
        have "rc_cardinality ?c = 1" by simp
        note b3 = built(3) [OF True, unfolded this el]
        show ?thesis unfolding out using built(1) b3 building_roaring_ok by auto
      next
        case bad: False
        have out: "r \<noteq> ARNM_SUCCESS" "s' = s2" "w' = bs_free src b ROARING_ARRAY_LOG2_FIRST w2" using run ok bad by simp_all
        have "lent w2 = add_mset (b, ROARING_ARRAY_LOG2_FIRST) (set_blocks s + R)"
          using built(2) [OF bad] held(2) unfolding blk by simp
        from free_back [OF built(1) this] show ?thesis using built(2) [OF bad] out by simp
      qed
    next
      case bad: False
      then show ?thesis using law assms(2) run by simp
    qed
  qed
qed

lemma add_value_ok:
  assumes "sound w" "lent w = set_blocks s + R" "roaring_ok s" "v \<le> UINT32_MAX" "add_value src s v w = (r, s', w')"
  shows "sound w' \<and> lent w' = set_blocks s' + R \<and> roaring_ok s' \<and>
    elems s' = (if r = ARNM_SUCCESS \<and> (elems s = [] \<or> last (elems s) < v) then elems s @ [v] else elems s) \<and>
    (elems s \<noteq> [] \<and> v < last (elems s) \<longrightarrow> r = ARNM_ERROR_INVALID_PARAM \<and> s' = s \<and> w' = w)"
proof -
  have card: "rb_cardinality s = length (elems s)" using roaring_cardinality [OF assms(3)] .
  then have ne: "rb_cardinality s \<noteq> 0 \<longleftrightarrow> elems s \<noteq> []" by simp
  have mx: "elems s \<noteq> [] \<Longrightarrow> rb_maximum s = last (elems s)" using assms(3) by (simp add: roaring_ok_def)
  show ?thesis
  proof (cases "elems s \<noteq> [] \<and> v \<le> last (elems s) \<or> rb_cardinality s = UINT32_MAX")
    case True
    have "v < last (elems s) \<or> v = last (elems s) \<or> last (elems s) < v" by arith
    then show ?thesis using True assms(1-3,5) ne mx by (auto simp: add_value_def UINT32_MAX_def split: if_splits)
  next
    case False
    then have new: "elems s = [] \<or> last (elems s) < v" and n: "rb_cardinality s \<noteq> UINT32_MAX" by auto
    have below: "\<forall>u\<in>set (elems s). u < v"
    proof
      fix u assume u: "u \<in> set (elems s)"
      then obtain xs x where xs: "elems s = xs @ [x]" by (metis empty_iff empty_set rev_exhaust)
      then have "u \<le> x" using u elems_ascending [OF assms(3)] by (auto simp: sorted_wrt_append)
      then show "u < v" using new xs by simp
    qed
    then have "rb_cardinality s \<le> v" unfolding card by (intro ascending_length elems_ascending assms(3)) simp
    then have room: "rb_cardinality s < UINT32_MAX" using assms(4) n by simp
    have run: "add_value src s v w =
        (if arnm_roaring_is_sparse s then
           (if rb_cardinality s < ARNM_ROARING_SPARSE_MAX then sparse_add src s v w
            else case sparse_to_containers src s w of
              (result, s, w) \<Rightarrow> if result \<noteq> ARNM_SUCCESS then (result, s, w) else add_to_containers src s v w)
         else add_to_containers src s v w)"
    proof -
      have c: "\<not> (rb_cardinality s \<noteq> 0 \<and> v < rb_maximum s)" "\<not> (rb_cardinality s \<noteq> 0 \<and> v = rb_maximum s)"
        "\<not> (rb_cardinality s \<noteq> 0 \<and> rb_cardinality s = UINT32_MAX)"
        using new n ne mx by auto
      show ?thesis unfolding add_value_def if_not_P [OF c(1)] if_not_P [OF c(2)] if_not_P [OF c(3)] by (rule refl)
    qed
    have goal: ?thesis if step: "sound w' \<and> lent w' = set_blocks s' + R \<and>
        (if r = ARNM_SUCCESS then roaring_ok s' \<and> elems s' = elems s @ [v] else roaring_ok s' \<and> elems s' = elems s)"
      using step new by (auto split: if_splits)
    show ?thesis
    proof (cases "rb_count s = 0")
      case True
      have vals: "values_ok s" using assms(3) True by (simp add: roaring_ok_def)
      show ?thesis
      proof (cases "rb_cardinality s < ARNM_ROARING_SPARSE_MAX")
        case few: True
        have "sparse_add src s v w = (r, s', w')" using run assms(5) True few by (simp add: arnm_roaring_is_sparse_def)
        from sparse_add_ok [OF assms(1-3) True few below assms(4) this] show ?thesis
          using assms(3) by (intro goal) (simp split: if_splits)
      next
        case many: False
        then have "rb_values s \<noteq> []" using vals by (auto simp: values_ok_def ARNM_ROARING_SPARSE_MAX_def)
        then have held: "rb_block s \<noteq> NULL" using vals by (metis values_ok_def)
        obtain r1 s1 w1 where conv: "sparse_to_containers src s w = (r1, s1, w1)" by (metis prod_cases3)
        note c = sparse_to_containers_ok [OF assms(1,2) vals True held conv]
        have out: "(r, s', w') = (if r1 \<noteq> ARNM_SUCCESS then (r1, s1, w1) else add_to_containers src s1 v w1)"
          using run assms(5) True many conv by (simp add: arnm_roaring_is_sparse_def)
        show ?thesis
        proof (cases "r1 = ARNM_SUCCESS")
          case True
          then have s1: "building 65536 s1" "elems s1 = elems s" "lent w1 = set_blocks s1 + R" "sound w1" using c by simp_all
          have "rb_cardinality s1 = rb_cardinality s"
            using roaring_cardinality [OF building_roaring_ok [OF s1(1)]] s1(2) card by simp
          then have room1: "rb_cardinality s1 < UINT32_MAX" using room by simp
          have "add_to_containers src s1 v w1 = (r, s', w')" using out True by simp
          from add_to_containers_ok [OF s1(4,3,1) _ assms(4) room1 this] show ?thesis
            using s1 below building_roaring_ok [OF s1(1)] by (intro goal) (simp split: if_splits)
        next
          case False
          then show ?thesis using out c assms(3) by (intro goal) simp
        qed
      qed
    next
      case False
      then have "directory_ok s" using assms(3) by (simp add: roaring_ok_def)
      then have b: "building 65536 s"
        using assms(3) by (auto simp: building_def roaring_ok_def directory_ok_def container_ok_def)
      have "add_to_containers src s v w = (r, s', w')" using run assms(5) False by (simp add: arnm_roaring_is_sparse_def)
      from add_to_containers_ok [OF assms(1,2) b below assms(4) room this] show ?thesis
        using assms(3) by (intro goal) (simp split: if_splits)
    qed
  qed
qed

end

end
