(* ===== verification/Roaring_Read.thy ===== *)
theory Roaring_Read
  imports Roaring_Bitmap
begin

unbundle bit_operations_syntax

text \<open>
  Reading a set (\<^verbatim>\<open>src/roaring_bitmap.c\<close>, from \<^verbatim>\<open>arnm_roaring_minimum\<close> on): extremes, membership, counting in
  a range, the value of a rank and pages in both directions. Every reading is shown to be the same
  reading of the ascending list of the values, whichever form the set has. A function that answers
  through \<^verbatim>\<open>out\<close> returns \<open>Some\<close> of what it stores there with \<open>true\<close> and \<open>None\<close> with \<open>false\<close>.
\<close>

definition arnm_roaring_cardinality :: "roaring_bitmap option \<Rightarrow> nat" where
  "arnm_roaring_cardinality s = (case s of None \<Rightarrow> 0 | Some s \<Rightarrow> rb_cardinality s)"

text \<open>The scan for the first word that is not zero; it stops at the last word, which the code does not test for.\<close>

function nonzero_word :: "64 word list \<Rightarrow> nat \<Rightarrow> nat" where
  "nonzero_word words w = (if w < length words \<and> words ! w = 0 then nonzero_word words (w + 1) else w)"
  by auto
termination
  by (relation "measure (\<lambda>(words, w). length words - w)") auto

declare nonzero_word.simps [simp del]

definition arnm_roaring_minimum :: "roaring_bitmap option \<Rightarrow> nat option" where
  "arnm_roaring_minimum s =
    (case s of None \<Rightarrow> None
     | Some s \<Rightarrow>
       if rb_cardinality s = 0 then None
       else if arnm_roaring_is_sparse s then Some (rb_values s ! 0)
       else
         let first = rb_containers s ! 0
         in if rc_kind first = ARNM_ROARING_ARRAY then Some (arnm_roaring_value_of (rc_key first) (rc_array first ! 0))
            else
              let w = nonzero_word (rc_words first) 0
              in Some (arnm_roaring_value_of (rc_key first) (push_bit 6 w OR arnm_ctzll (rc_words first ! w))))"

definition arnm_roaring_maximum :: "roaring_bitmap option \<Rightarrow> nat option" where
  "arnm_roaring_maximum s =
    (case s of None \<Rightarrow> None | Some s \<Rightarrow> if rb_cardinality s = 0 then None else Some (rb_maximum s))"

definition arnm_roaring_first_container :: "roaring_bitmap \<Rightarrow> nat \<Rightarrow> nat" where
  "arnm_roaring_first_container s key =
    (if rb_count s = 0 \<or> key \<le> rc_key (rb_containers s ! 0) then 0
     else bound_search (\<lambda>m. rc_key (rb_containers s ! m) < key) 0 (rb_count s))"

definition arnm_roaring_container_after :: "roaring_bitmap \<Rightarrow> nat \<Rightarrow> nat" where
  "arnm_roaring_container_after s key =
    (if rb_count s = 0 \<or> key \<ge> rc_key (rb_containers s ! (rb_count s - 1)) then rb_count s
     else bound_search (\<lambda>m. rc_key (rb_containers s ! m) \<le> key) 0 (rb_count s))"

definition arnm_roaring_contains :: "roaring_bitmap option \<Rightarrow> nat \<Rightarrow> bool" where
  "arnm_roaring_contains s v =
    (case s of None \<Rightarrow> False
     | Some s \<Rightarrow>
       if arnm_roaring_is_sparse s then
         let position = arnm_roaring_lower_bound32 (rb_values s) (rb_cardinality s) v
         in position < rb_cardinality s \<and> rb_values s ! position = v
       else
         let key = arnm_roaring_key_of v; low = arnm_roaring_low_of v; index = arnm_roaring_first_container s key
         in if index = rb_count s \<or> rc_key (rb_containers s ! index) \<noteq> key then False
            else
              let c = rb_containers s ! index
              in if rc_kind c = ARNM_ROARING_BITMAP then get_bit (rc_words c) low
                 else
                   let position = arnm_roaring_lower_bound16 (rc_array c) (rc_cardinality c) low
                   in position < rc_cardinality c \<and> rc_array c ! position = low)"

definition arnm_roaring_container_range_cardinality :: "roaring_container \<Rightarrow> nat \<Rightarrow> nat \<Rightarrow> nat" where
  "arnm_roaring_container_range_cardinality c low high =
    (if low = 0 \<and> high = 65535 then rc_cardinality c
     else case rc_kind c of
       ROARING_KIND_WIDE \<Rightarrow>
         sub32 (arnm_roaring_upper_bound32 (rc_array c) (rc_cardinality c) (arnm_roaring_value_of (rc_key c) high))
           (arnm_roaring_lower_bound32 (rc_array c) (rc_cardinality c) (arnm_roaring_value_of (rc_key c) low))
     | ARNM_ROARING_ARRAY \<Rightarrow>
         sub32 (arnm_roaring_upper_bound16 (rc_array c) (rc_cardinality c) high)
           (arnm_roaring_lower_bound16 (rc_array c) (rc_cardinality c) low)
     | ARNM_ROARING_BITMAP \<Rightarrow> arnm_roaring_words_cardinality (rc_words c) low high)"

fun range_total :: "nat \<Rightarrow> nat \<Rightarrow> roaring_container list \<Rightarrow> nat \<Rightarrow> nat" where
  "range_total mn mx [] n = n"
| "range_total mn mx (c # cs) n =
    (if rc_key c \<le> arnm_roaring_key_of mx then
       (case arnm_roaring_container_bounds (rc_key c) mn mx of
          (low, high) \<Rightarrow> range_total mn mx cs (u32 (n + arnm_roaring_container_range_cardinality c low high)))
     else n)"

definition arnm_roaring_range_cardinality :: "roaring_bitmap option \<Rightarrow> nat \<Rightarrow> nat \<Rightarrow> nat" where
  "arnm_roaring_range_cardinality s mn mx =
    (case s of None \<Rightarrow> 0
     | Some s \<Rightarrow>
       if mn > mx then 0
       else if arnm_roaring_is_sparse s then
         sub32 (arnm_roaring_upper_bound32 (rb_values s) (rb_cardinality s) mx)
           (arnm_roaring_lower_bound32 (rb_values s) (rb_cardinality s) mn)
       else range_total mn mx
         (drop (arnm_roaring_first_container s (arnm_roaring_key_of mn)) (take (rb_count s) (rb_containers s))) 0)"

fun select_from :: "roaring_container list \<Rightarrow> nat \<Rightarrow> nat option" where
  "select_from [] rank = None"
| "select_from (c # cs) rank =
    (if rank \<ge> rc_cardinality c then select_from cs (rank - rc_cardinality c)
     else if rc_kind c = ARNM_ROARING_ARRAY then Some (arnm_roaring_value_of (rc_key c) (rc_array c ! rank))
     else map_option (\<lambda>(w, b). arnm_roaring_value_of (rc_key c) (push_bit 6 w OR b))
       (arnm_roaring_words_select (rc_words c) 0 rank))"

definition arnm_roaring_select :: "roaring_bitmap option \<Rightarrow> nat \<Rightarrow> nat option" where
  "arnm_roaring_select s rank =
    (case s of None \<Rightarrow> None
     | Some s \<Rightarrow>
       if rank \<ge> rb_cardinality s then None
       else if arnm_roaring_is_sparse s then Some (rb_values s ! rank)
       else select_from (take (rb_count s) (rb_containers s)) rank)"

section \<open>Pages\<close>

text \<open>
  The loops of a page return what they write; \<open>left\<close> counts the places that are left, \<open>size - written\<close>
  of the code.
\<close>

function page_word_up :: "nat \<Rightarrow> nat \<Rightarrow> 64 word \<Rightarrow> nat \<Rightarrow> nat list" where
  "page_word_up key w word left =
    (if word \<noteq> 0 \<and> left \<noteq> 0 then
       arnm_roaring_value_of key (push_bit 6 w OR arnm_ctzll word) # page_word_up key w (word AND (word - 1)) (left - 1)
     else [])"
  by auto
termination
  by (relation "measure (\<lambda>(key, w, word, left). left)") auto

function page_word_down :: "nat \<Rightarrow> nat \<Rightarrow> 64 word \<Rightarrow> nat \<Rightarrow> nat list" where
  "page_word_down key w word left =
    (if word \<noteq> 0 \<and> left \<noteq> 0 then
       let top = 63 - arnm_clzll word
       in arnm_roaring_value_of key (push_bit 6 w OR top) # page_word_down key w (word AND NOT (push_bit top 1)) (left - 1)
     else [])"
  by auto
termination
  by (relation "measure (\<lambda>(key, w, word, left). left)") auto

declare page_word_up.simps [simp del] page_word_down.simps [simp del]

function page_words_up :: "nat \<Rightarrow> 64 word list \<Rightarrow> nat \<Rightarrow> 64 word \<Rightarrow> nat \<Rightarrow> nat list" where
  "page_words_up key words w word left =
    (let written = page_word_up key w word left; left1 = left - length written
     in if left1 = 0 \<or> length words \<le> w + 1 then written
        else written @ page_words_up key words (w + 1) (words ! (w + 1)) left1)"
  by auto
termination
  by (relation "measure (\<lambda>(key, words, w, word, left). length words - w)") auto

declare page_words_up.simps [simp del]

fun page_words_down :: "nat \<Rightarrow> 64 word list \<Rightarrow> nat \<Rightarrow> 64 word \<Rightarrow> nat \<Rightarrow> nat list" where
  "page_words_down key words 0 word left = page_word_down key 0 word left"
| "page_words_down key words (Suc w) word left =
    (let written = page_word_down key (Suc w) word left; left1 = left - length written
     in if left1 = 0 then written else written @ page_words_down key words w (words ! w) left1)"

fun page_ascending :: "roaring_container list \<Rightarrow> nat \<Rightarrow> nat \<Rightarrow> nat list" where
  "page_ascending [] rank left = []"
| "page_ascending (c # cs) rank left =
    (if left = 0 then []
     else
       let written =
         (if rc_kind c = ARNM_ROARING_ARRAY then
            map (\<lambda>i. arnm_roaring_value_of (rc_key c) (rc_array c ! i)) [rank..<min (rc_cardinality c) (rank + left)]
          else case arnm_roaring_words_select (rc_words c) 0 rank of
            Some (w, b) \<Rightarrow> page_words_up (rc_key c) (rc_words c) w (rc_words c ! w AND push_bit b (NOT 0)) left
          | None \<Rightarrow> [])
       in written @ page_ascending cs 0 (left - length written))"

fun array_down :: "nat \<Rightarrow> nat list \<Rightarrow> nat \<Rightarrow> nat \<Rightarrow> nat list" where
  "array_down key array 0 left = []"
| "array_down key array (Suc i) left =
    (if left = 0 then [] else arnm_roaring_value_of key (array ! i) # array_down key array i (left - 1))"

definition container_down :: "roaring_container \<Rightarrow> nat \<Rightarrow> nat \<Rightarrow> nat list" where
  "container_down c rank left =
    (if rc_kind c = ARNM_ROARING_ARRAY then
       array_down (rc_key c) (rc_array c) (rank + 1) left
     else case arnm_roaring_words_select (rc_words c) 0 rank of
       Some (w, b) \<Rightarrow> page_words_down (rc_key c) (rc_words c) w (rc_words c ! w AND drop_bit (63 - b) (NOT 0)) left
     | None \<Rightarrow> [])"

fun page_descending :: "roaring_container list \<Rightarrow> nat \<Rightarrow> nat \<Rightarrow> nat \<Rightarrow> nat list" where
  "page_descending cs 0 rank left = container_down (cs ! 0) rank left"
| "page_descending cs (Suc index) rank left =
    (let written = container_down (cs ! Suc index) rank left; left1 = left - length written
     in if left1 = 0 then written
        else written @ page_descending cs index (rc_cardinality (cs ! index) - 1) left1)"

fun rank_container :: "roaring_container list \<Rightarrow> nat \<Rightarrow> nat \<Rightarrow> nat \<times> nat" where
  "rank_container [] index rank = (index, rank)"
| "rank_container (c # cs) index rank =
    (if rank \<ge> rc_cardinality c then rank_container cs (index + 1) (rank - rc_cardinality c) else (index, rank))"

text \<open>\<open>out\<close> is the caller's array: what is written stands at its beginning.\<close>

definition page_values :: "roaring_bitmap \<Rightarrow> nat \<Rightarrow> nat \<Rightarrow> bool \<Rightarrow> nat list" where
  "page_values s skip n descending =
    (let rank = (if descending then rb_cardinality s - 1 - skip else skip)
     in if arnm_roaring_is_sparse s then
          let left = rb_cardinality s - skip; count = (if left < n then left else n)
          in map (\<lambda>i. rb_values s ! (if descending then rank - i else rank + i)) [0..<count]
        else case rank_container (rb_containers s) 0 rank of
          (index, rank) \<Rightarrow>
            if descending then page_descending (rb_containers s) index rank n
            else page_ascending (drop index (take (rb_count s) (rb_containers s))) rank n)"

definition arnm_roaring_page :: "roaring_bitmap option \<Rightarrow> nat \<Rightarrow> nat \<Rightarrow> bool \<Rightarrow> nat list option \<Rightarrow> nat \<times> nat list option" where
  "arnm_roaring_page s skip n descending out =
    (case (s, out) of
       (Some s, Some buffer) \<Rightarrow>
         if n = 0 \<or> skip \<ge> rb_cardinality s then (0, out)
         else let vs = page_values s skip n descending in (length vs, Some (vs @ drop (length vs) buffer))
     | _ \<Rightarrow> (0, out))"

section \<open>What a reading is of the list of the values\<close>

lemma nonzero_word_spec:
  "bits_from w (drop w words) \<noteq> [] \<Longrightarrow>
    nonzero_word words w < length words \<and> words ! nonzero_word words w \<noteq> 0 \<and>
    hd (bits_from w (drop w words)) = 64 * nonzero_word words w + arnm_ctzll (words ! nonzero_word words w)"
proof (induction words w rule: nonzero_word.induct)
  case (1 words w)
  then have w: "w < length words" by (rule_tac ccontr) simp
  then have d: "drop w words = words ! w # drop (Suc w) words" by (simp add: Cons_nth_drop_Suc)
  show ?case
  proof (cases "words ! w = 0")
    case True
    then show ?thesis using 1 w by (subst (1 2 3 4) nonzero_word.simps) (simp add: d)
  next
    case False
    then show ?thesis using w ctzll_lowest [of "words ! w"] by (subst (1 2 3 4) nonzero_word.simps) (simp add: d)
  qed
qed

lemma ctz_less: "x \<noteq> 0 \<Longrightarrow> arnm_ctzll x < 64"
  using ctzll_lowest [of x] bit_less_64 [of x "arnm_ctzll x"] in_word_bits [of "arnm_ctzll x" x] by simp

lemma container_kinds: "container_ok c \<Longrightarrow> rc_kind c = ARNM_ROARING_ARRAY \<or> rc_kind c = ARNM_ROARING_BITMAP"
  by (cases "rc_kind c") (simp_all add: container_ok_def)

text \<open>A set is an array of values or a directory of containers.\<close>

lemma roaring_cases:
  assumes "roaring_ok s"
  obtains (sparse) "arnm_roaring_is_sparse s" "elems s = rb_values s" "rb_cardinality s = length (rb_values s)" "ascending (rb_values s)"
      "length (rb_values s) \<le> UINT32_MAX"
    | (directory) "\<not> arnm_roaring_is_sparse s" "elems s = concat (map container_elems (rb_containers s))" "directory_ok s"
      "rb_containers s \<noteq> []"
proof (cases "rb_count s = 0")
  case True
  then show ?thesis
    using assms by (intro sparse) (auto simp: arnm_roaring_is_sparse_def roaring_ok_def values_ok_def elems_def UINT32_MAX_def ARNM_ROARING_SPARSE_MAX_def)
next
  case False
  then show ?thesis
    using assms by (intro directory) (auto simp: arnm_roaring_is_sparse_def roaring_ok_def directory_ok_def elems_def)
qed

lemma container_elems_ne: "container_ok c \<Longrightarrow> container_elems c \<noteq> []"
  by (simp add: container_ok_def container_elems_def)

lemma elems_ne: "directory_ok s \<Longrightarrow> rb_containers s \<noteq> [] \<Longrightarrow> concat (map container_elems (rb_containers s)) \<noteq> []"
  using container_elems_ne [of "hd (rb_containers s)"] by (cases "rb_containers s") (auto simp: directory_ok_def)

lemma directory_cardinality: "directory_ok s \<Longrightarrow> rb_cardinality s = length (concat (map container_elems (rb_containers s)))"
  by (simp add: directory_ok_def)

lemma length_container_elems: "container_ok c \<Longrightarrow> length (container_elems c) = rc_cardinality c"
  by (simp add: container_ok_def container_elems_def)

lemma minimum_ok:
  assumes "roaring_ok s"
  shows "arnm_roaring_minimum (Some s) = (if elems s = [] then None else Some (hd (elems s)))"
  using assms
proof (cases rule: roaring_cases)
  case sparse
  then show ?thesis by (simp add: arnm_roaring_minimum_def hd_conv_nth)
next
  case directory
  then obtain c cs where cs: "rb_containers s = c # cs" by (meson neq_Nil_conv)
  then have c: "container_ok c" using directory(3) by (simp add: directory_ok_def)
  have hd: "hd (elems s) = arnm_roaring_value_of (rc_key c) (hd (lows c))"
    using container_elems_ne [OF c] directory(2) cs by (simp add: container_elems_def hd_map)
  have ne: "elems s \<noteq> []" "rb_cardinality s \<noteq> 0"
    using elems_ne directory directory_cardinality [OF directory(3)] by (metis, metis length_0_conv)
  have lne: "lows c \<noteq> []" using c by (simp add: container_ok_def)
  from container_kinds [OF c] show ?thesis
  proof
    assume k: "rc_kind c = ARNM_ROARING_ARRAY"
    then show ?thesis using ne hd lne directory(1) cs by (simp add: arnm_roaring_minimum_def lows_def hd_conv_nth)
  next
    assume k: "rc_kind c = ARNM_ROARING_BITMAP"
    then have l: "lows c = bits_from 0 (rc_words c)" by (simp add: lows_def)
    let ?w = "nonzero_word (rc_words c) 0"
    have "hd (lows c) = 64 * ?w + arnm_ctzll (rc_words c ! ?w)" "rc_words c ! ?w \<noteq> 0"
      using nonzero_word_spec [of 0 "rc_words c"] lne l by simp_all
    then show ?thesis using k ne hd directory(1) cs ctz_less [of "rc_words c ! ?w"]
      by (simp add: arnm_roaring_minimum_def or_sum Let_def)
  qed
qed

lemma maximum_ok: "roaring_ok s \<Longrightarrow> arnm_roaring_maximum (Some s) = (if elems s = [] then None else Some (last (elems s)))"
  using roaring_cardinality [of s] by (simp add: arnm_roaring_maximum_def roaring_ok_def)

text \<open>The value of a rank, container by container.\<close>

lemma words_at:
  assumes "rank < length (bits_from 0 words)"
  obtains u b where "arnm_roaring_words_select words 0 rank = Some (u, b)" "u < length words" "b < 64"
    "push_bit 6 u OR b = bits_from 0 words ! rank"
    "drop rank (bits_from 0 words) = map (\<lambda>i. 64 * u + i) (filter (\<lambda>i. b \<le> i) (word_bits (words ! u))) @ bits_from (Suc u) (drop (Suc u) words)"
  using words_select [of rank 0 words] assms bit_less_64 or_sum that by (metis drop0)

lemma select_from_ok:
  assumes "\<forall>c\<in>set cs. container_ok c" "rank < length (concat (map container_elems cs))"
  shows "select_from cs rank = Some (concat (map container_elems cs) ! rank)"
  using assms
proof (induction cs arbitrary: rank)
  case (Cons c cs)
  have c: "container_ok c" using Cons.prems(1) by simp
  note n = length_container_elems [OF c]
  show ?case
  proof (cases "rank < rc_cardinality c")
    case False
    then show ?thesis using Cons n by (simp add: nth_append)
  next
    case True
    then have at: "concat (map container_elems (c # cs)) ! rank = arnm_roaring_value_of (rc_key c) (lows c ! rank)"
      using n by (simp add: nth_append container_elems_def)
    from container_kinds [OF c] show ?thesis
    proof
      assume "rc_kind c = ARNM_ROARING_ARRAY"
      then show ?thesis unfolding at using True by (simp add: lows_def)
    next
      assume k: "rc_kind c = ARNM_ROARING_BITMAP"
      then have l: "lows c = bits_from 0 (rc_words c)" by (simp add: lows_def)
      have "rank < length (bits_from 0 (rc_words c))" using True n l by (simp add: container_elems_def)
      then show ?thesis unfolding at l using True k by (elim words_at) simp
    qed
  qed
qed simp

lemma directory_all: "directory_ok s \<Longrightarrow> take (rb_count s) (rb_containers s) = rb_containers s"
  by (simp add: directory_ok_def)

lemma select_ok:
  assumes "roaring_ok s"
  shows "arnm_roaring_select (Some s) rank = (if rank < length (elems s) then Some (elems s ! rank) else None)"
  using assms
proof (cases rule: roaring_cases)
  case sparse
  then show ?thesis by (simp add: arnm_roaring_select_def)
next
  case directory
  have all: "\<forall>c\<in>set (rb_containers s). container_ok c" using directory(3) by (simp add: directory_ok_def)
  show ?thesis
    using directory directory_cardinality [OF directory(3)] select_from_ok [OF all, of rank]
    by (simp add: arnm_roaring_select_def directory_all)
qed

text \<open>Membership.\<close>

lemma lower_bound_found:
  assumes "ascending xs"
  shows "arnm_roaring_lower_bound16 xs (length xs) v < length xs \<and> xs ! arnm_roaring_lower_bound16 xs (length xs) v = v \<longleftrightarrow> v \<in> set xs"
proof
  let ?k = "arnm_roaring_lower_bound16 xs (length xs) v"
  assume "v \<in> set xs"
  then obtain i where i: "i < length xs" "xs ! i = v" by (auto simp: in_set_conv_nth)
  note idx = lower_bound_index [OF assms, of v]
  have "?k \<le> i" using idx i by (metis less_irrefl not_le)
  moreover have "\<not> xs ! ?k < v" using idx i(1) calculation by (metis le_less_trans less_irrefl)
  moreover have "xs ! ?k \<le> v" using ascending_nth_le [OF assms calculation(1) i(1)] i(2) by simp
  ultimately show "?k < length xs \<and> xs ! ?k = v" using i(1) by simp
qed (metis nth_mem)

lemma in_container_elems:
  assumes "container_ok c"
  shows "v \<in> set (container_elems c) \<longleftrightarrow> rc_key c = arnm_roaring_key_of v \<and> arnm_roaring_low_of v \<in> set (lows c)"
proof
  assume "v \<in> set (container_elems c)"
  then obtain x where x: "x \<in> set (lows c)" "v = arnm_roaring_value_of (rc_key c) x" by (auto simp: container_elems_def)
  then show "rc_key c = arnm_roaring_key_of v \<and> arnm_roaring_low_of v \<in> set (lows c)"
    using lows_ascending(2) [OF assms x(1)] by simp
next
  assume "rc_key c = arnm_roaring_key_of v \<and> arnm_roaring_low_of v \<in> set (lows c)"
  then have "arnm_roaring_value_of (rc_key c) (arnm_roaring_low_of v) \<in> set (container_elems c)" 
    unfolding container_elems_def set_map by (intro imageI) simp
  then show "v \<in> set (container_elems c)" using \<open>rc_key c = _ \<and> _\<close> by simp
qed

lemma first_container_bound:
  fixes key :: nat
  assumes "directory_ok s"
  defines "i \<equiv> arnm_roaring_first_container s key"
  shows "i \<le> rb_count s" "\<And>j. j < rb_count s \<Longrightarrow> rc_key (rb_containers s ! j) < key \<longleftrightarrow> j < i"
proof -
  let ?ks = "map rc_key (rb_containers s)"
  have n: "rb_count s = length ?ks" and asc: "ascending ?ks" using assms(1) by (simp_all add: directory_ok_def)
  have nth: "?ks ! j = rc_key (rb_containers s ! j)" if "j < rb_count s" for j using that n by simp
  have "i \<le> rb_count s \<and> (\<forall>j<rb_count s. rc_key (rb_containers s ! j) < key \<longleftrightarrow> j < i)"
  proof (cases "rb_count s = 0 \<or> key \<le> rc_key (rb_containers s ! 0)")
    case True
    have "\<not> rc_key (rb_containers s ! j) < key" if j: "j < rb_count s" for j
    proof -
      have "0 < rb_count s" using j by simp
      from True nth [OF j] nth [OF this] ascending_nth_le [OF asc, of 0 j] j n show ?thesis by auto
    qed
    then show ?thesis using True by (auto simp: i_def arnm_roaring_first_container_def)
  next
    case False
    have mono: "rc_key (rb_containers s ! a) < key" if "a \<le> b" "b < rb_count s" "rc_key (rb_containers s ! b) < key" for a b
      using ascending_nth_le [OF asc, of a b] that n nth [of a] nth [of b] by simp
    show ?thesis
      using bound_search_split [of 0 "rb_count s" "\<lambda>m. rc_key (rb_containers s ! m) < key" "rb_count s", OF _ _ mono] False
      by (simp add: i_def arnm_roaring_first_container_def)
  qed
  then show "i \<le> rb_count s" "\<And>j. j < rb_count s \<Longrightarrow> rc_key (rb_containers s ! j) < key \<longleftrightarrow> j < i" by simp_all
qed

lemma get_bit_low:
  assumes "container_ok c" "rc_kind c = ARNM_ROARING_BITMAP"
  shows "get_bit (rc_words c) (arnm_roaring_low_of v) \<longleftrightarrow> arnm_roaring_low_of v \<in> set (lows c)"
  using assms in_words [of "arnm_roaring_low_of v"]
  by (subst get_bit_iff) (simp_all add: container_ok_def lows_def ARNM_ROARING_BITMAP_WORDS_def)

lemma contains_ok:
  assumes "roaring_ok s"
  shows "arnm_roaring_contains (Some s) v \<longleftrightarrow> v \<in> set (elems s)"
  using assms
proof (cases rule: roaring_cases)
  case sparse
  then show ?thesis using lower_bound_found [of "rb_values s" v]
    by (simp add: arnm_roaring_contains_def Let_def bounds_32_16)
next
  case directory
  let ?key = "arnm_roaring_key_of v" and ?low = "arnm_roaring_low_of v"
  let ?i = "arnm_roaring_first_container s ?key"
  let ?cs = "rb_containers s"
  note first = first_container_bound [OF directory(3), where key = ?key]
  have n: "rb_count s = length ?cs" and all: "\<And>c. c \<in> set ?cs \<Longrightarrow> container_ok c"
    and asc: "ascending (map rc_key ?cs)" using directory(3) by (simp_all add: directory_ok_def)
  have unique: "j = ?i" if "j < rb_count s" "rc_key (?cs ! j) = ?key" for j
  proof (rule ccontr)
    assume ne: "j \<noteq> ?i"
    have "?i \<le> j" using first(2) [OF that(1)] that(2) by simp
    then have less: "?i < j" using ne by simp
    then have "rc_key (?cs ! ?i) < ?key" using ascending_nth_less [OF asc, of ?i j] that n by simp
    then show False using first(2) [of ?i] less that(1) by simp
  qed
  have mem: "v \<in> set (elems s) \<longleftrightarrow> (\<exists>j<rb_count s. rc_key (?cs ! j) = ?key \<and> ?low \<in> set (lows (?cs ! j)))"
  proof -
    have "v \<in> set (elems s) \<longleftrightarrow> (\<exists>c\<in>set ?cs. v \<in> set (container_elems c))" unfolding directory(2) by simp
    also have "\<dots> \<longleftrightarrow> (\<exists>c\<in>set ?cs. rc_key c = ?key \<and> ?low \<in> set (lows c))" using in_container_elems [OF all] by blast
    finally show ?thesis unfolding n by (metis in_set_conv_nth)
  qed
  show ?thesis
  proof (cases "?i = rb_count s \<or> rc_key (?cs ! ?i) \<noteq> ?key")
    case True
    have "False" if "j < rb_count s" "rc_key (?cs ! j) = ?key" for j
      using True that unfolding unique [OF that, symmetric] by simp
    then have "v \<notin> set (elems s)" unfolding mem by blast
    then show ?thesis using True directory(1) by (simp add: arnm_roaring_contains_def Let_def)
  next
    case False
    then have i: "?i < rb_count s" "rc_key (?cs ! ?i) = ?key" using first(1) by simp_all
    let ?c = "?cs ! ?i"
    have c: "container_ok ?c" using all i(1) n by simp
    have m: "v \<in> set (elems s) \<longleftrightarrow> ?low \<in> set (lows ?c)" 
    proof
      assume "v \<in> set (elems s)"
      then obtain j where j: "j < rb_count s" "rc_key (?cs ! j) = ?key" "?low \<in> set (lows (?cs ! j))" unfolding mem by blast
      show "?low \<in> set (lows ?c)" using j(3) unfolding unique [OF j(1,2)] .
    next
      assume "?low \<in> set (lows ?c)"
      then show "v \<in> set (elems s)" unfolding mem by (intro exI [of _ ?i] conjI i)
    qed
    have run: "arnm_roaring_contains (Some s) v \<longleftrightarrow>
        (if rc_kind ?c = ARNM_ROARING_BITMAP then get_bit (rc_words ?c) ?low
         else arnm_roaring_lower_bound16 (rc_array ?c) (rc_cardinality ?c) ?low < rc_cardinality ?c \<and>
           rc_array ?c ! arnm_roaring_lower_bound16 (rc_array ?c) (rc_cardinality ?c) ?low = ?low)"
      unfolding arnm_roaring_contains_def option.case Let_def if_not_P [OF directory(1)] if_not_P [OF False] by (rule refl)
    from container_kinds [OF c] show ?thesis
    proof
      assume k: "rc_kind ?c = ARNM_ROARING_BITMAP"
      then show ?thesis unfolding run m using get_bit_low [OF c k] by simp
    next
      assume k: "rc_kind ?c = ARNM_ROARING_ARRAY"
      then have "lows ?c = rc_array ?c" "rc_cardinality ?c = length (rc_array ?c)" "ascending (rc_array ?c)"
        using c by (simp_all add: container_ok_def lows_def)
      then show ?thesis unfolding run m using lower_bound_found [of "rc_array ?c" ?low] k by simp
    qed
  qed
qed

text \<open>Counting in a range.\<close>

abbreviation within :: "nat \<Rightarrow> nat \<Rightarrow> nat \<Rightarrow> bool" where
  "within mn mx v \<equiv> mn \<le> v \<and> v \<le> mx"

lemma span_count:
  assumes "ascending xs" "lo \<le> hi" "length xs \<le> UINT32_MAX"
  shows "sub32 (arnm_roaring_upper_bound16 xs (length xs) hi) (arnm_roaring_lower_bound16 xs (length xs) lo) =
    length (filter (within lo hi) xs)"
proof -
  let ?i = "arnm_roaring_lower_bound16 xs (length xs) lo" and ?j = "arnm_roaring_upper_bound16 xs (length xs) hi"
  have "?j \<le> length xs" using upper_bound_split(1) [OF assms(1)] .
  moreover have "?i \<le> ?j" using span_bounds(2) [OF assms(1,2)] .
  moreover have "filter (within lo hi) xs = span ?i ?j xs" using span_bounds(1) [OF assms(1)] by simp
  ultimately show ?thesis using assms(3) by (simp add: span_def)
qed

lemma filter_container:
  assumes "container_ok c" "arnm_roaring_key_of mn \<le> rc_key c" "rc_key c \<le> arnm_roaring_key_of mx"
    and "arnm_roaring_container_bounds (rc_key c) mn mx = (lo, hi)"
  shows "filter (within mn mx) (container_elems c) = map (arnm_roaring_value_of (rc_key c)) (filter (within lo hi) (lows c))"
  unfolding container_elems_def filter_map
  by (rule arg_cong [where f = "map _"], rule filter_cong)
     (use container_bounds(1) [OF assms(2,3) lows_ascending(2) [OF assms(1)] assms(4)] in auto)

lemma container_range_ok:
  assumes "container_ok c" "arnm_roaring_key_of mn \<le> rc_key c" "rc_key c \<le> arnm_roaring_key_of mx" "mn \<le> mx"
    and "arnm_roaring_container_bounds (rc_key c) mn mx = (lo, hi)"
  shows "arnm_roaring_container_range_cardinality c lo hi = length (filter (within mn mx) (container_elems c))"
proof -
  have lo: "lo \<le> hi" "hi < 65536"
    using container_bounds(2,3) [OF assms(2,3) _ assms(5), of 0] assms(2-5)
    by (auto simp: arnm_roaring_container_bounds_def key_of_div low_of_mod split: if_splits)
       (metis add_le_cancel_left div_mult_mod_eq mult.commute)
  have len: "length (filter (within mn mx) (container_elems c)) = length (filter (within lo hi) (lows c))"
    unfolding filter_container [OF assms(1-3,5)] by simp
  have card: "rc_cardinality c = length (lows c)" using assms(1) by (simp add: container_ok_def)
  show ?thesis
  proof (cases "lo = 0 \<and> hi = 65535")
    case True
    have "filter (within lo hi) (lows c) = lows c"
      using lows_ascending(2) [OF assms(1)] True by (intro filter_True) fastforce
    then show ?thesis using True card len by (simp add: arnm_roaring_container_range_cardinality_def)
  next
    case False
    from container_kinds [OF assms(1)] show ?thesis
    proof
      assume k: "rc_kind c = ARNM_ROARING_ARRAY"
      then have "lows c = rc_array c" "ascending (rc_array c)" "length (rc_array c) \<le> UINT32_MAX"
        using assms(1) by (simp_all add: container_ok_def lows_def ARNM_ROARING_ARRAY_MAX_def UINT32_MAX_def)
      then show ?thesis
        using False k card len span_count [of "rc_array c" lo hi] lo by (auto simp: arnm_roaring_container_range_cardinality_def)
    next
      assume k: "rc_kind c = ARNM_ROARING_BITMAP"
      then have "lows c = bits_from 0 (rc_words c)" "length (rc_words c) = 1024"
        using assms(1) by (simp_all add: container_ok_def lows_def ARNM_ROARING_BITMAP_WORDS_def)
      then show ?thesis
        using False k len words_cardinality [of "rc_words c" lo hi] lo by (auto simp: arnm_roaring_container_range_cardinality_def)
    qed
  qed
qed

lemma outside_key:
  assumes "container_ok c" "rc_key c < arnm_roaring_key_of mn \<or> arnm_roaring_key_of mx < rc_key c"
  shows "filter (within mn mx) (container_elems c) = []"
proof -
  have "\<not> within mn mx v" if "v \<in> set (container_elems c)" for v
    using container_elems_ascending(2) [OF assms(1) that] assms(2) key_le [of mn v] key_le [of v mx] by auto
  then show ?thesis by (simp add: filter_empty_conv)
qed

lemma range_total_ok:
  assumes "\<forall>c\<in>set cs. container_ok c \<and> arnm_roaring_key_of mn \<le> rc_key c" "ascending (map rc_key cs)" "mn \<le> mx"
    and "n + length (concat (map container_elems cs)) \<le> UINT32_MAX"
  shows "range_total mn mx cs n = n + length (filter (within mn mx) (concat (map container_elems cs)))"
  using assms
proof (induction cs arbitrary: n)
  case (Cons c cs)
  have c: "container_ok c" "arnm_roaring_key_of mn \<le> rc_key c" using Cons.prems(1) by simp_all
  show ?case
  proof (cases "rc_key c \<le> arnm_roaring_key_of mx")
    case True
    obtain lo hi where b: "arnm_roaring_container_bounds (rc_key c) mn mx = (lo, hi)" by fastforce
    let ?k = "length (filter (within mn mx) (container_elems c))"
    have "?k \<le> length (container_elems c)" by (rule length_filter_le)
    moreover have "n + (length (container_elems c) + length (concat (map container_elems cs))) \<le> UINT32_MAX"
      using Cons.prems(4) by simp
    ultimately have "n + ?k + length (concat (map container_elems cs)) \<le> UINT32_MAX" by linarith
    moreover from this have "u32 (n + ?k) = n + ?k" by simp
    ultimately show ?thesis
      using Cons.IH [of "n + ?k"] Cons.prems(1-3) container_range_ok [OF c True Cons.prems(3) b] True b by simp
  next
    case False
    have "filter (within mn mx) (container_elems d) = []" if "d \<in> set (c # cs)" for d
    proof (rule outside_key)
      show "container_ok d" using Cons.prems(1) that by auto
      have "rc_key c \<le> rc_key d" using Cons.prems(2) that by (auto simp: less_imp_le)
      then show "rc_key d < arnm_roaring_key_of mn \<or> arnm_roaring_key_of mx < rc_key d" using False by simp
    qed
    then have "filter (within mn mx) (concat (map container_elems (c # cs))) = []"
      unfolding filter_concat map_map by (simp add: comp_def)
    then show ?thesis using False by (simp del: list.map concat.simps)
  qed
qed simp

lemma filter_first:
  assumes "directory_ok s" "i = arnm_roaring_first_container s (arnm_roaring_key_of mn)"
  shows "filter (within mn mx) (concat (map container_elems (drop i (rb_containers s)))) =
    filter (within mn mx) (concat (map container_elems (rb_containers s)))"
    "\<forall>c\<in>set (drop i (rb_containers s)). container_ok c \<and> arnm_roaring_key_of mn \<le> rc_key c"
proof -
  note first = first_container_bound [OF assms(1), where key = "arnm_roaring_key_of mn", folded assms(2)]
  have n: "rb_count s = length (rb_containers s)" and all: "\<And>c. c \<in> set (rb_containers s) \<Longrightarrow> container_ok c"
    using assms(1) by (simp_all add: directory_ok_def)
  have "filter (within mn mx) (container_elems c) = []" if "c \<in> set (take i (rb_containers s))" for c
  proof -
    obtain j where j: "j < i" "j < length (rb_containers s)" "c = rb_containers s ! j"
      using \<open>c \<in> set (take i _)\<close> by (auto simp: in_set_conv_nth)
    then have "rc_key c < arnm_roaring_key_of mn" using first(2) [of j] n by simp
    then show ?thesis using outside_key [of c mn mx] all j by simp
  qed
  then have "filter (within mn mx) (concat (map container_elems (take i (rb_containers s)))) = []"
    unfolding filter_concat map_map by (simp add: comp_def)
  moreover have "concat (map container_elems (rb_containers s)) =
      concat (map container_elems (take i (rb_containers s))) @ concat (map container_elems (drop i (rb_containers s)))"
    by (metis append_take_drop_id concat_append map_append)
  ultimately show "filter (within mn mx) (concat (map container_elems (drop i (rb_containers s)))) =
      filter (within mn mx) (concat (map container_elems (rb_containers s)))" by simp
  show "\<forall>c\<in>set (drop i (rb_containers s)). container_ok c \<and> arnm_roaring_key_of mn \<le> rc_key c"
  proof
    fix c assume c: "c \<in> set (drop i (rb_containers s))"
    then obtain j where j: "i + j < length (rb_containers s)" "c = rb_containers s ! (i + j)"
      using first(1) n by (auto simp: in_set_conv_nth less_diff_conv add.commute)
    have "arnm_roaring_key_of mn \<le> rc_key c" using first(2) [of "i + j"] j n by simp
    then show "container_ok c \<and> arnm_roaring_key_of mn \<le> rc_key c" using all c in_set_dropD by fast
  qed
qed

lemma range_cardinality_ok:
  assumes "roaring_ok s"
  shows "arnm_roaring_range_cardinality (Some s) mn mx = length (filter (within mn mx) (elems s))"
proof (cases "mn > mx")
  case True
  then have "filter (within mn mx) (elems s) = []" by (auto simp: filter_empty_conv)
  then show ?thesis using True by (simp add: arnm_roaring_range_cardinality_def)
next
  case False
  then have le: "mn \<le> mx" by simp
  show ?thesis
    using assms
  proof (cases rule: roaring_cases)
    case sparse
    then show ?thesis using le span_count [OF sparse(4) le sparse(5)]
      by (simp add: arnm_roaring_range_cardinality_def bounds_32_16)
  next
    case directory
    let ?i = "arnm_roaring_first_container s (arnm_roaring_key_of mn)"
    let ?cs = "drop ?i (rb_containers s)"
    note first = filter_first [OF directory(3) refl, of mn]
    have asc: "ascending (map rc_key ?cs)"
      using directory(3) unfolding directory_ok_def drop_map [symmetric] by (metis append_take_drop_id sorted_wrt_append)
    have "length (concat (map container_elems ?cs)) \<le> length (concat (map container_elems (rb_containers s)))"
      by (metis append_take_drop_id concat_append le_add2 length_append map_append)
    then have "0 + length (concat (map container_elems ?cs)) \<le> UINT32_MAX" using directory(3) by (simp add: directory_ok_def)
    from range_total_ok [OF first(2) asc le this] show ?thesis
      using directory first(1) [of mx] le by (simp add: arnm_roaring_range_cardinality_def directory_all)
  qed
qed

section \<open>What a page is of the list of the values\<close>

lemma page_word_up_ok:
  "page_word_up key w x left = take left (map (\<lambda>b. arnm_roaring_value_of key (64 * w + b)) (word_bits x))"
proof (induction key w x left rule: page_word_up.induct)
  case (1 key w x left)
  then show ?case
    using ctzll_lowest [of x] ctz_less [of x]
    by (cases left) (simp_all add: page_word_up.simps [of key w x] or_sum)
qed

lemma clz_highest:
  assumes "x \<noteq> 0"
  shows "word_bits x = word_bits (x AND NOT (push_bit (63 - arnm_clzll x) 1)) @ [63 - arnm_clzll x]"
proof (rule ascending_eq)
  let ?t = "63 - arnm_clzll x"
  note t = clz_top [OF assms]
  have b: "bit (x AND NOT (push_bit ?t 1)) i \<longleftrightarrow> bit x i \<and> i \<noteq> ?t" for i
    using bit_one_shifted [of ?t i] bit_less_64 [of x i] by (auto simp: bit_and_iff bit_not_iff)
  show "ascending (word_bits (x AND NOT (push_bit ?t 1)) @ [?t])"
    using b t(2) by (fastforce simp: sorted_wrt_append)
  show "set (word_bits x) = set (word_bits (x AND NOT (push_bit ?t 1)) @ [?t])"
    unfolding set_append set_eq_iff Un_iff in_word_bits b using t(1) by auto
qed simp

lemma page_word_down_ok:
  "page_word_down key w x left = take left (map (\<lambda>b. arnm_roaring_value_of key (64 * w + b)) (rev (word_bits x)))"
proof (induction key w x left rule: page_word_down.induct)
  case (1 key w x left)
  show ?case
  proof (cases "x \<noteq> 0 \<and> left \<noteq> 0")
    case True
    let ?t = "63 - arnm_clzll x"
    have "page_word_down key w x left = arnm_roaring_value_of key (64 * w + ?t) #
        page_word_down key w (x AND NOT (push_bit ?t 1)) (left - 1)"
      using True by (subst page_word_down.simps) (simp add: or_sum Let_def)
    moreover obtain k where "left = Suc k" using True by (cases left) auto
    moreover have "rev (word_bits x) = ?t # rev (word_bits (x AND NOT (push_bit ?t 1)))"
      using True by (subst clz_highest) simp_all
    ultimately show ?thesis using "1.IH" [OF True refl] by simp
  next
    case False
    then show ?thesis by (subst page_word_down.simps) auto
  qed
qed

text \<open>Two runs, the second as far as the first leaves room.\<close>

lemma take_more: "take left xs @ take (left - length (take left xs)) ys = take left (xs @ ys)"
  by (cases "length xs \<le> left") simp_all

lemma page_words_up_ok:
  "w < length words \<Longrightarrow> page_words_up key words w x left =
    take left (map (arnm_roaring_value_of key) (map (\<lambda>b. 64 * w + b) (word_bits x) @ bits_from (Suc w) (drop (Suc w) words)))"
proof (induction key words w x left rule: page_words_up.induct)
  case (1 key words w x left)
  let ?W = "page_word_up key w x left"
  let ?here = "map (arnm_roaring_value_of key) (map (\<lambda>b. 64 * w + b) (word_bits x))"
  have W: "?W = take left ?here" by (simp add: page_word_up_ok comp_def)
  show ?case
  proof (cases "left - length ?W = 0 \<or> length words \<le> w + 1")
    case True
    then have "page_words_up key words w x left = take left ?here" unfolding page_words_up.simps [of key words w x] W by (simp add: Let_def)
    then show ?thesis using True unfolding W by auto
  next
    case False
    then have w: "Suc w < length words" by simp
    let ?there = "map (arnm_roaring_value_of key) (bits_from (Suc w) (drop (Suc w) words))"
    have "page_words_up key words (w + 1) (words ! (w + 1)) (left - length ?W) = take (left - length ?W) ?there"
      using "1.IH" [OF refl refl False] w Cons_nth_drop_Suc [OF w, symmetric] by simp
    then have "page_words_up key words w x left = take left ?here @ take (left - length (take left ?here)) ?there"
      using False unfolding page_words_up.simps [of key words w x] W by (simp add: Let_def)
    then show ?thesis unfolding take_more by simp
  qed
qed

lemma page_words_down_ok:
  "w < length words \<Longrightarrow> page_words_down key words w x left =
    take left (map (arnm_roaring_value_of key) (rev (bits_from 0 (take w words) @ map (\<lambda>b. 64 * w + b) (word_bits x))))"
proof (induction key words w x left rule: page_words_down.induct)
  case (1 key words x left)
  show ?case by (simp add: page_word_down_ok rev_map comp_def)
next
  case (2 key words w x left)
  let ?W = "page_word_down key (Suc w) x left"
  let ?here = "map (arnm_roaring_value_of key) (rev (map (\<lambda>b. 64 * Suc w + b) (word_bits x)))"
  have W: "?W = take left ?here" by (simp add: page_word_down_ok rev_map comp_def)
  show ?case
  proof (cases "left - length ?W = 0")
    case True
    then have "page_words_down key words (Suc w) x left = take left ?here" unfolding W page_words_down.simps by (simp add: Let_def)
    then show ?thesis using True unfolding W by simp
  next
    case False
    let ?there = "map (arnm_roaring_value_of key) (rev (bits_from 0 (take (Suc w) words)))"
    have t: "take (Suc w) words = take w words @ [words ! w]" using 2(2) by (simp add: take_Suc_conv_app_nth)
    have "page_words_down key words w (words ! w) (left - length ?W) = take (left - length ?W) ?there"
      using 2(1) [OF refl refl False] 2(2) unfolding t by (simp add: bits_from_append)
    then have "page_words_down key words (Suc w) x left = take left ?here @ take (left - length (take left ?here)) ?there"
      using False unfolding W page_words_down.simps by (simp add: Let_def)
    then show ?thesis unfolding take_more by simp
  qed
qed

text \<open>Within one container, from the place of a rank on, or down from it.\<close>

lemma map_upt_take_drop:
  "map (\<lambda>i. f (xs ! i)) [i..<min (length xs) (i + n)] = take n (map f (drop i xs))"
  by (rule nth_equalityI) (auto simp: min_def split: if_splits)

lemma word_bits_from: "word_bits (x AND NOT (mask b)) = filter (\<lambda>i. b \<le> i) (word_bits x)"
  by (rule ascending_eq) (auto simp: sorted_wrt_filter bit_and_iff bit_not_iff bit_mask_iff bit_less_64)

lemma word_bits_to: "word_bits (x AND mask (Suc b)) = filter (\<lambda>i. i \<le> b) (word_bits x)"
  by (rule ascending_eq) (auto simp: sorted_wrt_filter bit_and_iff bit_mask_iff bit_less_64)

lemma container_up:
  assumes "container_ok c" "rank < rc_cardinality c"
  shows "(if rc_kind c = ARNM_ROARING_ARRAY then
        map (\<lambda>i. arnm_roaring_value_of (rc_key c) (rc_array c ! i)) [rank..<min (rc_cardinality c) (rank + left)]
      else case arnm_roaring_words_select (rc_words c) 0 rank of
        Some (w, b) \<Rightarrow> page_words_up (rc_key c) (rc_words c) w (rc_words c ! w AND push_bit b (NOT 0)) left
      | None \<Rightarrow> []) = take left (drop rank (container_elems c))"
  using container_kinds [OF assms(1)]
proof
  assume k: "rc_kind c = ARNM_ROARING_ARRAY"
  then have "rc_cardinality c = length (rc_array c)" using assms(1) by (simp add: container_ok_def lows_def)
  then show ?thesis using k map_upt_take_drop [of _ "rc_array c" rank left]
    by (simp add: container_elems_def lows_def drop_map)
next
  assume k: "rc_kind c = ARNM_ROARING_BITMAP"
  then have l: "lows c = bits_from 0 (rc_words c)" by (simp add: lows_def)
  have "rank < length (bits_from 0 (rc_words c))" using assms l by (simp add: container_ok_def)
  then obtain u b where sel: "arnm_roaring_words_select (rc_words c) 0 rank = Some (u, b)" "u < length (rc_words c)"
      "drop rank (bits_from 0 (rc_words c)) =
        map (\<lambda>i. 64 * u + i) (filter (\<lambda>i. b \<le> i) (word_bits (rc_words c ! u))) @ bits_from (Suc u) (drop (Suc u) (rc_words c))"
    by (rule words_at)
  then show ?thesis
    using k by (simp add: container_elems_def l drop_map page_words_up_ok word_bits_from)
qed

lemma array_down_ok:
  "i \<le> length array \<Longrightarrow> array_down key array i left = take left (map (arnm_roaring_value_of key) (rev (take i array)))"
  by (induction i arbitrary: left) (auto simp: take_Suc_conv_app_nth take_Cons' Suc_le_eq)

lemma take_upto_value:
  fixes xs :: "nat list"
  assumes "ascending xs" "i < length xs"
  shows "take (Suc i) xs = filter (\<lambda>x. x \<le> xs ! i) xs"
proof (rule split_at_filter(1) [OF assms(1)])
  show "xs ! j \<le> xs ! i \<longleftrightarrow> j < Suc i" if "j < length xs" for j
    using ascending_nth_less [OF assms(1), of i j] ascending_nth_le [OF assms(1), of j i] that assms(2)
    by (metis less_Suc_eq_le not_le)
qed (use assms(2) in simp)

lemma split_le: "r < 64 \<Longrightarrow> b < 64 \<Longrightarrow> 64 * q + r \<le> 64 * u + b \<longleftrightarrow> q < u \<or> q = u \<and> r \<le> b" for q r u b :: nat
  by (cases q u rule: linorder_cases) auto

lemma words_below:
  assumes "u < length words" "b < 64"
  shows "filter (\<lambda>x. x \<le> 64 * u + b) (bits_from 0 words) =
    bits_from 0 (take u words) @ map (\<lambda>i. 64 * u + i) (filter (\<lambda>i. i \<le> b) (word_bits (words ! u)))"
proof -
  have "filter (\<lambda>x. x \<le> 64 * u + b) (bits_from 0 words) = bits_from 0 (take u words @ [words ! u AND mask (Suc b)])"
  proof (rule ascending_eq)
    have le: "v \<le> 64 * u + b \<longleftrightarrow> v div 64 < u \<or> v div 64 = u \<and> v mod 64 \<le> b" for v
      using split_le [OF mod_less_divisor [of 64 v] assms(2), of "v div 64" u] by simp
    have m: "bit (words ! u AND mask (Suc b)) i \<longleftrightarrow> bit (words ! u) i \<and> i \<le> b" for i
      using bit_less_64 [of "words ! u" i] by (auto simp: bit_and_iff bit_mask_iff)
    have n: "(take u words @ [words ! u AND mask (Suc b)]) ! q = (if q = u then words ! u AND mask (Suc b) else words ! q)" if "q \<le> u" for q
      using that assms(1) by (auto simp: nth_append)
    have "v div 64 < length words \<and> bit (words ! (v div 64)) (v mod 64) \<and> v \<le> 64 * u + b \<longleftrightarrow>
        v div 64 \<le> u \<and> bit ((take u words @ [words ! u AND mask (Suc b)]) ! (v div 64)) (v mod 64)" for v
      unfolding le using assms(1) n [of "v div 64"] m by (cases "v div 64" u rule: linorder_cases) simp_all
    then show "set (filter (\<lambda>x. x \<le> 64 * u + b) (bits_from 0 words)) = set (bits_from 0 (take u words @ [words ! u AND mask (Suc b)]))"
      using assms(1) unfolding set_eq_iff set_filter mem_Collect_eq in_bits_from by (simp add: min_def less_Suc_eq_le conj_ac)
  qed (simp_all add: sorted_wrt_filter)
  then show ?thesis using assms(1) by (simp add: bits_from_append word_bits_to)
qed

lemma container_down_ok:
  assumes "container_ok c" "rank < rc_cardinality c"
  shows "container_down c rank left = take left (rev (take (Suc rank) (container_elems c)))"
  using container_kinds [OF assms(1)]
proof
  assume k: "rc_kind c = ARNM_ROARING_ARRAY"
  then have "rc_cardinality c = length (rc_array c)" using assms(1) by (simp add: container_ok_def lows_def)
  then show ?thesis using k assms(2) array_down_ok [of "Suc rank" "rc_array c"]
    by (simp add: container_down_def container_elems_def lows_def take_map rev_map del: array_down.simps)
next
  assume k: "rc_kind c = ARNM_ROARING_BITMAP"
  then have l: "lows c = bits_from 0 (rc_words c)" by (simp add: lows_def)
  have r: "rank < length (bits_from 0 (rc_words c))" using assms l by (simp add: container_ok_def)
  then obtain u b where sel: "arnm_roaring_words_select (rc_words c) 0 rank = Some (u, b)" "u < length (rc_words c)" "b < 64"
      "push_bit 6 u OR b = bits_from 0 (rc_words c) ! rank" by (rule words_at)
  have "bits_from 0 (rc_words c) ! rank = 64 * u + b" using sel(3,4) or_sum by simp
  then have "take (Suc rank) (bits_from 0 (rc_words c)) =
      bits_from 0 (take u (rc_words c)) @ map (\<lambda>i. 64 * u + i) (filter (\<lambda>i. i \<le> b) (word_bits (rc_words c ! u)))"
    using take_upto_value [OF bits_from_ascending r] words_below [OF sel(2,3)] by simp
  then show ?thesis
    using k sel by (simp add: container_down_def container_elems_def l take_map rev_map page_words_down_ok word_bits_to)
qed

text \<open>Over the containers.\<close>

lemma page_ascending_ok:
  assumes "\<forall>c\<in>set cs. container_ok c" "cs \<noteq> [] \<longrightarrow> rank < rc_cardinality (hd cs)"
  shows "page_ascending cs rank left = take left (drop rank (concat (map container_elems cs)))"
  using assms
proof (induction cs arbitrary: rank left)
  case (Cons c cs)
  have c: "container_ok c" "rank < rc_cardinality c" using Cons.prems by simp_all
  let ?W = "take left (drop rank (container_elems c))"
  have "cs \<noteq> [] \<longrightarrow> 0 < rc_cardinality (hd cs)" using Cons.prems(1) by (cases cs) (auto simp: container_ok_def)
  then have rec: "page_ascending cs 0 n = take n (concat (map container_elems cs))" for n
    using Cons.IH [of 0 n] Cons.prems(1) by simp
  have "page_ascending (c # cs) rank left = (if left = 0 then [] else ?W @ take (left - length ?W) (concat (map container_elems cs)))"
    unfolding page_ascending.simps Let_def container_up [OF c] rec by (rule refl)
  also have "\<dots> = take left (drop rank (container_elems c) @ concat (map container_elems cs))"
    unfolding take_more by simp
  also have "\<dots> = take left (drop rank (concat (map container_elems (c # cs))))"
    using c length_container_elems [OF c(1)] by simp
  finally show ?case .
qed simp

lemma page_descending_ok:
  assumes "\<forall>c\<in>set cs. container_ok c" "index < length cs" "rank < rc_cardinality (cs ! index)"
  shows "page_descending cs index rank left =
    take left (rev (concat (map container_elems (take index cs)) @ take (Suc rank) (container_elems (cs ! index))))"
  using assms
proof (induction cs index rank left rule: page_descending.induct)
  case (1 cs rank left)
  then have "container_ok (cs ! 0)" by simp
  then show ?case using 1 by (simp add: container_down_ok)
next
  case (2 cs index rank left)
  have c: "container_ok (cs ! Suc index)" "container_ok (cs ! index)" using 2 by simp_all
  let ?here = "rev (take (Suc rank) (container_elems (cs ! Suc index)))"
  have W: "container_down (cs ! Suc index) rank left = take left ?here"
    using container_down_ok [OF c(1)] 2 by simp
  show ?case
  proof (cases "left - length (container_down (cs ! Suc index) rank left) = 0")
    case True
    then show ?thesis unfolding page_descending.simps W Let_def by (simp split: if_splits)
  next
    case False
    let ?there = "rev (concat (map container_elems (take (Suc index) cs)))"
    have pos: "0 < rc_cardinality (cs ! index)" using c(2) by (auto simp: container_ok_def)
    have t: "take (Suc index) cs = take index cs @ [cs ! index]" using 2 by (simp add: take_Suc_conv_app_nth)
    have "page_descending cs index (rc_cardinality (cs ! index) - 1) (left - length (take left ?here)) =
        take (left - length (take left ?here)) ?there"
      using 2(1) [OF refl refl False] 2(2,3) pos length_container_elems [OF c(2)] unfolding W t by simp
    then have "page_descending cs (Suc index) rank left = take left ?here @ take (left - length (take left ?here)) ?there"
      using False unfolding page_descending.simps W Let_def by simp
    then show ?thesis unfolding take_more by simp
  qed
qed

lemma rank_container_ok:
  assumes "\<forall>c\<in>set cs. container_ok c" "rank < length (concat (map container_elems cs))" "rank_container cs i rank = (j, r)"
  shows "i \<le> j \<and> j - i < length cs \<and> r < rc_cardinality (cs ! (j - i)) \<and>
    rank = length (concat (map container_elems (take (j - i) cs))) + r"
  using assms
proof (induction cs i rank rule: rank_container.induct)
  case (2 c cs i rank)
  have c: "container_ok c" using 2 by simp
  show ?case
  proof (cases "rc_cardinality c \<le> rank")
    case True
    then have "rank - rc_cardinality c < length (concat (map container_elems cs))"
      using 2(3) length_container_elems [OF c] by simp
    then have ih: "Suc i \<le> j \<and> j - Suc i < length cs \<and> r < rc_cardinality (cs ! (j - Suc i)) \<and>
        rank - rc_cardinality c = length (concat (map container_elems (take (j - Suc i) cs))) + r"
      using 2(1) 2(2,4) True by simp
    then have "j - i = Suc (j - Suc i)" by linarith
    moreover have "rank - rc_cardinality c = length (concat (map container_elems (take (j - Suc i) cs))) + r" using ih by blast
    then have "rank = rc_cardinality c + length (concat (map container_elems (take (j - Suc i) cs))) + r" using True by linarith
    ultimately show ?thesis using ih length_container_elems [OF c] by simp
  next
    case False
    then show ?thesis using 2(4) by auto
  qed
qed simp

lemma concat_at:
  assumes "i < length cs"
  shows "concat (map f cs) = concat (map f (take i cs)) @ f (cs ! i) @ concat (map f (drop (Suc i) cs))"
    "concat (map f cs) = concat (map f (take i cs)) @ concat (map f (drop i cs))"
proof -
  have "cs = take i cs @ cs ! i # drop (Suc i) cs" using id_take_nth_drop [OF assms] .
  then show "concat (map f cs) = concat (map f (take i cs)) @ f (cs ! i) @ concat (map f (drop (Suc i) cs))"
    by (metis concat.simps(2) concat_append list.map(2) map_append)
  show "concat (map f cs) = concat (map f (take i cs)) @ concat (map f (drop i cs))"
    by (metis append_take_drop_id concat_append map_append)
qed

lemma page_values_ok:
  assumes "roaring_ok s" "skip < rb_cardinality s"
  shows "page_values s skip n descending = take n (drop skip (if descending then rev (elems s) else elems s))"
  using assms(1)
proof (cases rule: roaring_cases)
  case sparse
  then show ?thesis
    using assms(2) by (cases descending) (auto simp: page_values_def Let_def rev_nth intro!: nth_equalityI)
next
  case directory
  let ?cs = "rb_containers s"
  let ?rank = "if descending then rb_cardinality s - 1 - skip else skip"
  have all: "\<forall>c\<in>set ?cs. container_ok c" using directory(3) by (simp add: directory_ok_def)
  have card: "rb_cardinality s = length (elems s)" using roaring_cardinality [OF assms(1)] .
  obtain i r where at: "rank_container ?cs 0 ?rank = (i, r)" by fastforce
  have "?rank < length (concat (map container_elems ?cs))" using assms(2) card directory(2) by auto
  from rank_container_ok [OF all this at]
  have i: "i < length ?cs" "r < rc_cardinality (?cs ! i)"
    and rank: "?rank = length (concat (map container_elems (take i ?cs))) + r" by simp_all
  have c: "container_ok (?cs ! i)" using all i(1) by simp
  let ?A = "concat (map container_elems (take i ?cs))"
  have run: "page_values s skip n descending =
      (if descending then page_descending ?cs i r n else page_ascending (drop i ?cs) r n)"
    using directory(1) at by (simp add: page_values_def Let_def directory_all [OF directory(3)] split: if_splits)
  show ?thesis
  proof (cases descending)
    case True
    have "?A @ take (Suc r) (container_elems (?cs ! i)) = take (length ?A + Suc r) (elems s)"
      using i(2) length_container_elems [OF c] unfolding directory(2) concat_at(1) [OF i(1)] by simp
    also have "length ?A + Suc r = length (elems s) - skip" using rank True assms(2) card by simp
    finally have "page_descending ?cs i r n = take n (rev (take (length (elems s) - skip) (elems s)))"
      using page_descending_ok [OF all i] by simp
    moreover have "length (elems s) - (length (elems s) - skip) = skip" using assms(2) card by simp
    ultimately show ?thesis using run True by (simp add: rev_take)
  next
    case False
    have h: "hd (drop i ?cs) = ?cs ! i" using i(1) by (rule hd_drop_conv_nth)
    have "page_ascending (drop i ?cs) r n = take n (drop r (concat (map container_elems (drop i ?cs))))"
      using all i h by (intro page_ascending_ok) (auto dest: in_set_dropD)
    moreover have "drop skip (elems s) = drop r (concat (map container_elems (drop i ?cs)))"
      using rank False unfolding directory(2) concat_at(2) [OF i(1)] by simp
    ultimately show ?thesis using run False by simp
  qed
qed

lemma page_ok:
  assumes "roaring_ok s"
  shows "arnm_roaring_page (Some s) skip n descending (Some buffer) =
    (let vs = take n (drop skip (if descending then rev (elems s) else elems s)) in (length vs, Some (vs @ drop (length vs) buffer)))"
  using page_values_ok [OF assms, of skip n descending] roaring_cardinality [OF assms]
  by (simp add: arnm_roaring_page_def Let_def)

end
