(* ===== verification/Roaring_Set.thy ===== *)
theory Roaring_Set
  imports Roaring_Read
begin

text \<open>
  What the sets promise, over the pool of blocks itself: the interpretation \<open>pool\<close> of \<open>block_lending\<close>
  (theory \<open>Block_Lending\<close>) turns the lemmas of \<open>Roaring_Bitmap\<close> into facts about \<open>pool_blocks\<close>.
\<close>

text \<open>A run of adds that goes on after an error, with the results in the order of the calls.\<close>

fun add_all :: "nat list \<Rightarrow> roaring_bitmap \<Rightarrow> block_state_ghost \<Rightarrow> arnm_result list \<times> roaring_bitmap \<times> block_state_ghost" where
  "add_all [] s w = ([], s, w)"
| "add_all (v # vs) s w =
    (case arnm_roaring_add pool_blocks (Some s) v (Some w) of
       (r, s, w) \<Rightarrow> (case add_all vs (the s) (the w) of (rs, s, w) \<Rightarrow> (r # rs, s, w)))"

text \<open>The list that the same run builds: what succeeds and lies above the last value goes to the end.\<close>

fun taken_values :: "nat list \<Rightarrow> (nat \<times> arnm_result) list \<Rightarrow> nat list" where
  "taken_values xs [] = xs"
| "taken_values xs ((v, r) # vrs) =
    taken_values (if r = ARNM_SUCCESS \<and> (xs = [] \<or> last xs < v) then xs @ [v] else xs) vrs"

lemma add_all_ok:
  assumes "pool_blocks_sound w" "pool_blocks_lent w = set_blocks s + R" "roaring_ok s" "\<forall>v\<in>set vs. v \<le> UINT32_MAX"
    and "add_all vs s w = (rs, t, w')"
  shows "pool_blocks_sound w' \<and> pool_blocks_lent w' = set_blocks t + R \<and> roaring_ok t \<and>
    length rs = length vs \<and> elems t = taken_values (elems s) (zip vs rs)"
  using assms
proof (induction vs arbitrary: s w rs)
  case (Cons v vs)
  obtain r s1 w1 where add: "add_value pool_blocks s v w = (r, s1, w1)" by (metis prod_cases3)
  obtain rs' t' w2 where rest: "add_all vs s1 w1 = (rs', t', w2)" by (metis prod_cases3)
  have out: "rs = r # rs'" "t' = t" "w2 = w'" using Cons.prems(5) add rest by (simp_all add: arnm_roaring_add_def)
  have "v \<le> UINT32_MAX" using Cons.prems(4) by simp
  note step = pool.add_value_ok [OF Cons.prems(1-3) this add]
  have "pool_blocks_sound w' \<and> pool_blocks_lent w' = set_blocks t + R \<and> roaring_ok t \<and>
      length rs' = length vs \<and> elems t = taken_values (elems s1) (zip vs rs')"
    by (rule Cons.IH) (use step rest Cons.prems(4) out in simp_all)
  then show ?case using step out by simp
qed simp

text \<open>C16: An add to a well-formed set, in any of its three forms, leaves a well-formed set and the pool's
  books balanced, whatever comes out: the value goes to the end of the set's values where it lies
  above them, the largest again changes nothing, a value below the largest is refused and nothing
  moves, and where the pool fails the set keeps its values, also half way from the array to the
  containers.\<close>

theorem roaring_add_outcomes:
  assumes "pool_blocks_sound w" "pool_blocks_lent w = set_blocks s + R" "roaring_ok s" "v \<le> UINT32_MAX"
    and "arnm_roaring_add pool_blocks (Some s) v (Some w) = (r, s', w')"
  shows "\<exists>t u. s' = Some t \<and> w' = Some u \<and> pool_blocks_sound u \<and> pool_blocks_lent u = set_blocks t + R \<and> roaring_ok t \<and>
    elems t = (if r = ARNM_SUCCESS \<and> (elems s = [] \<or> last (elems s) < v) then elems s @ [v] else elems s) \<and>
    (elems s \<noteq> [] \<and> v < last (elems s) \<longrightarrow> r = ARNM_ERROR_INVALID_PARAM \<and> t = s \<and> u = w)"
proof -
  obtain r1 t u where add: "add_value pool_blocks s v w = (r1, t, u)" by (metis prod_cases3)
  then have "r = r1" "s' = Some t" "w' = Some u" using assms(5) by (simp_all add: arnm_roaring_add_def)
  then show ?thesis using pool.add_value_ok [OF assms(1-4) add] by blast
qed

text \<open>C10: Any run of adds on an empty set over a new pool, in any order and with any failures on the way,
  ends in the set of the values it took, ascending and each once, its cardinality their number;
  freeing the set then gives every block back to the pool.\<close>

theorem roaring_run_and_free:
  assumes "host_ok (heap h)"
    and "arnm_graded_block_pool_init (Some p0) (Some opt) NULL h = (ARNM_SUCCESS, Some p, opt', w)"
    and "\<forall>v\<in>set vs. v \<le> UINT32_MAX"
    and "add_all vs (the (arnm_roaring_init (Some s0))) (p, w, []) = (rs, s, w')"
    and "arnm_roaring_free pool_blocks (Some s) (Some w') = (t, u)"
  shows "elems s = taken_values [] (zip vs rs) \<and> ascending (elems s) \<and>
    arnm_roaring_cardinality (Some s) = length (elems s) \<and> length rs = length vs \<and>
    (\<exists>x. t = Some zero_roaring \<and> u = Some x \<and> pool_blocks_sound x \<and> pool_blocks_lent x = {#})"
proof -
  have "block_state p w [] [] []" using block_init_ok(1) [OF assms(1,2)] .
  then have st: "pool_blocks_sound (p, w, [])" "pool_blocks_lent (p, w, []) = set_blocks zero_roaring + {#}" by auto
  have "add_all vs zero_roaring (p, w, []) = (rs, s, w')" using assms(4) by (simp add: arnm_roaring_init_def)
  note run = add_all_ok [OF st zero_roaring_ok(3) assms(3) this]
  have free: "t = Some (fst (free_set pool_blocks s w'))" "u = Some (snd (free_set pool_blocks s w'))"
    using assms(5) by (simp_all add: arnm_roaring_free_def split: prod.splits)
  have held: "pool_blocks_sound w'" "pool_blocks_lent w' = set_blocks s + {#}" "roaring_ok s" using run by blast+
  note freed = pool.free_set_ok [OF held(1,2) roaring_freeable [OF held(3)]]
  show ?thesis
    using run freed free elems_ascending [of s] roaring_cardinality [of s] by (simp add: arnm_roaring_cardinality_def)
qed

text \<open>C17: On a well-formed set every reading is the reading of the ascending list of its values: the number,
  the least and the largest, membership, the number in a range, the value of a rank.\<close>

theorem roaring_reads_as_list:
  assumes "roaring_ok s"
  shows "arnm_roaring_cardinality (Some s) = length (elems s) \<and>
    arnm_roaring_minimum (Some s) = (if elems s = [] then None else Some (hd (elems s))) \<and>
    arnm_roaring_maximum (Some s) = (if elems s = [] then None else Some (last (elems s))) \<and>
    arnm_roaring_contains (Some s) v = (v \<in> set (elems s)) \<and>
    arnm_roaring_range_cardinality (Some s) mn mx = length (filter (\<lambda>x. mn \<le> x \<and> x \<le> mx) (elems s)) \<and>
    arnm_roaring_select (Some s) rank = (if rank < length (elems s) then Some (elems s ! rank) else None)"
  using minimum_ok [OF assms] maximum_ok [OF assms] contains_ok [OF assms] range_cardinality_ok [OF assms] select_ok [OF assms]
    roaring_cardinality [OF assms] by (simp add: arnm_roaring_cardinality_def)

text \<open>C18: A page is the piece of the list of the values, or of the list turned round, that begins after
  \<open>skip\<close> values and has \<open>n\<close> of them, as far as there are so many; it is written to the beginning of
  the caller's array, and nothing else of the array changes.\<close>

theorem roaring_page_is_slice:
  assumes "roaring_ok s"
  shows "arnm_roaring_page (Some s) skip n descending (Some buffer) =
    (let vs = take n (drop skip (if descending then rev (elems s) else elems s))
     in (length vs, Some (vs @ drop (length vs) buffer)))"
  using assms by (rule page_ok)

section \<open>Witnesses\<close>

lemma sample_pool:
  obtains p opt' w where
    "arnm_graded_block_pool_init (Some zero_block_pool) (Some sample_block_options) NULL sample_host = (ARNM_SUCCESS, Some p, opt', w)"
    "host_ok (heap sample_host)" "pool_blocks_sound (p, w, [])" "pool_blocks_lent (p, w, []) = set_blocks zero_roaring + {#}"
proof -
  obtain p opt' w where init: "arnm_graded_block_pool_init (Some zero_block_pool) (Some sample_block_options) NULL sample_host =
      (ARNM_SUCCESS, Some p, opt', w)" by (rule sample_block_init)
  moreover have ok: "host_ok (heap sample_host)" by (simp add: sample_host_def host_ok_def)
  moreover have "pool_blocks_sound (p, w, [])" using block_init_ok(1) [OF ok init] by auto
  ultimately show thesis using that by simp
qed

text \<open>A set of the keys 0 and 1: one container an array, the other a bitmap.\<close>

definition sample_words :: "64 word list" where
  "sample_words = 11 # replicate 1023 0"

definition sample_set :: roaring_bitmap where
  "sample_set = zero_roaring\<lparr>rb_block := 4096, rb_directory_log2 := 5, rb_count := 2, rb_cardinality := 6, rb_maximum := 65539,
    rb_containers := [zero_container\<lparr>rc_data := 8192, rc_array := [3, 7, 9], rc_cardinality := 3, rc_block_log2 := 4\<rparr>,
      zero_container\<lparr>rc_data := 16384, rc_words := sample_words, rc_cardinality := 3, rc_key := 1, rc_block_log2 := 13,
        rc_kind := ARNM_ROARING_BITMAP\<rparr>]\<rparr>"

lemma sample_bits: "bits_from 0 sample_words = [0, 1, 3]" "length sample_words = ARNM_ROARING_BITMAP_WORDS"
proof -
  have "word_bits 11 = [0, 1, 3]" by (simp add: word_bits_def upt_rec)
  then show "bits_from 0 sample_words = [0, 1, 3]" by (simp add: sample_words_def bits_from_zeros)
qed (simp add: sample_words_def ARNM_ROARING_BITMAP_WORDS_def)

lemma sample_set_ok: "roaring_ok sample_set" "elems sample_set = [3, 7, 9, 65536, 65537, 65539]"
proof -
  have v: "arnm_roaring_value_of 0 x = x" "x < 65536 \<Longrightarrow> arnm_roaring_value_of (Suc 0) x = 65536 + x" for x
    using value_of_sum [of x 1] by (simp_all add: arnm_roaring_value_of_def)
  show e: "elems sample_set = [3, 7, 9, 65536, 65537, 65539]"
    by (simp add: elems_def sample_set_def zero_roaring_def zero_container_def container_elems_def lows_def sample_bits v)
  show "roaring_ok sample_set" unfolding roaring_ok_def e
    by (simp add: sample_set_def directory_ok_def container_ok_def zero_roaring_def zero_container_def container_elems_def lows_def
        sample_bits ARNM_ROARING_ARRAY_MAX_def UINT32_MAX_def)
qed

lemma roaring_reads_as_list_witness:
  "arnm_roaring_minimum (Some sample_set) = Some 3 \<and> arnm_roaring_maximum (Some sample_set) = Some 65539 \<and>
    arnm_roaring_contains (Some sample_set) 65537 \<and> \<not> arnm_roaring_contains (Some sample_set) 65538 \<and>
    arnm_roaring_range_cardinality (Some sample_set) 7 65537 = 4 \<and> arnm_roaring_select (Some sample_set) 4 = Some 65537"
  using roaring_reads_as_list [OF sample_set_ok(1), of 65537 7 65537 4] roaring_reads_as_list [OF sample_set_ok(1), of 65538]
  by (simp add: sample_set_ok(2))

lemma roaring_page_is_slice_witness:
  "arnm_roaring_page (Some sample_set) 1 4 True (Some [0, 0, 0, 0, 8]) = (4, Some [65537, 65536, 9, 7, 8])"
  using roaring_page_is_slice [OF sample_set_ok(1), of 1 4 True "[0, 0, 0, 0, 8]"] by (simp add: sample_set_ok(2))

lemma roaring_add_outcomes_witness:
  "\<exists>p opt' w r s' w' t u.
    arnm_graded_block_pool_init (Some zero_block_pool) (Some sample_block_options) NULL sample_host = (ARNM_SUCCESS, Some p, opt', w) \<and>
    arnm_roaring_add pool_blocks (Some zero_roaring) 7 (Some (p, w, [])) = (r, s', w') \<and> s' = Some t \<and> w' = Some u \<and>
    roaring_ok t \<and> elems t = (if r = ARNM_SUCCESS then [7] else []) \<and> pool_blocks_lent u = set_blocks t"
proof -
  obtain p opt' w where p:
    "arnm_graded_block_pool_init (Some zero_block_pool) (Some sample_block_options) NULL sample_host = (ARNM_SUCCESS, Some p, opt', w)"
    "host_ok (heap sample_host)" "pool_blocks_sound (p, w, [])" "pool_blocks_lent (p, w, []) = set_blocks zero_roaring + {#}"
    by (rule sample_pool)
  obtain r s' w' where add: "arnm_roaring_add pool_blocks (Some zero_roaring) 7 (Some (p, w, [])) = (r, s', w')" by (metis prod_cases3)
  have "(7::nat) \<le> UINT32_MAX" by (simp add: UINT32_MAX_def)
  from roaring_add_outcomes [OF p(3,4) zero_roaring_ok(3) this add] show ?thesis using p(1) add by auto
qed

lemma roaring_run_and_free_witness:
  "\<exists>p opt' w rs s w' t u.
    arnm_graded_block_pool_init (Some zero_block_pool) (Some sample_block_options) NULL sample_host = (ARNM_SUCCESS, Some p, opt', w) \<and>
    add_all [5, 70000, 6, 70000] zero_roaring (p, w, []) = (rs, s, w') \<and>
    arnm_roaring_free pool_blocks (Some s) (Some w') = (t, Some u) \<and> length rs = 4 \<and> pool_blocks_lent u = {#}"
proof -
  obtain p opt' w where p:
    "arnm_graded_block_pool_init (Some zero_block_pool) (Some sample_block_options) NULL sample_host = (ARNM_SUCCESS, Some p, opt', w)"
    "host_ok (heap sample_host)" by (rule sample_pool)
  obtain rs s w' where run: "add_all [5, 70000, 6, 70000] (the (arnm_roaring_init (Some zero_roaring))) (p, w, []) = (rs, s, w')"
    by (metis prod_cases3)
  obtain t u where free: "arnm_roaring_free pool_blocks (Some s) (Some w') = (t, u)" by fastforce
  have "\<forall>v\<in>set [5, 70000, 6, 70000]. v \<le> UINT32_MAX" by (simp add: UINT32_MAX_def)
  note all = roaring_run_and_free [OF p(2,1) this run free]
  then obtain x where x: "u = Some x" "pool_blocks_lent x = {#}" by blast
  have "length rs = 4" using all by simp
  then show ?thesis using p(1) run [unfolded arnm_roaring_init_def option.case option.sel] free x by blast
qed

end
