(* ===== verification/Roaring_Source.thy ===== *)
theory Roaring_Source
  imports Roaring_Read
begin

unbundle bit_operations_syntax

text \<open>
  Reading a set key by key (\<^verbatim>\<open>arnm_roaring_source\<close> of \<^verbatim>\<open>src/roaring_intern.h\<close>, its functions in
  \<^verbatim>\<open>src/roaring_bitmap.c\<close>): a source stands on a container of a set, or on a view that shows the values
  of one key of a sparse set as a container. Going up, a source is the list of the values that are left.
\<close>

record roaring_source =
  so_set :: "roaring_bitmap option"
  so_min_key :: nat
  so_max_key :: nat
  so_descending :: bool
  so_position :: nat
  so_next :: nat
  so_buffer :: bool
  so_current :: "roaring_container option"

text \<open>
  \<open>so_buffer\<close> says whether the caller gave a buffer for the low parts; without one the view shows the
  32-bit values themselves. The view is the container \<open>so_current\<close> stands on; its address is of no use
  to anyone and left out.
\<close>

definition source_view :: "roaring_source \<Rightarrow> nat list \<Rightarrow> nat \<Rightarrow> nat \<Rightarrow> nat \<Rightarrow> roaring_container" where
  "source_view s vs from to key =
    zero_container\<lparr>rc_cardinality := sub32 to from, rc_key := key, rc_block_log2 := 0,
      rc_kind := (if so_buffer s then ARNM_ROARING_ARRAY else ROARING_KIND_WIDE),
      rc_array := (if so_buffer s then map arnm_roaring_low_of (span from to vs) else span from to vs)\<rparr>"

definition arnm_roaring_source_load :: "roaring_source \<Rightarrow> roaring_source" where
  "arnm_roaring_source_load s0 =
    (let s = s0\<lparr>so_current := None\<rparr>; position = so_position s
     in case so_set s of None \<Rightarrow> s
        | Some st \<Rightarrow>
          if \<not> arnm_roaring_is_sparse st then
            if so_descending s then
              if position \<noteq> 0 \<and> rc_key (rb_containers st ! (position - 1)) \<ge> so_min_key s
              then s\<lparr>so_current := Some (rb_containers st ! (position - 1))\<rparr> else s
            else
              if position < rb_count st \<and> rc_key (rb_containers st ! position) \<le> so_max_key s
              then s\<lparr>so_current := Some (rb_containers st ! position)\<rparr> else s
          else if so_descending s then
            if position = 0 then s
            else
              let key = arnm_roaring_key_of (rb_values st ! (position - 1))
              in if key < so_min_key s then s
                 else
                   let from = arnm_roaring_lower_bound32 (rb_values st) position (push_bit 16 key)
                   in s\<lparr>so_next := from, so_current := Some (source_view s (rb_values st) from position key)\<rparr>
          else
            if position \<ge> rb_cardinality st then s
            else
              let key = arnm_roaring_key_of (rb_values st ! position)
              in if key > so_max_key s then s
                 else
                   let to = u32 (position + arnm_roaring_upper_bound32 (drop position (rb_values st))
                       (rb_cardinality st - position) (arnm_roaring_value_of key 65535))
                   in s\<lparr>so_next := to, so_current := Some (source_view s (rb_values st) position to key)\<rparr>)"

definition arnm_roaring_source_begin :: "roaring_bitmap option \<Rightarrow> nat \<Rightarrow> nat \<Rightarrow> bool \<Rightarrow> bool \<Rightarrow> roaring_source" where
  "arnm_roaring_source_begin st mn mx descending buffer =
    (let min_key = arnm_roaring_key_of mn; max_key = arnm_roaring_key_of mx;
         position = (case st of None \<Rightarrow> 0
           | Some st \<Rightarrow>
             if \<not> arnm_roaring_is_sparse st then
               (if descending then arnm_roaring_container_after st max_key else arnm_roaring_first_container st min_key)
             else
               (if descending then arnm_roaring_upper_bound32 (rb_values st) (rb_cardinality st) (arnm_roaring_value_of max_key 65535)
                else arnm_roaring_lower_bound32 (rb_values st) (rb_cardinality st) (arnm_roaring_value_of min_key 0)))
     in arnm_roaring_source_load
       \<lparr>so_set = st, so_min_key = min_key, so_max_key = max_key, so_descending = descending, so_position = position,
        so_next = 0, so_buffer = buffer, so_current = None\<rparr>)"

definition arnm_roaring_source_advance :: "roaring_source \<Rightarrow> roaring_source" where
  "arnm_roaring_source_advance s =
    (case (so_current s, so_set s) of
       (Some _, Some st) \<Rightarrow>
         arnm_roaring_source_load
           (s\<lparr>so_position :=
             (if arnm_roaring_is_sparse st then so_next s
              else if so_descending s then so_position s - 1 else u32 (so_position s + 1))\<rparr>)
     | _ \<Rightarrow> s)"

section \<open>A container a source may stand on\<close>

definition view_ok :: "roaring_container \<Rightarrow> bool" where
  "view_ok c \<longleftrightarrow> rc_key c < 65536 \<and> rc_cardinality c = length (lows c) \<and> lows c \<noteq> [] \<and>
    (case rc_kind c of
       ARNM_ROARING_ARRAY \<Rightarrow> ascending (rc_array c) \<and> (\<forall>x\<in>set (rc_array c). x < 65536) \<and>
         length (rc_array c) \<le> ARNM_ROARING_ARRAY_MAX
     | ARNM_ROARING_BITMAP \<Rightarrow> length (rc_words c) = ARNM_ROARING_BITMAP_WORDS
     | ROARING_KIND_WIDE \<Rightarrow> ascending (rc_array c) \<and> (\<forall>v\<in>set (rc_array c). arnm_roaring_key_of v = rc_key c) \<and>
         length (rc_array c) \<le> ARNM_ROARING_SPARSE_MAX)"

lemma container_view_ok: "container_ok c \<Longrightarrow> view_ok c"
  by (cases "rc_kind c") (simp_all add: container_ok_def view_ok_def)

lemma low_less: "arnm_roaring_key_of u = arnm_roaring_key_of v \<Longrightarrow> u < v \<Longrightarrow> arnm_roaring_low_of u < arnm_roaring_low_of v"
  using value_of_key_low [of u] value_of_key_low [of v]
  by (metis value_of_sum low_of_less nat_add_left_cancel_less)

lemma view_lows:
  assumes "view_ok c" shows "ascending (lows c)" "x \<in> set (lows c) \<Longrightarrow> x < 65536"
proof -
  have "ascending (map arnm_roaring_low_of (rc_array c))" if "rc_kind c = ROARING_KIND_WIDE"
    unfolding sorted_wrt_map
    by (rule sorted_wrt_mono_rel [where P = "(<)"]) (use assms that low_less in \<open>auto simp: view_ok_def\<close>)
  then show "ascending (lows c)"
    using assms by (cases "rc_kind c") (simp_all add: view_ok_def lows_def)
  show "x < 65536" if "x \<in> set (lows c)"
    using assms that bits_from_bounds [of x 0 "rc_words c"]
    by (cases "rc_kind c") (auto simp: view_ok_def lows_def ARNM_ROARING_BITMAP_WORDS_def)
qed

lemma view_elems:
  assumes "view_ok c"
  shows "v \<in> set (container_elems c) \<longleftrightarrow> rc_key c = arnm_roaring_key_of v \<and> arnm_roaring_low_of v \<in> set (lows c)"
proof
  assume "v \<in> set (container_elems c)"
  then obtain x where x: "x \<in> set (lows c)" "v = arnm_roaring_value_of (rc_key c) x" by (auto simp: container_elems_def)
  then show "rc_key c = arnm_roaring_key_of v \<and> arnm_roaring_low_of v \<in> set (lows c)"
    using view_lows(2) [OF assms x(1)] by simp
next
  assume "rc_key c = arnm_roaring_key_of v \<and> arnm_roaring_low_of v \<in> set (lows c)"
  then have "arnm_roaring_value_of (rc_key c) (arnm_roaring_low_of v) \<in> set (container_elems c)"
    unfolding container_elems_def set_map by (intro imageI) simp
  then show "v \<in> set (container_elems c)" using \<open>rc_key c = _ \<and> _\<close> by simp
qed

section \<open>A source going up is the list of the values left\<close>

fun source_left :: "roaring_source \<Rightarrow> nat list" where
  "source_left s =
    (case so_set s of None \<Rightarrow> []
     | Some st \<Rightarrow>
       if arnm_roaring_is_sparse st then
         takeWhile (\<lambda>v. arnm_roaring_key_of v \<le> so_max_key s) (drop (so_position s) (rb_values st))
       else concat (map container_elems
         (takeWhile (\<lambda>c. rc_key c \<le> so_max_key s) (drop (so_position s) (rb_containers st)))))"

declare source_left.simps [simp del]

lemma load_kept [simp]:
  "so_set (arnm_roaring_source_load s) = so_set s" "so_max_key (arnm_roaring_source_load s) = so_max_key s"
  "so_min_key (arnm_roaring_source_load s) = so_min_key s" "so_buffer (arnm_roaring_source_load s) = so_buffer s"
  "so_descending (arnm_roaring_source_load s) = so_descending s" "so_position (arnm_roaring_source_load s) = so_position s"
  by (simp_all add: arnm_roaring_source_load_def Let_def split: option.split)

text \<open>What a source stands on was put there by \<open>arnm_roaring_source_load\<close>.\<close>

definition at_rest :: "roaring_source \<Rightarrow> bool" where
  "at_rest s \<longleftrightarrow> \<not> so_descending s \<and> so_max_key s < 65536 \<and>
    (case so_set s of None \<Rightarrow> True
     | Some st \<Rightarrow> roaring_ok st \<and> so_position s \<le> (if arnm_roaring_is_sparse st then length (rb_values st) else rb_count st))"

definition source_ok :: "roaring_source \<Rightarrow> bool" where
  "source_ok s \<longleftrightarrow> at_rest s \<and> (\<exists>s0. s = arnm_roaring_source_load s0)"

lemma left_load [simp]: "source_left (arnm_roaring_source_load s) = source_left s"
  by (simp add: source_left.simps split: option.split)

lemma at_rest_load [simp]: "at_rest (arnm_roaring_source_load s) = at_rest s"
  by (simp add: at_rest_def split: option.split)

lemma span_all: "span i j xs = take (j - i) (drop i xs)"
  by (simp add: span_def)

text \<open>The values of the first key, of an ascending run.\<close>

lemma first_key_run:
  assumes "ascending vs" "vs \<noteq> []" "length vs \<le> UINT32_MAX"
  defines "key \<equiv> arnm_roaring_key_of (hd vs)"
  defines "n \<equiv> arnm_roaring_upper_bound32 vs (length vs) (arnm_roaring_value_of key 65535)"
  shows "take n vs = filter (\<lambda>v. arnm_roaring_key_of v = key) vs" "drop n vs = filter (\<lambda>v. key < arnm_roaring_key_of v) vs"
    "0 < n" "n \<le> length vs"
proof -
  have le: "v \<le> arnm_roaring_value_of key 65535 \<longleftrightarrow> arnm_roaring_key_of v \<le> key" for v
    using div_less_iff_less_mult [of 65536 v "Suc key"] by (auto simp: value_of_sum key_of_div less_Suc_eq_le)
  have hd: "hd vs \<le> v" if "v \<in> set vs" for v using that assms(1,2) by (cases vs) auto
  have same: "arnm_roaring_key_of v \<le> key \<longleftrightarrow> arnm_roaring_key_of v = key" if "v \<in> set vs" for v
    using key_le [OF hd [OF that]] by (auto simp: key_def)
  note ub = upper_bound_split [OF assms(1), of "arnm_roaring_value_of key 65535", folded bounds_32_16, folded n_def]
  show "n \<le> length vs" using ub(1) .
  show t: "take n vs = filter (\<lambda>v. arnm_roaring_key_of v = key) vs"
    unfolding ub(2) le using same by (intro filter_cong) auto
  show "drop n vs = filter (\<lambda>v. key < arnm_roaring_key_of v) vs" unfolding ub(3) not_le [symmetric] le by (simp add: not_le)
  have "filter (\<lambda>v. arnm_roaring_key_of v = key) vs \<noteq> []" using assms(2) by (auto simp: filter_empty_conv key_def intro!: bexI [of _ "hd vs"])
  then show "0 < n" unfolding t [symmetric] by (cases n) simp_all
qed

lemma takeWhile_filter_up:
  assumes "sorted_wrt (<) (map f xs)" shows "takeWhile (\<lambda>x. f x \<le> (k :: nat)) xs = filter (\<lambda>x. f x \<le> k) xs"
  using assms
proof (induction xs)
  case (Cons x xs)
  then show ?case by (cases "f x \<le> k") (auto intro!: filter_False [symmetric])
qed simp

lemma takeWhile_filter_key:
  assumes "ascending vs" shows "takeWhile (\<lambda>v. arnm_roaring_key_of v \<le> k) vs = filter (\<lambda>v. arnm_roaring_key_of v \<le> k) vs"
  using assms
proof (induction vs)
  case (Cons v vs)
  have "arnm_roaring_key_of v \<le> arnm_roaring_key_of u" if "u \<in> set vs" for u
    using Cons.prems that by (auto intro: key_le less_imp_le)
  then show ?case using Cons by (cases "arnm_roaring_key_of v \<le> k") (auto intro!: filter_False [symmetric] dest: order_trans)
qed simp

text \<open>What \<open>source_current\<close> says of a source \<open>s\<close>, its container and the source after it.\<close>

definition stands :: "roaring_source \<Rightarrow> bool" where
  "stands s \<longleftrightarrow> (case so_current s of
     None \<Rightarrow> source_left s = []
   | Some c \<Rightarrow> view_ok c \<and> (so_buffer s \<longrightarrow> rc_kind c \<noteq> ROARING_KIND_WIDE) \<and> rc_key c \<le> so_max_key s \<and>
       source_left s = container_elems c @ source_left (arnm_roaring_source_advance s) \<and>
       source_ok (arnm_roaring_source_advance s) \<and>
       (\<forall>v\<in>set (source_left (arnm_roaring_source_advance s)). rc_key c < arnm_roaring_key_of v))"

lemma advance_kept [simp]:
  "so_set (arnm_roaring_source_advance s) = so_set s" "so_max_key (arnm_roaring_source_advance s) = so_max_key s"
  "so_min_key (arnm_roaring_source_advance s) = so_min_key s" "so_buffer (arnm_roaring_source_advance s) = so_buffer s"
  "so_descending (arnm_roaring_source_advance s) = so_descending s"
  by (simp_all add: arnm_roaring_source_advance_def split: option.split)

lemma stands_directory:
  assumes "at_rest s0" "so_set s0 = Some st" "\<not> arnm_roaring_is_sparse st"
  shows "stands (arnm_roaring_source_load s0)"
proof -
  let ?s = "arnm_roaring_source_load s0" and ?p = "so_position s0" and ?cs = "rb_containers st"
  have st: "roaring_ok st" "?p \<le> rb_count st" "\<not> so_descending s0" using assms by (simp_all add: at_rest_def)
  have d: "directory_ok st" using roaring_cases [OF st(1)] assms(3) by metis
  have n: "rb_count st = length ?cs" and all: "\<And>c. c \<in> set ?cs \<Longrightarrow> container_ok c" and asc: "ascending (map rc_key ?cs)"
    using d by (simp_all add: directory_ok_def)
  have left: "source_left ?s = concat (map container_elems (takeWhile (\<lambda>c. rc_key c \<le> so_max_key s0) (drop ?p ?cs)))"
    using assms by (simp add: source_left.simps)
  show ?thesis
  proof (cases "?p < rb_count st \<and> rc_key (?cs ! ?p) \<le> so_max_key s0")
    case False
    then have cur: "so_current ?s = None"
      using assms st(3) by (auto simp: arnm_roaring_source_load_def Let_def)
    have "takeWhile (\<lambda>c. rc_key c \<le> so_max_key s0) (drop ?p ?cs) = []"
      using False n by (cases "?p < length ?cs") (simp_all add: Cons_nth_drop_Suc [symmetric])
    then show ?thesis using cur left by (simp add: stands_def)
  next
    case True
    let ?c = "?cs ! ?p"
    have cur: "so_current ?s = Some ?c" using True assms st(3) by (simp add: arnm_roaring_source_load_def Let_def)
    have dr: "drop ?p ?cs = ?c # drop (Suc ?p) ?cs" using True n by (simp add: Cons_nth_drop_Suc)
    have small: "Suc ?p \<le> UINT32_MAX"
      using True n keys_length [OF asc] all by (fastforce simp: UINT32_MAX_def)
    define s1 where "s1 = ?s\<lparr>so_position := Suc ?p\<rparr>"
    have adv: "arnm_roaring_source_advance ?s = arnm_roaring_source_load s1"
      using cur assms st(3) small by (simp add: arnm_roaring_source_advance_def s1_def)
    have rest: "at_rest s1" using assms True by (simp add: at_rest_def s1_def)
    have left1: "source_left s1 = concat (map container_elems (takeWhile (\<lambda>c. rc_key c \<le> so_max_key s0) (drop (Suc ?p) ?cs)))"
      using assms by (simp add: source_left.simps s1_def)
    have c: "container_ok ?c" using all True n by simp
    have up: "rc_key ?c < arnm_roaring_key_of v" if v: "v \<in> set (source_left s1)" for v
    proof -
      obtain e where e: "e \<in> set (drop (Suc ?p) ?cs)" "v \<in> set (container_elems e)"
        using v unfolding left1 by (auto dest: set_takeWhileD)
      then have "e \<in> set ?cs" using in_set_dropD by fast
      then have "arnm_roaring_key_of v = rc_key e" using container_elems_ascending(2) [OF all e(2)] by simp
      moreover have "ascending (map rc_key (drop ?p ?cs))" using asc unfolding drop_map [symmetric]
        by (metis append_take_drop_id sorted_wrt_append)
      then have "rc_key ?c < rc_key e" using e(1) unfolding dr by simp
      ultimately show ?thesis by simp
    qed
    have "source_ok (arnm_roaring_source_load s1)" using rest by (auto simp: source_ok_def)
    moreover have "rc_kind ?c \<noteq> ROARING_KIND_WIDE" using container_kinds [OF c] by auto
    ultimately show ?thesis
      using cur adv left left1 up True container_view_ok [OF c] dr by (simp add: stands_def)
  qed
qed

lemma drop_ascending: "ascending xs \<Longrightarrow> ascending (drop n xs)"
  by (metis append_take_drop_id sorted_wrt_append)

lemma stands_sparse:
  assumes "at_rest s0" "so_set s0 = Some st" "arnm_roaring_is_sparse st"
  shows "stands (arnm_roaring_source_load s0)"
proof -
  let ?s = "arnm_roaring_source_load s0" and ?p = "so_position s0"
  let ?P = "\<lambda>v. arnm_roaring_key_of v \<le> so_max_key s0"
  have st: "roaring_ok st" "?p \<le> length (rb_values st)" "\<not> so_descending s0" "so_max_key s0 < 65536"
    using assms by (simp_all add: at_rest_def)
  have vals: "rb_cardinality st = length (rb_values st)" "ascending (rb_values st)" "length (rb_values st) \<le> 1024"
    "\<forall>v\<in>set (rb_values st). v \<le> UINT32_MAX"
    using st(1) assms(3) by (simp_all add: roaring_ok_def values_ok_def arnm_roaring_is_sparse_def ARNM_ROARING_SPARSE_MAX_def)
  let ?d = "drop ?p (rb_values st)"
  note asc = drop_ascending [OF vals(2), of ?p]
  have left: "source_left ?s = filter ?P ?d" unfolding takeWhile_filter_key [OF asc, symmetric]
    using assms by (simp add: source_left.simps)
  show ?thesis
  proof (cases "?d = [] \<or> \<not> ?P (hd ?d)")
    case True
    then have "length (rb_values st) \<le> ?p \<or> so_max_key s0 < arnm_roaring_key_of (rb_values st ! ?p)"
      by (cases "?p < length (rb_values st)") (auto simp: hd_drop_conv_nth)
    then have cur: "so_current ?s = None"
      using assms st vals by (auto simp: arnm_roaring_source_load_def Let_def)
    have "takeWhile ?P ?d = []" using True by (cases ?d) auto
    then show ?thesis using cur left takeWhile_filter_key [OF asc] by (simp add: stands_def)
  next
    case False
    then have ne: "?d \<noteq> []" and P: "?P (hd ?d)" and p: "?p < length (rb_values st)" by auto
    have hd: "hd ?d = rb_values st ! ?p" using p by (rule hd_drop_conv_nth)
    define key where "key = arnm_roaring_key_of (hd ?d)"
    define n where "n = arnm_roaring_upper_bound32 ?d (length ?d) (arnm_roaring_value_of key 65535)"
    have "length ?d \<le> UINT32_MAX" using vals(3) by (simp add: UINT32_MAX_def)
    note run = first_key_run [OF asc ne this, folded key_def, folded n_def]
    have to: "u32 (?p + n) = ?p + n" "sub32 (?p + n) ?p = n" 
    proof -
      have "?p + n \<le> UINT32_MAX" using run(4) vals(3) p by (simp add: UINT32_MAX_def)
      then show "u32 (?p + n) = ?p + n" "sub32 (?p + n) ?p = n" by simp_all
    qed
    let ?c = "source_view (s0\<lparr>so_current := None\<rparr>) (rb_values st) ?p (?p + n) key"
    have cur: "so_current ?s = Some ?c" "so_next ?s = ?p + n"
      using assms st vals p P hd to(1) by (simp_all add: arnm_roaring_source_load_def Let_def key_def n_def not_le)
    have sp: "span ?p (?p + n) (rb_values st) = take n ?d" by (simp add: span_def)
    have arr: "rc_kind ?c = (if so_buffer s0 then ARNM_ROARING_ARRAY else ROARING_KIND_WIDE)"
      "rc_array ?c = (if so_buffer s0 then map arnm_roaring_low_of (take n ?d) else take n ?d)" "rc_key ?c = key" "rc_cardinality ?c = n"
      using to(2) by (simp_all add: source_view_def sp)
    then have lows: "lows ?c = map arnm_roaring_low_of (take n ?d)" by (simp add: lows_def)
    have keys: "arnm_roaring_key_of v = key" if "v \<in> set (take n ?d)" for v using that unfolding run(1) by simp
    have elems: "container_elems ?c = take n ?d" unfolding container_elems_def lows arr(3) map_map
      by (rule map_idI) (use keys value_of_key_low in fastforce)
    have asc_t: "ascending (take n ?d)" using asc by (metis append_take_drop_id sorted_wrt_append)
    have asc_l: "ascending (map arnm_roaring_low_of (take n ?d))" unfolding sorted_wrt_map
      by (rule sorted_wrt_mono_rel [OF _ asc_t]) (use keys low_less in simp)
    have "hd ?d \<in> set (rb_values st)" using ne hd_in_set in_set_dropD by fast
    then have k: "key < 65536" using vals(4) by (auto simp: key_def key_of_div UINT32_MAX_def)
    have "n \<le> 1024" using run(4) vals(3) by simp
    then have v: "view_ok ?c" using k arr lows asc_l asc_t keys run(3,4) ne
      by (simp add: view_ok_def ARNM_ROARING_ARRAY_MAX_def ARNM_ROARING_SPARSE_MAX_def)
    define s1 where "s1 = ?s\<lparr>so_position := ?p + n\<rparr>"
    have adv: "arnm_roaring_source_advance ?s = arnm_roaring_source_load s1"
      using cur assms by (simp add: arnm_roaring_source_advance_def s1_def)
    have rest: "at_rest s1" using assms run(4) st by (simp add: at_rest_def s1_def)
    have left1: "source_left s1 = filter ?P (drop n ?d)"
      using assms takeWhile_filter_key [OF drop_ascending [OF asc]]
      by (simp add: source_left.simps s1_def add.commute)
    have "filter ?P (take n ?d) = take n ?d" using keys P by (intro filter_True) (simp add: key_def)
    then have "filter ?P ?d = take n ?d @ filter ?P (drop n ?d)"
      using filter_append [of ?P "take n ?d" "drop n ?d"] by (simp only: append_take_drop_id)
    moreover have "key < arnm_roaring_key_of v" if "v \<in> set (source_left s1)" for v
      using that unfolding left1 run(2) by simp
    moreover have "source_ok (arnm_roaring_source_load s1)" using rest by (auto simp: source_ok_def)
    moreover have "key \<le> so_max_key s0" using P by (simp add: key_def)
    ultimately show ?thesis using cur(1) adv left left1 elems v arr by (simp add: stands_def)
  qed
qed

lemma source_stands: "source_ok s \<Longrightarrow> stands s"
proof -
  assume "source_ok s"
  then obtain s0 where s: "s = arnm_roaring_source_load s0" "at_rest s0" unfolding source_ok_def by auto
  show ?thesis
  proof (cases "so_set s0")
    case None
    then show ?thesis unfolding s by (simp add: stands_def source_left.simps arnm_roaring_source_load_def Let_def)
  next
    case (Some st)
    then show ?thesis unfolding s using stands_directory [OF s(2)] stands_sparse [OF s(2)] by blast
  qed
qed

lemma filter_by_key:
  "(\<And>c. c \<in> set cs \<Longrightarrow> container_ok c) \<Longrightarrow>
    concat (map container_elems (filter (\<lambda>c. P (rc_key c)) cs)) = filter (\<lambda>v. P (arnm_roaring_key_of v)) (concat (map container_elems cs))"
proof (induction cs)
  case (Cons c cs)
  have "filter (\<lambda>v. P (arnm_roaring_key_of v)) (container_elems c) = (if P (rc_key c) then container_elems c else [])"
    using container_elems_ascending(2) [OF Cons.prems, of c] by (auto intro!: filter_True filter_False)
  then show ?case using Cons by simp
qed simp

text \<open>A source begins with the values of the keys that the range touches.\<close>

lemma source_begin:
  fixes mn mx :: nat and buffer :: bool
  assumes "case st of None \<Rightarrow> True | Some st \<Rightarrow> roaring_ok st" "mx \<le> UINT32_MAX"
  defines "s \<equiv> arnm_roaring_source_begin st mn mx False buffer"
  shows "source_ok s" "so_buffer s = buffer" "so_max_key s = arnm_roaring_key_of mx"
    "source_left s = (case st of None \<Rightarrow> [] | Some st \<Rightarrow>
      filter (\<lambda>v. arnm_roaring_key_of mn \<le> arnm_roaring_key_of v \<and> arnm_roaring_key_of v \<le> arnm_roaring_key_of mx) (elems st))"
proof -
  let ?n = "arnm_roaring_key_of mn" and ?x = "arnm_roaring_key_of mx"
  have mx: "?x < 65536" using assms(2) by (simp add: key_of_div UINT32_MAX_def)
  show "so_buffer s = buffer" "so_max_key s = ?x" by (simp_all add: s_def arnm_roaring_source_begin_def Let_def)
  have "source_ok s \<and> source_left s = (case st of None \<Rightarrow> [] | Some st \<Rightarrow> filter (\<lambda>v. ?n \<le> arnm_roaring_key_of v \<and> arnm_roaring_key_of v \<le> ?x) (elems st))"
  proof (cases st)
    case None
    then show ?thesis using mx by (auto simp: s_def arnm_roaring_source_begin_def Let_def source_ok_def at_rest_def source_left.simps)
  next
    case (Some a)
    then have ok: "roaring_ok a" using assms(1) by simp
    from ok show ?thesis
    proof (cases rule: roaring_cases)
      case sparse
      define p where "p = arnm_roaring_lower_bound32 (rb_values a) (rb_cardinality a) (arnm_roaring_value_of ?n 0)"
      have ge: "arnm_roaring_value_of ?n 0 \<le> v \<longleftrightarrow> ?n \<le> arnm_roaring_key_of v" for v
        using less_eq_div_iff_mult_less_eq [of 65536 ?n v] by (simp add: value_of_sum key_of_div)
      note lb = lower_bound_split [OF sparse(4), of "arnm_roaring_value_of ?n 0", folded bounds_32_16, folded sparse(3), folded p_def]
      define s0 where "s0 = \<lparr>so_set = st, so_min_key = ?n, so_max_key = ?x, so_descending = False, so_position = p,
        so_next = 0, so_buffer = buffer, so_current = None\<rparr>"
      have s: "s = arnm_roaring_source_load s0"
        using sparse(1) Some by (simp add: s_def s0_def p_def arnm_roaring_source_begin_def Let_def)
      have "at_rest s0" using ok mx lb(1) sparse(1,3) Some by (simp add: s0_def at_rest_def)
      moreover have "source_left s0 = filter (\<lambda>v. ?n \<le> arnm_roaring_key_of v \<and> arnm_roaring_key_of v \<le> ?x) (rb_values a)"
      proof -
        have "source_left s0 = filter (\<lambda>v. arnm_roaring_key_of v \<le> ?x) (drop p (rb_values a))"
          using sparse(1) Some takeWhile_filter_key [OF drop_ascending [OF sparse(4)]] by (simp add: source_left.simps s0_def)
        also have "\<dots> = filter (\<lambda>v. ?n \<le> arnm_roaring_key_of v \<and> arnm_roaring_key_of v \<le> ?x) (rb_values a)"
          unfolding lb(3) ge by (simp add: conj_commute)
        finally show ?thesis .
      qed
      ultimately show ?thesis using s Some sparse(2) by (auto simp: source_ok_def)
    next
      case directory
      define p where "p = arnm_roaring_first_container a ?n"
      define s0 where "s0 = \<lparr>so_set = st, so_min_key = ?n, so_max_key = ?x, so_descending = False, so_position = p,
        so_next = 0, so_buffer = buffer, so_current = None\<rparr>"
      have s: "s = arnm_roaring_source_load s0"
        using directory(1) Some by (simp add: s_def s0_def p_def arnm_roaring_source_begin_def Let_def)
      note first = first_container_bound [OF directory(3), where key = ?n, folded p_def]
      have n: "rb_count a = length (rb_containers a)" and all: "\<And>c. c \<in> set (rb_containers a) \<Longrightarrow> container_ok c"
        and asc: "ascending (map rc_key (rb_containers a))" using directory(3) by (simp_all add: directory_ok_def)
      have dr: "drop p (rb_containers a) = filter (\<lambda>c. ?n \<le> rc_key c) (rb_containers a)"
      proof -
        have "filter (\<lambda>c. ?n \<le> rc_key c) (take p (rb_containers a)) = []"
          using first n by (auto simp: filter_empty_conv in_set_conv_nth not_le)
        moreover have "filter (\<lambda>c. ?n \<le> rc_key c) (drop p (rb_containers a)) = drop p (rb_containers a)"
          using filter_first(2) [OF directory(3) p_def] by (intro filter_True) simp
        ultimately show ?thesis using filter_append [of "\<lambda>c. ?n \<le> rc_key c" "take p (rb_containers a)" "drop p (rb_containers a)"] by simp
      qed
      have "at_rest s0" using ok mx first(1) directory(1) Some by (simp add: s0_def at_rest_def)
      moreover have "source_left s0 = filter (\<lambda>v. ?n \<le> arnm_roaring_key_of v \<and> arnm_roaring_key_of v \<le> ?x) (elems a)"
      proof -
        have "ascending (map rc_key (drop p (rb_containers a)))" using drop_ascending [OF asc, of p] by (simp add: drop_map)
        from takeWhile_filter_up [OF this, of ?x]
        have "source_left s0 = concat (map container_elems (filter (\<lambda>c. rc_key c \<le> ?x) (drop p (rb_containers a))))"
          using directory(1) Some by (simp add: source_left.simps s0_def)
        also have "\<dots> = concat (map container_elems (filter (\<lambda>c. ?n \<le> rc_key c \<and> rc_key c \<le> ?x) (rb_containers a)))"
          unfolding dr by (simp add: conj_commute)
        also have "\<dots> = filter (\<lambda>v. ?n \<le> arnm_roaring_key_of v \<and> arnm_roaring_key_of v \<le> ?x) (concat (map container_elems (rb_containers a)))"
          using filter_by_key [of "rb_containers a" "\<lambda>k. ?n \<le> k \<and> k \<le> ?x"] all by simp
        finally show ?thesis unfolding directory(2) .
      qed
      ultimately show ?thesis using s Some directory(2) by (auto simp: source_ok_def)
    qed
  qed
  then show "source_ok s" "source_left s = (case st of None \<Rightarrow> [] | Some st \<Rightarrow> filter (\<lambda>v. ?n \<le> arnm_roaring_key_of v \<and> arnm_roaring_key_of v \<le> ?x) (elems st))"
    by simp_all
qed

end
