(* ===== verification/Roaring_Kernels.thy ===== *)
theory Roaring_Kernels
  imports Roaring_Source
begin

unbundle bit_operations_syntax

text \<open>
  The routines that combine two containers of one key (\<^verbatim>\<open>src/roaring_ops.c\<close>): of every operation one
  for two arrays, one for an array and a bitmap and one for two bitmaps, each over the part of the
  containers that lies in the range, the clip. Each is shown to add to the set that is built exactly the
  low parts its operation asks for.
\<close>

section \<open>The part of a container inside a range\<close>

record clip =
  cl_container :: roaring_container
  cl_low :: nat
  cl_high :: nat
  cl_begin :: nat
  cl_end :: nat

definition make_clip :: "roaring_container \<Rightarrow> nat \<Rightarrow> nat \<Rightarrow> clip" where
  "make_clip c low high =
    (let result = \<lparr>cl_container = c, cl_low = low, cl_high = high, cl_begin = 0, cl_end = 0\<rparr>
     in if rc_kind c = ARNM_ROARING_ARRAY then
          result\<lparr>cl_begin := (if low \<noteq> 0 then arnm_roaring_lower_bound16 (rc_array c) (rc_cardinality c) low else 0),
            cl_end := (if high = 65535 then rc_cardinality c else arnm_roaring_upper_bound16 (rc_array c) (rc_cardinality c) high)\<rparr>
        else result)"

text \<open>What a routine reads of a clip: the entries \<open>begin\<close> to \<open>end\<close> of the array, or the words it reaches.\<close>

definition clip_values :: "clip \<Rightarrow> nat list" where
  "clip_values c = span (cl_begin c) (cl_end c) (rc_array (cl_container c))"

definition clip_words :: "clip \<Rightarrow> 64 word list" where
  "clip_words c = span (drop_bit 6 (cl_low c)) (Suc (drop_bit 6 (cl_high c))) (rc_words (cl_container c))"

abbreviation clip_key :: "clip \<Rightarrow> nat" where
  "clip_key c \<equiv> rc_key (cl_container c)"

text \<open>The last lines of every routine that fills words: clip them, count them, emit them.\<close>

definition emit_clipped :: "'w block_source \<Rightarrow> roaring_bitmap \<Rightarrow> clip \<Rightarrow> 64 word list \<Rightarrow> 'w \<Rightarrow> arnm_result \<times> roaring_bitmap \<times> 'w" where
  "emit_clipped src out a words w =
    (case arnm_roaring_clip_and_count words (cl_low a) (cl_high a) of
       (cardinality, words) \<Rightarrow>
         arnm_roaring_emit_words src out (clip_key a) words (drop_bit 6 (cl_low a)) (drop_bit 6 (cl_high a)) cardinality w)"

definition emit_clip :: "'w block_source \<Rightarrow> roaring_bitmap \<Rightarrow> clip \<Rightarrow> 'w \<Rightarrow> arnm_result \<times> roaring_bitmap \<times> 'w" where
  "emit_clip src out c w =
    (if rc_kind (cl_container c) = ARNM_ROARING_ARRAY then arnm_roaring_emit_array src out (clip_key c) (clip_values c) w
     else emit_clipped src out c (clip_words c) w)"

section \<open>Two containers of one key\<close>

fun gallop :: "nat list \<Rightarrow> nat list \<Rightarrow> nat \<Rightarrow> nat list" where
  "gallop [] y from = []"
| "gallop (x # xs) y from =
    (if from < length y then
       let from = from + arnm_roaring_lower_bound16 (drop from y) (length y - from) x
       in if from < length y \<and> y ! from = x then x # gallop xs y from else gallop xs y from
     else [])"

fun and_merge :: "nat list \<Rightarrow> nat list \<Rightarrow> nat list" where
  "and_merge (x # xs) (y # ys) =
    (if x < y then and_merge xs (y # ys) else if x > y then and_merge (x # xs) ys else x # and_merge xs ys)"
| "and_merge xs ys = []"

definition and_arrays :: "'w block_source \<Rightarrow> roaring_bitmap \<Rightarrow> clip \<Rightarrow> clip \<Rightarrow> 'w \<Rightarrow> arnm_result \<times> roaring_bitmap \<times> 'w" where
  "and_arrays src out a b w =
    (let x0 = clip_values a; y0 = clip_values b;
         x = (if length x0 > length y0 then y0 else x0);
         y = (if length x0 > length y0 then x0 else y0)
     in arnm_roaring_emit_array src out (clip_key a) (if length x * 32 < length y then gallop x y 0 else and_merge x y) w)"

definition filter_array_by_words :: "'w block_source \<Rightarrow> roaring_bitmap \<Rightarrow> clip \<Rightarrow> clip \<Rightarrow> bool \<Rightarrow> 'w \<Rightarrow>
    arnm_result \<times> roaring_bitmap \<times> 'w" where
  "filter_array_by_words src out a b keep w =
    arnm_roaring_emit_array src out (clip_key a) (filter (\<lambda>x. get_bit (rc_words (cl_container b)) x = keep) (clip_values a)) w"

datatype word_op = WORD_AND | WORD_OR | WORD_ANDNOT

definition combine_words :: "'w block_source \<Rightarrow> roaring_bitmap \<Rightarrow> clip \<Rightarrow> clip \<Rightarrow> word_op \<Rightarrow> 'w \<Rightarrow>
    arnm_result \<times> roaring_bitmap \<times> 'w" where
  "combine_words src out a b op w =
    (let x = rc_words (cl_container a); y = rc_words (cl_container b); range = [drop_bit 6 (cl_low a)..<Suc (drop_bit 6 (cl_high a))];
         words = (case op of
             WORD_AND \<Rightarrow> map (\<lambda>i. x ! i AND y ! i) range
           | WORD_OR \<Rightarrow> map (\<lambda>i. x ! i OR y ! i) range
           | WORD_ANDNOT \<Rightarrow> map (\<lambda>i. x ! i AND NOT (y ! i)) range)
     in emit_clipped src out a words w)"

text \<open>One bit of the buffer; as everywhere, the list holds the words from \<open>first\<close> on.\<close>

definition set_word_bit :: "nat \<Rightarrow> nat \<Rightarrow> 64 word list \<Rightarrow> 64 word list" where
  "set_word_bit first v words =
    words[drop_bit 6 v - first := words ! (drop_bit 6 v - first) OR push_bit (v AND 63) 1]"

definition clear_word_bit :: "nat \<Rightarrow> nat \<Rightarrow> 64 word list \<Rightarrow> 64 word list" where
  "clear_word_bit first v words =
    words[drop_bit 6 v - first := words ! (drop_bit 6 v - first) AND NOT (push_bit (v AND 63) 1)]"

definition words_with_array :: "'w block_source \<Rightarrow> roaring_bitmap \<Rightarrow> clip \<Rightarrow> clip \<Rightarrow> bool \<Rightarrow> 'w \<Rightarrow>
    arnm_result \<times> roaring_bitmap \<times> 'w" where
  "words_with_array src out a b st w =
    (let first = drop_bit 6 (cl_low a);
         words = fold (if st then set_word_bit first else clear_word_bit first) (clip_values b) (clip_words a)
     in emit_clipped src out a words w)"

fun or_merge :: "nat list \<Rightarrow> nat list \<Rightarrow> nat list" where
  "or_merge (x # xs) (y # ys) =
    (if x < y then x # or_merge xs (y # ys) else if x > y then y # or_merge (x # xs) ys else x # or_merge xs ys)"
| "or_merge xs [] = xs"
| "or_merge [] ys = ys"

definition or_arrays :: "'w block_source \<Rightarrow> roaring_bitmap \<Rightarrow> clip \<Rightarrow> clip \<Rightarrow> 'w \<Rightarrow> arnm_result \<times> roaring_bitmap \<times> 'w" where
  "or_arrays src out a b w =
    (let x = clip_values a; y = clip_values b
     in if u32 (length x + length y) > ARNM_ROARING_ARRAY_MAX then
          let first = drop_bit 6 (cl_low a); fin = drop_bit 6 (cl_high a);
              words = fold (set_word_bit first) y (fold (set_word_bit first) x (replicate (Suc fin - first) 0))
          in arnm_roaring_emit_words src out (clip_key a) words first fin (u32 (\<Sum>x\<leftarrow>words. arnm_popcountll x)) w
        else arnm_roaring_emit_array src out (clip_key a) (or_merge x y) w)"

text \<open>
  The walk along two ascending runs of \<open>andnot_arrays\<close>, of \<open>sparse_filter\<close> and, with \<open>f\<close> the low part,
  of \<open>container_has\<close>: what of the first run is in the second (\<open>keep\<close>), or is not.
\<close>

fun merge_filter :: "(nat \<Rightarrow> nat) \<Rightarrow> bool \<Rightarrow> nat list \<Rightarrow> nat list \<Rightarrow> nat list" where
  "merge_filter f keep [] ys = []"
| "merge_filter f keep (x # xs) ys =
    (let ys = dropWhile (\<lambda>y. y < f x) ys; has = (ys \<noteq> [] \<and> hd ys = f x)
     in if has = keep then x # merge_filter f keep xs ys else merge_filter f keep xs ys)"

definition andnot_arrays :: "'w block_source \<Rightarrow> roaring_bitmap \<Rightarrow> clip \<Rightarrow> clip \<Rightarrow> 'w \<Rightarrow> arnm_result \<times> roaring_bitmap \<times> 'w" where
  "andnot_arrays src out a b w =
    arnm_roaring_emit_array src out (clip_key a) (merge_filter id False (clip_values a) (clip_values b)) w"

definition and_containers :: "'w block_source \<Rightarrow> roaring_bitmap \<Rightarrow> clip \<Rightarrow> clip \<Rightarrow> 'w \<Rightarrow> arnm_result \<times> roaring_bitmap \<times> 'w" where
  "and_containers src out cx cy w =
    (let x = rc_kind (cl_container cx); y = rc_kind (cl_container cy)
     in if x = ARNM_ROARING_ARRAY \<and> y = ARNM_ROARING_ARRAY then and_arrays src out cx cy w
        else if x = ARNM_ROARING_ARRAY then filter_array_by_words src out cx cy True w
        else if y = ARNM_ROARING_ARRAY then filter_array_by_words src out cy cx True w
        else combine_words src out cx cy WORD_AND w)"

definition or_containers :: "'w block_source \<Rightarrow> roaring_bitmap \<Rightarrow> clip \<Rightarrow> clip \<Rightarrow> 'w \<Rightarrow> arnm_result \<times> roaring_bitmap \<times> 'w" where
  "or_containers src out cx cy w =
    (let x = rc_kind (cl_container cx); y = rc_kind (cl_container cy)
     in if x = ARNM_ROARING_ARRAY \<and> y = ARNM_ROARING_ARRAY then or_arrays src out cx cy w
        else if x = ARNM_ROARING_ARRAY then words_with_array src out cy cx True w
        else if y = ARNM_ROARING_ARRAY then words_with_array src out cx cy True w
        else combine_words src out cx cy WORD_OR w)"

definition andnot_containers :: "'w block_source \<Rightarrow> roaring_bitmap \<Rightarrow> clip \<Rightarrow> clip \<Rightarrow> 'w \<Rightarrow> arnm_result \<times> roaring_bitmap \<times> 'w" where
  "andnot_containers src out cx cy w =
    (let x = rc_kind (cl_container cx); y = rc_kind (cl_container cy)
     in if x = ARNM_ROARING_ARRAY \<and> y = ARNM_ROARING_ARRAY then andnot_arrays src out cx cy w
        else if x = ARNM_ROARING_ARRAY then filter_array_by_words src out cx cy False w
        else if y = ARNM_ROARING_ARRAY then words_with_array src out cx cy False w
        else combine_words src out cx cy WORD_ANDNOT w)"

section \<open>Walks along ascending runs\<close>

lemma and_merge_filter:
  "ascending xs \<Longrightarrow> ascending ys \<Longrightarrow> and_merge xs ys = filter (\<lambda>x. x \<in> set ys) xs"
proof (induction xs ys rule: and_merge.induct)
  case (1 x xs y ys)
  consider "x < y" | "y < x" | "x = y" by linarith
  then show ?case
  proof cases
    case 1
    then have "x \<notin> set (y # ys)" using "1.prems"(2) by auto
    then show ?thesis using 1 "1.IH"(1) "1.prems" by simp
  next
    case 2
    then have "filter (\<lambda>u. u \<in> set (y # ys)) (x # xs) = filter (\<lambda>u. u \<in> set ys) (x # xs)"
      using "1.prems"(1) by (intro filter_cong) auto
    then show ?thesis using 2 "1.IH"(2) "1.prems" by simp
  next
    case 3
    then have "filter (\<lambda>u. u \<in> set (y # ys)) xs = filter (\<lambda>u. u \<in> set ys) xs"
      using "1.prems"(1) by (intro filter_cong) auto
    then show ?thesis using 3 "1.IH"(3) "1.prems" by simp
  qed
qed simp_all

lemma or_merge_union:
  "set (or_merge xs ys) = set xs \<union> set ys" "length (or_merge xs ys) \<le> length xs + length ys"
  by (induction xs ys rule: or_merge.induct) auto

lemma or_merge_ascending: "ascending xs \<Longrightarrow> ascending ys \<Longrightarrow> ascending (or_merge xs ys)"
proof (induction xs ys rule: or_merge.induct)
  case (1 x xs y ys)
  consider "x < y" | "y < x" | "x = y" by linarith
  then show ?case using 1 by cases (auto simp: or_merge_union)
qed simp_all

lemma dropWhile_up: "ascending ys \<Longrightarrow> dropWhile (\<lambda>y. y < (k :: nat)) ys = filter (\<lambda>y. k \<le> y) ys"
proof (induction ys)
  case (Cons y ys)
  then show ?case by (cases "y < k") (auto intro!: filter_True [symmetric])
qed simp

lemma merge_filter_keeps:
  "ascending (map f xs) \<Longrightarrow> ascending ys \<Longrightarrow> merge_filter f keep xs ys = filter (\<lambda>x. (f x \<in> set ys) = keep) xs"
proof (induction f keep xs ys rule: merge_filter.induct)
  case (2 f keep x xs ys)
  let ?ys = "dropWhile (\<lambda>y. y < f x) ys"
  have ys: "?ys = filter (\<lambda>y. f x \<le> y) ys" using dropWhile_up [OF "2.prems"(2)] .
  have has: "?ys \<noteq> [] \<and> hd ?ys = f x \<longleftrightarrow> f x \<in> set ys"
  proof
    assume "f x \<in> set ys"
    then have m: "f x \<in> set ?ys" unfolding ys by simp
    then obtain z zs where z: "?ys = z # zs" by (cases ?ys) auto
    have "ascending ?ys" unfolding ys using "2.prems"(2) by (rule sorted_wrt_filter)
    moreover have "f x \<le> z" using z unfolding ys by (metis (no_types, lifting) filter_eq_ConsD)
    ultimately show "?ys \<noteq> [] \<and> hd ?ys = f x" using m z by auto
  next
    assume "?ys \<noteq> [] \<and> hd ?ys = f x"
    then show "f x \<in> set ys" by (metis hd_in_set set_dropWhileD)
  qed
  have asc: "ascending ?ys" unfolding ys using "2.prems"(2) by (rule sorted_wrt_filter)
  have mem: "f u \<in> set ?ys \<longleftrightarrow> f u \<in> set ys" if "u \<in> set xs" for u
    using "2.prems"(1) that unfolding ys by (auto simp: less_imp_le)
  have "merge_filter f keep xs ?ys = filter (\<lambda>u. (f u \<in> set ?ys) = keep) xs"
  proof (cases "(?ys \<noteq> [] \<and> hd ?ys = f x) = keep")
    case True
    then show ?thesis using "2.IH"(1) [OF refl refl True] "2.prems"(1) asc by simp
  next
    case False
    then show ?thesis using "2.IH"(2) [OF refl refl False] "2.prems"(1) asc by simp
  qed
  also have "\<dots> = filter (\<lambda>u. (f u \<in> set ys) = keep) xs" using mem by (intro filter_cong) auto
  finally have rec: "merge_filter f keep xs ?ys = filter (\<lambda>u. (f u \<in> set ys) = keep) xs" .
  show ?case unfolding merge_filter.simps Let_def has rec by simp
qed simp

lemma gallop_filter:
  assumes "ascending xs" "ascending y" "from \<le> length y" "\<forall>u\<in>set (take from y). \<forall>x\<in>set xs. u < x"
  shows "gallop xs y from = filter (\<lambda>x. x \<in> set y) xs"
  using assms
proof (induction xs y "from" rule: gallop.induct)
  case (2 x xs y "from")
  have split: "set y = set (take from y) \<union> set (drop from y)" by (metis append_take_drop_id set_append)
  have out: "u \<notin> set (take from y)" if "u \<in> set (x # xs)" for u using "2.prems"(4) that by auto
  show ?case
  proof (cases "from < length y")
    case False
    then have "u \<notin> set y" if "u \<in> set (x # xs)" for u using out [OF that] by simp
    then have "filter (\<lambda>u. u \<in> set y) (x # xs) = []" by (intro filter_False) blast
    then show ?thesis using False by simp
  next
    case True
    define k where "k = arnm_roaring_lower_bound16 (drop from y) (length y - from) x"
    have asc: "ascending (drop from y)" using drop_ascending [OF "2.prems"(2)] .
    have len: "length (drop from y) = length y - from" by simp
    note lb = lower_bound_split [OF asc, of x, unfolded len, folded k_def]
    have found: "from + k < length y \<and> y ! (from + k) = x \<longleftrightarrow> x \<in> set y"
    proof -
      have "k < length y - from \<and> drop from y ! k = x \<longleftrightarrow> x \<in> set (drop from y)"
        using lower_bound_found [OF asc, of x] unfolding len k_def [symmetric] .
      moreover have "x \<in> set (drop from y) \<longleftrightarrow> x \<in> set y" using split out by auto
      ultimately show ?thesis using True by (auto simp: less_diff_conv add.commute)
    qed
    have k: "from + k \<le> length y" using lb(1) True by simp
    have below: "\<forall>u\<in>set (take (from + k) y). \<forall>z\<in>set xs. u < z"
    proof -
      have "set (take (from + k) y) = set (take from y) \<union> set (take k (drop from y))" by (metis set_append take_add)
      moreover have "u < x" if "u \<in> set (take k (drop from y))" for u using that unfolding lb(2) by simp
      ultimately show ?thesis using "2.prems"(1,4) by fastforce
    qed
    have asc_xs: "ascending xs" using "2.prems"(1) by simp
    have "gallop xs y (from + k) = filter (\<lambda>x. x \<in> set y) xs"
      using "2.IH"(1) [OF True k_def [THEN arg_cong [where f = "(+) from"]] _ asc_xs "2.prems"(2) k below]
        "2.IH"(2) [OF True k_def [THEN arg_cong [where f = "(+) from"]] _ asc_xs "2.prems"(2) k below] by blast
    then show ?thesis using True found by (simp add: Let_def k_def [symmetric])
  qed
qed simp

section \<open>What a clip shows\<close>

lemma bounds_le:
  assumes "arnm_roaring_key_of mn \<le> key" "key \<le> arnm_roaring_key_of mx" "mn \<le> mx"
    and "arnm_roaring_container_bounds key mn mx = (lo, hi)"
  shows "lo \<le> hi" "hi < 65536"
proof -
  show "hi < 65536" using assms(4) by (auto simp: arnm_roaring_container_bounds_def split: if_splits)
  have "mn mod 65536 \<le> mx mod 65536" if "mn div 65536 = mx div 65536"
    using assms(3) that by (metis add_le_cancel_left div_mult_mod_eq)
  moreover have "arnm_roaring_low_of mn \<le> 65535" using low_of_less [of mn] by linarith
  ultimately show "lo \<le> hi"
    using assms by (auto simp: arnm_roaring_container_bounds_def key_of_div low_of_mod split: if_splits)
qed

lemma clip_fields [simp]:
  "cl_container (make_clip c lo hi) = c" "cl_low (make_clip c lo hi) = lo" "cl_high (make_clip c lo hi) = hi"
  by (simp_all add: make_clip_def Let_def)

lemma clip_values_filter:
  assumes "view_ok c" "rc_kind c = ARNM_ROARING_ARRAY"
  shows "clip_values (make_clip c lo hi) = filter (within lo hi) (rc_array c)" "lows c = rc_array c"
proof -
  let ?xs = "rc_array c"
  show l: "lows c = ?xs" using assms(2) by (simp add: lows_def)
  have xs: "ascending ?xs" "rc_cardinality c = length ?xs" "\<forall>x\<in>set ?xs. x < 65536" using assms l by (simp_all add: view_ok_def)
  have "arnm_roaring_lower_bound16 ?xs (length ?xs) 0 = 0" by (simp add: arnm_roaring_lower_bound16_def)
  moreover have "arnm_roaring_upper_bound16 ?xs (length ?xs) 65535 = length ?xs"
  proof (cases "?xs = []")
    case False
    then have "?xs ! (length ?xs - 1) < 65536" using xs(3) by simp
    then show ?thesis by (simp add: arnm_roaring_upper_bound16_def)
  qed (simp add: arnm_roaring_upper_bound16_def)
  ultimately have "clip_values (make_clip c lo hi) =
      span (arnm_roaring_lower_bound16 ?xs (length ?xs) lo) (arnm_roaring_upper_bound16 ?xs (length ?xs) hi) ?xs"
    using assms(2) xs(2) by (simp add: clip_values_def make_clip_def Let_def)
  then show "clip_values (make_clip c lo hi) = filter (within lo hi) ?xs" using span_bounds(1) [OF xs(1)] by simp
qed

lemma words_div: "lo \<le> hi \<Longrightarrow> hi < 65536 \<Longrightarrow> drop_bit 6 lo \<le> drop_bit 6 hi \<and> drop_bit 6 hi < 1024" for lo hi :: nat
  by (simp add: drop_6 div_le_mono)

lemma clip_words_bits:
  assumes "view_ok c" "rc_kind c = ARNM_ROARING_BITMAP" "lo \<le> hi" "hi < 65536"
  shows "length (clip_words (make_clip c lo hi)) = Suc (drop_bit 6 hi - drop_bit 6 lo)"
    "i \<le> drop_bit 6 hi - drop_bit 6 lo \<Longrightarrow> clip_words (make_clip c lo hi) ! i = rc_words c ! (drop_bit 6 lo + i)"
    "lows c = bits_from 0 (rc_words c)" "length (rc_words c) = 1024"
proof -
  show "lows c = bits_from 0 (rc_words c)" using assms(2) by (simp add: lows_def)
  show n: "length (rc_words c) = 1024" using assms(1,2) by (simp add: view_ok_def ARNM_ROARING_BITMAP_WORDS_def)
  note d = words_div [OF assms(3,4)]
  show "length (clip_words (make_clip c lo hi)) = Suc (drop_bit 6 hi - drop_bit 6 lo)"
  proof -
    have "Suc (drop_bit 6 hi - drop_bit 6 lo) \<le> 1024 - drop_bit 6 lo" using d by linarith
    then show ?thesis using d n by (simp add: clip_words_def span_def Suc_diff_le)
  qed
  show "clip_words (make_clip c lo hi) ! i = rc_words c ! (drop_bit 6 lo + i)" if "i \<le> drop_bit 6 hi - drop_bit 6 lo"
  proof -
    have "i < Suc (drop_bit 6 hi) - drop_bit 6 lo" "drop_bit 6 lo \<le> 1024" using that d by linarith+
    then show ?thesis using n by (simp add: clip_words_def span_def)
  qed
qed

text \<open>Of a run of words that agrees with a predicate on every bit in reach, the values in range are those it holds of.\<close>

lemma words_in_range:
  assumes "length ws = Suc (drop_bit 6 hi - drop_bit 6 lo)" "lo \<le> hi"
    and "\<And>u b. drop_bit 6 lo \<le> u \<Longrightarrow> u \<le> drop_bit 6 hi \<Longrightarrow> b < 64 \<Longrightarrow> bit (ws ! (u - drop_bit 6 lo)) b \<longleftrightarrow> P (64 * u + b)"
  shows "set (filter (within lo hi) (bits_from (drop_bit 6 lo) ws)) = {x. within lo hi x \<and> P x}"
proof -
  have "x \<in> set (bits_from (drop_bit 6 lo) ws) \<longleftrightarrow> P x" if "within lo hi x" for x
  proof -
    have r: "drop_bit 6 lo \<le> x div 64" "x div 64 \<le> drop_bit 6 hi" using that by (simp_all add: drop_6 div_le_mono)
    then have "x \<in> set (bits_from (drop_bit 6 lo) ws) \<longleftrightarrow> bit (ws ! (x div 64 - drop_bit 6 lo)) (x mod 64)"
      using assms(1,2) by (auto simp: in_bits_from)
    also have "\<dots> \<longleftrightarrow> P (64 * (x div 64) + x mod 64)" using r by (intro assms(3)) simp_all
    finally show ?thesis by simp
  qed
  then show ?thesis by auto
qed

lemma bit_lows:
  "length ws = 1024 \<Longrightarrow> u < 1024 \<Longrightarrow> b < 64 \<Longrightarrow> bit (ws ! u) b \<longleftrightarrow> 64 * u + b \<in> set (bits_from 0 ws)"
  using in_bits_at [of b u 0 ws] by simp

text \<open>Setting and clearing bits in the run.\<close>

lemma bit_of_spot:
  fixes b :: nat
  assumes "b < 64" "drop_bit 6 v = u" shows "v AND 63 = b \<longleftrightarrow> v = 64 * u + b"
  unfolding and_63_mod assms(2) [symmetric] drop_6 by (metis add_left_cancel mult_div_mod_eq)

lemma set_bits_run:
  assumes "\<forall>v\<in>set vs. f \<le> drop_bit 6 v \<and> drop_bit 6 v < f + length ws" "f \<le> u" "u < f + length ws" "b < 64"
  shows "bit (fold (set_word_bit f) vs ws ! (u - f)) b \<longleftrightarrow> bit (ws ! (u - f)) b \<or> 64 * u + b \<in> set vs"
    "bit (fold (clear_word_bit f) vs ws ! (u - f)) b \<longleftrightarrow> bit (ws ! (u - f)) b \<and> 64 * u + b \<notin> set vs"
    "length (fold (set_word_bit f) vs ws) = length ws" "length (fold (clear_word_bit f) vs ws) = length ws"
proof -
  have one: "bit (push_bit (v AND 63) 1 :: 64 word) b \<longleftrightarrow> v AND 63 = b" for v :: nat
    using bit_one_shifted [of "v AND 63" b] by (auto simp: and_63_mod)
  have spot: "drop_bit 6 v - f = u - f \<longleftrightarrow> drop_bit 6 v = u" if "f \<le> drop_bit 6 v" for v :: nat using that assms(2) by auto
  show l: "length (fold (set_word_bit f) vs ws) = length ws" "length (fold (clear_word_bit f) vs ws) = length ws"
    by (induction vs arbitrary: ws) (simp_all add: set_word_bit_def clear_word_bit_def)
  show "bit (fold (set_word_bit f) vs ws ! (u - f)) b \<longleftrightarrow> bit (ws ! (u - f)) b \<or> 64 * u + b \<in> set vs"
    using assms(1,3)
  proof (induction vs arbitrary: ws)
    case (Cons v vs)
    have v: "f \<le> drop_bit 6 v" "drop_bit 6 v - f < length ws" using Cons.prems(1) by auto
    have "bit (set_word_bit f v ws ! (u - f)) b \<longleftrightarrow> bit (ws ! (u - f)) b \<or> v = 64 * u + b"
    proof (cases "drop_bit 6 v = u")
      case True
      then show ?thesis
        using v one [of v] bit_of_spot [OF assms(4) True] by (auto simp: set_word_bit_def bit_or_iff)
    next
      case False
      then have "v \<noteq> 64 * u + b" using assms(4) by (auto simp: drop_6)
      then show ?thesis using False spot [OF v(1)] by (simp add: set_word_bit_def)
    qed
    moreover have "length (set_word_bit f v ws) = length ws" by (simp add: set_word_bit_def)
    ultimately show ?case using Cons.IH [of "set_word_bit f v ws"] Cons.prems by auto
  qed simp
  show "bit (fold (clear_word_bit f) vs ws ! (u - f)) b \<longleftrightarrow> bit (ws ! (u - f)) b \<and> 64 * u + b \<notin> set vs"
    using assms(1,3)
  proof (induction vs arbitrary: ws)
    case (Cons v vs)
    have v: "f \<le> drop_bit 6 v" "drop_bit 6 v - f < length ws" using Cons.prems(1) by auto
    have "bit (clear_word_bit f v ws ! (u - f)) b \<longleftrightarrow> bit (ws ! (u - f)) b \<and> v \<noteq> 64 * u + b"
    proof (cases "drop_bit 6 v = u")
      case True
      then show ?thesis
        using v one [of v] bit_of_spot [OF assms(4) True] assms(4) by (auto simp: clear_word_bit_def bit_and_iff bit_not_iff)
    next
      case False
      then have "v \<noteq> 64 * u + b" using assms(4) by (auto simp: drop_6)
      then show ?thesis using False spot [OF v(1)] by (simp add: clear_word_bit_def)
    qed
    moreover have "length (clear_word_bit f v ws) = length ws" by (simp add: clear_word_bit_def)
    ultimately show ?case using Cons.IH [of "clear_word_bit f v ws"] Cons.prems by auto
  qed simp
qed

text \<open>A container that is no view of 32-bit values.\<close>

abbreviation narrow :: "roaring_container \<Rightarrow> bool" where
  "narrow c \<equiv> view_ok c \<and> rc_kind c \<noteq> ROARING_KIND_WIDE"

lemma narrow_kinds: "narrow c \<Longrightarrow> rc_kind c \<noteq> ARNM_ROARING_ARRAY \<Longrightarrow> rc_kind c = ARNM_ROARING_BITMAP"
  by (cases "rc_kind c") simp_all

section \<open>Each routine gives the set built what it promises\<close>

text \<open>What a routine adds: of the key, the low parts of a set, in their order.\<close>

context block_lending begin

abbreviation emits_lows :: "nat \<Rightarrow> (addr \<times> nat) multiset \<Rightarrow> nat set \<Rightarrow> roaring_bitmap \<Rightarrow> arnm_result \<Rightarrow> roaring_bitmap \<Rightarrow> 'w \<Rightarrow> bool" where
  "emits_lows key R X out r out' w' \<equiv>
    (\<exists>vs. emits (Suc key) R (map (arnm_roaring_value_of key) vs) out r out' w' \<and> set vs = X)"

lemma emit_list:
  assumes "sound w" "lent w = set_blocks out + R" "building key out" "key < 65536"
    and "ascending vs" "\<forall>x\<in>set vs. x < 65536" "length vs \<le> ARNM_ROARING_ARRAY_MAX"
    and "arnm_roaring_emit_array src out key vs w = (r, out', w')" "set vs = X"
  shows "emits_lows key R X out r out' w'"
  using emit_array_ok [OF assms(1-8)] assms(9) by blast

lemma emit_run:
  assumes "sound w" "lent w = set_blocks out + R" "building key out" "key < 65536"
    and "a = make_clip c lo hi" "rc_key c = key" "lo \<le> hi" "hi < 65536" "length ws = Suc (drop_bit 6 hi - drop_bit 6 lo)"
    and "emit_clipped src out a ws w = (r, out', w')"
    and "\<And>u b. drop_bit 6 lo \<le> u \<Longrightarrow> u \<le> drop_bit 6 hi \<Longrightarrow> b < 64 \<Longrightarrow> bit (ws ! (u - drop_bit 6 lo)) b \<longleftrightarrow> P (64 * u + b)"
  shows "emits_lows key R {x. within lo hi x \<and> P x} out r out' w'"
proof -
  obtain n cl where c: "arnm_roaring_clip_and_count ws lo hi = (n, cl)" by fastforce
  note cc = clip_and_count [OF assms(7-9) c]
  note d = words_div [OF assms(7,8)]
  have run: "arnm_roaring_emit_words src out key cl (drop_bit 6 lo) (drop_bit 6 hi) n w = (r, out', w')"
    using assms(5,6,10) c by (simp add: emit_clipped_def)
  have "length cl = Suc (drop_bit 6 hi - drop_bit 6 lo)" "drop_bit 6 lo \<le> drop_bit 6 hi" "drop_bit 6 hi < ARNM_ROARING_BITMAP_WORDS"
    using cc(3) assms(9) d by (simp_all add: ARNM_ROARING_BITMAP_WORDS_def)
  from emit_words_ok [OF assms(1-4) this cc(2) run] show ?thesis
    unfolding cc(1) using words_in_range [OF assms(9,7,11)] by blast
qed

lemma emit_clip_ok:
  assumes "sound w" "lent w = set_blocks out + R" "building (rc_key c) out" "view_ok c" "rc_kind c \<noteq> ROARING_KIND_WIDE"
    and "lo \<le> hi" "hi < 65536" "emit_clip src out (make_clip c lo hi) w = (r, out', w')"
  shows "emits_lows (rc_key c) R {x. within lo hi x \<and> x \<in> set (lows c)} out r out' w'"
proof (cases "rc_kind c = ARNM_ROARING_ARRAY")
  case True
  note cl = clip_values_filter(1) [OF assms(4) True, where lo = lo and hi = hi] clip_values_filter(2) [OF assms(4) True]
  have run: "arnm_roaring_emit_array src out (rc_key c) (filter (within lo hi) (lows c)) w = (r, out', w')"
    using assms(8) True cl by (simp add: emit_clip_def)
  have len: "length (filter (within lo hi) (lows c)) \<le> ARNM_ROARING_ARRAY_MAX"
    by (rule le_trans [OF length_filter_le]) (use assms(4) True cl(2) in \<open>simp add: view_ok_def\<close>)
  have key: "rc_key c < 65536" using assms(4) by (simp add: view_ok_def)
  show ?thesis
    by (rule emit_list [OF assms(1-3) key _ _ len run]) (use view_lows [OF assms(4)] in \<open>auto simp: sorted_wrt_filter\<close>)
next
  case False
  then have k: "rc_kind c = ARNM_ROARING_BITMAP" using assms(5) by (cases "rc_kind c") simp_all
  note cl = clip_words_bits [OF assms(4) k assms(6,7)]
  have key: "rc_key c < 65536" using assms(4) by (simp add: view_ok_def)
  have run: "emit_clipped src out (make_clip c lo hi) (clip_words (make_clip c lo hi)) w = (r, out', w')"
    using assms(8) False by (simp add: emit_clip_def)
  have bits: "bit (clip_words (make_clip c lo hi) ! (u - drop_bit 6 lo)) b \<longleftrightarrow> 64 * u + b \<in> set (lows c)"
    if "drop_bit 6 lo \<le> u" "u \<le> drop_bit 6 hi" "b < 64" for u b
    using cl(2) [of "u - drop_bit 6 lo"] bit_lows [OF cl(4), of u b] cl(3) that words_div [OF assms(6,7)] by simp
  show ?thesis
    by (rule emit_run [OF assms(1-3) key refl refl assms(6,7) cl(1) run bits])
qed

lemma array_pair:
  assumes "view_ok c" "rc_kind c = ARNM_ROARING_ARRAY"
  shows "ascending (clip_values (make_clip c lo hi))" "set (clip_values (make_clip c lo hi)) = {x. within lo hi x \<and> x \<in> set (lows c)}"
    "length (clip_values (make_clip c lo hi)) \<le> ARNM_ROARING_ARRAY_MAX" "\<forall>x\<in>set (clip_values (make_clip c lo hi)). x < 65536"
proof -
  note cl = clip_values_filter(1) [OF assms, where lo = lo and hi = hi] clip_values_filter(2) [OF assms]
  show "length (clip_values (make_clip c lo hi)) \<le> ARNM_ROARING_ARRAY_MAX"
    unfolding cl(1) by (rule le_trans [OF length_filter_le]) (use assms cl(2) in \<open>simp add: view_ok_def\<close>)
  show "ascending (clip_values (make_clip c lo hi))" "set (clip_values (make_clip c lo hi)) = {x. within lo hi x \<and> x \<in> set (lows c)}"
    "\<forall>x\<in>set (clip_values (make_clip c lo hi)). x < 65536"
    using view_lows [OF assms(1)] cl by (auto simp: sorted_wrt_filter)
qed

lemma and_arrays_ok:
  assumes "sound w" "lent w = set_blocks out + R" "building (rc_key x) out" "view_ok x" "view_ok y"
    and "rc_kind x = ARNM_ROARING_ARRAY" "rc_kind y = ARNM_ROARING_ARRAY" "and_arrays src out (make_clip x lo hi) (make_clip y lo hi) w = (r, out', w')"
  shows "emits_lows (rc_key x) R {v. within lo hi v \<and> v \<in> set (lows x) \<and> v \<in> set (lows y)} out r out' w'"
proof -
  note px = array_pair [OF assms(4,6), where lo = lo and hi = hi] and py = array_pair [OF assms(5,7), where lo = lo and hi = hi]
  let ?x0 = "clip_values (make_clip x lo hi)" and ?y0 = "clip_values (make_clip y lo hi)"
  define X where "X = (if length ?x0 > length ?y0 then ?y0 else ?x0)"
  define Y where "Y = (if length ?x0 > length ?y0 then ?x0 else ?y0)"
  have XY: "ascending X" "ascending Y" "length X \<le> ARNM_ROARING_ARRAY_MAX" "\<forall>v\<in>set X. v < 65536"
    "{v. v \<in> set X \<and> v \<in> set Y} = {v. within lo hi v \<and> v \<in> set (lows x) \<and> v \<in> set (lows y)}"
    using px py by (auto simp: X_def Y_def)
  have vals: "(if length X * 32 < length Y then gallop X Y 0 else and_merge X Y) = filter (\<lambda>v. v \<in> set Y) X"
    using gallop_filter [OF XY(1,2), of 0] and_merge_filter [OF XY(1,2)] by simp
  have run: "arnm_roaring_emit_array src out (rc_key x) (filter (\<lambda>v. v \<in> set Y) X) w = (r, out', w')"
    using assms(8) unfolding and_arrays_def Let_def X_def [symmetric] Y_def [symmetric] vals by simp
  have key: "rc_key x < 65536" using assms(4) by (simp add: view_ok_def)
  have len: "length (filter (\<lambda>v. v \<in> set Y) X) \<le> ARNM_ROARING_ARRAY_MAX" using XY(3) length_filter_le le_trans by blast
  show ?thesis
    by (rule emit_list [OF assms(1-3) key _ _ len run]) (use XY in \<open>auto simp: sorted_wrt_filter\<close>)
qed

lemma andnot_arrays_ok:
  assumes "sound w" "lent w = set_blocks out + R" "building (rc_key x) out" "view_ok x" "view_ok y"
    and "rc_kind x = ARNM_ROARING_ARRAY" "rc_kind y = ARNM_ROARING_ARRAY" "andnot_arrays src out (make_clip x lo hi) (make_clip y lo hi) w = (r, out', w')"
  shows "emits_lows (rc_key x) R {v. within lo hi v \<and> v \<in> set (lows x) \<and> v \<notin> set (lows y)} out r out' w'"
proof -
  note px = array_pair [OF assms(4,6), where lo = lo and hi = hi] and py = array_pair [OF assms(5,7), where lo = lo and hi = hi]
  let ?X = "clip_values (make_clip x lo hi)" and ?Y = "clip_values (make_clip y lo hi)"
  have vals: "merge_filter id False ?X ?Y = filter (\<lambda>v. v \<notin> set ?Y) ?X"
    using merge_filter_keeps [of id ?X ?Y False] px(1) py(1) by simp
  have run: "arnm_roaring_emit_array src out (rc_key x) (filter (\<lambda>v. v \<notin> set ?Y) ?X) w = (r, out', w')"
    using assms(8) unfolding andnot_arrays_def vals by simp
  have key: "rc_key x < 65536" using assms(4) by (simp add: view_ok_def)
  have len: "length (filter (\<lambda>v. v \<notin> set ?Y) ?X) \<le> ARNM_ROARING_ARRAY_MAX" using px(3) length_filter_le le_trans by blast
  show ?thesis
    by (rule emit_list [OF assms(1-3) key _ _ len run]) (use px py in \<open>auto simp: sorted_wrt_filter\<close>)
qed

lemma filter_by_words_ok:
  assumes "sound w" "lent w = set_blocks out + R" "building (rc_key x) out" "view_ok x" "view_ok y"
    and "rc_kind x = ARNM_ROARING_ARRAY" "rc_kind y = ARNM_ROARING_BITMAP"
    and "filter_array_by_words src out (make_clip x lo hi) (make_clip y lo hi) keep w = (r, out', w')"
  shows "emits_lows (rc_key x) R {v. within lo hi v \<and> v \<in> set (lows x) \<and> (v \<in> set (lows y)) = keep} out r out' w'"
proof -
  note px = array_pair [OF assms(4,6), where lo = lo and hi = hi]
  let ?X = "clip_values (make_clip x lo hi)"
  have y: "length (rc_words y) = 1024" "lows y = bits_from 0 (rc_words y)"
    using assms(5,7) by (simp_all add: view_ok_def lows_def ARNM_ROARING_BITMAP_WORDS_def)
  have "filter (\<lambda>v. get_bit (rc_words y) v = keep) ?X = filter (\<lambda>v. (v \<in> set (lows y)) = keep) ?X"
    using px(4) y in_words by (intro filter_cong) (auto simp: get_bit_iff)
  then have run: "arnm_roaring_emit_array src out (rc_key x) (filter (\<lambda>v. (v \<in> set (lows y)) = keep) ?X) w = (r, out', w')"
    using assms(8) by (simp add: filter_array_by_words_def)
  have key: "rc_key x < 65536" using assms(4) by (simp add: view_ok_def)
  have len: "length (filter (\<lambda>v. (v \<in> set (lows y)) = keep) ?X) \<le> ARNM_ROARING_ARRAY_MAX" using px(3) length_filter_le le_trans by blast
  show ?thesis
    by (rule emit_list [OF assms(1-3) key _ _ len run]) (use px in \<open>auto simp: sorted_wrt_filter\<close>)
qed

lemma combine_words_ok:
  assumes "sound w" "lent w = set_blocks out + R" "building (rc_key x) out" "view_ok x" "view_ok y"
    and "rc_kind x = ARNM_ROARING_BITMAP" "rc_kind y = ARNM_ROARING_BITMAP" "lo \<le> hi" "hi < 65536"
    and "combine_words src out (make_clip x lo hi) (make_clip y lo hi) op w = (r, out', w')"
  shows "emits_lows (rc_key x) R {v. within lo hi v \<and> (case op of
      WORD_AND \<Rightarrow> v \<in> set (lows x) \<and> v \<in> set (lows y)
    | WORD_OR \<Rightarrow> v \<in> set (lows x) \<or> v \<in> set (lows y)
    | WORD_ANDNOT \<Rightarrow> v \<in> set (lows x) \<and> v \<notin> set (lows y))} out r out' w'"
proof -
  note d = words_div [OF assms(8,9)]
  have n: "length (rc_words x) = 1024" "length (rc_words y) = 1024"
    "lows x = bits_from 0 (rc_words x)" "lows y = bits_from 0 (rc_words y)"
    using assms(4-7) by (simp_all add: view_ok_def lows_def ARNM_ROARING_BITMAP_WORDS_def)
  define f where "f = (\<lambda>i. case op of WORD_AND \<Rightarrow> rc_words x ! i AND rc_words y ! i
    | WORD_OR \<Rightarrow> rc_words x ! i OR rc_words y ! i | WORD_ANDNOT \<Rightarrow> rc_words x ! i AND NOT (rc_words y ! i))"
  define ws where "ws = map f [drop_bit 6 lo..<Suc (drop_bit 6 hi)]"
  have run: "emit_clipped src out (make_clip x lo hi) ws w = (r, out', w')"
    using assms(10) by (cases op) (simp_all add: combine_words_def ws_def f_def Let_def)
  have len: "length ws = Suc (drop_bit 6 hi - drop_bit 6 lo)" using d by (simp add: ws_def Suc_diff_le)
  have bits: "bit (ws ! (u - drop_bit 6 lo)) b \<longleftrightarrow> (case op of
      WORD_AND \<Rightarrow> 64 * u + b \<in> set (lows x) \<and> 64 * u + b \<in> set (lows y)
    | WORD_OR \<Rightarrow> 64 * u + b \<in> set (lows x) \<or> 64 * u + b \<in> set (lows y)
    | WORD_ANDNOT \<Rightarrow> 64 * u + b \<in> set (lows x) \<and> 64 * u + b \<notin> set (lows y))"
    if u: "drop_bit 6 lo \<le> u" "u \<le> drop_bit 6 hi" "b < 64" for u b
  proof -
    have "u < 1024" using u d by linarith
    note xy = bit_lows [OF n(1) this u(3), folded n(3)] bit_lows [OF n(2) this u(3), folded n(4)]
    have "drop_bit 6 lo + (u - drop_bit 6 lo) = u" "u - drop_bit 6 lo < Suc (drop_bit 6 hi) - drop_bit 6 lo" using u by linarith+
    then have "ws ! (u - drop_bit 6 lo) = f u" by (simp add: ws_def del: upt_Suc)
    then show ?thesis using xy u(3) by (cases op) (simp_all add: f_def bit_and_iff bit_or_iff bit_not_iff)
  qed
  have key: "rc_key x < 65536" using assms(4) by (simp add: view_ok_def)
  show ?thesis by (rule emit_run [OF assms(1-3) key refl refl assms(8,9) len run bits])
qed

lemma words_with_array_ok:
  assumes "sound w" "lent w = set_blocks out + R" "building (rc_key x) out" "view_ok x" "view_ok y"
    and "rc_kind x = ARNM_ROARING_BITMAP" "rc_kind y = ARNM_ROARING_ARRAY" "lo \<le> hi" "hi < 65536"
    and "words_with_array src out (make_clip x lo hi) (make_clip y lo hi) st w = (r, out', w')"
  shows "emits_lows (rc_key x) R {v. within lo hi v \<and>
    (if st then v \<in> set (lows x) \<or> v \<in> set (lows y) else v \<in> set (lows x) \<and> v \<notin> set (lows y))} out r out' w'"
proof -
  note d = words_div [OF assms(8,9)]
  note py = array_pair [OF assms(5,7), where lo = lo and hi = hi]
  note cl = clip_words_bits [OF assms(4,6,8,9)]
  let ?f = "drop_bit 6 lo" and ?Y = "clip_values (make_clip y lo hi)" and ?W = "clip_words (make_clip x lo hi)"
  define ws where "ws = fold (if st then set_word_bit ?f else clear_word_bit ?f) ?Y ?W"
  have run: "emit_clipped src out (make_clip x lo hi) ws w = (r, out', w')"
    using assms(10) by (simp add: words_with_array_def ws_def Let_def)
  have spots: "\<forall>v\<in>set ?Y. ?f \<le> drop_bit 6 v \<and> drop_bit 6 v < ?f + length ?W"
  proof
    fix v assume "v \<in> set ?Y"
    then have "within lo hi v" using py(2) by simp
    then have "?f \<le> drop_bit 6 v" "drop_bit 6 v \<le> drop_bit 6 hi" by (simp_all add: drop_6 div_le_mono)
    then show "?f \<le> drop_bit 6 v \<and> drop_bit 6 v < ?f + length ?W" using cl(1) d by linarith
  qed
  have len: "length ws = Suc (drop_bit 6 hi - ?f)"
    using set_bits_run(3,4) [OF spots, of ?f 0] cl(1) by (simp add: ws_def)
  have bits: "bit (ws ! (u - ?f)) b \<longleftrightarrow> (if st then 64 * u + b \<in> set (lows x) \<or> 64 * u + b \<in> set ?Y
      else 64 * u + b \<in> set (lows x) \<and> 64 * u + b \<notin> set ?Y)"
    if u: "?f \<le> u" "u \<le> drop_bit 6 hi" "b < 64" for u b
  proof -
    have lt: "u < ?f + length ?W" "u < 1024" "u - ?f \<le> drop_bit 6 hi - ?f" "?f + (u - ?f) = u" using u cl(1) d by linarith+
    then have "bit (?W ! (u - ?f)) b \<longleftrightarrow> 64 * u + b \<in> set (lows x)"
      using cl(2) [OF lt(3)] bit_lows [OF cl(4) lt(2) u(3)] cl(3) by simp
    then show ?thesis using set_bits_run(1,2) [OF spots u(1) lt(1) u(3)] by (simp add: ws_def)
  qed
  have key: "rc_key x < 65536" using assms(4) by (simp add: view_ok_def)
  have "emits_lows (rc_key x) R {v. within lo hi v \<and>
      (if st then v \<in> set (lows x) \<or> v \<in> set ?Y else v \<in> set (lows x) \<and> v \<notin> set ?Y)} out r out' w'"
    by (rule emit_run [OF assms(1-3) key refl refl assms(8,9) len run bits])
  moreover have "{v. within lo hi v \<and> (if st then v \<in> set (lows x) \<or> v \<in> set ?Y else v \<in> set (lows x) \<and> v \<notin> set ?Y)} =
      {v. within lo hi v \<and> (if st then v \<in> set (lows x) \<or> v \<in> set (lows y) else v \<in> set (lows x) \<and> v \<notin> set (lows y))}"
    unfolding py(2) by auto
  ultimately show ?thesis by simp
qed

lemma or_arrays_ok:
  assumes "sound w" "lent w = set_blocks out + R" "building (rc_key x) out" "view_ok x" "view_ok y"
    and "rc_kind x = ARNM_ROARING_ARRAY" "rc_kind y = ARNM_ROARING_ARRAY" "lo \<le> hi" "hi < 65536"
    and "or_arrays src out (make_clip x lo hi) (make_clip y lo hi) w = (r, out', w')"
  shows "emits_lows (rc_key x) R {v. within lo hi v \<and> (v \<in> set (lows x) \<or> v \<in> set (lows y))} out r out' w'"
proof -
  note d = words_div [OF assms(8,9)]
  note px = array_pair [OF assms(4,6), where lo = lo and hi = hi] and py = array_pair [OF assms(5,7), where lo = lo and hi = hi]
  let ?X = "clip_values (make_clip x lo hi)" and ?Y = "clip_values (make_clip y lo hi)"
  let ?f = "drop_bit 6 lo" and ?l = "drop_bit 6 hi"
  have both: "set ?X \<union> set ?Y = {v. within lo hi v \<and> (v \<in> set (lows x) \<or> v \<in> set (lows y))}" using px(2) py(2) by auto
  have key: "rc_key x < 65536" using assms(4) by (simp add: view_ok_def)
  have small: "u32 (length ?X + length ?Y) = length ?X + length ?Y"
    using px(3) py(3) by (simp add: ARNM_ROARING_ARRAY_MAX_def UINT32_MAX_def)
  show ?thesis
  proof (cases "length ?X + length ?Y > ARNM_ROARING_ARRAY_MAX")
    case False
    have run: "arnm_roaring_emit_array src out (rc_key x) (or_merge ?X ?Y) w = (r, out', w')"
      using assms(10) small False by (simp add: or_arrays_def Let_def)
    have len: "length (or_merge ?X ?Y) \<le> ARNM_ROARING_ARRAY_MAX" using or_merge_union(2) [of ?X ?Y] False by linarith
    have low: "\<forall>v\<in>set (or_merge ?X ?Y). v < 65536" using px(4) py(4) by (auto simp: or_merge_union(1))
    show ?thesis
      by (rule emit_list [OF assms(1-3) key or_merge_ascending [OF px(1) py(1)] low len run]) (simp only: or_merge_union(1) both)
  next
    case True
    define ws0 where "ws0 = (replicate (Suc ?l - ?f) 0 :: 64 word list)"
    define ws where "ws = fold (set_word_bit ?f) ?Y (fold (set_word_bit ?f) ?X ws0)"
    have l0: "length ws0 = Suc (?l - ?f)" using d by (simp add: ws0_def Suc_diff_le)
    have spots: "\<forall>v\<in>set ?X \<union> set ?Y. ?f \<le> drop_bit 6 v \<and> drop_bit 6 v < ?f + length ws0"
    proof
      fix v assume "v \<in> set ?X \<union> set ?Y"
      then have "within lo hi v" unfolding both by simp
      then have "?f \<le> drop_bit 6 v" "drop_bit 6 v \<le> ?l" by (simp_all add: drop_6 div_le_mono)
      then show "?f \<le> drop_bit 6 v \<and> drop_bit 6 v < ?f + length ws0" using l0 d by linarith
    qed
    have sx: "\<forall>v\<in>set ?X. ?f \<le> drop_bit 6 v \<and> drop_bit 6 v < ?f + length ws0" using spots by blast
    have l1: "length (fold (set_word_bit ?f) ?X ws0) = length ws0" by (rule set_bits_run(3) [OF sx, of ?f 0]) (use l0 in simp_all)
    have sy: "\<forall>v\<in>set ?Y. ?f \<le> drop_bit 6 v \<and> drop_bit 6 v < ?f + length (fold (set_word_bit ?f) ?X ws0)" using spots l1 by simp
    have len: "length ws = Suc (?l - ?f)" unfolding ws_def using set_bits_run(3) [OF sy, of ?f 0] l0 l1 by simp
    have bits: "bit (ws ! (u - ?f)) b \<longleftrightarrow> 64 * u + b \<in> set ?X \<union> set ?Y" if u: "?f \<le> u" "u \<le> ?l" "b < 64" for u b
    proof -
      have lt: "u < ?f + length ws0" "u - ?f < Suc ?l - ?f" using u l0 by linarith+
      then have "bit (ws0 ! (u - ?f)) b \<longleftrightarrow> False" by (simp add: ws0_def)
      then show ?thesis
        using set_bits_run(1) [OF sy u(1) _ u(3)] set_bits_run(1) [OF sx u(1) lt(1) u(3)] lt(1) l1 by (simp add: ws_def)
    qed
    have in_ws: "set (bits_from ?f ws) = set ?X \<union> set ?Y"
    proof -
      have "v \<in> set (bits_from ?f ws) \<longleftrightarrow> v \<in> set ?X \<union> set ?Y" for v
      proof (cases "?f \<le> v div 64 \<and> v div 64 \<le> ?l")
        case True
        then show ?thesis using bits [of "v div 64" "v mod 64"] len d by (simp add: in_bits_from)
      next
        case False
        then have "v \<notin> set (bits_from ?f ws)" using len d by (auto simp: in_bits_from)
        moreover have "v \<notin> set ?X \<union> set ?Y"
        proof
          assume "v \<in> set ?X \<union> set ?Y"
          then have "?f \<le> drop_bit 6 v \<and> drop_bit 6 v < ?f + length ws0" using spots by blast
          then show False using False l0 d by (simp add: drop_6)
        qed
        ultimately show ?thesis by simp
      qed
      then show ?thesis by blast
    qed
    have pos: "(\<Sum>x\<leftarrow>ws. arnm_popcountll x) = length (bits_from ?f ws)" by (simp add: length_bits_from)
    have "length (bits_from ?f ws) \<le> 65536"
      by (rule ascending_length [OF bits_from_ascending]) (use in_ws px(4) py(4) in auto)
    then have card: "u32 (\<Sum>x\<leftarrow>ws. arnm_popcountll x) = length (bits_from ?f ws)" unfolding pos by (simp add: UINT32_MAX_def)
    have run: "arnm_roaring_emit_words src out (rc_key x) ws ?f ?l (length (bits_from ?f ws)) w = (r, out', w')"
      using assms(10) small True card by (simp add: or_arrays_def Let_def ws_def ws0_def)
    have fl: "?f \<le> ?l" "?l < ARNM_ROARING_BITMAP_WORDS" using d by (simp_all add: ARNM_ROARING_BITMAP_WORDS_def)
    from emit_words_ok [OF assms(1-3) key len fl refl run] show ?thesis using in_ws both by blast
  qed
qed

text \<open>The choice by the kinds, for each operation.\<close>

lemma and_containers_ok:
  assumes "sound w" "lent w = set_blocks out + R" "building (rc_key x) out" "narrow x" "narrow y" "rc_key x = rc_key y" "lo \<le> hi" "hi < 65536"
    and "and_containers src out (make_clip x lo hi) (make_clip y lo hi) w = (r, out', w')"
  shows "emits_lows (rc_key x) R {v. within lo hi v \<and> v \<in> set (lows x) \<and> v \<in> set (lows y)} out r out' w'"
proof -
  note run = assms(9) [unfolded and_containers_def Let_def clip_fields]
  have v: "view_ok x" "view_ok y" using assms(4,5) by simp_all
  have yb: "building (rc_key y) out" using assms(3,6) by simp
  show ?thesis
  proof (cases "rc_kind x = ARNM_ROARING_ARRAY"; cases "rc_kind y = ARNM_ROARING_ARRAY")
    assume k: "rc_kind x = ARNM_ROARING_ARRAY" "rc_kind y = ARNM_ROARING_ARRAY"
    show ?thesis by (rule and_arrays_ok [OF assms(1-3) v k]) (use run k in simp)
  next
    assume k: "rc_kind x = ARNM_ROARING_ARRAY" "rc_kind y \<noteq> ARNM_ROARING_ARRAY"
    show ?thesis using filter_by_words_ok [OF assms(1-3) v k(1) narrow_kinds [OF assms(5) k(2)], of lo hi True] run k by simp
  next
    assume k: "rc_kind x \<noteq> ARNM_ROARING_ARRAY" "rc_kind y = ARNM_ROARING_ARRAY"
    then have "emits_lows (rc_key y) R {u. within lo hi u \<and> u \<in> set (lows y) \<and> (u \<in> set (lows x)) = True} out r out' w'"
      using filter_by_words_ok [OF assms(1,2) yb v(2,1) k(2) narrow_kinds [OF assms(4) k(1)], of lo hi True] run by simp
    then show ?thesis unfolding assms(6) by (simp add: conj_ac)
  next
    assume k: "rc_kind x \<noteq> ARNM_ROARING_ARRAY" "rc_kind y \<noteq> ARNM_ROARING_ARRAY"
    show ?thesis
      using combine_words_ok [OF assms(1-3) v narrow_kinds [OF assms(4) k(1)] narrow_kinds [OF assms(5) k(2)] assms(7,8), of WORD_AND] run k by simp
  qed
qed

lemma or_containers_ok:
  assumes "sound w" "lent w = set_blocks out + R" "building (rc_key x) out" "narrow x" "narrow y" "rc_key x = rc_key y" "lo \<le> hi" "hi < 65536"
    and "or_containers src out (make_clip x lo hi) (make_clip y lo hi) w = (r, out', w')"
  shows "emits_lows (rc_key x) R {v. within lo hi v \<and> (v \<in> set (lows x) \<or> v \<in> set (lows y))} out r out' w'"
proof -
  note run = assms(9) [unfolded or_containers_def Let_def clip_fields]
  have v: "view_ok x" "view_ok y" using assms(4,5) by simp_all
  have yb: "building (rc_key y) out" using assms(3,6) by simp
  show ?thesis
  proof (cases "rc_kind x = ARNM_ROARING_ARRAY"; cases "rc_kind y = ARNM_ROARING_ARRAY")
    assume k: "rc_kind x = ARNM_ROARING_ARRAY" "rc_kind y = ARNM_ROARING_ARRAY"
    show ?thesis by (rule or_arrays_ok [OF assms(1-3) v k assms(7,8)]) (use run k in simp)
  next
    assume k: "rc_kind x = ARNM_ROARING_ARRAY" "rc_kind y \<noteq> ARNM_ROARING_ARRAY"
    then have "emits_lows (rc_key y) R {u. within lo hi u \<and> (u \<in> set (lows y) \<or> u \<in> set (lows x))} out r out' w'"
      using words_with_array_ok [OF assms(1,2) yb v(2,1) narrow_kinds [OF assms(5) k(2)] k(1) assms(7,8), of True] run by simp
    then show ?thesis unfolding assms(6) by (simp add: disj_commute)
  next
    assume k: "rc_kind x \<noteq> ARNM_ROARING_ARRAY" "rc_kind y = ARNM_ROARING_ARRAY"
    show ?thesis
      using words_with_array_ok [OF assms(1-3) v narrow_kinds [OF assms(4) k(1)] k(2) assms(7,8), of True] run k by simp
  next
    assume k: "rc_kind x \<noteq> ARNM_ROARING_ARRAY" "rc_kind y \<noteq> ARNM_ROARING_ARRAY"
    show ?thesis
      using combine_words_ok [OF assms(1-3) v narrow_kinds [OF assms(4) k(1)] narrow_kinds [OF assms(5) k(2)] assms(7,8), of WORD_OR] run k by simp
  qed
qed

lemma andnot_containers_ok:
  assumes "sound w" "lent w = set_blocks out + R" "building (rc_key x) out" "narrow x" "narrow y" "lo \<le> hi" "hi < 65536"
    and "andnot_containers src out (make_clip x lo hi) (make_clip y lo hi) w = (r, out', w')"
  shows "emits_lows (rc_key x) R {v. within lo hi v \<and> v \<in> set (lows x) \<and> v \<notin> set (lows y)} out r out' w'"
proof -
  note run = assms(8) [unfolded andnot_containers_def Let_def clip_fields]
  have v: "view_ok x" "view_ok y" using assms(4,5) by simp_all
  show ?thesis
  proof (cases "rc_kind x = ARNM_ROARING_ARRAY"; cases "rc_kind y = ARNM_ROARING_ARRAY")
    assume k: "rc_kind x = ARNM_ROARING_ARRAY" "rc_kind y = ARNM_ROARING_ARRAY"
    show ?thesis by (rule andnot_arrays_ok [OF assms(1-3) v k]) (use run k in simp)
  next
    assume k: "rc_kind x = ARNM_ROARING_ARRAY" "rc_kind y \<noteq> ARNM_ROARING_ARRAY"
    show ?thesis using filter_by_words_ok [OF assms(1-3) v k(1) narrow_kinds [OF assms(5) k(2)], of lo hi False] run k by simp
  next
    assume k: "rc_kind x \<noteq> ARNM_ROARING_ARRAY" "rc_kind y = ARNM_ROARING_ARRAY"
    show ?thesis
      using words_with_array_ok [OF assms(1-3) v narrow_kinds [OF assms(4) k(1)] k(2) assms(6,7), of False] run k by simp
  next
    assume k: "rc_kind x \<noteq> ARNM_ROARING_ARRAY" "rc_kind y \<noteq> ARNM_ROARING_ARRAY"
    show ?thesis
      using combine_words_ok [OF assms(1-3) v narrow_kinds [OF assms(4) k(1)] narrow_kinds [OF assms(5) k(2)] assms(6,7), of WORD_ANDNOT] run k by simp
  qed
qed

end

end
