(* ===== verification/Roaring_Ops.thy ===== *)
theory Roaring_Ops
  imports Roaring_Kernels
begin

text \<open>
  The operations that build a set out of others (\<^verbatim>\<open>src/roaring_ops.c\<close>): and, or, and-not and the copy of
  a range. Two sources go up together; where they meet in a key, a routine of \<open>Roaring_Kernels\<close> combines
  the two containers.

  The C functions take pointers, and only compare them: here the sets lie in a store by address, and an
  operation answers the store with the set at \<open>out\<close> replaced.
\<close>

section \<open>The operations\<close>

text \<open>The loops end because the sources do; a loop that did not would be \<open>None\<close>.\<close>

definition finish_op :: "'w block_source \<Rightarrow> arnm_result \<times> roaring_bitmap \<times> 'w \<Rightarrow> arnm_result \<times> roaring_bitmap \<times> 'w" where
  "finish_op src = (\<lambda>(r, out, w).
    if r \<noteq> ARNM_SUCCESS then (case arnm_roaring_free src (Some out) (Some w) of (out, w) \<Rightarrow> (r, the out, the w))
    else (r, out, w))"

partial_function (option) and_loop :: "'w block_source \<Rightarrow> nat \<Rightarrow> nat \<Rightarrow> roaring_source \<Rightarrow> roaring_source \<Rightarrow> roaring_bitmap \<Rightarrow> 'w \<Rightarrow>
    (arnm_result \<times> roaring_bitmap \<times> 'w) option" where
  "and_loop src mn mx sa sb out w =
    (case so_current sa of None \<Rightarrow> Some (ARNM_SUCCESS, out, w)
     | Some x \<Rightarrow>
       (case so_current sb of None \<Rightarrow> Some (ARNM_SUCCESS, out, w)
        | Some y \<Rightarrow>
          if rc_key x < rc_key y then and_loop src mn mx (arnm_roaring_source_advance sa) sb out w
          else if rc_key x > rc_key y then and_loop src mn mx sa (arnm_roaring_source_advance sb) out w
          else
            (case arnm_roaring_container_bounds (rc_key x) mn mx of
               (low, high) \<Rightarrow>
                 (case and_containers src out (make_clip x low high) (make_clip y low high) w of
                    (r, out, w) \<Rightarrow>
                      if r \<noteq> ARNM_SUCCESS then Some (finish_op src (r, out, w))
                      else and_loop src mn mx (arnm_roaring_source_advance sa) (arnm_roaring_source_advance sb) out w))))"

partial_function (option) or_loop :: "'w block_source \<Rightarrow> nat \<Rightarrow> nat \<Rightarrow> roaring_source \<Rightarrow> roaring_source \<Rightarrow> roaring_bitmap \<Rightarrow> 'w \<Rightarrow>
    (arnm_result \<times> roaring_bitmap \<times> 'w) option" where
  "or_loop src mn mx sa sb out w =
    (let x = so_current sa; y = so_current sb
     in if x = None \<and> y = None then Some (ARNM_SUCCESS, out, w)
        else if y = None \<or> x \<noteq> None \<and> rc_key (the x) < rc_key (the y) then
          (case arnm_roaring_container_bounds (rc_key (the x)) mn mx of
             (low, high) \<Rightarrow>
               (case emit_clip src out (make_clip (the x) low high) w of
                  (r, out, w) \<Rightarrow>
                    if r \<noteq> ARNM_SUCCESS then Some (finish_op src (r, out, w))
                    else or_loop src mn mx (arnm_roaring_source_advance sa) sb out w))
        else if x = None \<or> rc_key (the y) < rc_key (the x) then
          (case arnm_roaring_container_bounds (rc_key (the y)) mn mx of
             (low, high) \<Rightarrow>
               (case emit_clip src out (make_clip (the y) low high) w of
                  (r, out, w) \<Rightarrow>
                    if r \<noteq> ARNM_SUCCESS then Some (finish_op src (r, out, w))
                    else or_loop src mn mx sa (arnm_roaring_source_advance sb) out w))
        else
          (case arnm_roaring_container_bounds (rc_key (the x)) mn mx of
             (low, high) \<Rightarrow>
               (case or_containers src out (make_clip (the x) low high) (make_clip (the y) low high) w of
                  (r, out, w) \<Rightarrow>
                    if r \<noteq> ARNM_SUCCESS then Some (finish_op src (r, out, w))
                    else or_loop src mn mx (arnm_roaring_source_advance sa) (arnm_roaring_source_advance sb) out w)))"

text \<open>The inner loop of and-not: the second source moves up to the key of the first.\<close>

partial_function (option) advance_to :: "nat \<Rightarrow> roaring_source \<Rightarrow> roaring_source option" where
  "advance_to key sb =
    (case so_current sb of None \<Rightarrow> Some sb
     | Some y \<Rightarrow> if rc_key y < key then advance_to key (arnm_roaring_source_advance sb) else Some sb)"

partial_function (option) andnot_loop :: "'w block_source \<Rightarrow> nat \<Rightarrow> nat \<Rightarrow> roaring_source \<Rightarrow> roaring_source \<Rightarrow> roaring_bitmap \<Rightarrow> 'w \<Rightarrow>
    (arnm_result \<times> roaring_bitmap \<times> 'w) option" where
  "andnot_loop src mn mx sa sb out w =
    (case so_current sa of None \<Rightarrow> Some (ARNM_SUCCESS, out, w)
     | Some x \<Rightarrow>
       Option.bind (advance_to (rc_key x) sb) (\<lambda>sb.
         case arnm_roaring_container_bounds (rc_key x) mn mx of
           (low, high) \<Rightarrow>
             (case (case so_current sb of
                      None \<Rightarrow> emit_clip src out (make_clip x low high) w
                    | Some y \<Rightarrow>
                      if rc_key y \<noteq> rc_key x then emit_clip src out (make_clip x low high) w
                      else andnot_containers src out (make_clip x low high) (make_clip y low high) w) of
                (r, out, w) \<Rightarrow>
                  if r \<noteq> ARNM_SUCCESS then Some (finish_op src (r, out, w))
                  else andnot_loop src mn mx (arnm_roaring_source_advance sa) sb out w)))"

partial_function (option) copy_loop :: "'w block_source \<Rightarrow> nat \<Rightarrow> nat \<Rightarrow> roaring_source \<Rightarrow> roaring_bitmap \<Rightarrow> 'w \<Rightarrow>
    (arnm_result \<times> roaring_bitmap \<times> 'w) option" where
  "copy_loop src mn mx s out w =
    (case so_current s of None \<Rightarrow> Some (ARNM_SUCCESS, out, w)
     | Some x \<Rightarrow>
       (case arnm_roaring_container_bounds (rc_key x) mn mx of
          (low, high) \<Rightarrow>
            (case emit_clip src out (make_clip x low high) w of
               (r, out, w) \<Rightarrow>
                 if r \<noteq> ARNM_SUCCESS then Some (finish_op src (r, out, w))
                 else copy_loop src mn mx (arnm_roaring_source_advance s) out w)))"

section \<open>Inputs that are arrays of values\<close>

text \<open>The values of one key against the container of that key, if there is one.\<close>

definition keep_in_key :: "bool \<Rightarrow> roaring_container option \<Rightarrow> nat list \<Rightarrow> nat list" where
  "keep_in_key keep container vs =
    (case container of
       None \<Rightarrow> filter (\<lambda>v. False = keep) vs
     | Some c \<Rightarrow>
       if rc_kind c = ARNM_ROARING_BITMAP then filter (\<lambda>v. get_bit (rc_words c) (arnm_roaring_low_of v) = keep) vs
       else merge_filter arnm_roaring_low_of keep vs (rc_array c))"

function filter_by_containers :: "bool \<Rightarrow> roaring_container list \<Rightarrow> nat list \<Rightarrow> nat list" where
  "filter_by_containers keep cs vs =
    (if vs = [] then []
     else
       let key = arnm_roaring_key_of (hd vs);
           cs = dropWhile (\<lambda>c. rc_key c < key) cs;
           container = (if cs \<noteq> [] \<and> rc_key (hd cs) = key then Some (hd cs) else None)
       in keep_in_key keep container (takeWhile (\<lambda>v. arnm_roaring_key_of v = key) vs) @
          filter_by_containers keep cs (dropWhile (\<lambda>v. arnm_roaring_key_of v = key) vs))"
  by auto
termination
proof (relation "measure (\<lambda>(keep, cs, vs). length vs)")
  fix vs key x and keep :: bool and cs x'
  assume "vs \<noteq> []" "key = arnm_roaring_key_of (hd vs)"
  then show "((keep, x', dropWhile (\<lambda>v. arnm_roaring_key_of v = key) vs), keep, cs, vs) \<in> measure (\<lambda>(keep, cs, vs). length vs)"
    using length_dropWhile_le [of "\<lambda>v. arnm_roaring_key_of v = key" "tl vs"] by (cases vs) (auto simp: less_Suc_eq_le)
qed simp

declare filter_by_containers.simps [simp del]

definition range_values :: "roaring_bitmap \<Rightarrow> nat \<Rightarrow> nat \<Rightarrow> nat list" where
  "range_values s mn mx =
    span (arnm_roaring_lower_bound32 (rb_values s) (rb_cardinality s) mn)
      (arnm_roaring_upper_bound32 (rb_values s) (rb_cardinality s) mx) (rb_values s)"

definition sparse_filter :: "'w block_source \<Rightarrow> roaring_bitmap \<Rightarrow> roaring_bitmap \<Rightarrow> roaring_bitmap \<Rightarrow> bool \<Rightarrow> nat \<Rightarrow> nat \<Rightarrow> 'w \<Rightarrow>
    arnm_result \<times> roaring_bitmap \<times> 'w" where
  "sparse_filter src out sparse other keep mn mx w =
    (let vs = range_values sparse mn mx
     in if arnm_roaring_is_sparse other then
          let j = (if rb_cardinality other \<noteq> 0 then arnm_roaring_lower_bound32 (rb_values other) (rb_cardinality other) mn else 0)
          in arnm_roaring_values_result src out (merge_filter id keep vs (drop j (take (rb_cardinality other) (rb_values other)))) w
        else
          let c = (if vs \<noteq> [] then arnm_roaring_first_container other (arnm_roaring_key_of (hd vs)) else 0)
          in arnm_roaring_values_result src out
            (filter_by_containers keep (drop c (take (rb_count other) (rb_containers other))) vs) w)"

section \<open>The functions\<close>

type_synonym set_store = "addr \<Rightarrow> roaring_bitmap"

definition check_operation :: "set_store \<Rightarrow> addr \<Rightarrow> addr \<Rightarrow> addr \<Rightarrow> 'w option \<Rightarrow> arnm_result" where
  "check_operation sets out a b pool =
    (if out = NULL \<or> a = NULL \<or> b = NULL \<or> pool = None then ARNM_ERROR_NULL_POINTER
     else if out = a \<or> out = b \<or> rb_block (sets out) \<noteq> NULL \<or> rb_cardinality (sets out) \<noteq> 0 then ARNM_ERROR_INVALID_PARAM
     else ARNM_SUCCESS)"

text \<open>The result of an operation in the store; nothing else there changes.\<close>

definition stored :: "set_store \<Rightarrow> addr \<Rightarrow> arnm_result \<times> roaring_bitmap \<times> 'w \<Rightarrow> arnm_result \<times> set_store \<times> 'w option" where
  "stored sets out = (\<lambda>(r, s, w). (r, sets(out := s), Some w))"

definition and_sets :: "'w block_source \<Rightarrow> roaring_bitmap \<Rightarrow> roaring_bitmap \<Rightarrow> roaring_bitmap \<Rightarrow> nat \<Rightarrow> nat \<Rightarrow> 'w \<Rightarrow>
    (arnm_result \<times> roaring_bitmap \<times> 'w) option" where
  "and_sets src out a b mn mx w =
    (if arnm_roaring_is_sparse a \<or> arnm_roaring_is_sparse b then
       let read_a = (arnm_roaring_is_sparse a \<and> (\<not> arnm_roaring_is_sparse b \<or> rb_cardinality a \<le> rb_cardinality b))
       in Some (finish_op src (sparse_filter src out (if read_a then a else b) (if read_a then b else a) True mn mx w))
     else and_loop src mn mx (arnm_roaring_source_begin (Some a) mn mx False True) (arnm_roaring_source_begin (Some b) mn mx False True) out w)"

definition or_sets :: "'w block_source \<Rightarrow> roaring_bitmap \<Rightarrow> roaring_bitmap \<Rightarrow> roaring_bitmap \<Rightarrow> nat \<Rightarrow> nat \<Rightarrow> 'w \<Rightarrow>
    (arnm_result \<times> roaring_bitmap \<times> 'w) option" where
  "or_sets src out a b mn mx w =
    (if arnm_roaring_is_sparse a \<and> arnm_roaring_is_sparse b then
       Some (finish_op src (arnm_roaring_values_result src out (or_merge (range_values a mn mx) (range_values b mn mx)) w))
     else or_loop src mn mx (arnm_roaring_source_begin (Some a) mn mx False True) (arnm_roaring_source_begin (Some b) mn mx False True) out w)"

definition andnot_sets :: "'w block_source \<Rightarrow> roaring_bitmap \<Rightarrow> roaring_bitmap \<Rightarrow> roaring_bitmap \<Rightarrow> nat \<Rightarrow> nat \<Rightarrow> 'w \<Rightarrow>
    (arnm_result \<times> roaring_bitmap \<times> 'w) option" where
  "andnot_sets src out a b mn mx w =
    (if arnm_roaring_is_sparse a then Some (finish_op src (sparse_filter src out a b False mn mx w))
     else andnot_loop src mn mx (arnm_roaring_source_begin (Some a) mn mx False True) (arnm_roaring_source_begin (Some b) mn mx False True) out w)"

definition copy_set_range :: "'w block_source \<Rightarrow> roaring_bitmap \<Rightarrow> roaring_bitmap \<Rightarrow> nat \<Rightarrow> nat \<Rightarrow> 'w \<Rightarrow>
    (arnm_result \<times> roaring_bitmap \<times> 'w) option" where
  "copy_set_range src out a mn mx w =
    (if arnm_roaring_is_sparse a then
       if rb_cardinality a = 0 then Some (ARNM_SUCCESS, out, w)
       else Some (finish_op src (arnm_roaring_values_result src out (range_values a mn mx) w))
     else copy_loop src mn mx (arnm_roaring_source_begin (Some a) mn mx False True) out w)"

definition arnm_roaring_and :: "'w block_source \<Rightarrow> set_store \<Rightarrow> addr \<Rightarrow> addr \<Rightarrow> addr \<Rightarrow> nat \<Rightarrow> nat \<Rightarrow> 'w option \<Rightarrow>
    (arnm_result \<times> set_store \<times> 'w option) option" where
  "arnm_roaring_and src sets out a b mn mx pool =
    (let result = check_operation sets out a b pool
     in if result \<noteq> ARNM_SUCCESS \<or> mn > mx then Some (result, sets, pool)
        else map_option (stored sets out) (and_sets src (sets out) (sets a) (sets b) mn mx (the pool)))"

definition arnm_roaring_or :: "'w block_source \<Rightarrow> set_store \<Rightarrow> addr \<Rightarrow> addr \<Rightarrow> addr \<Rightarrow> nat \<Rightarrow> nat \<Rightarrow> 'w option \<Rightarrow>
    (arnm_result \<times> set_store \<times> 'w option) option" where
  "arnm_roaring_or src sets out a b mn mx pool =
    (let result = check_operation sets out a b pool
     in if result \<noteq> ARNM_SUCCESS \<or> mn > mx then Some (result, sets, pool)
        else map_option (stored sets out) (or_sets src (sets out) (sets a) (sets b) mn mx (the pool)))"

definition arnm_roaring_andnot :: "'w block_source \<Rightarrow> set_store \<Rightarrow> addr \<Rightarrow> addr \<Rightarrow> addr \<Rightarrow> nat \<Rightarrow> nat \<Rightarrow> 'w option \<Rightarrow>
    (arnm_result \<times> set_store \<times> 'w option) option" where
  "arnm_roaring_andnot src sets out a b mn mx pool =
    (let result = check_operation sets out a b pool
     in if result \<noteq> ARNM_SUCCESS \<or> mn > mx then Some (result, sets, pool)
        else map_option (stored sets out) (andnot_sets src (sets out) (sets a) (sets b) mn mx (the pool)))"

definition arnm_roaring_copy_range :: "'w block_source \<Rightarrow> set_store \<Rightarrow> addr \<Rightarrow> addr \<Rightarrow> nat \<Rightarrow> nat \<Rightarrow> 'w option \<Rightarrow>
    (arnm_result \<times> set_store \<times> 'w option) option" where
  "arnm_roaring_copy_range src sets out a mn mx pool =
    (let result = check_operation sets out a a pool
     in if result \<noteq> ARNM_SUCCESS \<or> mn > mx then Some (result, sets, pool)
        else map_option (stored sets out) (copy_set_range src (sets out) (sets a) mn mx (the pool)))"

section \<open>A source inside a loop\<close>

text \<open>All that is left of it lies in the keys of the range, and none below \<open>b\<close>.\<close>

definition reading :: "nat \<Rightarrow> nat \<Rightarrow> nat \<Rightarrow> roaring_source \<Rightarrow> bool" where
  "reading mn mx b s \<longleftrightarrow> source_ok s \<and> so_buffer s \<and> so_max_key s = arnm_roaring_key_of mx \<and>
    (\<forall>v\<in>set (source_left s). arnm_roaring_key_of mn \<le> arnm_roaring_key_of v \<and> b \<le> arnm_roaring_key_of v)"

lemma reading_end: "reading mn mx b s \<Longrightarrow> so_current s = None \<Longrightarrow> source_left s = []"
  using source_stands [of s] by (simp add: reading_def stands_def)

lemma reading_at:
  assumes "reading mn mx b s" "so_current s = Some x"
  shows "narrow x" "arnm_roaring_key_of mn \<le> rc_key x" "rc_key x \<le> arnm_roaring_key_of mx" "b \<le> rc_key x"
    "reading mn mx (Suc (rc_key x)) (arnm_roaring_source_advance s)"
    "source_left s = container_elems x @ source_left (arnm_roaring_source_advance s)"
    "length (source_left (arnm_roaring_source_advance s)) < length (source_left s)"
    "\<And>v. v \<in> set (source_left s) \<Longrightarrow> rc_key x \<le> arnm_roaring_key_of v"
    "\<And>v. v \<in> set (source_left s) \<longleftrightarrow>
      (arnm_roaring_key_of v = rc_key x \<and> arnm_roaring_low_of v \<in> set (lows x)) \<or> v \<in> set (source_left (arnm_roaring_source_advance s))"
proof -
  have r: "source_ok s" "so_buffer s" "so_max_key s = arnm_roaring_key_of mx"
    "\<And>v. v \<in> set (source_left s) \<Longrightarrow> arnm_roaring_key_of mn \<le> arnm_roaring_key_of v \<and> b \<le> arnm_roaring_key_of v"
    using assms(1) by (simp_all add: reading_def)
  note st = source_stands [OF r(1), unfolded stands_def assms(2) option.case]
  show nx: "narrow x" using st r(2) by simp
  show "rc_key x \<le> arnm_roaring_key_of mx" using st r(3) by simp
  show l: "source_left s = container_elems x @ source_left (arnm_roaring_source_advance s)" using st by simp
  have "lows x \<noteq> []" using nx by (simp add: view_ok_def)
  then have ne: "container_elems x \<noteq> []" by (simp add: container_elems_def)
  then show "length (source_left (arnm_roaring_source_advance s)) < length (source_left s)" using l by simp
  have key: "arnm_roaring_key_of v = rc_key x" if "v \<in> set (container_elems x)" for v using nx view_elems [of x v] that by simp
  have "hd (container_elems x) \<in> set (source_left s)" using ne l by simp
  from r(4) [OF this] show "arnm_roaring_key_of mn \<le> rc_key x" "b \<le> rc_key x" using key ne by simp_all
  show "v \<in> set (source_left s) \<longleftrightarrow>
      (arnm_roaring_key_of v = rc_key x \<and> arnm_roaring_low_of v \<in> set (lows x)) \<or> v \<in> set (source_left (arnm_roaring_source_advance s))" for v
    unfolding l set_append Un_iff view_elems [OF conjunct1 [OF nx]] eq_commute [of "rc_key x"] by (rule refl)
  show "rc_key x \<le> arnm_roaring_key_of v" if "v \<in> set (source_left s)" for v
    using that st key unfolding l by auto
  show "reading mn mx (Suc (rc_key x)) (arnm_roaring_source_advance s)"
    using st r l by (auto simp: reading_def Suc_le_eq)
qed

lemma reading_raise:
  assumes "reading mn mx b s" "\<And>x. so_current s = Some x \<Longrightarrow> c \<le> rc_key x" shows "reading mn mx c s"
proof (cases "so_current s")
  case None
  then show ?thesis using assms(1) reading_end [OF assms(1)] by (simp add: reading_def)
next
  case (Some x)
  have "c \<le> arnm_roaring_key_of v" if "v \<in> set (source_left s)" for v
    using reading_at(8) [OF assms(1) Some that] assms(2) [OF Some] by simp
  then show ?thesis using assms(1) by (simp add: reading_def)
qed

lemma reading_begin:
  fixes mn mx :: nat
  assumes "roaring_ok a" "mx \<le> UINT32_MAX"
  defines "s \<equiv> arnm_roaring_source_begin (Some a) mn mx False True"
  shows "reading mn mx 0 s" "\<And>v. within mn mx v \<Longrightarrow> v \<in> set (source_left s) \<longleftrightarrow> v \<in> set (elems a)"
proof -
  note b = source_begin [of "Some a" mx mn True, OF _ assms(2), simplified option.case, OF assms(1), folded s_def]
  show "reading mn mx 0 s" using b by (simp add: reading_def)
  show "v \<in> set (source_left s) \<longleftrightarrow> v \<in> set (elems a)" if "within mn mx v" for v
    using that key_le [of mn v] key_le [of v mx] unfolding b(4) by simp
qed

text \<open>From the low parts of a key, within its bounds, to the values in range.\<close>

lemma lows_to_values:
  assumes "arnm_roaring_key_of mn \<le> key" "key \<le> arnm_roaring_key_of mx" "hi < 65536"
    and "arnm_roaring_container_bounds key mn mx = (lo, hi)"
  shows "arnm_roaring_value_of key ` {l. within lo hi l \<and> P l} = {v. within mn mx v \<and> arnm_roaring_key_of v = key \<and> P (arnm_roaring_low_of v)}"
proof (intro set_eqI iffI)
  fix v assume "v \<in> arnm_roaring_value_of key ` {l. within lo hi l \<and> P l}"
  then obtain l where l: "v = arnm_roaring_value_of key l" "within lo hi l" "P l" by auto
  then have "l < 65536" using assms(3) by simp
  then show "v \<in> {v. within mn mx v \<and> arnm_roaring_key_of v = key \<and> P (arnm_roaring_low_of v)}"
    using l container_bounds(1) [OF assms(1,2) _ assms(4), of l] by simp
next
  fix v assume v: "v \<in> {v. within mn mx v \<and> arnm_roaring_key_of v = key \<and> P (arnm_roaring_low_of v)}"
  then have e: "arnm_roaring_value_of key (arnm_roaring_low_of v) = v" using value_of_key_low [of v] by simp
  then have "within lo hi (arnm_roaring_low_of v)" using v container_bounds(1) [OF assms(1,2) low_of_less [of v] assms(4)] by simp
  then show "v \<in> arnm_roaring_value_of key ` {l. within lo hi l \<and> P l}" using e v by (metis (mono_tags, lifting) imageI mem_Collect_eq)
qed

section \<open>The loops\<close>

context block_lending begin

text \<open>What a loop comes to: it ends, the books balance, and what was added is a given set of values, or all is freed.\<close>

abbreviation finishes :: "(addr \<times> nat) multiset \<Rightarrow> roaring_bitmap \<Rightarrow> nat set \<Rightarrow> (arnm_result \<times> roaring_bitmap \<times> 'w) option \<Rightarrow> bool" where
  "finishes R out S res \<equiv> (\<exists>r out' w'. res = Some (r, out', w') \<and> sound w' \<and> lent w' = set_blocks out' + R \<and>
    (if r = ARNM_SUCCESS then building 65536 out' \<and> (\<exists>vs. elems out' = elems out @ vs \<and> set vs = S) else out' = zero_roaring))"

lemma finish_op_ok:
  assumes "sound w" "lent w = set_blocks out + R" "roaring_ok out" "r \<noteq> ARNM_SUCCESS"
  shows "\<exists>w'. finish_op src (r, out, w) = (r, zero_roaring, w') \<and> sound w' \<and> lent w' = R"
  using free_set_ok [OF assms(1,2) roaring_freeable [OF assms(3)]] assms(4)
  by (cases "free_set src out w") (simp add: finish_op_def arnm_roaring_free_def)

lemma finishes_here:
  "sound w \<Longrightarrow> lent w = set_blocks out + R \<Longrightarrow> building b out \<Longrightarrow> b \<le> 65536 \<Longrightarrow> S = {} \<Longrightarrow>
    finishes R out S (Some (ARNM_SUCCESS, out, w))"
  using building_mono [of b out 65536] by simp

text \<open>One step of a loop, and the rest of it.\<close>

lemma finishes_step:
  assumes "emits_lows key R X out r out1 w1" "key < 65536" "arnm_roaring_value_of key ` X = S1" "S = S1 \<union> S2"
    and "r = ARNM_SUCCESS \<Longrightarrow> finishes R out1 S2 res"
  shows "finishes R out S (if r \<noteq> ARNM_SUCCESS then Some (finish_op src (r, out1, w1)) else res)"
proof (cases "r = ARNM_SUCCESS")
  case False
  have e: "sound w1" "lent w1 = set_blocks out1 + R" "roaring_ok out1" using assms(1) building_roaring_ok by auto
  from finish_op_ok [OF e False] show ?thesis using False by auto
next
  case True
  obtain vs where vs: "elems out1 = elems out @ map (arnm_roaring_value_of key) vs" "set vs = X" using assms(1) True by auto
  obtain r' out' w' where res: "res = Some (r', out', w')" "sound w'" "lent w' = set_blocks out' + R"
      "if r' = ARNM_SUCCESS then building 65536 out' \<and> (\<exists>us. elems out' = elems out1 @ us \<and> set us = S2) else out' = zero_roaring"
    using assms(5) [OF True] by auto
  have "\<exists>us. elems out' = elems out @ us \<and> set us = S" if ok: "r' = ARNM_SUCCESS"
  proof -
    obtain us where "elems out' = elems out1 @ us" "set us = S2" using res(4) ok by auto
    then have "elems out' = elems out @ (map (arnm_roaring_value_of key) vs @ us)"
      "set (map (arnm_roaring_value_of key) vs @ us) = S" using vs assms(3,4) by auto
    then show ?thesis by blast
  qed
  then show ?thesis using res True by auto
qed

lemma copy_loop_ok:
  assumes "sound w" "lent w = set_blocks out + R" "building b out" "b \<le> 65536" "mn \<le> mx" "mx \<le> UINT32_MAX" "reading mn mx b s"
  shows "finishes R out {v. within mn mx v \<and> v \<in> set (source_left s)} (copy_loop src mn mx s out w)"
  using assms(1-4,7)
proof (induction "length (source_left s)" arbitrary: s out w b rule: less_induct)
  case less
  show ?case
  proof (cases "so_current s")
    case None
    then show ?thesis using finishes_here [OF less.prems(1-4)] reading_end [OF less.prems(5) None]
      by (subst copy_loop.simps) simp
  next
    case (Some x)
    note at = reading_at [OF less.prems(5) Some]
    obtain lo hi where bd: "arnm_roaring_container_bounds (rc_key x) mn mx = (lo, hi)" by fastforce
    note le = bounds_le [OF at(2,3) assms(5) bd]
    obtain r o1 w1 where em: "emit_clip src out (make_clip x lo hi) w = (r, o1, w1)" by (metis prod_cases3)
    have bx: "building (rc_key x) out" using building_mono less.prems(3) at(4) by blast
    have vx: "view_ok x" "rc_kind x \<noteq> ROARING_KIND_WIDE" using at(1) by simp_all
    have key: "rc_key x < 65536" using vx by (simp add: view_ok_def)
    note step = emit_clip_ok [OF less.prems(1,2) bx vx le em]
    have run: "copy_loop src mn mx s out w = (if r \<noteq> ARNM_SUCCESS then Some (finish_op src (r, o1, w1))
        else copy_loop src mn mx (arnm_roaring_source_advance s) o1 w1)"
      by (subst copy_loop.simps) (simp add: Some bd em)
    show ?thesis unfolding run
    proof (rule finishes_step [OF step key lows_to_values [OF at(2,3) le(2) bd]])
      show "{v. within mn mx v \<and> v \<in> set (source_left s)} =
          {v. within mn mx v \<and> arnm_roaring_key_of v = rc_key x \<and> arnm_roaring_low_of v \<in> set (lows x)} \<union>
          {v. within mn mx v \<and> v \<in> set (source_left (arnm_roaring_source_advance s))}"
        unfolding at(9) by blast
      assume "r = ARNM_SUCCESS"
      show "finishes R o1 {v. within mn mx v \<and> v \<in> set (source_left (arnm_roaring_source_advance s))}
          (copy_loop src mn mx (arnm_roaring_source_advance s) o1 w1)"
        by (rule less.hyps [OF at(7) _ _ _ _ at(5)]) (use step key in auto)
    qed
  qed
qed

lemma reading_later: "reading mn mx b s \<Longrightarrow> c \<le> b \<Longrightarrow> reading mn mx c s"
  by (auto simp: reading_def)

lemma and_loop_ok:
  assumes "sound w" "lent w = set_blocks out + R" "building b out" "b \<le> 65536" "mn \<le> mx" "mx \<le> UINT32_MAX"
    and "reading mn mx b sa" "reading mn mx b sb"
  shows "finishes R out {v. within mn mx v \<and> v \<in> set (source_left sa) \<and> v \<in> set (source_left sb)} (and_loop src mn mx sa sb out w)"
  using assms(1-4,7,8)
proof (induction "length (source_left sa) + length (source_left sb)" arbitrary: sa sb out w b rule: less_induct)
  case less
  show ?case
  proof (cases "so_current sa = None \<or> so_current sb = None")
    case True
    then have "{v. within mn mx v \<and> v \<in> set (source_left sa) \<and> v \<in> set (source_left sb)} = {}"
      using reading_end [OF less.prems(5)] reading_end [OF less.prems(6)] by auto
    moreover have "and_loop src mn mx sa sb out w = Some (ARNM_SUCCESS, out, w)"
      using True by (subst and_loop.simps) (auto split: option.split)
    ultimately show ?thesis using finishes_here [OF less.prems(1-4)] by simp
  next
    case False
    then obtain x y where xy: "so_current sa = Some x" "so_current sb = Some y" by auto
    note at = reading_at [OF less.prems(5) xy(1)] and bt = reading_at [OF less.prems(6) xy(2)]
    consider "rc_key x < rc_key y" | "rc_key y < rc_key x" | "rc_key x = rc_key y" by linarith
    then show ?thesis
    proof cases
      case 1
      then have run: "and_loop src mn mx sa sb out w = and_loop src mn mx (arnm_roaring_source_advance sa) sb out w"
        by (subst and_loop.simps) (simp add: xy)
      have none: "\<not> (arnm_roaring_key_of v = rc_key x \<and> v \<in> set (source_left sb))" for v using bt(8) [of v] 1 by auto
      have same: "{v. within mn mx v \<and> v \<in> set (source_left sa) \<and> v \<in> set (source_left sb)} =
          {v. within mn mx v \<and> v \<in> set (source_left (arnm_roaring_source_advance sa)) \<and> v \<in> set (source_left sb)}"
        unfolding at(9) using none by blast
      have r: "reading mn mx b (arnm_roaring_source_advance sa)" by (rule reading_later [OF at(5)]) (use at(4) in simp)
      have l: "length (source_left (arnm_roaring_source_advance sa)) + length (source_left sb) < length (source_left sa) + length (source_left sb)"
        using at(7) by simp
      show ?thesis unfolding run same by (rule less.hyps [OF l less.prems(1-4) r less.prems(6)])
    next
      case 2
      then have run: "and_loop src mn mx sa sb out w = and_loop src mn mx sa (arnm_roaring_source_advance sb) out w"
        by (subst and_loop.simps) (simp add: xy)
      have none: "\<not> (arnm_roaring_key_of v = rc_key y \<and> v \<in> set (source_left sa))" for v using at(8) [of v] 2 by auto
      have same: "{v. within mn mx v \<and> v \<in> set (source_left sa) \<and> v \<in> set (source_left sb)} =
          {v. within mn mx v \<and> v \<in> set (source_left sa) \<and> v \<in> set (source_left (arnm_roaring_source_advance sb))}"
        unfolding bt(9) using none by blast
      have r: "reading mn mx b (arnm_roaring_source_advance sb)" by (rule reading_later [OF bt(5)]) (use bt(4) in simp)
      have l: "length (source_left sa) + length (source_left (arnm_roaring_source_advance sb)) < length (source_left sa) + length (source_left sb)"
        using bt(7) by simp
      show ?thesis unfolding run same by (rule less.hyps [OF l less.prems(1-5) r])
    next
      case 3
      obtain lo hi where bd: "arnm_roaring_container_bounds (rc_key x) mn mx = (lo, hi)" by fastforce
      note le = bounds_le [OF at(2,3) assms(5) bd]
      obtain r o1 w1 where em: "and_containers src out (make_clip x lo hi) (make_clip y lo hi) w = (r, o1, w1)" by (metis prod_cases3)
      have bx: "building (rc_key x) out" using building_mono less.prems(3) at(4) by blast
      have key: "rc_key x < 65536" using at(1) by (simp add: view_ok_def)
      note step = and_containers_ok [OF less.prems(1,2) bx at(1) bt(1) 3 le em]
      let ?A = "arnm_roaring_source_advance sa" and ?B = "arnm_roaring_source_advance sb"
      have run: "and_loop src mn mx sa sb out w = (if r \<noteq> ARNM_SUCCESS then Some (finish_op src (r, o1, w1)) else and_loop src mn mx ?A ?B o1 w1)"
        by (subst and_loop.simps) (simp add: xy 3 bd [unfolded 3] em)
      show ?thesis unfolding run
      proof (rule finishes_step [OF step key lows_to_values [OF at(2,3) le(2) bd]])
        have later: "v \<in> set (source_left ?A) \<or> v \<in> set (source_left ?B) \<Longrightarrow> rc_key x < arnm_roaring_key_of v" for v
          using at(5) bt(5) 3 by (auto simp: reading_def Suc_le_eq)
        show "{v. within mn mx v \<and> v \<in> set (source_left sa) \<and> v \<in> set (source_left sb)} =
            {v. within mn mx v \<and> arnm_roaring_key_of v = rc_key x \<and> arnm_roaring_low_of v \<in> set (lows x) \<and> arnm_roaring_low_of v \<in> set (lows y)} \<union>
            {v. within mn mx v \<and> v \<in> set (source_left ?A) \<and> v \<in> set (source_left ?B)}"
          unfolding at(9) bt(9) 3 [symmetric] using later by fastforce
        assume "r = ARNM_SUCCESS"
        have l: "length (source_left ?A) + length (source_left ?B) < length (source_left sa) + length (source_left sb)"
          using at(7) bt(7) by simp
        show "finishes R o1 {v. within mn mx v \<and> v \<in> set (source_left ?A) \<and> v \<in> set (source_left ?B)} (and_loop src mn mx ?A ?B o1 w1)"
          by (rule less.hyps [OF l _ _ _ _ at(5) bt(5) [folded 3]]) (use step key in auto)
      qed
    qed
  qed
qed

lemma or_loop_ok:
  assumes "sound w" "lent w = set_blocks out + R" "building b out" "b \<le> 65536" "mn \<le> mx" "mx \<le> UINT32_MAX"
    and "reading mn mx b sa" "reading mn mx b sb"
  shows "finishes R out {v. within mn mx v \<and> (v \<in> set (source_left sa) \<or> v \<in> set (source_left sb))} (or_loop src mn mx sa sb out w)"
  using assms(1-4,7,8)
proof (induction "length (source_left sa) + length (source_left sb)" arbitrary: sa sb out w b rule: less_induct)
  case less
  let ?A = "arnm_roaring_source_advance sa" and ?B = "arnm_roaring_source_advance sb"
  consider (both) "so_current sa = None" "so_current sb = None"
    | (first) x where "so_current sa = Some x" "so_current sb = None \<or> rc_key x < rc_key (the (so_current sb))"
    | (second) y where "so_current sb = Some y" "so_current sa = None \<or> rc_key y < rc_key (the (so_current sa))"
    | (same) x y where "so_current sa = Some x" "so_current sb = Some y" "rc_key x = rc_key y"
    by (metis linorder_cases not_None_eq option.sel)
  then show ?case
  proof cases
    case both
    then have "{v. within mn mx v \<and> (v \<in> set (source_left sa) \<or> v \<in> set (source_left sb))} = {}"
      using reading_end [OF less.prems(5)] reading_end [OF less.prems(6)] by auto
    moreover have "or_loop src mn mx sa sb out w = Some (ARNM_SUCCESS, out, w)"
      using both by (subst or_loop.simps) simp
    ultimately show ?thesis using finishes_here [OF less.prems(1-4)] by simp
  next
    case first
    note at = reading_at [OF less.prems(5) first(1)]
    obtain lo hi where bd: "arnm_roaring_container_bounds (rc_key x) mn mx = (lo, hi)" by fastforce
    note le = bounds_le [OF at(2,3) assms(5) bd]
    obtain r o1 w1 where em: "emit_clip src out (make_clip x lo hi) w = (r, o1, w1)" by (metis prod_cases3)
    have bx: "building (rc_key x) out" using building_mono less.prems(3) at(4) by blast
    have vx: "view_ok x" "rc_kind x \<noteq> ROARING_KIND_WIDE" using at(1) by simp_all
    have key: "rc_key x < 65536" using vx by (simp add: view_ok_def)
    note step = emit_clip_ok [OF less.prems(1,2) bx vx le em]
    have run: "or_loop src mn mx sa sb out w = (if r \<noteq> ARNM_SUCCESS then Some (finish_op src (r, o1, w1)) else or_loop src mn mx ?A sb o1 w1)"
      using first by (subst or_loop.simps) (simp add: bd em Let_def)
    have rb: "reading mn mx (Suc (rc_key x)) sb" by (rule reading_raise [OF less.prems(6)]) (use first in \<open>auto simp: Suc_le_eq\<close>)
    show ?thesis unfolding run
    proof (rule finishes_step [OF step key lows_to_values [OF at(2,3) le(2) bd]])
      show "{v. within mn mx v \<and> (v \<in> set (source_left sa) \<or> v \<in> set (source_left sb))} =
          {v. within mn mx v \<and> arnm_roaring_key_of v = rc_key x \<and> arnm_roaring_low_of v \<in> set (lows x)} \<union>
          {v. within mn mx v \<and> (v \<in> set (source_left ?A) \<or> v \<in> set (source_left sb))}"
        unfolding at(9) by blast
      assume "r = ARNM_SUCCESS"
      have l: "length (source_left ?A) + length (source_left sb) < length (source_left sa) + length (source_left sb)" using at(7) by simp
      show "finishes R o1 {v. within mn mx v \<and> (v \<in> set (source_left ?A) \<or> v \<in> set (source_left sb))} (or_loop src mn mx ?A sb o1 w1)"
        by (rule less.hyps [OF l _ _ _ _ at(5) rb]) (use step key in auto)
    qed
  next
    case second
    note bt = reading_at [OF less.prems(6) second(1)]
    obtain lo hi where bd: "arnm_roaring_container_bounds (rc_key y) mn mx = (lo, hi)" by fastforce
    note le = bounds_le [OF bt(2,3) assms(5) bd]
    obtain r o1 w1 where em: "emit_clip src out (make_clip y lo hi) w = (r, o1, w1)" by (metis prod_cases3)
    have bx: "building (rc_key y) out" using building_mono less.prems(3) bt(4) by blast
    have vx: "view_ok y" "rc_kind y \<noteq> ROARING_KIND_WIDE" using bt(1) by simp_all
    have key: "rc_key y < 65536" using vx by (simp add: view_ok_def)
    note step = emit_clip_ok [OF less.prems(1,2) bx vx le em]
    have run: "or_loop src mn mx sa sb out w = (if r \<noteq> ARNM_SUCCESS then Some (finish_op src (r, o1, w1)) else or_loop src mn mx sa ?B o1 w1)"
      using second by (subst or_loop.simps) (auto simp: bd em Let_def)
    have ra: "reading mn mx (Suc (rc_key y)) sa" by (rule reading_raise [OF less.prems(5)]) (use second in \<open>auto simp: Suc_le_eq\<close>)
    show ?thesis unfolding run
    proof (rule finishes_step [OF step key lows_to_values [OF bt(2,3) le(2) bd]])
      show "{v. within mn mx v \<and> (v \<in> set (source_left sa) \<or> v \<in> set (source_left sb))} =
          {v. within mn mx v \<and> arnm_roaring_key_of v = rc_key y \<and> arnm_roaring_low_of v \<in> set (lows y)} \<union>
          {v. within mn mx v \<and> (v \<in> set (source_left sa) \<or> v \<in> set (source_left ?B))}"
        unfolding bt(9) by blast
      assume "r = ARNM_SUCCESS"
      have l: "length (source_left sa) + length (source_left ?B) < length (source_left sa) + length (source_left sb)" using bt(7) by simp
      show "finishes R o1 {v. within mn mx v \<and> (v \<in> set (source_left sa) \<or> v \<in> set (source_left ?B))} (or_loop src mn mx sa ?B o1 w1)"
        by (rule less.hyps [OF l _ _ _ _ ra bt(5)]) (use step key in auto)
    qed
  next
    case same
    note at = reading_at [OF less.prems(5) same(1)] and bt = reading_at [OF less.prems(6) same(2)]
    obtain lo hi where bd: "arnm_roaring_container_bounds (rc_key x) mn mx = (lo, hi)" by fastforce
    note le = bounds_le [OF at(2,3) assms(5) bd]
    obtain r o1 w1 where em: "or_containers src out (make_clip x lo hi) (make_clip y lo hi) w = (r, o1, w1)" by (metis prod_cases3)
    have bx: "building (rc_key x) out" using building_mono less.prems(3) at(4) by blast
    have key: "rc_key x < 65536" using at(1) by (simp add: view_ok_def)
    note step = or_containers_ok [OF less.prems(1,2) bx at(1) bt(1) same(3) le em]
    have run: "or_loop src mn mx sa sb out w = (if r \<noteq> ARNM_SUCCESS then Some (finish_op src (r, o1, w1)) else or_loop src mn mx ?A ?B o1 w1)"
      using same by (subst or_loop.simps) (simp add: bd [unfolded same(3)] em Let_def)
    show ?thesis unfolding run
    proof (rule finishes_step [OF step key lows_to_values [OF at(2,3) le(2) bd]])
      show "{v. within mn mx v \<and> (v \<in> set (source_left sa) \<or> v \<in> set (source_left sb))} =
          {v. within mn mx v \<and> arnm_roaring_key_of v = rc_key x \<and> (arnm_roaring_low_of v \<in> set (lows x) \<or> arnm_roaring_low_of v \<in> set (lows y))} \<union>
          {v. within mn mx v \<and> (v \<in> set (source_left ?A) \<or> v \<in> set (source_left ?B))}"
        unfolding at(9) bt(9) same(3) [symmetric] by blast
      assume "r = ARNM_SUCCESS"
      have l: "length (source_left ?A) + length (source_left ?B) < length (source_left sa) + length (source_left sb)" using at(7) bt(7) by simp
      show "finishes R o1 {v. within mn mx v \<and> (v \<in> set (source_left ?A) \<or> v \<in> set (source_left ?B))} (or_loop src mn mx ?A ?B o1 w1)"
        by (rule less.hyps [OF l _ _ _ _ at(5) bt(5) [folded same(3)]]) (use step key in auto)
    qed
  qed
qed

lemma advance_to_ok:
  assumes "reading mn mx b sb"
  shows "\<exists>s. advance_to key sb = Some s \<and> reading mn mx b s \<and>
    (\<forall>v. key \<le> arnm_roaring_key_of v \<longrightarrow> (v \<in> set (source_left sb) \<longleftrightarrow> v \<in> set (source_left s))) \<and>
    (\<forall>y. so_current s = Some y \<longrightarrow> key \<le> rc_key y)"
  using assms
proof (induction "length (source_left sb)" arbitrary: sb rule: less_induct)
  case less
  show ?case
  proof (cases "\<exists>y. so_current sb = Some y \<and> rc_key y < key")
    case False
    then have "advance_to key sb = Some sb" by (subst advance_to.simps) (auto split: option.split)
    then show ?thesis using less.prems False by (auto simp: not_less)
  next
    case True
    then obtain y where y: "so_current sb = Some y" "rc_key y < key" by auto
    note bt = reading_at [OF less.prems y(1)]
    have r: "reading mn mx b (arnm_roaring_source_advance sb)" by (rule reading_later [OF bt(5)]) (use bt(4) in simp)
    obtain s where s: "advance_to key (arnm_roaring_source_advance sb) = Some s" "reading mn mx b s"
      "\<forall>v. key \<le> arnm_roaring_key_of v \<longrightarrow> (v \<in> set (source_left (arnm_roaring_source_advance sb)) \<longleftrightarrow> v \<in> set (source_left s))"
      "\<forall>y. so_current s = Some y \<longrightarrow> key \<le> rc_key y"
      using less.hyps [OF bt(7) r] by blast
    have "advance_to key sb = Some s" using y s(1) by (subst advance_to.simps) simp
    moreover have "v \<in> set (source_left sb) \<longleftrightarrow> v \<in> set (source_left (arnm_roaring_source_advance sb))" if "key \<le> arnm_roaring_key_of v" for v
      unfolding bt(9) using that y(2) by auto
    ultimately show ?thesis using s by blast
  qed
qed

lemma andnot_loop_ok:
  assumes "sound w" "lent w = set_blocks out + R" "building b out" "b \<le> 65536" "mn \<le> mx" "mx \<le> UINT32_MAX"
    and "reading mn mx b sa" "reading mn mx 0 sb"
  shows "finishes R out {v. within mn mx v \<and> v \<in> set (source_left sa) \<and> v \<notin> set (source_left sb)} (andnot_loop src mn mx sa sb out w)"
  using assms(1-4,7,8)
proof (induction "length (source_left sa)" arbitrary: sa sb out w b rule: less_induct)
  case less
  let ?A = "arnm_roaring_source_advance sa"
  show ?case
  proof (cases "so_current sa")
    case None
    then show ?thesis using finishes_here [OF less.prems(1-4)] reading_end [OF less.prems(5) None]
      by (subst andnot_loop.simps) simp
  next
    case (Some x)
    note at = reading_at [OF less.prems(5) Some]
    obtain s where s: "advance_to (rc_key x) sb = Some s" "reading mn mx 0 s"
      "\<forall>v. rc_key x \<le> arnm_roaring_key_of v \<longrightarrow> (v \<in> set (source_left sb) \<longleftrightarrow> v \<in> set (source_left s))"
      "\<forall>y. so_current s = Some y \<longrightarrow> rc_key x \<le> rc_key y"
      using advance_to_ok [OF less.prems(6)] by blast
    obtain lo hi where bd: "arnm_roaring_container_bounds (rc_key x) mn mx = (lo, hi)" by fastforce
    note le = bounds_le [OF at(2,3) assms(5) bd]
    have bx: "building (rc_key x) out" using building_mono less.prems(3) at(4) by blast
    have vx: "view_ok x" "rc_kind x \<noteq> ROARING_KIND_WIDE" using at(1) by simp_all
    have key: "rc_key x < 65536" using vx by (simp add: view_ok_def)
    let ?step = "case so_current s of None \<Rightarrow> emit_clip src out (make_clip x lo hi) w
      | Some y \<Rightarrow> if rc_key y \<noteq> rc_key x then emit_clip src out (make_clip x lo hi) w
          else andnot_containers src out (make_clip x lo hi) (make_clip y lo hi) w"
    obtain r o1 w1 where em: "?step = (r, o1, w1)" by (rule prod_cases3)
    have run: "andnot_loop src mn mx sa sb out w = (if r \<noteq> ARNM_SUCCESS then Some (finish_op src (r, o1, w1)) else andnot_loop src mn mx ?A s o1 w1)"
      by (subst andnot_loop.simps) (simp add: Some s(1) bd em)
    define Y where "Y = {l. arnm_roaring_value_of (rc_key x) l \<in> set (source_left s) \<and> l < 65536}"
    have step: "emits_lows (rc_key x) R {v. within lo hi v \<and> v \<in> set (lows x) \<and> v \<notin> Y} out r o1 w1"
    proof (cases "\<exists>y. so_current s = Some y \<and> rc_key y = rc_key x")
      case True
      then obtain y where y: "so_current s = Some y" "rc_key y = rc_key x" by auto
      note bt = reading_at [OF s(2) y(1)]
      have run: "andnot_containers src out (make_clip x lo hi) (make_clip y lo hi) w = (r, o1, w1)" using em y by simp
      have "l \<in> Y \<longleftrightarrow> l \<in> set (lows y)" if "l < 65536" for l
      proof -
        have "arnm_roaring_value_of (rc_key x) l \<notin> set (source_left (arnm_roaring_source_advance s))"
          using bt(5) that y(2) by (auto simp: reading_def)
        then show ?thesis using that y(2) unfolding Y_def bt(9) by simp
      qed
      then have "{v. within lo hi v \<and> v \<in> set (lows x) \<and> v \<notin> Y} = {v. within lo hi v \<and> v \<in> set (lows x) \<and> v \<notin> set (lows y)}"
        using view_lows(2) [OF vx(1)] by blast
      then show ?thesis using andnot_containers_ok [OF less.prems(1,2) bx at(1) bt(1) le run] by simp
    next
      case False
      then have run: "emit_clip src out (make_clip x lo hi) w = (r, o1, w1)" using em by (auto split: option.splits)
      have "Y = {}"
      proof (cases "so_current s")
        case None
        then show ?thesis using reading_end [OF s(2)] by (simp add: Y_def)
      next
        case (Some y)
        then have "rc_key x < rc_key y" using s(4) False by (metis le_neq_implies_less)
        moreover have "rc_key y \<le> rc_key x" if "arnm_roaring_value_of (rc_key x) l \<in> set (source_left s)" "l < 65536" for l
          using reading_at(8) [OF s(2) Some that(1)] that(2) by simp
        ultimately show ?thesis unfolding Y_def by fastforce
      qed
      then show ?thesis using emit_clip_ok [OF less.prems(1,2) bx vx le run] by simp
    qed
    show ?thesis unfolding run
    proof (rule finishes_step [OF step key lows_to_values [OF at(2,3) le(2) bd]])
      have later: "rc_key x < arnm_roaring_key_of v" if "v \<in> set (source_left ?A)" for v
        using at(5) that by (auto simp: reading_def Suc_le_eq)
      have inY: "arnm_roaring_low_of v \<in> Y \<longleftrightarrow> v \<in> set (source_left sb)" if "arnm_roaring_key_of v = rc_key x" for v
        using s(3) that value_of_key_low [of v] by (simp add: Y_def)
      have rest: "v \<in> set (source_left sb) \<longleftrightarrow> v \<in> set (source_left s)" if "v \<in> set (source_left ?A)" for v
        using s(3) later [OF that] by simp
      show "{v. within mn mx v \<and> v \<in> set (source_left sa) \<and> v \<notin> set (source_left sb)} =
          {v. within mn mx v \<and> arnm_roaring_key_of v = rc_key x \<and> arnm_roaring_low_of v \<in> set (lows x) \<and> arnm_roaring_low_of v \<notin> Y} \<union>
          {v. within mn mx v \<and> v \<in> set (source_left ?A) \<and> v \<notin> set (source_left s)}"
        unfolding at(9) using inY rest by blast
      assume "r = ARNM_SUCCESS"
      show "finishes R o1 {v. within mn mx v \<and> v \<in> set (source_left ?A) \<and> v \<notin> set (source_left s)} (andnot_loop src mn mx ?A s o1 w1)"
        by (rule less.hyps [OF at(7) _ _ _ _ at(5) s(2)]) (use step key in auto)
    qed
  qed
qed

end

section \<open>Arrays of values against a set\<close>

lemma range_values_filter:
  assumes "roaring_ok s" "arnm_roaring_is_sparse s"
  shows "range_values s mn mx = filter (within mn mx) (elems s)"
  using assms(1)
proof (cases rule: roaring_cases)
  case sparse
  then show ?thesis using span_bounds(1) [OF sparse(4), of mn mx] by (simp add: range_values_def bounds_32_16)
qed (use assms(2) in simp)

lemma keep_in_key_ok:
  assumes "\<forall>c. container = Some c \<longrightarrow> container_ok c \<and> rc_key c = key" "\<forall>v\<in>set vs. arnm_roaring_key_of v = key" "ascending vs"
  shows "keep_in_key keep container vs =
    filter (\<lambda>v. (case container of None \<Rightarrow> False | Some c \<Rightarrow> v \<in> set (container_elems c)) = keep) vs"
proof (cases container)
  case None
  then show ?thesis by (simp add: keep_in_key_def)
next
  case (Some c)
  then have c: "container_ok c" "rc_key c = key" using assms(1) by simp_all
  have mem: "v \<in> set (container_elems c) \<longleftrightarrow> arnm_roaring_low_of v \<in> set (lows c)" if "v \<in> set vs" for v
    using in_container_elems [OF c(1), of v] assms(2) that c(2) by simp
  have asc: "ascending (map arnm_roaring_low_of vs)" unfolding sorted_wrt_map
    by (rule sorted_wrt_mono_rel [OF _ assms(3)]) (use assms(2) low_less in simp)
  from container_kinds [OF c(1)] show ?thesis
  proof
    assume k: "rc_kind c = ARNM_ROARING_BITMAP"
    have "filter (\<lambda>v. get_bit (rc_words c) (arnm_roaring_low_of v) = keep) vs = filter (\<lambda>v. (v \<in> set (container_elems c)) = keep) vs"
      using mem get_bit_low [OF c(1) k] by (intro filter_cong) auto
    then show ?thesis using Some k by (simp add: keep_in_key_def)
  next
    assume k: "rc_kind c = ARNM_ROARING_ARRAY"
    then have l: "lows c = rc_array c" "ascending (rc_array c)" using c(1) by (simp_all add: container_ok_def lows_def)
    have "merge_filter arnm_roaring_low_of keep vs (rc_array c) = filter (\<lambda>v. (v \<in> set (container_elems c)) = keep) vs"
      unfolding merge_filter_keeps [OF asc l(2)] using mem l(1) by (intro filter_cong) auto
    then show ?thesis using Some k by (simp add: keep_in_key_def)
  qed
qed

lemma filter_by_containers_ok:
  "\<forall>c\<in>set cs. container_ok c \<Longrightarrow> ascending (map rc_key cs) \<Longrightarrow> ascending vs \<Longrightarrow>
    filter_by_containers keep cs vs = filter (\<lambda>v. (v \<in> set (concat (map container_elems cs))) = keep) vs"
proof (induction keep cs vs rule: filter_by_containers.induct)
  case (1 keep cs vs)
  show ?case
  proof (cases "vs = []")
    case True
    then show ?thesis by (simp add: filter_by_containers.simps)
  next
    case False
    define key where "key = arnm_roaring_key_of (hd vs)"
    let ?P = "\<lambda>v. arnm_roaring_key_of v = key"
    define ds where "ds = dropWhile (\<lambda>c. rc_key c < key) cs"
    define container where "container = (if ds \<noteq> [] \<and> rc_key (hd ds) = key then Some (hd ds) else None)"
    have run: "filter_by_containers keep cs vs = keep_in_key keep container (takeWhile ?P vs) @ filter_by_containers keep ds (dropWhile ?P vs)"
      using False by (subst filter_by_containers.simps) (simp add: key_def ds_def container_def Let_def)
    have ds_sub: "set ds \<subseteq> set cs" unfolding ds_def using set_dropWhileD by fast
    have ds_asc: "ascending (map rc_key ds)" unfolding ds_def
      using "1.prems"(2) by (metis map_append sorted_wrt_append takeWhile_dropWhile_id)
    have vs_split: "vs = takeWhile ?P vs @ dropWhile ?P vs" by simp
    have up: "key \<le> arnm_roaring_key_of v" if "v \<in> set vs" for v
      unfolding key_def by (rule key_le) (use that "1.prems"(3) False in \<open>cases vs; auto\<close>)
    have in_ds: "v \<in> set (concat (map container_elems ds)) \<longleftrightarrow> v \<in> set (concat (map container_elems cs))" if v: "key \<le> arnm_roaring_key_of v" for v
    proof -
      have "cs = takeWhile (\<lambda>c. rc_key c < key) cs @ ds" by (simp add: ds_def)
      then have "set (concat (map container_elems cs)) =
          set (concat (map container_elems (takeWhile (\<lambda>c. rc_key c < key) cs))) \<union> set (concat (map container_elems ds))"
        by (metis concat_append map_append set_append)
      moreover have "v \<notin> set (concat (map container_elems (takeWhile (\<lambda>c. rc_key c < key) cs)))"
      proof
        assume "v \<in> set (concat (map container_elems (takeWhile (\<lambda>c. rc_key c < key) cs)))"
        then obtain c where c: "c \<in> set (takeWhile (\<lambda>c. rc_key c < key) cs)" "v \<in> set (container_elems c)" by auto
        then have "rc_key c < key" "container_ok c" using set_takeWhileD "1.prems"(1) by fast+
        then show False using container_elems_ascending(2) [OF _ c(2)] v by simp
      qed
      ultimately show ?thesis by blast
    qed
    have cont: "\<forall>c. container = Some c \<longrightarrow> container_ok c \<and> rc_key c = key"
      using "1.prems"(1) ds_sub by (cases ds) (auto simp: container_def split: if_splits)
    have grp: "\<forall>v\<in>set (takeWhile ?P vs). ?P v" using set_takeWhileD by fast
    have asc_t: "ascending (takeWhile ?P vs)" and asc_d: "ascending (dropWhile ?P vs)"
      using "1.prems"(3) vs_split by (metis sorted_wrt_append)+
    have in_cont: "(case container of None \<Rightarrow> False | Some c \<Rightarrow> v \<in> set (container_elems c)) \<longleftrightarrow> v \<in> set (concat (map container_elems cs))"
      if v: "v \<in> set (takeWhile ?P vs)" for v
    proof -
      have k: "arnm_roaring_key_of v = key" using grp v by simp
      have "v \<in> set (concat (map container_elems cs)) \<longleftrightarrow> (\<exists>c\<in>set ds. v \<in> set (container_elems c))"
        using in_ds [of v] k by simp
      also have "\<dots> \<longleftrightarrow> (\<exists>c\<in>set ds. rc_key c = key \<and> v \<in> set (container_elems c))"
      proof -
        have "rc_key c = key" if "c \<in> set ds" "v \<in> set (container_elems c)" for c
          using container_elems_ascending(2) [of c v] "1.prems"(1) ds_sub k that by auto
        then show ?thesis by blast
      qed
      also have "\<dots> \<longleftrightarrow> (case container of None \<Rightarrow> False | Some c \<Rightarrow> v \<in> set (container_elems c))"
      proof (cases ds)
        case Nil
        then show ?thesis by (simp add: container_def)
      next
        case (Cons d es)
        have "\<not> rc_key d < key" using Cons hd_dropWhile [of "\<lambda>c. rc_key c < key" cs] unfolding ds_def by simp
        then have "rc_key e \<noteq> key" if "e \<in> set es" for e using ds_asc that unfolding Cons by auto
        then show ?thesis using Cons by (auto simp: container_def)
      qed
      finally show ?thesis by simp
    qed
    have a: "keep_in_key keep container (takeWhile ?P vs) = filter (\<lambda>v. (v \<in> set (concat (map container_elems cs))) = keep) (takeWhile ?P vs)"
      unfolding keep_in_key_ok [OF cont grp asc_t] using in_cont by (intro filter_cong) auto
    have "filter_by_containers keep ds (dropWhile ?P vs) = filter (\<lambda>v. (v \<in> set (concat (map container_elems ds))) = keep) (dropWhile ?P vs)"
      by (rule "1.IH" [OF False key_def ds_def container_def _ ds_asc asc_d]) (use "1.prems"(1) ds_sub in blast)
    also have "\<dots> = filter (\<lambda>v. (v \<in> set (concat (map container_elems cs))) = keep) (dropWhile ?P vs)"
    proof (rule filter_cong [OF refl])
      fix v assume "v \<in> set (dropWhile ?P vs)"
      then have "key \<le> arnm_roaring_key_of v" by (intro up) (rule set_dropWhileD)
      from in_ds [OF this] show "((v \<in> set (concat (map container_elems ds))) = keep) = ((v \<in> set (concat (map container_elems cs))) = keep)"
        by (simp only:)
    qed
    finally show ?thesis unfolding run a by (metis (no_types, lifting) filter_append vs_split)
  qed
qed

context block_lending begin

text \<open>What an operation on an empty set comes to.\<close>

abbreviation computes :: "(addr \<times> nat) multiset \<Rightarrow> nat set \<Rightarrow> (arnm_result \<times> roaring_bitmap \<times> 'w) option \<Rightarrow> bool" where
  "computes R S res \<equiv> (\<exists>r out w'. res = Some (r, out, w') \<and> sound w' \<and> lent w' = set_blocks out + R \<and> roaring_ok out \<and>
    (if r = ARNM_SUCCESS then set (elems out) = S else out = zero_roaring))"

lemma finishes_computes: "finishes R zero_roaring S res \<Longrightarrow> computes R S res"
  using building_roaring_ok [of 65536] by (auto split: if_splits)

lemma values_computes:
  assumes "sound w" "lent w = R" "ascending vs" "\<forall>v\<in>set vs. v \<le> UINT32_MAX" "length vs \<le> ARNM_ROARING_ARRAY_MAX" "set vs = S"
  shows "computes R S (Some (finish_op src (arnm_roaring_values_result src zero_roaring vs w)))"
proof -
  obtain r out w1 where run: "arnm_roaring_values_result src zero_roaring vs w = (r, out, w1)" by (metis prod_cases3)
  note res = values_result_ok [OF assms(1-5) run]
  show ?thesis
  proof (cases "r = ARNM_SUCCESS")
    case True
    then show ?thesis using res run assms(6) by (simp add: finish_op_def)
  next
    case False
    have h: "sound w1" "lent w1 = set_blocks out + R" "roaring_ok out" using res by blast+
    from finish_op_ok [OF h False] show ?thesis using run False by auto
  qed
qed

lemma sparse_filter_ok:
  assumes "sound w" "lent w = R" "roaring_ok s" "arnm_roaring_is_sparse s" "roaring_ok other"
  shows "computes R {v. within mn mx v \<and> v \<in> set (elems s) \<and> (v \<in> set (elems other)) = keep}
    (Some (finish_op src (sparse_filter src zero_roaring s other keep mn mx w)))"
proof -
  let ?vs = "range_values s mn mx"
  note vs = range_values_filter [OF assms(3,4), of mn mx]
  let ?kept = "filter (\<lambda>v. (v \<in> set (elems other)) = keep) ?vs"
  have asc: "ascending ?vs" unfolding vs using elems_ascending [OF assms(3)] by (rule sorted_wrt_filter)
  have s: "elems s = rb_values s" "length (rb_values s) \<le> 1024" "\<forall>v\<in>set (rb_values s). v \<le> UINT32_MAX"
    using assms(3,4) by (simp_all add: roaring_ok_def values_ok_def arnm_roaring_is_sparse_def elems_def ARNM_ROARING_SPARSE_MAX_def)
  have run: "sparse_filter src zero_roaring s other keep mn mx w = arnm_roaring_values_result src zero_roaring ?kept w"
    using assms(5)
  proof (cases rule: roaring_cases)
    case sparse
    have "(if rb_cardinality other \<noteq> 0 then arnm_roaring_lower_bound32 (rb_values other) (rb_cardinality other) mn else 0) =
        arnm_roaring_lower_bound16 (rb_values other) (length (rb_values other)) mn"
      using sparse(3) by (simp add: bounds_32_16 arnm_roaring_lower_bound16_def)
    moreover have "drop (arnm_roaring_lower_bound16 (rb_values other) (length (rb_values other)) mn) (rb_values other) = filter (\<lambda>x. mn \<le> x) (rb_values other)"
      using lower_bound_split(3) [OF sparse(4)] .
    moreover have "merge_filter id keep ?vs (filter (\<lambda>x. mn \<le> x) (rb_values other)) = ?kept"
    proof -
      have "merge_filter id keep ?vs (filter (\<lambda>x. mn \<le> x) (rb_values other)) = filter (\<lambda>v. (id v \<in> set (filter (\<lambda>x. mn \<le> x) (rb_values other))) = keep) ?vs"
        by (rule merge_filter_keeps) (use asc sorted_wrt_filter [OF sparse(4)] in simp_all)
      also have "\<dots> = ?kept" unfolding vs sparse(2) by (intro filter_cong) auto
      finally show ?thesis .
    qed
    ultimately show ?thesis using sparse(1,3) by (simp add: sparse_filter_def Let_def)
  next
    case directory
    let ?c = "if ?vs \<noteq> [] then arnm_roaring_first_container other (arnm_roaring_key_of (hd ?vs)) else 0"
    let ?ds = "drop ?c (rb_containers other)"
    have all: "\<forall>c\<in>set ?ds. container_ok c" using directory(3) by (auto simp: directory_ok_def dest: in_set_dropD)
    have asc_d: "ascending (map rc_key ?ds)" using directory(3) drop_ascending [of "map rc_key (rb_containers other)" ?c]
      by (simp add: directory_ok_def drop_map)
    have mem: "v \<in> set (concat (map container_elems ?ds)) \<longleftrightarrow> v \<in> set (elems other)" if v: "v \<in> set ?vs" for v
    proof -
      have ne: "?vs \<noteq> []" using v by auto
      have "hd ?vs \<le> v" using v asc ne by (cases ?vs) auto
      then have "v \<in> set (filter (within (hd ?vs) v) (concat (map container_elems ?ds))) \<longleftrightarrow>
          v \<in> set (filter (within (hd ?vs) v) (concat (map container_elems (rb_containers other))))"
        using filter_first(1) [OF directory(3) refl, of "hd ?vs" v] ne by simp
      then show ?thesis using \<open>hd ?vs \<le> v\<close> unfolding directory(2) by simp
    qed
    have "filter_by_containers keep ?ds ?vs = ?kept"
      unfolding filter_by_containers_ok [OF all asc_d asc] using mem by (intro filter_cong) (auto simp del: set_concat)
    then show ?thesis using directory by (simp add: sparse_filter_def Let_def directory_all)
  qed
  have "length ?kept \<le> length (rb_values s)" unfolding vs s(1) by (rule le_trans [OF length_filter_le length_filter_le])
  then have len: "length ?kept \<le> ARNM_ROARING_ARRAY_MAX" using s(2) by (simp add: ARNM_ROARING_ARRAY_MAX_def)
  show ?thesis unfolding run
    by (rule values_computes [OF assms(1,2) sorted_wrt_filter [OF asc] _ len]) (use s vs in auto)
qed

lemma and_sets_ok:
  assumes "sound w" "lent w = R" "roaring_ok a" "roaring_ok b" "mn \<le> mx" "mx \<le> UINT32_MAX"
  shows "computes R {v. within mn mx v \<and> v \<in> set (elems a) \<and> v \<in> set (elems b)} (and_sets src zero_roaring a b mn mx w)"
proof (cases "arnm_roaring_is_sparse a \<or> arnm_roaring_is_sparse b")
  case True
  let ?r = "arnm_roaring_is_sparse a \<and> (\<not> arnm_roaring_is_sparse b \<or> rb_cardinality a \<le> rb_cardinality b)"
  have run: "and_sets src zero_roaring a b mn mx w =
      Some (finish_op src (sparse_filter src zero_roaring (if ?r then a else b) (if ?r then b else a) True mn mx w))"
    using True by (simp add: and_sets_def Let_def)
  show ?thesis
  proof (cases ?r)
    case True
    then have "arnm_roaring_is_sparse a" by blast
    from sparse_filter_ok [OF assms(1-3) this assms(4), where mn = mn and mx = mx and keep = True, unfolded eq_True]
    show ?thesis unfolding run if_P [OF True] .
  next
    case False
    then have "arnm_roaring_is_sparse b" using True by blast
    from sparse_filter_ok [OF assms(1,2,4) this assms(3), where mn = mn and mx = mx and keep = True, unfolded eq_True]
    have "computes R {v. within mn mx v \<and> v \<in> set (elems b) \<and> v \<in> set (elems a)}
      (Some (finish_op src (sparse_filter src zero_roaring b a True mn mx w)))" .
    moreover have "{v. within mn mx v \<and> v \<in> set (elems b) \<and> v \<in> set (elems a)} = {v. within mn mx v \<and> v \<in> set (elems a) \<and> v \<in> set (elems b)}"
      by blast
    ultimately show ?thesis unfolding run if_not_P [OF False] by (simp only:)
  qed
next
  case False
  note ra = reading_begin [OF assms(3,6), of mn] and rb = reading_begin [OF assms(4,6), of mn]
  have held: "lent w = set_blocks zero_roaring + R" using assms(2) by simp
  have same: "{v. within mn mx v \<and> v \<in> set (elems a) \<and> v \<in> set (elems b)} = {v. within mn mx v \<and>
      v \<in> set (source_left (arnm_roaring_source_begin (Some a) mn mx False True)) \<and>
      v \<in> set (source_left (arnm_roaring_source_begin (Some b) mn mx False True))}"
    using ra(2) rb(2) by blast
  have run: "and_sets src zero_roaring a b mn mx w = and_loop src mn mx (arnm_roaring_source_begin (Some a) mn mx False True)
      (arnm_roaring_source_begin (Some b) mn mx False True) zero_roaring w" using False by (simp add: and_sets_def)
  show ?thesis unfolding run same
    by (rule finishes_computes [OF and_loop_ok [OF assms(1) held building_zero le0 assms(5,6) ra(1) rb(1)]])
qed

lemma or_sets_ok:
  assumes "sound w" "lent w = R" "roaring_ok a" "roaring_ok b" "mn \<le> mx" "mx \<le> UINT32_MAX"
  shows "computes R {v. within mn mx v \<and> (v \<in> set (elems a) \<or> v \<in> set (elems b))} (or_sets src zero_roaring a b mn mx w)"
proof (cases "arnm_roaring_is_sparse a \<and> arnm_roaring_is_sparse b")
  case True
  let ?x = "range_values a mn mx" and ?y = "range_values b mn mx"
  have xy: "?x = filter (within mn mx) (elems a)" "?y = filter (within mn mx) (elems b)"
    using range_values_filter assms(3,4) True by simp_all
  have asc: "ascending ?x" "ascending ?y" unfolding xy by (intro sorted_wrt_filter elems_ascending assms(3,4))+
  have small: "elems s = rb_values s \<and> length (rb_values s) \<le> 1024 \<and> (\<forall>v\<in>set (rb_values s). v \<le> UINT32_MAX)"
    if "roaring_ok s" "arnm_roaring_is_sparse s" for s
    using that by (simp add: roaring_ok_def values_ok_def arnm_roaring_is_sparse_def elems_def ARNM_ROARING_SPARSE_MAX_def)
  have "length ?x \<le> 1024" "length ?y \<le> 1024"
    unfolding xy using small assms(3,4) True le_trans [OF length_filter_le] by metis+
  then have len: "length (or_merge ?x ?y) \<le> ARNM_ROARING_ARRAY_MAX"
    using or_merge_union(2) [of ?x ?y] by (simp add: ARNM_ROARING_ARRAY_MAX_def)
  have "computes R {v. within mn mx v \<and> (v \<in> set (elems a) \<or> v \<in> set (elems b))}
      (Some (finish_op src (arnm_roaring_values_result src zero_roaring (or_merge ?x ?y) w)))"
    by (rule values_computes [OF assms(1,2) or_merge_ascending [OF asc] _ len])
       (use small assms(3,4) True xy in \<open>auto simp: or_merge_union(1)\<close>)
  then show ?thesis using True by (simp add: or_sets_def)
next
  case False
  note ra = reading_begin [OF assms(3,6), of mn] and rb = reading_begin [OF assms(4,6), of mn]
  have held: "lent w = set_blocks zero_roaring + R" using assms(2) by simp
  have same: "{v. within mn mx v \<and> (v \<in> set (elems a) \<or> v \<in> set (elems b))} = {v. within mn mx v \<and>
      (v \<in> set (source_left (arnm_roaring_source_begin (Some a) mn mx False True)) \<or>
       v \<in> set (source_left (arnm_roaring_source_begin (Some b) mn mx False True)))}"
    using ra(2) rb(2) by blast
  have run: "or_sets src zero_roaring a b mn mx w = or_loop src mn mx (arnm_roaring_source_begin (Some a) mn mx False True)
      (arnm_roaring_source_begin (Some b) mn mx False True) zero_roaring w" unfolding or_sets_def if_not_P [OF False] by (rule refl)
  show ?thesis unfolding run same
    by (rule finishes_computes [OF or_loop_ok [OF assms(1) held building_zero le0 assms(5,6) ra(1) rb(1)]])
qed

lemma andnot_sets_ok:
  assumes "sound w" "lent w = R" "roaring_ok a" "roaring_ok b" "mn \<le> mx" "mx \<le> UINT32_MAX"
  shows "computes R {v. within mn mx v \<and> v \<in> set (elems a) \<and> v \<notin> set (elems b)} (andnot_sets src zero_roaring a b mn mx w)"
proof (cases "arnm_roaring_is_sparse a")
  case True
  then have run: "andnot_sets src zero_roaring a b mn mx w = Some (finish_op src (sparse_filter src zero_roaring a b False mn mx w))"
    by (simp add: andnot_sets_def)
  show ?thesis unfolding run
    by (rule sparse_filter_ok [OF assms(1-3) True assms(4), where mn = mn and mx = mx and keep = False, unfolded eq_False])
next
  case False
  note ra = reading_begin [OF assms(3,6), of mn] and rb = reading_begin [OF assms(4,6), of mn]
  have held: "lent w = set_blocks zero_roaring + R" using assms(2) by simp
  have same: "{v. within mn mx v \<and> v \<in> set (elems a) \<and> v \<notin> set (elems b)} = {v. within mn mx v \<and>
      v \<in> set (source_left (arnm_roaring_source_begin (Some a) mn mx False True)) \<and>
      v \<notin> set (source_left (arnm_roaring_source_begin (Some b) mn mx False True))}"
    using ra(2) rb(2) by blast
  have run: "andnot_sets src zero_roaring a b mn mx w = andnot_loop src mn mx (arnm_roaring_source_begin (Some a) mn mx False True)
      (arnm_roaring_source_begin (Some b) mn mx False True) zero_roaring w" using False by (simp add: andnot_sets_def)
  show ?thesis unfolding run same
    by (rule finishes_computes [OF andnot_loop_ok [OF assms(1) held building_zero le0 assms(5,6) ra(1) rb(1)]])
qed

lemma copy_set_range_ok:
  assumes "sound w" "lent w = R" "roaring_ok a" "mn \<le> mx" "mx \<le> UINT32_MAX"
  shows "computes R {v. within mn mx v \<and> v \<in> set (elems a)} (copy_set_range src zero_roaring a mn mx w)"
proof (cases "arnm_roaring_is_sparse a")
  case True
  have small: "elems a = rb_values a" "length (rb_values a) \<le> 1024" "\<forall>v\<in>set (rb_values a). v \<le> UINT32_MAX" "rb_cardinality a = length (rb_values a)"
    using assms(3) True by (simp_all add: roaring_ok_def values_ok_def arnm_roaring_is_sparse_def elems_def ARNM_ROARING_SPARSE_MAX_def)
  let ?x = "range_values a mn mx"
  note x = range_values_filter [OF assms(3) True, of mn mx]
  show ?thesis
  proof (cases "rb_cardinality a = 0")
    case True
    then show ?thesis using \<open>arnm_roaring_is_sparse a\<close> small assms(1,2) by (simp add: copy_set_range_def)
  next
    case False
    have asc: "ascending ?x" unfolding x by (intro sorted_wrt_filter elems_ascending assms(3))
    have "length ?x \<le> 1024" unfolding x using small le_trans [OF length_filter_le] by metis
    then have len: "length ?x \<le> ARNM_ROARING_ARRAY_MAX" by (simp add: ARNM_ROARING_ARRAY_MAX_def)
    have "computes R {v. within mn mx v \<and> v \<in> set (elems a)} (Some (finish_op src (arnm_roaring_values_result src zero_roaring ?x w)))"
      by (rule values_computes [OF assms(1,2) asc _ len]) (use small x in auto)
    then show ?thesis using True False by (simp add: copy_set_range_def)
  qed
next
  case False
  note ra = reading_begin [OF assms(3,5), of mn]
  have held: "lent w = set_blocks zero_roaring + R" using assms(2) by simp
  have same: "{v. within mn mx v \<and> v \<in> set (elems a)} =
      {v. within mn mx v \<and> v \<in> set (source_left (arnm_roaring_source_begin (Some a) mn mx False True))}"
    using ra(2) by blast
  have run: "copy_set_range src zero_roaring a mn mx w =
      copy_loop src mn mx (arnm_roaring_source_begin (Some a) mn mx False True) zero_roaring w" using False by (simp add: copy_set_range_def)
  show ?thesis unfolding run same by (rule finishes_computes [OF copy_loop_ok [OF assms(1) held building_zero le0 assms(4,5) ra(1)]])
qed

end

end
