(* ===== verification/Roaring_Algebra.thy ===== *)
theory Roaring_Algebra
  imports Roaring_Ops Roaring_Set
begin

text \<open>What the set operations of \<open>Roaring_Ops\<close> promise, over the pool of blocks.\<close>

text \<open>
  The outcome of an operation: it ends; the pool's books hold the blocks of the result beside those that were lent
  before; no set but the one at \<open>out\<close> changes; that one is well-formed and holds exactly \<open>S\<close>, or is empty
  again where the operation failed.
\<close>

fun operation_outcome :: "set_store \<Rightarrow> addr \<Rightarrow> (addr \<times> nat) multiset \<Rightarrow> nat set \<Rightarrow>
    (arnm_result \<times> set_store \<times> block_state_ghost option) option \<Rightarrow> bool" where
  "operation_outcome sets out R S (Some (r, sets', Some u)) \<longleftrightarrow>
    pool_blocks_sound u \<and> pool_blocks_lent u = set_blocks (sets' out) + R \<and> (\<forall>x. x \<noteq> out \<longrightarrow> sets' x = sets x) \<and>
    roaring_ok (sets' out) \<and> (if r = ARNM_SUCCESS then set (elems (sets' out)) = S else sets' out = zero_roaring)"
| "operation_outcome sets out R S _ \<longleftrightarrow> False"

lemma outcome_stored:
  assumes "\<exists>r t w'. res = Some (r, t, w') \<and> pool_blocks_sound w' \<and> pool_blocks_lent w' = set_blocks t + R \<and> roaring_ok t \<and>
      (if r = ARNM_SUCCESS then set (elems t) = S else t = zero_roaring)"
  shows "operation_outcome sets out R S (map_option (stored sets out) res)"
  using assms by (auto simp: stored_def simp del: pool_blocks_sound.simps pool_blocks_lent.simps)

lemma outcome_empty:
  "pool_blocks_sound w \<Longrightarrow> pool_blocks_lent w = R \<Longrightarrow> sets out = zero_roaring \<Longrightarrow> S = {} \<Longrightarrow>
    operation_outcome sets out R S (Some (ARNM_SUCCESS, sets, Some w))"
  by simp

text \<open>C11: And, or, and-not and the copy of a range each end, and build in an empty set exactly the values that
  the operation on the sets and the range ask for, whatever the forms of the two sets; the inputs stay
  as they are, the pool's books balance, and where the pool fails half way the result is empty again
  and every block taken for it is back.\<close>

theorem roaring_operations_exact:
  assumes "pool_blocks_sound w" "pool_blocks_lent w = R" "sets out = zero_roaring" "roaring_ok (sets a)" "roaring_ok (sets b)"
    and "out \<noteq> NULL" "a \<noteq> NULL" "b \<noteq> NULL" "out \<noteq> a" "out \<noteq> b" "mx \<le> UINT32_MAX"
  shows "operation_outcome sets out R {v. mn \<le> v \<and> v \<le> mx \<and> v \<in> set (elems (sets a)) \<and> v \<in> set (elems (sets b))}
      (arnm_roaring_and pool_blocks sets out a b mn mx (Some w)) \<and>
    operation_outcome sets out R {v. mn \<le> v \<and> v \<le> mx \<and> (v \<in> set (elems (sets a)) \<or> v \<in> set (elems (sets b)))}
      (arnm_roaring_or pool_blocks sets out a b mn mx (Some w)) \<and>
    operation_outcome sets out R {v. mn \<le> v \<and> v \<le> mx \<and> v \<in> set (elems (sets a)) \<and> v \<notin> set (elems (sets b))}
      (arnm_roaring_andnot pool_blocks sets out a b mn mx (Some w)) \<and>
    operation_outcome sets out R {v. mn \<le> v \<and> v \<le> mx \<and> v \<in> set (elems (sets a))}
      (arnm_roaring_copy_range pool_blocks sets out a mn mx (Some w))"
proof -
  have check: "check_operation sets out a b (Some w) = ARNM_SUCCESS" "check_operation sets out a a (Some w) = ARNM_SUCCESS"
    using assms(3,6-10) by (simp_all add: check_operation_def zero_roaring_def)
  show ?thesis
  proof (cases "mn \<le> mx")
    case False
    then show ?thesis using check assms(1-3)
      by (auto simp: arnm_roaring_and_def arnm_roaring_or_def arnm_roaring_andnot_def arnm_roaring_copy_range_def)
  next
    case True
    have run: "arnm_roaring_and pool_blocks sets out a b mn mx (Some w) =
        map_option (stored sets out) (and_sets pool_blocks zero_roaring (sets a) (sets b) mn mx w)"
      "arnm_roaring_or pool_blocks sets out a b mn mx (Some w) =
        map_option (stored sets out) (or_sets pool_blocks zero_roaring (sets a) (sets b) mn mx w)"
      "arnm_roaring_andnot pool_blocks sets out a b mn mx (Some w) =
        map_option (stored sets out) (andnot_sets pool_blocks zero_roaring (sets a) (sets b) mn mx w)"
      "arnm_roaring_copy_range pool_blocks sets out a mn mx (Some w) =
        map_option (stored sets out) (copy_set_range pool_blocks zero_roaring (sets a) mn mx w)"
      using True check assms(3)
      by (simp_all add: arnm_roaring_and_def arnm_roaring_or_def arnm_roaring_andnot_def arnm_roaring_copy_range_def)
    show ?thesis unfolding run conj_assoc [of "mn \<le> _", symmetric]
      by (intro conjI outcome_stored pool.and_sets_ok pool.or_sets_ok pool.andnot_sets_ok pool.copy_set_range_ok assms True)
  qed
qed

text \<open>C15: The operations refuse before they touch anything: a NULL pointer, and a result set that is one of the
  inputs or holds something already; a range the wrong way round succeeds at once with nothing.\<close>

theorem roaring_operations_refuse:
  assumes "out = NULL \<or> a = NULL \<or> b = NULL \<or> pool = None \<or> out = a \<or> out = b \<or> rb_block (sets out) \<noteq> NULL \<or>
      rb_cardinality (sets out) \<noteq> 0 \<or> mx < mn"
  shows "\<exists>e. arnm_roaring_and src sets out a b mn mx pool = Some (e, sets, pool) \<and>
    arnm_roaring_or src sets out a b mn mx pool = Some (e, sets, pool) \<and>
    arnm_roaring_andnot src sets out a b mn mx pool = Some (e, sets, pool) \<and>
    (b = a \<longrightarrow> arnm_roaring_copy_range src sets out a mn mx pool = Some (e, sets, pool)) \<and>
    e = (if out = NULL \<or> a = NULL \<or> b = NULL \<or> pool = None then ARNM_ERROR_NULL_POINTER
         else if out = a \<or> out = b \<or> rb_block (sets out) \<noteq> NULL \<or> rb_cardinality (sets out) \<noteq> 0 then ARNM_ERROR_INVALID_PARAM
         else ARNM_SUCCESS)"
proof -
  let ?e = "check_operation sets out a b pool"
  have stop: "?e \<noteq> ARNM_SUCCESS \<or> mn > mx" using assms by (auto simp: check_operation_def)
  then have "arnm_roaring_and src sets out a b mn mx pool = Some (?e, sets, pool)"
    "arnm_roaring_or src sets out a b mn mx pool = Some (?e, sets, pool)"
    "arnm_roaring_andnot src sets out a b mn mx pool = Some (?e, sets, pool)"
    "b = a \<longrightarrow> arnm_roaring_copy_range src sets out a mn mx pool = Some (?e, sets, pool)"
    unfolding arnm_roaring_and_def arnm_roaring_or_def arnm_roaring_andnot_def arnm_roaring_copy_range_def Let_def by simp_all
  then show ?thesis unfolding check_operation_def by blast
qed

section \<open>Witnesses\<close>

text \<open>The result goes to 8; at 16 the sample set of two keys, at 24 an array of values.\<close>

definition sample_values :: roaring_bitmap where
  "sample_values = zero_roaring\<lparr>rb_block := 32768, rb_values := [7, 9, 65537, 70000], rb_cardinality := 4, rb_maximum := 70000, rb_directory_log2 := 4\<rparr>"

definition sample_store :: set_store where
  "sample_store x = (if x = 16 then sample_set else if x = 24 then sample_values else zero_roaring)"

lemma sample_values_ok: "roaring_ok sample_values" "elems sample_values = [7, 9, 65537, 70000]"
  by (simp_all add: roaring_ok_def values_ok_def sample_values_def zero_roaring_def elems_def UINT32_MAX_def ARNM_ROARING_SPARSE_MAX_def)

lemma roaring_operations_exact_witness:
  "\<exists>w r sets' u. arnm_roaring_and pool_blocks sample_store 8 16 24 8 70000 (Some w) = Some (r, sets', Some u) \<and>
    (r = ARNM_SUCCESS \<longrightarrow> set (elems (sets' 8)) = {9, 65537}) \<and> (r \<noteq> ARNM_SUCCESS \<longrightarrow> sets' 8 = zero_roaring) \<and>
    pool_blocks_lent u = set_blocks (sets' 8)"
proof -
  obtain p opt' w where p:
    "arnm_graded_block_pool_init (Some zero_block_pool) (Some sample_block_options) NULL sample_host = (ARNM_SUCCESS, Some p, opt', w)"
    "host_ok (heap sample_host)" "pool_blocks_sound (p, w, [])" "pool_blocks_lent (p, w, []) = set_blocks zero_roaring + {#}"
    by (rule sample_pool)
  have st: "sample_store 8 = zero_roaring" "sample_store 16 = sample_set" "sample_store 24 = sample_values" by (simp_all add: sample_store_def)
  have e: "{v. 8 \<le> v \<and> v \<le> 70000 \<and> v \<in> set (elems (sample_store 16)) \<and> v \<in> set (elems (sample_store 24))} = {9, 65537}"
    unfolding st sample_set_ok(2) sample_values_ok(2) by auto
  have ok: "roaring_ok (sample_store 16)" "roaring_ok (sample_store 24)" "pool_blocks_lent (p, w, []) = {#}" "(70000::nat) \<le> UINT32_MAX"
    using sample_set_ok(1) sample_values_ok(1) p(4) by (simp_all add: st UINT32_MAX_def)
  have "operation_outcome sample_store 8 {#} {9, 65537} (arnm_roaring_and pool_blocks sample_store 8 16 24 8 70000 (Some (p, w, [])))"
    using roaring_operations_exact [OF p(3) ok(3) st(1) ok(1,2) _ _ _ _ _ ok(4), where mn = 8] unfolding e by simp
  then obtain r sets' u where "arnm_roaring_and pool_blocks sample_store 8 16 24 8 70000 (Some (p, w, [])) = Some (r, sets', Some u)"
      "pool_blocks_lent u = set_blocks (sets' 8)" "if r = ARNM_SUCCESS then set (elems (sets' 8)) = {9, 65537} else sets' 8 = zero_roaring"
    by (elim operation_outcome.elims) auto
  then show ?thesis by (intro exI [of _ "(p, w, [])"] exI [of _ r] exI [of _ sets'] exI [of _ u]) (simp split: if_splits)
qed

lemma roaring_operations_refuse_witness:
  "arnm_roaring_or pool_blocks sample_store 24 16 24 0 9 None = Some (ARNM_ERROR_NULL_POINTER, sample_store, None)"
  using roaring_operations_refuse [of 24 16 24 None sample_store 9 0 pool_blocks] by simp

end
