(* ===== verification/Roaring_Merge.thy ===== *)
theory Roaring_Merge
  imports Roaring_Kernels
begin

unbundle bit_operations_syntax

text \<open>
  Merging several ascending runs without building the result (\<^verbatim>\<open>src/roaring_query.c\<close>): the loop that picks
  the first head, steps every run that stands on it and drops the runs that are done, filling the gap with
  the last one. The code has it three times, over runs of 32-bit values going up, over the same going
  either way, and over cursors into containers; here it is written once over any run that can show its
  head and step, and \<open>merge_run\<close> states what a run has to promise for the merge to list the union.
\<close>

section \<open>The loop\<close>

definition value_before :: "bool \<Rightarrow> nat \<Rightarrow> nat \<Rightarrow> bool" where
  "value_before descending a b \<longleftrightarrow> (if descending then a > b else a < b)"

definition first_head :: "bool \<Rightarrow> nat list \<Rightarrow> nat" where
  "first_head descending hs = fold (\<lambda>h pick. if value_before descending h pick then h else pick) (tl hs) (hd hs)"

text \<open>Entry \<open>p\<close> makes way for the last one: \<open>runs[p] = runs[--count]\<close>.\<close>

definition drop_run :: "nat \<Rightarrow> 'c list \<Rightarrow> 'c list" where
  "drop_run p cs = butlast (cs[p := last cs])"

lemma length_drop_run [simp]: "length (drop_run p cs) = length cs - 1"
  by (simp add: drop_run_def)

function step_runs :: "('c \<Rightarrow> nat) \<Rightarrow> ('c \<Rightarrow> 'c option) \<Rightarrow> nat \<Rightarrow> 'c list \<Rightarrow> nat \<Rightarrow> 'c list" where
  "step_runs head step pick cs p =
    (if p < length cs then
       if head (cs ! p) = pick then
         (case step (cs ! p) of
            None \<Rightarrow> step_runs head step pick (drop_run p cs) p
          | Some c \<Rightarrow> step_runs head step pick (cs[p := c]) (p + 1))
       else step_runs head step pick cs (p + 1)
     else cs)"
  by auto
termination
  by (relation "measure (\<lambda>(head, step, pick, cs, p). length cs - p)") auto

declare step_runs.simps [simp del]

lemma step_runs_done: "\<not> p < length cs \<Longrightarrow> step_runs head step pick cs p = cs"
  by (subst step_runs.simps) simp

lemma step_runs_skip:
  "p < length cs \<Longrightarrow> head (cs ! p) \<noteq> pick \<Longrightarrow> step_runs head step pick cs p = step_runs head step pick cs (p + 1)"
  by (subst step_runs.simps) simp

lemma step_runs_drop:
  "p < length cs \<Longrightarrow> head (cs ! p) = pick \<Longrightarrow> step (cs ! p) = None \<Longrightarrow>
    step_runs head step pick cs p = step_runs head step pick (drop_run p cs) p"
  by (subst step_runs.simps) simp

lemma step_runs_go:
  "p < length cs \<Longrightarrow> head (cs ! p) = pick \<Longrightarrow> step (cs ! p) = Some c \<Longrightarrow>
    step_runs head step pick cs p = step_runs head step pick (cs[p := c]) (p + 1)"
  by (subst step_runs.simps) simp

definition merge_step :: "bool \<Rightarrow> ('c \<Rightarrow> nat) \<Rightarrow> ('c \<Rightarrow> 'c option) \<Rightarrow> 'c list \<Rightarrow> nat \<times> 'c list" where
  "merge_step descending head step cs =
    (let pick = first_head descending (map head cs) in (pick, step_runs head step pick cs 0))"

text \<open>Counting what the merge would list.\<close>

partial_function (option) merge_count :: "('c \<Rightarrow> nat) \<Rightarrow> ('c \<Rightarrow> 'c option) \<Rightarrow> 'c list \<Rightarrow> nat \<Rightarrow> nat option" where
  "merge_count head step cs counted =
    (if cs = [] then Some counted else merge_count head step (snd (merge_step False head step cs)) (counted + 1))"

text \<open>
  Listing it: \<open>skip\<close> values are passed over, then up to \<open>left\<close> are listed, while more than \<open>least\<close> runs are live.
\<close>

function merge_list :: "bool \<Rightarrow> ('c \<Rightarrow> nat) \<Rightarrow> ('c \<Rightarrow> 'c option) \<Rightarrow> nat \<Rightarrow> 'c list \<Rightarrow> nat \<Rightarrow> nat \<Rightarrow>
    nat list \<times> nat \<times> 'c list" where
  "merge_list descending head step least cs skip left =
    (if left \<noteq> 0 \<and> length cs > least then
       case merge_step descending head step cs of
         (pick, cs) \<Rightarrow>
           if skip \<noteq> 0 then merge_list descending head step least cs (skip - 1) left
           else (case merge_list descending head step least cs 0 (left - 1) of (written, r) \<Rightarrow> (pick # written, r))
     else ([], skip, cs))"
  by auto
termination
  by (relation "measure (\<lambda>(descending, head, step, least, cs, skip, left). skip + left)") auto

declare merge_list.simps [simp del]

text \<open>One run alone.\<close>

function run_list :: "('c \<Rightarrow> nat) \<Rightarrow> ('c \<Rightarrow> 'c option) \<Rightarrow> 'c \<Rightarrow> nat \<Rightarrow> nat \<Rightarrow> nat list \<times> nat" where
  "run_list head step c skip left =
    (if left = 0 then ([], skip)
     else if skip \<noteq> 0 then
       (case step c of None \<Rightarrow> ([], skip - 1) | Some c \<Rightarrow> run_list head step c (skip - 1) left)
     else
       (case step c of None \<Rightarrow> ([head c], 0)
        | Some c' \<Rightarrow> (case run_list head step c' 0 (left - 1) of (written, r) \<Rightarrow> (head c # written, r))))"
  by auto
termination
  by (relation "measure (\<lambda>(head, step, c, skip, left). skip + left)") auto

declare run_list.simps [simp del]

text \<open>A slice of an array, from either end.\<close>

definition slice_emit :: "(nat \<Rightarrow> nat) \<Rightarrow> nat list \<Rightarrow> nat \<times> nat \<Rightarrow> nat \<Rightarrow> nat \<Rightarrow> bool \<Rightarrow> nat list \<times> nat" where
  "slice_emit at xs reach skip n descending =
    (case reach of (b, e) \<Rightarrow>
       let available = e - b
       in if skip \<ge> available then ([], skip - available)
          else
            let left = available - skip; room = (if left < n then left else n)
            in (map (\<lambda>i. at (xs ! (if descending then e - 1 - skip - i else b + skip + i))) [0..<room], 0))"

definition ROARING_UNION_BITS_FROM :: nat where "ROARING_UNION_BITS_FROM = 128"

section \<open>What it lists\<close>

definition listing :: "bool \<Rightarrow> nat set \<Rightarrow> nat list" where
  "listing descending U = (if descending then rev (sorted_list_of_set U) else sorted_list_of_set U)"

lemma length_listing [simp]: "length (listing d U) = card U"
  by (simp add: listing_def)

lemma set_listing [simp]: "finite U \<Longrightarrow> set (listing d U) = U"
  by (simp add: listing_def)

lemma listing_empty [simp]: "listing d {} = []"
  by (simp add: listing_def)

lemma sorted_list_ascending: "ascending xs \<Longrightarrow> sorted_list_of_set (set xs) = xs"
  by (intro ascending_eq) simp_all

lemma listing_ascending: "ascending xs \<Longrightarrow> listing d (set xs) = (if d then rev xs else xs)"
  by (simp add: listing_def sorted_list_ascending)

text \<open>The first value of a listing, and the rest.\<close>

lemma listing_first:
  assumes "finite U" "x \<in> U" "\<And>y. y \<in> U \<Longrightarrow> y \<noteq> x \<Longrightarrow> value_before d x y"
  shows "listing d U = x # listing d (U - {x})"
proof (cases d)
  case True
  have "sorted_list_of_set U = sorted_list_of_set (U - {x}) @ [x]"
    by (rule ascending_eq) (use assms True in \<open>auto simp: sorted_wrt_append value_before_def\<close>)
  then show ?thesis using True by (simp add: listing_def)
next
  case False
  have "sorted_list_of_set U = x # sorted_list_of_set (U - {x})"
    by (rule ascending_eq) (use assms False in \<open>auto simp: value_before_def\<close>)
  then show ?thesis using False by (simp add: listing_def)
qed

text \<open>Two sets of which the one comes first.\<close>

lemma listing_append:
  assumes "finite U" "finite V" "\<And>x y. x \<in> U \<Longrightarrow> y \<in> V \<Longrightarrow> value_before d x y"
  shows "listing d (U \<union> V) = listing d U @ listing d V"
proof (cases d)
  case True
  have "sorted_list_of_set (U \<union> V) = sorted_list_of_set V @ sorted_list_of_set U"
    by (rule ascending_eq) (use assms True in \<open>auto simp: sorted_wrt_append value_before_def\<close>)
  then show ?thesis using True by (simp add: listing_def)
next
  case False
  have "sorted_list_of_set (U \<union> V) = sorted_list_of_set U @ sorted_list_of_set V"
    by (rule ascending_eq) (use assms False in \<open>auto simp: sorted_wrt_append value_before_def\<close>)
  then show ?thesis using False by (simp add: listing_def)
qed

lemma listing_map:
  assumes "\<And>x y. x \<in> U \<Longrightarrow> y \<in> U \<Longrightarrow> x < y \<longleftrightarrow> f x < f y" "finite U"
  shows "listing d (f ` U) = map f (listing d U)"
proof -
  have "ascending (map f (sorted_list_of_set U))"
    unfolding sorted_wrt_map by (rule sorted_wrt_mono_rel [where P = "(<)"]) (use assms in auto)
  then have "sorted_list_of_set (f ` U) = map f (sorted_list_of_set U)"
    by (intro ascending_eq) (use assms(2) in simp_all)
  then show ?thesis by (simp add: listing_def rev_map)
qed

lemma first_head_in: "hs \<noteq> [] \<Longrightarrow> first_head d hs \<in> set hs \<and> (\<forall>h\<in>set hs. h \<noteq> first_head d hs \<longrightarrow> value_before d (first_head d hs) h)"
proof -
  have *: "(let r = fold (\<lambda>h pick. if value_before d h pick then h else pick) hs a
      in r \<in> insert a (set hs) \<and> (\<forall>h\<in>insert a (set hs). h \<noteq> r \<longrightarrow> value_before d r h))" for hs a
  proof (induction hs arbitrary: a)
    case (Cons h hs)
    show ?case using Cons.IH [of "if value_before d h a then h else a"]
      by (cases "value_before d h a") (auto simp: Let_def value_before_def split: if_splits)
  qed simp
  assume "hs \<noteq> []"
  then obtain a t where "hs = a # t" by (meson neq_Nil_conv)
  then show ?thesis using * [where hs = t and a = a] by (simp add: first_head_def Let_def)
qed

text \<open>The slots of a page: what two parts written one after the other make of it.\<close>

lemma page_parts:
  "take n (drop k (xs @ ys)) =
    take n (drop k xs) @ take (n - length (take n (drop k xs))) (drop (k - length xs) ys)"
  by (cases "n \<le> length xs - k"; cases "k \<le> length xs") (simp_all add: min_def)

text \<open>
  What a run promises: \<open>left_of\<close> is what it still has to show, in the direction of the merge, its head first.
\<close>

locale merge_run =
  fixes descending :: bool and head :: "'c \<Rightarrow> nat" and step :: "'c \<Rightarrow> 'c option" and good :: "'c \<Rightarrow> bool" and left_of :: "'c \<Rightarrow> nat set"
  assumes head_first: "good c \<Longrightarrow> head c \<in> left_of c \<and> finite (left_of c) \<and>
      (\<forall>y\<in>left_of c. y \<noteq> head c \<longrightarrow> value_before descending (head c) y)"
    and step_none: "good c \<Longrightarrow> step c = None \<Longrightarrow> left_of c = {head c}"
    and step_some: "good c \<Longrightarrow> step c = Some c' \<Longrightarrow> good c' \<and> left_of c' = left_of c - {head c}"
begin

abbreviation united :: "'c list \<Rightarrow> nat set" where
  "united cs \<equiv> \<Union> (left_of ` set cs)"

lemma drop_run_set:
  assumes "p < length cs"
  shows "set (drop_run p cs) \<subseteq> set cs" "set cs \<subseteq> insert (cs ! p) (set (drop_run p cs))"
    "\<And>q. q < p \<Longrightarrow> drop_run p cs ! q = cs ! q"
proof -
  obtain ds l where cs: "cs = ds @ [l]" using assms by (metis list.size(3) not_less_zero rev_exhaust)
  have d: "drop_run p cs = (if p = length ds then ds else ds[p := l])"
    using assms by (auto simp: drop_run_def cs list_update_append)
  have p: "p \<le> length ds" using assms cs by simp
  show "set (drop_run p cs) \<subseteq> set cs" unfolding d using set_update_subset_insert [of ds p l] by (auto simp: cs)
  show "set cs \<subseteq> insert (cs ! p) (set (drop_run p cs))"
  proof
    fix x assume "x \<in> set cs"
    then obtain i where i: "i < length cs" "x = cs ! i" by (metis in_set_conv_nth)
    consider "i = p" | "i = length ds" "i \<noteq> p" | "i < length ds" "i \<noteq> p" using i p cs by fastforce
    then show "x \<in> insert (cs ! p) (set (drop_run p cs))"
    proof cases
      case 1
      then show ?thesis using i by simp
    next
      case 2
      then show ?thesis unfolding d i(2) using p by (simp add: cs set_update_memI)
    next
      case 3
      then show ?thesis unfolding d i(2) using nth_mem [of i "ds[p := l]"] by (simp add: cs nth_append)
    qed
  qed
  show "drop_run p cs ! q = cs ! q" if "q < p" for q using that p unfolding d by (simp add: cs nth_append)
qed

lemma step_runs_ok:
  assumes "\<forall>c\<in>set cs. good c \<and> (pick \<in> left_of c \<longrightarrow> head c = pick)" "\<forall>q<p. q < length cs \<longrightarrow> pick \<notin> left_of (cs ! q)"
  shows "(\<forall>c\<in>set (step_runs head step pick cs p). good c) \<and> united (step_runs head step pick cs p) = united cs - {pick}"
  using assms
proof (induction "length cs - p" arbitrary: cs p rule: less_induct)
  case less
  note pre = less.prems
  show ?case
  proof (cases "p < length cs")
    case False
    have "pick \<notin> left_of c" if c: "c \<in> set cs" for c
    proof -
      obtain i where i: "i < length cs" "c = cs ! i" using c unfolding in_set_conv_nth by blast
      then have "i < p" using False by linarith
      then show ?thesis using pre(2) i by blast
    qed
    then have "pick \<notin> united cs" by blast
    then show ?thesis using step_runs_done [OF False] pre(1) by simp
  next
    case True
    let ?c = "cs ! p"
    have c: "good ?c" "pick \<in> left_of ?c \<longrightarrow> head ?c = pick" "?c \<in> set cs" using True pre(1) by auto
    show ?thesis
    proof (cases "head ?c = pick")
      case False
      have "\<forall>q<p + 1. q < length cs \<longrightarrow> pick \<notin> left_of (cs ! q)" using pre(2) False c(2) by (auto simp: less_Suc_eq)
      from less.hyps [OF _ pre(1) this] show ?thesis unfolding step_runs_skip [where head = head and step = step, OF True False] using True by simp
    next
      case h: True
      show ?thesis
      proof (cases "step ?c")
        case None
        note d = drop_run_set [OF True]
        have a: "\<forall>q<p. q < length (drop_run p cs) \<longrightarrow> pick \<notin> left_of (drop_run p cs ! q)" using pre(2) d(3) by simp
        have b: "\<forall>c\<in>set (drop_run p cs). good c \<and> (pick \<in> left_of c \<longrightarrow> head c = pick)" using pre(1) d(1) by blast
        have "length (drop_run p cs) - p < length cs - p" using True by simp
        from less.hyps [OF this b a] have r: "(\<forall>c\<in>set (step_runs head step pick (drop_run p cs) p). good c) \<and>
            united (step_runs head step pick (drop_run p cs) p) = united (drop_run p cs) - {pick}" .
        have "left_of ?c = {pick}" using step_none [OF c(1) None] h by simp
        then have "united (drop_run p cs) - {pick} = united cs - {pick}" using d(1,2) by blast
        then show ?thesis using r unfolding step_runs_drop [where head = head and step = step, OF True h None] by simp
      next
        case (Some c')
        note s = step_some [OF c(1) Some, unfolded h]
        let ?cs = "cs[p := c']"
        have sub: "set ?cs \<subseteq> insert c' (set cs)" by (rule set_update_subset_insert)
        have b: "\<forall>c\<in>set ?cs. good c \<and> (pick \<in> left_of c \<longrightarrow> head c = pick)"
          using s pre(1) sub by auto
        have a: "\<forall>q<p + 1. q < length ?cs \<longrightarrow> pick \<notin> left_of (?cs ! q)"
          using pre(2) s by (auto simp: less_Suc_eq nth_list_update)
        have "length ?cs - (p + 1) < length cs - p" using True by simp
        from less.hyps [OF this b a] have r: "(\<forall>c\<in>set (step_runs head step pick ?cs (p + 1)). good c) \<and>
            united (step_runs head step pick ?cs (p + 1)) = united ?cs - {pick}" .
        have "united ?cs - {pick} = united cs - {pick}"
        proof -
          have "x \<in> united ?cs \<longleftrightarrow> x \<in> united cs" if "x \<noteq> pick" for x
          proof
            assume "x \<in> united ?cs"
            then show "x \<in> united cs" using sub s c(3) by auto
          next
            assume "x \<in> united cs"
            then obtain i where i: "i < length cs" "x \<in> left_of (cs ! i)" by (auto simp: in_set_conv_nth)
            have "x \<in> left_of (?cs ! i)" using i s that by (cases "i = p") auto
            then show "x \<in> united ?cs" using i by (metis UN_I length_list_update nth_mem)
          qed
          then show ?thesis by blast
        qed
        then show ?thesis using r unfolding step_runs_go [where head = head and step = step, OF True h Some] by simp
      qed
    qed
  qed
qed

text \<open>One round of the merge takes the first value of the union off it.\<close>

lemma merge_step_ok:
  assumes "\<forall>c\<in>set cs. good c" "cs \<noteq> []" "merge_step descending head step cs = (pick, cs')"
  shows "\<forall>c\<in>set cs'. good c" "united cs' = united cs - {pick}" "listing descending (united cs) = pick # listing descending (united cs')"
proof -
  have p: "pick = first_head descending (map head cs)" "cs' = step_runs head step pick cs 0"
    using assms(3) by (auto simp: merge_step_def Let_def)
  have ne: "map head cs \<noteq> []" using assms(2) by simp
  note f = first_head_in [OF ne, of descending, folded p(1)]
  have first: "value_before descending pick y" if "c \<in> set cs" "y \<in> left_of c" "y \<noteq> pick" for c y
  proof -
    have "y = head c \<or> value_before descending (head c) y" using head_first [of c] assms(1) that by blast
    moreover have "head c = pick \<or> value_before descending pick (head c)" using f that(1) by auto
    ultimately show ?thesis using that(3) by (auto simp: value_before_def split: if_splits)
  qed
  have "\<forall>c\<in>set cs. good c \<and> (pick \<in> left_of c \<longrightarrow> head c = pick)"
  proof (intro ballI conjI impI)
    fix c assume c: "c \<in> set cs" "pick \<in> left_of c"
    show "head c = pick"
    proof (rule ccontr)
      assume n: "head c \<noteq> pick"
      then have "value_before descending (head c) pick" using head_first [of c] assms(1) c by auto
      moreover have "value_before descending pick (head c)" using f c(1) n by auto
      ultimately show False by (simp add: value_before_def split: if_splits)
    qed
  qed (use assms(1) in blast)
  from step_runs_ok [OF this, of 0] show g: "\<forall>c\<in>set cs'. good c" "united cs' = united cs - {pick}" by (simp_all add: p(2))
  have "pick \<in> united cs" using f head_first assms(1) by auto
  moreover have "finite (united cs)" using head_first assms(1) by blast
  ultimately show "listing descending (united cs) = pick # listing descending (united cs')"
    unfolding g(2) using first by (intro listing_first) auto
qed

lemma merge_list_ok:
  assumes "\<forall>c\<in>set cs. good c" "merge_list descending head step least cs skip left = (written, skip', cs')"
  shows "\<exists>m. listing descending (united cs) = m @ listing descending (united cs') \<and> written = drop skip m \<and>
    skip' = skip - length m \<and> length written \<le> left \<and> (length written = left \<or> length cs' \<le> least) \<and> (\<forall>c\<in>set cs'. good c)"
  using assms
proof (induction "skip + left" arbitrary: cs skip left written rule: less_induct)
  case less
  show ?case
  proof (cases "left \<noteq> 0 \<and> length cs > least")
    case False
    then have "written = [] \<and> skip' = skip \<and> cs' = cs" using less.prems(2) by (subst (asm) merge_list.simps) auto
    then show ?thesis using False less.prems(1) by (intro exI [of _ "[]"]) auto
  next
    case True
    then have ne: "cs \<noteq> []" by auto
    obtain pick ds where st: "merge_step descending head step cs = (pick, ds)" by fastforce
    note s = merge_step_ok [OF less.prems(1) ne st]
    show ?thesis
    proof (cases "skip = 0")
      case False
      have "merge_list descending head step least ds (skip - 1) left = (written, skip', cs')"
        using less.prems(2) True False st by (subst (asm) merge_list.simps) simp
      from less.hyps [OF _ s(1) this] obtain m where
        "listing descending (united ds) = m @ listing descending (united cs')" "written = drop (skip - 1) m" "skip' = skip - 1 - length m"
        "length written \<le> left" "length written = left \<or> length cs' \<le> least" "\<forall>c\<in>set cs'. good c" using False by auto
      then show ?thesis using s(3) False by (intro exI [of _ "pick # m"]) (simp add: drop_Cons')
    next
      case z: True
      obtain rest where r: "merge_list descending head step least ds 0 (left - 1) = (rest, skip', cs')" "written = pick # rest"
        using less.prems(2) True z st by (subst (asm) merge_list.simps) (auto split: prod.splits)
      have "0 + (left - 1) < skip + left" using True by linarith
      from less.hyps [OF this s(1) r(1)] obtain m where
        "listing descending (united ds) = m @ listing descending (united cs')" "rest = m" "skip' = 0"
        "length rest \<le> left - 1" "length rest = left - 1 \<or> length cs' \<le> least" "\<forall>c\<in>set cs'. good c" by auto
      then show ?thesis using s(3) z r(2) True by (intro exI [of _ "pick # m"]) auto
    qed
  qed
qed

text \<open>With no run left over it is the page itself.\<close>

lemma merge_page:
  assumes "\<forall>c\<in>set cs. good c" "merge_list descending head step 0 cs skip left = (written, skip', cs')"
  shows "written = take left (drop skip (listing descending (united cs)))"
proof -
  obtain m where m: "listing descending (united cs) = m @ listing descending (united cs')" "written = drop skip m"
    "length written \<le> left" "length written = left \<or> length cs' \<le> 0" using merge_list_ok [OF assms] by blast
  show ?thesis
  proof (cases "length written = left")
    case True
    then show ?thesis using m(1,2) by (cases "skip \<le> length m") auto
  next
    case False
    then show ?thesis using m by simp
  qed
qed

lemma run_list_ok:
  assumes "good c" "run_list head step c skip left = (written, skip')"
  shows "written = take left (drop skip (listing descending (left_of c))) \<and>
    (left \<noteq> 0 \<longrightarrow> skip' = skip - card (left_of c))"
  using assms
proof (induction "skip + left" arbitrary: c skip left written rule: less_induct)
  case less
  note h = head_first [OF less.prems(1)]
  have first: "listing descending (left_of c) = head c # listing descending (left_of c - {head c})"
    using h by (intro listing_first) auto
  have fin: "card (left_of c) = Suc (card (left_of c - {head c}))" using h by (metis card.remove)
  show ?case
  proof (cases "left = 0")
    case True
    then show ?thesis using less.prems(2) by (simp add: run_list.simps)
  next
    case left: False
    show ?thesis
    proof (cases "step c")
      case None
      note e = step_none [OF less.prems(1) None]
      then show ?thesis using less.prems(2) None left first by (subst (asm) run_list.simps) (auto split: if_splits simp: take_Cons')
    next
      case (Some c')
      note s = step_some [OF less.prems(1) Some]
      show ?thesis
      proof (cases "skip = 0")
        case False
        have "run_list head step c' (skip - 1) left = (written, skip')"
          using less.prems(2) Some left False by (subst (asm) run_list.simps) simp
        from less.hyps [OF _ _ this] s False left show ?thesis unfolding first fin by (auto simp: drop_Cons')
      next
        case True
        obtain r where r: "run_list head step c' 0 (left - 1) = (r, skip')" "written = head c # r"
          using less.prems(2) Some left True by (subst (asm) run_list.simps) (auto split: prod.splits)
        have "0 + (left - 1) < skip + left" using left by linarith
        from less.hyps [OF this _ r(1)] s have i: "r = take (left - 1) (listing descending (left_of c'))" "left - 1 \<noteq> 0 \<longrightarrow> skip' = 0" by auto
        have "skip' = 0" using i(2) r(1) by (cases "left - 1 = 0") (simp_all add: run_list.simps)
        then show ?thesis using i(1) r(2) s True left unfolding first fin by (simp add: take_Cons')
      qed
    qed
  qed
qed

lemma merge_count_ok:
  assumes "\<forall>c\<in>set cs. good c" "\<not> descending"
  shows "merge_count head step cs counted = Some (counted + card (united cs))"
  using assms(1)
proof (induction "card (united cs)" arbitrary: cs counted rule: less_induct)
  case less
  show ?case
  proof (cases "cs = []")
    case False
    obtain pick ds where st: "merge_step descending head step cs = (pick, ds)" by fastforce
    note s = merge_step_ok [OF less.prems False st]
    have "card (united cs) = Suc (card (united ds))" using arg_cong [OF s(3), of length] by simp
    moreover have "merge_count head step cs counted = merge_count head step ds (counted + 1)"
      using False st assms(2) by (subst merge_count.simps) simp
    ultimately show ?thesis using less.hyps [OF _ s(1), of "counted + 1"] by simp
  qed (simp add: merge_count.simps)
qed

end

section \<open>Slices\<close>

lemma slice_emit_ok:
  assumes "b \<le> e" "e \<le> length xs"
  shows "slice_emit at xs (b, e) skip n descending =
    (map at (take n (drop skip (if descending then rev (span b e xs) else span b e xs))), skip - length (span b e xs))"
proof -
  let ?run = "span b e xs"
  have len: "length ?run = e - b" using assms by (simp add: span_def)
  have nth: "?run ! i = xs ! (b + i)" if "i < e - b" for i using that assms by (simp add: span_def)
  show ?thesis
  proof (cases "skip \<ge> e - b")
    case True
    then show ?thesis using len by (simp add: slice_emit_def)
  next
    case False
    let ?k = "if e - b - skip < n then e - b - skip else n"
    have "map (\<lambda>i. at (xs ! (if descending then e - 1 - skip - i else b + skip + i))) [0..<?k] =
        map at (take n (drop skip (if descending then rev ?run else ?run)))"
    proof (rule nth_equalityI)
      show "length (map (\<lambda>i. at (xs ! (if descending then e - 1 - skip - i else b + skip + i))) [0..<?k]) =
          length (map at (take n (drop skip (if descending then rev ?run else ?run))))" using len by (simp add: min_def)
      fix i assume "i < length (map (\<lambda>i. at (xs ! (if descending then e - 1 - skip - i else b + skip + i))) [0..<?k])"
      then have i: "i < ?k" "skip + i < e - b" by (auto split: if_splits)
      have "e - 1 - skip - i = b + (e - b - 1 - skip - i)" using i(2) assms by linarith
      then show "map (\<lambda>i. at (xs ! (if descending then e - 1 - skip - i else b + skip + i))) [0..<?k] ! i =
          map at (take n (drop skip (if descending then rev ?run else ?run))) ! i"
        using i len nth [of "skip + i"] nth [of "e - b - 1 - skip - i"] by (auto simp: rev_nth add.assoc split: if_splits)
    qed
    moreover have "skip - length ?run = 0" using False len by simp
    ultimately show ?thesis unfolding slice_emit_def prod.case Let_def if_not_P [OF False] by (simp only:)
  qed
qed

end
