(* ===== verification/Roaring_Sparse_Union.thy ===== *)
theory Roaring_Sparse_Union
  imports Roaring_Merge
begin

unbundle bit_operations_syntax

text \<open>
  The union of sets that are all arrays of values (\<^verbatim>\<open>src/roaring_query.c\<close>, section "sparse sets"): of each
  set the part inside the range, merged; where there is much in a key, the key is counted in a bitmap instead.
\<close>

definition all_sparse :: "roaring_bitmap option list \<Rightarrow> bool" where
  "all_sparse sets \<longleftrightarrow> list_all (\<lambda>s. case s of None \<Rightarrow> True | Some st \<Rightarrow> arnm_roaring_is_sparse st) sets"

text \<open>One entry of \<open>sparse_spans\<close>: the values of a set and the part of them that is left.\<close>

record sparse_span =
  ss_values :: "nat list"
  ss_begin :: nat
  ss_end :: nat

fun sparse_spans_of :: "roaring_bitmap option list \<Rightarrow> nat \<Rightarrow> nat \<Rightarrow> sparse_span list" where
  "sparse_spans_of [] mn mx = []"
| "sparse_spans_of (None # sets) mn mx = sparse_spans_of sets mn mx"
| "sparse_spans_of (Some st # sets) mn mx =
    (if rb_cardinality st = 0 then sparse_spans_of sets mn mx
     else
       let first = arnm_roaring_lower_bound32 (rb_values st) (rb_cardinality st) mn;
           stop = arnm_roaring_upper_bound32 (rb_values st) (rb_cardinality st) mx
       in if first = stop then sparse_spans_of sets mn mx
          else \<lparr>ss_values = rb_values st, ss_begin = first, ss_end = stop\<rparr> # sparse_spans_of sets mn mx)"

definition span_head :: "bool \<Rightarrow> sparse_span \<Rightarrow> nat" where
  "span_head descending s = (if descending then ss_values s ! (ss_end s - 1) else ss_values s ! ss_begin s)"

definition span_step :: "bool \<Rightarrow> sparse_span \<Rightarrow> sparse_span option" where
  "span_step descending s =
    (let s = (if descending then s\<lparr>ss_end := ss_end s - 1\<rparr> else s\<lparr>ss_begin := ss_begin s + 1\<rparr>)
     in if ss_begin s = ss_end s then None else Some s)"

definition span_width :: "sparse_span \<Rightarrow> nat" where
  "span_width s = ss_end s - ss_begin s"

definition sparse_merged_cardinality :: "sparse_span list \<Rightarrow> nat option" where
  "sparse_merged_cardinality spans =
    (if length spans = 1 then Some (span_width (spans ! 0)) else merge_count (span_head False) (span_step False) spans 0)"

text \<open>What the pass over the spans collects of one key.\<close>

record key_spans =
  ks_in_key :: "sparse_span list"
  ks_count :: nat
  ks_low :: nat
  ks_high :: nat

function split_key :: "nat \<Rightarrow> sparse_span list \<Rightarrow> nat \<Rightarrow> key_spans \<Rightarrow> sparse_span list \<times> key_spans" where
  "split_key key spans p acc =
    (if p < length spans then
       let s = spans ! p; vs = ss_values s; first = ss_begin s
       in if arnm_roaring_key_of (vs ! first) = key then
            let stop = first + arnm_roaring_upper_bound32 (drop first vs) (ss_end s - first) (arnm_roaring_value_of key 65535);
                lo = arnm_roaring_low_of (vs ! first); hi = arnm_roaring_low_of (vs ! (stop - 1));
                acc = \<lparr>ks_in_key = ks_in_key acc @ [s\<lparr>ss_end := stop\<rparr>], ks_count = ks_count acc + (stop - first),
                  ks_low = (if lo < ks_low acc then lo else ks_low acc), ks_high = (if hi > ks_high acc then hi else ks_high acc)\<rparr>
            in if stop = ss_end s then split_key key (drop_run p spans) p acc
               else split_key key (spans[p := s\<lparr>ss_begin := stop\<rparr>]) (p + 1) acc
          else split_key key spans (p + 1) acc
     else (spans, acc))"
  by auto
termination
  by (relation "measure (\<lambda>(key, spans, p, acc). length spans - p)") auto

declare split_key.simps [simp del]

definition key_span_bits :: "key_spans \<Rightarrow> 64 word list" where
  "key_span_bits acc =
    (let first = drop_bit 6 (ks_low acc); final = drop_bit 6 (ks_high acc)
     in fold (\<lambda>s. fold (\<lambda>v. set_word_bit first (arnm_roaring_low_of v)) (span (ss_begin s) (ss_end s) (ss_values s)))
          (ks_in_key acc) (replicate (Suc final - first) 0))"

definition key_spans_cardinality :: "key_spans \<Rightarrow> nat option" where
  "key_spans_cardinality acc =
    (if length (ks_in_key acc) = 1 then Some (ks_count acc)
     else if ks_count acc \<ge> ROARING_UNION_BITS_FROM then Some (\<Sum>x\<leftarrow>key_span_bits acc. arnm_popcountll x)
     else sparse_merged_cardinality (ks_in_key acc))"

partial_function (option) sparse_union_loop :: "sparse_span list \<Rightarrow> nat \<Rightarrow> nat option" where
  "sparse_union_loop spans counted =
    (if spans = [] then Some counted
     else
       let smallest = first_head False (map (span_head False) spans); key = arnm_roaring_key_of smallest
       in case split_key key spans 0 \<lparr>ks_in_key = [], ks_count = 0, ks_low = 65535, ks_high = 0\<rparr> of
            (spans, acc) \<Rightarrow> Option.bind (key_spans_cardinality acc) (\<lambda>n. sparse_union_loop spans (u64 (counted + n))))"

definition sparse_union_cardinality :: "sparse_span list \<Rightarrow> nat option" where
  "sparse_union_cardinality spans =
    (if length spans = 1 then Some (span_width (spans ! 0))
     else if (\<Sum>s\<leftarrow>spans. span_width s) < ROARING_UNION_BITS_FROM then sparse_merged_cardinality spans
     else sparse_union_loop spans 0)"

text \<open>The array \<open>head\<close> beside the spans only keeps what \<open>span_head\<close> reads.\<close>

definition sparse_union_page :: "sparse_span list \<Rightarrow> nat \<Rightarrow> nat \<Rightarrow> bool \<Rightarrow> nat list" where
  "sparse_union_page spans skip n descending =
    (if length spans = 1 then
       let s = spans ! 0 in fst (slice_emit (\<lambda>v. v) (ss_values s) (ss_begin s, ss_end s) skip n descending)
     else fst (merge_list descending (span_head descending) (span_step descending) 0 spans skip n))"

section \<open>Spans as runs\<close>

definition span_ok :: "sparse_span \<Rightarrow> bool" where
  "span_ok s \<longleftrightarrow> ss_begin s < ss_end s \<and> ss_end s \<le> length (ss_values s) \<and> ascending (ss_values s) \<and>
    length (ss_values s) \<le> UINT32_MAX"

definition span_set :: "sparse_span \<Rightarrow> nat set" where
  "span_set s = set (span (ss_begin s) (ss_end s) (ss_values s))"

lemma span_set_image: "ss_end s \<le> length (ss_values s) \<Longrightarrow> span_set s = (\<lambda>i. ss_values s ! i) ` {ss_begin s..<ss_end s}"
proof -
  assume a: "ss_end s \<le> length (ss_values s)"
  have "span (ss_begin s) (ss_end s) (ss_values s) = map (\<lambda>i. ss_values s ! i) [ss_begin s..<ss_end s]"
    using a by (intro nth_equalityI) (auto simp: span_def)
  then show ?thesis by (simp add: span_set_def)
qed

lemma span_nth_inj:
  assumes "span_ok s" "i < ss_end s" "j < ss_end s" shows "ss_values s ! i = ss_values s ! j \<longleftrightarrow> i = j"
proof -
  have "distinct (ss_values s)" using assms(1) by (simp add: span_ok_def strict_sorted_iff)
  then show ?thesis using assms by (simp add: span_ok_def nth_eq_iff_index_eq)
qed

lemma span_runs: "merge_run d (span_head d) (span_step d) span_ok span_set"
proof
  fix c assume c: "span_ok c"
  note im = span_set_image [of c]
  have b: "ss_begin c < ss_end c" "ss_end c \<le> length (ss_values c)" "ascending (ss_values c)" using c by (simp_all add: span_ok_def)
  have lt: "ss_values c ! i < ss_values c ! j" if "i < j" "j < ss_end c" for i j
    using ascending_nth_less [OF b(3), of i j] that b(2) by simp
  show "span_head d c \<in> span_set c \<and> finite (span_set c) \<and> (\<forall>y\<in>span_set c. y \<noteq> span_head d c \<longrightarrow> value_before d (span_head d c) y)"
  proof (intro conjI ballI impI)
    show "span_head d c \<in> span_set c" unfolding im [OF b(2)] span_head_def using b(1) by auto
    show "finite (span_set c)" by (simp add: span_set_def)
    fix y assume "y \<in> span_set c" and y: "y \<noteq> span_head d c"
    then obtain i where i: "ss_begin c \<le> i" "i < ss_end c" "y = ss_values c ! i" unfolding im [OF b(2)] by auto
    show "value_before d (span_head d c) y"
    proof (cases d)
      case True
      then have "i < ss_end c - 1" using i y by (cases "i = ss_end c - 1") (auto simp: span_head_def)
      then show ?thesis using lt [of i "ss_end c - 1"] True i(3) by (simp add: value_before_def span_head_def)
    next
      case False
      then have "ss_begin c < i" using i y by (cases "i = ss_begin c") (auto simp: span_head_def)
      then show ?thesis using lt [of "ss_begin c" i] False i by (simp add: value_before_def span_head_def)
    qed
  qed
  show "span_set c = {span_head d c}" if "span_step d c = None"
  proof -
    have "{ss_begin c..<ss_end c} = {if d then ss_end c - 1 else ss_begin c}"
      using that b(1) by (auto simp: span_step_def Let_def split: if_splits)
    then show ?thesis unfolding im [OF b(2)] by (simp add: span_head_def)
  qed
  show "span_ok c' \<and> span_set c' = span_set c - {span_head d c}" if "span_step d c = Some c'" for c'
  proof -
    let ?r = "if d then {ss_begin c..<ss_end c - 1} else {ss_begin c + 1..<ss_end c}" and ?h = "if d then ss_end c - 1 else ss_begin c"
    have c': "c' = (if d then c\<lparr>ss_end := ss_end c - 1\<rparr> else c\<lparr>ss_begin := ss_begin c + 1\<rparr>)" "ss_begin c' \<noteq> ss_end c'"
      using that by (auto simp: span_step_def Let_def split: if_splits)
    have ok: "span_ok c'" using c c'(2) unfolding c'(1) by (auto simp: span_ok_def)
    have "span_set c' = (\<lambda>i. ss_values c ! i) ` ?r"
      using span_set_image [of c'] ok unfolding c'(1) by (auto simp: span_ok_def)
    moreover have "?r = {ss_begin c..<ss_end c} - {?h}" using b(1) by auto
    moreover have "(\<lambda>i. ss_values c ! i) ` ({ss_begin c..<ss_end c} - {?h}) = span_set c - {ss_values c ! ?h}"
      unfolding im [OF b(2)] using span_nth_inj [OF c] b(1) by (intro inj_on_image_set_diff [where C = "{..<ss_end c}", THEN trans]) (auto simp: inj_on_def)
    ultimately show ?thesis using ok by (simp add: span_head_def)
  qed
qed

interpretation spans_up: merge_run False "span_head False" "span_step False" span_ok span_set
  by (rule span_runs)

interpretation spans_down: merge_run True "span_head True" "span_step True" span_ok span_set
  by (rule span_runs)

section \<open>Counting\<close>

abbreviation spans_set :: "sparse_span list \<Rightarrow> nat set" where
  "spans_set spans \<equiv> \<Union> (span_set ` set spans)"

lemma span_width_card: "span_ok s \<Longrightarrow> span_width s = card (span_set s)"
proof -
  assume s: "span_ok s"
  then have "ss_end s \<le> length (ss_values s)" by (simp add: span_ok_def)
  then have "card (span_set s) = card {ss_begin s..<ss_end s}"
    unfolding span_set_image [OF \<open>ss_end s \<le> _\<close>] using span_nth_inj [OF s] by (intro card_image) (auto simp: inj_on_def)
  then show ?thesis by (simp add: span_width_def)
qed

lemma sparse_merged_ok:
  assumes "\<forall>s\<in>set spans. span_ok s"
  shows "sparse_merged_cardinality spans = Some (card (spans_set spans))"
proof (cases "length spans = 1")
  case True
  then obtain s where "spans = [s]" by (metis One_nat_def length_0_conv length_Suc_conv)
  then show ?thesis using assms span_width_card [of s] by (simp add: sparse_merged_cardinality_def)
next
  case False
  then show ?thesis using spans_up.merge_count_ok [OF assms, of 0] by (simp add: sparse_merged_cardinality_def)
qed

text \<open>The words that hold a bit for each of some values, and no other.\<close>

lemma bits_of_values:
  fixes lo hi :: nat
  assumes "\<forall>x\<in>set xs. lo \<le> x \<and> x \<le> hi" "lo \<le> hi"
  defines "f \<equiv> drop_bit 6 lo" and "n \<equiv> Suc (drop_bit 6 hi) - drop_bit 6 lo"
  shows "set (bits_from f (fold (set_word_bit f) xs (replicate n 0))) = set xs"
    "length (fold (set_word_bit f) xs (replicate n 0)) = n"
proof -
  let ?ws = "fold (set_word_bit f) xs (replicate n 0)"
  have n: "f + n = Suc (drop_bit 6 hi)" using assms(2) by (simp add: f_def n_def drop_6 div_le_mono le_Suc_eq)
  have spots: "\<forall>v\<in>set xs. f \<le> drop_bit 6 v \<and> drop_bit 6 v < f + length (replicate n (0 :: 64 word))"
    using assms(1) unfolding length_replicate n by (auto simp: f_def drop_6 div_le_mono less_Suc_eq_le)
  have "0 < n" using assms(2) by (simp add: n_def drop_6 div_le_mono less_Suc_eq_le)
  then show len: "length ?ws = n" using set_bits_run(3) [OF spots, of f 0] by simp
  have bit: "bit (?ws ! (u - f)) b \<longleftrightarrow> 64 * u + b \<in> set xs" if "f \<le> u" "u < f + n" "b < 64" for u b
    using set_bits_run(1) [OF spots, of u b] that by simp
  have "v \<in> set (bits_from f ?ws) \<longleftrightarrow> v \<in> set xs" for v
  proof (cases "f \<le> v div 64 \<and> v div 64 < f + n")
    case True
    then show ?thesis using bit [of "v div 64" "v mod 64"] len by (simp add: in_bits_from)
  next
    case False
    then have "v \<notin> set xs" using spots by (auto simp: drop_6)
    then show ?thesis using False len by (auto simp: in_bits_from)
  qed
  then show "set (bits_from f ?ws) = set xs" by blast
qed

lemma fold_concat_map: "fold (\<lambda>s. fold g (h s)) xs a = fold g (concat (map h xs)) a"
  by (induction xs arbitrary: a) simp_all

lemma low_inj_on_key: "(\<And>v. v \<in> U \<Longrightarrow> arnm_roaring_key_of v = key) \<Longrightarrow> inj_on arnm_roaring_low_of U"
  by (intro inj_onI) (metis value_of_key_low)

definition key_spans_ok :: "nat \<Rightarrow> key_spans \<Rightarrow> bool" where
  "key_spans_ok key acc \<longleftrightarrow>
    (\<forall>s\<in>set (ks_in_key acc). span_ok s \<and> (\<forall>v\<in>span_set s. arnm_roaring_key_of v = key \<and>
      ks_low acc \<le> arnm_roaring_low_of v \<and> arnm_roaring_low_of v \<le> ks_high acc)) \<and>
    ks_count acc = (\<Sum>s\<leftarrow>ks_in_key acc. span_width s)"

lemma key_spans_cardinality_ok:
  assumes "key_spans_ok key acc" "ks_in_key acc \<noteq> []"
  shows "key_spans_cardinality acc = Some (card (spans_set (ks_in_key acc)))"
proof -
  have ok: "\<forall>s\<in>set (ks_in_key acc). span_ok s" using assms(1) by (simp add: key_spans_ok_def)
  consider "length (ks_in_key acc) = 1" | "length (ks_in_key acc) \<noteq> 1" "ks_count acc < ROARING_UNION_BITS_FROM"
    | "length (ks_in_key acc) \<noteq> 1" "ks_count acc \<ge> ROARING_UNION_BITS_FROM" by linarith
  then show ?thesis
  proof cases
    case 1
    then obtain s where s: "ks_in_key acc = [s]" by (metis One_nat_def length_0_conv length_Suc_conv)
    then show ?thesis using ok span_width_card [of s] assms(1) by (simp add: key_spans_cardinality_def key_spans_ok_def)
  next
    case 2
    then show ?thesis using sparse_merged_ok [OF ok] by (simp add: key_spans_cardinality_def)
  next
    case 3
    let ?U = "spans_set (ks_in_key acc)" and ?f = "drop_bit 6 (ks_low acc)"
    define xs where "xs = concat (map (\<lambda>s. map arnm_roaring_low_of (span (ss_begin s) (ss_end s) (ss_values s))) (ks_in_key acc))"
    have xs: "set xs = arnm_roaring_low_of ` ?U" unfolding xs_def span_set_def by auto
    have key: "\<And>v. v \<in> ?U \<Longrightarrow> arnm_roaring_key_of v = key \<and> ks_low acc \<le> arnm_roaring_low_of v \<and> arnm_roaring_low_of v \<le> ks_high acc"
      using assms(1) by (auto simp: key_spans_ok_def)
    obtain v where "v \<in> ?U" using ok assms(2) spans_up.head_first [of "hd (ks_in_key acc)"] hd_in_set by blast
    then have le: "ks_low acc \<le> ks_high acc" using key le_trans by blast
    have "\<forall>x\<in>set xs. ks_low acc \<le> x \<and> x \<le> ks_high acc" unfolding xs using key by blast
    note b = bits_of_values [OF this le]
    have bits: "key_span_bits acc = fold (set_word_bit ?f) xs (replicate (Suc (drop_bit 6 (ks_high acc)) - ?f) 0)"
      unfolding key_span_bits_def Let_def xs_def fold_concat_map [symmetric] fold_map by (simp add: comp_def)
    have "card (set (bits_from ?f (key_span_bits acc))) = card ?U" unfolding bits b(1) xs
      using low_inj_on_key [of ?U key] key by (intro card_image) blast
    moreover have "card (set (bits_from ?f (key_span_bits acc))) = length (bits_from ?f (key_span_bits acc))"
      by (rule distinct_card) (metis bits_from_ascending strict_sorted_iff)
    ultimately show ?thesis using 3 by (simp add: key_spans_cardinality_def length_bits_from)
  qed
qed

text \<open>The pass over the spans takes the values of the key off them.\<close>

lemma bound_search_cong:
  "(\<And>i. i < high \<Longrightarrow> P i \<longleftrightarrow> Q i) \<Longrightarrow> bound_search P low high = bound_search Q low high"
proof (induction P low high rule: bound_search.induct)
  case (1 P low high)
  show ?case
  proof (cases "low < high")
    case True
    define mid where "mid = drop_bit 1 (low + high)"
    have mid: "mid < high" using True by (simp add: mid_def drop_bit_eq_div)
    have run: "bound_search R low high = (if R mid then bound_search R (mid + 1) high else bound_search R low mid)" for R
      using True by (subst bound_search.simps) (simp only: Let_def mid_def if_True)
    show ?thesis
      using True "1.IH"(1) [OF True mid_def] "1.IH"(2) [OF True mid_def] "1.prems" mid unfolding run by simp
  qed (simp add: bound_search.simps [of _ low high])
qed

lemma upper_bound_prefix:
  "n \<le> length xs \<Longrightarrow> arnm_roaring_upper_bound16 xs n v = arnm_roaring_upper_bound16 (take n xs) (length (take n xs)) v"
  by (auto simp: arnm_roaring_upper_bound16_def min_def intro!: bound_search_cong)

lemma span_split:
  assumes "span_ok s" "\<forall>v\<in>span_set s. key \<le> arnm_roaring_key_of v" "arnm_roaring_key_of (ss_values s ! ss_begin s) = key"
  defines "stop \<equiv> ss_begin s + arnm_roaring_upper_bound32 (drop (ss_begin s) (ss_values s)) (ss_end s - ss_begin s)
    (arnm_roaring_value_of key 65535)"
  shows "ss_begin s < stop" "stop \<le> ss_end s" "span_ok (s\<lparr>ss_end := stop\<rparr>)"
    "span_set (s\<lparr>ss_end := stop\<rparr>) = {v\<in>span_set s. arnm_roaring_key_of v = key}"
    "stop \<noteq> ss_end s \<Longrightarrow> span_ok (s\<lparr>ss_begin := stop\<rparr>)"
    "span_set (s\<lparr>ss_begin := stop\<rparr>) = {v\<in>span_set s. arnm_roaring_key_of v \<noteq> key}"
    "\<forall>v\<in>span_set (s\<lparr>ss_end := stop\<rparr>). arnm_roaring_low_of (ss_values s ! ss_begin s) \<le> arnm_roaring_low_of v \<and>
      arnm_roaring_low_of v \<le> arnm_roaring_low_of (ss_values s ! (stop - 1))"
proof -
  let ?b = "ss_begin s" and ?e = "ss_end s" and ?vs = "ss_values s"
  define run where "run = span ?b ?e ?vs"
  have s: "?b < ?e" "?e \<le> length ?vs" "ascending ?vs" "length ?vs \<le> UINT32_MAX" using assms(1) by (simp_all add: span_ok_def)
  have set_run: "set run = span_set s" by (simp add: run_def span_set_def)
  have len: "length run = ?e - ?b" using s by (simp add: run_def span_def)
  have asc: "ascending run" unfolding run_def span_def using drop_ascending [OF s(3)] by (rule sorted_wrt_take)
  have ne: "run \<noteq> []" using len s(1) by auto
  have hd: "hd run = ?vs ! ?b" using s by (simp add: run_def span_def hd_drop_conv_nth)
  define n where "n = arnm_roaring_upper_bound32 run (length run) (arnm_roaring_value_of key 65535)"
  have "length run \<le> UINT32_MAX" using len s by linarith
  note r = first_key_run [OF asc ne this, unfolded hd assms(3), folded n_def]
  have stop: "stop = ?b + n"
    using s unfolding stop_def n_def bounds_32_16 len by (subst upper_bound_prefix) (simp_all add: run_def span_def)
  have t: "span ?b (?b + n) ?vs = take n run" "span (?b + n) ?e ?vs = drop n run"
    using r(4) len by (simp_all add: span_def run_def drop_take add.commute)
  show b: "?b < stop" "stop \<le> ?e" using r(3,4) len s(1) unfolding stop by simp_all
  show "span_ok (s\<lparr>ss_end := stop\<rparr>)" "stop \<noteq> ?e \<Longrightarrow> span_ok (s\<lparr>ss_begin := stop\<rparr>)"
    using b s by (simp_all add: span_ok_def)
  show S: "span_set (s\<lparr>ss_end := stop\<rparr>) = {v\<in>span_set s. arnm_roaring_key_of v = key}"
    unfolding set_run [symmetric] by (simp add: span_set_def stop t(1) r(1))
  have "{v\<in>span_set s. key < arnm_roaring_key_of v} = {v\<in>span_set s. arnm_roaring_key_of v \<noteq> key}" using assms(2) by fastforce
  then show "span_set (s\<lparr>ss_begin := stop\<rparr>) = {v\<in>span_set s. arnm_roaring_key_of v \<noteq> key}"
    unfolding set_run [symmetric] by (simp add: span_set_def stop t(2) r(2))
  have nth: "?vs ! (?b + i) = run ! i" if "i < n" for i using that r(4) len s by (simp add: run_def span_def)
  show "\<forall>v\<in>span_set (s\<lparr>ss_end := stop\<rparr>). arnm_roaring_low_of (?vs ! ?b) \<le> arnm_roaring_low_of v \<and>
      arnm_roaring_low_of v \<le> arnm_roaring_low_of (?vs ! (stop - 1))"
  proof
    fix v assume v: "v \<in> span_set (s\<lparr>ss_end := stop\<rparr>)"
    then have "v \<in> set (take n run)" by (simp add: span_set_def stop t(1))
    then obtain i where i: "i < n" "v = run ! i" using r(4) by (auto simp: in_set_conv_nth)
    have k: "arnm_roaring_key_of (run ! j) = key" if "j < n" for j
    proof -
      have "run ! j \<in> set (take n run)" using that r(4) by (auto simp: in_set_conv_nth)
      then show ?thesis unfolding r(1) by simp
    qed
    have low: "arnm_roaring_low_of (run ! j) \<le> arnm_roaring_low_of (run ! m)" if "j \<le> m" "m < n" for j m
      using low_less [of "run ! j" "run ! m"] k [of j] k [of m] that ascending_nth_less [OF asc, of j m] r(4)
      by (cases "j = m") auto
    have "?vs ! (stop - 1) = run ! (n - 1)" using nth [of "n - 1"] r(3) by (simp add: stop)
    then show "arnm_roaring_low_of (?vs ! ?b) \<le> arnm_roaring_low_of v \<and> arnm_roaring_low_of v \<le> arnm_roaring_low_of (?vs ! (stop - 1))"
      using low [of 0 i] low [of i "n - 1"] nth [of 0] i r(3) by simp
  qed
qed

lemma split_key_ok:
  assumes "\<forall>s\<in>set spans. span_ok s \<and> (\<forall>v\<in>span_set s. key \<le> arnm_roaring_key_of v)" "key_spans_ok key acc"
    and "\<forall>q<p. q < length spans \<longrightarrow> (\<forall>v\<in>span_set (spans ! q). arnm_roaring_key_of v \<noteq> key)"
    and "split_key key spans p acc = (spans', acc')"
  shows "(\<forall>s\<in>set spans'. span_ok s) \<and> key_spans_ok key acc' \<and>
    spans_set spans' = {v\<in>spans_set spans. arnm_roaring_key_of v \<noteq> key} \<and>
    spans_set (ks_in_key acc') = spans_set (ks_in_key acc) \<union> {v\<in>spans_set spans. arnm_roaring_key_of v = key}"
  using assms
proof (induction "length spans - p" arbitrary: spans p acc rule: less_induct)
  case less
  note pre = less.prems
  show ?case
  proof (cases "p < length spans")
    case False
    have "arnm_roaring_key_of v \<noteq> key" if v: "v \<in> spans_set spans" for v
    proof -
      obtain i where i: "i < length spans" "v \<in> span_set (spans ! i)" using v by (auto simp: in_set_conv_nth)
      then have "i < p" using False by linarith
      then show ?thesis using pre(3) i by blast
    qed
    moreover have "spans' = spans" "acc' = acc" using pre(4) False by (simp_all add: split_key.simps)
    ultimately show ?thesis using pre(1,2) by blast
  next
    case True
    define s where "s = spans ! p"
    have s: "span_ok s" "\<forall>v\<in>span_set s. key \<le> arnm_roaring_key_of v" "s \<in> set spans"
      using pre(1) nth_mem [OF True] unfolding s_def by blast+
    show ?thesis
    proof (cases "arnm_roaring_key_of (ss_values s ! ss_begin s) = key")
      case False
      have "arnm_roaring_key_of v \<noteq> key" if v: "v \<in> span_set s" for v
      proof -
        have "span_head False s \<in> span_set s" "v \<noteq> span_head False s \<longrightarrow> span_head False s < v"
          using spans_up.head_first [OF s(1)] v by (auto simp: value_before_def)
        then have "arnm_roaring_key_of (span_head False s) \<le> arnm_roaring_key_of v" "key \<le> arnm_roaring_key_of (span_head False s)"
          using s(2) by (auto intro: key_le)
        then show ?thesis using False by (simp add: span_head_def)
      qed
      then have a: "\<forall>q<p + 1. q < length spans \<longrightarrow> (\<forall>v\<in>span_set (spans ! q). arnm_roaring_key_of v \<noteq> key)"
        using pre(3) by (auto simp: less_Suc_eq s_def)
      have run: "split_key key spans (p + 1) acc = (spans', acc')"
        using pre(4) True False by (subst (asm) split_key.simps) (simp add: s_def)
      have "length spans - (p + 1) < length spans - p" using True by linarith
      from less.hyps [OF this pre(1,2) a run] show ?thesis .
    next
      case k: True
      define stop where "stop = ss_begin s + arnm_roaring_upper_bound32 (drop (ss_begin s) (ss_values s)) (ss_end s - ss_begin s)
        (arnm_roaring_value_of key 65535)"
      note sp = span_split [OF s(1,2) k, folded stop_def]
      define lo hi where "lo = arnm_roaring_low_of (ss_values s ! ss_begin s)" "hi = arnm_roaring_low_of (ss_values s ! (stop - 1))"
      define acc1 where "acc1 = \<lparr>ks_in_key = ks_in_key acc @ [s\<lparr>ss_end := stop\<rparr>], ks_count = ks_count acc + (stop - ss_begin s),
        ks_low = (if lo < ks_low acc then lo else ks_low acc), ks_high = (if hi > ks_high acc then hi else ks_high acc)\<rparr>"
      have acc1: "key_spans_ok key acc1"
      proof -
        have "ks_low acc1 \<le> arnm_roaring_low_of v \<and> arnm_roaring_low_of v \<le> ks_high acc1"
          if "ks_low acc \<le> arnm_roaring_low_of v \<and> arnm_roaring_low_of v \<le> ks_high acc \<or> lo \<le> arnm_roaring_low_of v \<and> arnm_roaring_low_of v \<le> hi" for v
          using that by (auto simp: acc1_def)
        moreover have "ks_in_key acc1 = ks_in_key acc @ [s\<lparr>ss_end := stop\<rparr>]" by (simp add: acc1_def)
        moreover have "ks_count acc1 = (\<Sum>s\<leftarrow>ks_in_key acc1. span_width s)" using pre(2) by (simp add: acc1_def key_spans_ok_def span_width_def)
        ultimately show ?thesis using pre(2) sp(3,4,7) unfolding key_spans_ok_def lo_hi_def by fastforce
      qed
      have new: "spans_set (ks_in_key acc1) = spans_set (ks_in_key acc) \<union> {v\<in>span_set s. arnm_roaring_key_of v = key}"
        unfolding acc1_def using sp(4) by auto
      have step: "split_key key spans p acc =
          (if stop = ss_end s then split_key key (drop_run p spans) p acc1
           else split_key key (spans[p := s\<lparr>ss_begin := stop\<rparr>]) (p + 1) acc1)"
        using True k by (subst split_key.simps)
          (simp only: Let_def if_True refl s_def [symmetric] stop_def [symmetric] lo_hi_def [symmetric] acc1_def [symmetric])
      show ?thesis
      proof (cases "stop = ss_end s")
        case e: True
        note d = spans_up.drop_run_set [OF True, folded s_def]
        have run: "split_key key (drop_run p spans) p acc1 = (spans', acc')"
          using pre(4) e unfolding step by simp
        have all: "\<forall>s\<in>set (drop_run p spans). span_ok s \<and> (\<forall>v\<in>span_set s. key \<le> arnm_roaring_key_of v)" using pre(1) d(1) by blast
        have a: "\<forall>q<p. q < length (drop_run p spans) \<longrightarrow> (\<forall>v\<in>span_set (drop_run p spans ! q). arnm_roaring_key_of v \<noteq> key)"
          using pre(3) d(3) by simp
        have "length (drop_run p spans) - p < length spans - p" using True by simp
        note r = less.hyps [OF this all acc1 a run]
        have "s\<lparr>ss_end := stop\<rparr> = s" using e by simp
        then have only: "\<forall>v\<in>span_set s. arnm_roaring_key_of v = key" using sp(4) by auto
        have "spans_set spans = spans_set (drop_run p spans) \<union> span_set s" using d(1,2) s(3) by blast
        then show ?thesis using r only new by auto
      next
        case e: False
        let ?s = "s\<lparr>ss_begin := stop\<rparr>" and ?spans = "spans[p := s\<lparr>ss_begin := stop\<rparr>]"
        have run: "split_key key ?spans (p + 1) acc1 = (spans', acc')"
          using pre(4) e unfolding step by simp
        have sub: "set ?spans \<subseteq> insert ?s (set spans)" by (rule set_update_subset_insert)
        have all: "\<forall>s\<in>set ?spans. span_ok s \<and> (\<forall>v\<in>span_set s. key \<le> arnm_roaring_key_of v)"
          using pre(1) sub sp(5) [OF e] sp(6) s(2) by blast
        have a: "\<forall>q<p + 1. q < length ?spans \<longrightarrow> (\<forall>v\<in>span_set (?spans ! q). arnm_roaring_key_of v \<noteq> key)"
          using pre(3) sp(6) by (auto simp: less_Suc_eq nth_list_update)
        have "length ?spans - (p + 1) < length spans - p" using True by simp
        note r = less.hyps [OF this all acc1 a run]
        have eq: "spans_set ?spans \<union> {v\<in>span_set s. arnm_roaring_key_of v = key} = spans_set spans"
        proof (intro equalityI subsetI)
          fix x assume "x \<in> spans_set ?spans \<union> {v\<in>span_set s. arnm_roaring_key_of v = key}"
          then show "x \<in> spans_set spans" using sub sp(6) s(3) by auto
        next
          fix x assume "x \<in> spans_set spans"
          then obtain i where i: "i < length spans" "x \<in> span_set (spans ! i)" by (auto simp: in_set_conv_nth)
          show "x \<in> spans_set ?spans \<union> {v\<in>span_set s. arnm_roaring_key_of v = key}"
          proof (cases "i = p \<and> arnm_roaring_key_of x = key")
            case True
            then show ?thesis using i by (simp add: s_def)
          next
            case False
            then have "x \<in> span_set (?spans ! i)" using i sp(6) by (cases "i = p") (simp_all add: s_def)
            then show ?thesis using i by (metis UN_I UnI1 length_list_update nth_mem)
          qed
        qed
        have "{v\<in>spans_set spans. arnm_roaring_key_of v \<noteq> key} = {v\<in>spans_set ?spans. arnm_roaring_key_of v \<noteq> key}"
          "{v\<in>spans_set spans. arnm_roaring_key_of v = key} =
            {v\<in>spans_set ?spans. arnm_roaring_key_of v = key} \<union> {v\<in>span_set s. arnm_roaring_key_of v = key}"
          unfolding eq [symmetric] by blast+
        then show ?thesis using r unfolding new by (simp add: Un_ac)
      qed
    qed
  qed
qed

lemma sparse_union_loop_ok:
  assumes "\<forall>s\<in>set spans. span_ok s" "counted + card (spans_set spans) < 2 ^ 64"
  shows "sparse_union_loop spans counted = Some (counted + card (spans_set spans))"
  using assms
proof (induction "card (spans_set spans)" arbitrary: spans counted rule: less_induct)
  case less
  show ?case
  proof (cases "spans = []")
    case False
    define smallest where "smallest = first_head False (map (span_head False) spans)"
    define key where "key = arnm_roaring_key_of smallest"
    have ne: "map (span_head False) spans \<noteq> []" using False by simp
    note f = first_head_in [OF ne, of False, folded smallest_def]
    have first: "smallest \<le> v" if "s \<in> set spans" "v \<in> span_set s" for s v
    proof -
      have "span_head False s \<le> v" using spans_up.head_first [of s] less.prems(1) that by (auto simp: value_before_def)
      moreover have "smallest \<le> span_head False s" using f that(1) by (auto simp: value_before_def)
      ultimately show ?thesis by simp
    qed
    obtain ds acc where sk: "split_key key spans 0 \<lparr>ks_in_key = [], ks_count = 0, ks_low = 65535, ks_high = 0\<rparr> = (ds, acc)" by fastforce
    have "\<forall>s\<in>set spans. span_ok s \<and> (\<forall>v\<in>span_set s. key \<le> arnm_roaring_key_of v)"
      using less.prems(1) first by (auto simp: key_def intro: key_le)
    from split_key_ok [OF this _ _ sk] have s: "\<forall>s\<in>set ds. span_ok s" "key_spans_ok key acc"
        "spans_set ds = {v\<in>spans_set spans. arnm_roaring_key_of v \<noteq> key}"
        "spans_set (ks_in_key acc) = {v\<in>spans_set spans. arnm_roaring_key_of v = key}" by (simp_all add: key_spans_ok_def)
    have sm: "smallest \<in> spans_set spans" using f spans_up.head_first less.prems(1) by auto
    then have ne_acc: "ks_in_key acc \<noteq> []" using s(4) by (auto simp: key_def)
    have fin: "finite (spans_set spans)" using less.prems(1) spans_up.head_first by blast
    have "spans_set spans = spans_set (ks_in_key acc) \<union> spans_set ds" unfolding s(3,4) by blast
    moreover have "card (spans_set (ks_in_key acc) \<union> spans_set ds) = card (spans_set (ks_in_key acc)) + card (spans_set ds)"
      using fin by (intro card_Un_disjoint) (auto simp: s(3,4))
    ultimately have card: "card (spans_set spans) = card (spans_set (ks_in_key acc)) + card (spans_set ds)" by metis
    have "smallest \<in> spans_set (ks_in_key acc)" using sm unfolding s(4) by (simp add: key_def)
    moreover have "finite (spans_set (ks_in_key acc))" unfolding s(4) using fin by simp
    ultimately have "card (spans_set ds) < card (spans_set spans)" using card by (metis card_gt_0_iff empty_iff less_add_same_cancel2)
    note hyp = less.hyps [OF this s(1)]
    have "sparse_union_loop spans counted =
        Option.bind (key_spans_cardinality acc) (\<lambda>n. sparse_union_loop ds (u64 (counted + n)))"
      using False sk by (subst sparse_union_loop.simps) (simp add: smallest_def key_def)
    also have "\<dots> = sparse_union_loop ds (counted + card (spans_set (ks_in_key acc)))"
      using less.prems(2) card unfolding key_spans_cardinality_ok [OF s(2) ne_acc] by (simp add: u64_def)
    finally show ?thesis using hyp [of "counted + card (spans_set (ks_in_key acc))"] less.prems(2) card by (simp add: add.assoc)
  qed (simp add: sparse_union_loop.simps)
qed

lemma sparse_union_cardinality_ok:
  assumes "\<forall>s\<in>set spans. span_ok s" "spans_set spans \<subseteq> {..UINT32_MAX}"
  shows "sparse_union_cardinality spans = Some (card (spans_set spans))"
proof (cases "length spans = 1")
  case True
  then obtain s where "spans = [s]" by (metis One_nat_def length_0_conv length_Suc_conv)
  then show ?thesis using assms span_width_card [of s] by (simp add: sparse_union_cardinality_def)
next
  case False
  have "card (spans_set spans) \<le> card {..UINT32_MAX}" using assms(2) by (intro card_mono) simp_all
  then have "0 + card (spans_set spans) < 2 ^ 64" by (simp add: UINT32_MAX_def)
  then show ?thesis using False sparse_merged_ok [OF assms(1)] sparse_union_loop_ok [OF assms(1), of 0]
    by (simp add: sparse_union_cardinality_def)
qed

section \<open>Pages\<close>

lemma sparse_union_page_ok:
  assumes "\<forall>s\<in>set spans. span_ok s"
  shows "sparse_union_page spans skip n descending = take n (drop skip (listing descending (spans_set spans)))"
proof (cases "length spans = 1")
  case True
  then obtain s where s: "spans = [s]" by (metis One_nat_def length_0_conv length_Suc_conv)
  have ok: "ss_begin s < ss_end s" "ss_end s \<le> length (ss_values s)" "ascending (ss_values s)" using assms s by (simp_all add: span_ok_def)
  have asc: "ascending (span (ss_begin s) (ss_end s) (ss_values s))"
    unfolding span_def using drop_ascending [OF ok(3)] by (rule sorted_wrt_take)
  have l: "listing descending (spans_set spans) =
      (if descending then rev (span (ss_begin s) (ss_end s) (ss_values s)) else span (ss_begin s) (ss_end s) (ss_values s))"
    using listing_ascending [OF asc] by (simp add: s span_set_def)
  show ?thesis using slice_emit_ok [of "ss_begin s" "ss_end s" "ss_values s" "\<lambda>v. v" skip n descending] ok
    unfolding l by (simp add: sparse_union_page_def s)
next
  case False
  obtain wr sk cs where m: "merge_list descending (span_head descending) (span_step descending) 0 spans skip n = (wr, sk, cs)"
    by (rule prod_cases3)
  have "wr = take n (drop skip (listing descending (spans_set spans)))"
    using m spans_up.merge_page [OF assms, of skip n wr sk cs] spans_down.merge_page [OF assms, of skip n wr sk cs]
    by (cases descending) simp_all
  then show ?thesis using False m by (simp add: sparse_union_page_def)
qed

section \<open>The spans of some sets\<close>

lemma spans_of_ok:
  assumes "all_sparse sets" "\<forall>st. Some st \<in> set sets \<longrightarrow> roaring_ok st" "mn \<le> mx"
  shows "(\<forall>s\<in>set (sparse_spans_of sets mn mx). span_ok s) \<and>
    spans_set (sparse_spans_of sets mn mx) = {v. within mn mx v \<and> (\<exists>st. Some st \<in> set sets \<and> v \<in> set (elems st))}"
  using assms(1,2)
proof (induction sets)
  case (Cons a sets)
  have IH: "(\<forall>s\<in>set (sparse_spans_of sets mn mx). span_ok s) \<and>
    spans_set (sparse_spans_of sets mn mx) = {v. within mn mx v \<and> (\<exists>st. Some st \<in> set sets \<and> v \<in> set (elems st))}"
    using Cons by (simp add: all_sparse_def)
  show ?case
  proof (cases a)
    case None
    then show ?thesis using IH by simp
  next
    case (Some st)
    have "roaring_ok st" using Cons.prems(2) Some by simp
    moreover have "arnm_roaring_is_sparse st" using Cons.prems(1) Some by (simp add: all_sparse_def)
    ultimately have st: "elems st = rb_values st" "rb_cardinality st = length (rb_values st)" "ascending (rb_values st)"
      "length (rb_values st) \<le> UINT32_MAX" using roaring_cases by metis+
    define b e where "b = arnm_roaring_lower_bound16 (rb_values st) (length (rb_values st)) mn"
      "e = arnm_roaring_upper_bound16 (rb_values st) (length (rb_values st)) mx"
    note sp = span_bounds [OF st(3), of mn mx, folded b_e_def]
    have e: "e \<le> length (rb_values st)" using upper_bound_split(1) [OF st(3)] by (simp add: b_e_def)
    let ?s = "\<lparr>ss_values = rb_values st, ss_begin = b, ss_end = e\<rparr>"
    have set: "span_set ?s = {v. within mn mx v \<and> v \<in> set (elems st)}" using sp(1) st(1) by (auto simp: span_set_def)
    have run: "sparse_spans_of (a # sets) mn mx =
        (if rb_cardinality st = 0 \<or> b = e then sparse_spans_of sets mn mx else ?s # sparse_spans_of sets mn mx)"
      using Some st(2) by (simp add: bounds_32_16 b_e_def)
    have none: "{v. within mn mx v \<and> v \<in> set (elems st)} = {}" if "rb_cardinality st = 0 \<or> b = e"
      using that st set by (auto simp: span_set_def span_def)
    have "span_ok ?s" if "b \<noteq> e" using that sp(2) assms(3) e st by (simp add: span_ok_def)
    then show ?thesis using IH set none Some unfolding run by (auto split: if_splits)
  qed
qed simp

end
