(* ===== verification/Roaring_Key_Union.thy ===== *)
theory Roaring_Key_Union
  imports Roaring_Sparse_Union
begin

unbundle bit_operations_syntax

text \<open>
  The union of containers of one key (\<^verbatim>\<open>src/roaring_query.c\<close>, from \<^verbatim>\<open>key_union_words\<close> to
  \<^verbatim>\<open>key_union_cardinality\<close>): counted either through a bitmap of the key or by merging what the
  containers show. As everywhere, a buffer of words is the list of the words filled, from word \<open>low >> 6\<close> on.
\<close>

record key_union =
  ku_parts :: "roaring_container list"
  ku_key :: nat
  ku_low :: nat
  ku_high :: nat
  ku_any_bitmap :: bool

section \<open>What of a container lies in the range\<close>

definition array_reach :: "roaring_container \<Rightarrow> nat \<Rightarrow> nat \<Rightarrow> nat \<times> nat" where
  "array_reach c low high =
    (if low \<noteq> 0 then arnm_roaring_lower_bound16 (rc_array c) (rc_cardinality c) low else 0,
     if high = 65535 then rc_cardinality c else arnm_roaring_upper_bound16 (rc_array c) (rc_cardinality c) high)"

definition wide_reach :: "nat \<Rightarrow> roaring_container \<Rightarrow> nat \<Rightarrow> nat \<Rightarrow> nat \<times> nat" where
  "wide_reach key c low high =
    (if low \<noteq> 0 then arnm_roaring_lower_bound32 (rc_array c) (rc_cardinality c) (arnm_roaring_value_of key low) else 0,
     if high = 65535 then rc_cardinality c
     else arnm_roaring_upper_bound32 (rc_array c) (rc_cardinality c) (arnm_roaring_value_of key high))"

text \<open>The low parts of an array or a view that lie in the range, searched for without the two shortcuts.\<close>

definition part_lows :: "nat \<Rightarrow> roaring_container \<Rightarrow> nat \<Rightarrow> nat \<Rightarrow> nat list" where
  "part_lows key c low high =
    (if rc_kind c = ROARING_KIND_WIDE then
       map arnm_roaring_low_of
         (span (arnm_roaring_lower_bound32 (rc_array c) (rc_cardinality c) (arnm_roaring_value_of key low))
           (arnm_roaring_upper_bound32 (rc_array c) (rc_cardinality c) (arnm_roaring_value_of key high)) (rc_array c))
     else
       span (arnm_roaring_lower_bound16 (rc_array c) (rc_cardinality c) low)
         (arnm_roaring_upper_bound16 (rc_array c) (rc_cardinality c) high) (rc_array c))"

text \<open>The container laid over words: the words of a bitmap, the bits of the others.\<close>

definition or_part :: "nat \<Rightarrow> nat \<Rightarrow> nat \<Rightarrow> roaring_container \<Rightarrow> 64 word list \<Rightarrow> 64 word list" where
  "or_part key low high c words =
    (let first = drop_bit 6 low; final = drop_bit 6 high
     in if rc_kind c = ARNM_ROARING_BITMAP then map (\<lambda>w. words ! (w - first) OR rc_words c ! w) [first..<Suc final]
        else fold (set_word_bit first) (part_lows key c low high) words)"

definition zero_words :: "nat \<Rightarrow> nat \<Rightarrow> 64 word list" where
  "zero_words low high = replicate (drop_bit 6 high - drop_bit 6 low + 1) 0"

definition key_union_words :: "key_union \<Rightarrow> nat \<times> 64 word list" where
  "key_union_words u =
    arnm_roaring_clip_and_count
      (fold (or_part (ku_key u) (ku_low u) (ku_high u)) (ku_parts u) (zero_words (ku_low u) (ku_high u))) (ku_low u) (ku_high u)"

section \<open>Counting\<close>

text \<open>
  Of every array the entries that are left, \<open>array\<close>, \<open>begin\<close> and \<open>end\<close>; the low parts of a view are copied
  to a buffer of their own, which the count of the values keeps from overflowing.
\<close>

definition key_union_span :: "key_union \<Rightarrow> roaring_container \<Rightarrow> nat list \<times> nat \<times> nat" where
  "key_union_span u c =
    (if rc_kind c = ROARING_KIND_WIDE then
       let vs = part_lows (ku_key u) c (ku_low u) (ku_high u) in (vs, 0, length vs)
     else (rc_array c, array_reach c (ku_low u) (ku_high u)))"

definition smallest_head :: "(nat list \<times> nat \<times> nat) list \<Rightarrow> nat" where
  "smallest_head spans = fold (\<lambda>(xs, b, e) smallest. if b < e \<and> xs ! b < smallest then xs ! b else smallest) spans 65536"

definition pass_head :: "nat \<Rightarrow> nat list \<times> nat \<times> nat \<Rightarrow> nat list \<times> nat \<times> nat" where
  "pass_head x s = (case s of (xs, b, e) \<Rightarrow> if b < e \<and> xs ! b = x then (xs, b + 1, e) else (xs, b, e))"

lemma smallest_found:
  "smallest_head spans = 65536 \<or> (\<exists>(xs, b, e)\<in>set spans. b < e \<and> xs ! b = smallest_head spans)"
  "(xs, b, e) \<in> set spans \<Longrightarrow> b < e \<Longrightarrow> smallest_head spans \<le> xs ! b"
proof -
  have *: "(let r = fold (\<lambda>(xs, b, e) smallest. if b < e \<and> xs ! b < smallest then xs ! b else smallest) spans a
      in (r = a \<or> (\<exists>(xs, b, e)\<in>set spans. b < e \<and> xs ! b = r)) \<and> r \<le> a \<and> (\<forall>(xs, b, e)\<in>set spans. b < e \<longrightarrow> r \<le> xs ! b))"
    for a :: nat
  proof (induction spans arbitrary: a)
    case (Cons s spans)
    obtain xs b e where s: "s = (xs, b, e)" by (rule prod_cases3)
    let ?a = "if b < e \<and> xs ! b < a then xs ! b else a"
    show ?case using Cons.IH [of ?a] by (auto simp: s Let_def split: if_splits)
  qed simp
  show "smallest_head spans = 65536 \<or> (\<exists>(xs, b, e)\<in>set spans. b < e \<and> xs ! b = smallest_head spans)"
    using * [of 65536] by (simp add: smallest_head_def Let_def)
  show "smallest_head spans \<le> xs ! b" if "(xs, b, e) \<in> set spans" "b < e"
    using * [of 65536] that by (auto simp: smallest_head_def Let_def)
qed

function count_heads :: "(nat \<Rightarrow> bool) \<Rightarrow> (nat list \<times> nat \<times> nat) list \<Rightarrow> nat \<Rightarrow> nat" where
  "count_heads known spans counted =
    (let smallest = smallest_head spans
     in if smallest = 65536 then counted
        else count_heads known (map (pass_head smallest) spans) (if known smallest then counted else counted + 1))"
  by auto
termination
proof (relation "measure (\<lambda>(known, spans, counted). \<Sum>(xs, b, e)\<leftarrow>spans. e - b)")
  fix known :: "nat \<Rightarrow> bool" and spans :: "(nat list \<times> nat \<times> nat) list" and counted smallest :: nat
  assume s: "smallest = smallest_head spans" "smallest \<noteq> 65536"
  then obtain xs b e where x: "(xs, b, e) \<in> set spans" "b < e" "xs ! b = smallest" using smallest_found(1) [of spans] by auto
  obtain ys zs where sp: "spans = ys @ (xs, b, e) # zs" using split_list [OF x(1)] by blast
  have "(\<Sum>(xs, b, e)\<leftarrow>map (pass_head smallest) ss. e - b) \<le> (\<Sum>(xs, b, e)\<leftarrow>ss. e - b)" for ss
    by (induction ss) (auto simp: pass_head_def split: prod.splits)
  from this [of ys] this [of zs]
  have "(\<Sum>(xs, b, e)\<leftarrow>map (pass_head smallest) spans. e - b) < (\<Sum>(xs, b, e)\<leftarrow>spans. e - b)"
    using x(2,3) unfolding sp by (simp add: pass_head_def [of smallest "(xs, b, e)"])
  then show "((known, map (pass_head smallest) spans, if known smallest then counted else counted + 1), known, spans, counted)
    \<in> measure (\<lambda>(known, spans, counted). \<Sum>(xs, b, e)\<leftarrow>spans. e - b)" by simp
qed simp

declare count_heads.simps [simp del]

definition merged_arrays_cardinality :: "key_union \<Rightarrow> nat" where
  "merged_arrays_cardinality u = count_heads (\<lambda>_. False) (map (key_union_span u) (ku_parts u)) 0"

definition any_bit :: "64 word list list \<Rightarrow> nat \<Rightarrow> bool" where
  "any_bit bitmaps low = list_ex (\<lambda>words. get_bit words low) bitmaps"

text \<open>A word with what lies outside the range cut off.\<close>

definition clipped_word :: "nat \<Rightarrow> nat \<Rightarrow> nat \<Rightarrow> 64 word \<Rightarrow> 64 word" where
  "clipped_word low high w word =
    (let word = (if w = drop_bit 6 low then word AND arnm_roaring_first_word_mask low else word)
     in if w = drop_bit 6 high then word AND arnm_roaring_last_word_mask high else word)"

definition mixed_union_cardinality :: "key_union \<Rightarrow> nat" where
  "mixed_union_cardinality u =
    (let bitmaps = map rc_words (filter (\<lambda>c. rc_kind c = ARNM_ROARING_BITMAP) (ku_parts u));
         arrays = filter (\<lambda>c. rc_kind c \<noteq> ARNM_ROARING_BITMAP) (ku_parts u);
         low = ku_low u; high = ku_high u;
         counted =
           (if length bitmaps = 1 then arnm_roaring_words_cardinality (bitmaps ! 0) low high
            else (\<Sum>w\<leftarrow>[drop_bit 6 low..<Suc (drop_bit 6 high)].
              arnm_popcountll (clipped_word low high w (fold (\<lambda>words word. word OR words ! w) bitmaps 0))))
     in if arrays = [] then counted else count_heads (any_bit bitmaps) (map (key_union_span u) arrays) counted)"

definition array_values_in_range :: "key_union \<Rightarrow> nat" where
  "array_values_in_range u =
    (\<Sum>c\<leftarrow>ku_parts u.
      (case rc_kind c of
         ARNM_ROARING_BITMAP \<Rightarrow> 0
       | ROARING_KIND_WIDE \<Rightarrow> arnm_roaring_container_range_cardinality c (ku_low u) (ku_high u)
       | ARNM_ROARING_ARRAY \<Rightarrow> (case array_reach c (ku_low u) (ku_high u) of (b, e) \<Rightarrow> e - b)))"

definition key_union_cardinality :: "key_union \<Rightarrow> nat" where
  "key_union_cardinality u =
    (if length (ku_parts u) = 1 then arnm_roaring_container_range_cardinality (ku_parts u ! 0) (ku_low u) (ku_high u)
     else if array_values_in_range u \<ge> ROARING_UNION_BITS_FROM then fst (key_union_words u)
     else if ku_any_bitmap u then mixed_union_cardinality u
     else merged_arrays_cardinality u)"

section \<open>The searches find the range\<close>

definition lows_in :: "nat \<Rightarrow> nat \<Rightarrow> roaring_container \<Rightarrow> nat list" where
  "lows_in lo hi c = filter (within lo hi) (lows c)"

lemma set_lows_in [simp]: "set (lows_in lo hi c) = {x. lo \<le> x \<and> x \<le> hi \<and> x \<in> set (lows c)}"
  by (auto simp: lows_in_def)

lemma lows_in_ascending: "view_ok c \<Longrightarrow> ascending (lows_in lo hi c)"
  using view_lows(1) by (simp add: lows_in_def sorted_wrt_filter)

lemma array_reach_ok:
  assumes "view_ok c" "rc_kind c = ARNM_ROARING_ARRAY" "lo \<le> hi" "array_reach c lo hi = (b, e)"
  shows "span b e (rc_array c) = lows_in lo hi c" "b \<le> e" "e \<le> length (rc_array c)"
    "part_lows key c lo hi = lows_in lo hi c"
proof -
  let ?xs = "rc_array c"
  have l: "lows c = ?xs" using assms(2) by (simp add: lows_def)
  have xs: "ascending ?xs" "rc_cardinality c = length ?xs" "\<forall>x\<in>set ?xs. x < 65536" using assms l by (simp_all add: view_ok_def)
  have "arnm_roaring_lower_bound16 ?xs (length ?xs) 0 = 0" by (simp add: arnm_roaring_lower_bound16_def)
  moreover have "arnm_roaring_upper_bound16 ?xs (length ?xs) 65535 = length ?xs"
  proof (cases "?xs = []")
    case False
    then have "?xs ! (length ?xs - 1) < 65536" using xs(3) by simp
    then show ?thesis by (simp add: arnm_roaring_upper_bound16_def)
  qed (simp add: arnm_roaring_upper_bound16_def)
  ultimately have be: "b = arnm_roaring_lower_bound16 ?xs (length ?xs) lo" "e = arnm_roaring_upper_bound16 ?xs (length ?xs) hi"
    using assms(4) xs(2) by (auto simp: array_reach_def split: if_splits)
  show "span b e ?xs = lows_in lo hi c" "b \<le> e" "e \<le> length ?xs"
    using span_bounds [OF xs(1), of lo hi] upper_bound_split(1) [OF xs(1), of hi] assms(3) by (simp_all add: be lows_in_def l)
  then show "part_lows key c lo hi = lows_in lo hi c" using assms(2) by (simp add: part_lows_def xs(2) be)
qed

lemma wide_reach_ok:
  assumes "view_ok c" "rc_kind c = ROARING_KIND_WIDE" "lo \<le> hi" "hi < 65536" "wide_reach (rc_key c) c lo hi = (b, e)"
  shows "map arnm_roaring_low_of (span b e (rc_array c)) = lows_in lo hi c" "b \<le> e" "e \<le> length (rc_array c)"
    "span b e (rc_array c) = map (arnm_roaring_value_of (rc_key c)) (lows_in lo hi c)"
    "part_lows (rc_key c) c lo hi = lows_in lo hi c"
    "b = arnm_roaring_lower_bound32 (rc_array c) (rc_cardinality c) (arnm_roaring_value_of (rc_key c) lo)"
    "e = arnm_roaring_upper_bound32 (rc_array c) (rc_cardinality c) (arnm_roaring_value_of (rc_key c) hi)"
proof -
  let ?xs = "rc_array c" and ?k = "rc_key c"
  have l: "lows c = map arnm_roaring_low_of ?xs" using assms(2) by (simp add: lows_def)
  have xs: "ascending ?xs" "rc_cardinality c = length ?xs" "\<And>v. v \<in> set ?xs \<Longrightarrow> arnm_roaring_key_of v = ?k"
    using assms l by (simp_all add: view_ok_def)
  have val: "v = ?k * 65536 + arnm_roaring_low_of v" if "v \<in> set ?xs" for v
    using value_of_key_low [of v] xs(3) [OF that] value_of_sum [OF low_of_less [of v]] by metis
  have le: "arnm_roaring_value_of ?k x \<le> v \<longleftrightarrow> x \<le> arnm_roaring_low_of v" "v \<le> arnm_roaring_value_of ?k x \<longleftrightarrow> arnm_roaring_low_of v \<le> x"
    if "v \<in> set ?xs" "x < 65536" for v x
    using val [OF that(1)] value_of_sum [OF that(2), of ?k] by linarith+
  have lo: "lo < 65536" using assms(3,4) by simp
  have "arnm_roaring_lower_bound16 ?xs (length ?xs) (arnm_roaring_value_of ?k 0) = 0"
    using le(1) [of "?xs ! 0" 0] by (cases ?xs) (simp_all add: arnm_roaring_lower_bound16_def)
  moreover have "arnm_roaring_upper_bound16 ?xs (length ?xs) (arnm_roaring_value_of ?k 65535) = length ?xs"
  proof (cases "?xs = []")
    case False
    then have "?xs ! (length ?xs - 1) \<in> set ?xs" by simp
    moreover have "arnm_roaring_low_of (?xs ! (length ?xs - 1)) \<le> 65535" using low_of_less [of "?xs ! (length ?xs - 1)"] by linarith
    ultimately have "?xs ! (length ?xs - 1) \<le> arnm_roaring_value_of ?k 65535" using le(2) [of _ 65535] by simp
    then show ?thesis by (simp add: arnm_roaring_upper_bound16_def)
  qed (simp add: arnm_roaring_upper_bound16_def)
  ultimately have be: "b = arnm_roaring_lower_bound16 ?xs (length ?xs) (arnm_roaring_value_of ?k lo)"
    "e = arnm_roaring_upper_bound16 ?xs (length ?xs) (arnm_roaring_value_of ?k hi)"
    using assms(5) xs(2) by (auto simp: wide_reach_def bounds_32_16 split: if_splits)
  show "b = arnm_roaring_lower_bound32 ?xs (rc_cardinality c) (arnm_roaring_value_of ?k lo)"
    "e = arnm_roaring_upper_bound32 ?xs (rc_cardinality c) (arnm_roaring_value_of ?k hi)" by (simp_all add: be bounds_32_16 xs(2))
  have "span b e ?xs = filter (within (arnm_roaring_value_of ?k lo) (arnm_roaring_value_of ?k hi)) ?xs"
    using span_bounds(1) [OF xs(1)] by (simp add: be)
  also have "\<dots> = filter (\<lambda>v. within lo hi (arnm_roaring_low_of v)) ?xs"
    by (intro filter_cong) (use le lo assms(4) in auto)
  finally have sp: "span b e ?xs = filter (\<lambda>v. within lo hi (arnm_roaring_low_of v)) ?xs" .
  then show s: "map arnm_roaring_low_of (span b e ?xs) = lows_in lo hi c" by (simp add: lows_in_def l filter_map comp_def)
  have "map (arnm_roaring_value_of ?k) (map arnm_roaring_low_of (span b e ?xs)) = span b e ?xs"
    unfolding map_map sp by (rule map_idI) (use xs(3) in \<open>auto intro: value_of_key_low [THEN trans [rotated]]\<close>)
  then show "span b e ?xs = map (arnm_roaring_value_of ?k) (lows_in lo hi c)" unfolding s by simp
  have "arnm_roaring_value_of ?k lo \<le> arnm_roaring_value_of ?k hi" using assms(3,4) lo by (simp add: value_of_sum)
  then show "b \<le> e" "e \<le> length ?xs"
    using span_bounds(2) [OF xs(1)] upper_bound_split(1) [OF xs(1)] by (simp_all add: be)
  show "part_lows ?k c lo hi = lows_in lo hi c" using s assms(2) by (simp add: part_lows_def be bounds_32_16 xs(2))
qed

lemma range_cardinality_view:
  assumes "view_ok c" "lo \<le> hi" "hi < 65536"
  shows "arnm_roaring_container_range_cardinality c lo hi = card (set (lows_in lo hi c))"
proof -
  have "card (set (lows_in lo hi c)) = length (lows_in lo hi c)"
    by (rule distinct_card) (use lows_in_ascending [OF assms(1)] strict_sorted_iff in blast)
  moreover have "arnm_roaring_container_range_cardinality c lo hi = length (lows_in lo hi c)"
  proof (cases "lo = 0 \<and> hi = 65535")
    case True
    have "lows_in lo hi c = lows c" unfolding lows_in_def using view_lows(2) [OF assms(1)] True by (intro filter_True) fastforce
    then show ?thesis using True assms(1) by (simp add: arnm_roaring_container_range_cardinality_def view_ok_def)
  next
    case False
    consider "rc_kind c = ARNM_ROARING_ARRAY" | "rc_kind c = ROARING_KIND_WIDE" | "rc_kind c = ARNM_ROARING_BITMAP"
      by (cases "rc_kind c") auto
    then show ?thesis
    proof cases
      case 1
      then have "lows c = rc_array c" "ascending (rc_array c)" "length (rc_array c) \<le> UINT32_MAX" "rc_cardinality c = length (rc_array c)"
        using assms(1) by (simp_all add: view_ok_def lows_def ARNM_ROARING_ARRAY_MAX_def UINT32_MAX_def)
      then show ?thesis using False 1 span_count [of "rc_array c" lo hi] assms(2)
        by (auto simp: arnm_roaring_container_range_cardinality_def lows_in_def)
    next
      case 2
      obtain b e where w: "wide_reach (rc_key c) c lo hi = (b, e)" by fastforce
      note r = wide_reach_ok [OF assms(1) 2 assms(2,3) w]
      have "length (lows_in lo hi c) = e - b" using r(1-3) by (metis length_map length_take length_drop min.absorb2 diff_le_mono span_def)
      moreover have "e \<le> UINT32_MAX" using r(3) assms(1) 2 by (simp add: view_ok_def ARNM_ROARING_SPARSE_MAX_def UINT32_MAX_def)
      ultimately show ?thesis using False 2 r(2) by (auto simp: arnm_roaring_container_range_cardinality_def r(6,7) [symmetric])
    next
      case 3
      then have "lows c = bits_from 0 (rc_words c)" "length (rc_words c) = 1024"
        using assms(1) by (simp_all add: view_ok_def lows_def ARNM_ROARING_BITMAP_WORDS_def)
      then show ?thesis using False 3 words_cardinality [of "rc_words c" lo hi] assms(2,3)
        by (auto simp: arnm_roaring_container_range_cardinality_def lows_in_def)
    qed
  qed
  ultimately show ?thesis by simp
qed

section \<open>Words that show a predicate\<close>

definition shows_in :: "nat \<Rightarrow> nat \<Rightarrow> 64 word list \<Rightarrow> (nat \<Rightarrow> bool) \<Rightarrow> bool" where
  "shows_in lo hi ws P \<longleftrightarrow> length ws = Suc (drop_bit 6 hi - drop_bit 6 lo) \<and>
    (\<forall>x. lo \<le> x \<and> x \<le> hi \<longrightarrow> (bit (ws ! (x div 64 - lo div 64)) (x mod 64) \<longleftrightarrow> P x))"

lemma shows_bits:
  assumes "shows_in lo hi ws P" "lo \<le> hi"
  shows "filter (within lo hi) (bits_from (drop_bit 6 lo) ws) = sorted_list_of_set {x. lo \<le> x \<and> x \<le> hi \<and> P x}"
proof (rule ascending_eq)
  have fin: "finite {x. lo \<le> x \<and> x \<le> hi \<and> P x}" by (rule finite_subset [of _ "{..hi}"]) auto
  have "x \<in> set (bits_from (drop_bit 6 lo) ws) \<longleftrightarrow> P x" if "lo \<le> x" "x \<le> hi" for x
  proof -
    have "lo div 64 \<le> x div 64" "x div 64 \<le> hi div 64" using that by (simp_all add: div_le_mono)
    then show ?thesis using assms(1) that by (simp add: shows_in_def in_bits_from drop_6 Suc_diff_le less_Suc_eq_le)
  qed
  then show "set (filter (within lo hi) (bits_from (drop_bit 6 lo) ws)) = set (sorted_list_of_set {x. lo \<le> x \<and> x \<le> hi \<and> P x})"
    using fin by auto
qed (simp_all add: sorted_wrt_filter)

lemma shows_counted:
  assumes "shows_in lo hi ws P" "lo \<le> hi" "hi < 65536" "arnm_roaring_clip_and_count ws lo hi = (n, clipped)"
  shows "n = card {x. lo \<le> x \<and> x \<le> hi \<and> P x}" "length clipped = Suc (drop_bit 6 hi - drop_bit 6 lo)"
    "filter (within lo hi) (bits_from (drop_bit 6 lo) clipped) = sorted_list_of_set {x. lo \<le> x \<and> x \<le> hi \<and> P x}"
proof -
  have len: "length ws = Suc (drop_bit 6 hi - drop_bit 6 lo)" using assms(1) by (simp add: shows_in_def)
  note c = clip_and_count [OF assms(2,3) len assms(4)]
  note b = shows_bits [OF assms(1,2)]
  show "n = card {x. lo \<le> x \<and> x \<le> hi \<and> P x}" unfolding c(2) c(1) b by simp
  show "length clipped = Suc (drop_bit 6 hi - drop_bit 6 lo)" using c(3) len by simp
  show "filter (within lo hi) (bits_from (drop_bit 6 lo) clipped) = sorted_list_of_set {x. lo \<le> x \<and> x \<le> hi \<and> P x}"
    unfolding c(1) b [symmetric] by simp
qed

lemma shows_zero: "lo \<le> hi \<Longrightarrow> shows_in lo hi (zero_words lo hi) (\<lambda>x. False)"
  by (auto simp: shows_in_def zero_words_def drop_6 div_le_mono diff_le_mono less_Suc_eq_le simp del: replicate_Suc)

lemma shows_map:
  assumes "shows_in lo hi ws P" "shows_in lo hi vs Q" "\<And>x. R x \<longleftrightarrow> f (P x) (Q x)" "\<And>a b i. i < 64 \<Longrightarrow> bit (g a b) i \<longleftrightarrow> f (bit a i) (bit b i)"
  shows "shows_in lo hi (map2 g ws vs) R"
  using assms(1,2) by (auto simp: shows_in_def assms(3,4) drop_6 div_le_mono diff_le_mono less_Suc_eq_le)

lemma shows_bitmap:
  assumes "view_ok c" "rc_kind c = ARNM_ROARING_BITMAP" "lo \<le> hi" "hi < 65536"
  shows "shows_in lo hi (map (\<lambda>w. rc_words c ! w) [drop_bit 6 lo..<Suc (drop_bit 6 hi)]) (\<lambda>x. x \<in> set (lows c))"
proof -
  have n: "length (rc_words c) = 1024" "lows c = bits_from 0 (rc_words c)"
    using assms(1,2) by (simp_all add: view_ok_def lows_def ARNM_ROARING_BITMAP_WORDS_def)
  have "[lo div 64..<Suc (hi div 64)] ! (x div 64 - lo div 64) = x div 64" "x div 64 - lo div 64 < Suc (hi div 64) - lo div 64" "x div 64 < 1024"
    if "lo \<le> x" "x \<le> hi" for x
  proof -
    have d: "lo div 64 \<le> x div 64" "x div 64 \<le> hi div 64" using that by (simp_all add: div_le_mono)
    then show i: "x div 64 - lo div 64 < Suc (hi div 64) - lo div 64" by linarith
    show "x div 64 < 1024" using that assms(4) by simp
    show "[lo div 64..<Suc (hi div 64)] ! (x div 64 - lo div 64) = x div 64" using d i by (subst nth_upt) linarith+
  qed
  then show ?thesis
    using assms(3) n by (auto simp: shows_in_def drop_6 div_le_mono Suc_diff_le in_bits_from simp del: upt_Suc)
qed

lemma shows_set_bits:
  assumes "shows_in lo hi ws P" "\<forall>x\<in>set xs. lo \<le> x \<and> x \<le> hi" "lo \<le> hi"
  shows "shows_in lo hi (fold (set_word_bit (drop_bit 6 lo)) xs ws) (\<lambda>x. P x \<or> x \<in> set xs)"
    "shows_in lo hi (fold (clear_word_bit (drop_bit 6 lo)) xs ws) (\<lambda>x. P x \<and> x \<notin> set xs)"
proof -
  let ?f = "drop_bit 6 lo"
  have len: "length ws = Suc (drop_bit 6 hi - ?f)" using assms(1) by (simp add: shows_in_def)
  have spots: "\<forall>v\<in>set xs. ?f \<le> drop_bit 6 v \<and> drop_bit 6 v < ?f + length ws"
    unfolding len using assms(2,3) by (auto simp: drop_6 div_le_mono less_Suc_eq_le)
  have r: "bit (fold (set_word_bit ?f) xs ws ! (x div 64 - ?f)) (x mod 64) \<longleftrightarrow> bit (ws ! (x div 64 - ?f)) (x mod 64) \<or> x \<in> set xs"
    "bit (fold (clear_word_bit ?f) xs ws ! (x div 64 - ?f)) (x mod 64) \<longleftrightarrow> bit (ws ! (x div 64 - ?f)) (x mod 64) \<and> x \<notin> set xs"
    if "lo \<le> x" "x \<le> hi" for x
    using set_bits_run(1,2) [OF spots, of "x div 64" "x mod 64"] that len by (simp_all add: drop_6 div_le_mono less_Suc_eq_le)
  have l: "length (fold (set_word_bit ?f) xs ws) = length ws" "length (fold (clear_word_bit ?f) xs ws) = length ws"
    using set_bits_run(3,4) [OF spots, of ?f 0] len by simp_all
  show "shows_in lo hi (fold (set_word_bit ?f) xs ws) (\<lambda>x. P x \<or> x \<in> set xs)"
    "shows_in lo hi (fold (clear_word_bit ?f) xs ws) (\<lambda>x. P x \<and> x \<notin> set xs)"
    using assms(1) r l by (simp_all add: shows_in_def drop_6)
qed

lemma part_lows_ok:
  assumes "view_ok c" "rc_key c = key" "rc_kind c \<noteq> ARNM_ROARING_BITMAP" "lo \<le> hi" "hi < 65536"
  shows "part_lows key c lo hi = lows_in lo hi c"
proof (cases "rc_kind c")
  case ARNM_ROARING_ARRAY
  then show ?thesis using array_reach_ok(4) [OF assms(1) _ assms(4)] by (metis surj_pair)
next
  case ROARING_KIND_WIDE
  then show ?thesis using wide_reach_ok(5) [OF assms(1) _ assms(4,5)] assms(2) by (metis surj_pair)
qed (use assms(3) in simp)

lemma or_part_ok:
  assumes "shows_in lo hi ws P" "view_ok c" "rc_key c = key" "lo \<le> hi" "hi < 65536"
  shows "shows_in lo hi (or_part key lo hi c ws) (\<lambda>x. P x \<or> x \<in> set (lows c))"
proof (cases "rc_kind c = ARNM_ROARING_BITMAP")
  case True
  have len: "length ws = Suc (drop_bit 6 hi) - drop_bit 6 lo"
    using assms(1,4) by (simp add: shows_in_def drop_6 div_le_mono Suc_diff_le)
  have "or_part key lo hi c ws = map2 (OR) ws (map (\<lambda>w. rc_words c ! w) [drop_bit 6 lo..<Suc (drop_bit 6 hi)])"
    using True len by (intro nth_equalityI) (simp_all add: or_part_def Let_def del: upt_Suc)
  then show ?thesis
    using shows_map [OF assms(1) shows_bitmap [OF assms(2) True assms(4,5)], of "\<lambda>x. P x \<or> x \<in> set (lows c)" "(\<or>)" "(OR)"]
    by (simp add: bit_or_iff)
next
  case False
  then have "or_part key lo hi c ws = fold (set_word_bit (drop_bit 6 lo)) (lows_in lo hi c) ws"
    using part_lows_ok [OF assms(2,3) False assms(4,5)] by (simp add: or_part_def)
  moreover have "shows_in lo hi (fold (set_word_bit (drop_bit 6 lo)) (lows_in lo hi c) ws) (\<lambda>x. P x \<or> x \<in> set (lows_in lo hi c))"
    by (rule shows_set_bits(1) [OF assms(1) _ assms(4)]) simp
  ultimately show ?thesis by (simp add: shows_in_def)
qed

lemma or_parts_ok:
  assumes "shows_in lo hi ws P" "\<forall>c\<in>set cs. view_ok c \<and> rc_key c = key" "lo \<le> hi" "hi < 65536"
  shows "shows_in lo hi (fold (or_part key lo hi) cs ws) (\<lambda>x. P x \<or> (\<exists>c\<in>set cs. x \<in> set (lows c)))"
  using assms(1,2)
proof (induction cs arbitrary: ws P)
  case (Cons c cs)
  have "shows_in lo hi (or_part key lo hi c ws) (\<lambda>x. P x \<or> x \<in> set (lows c))"
    using or_part_ok [OF Cons.prems(1) _ _ assms(3,4)] Cons.prems(2) by simp
  from Cons.IH [OF this] Cons.prems(2) show ?case by (simp add: disj_assoc)
qed simp

section \<open>Counting is exact\<close>

definition heads_left :: "nat list \<times> nat \<times> nat \<Rightarrow> nat set" where
  "heads_left s = (case s of (xs, b, e) \<Rightarrow> set (span b e xs))"

definition heads_ok :: "nat list \<times> nat \<times> nat \<Rightarrow> bool" where
  "heads_ok s \<longleftrightarrow> (case s of (xs, b, e) \<Rightarrow> ascending xs \<and> e \<le> length xs \<and> (\<forall>x\<in>set xs. x < 65536))"

lemma span_next: "b < e \<Longrightarrow> e \<le> length xs \<Longrightarrow> span b e xs = xs ! b # span (Suc b) e xs"
  by (simp add: span_def Cons_nth_drop_Suc [symmetric] Suc_diff_Suc [symmetric] del: Suc_diff_Suc)

lemma pass_head_ok:
  assumes "heads_ok s" "\<And>xs b e. s = (xs, b, e) \<Longrightarrow> b < e \<Longrightarrow> x \<le> xs ! b"
  shows "heads_ok (pass_head x s)" "heads_left (pass_head x s) = heads_left s - {x}"
proof -
  obtain xs b e where s: "s = (xs, b, e)" by (rule prod_cases3)
  have ok: "ascending xs" "e \<le> length xs" using assms(1) by (simp_all add: heads_ok_def s)
  show "heads_ok (pass_head x s)" using assms(1) by (simp add: heads_ok_def pass_head_def s)
  show "heads_left (pass_head x s) = heads_left s - {x}"
  proof (cases "b < e")
    case True
    note n = span_next [OF True ok(2)]
    have "ascending (span b e xs)" unfolding span_def using drop_ascending [OF ok(1)] by (rule sorted_wrt_take)
    then have "\<forall>y\<in>set (span (Suc b) e xs). xs ! b < y" unfolding n by simp
    then show ?thesis using True assms(2) [OF s True] by (auto simp: heads_left_def pass_head_def s n)
  qed (simp add: heads_left_def pass_head_def s span_def)
qed

lemma count_heads_ok:
  assumes "\<forall>s\<in>set spans. heads_ok s"
  shows "count_heads known spans n = n + card {x\<in>\<Union> (heads_left ` set spans). \<not> known x}"
  using assms
proof (induction known spans n rule: count_heads.induct)
  case (1 known spans n)
  define x where "x = smallest_head spans"
  let ?U = "\<Union> (heads_left ` set spans)"
  have fin: "finite ?U" by (auto simp: heads_left_def)
  show ?case
  proof (cases "x = 65536")
    case True
    have "heads_left s = {}" if s: "s \<in> set spans" for s
    proof -
      obtain xs b e where e: "s = (xs, b, e)" by (rule prod_cases3)
      have "\<not> b < e"
      proof
        assume "b < e"
        then have "x \<le> xs ! b" "xs ! b < 65536" using smallest_found(2) [of xs b e spans] s "1.prems" e by (auto simp: x_def heads_ok_def)
        then show False using True by simp
      qed
      then show ?thesis by (simp add: heads_left_def e span_def)
    qed
    then have "?U = {}" by blast
    then show ?thesis using True by (subst count_heads.simps) (simp add: x_def)
  next
    case False
    let ?spans = "map (pass_head x) spans"
    have p: "heads_ok (pass_head x s) \<and> heads_left (pass_head x s) = heads_left s - {x}" if "s \<in> set spans" for s
      using pass_head_ok [of s x] smallest_found(2) [of _ _ _ spans] that "1.prems" by (auto simp: x_def)
    have U: "\<Union> (heads_left ` set ?spans) = ?U - {x}" using p by auto
    have x: "x \<in> ?U"
    proof -
      obtain xs b e where e: "(xs, b, e) \<in> set spans" "b < e" "xs ! b = x" using smallest_found(1) [of spans] False by (auto simp: x_def)
      then have "x \<in> heads_left (xs, b, e)" using span_next [of b e xs] "1.prems" by (auto simp: heads_ok_def heads_left_def)
      then show ?thesis using e(1) by blast
    qed
    have "{y\<in>?U. \<not> known y} = (if known x then {y\<in>?U - {x}. \<not> known y} else insert x {y\<in>?U - {x}. \<not> known y})" using x by auto
    then have "card {y\<in>?U. \<not> known y} = (if known x then 0 else 1) + card {y\<in>?U - {x}. \<not> known y}" using fin by simp
    moreover have "count_heads known spans n = count_heads known ?spans (if known x then n else n + 1)"
      using False by (subst count_heads.simps) (simp add: x_def Let_def)
    moreover have "\<forall>s\<in>set ?spans. heads_ok s" using p by simp
    ultimately show ?thesis using "1.IH" [OF x_def False] unfolding U by simp
  qed
qed

text \<open>A clipped word keeps the bits of the range.\<close>

lemma bit_clipped:
  fixes lo hi w b :: nat
  assumes "drop_bit 6 lo \<le> w" "w \<le> drop_bit 6 hi" "b < 64"
  shows "bit (clipped_word lo hi w x) b \<longleftrightarrow> bit x b \<and> lo \<le> 64 * w + b \<and> 64 * w + b \<le> hi"
  using in_clipped [of lo "64 * w + b" hi] assms
  by (auto simp: clipped_word_def Let_def bit_and_iff bit_first_mask bit_last_mask drop_6)

lemma clipped_word_bits:
  assumes "drop_bit 6 lo \<le> w" "w \<le> drop_bit 6 hi"
  shows "map (\<lambda>b. 64 * w + b) (word_bits (clipped_word lo hi w x)) = filter (within lo hi) (map (\<lambda>b. 64 * w + b) (word_bits x))"
  unfolding filter_map word_bits_def filter_filter
  by (intro arg_cong [where f = "map _"] filter_cong) (use bit_clipped [OF assms] in auto)

lemma bits_from_concat:
  "bits_from f ws = concat (map (\<lambda>w. map (\<lambda>b. 64 * w + b) (word_bits (ws ! (w - f)))) [f..<f + length ws])"
proof (induction ws arbitrary: f)
  case (Cons x ws)
  have "map (\<lambda>w. map (\<lambda>b. 64 * w + b) (word_bits (ws ! (w - Suc f)))) [Suc f..<Suc f + length ws] =
      map (\<lambda>w. map (\<lambda>b. 64 * w + b) (word_bits ((x # ws) ! (w - f)))) [Suc f..<Suc f + length ws]"
    by (intro map_cong) (auto simp: Suc_diff_le nth_Cons')
  from arg_cong [OF this, of concat] show ?case using Cons.IH [of "Suc f"] by (simp add: upt_conv_Cons del: upt_Suc)
qed simp

lemma clipped_bits:
  fixes lo hi :: nat
  assumes "length ws = Suc (drop_bit 6 hi - drop_bit 6 lo)" "lo \<le> hi"
  shows "concat (map (\<lambda>w. map (\<lambda>b. 64 * w + b) (word_bits (clipped_word lo hi w (ws ! (w - drop_bit 6 lo))))) [drop_bit 6 lo..<Suc (drop_bit 6 hi)]) =
    filter (within lo hi) (bits_from (drop_bit 6 lo) ws)"
proof -
  have "drop_bit 6 lo + length ws = Suc (drop_bit 6 hi)" using assms by (simp add: drop_6 div_le_mono)
  then show ?thesis
    unfolding bits_from_concat filter_concat map_map comp_def
    by (intro arg_cong [where f = concat] map_cong) (auto simp: clipped_word_bits less_Suc_eq_le simp del: upt_Suc)
qed

lemma clipped_count:
  fixes lo hi :: nat
  assumes "shows_in lo hi ws P" "lo \<le> hi"
  shows "(\<Sum>w\<leftarrow>[drop_bit 6 lo..<Suc (drop_bit 6 hi)]. arnm_popcountll (clipped_word lo hi w (ws ! (w - drop_bit 6 lo)))) =
    card {x. lo \<le> x \<and> x \<le> hi \<and> P x}"
proof -
  have len: "length ws = Suc (drop_bit 6 hi - drop_bit 6 lo)" using assms(1) by (simp add: shows_in_def)
  have "card {x. lo \<le> x \<and> x \<le> hi \<and> P x} = length (filter (within lo hi) (bits_from (drop_bit 6 lo) ws))"
    unfolding shows_bits [OF assms] by simp
  then show ?thesis unfolding clipped_bits [OF len assms(2), symmetric] length_concat map_map comp_def
    by (simp add: length_word_bits del: upt_Suc)
qed

section \<open>The union of one key\<close>

definition key_union_ok :: "key_union \<Rightarrow> bool" where
  "key_union_ok u \<longleftrightarrow> ku_parts u \<noteq> [] \<and> (\<forall>c\<in>set (ku_parts u). view_ok c \<and> rc_key c = ku_key u) \<and>
    ku_low u \<le> ku_high u \<and> ku_high u < 65536 \<and>
    (ku_any_bitmap u \<longleftrightarrow> (\<exists>c\<in>set (ku_parts u). rc_kind c = ARNM_ROARING_BITMAP))"

definition union_set :: "key_union \<Rightarrow> nat set" where
  "union_set u = {x. ku_low u \<le> x \<and> x \<le> ku_high u \<and> (\<exists>c\<in>set (ku_parts u). x \<in> set (lows c))}"

lemma union_set_finite [simp]: "finite (union_set u)"
  by (rule finite_subset [of _ "{..ku_high u}"]) (auto simp: union_set_def)

lemma union_span_ok:
  assumes "key_union_ok u" "c \<in> set (ku_parts u)" "rc_kind c \<noteq> ARNM_ROARING_BITMAP"
  shows "heads_ok (key_union_span u c)" "heads_left (key_union_span u c) = set (lows_in (ku_low u) (ku_high u) c)"
proof -
  let ?lo = "ku_low u" and ?hi = "ku_high u"
  have c: "view_ok c" "rc_key c = ku_key u" "?lo \<le> ?hi" "?hi < 65536" using assms(1,2) by (simp_all add: key_union_ok_def)
  have "heads_ok (key_union_span u c) \<and> heads_left (key_union_span u c) = set (lows_in ?lo ?hi c)"
  proof (cases "rc_kind c = ROARING_KIND_WIDE")
    case True
    have s: "key_union_span u c = (lows_in ?lo ?hi c, 0, length (lows_in ?lo ?hi c))"
      using True part_lows_ok [OF c(1,2) assms(3) c(3,4)] by (simp add: key_union_span_def Let_def)
    have "ascending (lows_in ?lo ?hi c)" "\<forall>x\<in>set (lows_in ?lo ?hi c). x < 65536"
      using lows_in_ascending [OF c(1)] view_lows(2) [OF c(1)] by auto
    then show ?thesis unfolding s heads_ok_def heads_left_def prod.case span_def by simp
  next
    case False
    then have k: "rc_kind c = ARNM_ROARING_ARRAY" using assms(3) by (cases "rc_kind c") simp_all
    obtain b e where r: "array_reach c ?lo ?hi = (b, e)" by fastforce
    note a = array_reach_ok [OF c(1) k c(3) r]
    have "ascending (rc_array c)" "\<forall>x\<in>set (rc_array c). x < 65536" using c(1) k by (simp_all add: view_ok_def)
    then show ?thesis using a(1,3) k by (simp add: key_union_span_def r heads_ok_def heads_left_def del: set_lows_in)
  qed
  then show "heads_ok (key_union_span u c)" "heads_left (key_union_span u c) = set (lows_in ?lo ?hi c)" by blast+
qed

lemma merged_arrays_ok:
  assumes "key_union_ok u" "\<not> ku_any_bitmap u"
  shows "merged_arrays_cardinality u = card (union_set u)"
proof -
  have k: "rc_kind c \<noteq> ARNM_ROARING_BITMAP" if "c \<in> set (ku_parts u)" for c using assms that by (auto simp: key_union_ok_def)
  note s = union_span_ok [OF assms(1) _ k]
  have "\<Union> (heads_left ` set (map (key_union_span u) (ku_parts u))) = union_set u"
    using s(2) by (auto simp: union_set_def)
  moreover have "\<forall>s\<in>set (map (key_union_span u) (ku_parts u)). heads_ok s" using s(1) by auto
  ultimately show ?thesis using count_heads_ok [of "map (key_union_span u) (ku_parts u)" "\<lambda>_. False" 0]
    by (simp add: merged_arrays_cardinality_def)
qed

lemma key_union_words_ok:
  assumes "key_union_ok u"
  shows "fst (key_union_words u) = card (union_set u)"
    "length (snd (key_union_words u)) = Suc (drop_bit 6 (ku_high u) - drop_bit 6 (ku_low u))"
    "filter (within (ku_low u) (ku_high u)) (bits_from (drop_bit 6 (ku_low u)) (snd (key_union_words u))) = sorted_list_of_set (union_set u)"
proof -
  have u: "ku_low u \<le> ku_high u" "ku_high u < 65536" "\<forall>c\<in>set (ku_parts u). view_ok c \<and> rc_key c = ku_key u"
    using assms by (simp_all add: key_union_ok_def)
  have "shows_in (ku_low u) (ku_high u) (fold (or_part (ku_key u) (ku_low u) (ku_high u)) (ku_parts u) (zero_words (ku_low u) (ku_high u)))
      (\<lambda>x. \<exists>c\<in>set (ku_parts u). x \<in> set (lows c))"
    using or_parts_ok [OF shows_zero [OF u(1)] u(3,1,2)] by simp
  from shows_counted [OF this u(1,2) prod.collapse [symmetric]]
  show "fst (key_union_words u) = card (union_set u)"
    "length (snd (key_union_words u)) = Suc (drop_bit 6 (ku_high u) - drop_bit 6 (ku_low u))"
    "filter (within (ku_low u) (ku_high u)) (bits_from (drop_bit 6 (ku_low u)) (snd (key_union_words u))) = sorted_list_of_set (union_set u)"
    by (simp_all add: key_union_words_def union_set_def)
qed

lemma bit_fold_or:
  "bit (fold (\<lambda>words word. word OR words ! w) bitmaps (x :: 64 word)) b \<longleftrightarrow> bit x b \<or> (\<exists>words\<in>set bitmaps. bit (words ! w) b)"
  by (induction bitmaps arbitrary: x) (auto simp: bit_or_iff)

lemma mixed_union_ok:
  assumes "key_union_ok u" "ku_any_bitmap u"
  shows "mixed_union_cardinality u = card (union_set u)"
proof -
  let ?lo = "ku_low u" and ?hi = "ku_high u"
  define bits where "bits = filter (\<lambda>c. rc_kind c = ARNM_ROARING_BITMAP) (ku_parts u)"
  define arrays where "arrays = filter (\<lambda>c. rc_kind c \<noteq> ARNM_ROARING_BITMAP) (ku_parts u)"
  let ?bitmaps = "map rc_words bits"
  have u: "?lo \<le> ?hi" "?hi < 65536" "\<forall>c\<in>set (ku_parts u). view_ok c \<and> rc_key c = ku_key u"
    using assms by (simp_all add: key_union_ok_def)
  have b: "view_ok c" "rc_kind c = ARNM_ROARING_BITMAP" "length (rc_words c) = 1024" "lows c = bits_from 0 (rc_words c)" if "c \<in> set bits" for c
    using that u(3) by (auto simp: bits_def view_ok_def lows_def ARNM_ROARING_BITMAP_WORDS_def)
  let ?B = "{x. ?lo \<le> x \<and> x \<le> ?hi \<and> (\<exists>c\<in>set bits. x \<in> set (lows c))}"
  define ws where "ws = map (\<lambda>w. fold (\<lambda>words word. word OR words ! w) ?bitmaps (0 :: 64 word)) [drop_bit 6 ?lo..<Suc (drop_bit 6 ?hi)]"
  have at: "ws ! (w - drop_bit 6 ?lo) = fold (\<lambda>words word. word OR words ! w) ?bitmaps 0"
    if "drop_bit 6 ?lo \<le> w" "w < Suc (drop_bit 6 ?hi)" for w
  proof -
    have "w - drop_bit 6 ?lo < Suc (drop_bit 6 ?hi) - drop_bit 6 ?lo" "drop_bit 6 ?lo + (w - drop_bit 6 ?lo) < Suc (drop_bit 6 ?hi)"
      "drop_bit 6 ?lo + (w - drop_bit 6 ?lo) = w" using that by linarith+
    then show ?thesis unfolding ws_def by (simp del: upt_Suc)
  qed
  have ws: "shows_in ?lo ?hi ws (\<lambda>x. \<exists>c\<in>set bits. x \<in> set (lows c))"
  proof -
    have "bit (ws ! (x div 64 - ?lo div 64)) (x mod 64) \<longleftrightarrow> (\<exists>c\<in>set bits. x \<in> set (lows c))" if "?lo \<le> x" "x \<le> ?hi" for x
    proof -
      have d: "?lo div 64 \<le> x div 64" "x div 64 < Suc (?hi div 64)" "x div 64 < 1024"
        using that u(2) by (simp_all add: div_le_mono less_Suc_eq_le)
      have "bit (ws ! (x div 64 - ?lo div 64)) (x mod 64) \<longleftrightarrow> (\<exists>c\<in>set bits. bit (rc_words c ! (x div 64)) (x mod 64))"
        using at [of "x div 64"] d by (simp add: drop_6 bit_fold_or)
      also have "\<dots> \<longleftrightarrow> (\<exists>c\<in>set bits. x \<in> set (lows c))" using b d(3) by (intro bex_cong refl) (simp add: in_bits_from)
      finally show ?thesis .
    qed
    moreover have "length ws = Suc (drop_bit 6 ?hi - drop_bit 6 ?lo)" using u(1) by (simp add: ws_def drop_6 div_le_mono Suc_diff_le del: upt_Suc)
    ultimately show ?thesis by (simp add: shows_in_def)
  qed
  define n where "n = (if length ?bitmaps = 1 then arnm_roaring_words_cardinality (?bitmaps ! 0) ?lo ?hi
      else (\<Sum>w\<leftarrow>[drop_bit 6 ?lo..<Suc (drop_bit 6 ?hi)].
        arnm_popcountll (clipped_word ?lo ?hi w (fold (\<lambda>words word. word OR words ! w) ?bitmaps 0))))"
  have n: "n = card ?B"
  proof (cases "length ?bitmaps = 1")
    case True
    then obtain c where c: "bits = [c]" by (metis One_nat_def length_0_conv length_Suc_conv length_map)
    have "?B = set (filter (within ?lo ?hi) (bits_from 0 (rc_words c)))" using c b(4) [of c] by auto
    moreover have "card (set (filter (within ?lo ?hi) (bits_from 0 (rc_words c)))) = length (filter (within ?lo ?hi) (bits_from 0 (rc_words c)))"
      by (rule distinct_card) (metis bits_from_ascending sorted_wrt_filter strict_sorted_iff)
    ultimately show ?thesis using True words_cardinality [of "rc_words c" ?lo ?hi] b(3) [of c] u c by (simp add: n_def)
  next
    case False
    have "n = (\<Sum>w\<leftarrow>[drop_bit 6 ?lo..<Suc (drop_bit 6 ?hi)]. arnm_popcountll (clipped_word ?lo ?hi w (ws ! (w - drop_bit 6 ?lo))))"
      using False at unfolding n_def by (auto intro!: arg_cong [where f = sum_list] map_cong simp del: upt_Suc)
    then show ?thesis using clipped_count [OF ws u(1)] by simp
  qed
  have fin: "finite ?B" by (rule finite_subset [of _ "{..?hi}"]) auto
  have mixed: "mixed_union_cardinality u = (if arrays = [] then n else count_heads (any_bit ?bitmaps) (map (key_union_span u) arrays) n)"
    by (simp add: mixed_union_cardinality_def Let_def n_def bits_def arrays_def del: upt_Suc)
  have a: "c \<in> set (ku_parts u)" "rc_kind c \<noteq> ARNM_ROARING_BITMAP" if "c \<in> set arrays" for c using that by (simp_all add: arrays_def)
  note s = union_span_ok [OF assms(1) a]
  let ?A = "\<Union> (heads_left ` set (map (key_union_span u) arrays))"
  have A: "?A = {x. ?lo \<le> x \<and> x \<le> ?hi \<and> (\<exists>c\<in>set arrays. x \<in> set (lows c))}" using s(2) by auto
  have parts: "set (ku_parts u) = set bits \<union> set arrays" by (auto simp: bits_def arrays_def)
  have "any_bit ?bitmaps x \<longleftrightarrow> (\<exists>c\<in>set bits. x \<in> set (lows c))" if "x \<le> ?hi" for x
    using b that u(2) by (auto simp: any_bit_def list_ex_iff get_bit_iff)
  then have "{x\<in>?A. \<not> any_bit ?bitmaps x} = ?A - ?B" unfolding A by auto
  moreover have "?B \<union> (?A - ?B) = union_set u" unfolding A union_set_def parts by blast
  moreover have "card (?B \<union> (?A - ?B)) = card ?B + card (?A - ?B)"
    using fin unfolding A by (intro card_Un_disjoint) (auto intro: finite_subset [of _ "{..?hi}"])
  ultimately have "n + card {x\<in>?A. \<not> any_bit ?bitmaps x} = card (union_set u)" unfolding n by simp
  moreover have "\<forall>s\<in>set (map (key_union_span u) arrays). heads_ok s" using s(1) by auto
  ultimately show ?thesis
    using count_heads_ok [of "map (key_union_span u) arrays" "any_bit ?bitmaps" n] n unfolding mixed
    by (cases "arrays = []") simp_all
qed

lemma key_union_cardinality_ok:
  assumes "key_union_ok u" shows "key_union_cardinality u = card (union_set u)"
proof (cases "length (ku_parts u) = 1")
  case True
  then obtain c where c: "ku_parts u = [c]" by (metis One_nat_def length_0_conv length_Suc_conv)
  have "set (lows_in (ku_low u) (ku_high u) c) = union_set u" by (auto simp: union_set_def c)
  then show ?thesis using True c range_cardinality_view [of c "ku_low u" "ku_high u"] assms
    by (simp add: key_union_cardinality_def key_union_ok_def del: set_lows_in)
next
  case False
  then show ?thesis using key_union_words_ok(1) [OF assms] mixed_union_ok [OF assms] merged_arrays_ok [OF assms]
    by (simp add: key_union_cardinality_def)
qed

end
