(* ===== verification/Roaring_Key_Page.thy ===== *)
theory Roaring_Key_Page
  imports Roaring_Key_Union
begin

unbundle bit_operations_syntax

text \<open>
  A part of the union of containers of one key (\<^verbatim>\<open>src/roaring_query.c\<close>, from \<^verbatim>\<open>words_emit\<close> to
  \<^verbatim>\<open>key_union_emit\<close>): a slice of the one array, the bits of words, or a merge of cursors that read
  each container in its own form, in either direction. Every routine gives what it writes and what is
  left of \<open>skip\<close>, the number of values to pass over first.
\<close>

definition ROARING_UNION_MERGE_UP_TO :: nat where "ROARING_UNION_MERGE_UP_TO = 1024"

section \<open>Listing\<close>

fun drop_bits :: "bool \<Rightarrow> nat \<Rightarrow> 64 word \<Rightarrow> 64 word" where
  "drop_bits descending 0 word = word"
| "drop_bits descending (Suc skip) word =
    drop_bits descending skip
      (if descending then word AND NOT (push_bit (63 - arnm_clzll word) 1) else word AND (word - 1))"

function emit_word_bits :: "bool \<Rightarrow> nat \<Rightarrow> nat \<Rightarrow> 64 word \<Rightarrow> nat \<Rightarrow> nat list" where
  "emit_word_bits descending key w word left =
    (if word \<noteq> 0 \<and> left \<noteq> 0 then
       let b = (if descending then 63 - arnm_clzll word else arnm_ctzll word)
       in arnm_roaring_value_of key (push_bit 6 w OR b) # emit_word_bits descending key w (word AND NOT (push_bit b 1)) (left - 1)
     else [])"
  by auto
termination
  by (relation "measure (\<lambda>(descending, key, w, word, left). left)") auto

declare emit_word_bits.simps [simp del]

fun emit_words_at :: "64 word list \<Rightarrow> nat \<Rightarrow> nat \<Rightarrow> nat \<Rightarrow> bool \<Rightarrow> nat list \<Rightarrow> nat \<Rightarrow> nat \<Rightarrow> nat list \<times> nat" where
  "emit_words_at words low high key descending [] skip left = ([], skip)"
| "emit_words_at words low high key descending (w # ws) skip left =
    (if left = 0 then ([], skip)
     else
       let word = clipped_word low high w (words ! (w - drop_bit 6 low)); bits = arnm_popcountll word
       in if skip \<ge> bits then emit_words_at words low high key descending ws (skip - bits) left
          else
            let written = emit_word_bits descending key w (drop_bits descending skip word) left
            in case emit_words_at words low high key descending ws 0 (left - length written) of
                 (others, skip) \<Rightarrow> (written @ others, skip))"

definition words_emit :: "64 word list \<Rightarrow> nat \<Rightarrow> nat \<Rightarrow> nat \<Rightarrow> nat \<Rightarrow> nat \<Rightarrow> bool \<Rightarrow> nat list \<times> nat" where
  "words_emit words low high key skip n descending =
    (let order = [drop_bit 6 low..<Suc (drop_bit 6 high)]
     in emit_words_at words low high key descending (if descending then rev order else order) skip n)"

record cursor =
  cu_wide :: "nat list option"
  cu_array :: "nat list option"
  cu_words :: "64 word list"
  cu_index :: nat
  cu_stop :: nat
  cu_word_index :: nat
  cu_word :: "64 word"
  cu_value :: nat
  cu_live :: bool

text \<open>Where the code tests for the last word with an equation, the test here is an inequality, which ends on any cursor.\<close>

function cursor_seek_word :: "cursor \<Rightarrow> nat \<Rightarrow> nat \<Rightarrow> bool \<Rightarrow> cursor" where
  "cursor_seek_word c low high descending =
    (if cu_word c \<noteq> 0 then
       let b = (if descending then 63 - arnm_clzll (cu_word c) else arnm_ctzll (cu_word c))
       in c\<lparr>cu_value := push_bit 6 (cu_word_index c) OR b\<rparr>
     else if (if descending then cu_word_index c \<le> drop_bit 6 low else cu_word_index c \<ge> drop_bit 6 high) then
       c\<lparr>cu_live := False\<rparr>
     else
       let i = (if descending then cu_word_index c - 1 else cu_word_index c + 1)
       in cursor_seek_word (c\<lparr>cu_word_index := i, cu_word := clipped_word low high i (cu_words c ! i)\<rparr>) low high descending)"
  by auto
termination
  by (relation "measure (\<lambda>(c, low, high, descending). if descending then cu_word_index c else drop_bit 6 high - cu_word_index c)") auto

declare cursor_seek_word.simps [simp del]

definition cursor_begin :: "roaring_container \<Rightarrow> nat \<Rightarrow> nat \<Rightarrow> bool \<Rightarrow> cursor" where
  "cursor_begin c low high descending =
    (let blank = \<lparr>cu_wide = None, cu_array = None, cu_words = [], cu_index = 0, cu_stop = 0, cu_word_index = 0, cu_word = 0,
           cu_value = 0, cu_live = True\<rparr>;
         positioned = (\<lambda>cur (b, e) at.
           let cur = cur\<lparr>cu_index := (if descending then e else b), cu_stop := (if descending then b else e)\<rparr>;
               cur = cur\<lparr>cu_live := (cu_index cur \<noteq> cu_stop cur)\<rparr>
           in if cu_live cur then cur\<lparr>cu_value := at (rc_array c ! (if descending then cu_index cur - 1 else cu_index cur))\<rparr> else cur)
     in case rc_kind c of
          ROARING_KIND_WIDE \<Rightarrow> positioned (blank\<lparr>cu_wide := Some (rc_array c)\<rparr>) (wide_reach (rc_key c) c low high) arnm_roaring_low_of
        | ARNM_ROARING_ARRAY \<Rightarrow> positioned (blank\<lparr>cu_array := Some (rc_array c)\<rparr>) (array_reach c low high) (\<lambda>x. x)
        | ARNM_ROARING_BITMAP \<Rightarrow>
            let i = (if descending then drop_bit 6 high else drop_bit 6 low)
            in cursor_seek_word
                 (blank\<lparr>cu_words := rc_words c, cu_word_index := i, cu_word := clipped_word low high i (rc_words c ! i)\<rparr>)
                 low high descending)"

definition cursor_next :: "cursor \<Rightarrow> nat \<Rightarrow> nat \<Rightarrow> bool \<Rightarrow> cursor" where
  "cursor_next c low high descending =
    (let moved = (\<lambda>xs at.
           let c = c\<lparr>cu_index := (if descending then cu_index c - 1 else cu_index c + 1)\<rparr>;
               c = c\<lparr>cu_live := (cu_index c \<noteq> cu_stop c)\<rparr>
           in if cu_live c then c\<lparr>cu_value := at (xs ! (if descending then cu_index c - 1 else cu_index c))\<rparr> else c)
     in case cu_wide c of
          Some xs \<Rightarrow> moved xs arnm_roaring_low_of
        | None \<Rightarrow>
            (case cu_array c of
               Some xs \<Rightarrow> moved xs (\<lambda>x. x)
             | None \<Rightarrow>
                 cursor_seek_word (c\<lparr>cu_word := cu_word c AND NOT (push_bit (cu_value c AND 63) 1)\<rparr>) low high descending))"

definition cursor_step :: "nat \<Rightarrow> nat \<Rightarrow> bool \<Rightarrow> cursor \<Rightarrow> cursor option" where
  "cursor_step low high descending c =
    (let c = cursor_next c low high descending in if cu_live c then Some c else None)"

definition merged_cursors_emit :: "key_union \<Rightarrow> nat \<Rightarrow> nat \<Rightarrow> bool \<Rightarrow> nat list \<times> nat" where
  "merged_cursors_emit u skip n descending =
    (let step = cursor_step (ku_low u) (ku_high u) descending;
         cursors = filter cu_live (map (\<lambda>c. cursor_begin c (ku_low u) (ku_high u) descending) (ku_parts u))
     in case merge_list descending cu_value step 1 cursors skip n of
          (picks, skip, cursors) \<Rightarrow>
            (case (if length cursors = 1 then run_list cu_value step (cursors ! 0) skip (n - length picks) else ([], skip)) of
               (others, skip) \<Rightarrow> (map (arnm_roaring_value_of (ku_key u)) (picks @ others), skip)))"

definition key_union_emit :: "key_union \<Rightarrow> nat \<Rightarrow> nat \<Rightarrow> bool \<Rightarrow> nat list \<times> nat" where
  "key_union_emit u skip n descending =
    (let c = ku_parts u ! 0; single = (length (ku_parts u) = 1); low = ku_low u; high = ku_high u
     in if single \<and> rc_kind c = ROARING_KIND_WIDE then
          slice_emit (\<lambda>v. v) (rc_array c) (wide_reach (ku_key u) c low high) skip n descending
        else if single \<and> rc_kind c = ARNM_ROARING_ARRAY then
          slice_emit (arnm_roaring_value_of (ku_key u)) (rc_array c) (array_reach c low high) skip n descending
        else if single then
          words_emit (span (drop_bit 6 low) (Suc (drop_bit 6 high)) (rc_words c)) low high (ku_key u) skip n descending
        else if (skip + n) * length (ku_parts u) \<le> ROARING_UNION_MERGE_UP_TO then merged_cursors_emit u skip n descending
        else words_emit (snd (key_union_words u)) low high (ku_key u) skip n descending)"

section \<open>The bits of words\<close>

definition turned :: "bool \<Rightarrow> 'a list \<Rightarrow> 'a list" where
  "turned descending xs = (if descending then rev xs else xs)"

lemma turned_simps [simp]: "length (turned d xs) = length xs" "set (turned d xs) = set xs" "turned d [] = []"
  "turned d (map f xs) = map f (turned d xs)"
  by (simp_all add: turned_def rev_map)

lemma turned_sorted: "turned d (sorted_list_of_set U) = listing d U"
  by (simp add: turned_def listing_def)

lemma next_bit:
  fixes x :: "64 word" and d :: bool
  assumes "x \<noteq> 0"
  defines "b \<equiv> (if d then 63 - arnm_clzll x else arnm_ctzll x)"
  shows "turned d (word_bits x) = b # turned d (word_bits (x AND NOT (push_bit b 1)))" "bit x b" "b < 64"
    "word_bits (if d then x AND NOT (push_bit (63 - arnm_clzll x) 1) else x AND (x - 1)) = word_bits (x AND NOT (push_bit b 1))"
proof -
  have clear: "word_bits (x AND NOT (push_bit b 1)) = filter (\<lambda>i. i \<noteq> b) (word_bits x)" if "b < 64" for b
  proof (rule ascending_eq)
    show "set (word_bits (x AND NOT (push_bit b 1))) = set (filter (\<lambda>i. i \<noteq> b) (word_bits x))"
      using bit_one_shifted [OF that] bit_less_64 [of x] by (auto simp: bit_and_iff bit_not_iff)
  qed (simp_all add: sorted_wrt_filter)
  have low: "word_bits x = arnm_ctzll x # word_bits (x AND (x - 1))" using ctzll_lowest [OF assms(1)] .
  have asc: "ascending (arnm_ctzll x # word_bits (x AND (x - 1)))" unfolding low [symmetric] by simp
  have pred: "word_bits (x AND (x - 1)) = filter (\<lambda>i. i \<noteq> arnm_ctzll x) (word_bits x)"
  proof -
    have "filter (\<lambda>i. i \<noteq> arnm_ctzll x) (word_bits (x AND (x - 1))) = word_bits (x AND (x - 1))"
      using asc by (intro filter_True) auto
    then show ?thesis unfolding low by simp
  qed
  have c: "arnm_ctzll x < 64" using ctz_less [OF assms(1)] .
  have "63 - arnm_clzll x < 64" by linarith
  then show b: "b < 64" using c by (simp add: b_def)
  show "bit x b" using low clz_top(1) [OF assms(1)] in_word_bits [of b x] by (cases d) (simp_all add: b_def)
  show "word_bits (if d then x AND NOT (push_bit (63 - arnm_clzll x) 1) else x AND (x - 1)) = word_bits (x AND NOT (push_bit b 1))"
    using pred clear [OF c] by (simp add: b_def)
  show "turned d (word_bits x) = b # turned d (word_bits (x AND NOT (push_bit b 1)))"
  proof (cases d)
    case True
    then show ?thesis using clz_highest [OF assms(1)] by (simp add: turned_def b_def)
  next
    case False
    then show ?thesis using low pred clear [OF c] by (simp add: turned_def b_def)
  qed
qed

lemma drop_bits_ok:
  "skip < length (word_bits x) \<Longrightarrow> turned d (word_bits (drop_bits d skip x)) = drop skip (turned d (word_bits x))"
proof (induction d skip x rule: drop_bits.induct)
  case (2 d skip x)
  have x: "x \<noteq> 0" using 2(2) by auto
  let ?y = "if d then x AND NOT (push_bit (63 - arnm_clzll x) 1) else x AND (x - 1)"
  note n = next_bit [OF x, of d]
  have t: "turned d (word_bits ?y) = drop 1 (turned d (word_bits x))" unfolding n(4) n(1) by simp
  have "length (word_bits ?y) = length (word_bits x) - 1" using arg_cong [OF t, of length] by simp
  then have "skip < length (word_bits ?y)" using 2(2) by simp
  from 2(1) [OF this] show ?case unfolding drop_bits.simps t by simp
qed simp

lemma emit_bits_ok:
  "emit_word_bits d key w x left = take left (map (\<lambda>b. arnm_roaring_value_of key (64 * w + b)) (turned d (word_bits x)))"
proof (induction d key w x left rule: emit_word_bits.induct)
  case (1 d key w x left)
  show ?case
  proof (cases "x \<noteq> 0 \<and> left \<noteq> 0")
    case True
    then have x: "x \<noteq> 0" by simp
    define b where "b = (if d then 63 - arnm_clzll x else arnm_ctzll x)"
    note n = next_bit [OF x, of d, folded b_def]
    obtain k where k: "left = Suc k" using True by (cases left) auto
    have "emit_word_bits d key w x left = arnm_roaring_value_of key (64 * w + b) # emit_word_bits d key w (x AND NOT (push_bit b 1)) k"
      using True n(3) k by (subst emit_word_bits.simps) (simp add: b_def Let_def or_sum)
    then show ?thesis using "1.IH" [OF True b_def] k unfolding n(1) by simp
  next
    case False
    then show ?thesis by (subst emit_word_bits.simps) auto
  qed
qed

lemma emit_words_at_ok:
  fixes lo hi key :: nat and ws :: "64 word list" and d :: bool
  defines "D \<equiv> (\<lambda>w. map (\<lambda>b. arnm_roaring_value_of key (64 * w + b)) (turned d (word_bits (clipped_word lo hi w (ws ! (w - drop_bit 6 lo))))))"
  shows "emit_words_at ws lo hi key d order skip left =
    (if left = 0 then ([], skip) else (take left (drop skip (concat (map D order))), skip - length (concat (map D order))))"
proof (induction order arbitrary: skip left)
  case (Cons w order)
  let ?x = "clipped_word lo hi w (ws ! (w - drop_bit 6 lo))"
  have n: "arnm_popcountll ?x = length (D w)" by (simp add: D_def length_word_bits)
  show ?case
  proof (cases "left = 0")
    case False
    show ?thesis
    proof (cases "skip \<ge> length (D w)")
      case True
      then show ?thesis using False Cons.IH [of "skip - length (D w)" left] n by (simp add: Let_def)
    next
      case sk: False
      have k: "skip < length (word_bits ?x)" using sk n by (simp add: length_word_bits)
      have e: "emit_word_bits d key w (drop_bits d skip ?x) left = take left (drop skip (D w))"
        unfolding emit_bits_ok drop_bits_ok [OF k] D_def by (simp add: drop_map)
      let ?m = "length (take left (drop skip (D w)))"
      obtain os s where r: "emit_words_at ws lo hi key d order 0 (left - ?m) = (os, s)" by fastforce
      have "s = 0 \<and> os = take (left - ?m) (concat (map D order))"
        using Cons.IH [of 0 "left - ?m"] r by (auto split: if_splits)
      moreover have "emit_words_at ws lo hi key d (w # order) skip left = (take left (drop skip (D w)) @ os, s)"
        using False sk n e r by (simp add: Let_def)
      ultimately show ?thesis using False sk page_parts [of left skip "D w" "concat (map D order)"] by simp
    qed
  qed simp
qed simp

lemma rev_concat_map: "rev (concat (map f xs)) = concat (map (\<lambda>x. rev (f x)) (rev xs))"
  by (induction xs) simp_all

lemma words_emit_ok:
  fixes lo hi key :: nat
  assumes "length ws = Suc (drop_bit 6 hi - drop_bit 6 lo)" "lo \<le> hi" "n \<noteq> 0"
    and "filter (within lo hi) (bits_from (drop_bit 6 lo) ws) = sorted_list_of_set U"
  shows "words_emit ws lo hi key skip n d = (map (arnm_roaring_value_of key) (take n (drop skip (listing d U))), skip - card U)"
proof -
  let ?order = "[drop_bit 6 lo..<Suc (drop_bit 6 hi)]"
  define W where "W = (\<lambda>w. map (\<lambda>b. 64 * w + b) (word_bits (clipped_word lo hi w (ws ! (w - drop_bit 6 lo)))))"
  have s: "concat (map W ?order) = sorted_list_of_set U" using clipped_bits [OF assms(1,2)] assms(4) by (simp add: W_def del: upt_Suc)
  have D: "(\<lambda>w. map (\<lambda>b. arnm_roaring_value_of key (64 * w + b)) (turned d (word_bits (clipped_word lo hi w (ws ! (w - drop_bit 6 lo)))))) =
      (\<lambda>w. map (arnm_roaring_value_of key) (turned d (W w)))"
    by (simp add: W_def fun_eq_iff comp_def)
  have "concat (map (\<lambda>w. map (arnm_roaring_value_of key) (turned d (W w))) (if d then rev ?order else ?order)) =
      map (arnm_roaring_value_of key) (concat (map (\<lambda>w. turned d (W w)) (if d then rev ?order else ?order)))"
    by (simp add: map_concat comp_def del: upt_Suc)
  also have "concat (map (\<lambda>w. turned d (W w)) (if d then rev ?order else ?order)) = turned d (concat (map W ?order))"
    by (cases d) (simp_all add: turned_def rev_concat_map del: upt_Suc)
  finally have C: "concat (map (\<lambda>w. map (arnm_roaring_value_of key) (turned d (W w))) (if d then rev ?order else ?order)) =
      map (arnm_roaring_value_of key) (listing d U)" unfolding s turned_sorted .
  show ?thesis
    using assms(3) unfolding words_emit_def Let_def emit_words_at_ok D C by (simp add: drop_map take_map)
qed

section \<open>Cursors as runs\<close>

text \<open>The low parts a cursor into an array or a view reads, and the part of them that is left.\<close>

definition cursor_list :: "cursor \<Rightarrow> nat list option" where
  "cursor_list c = (case cu_wide c of Some xs \<Rightarrow> Some (map arnm_roaring_low_of xs) | None \<Rightarrow> cu_array c)"

definition cursor_span :: "bool \<Rightarrow> nat list \<Rightarrow> cursor \<Rightarrow> sparse_span" where
  "cursor_span d xs c = \<lparr>ss_values = xs, ss_begin = (if d then cu_stop c else cu_index c), ss_end = (if d then cu_index c else cu_stop c)\<rparr>"

definition word_after :: "bool \<Rightarrow> nat \<Rightarrow> nat \<Rightarrow> nat \<Rightarrow> nat \<Rightarrow> bool" where
  "word_after d lo hi i w \<longleftrightarrow> (if d then drop_bit 6 lo \<le> w \<and> w < i else i < w \<and> w \<le> drop_bit 6 hi)"

definition word_cursor_left :: "nat \<Rightarrow> nat \<Rightarrow> bool \<Rightarrow> cursor \<Rightarrow> nat set" where
  "word_cursor_left lo hi d c =
    {64 * cu_word_index c + b | b. bit (cu_word c) b} \<union>
    {64 * w + b | w b. word_after d lo hi (cu_word_index c) w \<and> bit (clipped_word lo hi w (cu_words c ! w)) b}"

definition cursor_left :: "nat \<Rightarrow> nat \<Rightarrow> bool \<Rightarrow> cursor \<Rightarrow> nat set" where
  "cursor_left lo hi d c =
    (case cursor_list c of Some xs \<Rightarrow> span_set (cursor_span d xs c) | None \<Rightarrow> word_cursor_left lo hi d c)"

definition word_cursor_ok :: "bool \<Rightarrow> cursor \<Rightarrow> bool" where
  "word_cursor_ok d c \<longleftrightarrow> cu_word c \<noteq> 0 \<and>
    cu_value c = 64 * cu_word_index c + (if d then 63 - arnm_clzll (cu_word c) else arnm_ctzll (cu_word c))"

definition cursor_ok :: "nat \<Rightarrow> nat \<Rightarrow> bool \<Rightarrow> cursor \<Rightarrow> bool" where
  "cursor_ok lo hi d c \<longleftrightarrow> cu_live c \<and>
    (case cursor_list c of
       Some xs \<Rightarrow> span_ok (cursor_span d xs c) \<and> cu_value c = span_head d (cursor_span d xs c)
     | None \<Rightarrow> word_cursor_ok d c \<and> finite (word_cursor_left lo hi d c))"

text \<open>Seeking the next word that has a bit leaves the values as they are.\<close>

lemma word_next:
  fixes lo hi i :: nat and d :: bool
  assumes "\<not> (if d then i \<le> drop_bit 6 lo else i \<ge> drop_bit 6 hi)"
  defines "j \<equiv> (if d then i - 1 else i + 1)"
  shows "word_after d lo hi i w \<longleftrightarrow> w = j \<or> word_after d lo hi j w"
  using assms by (cases d) (auto simp: word_after_def)

lemma cursor_seek_ok:
  fixes lo hi :: nat and d :: bool
  assumes "cu_live c" "cu_wide c = None" "cu_array c = None"
  defines "s \<equiv> cursor_seek_word c lo hi d"
  shows "cu_wide s = None \<and> cu_array s = None \<and> (cu_live s \<longleftrightarrow> word_cursor_left lo hi d c \<noteq> {}) \<and>
    (cu_live s \<longrightarrow> word_cursor_ok d s \<and> word_cursor_left lo hi d s = word_cursor_left lo hi d c)"
  unfolding s_def using assms(1-3)
proof (induction c lo hi d rule: cursor_seek_word.induct)
  case (1 c lo hi d)
  show ?case
  proof (cases "cu_word c = 0")
    case False
    define b where "b = (if d then 63 - arnm_clzll (cu_word c) else arnm_ctzll (cu_word c))"
    note n = next_bit(2,3) [OF False, of d, folded b_def]
    have "cursor_seek_word c lo hi d = c\<lparr>cu_value := 64 * cu_word_index c + b\<rparr>"
      using False n(2) by (subst cursor_seek_word.simps) (simp add: b_def Let_def or_sum)
    moreover have "word_cursor_left lo hi d c \<noteq> {}" using n(1) by (auto simp: word_cursor_left_def)
    ultimately show ?thesis using "1.prems" False by (simp add: word_cursor_ok_def b_def word_cursor_left_def)
  next
    case z: True
    show ?thesis
    proof (cases "if d then cu_word_index c \<le> drop_bit 6 lo else cu_word_index c \<ge> drop_bit 6 hi")
      case True
      have "cursor_seek_word c lo hi d = c\<lparr>cu_live := False\<rparr>" using z True by (subst cursor_seek_word.simps) simp
      moreover have "word_cursor_left lo hi d c = {}" using z True by (auto simp: word_cursor_left_def word_after_def split: if_splits)
      ultimately show ?thesis using "1.prems" by simp
    next
      case False
      define i where "i = (if d then cu_word_index c - 1 else cu_word_index c + 1)"
      let ?c = "c\<lparr>cu_word_index := i, cu_word := clipped_word lo hi i (cu_words c ! i)\<rparr>"
      have "cursor_seek_word c lo hi d = cursor_seek_word ?c lo hi d"
        using z False by (subst cursor_seek_word.simps) (simp only: if_not_P not_not if_False refl i_def [symmetric] Let_def simp_thms)
      moreover have "word_cursor_left lo hi d ?c = word_cursor_left lo hi d c"
        using z word_next [OF False, folded i_def] by (auto simp: word_cursor_left_def)
      ultimately show ?thesis using "1.IH" [OF _ False i_def] z "1.prems" by simp
    qed
  qed
qed

lemma cursor_next_list:
  fixes lo hi :: nat and d :: bool and c :: cursor
  assumes "cursor_list c = Some xs"
  defines "n \<equiv> cursor_next c lo hi d" and "i \<equiv> (if d then cu_index c - 1 else cu_index c + 1)"
  shows "cursor_list n = Some xs \<and> cu_stop n = cu_stop c \<and> cu_index n = i \<and> (cu_live n \<longleftrightarrow> i \<noteq> cu_stop c) \<and>
    (cu_live n \<longrightarrow> (if d then i - 1 else i) < length xs \<longrightarrow> cu_value n = xs ! (if d then i - 1 else i))"
proof (cases "cu_wide c")
  case None
  then have "cu_array c = Some xs" using assms(1) by (simp add: cursor_list_def)
  then show ?thesis using None unfolding n_def cursor_next_def Let_def i_def [symmetric] by (simp add: cursor_list_def)
next
  case (Some ws)
  then have "xs = map arnm_roaring_low_of ws" using assms(1) by (simp add: cursor_list_def)
  then show ?thesis using Some unfolding n_def cursor_next_def Let_def i_def [symmetric] by (simp add: cursor_list_def)
qed

lemma cursor_runs: "merge_run d cu_value (cursor_step lo hi d) (cursor_ok lo hi d) (cursor_left lo hi d)"
proof
  have runs: "merge_run d (span_head d) (span_step d) span_ok span_set" by (rule span_runs)
  fix c assume c: "cursor_ok lo hi d c"
  have "(cu_value c \<in> cursor_left lo hi d c \<and> finite (cursor_left lo hi d c) \<and>
      (\<forall>y\<in>cursor_left lo hi d c. y \<noteq> cu_value c \<longrightarrow> value_before d (cu_value c) y)) \<and>
    (cursor_step lo hi d c = None \<longrightarrow> cursor_left lo hi d c = {cu_value c}) \<and>
    (\<forall>c'. cursor_step lo hi d c = Some c' \<longrightarrow> cursor_ok lo hi d c' \<and> cursor_left lo hi d c' = cursor_left lo hi d c - {cu_value c})"
  proof (cases "cursor_list c")
    case (Some xs)
    let ?s = "cursor_span d xs c"
    have s: "span_ok ?s" "cu_value c = span_head d ?s" "cursor_left lo hi d c = span_set ?s"
      using c Some by (simp_all add: cursor_ok_def cursor_left_def)
    let ?n = "cursor_next c lo hi d"
    define i where "i = (if d then cu_index c - 1 else cu_index c + 1)"
    have n: "cursor_list ?n = Some xs" "cu_stop ?n = cu_stop c" "cu_index ?n = i" "cu_live ?n \<longleftrightarrow> i \<noteq> cu_stop c"
      "cu_live ?n \<Longrightarrow> (if d then i - 1 else i) < length xs \<Longrightarrow> cu_value ?n = xs ! (if d then i - 1 else i)"
      using cursor_next_list [OF Some, of lo hi d, folded i_def] by blast+
    have cs: "cursor_span d xs ?n = (if d then ?s\<lparr>ss_end := ss_end ?s - 1\<rparr> else ?s\<lparr>ss_begin := ss_begin ?s + 1\<rparr>)"
      unfolding cursor_span_def n(2,3) i_def by (cases d) simp_all
    have step: "span_step d ?s = (if cu_live ?n then Some (cursor_span d xs ?n) else None)"
    proof -
      have "ss_begin (cursor_span d xs ?n) = ss_end (cursor_span d xs ?n) \<longleftrightarrow> i = cu_stop c"
        unfolding cursor_span_def n(2,3) by auto
      then show ?thesis unfolding span_step_def Let_def cs [symmetric] n(4) by simp
    qed
    have cstep: "cursor_step lo hi d c = (if cu_live ?n then Some ?n else None)" by (simp add: cursor_step_def Let_def)
    have "cursor_ok lo hi d ?n \<and> cursor_left lo hi d ?n = span_set ?s - {span_head d ?s}" if live: "cu_live ?n"
    proof -
      have o: "span_ok (cursor_span d xs ?n)" "span_set (cursor_span d xs ?n) = span_set ?s - {span_head d ?s}"
        using merge_run.step_some [OF runs s(1), of "cursor_span d xs ?n"] step live by simp_all
      have "(if d then i - 1 else i) < length xs" using o(1) [unfolded span_ok_def cursor_span_def n(2,3)] by (auto split: if_splits)
      from n(5) [OF live this] have "cu_value ?n = span_head d (cursor_span d xs ?n)" unfolding span_head_def cursor_span_def n(2,3) by simp
      then show ?thesis using o live n(1) by (simp add: cursor_ok_def cursor_left_def)
    qed
    moreover have "span_set ?s = {span_head d ?s}" if "\<not> cu_live ?n"
      using merge_run.step_none [OF runs s(1)] step that by simp
    ultimately show ?thesis using merge_run.head_first [OF runs s(1)] unfolding s(2,3) cstep by simp
  next
    case None
    then have arr: "cu_wide c = None" "cu_array c = None" by (auto simp: cursor_list_def split: option.splits)
    have ok: "cu_live c" "cu_word c \<noteq> 0" "finite (word_cursor_left lo hi d c)"
      "cu_value c = 64 * cu_word_index c + (if d then 63 - arnm_clzll (cu_word c) else arnm_ctzll (cu_word c))"
      using c None by (simp_all add: cursor_ok_def word_cursor_ok_def)
    define b where "b = (if d then 63 - arnm_clzll (cu_word c) else arnm_ctzll (cu_word c))"
    note n = next_bit [OF ok(2), of d, folded b_def]
    have v: "cu_value c = 64 * cu_word_index c + b" using ok(4) by (simp add: b_def)
    let ?W = "word_cursor_left lo hi d c"
    let ?c = "c\<lparr>cu_word := cu_word c AND NOT (push_bit b 1)\<rparr>"
    have left: "cursor_left lo hi d c = ?W" using None by (simp add: cursor_left_def)
    have others: "value_before d (cu_value c) y" if y: "y \<in> ?W" "y \<noteq> cu_value c" for y
    proof -
      have "(\<exists>i. bit (cu_word c) i \<and> y = 64 * cu_word_index c + i) \<or>
          (\<exists>w i. word_after d lo hi (cu_word_index c) w \<and> i < 64 \<and> y = 64 * w + i)"
        using y(1) by (auto simp: word_cursor_left_def dest: bit_less_64)
      then show ?thesis
      proof (elim disjE exE conjE)
        fix i assume i: "bit (cu_word c) i" "y = 64 * cu_word_index c + i"
        have "i \<noteq> b" using y(2) i(2) v by simp
        moreover have "if d then i \<le> b else b \<le> i"
        proof (cases d)
          case True
          then obtain r where "word_bits (cu_word c) = r @ [b]" using n(1) by (auto simp: turned_def rev_eq_Cons_iff)
          then have "ascending (r @ [b])" "i \<in> set (r @ [b])" using word_bits_ascending [of "cu_word c"] i(1) in_word_bits [of i "cu_word c"] by simp_all
          then show ?thesis using True by (auto simp: sorted_wrt_append less_imp_le)
        next
          case False
          then obtain r where "word_bits (cu_word c) = b # r" using n(1) by (auto simp: turned_def)
          then have "ascending (b # r)" "i \<in> set (b # r)" using word_bits_ascending [of "cu_word c"] i(1) in_word_bits [of i "cu_word c"] by simp_all
          then show ?thesis using False by (auto simp: less_imp_le)
        qed
        ultimately show ?thesis using v i(2) by (auto simp: value_before_def split: if_splits)
      next
        fix w i assume "word_after d lo hi (cu_word_index c) w" "i < 64" "y = 64 * w + i"
        then show ?thesis using v n(3) by (auto simp: value_before_def word_after_def split: if_splits)
      qed
    qed
    have inW: "cu_value c \<in> ?W" using v n(2) by (auto simp: word_cursor_left_def)
    have "v' \<in> word_cursor_left lo hi d ?c \<longleftrightarrow> v' \<in> ?W \<and> v' \<noteq> cu_value c" for v'
    proof -
      have bits: "bit (cu_word c AND NOT (push_bit b 1)) i \<longleftrightarrow> bit (cu_word c) i \<and> i \<noteq> b" for i
        using bit_one_shifted [OF n(3), of i] bit_less_64 [of "cu_word c" i] by (auto simp: bit_and_iff bit_not_iff)
      have "64 * w + i \<noteq> 64 * cu_word_index c + b" if "word_after d lo hi (cu_word_index c) w" "bit (clipped_word lo hi w x) i" for w i x
        using that(1) bit_less_64 [OF that(2)] n(3) by (auto simp: word_after_def split: if_splits)
      then show ?thesis unfolding v word_cursor_left_def by (auto simp: bits simp del: push_bit_of_1)
    qed
    then have W: "word_cursor_left lo hi d ?c = ?W - {cu_value c}" by blast
    have "cu_value c AND 63 = b" using n(3) by (simp add: and_63_mod v)
    then have nx: "cursor_next c lo hi d = cursor_seek_word ?c lo hi d" using arr by (simp add: cursor_next_def)
    have k: "cu_live ?c" "cu_wide ?c = None" "cu_array ?c = None" using ok(1) arr by simp_all
    note sk = cursor_seek_ok [OF k, of lo hi d, folded nx, unfolded W]
    have "cursor_list (cursor_next c lo hi d) = None" using sk by (simp add: cursor_list_def)
    then show ?thesis using sk inW others ok(3) unfolding left
      by (auto simp: cursor_step_def Let_def cursor_ok_def cursor_left_def split: if_splits)
  qed
  then show "cu_value c \<in> cursor_left lo hi d c \<and> finite (cursor_left lo hi d c) \<and>
      (\<forall>y\<in>cursor_left lo hi d c. y \<noteq> cu_value c \<longrightarrow> value_before d (cu_value c) y)"
    "cursor_step lo hi d c = None \<Longrightarrow> cursor_left lo hi d c = {cu_value c}"
    "\<And>c'. cursor_step lo hi d c = Some c' \<Longrightarrow> cursor_ok lo hi d c' \<and> cursor_left lo hi d c' = cursor_left lo hi d c - {cu_value c}"
    by blast+
qed

interpretation cursors: merge_run d cu_value "cursor_step lo hi d" "cursor_ok lo hi d" "cursor_left lo hi d" for d lo hi
  by (rule cursor_runs)

text \<open>A cursor begins with what of its container lies in the range.\<close>

lemma placed_ok:
  fixes b e :: nat and d :: bool
  assumes "b \<le> e" "e \<le> length xs" "ascending xs" "length xs \<le> UINT32_MAX" "cursor_list k = Some xs"
    and "cu_index k = (if d then e else b)" "cu_stop k = (if d then b else e)" "cu_live k \<longleftrightarrow> cu_index k \<noteq> cu_stop k"
    and "cu_live k \<Longrightarrow> cu_value k = xs ! (if d then cu_index k - 1 else cu_index k)"
  shows "(cu_live k \<longrightarrow> cursor_ok lo hi d k \<and> cursor_left lo hi d k = set (span b e xs)) \<and> (\<not> cu_live k \<longrightarrow> set (span b e xs) = {})"
proof -
  have s: "cursor_span d xs k = \<lparr>ss_values = xs, ss_begin = b, ss_end = e\<rparr>" using assms(6,7) by (simp add: cursor_span_def)
  have live: "cu_live k \<longleftrightarrow> b \<noteq> e" using assms(6-8) by auto
  have "cu_value k = span_head d (cursor_span d xs k)" if "cu_live k"
    using assms(9) [OF that] assms(6) unfolding s span_head_def by simp
  then show ?thesis using assms(1-5) live by (auto simp: cursor_ok_def cursor_left_def s span_ok_def span_set_def span_def)
qed

lemma first_words:
  fixes lo hi :: nat and d :: bool
  assumes "lo \<le> hi" "hi < 65536" "length ws = 1024"
  defines "i \<equiv> (if d then drop_bit 6 hi else drop_bit 6 lo)"
  shows "{64 * i + b | b. bit (clipped_word lo hi i (ws ! i)) b} \<union>
      {64 * w + b | w b. word_after d lo hi i w \<and> bit (clipped_word lo hi w (ws ! w)) b} =
    {x. lo \<le> x \<and> x \<le> hi \<and> x \<in> set (bits_from 0 ws)}" (is "?L = ?R")
proof -
  have le: "drop_bit 6 lo \<le> drop_bit 6 hi" using assms(1) by (simp add: drop_6 div_le_mono)
  have w: "w = i \<or> word_after d lo hi i w \<longleftrightarrow> drop_bit 6 lo \<le> w \<and> w \<le> drop_bit 6 hi" for w
    using le by (auto simp: i_def word_after_def)
  have "?L = {64 * w + b | w b. (drop_bit 6 lo \<le> w \<and> w \<le> drop_bit 6 hi) \<and> bit (clipped_word lo hi w (ws ! w)) b}"
    unfolding w [symmetric] by blast
  also have "\<dots> = ?R"
  proof (intro equalityI subsetI)
    fix x assume "x \<in> {64 * w + b | w b. (drop_bit 6 lo \<le> w \<and> w \<le> drop_bit 6 hi) \<and> bit (clipped_word lo hi w (ws ! w)) b}"
    then obtain w b where x: "drop_bit 6 lo \<le> w" "w \<le> drop_bit 6 hi" "bit (clipped_word lo hi w (ws ! w)) b" "x = 64 * w + b" by blast
    have b: "b < 64" using bit_less_64 [OF x(3)] .
    have "w < 1024" using x(2) assms(2) by (simp add: drop_6)
    then show "x \<in> ?R" using bit_clipped [OF x(1,2) b, of "ws ! w"] x(3,4) b assms(3) by (simp add: in_bits_from)
  next
    fix x assume x: "x \<in> ?R"
    then have r: "drop_bit 6 lo \<le> x div 64" "x div 64 \<le> drop_bit 6 hi" "bit (ws ! (x div 64)) (x mod 64)"
      by (auto simp: drop_6 div_le_mono in_bits_from)
    have "bit (clipped_word lo hi (x div 64) (ws ! (x div 64))) (x mod 64)" using bit_clipped [OF r(1,2), of "x mod 64" "ws ! (x div 64)"] x r(3) by simp
    then show "x \<in> {64 * w + b | w b. (drop_bit 6 lo \<le> w \<and> w \<le> drop_bit 6 hi) \<and> bit (clipped_word lo hi w (ws ! w)) b}"
      using r(1,2) by (intro CollectI exI [of _ "x div 64"] exI [of _ "x mod 64"]) simp
  qed
  finally show ?thesis .
qed

lemma cursor_begin_ok:
  fixes d :: bool
  assumes "view_ok c" "lo \<le> hi" "hi < 65536"
  defines "k \<equiv> cursor_begin c lo hi d"
  shows "(cu_live k \<longrightarrow> cursor_ok lo hi d k \<and> cursor_left lo hi d k = set (lows_in lo hi c)) \<and>
    (\<not> cu_live k \<longrightarrow> set (lows_in lo hi c) = {})"
proof -
  consider "rc_kind c = ARNM_ROARING_ARRAY" | "rc_kind c = ROARING_KIND_WIDE" | "rc_kind c = ARNM_ROARING_BITMAP"
    by (cases "rc_kind c") auto
  then show ?thesis
  proof cases
    case 1
    obtain b e where r: "array_reach c lo hi = (b, e)" by fastforce
    note a = array_reach_ok [OF assms(1) 1 assms(2) r]
    have x: "ascending (rc_array c)" "length (rc_array c) \<le> UINT32_MAX"
      using assms(1) 1 by (simp_all add: view_ok_def ARNM_ROARING_ARRAY_MAX_def UINT32_MAX_def)
    have k: "cursor_list k = Some (rc_array c)" "cu_index k = (if d then e else b)" "cu_stop k = (if d then b else e)"
      "cu_live k \<longleftrightarrow> cu_index k \<noteq> cu_stop k"
      using 1 by (simp_all add: k_def cursor_begin_def r Let_def cursor_list_def)
    have v: "cu_value k = rc_array c ! (if d then cu_index k - 1 else cu_index k)" if "cu_live k"
    proof -
      have "b \<noteq> e" using that k(2-4) by (cases d) auto
      then show ?thesis using 1 by (simp add: k_def cursor_begin_def r Let_def)
    qed
    show ?thesis using placed_ok [OF a(2,3) x k v, of lo hi] unfolding a(1) by simp
  next
    case 2
    obtain b e where r: "wide_reach (rc_key c) c lo hi = (b, e)" by fastforce
    note a = wide_reach_ok [OF assms(1) 2 assms(2,3) r]
    let ?xs = "map arnm_roaring_low_of (rc_array c)"
    have l: "lows c = ?xs" using 2 by (simp add: lows_def)
    have x: "ascending ?xs" "length ?xs \<le> UINT32_MAX" "e \<le> length ?xs"
      using view_lows(1) [OF assms(1)] a(3) assms(1) 2 by (simp_all add: l view_ok_def ARNM_ROARING_SPARSE_MAX_def UINT32_MAX_def)
    have k: "cursor_list k = Some ?xs" "cu_index k = (if d then e else b)" "cu_stop k = (if d then b else e)"
      "cu_live k \<longleftrightarrow> cu_index k \<noteq> cu_stop k"
      using 2 by (simp_all add: k_def cursor_begin_def r Let_def cursor_list_def)
    have v: "cu_value k = ?xs ! (if d then cu_index k - 1 else cu_index k)" if "cu_live k"
    proof -
      have "b < e" using that k(2-4) a(2) by (cases d) auto
      then have "(if d then e - 1 else b) < length (rc_array c)" using a(3) by (cases d) (simp_all, linarith?)
      then have "arnm_roaring_low_of (rc_array c ! (if d then e - 1 else b)) = ?xs ! (if d then e - 1 else b)" by simp
      then show ?thesis using that 2 by (auto simp: k_def cursor_begin_def r Let_def split: if_splits)
    qed
    have "span b e ?xs = lows_in lo hi c" unfolding a(1) [symmetric] by (simp add: span_def take_map drop_map)
    then show ?thesis using placed_ok [OF a(2) x(3,1,2) k v, of lo hi] by simp
  next
    case 3
    have n: "length (rc_words c) = 1024" "lows c = bits_from 0 (rc_words c)"
      using assms(1) 3 by (simp_all add: view_ok_def lows_def ARNM_ROARING_BITMAP_WORDS_def)
    define i where "i = (if d then drop_bit 6 hi else drop_bit 6 lo)"
    define z where "z = \<lparr>cu_wide = None, cu_array = None, cu_words = rc_words c, cu_index = 0, cu_stop = 0, cu_word_index = i,
      cu_word = clipped_word lo hi i (rc_words c ! i), cu_value = 0, cu_live = True\<rparr>"
    have k: "k = cursor_seek_word z lo hi d" using 3 by (simp add: k_def cursor_begin_def z_def i_def Let_def)
    have zz: "cu_live z" "cu_wide z = None" "cu_array z = None" by (simp_all add: z_def)
    have W: "word_cursor_left lo hi d z = set (lows_in lo hi c)"
      using first_words [OF assms(2,3) n(1), of d] by (simp add: word_cursor_left_def z_def i_def n(2))
    note s = cursor_seek_ok [OF zz, of lo hi d, folded k, unfolded W]
    then have "cursor_list k = None" by (simp add: cursor_list_def)
    then show ?thesis using s zz(1) by (auto simp: cursor_ok_def cursor_left_def simp del: set_lows_in)
  qed
qed

lemma merged_cursors_ok:
  assumes "key_union_ok u" "n \<noteq> 0"
  shows "merged_cursors_emit u skip n d =
    (map (arnm_roaring_value_of (ku_key u)) (take n (drop skip (listing d (union_set u)))), skip - card (union_set u))"
proof -
  let ?lo = "ku_low u" and ?hi = "ku_high u"
  let ?step = "cursor_step ?lo ?hi d"
  have u: "?lo \<le> ?hi" "?hi < 65536" "\<forall>c\<in>set (ku_parts u). view_ok c" using assms by (simp_all add: key_union_ok_def)
  define cs where "cs = filter cu_live (map (\<lambda>c. cursor_begin c ?lo ?hi d) (ku_parts u))"
  have b: "(cu_live (cursor_begin c ?lo ?hi d) \<longrightarrow> cursor_ok ?lo ?hi d (cursor_begin c ?lo ?hi d) \<and>
      cursor_left ?lo ?hi d (cursor_begin c ?lo ?hi d) = set (lows_in ?lo ?hi c)) \<and>
    (\<not> cu_live (cursor_begin c ?lo ?hi d) \<longrightarrow> set (lows_in ?lo ?hi c) = {})" if "c \<in> set (ku_parts u)" for c
    using cursor_begin_ok [of c ?lo ?hi d] u that by blast
  have good: "\<forall>k\<in>set cs. cursor_ok ?lo ?hi d k" using b by (auto simp: cs_def)
  have "\<Union> (cursor_left ?lo ?hi d ` set cs) = (\<Union>c\<in>set (ku_parts u). set (lows_in ?lo ?hi c))"
    using b unfolding cs_def set_filter set_map by fastforce
  then have U: "\<Union> (cursor_left ?lo ?hi d ` set cs) = union_set u" by (auto simp: union_set_def)
  obtain picks sk ks where m: "merge_list d cu_value ?step 1 cs skip n = (picks, sk, ks)" by (rule prod_cases3)
  obtain p where p: "listing d (union_set u) = p @ listing d (\<Union> (cursor_left ?lo ?hi d ` set ks))" "picks = drop skip p"
    "sk = skip - length p" "length picks \<le> n" "length picks = n \<or> length ks \<le> 1" "\<forall>k\<in>set ks. cursor_ok ?lo ?hi d k"
    using cursors.merge_list_ok [OF good m] unfolding U by blast
  let ?L = "listing d (union_set u)"
  obtain os s where o: "(if length ks = 1 then run_list cu_value ?step (ks ! 0) sk (n - length picks) else ([], sk)) = (os, s)" by fastforce
  have "picks @ os = take n (drop skip ?L) \<and> s = skip - length ?L"
  proof (cases "length ks = 1")
    case True
    then obtain k where k: "ks = [k]" by (metis One_nat_def length_0_conv length_Suc_conv)
    have "run_list cu_value ?step k sk (n - length picks) = (os, s)" using o k by simp
    from cursors.run_list_ok [OF _ this] p(6) k
    have r: "os = take (n - length picks) (drop sk (listing d (cursor_left ?lo ?hi d k)))"
      "n - length picks \<noteq> 0 \<longrightarrow> s = sk - card (cursor_left ?lo ?hi d k)" by auto
    have l: "?L = p @ listing d (cursor_left ?lo ?hi d k)" using p(1) k by simp
    have "length picks = n \<Longrightarrow> s = 0"
    proof -
      assume e: "length picks = n"
      then have "length p > skip" using assms(2) p(2) by simp
      then have "sk = 0" using p(3) by simp
      then show "s = 0" using \<open>run_list cu_value ?step k sk (n - length picks) = (os, s)\<close> e by (simp add: run_list.simps)
    qed
    moreover have "skip - length ?L = 0" if "length picks = n" using that assms(2) p(2) l by simp
    ultimately have "s = skip - length ?L" using r(2) l p(3,4) by (cases "length picks = n") auto
    moreover have "picks @ os = take n (drop skip ?L)"
    proof -
      have t: "take n (drop skip p) = drop skip p" using p(2,4) by simp
      show ?thesis unfolding l page_parts t r(1) p(3) unfolding p(2) by (rule refl)
    qed
    ultimately show ?thesis by simp
  next
    case False
    then have os: "os = []" "s = sk" using o by simp_all
    show ?thesis
    proof (cases "length picks = n")
      case True
      then have "length p > skip" using assms(2) p(2) by simp
      then show ?thesis using True p(1-3) os by simp
    next
      case n: False
      then have "ks = []" using p(5) False by (cases ks) auto
      then show ?thesis using p(1-4) os by simp
    qed
  qed
  then have e: "picks @ os = take n (drop skip ?L)" "s = skip - length ?L" by blast+
  show ?thesis unfolding merged_cursors_emit_def Let_def cs_def [symmetric] m prod.case o e by simp
qed

lemma key_union_emit_ok:
  assumes "key_union_ok u" "n \<noteq> 0"
  shows "key_union_emit u skip n d =
    (map (arnm_roaring_value_of (ku_key u)) (take n (drop skip (listing d (union_set u)))), skip - card (union_set u))"
proof -
  let ?lo = "ku_low u" and ?hi = "ku_high u" and ?c = "ku_parts u ! 0"
  have u: "?lo \<le> ?hi" "?hi < 65536" "\<forall>c\<in>set (ku_parts u). view_ok c \<and> rc_key c = ku_key u" using assms by (simp_all add: key_union_ok_def)
  show ?thesis
  proof (cases "length (ku_parts u) = 1")
    case True
    then obtain c where c: "ku_parts u = [c]" by (metis One_nat_def length_0_conv length_Suc_conv)
    have v: "view_ok c" "rc_key c = ku_key u" using u(3) c by simp_all
    have U: "union_set u = set (lows_in ?lo ?hi c)" by (auto simp: union_set_def c)
    have l: "listing d (union_set u) = turned d (lows_in ?lo ?hi c)" "card (union_set u) = length (lows_in ?lo ?hi c)"
      using listing_ascending [OF lows_in_ascending [OF v(1)], of d ?lo ?hi] length_listing [of d "union_set u"]
      unfolding U turned_def by (simp_all add: distinct_card strict_sorted_iff del: set_lows_in length_listing split: if_splits)
    consider "rc_kind c = ARNM_ROARING_ARRAY" | "rc_kind c = ROARING_KIND_WIDE" | "rc_kind c = ARNM_ROARING_BITMAP"
      by (cases "rc_kind c") auto
    then show ?thesis
    proof cases
      case 1
      obtain b e where r: "array_reach c ?lo ?hi = (b, e)" by fastforce
      note a = array_reach_ok [OF v(1) 1 u(1) r]
      show ?thesis using 1 c slice_emit_ok [OF a(2,3)] l unfolding a(1) by (simp add: key_union_emit_def Let_def r turned_def)
    next
      case 2
      obtain b e where r: "wide_reach (ku_key u) c ?lo ?hi = (b, e)" by fastforce
      note a = wide_reach_ok [OF v(1) 2 u(1,2) r [folded v(2)]]
      have "slice_emit (\<lambda>v. v) (rc_array c) (b, e) skip n d =
          (take n (drop skip (turned d (map (arnm_roaring_value_of (ku_key u)) (lows_in ?lo ?hi c)))), skip - length (lows_in ?lo ?hi c))"
        using slice_emit_ok [OF a(2,3), of "\<lambda>v. v" skip n d] unfolding a(4) v(2) turned_def by simp
      then show ?thesis using 2 c l by (simp add: key_union_emit_def Let_def r take_map drop_map)
    next
      case 3
      let ?f = "drop_bit 6 ?lo" and ?l = "drop_bit 6 ?hi"
      have d: "?f \<le> ?l" "?l < 1024" using words_div [OF u(1,2)] by simp_all
      have n: "length (rc_words c) = 1024" using v(1) 3 by (simp add: view_ok_def ARNM_ROARING_BITMAP_WORDS_def)
      let ?ws = "span ?f (Suc ?l) (rc_words c)"
      have m: "?ws = map (\<lambda>w. rc_words c ! w) [?f..<Suc ?l]"
        using d n by (intro nth_equalityI) (simp_all add: span_def del: upt_Suc)
      have "shows_in ?lo ?hi ?ws (\<lambda>x. x \<in> set (lows c))" unfolding m using shows_bitmap [OF v(1) 3 u(1,2)] .
      from this shows_bits [OF this u(1)] have "length ?ws = Suc (?l - ?f)"
        "filter (within ?lo ?hi) (bits_from ?f ?ws) = sorted_list_of_set (union_set u)" by (simp_all add: shows_in_def U)
      from words_emit_ok [OF this(1) u(1) assms(2) this(2)] show ?thesis
        using 3 c by (simp add: key_union_emit_def Let_def)
    qed
  next
    case False
    note w = key_union_words_ok [OF assms(1)]
    show ?thesis using False merged_cursors_ok [OF assms] words_emit_ok [OF w(2) u(1) assms(2) w(3)]
      by (simp add: key_union_emit_def Let_def)
  qed
qed

end
