(* ===== verification/Roaring_Query_Key.thy ===== *)
theory Roaring_Query_Key
  imports Roaring_Key_Page
begin

unbundle bit_operations_syntax

text \<open>
  Answering one key of a query (\<^verbatim>\<open>src/roaring_query.c\<close>, from \<^verbatim>\<open>probe_of\<close> to
  \<^verbatim>\<open>query_key_page\<close>): the containers the key has in the three lists are either unions alone, or the values
  of the smallest of \<open>all\<close> are looked up in the others, or the words of all of them are combined. Whichever
  way is taken, the answer is that of \<open>key_set\<close>, the low parts that match.
\<close>

record query_key =
  qk_all :: "roaring_container list"
  qk_any :: "roaring_container list"
  qk_none :: "roaring_container list"
  qk_key :: nat
  qk_low :: nat
  qk_high :: nat

section \<open>Looking values up\<close>

record part_probe =
  pp_words :: "64 word list option"
  pp_array :: "nat list option"
  pp_wide :: "nat list option"
  pp_count :: nat
  pp_key :: nat

definition probe_of :: "roaring_container \<Rightarrow> part_probe" where
  "probe_of c =
    (let probe = \<lparr>pp_words = None, pp_array = None, pp_wide = None, pp_count = rc_cardinality c, pp_key = rc_key c\<rparr>
     in case rc_kind c of
          ARNM_ROARING_BITMAP \<Rightarrow> probe\<lparr>pp_words := Some (rc_words c)\<rparr>
        | ROARING_KIND_WIDE \<Rightarrow> probe\<lparr>pp_wide := Some (rc_array c)\<rparr>
        | ARNM_ROARING_ARRAY \<Rightarrow> probe\<lparr>pp_array := Some (rc_array c)\<rparr>)"

definition probe_has :: "part_probe \<Rightarrow> nat \<Rightarrow> bool" where
  "probe_has p low =
    (case pp_words p of
       Some words \<Rightarrow> get_bit words low
     | None \<Rightarrow>
       (case pp_wide p of
          Some wide \<Rightarrow>
            let v = arnm_roaring_value_of (pp_key p) low; position = arnm_roaring_lower_bound32 wide (pp_count p) v
            in position < pp_count p \<and> wide ! position = v
        | None \<Rightarrow>
            let xs = the (pp_array p); position = arnm_roaring_lower_bound16 xs (pp_count p) low
            in position < pp_count p \<and> xs ! position = low))"

record key_probes =
  kp_all :: "part_probe list"
  kp_any :: "part_probe list"
  kp_none :: "part_probe list"

definition key_probes_of :: "query_key \<Rightarrow> nat \<Rightarrow> key_probes" where
  "key_probes_of key driver =
    \<lparr>kp_all = map (\<lambda>i. probe_of (qk_all key ! i)) (filter (\<lambda>i. i \<noteq> driver) [0..<length (qk_all key)]),
     kp_any = map probe_of (qk_any key), kp_none = map probe_of (qk_none key)\<rparr>"

definition probes_match :: "key_probes \<Rightarrow> nat \<Rightarrow> bool" where
  "probes_match probes low \<longleftrightarrow>
    list_all (\<lambda>p. probe_has p low) (kp_all probes) \<and>
    (kp_any probes \<noteq> [] \<longrightarrow> list_ex (\<lambda>p. probe_has p low) (kp_any probes)) \<and>
    \<not> list_ex (\<lambda>p. probe_has p low) (kp_none probes)"

record driver_slice =
  ds_array :: "nat list option"
  ds_wide :: "nat list"
  ds_begin :: nat
  ds_end :: nat

definition driver_at :: "driver_slice \<Rightarrow> nat \<Rightarrow> nat" where
  "driver_at s i = (case ds_array s of Some xs \<Rightarrow> xs ! i | None \<Rightarrow> arnm_roaring_low_of (ds_wide s ! i))"

definition driver_slice_of :: "roaring_container \<Rightarrow> nat \<Rightarrow> nat \<Rightarrow> driver_slice" where
  "driver_slice_of c low high =
    (if rc_kind c = ROARING_KIND_WIDE then
       (case wide_reach (rc_key c) c low high of
          (b, e) \<Rightarrow> \<lparr>ds_array = None, ds_wide = rc_array c, ds_begin = b, ds_end = e\<rparr>)
     else
       (case array_reach c low high of
          (b, e) \<Rightarrow> \<lparr>ds_array = Some (rc_array c), ds_wide = [], ds_begin = b, ds_end = e\<rparr>))"

definition probes_count_slice :: "key_probes \<Rightarrow> driver_slice \<Rightarrow> nat" where
  "probes_count_slice probes s =
    (if length (kp_all probes) = 1 \<and> pp_words (kp_all probes ! 0) \<noteq> None \<and> kp_any probes = [] \<and> kp_none probes = [] then
       let words = the (pp_words (kp_all probes ! 0))
       in (\<Sum>i\<leftarrow>[ds_begin s..<ds_end s]. if get_bit words (driver_at s i) then 1 else 0)
     else (\<Sum>i\<leftarrow>[ds_begin s..<ds_end s]. if probes_match probes (driver_at s i) then 1 else 0))"

text \<open>The loop over the slice, \<open>indexes\<close> in the order of the page.\<close>

fun probes_page_at :: "key_probes \<Rightarrow> driver_slice \<Rightarrow> nat \<Rightarrow> nat list \<Rightarrow> nat \<Rightarrow> nat \<Rightarrow> nat list \<times> nat" where
  "probes_page_at probes s key [] skip left = ([], skip)"
| "probes_page_at probes s key (i # is) skip left =
    (if left = 0 then ([], skip)
     else
       let low = driver_at s i
       in if \<not> probes_match probes low then probes_page_at probes s key is skip left
          else if skip \<noteq> 0 then probes_page_at probes s key is (skip - 1) left
          else (case probes_page_at probes s key is 0 (left - 1) of
                  (written, r) \<Rightarrow> (arnm_roaring_value_of key low # written, r)))"

definition probes_page_slice :: "key_probes \<Rightarrow> driver_slice \<Rightarrow> nat \<Rightarrow> nat \<Rightarrow> nat \<Rightarrow> bool \<Rightarrow> nat list \<times> nat" where
  "probes_page_slice probes s key skip n descending =
    (let order = [ds_begin s..<ds_end s]
     in probes_page_at probes s key (if descending then rev order else order) skip n)"

definition key_driver :: "query_key \<Rightarrow> nat" where
  "key_driver key =
    fold (\<lambda>i smallest. if rc_cardinality (qk_all key ! i) < rc_cardinality (qk_all key ! smallest) then i else smallest)
      [1..<length (qk_all key)] 0"

section \<open>Combining words\<close>

definition bits_of_part :: "nat \<Rightarrow> nat \<Rightarrow> roaring_container \<Rightarrow> 64 word list \<Rightarrow> 64 word list" where
  "bits_of_part low high c words = or_part (rc_key c) low high c words"

definition bits_without_part :: "nat \<Rightarrow> nat \<Rightarrow> roaring_container \<Rightarrow> 64 word list \<Rightarrow> 64 word list" where
  "bits_without_part low high c words =
    (let first = drop_bit 6 low; final = drop_bit 6 high
     in if rc_kind c = ARNM_ROARING_BITMAP then map (\<lambda>w. words ! (w - first) AND NOT (rc_words c ! w)) [first..<Suc final]
        else fold (clear_word_bit first) (part_lows (rc_key c) c low high) words)"

definition key_bits :: "query_key \<Rightarrow> nat \<times> 64 word list" where
  "key_bits key =
    (let low = qk_low key; high = qk_high key; zero = zero_words low high;
         words =
           (case qk_all key of
              c # cs \<Rightarrow>
                let words = fold (\<lambda>c words. map2 (AND) words (bits_of_part low high c zero)) cs (bits_of_part low high c zero)
                in if qk_any key \<noteq> [] then map2 (AND) words (fold (bits_of_part low high) (qk_any key) zero) else words
            | [] \<Rightarrow> fold (bits_of_part low high) (qk_any key) zero);
         words = fold (bits_without_part low high) (qk_none key) words
     in arnm_roaring_clip_and_count words low high)"

section \<open>One key\<close>

definition key_reads_values :: "query_key \<Rightarrow> nat \<Rightarrow> bool" where
  "key_reads_values key driver \<longleftrightarrow> qk_all key \<noteq> [] \<and> rc_kind (qk_all key ! driver) \<noteq> ARNM_ROARING_BITMAP"

definition union_of_any :: "query_key \<Rightarrow> key_union" where
  "union_of_any key =
    \<lparr>ku_parts = qk_any key, ku_key = qk_key key, ku_low = qk_low key, ku_high = qk_high key,
     ku_any_bitmap = list_ex (\<lambda>c. rc_kind c = ARNM_ROARING_BITMAP) (qk_any key)\<rparr>"

definition query_key_cardinality :: "query_key \<Rightarrow> nat" where
  "query_key_cardinality key =
    (if qk_all key = [] \<and> qk_none key = [] then key_union_cardinality (union_of_any key)
     else
       let driver = key_driver key
       in if length (qk_all key) = 1 \<and> qk_any key = [] \<and> qk_none key = [] then
            arnm_roaring_container_range_cardinality (qk_all key ! 0) (qk_low key) (qk_high key)
          else if key_reads_values key driver then
            probes_count_slice (key_probes_of key driver) (driver_slice_of (qk_all key ! driver) (qk_low key) (qk_high key))
          else fst (key_bits key))"

definition query_key_page :: "query_key \<Rightarrow> nat \<Rightarrow> nat \<Rightarrow> bool \<Rightarrow> nat list \<times> nat" where
  "query_key_page key skip n descending =
    (if qk_all key = [] \<and> qk_none key = [] then
       let parts = union_of_any key
       in if skip \<noteq> 0 \<and> skip \<ge> key_union_cardinality parts then ([], skip - key_union_cardinality parts)
          else key_union_emit parts skip n descending
     else
       let driver = key_driver key
       in if key_reads_values key driver then
            probes_page_slice (key_probes_of key driver) (driver_slice_of (qk_all key ! driver) (qk_low key) (qk_high key))
              (qk_key key) skip n descending
          else
            (case key_bits key of
               (in_key, words) \<Rightarrow>
                 if skip \<ge> in_key then ([], skip - in_key)
                 else words_emit words (qk_low key) (qk_high key) (qk_key key) skip n descending))"

section \<open>What matches\<close>

definition key_matches :: "query_key \<Rightarrow> nat \<Rightarrow> bool" where
  "key_matches key x \<longleftrightarrow> (\<forall>c\<in>set (qk_all key). x \<in> set (lows c)) \<and>
    (qk_any key \<noteq> [] \<longrightarrow> (\<exists>c\<in>set (qk_any key). x \<in> set (lows c))) \<and> (\<forall>c\<in>set (qk_none key). x \<notin> set (lows c))"

definition key_set :: "query_key \<Rightarrow> nat set" where
  "key_set key = {x. qk_low key \<le> x \<and> x \<le> qk_high key \<and> key_matches key x}"

definition query_key_ok :: "query_key \<Rightarrow> bool" where
  "query_key_ok key \<longleftrightarrow> (qk_all key \<noteq> [] \<or> qk_any key \<noteq> []) \<and> qk_low key \<le> qk_high key \<and> qk_high key < 65536 \<and>
    (\<forall>c\<in>set (qk_all key) \<union> set (qk_any key) \<union> set (qk_none key). view_ok c \<and> rc_key c = qk_key key)"

lemma key_set_finite [simp]: "finite (key_set key)"
  by (rule finite_subset [of _ "{..qk_high key}"]) (auto simp: key_set_def)

lemma probe_has_ok: "view_ok c \<Longrightarrow> low < 65536 \<Longrightarrow> probe_has (probe_of c) low \<longleftrightarrow> low \<in> set (lows c)"
proof -
  assume c: "view_ok c" and low: "low < 65536"
  consider "rc_kind c = ARNM_ROARING_ARRAY" | "rc_kind c = ROARING_KIND_WIDE" | "rc_kind c = ARNM_ROARING_BITMAP"
    by (cases "rc_kind c") auto
  then show ?thesis
  proof cases
    case 1
    then have "lows c = rc_array c" "ascending (rc_array c)" "rc_cardinality c = length (rc_array c)" using c by (simp_all add: lows_def view_ok_def)
    then show ?thesis using 1 lower_bound_found [of "rc_array c" low] by (simp add: probe_has_def probe_of_def Let_def)
  next
    case 2
    then have l: "lows c = map arnm_roaring_low_of (rc_array c)" "ascending (rc_array c)" "rc_cardinality c = length (rc_array c)"
      "\<And>v. v \<in> set (rc_array c) \<Longrightarrow> arnm_roaring_key_of v = rc_key c" using c by (simp_all add: lows_def view_ok_def)
    have "arnm_roaring_value_of (rc_key c) low \<in> set (rc_array c) \<longleftrightarrow> low \<in> set (lows c)"
    proof
      assume "arnm_roaring_value_of (rc_key c) low \<in> set (rc_array c)"
      then have "arnm_roaring_low_of (arnm_roaring_value_of (rc_key c) low) \<in> set (lows c)" unfolding l(1) set_map by (rule imageI)
      then show "low \<in> set (lows c)" using low by simp
    next
      assume "low \<in> set (lows c)"
      then obtain v where v: "v \<in> set (rc_array c)" "low = arnm_roaring_low_of v" by (auto simp: l(1))
      then show "arnm_roaring_value_of (rc_key c) low \<in> set (rc_array c)" using value_of_key_low [of v] l(4) by simp
    qed
    then show ?thesis using 2 lower_bound_found [OF l(2), of "arnm_roaring_value_of (rc_key c) low"] l(3)
      by (simp add: probe_has_def probe_of_def Let_def bounds_32_16)
  next
    case 3
    then have "lows c = bits_from 0 (rc_words c)" "length (rc_words c) = 1024"
      using c by (simp_all add: lows_def view_ok_def ARNM_ROARING_BITMAP_WORDS_def)
    then show ?thesis using 3 low get_bit_iff [of low "rc_words c"] by (simp add: probe_has_def probe_of_def Let_def)
  qed
qed

lemma key_driver_less:
  assumes "qk_all key \<noteq> []" shows "key_driver key < length (qk_all key)"
proof -
  have "fold (\<lambda>i smallest. if f i < f smallest then i else smallest) js a \<in> insert a (set js)" for js a and f :: "nat \<Rightarrow> nat"
  proof (induction js arbitrary: a)
    case (Cons j js)
    show ?case using Cons.IH [of "if f j < f a then j else a"] by (auto split: if_splits)
  qed simp
  from this [of "\<lambda>i. rc_cardinality (qk_all key ! i)" "[1..<length (qk_all key)]" 0]
  have "key_driver key \<in> insert 0 (set [1..<length (qk_all key)])" unfolding key_driver_def .
  then show ?thesis using assms by auto
qed

section \<open>Every way answers the same\<close>

lemma driver_slice_ok:
  assumes "view_ok c" "rc_kind c \<noteq> ARNM_ROARING_BITMAP" "lo \<le> hi" "hi < 65536"
  defines "s \<equiv> driver_slice_of c lo hi"
  shows "map (driver_at s) [ds_begin s..<ds_end s] = lows_in lo hi c"
proof (cases "rc_kind c = ROARING_KIND_WIDE")
  case True
  obtain b e where r: "wide_reach (rc_key c) c lo hi = (b, e)" by fastforce
  note a = wide_reach_ok [OF assms(1) True assms(3,4) r]
  have s: "s = \<lparr>ds_array = None, ds_wide = rc_array c, ds_begin = b, ds_end = e\<rparr>" using True by (simp add: s_def driver_slice_of_def r)
  have "map (driver_at s) [b..<e] = map arnm_roaring_low_of (span b e (rc_array c))"
    using a(2,3) by (intro nth_equalityI) (simp_all add: s driver_at_def span_def)
  then show ?thesis unfolding a(1) by (simp add: s)
next
  case False
  then have k: "rc_kind c = ARNM_ROARING_ARRAY" using assms(2) by (cases "rc_kind c") simp_all
  obtain b e where r: "array_reach c lo hi = (b, e)" by fastforce
  note a = array_reach_ok [OF assms(1) k assms(3) r]
  have s: "s = \<lparr>ds_array = Some (rc_array c), ds_wide = [], ds_begin = b, ds_end = e\<rparr>" using k by (simp add: s_def driver_slice_of_def r)
  have "map (driver_at s) [b..<e] = span b e (rc_array c)"
    using a(2,3) by (intro nth_equalityI) (simp_all add: s driver_at_def span_def)
  then show ?thesis unfolding a(1) by (simp add: s)
qed

lemma probes_match_ok:
  assumes "query_key_ok key" "d < length (qk_all key)" "x \<in> set (lows (qk_all key ! d))" "x < 65536"
  shows "probes_match (key_probes_of key d) x \<longleftrightarrow> key_matches key x"
proof -
  have v: "view_ok c" if "c \<in> set (qk_all key) \<union> set (qk_any key) \<union> set (qk_none key)" for c
    using assms(1) that by (simp add: query_key_ok_def)
  have p: "probe_has (probe_of c) x \<longleftrightarrow> x \<in> set (lows c)" if "c \<in> set (qk_all key) \<union> set (qk_any key) \<union> set (qk_none key)" for c
    using probe_has_ok [OF v [OF that] assms(4)] .
  have "list_all (\<lambda>p. probe_has p x) (kp_all (key_probes_of key d)) \<longleftrightarrow> (\<forall>i<length (qk_all key). i \<noteq> d \<longrightarrow> x \<in> set (lows (qk_all key ! i)))"
    using p by (auto simp: key_probes_of_def list_all_iff)
  also have "\<dots> \<longleftrightarrow> (\<forall>c\<in>set (qk_all key). x \<in> set (lows c))"
    using assms(2,3) by (auto simp: in_set_conv_nth all_set_conv_all_nth)
  finally show ?thesis using p by (auto simp: probes_match_def key_matches_def key_probes_of_def list_ex_iff)
qed

lemma count_matching: "(\<Sum>i\<leftarrow>is. if P i then 1 else 0) = length (filter P is)"
  by (induction "is") simp_all

lemma filter_matching:
  assumes "query_key_ok key" "c \<in> set (qk_all key)"
  shows "filter (key_matches key) (lows_in (qk_low key) (qk_high key) c) = sorted_list_of_set (key_set key)"
proof (rule ascending_eq)
  have "view_ok c" using assms by (simp add: query_key_ok_def)
  then show "ascending (filter (key_matches key) (lows_in (qk_low key) (qk_high key) c))"
    using lows_in_ascending by (intro sorted_wrt_filter) blast
  show "set (filter (key_matches key) (lows_in (qk_low key) (qk_high key) c)) = set (sorted_list_of_set (key_set key))"
    using assms(2) by (auto simp: key_set_def key_matches_def)
qed simp

lemma probes_count_ok:
  assumes "query_key_ok key" "d < length (qk_all key)" "rc_kind (qk_all key ! d) \<noteq> ARNM_ROARING_BITMAP"
  shows "probes_count_slice (key_probes_of key d) (driver_slice_of (qk_all key ! d) (qk_low key) (qk_high key)) = card (key_set key)"
proof -
  let ?c = "qk_all key ! d" and ?p = "key_probes_of key d"
  define s where "s = driver_slice_of ?c (qk_low key) (qk_high key)"
  have c: "?c \<in> set (qk_all key)" using assms(2) by simp
  then have v: "view_ok ?c" and r: "qk_low key \<le> qk_high key" "qk_high key < 65536" using assms(1) by (simp_all add: query_key_ok_def)
  note sl = driver_slice_ok [OF v assms(3) r, folded s_def]
  have len: "length (filter (\<lambda>i. Q (driver_at s i)) [ds_begin s..<ds_end s]) = length (filter Q (lows_in (qk_low key) (qk_high key) ?c))" for Q
    unfolding sl [symmetric] filter_map length_map comp_def ..
  have count: "length (filter Q (lows_in (qk_low key) (qk_high key) ?c)) = card (key_set key)"
    if "\<And>x. x \<in> set (lows ?c) \<Longrightarrow> x < 65536 \<Longrightarrow> Q x \<longleftrightarrow> key_matches key x" for Q
  proof -
    have "filter Q (lows_in (qk_low key) (qk_high key) ?c) = filter (key_matches key) (lows_in (qk_low key) (qk_high key) ?c)"
      using that view_lows(2) [OF v] by (intro filter_cong) auto
    then show ?thesis unfolding filter_matching [OF assms(1) c] by simp
  qed
  note m = probes_match_ok [OF assms(1,2)]
  show ?thesis
  proof (cases "length (kp_all ?p) = 1 \<and> pp_words (kp_all ?p ! 0) \<noteq> None \<and> kp_any ?p = [] \<and> kp_none ?p = []")
    case True
    then obtain p words where p: "kp_all ?p = [p]" "pp_words p = Some words" by (metis One_nat_def length_0_conv length_Suc_conv nth_Cons_0 option.exhaust)
    have "get_bit words x \<longleftrightarrow> probes_match ?p x" for x using True p by (simp add: probes_match_def probe_has_def)
    then have "probes_count_slice ?p s = length (filter (\<lambda>i. probes_match ?p (driver_at s i)) [ds_begin s..<ds_end s])"
      using True p by (simp add: probes_count_slice_def count_matching)
    then show ?thesis unfolding len using count [OF m] by (simp add: s_def)
  next
    case False
    then have "probes_count_slice ?p s = length (filter (\<lambda>i. probes_match ?p (driver_at s i)) [ds_begin s..<ds_end s])"
      unfolding probes_count_slice_def if_not_P [OF False] by (simp add: count_matching)
    then show ?thesis unfolding len using count [OF m] by (simp add: s_def)
  qed
qed

lemma probes_page_at_ok:
  fixes key :: nat and probes :: key_probes and s :: driver_slice
  defines "L \<equiv> (\<lambda>is. map (arnm_roaring_value_of key) (filter (probes_match probes) (map (driver_at s) is)))"
  shows "probes_page_at probes s key order skip left =
    (if left = 0 then ([], skip) else (take left (drop skip (L order)), skip - length (L order)))"
proof (induction order arbitrary: skip left)
  case (Cons i order)
  show ?case
  proof (cases "left = 0")
    case False
    let ?x = "driver_at s i"
    have step: "probes_page_at probes s key (i # order) skip left =
        (if \<not> probes_match probes ?x then probes_page_at probes s key order skip left
         else if skip \<noteq> 0 then probes_page_at probes s key order (skip - 1) left
         else (case probes_page_at probes s key order 0 (left - 1) of (written, r) \<Rightarrow> (arnm_roaring_value_of key ?x # written, r)))"
      using False by (simp add: Let_def)
    have L: "L (i # order) = (if probes_match probes ?x then arnm_roaring_value_of key ?x # L order else L order)" by (simp add: L_def)
    consider "\<not> probes_match probes ?x" | "probes_match probes ?x" "skip \<noteq> 0" | "probes_match probes ?x" "skip = 0" by blast
    then show ?thesis
    proof cases
      case 3
      obtain m where m: "left = Suc m" using False by (cases left) auto
      show ?thesis using 3 Cons.IH [of 0 m] unfolding step L m by (auto split: if_splits)
    qed (use False Cons.IH in \<open>simp_all add: step L drop_Cons'\<close>)
  qed simp
qed (simp add: L_def)

lemma probes_page_ok:
  assumes "query_key_ok key" "d < length (qk_all key)" "rc_kind (qk_all key ! d) \<noteq> ARNM_ROARING_BITMAP" "n \<noteq> 0"
  shows "probes_page_slice (key_probes_of key d) (driver_slice_of (qk_all key ! d) (qk_low key) (qk_high key)) (qk_key key) skip n descending =
    (map (arnm_roaring_value_of (qk_key key)) (take n (drop skip (listing descending (key_set key)))), skip - card (key_set key))"
proof -
  let ?c = "qk_all key ! d" and ?p = "key_probes_of key d"
  define s where "s = driver_slice_of ?c (qk_low key) (qk_high key)"
  have c: "?c \<in> set (qk_all key)" using assms(2) by simp
  then have v: "view_ok ?c" and r: "qk_low key \<le> qk_high key" "qk_high key < 65536" using assms(1) by (simp_all add: query_key_ok_def)
  note sl = driver_slice_ok [OF v assms(3) r, folded s_def]
  have "filter (probes_match ?p) (lows_in (qk_low key) (qk_high key) ?c) = filter (key_matches key) (lows_in (qk_low key) (qk_high key) ?c)"
    using probes_match_ok [OF assms(1,2)] view_lows(2) [OF v] by (intro filter_cong) auto
  also have "\<dots> = sorted_list_of_set (key_set key)" using filter_matching [OF assms(1) c] .
  finally have f: "filter (probes_match ?p) (map (driver_at s) [ds_begin s..<ds_end s]) = sorted_list_of_set (key_set key)" unfolding sl .
  have "filter (probes_match ?p) (map (driver_at s) (if descending then rev [ds_begin s..<ds_end s] else [ds_begin s..<ds_end s])) =
      listing descending (key_set key)"
    using f by (simp add: listing_def rev_map [symmetric] rev_filter [symmetric])
  then show ?thesis using assms(4) unfolding probes_page_slice_def Let_def s_def [symmetric] probes_page_at_ok
    by (simp add: drop_map take_map)
qed

lemma without_part_ok:
  assumes "shows_in lo hi ws P" "view_ok c" "lo \<le> hi" "hi < 65536"
  shows "shows_in lo hi (bits_without_part lo hi c ws) (\<lambda>x. P x \<and> x \<notin> set (lows c))"
proof (cases "rc_kind c = ARNM_ROARING_BITMAP")
  case True
  have len: "length ws = Suc (drop_bit 6 hi) - drop_bit 6 lo"
    using assms(1,3) by (simp add: shows_in_def drop_6 div_le_mono Suc_diff_le)
  have "bits_without_part lo hi c ws = map2 (\<lambda>a b. a AND NOT b) ws (map (\<lambda>w. rc_words c ! w) [drop_bit 6 lo..<Suc (drop_bit 6 hi)])"
    using True len by (intro nth_equalityI) (simp_all add: bits_without_part_def Let_def del: upt_Suc)
  then show ?thesis
    using shows_map [OF assms(1) shows_bitmap [OF assms(2) True assms(3,4)], of "\<lambda>x. P x \<and> x \<notin> set (lows c)" "\<lambda>a b. a \<and> \<not> b" "\<lambda>a b. a AND NOT b"]
    by (simp add: bit_and_iff bit_not_iff)
next
  case False
  then have "bits_without_part lo hi c ws = fold (clear_word_bit (drop_bit 6 lo)) (lows_in lo hi c) ws"
    using part_lows_ok [OF assms(2) refl False assms(3,4)] by (simp add: bits_without_part_def)
  moreover have "shows_in lo hi (fold (clear_word_bit (drop_bit 6 lo)) (lows_in lo hi c) ws) (\<lambda>x. P x \<and> x \<notin> set (lows_in lo hi c))"
    by (rule shows_set_bits(2) [OF assms(1) _ assms(3)]) simp
  ultimately show ?thesis by (simp add: shows_in_def)
qed

lemma key_bits_ok:
  assumes "query_key_ok key"
  shows "fst (key_bits key) = card (key_set key)"
    "length (snd (key_bits key)) = Suc (drop_bit 6 (qk_high key) - drop_bit 6 (qk_low key))"
    "filter (within (qk_low key) (qk_high key)) (bits_from (drop_bit 6 (qk_low key)) (snd (key_bits key))) = sorted_list_of_set (key_set key)"
proof -
  let ?lo = "qk_low key" and ?hi = "qk_high key"
  let ?zero = "zero_words ?lo ?hi"
  have r: "?lo \<le> ?hi" "?hi < 65536" using assms by (simp_all add: query_key_ok_def)
  have v: "view_ok c \<and> rc_key c = qk_key key" if "c \<in> set (qk_all key) \<union> set (qk_any key) \<union> set (qk_none key)" for c
    using assms that by (simp add: query_key_ok_def)
  note zero = shows_zero [OF r(1)]
  have one: "shows_in ?lo ?hi (bits_of_part ?lo ?hi c ?zero) (\<lambda>x. x \<in> set (lows c))" if "view_ok c" for c
    using or_part_ok [OF zero that refl r] by (simp add: bits_of_part_def)
  have "fold (bits_of_part ?lo ?hi) cs ws = fold (or_part (qk_key key) ?lo ?hi) cs ws" if "\<forall>c\<in>set cs. rc_key c = qk_key key" for cs ws
    using that by (induction cs arbitrary: ws) (simp_all add: bits_of_part_def)
  then have any: "shows_in ?lo ?hi (fold (bits_of_part ?lo ?hi) (qk_any key) ?zero) (\<lambda>x. \<exists>c\<in>set (qk_any key). x \<in> set (lows c))"
    using or_parts_ok [OF zero _ r, of "qk_any key" "qk_key key"] v by simp
  have ands: "shows_in ?lo ?hi (fold (\<lambda>c words. map2 (AND) words (bits_of_part ?lo ?hi c ?zero)) cs ws) (\<lambda>x. P x \<and> (\<forall>c\<in>set cs. x \<in> set (lows c)))"
    if "shows_in ?lo ?hi ws P" "\<forall>c\<in>set cs. view_ok c" for cs ws P
    using that
  proof (induction cs arbitrary: ws P)
    case (Cons c cs)
    have "shows_in ?lo ?hi (map2 (AND) ws (bits_of_part ?lo ?hi c ?zero)) (\<lambda>x. P x \<and> x \<in> set (lows c))"
      using shows_map [OF Cons.prems(1) one [of c], of _ "(\<and>)" "(AND)"] Cons.prems(2) by (simp add: bit_and_iff)
    from Cons.IH [OF this] Cons.prems(2) show ?case by (simp add: conj_assoc)
  qed simp
  have nones: "shows_in ?lo ?hi (fold (bits_without_part ?lo ?hi) cs ws) (\<lambda>x. P x \<and> (\<forall>c\<in>set cs. x \<notin> set (lows c)))"
    if "shows_in ?lo ?hi ws P" "\<forall>c\<in>set cs. view_ok c" for cs ws P
    using that
  proof (induction cs arbitrary: ws P)
    case (Cons c cs)
    have "shows_in ?lo ?hi (bits_without_part ?lo ?hi c ws) (\<lambda>x. P x \<and> x \<notin> set (lows c))"
      using without_part_ok [OF Cons.prems(1) _ r] Cons.prems(2) by simp
    from Cons.IH [OF this] Cons.prems(2) show ?case by (simp add: conj_assoc)
  qed simp
  define base where "base = (case qk_all key of
        c # cs \<Rightarrow>
          let words = fold (\<lambda>c words. map2 (AND) words (bits_of_part ?lo ?hi c ?zero)) cs (bits_of_part ?lo ?hi c ?zero)
          in if qk_any key \<noteq> [] then map2 (AND) words (fold (bits_of_part ?lo ?hi) (qk_any key) ?zero) else words
      | [] \<Rightarrow> fold (bits_of_part ?lo ?hi) (qk_any key) ?zero)"
  have base: "shows_in ?lo ?hi base (\<lambda>x. (\<forall>c\<in>set (qk_all key). x \<in> set (lows c)) \<and> (qk_any key \<noteq> [] \<longrightarrow> (\<exists>c\<in>set (qk_any key). x \<in> set (lows c))))"
  proof (cases "qk_all key")
    case Nil
    then have "qk_any key \<noteq> []" using assms by (simp add: query_key_ok_def)
    then show ?thesis using any Nil by (simp add: base_def)
  next
    case (Cons c cs)
    have all: "shows_in ?lo ?hi (fold (\<lambda>c words. map2 (AND) words (bits_of_part ?lo ?hi c ?zero)) cs (bits_of_part ?lo ?hi c ?zero))
        (\<lambda>x. \<forall>c\<in>set (qk_all key). x \<in> set (lows c))"
      using ands [OF one [of c], of cs] v Cons by simp
    show ?thesis
    proof (cases "qk_any key = []")
      case True
      then show ?thesis using all Cons by (simp add: base_def)
    next
      case False
      then show ?thesis
        using shows_map [OF all any, of "\<lambda>x. (\<forall>c\<in>set (qk_all key). x \<in> set (lows c)) \<and> (\<exists>c\<in>set (qk_any key). x \<in> set (lows c))" "(\<and>)" "(AND)"] Cons
        by (simp add: base_def bit_and_iff)
    qed
  qed
  have "shows_in ?lo ?hi (fold (bits_without_part ?lo ?hi) (qk_none key) base) (key_matches key)"
    using nones [OF base, of "qk_none key"] v by (simp add: key_matches_def [abs_def] conj_assoc)
  from shows_counted [OF this r prod.collapse [symmetric]]
  show "fst (key_bits key) = card (key_set key)" "length (snd (key_bits key)) = Suc (drop_bit 6 ?hi - drop_bit 6 ?lo)"
    "filter (within ?lo ?hi) (bits_from (drop_bit 6 ?lo) (snd (key_bits key))) = sorted_list_of_set (key_set key)"
    by (simp_all add: key_bits_def Let_def base_def key_set_def)
qed

lemma union_of_any_ok:
  assumes "query_key_ok key" "qk_all key = []" "qk_none key = []"
  shows "key_union_ok (union_of_any key)" "union_set (union_of_any key) = key_set key" "ku_key (union_of_any key) = qk_key key"
  using assms by (auto simp: query_key_ok_def key_union_ok_def union_of_any_def union_set_def key_set_def key_matches_def list_ex_iff)

lemma query_key_cardinality_ok:
  assumes "query_key_ok key" shows "query_key_cardinality key = card (key_set key)"
proof -
  note u = union_of_any_ok [OF assms]
  show ?thesis
  proof (cases "qk_all key = [] \<and> qk_none key = []")
    case True
    then show ?thesis using key_union_cardinality_ok [OF u(1)] u(2) by (simp add: query_key_cardinality_def)
  next
    case False
    show ?thesis
    proof (cases "length (qk_all key) = 1 \<and> qk_any key = [] \<and> qk_none key = []")
      case True
      then obtain c where c: "qk_all key = [c]" by (metis One_nat_def length_0_conv length_Suc_conv)
      have "set (lows_in (qk_low key) (qk_high key) c) = key_set key" using True c by (auto simp: key_set_def key_matches_def)
      then show ?thesis using True c assms range_cardinality_view [of c "qk_low key" "qk_high key"]
        by (simp add: query_key_cardinality_def query_key_ok_def del: set_lows_in)
    next
      case one: False
      have "query_key_cardinality key = (if key_reads_values key (key_driver key) then
            probes_count_slice (key_probes_of key (key_driver key)) (driver_slice_of (qk_all key ! key_driver key) (qk_low key) (qk_high key))
          else fst (key_bits key))"
        unfolding query_key_cardinality_def Let_def if_not_P [OF False] if_not_P [OF one] ..
      then show ?thesis
        using probes_count_ok [OF assms key_driver_less] key_bits_ok(1) [OF assms] by (simp add: key_reads_values_def)
    qed
  qed
qed

lemma query_key_page_ok:
  assumes "query_key_ok key" "n \<noteq> 0"
  shows "query_key_page key skip n d =
    (map (arnm_roaring_value_of (qk_key key)) (take n (drop skip (listing d (key_set key)))), skip - card (key_set key))"
proof -
  note u = union_of_any_ok [OF assms(1)]
  show ?thesis
  proof (cases "qk_all key = [] \<and> qk_none key = []")
    case True
    have c: "key_union_cardinality (union_of_any key) = card (key_set key)" using key_union_cardinality_ok [OF u(1)] u(2) True by simp
    have e: "key_union_emit (union_of_any key) skip n d =
        (map (arnm_roaring_value_of (qk_key key)) (take n (drop skip (listing d (key_set key)))), skip - card (key_set key))"
      using key_union_emit_ok [OF u(1) assms(2), of skip d] u(2,3) True by simp
    show ?thesis using True unfolding query_key_page_def Let_def c e by simp
  next
    case False
    show ?thesis
    proof (cases "key_reads_values key (key_driver key)")
      case True
      then show ?thesis
        using probes_page_ok [OF assms(1) key_driver_less _ assms(2), of skip d] False
        unfolding query_key_page_def Let_def if_not_P [OF False] if_P [OF True] by (simp add: key_reads_values_def)
    next
      case bits: False
      obtain m words where k: "key_bits key = (m, words)" by fastforce
      note b = key_bits_ok [OF assms(1), unfolded k fst_conv snd_conv]
      have r: "qk_low key \<le> qk_high key" using assms(1) by (simp add: query_key_ok_def)
      show ?thesis using words_emit_ok [OF b(2) r assms(2) b(3), of "qk_key key" skip d] b(1)
        unfolding query_key_page_def Let_def if_not_P [OF False] if_not_P [OF bits] k prod.case by simp
    qed
  qed
qed

end
