(* ===== verification/Roaring_Walk.thy ===== *)
theory Roaring_Walk
  imports Roaring_Query_Key
begin

unbundle bit_operations_syntax

text \<open>
  The walk of a query over its sets (\<^verbatim>\<open>src/roaring_query.c\<close>, from \<^verbatim>\<open>part_reach\<close> on, with
  \<^verbatim>\<open>query_walk_begin\<close> and \<^verbatim>\<open>query_walk_next\<close>): every set of the three lists is read by a source, up
  or down; a step finds the next key all of \<open>all\<close> have, or the first one any of \<open>any\<close> has, and collects the
  containers the sets have there. A source is here the set of the values it still has ahead.
\<close>

record query_walk =
  wk_all :: "roaring_source list"
  wk_any :: "roaring_source list"
  wk_none :: "roaring_source list"
  wk_min :: nat
  wk_max :: nat
  wk_descending :: bool
  wk_narrow :: bool
  wk_have_key :: bool
  wk_key :: nat

text \<open>The keys of a directory differ, so the container that equals its last one is its last one.\<close>

definition part_reach :: "roaring_source \<Rightarrow> roaring_container \<Rightarrow> nat \<times> nat" where
  "part_reach source c =
    (case rc_kind c of
       ARNM_ROARING_ARRAY \<Rightarrow> (rc_array c ! 0, rc_array c ! (rc_cardinality c - 1))
     | ROARING_KIND_WIDE \<Rightarrow>
         (arnm_roaring_low_of (rc_array c ! 0), arnm_roaring_low_of (rc_array c ! (rc_cardinality c - 1)))
     | ARNM_ROARING_BITMAP \<Rightarrow>
         (case so_set source of
            Some st \<Rightarrow> (0, if c = rb_containers st ! (rb_count st - 1) then arnm_roaring_low_of (rb_maximum st) else 65535)
          | None \<Rightarrow> (0, 65535)))"

definition key_before :: "nat \<Rightarrow> nat \<Rightarrow> bool \<Rightarrow> bool" where
  "key_before key other descending \<longleftrightarrow> (if descending then key > other else key < other)"

partial_function (option) source_seek :: "roaring_source \<Rightarrow> nat \<Rightarrow> bool \<Rightarrow> roaring_source option" where
  "source_seek s key descending =
    (case so_current s of
       None \<Rightarrow> Some s
     | Some c \<Rightarrow>
         if key_before (rc_key c) key descending then source_seek (arnm_roaring_source_advance s) key descending else Some s)"

definition walk_sources :: "roaring_bitmap option list \<Rightarrow> nat \<Rightarrow> nat \<Rightarrow> bool \<Rightarrow> roaring_source list" where
  "walk_sources sets mn mx descending = map (\<lambda>st. arnm_roaring_source_begin st mn mx descending False) sets"

text \<open>Behind the key that was answered.\<close>

definition leave_source :: "nat \<Rightarrow> roaring_source \<Rightarrow> roaring_source" where
  "leave_source key s =
    (case so_current s of None \<Rightarrow> s | Some c \<Rightarrow> if rc_key c = key then arnm_roaring_source_advance s else s)"

definition leave_key :: "query_walk \<Rightarrow> query_walk" where
  "leave_key walk =
    (if wk_have_key walk then
       walk\<lparr>wk_all := map (leave_source (wk_key walk)) (wk_all walk), wk_any := map (leave_source (wk_key walk)) (wk_any walk),
         wk_have_key := False\<rparr>
     else walk)"

text \<open>
  One pass over \<open>all\<close>: every source goes on to the key, and where one has no such key its own is the next to
  try. The inner \<open>None\<close> is a source that has run out: no key is left.
\<close>

fun align_pass :: "bool \<Rightarrow> roaring_source list \<Rightarrow> nat \<Rightarrow> bool \<Rightarrow> (roaring_source list \<times> nat \<times> bool) option option" where
  "align_pass descending [] key aligned = Some (Some ([], key, aligned))"
| "align_pass descending (s # ss) key aligned =
    Option.bind (source_seek s key descending) (\<lambda>s.
      case so_current s of
        None \<Rightarrow> Some None
      | Some c \<Rightarrow>
          Option.bind
            (if rc_key c \<noteq> key then align_pass descending ss (rc_key c) False else align_pass descending ss key aligned)
            (\<lambda>r. Some (map_option (\<lambda>(ss, key, aligned). (s # ss, key, aligned)) r)))"

partial_function (option) align :: "bool \<Rightarrow> roaring_source list \<Rightarrow> nat \<Rightarrow> (roaring_source list \<times> nat) option option" where
  "align descending ss key =
    Option.bind (align_pass descending ss key True) (\<lambda>r.
      case r of
        None \<Rightarrow> Some None
      | Some (ss, key, aligned) \<Rightarrow> if aligned then Some (Some (ss, key)) else align descending ss key)"

definition first_key :: "bool \<Rightarrow> roaring_source list \<Rightarrow> nat option" where
  "first_key descending ss =
    fold (\<lambda>s found.
      case so_current s of
        None \<Rightarrow> found
      | Some c \<Rightarrow>
          (case found of
             None \<Rightarrow> Some (rc_key c)
           | Some key \<Rightarrow> if key_before (rc_key c) key descending then Some (rc_key c) else Some key)) ss None"

definition next_key :: "query_walk \<Rightarrow> (roaring_source list \<times> nat) option option" where
  "next_key walk =
    (case wk_all walk of
       s # ss \<Rightarrow>
         (case so_current s of None \<Rightarrow> Some None | Some c \<Rightarrow> align (wk_descending walk) (wk_all walk) (rc_key c))
     | [] \<Rightarrow> Some (map_option (\<lambda>key. ([], key)) (first_key (wk_descending walk) (wk_any walk))))"

text \<open>What the sources have at the key.\<close>

fun seek_each :: "bool \<Rightarrow> nat \<Rightarrow> roaring_source list \<Rightarrow> roaring_source list option" where
  "seek_each descending key [] = Some []"
| "seek_each descending key (s # ss) =
    Option.bind (source_seek s key descending) (\<lambda>s. Option.bind (seek_each descending key ss) (\<lambda>ss. Some (s # ss)))"

definition stands_at :: "nat \<Rightarrow> roaring_source \<Rightarrow> bool" where
  "stands_at key s \<longleftrightarrow> (case so_current s of None \<Rightarrow> False | Some c \<Rightarrow> rc_key c = key)"

definition parts_at :: "nat \<Rightarrow> roaring_source list \<Rightarrow> roaring_container list" where
  "parts_at key ss = map (\<lambda>s. the (so_current s)) (filter (stands_at key) ss)"

definition reach_of_all :: "roaring_source list \<Rightarrow> nat \<times> nat" where
  "reach_of_all ss =
    fold (\<lambda>s (least, most).
      case part_reach s (the (so_current s)) of
        (b, t) \<Rightarrow> (if b > least then b else least, if t < most then t else most)) ss (0, 65535)"

definition reach_of_any :: "roaring_source list \<Rightarrow> nat \<times> nat" where
  "reach_of_any ss =
    fold (\<lambda>s (least, most).
      case part_reach s (the (so_current s)) of
        (b, t) \<Rightarrow> (if b < least then b else least, if t > most then t else most)) ss (65535, 0)"

definition narrow_bounds :: "query_walk \<Rightarrow> nat \<Rightarrow> nat \<times> nat \<Rightarrow> nat \<times> nat" where
  "narrow_bounds walk key bounds =
    (case bounds of (low, high) \<Rightarrow>
       if wk_narrow walk then
         (case reach_of_all (wk_all walk) of (least, most) \<Rightarrow>
          case reach_of_any (filter (stands_at key) (wk_any walk)) of (any_least, any_most) \<Rightarrow>
            let least = (if wk_any walk \<noteq> [] \<and> any_least > least then any_least else least);
                most = (if wk_any walk \<noteq> [] \<and> any_most < most then any_most else most)
            in (if least > low then least else low, if most < high then most else high))
       else (low, high))"

partial_function (option) query_walk_next :: "query_walk \<Rightarrow> (query_key \<times> query_walk) option option" where
  "query_walk_next walk0 =
    (let walk = leave_key walk0
     in Option.bind (next_key walk) (\<lambda>r.
       case r of
         None \<Rightarrow> Some None
       | Some (all, key) \<Rightarrow>
           Option.bind (seek_each (wk_descending walk) key (wk_any walk)) (\<lambda>any.
           Option.bind (seek_each (wk_descending walk) key (wk_none walk)) (\<lambda>none.
             let walk = walk\<lparr>wk_all := all, wk_any := any, wk_none := none, wk_key := key, wk_have_key := True\<rparr>;
                 anys = parts_at key any
             in if any \<noteq> [] \<and> anys = [] then query_walk_next walk
                else
                  (case narrow_bounds walk key (arnm_roaring_container_bounds key (wk_min walk) (wk_max walk)) of
                     (low, high) \<Rightarrow>
                       if low \<le> high then
                         Some (Some
                           (\<lparr>qk_all = map (\<lambda>s. the (so_current s)) all, qk_any = anys, qk_none = parts_at key none, qk_key = key,
                             qk_low = low, qk_high = high\<rparr>, walk))
                       else query_walk_next walk)))))"

section \<open>What a source has ahead\<close>

definition source_ahead :: "roaring_source \<Rightarrow> nat set" where
  "source_ahead s =
    (case so_set s of
       None \<Rightarrow> {}
     | Some st \<Rightarrow>
       if arnm_roaring_is_sparse st then
         (if so_descending s then {v\<in>set (take (so_position s) (rb_values st)). so_min_key s \<le> arnm_roaring_key_of v}
          else {v\<in>set (drop (so_position s) (rb_values st)). arnm_roaring_key_of v \<le> so_max_key s})
       else
         (if so_descending s then {v. \<exists>c\<in>set (take (so_position s) (rb_containers st)). so_min_key s \<le> rc_key c \<and> v \<in> set (container_elems c)}
          else {v. \<exists>c\<in>set (drop (so_position s) (rb_containers st)). rc_key c \<le> so_max_key s \<and> v \<in> set (container_elems c)}))"

definition placed_source :: "roaring_source \<Rightarrow> bool" where
  "placed_source s \<longleftrightarrow> so_max_key s < 65536 \<and>
    (case so_set s of None \<Rightarrow> True
     | Some st \<Rightarrow> roaring_ok st \<and> so_position s \<le> (if arnm_roaring_is_sparse st then length (rb_values st) else rb_count st))"

definition poised :: "roaring_source \<Rightarrow> bool" where
  "poised s \<longleftrightarrow> placed_source s \<and> (\<exists>s0. s = arnm_roaring_source_load s0)"

text \<open>The state of a source says what it stands on, what advancing leaves, and where the container reaches.\<close>

definition source_tells :: "roaring_source \<Rightarrow> bool" where
  "source_tells s \<longleftrightarrow> (case so_current s of
     None \<Rightarrow> source_ahead s = {}
   | Some c \<Rightarrow> view_ok c \<and> set (container_elems c) = {v\<in>source_ahead s. arnm_roaring_key_of v = rc_key c} \<and>
       poised (arnm_roaring_source_advance s) \<and>
       source_ahead (arnm_roaring_source_advance s) = source_ahead s - set (container_elems c) \<and>
       (\<forall>v\<in>source_ahead (arnm_roaring_source_advance s). key_before (rc_key c) (arnm_roaring_key_of v) (so_descending s)))"

lemma placed_load [simp]: "placed_source (arnm_roaring_source_load s) = placed_source s"
  by (simp add: placed_source_def split: option.split)

lemma ahead_load [simp]: "source_ahead (arnm_roaring_source_load s) = source_ahead s"
  by (simp add: source_ahead_def split: option.split)

lemma says_split:
  assumes "so_current s = Some c" "view_ok c" "poised (arnm_roaring_source_advance s)"
    and "source_ahead s = set (container_elems c) \<union> source_ahead (arnm_roaring_source_advance s)"
    and "\<And>v. v \<in> source_ahead (arnm_roaring_source_advance s) \<Longrightarrow> key_before (rc_key c) (arnm_roaring_key_of v) (so_descending s)"
  shows "source_tells s"
proof -
  have k: "arnm_roaring_key_of v = rc_key c" if "v \<in> set (container_elems c)" for v using view_elems [OF assms(2)] that by simp
  have n: "arnm_roaring_key_of v \<noteq> rc_key c" if "v \<in> source_ahead (arnm_roaring_source_advance s)" for v
    using assms(5) [OF that] by (auto simp: key_before_def split: if_splits)
  have "set (container_elems c) = {v\<in>source_ahead s. arnm_roaring_key_of v = rc_key c}"
    "source_ahead (arnm_roaring_source_advance s) = source_ahead s - set (container_elems c)"
    unfolding assms(4) using k n by auto
  then show ?thesis using assms(1-3,5) by (simp add: source_tells_def)
qed

lemma says_up:
  assumes "poised s" "\<not> so_descending s" shows "source_tells s"
proof -
  have at: "at_rest s = placed_source s" if "\<not> so_descending s" for s :: roaring_source using that by (simp add: at_rest_def placed_source_def)
  have ok: "source_ok s" using assms at [of s] by (simp add: poised_def source_ok_def)
  have left: "source_ahead t = set (source_left t)" if "placed_source t" "\<not> so_descending t" for t
  proof (cases "so_set t")
    case (Some st)
    have r: "roaring_ok st" using that(1) Some by (simp add: placed_source_def)
    from r show ?thesis
    proof (cases rule: roaring_cases)
      case sparse
      then show ?thesis using Some that(2) takeWhile_filter_key [OF drop_ascending [OF sparse(4)]]
        by (simp add: source_ahead_def source_left.simps)
    next
      case directory
      have "ascending (map rc_key (drop (so_position t) (rb_containers st)))"
        using directory(3) unfolding directory_ok_def drop_map [symmetric] by (intro drop_ascending) simp
      from takeWhile_filter_up [OF this] show ?thesis
        using Some that(2) directory(1) by (auto simp: source_ahead_def source_left.simps)
    qed
  qed (simp add: source_ahead_def source_left.simps)
  have pl: "placed_source s" using assms(1) by (simp add: poised_def)
  have st: "stands s" using source_stands [OF ok] .
  show ?thesis
  proof (cases "so_current s")
    case None
    then show ?thesis using st left [OF pl assms(2)] by (simp add: source_tells_def stands_def)
  next
    case (Some c)
    let ?a = "arnm_roaring_source_advance s"
    have c: "view_ok c" "source_left s = container_elems c @ source_left ?a" "source_ok ?a"
      "\<forall>v\<in>set (source_left ?a). rc_key c < arnm_roaring_key_of v"
      using st Some by (simp_all add: stands_def)
    have a: "placed_source ?a" "poised ?a" using c(3) at [of ?a] assms(2) by (simp_all add: source_ok_def poised_def)
    have l: "source_ahead s = set (container_elems c) \<union> source_ahead ?a" "source_ahead ?a = set (source_left ?a)"
      using left [OF pl assms(2)] left [OF a(1)] c(2) assms(2) by simp_all
    show ?thesis by (rule says_split [OF Some c(1) a(2) l(1)]) (use c(4) assms(2) in \<open>simp add: l(2) key_before_def\<close>)
  qed
qed

text \<open>Down, a view shows the values of the last key before the position.\<close>

lemma view_of_run:
  fixes s :: roaring_source
  assumes "ascending (span i j vs)" "\<forall>v\<in>set (span i j vs). arnm_roaring_key_of v = key" "key < 65536" "span i j vs \<noteq> []"
    and "length (span i j vs) = sub32 j i" "length (span i j vs) \<le> 1024"
  defines "c \<equiv> source_view s vs i j key"
  shows "view_ok c" "container_elems c = span i j vs" "rc_key c = key"
proof -
  let ?run = "span i j vs"
  have f: "rc_kind c = (if so_buffer s then ARNM_ROARING_ARRAY else ROARING_KIND_WIDE)"
    "rc_array c = (if so_buffer s then map arnm_roaring_low_of ?run else ?run)" "rc_cardinality c = sub32 j i"
    by (simp_all add: c_def source_view_def)
  show k: "rc_key c = key" by (simp add: c_def source_view_def)
  have lows: "lows c = map arnm_roaring_low_of ?run" by (simp add: lows_def f)
  have asc: "ascending (map arnm_roaring_low_of ?run)" unfolding sorted_wrt_map
    by (rule sorted_wrt_mono_rel [OF _ assms(1)]) (use assms(2) low_less in simp)
  show "view_ok c"
    using assms(1-6) asc lows f k by (simp add: view_ok_def ARNM_ROARING_ARRAY_MAX_def ARNM_ROARING_SPARSE_MAX_def)
  show "container_elems c = ?run" unfolding container_elems_def lows k map_map
    by (rule map_idI) (use assms(2) value_of_key_low in fastforce)
qed

lemma lower_bound_prefix:
  "n \<le> length xs \<Longrightarrow> arnm_roaring_lower_bound16 xs n v = arnm_roaring_lower_bound16 (take n xs) (length (take n xs)) v"
  by (auto simp: arnm_roaring_lower_bound16_def min_def intro!: bound_search_cong)

lemma last_key_run:
  assumes "ascending vs" "p \<noteq> 0" "p \<le> length vs" "length vs \<le> UINT32_MAX"
  defines "key \<equiv> arnm_roaring_key_of (vs ! (p - 1))"
  defines "i \<equiv> arnm_roaring_lower_bound32 vs p (push_bit 16 key)"
  shows "i < p" "span i p vs = filter (\<lambda>v. arnm_roaring_key_of v = key) (take p vs)"
    "take i vs = filter (\<lambda>v. arnm_roaring_key_of v < key) (take p vs)"
proof -
  let ?ys = "take p vs"
  have asc: "ascending ?ys" using assms(1) by (rule sorted_wrt_take)
  have len: "length ?ys = p" using assms(3) by simp
  have last: "v \<le> vs ! (p - 1)" if "v \<in> set ?ys" for v
    using that ascending_nth_le [OF assms(1), of _ "p - 1"] assms(2,3) by (fastforce simp: in_set_conv_nth)
  have ge: "push_bit 16 key \<le> v \<longleftrightarrow> key \<le> arnm_roaring_key_of v" for v
    using less_eq_div_iff_mult_less_eq [of 65536 key v] by (simp add: key_of_div push_bit_eq_mult)
  have i: "i = arnm_roaring_lower_bound16 ?ys (length ?ys) (push_bit 16 key)"
    unfolding i_def bounds_32_16 by (rule lower_bound_prefix [OF assms(3)])
  note lb = lower_bound_split [OF asc, of "push_bit 16 key", folded i]
  have ip: "i \<le> p" using lb(1) len by simp
  have t: "take i vs = take i ?ys" using ip by (simp add: min_def)
  show "take i vs = filter (\<lambda>v. arnm_roaring_key_of v < key) ?ys" unfolding t lb(2) not_le [symmetric] ge by (simp add: not_le)
  have "span i p vs = drop i ?ys" by (simp add: span_def drop_take)
  also have "\<dots> = filter (\<lambda>v. arnm_roaring_key_of v = key) ?ys"
    unfolding lb(3) ge using key_le [OF last] by (intro filter_cong) (auto simp: key_def intro: le_antisym)
  finally show s: "span i p vs = filter (\<lambda>v. arnm_roaring_key_of v = key) ?ys" .
  have "vs ! (p - 1) \<in> set ?ys" using assms(2,3) by (auto simp: in_set_conv_nth intro!: exI [of _ "p - 1"])
  then have "span i p vs \<noteq> []" unfolding s by (auto simp: filter_empty_conv key_def)
  then show "i < p" using ip by (cases "i = p") (simp_all add: span_def)
qed

lemma load_down:
  "so_set s = None \<Longrightarrow> so_current (arnm_roaring_source_load s) = None"
  "so_set s = Some st \<Longrightarrow> so_descending s \<Longrightarrow> \<not> arnm_roaring_is_sparse st \<Longrightarrow>
    so_current (arnm_roaring_source_load s) =
      (if so_position s \<noteq> 0 \<and> so_min_key s \<le> rc_key (rb_containers st ! (so_position s - 1))
       then Some (rb_containers st ! (so_position s - 1)) else None)"
  "so_set s = Some st \<Longrightarrow> so_descending s \<Longrightarrow> arnm_roaring_is_sparse st \<Longrightarrow>
    so_position s = 0 \<or> arnm_roaring_key_of (rb_values st ! (so_position s - 1)) < so_min_key s \<Longrightarrow>
    so_current (arnm_roaring_source_load s) = None"
  "so_set s = Some st \<Longrightarrow> so_descending s \<Longrightarrow> arnm_roaring_is_sparse st \<Longrightarrow>
    \<not> (so_position s = 0 \<or> key < so_min_key s) \<Longrightarrow> key = arnm_roaring_key_of (rb_values st ! (so_position s - 1)) \<Longrightarrow>
    i = arnm_roaring_lower_bound32 (rb_values st) (so_position s) (push_bit 16 key) \<Longrightarrow>
    so_current (arnm_roaring_source_load s) = Some (source_view (s\<lparr>so_current := None\<rparr>) (rb_values st) i (so_position s) key) \<and>
      so_next (arnm_roaring_source_load s) = i"
  by (auto simp: arnm_roaring_source_load_def Let_def)

lemma says_down:
  assumes "poised s" "so_descending s" shows "source_tells s"
proof -
  obtain s0 where s0: "s = arnm_roaring_source_load s0" using assms(1) by (auto simp: poised_def)
  let ?p = "so_position s"
  have d: "so_descending s0" "so_position s0 = ?p" "so_set s0 = so_set s" "so_min_key s0 = so_min_key s" "so_buffer s0 = so_buffer s"
    using assms(2) by (simp_all add: s0)
  show ?thesis
  proof (cases "so_set s")
    case None
    have "so_current s = None" using load_down(1) [of s0] None d(3) by (simp only: s0 [symmetric])
    then show ?thesis using None by (simp add: source_tells_def source_ahead_def)
  next
    case (Some st)
    have ok: "roaring_ok st" "so_max_key s < 65536" "?p \<le> (if arnm_roaring_is_sparse st then length (rb_values st) else rb_count st)"
      using assms(1) Some by (simp_all add: poised_def placed_source_def)
    define t where "t q = s\<lparr>so_position := q\<rparr>" for q
    have t: "placed_source (t q)" if "q \<le> ?p" for q using ok that Some by (auto simp: t_def placed_source_def)
    from ok(1) show ?thesis
    proof (cases rule: roaring_cases)
      case directory
      let ?cs = "rb_containers st"
      have n: "rb_count st = length ?cs" and all: "\<And>c. c \<in> set ?cs \<Longrightarrow> container_ok c" and asc: "ascending (map rc_key ?cs)"
        using directory(3) by (simp_all add: directory_ok_def)
      have pn: "?p \<le> length ?cs" using ok(3) directory(1) n by simp
      have ahead: "source_ahead u = {v. \<exists>c\<in>set (take (so_position u) ?cs). so_min_key s \<le> rc_key c \<and> v \<in> set (container_elems c)}"
        if "so_set u = Some st" "so_descending u" "so_min_key u = so_min_key s" for u
        using that directory(1) by (simp add: source_ahead_def)
      have before: "rc_key c < rc_key (?cs ! (?p - 1))" if h: "c \<in> set (take (?p - 1) ?cs)" for c
      proof -
        obtain i where "i < ?p - 1" "c = ?cs ! i" using h by (auto simp: in_set_conv_nth)
        then show ?thesis using ascending_nth_less [OF asc, of i "?p - 1"] pn by simp
      qed
      show ?thesis
      proof (cases "?p \<noteq> 0 \<and> so_min_key s \<le> rc_key (?cs ! (?p - 1))")
        case False
        have cur: "so_current s = None"
          using load_down(2) [of s0 st] Some d directory(1) unfolding s0 [symmetric] d if_not_P [OF False] by blast
        have "rc_key c < so_min_key s" if "c \<in> set (take ?p ?cs)" for c
        proof -
          have p: "?p \<noteq> 0" using that by (cases "?p = 0") simp_all
          then have "take ?p ?cs = take (?p - 1) ?cs @ [?cs ! (?p - 1)]" using pn take_Suc_conv_app_nth [of "?p - 1" ?cs] by simp
          then have "rc_key c \<le> rc_key (?cs ! (?p - 1))" using that before by (auto simp: less_imp_le)
          then show ?thesis using False p by simp
        qed
        then have "source_ahead s = {}" using ahead [of s] Some assms(2) by fastforce
        then show ?thesis using cur by (simp add: source_tells_def)
      next
        case True
        let ?c = "?cs ! (?p - 1)"
        have cur: "so_current s = Some ?c" 
          using load_down(2) [of s0 st] Some d directory(1) unfolding s0 [symmetric] d if_P [OF True] by blast
        have q: "?p - 1 < length ?cs" "Suc (?p - 1) = ?p" using True pn by linarith+
        have c: "container_ok ?c" using q(1) by (intro all nth_mem)
        have tk: "take ?p ?cs = take (?p - 1) ?cs @ [?c]" using take_Suc_conv_app_nth [OF q(1), unfolded q(2)] .
        have adv: "arnm_roaring_source_advance s = arnm_roaring_source_load (t (?p - 1))"
          using cur Some directory(1) assms(2) by (simp add: arnm_roaring_source_advance_def t_def)
        have ad: "poised (arnm_roaring_source_advance s)" using t [of "?p - 1"] unfolding adv by (auto simp: poised_def)
        let ?A = "{v. \<exists>c\<in>set (take (?p - 1) ?cs). so_min_key s \<le> rc_key c \<and> v \<in> set (container_elems c)}"
        have a: "source_ahead (arnm_roaring_source_advance s) = ?A"
          unfolding adv using ahead [of "t (?p - 1)"] Some assms(2) by (simp add: t_def)
        have s: "source_ahead s = set (container_elems ?c) \<union> ?A" using ahead [of s] Some assms(2) True tk by auto
        have less: "arnm_roaring_key_of v < rc_key ?c" if h: "v \<in> ?A" for v
        proof -
          obtain e where e: "e \<in> set (take (?p - 1) ?cs)" "v \<in> set (container_elems e)" using h by blast
          then have "arnm_roaring_key_of v = rc_key e" using container_elems_ascending(2) [OF all e(2)] in_set_takeD by fast
          then show ?thesis using before [OF e(1)] by simp
        qed
        show ?thesis
          by (rule says_split [OF cur container_view_ok [OF c] ad]) (use s less assms(2) in \<open>simp_all add: a key_before_def\<close>)
      qed
    next
      case sparse
      let ?vs = "rb_values st"
      have vals: "length ?vs \<le> 1024" "\<forall>v\<in>set ?vs. v \<le> UINT32_MAX"
        using ok(1) sparse(1) by (simp_all add: roaring_ok_def values_ok_def arnm_roaring_is_sparse_def ARNM_ROARING_SPARSE_MAX_def)
      have pn: "?p \<le> length ?vs" using ok(3) sparse(1) by simp
      have ahead: "source_ahead u = {v\<in>set (take (so_position u) ?vs). so_min_key s \<le> arnm_roaring_key_of v}"
        if "so_set u = Some st" "so_descending u" "so_min_key u = so_min_key s" for u
        using that sparse(1) by (simp add: source_ahead_def)
      define key where "key = arnm_roaring_key_of (?vs ! (?p - 1))"
      have upto: "arnm_roaring_key_of v \<le> key" if h: "v \<in> set (take ?p ?vs)" for v
      proof -
        obtain i where "i < ?p" "v = ?vs ! i" "i < length ?vs" using h by (auto simp: in_set_conv_nth)
        then have "v \<le> ?vs ! (?p - 1)" using ascending_nth_le [OF sparse(4), of i "?p - 1"] pn by simp
        then show ?thesis unfolding key_def by (rule key_le)
      qed
      show ?thesis
      proof (cases "?p = 0 \<or> key < so_min_key s")
        case True
        have cur: "so_current s = None"
          using load_down(3) [of s0 st] Some d sparse(1) True unfolding s0 [symmetric] d key_def by blast
        have "source_ahead s = {}" using ahead [of s] Some assms(2) True upto by fastforce
        then show ?thesis using cur by (simp add: source_tells_def)
      next
        case False
        then have p: "?p \<noteq> 0" "so_min_key s \<le> key" by simp_all
        have l32: "length ?vs \<le> UINT32_MAX" using vals(1) by (simp add: UINT32_MAX_def)
        define i where "i = arnm_roaring_lower_bound32 ?vs ?p (push_bit 16 key)"
        note run = last_key_run [OF sparse(4) p(1) pn l32, folded key_def, folded i_def]
        let ?c = "source_view (s0\<lparr>so_current := None\<rparr>) ?vs i ?p key"
        have cur: "so_current s = Some ?c" "so_next s = i"
          using load_down(4) [of s0 st key i] Some d sparse(1) False key_def i_def unfolding s0 [symmetric] d by blast+
        have "?vs ! (?p - 1) \<in> set ?vs" using p(1) pn by simp
        then have k: "key < 65536" using vals(2) by (auto simp: key_def key_of_div UINT32_MAX_def)
        have len: "length (span i ?p ?vs) = ?p - i" using run(1) pn by (simp add: span_def)
        have asc: "ascending (span i ?p ?vs)" unfolding run(2) using sparse(4) by (intro sorted_wrt_filter sorted_wrt_take)
        have same: "\<forall>v\<in>set (span i ?p ?vs). arnm_roaring_key_of v = key" unfolding run(2) by simp
        have ne: "span i ?p ?vs \<noteq> []" using len run(1) by auto
        have "?p \<le> UINT32_MAX" using pn l32 by simp
        then have sz: "length (span i ?p ?vs) = sub32 ?p i" "length (span i ?p ?vs) \<le> 1024"
          using len run(1) pn vals(1) by simp_all
        note v = view_of_run [OF asc same k ne sz, where s = "s0\<lparr>so_current := None\<rparr>"]
        have adv: "arnm_roaring_source_advance s = arnm_roaring_source_load (t i)"
          using cur Some sparse(1) assms(2) by (simp add: arnm_roaring_source_advance_def t_def)
        have ad: "poised (arnm_roaring_source_advance s)" using t [of i] run(1) unfolding adv by (auto simp: poised_def)
        have a: "source_ahead (arnm_roaring_source_advance s) = {v\<in>set (take i ?vs). so_min_key s \<le> arnm_roaring_key_of v}"
          unfolding adv using ahead [of "t i"] Some assms(2) by (simp add: t_def)
        have s: "source_ahead s = {v\<in>set (take ?p ?vs). so_min_key s \<le> arnm_roaring_key_of v}" using ahead [of s] Some assms(2) by simp
        have "source_ahead s = set (container_elems ?c) \<union> source_ahead (arnm_roaring_source_advance s)"
          unfolding a s v(2) run(2,3) using upto p(2) by (auto simp: nat_less_le)
        moreover have "arnm_roaring_key_of v < key" if "v \<in> source_ahead (arnm_roaring_source_advance s)" for v
          using that unfolding a run(3) by simp
        ultimately show ?thesis
          by (intro says_split [OF cur(1) v(1) ad]) (simp_all only: v(3) key_before_def assms(2) if_True)
      qed
    qed
  qed
qed

lemma source_tells: "poised s \<Longrightarrow> source_tells s"
  using says_up says_down by blast

section \<open>Where a source begins\<close>

lemma container_after_bound:
  fixes key :: nat
  assumes "directory_ok s"
  defines "i \<equiv> arnm_roaring_container_after s key"
  shows "i \<le> rb_count s" "\<And>j. j < rb_count s \<Longrightarrow> rc_key (rb_containers s ! j) \<le> key \<longleftrightarrow> j < i"
proof -
  let ?ks = "map rc_key (rb_containers s)"
  have n: "rb_count s = length ?ks" and asc: "ascending ?ks" using assms(1) by (simp_all add: directory_ok_def)
  have nth: "rc_key (rb_containers s ! j) = ?ks ! j" if "j < length ?ks" for j using that by simp
  have "bound_search (\<lambda>m. rc_key (rb_containers s ! m) \<le> key) 0 (length ?ks) = bound_search (\<lambda>m. ?ks ! m \<le> key) 0 (length ?ks)"
    by (rule bound_search_cong) simp
  then have i: "i = arnm_roaring_upper_bound16 ?ks (length ?ks) key"
    unfolding i_def arnm_roaring_container_after_def arnm_roaring_upper_bound16_def n
    by (cases "rb_containers s = []") simp_all
  have u: "i \<le> length ?ks" "\<forall>j<length ?ks. ?ks ! j \<le> key \<longleftrightarrow> j < i"
    using upper_bound_index [OF asc, of key] unfolding i by blast+
  show "i \<le> rb_count s" using u(1) n by simp
  fix j assume "j < rb_count s"
  then have j: "j < length ?ks" unfolding n .
  show "rc_key (rb_containers s ! j) \<le> key \<longleftrightarrow> j < i" unfolding nth [OF j] using u(2) j by blast
qed

lemma in_drop_conv: "x \<in> set (drop n xs) \<longleftrightarrow> (\<exists>j<length xs. n \<le> j \<and> xs ! j = x)"
proof
  assume "x \<in> set (drop n xs)"
  then obtain i where "i < length xs - n" "xs ! (n + i) = x" by (auto simp: in_set_conv_nth)
  then show "\<exists>j<length xs. n \<le> j \<and> xs ! j = x" by (intro exI [of _ "n + i"]) auto
next
  assume "\<exists>j<length xs. n \<le> j \<and> xs ! j = x"
  then obtain j where j: "j < length xs" "n \<le> j" "xs ! j = x" by blast
  then have "j - n < length (drop n xs)" "drop n xs ! (j - n) = x" by simp_all
  then show "x \<in> set (drop n xs)" by (metis nth_mem)
qed

lemma begin_ok:
  fixes mn mx :: nat and d :: bool
  assumes "case st of None \<Rightarrow> True | Some st \<Rightarrow> roaring_ok st" "mx \<le> UINT32_MAX"
  defines "s \<equiv> arnm_roaring_source_begin st mn mx d False"
  shows "poised s" "so_descending s = d"
    "source_ahead s = (case st of None \<Rightarrow> {} | Some st \<Rightarrow>
      {v\<in>set (elems st). arnm_roaring_key_of mn \<le> arnm_roaring_key_of v \<and> arnm_roaring_key_of v \<le> arnm_roaring_key_of mx})"
proof -
  let ?n = "arnm_roaring_key_of mn" and ?x = "arnm_roaring_key_of mx"
  have mx: "?x < 65536" using assms(2) by (simp add: key_of_div UINT32_MAX_def)
  define p where "p = (case st of None \<Rightarrow> 0
      | Some st \<Rightarrow>
        if \<not> arnm_roaring_is_sparse st then (if d then arnm_roaring_container_after st ?x else arnm_roaring_first_container st ?n)
        else
          (if d then arnm_roaring_upper_bound32 (rb_values st) (rb_cardinality st) (arnm_roaring_value_of ?x 65535)
           else arnm_roaring_lower_bound32 (rb_values st) (rb_cardinality st) (arnm_roaring_value_of ?n 0)))"
  define s0 where "s0 = \<lparr>so_set = st, so_min_key = ?n, so_max_key = ?x, so_descending = d, so_position = p, so_next = 0,
    so_buffer = False, so_current = None\<rparr>"
  have s: "s = arnm_roaring_source_load s0" by (simp add: s_def arnm_roaring_source_begin_def Let_def s0_def p_def)
  show "so_descending s = d" by (simp add: s s0_def)
  have "placed_source s0 \<and> source_ahead s0 = (case st of None \<Rightarrow> {} | Some st \<Rightarrow>
      {v\<in>set (elems st). ?n \<le> arnm_roaring_key_of v \<and> arnm_roaring_key_of v \<le> ?x})"
  proof (cases st)
    case None
    then show ?thesis using mx by (simp add: placed_source_def source_ahead_def s0_def)
  next
    case (Some a)
    then have ok: "roaring_ok a" using assms(1) by simp
    from ok show ?thesis
    proof (cases rule: roaring_cases)
      case sparse
      have ge: "arnm_roaring_value_of ?n 0 \<le> v \<longleftrightarrow> ?n \<le> arnm_roaring_key_of v" for v
        using less_eq_div_iff_mult_less_eq [of 65536 ?n v] by (simp add: value_of_sum key_of_div)
      have le: "v \<le> arnm_roaring_value_of ?x 65535 \<longleftrightarrow> arnm_roaring_key_of v \<le> ?x" for v
        using div_less_iff_less_mult [of 65536 v "Suc ?x"] by (auto simp: value_of_sum key_of_div less_Suc_eq_le)
      note lb = lower_bound_split [OF sparse(4), of "arnm_roaring_value_of ?n 0"]
      note ub = upper_bound_split [OF sparse(4), of "arnm_roaring_value_of ?x 65535"]
      have p: "p = (if d then arnm_roaring_upper_bound16 (rb_values a) (length (rb_values a)) (arnm_roaring_value_of ?x 65535)
          else arnm_roaring_lower_bound16 (rb_values a) (length (rb_values a)) (arnm_roaring_value_of ?n 0))"
        using Some sparse(1,3) by (simp add: p_def bounds_32_16)
      have "p \<le> length (rb_values a)" using lb(1) ub(1) unfolding p by simp
      moreover have "d \<Longrightarrow> set (take p (rb_values a)) = {v\<in>set (rb_values a). arnm_roaring_key_of v \<le> ?x}"
        using ub(2) le by (simp add: p)
      moreover have "\<not> d \<Longrightarrow> set (drop p (rb_values a)) = {v\<in>set (rb_values a). ?n \<le> arnm_roaring_key_of v}"
        using lb(3) ge by (simp add: p)
      ultimately show ?thesis using Some sparse(1,2) ok mx by (cases d) (auto simp: placed_source_def source_ahead_def s0_def)
    next
      case directory
      let ?cs = "rb_containers a"
      have n: "rb_count a = length ?cs" and all: "\<And>c. c \<in> set ?cs \<Longrightarrow> container_ok c" using directory(3) by (simp_all add: directory_ok_def)
      have p: "p = (if d then arnm_roaring_container_after a ?x else arnm_roaring_first_container a ?n)"
        using Some directory(1) by (simp add: p_def)
      note fi = first_container_bound [OF directory(3), where key = ?n]
      note la = container_after_bound [OF directory(3), where key = ?x]
      have "p \<le> rb_count a" using fi(1) la(1) by (simp add: p)
      moreover have "c \<in> set (take p ?cs) \<longleftrightarrow> c \<in> set ?cs \<and> rc_key c \<le> ?x" if "d" for c
      proof -
        have "c \<in> set (take p ?cs) \<longleftrightarrow> (\<exists>j<length ?cs. j < p \<and> ?cs ! j = c)" by (auto simp: in_set_conv_nth)
        also have "\<dots> \<longleftrightarrow> c \<in> set ?cs \<and> rc_key c \<le> ?x" using la(2) that n by (auto simp: in_set_conv_nth p)
        finally show ?thesis .
      qed
      moreover have "c \<in> set (drop p ?cs) \<longleftrightarrow> c \<in> set ?cs \<and> ?n \<le> rc_key c" if "\<not> d" for c
      proof -
        have "c \<in> set (drop p ?cs) \<longleftrightarrow> (\<exists>j<length ?cs. p \<le> j \<and> ?cs ! j = c)"
          by (rule in_drop_conv)
        also have "\<dots> \<longleftrightarrow> c \<in> set ?cs \<and> ?n \<le> rc_key c" using fi(2) that n by (auto simp: in_set_conv_nth p not_less [symmetric])
        finally show ?thesis .
      qed
      moreover have "v \<in> set (elems a) \<longleftrightarrow> (\<exists>c\<in>set ?cs. v \<in> set (container_elems c))" for v unfolding directory(2) by auto
      moreover have "arnm_roaring_key_of v = rc_key c" if "c \<in> set ?cs" "v \<in> set (container_elems c)" for c v
        using container_elems_ascending(2) [OF all [OF that(1)] that(2)] ..
      ultimately show ?thesis using Some directory(1) ok mx by (cases d) (auto simp: placed_source_def source_ahead_def s0_def)
    qed
  qed
  then show "poised s" "source_ahead s = (case st of None \<Rightarrow> {} | Some st \<Rightarrow>
      {v\<in>set (elems st). ?n \<le> arnm_roaring_key_of v \<and> arnm_roaring_key_of v \<le> ?x})"
    unfolding s by (auto simp: poised_def)
qed

end
