(* ===== verification/Roaring_Walk_Proofs.thy ===== *)
theory Roaring_Walk_Proofs
  imports Roaring_Walk
begin

text \<open>
  What the walk of a query promises: it ends, and the keys it delivers, in their order, hold together exactly
  the values that match. \<open>kpos\<close> is the place of a key in the direction of the walk; a source \<open>covers\<close> a set
  from a place on when it has ahead just what the set has from there on.
\<close>

definition kpos :: "bool \<Rightarrow> nat \<Rightarrow> nat" where
  "kpos d key = (if d then 65535 - key else key)"

lemma kpos_less: "key < 65536 \<Longrightarrow> kpos d key < 65536"
  by (auto simp: kpos_def)

lemma key_before_kpos: "a < 65536 \<Longrightarrow> b < 65536 \<Longrightarrow> key_before a b d \<longleftrightarrow> kpos d a < kpos d b"
  by (auto simp: key_before_def kpos_def)

lemma kpos_eq: "a < 65536 \<Longrightarrow> b < 65536 \<Longrightarrow> kpos d a = kpos d b \<longleftrightarrow> a = b"
  by (auto simp: kpos_def)

abbreviation place :: "bool \<Rightarrow> nat \<Rightarrow> nat" where
  "place d v \<equiv> kpos d (arnm_roaring_key_of v)"

lemma ahead_elems:
  assumes "poised s" "v \<in> source_ahead s"
  obtains st where "so_set s = Some st" "roaring_ok st" "v \<in> set (elems st)"
proof (cases "so_set s")
  case (Some st)
  have ok: "roaring_ok st" using assms(1) Some by (simp add: poised_def placed_source_def)
  from ok have "v \<in> set (elems st)"
  proof (cases rule: roaring_cases)
    case sparse
    then show ?thesis using assms(2) Some by (auto simp: source_ahead_def dest: in_set_takeD in_set_dropD split: if_splits)
  next
    case directory
    then show ?thesis using assms(2) Some unfolding directory(2)
      by (auto simp: source_ahead_def dest: in_set_takeD in_set_dropD split: if_splits)
  qed
  then show ?thesis using that Some ok by blast
qed (use assms(2) in \<open>simp add: source_ahead_def\<close>)

lemma elems_small: "roaring_ok st \<Longrightarrow> v \<in> set (elems st) \<Longrightarrow> v \<le> UINT32_MAX"
proof -
  assume ok: "roaring_ok st" and v: "v \<in> set (elems st)"
  from ok show ?thesis
  proof (cases rule: roaring_cases)
    case sparse
    then show ?thesis using ok v by (simp add: roaring_ok_def values_ok_def arnm_roaring_is_sparse_def)
  next
    case directory
    then obtain c where "c \<in> set (rb_containers st)" "v \<in> set (container_elems c)" "container_ok c"
      using v by (auto simp: directory_ok_def)
    then show ?thesis using container_elems_ascending(2) by blast
  qed
qed

lemma key_small: "v \<le> UINT32_MAX \<Longrightarrow> arnm_roaring_key_of v < 65536"
  by (simp add: key_of_div UINT32_MAX_def less_mult_imp_div_less)

lemma ahead_small: "poised s \<Longrightarrow> v \<in> source_ahead s \<Longrightarrow> arnm_roaring_key_of v < 65536"
  by (erule (1) ahead_elems) (use elems_small key_small in blast)

lemma ahead_finite: "poised s \<Longrightarrow> finite (source_ahead s)"
proof -
  assume p: "poised s"
  have "v \<le> UINT32_MAX" if "v \<in> source_ahead s" for v by (rule ahead_elems [OF p that]) (rule elems_small)
  then show ?thesis by (intro finite_subset [OF _ finite_atMost [of UINT32_MAX]] subsetI) simp
qed

text \<open>A source stands on the first key it has ahead.\<close>

lemma standing_ok:
  assumes "poised s" "so_current s = Some c"
  shows "view_ok c" "rc_key c < 65536" "set (container_elems c) \<noteq> {}" "set (container_elems c) = {v\<in>source_ahead s. arnm_roaring_key_of v = rc_key c}"
    "\<And>v. v \<in> source_ahead s \<Longrightarrow> kpos (so_descending s) (rc_key c) \<le> place (so_descending s) v"
    "poised (arnm_roaring_source_advance s)" "source_ahead (arnm_roaring_source_advance s) = source_ahead s - set (container_elems c)"
    "\<And>v. v \<in> source_ahead (arnm_roaring_source_advance s) \<Longrightarrow> kpos (so_descending s) (rc_key c) < place (so_descending s) v"
proof -
  have s: "view_ok c" "set (container_elems c) = {v\<in>source_ahead s. arnm_roaring_key_of v = rc_key c}"
    "poised (arnm_roaring_source_advance s)" "source_ahead (arnm_roaring_source_advance s) = source_ahead s - set (container_elems c)"
    "\<forall>v\<in>source_ahead (arnm_roaring_source_advance s). key_before (rc_key c) (arnm_roaring_key_of v) (so_descending s)"
    using source_tells [OF assms(1)] assms(2) by (simp_all add: source_tells_def)
  show "view_ok c" "set (container_elems c) = {v\<in>source_ahead s. arnm_roaring_key_of v = rc_key c}"
    "poised (arnm_roaring_source_advance s)" "source_ahead (arnm_roaring_source_advance s) = source_ahead s - set (container_elems c)" using s by blast+
  show k: "rc_key c < 65536" "set (container_elems c) \<noteq> {}" using s(1) by (simp_all add: view_ok_def container_elems_def)
  show l: "kpos (so_descending s) (rc_key c) < place (so_descending s) v" if "v \<in> source_ahead (arnm_roaring_source_advance s)" for v
    using s(5) that key_before_kpos [OF k(1) ahead_small [OF s(3) that]] by blast
  show "kpos (so_descending s) (rc_key c) \<le> place (so_descending s) v" if "v \<in> source_ahead s" for v
  proof (cases "v \<in> set (container_elems c)")
    case True
    then show ?thesis unfolding s(2) by simp
  next
    case False
    then show ?thesis using l [of v] that unfolding s(4) by simp
  qed
qed

lemma current_none: "poised s \<Longrightarrow> so_current s = None \<Longrightarrow> source_ahead s = {}"
  using source_tells [of s] by (simp add: source_tells_def)

lemma source_seek_ok:
  assumes "poised s" "so_descending s = d" "key < 65536"
  shows "\<exists>s'. source_seek s key d = Some s' \<and> poised s' \<and> so_descending s' = d \<and>
    source_ahead s' = {v\<in>source_ahead s. kpos d key \<le> place d v}"
  using assms
proof (induction "card (source_ahead s)" arbitrary: s rule: less_induct)
  case less
  show ?case
  proof (cases "so_current s")
    case None
    then show ?thesis using less.prems current_none [OF less.prems(1)] by (simp add: source_seek.simps)
  next
    case (Some c)
    note c = standing_ok [OF less.prems(1) Some, unfolded less.prems(2)]
    show ?thesis
    proof (cases "key_before (rc_key c) key d")
      case True
      let ?a = "arnm_roaring_source_advance s"
      obtain u where u: "u \<in> set (container_elems c)" using c(3) by (metis ex_in_conv)
      then have "u \<in> source_ahead s" unfolding c(4) by blast
      then have "source_ahead ?a \<subset> source_ahead s" unfolding c(7) using u by blast
      from psubset_card_mono [OF ahead_finite [OF less.prems(1)] this] have "card (source_ahead ?a) < card (source_ahead s)" .
      from less.hyps [OF this c(6) _ assms(3)] less.prems(2) obtain s' where
        s': "source_seek ?a key d = Some s'" "poised s'" "so_descending s' = d" "source_ahead s' = {v\<in>source_ahead ?a. kpos d key \<le> place d v}"
        by auto
      have "kpos d (rc_key c) < kpos d key" using True key_before_kpos [OF c(2) assms(3)] by blast
      then have "source_ahead s' = {v\<in>source_ahead s. kpos d key \<le> place d v}" unfolding s'(4) c(7) c(4) by auto
      moreover have "source_seek s key d = Some s'" using s'(1) Some True by (simp add: source_seek.simps [of s])
      ultimately show ?thesis using s'(2,3) by blast
    next
      case False
      then have "kpos d key \<le> kpos d (rc_key c)" using key_before_kpos [OF c(2) assms(3)] by (simp add: not_less)
      then have "{v\<in>source_ahead s. kpos d key \<le> place d v} = source_ahead s" using c(5) by fastforce
      moreover have "source_seek s key d = Some s" using Some False by (simp add: source_seek.simps [of s])
      ultimately show ?thesis using less.prems by blast
    qed
  qed
qed

definition covers :: "bool \<Rightarrow> nat \<Rightarrow> roaring_source \<Rightarrow> nat set \<Rightarrow> bool" where
  "covers d b s A \<longleftrightarrow> poised s \<and> so_descending s = d \<and> {v\<in>source_ahead s. b \<le> place d v} = {v\<in>A. b \<le> place d v}"

definition past :: "bool \<Rightarrow> nat \<Rightarrow> roaring_source \<Rightarrow> bool" where
  "past d b s \<longleftrightarrow> (\<forall>v\<in>source_ahead s. b \<le> place d v)"

lemma covers_mono: "covers d b s A \<Longrightarrow> b \<le> b' \<Longrightarrow> covers d b' s A"
  unfolding covers_def set_eq_iff mem_Collect_eq using le_trans by blast

lemma covers_in: "covers d b s A \<Longrightarrow> b \<le> place d v \<Longrightarrow> v \<in> source_ahead s \<longleftrightarrow> v \<in> A"
  unfolding covers_def set_eq_iff mem_Collect_eq by blast

lemma past_mono: "past d b' s \<Longrightarrow> b \<le> b' \<Longrightarrow> past d b s"
  unfolding past_def using le_trans by blast

lemma seek_covers:
  assumes "covers d b s A" "b \<le> kpos d key" "key < 65536"
  obtains s' where "source_seek s key d = Some s'" "covers d (kpos d key) s' A" "past d (kpos d key) s'"
proof -
  obtain s' where s': "source_seek s key d = Some s'" "poised s'" "so_descending s' = d"
    "source_ahead s' = {v\<in>source_ahead s. kpos d key \<le> place d v}"
    using source_seek_ok [of s d key] assms(1,3) by (auto simp: covers_def)
  have "covers d (kpos d key) s' A"
    using s'(2-4) covers_in [OF covers_mono [OF assms(1,2)]] by (auto simp: covers_def)
  then show ?thesis using that s'(1,4) by (simp add: past_def)
qed

lemma past_current: "poised s \<Longrightarrow> so_current s = Some c \<Longrightarrow> past d b s \<Longrightarrow> b \<le> kpos d (rc_key c)"
proof -
  assume p: "poised s" and c: "so_current s = Some c" and b: "past d b s"
  note o = standing_ok [OF p c]
  obtain v where "v \<in> set (container_elems c)" using o(3) by (metis ex_in_conv)
  then have "v \<in> source_ahead s" "arnm_roaring_key_of v = rc_key c" unfolding o(4) by simp_all
  then show ?thesis using b by (auto simp: past_def)
qed

text \<open>Of a source that is past all before a key: it has the key just where its set does.\<close>

lemma at_key:
  assumes "covers d (kpos d key) s A" "past d (kpos d key) s" "key < 65536"
  shows "stands_at key s \<Longrightarrow> \<exists>c. so_current s = Some c \<and> view_ok c \<and> rc_key c = key \<and>
      (\<forall>x<65536. x \<in> set (lows c) \<longleftrightarrow> arnm_roaring_value_of key x \<in> A)"
    "\<not> stands_at key s \<Longrightarrow> v \<in> A \<Longrightarrow> arnm_roaring_key_of v \<noteq> key"
proof -
  have s: "poised s" "so_descending s = d" using assms(1) by (simp_all add: covers_def)
  show "\<exists>c. so_current s = Some c \<and> view_ok c \<and> rc_key c = key \<and> (\<forall>x<65536. x \<in> set (lows c) \<longleftrightarrow> arnm_roaring_value_of key x \<in> A)"
    if h: "stands_at key s"
  proof -
    obtain c where c: "so_current s = Some c" "rc_key c = key" using h by (auto simp: stands_at_def split: option.splits)
    note o = standing_ok [OF s(1) c(1), unfolded c(2)]
    have "x \<in> set (lows c) \<longleftrightarrow> arnm_roaring_value_of key x \<in> A" if "x < 65536" for x
    proof -
      have "x \<in> set (lows c) \<longleftrightarrow> arnm_roaring_value_of key x \<in> set (container_elems c)"
        using view_elems [OF o(1), of "arnm_roaring_value_of key x"] that c(2) by simp
      also have "\<dots> \<longleftrightarrow> arnm_roaring_value_of key x \<in> source_ahead s" unfolding o(4) using that by simp
      also have "\<dots> \<longleftrightarrow> arnm_roaring_value_of key x \<in> A" using that by (intro covers_in [OF assms(1)]) simp
      finally show ?thesis .
    qed
    then show ?thesis using c o(1) by blast
  qed
  show "arnm_roaring_key_of v \<noteq> key" if n: "\<not> stands_at key s" "v \<in> A"
  proof
    assume k: "arnm_roaring_key_of v = key"
    then have v: "v \<in> source_ahead s" using covers_in [OF assms(1), of v] n(2) by simp
    then obtain c where c: "so_current s = Some c" using current_none [OF s(1)] by (cases "so_current s") auto
    note o = standing_ok [OF s(1) c, unfolded s(2)]
    have "kpos d (rc_key c) \<le> kpos d key" using o(5) [OF v] k by simp
    moreover have "kpos d key \<le> kpos d (rc_key c)" using past_current [OF s(1) c assms(2)] .
    ultimately have "rc_key c = key" using kpos_eq [OF o(2) assms(3)] by simp
    then show False using n(1) c by (simp add: stands_at_def)
  qed
qed

section \<open>Aligning the sources of \<open>all\<close>\<close>

lemma align_pass_ok:
  assumes "list_all2 (covers d b) ss As" "b \<le> kpos d key" "key < 65536"
    and "\<And>v A. P v \<Longrightarrow> A \<in> set As \<Longrightarrow> v \<in> A" "\<And>v. P v \<Longrightarrow> b \<le> place d v \<Longrightarrow> kpos d key \<le> place d v"
  shows "\<exists>r. align_pass d ss key al = Some r \<and>
    (case r of None \<Rightarrow> \<forall>v. P v \<longrightarrow> \<not> b \<le> place d v
     | Some (ss', key', al') \<Rightarrow> key' < 65536 \<and> kpos d key \<le> kpos d key' \<and> (\<forall>v. P v \<longrightarrow> b \<le> place d v \<longrightarrow> kpos d key' \<le> place d v) \<and>
         list_all2 (covers d (kpos d key')) ss' As \<and> (\<forall>s\<in>set ss'. past d (kpos d key) s) \<and>
         (if al' then al \<and> key' = key \<and> (\<forall>s\<in>set ss'. stands_at key s) else al \<longrightarrow> kpos d key < kpos d key'))"
  using assms
proof (induction ss arbitrary: As key al)
  case (Cons s ss)
  obtain A As' where As: "As = A # As'" "covers d b s A" "list_all2 (covers d b) ss As'" using Cons.prems(1) by (auto simp: list_all2_Cons1)
  obtain s' where s': "source_seek s key d = Some s'" "covers d (kpos d key) s' A" "past d (kpos d key) s'"
    using seek_covers [OF As(2) Cons.prems(2,3)] by blast
  have sp: "poised s'" "so_descending s' = d" using s'(2) by (simp_all add: covers_def)
  have inA: "v \<in> source_ahead s'" if "P v" "b \<le> place d v" for v
    using covers_in [OF s'(2) Cons.prems(5) [OF that]] Cons.prems(4) [OF that(1)] As(1) by simp
  show ?case
  proof (cases "so_current s'")
    case None
    then have "\<forall>v. P v \<longrightarrow> \<not> b \<le> place d v" using inA current_none [OF sp(1)] by blast
    then show ?thesis using s'(1) None by simp
  next
    case (Some c)
    note o = standing_ok [OF sp(1) Some, unfolded sp(2)]
    have le: "kpos d key \<le> kpos d (rc_key c)" using past_current [OF sp(1) Some s'(3)] .
    have P: "\<And>v A. P v \<Longrightarrow> A \<in> set As' \<Longrightarrow> v \<in> A" using Cons.prems(4) As(1) by simp
    show ?thesis
    proof (cases "rc_key c = key")
      case True
      obtain r where r: "align_pass d ss key al = Some r"
        "case r of None \<Rightarrow> \<forall>v. P v \<longrightarrow> \<not> b \<le> place d v
         | Some (ss', key', al') \<Rightarrow> key' < 65536 \<and> kpos d key \<le> kpos d key' \<and> (\<forall>v. P v \<longrightarrow> b \<le> place d v \<longrightarrow> kpos d key' \<le> place d v) \<and>
             list_all2 (covers d (kpos d key')) ss' As' \<and> (\<forall>s\<in>set ss'. past d (kpos d key) s) \<and>
             (if al' then al \<and> key' = key \<and> (\<forall>s\<in>set ss'. stands_at key s) else al \<longrightarrow> kpos d key < kpos d key')"
        using Cons.IH [OF As(3) Cons.prems(2,3) P Cons.prems(5), where al = al] by blast
      have run: "align_pass d (s # ss) key al = Some (map_option (\<lambda>(ss, key, al). (s' # ss, key, al)) r)"
        using s'(1) Some True r(1) by simp
      have "stands_at key s'" using Some True by (simp add: stands_at_def)
      then show ?thesis unfolding run using r(2) s'(2,3) As(1) covers_mono [OF s'(2)] by (auto split: option.splits if_splits)
    next
      case False
      then have lt: "kpos d key < kpos d (rc_key c)" using le kpos_eq [OF o(2) Cons.prems(3), of d] by linarith
      have b: "b \<le> kpos d (rc_key c)" using le Cons.prems(2) by simp
      have Q: "\<And>v. P v \<Longrightarrow> b \<le> place d v \<Longrightarrow> kpos d (rc_key c) \<le> place d v" using o(5) inA by blast
      obtain r where r: "align_pass d ss (rc_key c) False = Some r"
        "case r of None \<Rightarrow> \<forall>v. P v \<longrightarrow> \<not> b \<le> place d v
         | Some (ss', key', al') \<Rightarrow> key' < 65536 \<and> kpos d (rc_key c) \<le> kpos d key' \<and> (\<forall>v. P v \<longrightarrow> b \<le> place d v \<longrightarrow> kpos d key' \<le> place d v) \<and>
             list_all2 (covers d (kpos d key')) ss' As' \<and> (\<forall>s\<in>set ss'. past d (kpos d (rc_key c)) s) \<and>
             (if al' then False \<and> key' = rc_key c \<and> (\<forall>s\<in>set ss'. stands_at (rc_key c) s) else False \<longrightarrow> kpos d (rc_key c) < kpos d key')"
        using Cons.IH [OF As(3) b o(2) P Q, where al = False] by blast
      have run: "align_pass d (s # ss) key al = Some (map_option (\<lambda>(ss, key, al). (s' # ss, key, al)) r)"
        using s'(1) Some False r(1) by simp
      show ?thesis unfolding run using r(2) s'(2,3) As(1) covers_mono [OF s'(2)] lt past_mono [of d "kpos d (rc_key c)" _ "kpos d key"]
        by (auto split: option.splits if_splits)
    qed
  qed
qed simp

lemma align_ok:
  assumes "list_all2 (covers d b) ss As" "b \<le> kpos d key" "key < 65536"
    and "\<And>v A. P v \<Longrightarrow> A \<in> set As \<Longrightarrow> v \<in> A" "\<And>v. P v \<Longrightarrow> b \<le> place d v \<Longrightarrow> kpos d key \<le> place d v"
  shows "\<exists>r. align d ss key = Some r \<and>
    (case r of None \<Rightarrow> \<forall>v. P v \<longrightarrow> \<not> b \<le> place d v
     | Some (ss', key') \<Rightarrow> key' < 65536 \<and> b \<le> kpos d key' \<and> (\<forall>v. P v \<longrightarrow> b \<le> place d v \<longrightarrow> kpos d key' \<le> place d v) \<and>
         list_all2 (covers d (kpos d key')) ss' As \<and> (\<forall>s\<in>set ss'. past d (kpos d key') s \<and> stands_at key' s))"
  using assms
proof (induction "65536 - kpos d key" arbitrary: ss key b rule: less_induct)
  case less
  obtain r where r: "align_pass d ss key True = Some r"
    "case r of None \<Rightarrow> \<forall>v. P v \<longrightarrow> \<not> b \<le> place d v
     | Some (ss', key', al') \<Rightarrow> key' < 65536 \<and> kpos d key \<le> kpos d key' \<and> (\<forall>v. P v \<longrightarrow> b \<le> place d v \<longrightarrow> kpos d key' \<le> place d v) \<and>
         list_all2 (covers d (kpos d key')) ss' As \<and> (\<forall>s\<in>set ss'. past d (kpos d key) s) \<and>
         (if al' then True \<and> key' = key \<and> (\<forall>s\<in>set ss'. stands_at key s) else True \<longrightarrow> kpos d key < kpos d key')"
    using align_pass_ok [OF less.prems, where al = True] by blast
  show ?case
  proof (cases r)
    case None
    then show ?thesis using r by (simp add: align.simps [of d ss key])
  next
    case (Some t)
    obtain ss' key' al' where t: "t = (ss', key', al')" by (rule prod_cases3)
    show ?thesis
    proof (cases al')
      case True
      have "align d ss key = Some (Some (ss', key'))" using r(1) True by (simp add: align.simps [of d ss key] Some t)
      then show ?thesis using r(2) True less.prems(2) by (auto simp: Some t)
    next
      case False
      have k: "key' < 65536" "kpos d key < kpos d key'" "\<And>v. P v \<Longrightarrow> b \<le> place d v \<Longrightarrow> kpos d key' \<le> place d v"
        "list_all2 (covers d (kpos d key')) ss' As" using r(2) False by (simp_all add: Some t)
      have "65536 - kpos d key' < 65536 - kpos d key" using k(2) kpos_less [OF less.prems(3), of d] by simp
      from less.hyps [OF this k(4) le_refl k(1) less.prems(4)] obtain r' where r': "align d ss' key' = Some r'"
        "case r' of None \<Rightarrow> \<forall>v. P v \<longrightarrow> \<not> kpos d key' \<le> place d v
         | Some (ss'', key'') \<Rightarrow> key'' < 65536 \<and> kpos d key' \<le> kpos d key'' \<and> (\<forall>v. P v \<longrightarrow> kpos d key' \<le> place d v \<longrightarrow> kpos d key'' \<le> place d v) \<and>
             list_all2 (covers d (kpos d key'')) ss'' As \<and> (\<forall>s\<in>set ss''. past d (kpos d key'') s \<and> stands_at key'' s)" by blast
      have "align d ss key = Some r'" using r(1) r'(1) False by (simp add: align.simps [of d ss key] Some t)
      moreover have "b \<le> kpos d key'" using less.prems(2) k(2) by simp
      ultimately show ?thesis using r'(2) k(3) by (cases r') auto
    qed
  qed
qed

section \<open>The next key\<close>

lemma first_key_ok:
  assumes "\<forall>s\<in>set ss. poised s \<and> so_descending s = d"
  shows "case first_key d ss of
      None \<Rightarrow> \<forall>s\<in>set ss. source_ahead s = {}
    | Some k \<Rightarrow> k < 65536 \<and> (\<exists>s\<in>set ss. stands_at k s) \<and> (\<forall>s\<in>set ss. past d (kpos d k) s)"
proof -
  define f where "f = (\<lambda>(s :: roaring_source) found.
      case so_current s of
        None \<Rightarrow> found
      | Some c \<Rightarrow>
          (case found of
             None \<Rightarrow> Some (rc_key c)
           | Some key \<Rightarrow> if key_before (rc_key c) key d then Some (rc_key c) else Some key))"
  define good where "good = (\<lambda>seen found. case found of
        None \<Rightarrow> \<forall>s\<in>seen. source_ahead s = {}
      | Some k \<Rightarrow> k < 65536 \<and> (\<exists>s\<in>seen. stands_at k s) \<and> (\<forall>s\<in>seen. past d (kpos d k) s))"
  have step: "good (insert s seen) (f s found)" if "good seen found" "poised s" "so_descending s = d" for s seen found
  proof (cases "so_current s")
    case None
    then have "source_ahead s = {}" using current_none [OF that(2)] by blast
    then show ?thesis using that(1) None by (auto simp: good_def f_def past_def split: option.splits)
  next
    case (Some c)
    note o = standing_ok [OF that(2) Some, unfolded that(3)]
    have s: "stands_at (rc_key c) s" "past d (kpos d (rc_key c)) s" using Some o(5) by (simp_all add: stands_at_def past_def)
    show ?thesis
    proof (cases found)
      case None
      then show ?thesis using that(1) Some o(2) s by (auto simp: good_def f_def past_def)
    next
      case (Some k)
      have k: "k < 65536" "\<exists>s\<in>seen. stands_at k s" "\<forall>s\<in>seen. past d (kpos d k) s" using that(1) Some by (simp_all add: good_def)
      note b = key_before_kpos [OF o(2) k(1), of d]
      show ?thesis
      proof (cases "kpos d (rc_key c) < kpos d k")
        case True
        have "past d (kpos d (rc_key c)) t" if "t \<in> seen" for t
          using past_mono [of d "kpos d k" t "kpos d (rc_key c)"] k(3) that True by simp
        then show ?thesis using Some \<open>so_current s = Some c\<close> b True o(2) s by (simp add: good_def f_def)
      next
        case False
        have "past d (kpos d k) s" using past_mono [OF s(2)] False by simp
        then show ?thesis using Some \<open>so_current s = Some c\<close> b False k by (auto simp: good_def f_def)
      qed
    qed
  qed
  have "good (seen \<union> set ss) (fold f ss found)" if "good seen found" for seen found
    using that assms
  proof (induction ss arbitrary: seen found)
    case (Cons s ss)
    from Cons.IH [OF step [OF Cons.prems(1)]] Cons.prems(2) show ?case by simp
  qed simp
  from this [of "{}" None] have "good (set ss) (fold f ss None)" by (simp add: good_def)
  moreover have "first_key d ss = fold f ss None" by (simp add: first_key_def f_def)
  ultimately show ?thesis by (simp add: good_def)
qed

text \<open>What a query asks for, of the sets \<open>As\<close>, \<open>Ys\<close> and \<open>Ns\<close> of its three lists.\<close>

definition matches :: "nat set list \<Rightarrow> nat set list \<Rightarrow> nat set list \<Rightarrow> nat \<Rightarrow> nat \<Rightarrow> nat \<Rightarrow> bool" where
  "matches As Ys Ns mn mx v \<longleftrightarrow> (As \<noteq> [] \<or> Ys \<noteq> []) \<and> (\<forall>A\<in>set As. v \<in> A) \<and> (Ys \<noteq> [] \<longrightarrow> (\<exists>Y\<in>set Ys. v \<in> Y)) \<and>
    (\<forall>N\<in>set Ns. v \<notin> N) \<and> mn \<le> v \<and> v \<le> mx"

definition walk_ok :: "nat set list \<Rightarrow> nat set list \<Rightarrow> nat set list \<Rightarrow> query_walk \<Rightarrow> nat \<Rightarrow> bool" where
  "walk_ok As Ys Ns w b \<longleftrightarrow> wk_min w \<le> wk_max w \<and> wk_max w \<le> UINT32_MAX \<and>
    list_all2 (covers (wk_descending w) b) (wk_all w) As \<and> list_all2 (covers (wk_descending w) b) (wk_any w) Ys \<and>
    list_all2 (covers (wk_descending w) b) (wk_none w) Ns \<and>
    (\<forall>A\<in>set As \<union> set Ys. \<forall>v\<in>A. arnm_roaring_key_of (wk_min w) \<le> arnm_roaring_key_of v \<and>
      arnm_roaring_key_of v \<le> arnm_roaring_key_of (wk_max w)) \<and>
    (if wk_have_key w then
       wk_key w < 65536 \<and> b = Suc (kpos (wk_descending w) (wk_key w)) \<and>
       (\<forall>s\<in>set (wk_all w) \<union> set (wk_any w). past (wk_descending w) (kpos (wk_descending w) (wk_key w)) s)
     else \<forall>s\<in>set (wk_all w) \<union> set (wk_any w). past (wk_descending w) b s)"

lemma leave_source_ok:
  assumes "covers d (Suc (kpos d key)) s A" "past d (kpos d key) s" "key < 65536"
  shows "covers d (Suc (kpos d key)) (leave_source key s) A" "past d (Suc (kpos d key)) (leave_source key s)"
proof -
  have s: "poised s" "so_descending s = d" using assms(1) by (simp_all add: covers_def)
  have "covers d (Suc (kpos d key)) (leave_source key s) A \<and> past d (Suc (kpos d key)) (leave_source key s)"
  proof (cases "so_current s")
    case None
    then show ?thesis using assms(1) current_none [OF s(1) None] by (simp add: leave_source_def past_def)
  next
    case (Some c)
    note o = standing_ok [OF s(1) Some, unfolded s(2)]
    show ?thesis
    proof (cases "rc_key c = key")
      case True
      then have l: "leave_source key s = arnm_roaring_source_advance s" using Some by (simp add: leave_source_def)
      have "{v\<in>source_ahead s - set (container_elems c). Suc (kpos d key) \<le> place d v} = {v\<in>source_ahead s. Suc (kpos d key) \<le> place d v}"
        using o(4) True by auto
      moreover have "so_descending (arnm_roaring_source_advance s) = d" using s(2) by simp
      moreover have "{v\<in>source_ahead s. Suc (kpos d key) \<le> place d v} = {v\<in>A. Suc (kpos d key) \<le> place d v}"
        using assms(1) by (simp add: covers_def)
      ultimately have "covers d (Suc (kpos d key)) (arnm_roaring_source_advance s) A" using o(6) unfolding covers_def o(7) by simp
      moreover have "past d (Suc (kpos d key)) (arnm_roaring_source_advance s)" using o(8) True unfolding past_def Suc_le_eq by simp
      ultimately show ?thesis unfolding l by blast
    next
      case False
      then have l: "leave_source key s = s" using Some by (simp add: leave_source_def)
      have "kpos d key \<noteq> kpos d (rc_key c)" using False kpos_eq [OF o(2) assms(3), of d] by simp
      then have "Suc (kpos d key) \<le> kpos d (rc_key c)" using past_current [OF s(1) Some assms(2)] by simp
      then show ?thesis using assms(1) o(5) unfolding l past_def using le_trans by blast
    qed
  qed
  then show "covers d (Suc (kpos d key)) (leave_source key s) A" "past d (Suc (kpos d key)) (leave_source key s)" by blast+
qed

lemma leave_key_ok:
  assumes "walk_ok As Ys Ns w b"
  defines "w' \<equiv> leave_key w"
  shows "walk_ok As Ys Ns w' b" "\<not> wk_have_key w'" "wk_descending w' = wk_descending w" "wk_min w' = wk_min w" "wk_max w' = wk_max w"
    "wk_narrow w' = wk_narrow w"
proof -
  show "\<not> wk_have_key w'" "wk_descending w' = wk_descending w" "wk_min w' = wk_min w" "wk_max w' = wk_max w" "wk_narrow w' = wk_narrow w"
    by (simp_all add: w'_def leave_key_def)
  show "walk_ok As Ys Ns w' b"
  proof (cases "wk_have_key w")
    case True
    let ?d = "wk_descending w" and ?k = "wk_key w"
    have k: "?k < 65536" "b = Suc (kpos ?d ?k)" "\<forall>s\<in>set (wk_all w) \<union> set (wk_any w). past ?d (kpos ?d ?k) s"
      using assms(1) True by (simp_all add: walk_ok_def)
    have *: "list_all2 (covers ?d b) (map (leave_source ?k) ss) Bs \<and> (\<forall>s\<in>set ss. past ?d b (leave_source ?k s))"
      if "list_all2 (covers ?d b) ss Bs" "\<forall>s\<in>set ss. past ?d (kpos ?d ?k) s" for ss Bs
      using that by (induction ss Bs rule: list_all2_induct) (auto intro: leave_source_ok k(1) simp: k(2))
    show ?thesis using assms(1) True k(3) * [of "wk_all w" As] * [of "wk_any w" Ys]
      unfolding walk_ok_def w'_def leave_key_def if_P [OF True] by auto
  qed (use assms(1) in \<open>simp add: w'_def leave_key_def\<close>)
qed

lemma next_key_ok:
  assumes "walk_ok As Ys Ns w b" "\<not> wk_have_key w"
  defines "d \<equiv> wk_descending w" and "M \<equiv> matches As Ys Ns (wk_min w) (wk_max w)"
  shows "\<exists>r. next_key w = Some r \<and>
    (case r of None \<Rightarrow> \<forall>v. M v \<longrightarrow> \<not> b \<le> place d v
     | Some (ss, key) \<Rightarrow> key < 65536 \<and> b \<le> kpos d key \<and> (\<forall>v. M v \<longrightarrow> b \<le> place d v \<longrightarrow> kpos d key \<le> place d v) \<and>
         list_all2 (covers d (kpos d key)) ss As \<and> (\<forall>s\<in>set ss. past d (kpos d key) s \<and> stands_at key s) \<and>
         arnm_roaring_key_of (wk_min w) \<le> key \<and> key \<le> arnm_roaring_key_of (wk_max w) \<and> (As \<noteq> [] \<or> Ys \<noteq> []))"
proof -
  have c: "list_all2 (covers d b) (wk_all w) As" "list_all2 (covers d b) (wk_any w) Ys"
    and past: "\<forall>s\<in>set (wk_all w) \<union> set (wk_any w). past d b s"
    and keys: "\<And>A v. A \<in> set As \<union> set Ys \<Longrightarrow> v \<in> A \<Longrightarrow> arnm_roaring_key_of (wk_min w) \<le> arnm_roaring_key_of v \<and>
      arnm_roaring_key_of v \<le> arnm_roaring_key_of (wk_max w)"
    using assms(1,2) by (simp_all add: walk_ok_def d_def)
  have at: "arnm_roaring_key_of (wk_min w) \<le> key \<and> key \<le> arnm_roaring_key_of (wk_max w)"
    if "covers d (kpos d key) s A" "stands_at key s" "A \<in> set As \<union> set Ys" for s A key
  proof -
    have s: "poised s" using that(1) by (simp add: covers_def)
    obtain e where e: "so_current s = Some e" "rc_key e = key" using \<open>stands_at key s\<close> by (auto simp: stands_at_def split: option.splits)
    note o = standing_ok [OF s e(1)]
    obtain v where v: "v \<in> set (container_elems e)" using o(3) by (metis ex_in_conv)
    then have v: "v \<in> source_ahead s" "arnm_roaring_key_of v = key" unfolding o(4) using e(2) by simp_all
    then have "v \<in> A" using covers_in [OF that(1), of v] by simp
    then show ?thesis using keys [OF that(3)] v(2) by blast
  qed
  show ?thesis
  proof (cases "wk_all w")
    case Nil
    then have As: "As = []" using c(1) by simp
    have any: "\<forall>s\<in>set (wk_any w). poised s \<and> so_descending s = d"
      using c(2) by (auto simp: covers_def list_all2_conv_all_nth in_set_conv_nth)
    note f = first_key_ok [OF any]
    show ?thesis
    proof (cases "first_key d (wk_any w)")
      case None
      have "\<not> b \<le> place d v" if M: "M v" for v
      proof
        assume b: "b \<le> place d v"
        obtain Y where "Y \<in> set Ys" "v \<in> Y" using M As by (auto simp: M_def matches_def)
        then obtain s where "s \<in> set (wk_any w)" "covers d b s Y" using c(2) by (metis in_set_conv_nth list_all2_conv_all_nth)
        then show False using covers_in [OF _ b] f None \<open>v \<in> Y\<close> by fastforce
      qed
      then show ?thesis using Nil None by (simp add: next_key_def d_def)
    next
      case (Some k)
      obtain s where s: "s \<in> set (wk_any w)" "stands_at k s" "k < 65536" "\<forall>s\<in>set (wk_any w). past d (kpos d k) s" using f Some by auto
      obtain e where e: "so_current s = Some e" "rc_key e = k" using s(2) by (auto simp: stands_at_def split: option.splits)
      have b: "b \<le> kpos d k" using past_current [of s e d b] any past s(1) e by auto
      obtain Y where Y: "Y \<in> set Ys" "covers d b s Y" using c(2) s(1) by (metis in_set_conv_nth list_all2_conv_all_nth)
      have "kpos d k \<le> place d v" if M: "M v" and bv: "b \<le> place d v" for v
      proof -
        obtain Z where "Z \<in> set Ys" "v \<in> Z" using M As by (auto simp: M_def matches_def)
        then obtain t where t: "t \<in> set (wk_any w)" "covers d b t Z" using c(2) by (metis in_set_conv_nth list_all2_conv_all_nth)
        then have "v \<in> source_ahead t" using covers_in [OF t(2) bv] \<open>v \<in> Z\<close> by blast
        then show ?thesis using s(4) t(1) by (simp add: past_def)
      qed
      moreover have "Ys \<noteq> []" using Y(1) by auto
      ultimately show ?thesis using Nil Some s(3) b As at [OF covers_mono [OF Y(2) b] s(2)] Y(1) by (simp add: next_key_def d_def)
    qed
  next
    case (Cons s ss)
    then obtain A As' where As: "As = A # As'" "covers d b s A" using c(1) by (auto simp: list_all2_Cons1)
    have s: "poised s" "so_descending s = d" using As(2) by (simp_all add: covers_def)
    show ?thesis
    proof (cases "so_current s")
      case None
      have "\<not> b \<le> place d v" if "M v" for v
        using covers_in [OF As(2), of v] current_none [OF s(1) None] that As(1) by (auto simp: M_def matches_def)
      then show ?thesis using Cons None by (simp add: next_key_def)
    next
      case (Some e)
      note o = standing_ok [OF s(1) Some, unfolded s(2)]
      have b: "b \<le> kpos d (rc_key e)" using past_current [OF s(1) Some] past Cons by simp
      have P: "v \<in> B" if "M v" "B \<in> set As" for v B using that by (simp add: M_def matches_def)
      have Q: "kpos d (rc_key e) \<le> place d v" if "M v" "b \<le> place d v" for v
        using o(5) covers_in [OF As(2) that(2)] P [OF that(1)] As(1) by simp
      obtain r where r: "align d (wk_all w) (rc_key e) = Some r"
        "case r of None \<Rightarrow> \<forall>v. M v \<longrightarrow> \<not> b \<le> place d v
         | Some (ss', key') \<Rightarrow> key' < 65536 \<and> b \<le> kpos d key' \<and> (\<forall>v. M v \<longrightarrow> b \<le> place d v \<longrightarrow> kpos d key' \<le> place d v) \<and>
             list_all2 (covers d (kpos d key')) ss' As \<and> (\<forall>s\<in>set ss'. past d (kpos d key') s \<and> stands_at key' s)"
        using align_ok [OF c(1) b o(2) P Q] by blast
      have run: "next_key w = Some r" using Cons Some r(1) by (simp add: next_key_def d_def)
      show ?thesis
      proof (cases r)
        case None
        then show ?thesis using run r(2) by simp
      next
        case (Some t)
        obtain ss' key' where t: "t = (ss', key')" by fastforce
        have k: "list_all2 (covers d (kpos d key')) ss' As" "\<forall>s\<in>set ss'. stands_at key' s" using r(2) Some t by simp_all
        obtain s1 ss1 where s1: "ss' = s1 # ss1" "covers d (kpos d key') s1 A" using k(1) As(1) by (auto simp: list_all2_Cons2)
        have "arnm_roaring_key_of (wk_min w) \<le> key' \<and> key' \<le> arnm_roaring_key_of (wk_max w)"
          using at [OF s1(2)] k(2) s1(1) As(1) by simp
        then show ?thesis using run r(2) Some t As(1) by simp
      qed
    qed
  qed
qed

section \<open>The containers of a key\<close>

lemma seek_each_ok:
  assumes "list_all2 (covers d b) ss Bs" "b \<le> kpos d key" "key < 65536"
  shows "\<exists>ss'. seek_each d key ss = Some ss' \<and> list_all2 (covers d (kpos d key)) ss' Bs \<and> (\<forall>s\<in>set ss'. past d (kpos d key) s)"
  using assms(1)
proof (induction ss Bs rule: list_all2_induct)
  case (Cons s ss B Bs)
  obtain s' where s': "source_seek s key d = Some s'" "covers d (kpos d key) s' B" "past d (kpos d key) s'"
    using seek_covers [OF Cons(1) assms(2,3)] by blast
  then show ?case using Cons(3) by auto
qed simp

lemma parts_at_ok:
  assumes "list_all2 (covers d (kpos d key)) ss Bs" "\<forall>s\<in>set ss. past d (kpos d key) s" "key < 65536"
  shows "\<forall>c\<in>set (parts_at key ss). view_ok c \<and> rc_key c = key"
    "x < 65536 \<Longrightarrow> (\<exists>c\<in>set (parts_at key ss). x \<in> set (lows c)) \<longleftrightarrow> (\<exists>B\<in>set Bs. arnm_roaring_value_of key x \<in> B)"
    "\<forall>s\<in>set ss. stands_at key s \<Longrightarrow> x < 65536 \<Longrightarrow>
      (\<forall>c\<in>set (map (\<lambda>s. the (so_current s)) ss). x \<in> set (lows c)) \<longleftrightarrow> (\<forall>B\<in>set Bs. arnm_roaring_value_of key x \<in> B)"
proof -
  have "(\<forall>c\<in>set (parts_at key ss). view_ok c \<and> rc_key c = key) \<and>
    (x < 65536 \<longrightarrow> (\<exists>c\<in>set (parts_at key ss). x \<in> set (lows c)) = (\<exists>B\<in>set Bs. arnm_roaring_value_of key x \<in> B)) \<and>
    ((\<forall>s\<in>set ss. stands_at key s) \<longrightarrow> x < 65536 \<longrightarrow>
      (\<forall>c\<in>set (map (\<lambda>s. the (so_current s)) ss). x \<in> set (lows c)) = (\<forall>B\<in>set Bs. arnm_roaring_value_of key x \<in> B))" for x
    using assms(1,2)
  proof (induction ss Bs rule: list_all2_induct)
    case (Cons s ss B Bs)
    have p: "past d (kpos d key) s" using Cons.prems by simp
    note a = at_key [OF Cons(1) p assms(3)]
    show ?case
    proof (cases "stands_at key s")
      case True
      obtain c where c: "so_current s = Some c" "view_ok c" "rc_key c = key" "\<forall>x<65536. x \<in> set (lows c) \<longleftrightarrow> arnm_roaring_value_of key x \<in> B"
        using a(1) [OF True] by blast
      have "parts_at key (s # ss) = c # parts_at key ss" using True c(1) by (simp add: parts_at_def)
      then show ?thesis using Cons c by simp
    next
      case False
      have "arnm_roaring_value_of key x \<notin> B" if "x < 65536" using a(2) [OF False, of "arnm_roaring_value_of key x"] that by auto
      then show ?thesis using Cons False by (simp add: parts_at_def)
    qed
  qed (simp add: parts_at_def)
  from this [of x] show "\<forall>c\<in>set (parts_at key ss). view_ok c \<and> rc_key c = key"
    "x < 65536 \<Longrightarrow> (\<exists>c\<in>set (parts_at key ss). x \<in> set (lows c)) \<longleftrightarrow> (\<exists>B\<in>set Bs. arnm_roaring_value_of key x \<in> B)"
    "\<forall>s\<in>set ss. stands_at key s \<Longrightarrow> x < 65536 \<Longrightarrow>
      (\<forall>c\<in>set (map (\<lambda>s. the (so_current s)) ss). x \<in> set (lows c)) \<longleftrightarrow> (\<forall>B\<in>set Bs. arnm_roaring_value_of key x \<in> B)"
    by blast+
qed

lemma parts_all: "\<forall>s\<in>set ss. stands_at key s \<Longrightarrow> parts_at key ss = map (\<lambda>s. the (so_current s)) ss"
  by (simp add: parts_at_def)

section \<open>Narrowing to where the containers reach\<close>

lemma sparse_current:
  "so_set s = Some st \<Longrightarrow> arnm_roaring_is_sparse st \<Longrightarrow> so_current (arnm_roaring_source_load s) = Some c \<Longrightarrow>
    rc_kind c \<noteq> ARNM_ROARING_BITMAP"
  by (auto simp: arnm_roaring_source_load_def Let_def source_view_def split: if_splits)

lemma bitmap_source:
  assumes "poised s" "so_current s = Some c" "rc_kind c = ARNM_ROARING_BITMAP"
  obtains st where "so_set s = Some st" "directory_ok st" "rb_containers st \<noteq> []" "roaring_ok st"
proof -
  obtain s0 where s0: "s = arnm_roaring_source_load s0" "placed_source s0" using assms(1) by (auto simp: poised_def)
  obtain st where st: "so_set s = Some st"
    using assms(2) load_down(1) [of s0] s0(1) by (cases "so_set s") (auto simp: s0(1))
  have ok: "roaring_ok st" using assms(1) st by (simp add: poised_def placed_source_def)
  have "so_set s0 = Some st" using st by (simp add: s0(1))
  then have "\<not> arnm_roaring_is_sparse st" using sparse_current [of s0 st c] assms(2,3) unfolding s0(1) by blast
  with ok show ?thesis by (cases rule: roaring_cases) (use that st ok in auto)
qed

lemma part_reach_ok:
  assumes "poised s" "so_current s = Some c" "part_reach s c = (b, t)" "x \<in> set (lows c)"
  shows "b \<le> x \<and> x \<le> t"
proof -
  have v: "view_ok c" using standing_ok(1) [OF assms(1,2)] .
  have asc: "ascending (lows c)" "x < 65536" using view_lows [OF v] assms(4) by blast+
  have ends: "lows c ! 0 \<le> x \<and> x \<le> lows c ! (length (lows c) - 1)"
  proof -
    obtain i where "i < length (lows c)" "x = lows c ! i" using assms(4) by (metis in_set_conv_nth)
    then show ?thesis using ascending_nth_le [OF asc(1), of 0 i] ascending_nth_le [OF asc(1), of i "length (lows c) - 1"] by simp
  qed
  have n: "rc_cardinality c = length (lows c)" "lows c \<noteq> []" using v by (simp_all add: view_ok_def)
  consider "rc_kind c = ARNM_ROARING_ARRAY" | "rc_kind c = ROARING_KIND_WIDE" | "rc_kind c = ARNM_ROARING_BITMAP"
    by (cases "rc_kind c") auto
  then show ?thesis
  proof cases
    case 1
    then have "lows c = rc_array c" by (simp add: lows_def)
    then show ?thesis using ends assms(3) 1 n by (auto simp: part_reach_def)
  next
    case 2
    then have l: "lows c = map arnm_roaring_low_of (rc_array c)" by (simp add: lows_def)
    then show ?thesis using ends assms(3) 2 n by (auto simp: part_reach_def)
  next
    case 3
    obtain st where st: "so_set s = Some st" "directory_ok st" "rb_containers st \<noteq> []" "roaring_ok st"
      using bitmap_source [OF assms(1,2) 3] by blast
    have "x \<le> arnm_roaring_low_of (rb_maximum st)" if "c = rb_containers st ! (rb_count st - 1)"
    proof -
      have c: "rb_containers st = butlast (rb_containers st) @ [c]"
        using that st(2,3) append_butlast_last_id [OF st(3)] by (simp add: directory_ok_def last_conv_nth)
      have ce: "container_ok c" using st(2) c unfolding directory_ok_def by (metis in_set_conv_decomp)
      have "rb_count st \<noteq> 0" using st(2,3) by (simp add: directory_ok_def)
      then have "elems st = concat (map container_elems (butlast (rb_containers st) @ [c]))" unfolding elems_def using c by simp
      then have "last (elems st) = arnm_roaring_value_of (rc_key c) (last (lows c))" "elems st \<noteq> []"
        using n(2) by (simp_all add: container_elems_def last_map)
      then have "rb_maximum st = arnm_roaring_value_of (rc_key c) (last (lows c))" using st(4) by (simp add: roaring_ok_def)
      moreover have "last (lows c) < 65536" using view_lows(2) [OF v] n(2) by simp
      moreover have "last (lows c) = lows c ! (length (lows c) - 1)" using n(2) by (rule last_conv_nth)
      ultimately show ?thesis using ends by simp
    qed
    then show ?thesis using assms(3) 3 st(1) asc(2) by (auto simp: part_reach_def split: if_splits)
  qed
qed

lemma reach_of_all_ok:
  assumes "\<forall>s\<in>set ss. poised s \<and> (\<exists>c. so_current s = Some c \<and> x \<in> set (lows c))" "x < 65536"
  shows "fst (reach_of_all ss) \<le> x \<and> x \<le> snd (reach_of_all ss)"
proof -
  have "(case fold (\<lambda>s (least, most). case part_reach s (the (so_current s)) of
          (b, t) \<Rightarrow> (if b > least then b else least, if t < most then t else most)) ss a of
        (least, most) \<Rightarrow> least \<le> x \<and> x \<le> most)" if "fst a \<le> x" "x \<le> snd a" for a
    using assms(1) that
  proof (induction ss arbitrary: a)
    case (Cons s ss)
    obtain c where c: "poised s" "so_current s = Some c" "x \<in> set (lows c)" using Cons.prems(1) by auto
    obtain b t where r: "part_reach s c = (b, t)" by fastforce
    note x = part_reach_ok [OF c(1,2) r c(3)]
    obtain l m where a: "a = (l, m)" by fastforce
    show ?case using Cons.IH [of "(if b > l then b else l, if t < m then t else m)"] Cons.prems x by (simp add: c(2) r a)
  qed (simp add: case_prod_beta)
  from this [of "(0, 65535)"] assms(2) show ?thesis unfolding reach_of_all_def by (simp add: case_prod_beta)
qed

lemma reach_of_any_ok:
  assumes "\<forall>s\<in>set ss. poised s \<and> so_current s \<noteq> None" "s \<in> set ss" "so_current s = Some c" "x \<in> set (lows c)"
  shows "fst (reach_of_any ss) \<le> x \<and> x \<le> snd (reach_of_any ss)"
proof -
  have "(case fold (\<lambda>s (least, most). case part_reach s (the (so_current s)) of
          (b, t) \<Rightarrow> (if b < least then b else least, if t > most then t else most)) ss a of
        (least, most) \<Rightarrow> least \<le> x \<and> x \<le> most)" if "fst a \<le> x \<and> x \<le> snd a \<or> s \<in> set ss" for a
    using assms(1) that
  proof (induction ss arbitrary: a)
    case (Cons u ss)
    obtain e where e: "poised u" "so_current u = Some e" using Cons.prems(1) by auto
    obtain b t where r: "part_reach u e = (b, t)" by fastforce
    obtain l m where a: "a = (l, m)" by fastforce
    have "s = u \<Longrightarrow> b \<le> x \<and> x \<le> t" using part_reach_ok [OF e r] e(2) assms(3,4) by auto
    then show ?case using Cons.IH [of "(if b < l then b else l, if t > m then t else m)"] Cons.prems by (auto simp: e(2) r a)
  qed (simp add: case_prod_beta)
  from this [of "(65535, 0)"] assms(2) show ?thesis unfolding reach_of_any_def by (simp add: case_prod_beta)
qed

end
