(* ===== verification/Roaring_Walk_Next.thy ===== *)
theory Roaring_Walk_Next
  imports Roaring_Walk_Proofs
begin

text \<open>
  The step of the walk as a whole: from any place on, \<^verbatim>\<open>query_walk_next\<close> returns, and the key it gives is
  the first with a match the parts do not already rule out, with bounds that lose none of its matches.
\<close>

lemma narrow_bounds_ok:
  assumes "narrow_bounds w key (low0, high0) = (low, high)"
    and "\<forall>s\<in>set (wk_all w). poised s \<and> stands_at key s" "\<forall>s\<in>set (wk_any w). poised s"
  shows "low0 \<le> low" "high \<le> high0"
    "x < 65536 \<Longrightarrow> low0 \<le> x \<Longrightarrow> x \<le> high0 \<Longrightarrow> \<forall>s\<in>set (wk_all w). x \<in> set (lows (the (so_current s))) \<Longrightarrow>
      wk_any w \<noteq> [] \<longrightarrow> (\<exists>c\<in>set (parts_at key (wk_any w)). x \<in> set (lows c)) \<Longrightarrow> low \<le> x \<and> x \<le> high"
proof -
  show "low0 \<le> low" "high \<le> high0"
    using assms(1) by (auto simp: narrow_bounds_def Let_def case_prod_beta split: if_splits)
  assume x: "x < 65536" "low0 \<le> x" "x \<le> high0" "\<forall>s\<in>set (wk_all w). x \<in> set (lows (the (so_current s)))"
    "wk_any w \<noteq> [] \<longrightarrow> (\<exists>c\<in>set (parts_at key (wk_any w)). x \<in> set (lows c))"
  have at: "\<exists>c. so_current s = Some c" if "stands_at key s" for s using that by (auto simp: stands_at_def split: option.splits)
  have "fst (reach_of_all (wk_all w)) \<le> x \<and> x \<le> snd (reach_of_all (wk_all w))"
    by (rule reach_of_all_ok) (use assms(2) x(1,4) at in fastforce)+
  moreover have "fst (reach_of_any (filter (stands_at key) (wk_any w))) \<le> x \<and> x \<le> snd (reach_of_any (filter (stands_at key) (wk_any w)))"
    if h: "wk_any w \<noteq> []"
  proof -
    obtain s where s: "s \<in> set (wk_any w)" "stands_at key s" "x \<in> set (lows (the (so_current s)))"
      using x(5) h by (auto simp: parts_at_def)
    obtain c where c: "so_current s = Some c" using at s(2) by blast
    show ?thesis by (rule reach_of_any_ok [where s = s and c = c]) (use assms(3) s c at in auto)
  qed
  ultimately show "low \<le> x \<and> x \<le> high"
    using assms(1) x(2,3) by (auto simp: narrow_bounds_def Let_def case_prod_beta split: if_splits)
qed

text \<open>The parts that were collected at a key say which of its values match.\<close>

lemma key_parts_ok:
  fixes key :: nat
  assumes "list_all2 (covers d (kpos d key)) all As" "\<forall>s\<in>set all. past d (kpos d key) s \<and> stands_at key s"
    and "list_all2 (covers d (kpos d key)) any Ys" "\<forall>s\<in>set any. past d (kpos d key) s"
    and "list_all2 (covers d (kpos d key)) none Ns" "\<forall>s\<in>set none. past d (kpos d key) s"
    and "key < 65536" "As \<noteq> [] \<or> Ys \<noteq> []" "x < 65536"
  shows "(\<forall>c\<in>set (map (\<lambda>s. the (so_current s)) all). x \<in> set (lows c)) \<and>
      (any \<noteq> [] \<longrightarrow> (\<exists>c\<in>set (parts_at key any). x \<in> set (lows c))) \<and> (\<forall>c\<in>set (parts_at key none). x \<notin> set (lows c)) \<and>
      mn \<le> arnm_roaring_value_of key x \<and> arnm_roaring_value_of key x \<le> mx \<longleftrightarrow>
    matches As Ys Ns mn mx (arnm_roaring_value_of key x)"
proof -
  have a: "\<forall>s\<in>set all. past d (kpos d key) s" "\<forall>s\<in>set all. stands_at key s" using assms(2) by blast+
  have e: "any = [] \<longleftrightarrow> Ys = []" using list_all2_lengthD [OF assms(3)] by auto
  show ?thesis
    using parts_at_ok(3) [OF assms(1) a(1) assms(7) a(2) assms(9)] parts_at_ok(2) [OF assms(3,4,7,9)]
      parts_at_ok(2) [OF assms(5-7,9)] assms(8) e
    unfolding matches_def by blast
qed

text \<open>What a step leaves and delivers once it has found a key.\<close>

lemma gathered_ok:
  fixes key :: nat
  assumes "walk_ok As Ys Ns w b" "\<not> wk_have_key w"
  defines "d \<equiv> wk_descending w" and "M \<equiv> matches As Ys Ns (wk_min w) (wk_max w)"
  assumes "key < 65536" "b \<le> kpos d key" "list_all2 (covers d (kpos d key)) all As"
    "\<forall>s\<in>set all. past d (kpos d key) s \<and> stands_at key s"
    "arnm_roaring_key_of (wk_min w) \<le> key" "key \<le> arnm_roaring_key_of (wk_max w)" "As \<noteq> [] \<or> Ys \<noteq> []"
  obtains any none where "seek_each d key (wk_any w) = Some any" "seek_each d key (wk_none w) = Some none"
    "walk_ok As Ys Ns (w\<lparr>wk_all := all, wk_any := any, wk_none := none, wk_key := key, wk_have_key := True\<rparr>) (Suc (kpos d key))"
    "any \<noteq> [] \<and> parts_at key any = [] \<Longrightarrow> \<forall>v. M v \<longrightarrow> arnm_roaring_key_of v \<noteq> key"
    "\<And>low high. narrow_bounds (w\<lparr>wk_all := all, wk_any := any, wk_none := none, wk_key := key, wk_have_key := True\<rparr>) key
        (arnm_roaring_container_bounds key (wk_min w) (wk_max w)) = (low, high) \<Longrightarrow> \<not> (any \<noteq> [] \<and> parts_at key any = []) \<Longrightarrow>
      high < 65536 \<and>
      (\<forall>c\<in>set (map (\<lambda>s. the (so_current s)) all) \<union> set (parts_at key any) \<union> set (parts_at key none). view_ok c \<and> rc_key c = key) \<and>
      (all \<noteq> [] \<or> parts_at key any \<noteq> []) \<and>
      {v. M v \<and> arnm_roaring_key_of v = key} = arnm_roaring_value_of key `
        key_set \<lparr>qk_all = map (\<lambda>s. the (so_current s)) all, qk_any = parts_at key any, qk_none = parts_at key none,
          qk_key = key, qk_low = low, qk_high = high\<rparr>"
proof -
  have c: "list_all2 (covers d b) (wk_any w) Ys" "list_all2 (covers d b) (wk_none w) Ns" using assms(1) by (simp_all add: walk_ok_def d_def)
  obtain any where any: "seek_each d key (wk_any w) = Some any" "list_all2 (covers d (kpos d key)) any Ys" "\<forall>s\<in>set any. past d (kpos d key) s"
    using seek_each_ok [OF c(1) assms(6,5)] by blast
  obtain none where none: "seek_each d key (wk_none w) = Some none" "list_all2 (covers d (kpos d key)) none Ns" "\<forall>s\<in>set none. past d (kpos d key) s"
    using seek_each_ok [OF c(2) assms(6,5)] by blast
  define w1 where "w1 = w\<lparr>wk_all := all, wk_any := any, wk_none := none, wk_key := key, wk_have_key := True\<rparr>"
  have w1: "wk_all w1 = all" "wk_any w1 = any" "wk_none w1 = none" "wk_key w1 = key" "wk_have_key w1" "wk_descending w1 = d"
    "wk_min w1 = wk_min w" "wk_max w1 = wk_max w" by (simp_all add: w1_def d_def)
  have mono: "list_all2 (covers d (Suc (kpos d key))) ss Bs" if "list_all2 (covers d (kpos d key)) ss Bs" for ss Bs
    using that by (rule list_all2_mono) (erule covers_mono, simp)
  have past1: "\<forall>s\<in>set all \<union> set any. past d (kpos d key) s" using assms(8) any(3) by blast
  have ok1: "walk_ok As Ys Ns w1 (Suc (kpos d key))"
    using assms(1,5) past1 mono [OF assms(7)] mono [OF any(2)] mono [OF none(2)] by (simp add: walk_ok_def w1)
  note at = key_parts_ok [OF assms(7,8) any(2,3) none(2,3) assms(5,11)]
  have low: "\<exists>x<65536. v = arnm_roaring_value_of key x" if "arnm_roaring_key_of v = key" for v
    using that value_of_key_low [of v] low_of_less [of v] by metis
  have emp: "\<forall>v. M v \<longrightarrow> arnm_roaring_key_of v \<noteq> key" if "any \<noteq> [] \<and> parts_at key any = []"
  proof (intro allI impI notI)
    fix v assume v: "M v" "arnm_roaring_key_of v = key"
    obtain x where x: "x < 65536" "v = arnm_roaring_value_of key x" using low [OF v(2)] by blast
    then show False using at [OF x(1), of "wk_min w" "wk_max w"] v(1) that by (simp add: M_def)
  qed
  have found: "high < 65536 \<and>
      (\<forall>c\<in>set (map (\<lambda>s. the (so_current s)) all) \<union> set (parts_at key any) \<union> set (parts_at key none). view_ok c \<and> rc_key c = key) \<and>
      (all \<noteq> [] \<or> parts_at key any \<noteq> []) \<and>
      {v. M v \<and> arnm_roaring_key_of v = key} = arnm_roaring_value_of key `
        key_set \<lparr>qk_all = map (\<lambda>s. the (so_current s)) all, qk_any = parts_at key any, qk_none = parts_at key none,
          qk_key = key, qk_low = low, qk_high = high\<rparr>"
    if h: "narrow_bounds w1 key (arnm_roaring_container_bounds key (wk_min w) (wk_max w)) = (low, high)"
      "\<not> (any \<noteq> [] \<and> parts_at key any = [])" for low high
  proof -
    obtain low0 high0 where b0: "arnm_roaring_container_bounds key (wk_min w) (wk_max w) = (low0, high0)" by fastforce
    have mm: "wk_min w \<le> wk_max w" using assms(1) by (simp add: walk_ok_def)
    note cb = container_bounds(1) [OF assms(9,10) _ b0]
    note le = bounds_le(2) [OF assms(9,10) mm b0]
    have pa: "\<forall>s\<in>set all. poised s" "\<forall>s\<in>set any. poised s"
      using assms(7) any(2) by (auto simp: covers_def list_all2_conv_all_nth in_set_conv_nth)
    have nb: "low0 \<le> low" "high \<le> high0" "\<And>x. x < 65536 \<Longrightarrow> low0 \<le> x \<Longrightarrow> x \<le> high0 \<Longrightarrow> \<forall>s\<in>set all. x \<in> set (lows (the (so_current s))) \<Longrightarrow>
        any \<noteq> [] \<longrightarrow> (\<exists>c\<in>set (parts_at key any). x \<in> set (lows c)) \<Longrightarrow> low \<le> x \<and> x \<le> high"
      using narrow_bounds_ok [OF h(1) [unfolded b0]] pa assms(8) unfolding w1 by blast+
    have hi: "high < 65536" using nb(2) le by linarith
    have ka: "\<forall>c\<in>set (map (\<lambda>s. the (so_current s)) all). view_ok c \<and> rc_key c = key"
      using parts_at_ok(1) [OF assms(7) _ assms(5)] assms(8) parts_all [of all key] by simp
    have ks: "\<forall>c\<in>set (parts_at key any) \<union> set (parts_at key none). view_ok c \<and> rc_key c = key"
      using parts_at_ok(1) [OF any(2,3) assms(5)] parts_at_ok(1) [OF none(2,3) assms(5)] by blast
    have e: "all = [] \<longleftrightarrow> As = []" "any = [] \<longleftrightarrow> Ys = []" using list_all2_lengthD [OF any(2)] list_all2_lengthD [OF assms(7)] by auto
    have ne: "all \<noteq> [] \<or> parts_at key any \<noteq> []" using h(2) e assms(11) by blast
    let ?k = "\<lparr>qk_all = map (\<lambda>s. the (so_current s)) all, qk_any = parts_at key any, qk_none = parts_at key none,
          qk_key = key, qk_low = low, qk_high = high\<rparr>"
    have anye: "parts_at key any \<noteq> [] \<longleftrightarrow> any \<noteq> []" using h(2) by (auto simp: parts_at_def)
    have "x \<in> key_set ?k \<longleftrightarrow> M (arnm_roaring_value_of key x)" if "x < 65536" for x
    proof -
      define A where "A \<longleftrightarrow> (\<forall>c\<in>set (map (\<lambda>s. the (so_current s)) all). x \<in> set (lows c))"
      define B where "B \<longleftrightarrow> (any \<noteq> [] \<longrightarrow> (\<exists>c\<in>set (parts_at key any). x \<in> set (lows c)))"
      define C where "C \<longleftrightarrow> (\<forall>c\<in>set (parts_at key none). x \<notin> set (lows c))"
      have m: "A \<and> B \<and> C \<and> low0 \<le> x \<and> x \<le> high0 \<longleftrightarrow> M (arnm_roaring_value_of key x)"
        using at [OF that, of "wk_min w" "wk_max w"] unfolding A_def B_def C_def M_def cb [OF that] .
      have n: "low0 \<le> x \<Longrightarrow> x \<le> high0 \<Longrightarrow> A \<Longrightarrow> B \<Longrightarrow> low \<le> x \<and> x \<le> high"
        using nb(3) [OF that] by (simp add: A_def B_def)
      have r: "low \<le> x \<Longrightarrow> x \<le> high \<Longrightarrow> low0 \<le> x \<and> x \<le> high0" using nb(1,2) by linarith
      have "x \<in> key_set ?k \<longleftrightarrow> low \<le> x \<and> x \<le> high \<and> A \<and> B \<and> C"
        unfolding key_set_def key_matches_def mem_Collect_eq A_def B_def C_def by (simp add: anye)
      also have "\<dots> \<longleftrightarrow> M (arnm_roaring_value_of key x)" unfolding m [symmetric] using n r by blast
      finally show ?thesis .
    qed
    note in_key = this
    have small: "x < 65536" if "x \<in> key_set ?k" for x using that hi by (simp add: key_set_def)
    have "{v. M v \<and> arnm_roaring_key_of v = key} = arnm_roaring_value_of key ` key_set ?k"
    proof (intro set_eqI iffI)
      fix v assume v: "v \<in> {v. M v \<and> arnm_roaring_key_of v = key}"
      then obtain x where "x < 65536" "v = arnm_roaring_value_of key x" using low [of v] by blast
      then show "v \<in> arnm_roaring_value_of key ` key_set ?k" using in_key [of x] v by simp
    next
      fix v assume "v \<in> arnm_roaring_value_of key ` key_set ?k"
      then obtain x where x: "x \<in> key_set ?k" "v = arnm_roaring_value_of key x" by blast
      then show "v \<in> {v. M v \<and> arnm_roaring_key_of v = key}" using in_key [OF small] small [OF x(1)] by simp
    qed
    then show ?thesis using hi ka ks ne by blast
  qed
  show ?thesis by (rule that [OF any(1) none(1) ok1 [unfolded w1_def] emp found [unfolded w1_def]])
qed

definition same_walk :: "query_walk \<Rightarrow> query_walk \<Rightarrow> bool" where
  "same_walk w w' \<longleftrightarrow> wk_min w' = wk_min w \<and> wk_max w' = wk_max w \<and> wk_descending w' = wk_descending w"

lemma query_walk_next_ok:
  assumes "walk_ok As Ys Ns w b"
  shows "\<exists>r. query_walk_next w = Some r \<and>
    (case r of
       None \<Rightarrow> \<forall>v. matches As Ys Ns (wk_min w) (wk_max w) v \<longrightarrow> \<not> b \<le> place (wk_descending w) v
     | Some (k, w') \<Rightarrow> query_key_ok k \<and> qk_key k < 65536 \<and> b \<le> kpos (wk_descending w) (qk_key k) \<and>
         walk_ok As Ys Ns w' (Suc (kpos (wk_descending w) (qk_key k))) \<and> same_walk w w' \<and>
         (\<forall>v. matches As Ys Ns (wk_min w) (wk_max w) v \<longrightarrow> b \<le> place (wk_descending w) v \<longrightarrow>
            kpos (wk_descending w) (qk_key k) \<le> place (wk_descending w) v) \<and>
         {v. matches As Ys Ns (wk_min w) (wk_max w) v \<and> arnm_roaring_key_of v = qk_key k} =
           arnm_roaring_value_of (qk_key k) ` key_set k)"
  using assms
proof (induction "65536 - b" arbitrary: w b rule: less_induct)
  case less
  define u where "u = leave_key w"
  define d where "d = wk_descending w"
  define M where "M = matches As Ys Ns (wk_min w) (wk_max w)"
  have u: "walk_ok As Ys Ns u b" "\<not> wk_have_key u" "wk_descending u = d" "wk_min u = wk_min w" "wk_max u = wk_max w"
    using leave_key_ok [OF less.prems] by (simp_all add: u_def d_def)
  obtain r where r: "next_key u = Some r"
    "case r of None \<Rightarrow> \<forall>v. M v \<longrightarrow> \<not> b \<le> place d v
     | Some (ss, key) \<Rightarrow> key < 65536 \<and> b \<le> kpos d key \<and> (\<forall>v. M v \<longrightarrow> b \<le> place d v \<longrightarrow> kpos d key \<le> place d v) \<and>
         list_all2 (covers d (kpos d key)) ss As \<and> (\<forall>s\<in>set ss. past d (kpos d key) s \<and> stands_at key s) \<and>
         arnm_roaring_key_of (wk_min w) \<le> key \<and> key \<le> arnm_roaring_key_of (wk_max w) \<and> (As \<noteq> [] \<or> Ys \<noteq> [])"
    using next_key_ok [OF u(1,2)] unfolding u(3-5) M_def by blast
  show ?case
  proof (cases r)
    case None
    then have "query_walk_next w = Some None" using r(1) by (simp add: query_walk_next.simps [of w] u_def [symmetric])
    then show ?thesis using r(2) None by (simp add: M_def d_def)
  next
    case (Some t)
    obtain all key where t: "t = (all, key)" by fastforce
    have k: "key < 65536" "b \<le> kpos d key" "\<forall>v. M v \<longrightarrow> b \<le> place d v \<longrightarrow> kpos d key \<le> place d v"
      "list_all2 (covers d (kpos d key)) all As" "\<forall>s\<in>set all. past d (kpos d key) s \<and> stands_at key s"
      "arnm_roaring_key_of (wk_min u) \<le> key" "key \<le> arnm_roaring_key_of (wk_max u)" "As \<noteq> [] \<or> Ys \<noteq> []"
      using r(2) u(4,5) by (simp_all add: Some t)
    obtain any none where g: "seek_each d key (wk_any u) = Some any" "seek_each d key (wk_none u) = Some none"
      "walk_ok As Ys Ns (u\<lparr>wk_all := all, wk_any := any, wk_none := none, wk_key := key, wk_have_key := True\<rparr>) (Suc (kpos d key))"
      "any \<noteq> [] \<and> parts_at key any = [] \<Longrightarrow> \<forall>v. M v \<longrightarrow> arnm_roaring_key_of v \<noteq> key"
      "\<And>low high. narrow_bounds (u\<lparr>wk_all := all, wk_any := any, wk_none := none, wk_key := key, wk_have_key := True\<rparr>) key
          (arnm_roaring_container_bounds key (wk_min u) (wk_max u)) = (low, high) \<Longrightarrow> \<not> (any \<noteq> [] \<and> parts_at key any = []) \<Longrightarrow>
        high < 65536 \<and>
        (\<forall>c\<in>set (map (\<lambda>s. the (so_current s)) all) \<union> set (parts_at key any) \<union> set (parts_at key none). view_ok c \<and> rc_key c = key) \<and>
        (all \<noteq> [] \<or> parts_at key any \<noteq> []) \<and>
        {v. M v \<and> arnm_roaring_key_of v = key} = arnm_roaring_value_of key `
          key_set \<lparr>qk_all = map (\<lambda>s. the (so_current s)) all, qk_any = parts_at key any, qk_none = parts_at key none,
            qk_key = key, qk_low = low, qk_high = high\<rparr>"
      using gathered_ok [OF u(1,2), unfolded u(3), OF k(1,2,4-8)] unfolding M_def u(4,5) by blast
    define w1 where "w1 = u\<lparr>wk_all := all, wk_any := any, wk_none := none, wk_key := key, wk_have_key := True\<rparr>"
    have w1: "wk_min w1 = wk_min w" "wk_max w1 = wk_max w" "wk_descending w1 = d" using u by (simp_all add: w1_def)
    obtain low high where nb: "narrow_bounds w1 key (arnm_roaring_container_bounds key (wk_min u) (wk_max u)) = (low, high)" by fastforce
    let ?k = "\<lparr>qk_all = map (\<lambda>s. the (so_current s)) all, qk_any = parts_at key any, qk_none = parts_at key none,
            qk_key = key, qk_low = low, qk_high = high\<rparr>"
    have run: "query_walk_next w = (if (any \<noteq> [] \<and> parts_at key any = []) \<or> \<not> low \<le> high then query_walk_next w1 else Some (Some (?k, w1)))"
      using r(1) g(1,2) nb
      by (simp add: query_walk_next.simps [of w] u_def [symmetric] Some t u(3) w1_def [symmetric] w1 u(4,5) Let_def)
    show ?thesis
    proof (cases "(any \<noteq> [] \<and> parts_at key any = []) \<or> \<not> low \<le> high")
      case False
      note f = g(5) [folded w1_def, OF nb]
      have "query_key_ok ?k" using False f by (simp add: query_key_ok_def)
      moreover have "same_walk w w1" by (simp add: same_walk_def w1 d_def)
      ultimately show ?thesis using run False f g(3) k(1-3) unfolding w1_def [symmetric] d_def M_def by simp
    next
      case True
      have no: "\<forall>v. M v \<longrightarrow> arnm_roaring_key_of v \<noteq> key"
      proof (cases "any \<noteq> [] \<and> parts_at key any = []")
        case False
        have "key_set ?k = {}" using True False by (auto simp: key_set_def)
        then have "{v. M v \<and> arnm_roaring_key_of v = key} = {}" using g(5) [folded w1_def, OF nb False] by simp
        then show ?thesis by blast
      qed (rule g(4))
      have up: "Suc (kpos d key) \<le> place d v" if "M v" "b \<le> place d v" for v
      proof -
        have "kpos d key \<le> place d v" using k(3) that by blast
        moreover have "arnm_roaring_key_of v < 65536"
          using that(1) less.prems key_small [of v] by (auto simp: M_def matches_def walk_ok_def)
        then have "kpos d key \<noteq> place d v" using no that(1) kpos_eq [OF k(1), of "arnm_roaring_key_of v" d] by auto
        ultimately show ?thesis by simp
      qed
      have "65536 - Suc (kpos d key) < 65536 - b" using k(2) kpos_less [OF k(1), of d] by simp
      from less.hyps [OF this g(3), folded w1_def, unfolded w1] obtain r' where r': "query_walk_next w1 = Some r'"
        "case r' of
           None \<Rightarrow> \<forall>v. M v \<longrightarrow> \<not> Suc (kpos d key) \<le> place d v
         | Some (k', w') \<Rightarrow> query_key_ok k' \<and> qk_key k' < 65536 \<and> Suc (kpos d key) \<le> kpos d (qk_key k') \<and>
             walk_ok As Ys Ns w' (Suc (kpos d (qk_key k'))) \<and> same_walk w1 w' \<and>
             (\<forall>v. M v \<longrightarrow> Suc (kpos d key) \<le> place d v \<longrightarrow> kpos d (qk_key k') \<le> place d v) \<and>
             {v. M v \<and> arnm_roaring_key_of v = qk_key k'} = arnm_roaring_value_of (qk_key k') ` key_set k'"
        unfolding M_def by blast
      have eq: "query_walk_next w = Some r'" unfolding run if_P [OF True] r'(1) ..
      show ?thesis
      proof (cases r')
        case None
        then show ?thesis using eq r'(2) up by (auto simp: M_def d_def)
      next
        case (Some p)
        obtain k' w' where p: "p = (k', w')" by fastforce
        have f: "query_key_ok k'" "qk_key k' < 65536" "Suc (kpos d key) \<le> kpos d (qk_key k')"
          "walk_ok As Ys Ns w' (Suc (kpos d (qk_key k')))" "same_walk w1 w'"
          "\<forall>v. M v \<longrightarrow> Suc (kpos d key) \<le> place d v \<longrightarrow> kpos d (qk_key k') \<le> place d v"
          "{v. M v \<and> arnm_roaring_key_of v = qk_key k'} = arnm_roaring_value_of (qk_key k') ` key_set k'"
          using r'(2) by (simp_all add: Some p)
        have "b \<le> kpos d (qk_key k')" using f(3) k(2) by simp
        moreover have "same_walk w w'" using f(5) by (simp add: same_walk_def w1 d_def)
        ultimately show ?thesis using eq f(1,2,4,6,7) up unfolding Some p d_def M_def by simp
      qed
    qed
  qed
qed

end
