(* ===== verification/Roaring_Query.thy ===== *)
theory Roaring_Query
  imports Roaring_Walk_Next Roaring_Set
begin

text \<open>
  The three answers over several sets (\<^verbatim>\<open>include/arnm/roaring_query.h\<close>, the end of
  \<^verbatim>\<open>src/roaring_query.c\<close>): how many values match, a page of them, and both in one walk. Each is shown to
  be the reading of one list: the values that match, ascending or turned around.

  A pointer argument is an \<open>option\<close>, \<open>None\<close> for \<open>NULL\<close>; a \<open>Some\<close> holds what stands there. The two
  bitmaps of a key that the C functions keep on the stack are values here.
\<close>

record roaring_query =
  qu_all :: "roaring_bitmap option list option"
  qu_all_count :: nat
  qu_any :: "roaring_bitmap option list option"
  qu_any_count :: nat
  qu_none :: "roaring_bitmap option list option"
  qu_none_count :: nat
  qu_min :: nat
  qu_max :: nat

definition ARNM_ROARING_QUERY_MAX :: nat where "ARNM_ROARING_QUERY_MAX = 8"

text \<open>The sets of a list that are read: the entries below its count.\<close>

definition listed :: "roaring_bitmap option list option \<Rightarrow> nat \<Rightarrow> roaring_bitmap option list" where
  "listed sets n = (case sets of None \<Rightarrow> [] | Some xs \<Rightarrow> take n xs)"

definition query_walk_begin :: "roaring_query \<Rightarrow> bool \<Rightarrow> bool \<Rightarrow> query_walk" where
  "query_walk_begin query descending narrowed =
    \<lparr>wk_all = walk_sources (listed (qu_all query) (qu_all_count query)) (qu_min query) (qu_max query) descending,
     wk_any = walk_sources (listed (qu_any query) (qu_any_count query)) (qu_min query) (qu_max query) descending,
     wk_none = walk_sources (listed (qu_none query) (qu_none_count query)) (qu_min query) (qu_max query) descending,
     wk_min = qu_min query, wk_max = qu_max query, wk_descending = descending, wk_narrow = narrowed,
     wk_have_key = False, wk_key = 0\<rparr>"

definition check_query :: "roaring_query option \<Rightarrow> arnm_result" where
  "check_query query =
    (case query of
       None \<Rightarrow> ARNM_ERROR_NULL_POINTER
     | Some q \<Rightarrow>
         if qu_all_count q > ARNM_ROARING_QUERY_MAX \<or> qu_any_count q > ARNM_ROARING_QUERY_MAX \<or>
           qu_none_count q > ARNM_ROARING_QUERY_MAX then ARNM_ERROR_INVALID_PARAM
         else if qu_all_count q \<noteq> 0 \<and> qu_all q = None \<or> qu_any_count q \<noteq> 0 \<and> qu_any q = None \<or>
           qu_none_count q \<noteq> 0 \<and> qu_none q = None then ARNM_ERROR_NULL_POINTER
         else ARNM_SUCCESS)"

definition query_is_sparse_union :: "roaring_query \<Rightarrow> bool" where
  "query_is_sparse_union q \<longleftrightarrow> qu_all_count q = 0 \<and> qu_none_count q = 0 \<and> qu_any_count q \<noteq> 0 \<and>
    all_sparse (listed (qu_any q) (qu_any_count q))"

partial_function (option) walk_cardinality :: "query_walk \<Rightarrow> nat \<Rightarrow> nat option" where
  "walk_cardinality walk counted =
    Option.bind (query_walk_next walk) (\<lambda>r.
      case r of None \<Rightarrow> Some counted | Some (key, walk) \<Rightarrow> walk_cardinality walk (u64 (counted + query_key_cardinality key)))"

definition query_spans :: "roaring_query \<Rightarrow> sparse_span list" where
  "query_spans q = sparse_spans_of (listed (qu_any q) (qu_any_count q)) (qu_min q) (qu_max q)"

text \<open>An outcome of \<open>None\<close> is a walk that does not return.\<close>

definition arnm_roaring_query_cardinality :: "roaring_query option \<Rightarrow> nat option \<Rightarrow> (arnm_result \<times> nat option) option" where
  "arnm_roaring_query_cardinality query out =
    (let result = check_query query
     in if result \<noteq> ARNM_SUCCESS then Some (result, out)
        else if out = None then Some (ARNM_ERROR_NULL_POINTER, out)
        else
          let q = the query
          in map_option (\<lambda>counted. (ARNM_SUCCESS, Some counted))
            (if qu_min q \<le> qu_max q then
               if query_is_sparse_union q then
                 (if query_spans q \<noteq> [] then sparse_union_cardinality (query_spans q) else Some 0)
               else walk_cardinality (query_walk_begin q False False) 0
             else Some 0))"

text \<open>The values that were written into the room of the caller stand in \<open>written\<close>.\<close>

partial_function (option) walk_page :: "query_walk \<Rightarrow> nat \<Rightarrow> nat \<Rightarrow> bool \<Rightarrow> nat list \<Rightarrow> nat list option" where
  "walk_page walk skip n descending written =
    (if length written < n then
       Option.bind (query_walk_next walk) (\<lambda>r.
         case r of
           None \<Rightarrow> Some written
         | Some (key, walk) \<Rightarrow>
             (case query_key_page key skip (n - length written) descending of
                (vs, skip) \<Rightarrow> walk_page walk skip n descending (written @ vs)))
     else Some written)"

definition arnm_roaring_query_page :: "roaring_query option \<Rightarrow> nat \<Rightarrow> nat \<Rightarrow> bool \<Rightarrow> nat list option \<Rightarrow> nat option \<Rightarrow>
    (arnm_result \<times> nat list option \<times> nat option) option" where
  "arnm_roaring_query_page query skip n descending out written =
    (let result = check_query query
     in if result \<noteq> ARNM_SUCCESS then Some (result, out, written)
        else if written = None \<or> n \<noteq> 0 \<and> out = None then Some (ARNM_ERROR_NULL_POINTER, out, written)
        else
          let q = the query
          in map_option (\<lambda>vs. (ARNM_SUCCESS, map_option (\<lambda>buffer. vs @ drop (length vs) buffer) out, Some (length vs)))
            (if n \<noteq> 0 \<and> qu_min q \<le> qu_max q then
               if query_is_sparse_union q then
                 Some (if query_spans q \<noteq> [] then sparse_union_page (query_spans q) skip n descending else [])
               else walk_page (query_walk_begin q descending True) skip n descending []
             else Some []))"

partial_function (option) walk_listing :: "query_walk \<Rightarrow> nat \<Rightarrow> nat \<Rightarrow> bool \<Rightarrow> nat list \<Rightarrow> nat \<Rightarrow> (nat list \<times> nat) option" where
  "walk_listing walk skip n descending written counted =
    Option.bind (query_walk_next walk) (\<lambda>r.
      case r of
        None \<Rightarrow> Some (written, counted)
      | Some (key, walk) \<Rightarrow>
          let in_key = query_key_cardinality key; counted = u64 (counted + in_key)
          in if length written < n then
               if skip \<ge> in_key then walk_listing walk (skip - in_key) n descending written counted
               else
                 (case query_key_page key skip (n - length written) descending of
                    (vs, skip) \<Rightarrow> walk_listing walk skip n descending (written @ vs) counted)
             else walk_listing walk skip n descending written counted)"

definition arnm_roaring_query_listing :: "roaring_query option \<Rightarrow> nat \<Rightarrow> nat \<Rightarrow> bool \<Rightarrow> nat list option \<Rightarrow> nat option \<Rightarrow>
    nat option \<Rightarrow> (arnm_result \<times> nat list option \<times> nat option \<times> nat option) option" where
  "arnm_roaring_query_listing query skip n descending out written cardinality =
    (let result = check_query query
     in if result \<noteq> ARNM_SUCCESS then Some (result, out, written, cardinality)
        else if written = None \<or> cardinality = None \<or> n \<noteq> 0 \<and> out = None then
          Some (ARNM_ERROR_NULL_POINTER, out, written, cardinality)
        else
          let q = the query
          in map_option (\<lambda>(vs, counted). (ARNM_SUCCESS, map_option (\<lambda>buffer. vs @ drop (length vs) buffer) out, Some (length vs), Some counted))
            (if qu_min q \<le> qu_max q then
               if query_is_sparse_union q then
                 (if query_spans q \<noteq> [] then
                    map_option (\<lambda>counted. (if n \<noteq> 0 then sparse_union_page (query_spans q) skip n descending else [], counted))
                      (sparse_union_cardinality (query_spans q))
                  else Some ([], 0))
               else walk_listing (query_walk_begin q descending True) skip n descending [] 0
             else Some ([], 0)))"

section \<open>What a query asks for\<close>

definition holds_value :: "nat \<Rightarrow> roaring_bitmap option \<Rightarrow> bool" where
  "holds_value v s = (case s of None \<Rightarrow> False | Some st \<Rightarrow> v \<in> set (elems st))"

definition query_matches :: "roaring_query \<Rightarrow> nat \<Rightarrow> bool" where
  "query_matches q v \<longleftrightarrow> (qu_all_count q \<noteq> 0 \<or> qu_any_count q \<noteq> 0) \<and>
    list_all (holds_value v) (listed (qu_all q) (qu_all_count q)) \<and>
    (qu_any_count q \<noteq> 0 \<longrightarrow> list_ex (holds_value v) (listed (qu_any q) (qu_any_count q))) \<and>
    \<not> list_ex (holds_value v) (listed (qu_none q) (qu_none_count q)) \<and> qu_min q \<le> v \<and> v \<le> qu_max q"

text \<open>A query the functions take: lists as long as they say, and well-formed sets in them.\<close>

definition list_given :: "roaring_bitmap option list option \<Rightarrow> nat \<Rightarrow> bool" where
  "list_given sets n \<longleftrightarrow> n \<le> ARNM_ROARING_QUERY_MAX \<and> (n \<noteq> 0 \<longrightarrow> sets \<noteq> None) \<and>
    (case sets of None \<Rightarrow> True | Some xs \<Rightarrow> n \<le> length xs \<and> (\<forall>st. Some st \<in> set (take n xs) \<longrightarrow> roaring_ok st))"

definition query_ok :: "roaring_query \<Rightarrow> bool" where
  "query_ok q \<longleftrightarrow> list_given (qu_all q) (qu_all_count q) \<and> list_given (qu_any q) (qu_any_count q) \<and>
    list_given (qu_none q) (qu_none_count q) \<and> qu_min q \<le> UINT32_MAX \<and> qu_max q \<le> UINT32_MAX"

abbreviation matched :: "roaring_query \<Rightarrow> nat set" where
  "matched q \<equiv> {v. query_matches q v}"

lemma matched_small: "query_ok q \<Longrightarrow> matched q \<subseteq> {..UINT32_MAX}"
  by (auto simp: query_ok_def query_matches_def)

lemma matched_finite: "query_ok q \<Longrightarrow> finite (matched q)"
  using finite_subset [OF matched_small] by blast

lemma matched_card: "query_ok q \<Longrightarrow> card (matched q) < 2 ^ 64"
  using card_mono [OF _ matched_small, of q] by (simp add: UINT32_MAX_def)

lemma given_listed: "list_given sets n \<Longrightarrow> length (listed sets n) = n \<and> (\<forall>st. Some st \<in> set (listed sets n) \<longrightarrow> roaring_ok st)"
  by (cases sets) (simp_all add: list_given_def listed_def)

lemma query_checked: "query_ok q \<Longrightarrow> check_query (Some q) = ARNM_SUCCESS"
  by (auto simp: query_ok_def check_query_def list_given_def)

section \<open>The walk over a query\<close>

definition reached :: "nat \<Rightarrow> nat \<Rightarrow> roaring_bitmap option \<Rightarrow> nat set" where
  "reached mn mx st = (case st of None \<Rightarrow> {} | Some st \<Rightarrow>
      {v\<in>set (elems st). arnm_roaring_key_of mn \<le> arnm_roaring_key_of v \<and> arnm_roaring_key_of v \<le> arnm_roaring_key_of mx})"

lemma reached_in: "mn \<le> v \<Longrightarrow> v \<le> mx \<Longrightarrow> v \<in> reached mn mx s \<longleftrightarrow> holds_value v s"
  using key_le [of mn v] key_le [of v mx] by (simp add: reached_def holds_value_def split: option.split)

lemma walk_sources_ok:
  assumes "\<forall>st. Some st \<in> set sets \<longrightarrow> roaring_ok st" "mx \<le> UINT32_MAX"
  shows "list_all2 (covers d 0) (walk_sources sets mn mx d) (map (reached mn mx) sets)"
proof -
  have "covers d 0 (arnm_roaring_source_begin s mn mx d False) (reached mn mx s)" if "s \<in> set sets" for s
    using begin_ok [of s mx mn d] assms that by (cases s) (simp_all add: covers_def reached_def)
  then show ?thesis by (simp add: walk_sources_def list_all2_map1 list_all2_map2 list_all2_same)
qed

lemma query_walk_begin_ok:
  assumes "query_ok q" "qu_min q \<le> qu_max q"
  obtains As Ys Ns where "walk_ok As Ys Ns (query_walk_begin q d narrowed) 0"
    "matches As Ys Ns (qu_min q) (qu_max q) = query_matches q"
proof -
  let ?r = "reached (qu_min q) (qu_max q)"
  let ?a = "listed (qu_all q) (qu_all_count q)" and ?y = "listed (qu_any q) (qu_any_count q)" and ?n = "listed (qu_none q) (qu_none_count q)"
  have g: "length ?a = qu_all_count q" "length ?y = qu_any_count q"
    "\<forall>st. Some st \<in> set ?a \<longrightarrow> roaring_ok st" "\<forall>st. Some st \<in> set ?y \<longrightarrow> roaring_ok st" "\<forall>st. Some st \<in> set ?n \<longrightarrow> roaring_ok st"
    "qu_max q \<le> UINT32_MAX"
    using assms(1) given_listed unfolding query_ok_def by blast+
  have "walk_ok (map ?r ?a) (map ?r ?y) (map ?r ?n) (query_walk_begin q d narrowed) 0"
    using walk_sources_ok [OF g(3,6)] walk_sources_ok [OF g(4,6)] walk_sources_ok [OF g(5,6)] g(6) assms(2)
    by (auto simp: walk_ok_def query_walk_begin_def past_def reached_def split: option.splits)
  moreover have "matches (map ?r ?a) (map ?r ?y) (map ?r ?n) (qu_min q) (qu_max q) v = query_matches q v" for v
  proof (cases "qu_min q \<le> v \<and> v \<le> qu_max q")
    case True
    have "?a = [] \<longleftrightarrow> qu_all_count q = 0" "?y = [] \<longleftrightarrow> qu_any_count q = 0" using g(1,2) by auto
    then show ?thesis using True reached_in [of "qu_min q" v "qu_max q"]
      by (simp add: matches_def query_matches_def list_all_iff list_ex_iff)
  qed (auto simp: matches_def query_matches_def)
  ultimately show ?thesis using that by blast
qed

text \<open>The matches from a place on, and what a step of the walk takes of them.\<close>

definition still :: "(nat \<Rightarrow> bool) \<Rightarrow> bool \<Rightarrow> nat \<Rightarrow> nat set" where
  "still M d b = {v. M v \<and> b \<le> place d v}"

definition walks :: "(nat \<Rightarrow> bool) \<Rightarrow> bool \<Rightarrow> query_walk \<Rightarrow> nat \<Rightarrow> bool" where
  "walks M d w b \<longleftrightarrow> wk_descending w = d \<and> (\<exists>As Ys Ns. walk_ok As Ys Ns w b \<and> matches As Ys Ns (wk_min w) (wk_max w) = M)"

lemma walks_small: "walks M d w b \<Longrightarrow> M v \<Longrightarrow> v \<le> UINT32_MAX"
  by (auto simp: walks_def walk_ok_def matches_def)

lemma still_finite: "walks M d w b \<Longrightarrow> finite (still M d b')"
  by (rule finite_subset [of _ "{..UINT32_MAX}"]) (auto simp: still_def dest: walks_small)

lemma still_parts:
  fixes key :: nat
  assumes "walks M d w b" "key < 65536" "b \<le> kpos d key" "\<forall>v. M v \<longrightarrow> b \<le> place d v \<longrightarrow> kpos d key \<le> place d v"
    and "{v. M v \<and> arnm_roaring_key_of v = key} = arnm_roaring_value_of key ` K" "finite K" "\<forall>x\<in>K. x < 65536"
  shows "listing d (still M d b) = map (arnm_roaring_value_of key) (listing d K) @ listing d (still M d (Suc (kpos d key)))"
proof -
  let ?H = "arnm_roaring_value_of key ` K" and ?T = "still M d (Suc (kpos d key))"
  have small: "arnm_roaring_key_of v < 65536" if "M v" for v using key_small [OF walks_small [OF assms(1) that]] .
  have H: "v \<in> ?H \<longleftrightarrow> M v \<and> arnm_roaring_key_of v = key" for v using assms(5) by blast
  have "v \<in> still M d b \<longleftrightarrow> v \<in> ?H \<union> ?T" for v
  proof (cases "M v")
    case True
    have e: "kpos d key = place d v \<longleftrightarrow> arnm_roaring_key_of v = key" using kpos_eq [OF assms(2) small [OF True], of d] by auto
    show ?thesis unfolding Un_iff H using True e assms(3,4) by (auto simp: still_def)
  qed (unfold Un_iff H, simp add: still_def)
  then have u: "still M d b = ?H \<union> ?T" by blast
  have before: "value_before d x y" if "x \<in> ?H" "y \<in> ?T" for x y
  proof -
    have "arnm_roaring_key_of x = key" "M y" "kpos d key < place d y" using that H by (auto simp: still_def)
    then show ?thesis
      using key_less [of x y] key_less [of y x] small [of y] by (cases d) (auto simp: kpos_def value_before_def)
  qed
  have "listing d ?H = map (arnm_roaring_value_of key) (listing d K)"
    using assms(6,7) by (intro listing_map) (auto simp: value_of_sum)
  then show ?thesis unfolding u using listing_append [of ?H ?T d] before assms(6) still_finite [OF assms(1)] by simp
qed

lemma walk_step:
  assumes "walks M d w b"
  obtains (finished) "query_walk_next w = Some None" "still M d b = {}"
  | (key) k w' b' where "query_walk_next w = Some (Some (k, w'))" "query_key_ok k" "walks M d w' b'" "b < b'" "b' \<le> 65536"
      "listing d (still M d b) = map (arnm_roaring_value_of (qk_key k)) (listing d (key_set k)) @ listing d (still M d b')"
proof -
  obtain As Ys Ns where w: "walk_ok As Ys Ns w b" "matches As Ys Ns (wk_min w) (wk_max w) = M" "wk_descending w = d"
    using assms by (auto simp: walks_def)
  obtain r where r: "query_walk_next w = Some r"
    "case r of
       None \<Rightarrow> \<forall>v. M v \<longrightarrow> \<not> b \<le> place d v
     | Some (k, w') \<Rightarrow> query_key_ok k \<and> qk_key k < 65536 \<and> b \<le> kpos d (qk_key k) \<and>
         walk_ok As Ys Ns w' (Suc (kpos d (qk_key k))) \<and> same_walk w w' \<and>
         (\<forall>v. M v \<longrightarrow> b \<le> place d v \<longrightarrow> kpos d (qk_key k) \<le> place d v) \<and>
         {v. M v \<and> arnm_roaring_key_of v = qk_key k} = arnm_roaring_value_of (qk_key k) ` key_set k"
    using query_walk_next_ok [OF w(1), unfolded w(2,3)] by (elim exE conjE)
  show thesis
  proof (cases r)
    case None
    then show thesis using r finished by (simp add: still_def)
  next
    case (Some p)
    obtain k w' where p: "p = (k, w')" by fastforce
    have k: "query_key_ok k" "qk_key k < 65536" "b \<le> kpos d (qk_key k)"
      "walk_ok As Ys Ns w' (Suc (kpos d (qk_key k)))" "same_walk w w'"
      "\<forall>v. M v \<longrightarrow> b \<le> place d v \<longrightarrow> kpos d (qk_key k) \<le> place d v"
      "{v. M v \<and> arnm_roaring_key_of v = qk_key k} = arnm_roaring_value_of (qk_key k) ` key_set k"
      using r(2) by (simp_all add: Some p)
    have w': "walks M d w' (Suc (kpos d (qk_key k)))"
      using k(4,5) w(2,3) unfolding walks_def same_walk_def by metis
    have "\<forall>x\<in>key_set k. x < 65536" using k(1) by (auto simp: key_set_def query_key_ok_def)
    note l = still_parts [OF assms k(2,3,6,7) key_set_finite this]
    show thesis by (rule key [OF _ k(1) w' _ _ l]) (use r(1) k(3) kpos_less [OF k(2), of d] in \<open>simp_all add: Some p\<close>)
  qed
qed

lemma walk_cardinality_ok:
  assumes "walks M d w b" "counted + card (still M d b) < 2 ^ 64"
  shows "walk_cardinality w counted = Some (counted + card (still M d b))"
  using assms
proof (induction "65536 - b" arbitrary: w b counted rule: less_induct)
  case less
  from less.prems(1) show ?case
  proof (cases rule: walk_step)
    case finished
    then show ?thesis by (simp add: walk_cardinality.simps [of w])
  next
    case (key k w' b')
    have c: "card (still M d b) = card (key_set k) + card (still M d b')" using arg_cong [OF key(6), of length] by simp
    have "65536 - b' < 65536 - b" using key(4,5) by simp
    moreover have "counted + card (key_set k) + card (still M d b') < 2 ^ 64" using less.prems(2) c by simp
    ultimately have "walk_cardinality w' (counted + card (key_set k)) = Some (counted + card (key_set k) + card (still M d b'))"
      using less.hyps key(3) by blast
    moreover have "u64 (counted + query_key_cardinality k) = counted + card (key_set k)"
      using less.prems(2) c query_key_cardinality_ok [OF key(2)] by (simp add: u64_def)
    ultimately show ?thesis using key(1) c by (simp add: walk_cardinality.simps [of w])
  qed
qed

lemma walk_page_ok:
  assumes "walks M d w b"
  shows "walk_page w skip n d written =
    Some (written @ take (n - length written) (drop skip (listing d (still M d b))))"
  using assms
proof (induction "65536 - b" arbitrary: w b skip written rule: less_induct)
  case less
  show ?case
  proof (cases "length written < n")
    case False
    then show ?thesis by (simp add: walk_page.simps [of w])
  next
    case True
    from less.prems show ?thesis
    proof (cases rule: walk_step)
      case finished
      then show ?thesis using True by (simp add: walk_page.simps [of w])
    next
      case (key k w' b')
      define vs where "vs = take (n - length written) (drop skip (map (arnm_roaring_value_of (qk_key k)) (listing d (key_set k))))"
      have p: "query_key_page k skip (n - length written) d = (vs, skip - card (key_set k))"
        using query_key_page_ok [OF key(2)] True by (simp add: vs_def take_map drop_map)
      have "65536 - b' < 65536 - b" using key(4,5) by simp
      note IH = less.hyps [OF this key(3), of "skip - card (key_set k)" "written @ vs"]
      have "take (n - length written) (drop skip (listing d (still M d b))) =
          vs @ take (n - length written - length vs) (drop (skip - card (key_set k)) (listing d (still M d b')))"
        unfolding key(6) page_parts vs_def by simp
      then show ?thesis using IH True key(1) p by (simp add: walk_page.simps [of w])
    qed
  qed
qed

lemma walk_listing_ok:
  assumes "walks M d w b" "counted + card (still M d b) < 2 ^ 64"
  shows "walk_listing w skip n d written counted =
    Some (written @ take (n - length written) (drop skip (listing d (still M d b))), counted + card (still M d b))"
  using assms
proof (induction "65536 - b" arbitrary: w b skip written counted rule: less_induct)
  case less
  from less.prems(1) show ?case
  proof (cases rule: walk_step)
    case finished
    then show ?thesis by (simp add: walk_listing.simps [of w])
  next
    case (key k w' b')
    let ?n = "n - length written" and ?K = "map (arnm_roaring_value_of (qk_key k)) (listing d (key_set k))"
    have c: "card (still M d b) = card (key_set k) + card (still M d b')" using arg_cong [OF key(6), of length] by simp
    have "65536 - b' < 65536 - b" using key(4,5) by simp
    moreover have "counted + card (key_set k) + card (still M d b') < 2 ^ 64" using less.prems(2) c by simp
    ultimately have IH: "walk_listing w' skip n d written (counted + card (key_set k)) =
        Some (written @ take (n - length written) (drop skip (listing d (still M d b'))), counted + card (key_set k) + card (still M d b'))"
      for skip written using less.hyps key(3) by blast
    have u: "u64 (counted + query_key_cardinality k) = counted + card (key_set k)" "query_key_cardinality k = card (key_set k)"
      using less.prems(2) c query_key_cardinality_ok [OF key(2)] by (simp_all add: u64_def)
    have l: "take ?n (drop skip (listing d (still M d b))) =
        take ?n (drop skip ?K) @ take (?n - length (take ?n (drop skip ?K))) (drop (skip - card (key_set k)) (listing d (still M d b')))"
      unfolding key(6) page_parts by simp
    consider "\<not> length written < n" | "length written < n" "skip \<ge> card (key_set k)" | "length written < n" "\<not> skip \<ge> card (key_set k)" by blast
    then show ?thesis
    proof cases
      case 1
      then show ?thesis using key(1) u IH [of skip written] c by (simp add: walk_listing.simps [of w] Let_def)
    next
      case 2
      then show ?thesis using key(1) u IH [of "skip - card (key_set k)" written] c l by (simp add: walk_listing.simps [of w] Let_def)
    next
      case 3
      define vs where "vs = take ?n (drop skip ?K)"
      have p: "query_key_page k skip ?n d = (vs, skip - card (key_set k))"
        using query_key_page_ok [OF key(2)] 3 by (simp add: vs_def take_map drop_map)
      then show ?thesis using 3 key(1) u IH [of "skip - card (key_set k)" "written @ vs"] c l [folded vs_def]
        by (simp add: walk_listing.simps [of w] Let_def)
    qed
  qed
qed

section \<open>The three answers\<close>

lemma query_walks:
  assumes "query_ok q" "qu_min q \<le> qu_max q"
  shows "walks (query_matches q) d (query_walk_begin q d narrowed) 0" "still (query_matches q) d 0 = matched q"
proof -
  have "wk_descending (query_walk_begin q d narrowed) = d \<and> wk_min (query_walk_begin q d narrowed) = qu_min q \<and>
      wk_max (query_walk_begin q d narrowed) = qu_max q" by (simp add: query_walk_begin_def)
  then show "walks (query_matches q) d (query_walk_begin q d narrowed) 0"
    using query_walk_begin_ok [OF assms, of d narrowed] unfolding walks_def by metis
qed (simp add: still_def)

lemma query_empty_range: "\<not> qu_min q \<le> qu_max q \<Longrightarrow> matched q = {}"
  by (auto simp: query_matches_def)

lemma some_holds: "list_ex (holds_value v) sets \<longleftrightarrow> (\<exists>st. Some st \<in> set sets \<and> v \<in> set (elems st))"
proof
  assume "list_ex (holds_value v) sets"
  then obtain s where s: "s \<in> set sets" "holds_value v s" by (auto simp: list_ex_iff)
  from s(2) obtain st where "s = Some st" "v \<in> set (elems st)" by (cases s) (simp_all add: holds_value_def)
  then show "\<exists>st. Some st \<in> set sets \<and> v \<in> set (elems st)" using s(1) by blast
qed (force simp: list_ex_iff holds_value_def)

lemma query_spans_ok:
  assumes "query_ok q" "qu_min q \<le> qu_max q" "query_is_sparse_union q"
  shows "\<forall>s\<in>set (query_spans q). span_ok s" "spans_set (query_spans q) = matched q"
proof -
  let ?y = "listed (qu_any q) (qu_any_count q)"
  have g: "\<forall>st. Some st \<in> set ?y \<longrightarrow> roaring_ok st" using assms(1) given_listed unfolding query_ok_def by blast
  have s: "all_sparse ?y" using assms(3) by (simp add: query_is_sparse_union_def)
  note ok = spans_of_ok [OF s g assms(2), folded query_spans_def]
  then show "\<forall>s\<in>set (query_spans q). span_ok s" by blast
  have z: "qu_all_count q = 0" "qu_none_count q = 0" "qu_any_count q \<noteq> 0" using assms(3) by (simp_all add: query_is_sparse_union_def)
  have "listed sets 0 = []" for sets by (simp add: listed_def split: option.split)
  then have "query_matches q v \<longleftrightarrow> qu_min q \<le> v \<and> v \<le> qu_max q \<and> (\<exists>st. Some st \<in> set ?y \<and> v \<in> set (elems st))" for v
    using z by (auto simp: query_matches_def some_holds)
  then show "spans_set (query_spans q) = matched q" using ok by auto
qed

lemma query_counted:
  assumes "query_ok q"
  shows "(if qu_min q \<le> qu_max q then
               if query_is_sparse_union q then
                 (if query_spans q \<noteq> [] then sparse_union_cardinality (query_spans q) else Some 0)
               else walk_cardinality (query_walk_begin q False False) 0
             else Some 0) = Some (card (matched q))"
proof (cases "qu_min q \<le> qu_max q")
  case True
  show ?thesis
  proof (cases "query_is_sparse_union q")
    case sparse: True
    note s = query_spans_ok [OF assms True sparse]
    have "sparse_union_cardinality (query_spans q) = Some (card (matched q))"
      using sparse_union_cardinality_ok [OF s(1)] s(2) matched_small [OF assms] by simp
    moreover have "query_spans q = [] \<Longrightarrow> card (matched q) = 0" using s(2) by simp
    ultimately show ?thesis using True sparse by simp
  next
    case False
    note w = query_walks(1) [OF assms True, where d = False and narrowed = False] query_walks(2) [OF assms True, where d = False]
    show ?thesis using walk_cardinality_ok [OF w(1), of 0] w(2) matched_card [OF assms] True False by simp
  qed
qed (simp add: query_empty_range)

lemma sparse_query_page:
  assumes "query_ok q" "qu_min q \<le> qu_max q" "query_is_sparse_union q"
  shows "(if query_spans q \<noteq> [] then sparse_union_page (query_spans q) skip n d else []) =
    take n (drop skip (listing d (matched q)))"
proof (cases "query_spans q = []")
  case True
  then have "matched q = {}" using query_spans_ok(2) [OF assms] by simp
  then show ?thesis using True by simp
next
  case False
  then show ?thesis using sparse_union_page_ok query_spans_ok [OF assms] by simp
qed

lemma query_paged:
  assumes "query_ok q"
  shows "(if n \<noteq> 0 \<and> qu_min q \<le> qu_max q then
               if query_is_sparse_union q then
                 Some (if query_spans q \<noteq> [] then sparse_union_page (query_spans q) skip n d else [])
               else walk_page (query_walk_begin q d True) skip n d []
             else Some []) = Some (take n (drop skip (listing d (matched q))))"
proof (cases "n \<noteq> 0 \<and> qu_min q \<le> qu_max q")
  case True
  then have m: "qu_min q \<le> qu_max q" by blast
  show ?thesis
  proof (cases "query_is_sparse_union q")
    case sparse: True
    show ?thesis unfolding if_P [OF True] if_P [OF sparse] sparse_query_page [OF assms m sparse] ..
  next
    case False
    note w = query_walks(1) [OF assms m, where d = d and narrowed = True] query_walks(2) [OF assms m, where d = d]
    show ?thesis using walk_page_ok [OF w(1), of skip n "[]"] w(2) True False by simp
  qed
qed (auto simp: query_empty_range)

lemma query_listed:
  assumes "query_ok q"
  shows "(if qu_min q \<le> qu_max q then
               if query_is_sparse_union q then
                 (if query_spans q \<noteq> [] then
                    map_option (\<lambda>counted. (if n \<noteq> 0 then sparse_union_page (query_spans q) skip n d else [], counted))
                      (sparse_union_cardinality (query_spans q))
                  else Some ([], 0))
               else walk_listing (query_walk_begin q d True) skip n d [] 0
             else Some ([], 0)) = Some (take n (drop skip (listing d (matched q))), card (matched q))"
proof (cases "qu_min q \<le> qu_max q")
  case True
  show ?thesis
  proof (cases "query_is_sparse_union q")
    case sparse: True
    note p = sparse_query_page [OF assms True sparse, of skip n d]
    have c: "(if query_spans q \<noteq> [] then sparse_union_cardinality (query_spans q) else Some 0) = Some (card (matched q))"
      using query_counted [OF assms] unfolding if_P [OF True] if_P [OF sparse] .
    show ?thesis unfolding if_P [OF True] if_P [OF sparse]
    proof (cases "query_spans q = []")
      case False
      then show "(if query_spans q \<noteq> [] then
            map_option (\<lambda>counted. (if n \<noteq> 0 then sparse_union_page (query_spans q) skip n d else [], counted))
              (sparse_union_cardinality (query_spans q))
          else Some ([], 0)) = Some (take n (drop skip (listing d (matched q))), card (matched q))"
        using p c by simp
    qed (use p c in simp)
  next
    case False
    note w = query_walks(1) [OF assms True, where d = d and narrowed = True] query_walks(2) [OF assms True, where d = d]
    show ?thesis using walk_listing_ok [OF w(1), of 0 skip n "[]"] w(2) matched_card [OF assms] True False by simp
  qed
qed (simp add: query_empty_range)

section \<open>Properties\<close>

text \<open>C12: A query that is in order is counted: the answer returns and is the number of the values that are in every set
  of \<open>all\<close>, in one of \<open>any\<close> where it names sets, in none of \<open>none\<close> and inside the range; neither set is changed.
\<close>

theorem query_cardinality_counts:
  assumes "query_ok q"
  shows "arnm_roaring_query_cardinality (Some q) (Some x) = Some (ARNM_SUCCESS, Some (card {v. query_matches q v}))"
  using query_checked [OF assms] query_counted [OF assms]
  by (simp only: arnm_roaring_query_cardinality_def Let_def option.sel option.map option.simps if_False simp_thms)

text \<open>C13: A page is a slice of the list of the matches, ascending or turned around: behind the first \<open>skip\<close> of it up to
  \<open>n\<close> values stand at the beginning of the room, the rest of the room is as it was, and their number is told.
\<close>

theorem query_page_is_slice:
  assumes "query_ok q"
  shows "let matching = sorted_list_of_set {v. query_matches q v};
      vs = take n (drop skip (if d then rev matching else matching))
    in arnm_roaring_query_page (Some q) skip n d (Some buffer) (Some x) =
      Some (ARNM_SUCCESS, Some (vs @ drop (length vs) buffer), Some (length vs))"
  using query_checked [OF assms] query_paged [OF assms, of n skip d]
  by (simp only: arnm_roaring_query_page_def Let_def option.sel option.map option.simps if_False simp_thms listing_def)

text \<open>C14: A listing answers in one walk what the page and the count answer in two, whichever of the pointers of the page
  are \<open>NULL\<close>: then it is refused as the page is, and what the count points at stays as it was.
\<close>

theorem query_listing_agrees:
  assumes "query_ok q"
  shows "\<exists>r out' written' counted.
    arnm_roaring_query_cardinality (Some q) (Some x) = Some (ARNM_SUCCESS, counted) \<and>
    arnm_roaring_query_page (Some q) skip n d out written = Some (r, out', written') \<and>
    arnm_roaring_query_listing (Some q) skip n d out written (Some x) =
      Some (r, out', written', if r = ARNM_SUCCESS then counted else Some x)"
proof (cases "written = None \<or> n \<noteq> 0 \<and> out = None")
  case True
  then show ?thesis using query_checked [OF assms] query_counted [OF assms]
    by (simp add: arnm_roaring_query_listing_def arnm_roaring_query_page_def arnm_roaring_query_cardinality_def)
next
  case False
  have "arnm_roaring_query_cardinality (Some q) (Some x) = Some (ARNM_SUCCESS, Some (card (matched q)))"
    using query_checked [OF assms] query_counted [OF assms]
    by (simp only: arnm_roaring_query_cardinality_def Let_def option.sel option.map option.simps if_False simp_thms)
  moreover have "arnm_roaring_query_page (Some q) skip n d out written = Some (ARNM_SUCCESS,
      map_option (\<lambda>buffer. take n (drop skip (listing d (matched q))) @ drop (length (take n (drop skip (listing d (matched q))))) buffer) out,
      Some (length (take n (drop skip (listing d (matched q))))))"
    unfolding arnm_roaring_query_page_def Let_def if_not_P [OF False] option.sel query_paged [OF assms] query_checked [OF assms] by simp
  moreover have "arnm_roaring_query_listing (Some q) skip n d out written (Some x) = Some (ARNM_SUCCESS,
      map_option (\<lambda>buffer. take n (drop skip (listing d (matched q))) @ drop (length (take n (drop skip (listing d (matched q))))) buffer) out,
      Some (length (take n (drop skip (listing d (matched q))))), Some (card (matched q)))"
    using False unfolding arnm_roaring_query_listing_def Let_def option.sel query_listed [OF assms] query_checked [OF assms] by simp
  ultimately show ?thesis by auto
qed

section \<open>Witnesses\<close>

text \<open>
  A query that reads every list: the sample set, one of an array, a set that is \<open>NULL\<close>, and one value left out.
\<close>

definition sample_array :: roaring_bitmap where
  "sample_array = zero_roaring\<lparr>rb_block := 4096, rb_directory_log2 := 4, rb_cardinality := 1, rb_maximum := 65536, rb_values := [65536]\<rparr>"

definition sample_query :: roaring_query where
  "sample_query = \<lparr>qu_all = Some [Some sample_set], qu_all_count = 1, qu_any = Some [None, Some sample_set], qu_any_count = 2,
    qu_none = Some [Some sample_array], qu_none_count = 1, qu_min = 4, qu_max = 65537\<rparr>"

lemma sample_array_ok: "roaring_ok sample_array" "elems sample_array = [65536]"
  by (simp_all add: roaring_ok_def values_ok_def elems_def sample_array_def zero_roaring_def UINT32_MAX_def ARNM_ROARING_SPARSE_MAX_def)

lemma sample_query_ok: "query_ok sample_query"
  by (simp add: query_ok_def sample_query_def list_given_def ARNM_ROARING_QUERY_MAX_def UINT32_MAX_def sample_set_ok sample_array_ok)

lemma sample_query_matches: "{v. query_matches sample_query v} = {7, 9, 65537}"
  by (auto simp: query_matches_def sample_query_def listed_def holds_value_def sample_set_ok sample_array_ok)

lemma query_cardinality_counts_witness:
  "arnm_roaring_query_cardinality (Some sample_query) (Some 0) = Some (ARNM_SUCCESS, Some 3)"
  using query_cardinality_counts [OF sample_query_ok, of 0] by (simp add: sample_query_matches)

lemma query_page_is_slice_witness:
  "arnm_roaring_query_page (Some sample_query) 1 5 True (Some [0, 0, 0, 8]) (Some 0) =
    Some (ARNM_SUCCESS, Some [9, 7, 0, 8], Some 2)"
  using query_page_is_slice [OF sample_query_ok, of 5 1 True "[0, 0, 0, 8]" 0] by (simp add: sample_query_matches)

lemma query_listing_agrees_witness:
  "\<exists>r out' written' counted.
    arnm_roaring_query_cardinality (Some sample_query) (Some 0) = Some (ARNM_SUCCESS, counted) \<and>
    arnm_roaring_query_page (Some sample_query) 0 2 False (Some [0, 0]) (Some 0) = Some (r, out', written') \<and>
    arnm_roaring_query_listing (Some sample_query) 0 2 False (Some [0, 0]) (Some 0) (Some 0) =
      Some (r, out', written', if r = ARNM_SUCCESS then counted else Some 0)"
  using query_listing_agrees [OF sample_query_ok] .

end
