(* ===== verification/Doubles.thy ===== *)
theory Doubles
  imports Prelude "HOL-Library.Log_Nat"
begin

text \<open>
  The \<open>double\<close> of C as far as the sources use it: a value that is not negative and far from both ends of the
  range, so that every operation is the exact result rounded to 53 significant bits, to the nearest and
  to even between two. A double is the rational number it stands for; \<open>to_double\<close> is the rounding.
\<close>

definition double_exponent :: "rat \<Rightarrow> int" where
  "double_exponent x =
    (case quotient_of x of (p, q) \<Rightarrow>
       let e = bitlen p - bitlen q in if x < 2 powi e then e - 1 else e)"

definition round_even :: "rat \<Rightarrow> int" where
  "round_even x =
    (let n = \<lfloor>x\<rfloor>; r = x - of_int n in if r < 1 / 2 \<or> r = 1 / 2 \<and> even n then n else n + 1)"

definition to_double :: "rat \<Rightarrow> rat" where
  "to_double x =
    (if x \<le> 0 then 0
     else let unit = 2 powi (double_exponent x - 52) in of_int (round_even (x / unit)) * unit)"

lemma exponent_bounds:
  assumes "0 < x"
  shows "2 powi double_exponent x \<le> x" "x < 2 powi (double_exponent x + 1)"
proof -
  obtain p q where pq: "quotient_of x = (p, q)" by fastforce
  have q: "0 < q" and x: "x = of_int p / of_int q" using quotient_of_denom_pos [OF pq] quotient_of_div [OF pq] by simp_all
  have p: "0 < p" using assms q unfolding x by (simp add: zero_less_divide_iff)
  define a b where "a = nat (bitlen p)" and "b = nat (bitlen q)"
  have ab: "int a = bitlen p" "int b = bitlen q" "0 < a" "0 < b"
    using bitlen_nonneg [of p] bitlen_nonneg [of q] bitlen_eq_zero_iff [of p] bitlen_eq_zero_iff [of q] p q by (auto simp: a_def b_def)
  have bp: "2 ^ (a - 1) \<le> p" "p < 2 ^ a" using bitlen_bounds [OF p] ab(3) by (simp_all add: a_def nat_diff_distrib)
  have bq: "2 ^ (b - 1) \<le> q" "q < 2 ^ b" using bitlen_bounds [OF q] ab(4) by (simp_all add: b_def nat_diff_distrib)
  let ?e = "int a - int b"
  have P: "(2::rat) ^ (a - 1) \<le> of_int p" "of_int p < (2::rat) ^ a"
    using bp by (metis of_int_le_iff of_int_numeral of_int_power, metis of_int_less_iff of_int_numeral of_int_power)
  have Q: "(2::rat) ^ (b - 1) \<le> of_int q" "of_int q < (2::rat) ^ b" "(0::rat) < of_int q"
    using bq q by (metis of_int_le_iff of_int_numeral of_int_power, metis of_int_less_iff of_int_numeral of_int_power, simp)
  have "x < 2 ^ a / of_int q" unfolding x using P(2) Q(3) by (simp add: divide_strict_right_mono)
  also have "\<dots> \<le> 2 ^ a / 2 ^ (b - 1)" using Q by (intro divide_left_mono) simp_all
  also have "\<dots> = 2 powi (?e + 1)"
  proof -
    have e: "?e + 1 = int a - int (b - 1)" using ab(4) by simp
    show ?thesis unfolding e by (simp add: power_int_diff)
  qed
  finally have hi: "x < 2 powi (?e + 1)" .
  have "2 powi (?e - 1) = (2::rat) ^ (a - 1) / 2 ^ b"
  proof -
    have e: "?e - 1 = int (a - 1) - int b" using ab(3) by simp
    show ?thesis unfolding e by (simp add: power_int_diff)
  qed
  also have "\<dots> \<le> of_int p / 2 ^ b" using P(1) by (simp add: divide_right_mono)
  also have "\<dots> \<le> x" unfolding x using Q p by (intro divide_left_mono) simp_all
  finally have lo: "2 powi (?e - 1) \<le> x" .
  have e: "double_exponent x = (if x < 2 powi ?e then ?e - 1 else ?e)" using ab(1,2) by (simp add: double_exponent_def pq Let_def)
  show "2 powi double_exponent x \<le> x" "x < 2 powi (double_exponent x + 1)" using lo hi by (simp_all add: e not_less)
qed

lemma round_even_near: "\<bar>of_int (round_even x) - x\<bar> \<le> 1 / 2"
proof -
  have "of_int \<lfloor>x\<rfloor> \<le> x" "x < of_int \<lfloor>x\<rfloor> + 1" by linarith+
  then show ?thesis by (auto simp: round_even_def Let_def abs_le_iff)
qed

lemma round_even_int [simp]: "round_even (of_int n) = n"
  by (simp add: round_even_def)

lemma round_even_ge: "of_int n \<le> x \<Longrightarrow> n \<le> round_even x"
  unfolding le_floor_iff [symmetric] by (simp add: round_even_def Let_def)

lemma round_even_le: "x \<le> of_int n \<Longrightarrow> round_even x \<le> n"
proof -
  assume x: "x \<le> of_int n"
  show ?thesis
  proof (cases "x = of_int n")
    case False
    then have "\<lfloor>x\<rfloor> < n" using x by (simp add: floor_less_iff)
    then show ?thesis by (simp add: round_even_def Let_def)
  qed simp
qed

lemma to_double_0 [simp]: "to_double 0 = 0"
  by (simp add: to_double_def)

lemma to_double_near:
  assumes "0 < x" shows "\<bar>to_double x - x\<bar> \<le> 2 powi (double_exponent x - 53)"
proof -
  define u :: rat where "u = 2 powi (double_exponent x - 52)"
  have u: "0 < u" by (simp add: u_def)
  have "to_double x - x = (of_int (round_even (x / u)) - x / u) * u"
    using assms u by (simp add: to_double_def Let_def u_def [symmetric] left_diff_distrib)
  then have "\<bar>to_double x - x\<bar> \<le> 1 / 2 * u" using round_even_near [of "x / u"] u by (simp add: abs_mult mult_right_mono)
  also have "\<dots> = 2 powi (double_exponent x - 53)"
    using power_int_add [of "2::rat" "double_exponent x - 53" 1] by (simp add: u_def)
  finally show ?thesis .
qed

text \<open>The relative error of a rounding.\<close>

lemma to_double_relative: "0 \<le> x \<Longrightarrow> \<bar>to_double x - x\<bar> \<le> x / 2 ^ 53"
proof (cases "x = 0")
  case False
  assume "0 \<le> x"
  then have x: "0 < x" using False by simp
  have "2 powi (double_exponent x - 53) = (2::rat) powi double_exponent x / 2 ^ 53" by (simp add: power_int_diff)
  also have "\<dots> \<le> x / 2 ^ 53" using exponent_bounds(1) [OF x] by (simp add: divide_right_mono)
  finally show ?thesis using to_double_near [OF x] by linarith
qed simp

lemma to_double_nonneg: "0 \<le> x \<Longrightarrow> 0 \<le> to_double x"
proof -
  assume "0 \<le> x"
  then have "\<bar>to_double x - x\<bar> \<le> x / 2 ^ 53" by (rule to_double_relative)
  moreover have "x / 2 ^ 53 \<le> x" using \<open>0 \<le> x\<close> by (simp add: field_simps)
  ultimately show ?thesis by linarith
qed

text \<open>What has no more than 53 significant bits is not changed.\<close>

lemma to_double_exact:
  assumes "x = of_int m * 2 powi e" "0 \<le> m" "m \<le> 2 ^ 53"
  shows "to_double x = x"
proof (cases "m = 0")
  case False
  then have m: "0 < m" using assms(2) by simp
  then have x: "0 < x" by (simp add: assms(1))
  let ?E = "double_exponent x"
  define u :: rat where "u = 2 powi (?E - 52)"
  have "\<exists>n. x / u = of_int n"
  proof (cases "?E - 52 \<le> e")
    case True
    then have "x / u = of_int m * 2 powi (e - (?E - 52))" by (simp add: assms(1) u_def power_int_diff)
    also have "\<dots> = of_int (m * 2 ^ nat (e - (?E - 52)))" using True by (simp add: power_int_def)
    finally show ?thesis ..
  next
    case False
    have "2 powi ?E \<le> of_int m * (2::rat) powi e" using exponent_bounds(1) [OF x] assms(1) by simp
    also have le: "of_int m * (2::rat) powi e \<le> 2 ^ 53 * 2 powi e"
    proof (rule mult_right_mono)
      have "of_int m \<le> (of_int (2 ^ 53) :: rat)" using assms(3) by (simp only: of_int_le_iff)
      then show "of_int m \<le> (2 ^ 53 :: rat)" by simp
    qed simp
    also have "\<dots> = 2 powi (e + 53)" using power_int_add [of "2::rat" e 53] by simp
    finally have "?E \<le> e + 53" using power_int_strict_increasing [of "e + 53" ?E "2::rat"] by linarith
    then have E: "?E = e + 53" using False by simp
    have "x = 2 powi (e + 53)"
    proof (rule antisym)
      show "x \<le> 2 powi (e + 53)"
        using le power_int_add [of "2::rat" e 53] by (simp add: assms(1))
      show "2 powi (e + 53) \<le> x" using exponent_bounds(1) [OF x] E by simp
    qed
    then have xu: "x = of_int (2 ^ 52) * u" using power_int_add [of "2::rat" "?E - 52" 52] E by (simp add: u_def)
    have "u \<noteq> 0" by (simp add: u_def)
    then have "x / u = of_int (2 ^ 52)" using nonzero_mult_div_cancel_right xu by metis
    then show ?thesis ..
  qed
  then obtain n where n: "x / u = of_int n" ..
  have "to_double x = of_int (round_even (x / u)) * u" using x by (simp add: to_double_def Let_def u_def)
  also have "\<dots> = x / u * u" unfolding n round_even_int ..
  also have "\<dots> = x" by (rule nonzero_eq_divide_eq [THEN iffD1, OF _ refl]) (simp add: u_def)
  finally show ?thesis .
qed (simp add: assms(1))

lemma to_double_int: "0 \<le> n \<Longrightarrow> n \<le> 2 ^ 53 \<Longrightarrow> to_double (of_int n) = of_int n"
  using to_double_exact [of "of_int n" n 0] by simp

text \<open>A power of two is not crossed.\<close>

lemma to_double_power_le:
  assumes "2 powi k \<le> x" shows "2 powi k \<le> to_double x"
proof -
  have x: "0 < x" using assms by (meson less_le_trans zero_less_numeral zero_less_power_int)
  let ?E = "double_exponent x"
  define u :: rat where "u = 2 powi (?E - 52)"
  have E: "2 powi ?E = of_int (2 ^ 52) * u" using power_int_add [of "2::rat" "?E - 52" 52] by (simp add: u_def)
  have u: "0 < u" by (simp add: u_def)
  have "of_int (2 ^ 52) \<le> x / u" using exponent_bounds(1) [OF x] u unfolding E by (simp add: field_simps)
  then have "2 ^ 52 \<le> round_even (x / u)" by (rule round_even_ge)
  then have "of_int (2 ^ 52) \<le> (of_int (round_even (x / u)) :: rat)" by (simp only: of_int_le_iff)
  then have "of_int (2 ^ 52) * u \<le> of_int (round_even (x / u)) * u" using u by (intro mult_right_mono) simp_all
  moreover have "to_double x = of_int (round_even (x / u)) * u" using x by (simp add: to_double_def Let_def u_def)
  ultimately have E2: "2 powi ?E \<le> to_double x" unfolding E by simp
  have "2 powi k < (2::rat) powi (?E + 1)" using assms exponent_bounds(2) [OF x] by linarith
  then have "k < ?E + 1" using power_int_increasing [of "?E + 1" k "2::rat"] by linarith
  then have "(2::rat) powi k \<le> 2 powi ?E" by (intro power_int_increasing) simp_all
  then show ?thesis using E2 by linarith
qed

text \<open>A double of one or more is a whole number of units, and its part behind the point is a double as well.\<close>

lemma to_double_fraction:
  assumes "1 \<le> y" "y = to_double x" "0 < x"
  defines "f \<equiv> y - of_int \<lfloor>y\<rfloor>"
  shows "to_double f = f" "f \<le> 1 - 1 / 2 ^ 52"
proof -
  let ?E = "double_exponent x"
  define u :: rat where "u = 2 powi (?E - 52)"
  define n where "n = round_even (x / u)"
  have y: "y = of_int n * u" using assms(2,3) by (simp add: to_double_def Let_def u_def n_def)
  have u: "0 < u" by (simp add: u_def)
  have f: "0 \<le> f" "f < 1" unfolding f_def by linarith+
  have "to_double f = f \<and> f \<le> 1 - 1 / 2 ^ 52"
  proof (cases "52 \<le> ?E \<or> ?E < 0")
    case True
    then consider "52 \<le> ?E" | "?E < 0" by blast
    then have "f = 0"
    proof cases
      case 1
    then have "y = of_int (n * 2 ^ nat (?E - 52))" unfolding y u_def by (simp add: power_int_def)
      then show ?thesis unfolding f_def by (metis floor_of_int right_minus_eq)
    next
      case 2
      have xu: "2 powi (?E + 1) = of_int (2 ^ 53) * u" using power_int_add [of "2::rat" "?E - 52" 53] by (simp add: u_def mult.commute add.commute)
      have "x / u \<le> of_int (2 ^ 53)" using exponent_bounds(2) [OF assms(3)] u unfolding xu by (simp add: field_simps)
      then have "n \<le> 2 ^ 53" unfolding n_def by (rule round_even_le)
      then have "of_int n \<le> (of_int (2 ^ 53) :: rat)" by (simp only: of_int_le_iff)
      then have "y \<le> of_int (2 ^ 53) * u" unfolding y using u by (intro mult_right_mono) simp_all
      also have "\<dots> = 2 powi (?E + 1)" unfolding xu ..
      also have "\<dots> \<le> 2 powi 0" using 2 by (intro power_int_increasing) simp_all
      finally have "y = 1" using assms(1) by simp
      then show ?thesis by (simp add: f_def)
    qed
    then show ?thesis by simp
  next
    case Mid: False
    then have False: "\<not> 52 \<le> ?E" by blast
    define k where "k = nat (52 - ?E)"
    have "?E - 52 = - int k" using False by (simp add: k_def)
    then have uk: "u = 1 / 2 ^ k" by (simp add: u_def power_int_minus divide_inverse)
    have fl: "\<lfloor>y\<rfloor> = n div 2 ^ k"
    proof -
      have "y = of_int n / of_int (2 ^ k)" by (simp add: y uk)
      then show ?thesis by (simp only: floor_divide_of_int_eq)
    qed
    have fm: "f = of_int (n mod 2 ^ k) * u"
    proof -
      have "of_int n = (of_int (n div 2 ^ k) * 2 ^ k + of_int (n mod 2 ^ k) :: rat)"
      proof -
        have "of_int n = (of_int (n div 2 ^ k * 2 ^ k + n mod 2 ^ k) :: rat)" by (simp only: div_mult_mod_eq)
        then show ?thesis by (simp only: of_int_add of_int_mult of_int_power of_int_numeral)
      qed
      then have "y = (of_int (n div 2 ^ k) * 2 ^ k + of_int (n mod 2 ^ k)) * u" unfolding y by (rule arg_cong)
      also have "\<dots> = of_int (n div 2 ^ k) + of_int (n mod 2 ^ k) * u" by (simp add: add_divide_distrib uk)
      finally show ?thesis unfolding f_def fl by simp
    qed
    have k: "k \<le> 52" unfolding k_def using Mid by linarith
    have "n mod 2 ^ k < 2 ^ k" "0 \<le> n mod 2 ^ k" by simp_all
    moreover have "(2::int) ^ k \<le> 2 ^ 53" using k by (intro power_increasing) simp_all
    ultimately have "0 \<le> n mod 2 ^ k" "n mod 2 ^ k \<le> 2 ^ 53" by linarith+
    then have "to_double f = f" using fm [unfolded u_def] to_double_exact by blast
    moreover have "f \<le> 1 - 1 / 2 ^ 52"
    proof -
      have "of_int (n mod 2 ^ k) \<le> (2 ^ k - 1 :: rat)"
      proof -
        have "n mod 2 ^ k \<le> 2 ^ k - 1" by simp
        then have "of_int (n mod 2 ^ k) \<le> (of_int (2 ^ k - 1) :: rat)" by (simp only: of_int_le_iff)
        then show ?thesis by simp
      qed
      then have "f \<le> (2 ^ k - 1) / 2 ^ k" unfolding fm uk by (simp add: divide_right_mono)
      also have "\<dots> = 1 - 1 / 2 ^ k" by (simp add: diff_divide_distrib)
      also have "\<dots> \<le> 1 - 1 / 2 ^ 52"
      proof -
        have "(2::rat) ^ k \<le> 2 ^ 52" using k by (rule power_increasing) simp
        then have "1 / 2 ^ 52 \<le> 1 / (2::rat) ^ k" by (intro divide_left_mono) simp_all
        then show ?thesis by linarith
      qed
      finally show ?thesis .
    qed
    ultimately show ?thesis ..
  qed
  then show "to_double f = f" "f \<le> 1 - 1 / 2 ^ 52" by blast+
qed

text \<open>The part before the point is a double too.\<close>

lemma to_double_floor:
  assumes "0 < x" "y = to_double x"
  shows "to_double (of_int \<lfloor>y\<rfloor>) = of_int \<lfloor>y\<rfloor>"
proof -
  let ?E = "double_exponent x"
  define u :: rat where "u = 2 powi (?E - 52)"
  define n where "n = round_even (x / u)"
  have y: "y = of_int n * u" using assms by (simp add: to_double_def Let_def u_def n_def)
  have u: "0 < u" by (simp add: u_def)
  have "2 powi (?E + 1) = of_int (2 ^ 53) * u" using power_int_add [of "2::rat" "?E - 52" 53] by (simp add: u_def mult.commute add.commute)
  then have "x / u \<le> of_int (2 ^ 53)" using exponent_bounds(2) [OF assms(1)] u by (simp add: field_simps)
  then have n: "n \<le> 2 ^ 53" unfolding n_def by (rule round_even_le)
  have "of_int 0 \<le> x / u" using assms(1) u by simp
  then have n0: "0 \<le> n" unfolding n_def by (rule round_even_ge)
  show ?thesis
  proof (cases "52 \<le> ?E")
    case True
    then have "y = of_int (n * 2 ^ nat (?E - 52))" unfolding y u_def by (simp add: power_int_def)
    then have fl: "of_int \<lfloor>y\<rfloor> = y" by (metis floor_of_int)
    show ?thesis unfolding fl using to_double_exact [OF y [unfolded u_def] n0 n] .
  next
    case False
    have "u \<le> 2 powi 0" unfolding u_def using False by (intro power_int_increasing) simp_all
    then have "y \<le> of_int n" unfolding y using n0 by (simp add: mult_left_le)
    then have "\<lfloor>y\<rfloor> \<le> n" by (simp add: floor_le_iff)
    moreover have "0 \<le> \<lfloor>y\<rfloor>" using n0 u by (simp add: y)
    moreover have "\<lfloor>y\<rfloor> \<le> 2 ^ 53" using \<open>\<lfloor>y\<rfloor> \<le> n\<close> n by linarith
    ultimately show ?thesis by (intro to_double_int)
  qed
qed

text \<open>The rounding at a given exponent.\<close>

lemma to_double_eval:
  assumes "2 powi e \<le> x" "x < 2 powi (e + 1)"
    and "of_int n - 1 / 2 < x / 2 powi (e - 52)" "x / 2 powi (e - 52) < of_int n + 1 / 2"
  shows "to_double x = of_int n * 2 powi (e - 52)"
proof -
  have x: "0 < x" using assms(1) by (meson less_le_trans zero_less_numeral zero_less_power_int)
  have "double_exponent x < e + 1"
    using power_int_increasing [of "e + 1" "double_exponent x" "2::rat"] assms(2) exponent_bounds(1) [OF x] by linarith
  moreover have "e < double_exponent x + 1"
    using power_int_increasing [of "double_exponent x + 1" e "2::rat"] assms(1) exponent_bounds(2) [OF x] by linarith
  ultimately have e: "double_exponent x = e" by simp
  define q where "q = x / 2 powi (e - 52)"
  have q: "of_int n - 1 / 2 < q" "q < of_int n + 1 / 2" using assms(3,4) by (simp_all add: q_def)
  then have "\<lfloor>q\<rfloor> = n \<or> \<lfloor>q\<rfloor> = n - 1" by linarith
  then have "round_even q = n"
  proof
    assume f: "\<lfloor>q\<rfloor> = n"
    have "q - of_int n < 1 / 2" using q by linarith
    then show ?thesis by (simp add: round_even_def f)
  next
    assume f: "\<lfloor>q\<rfloor> = n - 1"
    have "1 / 2 < q - of_int (n - 1)" using q by simp
    then have "\<not> q - of_int (n - 1) < 1 / 2" "q - of_int (n - 1) \<noteq> 1 / 2" by linarith+
    then show ?thesis by (simp only: round_even_def Let_def f if_False simp_thms diff_add_cancel)
  qed
  then show ?thesis using x by (simp add: to_double_def Let_def e q_def)
qed

end
