(* ===== verification/Duration.thy ===== *)
theory Duration
  imports Doubles Decimal
begin

text \<open>
  Spans of time as text (\<^verbatim>\<open>src/duration.c\<close>, \<^verbatim>\<open>include/arnm/duration.h\<close>): the unit that fits, the division in
  \<open>double\<close>, the digits before and behind the point, and the checks on the room. The text is given digit for
  digit, the digits are shown to be close to the exact quotient, and never to leave the room they were
  measured for. They are not the truncated quotient the header promises: the witness of the first property has
  1200 ns written as \<^verbatim>\<open>1.1 us\<close>, since the double nearest 1.2 lies below it.
\<close>

definition duration_unit :: "nat \<Rightarrow> nat \<times> byte list" where
  "duration_unit ns =
    (if ns < 1000 then (1, ascii '' ns'')
     else if ns < 1000000 then (1000, ascii '' us'')
     else if ns < 1000000000 then (1000000, ascii '' ms'')
     else if ns < 60000000000 then (1000000000, ascii '' s'')
     else if ns < 3600000000000 then (60 * 1000000000, ascii '' min'')
     else if ns < 86400000000000 then (60 * 60 * 1000000000, ascii '' h'')
     else (24 * 60 * 60 * 1000000000, ascii '' days''))"

text \<open>\<open>decimalValue\<close>, \<open>integerPart\<close> and \<open>fractionalPart\<close>: every operation on doubles rounds, every cast truncates.\<close>

definition decimal_value :: "nat \<Rightarrow> nat \<Rightarrow> rat" where
  "decimal_value ns divisor = to_double (to_double (of_nat ns) / to_double (of_nat divisor))"

definition integer_part :: "nat \<Rightarrow> nat \<Rightarrow> int" where
  "integer_part ns divisor = \<lfloor>decimal_value ns divisor\<rfloor>"

definition fractional_part :: "nat \<Rightarrow> nat \<Rightarrow> int" where
  "fractional_part ns divisor =
    \<lfloor>to_double (to_double (decimal_value ns divisor - to_double (of_int (integer_part ns divisor))) * to_double 1000000000000000)\<rfloor>"

text \<open>The part behind the point: \<open>tempBuffer\<close> is an array of its own, 20 bytes that start at 0.\<close>

definition write_fraction :: "mem \<Rightarrow> addr \<Rightarrow> nat \<Rightarrow> int \<Rightarrow> nat \<Rightarrow> mem \<times> nat" where
  "write_fraction m buffer written fraction precision =
    (let m = m(buffer + written := 46); written = written + 1;
         fraction_size = (if fraction \<noteq> 0 then arnm_int64_to_string_size fraction else 0);
         zeros = u8 (256 + 15 - fraction_size);
         zeros = (if zeros > precision then precision else zeros);
         m = (if zeros > 0 then memset m (buffer + written) 48 zeros else m);
         written = written + zeros;
         rest = precision - zeros
     in if rest \<noteq> 0 then
          (wr m (buffer + written) (rd (fst (arnm_int64_to_string_known_string_size (\<lambda>_. 0) 0 fraction fraction_size)) 0 rest),
           written + rest)
        else (m, written))"

definition arnm_duration_string :: "mem \<Rightarrow> addr \<Rightarrow> nat \<Rightarrow> int \<Rightarrow> nat \<Rightarrow> mem \<times> int" where
  "arnm_duration_string m buffer buffer_size duration precision =
    (if duration < 0 then (m, - 1)
     else
       let ns = nat duration;
           precision = (if precision > 15 then 15 else precision)
       in case duration_unit ns of
            (divisor, suffix) \<Rightarrow>
              let int_size = arnm_int64_to_string_size (integer_part ns divisor);
                  needed = int_size + 2 + precision + length suffix
              in if buffer_size < needed then (m, int (int_size + 1 + precision + length suffix))
                 else
                   case arnm_int64_to_string_known_string_size m buffer (integer_part ns divisor) int_size of
                     (m, written) \<Rightarrow>
                       (case if precision > 0 \<and> divisor > 1 then write_fraction m buffer written (fractional_part ns divisor) precision
                             else (m, written) of
                          (m, written) \<Rightarrow>
                            let m = wr m (buffer + written) suffix; written = written + length suffix
                            in (m(buffer + written := 0), int written)))"

section \<open>The two parts of the number\<close>

lemma unit_cases:
  "(duration_unit ns = (1, ascii '' ns'') \<and> ns < 1000) \<or>
    (\<exists>k suffix. duration_unit ns = (k, suffix) \<and> 1000 \<le> k \<and> k \<le> ns \<and> k \<le> 86400000000000)"
  by (simp add: duration_unit_def)

text \<open>A unit of one leaves nothing behind the point.\<close>

lemma parts_of_ns:
  assumes "ns < 1000"
  shows "integer_part ns 1 = int ns" "fractional_part ns 1 = 0"
proof -
  have e: "to_double (of_nat n) = of_nat n" if "n < 1000" for n using to_double_int [of "int n"] that by simp
  have v: "decimal_value ns 1 = of_nat ns" using e [of ns] e [of 1] assms by (simp add: decimal_value_def)
  show i: "integer_part ns 1 = int ns" unfolding integer_part_def v by simp
  show "fractional_part ns 1 = 0" using e [of ns] assms unfolding fractional_part_def v i by simp
qed

text \<open>With a larger unit the number is at least one, and the digits behind the point are fifteen at most.\<close>

lemma decimal_value_close:
  assumes "1 \<le> divisor" "divisor \<le> 86400000000000" "divisor \<le> ns"
  shows "1 \<le> decimal_value ns divisor"
    "decimal_value ns divisor = to_double (to_double (of_nat ns) / of_nat divisor)" "0 < to_double (of_nat ns) / of_nat divisor"
    "\<bar>decimal_value ns divisor - of_nat ns / of_nat divisor\<bar> \<le> (of_nat ns / of_nat divisor) / 2 ^ 51"
proof -
  have d: "to_double (of_nat divisor) = of_nat divisor" using to_double_int [of "int divisor"] assms(2) by simp
  show v: "decimal_value ns divisor = to_double (to_double (of_nat ns) / of_nat divisor)" by (simp add: decimal_value_def d)
  define a where "a = to_double (of_nat ns)"
  define D :: rat where "D = of_nat divisor"
  have D: "0 < D" using assms(1) by (simp add: D_def)
  have a: "\<bar>a - of_nat ns\<bar> \<le> of_nat ns / 2 ^ 53" unfolding a_def by (rule to_double_relative) simp
  have "D \<le> a"
  proof (cases "ns \<le> 2 ^ 53")
    case True
    then have "a = of_nat ns" using to_double_int [of "int ns"] by (simp add: a_def)
    then show ?thesis using assms(3) by (simp add: D_def)
  next
    case False
    then have "(2 ^ 53 :: rat) \<le> of_nat ns" by (metis linorder_linear of_nat_le_iff of_nat_numeral of_nat_power)
    then have "2 powi 53 \<le> a" unfolding a_def by (intro to_double_power_le) simp
    moreover have "D \<le> 2 powi 53" unfolding D_def using assms(2) by simp
    ultimately show ?thesis by linarith
  qed
  then have q: "1 \<le> a / D" using D by simp
  then show "0 < to_double (of_nat ns) / of_nat divisor" by (simp add: a_def D_def)
  have "2 powi 0 \<le> to_double (a / D)" using q by (intro to_double_power_le) simp
  then show "1 \<le> decimal_value ns divisor" by (simp add: v a_def D_def)
  define x where "x = of_nat ns / D"
  have x: "0 \<le> x" using D by (simp add: x_def)
  have "a / D - x = (a - of_nat ns) / D" by (simp add: x_def diff_divide_distrib)
  then have "\<bar>a / D - x\<bar> = \<bar>a - of_nat ns\<bar> / D" using D by simp
  also have "\<dots> \<le> of_nat ns / 2 ^ 53 / D" using a D by (intro divide_right_mono) simp_all
  also have "\<dots> = x / 2 ^ 53" by (simp add: x_def)
  finally have 1: "\<bar>a / D - x\<bar> \<le> x / 2 ^ 53" .
  have 2: "\<bar>to_double (a / D) - a / D\<bar> \<le> a / D / 2 ^ 53" using q by (intro to_double_relative) simp
  have "x / 2 ^ 53 \<le> x" using x by simp
  then have "a / D \<le> 2 * x" using 1 by linarith
  then have "a / D / 2 ^ 53 \<le> 2 * x / 2 ^ 53" by (rule divide_right_mono) simp
  then have "\<bar>to_double (a / D) - x\<bar> \<le> x / 2 ^ 53 + 2 * x / 2 ^ 53" using 1 2 by linarith
  also have "\<dots> \<le> x / 2 ^ 51" using x by simp
  finally show "\<bar>decimal_value ns divisor - of_nat ns / of_nat divisor\<bar> \<le> (of_nat ns / of_nat divisor) / 2 ^ 51"
    by (simp add: v a_def D_def x_def)
qed

lemma fractional_part_close:
  assumes "1 \<le> divisor" "divisor \<le> 86400000000000" "divisor \<le> ns"
  defines "f \<equiv> decimal_value ns divisor - of_int (integer_part ns divisor)"
  shows "0 \<le> fractional_part ns divisor" "fractional_part ns divisor < 10 ^ 15"
    "of_int (fractional_part ns divisor) \<le> f * 10 ^ 15 + 1 / 16" "f * 10 ^ 15 - 1 / 16 < of_int (fractional_part ns divisor) + 1"
proof -
  note v = decimal_value_close [OF assms(1-3)]
  have i: "to_double (of_int (integer_part ns divisor)) = of_int (integer_part ns divisor)"
    unfolding integer_part_def by (rule to_double_floor [OF v(3,2)])
  have f: "to_double f = f" "f \<le> 1 - 1 / 2 ^ 52" unfolding f_def integer_part_def using to_double_fraction [OF v(1-3)] by blast+
  have f0: "0 \<le> f" unfolding f_def integer_part_def by simp
  have e15: "to_double 1000000000000000 = 10 ^ 15" using to_double_int [of "10 ^ 15"] by simp
  have fr: "fractional_part ns divisor = \<lfloor>to_double (f * 10 ^ 15)\<rfloor>"
    unfolding fractional_part_def i e15 f_def [symmetric] f(1) ..
  have near: "\<bar>to_double (f * 10 ^ 15) - f * 10 ^ 15\<bar> \<le> 1 / 16"
  proof (cases "f = 0")
    case False
    then have x: "0 < f * 10 ^ 15" using f0 by simp
    have "2 powi double_exponent (f * 10 ^ 15) \<le> f * 10 ^ 15" by (rule exponent_bounds(1) [OF x])
    also have "\<dots> < 2 ^ 50" using f(2) by simp
    also have "\<dots> = 2 powi (50 :: int)" by simp
    finally have "double_exponent (f * 10 ^ 15) < 50"
      using power_int_increasing [of 50 "double_exponent (f * 10 ^ 15)" "2::rat"] by linarith
    then have "2 powi (double_exponent (f * 10 ^ 15) - 53) \<le> (2::rat) powi (- 4)" by (intro power_int_increasing) simp_all
    also have "\<dots> = 1 / 16" by (simp add: power_int_def power_divide)
    finally show ?thesis using to_double_near [OF x] by linarith
  qed simp
  have "0 \<le> to_double (f * 10 ^ 15)" using f0 by (intro to_double_nonneg) simp
  then show "0 \<le> fractional_part ns divisor" by (simp add: fr)
  have "to_double (f * 10 ^ 15) < 10 ^ 15"
  proof -
    have "f * 10 ^ 15 \<le> (1 - 1 / 2 ^ 52) * 10 ^ 15" using f(2) by (rule mult_right_mono) simp
    then have "f * 10 ^ 15 + 1 / 16 < 10 ^ 15" by (simp add: field_simps)
    then show ?thesis using near by linarith
  qed
  then show "fractional_part ns divisor < 10 ^ 15" by (simp add: fr floor_less_iff)
  have "of_int \<lfloor>to_double (f * 10 ^ 15)\<rfloor> \<le> to_double (f * 10 ^ 15)" "to_double (f * 10 ^ 15) < of_int \<lfloor>to_double (f * 10 ^ 15)\<rfloor> + 1"
    by linarith+
  then show "of_int (fractional_part ns divisor) \<le> f * 10 ^ 15 + 1 / 16" "f * 10 ^ 15 - 1 / 16 < of_int (fractional_part ns divisor) + 1"
    unfolding fr using near by linarith+
qed

section \<open>The text\<close>

text \<open>The digits behind the point, fifteen of them.\<close>

definition fraction_digits :: "int \<Rightarrow> byte list" where
  "fraction_digits j = replicate (15 - length (decimal (nat j))) 48 @ decimal (nat j)"

definition duration_text :: "nat \<Rightarrow> nat \<Rightarrow> byte list" where
  "duration_text ns precision =
    (case duration_unit ns of
       (divisor, suffix) \<Rightarrow>
         decimal_int (integer_part ns divisor) @
         (if precision > 0 \<and> divisor > 1 then 46 # take precision (fraction_digits (fractional_part ns divisor)) else []) @ suffix)"

lemma wr_append: "wr (wr m a xs) (a + length xs) ys = wr m a (xs @ ys)"
  by (auto simp: wr_def fun_eq_iff nth_append)

lemma short_decimal: "n < 10 ^ 15 \<Longrightarrow> length (decimal n) \<le> 15"
proof -
  assume n: "n < 10 ^ 15"
  then have "length (decimal n) = arnm_uint64_to_string_size n" by (intro uint64_size_decimal [symmetric]) simp
  also have "\<dots> \<le> 15" using n unfolding arnm_uint64_to_string_size_def by (simp split: if_split)
  finally show ?thesis .
qed

lemma length_fraction_digits: "0 \<le> j \<Longrightarrow> j < 10 ^ 15 \<Longrightarrow> length (fraction_digits j) = 15"
  using short_decimal [of "nat j"] by (simp add: fraction_digits_def nat_less_iff)

lemma rd_take: "k \<le> n \<Longrightarrow> rd m a k = take k (rd m a n)"
  by (simp add: rd_def take_map)

lemma write_fraction_eq:
  assumes "0 \<le> j" "j < 10 ^ 15" "p \<le> 15"
  shows "write_fraction m buffer written j p = (wr m (buffer + written) (46 # take p (fraction_digits j)), written + 1 + p)"
proof -
  define s where "s = (if j \<noteq> 0 then arnm_int64_to_string_size j else 0)"
  define z where "z = (if u8 (256 + 15 - s) > p then p else u8 (256 + 15 - s))"
  define ds where "ds = rd (fst (arnm_int64_to_string_known_string_size (\<lambda>_. 0) 0 j s)) 0 (p - z)"
  have all: "take p (fraction_digits j) = replicate z 48 @ ds \<and> z \<le> p \<and> length ds = p - z"
  proof (cases "j = 0")
    case True
    then have z: "z = p" using assms(3) by (simp add: z_def s_def u8_def)
    have "fraction_digits j = replicate 15 48" using True by (simp add: fraction_digits_def decimal_small replicate_append_same flip: replicate_Suc)
    then show ?thesis using z assms(3) by (simp add: ds_def min_def)
  next
    case False
    have r: "- 9223372036854775808 \<le> j" "j < 9223372036854775808" using assms(1,2) by simp_all
    have d: "decimal_int j = decimal (nat j)" using assms(1) by (simp add: decimal_int_def)
    have s: "s = length (decimal (nat j))" using False int64_size_decimal [OF r] by (simp add: s_def d)
    have s15: "s \<le> 15" unfolding s using assms(2) by (intro short_decimal) simp
    then have z: "z = (if 15 - s > p then p else 15 - s)" by (auto simp: z_def u8_def mod_if)
    obtain m' where "arnm_int64_to_string_known_string_size (\<lambda>_. 0) 0 j s = (m', s)" "rd m' 0 s = decimal (nat j)"
      using int64_known_string_size_correct [OF r s [folded d, symmetric], of "\<lambda>_. 0" 0] d by auto
    moreover have ps: "p - z \<le> s" using z assms(3) by auto
    ultimately have "ds = take (p - z) (decimal (nat j))" unfolding ds_def rd_take [OF ps] by simp
    moreover have "take p (fraction_digits j) = replicate z 48 @ take (p - z) (decimal (nat j))"
      using z by (auto simp: fraction_digits_def s [symmetric] min_def)
    ultimately show ?thesis using z ps s by auto
  qed
  define m1 where "m1 = wr m (buffer + written) [46]"
  have m1: "m(buffer + written := 46) = m1" by (auto simp: m1_def wr_def fun_eq_iff)
  define m2 where "m2 = (if z > 0 then memset m1 (buffer + (written + 1)) 48 z else m1)"
  have m2: "m2 = wr m (buffer + written) (46 # replicate z 48)"
    using wr_append [of m "buffer + written" "[46]" "replicate z 48"] by (simp add: m2_def memset_def m1_def)
  have "write_fraction m buffer written j p =
      (if p - z \<noteq> 0 then (wr m2 (buffer + (written + 1 + z)) ds, written + 1 + z + (p - z)) else (m2, written + 1 + z))"
    unfolding write_fraction_def Let_def m1 s_def [symmetric] z_def [symmetric] m2_def [symmetric] ds_def [symmetric] ..
  also have "\<dots> = (wr m2 (buffer + (written + 1 + z)) ds, written + 1 + p)" using all by auto
  also have "wr m2 (buffer + (written + 1 + z)) ds = wr m (buffer + written) (46 # take p (fraction_digits j))"
    using wr_append [of m "buffer + written" "46 # replicate z 48" ds] all by (simp add: m2 add_ac)
  finally show ?thesis .
qed

lemma number_range:
  assumes "ns < 2 ^ 63" "duration_unit ns = (divisor, suffix)"
  shows "0 \<le> integer_part ns divisor" "integer_part ns divisor < 9223372036854775808"
    "0 \<le> fractional_part ns divisor" "fractional_part ns divisor < 10 ^ 15"
proof -
  have "0 \<le> integer_part ns divisor \<and> integer_part ns divisor < 9223372036854775808 \<and>
    0 \<le> fractional_part ns divisor \<and> fractional_part ns divisor < 10 ^ 15"
  proof (cases "divisor = 1")
    case True
    then have "ns < 1000" using unit_cases [of ns] assms(2) by auto
    then show ?thesis using parts_of_ns [of ns] True by simp
  next
    case False
    then have d: "1000 \<le> divisor" "divisor \<le> ns" "divisor \<le> 86400000000000" using unit_cases [of ns] assms(2) by auto
    then have d1: "1 \<le> divisor" by simp
    note v = decimal_value_close [OF d1 d(3,2)]
    define x :: rat where "x = of_nat ns / of_nat divisor"
    have "x \<le> 2 ^ 63 / 1000" unfolding x_def
    proof -
      have "(of_nat ns :: rat) \<le> 2 ^ 63" using assms(1) by (metis less_imp_le of_nat_le_iff of_nat_numeral of_nat_power)
      moreover have "(1000 :: rat) \<le> of_nat divisor" using d(1) by (metis of_nat_le_iff of_nat_numeral)
      ultimately show "of_nat ns / of_nat divisor \<le> (2 ^ 63 / 1000 :: rat)" by (intro frac_le) simp_all
    qed
    moreover have shrink: "x / 2 ^ 51 \<le> x" if "0 \<le> x" for x :: rat using that by simp
    have "x / 2 ^ 51 \<le> x" by (rule shrink) (simp add: x_def)
    moreover have "decimal_value ns divisor \<le> x + x / 2 ^ 51" using v(4) [folded x_def] by linarith
    ultimately have "decimal_value ns divisor \<le> 2 * (2 ^ 63 / 1000)" by linarith
    then have "decimal_value ns divisor < 9223372036854775808" by simp
    then have "integer_part ns divisor < 9223372036854775808" by (simp add: integer_part_def floor_less_iff)
    moreover have "0 \<le> integer_part ns divisor" using v(1) by (simp add: integer_part_def)
    ultimately show ?thesis using fractional_part_close(1,2) [OF d1 d(3,2)] by simp
  qed
  then show "0 \<le> integer_part ns divisor" "integer_part ns divisor < 9223372036854775808"
    "0 \<le> fractional_part ns divisor" "fractional_part ns divisor < 10 ^ 15" by blast+
qed

text \<open>C39: The text of a duration: with room for the number, a point, the digits asked for, the unit and the terminator
  it is written and closed, its length is the answer and no byte outside the room is touched; with less
  the room stays as it was and the answer is one less than what was asked for; a negative duration is refused.
\<close>

theorem duration_string_written:
  fixes m :: mem
  assumes "duration < 2 ^ 63" "precision < 256"
  defines "p \<equiv> min 15 precision"
  shows "case arnm_duration_string m buffer buffer_size duration precision of (m', n) \<Rightarrow>
    if duration < 0 then m' = m \<and> n = - 1
    else
      case duration_unit (nat duration) of (divisor, suffix) \<Rightarrow>
        let needed = length (decimal_int (integer_part (nat duration) divisor)) + 2 + p + length suffix;
            text = duration_text (nat duration) p
        in if buffer_size < needed then m' = m \<and> n = int needed - 1
           else n = int (length text) \<and> length text < buffer_size \<and>
             rd m' buffer (length text) = text \<and> m' (buffer + length text) = 0 \<and>
             (\<forall>x. x < buffer \<or> buffer + buffer_size \<le> x \<longrightarrow> m' x = m x)"
proof (cases "duration < 0")
  case True
  then show ?thesis by (simp add: arnm_duration_string_def)
next
  case False
  define ns where "ns = nat duration"
  have ns: "ns < 2 ^ 63" using assms(1) False by (simp add: ns_def nat_less_iff)
  have p: "(if precision > 15 then 15 else precision) = p" "p \<le> 15" by (auto simp: p_def min_def)
  obtain divisor suffix where u: "duration_unit ns = (divisor, suffix)" by fastforce
  define i j where "i = integer_part ns divisor" and "j = fractional_part ns divisor"
  have ij: "0 \<le> i" "i < 9223372036854775808" "0 \<le> j" "j < 10 ^ 15" using number_range [OF ns u] by (simp_all add: i_def j_def)
  have lo: "- 9223372036854775808 \<le> i" using ij(1) by simp
  note sz = int64_size_decimal [OF lo ij(2)]
  define li where "li = length (decimal_int i)"
  show ?thesis
  proof (cases "buffer_size < li + 2 + p + length suffix")
    case small: True
    have "arnm_duration_string m buffer buffer_size duration precision = (m, int (li + 1 + p + length suffix))"
      using False small by (simp add: arnm_duration_string_def Let_def ns_def [symmetric] p(1) u i_def [symmetric] sz li_def)
    then show ?thesis using False small by (simp add: ns_def [symmetric] u i_def [symmetric] li_def Let_def)
  next
    case room: False
    obtain m1 where m1: "arnm_int64_to_string_known_string_size m buffer i li = (m1, li)" "rd m1 buffer li = decimal_int i"
      "\<forall>x. x < buffer \<or> buffer + li < x \<longrightarrow> m1 x = m x"
      using int64_known_string_size_correct [OF lo ij(2) li_def [symmetric], of m buffer] by blast
    define mid where "mid = (if p > 0 \<and> divisor > 1 then 46 # take p (fraction_digits j) else [])"
    have mid: "(if p > 0 \<and> divisor > 1 then write_fraction m1 buffer li j p else (m1, li)) = (wr m1 (buffer + li) mid, li + length mid)"
    proof (cases "p > 0 \<and> divisor > 1")
      case True
      have "length (take p (fraction_digits j)) = p"
        using p(2) length_fraction_digits [OF ij(3,4)] by simp
      then show ?thesis using True write_fraction_eq [OF ij(3,4) p(2)] by (simp add: mid_def)
    qed (auto simp: mid_def)
    let ?text = "decimal_int i @ mid @ suffix"
    let ?m = "(wr m1 (buffer + li) (mid @ suffix))(buffer + length ?text := 0)"
    have t: "duration_text ns p = ?text" by (simp add: duration_text_def u i_def j_def mid_def)
    have run: "arnm_duration_string m buffer buffer_size duration precision = (?m, int (length ?text))"
      unfolding arnm_duration_string_def Let_def if_not_P [OF False] ns_def [symmetric] p(1) u prod.case i_def [symmetric]
        j_def [symmetric] sz li_def [symmetric] if_not_P [OF room] m1(1) mid
      using wr_append [of m1 "buffer + li" mid suffix] by (simp add: li_def add_ac)
    have "length mid \<le> 1 + p" by (simp add: mid_def)
    then have len: "length ?text < buffer_size" using room by (simp add: li_def)
    have "rd ?m buffer (length ?text) = rd (wr m1 (buffer + li) (mid @ suffix)) buffer (length ?text)" by (simp add: mem_simps)
    also have "\<dots> = rd (wr m1 (buffer + li) (mid @ suffix)) buffer (li + length (mid @ suffix))" by (simp add: li_def)
    also have "\<dots> = ?text" unfolding rd_add using m1(2) by (simp add: mem_simps)
    finally have written: "rd ?m buffer (length ?text) = ?text" .
    have "?m x = m x" if "x < buffer \<or> buffer + buffer_size \<le> x" for x
    proof -
      have "x \<noteq> buffer + length ?text" using that len by auto
      moreover have "x < buffer + li \<or> buffer + li + length (mid @ suffix) \<le> x" using that len by (auto simp: li_def)
      moreover have "m1 x = m x" using that len m1(3) by (auto simp: li_def)
      ultimately show ?thesis by (auto simp: wr_def)
    qed
    then have frame: "\<forall>x. x < buffer \<or> buffer + buffer_size \<le> x \<longrightarrow> ?m x = m x" by blast
    have zero: "?m (buffer + length ?text) = 0" by simp
    show ?thesis unfolding run prod.case if_not_P [OF False] ns_def [symmetric] u Let_def i_def [symmetric] li_def [symmetric]
        if_not_P [OF room] t
      by (intro conjI refl len written zero frame)
  qed
qed

text \<open>The number read back from the first \<open>p\<close> of fifteen digits.\<close>

lemma digits_prefix:
  assumes "j < 10 ^ 15" "p \<le> 15"
  shows "parse_decimal (take p (fraction_digits (int j))) = j div 10 ^ (15 - p)"
proof -
  have zeros: "parse_decimal (replicate n 48 @ xs) = parse_decimal xs" for n xs
    by (induction n) (simp_all add: parse_decimal_def)
  have all: "parse_decimal (fraction_digits (int j)) = j" by (simp add: fraction_digits_def zeros)
  have dig: "unat (c - 48) < 10" if "c \<in> set (decimal n)" for c n
    using that
  proof (induction n rule: decimal.induct)
    case (1 n)
    show ?case
    proof (cases "n < 10")
      case True
      then have "unat (of_nat n :: byte) = n" by (simp add: unat_of_nat)
      then show ?thesis using 1(2) True by (simp add: decimal_small)
    next
      case False
      have "unat (of_nat (n mod 10) :: byte) = n mod 10" by (simp add: unat_of_nat)
      then show ?thesis using 1 False by (auto simp: decimal_step)
    qed
  qed
  have digs: "\<forall>c\<in>set (fraction_digits (int j)). unat (c - 48) < 10" using dig by (auto simp: fraction_digits_def)
  have cut: "parse_decimal xs = parse_decimal (take k xs) * 10 ^ (length xs - k) + parse_decimal (drop k xs) \<and>
      parse_decimal (drop k xs) < 10 ^ (length xs - k)" if "\<forall>c\<in>set xs. unat (c - 48) < 10" "k \<le> length xs" for xs k
    using that
  proof (induction xs rule: rev_induct)
    case Nil
    then show ?case by (simp add: parse_decimal_def)
  next
    case (snoc c xs)
    show ?case
    proof (cases "k = length (xs @ [c])")
      case True
      then show ?thesis by (simp add: parse_decimal_def)
    next
      case False
      then have k: "k \<le> length xs" using snoc.prems(2) by simp
      have IH: "parse_decimal xs = parse_decimal (take k xs) * 10 ^ (length xs - k) + parse_decimal (drop k xs)"
        "parse_decimal (drop k xs) < 10 ^ (length xs - k)" "unat (c - 48) < 10" using snoc k by simp_all
      have e: "length (xs @ [c]) - k = Suc (length xs - k)" using k by simp
      show ?thesis using IH k unfolding e by (simp add: parse_decimal_snoc)
    qed
  qed
  have len: "length (fraction_digits (int j)) = 15" using length_fraction_digits [of "int j"] assms(1) by simp
  have c: "j = parse_decimal (take p (fraction_digits (int j))) * 10 ^ (15 - p) + parse_decimal (drop p (fraction_digits (int j)))"
    "parse_decimal (drop p (fraction_digits (int j))) < 10 ^ (15 - p)"
    using cut [OF digs, of p] assms(2) unfolding len all by blast+
  have "j div 10 ^ (15 - p) = (parse_decimal (take p (fraction_digits (int j))) * 10 ^ (15 - p) +
      parse_decimal (drop p (fraction_digits (int j)))) div 10 ^ (15 - p)" using c(1) by (rule arg_cong)
  then show ?thesis using c(2) by simp
qed

text \<open>C40: The digits are close to the truth: cut to any number of them, the number that is written lies within one unit
  of its last digit of the exact quotient, but for the rounding of the doubles.
\<close>
theorem duration_digits_close:
  assumes "duration_unit ns = (divisor, suffix)" "ns < 2 ^ 63" "p \<le> 15"
  shows "\<bar>(of_int (integer_part ns divisor) +
        of_nat (parse_decimal (take p (fraction_digits (fractional_part ns divisor)))) / 10 ^ p) - of_nat ns / of_nat divisor\<bar> \<le>
      1 / 10 ^ p + (of_nat ns / of_nat divisor) / 2 ^ 51 + 2 / (10 ^ 15 :: rat)"
proof -
  define j where "j = nat (fractional_part ns divisor)"
  define D :: nat where "D = 10 ^ (15 - p)"
  note r = number_range [OF assms(2,1)]
  have j: "fractional_part ns divisor = int j" "j < 10 ^ 15" using r by (simp_all add: j_def nat_less_iff)
  define x :: rat where "x = of_nat ns / of_nat divisor"
  define i :: rat where "i = of_int (integer_part ns divisor)"
  define J :: rat where "J = of_nat j / 10 ^ 15"
  define P :: rat where "P = of_nat (j div D) / 10 ^ p"
  have P: "\<bar>P - J\<bar> \<le> 1 / 10 ^ p"
  proof -
    have D: "(10 ^ 15 :: rat) = of_nat D * 10 ^ p" using assms(3) by (simp add: D_def flip: power_add)
    have D0: "0 < D" by (simp add: D_def)
    have "of_nat (j div D) \<le> (of_nat j / of_nat D :: rat)" by (rule of_nat_div_le_of_nat)
    moreover have "(of_nat j / of_nat D :: rat) \<le> of_nat (j div D) + 1"
    proof -
      have "j \<le> (j div D + 1) * D" using dividend_less_div_times [OF D0, of j] by simp
      then have "(of_nat j :: rat) \<le> (of_nat (j div D) + 1) * of_nat D" by (metis of_nat_1 of_nat_add of_nat_le_iff of_nat_mult)
      then show ?thesis using D0 by (simp add: divide_le_eq)
    qed
    ultimately have "\<bar>of_nat (j div D) - (of_nat j / of_nat D :: rat)\<bar> \<le> 1" by linarith
    then have "\<bar>of_nat (j div D) - (of_nat j / of_nat D :: rat)\<bar> / 10 ^ p \<le> 1 / 10 ^ p" by (rule divide_right_mono) simp
    moreover have "J = of_nat j / of_nat D / 10 ^ p" unfolding J_def D by simp
    then have "P - J = (of_nat (j div D) - of_nat j / of_nat D) / 10 ^ p" by (simp add: P_def diff_divide_distrib)
    ultimately show ?thesis by simp
  qed
  have "\<bar>i + J - x\<bar> \<le> x / 2 ^ 51 + 2 / 10 ^ 15"
  proof (cases "divisor = 1")
    case True
    then have "ns < 1000" using unit_cases [of ns] assms(1) by auto
    then have "i = x" "J = 0" using parts_of_ns [of ns] True by (simp_all add: i_def x_def J_def j_def)
    moreover have "0 \<le> x" by (simp add: x_def)
    ultimately show ?thesis by simp
  next
    case False
    then have d: "1 \<le> divisor" "divisor \<le> ns" "divisor \<le> 86400000000000" using unit_cases [of ns] assms(1) by auto
    note v = decimal_value_close [OF d(1,3,2), folded x_def]
    define b where "b = decimal_value ns divisor"
    have f: "of_nat j \<le> (b - i) * 10 ^ 15 + 1 / 16" "(b - i) * 10 ^ 15 - 1 / 16 < of_nat j + 1"
      using fractional_part_close(3,4) [OF d(1,3,2)] unfolding j(1) b_def i_def by simp_all
    define e where "e = of_nat j - (b - i) * 10 ^ 15"
    have "\<bar>e\<bar> \<le> 2" using f unfolding e_def by linarith
    then have "\<bar>e\<bar> / 10 ^ 15 \<le> 2 / 10 ^ 15" by (rule divide_right_mono) simp
    moreover have "i + J - b = e / 10 ^ 15" by (simp add: J_def e_def diff_divide_distrib)
    ultimately have "\<bar>i + J - b\<bar> \<le> 2 / 10 ^ 15" by (simp only: abs_divide) simp
    then show ?thesis using v(4) [folded b_def] by linarith
  qed
  then have "\<bar>i + P - x\<bar> \<le> 1 / 10 ^ p + x / 2 ^ 51 + 2 / 10 ^ 15" using P by linarith
  then show ?thesis unfolding j(1) digits_prefix [OF j(2) assms(3)] i_def x_def P_def D_def .
qed

text \<open>1200 ns are \<^verbatim>\<open>1.2 us\<close>; the double nearest to 1.2 is smaller, and the text is cut below it.\<close>

lemma parts_1200: "integer_part 1200 1000 = 1" "fractional_part 1200 1000 = 199999999999999"
proof -
  have "to_double (1200 / 1000) = of_int 5404319552844595 * 2 powi (0 - 52)"
    by (rule to_double_eval) (simp_all add: power_int_def power_divide)
  then have v: "decimal_value 1200 1000 = 5404319552844595 / 2 ^ 52"
    using to_double_int [of 1200] to_double_int [of 1000] by (simp add: decimal_value_def power_int_def power_divide)
  show i: "integer_part 1200 1000 = 1" by (simp add: integer_part_def v floor_eq_iff)
  have f: "to_double (900719925474099 / 2 ^ 52) = 900719925474099 / 2 ^ 52"
    by (rule to_double_exact [where m = 900719925474099 and e = "- 52"]) (simp_all add: power_int_def power_divide)
  have "to_double (900719925474099 / 2 ^ 52 * 1000000000000000) = of_int 6399999999999999 * 2 powi (47 - 52)"
    by (rule to_double_eval) (simp_all add: power_int_def power_divide)
  then have g: "to_double (to_double (900719925474099 / 2 ^ 52) * 1000000000000000) = 6399999999999999 / 32"
    unfolding f by (simp add: power_int_def power_divide)
  have d: "5404319552844595 / 2 ^ 52 - 1 = (900719925474099 / 2 ^ 52 :: rat)" by simp
  have e: "to_double (of_int 1) = 1" "to_double 1000000000000000 = 1000000000000000"
    using to_double_int [of 1] to_double_int [of "10 ^ 15"] by simp_all
  show "fractional_part 1200 1000 = 199999999999999" unfolding fractional_part_def v i e d g by (simp add: floor_eq_iff)
qed

lemma duration_string_written_witness:
  "case arnm_duration_string (\<lambda>_. 0) 16 8 1200 1 of (m', n) \<Rightarrow> n = 6 \<and> rd m' 16 6 = ascii ''1.1 us'' \<and> m' 22 = 0"
proof -
  have d: "decimal_int 1 = ascii ''1''" "decimal 199999999999999 = ascii ''199999999999999''"
    by (simp_all add: decimal_int_def decimal_small decimal_step ascii_def)
  have t: "duration_text 1200 1 = ascii ''1.1 us''"
    by (simp add: duration_text_def duration_unit_def parts_1200 fraction_digits_def d) (simp add: ascii_def)
  have l: "length (ascii ''1.1 us'') = 6" by simp
  have u: "duration_unit (nat 1200) = (1000, ascii '' us'')" "nat 1200 = 1200" "min 15 1 = (1 :: nat)" by (simp_all add: duration_unit_def)
  have n: "length (decimal_int (integer_part 1200 1000)) + 2 + 1 + length (ascii '' us'') = 7" by (simp add: parts_1200 d)
  show ?thesis
    using duration_string_written [where duration = 1200 and precision = 1 and m = "\<lambda>_. 0" and buffer = 16 and buffer_size = 8]
    unfolding u prod.case Let_def t l n by (simp add: case_prod_beta duration_unit_def parts_1200 d)
qed

lemma duration_digits_close_witness:
  "\<bar>(1 + 1 / 10) - 12 / 10\<bar> \<le> 1 / 10 + (12 / 10) / 2 ^ 51 + 2 / (10 ^ 15 :: rat) \<and> parse_decimal (take 1 (fraction_digits 199999999999999)) = 1"
proof -
  have "parse_decimal (take 1 (fraction_digits (int 199999999999999))) = 1" by (subst digits_prefix) simp_all
  then show ?thesis
    using duration_digits_close [of 1200 1000 "ascii '' us''" 1] by (simp add: duration_unit_def parts_1200)
qed

end
