(* ===== verification/Mono_Timer.thy ===== *)
theory Mono_Timer
  imports Duration "HOL-Library.Signed_Division"
begin

text \<open>
  The monotonic timer (\<^verbatim>\<open>src/mono_timer.c\<close>, \<^verbatim>\<open>include/arnm/mono_timer.h\<close>). What the operating system answers
  is an argument: the seconds and nanoseconds of \<open>clock_gettime\<close>, or the counter and its frequency on
  Windows. Both give nanoseconds; the second is scaled in two
  halves so that no product leaves 64 bits. Every operation on an \<^verbatim>\<open>int64_t\<close> goes through \<open>i64\<close>, which has
  no value where C has none: an overflow, or a division by zero. The divisions are those of C, which cut towards zero.
\<close>

definition i64 :: "int \<Rightarrow> int option" where
  "i64 x = (if - (2 ^ 63) \<le> x \<and> x < 2 ^ 63 then Some x else None)"

definition i64_add :: "int \<Rightarrow> int \<Rightarrow> int option" where "i64_add a b = i64 (a + b)"
definition i64_sub :: "int \<Rightarrow> int \<Rightarrow> int option" where "i64_sub a b = i64 (a - b)"
definition i64_mult :: "int \<Rightarrow> int \<Rightarrow> int option" where "i64_mult a b = i64 (a * b)"
definition i64_div :: "int \<Rightarrow> int \<Rightarrow> int option" where "i64_div a b = (if b = 0 then None else i64 (a sdiv b))"
definition i64_mod :: "int \<Rightarrow> int \<Rightarrow> int option" where
  "i64_mod a b = (if b = 0 \<or> i64 (a sdiv b) = None then None else i64 (a smod b))"

definition get_time_ns :: "int \<Rightarrow> int \<Rightarrow> int option" where
  "get_time_ns tv_sec tv_nsec = Option.bind (i64_mult tv_sec 1000000000) (\<lambda>ns. i64_add ns tv_nsec)"

definition get_time_ns_windows :: "int \<Rightarrow> int \<Rightarrow> int option" where
  "get_time_ns_windows ticks ticks_per_second =
    Option.bind (i64_div ticks ticks_per_second) (\<lambda>whole_seconds.
    Option.bind (i64_mod ticks ticks_per_second) (\<lambda>leftover_ticks.
    Option.bind (i64_mult whole_seconds 1000000000) (\<lambda>whole_ns.
    Option.bind (i64_mult leftover_ticks 1000000000) (\<lambda>product.
    Option.bind (i64_div product ticks_per_second) (\<lambda>leftover_ns.
    i64_add whole_ns leftover_ns)))))"

text \<open>The functions below take what \<open>get_time_ns\<close> answered as \<open>now\<close>.\<close>

definition arnm_mono_timer_reset :: "int \<Rightarrow> int" where
  "arnm_mono_timer_reset now = now"

definition arnm_mono_timer_nanos :: "int \<Rightarrow> int \<Rightarrow> int option" where
  "arnm_mono_timer_nanos now start = i64_sub now start"

text \<open>For a clock that has not run back, as \<open>to_double\<close> rounds what is not negative.\<close>

definition scaled_down :: "rat \<Rightarrow> int \<Rightarrow> rat" where
  "scaled_down unit nanos = to_double (to_double (of_int nanos) / to_double unit)"

definition arnm_mono_timer_micros :: "int \<Rightarrow> int \<Rightarrow> rat option" where
  "arnm_mono_timer_micros now start = map_option (scaled_down 1000) (arnm_mono_timer_nanos now start)"

definition arnm_mono_timer_millis :: "int \<Rightarrow> int \<Rightarrow> rat option" where
  "arnm_mono_timer_millis now start = map_option (scaled_down 1000000) (arnm_mono_timer_nanos now start)"

definition arnm_mono_timer_seconds :: "int \<Rightarrow> int \<Rightarrow> rat option" where
  "arnm_mono_timer_seconds now start = map_option (scaled_down 1000000000) (arnm_mono_timer_nanos now start)"

definition arnm_mono_timer_string :: "mem \<Rightarrow> addr \<Rightarrow> nat \<Rightarrow> int \<Rightarrow> int \<Rightarrow> (mem \<times> int) option" where
  "arnm_mono_timer_string m buffer buffer_size now start =
    map_option (\<lambda>nanos. arnm_duration_string m buffer buffer_size nanos 4) (arnm_mono_timer_nanos now start)"

lemma divide_forward:
  assumes "0 \<le> a" "a < 2 ^ 63" "0 < f"
  shows "i64_div a f = Some (a div f)" "i64_mod a f = Some (a mod f)"
proof -
  have s: "a sdiv f = a div f \<and> a smod f = a mod f"
    using assms by (cases "a = 0") (simp_all add: signed_divide_int_def signed_modulo_int_def)
  have q: "0 \<le> a div f" "a div f \<le> a" "0 \<le> a mod f" "a mod f \<le> a"
    using assms zdiv_mono2 [of a 1 f] by (simp_all add: pos_imp_zdiv_nonneg_iff zmod_le_nonneg_dividend)
  moreover have "- 9223372036854775808 \<le> a mod f" using q(3) by linarith
  ultimately show "i64_div a f = Some (a div f)" "i64_mod a f = Some (a mod f)"
    using assms s by (simp_all add: i64_div_def i64_mod_def i64_def)
qed

lemma scaled_in_halves:
  fixes c f :: int
  assumes "0 < f"
  shows "(c div f) * 1000000000 + ((c mod f) * 1000000000) div f = (c * 1000000000) div f"
proof -
  define q r where "q = c div f" and "r = c mod f"
  have "c = q * f + r" by (simp add: q_def r_def)
  then have "c * 1000000000 = r * 1000000000 + f * (q * 1000000000)" by (simp add: algebra_simps)
  then show ?thesis using assms by (simp add: q_def [symmetric] r_def [symmetric])
qed

text \<open>One reading: no step on the way overflows, and the result is the exact quotient.\<close>

lemma windows_exact:
  assumes "0 \<le> ticks" "ticks < 2 ^ 63" "0 < f" "f \<le> 9223372036" "ticks div f \<le> 9223372035"
  shows "get_time_ns_windows ticks f = Some ((ticks * 1000000000) div f)" "0 \<le> (ticks * 1000000000) div f"
    "(ticks * 1000000000) div f < 2 ^ 63"
proof -
  define x where "x = (ticks mod f) * 1000000000"
  have r: "0 \<le> ticks mod f" "ticks mod f < f" "0 \<le> ticks div f" using assms(1,3) by (simp_all add: pos_imp_zdiv_nonneg_iff)
  have xs: "0 \<le> x" "x < 2 ^ 63" using r assms(4) by (simp_all add: x_def)
  have "f * (x div f) \<le> x" using assms(3) minus_mod_eq_mult_div [of x f] pos_mod_sign [of f x] by linarith
  also have "x < f * 1000000000" using r by (simp add: x_def)
  finally have q: "x div f < 1000000000" "0 \<le> x div f" using assms(3) xs(1) by (simp_all add: pos_imp_zdiv_nonneg_iff)
  have e: "(ticks div f) * 1000000000 + x div f = (ticks * 1000000000) div f"
    unfolding x_def by (rule scaled_in_halves [OF assms(3)])
  have lim: "(ticks div f) * 1000000000 < 2 ^ 63" "(ticks div f) * 1000000000 + x div f < 2 ^ 63" using q assms(5) by simp_all
  show "0 \<le> (ticks * 1000000000) div f" using assms(1,3) by (simp add: pos_imp_zdiv_nonneg_iff)
  show "(ticks * 1000000000) div f < 2 ^ 63" using lim(2) e by simp
  have steps: "i64_mult (ticks div f) 1000000000 = Some ((ticks div f) * 1000000000)" "i64_mult (ticks mod f) 1000000000 = Some x"
    "i64_add ((ticks div f) * 1000000000) (x div f) = Some ((ticks * 1000000000) div f)"
    using r(3) q xs lim by (simp_all add: i64_mult_def i64_add_def i64_def x_def [symmetric] flip: e)
  show "get_time_ns_windows ticks f = Some ((ticks * 1000000000) div f)"
    using divide_forward [OF assms(1,2,3)] divide_forward(1) [OF xs assms(3)] steps by (simp add: get_time_ns_windows_def)
qed

text \<open>The counter of Windows is scaled exactly and with every operation defined: up to a frequency of nine
  billion ticks in a second and 292 years of uptime, the two halves give the floor of counter times 10 to
  the 9 over the frequency, although that product alone leaves 64 bits at nine billion ticks. A timer
  started at one reading and asked at a later one answers the nanoseconds between, never negative.
\<close>

theorem timer_scales_exactly:
  assumes "0 \<le> ticks" "ticks \<le> later" "later < 2 ^ 63" "0 < f" "f \<le> 9223372036" "later div f \<le> 9223372035"
  shows "\<exists>start now. get_time_ns_windows ticks f = Some start \<and> get_time_ns_windows later f = Some now \<and>
    start = (ticks * 1000000000) div f \<and> now = (later * 1000000000) div f \<and>
    arnm_mono_timer_nanos now (arnm_mono_timer_reset start) = Some (now - start) \<and> start \<le> now"
proof -
  have "ticks div f \<le> later div f" using assms(2,4) by (rule zdiv_mono1)
  then have t: "ticks < 2 ^ 63" "ticks div f \<le> 9223372035" using assms by linarith+
  note a = windows_exact [OF assms(1) t(1) assms(4,5) t(2)]
  have "0 \<le> later" using assms(1,2) by simp
  note b = windows_exact [OF this assms(3-6)]
  have le: "(ticks * 1000000000) div f \<le> (later * 1000000000) div f" using assms(2,4) by (intro zdiv_mono1) simp_all
  have "i64_sub ((later * 1000000000) div f) ((ticks * 1000000000) div f) =
      Some ((later * 1000000000) div f - (ticks * 1000000000) div f)"
    using a(2) b(3) le by (simp add: i64_sub_def i64_def)
  then show ?thesis using a(1) b(1) le by (simp add: arnm_mono_timer_nanos_def arnm_mono_timer_reset_def)
qed

lemma timer_scales_exactly_witness:
  "get_time_ns_windows 123456789012345 10000000 = Some 12345678901234500 \<and>
    arnm_mono_timer_nanos 12345678901234700 12345678901234500 = Some 200"
  using timer_scales_exactly [of 123456789012345 123456789012347 10000000] by (simp add: arnm_mono_timer_reset_def)

text \<open>The product that is avoided: sixteen minutes of uptime at ten megahertz.\<close>

lemma single_product_overflows: "i64_mult 9600000000 1000000000 = None"
  by (simp add: i64_mult_def i64_def)

end
