(* ===== verification/Json_Value.thy ===== *)
theory Json_Value
  imports Hex Pool_Client Doubles
begin

text \<open>
  A value of a parsed document and its conversion (\<^verbatim>\<open>src/json_reader.c\<close>, \<open>read_field\<close>). The document is what
  the third-party parser left in memory: a tree of values, each with a tag, a place of its own that serves as
  handle, and for strings the address and the length of the bytes. The target of a conversion is a place in the
  byte memory. \<open>conversion\<close> says what a conversion answers and which bytes it leaves where, and the lemma
  \<open>read_field_conversion\<close> that the code does exactly this and touches nothing else.
\<close>

section \<open>The values\<close>

datatype payload =
    YY_RAW addr nat
  | YY_NULL
  | YY_BOOL bool
  | YY_UINT nat
  | YY_SINT int
  | YY_REAL nat
  | YY_STR addr nat
  | YY_ARR "yyjson_val list"
  | YY_OBJ "(yyjson_val \<times> yyjson_val) list"
and yyjson_val = YYJSON_VAL (val_at: addr) (payload: payload)

text \<open>The length in the tag and the pointer beside it, as the unchecked readers of the parser give them.\<close>

definition get_len :: "yyjson_val \<Rightarrow> nat" where
  "get_len v =
    (case payload v of YY_RAW _ n \<Rightarrow> n | YY_STR _ n \<Rightarrow> n | YY_ARR vs \<Rightarrow> length vs | YY_OBJ ms \<Rightarrow> length ms | _ \<Rightarrow> 0)"

definition get_str :: "yyjson_val \<Rightarrow> addr" where
  "get_str v = (case payload v of YY_RAW a _ \<Rightarrow> a | YY_STR a _ \<Rightarrow> a | _ \<Rightarrow> 0)"

definition is_str :: "yyjson_val \<Rightarrow> bool" where
  "is_str v = (case payload v of YY_STR _ _ \<Rightarrow> True | _ \<Rightarrow> False)"

definition is_null :: "yyjson_val \<Rightarrow> bool" where
  "is_null v = (case payload v of YY_NULL \<Rightarrow> True | _ \<Rightarrow> False)"

definition arnm_json_read_is_null :: "yyjson_val option \<Rightarrow> bool" where
  "arnm_json_read_is_null json_value = (case json_value of None \<Rightarrow> False | Some v \<Rightarrow> is_null v)"

section \<open>What lies in memory\<close>

definition le_bytes :: "nat \<Rightarrow> nat \<Rightarrow> byte list" where
  "le_bytes n v = map (\<lambda>i. of_nat (v div 256 ^ i mod 256)) [0..<n]"

definition load_le :: "nat \<Rightarrow> mem \<Rightarrow> addr \<Rightarrow> nat" where
  "load_le n m a = (\<Sum>i<n. unat (m (a + i)) * 256 ^ i)"

lemma length_le_bytes [simp]: "length (le_bytes n v) = n"
  by (simp add: le_bytes_def)

lemma load_le_rd: "rd m a n = le_bytes n v \<Longrightarrow> load_le n m a = v mod 256 ^ n"
proof -
  assume *: "rd m a n = le_bytes n v"
  have "m (a + i) = of_nat (v div 256 ^ i mod 256)" if "i < n" for i
    using arg_cong [OF *, of "\<lambda>bs. bs ! i"] that by (simp add: le_bytes_def)
  then have "load_le n m a = (\<Sum>i<n. v div 256 ^ i mod 256 * 256 ^ i)"
    by (simp add: load_le_def unat_of_nat)
  then show ?thesis by (simp add: base256)
qed

text \<open>
  A number as the eight bytes of a \<open>double\<close>: sign, exponent, significand without its leading bit. Only numbers
  that \<open>to_double\<close> has rounded are stored.
\<close>

definition double_bits :: "rat \<Rightarrow> nat" where
  "double_bits x =
    (if x = 0 then 0
     else let e = double_exponent x
       in nat (e + 1023) * 2 ^ 52 + nat (\<lfloor>x / 2 powi (e - 52)\<rfloor> - 2 ^ 52))"

definition get_num :: "yyjson_val \<Rightarrow> nat" where
  "get_num v =
    (case payload v of
       YY_REAL b \<Rightarrow> b
     | YY_SINT i \<Rightarrow> (if i < 0 then 2 ^ 63 else 0) + double_bits (to_double (of_int \<bar>i\<bar>))
     | YY_UINT n \<Rightarrow> double_bits (to_double (of_nat n))
     | _ \<Rightarrow> 0)"

section \<open>The types a field can have\<close>

abbreviation (input) ARNM_JSON_FIELD_TYPE_NONE :: nat where "ARNM_JSON_FIELD_TYPE_NONE \<equiv> 0"
abbreviation (input) ARNM_JSON_FIELD_TYPE_UINT64 :: nat where "ARNM_JSON_FIELD_TYPE_UINT64 \<equiv> 1"
abbreviation (input) ARNM_JSON_FIELD_TYPE_INT64 :: nat where "ARNM_JSON_FIELD_TYPE_INT64 \<equiv> 2"
abbreviation (input) ARNM_JSON_FIELD_TYPE_UINT32 :: nat where "ARNM_JSON_FIELD_TYPE_UINT32 \<equiv> 3"
abbreviation (input) ARNM_JSON_FIELD_TYPE_INT32 :: nat where "ARNM_JSON_FIELD_TYPE_INT32 \<equiv> 4"
abbreviation (input) ARNM_JSON_FIELD_TYPE_STRING :: nat where "ARNM_JSON_FIELD_TYPE_STRING \<equiv> 5"
abbreviation (input) ARNM_JSON_FIELD_TYPE_HEX_FIXED :: nat where "ARNM_JSON_FIELD_TYPE_HEX_FIXED \<equiv> 6"
abbreviation (input) ARNM_JSON_FIELD_TYPE_UUID :: nat where "ARNM_JSON_FIELD_TYPE_UUID \<equiv> 7"
abbreviation (input) ARNM_JSON_FIELD_TYPE_DOUBLE :: nat where "ARNM_JSON_FIELD_TYPE_DOUBLE \<equiv> 8"
abbreviation (input) ARNM_JSON_FIELD_TYPE_BOOL :: nat where "ARNM_JSON_FIELD_TYPE_BOOL \<equiv> 9"
abbreviation (input) ARNM_JSON_FIELD_TYPE_VALUE :: nat where "ARNM_JSON_FIELD_TYPE_VALUE \<equiv> 10"

section \<open>The conversion, as the code makes it\<close>

text \<open>The number in both signednesses: \<open>integer_value\<close>, \<open>s_integer_value\<close>, \<open>negative\<close>, \<open>signed_overflow\<close>.\<close>

definition read_integer :: "yyjson_val \<Rightarrow> (nat \<times> int \<times> bool \<times> bool) option" where
  "read_integer v =
    (case payload v of
       YY_UINT n \<Rightarrow> Some (if n \<le> 9223372036854775807 then (n, int n, False, False) else (n, 0, False, True))
     | YY_SINT i \<Rightarrow> Some (if 0 \<le> i then (nat i, i, False, False) else (0, i, True, False))
     | _ \<Rightarrow> None)"

definition store_integer :: "mem \<Rightarrow> addr \<Rightarrow> nat \<Rightarrow> nat \<Rightarrow> int \<Rightarrow> bool \<Rightarrow> bool \<Rightarrow> arnm_result \<times> mem" where
  "store_integer m target type integer_value s_integer_value negative signed_overflow =
    (if type = ARNM_JSON_FIELD_TYPE_UINT64 then
       (if negative then (ARNM_ERROR_ARITHMETIC_OVERFLOW, m)
        else (ARNM_SUCCESS, wr m target (le_bytes 8 integer_value)))
     else if type = ARNM_JSON_FIELD_TYPE_UINT32 then
       (if negative then (ARNM_ERROR_ARITHMETIC_OVERFLOW, m)
        else if integer_value > UINT32_MAX then (ARNM_ERROR_ARITHMETIC_OVERFLOW, m)
        else (ARNM_SUCCESS, wr m target (le_bytes 4 integer_value)))
     else if type = ARNM_JSON_FIELD_TYPE_INT64 then
       (if signed_overflow then (ARNM_ERROR_ARITHMETIC_OVERFLOW, m)
        else (ARNM_SUCCESS, wr m target (le_bytes 8 (nat (s_integer_value mod 2 ^ 64)))))
     else if type = ARNM_JSON_FIELD_TYPE_INT32 then
       (if signed_overflow then (ARNM_ERROR_ARITHMETIC_OVERFLOW, m)
        else if s_integer_value < - 2147483648 \<or> s_integer_value > 2147483647 then (ARNM_ERROR_ARITHMETIC_OVERFLOW, m)
        else (ARNM_SUCCESS, wr m target (le_bytes 4 (nat (s_integer_value mod 2 ^ 32)))))
     else (ARNM_ERROR_INVALID_STATE, m))"

text \<open>
  The string types. A target is an \<open>arnm_memory_block\<close>: its pointer in eight bytes, its size in the four
  behind. The parsed text is at most 32 bits long, so the length of a string is. \<open>None\<close>: the search for the
  terminator of a string never ends.
\<close>

definition read_string :: "addr \<Rightarrow> mem \<Rightarrow> addr \<Rightarrow> nat \<Rightarrow> yyjson_val \<Rightarrow> (arnm_result \<times> mem) option" where
  "read_string hex m target type v =
    (if \<not> is_str v then Some (ARNM_ERROR_INVALID_ENUM_TYPE, m)
     else
       let str = get_str v; str_size = u32 (get_len v);
           out_data = arnm_load_ptr m target; out_size = load_le 4 m (target + 8)
       in if type = ARNM_JSON_FIELD_TYPE_STRING then
            Some (ARNM_SUCCESS, wr (store_ptr m target str) (target + 8) (le_bytes 4 str_size))
          else if type = ARNM_JSON_FIELD_TYPE_HEX_FIXED then
            (if out_size * 2 \<noteq> str_size then Some (ARNM_ERROR_DECODE_FAILED, m)
             else case arnm_binary_from_hex_with_known_hex_size m out_data str str_size of
                    (r, m) \<Rightarrow> Some (if r = ARNM_SUCCESS then ARNM_SUCCESS else ARNM_ERROR_DECODE_FAILED, m))
          else
            (if ARNM_UUID_STRING_LENGTH \<noteq> str_size \<or> out_size \<noteq> ARNM_UUID_BINARY_SIZE then Some (ARNM_ERROR_DECODE_FAILED, m)
             else map_option (\<lambda>(r, m). (if r = ARNM_SUCCESS then ARNM_SUCCESS else ARNM_ERROR_DECODE_FAILED, m))
               (arnm_uuid_from_string hex m out_data str)))"

definition read_field :: "addr \<Rightarrow> mem \<Rightarrow> addr \<Rightarrow> nat \<Rightarrow> yyjson_val option \<Rightarrow> (arnm_result \<times> mem) option" where
  "read_field hex m target type value_ptr =
    (case value_ptr of
       None \<Rightarrow> Some (ARNM_ERROR_NULL_POINTER, m)
     | Some v \<Rightarrow>
       if target = NULL then Some (ARNM_ERROR_NULL_POINTER, m)
       else if type = ARNM_JSON_FIELD_TYPE_NONE then Some (ARNM_ERROR_INVALID_PARAM, m)
       else if type \<le> ARNM_JSON_FIELD_TYPE_INT32 then
         (case read_integer v of
            None \<Rightarrow> Some (ARNM_ERROR_INVALID_ENUM_TYPE, m)
          | Some (integer_value, s_integer_value, negative, signed_overflow) \<Rightarrow>
              Some (store_integer m target type integer_value s_integer_value negative signed_overflow))
       else if type \<le> ARNM_JSON_FIELD_TYPE_UUID then read_string hex m target type v
       else if type = ARNM_JSON_FIELD_TYPE_VALUE then Some (ARNM_SUCCESS, store_ptr m target (val_at v))
       else if type = ARNM_JSON_FIELD_TYPE_BOOL then
         Some (case payload v of
                 YY_BOOL b \<Rightarrow> (ARNM_SUCCESS, wr m target [if b then 1 else 0])
               | _ \<Rightarrow> (ARNM_ERROR_INVALID_ENUM_TYPE, m))
       else if type = ARNM_JSON_FIELD_TYPE_DOUBLE then
         Some (case payload v of
                 YY_UINT _ \<Rightarrow> (ARNM_SUCCESS, wr m target (le_bytes 8 (get_num v)))
               | YY_SINT _ \<Rightarrow> (ARNM_SUCCESS, wr m target (le_bytes 8 (get_num v)))
               | YY_REAL _ \<Rightarrow> (ARNM_SUCCESS, wr m target (le_bytes 8 (get_num v)))
               | _ \<Rightarrow> (ARNM_ERROR_INVALID_ENUM_TYPE, m))
       else Some (ARNM_ERROR_INVALID_PARAM, m))"

section \<open>What a conversion is\<close>

text \<open>
  The integer a value carries, and the range of each integer type. \<open>conversion d n s\<close> gives the answer, and what
  is written: \<open>d\<close> and \<open>n\<close> are the pointer and the size the target held before, \<open>s\<close> the bytes of the string.
\<close>

definition integer_of :: "yyjson_val \<Rightarrow> int option" where
  "integer_of v = (case payload v of YY_UINT n \<Rightarrow> Some (int n) | YY_SINT i \<Rightarrow> Some i | _ \<Rightarrow> None)"

definition integer_range :: "nat \<Rightarrow> int \<times> int" where
  "integer_range type =
    (if type = ARNM_JSON_FIELD_TYPE_UINT64 then (0, 2 ^ 64)
     else if type = ARNM_JSON_FIELD_TYPE_UINT32 then (0, 2 ^ 32)
     else if type = ARNM_JSON_FIELD_TYPE_INT64 then (- (2 ^ 63), 2 ^ 63)
     else (- (2 ^ 31), 2 ^ 31))"

definition json_element_size :: "nat \<Rightarrow> nat" where
  "json_element_size type =
    (if type = ARNM_JSON_FIELD_TYPE_UINT64 \<or> type = ARNM_JSON_FIELD_TYPE_INT64 then 8
     else if type = ARNM_JSON_FIELD_TYPE_UINT32 \<or> type = ARNM_JSON_FIELD_TYPE_INT32 then 4
     else if type = ARNM_JSON_FIELD_TYPE_STRING \<or> type = ARNM_JSON_FIELD_TYPE_HEX_FIXED \<or> type = ARNM_JSON_FIELD_TYPE_UUID
       then 16
     else if type = ARNM_JSON_FIELD_TYPE_DOUBLE then 8
     else if type = ARNM_JSON_FIELD_TYPE_BOOL then 1
     else if type = ARNM_JSON_FIELD_TYPE_VALUE then 8
     else 0)"

definition uuid_decode :: "byte list \<Rightarrow> byte list option" where
  "uuid_decode s =
    (if s ! 8 = 45 \<and> s ! 13 = 45 \<and> s ! 18 = 45 \<and> s ! 23 = 45
     then hex_decode (take 8 s @ take 4 (drop 9 s) @ take 4 (drop 14 s) @ take 4 (drop 19 s) @ take 12 (drop 24 s))
     else None)"

definition conversion :: "addr \<Rightarrow> nat \<Rightarrow> byte list \<Rightarrow> addr \<Rightarrow> nat \<Rightarrow> yyjson_val \<Rightarrow> arnm_result \<times> addr \<times> byte list" where
  "conversion d n s target type v =
    (if target = NULL then (ARNM_ERROR_NULL_POINTER, target, [])
     else if type = ARNM_JSON_FIELD_TYPE_NONE \<or> type > ARNM_JSON_FIELD_TYPE_VALUE then (ARNM_ERROR_INVALID_PARAM, target, [])
     else if type = ARNM_JSON_FIELD_TYPE_VALUE then (ARNM_SUCCESS, target, le_bytes 8 (val_at v))
     else if type \<le> ARNM_JSON_FIELD_TYPE_INT32 then
       (case integer_of v of
          None \<Rightarrow> (ARNM_ERROR_INVALID_ENUM_TYPE, target, [])
        | Some i \<Rightarrow>
            if fst (integer_range type) \<le> i \<and> i < snd (integer_range type)
            then (ARNM_SUCCESS, target, le_bytes (json_element_size type) (nat (i mod 2 ^ (8 * json_element_size type))))
            else (ARNM_ERROR_ARITHMETIC_OVERFLOW, target, []))
     else if type \<le> ARNM_JSON_FIELD_TYPE_UUID \<and> \<not> is_str v then (ARNM_ERROR_INVALID_ENUM_TYPE, target, [])
     else if type = ARNM_JSON_FIELD_TYPE_STRING then
       (ARNM_SUCCESS, target, le_bytes 8 (get_str v) @ le_bytes 4 (get_len v))
     else if type = ARNM_JSON_FIELD_TYPE_HEX_FIXED then
       (if 2 * n \<noteq> get_len v \<or> d = NULL then (ARNM_ERROR_DECODE_FAILED, d, [])
        else case hex_decode s of
               None \<Rightarrow> (ARNM_ERROR_DECODE_FAILED, d, replicate n 0)
             | Some bs \<Rightarrow> (ARNM_SUCCESS, d, bs))
     else if type = ARNM_JSON_FIELD_TYPE_UUID then
       (if get_len v \<noteq> 36 \<or> n \<noteq> 16 \<or> d = NULL \<or> 0 \<in> set s then (ARNM_ERROR_DECODE_FAILED, d, [])
        else case uuid_decode s of
               None \<Rightarrow> (ARNM_ERROR_DECODE_FAILED, d, replicate 16 0)
             | Some bs \<Rightarrow> (ARNM_SUCCESS, d, bs))
     else if type = ARNM_JSON_FIELD_TYPE_BOOL then
       (case payload v of
          YY_BOOL b \<Rightarrow> (ARNM_SUCCESS, target, [if b then 1 else 0])
        | _ \<Rightarrow> (ARNM_ERROR_INVALID_ENUM_TYPE, target, []))
     else
       (case payload v of
          YY_UINT _ \<Rightarrow> (ARNM_SUCCESS, target, le_bytes 8 (get_num v))
        | YY_SINT _ \<Rightarrow> (ARNM_SUCCESS, target, le_bytes 8 (get_num v))
        | YY_REAL _ \<Rightarrow> (ARNM_SUCCESS, target, le_bytes 8 (get_num v))
        | _ \<Rightarrow> (ARNM_ERROR_INVALID_ENUM_TYPE, target, [])))"

definition conversion_in :: "mem \<Rightarrow> addr \<Rightarrow> nat \<Rightarrow> yyjson_val \<Rightarrow> arnm_result \<times> addr \<times> byte list" where
  "conversion_in m target type v =
    conversion (arnm_load_ptr m target) (load_le 4 m (target + 8)) (rd m (get_str v) (get_len v)) target type v"

section \<open>The code converts as said\<close>

definition value_ok :: "mem \<Rightarrow> yyjson_val \<Rightarrow> bool" where
  "value_ok m v \<longleftrightarrow> val_at v < ADDRESS_END \<and>
    (case payload v of
       YY_UINT n \<Rightarrow> n < 2 ^ 64
     | YY_SINT i \<Rightarrow> - (2 ^ 63) \<le> i \<and> i < 2 ^ 63
     | YY_REAL b \<Rightarrow> b < 2 ^ 64
     | YY_STR a n \<Rightarrow> a \<noteq> NULL \<and> a < ADDRESS_END \<and> n \<le> UINT32_MAX \<and> m (a + n) = 0
     | _ \<Rightarrow> True)"

lemma strlen_within:
  assumes "m (a + n) = 0"
  shows "\<exists>k\<le>n. strlen m a = Some k \<and> (k = n \<longleftrightarrow> 0 \<notin> set (rd m a n))"
proof -
  define k where "k = (LEAST i. m (a + i) = 0)"
  have z: "m (a + k) = 0" unfolding k_def by (rule LeastI [of _ n]) (rule assms)
  have le: "k \<le> n" unfolding k_def by (rule Least_le) (rule assms)
  have nz: "m (a + i) \<noteq> 0" if "i < k" for i using that unfolding k_def by (rule not_less_Least)
  have "strlen m a = Some k" by (rule strlen_eq) (use z nz in simp_all)
  moreover have "k = n \<longleftrightarrow> 0 \<notin> set (rd m a n)"
  proof
    assume "k = n"
    then have "m x \<noteq> 0" if "a \<le> x" "x < a + n" for x using nz [of "x - a"] that by simp
    then show "0 \<notin> set (rd m a n)" by (auto simp: rd_def)
  next
    assume no: "0 \<notin> set (rd m a n)"
    show "k = n"
    proof (rule ccontr)
      assume "k \<noteq> n"
      then have "rd m a n ! k = 0" "k < length (rd m a n)" using le z by simp_all
      then show False using no by (metis nth_mem)
    qed
  qed
  ultimately show ?thesis using le by blast
qed

text \<open>Any text of 36 characters, not only a uuid, is read as \<open>uuid_decode\<close> says.\<close>

lemma uuid_from_string_outcome:
  fixes m :: mem
  assumes "uuid \<noteq> 0" "s \<noteq> 0" "hex \<noteq> 0" "m (s + 36) = 0"
    and "hex + 33 \<le> s \<or> s + 37 \<le> hex" and "uuid + 16 \<le> hex \<or> hex + 33 \<le> uuid"
  defines "t \<equiv> rd m s 36"
  shows "\<exists>r m'. arnm_uuid_from_string hex m uuid s = Some (r, m') \<and>
    (if 0 \<in> set t then r \<noteq> ARNM_SUCCESS \<and> m' = m
     else case uuid_decode t of
       None \<Rightarrow> r \<noteq> ARNM_SUCCESS \<and> rd m' uuid 16 = replicate 16 0
     | Some bs \<Rightarrow> r = ARNM_SUCCESS \<and> rd m' uuid 16 = bs) \<and>
    (\<forall>x. (x < uuid \<or> uuid + 16 \<le> x) \<and> (x < hex \<or> hex + 33 \<le> x) \<longrightarrow> m' x = m x)"
proof -
  obtain k where k: "k \<le> 36" "strlen m s = Some k" "k = 36 \<longleftrightarrow> 0 \<notin> set t"
    using strlen_within [of m s 36] assms(4) unfolding t_def by blast
  show ?thesis
  proof (cases "0 \<in> set t")
    case True
    then show ?thesis using k assms(1,2) by (simp add: arnm_uuid_from_string_def ARNM_UUID_STRING_LENGTH_def)
  next
    case nz: False
    then have s36: "strlen m s = Some 36" using k by simp
    have dash: "m (s + 8) = t ! 8" "m (s + 13) = t ! 13" "m (s + 18) = t ! 18" "m (s + 23) = t ! 23"
      by (simp_all add: t_def)
    show ?thesis
    proof (cases "t ! 8 = 45 \<and> t ! 13 = 45 \<and> t ! 18 = 45 \<and> t ! 23 = 45")
      case False
      then have "arnm_uuid_from_string hex m uuid s = Some (ARNM_ERROR_DECODE_FAILED, memset m uuid 0 16)"
        using assms(1,2) s36 by (auto simp: arnm_uuid_from_string_def ARNM_UUID_STRING_LENGTH_def ARNM_UUID_BINARY_SIZE_def dash)
      moreover have "uuid_decode t = None" using False by (auto simp: uuid_decode_def)
      ultimately show ?thesis using nz by (auto simp: mem_simps)
    next
      case d: True
      define m1 where "m1 = (memcpy (memcpy (memcpy (memcpy (memcpy m hex s 8) (hex + 8) (s + 9) 4)
         (hex + 12) (s + 14) 4) (hex + 16) (s + 19) 4) (hex + 20) (s + 24) 12)(hex + 32 := 0)"
      have parts: "rd m1 hex 8 = rd m s 8" "rd m1 (hex + 8) 4 = rd m (s + 9) 4"
        "rd m1 (hex + 12) 4 = rd m (s + 14) 4" "rd m1 (hex + 16) 4 = rd m (s + 19) 4"
        "rd m1 (hex + 20) 12 = rd m (s + 24) 12"
        using assms(5) by (auto simp: m1_def mem_simps)
      define u where "u = take 8 t @ take 4 (drop 9 t) @ take 4 (drop 14 t) @ take 4 (drop 19 t) @ take 12 (drop 24 t)"
      have "rd m1 hex 32 = rd m s 8 @ rd m (s + 9) 4 @ rd m (s + 14) 4 @ rd m (s + 19) 4 @ rd m (s + 24) 12"
        unfolding parts [symmetric] by (simp add: numeral_eq_Suc rd_Suc)
      also have "\<dots> = u"
        using rd_slice [of 0 8 36 m s] rd_slice [of 9 4 36 m s] rd_slice [of 14 4 36 m s] rd_slice [of 19 4 36 m s]
          rd_slice [of 24 12 36 m s] by (simp add: t_def u_def)
      finally have hex32: "rd m1 hex 32 = u" .
      have "0 \<notin> set u" using nz by (auto simp: u_def dest: in_set_takeD in_set_dropD)
      moreover have "length u = 32" by (simp add: u_def t_def)
      ultimately have len: "strlen m1 hex = Some 32" using strlen_rd [of m1 hex u] hex32 by (simp add: m1_def)
      have code: "arnm_uuid_from_string hex m uuid s = Some (arnm_binary_from_hex_with_known_hex_size m1 uuid hex 32)"
        using assms(1-3) s36 d len
        by (simp add: arnm_uuid_from_string_def ARNM_UUID_STRING_LENGTH_def ARNM_UUID_BINARY_SIZE_def dash
            arnm_binary_from_hex_def Let_def flip: m1_def)
      have dec: "uuid_decode t = hex_decode u" using d by (simp add: uuid_decode_def u_def)
      have m1: "m1 x = m x" if "x < hex \<or> hex + 33 \<le> x" for x using that by (auto simp: m1_def mem_simps)
      show ?thesis
        using from_hex_known_size_correct [of uuid hex 32 m1] assms(1,3,6) nz m1
        unfolding code hex32 dec by (auto split: option.splits)
    qed
  qed
qed

lemma wr_two: "length bs = k \<Longrightarrow> wr (wr m a bs) (a + k) cs = wr m a (bs @ cs)"
  by (auto simp: wr_def fun_eq_iff nth_append)

lemma pointer_le_bytes: "pointer_bytes p = le_bytes 8 p"
  by (simp add: pointer_bytes_def le_bytes_def)

lemma store_integer_conversion:
  assumes "read_integer v = Some (u, s, neg, ov)" "value_ok m v" "0 < type" "type \<le> 4" "target \<noteq> NULL"
    "conversion d n str target type v = (r, place, bs)"
  shows "store_integer m target type u s neg ov = (r, wr m place bs)"
proof -
  consider "type = 1" | "type = 2" | "type = 3" | "type = 4" using assms(3,4) by linarith
  then show ?thesis
    using assms
    by cases (cases "payload v"; auto simp: read_integer_def conversion_def integer_of_def integer_range_def value_ok_def
        store_integer_def json_element_size_def UINT32_MAX_def nat_mod_distrib split: if_splits)+
qed

lemma wr_outside: "x \<notin> region a (length bs) \<Longrightarrow> wr m a bs x = m x"
  by (auto simp: wr_def)

lemma hex_decode_length: "hex_decode s = Some bs \<Longrightarrow> length s = 2 * length bs"
  by (induction s arbitrary: bs rule: hex_decode.induct) (auto split: option.splits)

text \<open>
  What a conversion may need apart: the bytes it writes from the string they are read from, and the local
  array of the uuid's decoding from both.
\<close>

definition conversion_apart :: "mem \<Rightarrow> addr \<Rightarrow> addr \<Rightarrow> nat \<Rightarrow> yyjson_val \<Rightarrow> bool" where
  "conversion_apart m hex target type v \<longleftrightarrow>
    (case conversion_in m target type v of (r, place, bs) \<Rightarrow>
       region place (length bs) \<inter> region (get_str v) (get_len v + 1) = {} \<and>
       region hex 33 \<inter> region (get_str v) (get_len v + 1) = {} \<and> region hex 33 \<inter> region place (length bs) = {})"

lemma read_field_conversion:
  assumes v: "value_ok m v" and hex: "hex \<noteq> 0" and free: "conversion_apart m hex target type v"
    and c: "conversion_in m target type v = (r, place, bs)"
  shows "\<exists>m'. read_field hex m target type (Some v) = Some (r, m') \<and> rd m' place (length bs) = bs \<and>
    (\<forall>x. x \<notin> region place (length bs) \<and> x \<notin> region hex 33 \<longrightarrow> m' x = m x)"
proof -
  define d n s where "d = arnm_load_ptr m target" and "n = load_le 4 m (target + 8)" and "s = rd m (get_str v) (get_len v)"
  have c: "conversion d n s target type v = (r, place, bs)" using c by (simp add: conversion_in_def d_def n_def s_def)
  have wrote: ?thesis if "read_field hex m target type (Some v) = Some (r, wr m place bs)"
    using that by (auto simp: mem_simps wr_outside)
  consider (none) "target = NULL \<or> type = 0 \<or> type > 10" | (int) "target \<noteq> NULL" "0 < type" "type \<le> 4"
    | (nostr) "target \<noteq> NULL" "5 \<le> type" "type \<le> 7" "\<not> is_str v" | (str) "target \<noteq> NULL" "type = 5" "is_str v"
    | (hex) "target \<noteq> NULL" "type = 6" "is_str v" | (uuid) "target \<noteq> NULL" "type = 7" "is_str v"
    | (rest) "target \<noteq> NULL" "type = 8 \<or> type = 9 \<or> type = 10"
    by linarith
  then show ?thesis
  proof cases
    case none
    then show ?thesis using c by (intro wrote) (auto simp: read_field_def conversion_def)
  next
    case int
    show ?thesis
    proof (cases "read_integer v")
      case None
      then have "integer_of v = None" by (auto simp: read_integer_def integer_of_def split: payload.splits)
      then show ?thesis using int None c by (intro wrote) (auto simp: read_field_def conversion_def)
    next
      case (Some q)
      obtain u i neg ov where q: "q = (u, i, neg, ov)" by (cases q)
      show ?thesis using int store_integer_conversion [OF Some [unfolded q] v int(2,3,1) c] Some q
        by (intro wrote) (simp add: read_field_def)
    qed
  next
    case nostr
    then show ?thesis using c by (intro wrote) (auto simp: read_field_def conversion_def read_string_def)
  next
    case str
    have "get_len v \<le> UINT32_MAX" using v str(3) by (auto simp: value_ok_def get_len_def is_str_def split: payload.splits)
    then show ?thesis using str c
      by (intro wrote) (auto simp: read_field_def conversion_def read_string_def Let_def store_ptr_def pointer_le_bytes wr_two)
  next
    case hex
    have len: "get_len v \<le> UINT32_MAX" "get_str v \<noteq> 0"
      using v hex(3) by (auto simp: value_ok_def get_len_def get_str_def is_str_def split: payload.splits)
    have code: "read_field hex m target type (Some v) =
        (if n * 2 \<noteq> get_len v then Some (ARNM_ERROR_DECODE_FAILED, m)
         else case arnm_binary_from_hex_with_known_hex_size m d (get_str v) (get_len v) of
                (r, m) \<Rightarrow> Some (if r = ARNM_SUCCESS then ARNM_SUCCESS else ARNM_ERROR_DECODE_FAILED, m))"
      using hex len by (simp add: read_field_def read_string_def Let_def n_def d_def)
    show ?thesis
    proof (cases "n * 2 \<noteq> get_len v \<or> d = NULL")
      case True
      then show ?thesis using hex c
        by (intro wrote, unfold code) (auto simp: conversion_def arnm_binary_from_hex_with_known_hex_size_def)
    next
      case False
      then have n: "get_len v = 2 * n" "d \<noteq> NULL" by auto
      have cb: "place = d" "length bs = n"
        "(r, bs) = (case hex_decode s of None \<Rightarrow> (ARNM_ERROR_DECODE_FAILED, replicate n 0) | Some bs \<Rightarrow> (ARNM_SUCCESS, bs))"
        using c hex n hex_decode_length [of s] by (auto simp: conversion_def s_def split: option.splits)
      have "d \<le> get_str v \<or> get_str v + get_len v \<le> d"
      proof -
        have "region d n \<inter> region (get_str v) (2 * n + 1) = {}"
          using free c cb n by (simp add: conversion_apart_def conversion_in_def d_def n_def s_def)
        then have "n = 0 \<or> d \<notin> region (get_str v) (2 * n + 1)" by (force simp: region_def)
        then show ?thesis using n by (auto simp: not_le not_less)
      qed
      note dec = from_hex_known_size_correct [OF n(2) len(2) this, of m]
      have half: "2 * n div 2 = n" by simp
      from dec
      obtain m' where m': "arnm_binary_from_hex_with_known_hex_size m d (get_str v) (get_len v) =
          (if hex_decode s = None then ARNM_ERROR_DECODE_FAILED else ARNM_SUCCESS, m')"
        "rd m' d n = (case hex_decode s of None \<Rightarrow> replicate n 0 | Some bs \<Rightarrow> bs)" "\<forall>x. x < d \<or> d + n \<le> x \<longrightarrow> m' x = m x"
        unfolding s_def n(1) half by auto
      show ?thesis unfolding code using m' cb n by (auto split: option.splits)
    qed
  next
    case uuid
    have len: "get_len v \<le> UINT32_MAX" "get_str v \<noteq> 0" "m (get_str v + get_len v) = 0"
      using v uuid(3) by (auto simp: value_ok_def get_len_def get_str_def is_str_def split: payload.splits)
    have code: "read_field hex m target type (Some v) =
        (if 36 \<noteq> get_len v \<or> n \<noteq> 16 then Some (ARNM_ERROR_DECODE_FAILED, m)
         else map_option (\<lambda>(r, m). (if r = ARNM_SUCCESS then ARNM_SUCCESS else ARNM_ERROR_DECODE_FAILED, m))
               (arnm_uuid_from_string hex m d (get_str v)))"
      using uuid len by (simp add: read_field_def read_string_def Let_def n_def d_def ARNM_UUID_STRING_LENGTH_def ARNM_UUID_BINARY_SIZE_def)
    show ?thesis
    proof (cases "36 \<noteq> get_len v \<or> n \<noteq> 16 \<or> d = NULL")
      case True
      then show ?thesis using uuid c
        by (intro wrote, unfold code) (auto simp: conversion_def arnm_uuid_from_string_def)
    next
      case False
      then have n: "get_len v = 36" "n = 16" "d \<noteq> NULL" by auto
      have s: "s = rd m (get_str v) 36" by (simp add: s_def n)
      have cb: "(r, place, bs) = (if 0 \<in> set s then (ARNM_ERROR_DECODE_FAILED, d, [])
          else case uuid_decode s of None \<Rightarrow> (ARNM_ERROR_DECODE_FAILED, d, replicate 16 0) | Some bs \<Rightarrow> (ARNM_SUCCESS, d, bs))"
        using c uuid n by (auto simp: conversion_def split: option.splits)
      show ?thesis
      proof (cases "0 \<in> set s")
        case True
        obtain k where "k \<le> 36" "strlen m (get_str v) = Some k" "k \<noteq> 36"
          using strlen_within [of m "get_str v" 36] len(3) n True unfolding s by auto
        then have "read_field hex m target type (Some v) = Some (ARNM_ERROR_DECODE_FAILED, m)"
          unfolding code using n len by (simp add: arnm_uuid_from_string_def ARNM_UUID_STRING_LENGTH_def)
        then show ?thesis using cb True by simp
      next
        case nz: False
        have ds: "length bs = 16"
        proof (cases "uuid_decode s")
          case (Some x)
          then have "hex_decode (take 8 s @ take 4 (drop 9 s) @ take 4 (drop 14 s) @ take 4 (drop 19 s) @ take 12 (drop 24 s)) = Some x"
            by (auto simp: uuid_decode_def split: if_splits)
          from hex_decode_length [OF this] show ?thesis using Some cb nz by (simp add: s)
        qed (use cb nz in simp)
        have place: "place = d" using cb nz by (auto split: option.splits)
        have ap: "region d 16 \<inter> region hex 33 = {}" "region hex 33 \<inter> region (get_str v) 37 = {}"
          using free c n unfolding conversion_apart_def conversion_in_def d_def [symmetric] n_def [symmetric] s_def [symmetric] c
          by (auto simp: ds place)
        have ap': "hex + 33 \<le> get_str v \<or> get_str v + 37 \<le> hex" "d + 16 \<le> hex \<or> hex + 33 \<le> d"
          using ap by (simp_all add: region_disjoint_iff)
        obtain r' m' where m': "arnm_uuid_from_string hex m d (get_str v) = Some (r', m')"
          "case uuid_decode s of None \<Rightarrow> r' \<noteq> ARNM_SUCCESS \<and> rd m' d 16 = replicate 16 0
           | Some bs \<Rightarrow> r' = ARNM_SUCCESS \<and> rd m' d 16 = bs"
          "\<forall>x. (x < d \<or> d + 16 \<le> x) \<and> (x < hex \<or> hex + 33 \<le> x) \<longrightarrow> m' x = m x"
          using uuid_from_string_outcome [OF n(3) len(2) \<open>hex \<noteq> 0\<close> _ ap', of m] len(3) n nz unfolding s by auto
        have "read_field hex m target type (Some v) = Some (r, m') \<and> rd m' d 16 = bs"
          unfolding code using m' cb nz n by (auto split: option.splits)
        then show ?thesis using m'(3) by (auto simp: place ds)
      qed
    qed
  next
    case rest
    then show ?thesis using c
      by (intro wrote) (auto simp: read_field_def conversion_def store_ptr_def pointer_le_bytes split: payload.splits)
  qed
qed

text \<open>The number an integer target holds, read as its type reads it.\<close>

definition stored_integer :: "mem \<Rightarrow> addr \<Rightarrow> nat \<Rightarrow> int" where
  "stored_integer m a type =
    (let n = json_element_size type; u = int (load_le n m a)
     in if fst (integer_range type) < 0 \<and> 2 ^ (8 * n - 1) \<le> u then u - 2 ^ (8 * n) else u)"

text \<open>The four integer types accept exactly the numbers that fit them: a number in the range of the type is
  stored, and read back from the target as its type reads it is that number; one outside is an overflow, and a value that is no
  integer the wrong type; neither writes a byte.
\<close>

theorem read_integer_exact:
  assumes "value_ok m v" "target \<noteq> NULL" "0 < type" "type \<le> ARNM_JSON_FIELD_TYPE_INT32"
  shows "\<exists>r m'. read_field hex m target type (Some v) = Some (r, m') \<and>
    (case integer_of v of
       None \<Rightarrow> r = ARNM_ERROR_INVALID_ENUM_TYPE \<and> m' = m
     | Some i \<Rightarrow>
         if fst (integer_range type) \<le> i \<and> i < snd (integer_range type)
         then r = ARNM_SUCCESS \<and> stored_integer m' target type = i \<and>
           (\<forall>x. x \<notin> region target (json_element_size type) \<longrightarrow> m' x = m x)
         else r = ARNM_ERROR_ARITHMETIC_OVERFLOW \<and> m' = m)"
proof (cases "integer_of v")
  case None
  then have "read_integer v = None" by (auto simp: read_integer_def integer_of_def split: payload.splits)
  then show ?thesis using assms None by (simp add: read_field_def)
next
  case (Some i)
  have "read_integer v \<noteq> None" using Some by (auto simp: read_integer_def integer_of_def split: payload.splits)
  then obtain u s neg ov where ri: "read_integer v = Some (u, s, neg, ov)" by (metis not_None_eq prod_cases4)
  obtain r place bs where c: "conversion 0 0 [] target type v = (r, place, bs)" by (metis prod_cases3)
  have "read_field hex m target type (Some v) = Some (r, wr m place bs)"
    using store_integer_conversion [OF ri assms(1,3,4,2) c] assms ri by (simp add: read_field_def)
  moreover have "stored_integer (wr m target (le_bytes (json_element_size type) (nat (i mod 2 ^ (8 * json_element_size type))))) target type = i"
    if range: "fst (integer_range type) \<le> i" "i < snd (integer_range type)"
  proof -
    define n where "n = json_element_size type"
    have "load_le n (wr m target (le_bytes n (nat (i mod 2 ^ (8 * n))))) target = nat (i mod 2 ^ (8 * n)) mod 256 ^ n"
      by (rule load_le_rd) (simp add: mem_simps)
    also have "(256 :: nat) ^ n = 2 ^ (8 * n)" by (simp add: power_mult)
    also have "nat (i mod 2 ^ (8 * n)) mod 2 ^ (8 * n) = nat (i mod 2 ^ (8 * n))"
    proof -
      have "nat (i mod 2 ^ (8 * n)) < 2 ^ (8 * n)" by (simp add: nat_less_iff)
      then show ?thesis by simp
    qed
    finally have l: "load_le n (wr m target (le_bytes n (nat (i mod 2 ^ (8 * n))))) target = nat (i mod 2 ^ (8 * n))" .
    have "type = 1 \<or> type = 2 \<or> type = 3 \<or> type = 4" using assms(3,4) by linarith
    then show ?thesis
    proof (elim disjE)
      assume t: "type = 2"
      show ?thesis
      proof (cases "i < 0")
        case True
        then have "i mod 2 ^ 64 = i + 2 ^ 64" using range t mod_add_self2 [of i "2 ^ 64"]
          by (simp add: integer_range_def del: mod_add_self2)
        then show ?thesis using l range t True by (simp add: Let_def le_nat_iff stored_integer_def n_def json_element_size_def integer_range_def)
      next
        case False
        then have "i mod 2 ^ 64 = i" using range t by (simp add: integer_range_def)
        then show ?thesis using l range t False by (simp add: Let_def le_nat_iff stored_integer_def n_def json_element_size_def integer_range_def)
      qed
    next
      assume t: "type = 4"
      show ?thesis
      proof (cases "i < 0")
        case True
        then have "i mod 2 ^ 32 = i + 2 ^ 32" using range t mod_add_self2 [of i "2 ^ 32"]
          by (simp add: integer_range_def del: mod_add_self2)
        then show ?thesis using l range t True by (simp add: Let_def le_nat_iff stored_integer_def n_def json_element_size_def integer_range_def)
      next
        case False
        then have "i mod 2 ^ 32 = i" using range t by (simp add: integer_range_def)
        then show ?thesis using l range t False by (simp add: Let_def le_nat_iff stored_integer_def n_def json_element_size_def integer_range_def)
      qed
    qed (use l range in \<open>simp_all add: Let_def stored_integer_def n_def json_element_size_def integer_range_def\<close>)
  qed
  moreover have "(r, place, bs) =
      (if fst (integer_range type) \<le> i \<and> i < snd (integer_range type)
       then (ARNM_SUCCESS, target, le_bytes (json_element_size type) (nat (i mod 2 ^ (8 * json_element_size type))))
       else (ARNM_ERROR_ARITHMETIC_OVERFLOW, target, []))"
    using c assms(2-4) Some by (simp add: conversion_def)
  ultimately show ?thesis using Some by (auto simp: wr_outside)
qed

lemma read_integer_exact_witness:
  "\<exists>m'. read_field 600 (\<lambda>_. 0) 400 ARNM_JSON_FIELD_TYPE_INT32 (Some (YYJSON_VAL 1000 (YY_SINT (- 7)))) = Some (ARNM_SUCCESS, m') \<and>
    stored_integer m' 400 ARNM_JSON_FIELD_TYPE_INT32 = - 7"
  using read_integer_exact [of "\<lambda>_. 0" "YYJSON_VAL 1000 (YY_SINT (- 7))" 400 ARNM_JSON_FIELD_TYPE_INT32 600]
  by (auto simp: value_ok_def integer_of_def integer_range_def)

end
