(* ===== verification/Json_Walk.thy ===== *)
theory Json_Walk
  imports Json_Value
begin

unbundle bit_operations_syntax

text \<open>
  Reading a shape in one walk (\<^verbatim>\<open>src/json_reader.c\<close>, \<open>arnm_json_read_object\<close> and \<open>arnm_json_read_array\<close>). The walk
  over an object keeps a bit for every entry of the table that has been met and looks for the name of a member
  among the others only, from the lowest of them on. Both walks are jobs done one after the other, each the
  conversion of one value into one target; where no job writes what another one reads, what is left
  behind is what each conversion would have left on its own.
\<close>

section \<open>The code\<close>

record json_field =
  jf_key :: addr
  jf_key_length :: nat
  jf_type :: nat
  jf_target :: addr

definition ARNM_JSON_FIELDS_MAX :: nat where "ARNM_JSON_FIELDS_MAX = 64"

function match_field :: "mem \<Rightarrow> json_field list \<Rightarrow> nat \<Rightarrow> 64 word \<Rightarrow> addr \<Rightarrow> nat \<Rightarrow> nat \<Rightarrow> nat option" where
  "match_field m flds count visited key_string key_size i =
    (if i < count then
       if visited AND push_bit i 1 = push_bit i 1 then match_field m flds count visited key_string key_size (i + 1)
       else if key_size = jf_key_length (flds ! i) \<and> rd m key_string key_size = rd m (jf_key (flds ! i)) key_size
       then Some i
       else match_field m flds count visited key_string key_size (i + 1)
     else None)"
  by pat_completeness auto
termination by (relation "measure (\<lambda>(m, flds, count, visited, key_string, key_size, i). count - i)") auto

fun walk_members :: "addr \<Rightarrow> json_field list \<Rightarrow> nat \<Rightarrow> 64 word \<Rightarrow> 64 word \<Rightarrow> 64 word \<Rightarrow> mem \<Rightarrow>
    (yyjson_val \<times> yyjson_val) list \<Rightarrow> (arnm_result \<times> 64 word \<times> mem) option" where
  "walk_members hex flds count valid_mask visited found m [] = Some (ARNM_SUCCESS, found, m)"
| "walk_members hex flds count valid_mask visited found m ((key, v) # rest) =
    (let remaining = NOT visited AND valid_mask
     in if remaining = 0 then Some (ARNM_SUCCESS, found, m)
        else
          let key_size = u32 (get_len key); key_string = get_str key
          in case match_field m flds count visited key_string key_size (arnm_ctzll remaining) of
               None \<Rightarrow> walk_members hex flds count valid_mask visited found m rest
             | Some i \<Rightarrow>
                 let b = push_bit i 1; field = flds ! i
                 in if is_null v \<and> jf_type field \<noteq> ARNM_JSON_FIELD_TYPE_VALUE
                    then walk_members hex flds count valid_mask (visited OR b) found m rest
                    else
                      Option.bind (read_field hex m (jf_target field) (jf_type field) (Some v)) (\<lambda>(result, m).
                        if result \<noteq> ARNM_SUCCESS then Some (result, found, m)
                        else walk_members hex flds count valid_mask (visited OR b) (found OR b) m rest))"

definition arnm_json_read_object :: "addr \<Rightarrow> mem \<Rightarrow> yyjson_val option \<Rightarrow> json_field list option \<Rightarrow> nat \<Rightarrow>
    (arnm_result \<times> 64 word \<times> mem) option" where
  "arnm_json_read_object hex m object flds count =
    (case (object, flds) of
       (Some object, Some flds) \<Rightarrow>
         if count = 0 \<or> count > ARNM_JSON_FIELDS_MAX then Some (ARNM_ERROR_INVALID_PARAM, 0, m)
         else
           (case payload object of
              YY_OBJ members \<Rightarrow>
                let valid_mask = (if count = 64 then - 1 else push_bit count 1 - 1)
                in walk_members hex flds count valid_mask 0 0 m members
            | _ \<Rightarrow> Some (ARNM_ERROR_INVALID_ENUM_TYPE, 0, m))
     | _ \<Rightarrow> Some (ARNM_ERROR_NULL_POINTER, 0, m))"

fun fill_elements :: "addr \<Rightarrow> nat \<Rightarrow> nat \<Rightarrow> bool \<Rightarrow> addr \<Rightarrow> nat \<Rightarrow> mem \<Rightarrow> yyjson_val list \<Rightarrow>
    (arnm_result \<times> nat \<times> mem) option" where
  "fill_elements hex type stride skip_null slot count m [] = Some (ARNM_SUCCESS, count, m)"
| "fill_elements hex type stride skip_null slot count m (v # rest) =
    (if skip_null \<and> is_null v then fill_elements hex type stride skip_null slot count m rest
     else
       Option.bind (read_field hex m slot type (Some v)) (\<lambda>(result, m).
         if result \<noteq> ARNM_SUCCESS then Some (result, count, m)
         else fill_elements hex type stride skip_null (slot + stride) (u32 (count + 1)) m rest))"

definition arnm_json_read_array :: "addr \<Rightarrow> mem \<Rightarrow> yyjson_val option \<Rightarrow> nat \<Rightarrow> addr \<Rightarrow> nat \<Rightarrow>
    (arnm_result \<times> nat \<times> mem) option" where
  "arnm_json_read_array hex m array type out_values cap =
    (case array of
       None \<Rightarrow> Some (ARNM_ERROR_NULL_POINTER, 0, m)
     | Some array \<Rightarrow>
       if out_values = NULL then Some (ARNM_ERROR_NULL_POINTER, 0, m)
       else if cap = 0 then Some (ARNM_ERROR_INVALID_PARAM, 0, m)
       else
         let stride = json_element_size type
         in if stride = 0 then Some (ARNM_ERROR_INVALID_PARAM, 0, m)
            else
              (case payload array of
                 YY_ARR elements \<Rightarrow>
                   let array_length = u32 (length elements)
                   in if array_length > cap then Some (ARNM_ERROR_DESTINATION_BUFFER_TO_SMALL, array_length, m)
                      else fill_elements hex type stride (type \<noteq> ARNM_JSON_FIELD_TYPE_VALUE) out_values 0 m elements
               | _ \<Rightarrow> Some (ARNM_ERROR_INVALID_ENUM_TYPE, 0, m)))"

section \<open>Jobs\<close>

type_synonym job = "addr \<times> nat \<times> yyjson_val"

definition outcome :: "mem \<Rightarrow> job \<Rightarrow> arnm_result \<times> addr \<times> byte list" where
  "outcome m j = (case j of (target, type, v) \<Rightarrow> conversion_in m target type v)"

definition converts :: "mem \<Rightarrow> job \<Rightarrow> bool" where
  "converts m j \<longleftrightarrow> fst (outcome m j) = ARNM_SUCCESS"

text \<open>Where a job writes, and what it reads.\<close>

definition job_writes :: "mem \<Rightarrow> job \<Rightarrow> addr set" where
  "job_writes m j = (case outcome m j of (r, place, bs) \<Rightarrow> region place (length bs))"

definition job_reads :: "job \<Rightarrow> addr set" where
  "job_reads j =
    (case j of (target, type, v) \<Rightarrow>
       (if type = ARNM_JSON_FIELD_TYPE_HEX_FIXED \<or> type = ARNM_JSON_FIELD_TYPE_UUID then region target 12 else {}) \<union>
       region (get_str v) (get_len v + 1))"

definition job_ok :: "addr \<Rightarrow> mem \<Rightarrow> job \<Rightarrow> bool" where
  "job_ok hex m j \<longleftrightarrow> value_ok m (snd (snd j)) \<and> job_writes m j \<inter> region (get_str (snd (snd j))) (get_len (snd (snd j)) + 1) = {} \<and>
    region hex 33 \<inter> (job_reads j \<union> job_writes m j) = {}"

definition jobs_apart :: "mem \<Rightarrow> job \<Rightarrow> job \<Rightarrow> bool" where
  "jobs_apart m i j \<longleftrightarrow> job_writes m i \<inter> (job_reads j \<union> job_writes m j) = {} \<and> job_writes m j \<inter> job_reads i = {}"

text \<open>The jobs that are done: those before the first that is refused.\<close>

definition jobs_done :: "mem \<Rightarrow> job list \<Rightarrow> job list" where
  "jobs_done m jobs = takeWhile (converts m) jobs"

definition jobs_result :: "mem \<Rightarrow> job list \<Rightarrow> arnm_result" where
  "jobs_result m jobs = (case dropWhile (converts m) jobs of [] \<Rightarrow> ARNM_SUCCESS | j # _ \<Rightarrow> fst (outcome m j))"

text \<open>What is left behind: every conversion that was made, and nothing else, but for what a refused decoding clears.\<close>

definition jobs_leave :: "addr \<Rightarrow> mem \<Rightarrow> job list \<Rightarrow> mem \<Rightarrow> bool" where
  "jobs_leave hex m jobs m' \<longleftrightarrow>
    (\<forall>j\<in>set (jobs_done m jobs). case outcome m j of (r, place, bs) \<Rightarrow> rd m' place (length bs) = bs) \<and>
    (\<forall>x. x \<notin> region hex 33 \<and> (\<forall>j\<in>set (take (length (jobs_done m jobs) + 1) jobs). x \<notin> job_writes m j) \<longrightarrow> m' x = m x)"

fun run_jobs :: "addr \<Rightarrow> mem \<Rightarrow> job list \<Rightarrow> (arnm_result \<times> nat \<times> mem) option" where
  "run_jobs hex m [] = Some (ARNM_SUCCESS, 0, m)"
| "run_jobs hex m ((target, type, v) # jobs) =
    Option.bind (read_field hex m target type (Some v)) (\<lambda>(result, m).
      if result \<noteq> ARNM_SUCCESS then Some (result, 0, m)
      else map_option (\<lambda>(r, n, m). (r, n + 1, m)) (run_jobs hex m jobs))"

lemma load_le_cong: "(\<And>x. x \<in> region a n \<Longrightarrow> m' x = m x) \<Longrightarrow> load_le n m' a = load_le n m a"
  by (simp add: load_le_def)

lemma conversion_other:
  "type \<noteq> 6 \<Longrightarrow> type \<noteq> 7 \<Longrightarrow> conversion d n s target type v = conversion d' n' s' target type v"
  by (auto simp: conversion_def)

lemma outcome_cong:
  assumes "\<And>x. x \<in> job_reads j \<Longrightarrow> m' x = m x"
  shows "outcome m' j = outcome m j"
proof -
  obtain target type v where j: "j = (target, type, v)" by (cases j)
  show ?thesis
  proof (cases "type = 6 \<or> type = 7")
    case True
    have "arnm_load_ptr m' target = arnm_load_ptr m target" "load_le 4 m' (target + 8) = load_le 4 m (target + 8)"
      using assms True by (auto intro!: load_cong load_le_cong simp: j job_reads_def)
    moreover have "rd m' (get_str v) (get_len v) = rd m (get_str v) (get_len v)"
      using assms by (intro rd_cong) (auto simp: j job_reads_def)
    ultimately show ?thesis by (simp add: outcome_def j conversion_in_def)
  next
    case False
    then show ?thesis unfolding outcome_def j conversion_in_def by (simp add: conversion_other)
  qed
qed

lemma value_ok_cong:
  assumes "\<And>x. x \<in> region (get_str v) (get_len v + 1) \<Longrightarrow> m' x = m x"
  shows "value_ok m' v = value_ok m v"
  using assms by (auto simp: value_ok_def get_str_def get_len_def split: payload.splits)

lemma job_cong:
  assumes "\<And>x. x \<in> job_reads j \<Longrightarrow> m' x = m x"
  shows "job_writes m' j = job_writes m j" "converts m' j = converts m j" "job_ok hex m' j = job_ok hex m j"
proof -
  note o = outcome_cong [OF assms]
  show w: "job_writes m' j = job_writes m j" "converts m' j = converts m j" by (simp_all add: job_writes_def converts_def o)
  have "value_ok m' (snd (snd j)) = value_ok m (snd (snd j))"
    using assms by (intro value_ok_cong) (cases j, auto simp: job_reads_def)
  then show "job_ok hex m' j = job_ok hex m j" by (simp add: job_ok_def w)
qed

lemma job_run:
  assumes "job_ok hex m (target, type, v)" "hex \<noteq> 0" "outcome m (target, type, v) = (r, place, bs)"
  shows "\<exists>m'. read_field hex m target type (Some v) = Some (r, m') \<and> rd m' place (length bs) = bs \<and>
    (\<forall>x. x \<notin> job_writes m (target, type, v) \<and> x \<notin> region hex 33 \<longrightarrow> m' x = m x)"
proof -
  have c: "conversion_in m target type v = (r, place, bs)" using assms(3) by (simp add: outcome_def)
  have w: "job_writes m (target, type, v) = region place (length bs)" using assms(3) by (simp add: job_writes_def)
  have "conversion_apart m hex target type v"
    using assms(1) unfolding job_ok_def w by (auto simp: conversion_apart_def c job_reads_def)
  then show ?thesis using read_field_conversion [OF _ assms(2) _ c] assms(1) unfolding w by (auto simp: job_ok_def)
qed

definition jobs_ok :: "addr \<Rightarrow> addr set \<Rightarrow> mem \<Rightarrow> job list \<Rightarrow> bool" where
  "jobs_ok hex held m jobs \<longleftrightarrow> hex \<noteq> 0 \<and> (\<forall>j\<in>set jobs. job_ok hex m j \<and> job_writes m j \<inter> held = {}) \<and>
    sorted_wrt (jobs_apart m) jobs \<and> region hex 33 \<inter> held = {}"

text \<open>After one job the others stand as they stood, and so do the bytes that are to be held.\<close>

lemma jobs_step:
  assumes "jobs_ok hex held m (j # jobs)" "\<forall>x. x \<notin> job_writes m j \<and> x \<notin> region hex 33 \<longrightarrow> m1 x = m x"
  shows "jobs_ok hex held m1 jobs" "\<And>x. x \<in> held \<Longrightarrow> m1 x = m x"
    "\<And>i. i \<in> set jobs \<Longrightarrow> outcome m1 i = outcome m i" "\<And>i. i \<in> set jobs \<Longrightarrow> job_writes m1 i = job_writes m i"
    "jobs_done m1 jobs = jobs_done m jobs" "jobs_result m1 jobs = jobs_result m jobs"
proof -
  have same: "m1 x = m x" if "i \<in> set jobs" "x \<in> job_reads i" for i x
  proof -
    have "jobs_apart m j i" "job_ok hex m i" using assms(1) that(1) by (auto simp: jobs_ok_def)
    then have "x \<notin> job_writes m j" "x \<notin> region hex 33" using that(2) by (auto simp: jobs_apart_def job_ok_def)
    then show ?thesis using assms(2) by blast
  qed
  have oc: "outcome m1 i = outcome m i" "job_writes m1 i = job_writes m i" "converts m1 i = converts m i"
    "job_ok hex m1 i = job_ok hex m i" if "i \<in> set jobs" for i
    using outcome_cong [of i m1 m] job_cong [of i m1 m] same [OF that] by blast+
  show "\<And>i. i \<in> set jobs \<Longrightarrow> outcome m1 i = outcome m i" "\<And>i. i \<in> set jobs \<Longrightarrow> job_writes m1 i = job_writes m i"
    by (rule oc; assumption)+
  show "m1 x = m x" if "x \<in> held" for x
  proof -
    have "x \<notin> job_writes m j" "x \<notin> region hex 33" using assms(1) that unfolding jobs_ok_def by auto
    then show ?thesis using assms(2) by blast
  qed
  have "sorted_wrt (jobs_apart m) jobs" using assms(1) by (simp add: jobs_ok_def)
  then have "sorted_wrt (jobs_apart m1) jobs" by (rule sorted_wrt_mono_rel [rotated]) (simp add: jobs_apart_def oc(2))
  moreover have "\<forall>i\<in>set jobs. job_ok hex m1 i \<and> job_writes m1 i \<inter> held = {}" using assms(1) oc(2,4) by (auto simp: jobs_ok_def)
  ultimately show "jobs_ok hex held m1 jobs" using assms(1) by (simp add: jobs_ok_def)
  show "jobs_done m1 jobs = jobs_done m jobs" unfolding jobs_done_def by (rule takeWhile_cong) (use oc(3) in auto)
  have e: "dropWhile (converts m1) jobs = dropWhile (converts m) jobs" by (rule dropWhile_cong) (use oc(3) in auto)
  show "jobs_result m1 jobs = jobs_result m jobs"
  proof (cases "dropWhile (converts m) jobs")
    case (Cons i rest)
    then have "i \<in> set jobs" by (metis list.set_intros(1) set_dropWhileD)
    then show ?thesis using oc(1) [of i] unfolding jobs_result_def e Cons by simp
  next
    case Nil
    show ?thesis unfolding jobs_result_def e Nil by simp
  qed
qed

lemma jobs_head:
  assumes "jobs_ok hex held m (j # jobs)" "j = (target, type, v)" "outcome m j = (r, place, bs)"
  obtains m1 where "read_field hex m target type (Some v) = Some (r, m1)" "rd m1 place (length bs) = bs"
    "\<forall>x. x \<notin> job_writes m j \<and> x \<notin> region hex 33 \<longrightarrow> m1 x = m x" "region hex 33 \<inter> job_writes m j = {}"
proof -
  have ok: "job_ok hex m (target, type, v)" "hex \<noteq> 0" using assms(1,2) by (simp_all add: jobs_ok_def)
  have "region hex 33 \<inter> job_writes m j = {}" using ok(1) assms(2) by (auto simp: job_ok_def)
  then show thesis using job_run [OF ok assms(3) [unfolded assms(2)]] that assms(2) by blast
qed

lemma run_jobs_done:
  assumes "jobs_ok hex held m jobs"
  shows "\<exists>m'. run_jobs hex m jobs = Some (jobs_result m jobs, length (jobs_done m jobs), m') \<and> jobs_leave hex m jobs m'"
  using assms
proof (induction jobs arbitrary: m)
  case Nil
  then show ?case by (simp add: jobs_result_def jobs_done_def jobs_leave_def)
next
  case (Cons j jobs)
  obtain target type v where j: "j = (target, type, v)" by (cases j)
  obtain r place bs where o: "outcome m j = (r, place, bs)" by (cases "outcome m j")
  have w: "job_writes m j = region place (length bs)" by (simp add: job_writes_def o)
  from Cons.prems j o obtain m1 where m1: "read_field hex m target type (Some v) = Some (r, m1)" "rd m1 place (length bs) = bs"
    "\<forall>x. x \<notin> job_writes m j \<and> x \<notin> region hex 33 \<longrightarrow> m1 x = m x" "region hex 33 \<inter> job_writes m j = {}" by (rule jobs_head)
  show ?case
  proof (cases "r = ARNM_SUCCESS")
    case False
    have nc: "\<not> converts m j" using False by (simp add: converts_def o)
    have "run_jobs hex m (j # jobs) = Some (r, 0, m1)" using m1(1) False by (simp add: j)
    moreover have "jobs_result m (j # jobs) = r" "jobs_done m (j # jobs) = []" using nc by (simp_all add: jobs_result_def jobs_done_def o)
    moreover have "jobs_leave hex m (j # jobs) m1" using m1(3) nc by (simp add: jobs_leave_def jobs_done_def)
    ultimately show ?thesis by auto
  next
    case True
    have c: "converts m j" using True by (simp add: converts_def o)
    note st = jobs_step [OF Cons.prems m1(3)]
    obtain m2 where m2: "run_jobs hex m1 jobs = Some (jobs_result m1 jobs, length (jobs_done m1 jobs), m2)" "jobs_leave hex m1 jobs m2"
      using Cons.IH [OF st(1)] by blast
    have res: "jobs_result m (j # jobs) = jobs_result m jobs" using c by (simp add: jobs_result_def)
    have dn: "jobs_done m (j # jobs) = j # jobs_done m jobs" using c by (simp add: jobs_done_def)
    have sub: "set (jobs_done m jobs) \<subseteq> set jobs" by (auto simp: jobs_done_def dest: set_takeWhileD)
    have run: "run_jobs hex m (j # jobs) = Some (jobs_result m (j # jobs), length (jobs_done m (j # jobs)), m2)"
      using m1(1) m2(1) True res by (simp add: j st(5,6) dn [unfolded j])
    have later: "x \<notin> job_writes m1 i" if "i \<in> set (take (length (jobs_done m1 jobs) + 1) jobs)"
      "\<forall>i\<in>set (take (length (jobs_done m jobs) + 1) jobs). x \<notin> job_writes m i" for i x
    proof -
      have "x \<notin> job_writes m i" using that by (simp add: st(5))
      moreover have "i \<in> set jobs" using that(1) by (rule in_set_takeD)
      ultimately show ?thesis using st(4) by simp
    qed
    have "jobs_leave hex m (j # jobs) m2"
      unfolding jobs_leave_def dn
    proof (intro conjI ballI allI impI)
      fix i assume i: "i \<in> set (j # jobs_done m jobs)"
      show "case outcome m i of (r, place, bs) \<Rightarrow> rd m2 place (length bs) = bs"
      proof (cases "i \<in> set (jobs_done m jobs)")
        case True
        then have "i \<in> set jobs" using sub by blast
        then show ?thesis using m2(2) True st(3) [of i] unfolding jobs_leave_def st(5) by auto
      next
        case False
        then have i: "i = j" using i by simp
        have "rd m2 place (length bs) = rd m1 place (length bs)"
        proof (rule rd_cong)
          fix x assume x: "place \<le> x" "x < place + length bs"
          then have xj: "x \<in> job_writes m j" by (simp add: w)
          have "x \<notin> job_writes m k" if "k \<in> set (take (length (jobs_done m jobs) + 1) jobs)" for k
          proof -
            have "jobs_apart m j k" using Cons.prems in_set_takeD [OF that] by (simp add: jobs_ok_def)
            then show ?thesis using xj by (auto simp: jobs_apart_def)
          qed
          then show "m2 x = m1 x" using m2(2) later m1(4) xj unfolding jobs_leave_def by blast
        qed
        then show ?thesis using m1(2) by (simp add: i o)
      qed
    next
      fix x assume x: "x \<notin> region hex 33 \<and> (\<forall>i\<in>set (take (length (j # jobs_done m jobs) + 1) (j # jobs)). x \<notin> job_writes m i)"
      then have "m1 x = m x" using m1(3) by simp
      moreover have "\<forall>i\<in>set (take (length (jobs_done m jobs) + 1) jobs). x \<notin> job_writes m i" using x by simp
      then have "m2 x = m1 x" using m2(2) x later unfolding jobs_leave_def by blast
      ultimately show "m2 x = m x" by simp
    qed
    then show ?thesis using run by blast
  qed
qed

section \<open>The walk over an array\<close>

definition array_jobs :: "addr \<Rightarrow> nat \<Rightarrow> yyjson_val list \<Rightarrow> job list" where
  "array_jobs out_values type elements =
    map (\<lambda>(k, v). (out_values + k * json_element_size type, type, v))
      (enumerate 0 (filter (\<lambda>v. type = ARNM_JSON_FIELD_TYPE_VALUE \<or> \<not> is_null v) elements))"

lemma enumerate_slots:
  "map (\<lambda>(k, v). (out + k * e, type, v)) (enumerate (Suc n) vs) = map (\<lambda>(k, v). (out + e + k * e, type, v)) (enumerate n vs)"
  for out e :: nat
  by (induction vs arbitrary: n) (simp_all add: add_ac)

lemma fill_is_jobs:
  assumes "count + length elements \<le> UINT32_MAX"
  shows "fill_elements hex type (json_element_size type) (type \<noteq> ARNM_JSON_FIELD_TYPE_VALUE) slot count m elements =
    map_option (\<lambda>(r, n, m). (r, count + n, m)) (run_jobs hex m (array_jobs slot type elements))"
  using assms
proof (induction elements arbitrary: slot count m)
  case (Cons v elements)
  show ?case
  proof (cases "type \<noteq> ARNM_JSON_FIELD_TYPE_VALUE \<and> is_null v")
    case True
    then have "array_jobs slot type (v # elements) = array_jobs slot type elements" by (simp add: array_jobs_def)
    then show ?thesis using Cons True by simp
  next
    case False
    then have j: "array_jobs slot type (v # elements) = (slot, type, v) # array_jobs (slot + json_element_size type) type elements"
      by (auto simp: array_jobs_def enumerate_slots)
    show ?thesis
    proof (cases "read_field hex m slot type (Some v)")
      case (Some q)
      obtain r m1 where q: "q = (r, m1)" by fastforce
      have IH: "fill_elements hex type (json_element_size type) (type \<noteq> ARNM_JSON_FIELD_TYPE_VALUE) (slot + json_element_size type) (u32 (count + 1)) m1 elements =
          map_option (\<lambda>(r, n, m). (r, count + 1 + n, m)) (run_jobs hex m1 (array_jobs (slot + json_element_size type) type elements))"
        using Cons.IH [of "count + 1"] Cons.prems by simp
      have step: "fill_elements hex type (json_element_size type) (type \<noteq> ARNM_JSON_FIELD_TYPE_VALUE) slot count m (v # elements) =
          (if r \<noteq> ARNM_SUCCESS then Some (r, count, m1)
           else fill_elements hex type (json_element_size type) (type \<noteq> ARNM_JSON_FIELD_TYPE_VALUE) (slot + json_element_size type) (u32 (count + 1)) m1 elements)"
        using Some q by (subst fill_elements.simps, subst if_not_P [OF False]) simp
      show ?thesis unfolding step IH j using Some q
        by (cases "run_jobs hex m1 (array_jobs (slot + json_element_size type) type elements)") (auto split: prod.splits)
    qed (use False j in auto)
  qed
qed (simp add: array_jobs_def)

section \<open>The walk over an object\<close>

definition name_of :: "mem \<Rightarrow> yyjson_val \<Rightarrow> byte list" where
  "name_of m key = rd m (get_str key) (get_len key)"

definition key_of :: "mem \<Rightarrow> json_field \<Rightarrow> byte list" where
  "key_of m f = rd m (jf_key f) (jf_key_length f)"

text \<open>Of every name the first member, and the entry of the table with a name.\<close>

fun first_members :: "mem \<Rightarrow> byte list set \<Rightarrow> (yyjson_val \<times> yyjson_val) list \<Rightarrow> (yyjson_val \<times> yyjson_val) list" where
  "first_members m seen [] = []"
| "first_members m seen ((key, v) # rest) =
    (if name_of m key \<in> seen then first_members m seen rest
     else (key, v) # first_members m (insert (name_of m key) seen) rest)"

definition entry_of :: "mem \<Rightarrow> json_field list \<Rightarrow> byte list \<Rightarrow> nat option" where
  "entry_of m flds name = find (\<lambda>i. key_of m (flds ! i) = name) [0..<length flds]"

text \<open>
  What the walk is to read: the first member of every name the table has, unless it is null and its entry
  does not ask for a handle; each with the number of its entry.
\<close>

definition wanted :: "mem \<Rightarrow> json_field list \<Rightarrow> yyjson_val \<times> yyjson_val \<Rightarrow> (nat \<times> yyjson_val) option" where
  "wanted m flds kv =
    (case kv of (key, v) \<Rightarrow>
       (case entry_of m flds (name_of m key) of
          None \<Rightarrow> None
        | Some i \<Rightarrow> if is_null v \<and> jf_type (flds ! i) \<noteq> ARNM_JSON_FIELD_TYPE_VALUE then None else Some (i, v)))"

definition object_reads :: "mem \<Rightarrow> json_field list \<Rightarrow> byte list set \<Rightarrow> (yyjson_val \<times> yyjson_val) list \<Rightarrow> (nat \<times> yyjson_val) list" where
  "object_reads m flds seen members = List.map_filter (wanted m flds) (first_members m seen members)"

definition job_of :: "json_field list \<Rightarrow> nat \<times> yyjson_val \<Rightarrow> job" where
  "job_of flds p = (case p of (i, v) \<Rightarrow> (jf_target (flds ! i), jf_type (flds ! i), v))"

definition names :: "json_field list \<Rightarrow> (yyjson_val \<times> yyjson_val) list \<Rightarrow> addr set" where
  "names flds members =
    (\<Union>f\<in>set flds. region (jf_key f) (jf_key_length f)) \<union> (\<Union>(key, v)\<in>set members. region (get_str key) (get_len key))"

lemma bit_one_at: "bit (push_bit i 1 :: 64 word) j \<longleftrightarrow> j = i \<and> i < 64"
  by (auto simp: bit_exp_iff)

lemma bit_mask: "visited AND push_bit i 1 = push_bit i 1 \<longleftrightarrow> bit visited i" if "i < 64" for visited :: "64 word"
proof
  assume "visited AND push_bit i 1 = push_bit i 1"
  then have "bit (visited AND push_bit i 1) i = bit (push_bit i 1 :: 64 word) i" by simp
  then show "bit visited i" using that unfolding bit_and_iff bit_one_at by simp
next
  assume "bit visited i"
  then show "visited AND push_bit i 1 = push_bit i 1"
    by (intro bit_word_eqI) (auto simp only: bit_and_iff bit_one_at)
qed

lemma match_field_find:
  assumes "count \<le> 64"
  shows "match_field m flds count visited ks kz i =
    find (\<lambda>i. \<not> bit visited i \<and> key_of m (flds ! i) = rd m ks kz) [i..<count]"
proof (induction "count - i" arbitrary: i)
  case 0
  then show ?case by (subst match_field.simps) simp
next
  case (Suc n)
  then have i: "i < count" "[i..<count] = i # [i + 1..<count]" by (simp_all add: upt_rec)
  have "kz = jf_key_length (flds ! i) \<and> rd m ks kz = rd m (jf_key (flds ! i)) kz \<longleftrightarrow> key_of m (flds ! i) = rd m ks kz"
    by (metis key_of_def length_rd)
  moreover have "match_field m flds count visited ks kz (i + 1) =
      find (\<lambda>i. \<not> bit visited i \<and> key_of m (flds ! i) = rd m ks kz) [i + 1..<count]"
    using Suc by (intro Suc.hyps(1)) simp
  ultimately show ?case using i bit_mask [of i visited] assms by (subst match_field.simps) simp
qed

definition valid :: "nat \<Rightarrow> 64 word" where
  "valid count = (if count = 64 then - 1 else push_bit count 1 - 1)"

lemma bit_valid: "count \<le> 64 \<Longrightarrow> bit (valid count) i \<longleftrightarrow> i < count"
proof -
  assume c: "count \<le> 64"
  have "push_bit count 1 - 1 = (mask count :: 64 word)" by (simp add: mask_eq_exp_minus_1 push_bit_eq_mult)
  then show ?thesis using c by (auto simp: valid_def bit_mask_iff)
qed

lemma bit_remaining:
  assumes "count \<le> 64"
  shows "bit (NOT visited AND valid count) i \<longleftrightarrow> i < count \<and> \<not> bit visited i"
  using assms by (auto simp: bit_and_iff bit_not_iff bit_valid)

text \<open>The search starts at the lowest entry that is open, and misses none by it.\<close>

lemma match_from_lowest:
  assumes "count \<le> 64"
  shows "match_field m flds count visited ks kz (arnm_ctzll (NOT visited AND valid count)) =
    find (\<lambda>i. \<not> bit visited i \<and> key_of m (flds ! i) = rd m ks kz) [0..<count]"
proof -
  define r where "r = NOT visited AND valid count"
  define z where "z = arnm_ctzll r"
  have below: "\<not> bit r i" if "i < z" for i
  proof -
    have l: "length (takeWhile (\<lambda>i. \<not> bit r i) [0..<64]) = z" by (simp add: z_def arnm_ctzll_def)
    then have "i < 64" using that length_takeWhile_le [of "\<lambda>i. \<not> bit r i" "[0..<64]"] by simp
    then have "takeWhile (\<lambda>i. \<not> bit r i) [0..<64] ! i = i" using that l by (simp add: takeWhile_nth)
    moreover have "takeWhile (\<lambda>i. \<not> bit r i) [0..<64] ! i \<in> set (takeWhile (\<lambda>i. \<not> bit r i) [0..<64])" using that l by simp
    ultimately show ?thesis by (metis set_takeWhileD)
  qed
  let ?P = "\<lambda>i. \<not> bit visited i \<and> key_of m (flds ! i) = rd m ks kz"
  have none: "\<not> ?P i" if "i < z" "i < count" for i
    using below [OF that(1)] that(2) bit_remaining [OF assms, of visited i] by (simp add: r_def)
  have "find ?P [0..<count] = find ?P [z..<count]"
  proof (cases "z \<le> count")
    case True
    have app: "find ?P (xs @ ys) = find ?P ys" if "\<forall>x\<in>set xs. \<not> ?P x" for xs ys using that by (induction xs) auto
    have "[0..<count] = [0..<z] @ [z..<count]" using True upt_add_eq_append [of 0 z "count - z"] by simp
    then show ?thesis using none True by (simp only:) (rule app, simp)
  next
    case False
    have "find ?P [0..<count] = None" using none False by (auto simp: find_None_iff)
    then show ?thesis using False by simp
  qed
  then show ?thesis unfolding match_field_find [OF assms] z_def r_def by simp
qed

text \<open>Where no two entries have one name, an open entry is found exactly when it is the one of the name.\<close>

definition keys_distinct :: "mem \<Rightarrow> json_field list \<Rightarrow> bool" where
  "keys_distinct m flds \<longleftrightarrow> distinct (map (key_of m) flds)"

lemma entry_of_iff:
  assumes "keys_distinct m flds"
  shows "entry_of m flds nm = Some i \<longleftrightarrow> i < length flds \<and> key_of m (flds ! i) = nm"
proof
  assume "entry_of m flds nm = Some i"
  then show "i < length flds \<and> key_of m (flds ! i) = nm" by (auto simp: entry_of_def find_Some_iff)
next
  assume i: "i < length flds \<and> key_of m (flds ! i) = nm"
  show "entry_of m flds nm = Some i"
  proof (cases "entry_of m flds nm")
    case None
    then show ?thesis using i by (auto simp: entry_of_def find_None_iff)
  next
    case (Some j)
    then have "j < length flds" "key_of m (flds ! j) = nm" by (auto simp: entry_of_def find_Some_iff)
    then have "i = j" using i assms nth_eq_iff_index_eq [of "map (key_of m) flds" i j] by (simp add: keys_distinct_def)
    then show ?thesis using Some by simp
  qed
qed

lemma find_open:
  assumes "keys_distinct m flds"
  shows "find (\<lambda>i. \<not> bit visited i \<and> key_of m (flds ! i) = nm) [0..<length flds] =
    (case entry_of m flds nm of None \<Rightarrow> None | Some i \<Rightarrow> if bit visited i then None else Some i)"
proof (cases "entry_of m flds nm")
  case None
  then have "\<forall>i<length flds. key_of m (flds ! i) \<noteq> nm" using entry_of_iff [OF assms, of nm] by auto
  then show ?thesis using None by (auto simp: find_None_iff)
next
  case (Some i)
  have only: "j = i" if "j < length flds" "key_of m (flds ! j) = nm" for j
    using iffD2 [OF entry_of_iff [OF assms, of nm j]] Some that by simp
  have i: "i < length flds" "key_of m (flds ! i) = nm" using entry_of_iff [OF assms, of nm i] Some by auto
  show ?thesis
  proof (cases "bit visited i")
    case True
    then show ?thesis using Some only by (auto simp: find_None_iff)
  next
    case False
    have "find (\<lambda>i. \<not> bit visited i \<and> key_of m (flds ! i) = nm) [0..<length flds] = Some i"
      unfolding find_Some_iff
    proof (intro exI [of _ i] conjI allI impI)
      fix j assume j: "j < i"
      then have "j < length flds" "j \<noteq> i" using i by simp_all
      then show "\<not> (\<not> bit visited ([0..<length flds] ! j) \<and> key_of m (flds ! ([0..<length flds] ! j)) = nm)" using only by auto
    qed (use i False in simp_all)
    then show ?thesis using Some False by simp
  qed
qed

text \<open>The mask of a list of entries.\<close>

definition entries_mask :: "nat list \<Rightarrow> 64 word" where
  "entries_mask is = foldr (\<lambda>i b. push_bit i 1 OR b) is 0"

lemma entries_mask_simps [simp]:
  "entries_mask [] = 0" "entries_mask (i # is) = push_bit i 1 OR entries_mask is"
  by (simp_all add: entries_mask_def)

lemma bit_entries_mask: "\<forall>i\<in>set is. i < 64 \<Longrightarrow> bit (entries_mask is) k \<longleftrightarrow> k \<in> set is"
proof (induction "is")
  case (Cons i "is")
  have "bit (entries_mask (i # is)) k \<longleftrightarrow> bit (push_bit i 1 :: 64 word) k \<or> bit (entries_mask is) k"
    by (simp only: entries_mask_simps bit_or_iff)
  then show ?case using Cons unfolding bit_one_at by auto
qed simp

lemma map_filter_Cons: "List.map_filter f (x # xs) = (case f x of None \<Rightarrow> List.map_filter f xs | Some y \<Rightarrow> y # List.map_filter f xs)"
  by (simp add: List.map_filter_def split: option.splits)

lemma object_reads_simps [simp]:
  "object_reads m flds seen [] = []"
  "object_reads m flds seen ((key, v) # rest) =
    (if name_of m key \<in> seen then object_reads m flds seen rest
     else case wanted m flds (key, v) of
       None \<Rightarrow> object_reads m flds (insert (name_of m key) seen) rest
     | Some p \<Rightarrow> p # object_reads m flds (insert (name_of m key) seen) rest)"
  by (simp_all add: object_reads_def map_filter_Cons List.map_filter_simps(2) split: option.splits)

lemma nothing_wanted:
  assumes "\<forall>i<length flds. key_of m (flds ! i) \<in> seen"
  shows "object_reads m flds seen members = []"
  using assms
proof (induction members arbitrary: seen)
  case (Cons kv members)
  obtain key v where kv: "kv = (key, v)" by fastforce
  have "wanted m flds (key, v) = None" if "name_of m key \<notin> seen"
  proof -
    have "entry_of m flds (name_of m key) = None" using Cons.prems that by (auto simp: entry_of_def find_None_iff)
    then show ?thesis by (simp add: wanted_def)
  qed
  then show ?case using Cons by (auto simp: kv)
qed simp

lemma names_hold:
  assumes "\<And>x. x \<in> names flds members \<Longrightarrow> m1 x = m x"
  shows "\<And>i. i < length flds \<Longrightarrow> key_of m1 (flds ! i) = key_of m (flds ! i)" "keys_distinct m1 flds = keys_distinct m flds"
    "object_reads m1 flds seen members = object_reads m flds seen members"
proof -
  have k: "key_of m1 f = key_of m f" if "f \<in> set flds" for f
    unfolding key_of_def by (intro rd_cong assms) (use that in \<open>auto simp: names_def\<close>)
  then show k': "\<And>i. i < length flds \<Longrightarrow> key_of m1 (flds ! i) = key_of m (flds ! i)" by simp
  have "map (key_of m1) flds = map (key_of m) flds" using k by (simp cong: map_cong)
  then show "keys_distinct m1 flds = keys_distinct m flds" by (simp only: keys_distinct_def)
  have e: "entry_of m1 flds nm = entry_of m flds nm" for nm
    unfolding entry_of_def by (rule find_cong) (use k' in auto)
  have n: "name_of m1 key = name_of m key" if "(key, v) \<in> set members" for key v
    unfolding name_of_def by (intro rd_cong assms) (use that in \<open>force simp: names_def\<close>)
  then show "object_reads m1 flds seen members = object_reads m flds seen members"
  proof (induction members arbitrary: seen)
    case (Cons kv members)
    obtain key v where kv: "kv = (key, v)" by fastforce
    have "name_of m1 key = name_of m key" using Cons.prems [of key v] by (simp add: kv)
    then have "wanted m1 flds (key, v) = wanted m flds (key, v)" "name_of m1 key = name_of m key" by (simp_all add: wanted_def e)
    moreover have "object_reads m1 flds seen members = object_reads m flds seen members" for seen
      by (rule Cons.IH) (use Cons.prems in auto)
    ultimately show ?case by (auto simp: kv split: option.splits)
  qed simp
qed

lemma or_mask: "bit ((visited :: 64 word) OR push_bit i 1) k \<longleftrightarrow> bit visited k \<or> k = i \<and> i < 64"
  by (simp only: bit_or_iff bit_one_at)

lemma walk_is_jobs:
  assumes "keys_distinct m flds" "length flds \<le> 64" "\<forall>i<length flds. bit visited i \<longleftrightarrow> key_of m (flds ! i) \<in> seen"
    and "\<forall>(key, v)\<in>set members. get_len key \<le> UINT32_MAX" "names flds members \<subseteq> held"
    and "jobs_ok hex held m (map (job_of flds) (object_reads m flds seen members))"
  shows "walk_members hex flds (length flds) (valid (length flds)) visited found m members =
    map_option (\<lambda>(r, n, m'). (r, found OR entries_mask (map fst (take n (object_reads m flds seen members))), m'))
      (run_jobs hex m (map (job_of flds) (object_reads m flds seen members)))"
  using assms
proof (induction members arbitrary: visited seen found m)
  case (Cons kv members)
  obtain key v where kv: "kv = (key, v)" by fastforce
  note dist = Cons.prems(1) and len = Cons.prems(2) and vis = Cons.prems(3)
  define nm where "nm = name_of m key"
  define remaining where "remaining = NOT visited AND valid (length flds)"
  have rest: "\<forall>(key, v)\<in>set members. get_len key \<le> UINT32_MAX" "names flds members \<subseteq> held"
    using Cons.prems(4,5) by (auto simp: names_def kv)
  show ?case
  proof (cases "remaining = 0")
    case True
    have "bit visited i" if "i < length flds" for i
      using bit_remaining [OF len, of visited i] True that by (simp add: remaining_def)
    then have "object_reads m flds seen (kv # members) = []" using vis by (intro nothing_wanted) auto
    then show ?thesis using True by (simp add: kv remaining_def)
  next
    case False
    have kl: "get_len key \<le> UINT32_MAX" using Cons.prems(4) by (simp add: kv)
    define found_at where "found_at = match_field m flds (length flds) visited (get_str key) (u32 (get_len key)) (arnm_ctzll remaining)"
    have fa: "found_at = (case entry_of m flds nm of None \<Rightarrow> None | Some i \<Rightarrow> if bit visited i then None else Some i)"
      unfolding found_at_def remaining_def match_from_lowest [OF len] using kl find_open [OF dist, of visited nm] by (simp add: nm_def name_of_def)
    have unf: "walk_members hex flds (length flds) (valid (length flds)) visited found m (kv # members) =
        (if remaining = 0 then Some (ARNM_SUCCESS, found, m)
         else case found_at of
           None \<Rightarrow> walk_members hex flds (length flds) (valid (length flds)) visited found m members
         | Some i \<Rightarrow>
             if is_null v \<and> jf_type (flds ! i) \<noteq> ARNM_JSON_FIELD_TYPE_VALUE
             then walk_members hex flds (length flds) (valid (length flds)) (visited OR push_bit i 1) found m members
             else Option.bind (read_field hex m (jf_target (flds ! i)) (jf_type (flds ! i)) (Some v)) (\<lambda>(result, m).
               if result \<noteq> ARNM_SUCCESS then Some (result, found, m)
               else walk_members hex flds (length flds) (valid (length flds)) (visited OR push_bit i 1) (found OR push_bit i 1) m members))"
      unfolding kv walk_members.simps Let_def remaining_def found_at_def ..
    have skip: "walk_members hex flds (length flds) (valid (length flds)) visited found m (kv # members) =
        walk_members hex flds (length flds) (valid (length flds)) visited found m members" if "found_at = None"
      using that unfolding unf if_not_P [OF False] by simp
    show ?thesis
    proof (cases "nm \<in> seen")
      case True
      have r: "object_reads m flds seen (kv # members) = object_reads m flds seen members" using True by (simp add: kv nm_def)
      have na: "found_at = None"
      proof (cases "entry_of m flds nm")
        case (Some i)
        then have "i < length flds" "key_of m (flds ! i) = nm" using entry_of_iff [OF dist, of nm i] by simp_all
        then have "bit visited i" using vis True by simp
        then show ?thesis using Some by (simp add: fa)
      qed (simp add: fa)
      show ?thesis unfolding skip [OF na] r
        using Cons.IH [OF dist len vis rest] Cons.prems(6) unfolding r by blast
    next
      case new: False
      show ?thesis
      proof (cases "entry_of m flds nm")
        case None
        have r: "object_reads m flds seen (kv # members) = object_reads m flds (insert nm seen) members"
          using new None by (simp add: kv nm_def wanted_def)
        have "\<forall>i<length flds. bit visited i \<longleftrightarrow> key_of m (flds ! i) \<in> insert nm seen"
          using vis None iffD2 [OF entry_of_iff [OF dist, of nm]] by fastforce
        moreover have na: "found_at = None" using None by (simp add: fa)
        ultimately show ?thesis unfolding skip [OF na] r
          using Cons.IH [OF dist len _ rest] Cons.prems(6) unfolding r by blast
      next
        case (Some i)
        have i: "i < length flds" "key_of m (flds ! i) = nm" using Some entry_of_iff [OF dist, of nm i] by auto
        then have at: "found_at = Some i" using Some vis new by (simp add: fa)
        define b :: "64 word" where "b = push_bit i 1"
        have vis': "\<forall>k<length flds. bit (visited OR b) k \<longleftrightarrow> key_of m (flds ! k) \<in> insert nm seen"
        proof (intro allI impI)
          fix k assume k: "k < length flds"
          have "key_of m (flds ! k) = nm \<longleftrightarrow> k = i" using k entry_of_iff [OF dist, of nm k] Some by auto
          then show "bit (visited OR b) k \<longleftrightarrow> key_of m (flds ! k) \<in> insert nm seen"
            using vis k i(1) len unfolding b_def or_mask by auto
        qed
        show ?thesis
        proof (cases "is_null v \<and> jf_type (flds ! i) \<noteq> ARNM_JSON_FIELD_TYPE_VALUE")
          case True
          have r: "object_reads m flds seen (kv # members) = object_reads m flds (insert nm seen) members"
            using new Some True by (simp add: kv nm_def wanted_def)
          have "walk_members hex flds (length flds) (valid (length flds)) visited found m (kv # members) =
              walk_members hex flds (length flds) (valid (length flds)) (visited OR b) found m members"
            unfolding unf if_not_P [OF False] at b_def using True by simp
          then show ?thesis unfolding r
            using Cons.IH [OF dist len vis' rest] Cons.prems(6) unfolding r by simp
        next
          case want: False
          define picks where "picks = object_reads m flds (insert nm seen) members"
          have r: "object_reads m flds seen (kv # members) = (i, v) # picks"
            using new Some want by (auto simp: kv nm_def wanted_def picks_def)
          have ok: "jobs_ok hex held m (job_of flds (i, v) # map (job_of flds) picks)" using Cons.prems(6) unfolding r by simp
          obtain res place bs where o: "outcome m (job_of flds (i, v)) = (res, place, bs)" by (cases "outcome m (job_of flds (i, v))")
          have jb: "job_of flds (i, v) = (jf_target (flds ! i), jf_type (flds ! i), v)" by (simp add: job_of_def)
          from ok jb o obtain m1 where m1: "read_field hex m (jf_target (flds ! i)) (jf_type (flds ! i)) (Some v) = Some (res, m1)"
            "\<forall>x. x \<notin> job_writes m (job_of flds (i, v)) \<and> x \<notin> region hex 33 \<longrightarrow> m1 x = m x" by (rule jobs_head)
          have step: "walk_members hex flds (length flds) (valid (length flds)) visited found m (kv # members) =
              (if res \<noteq> ARNM_SUCCESS then Some (res, found, m1)
               else walk_members hex flds (length flds) (valid (length flds)) (visited OR b) (found OR b) m1 members)"
            unfolding unf if_not_P [OF False] at b_def option.case if_not_P [OF want] m1(1) by simp
          show ?thesis
          proof (cases "res = ARNM_SUCCESS")
            case False
            then show ?thesis unfolding step r using m1(1) by (simp add: jb)
          next
            case True
            note st = jobs_step [OF ok m1(2)]
            have same: "m1 x = m x" if "x \<in> names flds members" for x using st(2) rest(2) that by blast
            have nh: "\<And>k. k < length flds \<Longrightarrow> key_of m1 (flds ! k) = key_of m (flds ! k)" "keys_distinct m1 flds"
              "object_reads m1 flds (insert nm seen) members = picks"
              using names_hold [of flds members m1 m] same dist by (simp_all add: picks_def)
            have "\<forall>k<length flds. bit (visited OR b) k \<longleftrightarrow> key_of m1 (flds ! k) \<in> insert nm seen" using vis' nh(1) by simp
            from Cons.IH [OF nh(2) len this rest, of "found OR b"]
            have "walk_members hex flds (length flds) (valid (length flds)) (visited OR b) (found OR b) m1 members =
                map_option (\<lambda>(r, n, m'). (r, (found OR b) OR entries_mask (map fst (take n picks)), m')) (run_jobs hex m1 (map (job_of flds) picks))"
              using st(1) unfolding nh(3) by blast
            then show ?thesis unfolding step r using m1(1) True
              by (cases "run_jobs hex m1 (map (job_of flds) picks)") (auto simp: jb b_def or.assoc split: prod.splits)
          qed
        qed
      qed
    qed
  qed
qed simp

section \<open>What the walks promise\<close>

lemma object_reads_bounded: "(i, v) \<in> set (object_reads m flds seen members) \<Longrightarrow> i < length flds"
proof (induction members arbitrary: seen)
  case (Cons kv members)
  obtain key w where kv: "kv = (key, w)" by fastforce
  have "j < length flds" if "entry_of m flds nm = Some j" for j nm using that by (auto simp: entry_of_def find_Some_iff)
  then show ?case using Cons by (auto simp: kv wanted_def split: if_splits option.splits)
qed simp

text \<open>C29: One walk over an object reads it as a table says. Where no two entries have one name, the walk converts,
  in the order of the document, the first member of every name the table has, and passes over a null whose entry does
  not ask for a handle. It answers success, or what the first conversion that is refused answers; the mask names exactly
  the entries that were read before; their targets hold what their conversions give, and every other byte is as it
  was, but for what the refused conversion clears.
\<close>

theorem read_object_fills:
  fixes hex :: addr and m :: mem
  assumes "payload object = YY_OBJ members" "0 < length flds" "length flds \<le> 64" "keys_distinct m flds"
    and "\<forall>(key, v)\<in>set members. get_len key \<le> UINT32_MAX"
    and "jobs_ok hex (names flds members) m (map (job_of flds) (object_reads m flds {} members))"
  shows "let picks = object_reads m flds {} members; jobs = map (job_of flds) picks
    in \<exists>found m'. arnm_json_read_object hex m (Some object) (Some flds) (length flds) = Some (jobs_result m jobs, found, m') \<and>
      (\<forall>i. bit found i \<longleftrightarrow> i \<in> fst ` set (take (length (jobs_done m jobs)) picks)) \<and> jobs_leave hex m jobs m'"
proof -
  define picks where "picks = object_reads m flds {} members"
  obtain m' where m': "run_jobs hex m (map (job_of flds) picks) =
      Some (jobs_result m (map (job_of flds) picks), length (jobs_done m (map (job_of flds) picks)), m')"
    "jobs_leave hex m (map (job_of flds) picks) m'"
    using run_jobs_done [OF assms(6)] unfolding picks_def by blast
  have "walk_members hex flds (length flds) (valid (length flds)) 0 0 m members =
      map_option (\<lambda>(r, n, m'). (r, 0 OR entries_mask (map fst (take n picks)), m')) (run_jobs hex m (map (job_of flds) picks))"
    unfolding picks_def by (rule walk_is_jobs [OF assms(4,3) _ assms(5) order.refl assms(6)]) simp
  then have "arnm_json_read_object hex m (Some object) (Some flds) (length flds) =
      Some (jobs_result m (map (job_of flds) picks), entries_mask (map fst (take (length (jobs_done m (map (job_of flds) picks))) picks)), m')"
    using assms(1-3) m'(1) by (simp add: arnm_json_read_object_def ARNM_JSON_FIELDS_MAX_def Let_def valid_def [symmetric])
  moreover have "bit (entries_mask (map fst (take n picks))) i \<longleftrightarrow> i \<in> fst ` set (take n picks)" for n i
  proof -
    have "\<forall>i\<in>set (map fst (take n picks)). i < 64"
      using object_reads_bounded assms(3) unfolding picks_def by (force dest: in_set_takeD)
    from bit_entries_mask [OF this] show ?thesis by simp
  qed
  ultimately show ?thesis using m'(2) unfolding picks_def Let_def by blast
qed

text \<open>One walk over an array fills the slots of a buffer, each as wide as the type says, with its elements in
  order, a null taking no slot but where handles are asked for. It answers success, or what the first element that is
  refused answers, and how many slots were filled; those slots hold what the conversions give, and every other
  byte is as it was, but for what the refused conversion clears.
\<close>

theorem read_array_fills:
  fixes hex :: addr and m :: mem
  assumes "payload array = YY_ARR elements" "out_values \<noteq> NULL" "0 < type" "type \<le> ARNM_JSON_FIELD_TYPE_VALUE"
    and "0 < cap" "length elements \<le> cap" "cap \<le> UINT32_MAX"
    and "jobs_ok hex {} m (array_jobs out_values type elements)"
  shows "let jobs = array_jobs out_values type elements
    in \<exists>m'. arnm_json_read_array hex m (Some array) type out_values cap = Some (jobs_result m jobs, length (jobs_done m jobs), m') \<and>
      jobs_leave hex m jobs m'"
proof -
  define jobs where "jobs = array_jobs out_values type elements"
  obtain m' where m': "run_jobs hex m jobs = Some (jobs_result m jobs, length (jobs_done m jobs), m')" "jobs_leave hex m jobs m'"
    using run_jobs_done [OF assms(8)] unfolding jobs_def by blast
  have "\<forall>t\<in>set [1..<11]. json_element_size t \<noteq> 0" by code_simp
  moreover have "type \<in> set [1..<11]" using assms(3,4) by simp
  ultimately have "json_element_size type \<noteq> 0" by blast
  then have "arnm_json_read_array hex m (Some array) type out_values cap = Some (jobs_result m jobs, length (jobs_done m jobs), m')"
    using assms fill_is_jobs [of 0 elements hex type out_values m] m'(1) unfolding jobs_def
    by (simp add: arnm_json_read_array_def Let_def)
  then show ?thesis using m'(2) unfolding jobs_def Let_def by blast
qed

text \<open>A document to try it on: an object with the members \<^verbatim>\<open>a\<close>, \<^verbatim>\<open>b\<close>, \<^verbatim>\<open>a\<close> again and \<^verbatim>\<open>id\<close>, and a table of three entries.\<close>

definition sample_doc :: mem where
  "sample_doc = wr (wr (wr (wr (wr (wr (\<lambda>_. 0) 100 [97]) 102 [98]) 104 [105, 100]) 108 [48, 102]) 200 (le_bytes 8 300)) 208 (le_bytes 4 1)"

definition sample_members :: "(yyjson_val \<times> yyjson_val) list" where
  "sample_members =
    [(YYJSON_VAL 1000 (YY_STR 100 1), YYJSON_VAL 1016 (YY_UINT 7)), (YYJSON_VAL 1032 (YY_STR 102 1), YYJSON_VAL 1048 YY_NULL),
     (YYJSON_VAL 1064 (YY_STR 100 1), YYJSON_VAL 1080 (YY_UINT 9)), (YYJSON_VAL 1096 (YY_STR 104 2), YYJSON_VAL 1112 (YY_STR 108 2))]"

definition sample_table :: "json_field list" where
  "sample_table =
    [\<lparr>jf_key = 104, jf_key_length = 2, jf_type = ARNM_JSON_FIELD_TYPE_HEX_FIXED, jf_target = 200\<rparr>,
     \<lparr>jf_key = 100, jf_key_length = 1, jf_type = ARNM_JSON_FIELD_TYPE_UINT32, jf_target = 400\<rparr>,
     \<lparr>jf_key = 102, jf_key_length = 1, jf_type = ARNM_JSON_FIELD_TYPE_BOOL, jf_target = 500\<rparr>]"

lemma sample_bytes:
  "rd sample_doc 100 (Suc 0) = [97]" "rd sample_doc 102 (Suc 0) = [98]" "rd sample_doc 104 2 = [105, 100]" "rd sample_doc 108 2 = [48, 102]"
  "arnm_load_ptr sample_doc 200 = 300" "load_le 4 sample_doc 208 = 1" "sample_doc 110 = 0"
proof -
  show "rd sample_doc 100 (Suc 0) = [97]" "rd sample_doc 102 (Suc 0) = [98]" "rd sample_doc 104 2 = [105, 100]" "rd sample_doc 108 2 = [48, 102]"
    by (simp_all add: sample_doc_def mem_simps)
  have "rd sample_doc 200 8 = le_bytes 8 300" "rd sample_doc 208 4 = le_bytes 4 1" by (simp_all add: sample_doc_def mem_simps)
  then show "arnm_load_ptr sample_doc 200 = 300" "load_le 4 sample_doc 208 = 1"
    using load_le_rd [of sample_doc 200 8 300] load_le_rd [of sample_doc 208 4 1] by (simp_all add: arnm_load_ptr_def load_le_def)
  show "sample_doc 110 = 0" by (simp add: sample_doc_def wr_def)
qed

lemma sample_reads:
  "object_reads sample_doc sample_table {} sample_members = [(Suc 0, YYJSON_VAL 1016 (YY_UINT 7)), (0, YYJSON_VAL 1112 (YY_STR 108 2))]"
  "keys_distinct sample_doc sample_table"
  by (simp_all add: sample_members_def sample_table_def wanted_def entry_of_def key_of_def name_of_def get_str_def get_len_def
      is_null_def sample_bytes upt_rec keys_distinct_def)

lemma sample_outcomes:
  "outcome sample_doc (400, 3, YYJSON_VAL 1016 (YY_UINT 7)) = (ARNM_SUCCESS, 400, [7, 0, 0, 0])"
  "outcome sample_doc (200, 6, YYJSON_VAL 1112 (YY_STR 108 2)) = (ARNM_SUCCESS, 300, [15])"
  by (simp_all add: outcome_def conversion_in_def conversion_def integer_of_def integer_range_def json_element_size_def le_bytes_def upt_rec
      get_str_def get_len_def is_str_def sample_bytes hex_value_def)

lemma four: "Suc (Suc (Suc (Suc 0))) = 4"
  by simp

lemma read_object_fills_witness:
  "\<exists>found m'. arnm_json_read_object 600 sample_doc (Some (YYJSON_VAL 984 (YY_OBJ sample_members))) (Some sample_table) 3 =
      Some (ARNM_SUCCESS, found, m') \<and> bit found 0 \<and> bit found 1 \<and> \<not> bit found 2 \<and> rd m' 400 4 = [7, 0, 0, 0] \<and> rd m' 300 1 = [15]"
proof -
  define j1 j2 where "j1 = (400 :: addr, 3 :: nat, YYJSON_VAL 1016 (YY_UINT 7))" and "j2 = (200 :: addr, 6 :: nat, YYJSON_VAL 1112 (YY_STR 108 2))"
  have o: "outcome sample_doc j1 = (ARNM_SUCCESS, 400, [7, 0, 0, 0])" "outcome sample_doc j2 = (ARNM_SUCCESS, 300, [15])"
    unfolding j1_def j2_def by (rule sample_outcomes)+
  have jobs: "map (job_of sample_table) (object_reads sample_doc sample_table {} sample_members) = [j1, j2]"
    unfolding sample_reads(1) by (simp add: job_of_def j1_def j2_def sample_table_def)
  have w: "job_writes sample_doc j1 = region 400 4" "job_writes sample_doc j2 = region 300 1"
    "job_reads j1 = region 0 1" "job_reads j2 = region 200 12 \<union> region 108 3"
    by (simp_all add: job_writes_def o four) (simp_all add: job_reads_def j1_def j2_def get_str_def get_len_def)
  have n: "names sample_table sample_members = region 100 1 \<union> region 102 1 \<union> region 104 2"
    by (auto simp: names_def sample_table_def sample_members_def get_str_def get_len_def)
  have ok: "jobs_ok 600 (names sample_table sample_members) sample_doc [j1, j2]"
    unfolding jobs_ok_def n by (auto simp: job_ok_def jobs_apart_def w value_ok_def j1_def [symmetric] j2_def [symmetric])
       (auto simp: j1_def j2_def value_ok_def get_str_def get_len_def sample_bytes UINT32_MAX_def)
  have d: "jobs_done sample_doc [j1, j2] = [j1, j2]" "jobs_result sample_doc [j1, j2] = ARNM_SUCCESS"
    by (simp_all add: jobs_done_def jobs_result_def converts_def o)
  have len: "length sample_table = 3" by (simp add: sample_table_def)
  have small: "\<forall>(key, v)\<in>set sample_members. get_len key \<le> UINT32_MAX"
    by (simp add: sample_members_def get_len_def UINT32_MAX_def)
  have all: "take (length [j1, j2]) (object_reads sample_doc sample_table {} sample_members) =
      [(Suc 0, YYJSON_VAL 1016 (YY_UINT 7)), (0, YYJSON_VAL 1112 (YY_STR 108 2))]" by (simp add: sample_reads(1))
  obtain found m' where f: "arnm_json_read_object 600 sample_doc (Some (YYJSON_VAL 984 (YY_OBJ sample_members))) (Some sample_table) 3 =
      Some (ARNM_SUCCESS, found, m')"
    "\<forall>i. bit found i \<longleftrightarrow> i \<in> fst ` set [(Suc 0, YYJSON_VAL 1016 (YY_UINT 7)), (0, YYJSON_VAL 1112 (YY_STR 108 2))]"
    "jobs_leave 600 sample_doc [j1, j2] m'"
    using read_object_fills [of "YYJSON_VAL 984 (YY_OBJ sample_members)" sample_members sample_table sample_doc 600, unfolded jobs Let_def d all len]
      ok sample_reads(2) small by auto
  then show ?thesis unfolding jobs_leave_def d by (auto simp: o four)
qed

lemma read_array_fills_witness:
  "\<exists>m'. arnm_json_read_array 600 (\<lambda>_. 0) (Some (YYJSON_VAL 984 (YY_ARR [YYJSON_VAL 1000 (YY_UINT 1), YYJSON_VAL 1016 YY_NULL,
      YYJSON_VAL 1032 (YY_SINT 3), YYJSON_VAL 1048 (YY_SINT (- 1))]))) ARNM_JSON_FIELD_TYPE_UINT32 400 8 =
      Some (ARNM_ERROR_ARITHMETIC_OVERFLOW, 2, m') \<and> rd m' 400 4 = [1, 0, 0, 0] \<and> rd m' 404 4 = [3, 0, 0, 0]"
proof -
  define vs where "vs = [YYJSON_VAL 1000 (YY_UINT 1), YYJSON_VAL 1016 YY_NULL, YYJSON_VAL 1032 (YY_SINT 3), YYJSON_VAL 1048 (YY_SINT (- 1))]"
  define j1 j2 j3 where "j1 = (400 :: addr, 3 :: nat, YYJSON_VAL 1000 (YY_UINT 1))" and "j2 = (404 :: addr, 3 :: nat, YYJSON_VAL 1032 (YY_SINT 3))"
    and "j3 = (408 :: addr, 3 :: nat, YYJSON_VAL 1048 (YY_SINT (- 1)))"
  have o: "outcome (\<lambda>_. 0) j1 = (ARNM_SUCCESS, 400, [1, 0, 0, 0])" "outcome (\<lambda>_. 0) j2 = (ARNM_SUCCESS, 404, [3, 0, 0, 0])"
    "outcome (\<lambda>_. 0) j3 = (ARNM_ERROR_ARITHMETIC_OVERFLOW, 408, [])"
    by (simp_all add: j1_def j2_def j3_def outcome_def conversion_in_def conversion_def integer_of_def integer_range_def json_element_size_def
        le_bytes_def upt_rec)
  have jobs: "array_jobs 400 3 vs = [j1, j2, j3]"
    by (simp add: array_jobs_def vs_def is_null_def json_element_size_def j1_def j2_def j3_def)
  have w: "job_writes (\<lambda>_. 0) j1 = region 400 4" "job_writes (\<lambda>_. 0) j2 = region 404 4" "job_writes (\<lambda>_. 0) j3 = {}"
    "job_reads j1 = region 0 1" "job_reads j2 = region 0 1" "job_reads j3 = region 0 1"
    by (simp_all add: job_writes_def o four) (simp_all add: job_reads_def j1_def j2_def j3_def get_str_def get_len_def)
  have ok: "jobs_ok 600 {} (\<lambda>_. 0) [j1, j2, j3]"
    unfolding jobs_ok_def by (auto simp: job_ok_def jobs_apart_def w)
       (auto simp: j1_def j2_def j3_def value_ok_def get_str_def get_len_def)
  have d: "jobs_done (\<lambda>_. 0) [j1, j2, j3] = [j1, j2]" "jobs_result (\<lambda>_. 0) [j1, j2, j3] = ARNM_ERROR_ARITHMETIC_OVERFLOW"
    by (simp_all add: jobs_done_def jobs_result_def converts_def o)
  obtain m' where f: "arnm_json_read_array 600 (\<lambda>_. 0) (Some (YYJSON_VAL 984 (YY_ARR vs))) 3 400 8 =
      Some (ARNM_ERROR_ARITHMETIC_OVERFLOW, 2, m')" "jobs_leave 600 (\<lambda>_. 0) [j1, j2, j3] m'"
    using read_array_fills [of "YYJSON_VAL 984 (YY_ARR vs)" vs 400 3 8 600 "\<lambda>_. 0"] ok
    unfolding jobs Let_def d by (auto simp: vs_def UINT32_MAX_def)
  then show ?thesis unfolding jobs_leave_def d vs_def by (auto simp: o four)
qed

end
