(* ===== verification/Json_Memory.thy ===== *)
theory Json_Memory
  imports Json_Value Buffers
begin

text \<open>
  The seam where the memory of the third-party parser meets the allocator (\<^verbatim>\<open>src/json_memory.h\<close>). The parser
  frees without a size, the allocator needs one: the headered hooks keep it in eight bytes ahead of every
  block, the headerless ones beside the one block they have. The headered hooks also count what one run of
  blocks takes from an arena, so that a whole document can be given back in one step.

  The client is the parser, as far as the hooks can tell: any sequence of calls with the pointers they
  answered and of writes into those blocks. It resizes only blocks whose sizes, before and after, are multiples
  of eight, as the parser does with its arrays of 16-byte values; \<open>slack_is_lost\<close> at the end shows why that is needed.
\<close>

section \<open>The hooks that keep a header\<close>

record json_alc_context =
  arena_kept_bytes :: bool
  span_broken :: bool
  span_size :: nat

definition JSON_BLOCK_HEADER :: nat where "JSON_BLOCK_HEADER = 8"

definition JSON_BLOCK_MAX_PAYLOAD :: nat where "JSON_BLOCK_MAX_PAYLOAD = ARNM_MAX_ALLOC_SIZE - JSON_BLOCK_HEADER"

definition json_alc_span_reset :: "json_alc_context \<Rightarrow> json_alc_context" where
  "json_alc_span_reset state = state\<lparr>span_size := 0, span_broken := False\<rparr>"

definition json_alc_context_init :: "json_alc_context \<Rightarrow> json_alc_context" where
  "json_alc_context_init state = json_alc_span_reset (state\<lparr>arena_kept_bytes := False\<rparr>)"

text \<open>\<open>if (!state) { return NULL; }\<close> at the head of a hook; the allocator of the context is the \<open>ops\<close> of the hook.\<close>

definition with_context :: "(json_alc_context \<Rightarrow> 'w \<Rightarrow> addr \<times> json_alc_context \<times> 'w) \<Rightarrow> json_alc_context option \<Rightarrow> 'w \<Rightarrow>
    addr \<times> json_alc_context option \<times> 'w" where
  "with_context f context w =
    (case context of None \<Rightarrow> (NULL, None, w) | Some state \<Rightarrow> (case f state w of (p, state, w) \<Rightarrow> (p, Some state, w)))"

definition json_block_alloc :: "'w ops \<Rightarrow> nat \<Rightarrow> json_alc_context \<Rightarrow> 'w \<Rightarrow> addr \<times> json_alc_context \<times> 'w" where
  "json_block_alloc ops sz state w =
    (if sz = 0 \<or> sz > JSON_BLOCK_MAX_PAYLOAD then (NULL, state, w)
     else
       let total_size = sz + JSON_BLOCK_HEADER
       in case op_alloc ops total_size w of
            (result, block, w) \<Rightarrow>
              if result \<noteq> ARNM_SUCCESS then (NULL, state, w)
              else
                let w = op_set_mem ops (wr (op_mem ops w) block (le_bytes 4 total_size @ le_bytes 4 0)) w;
                    charged = ARNM_ALIGN8 total_size
                in (block + JSON_BLOCK_HEADER,
                    if charged > UINT32_MAX - span_size state then state\<lparr>span_broken := True\<rparr>
                    else state\<lparr>span_size := span_size state + charged\<rparr>, w))"

definition json_block_realloc :: "'w ops \<Rightarrow> addr \<Rightarrow> nat \<Rightarrow> json_alc_context \<Rightarrow> 'w \<Rightarrow> addr \<times> json_alc_context \<times> 'w" where
  "json_block_realloc ops p sz state w =
    (if p = NULL then json_block_alloc ops sz state w
     else if sz = 0 \<or> sz > JSON_BLOCK_MAX_PAYLOAD then (NULL, state, w)
     else
       let before = p - JSON_BLOCK_HEADER; reserved = load_le 4 (op_mem ops w) before;
           total_size = sz + JSON_BLOCK_HEADER; state = state\<lparr>span_broken := True\<rparr>
       in case op_realloc ops before reserved total_size w of
            (result, block, w) \<Rightarrow>
              if result \<noteq> ARNM_SUCCESS \<and> result \<noteq> ARNM_WARNING_ARENA_MEMORY_NOT_RECLAIMED then (NULL, state, w)
              else
                let w = (if result = ARNM_SUCCESS \<or> before \<noteq> block
                         then op_set_mem ops (wr (op_mem ops w) block (le_bytes 4 total_size)) w else w)
                in (block + JSON_BLOCK_HEADER, state, w))"

definition json_block_dispose :: "'w ops \<Rightarrow> addr \<Rightarrow> json_alc_context \<Rightarrow> 'w \<Rightarrow> json_alc_context \<times> 'w" where
  "json_block_dispose ops p state w =
    (if p = NULL then (state, w)
     else
       let block = p - JSON_BLOCK_HEADER; reserved = load_le 4 (op_mem ops w) block
       in case op_free ops block reserved w of
            (result, w) \<Rightarrow>
              if result = ARNM_WARNING_ARENA_MEMORY_NOT_RECLAIMED then (state\<lparr>arena_kept_bytes := True\<rparr>, w)
              else
                let charged = ARNM_ALIGN8 reserved
                in (state\<lparr>span_size := (if charged > span_size state then 0 else span_size state - charged)\<rparr>, w))"


section \<open>The hooks without one\<close>

text \<open>The context is the size of the one block there is, or 0.\<close>

definition json_buffer_alloc :: "'w ops \<Rightarrow> nat \<Rightarrow> nat \<Rightarrow> 'w \<Rightarrow> addr \<times> nat \<times> 'w" where
  "json_buffer_alloc ops sz state w =
    (if sz = 0 \<or> sz > ARNM_MAX_ALLOC_SIZE then (NULL, state, w)
     else case op_alloc ops sz w of
       (result, block, w) \<Rightarrow> if result \<noteq> ARNM_SUCCESS then (NULL, state, w) else (block, sz, w))"

definition json_buffer_realloc :: "'w ops \<Rightarrow> addr \<Rightarrow> nat \<Rightarrow> nat \<Rightarrow> 'w \<Rightarrow> addr \<times> nat \<times> 'w" where
  "json_buffer_realloc ops p sz state w =
    (if p = NULL then json_buffer_alloc ops sz state w
     else if sz = 0 \<or> sz > ARNM_MAX_ALLOC_SIZE then (NULL, state, w)
     else
       case op_realloc ops p state sz w of
         (result, block, w) \<Rightarrow>
           if result \<noteq> ARNM_SUCCESS \<and> result \<noteq> ARNM_WARNING_ARENA_MEMORY_NOT_RECLAIMED then (NULL, state, w)
           else (block, if result = ARNM_SUCCESS \<or> p \<noteq> block then sz else state, w))"

definition json_buffer_dispose :: "'w ops \<Rightarrow> addr \<Rightarrow> nat \<Rightarrow> 'w \<Rightarrow> nat \<times> 'w" where
  "json_buffer_dispose ops p state w = (if p = NULL then (state, w) else (0, snd (op_free ops p state w)))"

section \<open>Any client\<close>












section \<open>The hooks on the allocators of the library\<close>



section \<open>What the hooks promise\<close>




section \<open>A document given back in one step\<close>




lemma keeps_no_chain [simp]:
  fixes w :: world
  shows "chain_at m (set_handle k b w) = chain_at m w" "chain_at m (set_bytes n w) = chain_at m w"
  using chain_at_cong [of "set_handle k b w" w m] chain_at_cong [of "set_bytes n w" w m] by (simp_all add: set_handle_def set_bytes_def)





text \<open>An arena of 200 bytes behind the handle at 64.\<close>

definition sample_single :: world where
  "sample_single = snd (arnm_init_arena 64 200 sample_host)"

lemma sample_single_eq:
  "intern_of 64 sample_single = Some \<lparr>data = 4096, last_index = 0, capacity = 200, out_of_memory_capacity = 0,
     allocation_type = ARNM_ALLOC_TYPE_ARENA_OWNED\<rparr>"
  "chain_at 64 sample_single = None" "bytes_of sample_single = (\<lambda>_. 0)" "memory_sound 64 sample_single"
  by (simp_all add: sample_single_def sample_host_def arnm_init_arena_def init_arena_def arnm_alloc_def arnm_align8_u32_def
      ARNM_MAX_ALLOC_SIZE_def UINT32_MAX_def ARNM_ALIGN8_def is_default_alloc_def malloc_def fits_def chain_at_def set_handle_def
      memory_sound_def flat_sound_def intern_of_def arena_ok_def host_ok_def blocks_ok_Cons)

lemmas hook_eval = json_block_alloc_def json_block_realloc_def json_block_dispose_def Let_def JSON_BLOCK_HEADER_def
  JSON_BLOCK_MAX_PAYLOAD_def memory_ops_def memory_alloc_def memory_realloc_def memory_free_def arnm_alloc_def arnm_realloc_def
  arnm_free_def arena_alloc_aligned_def account_capacity_exceeded_def remaining_bytes_def is_default_alloc_def is_arena_def
  is_single_arena_reclaimable_def arnm_align8_u32_def ARNM_MAX_ALLOC_SIZE_def UINT32_MAX_def ARNM_ALIGN8_def

lemma load_le_here: "v < 2 ^ 32 \<Longrightarrow> load_le 4 (wr m a (le_bytes 4 v @ bs)) a = v"
proof -
  assume "v < 2 ^ 32"
  have "rd (wr m a (le_bytes 4 v @ bs)) a 4 = le_bytes 4 v" by (simp add: rd_eq_iff wr_in nth_append)
  from load_le_rd [OF this] show ?thesis using \<open>v < 2 ^ 32\<close> by simp
qed

lemma load_le_elsewhere: "b + length bs \<le> a \<or> a + n \<le> b \<Longrightarrow> load_le n (wr m b bs) a = load_le n m a"
  by (auto simp: load_le_def wr_def)

lemma load_le_upd: "x < a \<or> a + n \<le> x \<Longrightarrow> load_le n (m(x := v)) a = load_le n m a"
  by (auto simp: load_le_def)


section \<open>Why the sizes must be whole steps\<close>

text \<open>
  A block of 5 bytes, buried under another, is resized to 7: that fits the eight-byte step it has, the allocator keeps
  it where it is and answers the warning, and the header keeps the size it had. The seventh byte is written. The next
  resize copies as many bytes as the header says, and the byte is gone.
\<close>

lemma slack_is_lost:
  "let ops = memory_ops 64; context = json_alc_context_init \<lparr>arena_kept_bytes = False, span_broken = False, span_size = 0\<rparr>
   in case json_block_alloc ops 5 context sample_single of (p, context, w) \<Rightarrow>
     (case json_block_alloc ops 1 context w of (_, context, w) \<Rightarrow>
     (case json_block_realloc ops p 7 context w of (p7, context, w) \<Rightarrow>
     (case json_block_realloc ops p7 40 context (set_bytes ((bytes_of w)(p7 + 6 := 9)) w) of (p40, context, w) \<Rightarrow>
       p7 = p \<and> p40 \<noteq> NULL \<and> bytes_of w (p40 + 6) = 0)))"
  by (simp add: json_alc_span_reset_def json_alc_context_init_def hook_eval sample_single_eq load_le_here load_le_elsewhere load_le_upd)
    (simp add: wr_def memcpy_def)

end
