(* ===== verification/Spec2Isabelle.thy ===== *)
theory Spec2Isabelle
  imports Results Decimal Hex Base64 Utf8 Multi_Arena Hash Key_Map Fixed_Ring Buffers
    Fixed_Arena_Pool Dynamic_Arena_Pool Graded_Arena_Pool Graded_Block_Pool Roaring_Set Roaring_Algebra Roaring_Query Mono_Timer Json_Walk Json_Memory
begin

text \<open>
  arnm is a C library that hands out memory without keeping a size beside the block: every caller says the size
  again when it gives a block back, and in exchange one handle serves the C heap, a single arena or a chain of
  arenas alike. On that handle it builds containers, pools, sets of integers and bridges to text. This
  development translates the library function by function and proves what its headers promise. File names below
  are relative to \<^verbatim>\<open>src/\<close> of the repository.

  \<^bold>\<open>Conventions.\<close> An address is a natural number, 0 is NULL, and the memory is a function from addresses to bytes;
  a \<^verbatim>\<open>uint32_t\<close> that is counted with is a natural number with \<open>u32\<close>, \<open>sub32\<close> and the like around every operation
  that can wrap, one that is taken apart bit by bit is a machine word. An out-parameter is passed in with its old
  value and returned with its new one, so that "a failure leaves the outputs alone" is an equation. State is passed
  and returned; a refusal is a constructor of \<open>arnm_result\<close>, the enumeration of \<^verbatim>\<open>include/arnm/result.h\<close>. Functions
  keep their C names.

  \<^bold>\<open>Ground.\<close> \<open>Prelude\<close> holds the memory and the arithmetic, \<open>Results\<close> the result codes and their texts
  (\<^verbatim>\<open>src/result.c\<close>), \<open>Bits\<close> the powers of two and bit scans (\<^verbatim>\<open>include/arnm/bit.h\<close>, \<^verbatim>\<open>include/arnm/bitmap.h\<close>), \<open>Doubles\<close> the
  rounding of \<open>double\<close>. \<open>Host\<close> is the heap of the C library: an oracle answers each request and every
  theorem holds for all oracles, for a heap that runs out at any moment too.

  \<^bold>\<open>Memory.\<close> \<open>Allocator\<close> states the contract every container relies on as the locales \<open>arnm_lender\<close> and
  \<open>arnm_allocator\<close> (what a request, a resize and a release may do to the blocks of others) and proves
  once, for any program of requests and writes, that live blocks stay apart and keep their bytes. \<open>Arena\<close> models
  \<^verbatim>\<open>src/memory.c\<close> and \<^verbatim>\<open>src/memory_intern.h\<close> for the heap and the single arena, \<open>Multi_Arena\<close> the chain of arenas
  with its mark of the first open one, and both discharge the contract by interpretation. \<open>Pool_Client\<close>,
  \<open>Fixed_Arena_Pool\<close>, \<open>Dynamic_Arena_Pool\<close> and \<open>Graded_Arena_Pool\<close> lend whole arenas (\<^verbatim>\<open>src/fixed_arena_pool.c\<close>,
  \<^verbatim>\<open>src/dynamic_arena_pool.c\<close>, \<^verbatim>\<open>src/graded_arena_pool.c\<close>, \<^verbatim>\<open>src/arena_free_list.h\<close>); \<open>Graded_Block_Pool\<close> lends
  blocks of power-of-two sizes (\<^verbatim>\<open>src/graded_block_pool.c\<close>), whose books lie in the memory it lends: it is a lender
  but no allocator, and meets its contract for clients that write to their own blocks only.

  \<^bold>\<open>Containers.\<close> \<open>Bucket_Vector\<close> (\<^verbatim>\<open>src/bucket_vector.c\<close>), \<open>Key_Map\<close> (\<^verbatim>\<open>src/key_map.c\<close>), \<open>Fixed_Ring\<close>
  (\<^verbatim>\<open>src/fixed_ring.c\<close>) and \<open>Buffers\<close> (\<^verbatim>\<open>include/arnm/memory_block.h\<close>, \<^verbatim>\<open>include/arnm/byte_buffer.h\<close>) are written against
  the contract alone. Each has an abstract run (a list, a numbering of keys, a queue) and a refinement theorem for
  every sequence of its operations, refusals included. \<open>Hash\<close> is \<^verbatim>\<open>include/arnm/hash.h\<close>, checked proved to be
  SipHash as its authors define it.

  \<^bold>\<open>Sets of integers.\<close> \<open>Block_Lending\<close> is the contract the sets have with the pool of blocks. \<open>Roaring_Words\<close>,
  \<open>Roaring_Bitmap\<close> and \<open>Roaring_Read\<close> model \<^verbatim>\<open>src/roaring_bitmap.c\<close>: arrays of values, array and bitmap containers,
  adding, counting, selecting and paging. \<open>Roaring_Source\<close>, \<open>Roaring_Kernels\<close> and \<open>Roaring_Ops\<close> model
  \<^verbatim>\<open>src/roaring_ops.c\<close>; \<open>Roaring_Set\<close> and \<open>Roaring_Algebra\<close> interpret the contract on the pool and hold the theorems:
  what a run of additions holds, and that and, or, and-not and copying a range are exact. The queries of
  \<^verbatim>\<open>src/roaring_query.c\<close> are in \<open>Roaring_Merge\<close> (merging runs), \<open>Roaring_Sparse_Union\<close>, \<open>Roaring_Key_Union\<close>,
  \<open>Roaring_Key_Page\<close>, \<open>Roaring_Query_Key\<close> (the answer for one key), \<open>Roaring_Walk\<close>, \<open>Roaring_Walk_Proofs\<close>,
  \<open>Roaring_Walk_Next\<close> (the walk over the keys, which ends and misses nothing) and \<open>Roaring_Query\<close> (count, page, listing).

  \<^bold>\<open>Text.\<close> \<open>Decimal\<close>, \<open>Hex\<close> and \<open>Base64\<close> are \<^verbatim>\<open>src/converter.c\<close> with its round trips and its refusals, \<open>Utf8\<close> is
  \<^verbatim>\<open>src/utf8.c\<close> against the grammar of Unicode, \<open>Duration\<close> and \<open>Mono_Timer\<close> are \<^verbatim>\<open>src/duration.c\<close> and
  \<^verbatim>\<open>src/mono_timer.c\<close>, the second with every operation on an \<^verbatim>\<open>int64_t\<close> checked for overflow.

  \<^bold>\<open>JSON.\<close> The library reads JSON through the third-party parser yyjson. What the parser leaves behind is a tree of
  values, as it documents them; \<open>Json_Value\<close> models the conversion of one of them into a typed target and
  \<open>Json_Walk\<close> the two calls that read an object or an array in one walk (\<^verbatim>\<open>src/json_reader.c\<close>): exactly the
  entries asked for are filled, in document order, up to the first refusal. \<open>Json_Memory\<close> models the hooks through
  which the parser allocates (\<^verbatim>\<open>src/json_memory.h\<close>), with the parser as any sequence of calls and writes: its blocks
  stay apart and a document is given back in one step. A locale extends the contract of the allocator
  by the one law the hooks need more, and is interpreted on the same handles.

  \<^bold>\<open>Loops.\<close> A loop over a counter is a structural recursion. A loop whose end is a matter of the data (probing a
  table, walking a free list, scanning for a terminator, merging, the walk of a query) is a
  \<open>partial_function\<close> whose value is \<open>None\<close> when it never returns, and the theorems say that it
  returns; nothing is given fuel.

  \<^bold>\<open>Not modelled.\<close> The tests, benchmarks and bindings; the wrappers that the macros of the headers generate around the
  modelled functions for a caller's type; the reading of the operating system's clock, which is an
  argument; atomicity, since the library is used by one thread at a time.
  The parser and the serializer of the vendored third-party library yyjson (\<^verbatim>\<open>third_party/yyjson\<close>) are left aside;
  the life cycle of a reader and the writer (\<^verbatim>\<open>src/json_writer.c\<close>) drive them and are left out.
\<close>

end
